(* ===== verification/Prelude.thy ===== *)
theory Prelude
  imports Main "HOL-Library.Word" "HOL-Library.Monad_Syntax"
begin

unbundle bit_operations_syntax

section \<open>Shared vocabulary of the development\<close>

text \<open>
  Machine integers of the sources (\<open>rt_uint8_t\<close>, \<open>rt_uint16_t\<close>,
  \<open>rt_uint32_t\<close>, \<open>rt_tick_t\<close>) are words of the same width, so addition and
  subtraction wrap around as they do in C.  A computation that may be cut short by a failed
  \<open>RT_ASSERT\<close>, a null pointer or the use of a list head as a thread is a value of an
  \<open>option\<close> type: \<open>None\<close> is a halted or undefined machine.  This theory also
  collects the generic facts on words, lists and guards that the components share.
\<close>

type_synonym u8 = "8 word"
type_synonym u16 = "16 word"
type_synonym u32 = "32 word"

named_theorems kdefs \<open>definitions of primitive kernel operations, unfolded by simplification\<close>
named_theorems kframe \<open>what a kernel operation leaves unchanged\<close>

subsection \<open>Guards\<close>

text \<open>\<open>require P\<close> is \<open>RT_ASSERT(P)\<close>: it halts when \<open>P\<close> fails.\<close>

definition require :: "bool \<Rightarrow> unit option" where
  "require P = (if P then Some () else None)"

lemma require_Some_iff [simp]: "require P = Some u \<longleftrightarrow> P"
  by (simp add: require_def)

lemma require_True [simp]: "require True = Some ()"
  by (simp add: require_def)

lemma require_bind_Some_iff [simp]: "Option.bind (require P) f = Some y \<longleftrightarrow> P \<and> f () = Some y"
  by (simp add: require_def)

lemma require_bind_if: "Option.bind (require P) f = (if P then f () else None)"
  by (simp add: require_def)

text \<open>
  \<open>returns m Q\<close>: the computation does not halt and its result satisfies \<open>Q\<close>.  The rules
  below compute it along the \<open>do\<close> blocks of the model; \<open>returns_mono\<close> applies what is known
  of a called operation.
\<close>

definition returns :: "'a option \<Rightarrow> ('a \<Rightarrow> bool) \<Rightarrow> bool" where
  "returns m Q \<longleftrightarrow> (\<exists>x. m = Some x \<and> Q x)"

lemma returns_simps [simp]:
  "returns (Some x) Q \<longleftrightarrow> Q x"
  "returns None Q \<longleftrightarrow> False"
  "returns (require P) U \<longleftrightarrow> P \<and> U ()"
  by (auto simp: returns_def require_def)

lemma returns_bind [simp]: "returns (Option.bind m f) Q \<longleftrightarrow> returns m (\<lambda>x. returns (f x) Q)"
  by (cases m) auto

lemma returns_if [simp]:
  "returns (if b then x else y) Q \<longleftrightarrow> (if b then returns x Q else returns y Q)"
  by simp

lemma returns_prod [simp]:
  "returns (case p of (a, b) \<Rightarrow> f a b) Q \<longleftrightarrow> (case p of (a, b) \<Rightarrow> returns (f a b) Q)"
  by (cases p) simp

lemma returns_mono: "returns m P \<Longrightarrow> (\<And>x. P x \<Longrightarrow> Q x) \<Longrightarrow> returns m Q"
  by (auto simp: returns_def)

lemma returns_conj: "returns m P \<Longrightarrow> returns m Q \<Longrightarrow> returns m (\<lambda>x. P x \<and> Q x)"
  by (auto simp: returns_def)

lemma returnsE:
  assumes "returns m Q"
  obtains x where "m = Some x" "Q x"
  using assms by (auto simp: returns_def)

lemma returnsI: "m = Some x \<Longrightarrow> Q x \<Longrightarrow> returns m Q"
  by simp

lemma returnsD: "returns m Q \<Longrightarrow> m = Some x \<Longrightarrow> Q x"
  by simp

subsection \<open>Lists that hold a node at most once\<close>

definition list_del :: "'a \<Rightarrow> 'a list \<Rightarrow> 'a list" where
  "list_del x xs = filter (\<lambda>y. y \<noteq> x) xs"

lemma set_list_del [simp]: "set (list_del x xs) = set xs - {x}"
  by (auto simp: list_del_def)

lemma distinct_list_del [intro, simp]: "distinct xs \<Longrightarrow> distinct (list_del x xs)"
  by (simp add: list_del_def)

lemma list_del_Nil [simp]: "list_del x [] = []"
  by (simp add: list_del_def)

lemma list_del_Cons [simp]: "list_del x (y # ys) = (if y = x then list_del x ys else y # list_del x ys)"
  by (simp add: list_del_def)

lemma list_del_notin: "x \<notin> set xs \<Longrightarrow> list_del x xs = xs"
  by (induction xs) auto

lemma list_del_append [simp]: "list_del x (xs @ ys) = list_del x xs @ list_del x ys"
  by (simp add: list_del_def)

lemma list_del_distinct_hd: "distinct (x # xs) \<Longrightarrow> list_del x (x # xs) = xs"
  by (simp add: list_del_notin)

lemma list_del_remove1: "distinct xs \<Longrightarrow> list_del x xs = remove1 x xs"
  by (simp add: list_del_def distinct_remove1_removeAll removeAll_filter_not_eq eq_commute)

lemma length_list_del_le: "length (list_del x xs) \<le> length xs"
  by (simp add: list_del_def)

lemma length_list_del: "x \<in> set xs \<Longrightarrow> distinct xs \<Longrightarrow> length (list_del x xs) = length xs - 1"
  by (simp add: list_del_remove1 length_remove1)

lemma sorted_wrt_list_del: "sorted_wrt P xs \<Longrightarrow> sorted_wrt P (list_del x xs)"
  by (simp add: list_del_def sorted_wrt_filter)

subsection \<open>Single bits and low fields of words\<close>

lemma bit_mask_word: "n < LENGTH('a) \<Longrightarrow> bit (push_bit n (1 :: 'a::len word)) m \<longleftrightarrow> m = n"
  by (auto simp: bit_exp_iff)

lemma word_zero_iff_no_bit: "(w :: 'a::len word) = 0 \<longleftrightarrow> (\<forall>n. \<not> bit w n)"
  by (auto simp: bit_eq_iff dest: bit_imp_le_length)

lemma or_not_and_field: "((c OR (s AND NOT m)) AND m) = (c AND m)" for c s m :: "'a::len word"
  by (rule bit_word_eqI) (auto simp: bit_simps)

lemma or_not_and_outside: "((c OR (s AND NOT m)) AND NOT m) = (c OR s) AND NOT m" for c s m :: "'a::len word"
  by (rule bit_word_eqI) (auto simp: bit_simps)

subsection \<open>Wrap-around differences\<close>

text \<open>
  The kernel compares ticks by the wrapped difference: \<open>a\<close> is not before \<open>b\<close> when
  \<open>a - b\<close>, as an unsigned word, is below half the range.  Relative to a base tick from which
  both are less than half the range away, this is the order of the distances.
\<close>

definition ahead :: "u32 \<Rightarrow> u32 \<Rightarrow> nat" where
  "ahead b t = unat (t - b)"

lemma ahead_self [simp]: "ahead b b = 0"
  by (simp add: ahead_def)

lemma ahead_inj: "ahead b x = ahead b y \<longleftrightarrow> x = y"
  by (simp add: ahead_def flip: word_unat_eq_iff)

lemma ahead_less_size: "ahead b t < 2 ^ 32"
  using unsigned_less [of "t - b"] by (simp add: ahead_def)

lemma ahead_add: "ahead b (b + d) = unat d"
  by (simp add: ahead_def)

lemma unat_diff_cases:
  "unat (x - y) = (if ahead b y \<le> ahead b x then ahead b x - ahead b y
                   else 2 ^ 32 - (ahead b y - ahead b x))"
proof -
  have "x - y = (x - b) - (y - b)" by simp
  then have "unat (x - y) = unat ((x - b) - (y - b))" by simp
  also have "\<dots> = (if ahead b y \<le> ahead b x then ahead b x - ahead b y
                   else ahead b x + 2 ^ 32 - ahead b y)"
    unfolding ahead_def by (subst unat_sub_if') simp
  finally show ?thesis
    using ahead_less_size [of b y] by (auto simp: not_le)
qed

lemma unat_diff_ahead:
  "ahead b y \<le> ahead b x \<Longrightarrow> unat (x - y) = ahead b x - ahead b y"
  by (simp add: unat_diff_cases [of x y b])

lemma unat_diff_behind:
  "ahead b x < ahead b y \<Longrightarrow> unat (x - y) = 2 ^ 32 - (ahead b y - ahead b x)"
  by (simp add: unat_diff_cases [of x y b])

lemma half_range_order:
  assumes "ahead b x < 2 ^ 31 - 1" "ahead b y < 2 ^ 31 - 1"
  shows "(x - y < 0x7FFFFFFF) \<longleftrightarrow> ahead b y \<le> ahead b x"
proof (cases "ahead b y \<le> ahead b x")
  case True
  then show ?thesis
    using assms by (simp add: word_less_nat_alt unat_diff_ahead)
next
  case False
  then have "unat (x - y) = 2 ^ 32 - (ahead b y - ahead b x)"
    by (intro unat_diff_behind) simp
  with False assms show ?thesis
    by (simp add: word_less_nat_alt)
qed

lemma unat_Suc_below: "unat (i :: u16) < unat (n :: u16) \<Longrightarrow> unat (i + 1) = Suc (unat i)"
  using unsigned_less [of n, where 'a = nat] by (simp add: unat_word_ariths)

text \<open>Places of a ring of \<open>n\<close> slots that are less than a round apart differ.\<close>

lemma mod_apart:
  assumes "i < j" "j < i + (n :: nat)"
  shows "i mod n \<noteq> j mod n"
proof
  assume "i mod n = j mod n"
  then have "n dvd j - i" using assms(1) by (metis mod_eq_dvd_iff_nat less_imp_le)
  then show False using assms by (auto dest: dvd_imp_le)
qed

end
