(* ===== verification/BlockPool.thy ===== *)
theory BlockPool
  imports Prelude
begin

section \<open>Pools of blocks\<close>

text \<open>
  The contract that the free list of a message queue and a memory pool have in common: blocks
  are handed out from the front of a list of free blocks and given back to its front.  Any
  sequence of the operations behaves as on the list, and no block is handed out twice.
\<close>

datatype 'b pool_op = Take_block | Give_block 'b

fun pool_run :: "('s \<Rightarrow> ('b \<times> 's) option) \<Rightarrow> ('b \<Rightarrow> 's \<Rightarrow> 's) \<Rightarrow> 'b pool_op list \<Rightarrow> 's \<Rightarrow> ('b list \<times> 's) option" where
  "pool_run tk give [] s = Some ([], s)"
| "pool_run tk give (Take_block # ops) s =
     Option.bind (tk s) (\<lambda>(b, s1). map_option (apfst ((#) b)) (pool_run tk give ops s1))"
| "pool_run tk give (Give_block b # ops) s = pool_run tk give ops (give b s)"

text \<open>The same on the list of free blocks and the set of the blocks that are out.\<close>

fun free_list_run :: "'b pool_op list \<Rightarrow> 'b list \<Rightarrow> 'b set \<Rightarrow> ('b list \<times> 'b list \<times> 'b set) option" where
  "free_list_run [] fs A = Some ([], fs, A)"
| "free_list_run (Take_block # ops) fs A =
     (case fs of [] \<Rightarrow> None | b # fs' \<Rightarrow> map_option (apfst ((#) b)) (free_list_run ops fs' (insert b A)))"
| "free_list_run (Give_block b # ops) fs A =
     (if b \<in> A then free_list_run ops (b # fs) (A - {b}) else None)"

locale block_pool =
  fixes rep :: "'s \<Rightarrow> 'b list \<Rightarrow> 'b set \<Rightarrow> bool"
    and tk :: "'s \<Rightarrow> ('b \<times> 's) option"
    and give :: "'b \<Rightarrow> 's \<Rightarrow> 's"
  assumes apart: "rep s fs A \<Longrightarrow> distinct fs \<and> A \<inter> set fs = {}"
    and take_law: "rep s (b # fs) A \<Longrightarrow> \<exists>s'. tk s = Some (b, s') \<and> rep s' fs (insert b A)"
    and give_law: "rep s fs A \<Longrightarrow> b \<in> A \<Longrightarrow> rep (give b s) (b # fs) (A - {b})"
begin

lemma taken_is_new: "rep s (b # fs) A \<Longrightarrow> b \<notin> A"
  using apart by fastforce

lemma give_then_take:
  assumes "rep s fs A" "b \<in> A"
  shows "\<exists>s'. tk (give b s) = Some (b, s') \<and> rep s' fs A"
proof -
  have "rep (give b s) (b # fs) (A - {b})" by (rule give_law [OF assms])
  from take_law [OF this] show ?thesis using assms(2) by (simp add: insert_absorb)
qed

lemma run_ok:
  assumes "rep s fs A" "free_list_run ops fs A = Some (out, fs', A')"
  shows "\<exists>s'. pool_run tk give ops s = Some (out, s') \<and> rep s' fs' A' \<and> set fs' \<union> A' = set fs \<union> A"
  using assms
proof (induction ops arbitrary: s fs A out)
  case (Cons op ops)
  show ?case
  proof (cases op)
    case Take_block
    then obtain b rest out' where f: "fs = b # rest" "out = b # out'" "free_list_run ops rest (insert b A) = Some (out', fs', A')"
      using Cons.prems(2) by (auto split: list.splits)
    obtain s1 where s1: "tk s = Some (b, s1)" "rep s1 rest (insert b A)" using take_law Cons.prems(1) f(1) by blast
    show ?thesis using Cons.IH [OF s1(2) f(3)] s1(1) f(1,2) Take_block by auto
  next
    case (Give_block b)
    then have b: "b \<in> A" "free_list_run ops (b # fs) (A - {b}) = Some (out, fs', A')"
      using Cons.prems(2) by (auto split: if_splits)
    show ?thesis using Cons.IH [OF give_law [OF Cons.prems(1) b(1)] b(2)] b(1) Give_block by auto
  qed
qed auto

end

end
