(* ===== verification/RtList.thy ===== *)
theory RtList
  imports Prelude
begin

section \<open>Intrusive doubly linked lists (rt-thread/include/rtservice.h)\<close>

text \<open>
  The kernel keeps every queue in circular doubly linked lists whose nodes live inside the
  structures they link.  This theory models the list operations on an explicit store of nodes
  (an address is mapped to its \<open>next\<close> and \<open>prev\<close> pointers), with every pointer
  write of the C code in the order of the code, and proves that they refine operations on HOL
  lists.  The contract they satisfy is the locale \<open>intrusive_lists\<close>; the queues of the
  kernel model (theory KState) satisfy the same contract, which is what justifies modelling
  them as HOL lists.
\<close>

type_synonym addr = nat

record rt_list_node =
  next_node :: addr
  prev_node :: addr

type_synonym node_store = "addr \<Rightarrow> rt_list_node"

definition set_next :: "addr \<Rightarrow> addr \<Rightarrow> node_store \<Rightarrow> node_store" where
  "set_next a b h = h(a := (h a)\<lparr>next_node := b\<rparr>)"

definition set_prev :: "addr \<Rightarrow> addr \<Rightarrow> node_store \<Rightarrow> node_store" where
  "set_prev a b h = h(a := (h a)\<lparr>prev_node := b\<rparr>)"

definition rt_list_init :: "addr \<Rightarrow> node_store \<Rightarrow> node_store" where
  "rt_list_init l h = set_next l l (set_prev l l h)"

definition rt_list_insert_after :: "addr \<Rightarrow> addr \<Rightarrow> node_store \<Rightarrow> node_store" where
  "rt_list_insert_after l n h =
     (let h1 = set_prev (next_node (h l)) n h;
          h2 = set_next n (next_node (h1 l)) h1;
          h3 = set_next l n h2
      in set_prev n l h3)"

definition rt_list_insert_before :: "addr \<Rightarrow> addr \<Rightarrow> node_store \<Rightarrow> node_store" where
  "rt_list_insert_before l n h =
     (let h1 = set_next (prev_node (h l)) n h;
          h2 = set_prev n (prev_node (h1 l)) h1;
          h3 = set_prev l n h2
      in set_next n l h3)"

definition rt_list_remove :: "addr \<Rightarrow> node_store \<Rightarrow> node_store" where
  "rt_list_remove n h =
     (let h1 = set_prev (next_node (h n)) (prev_node (h n)) h;
          h2 = set_next (prev_node (h1 n)) (next_node (h1 n)) h1;
          h3 = set_prev n n h2
      in set_next n n h3)"

definition rt_list_isempty :: "addr \<Rightarrow> node_store \<Rightarrow> bool" where
  "rt_list_isempty l h \<longleftrightarrow> next_node (h l) = l"

text \<open>
  The loop of \<open>rt_list_len\<close> need not end on a store that is not a ring, so it is a
  partial function; the counter is an \<open>unsigned int\<close>.
\<close>

partial_function (option) rt_list_len_loop :: "node_store \<Rightarrow> addr \<Rightarrow> addr \<Rightarrow> u32 \<Rightarrow> u32 option" where
  "rt_list_len_loop h l p len =
     (if next_node (h p) \<noteq> l then rt_list_len_loop h l (next_node (h p)) (len + 1) else Some len)"

definition rt_list_len :: "addr \<Rightarrow> node_store \<Rightarrow> u32 option" where
  "rt_list_len l h = rt_list_len_loop h l l 0"

subsection \<open>Rings\<close>

fun chain :: "node_store \<Rightarrow> addr list \<Rightarrow> bool" where
  "chain h (a # b # xs) \<longleftrightarrow> next_node (h a) = b \<and> prev_node (h b) = a \<and> chain h (b # xs)"
| "chain h _ \<longleftrightarrow> True"

definition ring :: "node_store \<Rightarrow> addr \<Rightarrow> addr list \<Rightarrow> bool" where
  "ring h l xs \<longleftrightarrow> distinct (l # xs) \<and> chain h (l # xs @ [l])"

lemma set_next_simps [simp]:
  "next_node (set_next a b h x) = (if x = a then b else next_node (h x))"
  "prev_node (set_next a b h x) = prev_node (h x)"
  by (simp_all add: set_next_def)

lemma set_prev_simps [simp]:
  "prev_node (set_prev a b h x) = (if x = a then b else prev_node (h x))"
  "next_node (set_prev a b h x) = next_node (h x)"
  by (simp_all add: set_prev_def)

lemma chain_append: "chain h (xs @ a # ys) \<longleftrightarrow> chain h (xs @ [a]) \<and> chain h (a # ys)"
proof (induction xs)
  case (Cons x xs)
  then show ?case by (cases xs) auto
qed simp

lemma chain_cong:
  assumes "\<And>x. x \<in> set (butlast zs) \<Longrightarrow> next_node (h' x) = next_node (h x)"
    and "\<And>x. x \<in> set (tl zs) \<Longrightarrow> prev_node (h' x) = prev_node (h x)"
  shows "chain h' zs = chain h zs"
  using assms
proof (induction zs)
  case (Cons z zs)
  note IH = Cons.IH and prems = Cons.prems
  show ?case
  proof (cases zs)
    case (Cons y ys)
    have "chain h' zs = chain h zs"
      using prems by (intro IH) (auto simp: Cons)
    then show ?thesis using prems by (auto simp: Cons)
  qed simp
qed simp

lemma chain_splice:
  assumes ch: "chain h (us @ a # b # vs)"
    and dn: "distinct (butlast (us @ a # b # vs))" and dp: "distinct (tl (us @ a # b # vs))"
    and n: "n \<notin> set (us @ a # b # vs)"
    and nx: "\<And>x. next_node (h' x) = (if x = a then n else if x = n then b else next_node (h x))"
    and pv: "\<And>x. prev_node (h' x) = (if x = b then n else if x = n then a else prev_node (h x))"
  shows "chain h' (us @ a # n # b # vs)"
proof -
  have split: "chain h (us @ [a])" "chain h (b # vs)"
    using ch chain_append [of h us a "b # vs"] by auto
  have bl: "butlast (us @ a # b # vs) = us @ a # butlast (b # vs)"
    by (simp add: butlast_append)
  have dn': "distinct us" "a \<notin> set us" "a \<notin> set (butlast (b # vs))"
    using dn unfolding bl by auto
  have tlu: "tl (us @ a # b # vs) = tl (us @ [a]) @ b # vs"
    by (cases us) auto
  have dp': "b \<notin> set (tl (us @ [a]))" "b \<notin> set vs"
    using dp unfolding tlu by auto
  have tls: "set (tl (us @ [a])) \<subseteq> set us \<union> {a}"
    by (cases us) auto
  have "chain h' (us @ [a]) = chain h (us @ [a])"
    using dn' dp' n tls by (intro chain_cong) (auto simp: nx pv)
  moreover have "set (butlast (b # vs)) \<subseteq> set (b # vs)"
    by (meson in_set_butlastD subsetI)
  then have "chain h' (b # vs) = chain h (b # vs)"
    using dn' dp' n by (intro chain_cong) (force simp: nx pv simp del: butlast.simps)+
  moreover have "chain h' [a, n, b]"
    using n by (auto simp: nx pv)
  ultimately show ?thesis
    using split chain_append [of h' us a "n # b # vs"] by simp
qed

lemma insert_after_ptrs:
  assumes "n \<noteq> a" "n \<noteq> next_node (h a)"
  shows "next_node (rt_list_insert_after a n h x)
           = (if x = a then n else if x = n then next_node (h a) else next_node (h x))"
    and "prev_node (rt_list_insert_after a n h x)
           = (if x = next_node (h a) then n else if x = n then a else prev_node (h x))"
  using assms by (auto simp: rt_list_insert_after_def)

lemma insert_before_ptrs:
  assumes "n \<noteq> b" "n \<noteq> prev_node (h b)"
  shows "next_node (rt_list_insert_before b n h x)
           = (if x = prev_node (h b) then n else if x = n then b else next_node (h x))"
    and "prev_node (rt_list_insert_before b n h x)
           = (if x = b then n else if x = n then prev_node (h b) else prev_node (h x))"
  using assms by (auto simp: rt_list_insert_before_def)

lemma ring_lists_distinct:
  assumes "distinct (l # xs)" "l # xs @ [l] = us @ a # b # vs"
  shows "distinct (butlast (us @ a # b # vs))" "distinct (tl (us @ a # b # vs))"
proof -
  show "distinct (butlast (us @ a # b # vs))"
    using assms(1) unfolding assms(2) [symmetric] by (simp add: butlast_append)
  show "distinct (tl (us @ a # b # vs))"
    using assms(1) unfolding assms(2) [symmetric] by simp
qed

subsection \<open>The operations on rings\<close>

lemma ring_rt_list_init: "ring (rt_list_init l h) l []"
  by (simp add: ring_def rt_list_init_def)

lemma ring_insert:
  assumes r: "ring h l xs" and n: "n \<notin> set (l # xs)" and sp: "l # xs @ [l] = us @ a # b # vs"
    and nx: "\<And>x. next_node (h' x) = (if x = a then n else if x = n then b else next_node (h x))"
    and pv: "\<And>x. prev_node (h' x) = (if x = b then n else if x = n then a else prev_node (h x))"
  shows "chain h' (us @ a # n # b # vs)"
proof (rule chain_splice [OF _ _ _ _ nx pv])
  show "chain h (us @ a # b # vs)" using r sp by (simp add: ring_def)
  show "distinct (butlast (us @ a # b # vs))" "distinct (tl (us @ a # b # vs))"
    using r ring_lists_distinct [OF _ sp] by (simp_all add: ring_def)
  have "set (us @ a # b # vs) = set (l # xs)" unfolding sp [symmetric] by auto
  then show "n \<notin> set (us @ a # b # vs)" using n by simp
qed

lemma ring_links:
  assumes r: "ring h l xs" and sp: "l # xs @ [l] = us @ a # b # vs"
  shows "next_node (h a) = b" "prev_node (h b) = a"
  using r chain_append [of h us a "b # vs"] by (auto simp: ring_def sp)

lemma ring_insert_after_head:
  assumes r: "ring h l xs" and n: "n \<notin> set (l # xs)"
  shows "ring (rt_list_insert_after l n h) l (n # xs)"
proof -
  obtain b vs where sp: "l # xs @ [l] = [] @ l # b # vs" by (cases xs) auto
  note lk = ring_links [OF r sp]
  have b: "b \<in> set (l # xs)" using sp by (cases xs) auto
  have ne: "n \<noteq> l" "n \<noteq> next_node (h l)" using n b lk by auto
  have "chain (rt_list_insert_after l n h) ([] @ l # n # b # vs)"
    by (rule ring_insert [OF r n sp]) (simp_all add: insert_after_ptrs [of n l h, OF ne] lk)
  then show ?thesis using r n sp by (simp add: ring_def)
qed

lemma ring_insert_before_head:
  assumes r: "ring h l xs" and n: "n \<notin> set (l # xs)"
  shows "ring (rt_list_insert_before l n h) l (xs @ [n])"
proof -
  have "l # xs @ [l] = butlast (l # xs) @ last (l # xs) # l # []"
    by (simp del: butlast.simps last.simps)
  then obtain us a where sp: "l # xs @ [l] = us @ a # l # []" and eq: "l # xs = us @ [a]"
    by (metis append_butlast_last_id list.distinct(1))
  note lk = ring_links [OF r sp]
  have a: "a \<in> set (l # xs)" unfolding eq by simp
  have ne: "n \<noteq> l" "n \<noteq> prev_node (h l)" using n a lk by auto
  have "chain (rt_list_insert_before l n h) (us @ a # n # l # [])"
    by (rule ring_insert [OF r n sp]) (simp_all add: insert_before_ptrs [of n l h, OF ne] lk)
  moreover have "us @ a # n # l # [] = l # (xs @ [n]) @ [l]" using eq by simp
  ultimately show ?thesis using r n by (simp add: ring_def)
qed

lemma ring_insert_before_node:
  assumes r: "ring h l (ys @ x # zs)" and n: "n \<notin> set (l # ys @ x # zs)"
  shows "ring (rt_list_insert_before x n h) l (ys @ n # x # zs)"
proof -
  have "l # ys = butlast (l # ys) @ [last (l # ys)]" by (simp del: butlast.simps last.simps)
  then obtain us a where eq: "l # ys = us @ [a]" by blast
  then have sp: "l # (ys @ x # zs) @ [l] = us @ a # x # (zs @ [l])" by simp
  note lk = ring_links [OF r sp]
  have a: "a \<in> set (l # ys)" unfolding eq by simp
  have ne: "n \<noteq> x" "n \<noteq> prev_node (h x)" using n a lk by auto
  have "chain (rt_list_insert_before x n h) (us @ a # n # x # (zs @ [l]))"
    by (rule ring_insert [OF r n sp]) (simp_all add: insert_before_ptrs [of n x h, OF ne] lk)
  moreover have "us @ a # n # x # (zs @ [l]) = l # (ys @ n # x # zs) @ [l]" using eq by simp
  ultimately show ?thesis using r n by (simp add: ring_def)
qed

lemma remove_ptrs:
  assumes "x \<noteq> next_node (h x)" "x \<noteq> prev_node (h x)"
  shows "next_node (rt_list_remove x h y)
           = (if y = x then x else if y = prev_node (h x) then next_node (h x) else next_node (h y))"
    and "prev_node (rt_list_remove x h y)
           = (if y = x then x else if y = next_node (h x) then prev_node (h x) else prev_node (h y))"
  using assms by (auto simp: rt_list_remove_def)

lemma chain_unsplice:
  assumes ch: "chain h (us @ a # x # b # vs)"
    and dn: "distinct (us @ [a])" and dp: "distinct (b # vs)"
    and da: "a \<notin> set (butlast (b # vs))" and db: "b \<notin> set (tl (us @ [a]))"
    and x: "x \<notin> set (us @ a # b # vs)"
    and nx: "\<And>y. next_node (h' y) = (if y = x then x else if y = a then b else next_node (h y))"
    and pv: "\<And>y. prev_node (h' y) = (if y = x then x else if y = b then a else prev_node (h y))"
  shows "chain h' (us @ a # b # vs)"
proof -
  have split: "chain h (us @ [a])" "chain h (b # vs)"
    using ch chain_append [of h us a "x # b # vs"] chain_append [of h "[a, x]" b vs] by auto
  have tls: "set (tl (us @ [a])) \<subseteq> set us \<union> {a}"
    by (cases us) auto
  have bls: "set (butlast (b # vs)) \<subseteq> set (b # vs)"
    by (meson in_set_butlastD subsetI)
  have "chain h' (us @ [a]) = chain h (us @ [a])"
    using dn db x tls by (intro chain_cong) (auto simp: nx pv)
  moreover have "chain h' (b # vs) = chain h (b # vs)"
    using dp da x bls by (intro chain_cong) (force simp: nx pv simp del: butlast.simps)+
  moreover have "chain h' [a, b]"
    using x by (auto simp: nx pv)
  ultimately show ?thesis
    using split chain_append [of h' us a "b # vs"] by simp
qed

lemma ring_remove:
  assumes r: "ring h l (ys @ x # zs)"
  shows "ring (rt_list_remove x h) l (ys @ zs)" and "ring (rt_list_remove x h) x []"
proof -
  have "l # ys = butlast (l # ys) @ [last (l # ys)]" by (simp del: butlast.simps last.simps)
  then obtain us a where eq: "l # ys = us @ [a]" by blast
  obtain b vs where eq2: "zs @ [l] = b # vs" by (cases zs) auto
  have sp: "l # (ys @ x # zs) @ [l] = us @ a # x # b # vs" using eq eq2 by simp
  have sp2: "l # (ys @ x # zs) @ [l] = (us @ [a]) @ x # b # vs" using sp by simp
  have d: "distinct (l # ys)" "distinct (zs @ [l])" "x \<notin> set (l # ys)" "x \<notin> set (zs @ [l])"
      "set ys \<inter> set zs = {}" "l \<notin> set zs"
    using r by (auto simp: ring_def)
  have lk: "next_node (h x) = b" "prev_node (h x) = a"
    using ring_links(1) [OF r sp2] ring_links(2) [OF r sp] by auto
  have du: "distinct (us @ [a])" "x \<notin> set (us @ [a])" using d by (auto simp: eq [symmetric])
  have dv: "distinct (b # vs)" "x \<notin> set (b # vs)" using d by (auto simp: eq2 [symmetric])
  have bl: "butlast (b # vs) = zs" unfolding eq2 [symmetric] by simp
  have tlu: "tl (us @ [a]) = ys" unfolding eq [symmetric] by simp
  have a: "a \<in> set (l # ys)" unfolding eq by simp
  have b: "b \<in> set (zs @ [l])" unfolding eq2 by simp
  have ne: "x \<noteq> next_node (h x)" "x \<noteq> prev_node (h x)" using du dv lk by auto
  have "chain (rt_list_remove x h) (us @ a # b # vs)"
  proof (rule chain_unsplice [where h = h and x = x])
    show "chain h (us @ a # x # b # vs)" using r sp by (simp add: ring_def)
    show "a \<notin> set (butlast (b # vs))" "b \<notin> set (tl (us @ [a]))"
      using a b d unfolding bl tlu by auto
  qed (use du dv in \<open>auto simp: remove_ptrs [of x h, OF ne] lk\<close>)
  moreover have "us @ a # b # vs = l # (ys @ zs) @ [l]"
    using eq eq2 by (metis append.assoc append_Cons append_Nil)
  ultimately show "ring (rt_list_remove x h) l (ys @ zs)"
    using r by (simp add: ring_def)
  show "ring (rt_list_remove x h) x []"
    by (simp add: ring_def remove_ptrs [of x h, OF ne])
qed

text \<open>Removing a node that is linked to itself only changes nothing.\<close>

lemma remove_self_loop: "ring h x [] \<Longrightarrow> rt_list_remove x h = h"
  by (auto simp: ring_def rt_list_remove_def set_next_def set_prev_def fun_eq_iff)

lemma ring_frame:
  assumes "ring h l xs" "\<And>y. y \<in> set (l # xs) \<Longrightarrow> h' y = h y"
  shows "ring h' l xs"
proof -
  have "chain h' (l # xs @ [l]) = chain h (l # xs @ [l])"
    using assms(2) by (intro chain_cong) (auto simp: butlast_append)
  then show ?thesis using assms(1) by (simp add: ring_def)
qed

lemma rt_list_isempty_ring: "ring h l xs \<Longrightarrow> rt_list_isempty l h \<longleftrightarrow> xs = []"
  by (cases xs) (auto simp: ring_def rt_list_isempty_def)

lemma rt_list_len_loop_chain:
  assumes "chain h (p # ys @ [l])" "l \<notin> set ys"
  shows "rt_list_len_loop h l p n = Some (n + of_nat (length ys))"
  using assms
proof (induction ys arbitrary: p n)
  case Nil
  then show ?case by (simp add: rt_list_len_loop.simps)
next
  case (Cons y ys)
  then have "next_node (h p) = y" "y \<noteq> l" by auto
  moreover have "rt_list_len_loop h l y (n + 1) = Some (n + 1 + of_nat (length ys))"
    using Cons by auto
  ultimately show ?case by (simp add: rt_list_len_loop.simps [of h l p] algebra_simps)
qed

lemma rt_list_len_ring: "ring h l xs \<Longrightarrow> rt_list_len l h = Some (of_nat (length xs))"
  using rt_list_len_loop_chain [of h l xs l 0] by (simp add: rt_list_len_def ring_def)

subsection \<open>The contract of the list operations\<close>

text \<open>
  A client of the lists relies on this interface: \<open>holds s l xs\<close> says that in store \<open>s\<close>
  the list headed by \<open>l\<close> consists of the nodes \<open>xs\<close>, in order.
\<close>

locale intrusive_lists =
  fixes holds :: "'s \<Rightarrow> 'h \<Rightarrow> 'n list \<Rightarrow> bool"
    and headless :: "'h \<Rightarrow> 'n \<Rightarrow> bool"
    and push_back :: "'h \<Rightarrow> 'n \<Rightarrow> 's \<Rightarrow> 's"
    and push_front :: "'h \<Rightarrow> 'n \<Rightarrow> 's \<Rightarrow> 's"
    and unlink :: "'n \<Rightarrow> 's \<Rightarrow> 's"
    and vacant :: "'h \<Rightarrow> 's \<Rightarrow> bool"
  assumes holds_distinct: "holds s l xs \<Longrightarrow> distinct xs"
    and holds_push_back:
      "\<lbrakk>holds s l xs; headless l n; n \<notin> set xs\<rbrakk> \<Longrightarrow> holds (push_back l n s) l (xs @ [n])"
    and holds_push_front:
      "\<lbrakk>holds s l xs; headless l n; n \<notin> set xs\<rbrakk> \<Longrightarrow> holds (push_front l n s) l (n # xs)"
    and holds_unlink: "holds s l (ys @ x # zs) \<Longrightarrow> holds (unlink x s) l (ys @ zs)"
    and vacant_holds: "holds s l xs \<Longrightarrow> vacant l s \<longleftrightarrow> xs = []"
begin

lemma holds_unlink_del:
  assumes "holds s l xs" "x \<in> set xs"
  shows "holds (unlink x s) l (list_del x xs)"
proof -
  obtain ys zs where xs: "xs = ys @ x # zs" using assms(2) by (auto simp: in_set_conv_decomp)
  have "x \<notin> set ys" "x \<notin> set zs" using holds_distinct [OF assms(1)] xs by auto
  then show ?thesis using holds_unlink [of s l ys x zs] assms(1) by (simp add: xs list_del_notin)
qed

lemma holds_push_back_all:
  "\<lbrakk>holds s l xs; distinct ns; set ns \<inter> set xs = {}; \<forall>n \<in> set ns. headless l n\<rbrakk>
    \<Longrightarrow> holds (fold (push_back l) ns s) l (xs @ ns)"
proof (induction ns arbitrary: s xs)
  case (Cons n ns)
  have "holds (push_back l n s) l (xs @ [n])" using Cons.prems by (intro holds_push_back) auto
  then have "holds (fold (push_back l) ns (push_back l n s)) l ((xs @ [n]) @ ns)"
    using Cons.prems by (intro Cons.IH) auto
  then show ?case by simp
qed simp

lemma holds_unlink_all: "holds s l (ns @ zs) \<Longrightarrow> holds (fold unlink ns s) l zs"
proof (induction ns arbitrary: s)
  case (Cons n ns)
  have "holds (unlink n s) l ([] @ ns @ zs)" using Cons.prems by (intro holds_unlink) simp
  then show ?case using Cons.IH by simp
qed simp

lemma holds_requeue: "holds s l (x # xs) \<Longrightarrow> headless l x \<Longrightarrow> holds (push_back l x (unlink x s)) l (xs @ [x])"
  using holds_unlink [of s l "[]" x xs] holds_distinct [of s l "x # xs"]
  by (intro holds_push_back) auto

end

interpretation ptr: intrusive_lists ring "(\<noteq>)" rt_list_insert_before rt_list_insert_after
  rt_list_remove rt_list_isempty
proof unfold_locales
  show "ring s l xs \<Longrightarrow> distinct xs" for s l xs
    by (simp add: ring_def)
  show "\<lbrakk>ring s l xs; l \<noteq> n; n \<notin> set xs\<rbrakk> \<Longrightarrow> ring (rt_list_insert_before l n s) l (xs @ [n])" for s l xs n
    by (rule ring_insert_before_head) auto
  show "\<lbrakk>ring s l xs; l \<noteq> n; n \<notin> set xs\<rbrakk> \<Longrightarrow> ring (rt_list_insert_after l n s) l (n # xs)" for s l xs n
    by (rule ring_insert_after_head) auto
  show "ring s l (ys @ x # zs) \<Longrightarrow> ring (rt_list_remove x s) l (ys @ zs)" for s l ys x zs
    by (rule ring_remove)
  show "ring s l xs \<Longrightarrow> rt_list_isempty l s = (xs = [])" for s l xs
    by (rule rt_list_isempty_ring)
qed


subsection \<open>Properties\<close>

text \<open>C1: on a list in memory that represents \<open>xs\<close>, inserting a fresh node at either end,
  removing a node and testing for emptiness do to the representation what appending,
  prepending, deleting and comparing with the empty list do to \<open>xs\<close>; a removed node is linked
  to itself.\<close>

theorem list_ops_refine:
  assumes "ring h l xs" "n \<noteq> l" "n \<notin> set xs" "x \<in> set xs"
  shows "ring (rt_list_insert_before l n h) l (xs @ [n]) \<and>
    ring (rt_list_insert_after l n h) l (n # xs) \<and>
    ring (rt_list_remove x h) l (list_del x xs) \<and> ring (rt_list_remove x h) x [] \<and>
    (rt_list_isempty l h \<longleftrightarrow> xs = [])"
proof (intro conjI)
  show "ring (rt_list_insert_before l n h) l (xs @ [n])"
    using assms by (intro ptr.holds_push_back) auto
  show "ring (rt_list_insert_after l n h) l (n # xs)"
    using assms by (intro ptr.holds_push_front) auto
  show "ring (rt_list_remove x h) l (list_del x xs)"
    using assms by (intro ptr.holds_unlink_del) auto
  obtain ys zs where "xs = ys @ x # zs" using assms(4) by (auto simp: in_set_conv_decomp)
  then show "ring (rt_list_remove x h) x []" using ring_remove(2) assms(1) by blast
  show "rt_list_isempty l h \<longleftrightarrow> xs = []" using assms(1) by (rule ptr.vacant_holds)
qed

text \<open>A list at address 1 that holds the nodes 2 and 3; node 4 is inserted, node 2 removed.\<close>

definition sample_store :: node_store where
  "sample_store = rt_list_insert_before 1 3 (rt_list_insert_before 1 2
     (rt_list_init 1 (\<lambda>_. \<lparr>next_node = 0, prev_node = 0\<rparr>)))"

lemma sample_ring: "ring sample_store 1 [2, 3]"
  by (simp add: ring_def sample_store_def rt_list_insert_before_def rt_list_init_def Let_def)

lemma list_ops_refine_witness:
  "ring (rt_list_insert_before 1 4 sample_store) 1 ([2, 3] @ [4]) \<and>
    ring (rt_list_insert_after 1 4 sample_store) 1 (4 # [2, 3]) \<and>
    ring (rt_list_remove 2 sample_store) 1 (list_del 2 [2, 3]) \<and> ring (rt_list_remove 2 sample_store) 2 [] \<and>
    (rt_list_isempty 1 sample_store \<longleftrightarrow> [2, 3 :: nat] = [])"
  by (rule list_ops_refine [OF sample_ring]) simp_all

end
