(* ===== verification/Ffs.thy ===== *)
theory Ffs
  imports Prelude
begin

section \<open>Find first set (rt-thread/src/kservice.c)\<close>

text \<open>
  The scheduler finds the highest ready priority with \<open>__rt_ffs\<close>: a byte-wise search of the
  word over the table \<open>__lowest_bit_bitmap\<close>.  The theory proves that it computes the index of
  the lowest set bit, plus 1, for every word.
\<close>

definition lowest_bit_bitmap :: "nat list" where
  "lowest_bit_bitmap =
    [0, 0, 1, 0, 2, 0, 1, 0, 3, 0, 1, 0, 2, 0, 1, 0,
     4, 0, 1, 0, 2, 0, 1, 0, 3, 0, 1, 0, 2, 0, 1, 0,
     5, 0, 1, 0, 2, 0, 1, 0, 3, 0, 1, 0, 2, 0, 1, 0,
     4, 0, 1, 0, 2, 0, 1, 0, 3, 0, 1, 0, 2, 0, 1, 0,
     6, 0, 1, 0, 2, 0, 1, 0, 3, 0, 1, 0, 2, 0, 1, 0,
     4, 0, 1, 0, 2, 0, 1, 0, 3, 0, 1, 0, 2, 0, 1, 0,
     5, 0, 1, 0, 2, 0, 1, 0, 3, 0, 1, 0, 2, 0, 1, 0,
     4, 0, 1, 0, 2, 0, 1, 0, 3, 0, 1, 0, 2, 0, 1, 0,
     7, 0, 1, 0, 2, 0, 1, 0, 3, 0, 1, 0, 2, 0, 1, 0,
     4, 0, 1, 0, 2, 0, 1, 0, 3, 0, 1, 0, 2, 0, 1, 0,
     5, 0, 1, 0, 2, 0, 1, 0, 3, 0, 1, 0, 2, 0, 1, 0,
     4, 0, 1, 0, 2, 0, 1, 0, 3, 0, 1, 0, 2, 0, 1, 0,
     6, 0, 1, 0, 2, 0, 1, 0, 3, 0, 1, 0, 2, 0, 1, 0,
     4, 0, 1, 0, 2, 0, 1, 0, 3, 0, 1, 0, 2, 0, 1, 0,
     5, 0, 1, 0, 2, 0, 1, 0, 3, 0, 1, 0, 2, 0, 1, 0,
     4, 0, 1, 0, 2, 0, 1, 0, 3, 0, 1, 0, 2, 0, 1, 0]"

definition rt_ffs :: "u32 \<Rightarrow> nat" where
  "rt_ffs value =
     (if value = 0 then 0
      else if value AND 0xff \<noteq> 0
      then lowest_bit_bitmap ! unat (value AND 0xff) + 1
      else if value AND 0xff00 \<noteq> 0
      then lowest_bit_bitmap ! unat (drop_bit 8 (value AND 0xff00)) + 9
      else if value AND 0xff0000 \<noteq> 0
      then lowest_bit_bitmap ! unat (drop_bit 16 (value AND 0xff0000)) + 17
      else lowest_bit_bitmap ! unat (drop_bit 24 (value AND 0xff000000)) + 25)"

subsection \<open>The table\<close>

text \<open>Entry \<open>n > 0\<close> of the table is the number of zero bits below the lowest one bit.\<close>

definition lowest_set :: "nat \<Rightarrow> nat \<Rightarrow> bool" where
  "lowest_set v i \<longleftrightarrow> bit v i \<and> (\<forall>j < i. \<not> bit v j)"

fun lowest_set_at :: "nat \<Rightarrow> nat \<Rightarrow> bool" where
  "lowest_set_at v 0 \<longleftrightarrow> odd v"
| "lowest_set_at v (Suc i) \<longleftrightarrow> even v \<and> lowest_set_at (v div 2) i"

lemma lowest_set_at_iff: "lowest_set_at v i \<longleftrightarrow> lowest_set v i"
proof (induction v i rule: lowest_set_at.induct)
  case (2 v i)
  have "(\<forall>j < Suc i. \<not> bit v j) \<longleftrightarrow> even v \<and> (\<forall>j < i. \<not> bit (v div 2) j)"
    unfolding All_less_Suc2 by (simp add: bit_Suc bit_0)
  then show ?case using 2 by (auto simp: lowest_set_def bit_Suc)
qed (simp add: lowest_set_def bit_0)


lemma table_entries:
  "list_all (\<lambda>(v, i). v = 0 \<or> lowest_set_at v i) (zip [0..<256] lowest_bit_bitmap)"
  unfolding lowest_bit_bitmap_def by code_simp

lemma table_entry:
  assumes "0 < v" "v < 256"
  shows "lowest_set v (lowest_bit_bitmap ! v)"
proof -
  have "length lowest_bit_bitmap = 256" by (simp add: lowest_bit_bitmap_def)
  then have "zip [0..<256] lowest_bit_bitmap ! v = (v, lowest_bit_bitmap ! v)"
    using assms by simp
  then show ?thesis
    using table_entries assms \<open>length lowest_bit_bitmap = 256\<close>
    by (fastforce simp: list_all_length lowest_set_at_iff)
qed

subsection \<open>The search\<close>

text \<open>A byte of the word, as the four tests of the code cut it out.\<close>

lemma byte_masks:
  "(0xff :: u32) = push_bit 0 (mask 8)" "(0xff00 :: u32) = push_bit 8 (mask 8)"
  "(0xff0000 :: u32) = push_bit 16 (mask 8)" "(0xff000000 :: u32) = push_bit 24 (mask 8)"
  by (simp_all add: mask_eq_exp_minus_1)

lemma bit_byte:
  assumes "s + 8 \<le> 32"
  shows "bit (drop_bit s ((w :: u32) AND push_bit s (mask 8))) i \<longleftrightarrow> i < 8 \<and> bit w (s + i)"
  using assms by (auto simp: bit_simps)

lemma bit_u32_less: "bit (w :: u32) i \<Longrightarrow> i < 32"
  using bit_imp_le_length [of w i] by simp

lemma byte_take: "s + 8 \<le> 32 \<Longrightarrow> drop_bit s ((w :: u32) AND push_bit s (mask 8)) = take_bit 8 (drop_bit s w)"
  by (rule bit_word_eqI) (use bit_byte [of s w] in \<open>simp del: drop_bit_and add: bit_take_bit_iff bit_drop_bit_eq\<close>)

lemma byte_zero:
  assumes "s + 8 \<le> 32"
  shows "(w :: u32) AND push_bit s (mask 8) = 0 \<longleftrightarrow> (\<forall>i. s \<le> i \<and> i < s + 8 \<longrightarrow> \<not> bit w i)"
proof -
  have "bit (w AND push_bit s (mask 8)) i \<longleftrightarrow> bit w i \<and> s \<le> i \<and> i < s + 8" for i
    using bit_u32_less [of w i] by (auto simp: bit_simps)
  then show ?thesis unfolding word_zero_iff_no_bit by blast
qed

lemma byte_lowest:
  assumes s: "s + 8 \<le> 32" and nz: "(w :: u32) AND push_bit s (mask 8) \<noteq> 0"
    and low: "\<forall>j < s. \<not> bit w j"
    and i: "i = lowest_bit_bitmap ! unat (drop_bit s (w AND push_bit s (mask 8)))"
  shows "s + i < 32 \<and> bit w (s + i) \<and> (\<forall>j < s + i. \<not> bit w j)"
proof -
  define v where "v = unat (drop_bit s (w AND push_bit s (mask 8)))"
  have bits: "bit v j \<longleftrightarrow> j < 8 \<and> bit w (s + j)" for j
    unfolding v_def using bit_byte [OF s, of w j] by (simp add: bit_unsigned_iff bit_imp_le_length)
  have v: "v < 256"
    unfolding v_def byte_take [OF s] using take_bit_nat_less_exp [of 8 "unat (drop_bit s w)"]
    by (simp add: unsigned_take_bit_eq)
  obtain j where "s \<le> j" "j < s + 8" "bit w j"
    using nz byte_zero [OF s, of w] by blast
  then have "bit v (j - s)" using bits by auto
  then have "0 < v" by (cases "v = 0") auto
  from table_entry [OF this v] have "lowest_set v i" unfolding i v_def .
  then have i8: "i < 8" "bit w (s + i)" and lo: "\<And>j. j < i \<Longrightarrow> \<not> bit v j"
    by (auto simp: lowest_set_def bits)
  have "\<not> bit w j" if "j < s + i" for j
  proof (cases "j < s")
    case False
    with that have "\<not> bit v (j - s)" "j - s < 8" using lo i8 by auto
    with False show ?thesis using bits by auto
  qed (use low in auto)
  with i8 s show ?thesis by auto
qed

lemma rt_ffs_zero: "rt_ffs 0 = 0"
  by (simp add: rt_ffs_def)

lemma rt_ffs_bytes:
  "rt_ffs w =
     (let b = \<lambda>s. w AND push_bit s (mask 8); i = \<lambda>s. lowest_bit_bitmap ! unat (drop_bit s (b s)) in
      if w = 0 then 0 else if b 0 \<noteq> 0 then 0 + i 0 + 1 else if b 8 \<noteq> 0 then 8 + i 8 + 1
      else if b 16 \<noteq> 0 then 16 + i 16 + 1 else 24 + i 24 + 1)"
  unfolding rt_ffs_def byte_masks Let_def by simp

lemma byte_zero_below:
  assumes "\<forall>j < s. \<not> bit (w :: u32) j" "w AND push_bit s (mask 8) = 0" "s + 8 \<le> 32"
  shows "\<forall>j < s + 8. \<not> bit w j"
  using assms byte_zero [of s w] by (metis linorder_not_le)

lemma rt_ffs_lowest:
  assumes "w \<noteq> 0"
  shows "\<exists>i < 32. rt_ffs w = i + 1 \<and> bit w i \<and> (\<forall>j < i. \<not> bit w j)"
proof -
  define b where "b s = w AND push_bit s (mask 8)" for s
  define i where "i s = lowest_bit_bitmap ! unat (drop_bit s (b s))" for s
  have ffs: "rt_ffs w = (if b 0 \<noteq> 0 then 0 + i 0 + 1 else if b 8 \<noteq> 0 then 8 + i 8 + 1
      else if b 16 \<noteq> 0 then 16 + i 16 + 1 else 24 + i 24 + 1)"
    using assms by (simp add: rt_ffs_bytes b_def i_def Let_def)
  have low8: "\<forall>j < 8. \<not> bit w j" if "b 0 = 0"
    using byte_zero_below [of 0 w] that by (simp add: b_def)
  have low16: "\<forall>j < 16. \<not> bit w j" if "b 0 = 0" "b 8 = 0"
    using byte_zero_below [of 8 w] low8 that by (simp add: b_def)
  have low24: "\<forall>j < 24. \<not> bit w j" if "b 0 = 0" "b 8 = 0" "b 16 = 0"
    using byte_zero_below [of 16 w] low16 that by (simp add: b_def)
  have nz: "b 24 \<noteq> 0" if "b 0 = 0" "b 8 = 0" "b 16 = 0"
    using byte_zero_below [of 24 w] low24 [OF that] assms word_zero_iff_no_bit [of w]
      bit_imp_le_length [of w] by (auto simp: b_def)
  have res: "s + i s < 32 \<and> bit w (s + i s) \<and> (\<forall>j < s + i s. \<not> bit w j)"
    if "s + 8 \<le> 32" "b s \<noteq> 0" "\<forall>j < s. \<not> bit w j" for s
    using byte_lowest [OF that(1) _ that(3)] that(2) by (simp add: b_def i_def)
  consider "b 0 \<noteq> 0" "rt_ffs w = 0 + i 0 + 1" | "b 0 = 0" "b 8 \<noteq> 0" "rt_ffs w = 8 + i 8 + 1"
    | "b 0 = 0" "b 8 = 0" "b 16 \<noteq> 0" "rt_ffs w = 16 + i 16 + 1"
    | "b 0 = 0" "b 8 = 0" "b 16 = 0" "rt_ffs w = 24 + i 24 + 1"
    using ffs by (auto split: if_splits)
  then show ?thesis
  proof cases
    case 1 then show ?thesis using res [of 0] by auto
  next
    case 2 then show ?thesis using res [of 8] low8 by auto
  next
    case 3 then show ?thesis using res [of 16] low16 by auto
  next
    case 4 then show ?thesis using res [of 24] low24 nz by auto
  qed
qed

text \<open>With a bit known to be the lowest one, the result of the search is that bit.\<close>

lemma rt_ffs_unique: "bit w i \<Longrightarrow> (\<And>j. j < i \<Longrightarrow> \<not> bit w j) \<Longrightarrow> rt_ffs w = i + 1"
  using rt_ffs_lowest [of w] by (metis bit_0_eq bot_apply bot_bool_def linorder_neqE_nat)

end
