(* ===== verification/KString.thy ===== *)
theory KString
  imports Prelude
begin

section \<open>Memory and string service (rt-thread/src/kservice.c)\<close>

text \<open>
  The memory and string functions the kernel and the application use.  A pointer argument is
  the list of the bytes from the pointed-at byte to the end of the object it points into; a
  read or write past the end of the object is undefined behaviour and gives \<open>None\<close>.  The
  loops are structural on the count or on the bytes.  \<open>char\<close> is unsigned on this target
  (ARM EABI), and \<open>rt_strncmp\<close> narrows the difference to a \<open>signed char\<close>.
\<close>

subsection \<open>Copy\<close>

text \<open>
  \<open>rt_strncpy\<close>: the do-while loop copies up to \<open>n\<close> bytes and pads with NUL after the
  terminator.  \<open>d\<close> are the bytes at the destination.
\<close>

fun strncpy_pad :: "u8 list \<Rightarrow> nat \<Rightarrow> u8 list option" where
  "strncpy_pad d 0 = Some d"
| "strncpy_pad [] (Suc n) = None"
| "strncpy_pad (_ # d) (Suc n) = map_option ((#) 0) (strncpy_pad d n)"

fun strncpy_loop :: "u8 list \<Rightarrow> u8 list \<Rightarrow> nat \<Rightarrow> u8 list option" where
  "strncpy_loop d s 0 = Some d"
| "strncpy_loop (_ # d) (c # s) (Suc n) =
     map_option ((#) c) (if c = 0 then strncpy_pad d n else strncpy_loop d s n)"
| "strncpy_loop _ _ (Suc n) = None"

definition rt_strncpy :: "u8 list \<Rightarrow> u8 list \<Rightarrow> nat \<Rightarrow> u8 list option" where
  "rt_strncpy dst src n = (if n \<noteq> 0 then strncpy_loop dst src n else Some dst)"

subsection \<open>Compare\<close>

text \<open>The result of \<open>rt_strncmp\<close> is the difference of the bytes as an 8-bit signed value.\<close>

fun rt_strncmp :: "u8 list \<Rightarrow> u8 list \<Rightarrow> nat \<Rightarrow> int option" where
  "rt_strncmp cs ct 0 = Some 0"
| "rt_strncmp (c # cs) (t # ct) (Suc n) =
     (if c - t \<noteq> 0 then Some (sint (c - t))
      else if c = 0 then Some 0
      else rt_strncmp cs ct n)"
| "rt_strncmp _ _ (Suc n) = None"

fun rt_strcmp :: "u8 list \<Rightarrow> u8 list \<Rightarrow> int option" where
  "rt_strcmp (c # cs) (t # ct) =
     (if c \<noteq> 0 \<and> c = t then rt_strcmp cs ct else Some (uint c - uint t))"
| "rt_strcmp _ _ = None"

fun rt_memcmp :: "u8 list \<Rightarrow> u8 list \<Rightarrow> nat \<Rightarrow> int option" where
  "rt_memcmp a b 0 = Some 0"
| "rt_memcmp (x # a) (y # b) (Suc n) =
     (let res = uint x - uint y in if res \<noteq> 0 then Some res else rt_memcmp a b n)"
| "rt_memcmp _ _ (Suc n) = None"

subsection \<open>Length\<close>

fun strlen_loop :: "u8 list \<Rightarrow> nat \<Rightarrow> nat option" where
  "strlen_loop [] n = None"
| "strlen_loop (c # cs) n = (if c \<noteq> 0 then strlen_loop cs (Suc n) else Some n)"

definition rt_strlen :: "u8 list \<Rightarrow> nat option" where
  "rt_strlen s = strlen_loop s 0"

text \<open>The loop of \<open>rt_strnlen\<close> reads the byte before it compares the count with the bound.\<close>

fun strnlen_loop :: "u8 list \<Rightarrow> nat \<Rightarrow> nat \<Rightarrow> nat option" where
  "strnlen_loop [] n maxlen = None"
| "strnlen_loop (c # cs) n maxlen =
     (if c \<noteq> 0 \<and> n < maxlen then strnlen_loop cs (Suc n) maxlen else Some n)"

definition rt_strnlen :: "u8 list \<Rightarrow> nat \<Rightarrow> nat option" where
  "rt_strnlen s maxlen = strnlen_loop s 0 maxlen"

end
