(* ===== verification/KState.thy ===== *)
theory KState
  imports RtList
begin

section \<open>The state of the kernel (rt-thread/include/rtdef.h)\<close>

text \<open>
  The structures of \<open>rtdef.h\<close> as records, and the global variables of the kernel sources
  as one record \<open>kernel\<close>.  The C inheritance \<open>parent\<close> is record extension: a semaphore
  extends an IPC object, which extends \<open>rt_object\<close>.  Threads, timers and IPC objects are
  named by numbers, their addresses; the \<open>tlist\<close> node of a thread is named by the thread.
  Every queue of threads is a HOL list, looked up by the list head that it hangs on
  (\<open>queue\<close>), as the pointer model of theory RtList allows.

  Configuration (src/rtconfig.h): one CPU, 32 priorities, no signals, no modules, hooks
  unset, timer skip list of one level, heap present.
\<close>

type_synonym tid = nat
type_synonym rt_err = int

abbreviation RT_EOK :: rt_err where "RT_EOK \<equiv> 0"
abbreviation RT_ERROR :: rt_err where "RT_ERROR \<equiv> 1"
abbreviation RT_ETIMEOUT :: rt_err where "RT_ETIMEOUT \<equiv> 2"
abbreviation RT_EFULL :: rt_err where "RT_EFULL \<equiv> 3"
abbreviation RT_EEMPTY :: rt_err where "RT_EEMPTY \<equiv> 4"
abbreviation RT_ENOMEM :: rt_err where "RT_ENOMEM \<equiv> 5"
abbreviation RT_ENOSYS :: rt_err where "RT_ENOSYS \<equiv> 6"
abbreviation RT_EBUSY :: rt_err where "RT_EBUSY \<equiv> 7"
abbreviation RT_EINTR :: rt_err where "RT_EINTR \<equiv> 9"

abbreviation RT_TICK_MAX :: u32 where "RT_TICK_MAX \<equiv> 0xFFFFFFFF"
abbreviation RT_TICK_HALF :: u32 where "RT_TICK_HALF \<equiv> 0x7FFFFFFF" \<comment> \<open>\<open>RT_TICK_MAX / 2\<close>\<close>

abbreviation RT_THREAD_INIT :: u8 where "RT_THREAD_INIT \<equiv> 0"
abbreviation RT_THREAD_READY :: u8 where "RT_THREAD_READY \<equiv> 1"
abbreviation RT_THREAD_SUSPEND :: u8 where "RT_THREAD_SUSPEND \<equiv> 2"
abbreviation RT_THREAD_RUNNING :: u8 where "RT_THREAD_RUNNING \<equiv> 3"
abbreviation RT_THREAD_CLOSE :: u8 where "RT_THREAD_CLOSE \<equiv> 4"
abbreviation RT_THREAD_STAT_MASK :: u8 where "RT_THREAD_STAT_MASK \<equiv> 7"
abbreviation RT_THREAD_STAT_YIELD :: u8 where "RT_THREAD_STAT_YIELD \<equiv> 8"

abbreviation RT_TIMER_FLAG_ACTIVATED :: u8 where "RT_TIMER_FLAG_ACTIVATED \<equiv> 1"
abbreviation RT_TIMER_FLAG_ONE_SHOT :: u8 where "RT_TIMER_FLAG_ONE_SHOT \<equiv> 0"
abbreviation RT_TIMER_FLAG_PERIODIC :: u8 where "RT_TIMER_FLAG_PERIODIC \<equiv> 2"
abbreviation RT_TIMER_FLAG_SOFT_TIMER :: u8 where "RT_TIMER_FLAG_SOFT_TIMER \<equiv> 4"

abbreviation RT_IPC_FLAG_FIFO :: u8 where "RT_IPC_FLAG_FIFO \<equiv> 0"
abbreviation RT_IPC_FLAG_PRIO :: u8 where "RT_IPC_FLAG_PRIO \<equiv> 1"
abbreviation RT_IPC_CMD_RESET :: int where "RT_IPC_CMD_RESET \<equiv> 1"

abbreviation RT_EVENT_FLAG_AND :: u8 where "RT_EVENT_FLAG_AND \<equiv> 1"
abbreviation RT_EVENT_FLAG_OR :: u8 where "RT_EVENT_FLAG_OR \<equiv> 2"
abbreviation RT_EVENT_FLAG_CLEAR :: u8 where "RT_EVENT_FLAG_CLEAR \<equiv> 4"

subsection \<open>Kernel objects\<close>

datatype rt_object_class_type =
    RT_Object_Class_Null | RT_Object_Class_Thread | RT_Object_Class_Semaphore
  | RT_Object_Class_Mutex | RT_Object_Class_Event | RT_Object_Class_MailBox
  | RT_Object_Class_MessageQueue | RT_Object_Class_MemHeap | RT_Object_Class_MemPool
  | RT_Object_Class_Device | RT_Object_Class_Timer | RT_Object_Class_Module
  | RT_Object_Class_Unknown

fun class_code :: "rt_object_class_type \<Rightarrow> u8" where
  "class_code RT_Object_Class_Null = 0"
| "class_code RT_Object_Class_Thread = 1"
| "class_code RT_Object_Class_Semaphore = 2"
| "class_code RT_Object_Class_Mutex = 3"
| "class_code RT_Object_Class_Event = 4"
| "class_code RT_Object_Class_MailBox = 5"
| "class_code RT_Object_Class_MessageQueue = 6"
| "class_code RT_Object_Class_MemHeap = 7"
| "class_code RT_Object_Class_MemPool = 8"
| "class_code RT_Object_Class_Device = 9"
| "class_code RT_Object_Class_Timer = 10"
| "class_code RT_Object_Class_Module = 11"
| "class_code RT_Object_Class_Unknown = 12"

abbreviation RT_Object_Class_Static :: u8 where "RT_Object_Class_Static \<equiv> 0x80"

datatype timer_id = ThreadTimer tid | UserTimer nat

datatype objref =
    OThread tid | OTimer timer_id | OSem nat | OMutex nat | OEvent nat | OMailBox nat
  | OMsgQueue nat | OMemPool nat | ODevice nat

record rt_object =
  obj_name :: "u8 list"
  obj_type :: u8
  obj_flag :: u8

text \<open>The timeout function of a timer: the thread timeout handler, or a function of the user.\<close>

datatype timer_func = Thread_timeout | User_timeout nat

record rt_timer = rt_object +
  timeout_func :: timer_func
  parameter :: nat
  init_tick :: u32
  timeout_tick :: u32

record rt_thread = rt_object +
  entry_point :: u32
  entry_parameter :: u32
  stack_addr :: u32
  stack_size :: u32
  sp :: u32
  stack_bottom :: u8 \<comment> \<open>the byte of memory at \<open>stack_addr\<close>\<close>
  thread_error :: rt_err
  stat :: u8
  current_priority :: u8
  init_priority :: u8
  number_mask :: u32
  event_set :: u32
  event_info :: u8
  thread_init_tick :: u32
  remaining_tick :: u32
  cleanup :: u32 \<comment> \<open>address of the cleanup function, 0 for none\<close>
  user_data :: u32

record rt_semaphore = rt_object +
  sem_value :: u16

record rt_mutex = rt_object +
  mutex_value :: u16
  original_priority :: u8
  hold :: u8
  owner :: "tid option"

record rt_event = rt_object +
  set_bits :: u32

record rt_mailbox = rt_object +
  mb_pool :: "u32 list"
  mb_size :: u16
  mb_entry :: u16
  in_offset :: u16
  out_offset :: u16

text \<open>
  A message queue links the blocks of its pool; a block is named by its index in the pool,
  \<open>msg_next\<close> is the header \<open>struct rt_mq_message\<close> of the block and \<open>msg_data\<close> the
  bytes after it.
\<close>

record rt_mq_block =
  msg_next :: "nat option"
  msg_data :: "u8 list"

record rt_messagequeue = rt_object +
  msg_size :: u16
  max_msgs :: u16
  mq_entry :: u16
  msg_queue_head :: "nat option"
  msg_queue_tail :: "nat option"
  msg_queue_free :: "nat option"
  mq_pool :: "nat \<Rightarrow> rt_mq_block"

text \<open>
  The word in front of a block of a memory pool holds the address of the next free block
  (0 at the end), or the pool when the block is allocated.
\<close>

datatype mp_link = Next_block u32 | Owner_pool nat

record rt_mempool = rt_object +
  start_address :: u32
  mp_size :: u32
  block_size :: u32
  block_list :: u32
  block_total_count :: u32
  block_free_count :: u32

text \<open>
  A device.  \<open>rx_indicate\<close> and \<open>tx_complete\<close> are addresses of functions, 0 for none; the
  functions of its driver are parameters of theory Device.
\<close>

record rt_device = rt_object +
  dev_type :: u32
  dev_flag :: u16
  open_flag :: u16
  ref_count :: u8
  device_id :: u8
  rx_indicate :: u32
  tx_complete :: u32
  dev_user_data :: u32

subsection \<open>The global variables\<close>

text \<open>The heads of the lists that hold the \<open>tlist\<close> nodes of threads.\<close>

datatype queue =
    Ready nat       \<comment> \<open>\<open>rt_thread_priority_table[n]\<close>\<close>
  | Defunct         \<comment> \<open>\<open>rt_thread_defunct\<close>\<close>
  | Suspended objref \<comment> \<open>\<open>suspend_thread\<close> of an IPC object\<close>
  | Senders objref   \<comment> \<open>\<open>suspend_sender_thread\<close> of a mailbox or message queue\<close>
  | Completing nat   \<comment> \<open>\<open>suspended_list\<close> of a completion\<close>
  | Pushers nat      \<comment> \<open>\<open>suspended_push_list\<close> of a data queue\<close>
  | Poppers nat      \<comment> \<open>\<open>suspended_pop_list\<close> of a data queue\<close>

record kernel =
  rt_tick :: u32
  rt_current_thread :: "tid option"
  rt_current_priority :: u8
  ready_priority_group :: u32
  scheduler_lock_nest :: u16
  interrupt_nest :: u8
  queues :: "queue \<Rightarrow> tid list"
  rt_timer_list :: "timer_id list"
  rt_soft_timer_list :: "timer_id list"
  random_nr :: u32
  containers :: "u8 \<Rightarrow> objref list"
  threads :: "tid \<Rightarrow> rt_thread"
  timers :: "timer_id \<Rightarrow> rt_timer"
  sems :: "nat \<Rightarrow> rt_semaphore"
  mutexes :: "nat \<Rightarrow> rt_mutex"
  events :: "nat \<Rightarrow> rt_event"
  mailboxes :: "nat \<Rightarrow> rt_mailbox"
  msgqueues :: "nat \<Rightarrow> rt_messagequeue"
  mempools :: "nat \<Rightarrow> rt_mempool"
  devices :: "nat \<Rightarrow> rt_device"
  mp_links :: "u32 \<Rightarrow> mp_link" \<comment> \<open>the header words of pool blocks, by address\<close>
  rt_errno :: rt_err \<comment> \<open>\<open>__rt_errno\<close>, the error number outside threads\<close>

text \<open>\<open>RT_ALIGN(size, RT_ALIGN_SIZE)\<close> and \<open>RT_ALIGN_DOWN\<close>\<close>

definition rt_align :: "u32 \<Rightarrow> u32" where
  "rt_align n = (n + 3) AND NOT 3"

definition rt_align_down :: "u32 \<Rightarrow> u32" where
  "rt_align_down n = n AND NOT 3"

text \<open>The static thread \<open>timer_thread\<close> of \<open>timer.c\<close>.\<close>

definition timer_thread :: tid where
  "timer_thread = 0"

subsection \<open>Access to one structure of the state\<close>

definition upd_thread :: "tid \<Rightarrow> (rt_thread \<Rightarrow> rt_thread) \<Rightarrow> kernel \<Rightarrow> kernel" where
  [kdefs]: "upd_thread t f k = k\<lparr>threads := (threads k)(t := f (threads k t))\<rparr>"

definition upd_timer :: "timer_id \<Rightarrow> (rt_timer \<Rightarrow> rt_timer) \<Rightarrow> kernel \<Rightarrow> kernel" where
  [kdefs]: "upd_timer t f k = k\<lparr>timers := (timers k)(t := f (timers k t))\<rparr>"

definition upd_sem :: "nat \<Rightarrow> (rt_semaphore \<Rightarrow> rt_semaphore) \<Rightarrow> kernel \<Rightarrow> kernel" where
  [kdefs]: "upd_sem s f k = k\<lparr>sems := (sems k)(s := f (sems k s))\<rparr>"

definition upd_mutex :: "nat \<Rightarrow> (rt_mutex \<Rightarrow> rt_mutex) \<Rightarrow> kernel \<Rightarrow> kernel" where
  [kdefs]: "upd_mutex s f k = k\<lparr>mutexes := (mutexes k)(s := f (mutexes k s))\<rparr>"

definition upd_event :: "nat \<Rightarrow> (rt_event \<Rightarrow> rt_event) \<Rightarrow> kernel \<Rightarrow> kernel" where
  [kdefs]: "upd_event s f k = k\<lparr>events := (events k)(s := f (events k s))\<rparr>"

definition upd_mb :: "nat \<Rightarrow> (rt_mailbox \<Rightarrow> rt_mailbox) \<Rightarrow> kernel \<Rightarrow> kernel" where
  [kdefs]: "upd_mb s f k = k\<lparr>mailboxes := (mailboxes k)(s := f (mailboxes k s))\<rparr>"

definition upd_mq :: "nat \<Rightarrow> (rt_messagequeue \<Rightarrow> rt_messagequeue) \<Rightarrow> kernel \<Rightarrow> kernel" where
  [kdefs]: "upd_mq s f k = k\<lparr>msgqueues := (msgqueues k)(s := f (msgqueues k s))\<rparr>"

definition upd_mp :: "nat \<Rightarrow> (rt_mempool \<Rightarrow> rt_mempool) \<Rightarrow> kernel \<Rightarrow> kernel" where
  [kdefs]: "upd_mp s f k = k\<lparr>mempools := (mempools k)(s := f (mempools k s))\<rparr>"

definition upd_dev :: "nat \<Rightarrow> (rt_device \<Rightarrow> rt_device) \<Rightarrow> kernel \<Rightarrow> kernel" where
  [kdefs]: "upd_dev d f k = k\<lparr>devices := (devices k)(d := f (devices k d))\<rparr>"

text \<open>\<open>thread->stat & RT_THREAD_STAT_MASK\<close>, and the priority as an index of the table.\<close>

definition tstat :: "kernel \<Rightarrow> tid \<Rightarrow> u8" where
  "tstat k t = stat (threads k t) AND RT_THREAD_STAT_MASK"

definition tprio :: "kernel \<Rightarrow> tid \<Rightarrow> nat" where
  "tprio k t = unat (current_priority (threads k t))"

text \<open>\<open>thread->stat = s | (thread->stat & ~RT_THREAD_STAT_MASK)\<close>\<close>

definition set_stat :: "u8 \<Rightarrow> rt_thread \<Rightarrow> rt_thread" where
  "set_stat s th = th\<lparr>stat := s OR (stat th AND NOT RT_THREAD_STAT_MASK)\<rparr>"

subsection \<open>Queues of threads\<close>

text \<open>
  \<open>rt_list_remove(&thread->tlist)\<close> unlinks the node from the list it is in;
  \<open>rt_list_insert_before\<close> and \<open>rt_list_insert_after\<close> on a list head append and prepend.
\<close>

definition tlist_remove :: "tid \<Rightarrow> kernel \<Rightarrow> kernel" where
  [kdefs]: "tlist_remove t k = k\<lparr>queues := (\<lambda>q. list_del t (queues k q))\<rparr>"

definition tlist_insert_before :: "queue \<Rightarrow> tid \<Rightarrow> kernel \<Rightarrow> kernel" where
  [kdefs]: "tlist_insert_before q t k = k\<lparr>queues := (queues k)(q := queues k q @ [t])\<rparr>"

definition tlist_insert_after :: "queue \<Rightarrow> tid \<Rightarrow> kernel \<Rightarrow> kernel" where
  [kdefs]: "tlist_insert_after q t k = k\<lparr>queues := (queues k)(q := t # queues k q)\<rparr>"

definition tlist_isempty :: "queue \<Rightarrow> kernel \<Rightarrow> bool" where
  [kdefs]: "tlist_isempty q k \<longleftrightarrow> queues k q = []"

text \<open>The queues of the kernel state satisfy the contract of the pointer lists.\<close>

definition queue_holds :: "kernel \<Rightarrow> queue \<Rightarrow> tid list \<Rightarrow> bool" where
  "queue_holds k q ts \<longleftrightarrow> queues k q = ts \<and> distinct ts"

interpretation tq: intrusive_lists queue_holds "\<lambda>_ _. True" tlist_insert_before tlist_insert_after
  tlist_remove tlist_isempty
  by unfold_locales (auto simp: queue_holds_def kdefs list_del_notin)

subsection \<open>Simplification of updated states\<close>

lemma tstat_set_stat [simp]: "stat (set_stat s th) AND RT_THREAD_STAT_MASK = s AND RT_THREAD_STAT_MASK"
  using or_not_and_field [of s "stat th" RT_THREAD_STAT_MASK] by (simp add: set_stat_def)

lemma set_stat_fields [simp]:
  "current_priority (set_stat s th) = current_priority th"
  "init_priority (set_stat s th) = init_priority th"
  "number_mask (set_stat s th) = number_mask th"
  "thread_error (set_stat s th) = thread_error th"
  "obj_type (set_stat s th) = obj_type th"
  "remaining_tick (set_stat s th) = remaining_tick th"
  "event_set (set_stat s th) = event_set th"
  "event_info (set_stat s th) = event_info th"
  "sp (set_stat s th) = sp th" "stack_addr (set_stat s th) = stack_addr th"
  "stack_size (set_stat s th) = stack_size th" "stack_bottom (set_stat s th) = stack_bottom th"
  by (simp_all add: set_stat_def)

lemma tstat_upd_thread:
  "tstat (upd_thread t f k) u = (if u = t then stat (f (threads k t)) AND RT_THREAD_STAT_MASK else tstat k u)"
  by (simp add: tstat_def upd_thread_def)

lemma tprio_upd_thread:
  "tprio (upd_thread t f k) u = (if u = t then unat (current_priority (f (threads k t))) else tprio k u)"
  by (simp add: tprio_def upd_thread_def)

end
