(* ===== verification/Sched.thy ===== *)
theory Sched
  imports KState Ffs
begin

section \<open>The scheduler (rt-thread/src/scheduler.c)\<close>

text \<open>
  The priority-indexed ready lists, the bitmap of non-empty priorities and the function that
  switches to the highest-priority ready thread.  A context switch is the assignment of
  \<open>rt_current_thread\<close>: what the processor does to the registers is the assembly of libcpu.
  Accesses of the table beyond its 32 entries, a null current thread and a failed stack check
  (which hangs) give \<open>None\<close>.  \<open>__rt_ffs\<close> is the C version of theory Ffs; the compiler built-in
  that this configuration selects has the contract proved there.
\<close>

definition rt_system_scheduler_init :: "kernel \<Rightarrow> kernel" where
  "rt_system_scheduler_init k = k\<lparr>scheduler_lock_nest := 0,
     queues := (\<lambda>q. case q of Ready p \<Rightarrow> (if p < 32 then [] else queues k q)
                             | Defunct \<Rightarrow> [] | _ \<Rightarrow> queues k q),
     ready_priority_group := 0\<rparr>"

definition get_highest_priority_thread :: "kernel \<Rightarrow> (tid \<times> nat) option" where
  "get_highest_priority_thread k =
     (let ffs = rt_ffs (ready_priority_group k) in
      if ffs = 0 then None
      else case queues k (Ready (ffs - 1)) of [] \<Rightarrow> None | t # _ \<Rightarrow> Some (t, ffs - 1))"

definition scheduler_stack_ok :: "rt_thread \<Rightarrow> bool" where
  "scheduler_stack_ok th \<longleftrightarrow>
     \<not> (stack_bottom th \<noteq> 0x23 \<or> sp th \<le> stack_addr th \<or> sp th > stack_addr th + stack_size th)"

definition rt_schedule_insert_thread :: "tid \<Rightarrow> kernel \<Rightarrow> kernel option" where
  "rt_schedule_insert_thread t k =
     (if rt_current_thread k = Some t then Some (upd_thread t (set_stat RT_THREAD_RUNNING) k)
      else do {
        require (tprio k t < 32);
        let k1 = tlist_insert_before (Ready (tprio k t)) t (upd_thread t (set_stat RT_THREAD_READY) k);
        Some (k1\<lparr>ready_priority_group := ready_priority_group k1 OR number_mask (threads k1 t)\<rparr>)
      })"

definition rt_schedule_remove_thread :: "tid \<Rightarrow> kernel \<Rightarrow> kernel option" where
  "rt_schedule_remove_thread t k = do {
     let k1 = tlist_remove t k;
     require (tprio k1 t < 32);
     Some (if tlist_isempty (Ready (tprio k1 t)) k1
           then k1\<lparr>ready_priority_group := ready_priority_group k1 AND NOT (number_mask (threads k1 t))\<rparr>
           else k1)
   }"

text \<open>
  The choice of \<open>rt_schedule\<close>: the thread to run and whether the current thread is to be
  queued as ready again, with the yield flag cleared in that case.
\<close>

definition schedule_choice :: "tid \<Rightarrow> tid \<Rightarrow> nat \<Rightarrow> kernel \<Rightarrow> tid \<times> bool \<times> kernel" where
  "schedule_choice cur highest prio k =
     (if tstat k cur = RT_THREAD_RUNNING then
        if tprio k cur < prio then (cur, False, k)
        else if tprio k cur = prio \<and> stat (threads k cur) AND RT_THREAD_STAT_YIELD = 0
        then (cur, False, k)
        else (highest, True,
              upd_thread cur (stat_update (\<lambda>s. s AND NOT RT_THREAD_STAT_YIELD)) k)
      else (highest, False, k))"

text \<open>Taking \<open>to\<close> off its queue and making it the running thread.\<close>

definition make_running :: "tid \<Rightarrow> kernel \<Rightarrow> kernel option" where
  "make_running t k = do {
     k1 \<leftarrow> rt_schedule_remove_thread t k;
     Some (upd_thread t (set_stat RT_THREAD_RUNNING) k1)
   }"

definition rt_schedule :: "kernel \<Rightarrow> kernel option" where
  "rt_schedule k =
     (if scheduler_lock_nest k = 0 \<and> ready_priority_group k \<noteq> 0 then do {
        (highest, prio) \<leftarrow> get_highest_priority_thread k;
        cur \<leftarrow> rt_current_thread k;
        let (to, need_insert, k1) = schedule_choice cur highest prio k;
        if to \<noteq> cur then do {
          let k2 = k1\<lparr>rt_current_priority := of_nat prio, rt_current_thread := Some to\<rparr>;
          k3 \<leftarrow> (if need_insert then rt_schedule_insert_thread cur k2 else Some k2);
          k4 \<leftarrow> make_running to k3;
          require (scheduler_stack_ok (threads k4 to));
          Some k4
        }
        else make_running cur k1
      }
      else Some k)"

definition rt_system_scheduler_start :: "kernel \<Rightarrow> kernel option" where
  "rt_system_scheduler_start k = do {
     (to, prio) \<leftarrow> get_highest_priority_thread k;
     k1 \<leftarrow> rt_schedule_remove_thread to (k\<lparr>rt_current_thread := Some to\<rparr>);
     Some (upd_thread to (stat_update (\<lambda>_. RT_THREAD_RUNNING)) k1)
   }"

subsection \<open>The scheduler lock and the interrupt nest\<close>

text \<open>\<open>rt_scheduler_lock_nest\<close> is a signed 16-bit counter.\<close>

definition rt_enter_critical :: "kernel \<Rightarrow> kernel" where
  "rt_enter_critical k = k\<lparr>scheduler_lock_nest := scheduler_lock_nest k + 1\<rparr>"

definition rt_exit_critical :: "kernel \<Rightarrow> kernel option" where
  "rt_exit_critical k =
     (let k1 = k\<lparr>scheduler_lock_nest := scheduler_lock_nest k - 1\<rparr> in
      if sint (scheduler_lock_nest k1) \<le> 0 then
        let k2 = k1\<lparr>scheduler_lock_nest := 0\<rparr> in
        if rt_current_thread k2 \<noteq> None then rt_schedule k2 else Some k2
      else Some k1)"

definition rt_critical_level :: "kernel \<Rightarrow> u16" where
  "rt_critical_level k = scheduler_lock_nest k"

definition rt_interrupt_enter :: "kernel \<Rightarrow> kernel" where
  "rt_interrupt_enter k = k\<lparr>interrupt_nest := interrupt_nest k + 1\<rparr>"

definition rt_interrupt_leave :: "kernel \<Rightarrow> kernel" where
  "rt_interrupt_leave k = k\<lparr>interrupt_nest := interrupt_nest k - 1\<rparr>"

definition rt_interrupt_get_nest :: "kernel \<Rightarrow> u8" where
  "rt_interrupt_get_nest k = interrupt_nest k"

definition rt_thread_self :: "kernel \<Rightarrow> tid option" where
  "rt_thread_self k = rt_current_thread k"

subsection \<open>The invariant of the queues\<close>

text \<open>
  Which threads a queue may hold, and the agreement of a thread's state with the queue it is
  in.  \<open>sched_inv X\<close> exempts the threads in \<open>X\<close>, which are in no queue: the operations
  take a thread out of its queue, change it, and put it into another.
\<close>

definition is_thread :: "kernel \<Rightarrow> tid \<Rightarrow> bool" where
  "is_thread k t \<longleftrightarrow>
     obj_type (threads k t) AND NOT RT_Object_Class_Static = class_code RT_Object_Class_Thread"

definition in_queue :: "kernel \<Rightarrow> tid \<Rightarrow> queue \<Rightarrow> bool" where
  "in_queue k t q \<longleftrightarrow> t \<in> set (queues k q)"

fun admits :: "kernel \<Rightarrow> queue \<Rightarrow> tid \<Rightarrow> bool" where
  "admits k (Ready p) t \<longleftrightarrow> is_thread k t \<and> tstat k t = RT_THREAD_READY \<and> tprio k t = p"
| "admits k Defunct t \<longleftrightarrow> tstat k t = RT_THREAD_CLOSE"
| "admits k (Suspended ob) t \<longleftrightarrow> is_thread k t \<and> tstat k t = RT_THREAD_SUSPEND"
| "admits k (Senders ob) t \<longleftrightarrow> is_thread k t \<and> tstat k t = RT_THREAD_SUSPEND"
| "admits k (Completing n) t \<longleftrightarrow> is_thread k t \<and> tstat k t = RT_THREAD_SUSPEND"
| "admits k (Pushers n) t \<longleftrightarrow> is_thread k t \<and> tstat k t = RT_THREAD_SUSPEND"
| "admits k (Poppers n) t \<longleftrightarrow> is_thread k t \<and> tstat k t = RT_THREAD_SUSPEND"

definition placed :: "kernel \<Rightarrow> tid \<Rightarrow> bool" where
  "placed k t \<longleftrightarrow> (\<forall>q. in_queue k t q \<longrightarrow> admits k q t) \<and>
     (is_thread k t \<and> tstat k t = RT_THREAD_READY \<longrightarrow> in_queue k t (Ready (tprio k t)))"

definition started :: "kernel \<Rightarrow> tid \<Rightarrow> bool" where
  "started k t \<longleftrightarrow> tstat k t \<in> {RT_THREAD_READY, RT_THREAD_SUSPEND, RT_THREAD_RUNNING}"

definition thread_ok :: "kernel \<Rightarrow> tid \<Rightarrow> bool" where
  "thread_ok k t \<longleftrightarrow> tprio k t < 32 \<and> init_priority (threads k t) < 32 \<and>
     scheduler_stack_ok (threads k t) \<and>
     number_mask (threads k t) \<in> {0, push_bit (tprio k t) 1} \<and>
     (started k t \<longrightarrow> number_mask (threads k t) = push_bit (tprio k t) 1)"

definition queues_ok :: "kernel \<Rightarrow> bool" where
  "queues_ok k \<longleftrightarrow> (\<forall>q. distinct (queues k q)) \<and>
     (\<forall>t q q'. in_queue k t q \<longrightarrow> in_queue k t q' \<longrightarrow> q = q')"

definition group_ok :: "kernel \<Rightarrow> bool" where
  "group_ok k \<longleftrightarrow> (\<forall>p. bit (ready_priority_group k) p \<longleftrightarrow> queues k (Ready p) \<noteq> [])"

definition sched_inv :: "tid set \<Rightarrow> kernel \<Rightarrow> bool" where
  "sched_inv X k \<longleftrightarrow> queues_ok k \<and> group_ok k \<and> (\<forall>t. is_thread k t \<longrightarrow> thread_ok k t) \<and>
     (\<forall>t \<in> X. \<forall>q. \<not> in_queue k t q) \<and> (\<forall>t. t \<notin> X \<longrightarrow> placed k t)"

text \<open>
  The current thread is never marked ready, and the only running thread is the current one.
\<close>

definition cur_inv :: "kernel \<Rightarrow> bool" where
  "cur_inv k \<longleftrightarrow>
     (\<forall>t. is_thread k t \<and> tstat k t = RT_THREAD_RUNNING \<longrightarrow> rt_current_thread k = Some t) \<and>
     (\<forall>t. rt_current_thread k = Some t \<longrightarrow> tstat k t \<noteq> RT_THREAD_READY \<and>
          (tstat k t = RT_THREAD_RUNNING \<longrightarrow> is_thread k t))"

subsection \<open>Updated states\<close>

lemma set_stat_same [simp]:
  "is_thread (upd_thread t (set_stat s) k) u = is_thread k u"
  "tprio (upd_thread t (set_stat s) k) u = tprio k u"
  "number_mask (threads (upd_thread t (set_stat s) k) u) = number_mask (threads k u)"
  "init_priority (threads (upd_thread t (set_stat s) k) u) = init_priority (threads k u)"
  "scheduler_stack_ok (threads (upd_thread t (set_stat s) k) u) = scheduler_stack_ok (threads k u)"
  by (auto simp: is_thread_def tprio_def upd_thread_def scheduler_stack_ok_def)

lemma upd_thread_frame [simp]:
  "rt_current_thread (upd_thread t f k) = rt_current_thread k"
  "queues (upd_thread t f k) = queues k"
  "ready_priority_group (upd_thread t f k) = ready_priority_group k"
  "scheduler_lock_nest (upd_thread t f k) = scheduler_lock_nest k"
  "interrupt_nest (upd_thread t f k) = interrupt_nest k"
  "rt_timer_list (upd_thread t f k) = rt_timer_list k"
  "rt_soft_timer_list (upd_thread t f k) = rt_soft_timer_list k"
  "timers (upd_thread t f k) = timers k" "rt_tick (upd_thread t f k) = rt_tick k"
  "containers (upd_thread t f k) = containers k"
  "sems (upd_thread t f k) = sems k" "mutexes (upd_thread t f k) = mutexes k"
  "events (upd_thread t f k) = events k" "mailboxes (upd_thread t f k) = mailboxes k"
  "msgqueues (upd_thread t f k) = msgqueues k" "mempools (upd_thread t f k) = mempools k" "devices (upd_thread t f k) = devices k"
  "mp_links (upd_thread t f k) = mp_links k"
  by (simp_all add: upd_thread_def)

lemma in_queue_upd_thread [simp]: "in_queue (upd_thread t f k) u q = in_queue k u q"
  by (simp add: in_queue_def)

lemma tstat_upd_set_stat [simp]:
  "tstat (upd_thread t (set_stat s) k) u = (if u = t then s AND RT_THREAD_STAT_MASK else tstat k u)"
  by (simp add: tstat_upd_thread)

text \<open>The invariant reads the threads, the queues, the group and nothing else of the state.\<close>

lemma same_threads:
  assumes "threads k' = threads k"
  shows "is_thread k' t = is_thread k t" "tstat k' t = tstat k t" "tprio k' t = tprio k t"
    "started k' t = started k t" "thread_ok k' t = thread_ok k t" "admits k' q t = admits k q t"
  using assms by (cases q; simp add: is_thread_def tstat_def tprio_def started_def thread_ok_def)+

lemma sched_inv_cong:
  assumes "threads k' = threads k" "queues k' = queues k"
    "ready_priority_group k' = ready_priority_group k"
  shows "sched_inv X k' = sched_inv X k"
  using assms same_threads [OF assms(1)]
  by (simp add: sched_inv_def queues_ok_def group_ok_def placed_def in_queue_def)

lemma mask_bits: "p < 32 \<Longrightarrow> bit (push_bit p (1::u32)) n \<longleftrightarrow> n = p"
  using bit_mask_word [of p n, where 'a=32] by simp

lemma sched_invD:
  assumes "sched_inv X k"
  shows "queues_ok k" "group_ok k" "\<And>t. is_thread k t \<Longrightarrow> thread_ok k t"
    "\<And>t q. t \<in> X \<Longrightarrow> \<not> in_queue k t q" "\<And>t. t \<notin> X \<Longrightarrow> placed k t"
    "\<And>t q. in_queue k t q \<Longrightarrow> admits k q t"
  using assms by (auto simp: sched_inv_def placed_def)

lemma ready_in_queue:
  assumes "sched_inv X k" "in_queue k t (Ready p)"
  shows "is_thread k t" "tstat k t = RT_THREAD_READY" "tprio k t = p" "p < 32"
    "number_mask (threads k t) = push_bit p 1"
  using assms(1) sched_invD(6) [OF assms] sched_invD(3) [OF assms(1), of t]
  by (auto simp: thread_ok_def started_def)

text \<open>Taking a thread off its queue.\<close>

lemma group_ok_remove:
  assumes inv: "sched_inv X k" and p: "tprio k t < 32"
    and m: "number_mask (threads k t) \<in> {0, push_bit (tprio k t) 1}"
  shows "bit (if list_del t (queues k (Ready (tprio k t))) = []
              then ready_priority_group k AND NOT (number_mask (threads k t))
              else ready_priority_group k) n \<longleftrightarrow> list_del t (queues k (Ready n)) \<noteq> []"
proof -
  have g: "bit (ready_priority_group k) j \<longleftrightarrow> queues k (Ready j) \<noteq> []" for j
    using sched_invD(2) [OF inv] by (simp add: group_ok_def)
  have other: "list_del t (queues k (Ready j)) = queues k (Ready j)" if "j \<noteq> tprio k t" for j
    using ready_in_queue(3) [OF inv, of t j] that by (fastforce simp: in_queue_def intro: list_del_notin)
  have here: "list_del t (queues k (Ready (tprio k t))) = queues k (Ready (tprio k t))"
    if "number_mask (threads k t) = 0"
    using ready_in_queue(5) [OF inv, of t "tprio k t"] that p mask_bits [OF p, of "tprio k t"]
    by (fastforce simp: in_queue_def intro: list_del_notin)
  show ?thesis
  proof (cases "number_mask (threads k t) = 0")
    case True
    then have "NOT (number_mask (threads k t)) = -1" by simp
    moreover have "list_del t (queues k (Ready n)) = queues k (Ready n)"
      using other [of n] here [OF True] by (cases "n = tprio k t") simp_all
    ultimately show ?thesis using g [of n] by simp
  next
    case False
    then have "number_mask (threads k t) = push_bit (tprio k t) 1" using m by simp
    then have mb: "bit (number_mask (threads k t)) j \<longleftrightarrow> j = tprio k t" for j
      using mask_bits [OF p] by simp
    have "bit (NOT (number_mask (threads k t))) j \<longleftrightarrow> j < 32 \<and> j \<noteq> tprio k t" for j
      using mb by (simp add: bit_not_iff)
    moreover have "queues k (Ready n) \<noteq> [] \<Longrightarrow> n < 32"
      using g [of n] bit_u32_less by blast
    ultimately have nb: "bit (ready_priority_group k AND NOT (number_mask (threads k t))) n \<longleftrightarrow>
        bit (ready_priority_group k) n \<and> n \<noteq> tprio k t"
      using g [of n] by (auto simp: bit_and_iff)
    show ?thesis
    proof (cases "n = tprio k t")
      case True
      have "list_del t (queues k (Ready n)) \<noteq> [] \<Longrightarrow> queues k (Ready n) \<noteq> []" by auto
      with True show ?thesis using g [of n] nb by auto
    next
      case False
      show ?thesis unfolding other [OF False] using g [of n] nb False by presburger
    qed
  qed
qed

lemma rt_schedule_remove_thread_eq:
  assumes "tprio k t < 32"
  shows "rt_schedule_remove_thread t k =
     Some (k\<lparr>queues := (\<lambda>q. list_del t (queues k q)),
            ready_priority_group := (if list_del t (queues k (Ready (tprio k t))) = []
               then ready_priority_group k AND NOT (number_mask (threads k t))
               else ready_priority_group k)\<rparr>)"
  using assms
  by (simp add: rt_schedule_remove_thread_def Let_def tlist_remove_def tlist_isempty_def tprio_def)

lemma sched_inv_remove:
  assumes inv: "sched_inv X k" and th: "is_thread k t"
  obtains g where "rt_schedule_remove_thread t k =
      Some (k\<lparr>queues := (\<lambda>q. list_del t (queues k q)), ready_priority_group := g\<rparr>)"
    "sched_inv (insert t X) (k\<lparr>queues := (\<lambda>q. list_del t (queues k q)), ready_priority_group := g\<rparr>)"
proof -
  have ok: "tprio k t < 32" "number_mask (threads k t) \<in> {0, push_bit (tprio k t) 1}"
    using sched_invD(3) [OF inv th] by (auto simp: thread_ok_def)
  define g where "g = (if list_del t (queues k (Ready (tprio k t))) = []
               then ready_priority_group k AND NOT (number_mask (threads k t))
               else ready_priority_group k)"
  define k' where "k' = k\<lparr>queues := (\<lambda>q. list_del t (queues k q)), ready_priority_group := g\<rparr>"
  have q': "in_queue k' u q \<longleftrightarrow> u \<noteq> t \<and> in_queue k u q" for u q
    by (auto simp: k'_def in_queue_def)
  have th': "threads k' = threads k" by (simp add: k'_def)
  note same = same_threads [OF th']
  have "queues_ok k'"
    using sched_invD(1) [OF inv] unfolding queues_ok_def q' by (auto simp: k'_def)
  moreover have "group_ok k'"
    using group_ok_remove [OF inv ok] unfolding group_ok_def by (simp add: k'_def g_def)
  ultimately have "sched_inv (insert t X) k'"
    using inv q' unfolding sched_inv_def placed_def same by auto
  then show ?thesis using that rt_schedule_remove_thread_eq [OF ok(1)] by (simp add: k'_def g_def)
qed

text \<open>Putting an exempt thread on a queue.\<close>

lemma sched_inv_enqueue:
  assumes inv: "sched_inv (insert t X) k" and th: "threads k' = threads k"
    and q: "\<And>r. queues k' r = (if r = q then ts else queues k r)"
    and ts: "set ts = insert t (set (queues k q))" "distinct ts"
    and g: "\<And>p. bit (ready_priority_group k') p \<longleftrightarrow> bit (ready_priority_group k) p \<or> q = Ready p"
    and ad: "admits k q t"
    and rd: "is_thread k t \<and> tstat k t = RT_THREAD_READY \<Longrightarrow> q = Ready (tprio k t)"
  shows "sched_inv (X - {t}) k'"
proof -
  have q': "in_queue k' u r \<longleftrightarrow> (u = t \<and> r = q) \<or> in_queue k u r" for u r
    using ts(1) by (auto simp: in_queue_def q)
  have nt: "\<not> in_queue k t r" for r using sched_invD(4) [OF inv] by simp
  have "queues_ok k'"
    using sched_invD(1) [OF inv] ts(2) nt unfolding queues_ok_def q' by (auto simp: q)
  moreover have "ts \<noteq> []" using ts(1) by auto
  then have "group_ok k'"
    using sched_invD(2) [OF inv] by (auto simp: group_ok_def q g)
  moreover have "placed k' u" if "u \<notin> X - {t}" for u
  proof (cases "u = t")
    case True
    then show ?thesis using nt ad rd unfolding placed_def q' same_threads [OF th] by auto
  next
    case False
    then show ?thesis
      using that sched_invD(5) [OF inv, of u] unfolding placed_def q' same_threads [OF th] by auto
  qed
  ultimately show ?thesis
    using sched_invD(3,4) [OF inv] unfolding sched_inv_def same_threads [OF th] q' by auto
qed

lemma sched_inv_release:
  assumes "sched_inv (insert t X) k" "tstat k t \<noteq> RT_THREAD_READY \<or> \<not> is_thread k t"
  shows "sched_inv (X - {t}) k"
  using assms unfolding sched_inv_def placed_def by auto

text \<open>Changing a thread that is in no queue.\<close>

lemma sched_inv_upd_thread:
  assumes inv: "sched_inv X k" and t: "t \<in> X"
    and ok: "is_thread (upd_thread t f k) t \<Longrightarrow> thread_ok (upd_thread t f k) t"
  shows "sched_inv X (upd_thread t f k)"
proof -
  let ?k = "upd_thread t f k"
  have "threads ?k u = threads k u" if "u \<noteq> t" for u
    using that by (simp add: upd_thread_def)
  then have same: "is_thread ?k u = is_thread k u" "tstat ?k u = tstat k u" "tprio ?k u = tprio k u"
    "thread_ok ?k u = thread_ok k u" "admits ?k q u = admits k q u" if "u \<noteq> t" for u q
    using that by (cases q; simp add: is_thread_def tstat_def tprio_def thread_ok_def started_def)+
  have "placed ?k u" if "u \<notin> X" for u
  proof -
    have "u \<noteq> t" using that t by auto
    then show ?thesis using sched_invD(5) [OF inv that] same [of u] by (simp add: placed_def)
  qed
  moreover have "thread_ok ?k u" if "is_thread ?k u" for u
    using that ok same [of u] sched_invD(3) [OF inv, of u] by (cases "u = t") auto
  ultimately show ?thesis
    using sched_invD(1,2,4) [OF inv] unfolding sched_inv_def queues_ok_def group_ok_def
    by simp
qed

subsection \<open>The scheduler preserves the invariant and runs the highest priority\<close>

text \<open>What the scheduler may change: the states of threads and who is current.\<close>

definition sched_frame :: "kernel \<Rightarrow> kernel \<Rightarrow> bool" where
  "sched_frame k k' \<longleftrightarrow>
     k' = k\<lparr>threads := threads k', queues := queues k', ready_priority_group := ready_priority_group k',
            rt_current_thread := rt_current_thread k', rt_current_priority := rt_current_priority k'\<rparr> \<and>
     (\<forall>t. (threads k' t)\<lparr>stat := 0\<rparr> = (threads k t)\<lparr>stat := 0\<rparr>)"

lemma sched_frame_refl [simp]: "sched_frame k k"
  by (simp add: sched_frame_def)

lemma sched_frame_trans: "sched_frame a b \<Longrightarrow> sched_frame b c \<Longrightarrow> sched_frame a c"
  unfolding sched_frame_def by (cases a; cases b; cases c) simp

lemma sched_frameD:
  assumes "sched_frame k k'"
  shows "timers k' = timers k" "rt_timer_list k' = rt_timer_list k"
    "rt_soft_timer_list k' = rt_soft_timer_list k" "rt_tick k' = rt_tick k"
    "scheduler_lock_nest k' = scheduler_lock_nest k" "interrupt_nest k' = interrupt_nest k"
    "sems k' = sems k" "mutexes k' = mutexes k" "events k' = events k" "mailboxes k' = mailboxes k"
    "msgqueues k' = msgqueues k" "mempools k' = mempools k" "mp_links k' = mp_links k"
    "containers k' = containers k" "random_nr k' = random_nr k" "devices k' = devices k"
  using assms by (cases k; cases k'; simp add: sched_frame_def)+

lemma sched_frame_thread:
  assumes "sched_frame k k'"
  shows "obj_type (threads k' t) = obj_type (threads k t)"
    "current_priority (threads k' t) = current_priority (threads k t)"
    "init_priority (threads k' t) = init_priority (threads k t)"
    "number_mask (threads k' t) = number_mask (threads k t)"
    "thread_error (threads k' t) = thread_error (threads k t)"
    "scheduler_stack_ok (threads k' t) = scheduler_stack_ok (threads k t)"
    "is_thread k' t = is_thread k t" "tprio k' t = tprio k t"
    "event_set (threads k' t) = event_set (threads k t)" "event_info (threads k' t) = event_info (threads k t)"
proof -
  have "(threads k' t)\<lparr>stat := 0\<rparr> = (threads k t)\<lparr>stat := 0\<rparr>"
    using assms by (simp add: sched_frame_def)
  then have "obj_type ((threads k' t)\<lparr>stat := 0\<rparr>) = obj_type ((threads k t)\<lparr>stat := 0\<rparr>)"
    "current_priority ((threads k' t)\<lparr>stat := 0\<rparr>) = current_priority ((threads k t)\<lparr>stat := 0\<rparr>)"
    "init_priority ((threads k' t)\<lparr>stat := 0\<rparr>) = init_priority ((threads k t)\<lparr>stat := 0\<rparr>)"
    "number_mask ((threads k' t)\<lparr>stat := 0\<rparr>) = number_mask ((threads k t)\<lparr>stat := 0\<rparr>)"
    "thread_error ((threads k' t)\<lparr>stat := 0\<rparr>) = thread_error ((threads k t)\<lparr>stat := 0\<rparr>)"
    "scheduler_stack_ok ((threads k' t)\<lparr>stat := 0\<rparr>) = scheduler_stack_ok ((threads k t)\<lparr>stat := 0\<rparr>)"
    "event_set ((threads k' t)\<lparr>stat := 0\<rparr>) = event_set ((threads k t)\<lparr>stat := 0\<rparr>)"
    "event_info ((threads k' t)\<lparr>stat := 0\<rparr>) = event_info ((threads k t)\<lparr>stat := 0\<rparr>)"
    by simp_all
  then show "obj_type (threads k' t) = obj_type (threads k t)"
    "current_priority (threads k' t) = current_priority (threads k t)"
    "init_priority (threads k' t) = init_priority (threads k t)"
    "number_mask (threads k' t) = number_mask (threads k t)"
    "thread_error (threads k' t) = thread_error (threads k t)"
    "scheduler_stack_ok (threads k' t) = scheduler_stack_ok (threads k t)"
    "is_thread k' t = is_thread k t" "tprio k' t = tprio k t"
    "event_set (threads k' t) = event_set (threads k t)" "event_info (threads k' t) = event_info (threads k t)"
    by (simp_all add: is_thread_def tprio_def scheduler_stack_ok_def)
qed

lemma sched_frame_upd_stat:
  "(\<And>th. (f th)\<lparr>stat := 0\<rparr> = th\<lparr>stat := 0\<rparr>) \<Longrightarrow> sched_frame k (upd_thread t f k)"
  by (simp add: sched_frame_def upd_thread_def)

lemma sched_frame_fields:
  "sched_frame k (k\<lparr>queues := q, ready_priority_group := g\<rparr>)"
  "sched_frame k (k\<lparr>rt_current_priority := p, rt_current_thread := c\<rparr>)"
  by (simp_all add: sched_frame_def)

lemma set_stat_stat: "(set_stat s th)\<lparr>stat := 0\<rparr> = th\<lparr>stat := 0\<rparr>"
  by (simp add: set_stat_def)

text \<open>Making an exempt thread ready, or running when it is the current one.\<close>

lemma thread_ok_set_stat:
  "thread_ok k t \<Longrightarrow> number_mask (threads k t) = push_bit (tprio k t) 1 \<Longrightarrow>
    thread_ok (upd_thread t (set_stat s) k) t"
  by (simp add: thread_ok_def)

lemma rt_schedule_insert_thread_ok:
  assumes inv: "sched_inv (insert t X) k" and th: "is_thread k t"
    and m: "number_mask (threads k t) = push_bit (tprio k t) 1"
  obtains k' where "rt_schedule_insert_thread t k = Some k'" "sched_inv (X - {t}) k'"
    "sched_frame k k'" "rt_current_thread k' = rt_current_thread k"
    "\<And>u. tstat k' u = (if u = t then (if rt_current_thread k = Some t then RT_THREAD_RUNNING
                         else RT_THREAD_READY) else tstat k u)"
    "rt_current_thread k \<noteq> Some t \<Longrightarrow> queues k' =
       (queues k)(Ready (tprio k t) := queues k (Ready (tprio k t)) @ [t])"
    "rt_current_thread k = Some t \<Longrightarrow> queues k' = queues k"
proof -
  have ok: "thread_ok k t" using sched_invD(3) [OF inv th] .
  then have p: "tprio k t < 32" by (simp add: thread_ok_def)
  have inv1: "sched_inv (insert t X) (upd_thread t (set_stat s) k)" for s
    using inv thread_ok_set_stat [OF ok m] by (intro sched_inv_upd_thread) auto
  show ?thesis
  proof (cases "rt_current_thread k = Some t")
    case True
    let ?k = "upd_thread t (set_stat RT_THREAD_RUNNING) k"
    have "sched_inv (X - {t}) ?k"
      using sched_inv_release [OF inv1 [of RT_THREAD_RUNNING]] by simp
    then show ?thesis
      using that [of ?k] True by (simp add: rt_schedule_insert_thread_def sched_frame_upd_stat set_stat_stat)
  next
    case False
    let ?k1 = "upd_thread t (set_stat RT_THREAD_READY) k"
    let ?k = "?k1\<lparr>queues := (queues k)(Ready (tprio k t) := queues k (Ready (tprio k t)) @ [t]),
        ready_priority_group := ready_priority_group k OR number_mask (threads k t)\<rparr>"
    have ex: "rt_schedule_insert_thread t k = Some ?k"
      using False p by (simp add: rt_schedule_insert_thread_def Let_def tlist_insert_before_def
          set_stat_same(3) [unfolded upd_thread_def] upd_thread_def)
    have nt: "\<not> in_queue k t q" for q using sched_invD(4) [OF inv] by simp
    have "sched_inv (X - {t}) ?k"
    proof (rule sched_inv_enqueue [OF inv1 [of RT_THREAD_READY]])
      show "distinct (queues k (Ready (tprio k t)) @ [t])"
        using sched_invD(1) [OF inv] nt by (simp add: queues_ok_def in_queue_def)
      show "bit (ready_priority_group ?k) q \<longleftrightarrow> bit (ready_priority_group ?k1) q \<or> Ready (tprio k t) = Ready q" for q
        using mask_bits [OF p, of q] by (auto simp: m bit_or_iff)
    qed (use th in auto)
    moreover have "tstat ?k u = tstat ?k1 u" for u by (rule same_threads) simp
    moreover have "sched_frame k ?k"
      using sched_frame_trans [OF sched_frame_upd_stat [OF set_stat_stat] sched_frame_fields(1)] .
    ultimately show ?thesis using that [OF ex] False by simp
  qed
qed

lemma get_highest_priority_thread_ok:
  assumes inv: "sched_inv X k" and g: "ready_priority_group k \<noteq> 0"
  obtains t p where "get_highest_priority_thread k = Some (t, p)" "p < 32"
    "in_queue k t (Ready p)" "hd (queues k (Ready p)) = t" "\<And>j. j < p \<Longrightarrow> queues k (Ready j) = []"
proof -
  obtain p where p: "p < 32" "rt_ffs (ready_priority_group k) = p + 1"
      "bit (ready_priority_group k) p" "\<forall>j < p. \<not> bit (ready_priority_group k) j"
    using rt_ffs_lowest [OF g] by blast
  have q: "bit (ready_priority_group k) j \<longleftrightarrow> queues k (Ready j) \<noteq> []" for j
    using sched_invD(2) [OF inv] by (simp add: group_ok_def)
  obtain t ts where "queues k (Ready p) = t # ts" using q p(3) by (cases "queues k (Ready p)") auto
  then show ?thesis
    using that [of t p] p q by (auto simp: get_highest_priority_thread_def Let_def in_queue_def)
qed

lemma ready_not_higher:
  assumes inv: "sched_inv X k" and none: "\<And>j. j < p \<Longrightarrow> queues k (Ready j) = []"
    and u: "u \<notin> X" "is_thread k u" "tstat k u = RT_THREAD_READY"
  shows "p \<le> tprio k u"
proof -
  have "in_queue k u (Ready (tprio k u))" using sched_invD(5) [OF inv u(1)] u by (simp add: placed_def)
  then have "queues k (Ready (tprio k u)) \<noteq> []" by (auto simp: in_queue_def)
  then show ?thesis using none [of "tprio k u"] by fastforce
qed

lemma sched_inv_running_out:
  assumes "sched_inv X k" "t \<notin> X" "tstat k t = RT_THREAD_RUNNING"
  shows "sched_inv (insert t X) k" "\<not> in_queue k t q"
proof -
  show q: "\<not> in_queue k t q" for q
    using sched_invD(6) [OF assms(1), of t q] assms(3) by (cases q) auto
  show "sched_inv (insert t X) k" using assms(1) q by (auto simp: sched_inv_def)
qed

lemma make_running_ok:
  assumes inv: "sched_inv {} k" and th: "is_thread k t"
    and m: "number_mask (threads k t) = push_bit (tprio k t) 1"
  obtains k' where "make_running t k = Some k'" "sched_inv {} k'" "sched_frame k k'"
    "rt_current_thread k' = rt_current_thread k"
    "\<And>u. tstat k' u = (if u = t then RT_THREAD_RUNNING else tstat k u)"
    "scheduler_stack_ok (threads k' t)"
    "queues k' = (\<lambda>q. list_del t (queues k q))"
proof -
  obtain g where r: "rt_schedule_remove_thread t k =
      Some (k\<lparr>queues := (\<lambda>q. list_del t (queues k q)), ready_priority_group := g\<rparr>)"
    and i1: "sched_inv {t} (k\<lparr>queues := (\<lambda>q. list_del t (queues k q)), ready_priority_group := g\<rparr>)"
    using sched_inv_remove [OF inv th] by blast
  let ?k1 = "k\<lparr>queues := (\<lambda>q. list_del t (queues k q)), ready_priority_group := g\<rparr>"
  let ?k = "upd_thread t (set_stat RT_THREAD_RUNNING) ?k1"
  have fr1: "sched_frame k ?k1" by (rule sched_frame_fields)
  have th1: "is_thread ?k1 t" using sched_frame_thread(7) [OF fr1] th by simp
  have ok: "thread_ok ?k1 t" using sched_invD(3) [OF i1 th1] .
  have m1: "number_mask (threads ?k1 t) = push_bit (tprio ?k1 t) 1"
    using m by (simp add: tprio_def)
  have "sched_inv {t} ?k"
    using i1 thread_ok_set_stat [OF ok m1] by (intro sched_inv_upd_thread) auto
  then have "sched_inv {} ?k" using sched_inv_release [of t "{}" ?k] by simp
  moreover have "sched_frame k ?k"
    using sched_frame_trans [OF fr1 sched_frame_upd_stat [OF set_stat_stat]] .
  moreover have "scheduler_stack_ok (threads ?k t)" using ok by (simp add: thread_ok_def)
  ultimately show ?thesis
    using that [of ?k] same_threads(2) [of ?k1 k] by (simp add: make_running_def r)
qed

lemma clear_yield_same:
  fixes k c defines "k1 \<equiv> upd_thread c (stat_update (\<lambda>s. s AND NOT RT_THREAD_STAT_YIELD)) k"
  shows "tstat k1 t = tstat k t" "is_thread k1 t = is_thread k t" "tprio k1 t = tprio k t"
    "number_mask (threads k1 t) = number_mask (threads k t)" "sched_frame k k1"
    "thread_ok k1 t = thread_ok k t"
proof -
  have "NOT 8 AND 7 = (7 :: u8)" by simp
  then have "(s AND NOT 8) AND 7 = s AND 7" for s :: u8
    by (simp only: and.assoc)
  then have "stat (stat_update (\<lambda>s. s AND NOT RT_THREAD_STAT_YIELD) th) AND RT_THREAD_STAT_MASK
      = stat th AND RT_THREAD_STAT_MASK" for th :: rt_thread
    by (cases th) (simp only: rt_thread.update_convs rt_thread.select_convs)
  then show st: "tstat k1 t = tstat k t" for t
    unfolding k1_def tstat_upd_thread by (cases "t = c") (simp_all only: tstat_def if_True if_False refl)
  show fr: "sched_frame k k1" unfolding k1_def by (rule sched_frame_upd_stat) simp
  show "is_thread k1 t = is_thread k t" "tprio k1 t = tprio k t"
    "number_mask (threads k1 t) = number_mask (threads k t)" "thread_ok k1 t = thread_ok k t"
    using sched_frame_thread [OF fr] st by (simp_all add: thread_ok_def started_def)
qed

text \<open>
  \<open>rt_schedule\<close> never halts on a consistent state with a current thread.  It keeps the
  invariant, and when the scheduler is not locked the thread it leaves running has at least
  the priority of every ready thread (a smaller number is a higher priority).
\<close>

definition runs_highest :: "kernel \<Rightarrow> bool" where
  "runs_highest k \<longleftrightarrow> (\<forall>t. is_thread k t \<and> tstat k t = RT_THREAD_READY \<longrightarrow>
     (\<exists>c. rt_current_thread k = Some c \<and> tstat k c = RT_THREAD_RUNNING \<and> tprio k c \<le> tprio k t))"

definition schedule_post :: "kernel \<Rightarrow> kernel \<Rightarrow> bool" where
  "schedule_post k k' \<longleftrightarrow> sched_inv {} k' \<and> cur_inv k' \<and> sched_frame k k' \<and>
     rt_current_thread k' \<noteq> None \<and>
     (\<forall>t. tstat k' t = tstat k t \<or> {tstat k t, tstat k' t} = {RT_THREAD_READY, RT_THREAD_RUNNING}) \<and>
     (scheduler_lock_nest k = 0 \<longrightarrow> runs_highest k')"

lemma cur_invD:
  assumes "cur_inv k"
  shows "is_thread k t \<Longrightarrow> tstat k t = RT_THREAD_RUNNING \<Longrightarrow> rt_current_thread k = Some t"
    "rt_current_thread k = Some t \<Longrightarrow> tstat k t \<noteq> RT_THREAD_READY"
    "rt_current_thread k = Some t \<Longrightarrow> tstat k t = RT_THREAD_RUNNING \<Longrightarrow> is_thread k t"
  using assms unfolding cur_inv_def by blast+

lemma started_mask:
  assumes "sched_inv X k" "is_thread k t" "tstat k t \<in> {RT_THREAD_READY, RT_THREAD_SUSPEND, RT_THREAD_RUNNING}"
  shows "number_mask (threads k t) = push_bit (tprio k t) 1" "tprio k t < 32"
  using sched_invD(3) [OF assms(1,2)] assms(3) by (auto simp: thread_ok_def started_def)


lemma sched_frame_clear_switch:
  "sched_frame k k1 \<Longrightarrow> sched_frame k (k1\<lparr>rt_current_priority := p, rt_current_thread := c\<rparr>)"
  using sched_frame_trans sched_frame_fields(2) by blast

text \<open>The case of a switch, from the state in which the old thread has been queued again.\<close>

lemma switch_post:
  assumes inv: "sched_inv {} k3" and fr: "sched_frame k k3" and cu: "cur_inv k"
    and cur: "rt_current_thread k = Some c" and to: "rt_current_thread k3 = Some to"
    and st: "\<And>u. tstat k3 u = (if u = c \<and> tstat k c = RT_THREAD_RUNNING then RT_THREAD_READY else tstat k u)"
    and r: "is_thread k to" "tstat k to = RT_THREAD_READY" "to \<noteq> c"
    and hi: "\<And>u. is_thread k u \<Longrightarrow> tstat k u = RT_THREAD_READY \<Longrightarrow> tprio k to \<le> tprio k u"
    and hc: "tstat k c = RT_THREAD_RUNNING \<Longrightarrow> tprio k to \<le> tprio k c"
  obtains k' where "make_running to k3 = Some k'" "scheduler_stack_ok (threads k' to)"
    "schedule_post k k'"
proof -
  note fr3 = sched_frame_thread [OF fr]
  have th: "is_thread k3 to" "tstat k3 to = RT_THREAD_READY" using r fr3 by (auto simp: st)
  then have m: "number_mask (threads k3 to) = push_bit (tprio k3 to) 1"
    using started_mask [OF inv] by simp
  obtain k' where k': "make_running to k3 = Some k'" "sched_inv {} k'" "sched_frame k3 k'"
    "rt_current_thread k' = rt_current_thread k3" "scheduler_stack_ok (threads k' to)"
    and st': "\<And>u. tstat k' u = (if u = to then RT_THREAD_RUNNING else tstat k3 u)"
    using make_running_ok [OF inv th(1) m] by blast
  have f: "sched_frame k k'" by (rule sched_frame_trans [OF fr k'(3)])
  note f' = sched_frame_thread [OF f]
  have stat: "tstat k' u = (if u = to then RT_THREAD_RUNNING
      else if u = c \<and> tstat k c = RT_THREAD_RUNNING then RT_THREAD_READY else tstat k u)" for u
    by (simp add: st' st)
  have only: "tstat k u = RT_THREAD_RUNNING \<Longrightarrow> is_thread k u \<Longrightarrow> u = c" for u
    using cur_invD(1) [OF cu, of u] cur by simp
  have "cur_inv k'"
    unfolding cur_inv_def using only r k'(4) to by (auto simp: stat f' split: if_splits)
  moreover have "tstat k' u = tstat k u \<or> {tstat k u, tstat k' u} = {RT_THREAD_READY, RT_THREAD_RUNNING}" for u
    using r by (auto simp: stat)
  moreover have "runs_highest k'"
    unfolding runs_highest_def using hi hc k'(4) to by (auto simp: stat f' split: if_splits)
  ultimately have "schedule_post k k'"
    using k' f to by (simp add: schedule_post_def)
  then show ?thesis using that k' by blast
qed

lemma schedule_choice_cases:
  obtains "schedule_choice c h p k = (c, False, k)" "tstat k c = RT_THREAD_RUNNING" "tprio k c \<le> p"
  | "schedule_choice c h p k =
        (h, True, upd_thread c (stat_update (\<lambda>s. s AND NOT RT_THREAD_STAT_YIELD)) k)"
      "tstat k c = RT_THREAD_RUNNING" "p \<le> tprio k c"
  | "schedule_choice c h p k = (h, False, k)" "tstat k c \<noteq> RT_THREAD_RUNNING"
proof (cases "tstat k c = RT_THREAD_RUNNING")
  case run: True
  show ?thesis
  proof (cases "tprio k c < p \<or> tprio k c = p \<and> stat (threads k c) AND RT_THREAD_STAT_YIELD = 0")
    case True
    then show ?thesis using run that(1) by (auto simp: schedule_choice_def)
  next
    case False
    then show ?thesis using run that(2) by (simp add: schedule_choice_def)
  qed
qed (use that(3) in \<open>simp add: schedule_choice_def\<close>)

text \<open>The three outcomes: the running thread stays, has left the ready list, or is preempted.\<close>

lemma schedule_stay:
  assumes inv: "sched_inv {} k" and cu: "cur_inv k" and cur: "rt_current_thread k = Some c" and run: "tstat k c = RT_THREAD_RUNNING"
    and hi: "\<And>u. is_thread k u \<Longrightarrow> tstat k u = RT_THREAD_READY \<Longrightarrow> tprio k c \<le> tprio k u"
  obtains k' where "make_running c k = Some k'" "schedule_post k k'"
proof -
  have th: "is_thread k c" using cur_invD(3) [OF cu cur run] .
  have m: "number_mask (threads k c) = push_bit (tprio k c) 1" using started_mask [OF inv th] run by simp
  obtain k' where k': "make_running c k = Some k'" "sched_inv {} k'" "sched_frame k k'"
    "rt_current_thread k' = rt_current_thread k"
    and st: "\<And>u. tstat k' u = (if u = c then RT_THREAD_RUNNING else tstat k u)"
    using make_running_ok [OF inv th m] by blast
  have st': "tstat k' u = tstat k u" for u using st [of u] run by simp
  note f = sched_frame_thread [OF k'(3)]
  have "cur_inv k'" using cu unfolding cur_inv_def st' f(7) k'(4) .
  moreover have "runs_highest k'" unfolding runs_highest_def st' f(7,8) k'(4) using cur hi run by simp
  ultimately have "schedule_post k k'" using k' cur by (simp add: schedule_post_def st')
  then show ?thesis using that k'(1) by blast
qed

lemma schedule_leave:
  assumes inv: "sched_inv {} k" and cu: "cur_inv k" and cur: "rt_current_thread k = Some c" and out: "tstat k c \<noteq> RT_THREAD_RUNNING"
    and h: "in_queue k h (Ready p)" "h \<noteq> c" and hi: "\<And>u. is_thread k u \<Longrightarrow> tstat k u = RT_THREAD_READY \<Longrightarrow> p \<le> tprio k u"
  obtains k' where "make_running h (k\<lparr>rt_current_priority := of_nat p, rt_current_thread := Some h\<rparr>) = Some k'"
    "scheduler_stack_ok (threads k' h)" "schedule_post k k'"
proof -
  let ?k2 = "k\<lparr>rt_current_priority := of_nat p, rt_current_thread := Some h\<rparr>"
  have inv2: "sched_inv {} ?k2" using inv sched_inv_cong [of ?k2 k] by simp
  show ?thesis
  proof (rule switch_post [OF inv2 sched_frame_fields(2) cu cur])
    show "tstat ?k2 u = (if u = c \<and> tstat k c = RT_THREAD_RUNNING then RT_THREAD_READY else tstat k u)" for u
      using out same_threads(2) [of ?k2 k] by simp
  qed (use ready_in_queue [OF inv h(1)] hi h(2) out that in auto)
qed

lemma schedule_preempt:
  assumes inv: "sched_inv {} k" and cu: "cur_inv k" and cur: "rt_current_thread k = Some c" and run: "tstat k c = RT_THREAD_RUNNING"
    and h: "in_queue k h (Ready p)" "h \<noteq> c" "p \<le> tprio k c" and hi: "\<And>u. is_thread k u \<Longrightarrow> tstat k u = RT_THREAD_READY \<Longrightarrow> p \<le> tprio k u"
  obtains k3 k' where "rt_schedule_insert_thread c ((upd_thread c (stat_update (\<lambda>s. s AND NOT RT_THREAD_STAT_YIELD)) k)
      \<lparr>rt_current_priority := of_nat p, rt_current_thread := Some h\<rparr>) = Some k3"
    "make_running h k3 = Some k'" "scheduler_stack_ok (threads k' h)" "schedule_post k k'"
proof -
  let ?k1 = "upd_thread c (stat_update (\<lambda>s. s AND NOT RT_THREAD_STAT_YIELD)) k"
  let ?k2 = "?k1\<lparr>rt_current_priority := of_nat p, rt_current_thread := Some h\<rparr>"
  note y = clear_yield_same [where c = c and k = k]
  have th: "is_thread k c" using cur_invD(3) [OF cu cur run] .
  have m: "number_mask (threads k c) = push_bit (tprio k c) 1" using started_mask [OF inv th] run by simp
  have "sched_inv {c} k" using sched_inv_running_out(1) [OF inv _ run] by simp
  then have "sched_inv {c} ?k1"
    using y(2,6) [of c] sched_invD(3) [OF inv] by (intro sched_inv_upd_thread) auto
  then have inv2: "sched_inv {c} ?k2" using sched_inv_cong [of ?k2 ?k1] by simp
  note same2 = same_threads [of ?k2 ?k1, simplified]
  have f2: "sched_frame k ?k2" using sched_frame_clear_switch [OF y(5)] .
  have th2: "is_thread ?k2 c" using th sched_frame_thread(7) [OF f2] by simp
  have m2: "number_mask (threads ?k2 c) = push_bit (tprio ?k2 c) 1" using m sched_frame_thread(4,8) [OF f2] by simp
  obtain k3 where k3: "rt_schedule_insert_thread c ?k2 = Some k3" "sched_inv ({} - {c}) k3"
    "sched_frame ?k2 k3" "rt_current_thread k3 = rt_current_thread ?k2"
    and st3: "\<And>u. tstat k3 u = (if u = c then (if rt_current_thread ?k2 = Some c
        then RT_THREAD_RUNNING else RT_THREAD_READY) else tstat ?k2 u)"
    using rt_schedule_insert_thread_ok [OF inv2 th2 m2] by blast
  have k3': "sched_inv {} k3" "rt_current_thread k3 = Some h" using k3 by simp_all
  show ?thesis
  proof (rule switch_post [OF k3'(1) sched_frame_trans [OF f2 k3(3)] cu cur k3'(2)])
    show "tstat k3 u = (if u = c \<and> tstat k c = RT_THREAD_RUNNING then RT_THREAD_READY else tstat k u)" for u
      using run st3 [of u] same2(2) [of u] y(1) [of u] h(2) by simp
  qed (use ready_in_queue [OF inv h(1)] hi h(2,3) run that [OF k3(1)] in auto)
qed

lemma rt_schedule_ok:
  assumes inv: "sched_inv {} k" and cu: "cur_inv k" and cur: "rt_current_thread k = Some c"
  obtains k' where "rt_schedule k = Some k'" "schedule_post k k'"
proof (cases "scheduler_lock_nest k = 0 \<and> ready_priority_group k \<noteq> 0")
  case False
  have "runs_highest k" if "ready_priority_group k = 0"
  proof -
    have "queues k (Ready p) = []" for p
      using sched_invD(2) [OF inv] that by (auto simp: group_ok_def)
    then show ?thesis
      using sched_invD(5) [OF inv] by (auto simp: runs_highest_def placed_def in_queue_def)
  qed
  then have "schedule_post k k" using False inv cu cur by (auto simp: schedule_post_def)
  moreover have "rt_schedule k = Some k" using False by (auto simp: rt_schedule_def)
  ultimately show ?thesis using that by blast
next
  case True
  obtain h p where hp: "get_highest_priority_thread k = Some (h, p)" "p < 32"
      "in_queue k h (Ready p)" and below: "\<And>j. j < p \<Longrightarrow> queues k (Ready j) = []"
    using get_highest_priority_thread_ok [OF inv] True by metis
  have hi: "p \<le> tprio k u" if "is_thread k u" "tstat k u = RT_THREAD_READY" for u
    using ready_not_higher [OF inv below] that by blast
  have hc: "h \<noteq> c" using cur_invD(2) [OF cu cur] ready_in_queue [OF inv hp(3)] by auto
  have ex: "rt_schedule k =
      (let (to, need_insert, k1) = schedule_choice c h p k in
        if to \<noteq> c then do {
          let k2 = k1\<lparr>rt_current_priority := of_nat p, rt_current_thread := Some to\<rparr>;
          k3 \<leftarrow> (if need_insert then rt_schedule_insert_thread c k2 else Some k2);
          k4 \<leftarrow> make_running to k3;
          require (scheduler_stack_ok (threads k4 to));
          Some k4
        } else make_running c k1)"
    using True by (simp add: rt_schedule_def hp cur)
  show ?thesis
  proof (rule schedule_choice_cases [of c h p k])
    assume a: "schedule_choice c h p k = (c, False, k)" "tstat k c = RT_THREAD_RUNNING" "tprio k c \<le> p"
    show ?thesis
      by (rule schedule_stay [OF inv cu cur a(2)]) (use a hi order_trans that ex in auto)
  next
    assume a: "schedule_choice c h p k = (h, True, upd_thread c (stat_update (\<lambda>s. s AND NOT RT_THREAD_STAT_YIELD)) k)"
        "tstat k c = RT_THREAD_RUNNING" "p \<le> tprio k c"
    show ?thesis
      by (rule schedule_preempt [OF inv cu cur a(2) hp(3) hc a(3) hi]) (use a(1) hc that ex in auto)
  next
    assume a: "schedule_choice c h p k = (h, False, k)" "tstat k c \<noteq> RT_THREAD_RUNNING"
    show ?thesis
      by (rule schedule_leave [OF inv cu cur a(2) hp(3) hc hi]) (use a(1) hc that ex in auto)
  qed
qed

lemma rt_schedule_returns:
  assumes "sched_inv {} k" "cur_inv k" "rt_current_thread k \<noteq> None"
  shows "returns (rt_schedule k) (schedule_post k)"
  using assms rt_schedule_ok [of k] by (metis not_None_eq returnsI)

subsection \<open>Who runs next\<close>

lemma set_stat_idem: "stat th AND RT_THREAD_STAT_MASK = s \<Longrightarrow> set_stat s th = th"
proof -
  assume a: "stat th AND RT_THREAD_STAT_MASK = s"
  have "s OR (stat th AND NOT RT_THREAD_STAT_MASK) = stat th"
    unfolding a [symmetric] by (rule bit_word_eqI) (auto simp only: bit_or_iff bit_and_iff bit_not_iff possible_bit_word)
  then show "set_stat s th = th" by (simp only: set_stat_def) simp
qed

lemma make_running_self:
  assumes inv: "sched_inv {} k" and cu: "cur_inv k" and cur: "rt_current_thread k = Some c"
    and run: "tstat k c = RT_THREAD_RUNNING"
  shows "make_running c k = Some k"
proof -
  have th: "is_thread k c" using cur_invD(3) [OF cu cur run] .
  have m: "number_mask (threads k c) = push_bit (tprio k c) 1" "tprio k c < 32"
    using started_mask [OF inv th] run by simp_all
  have nq: "c \<notin> set (queues k q)" for q
    using sched_inv_running_out(2) [OF inv _ run] by (simp add: in_queue_def)
  have "bit (ready_priority_group k) j \<longleftrightarrow> queues k (Ready j) \<noteq> []" for j
    using sched_invD(2) [OF inv] by (simp add: group_ok_def)
  then have "ready_priority_group k AND NOT (number_mask (threads k c)) = ready_priority_group k"
    if "queues k (Ready (tprio k c)) = []"
    using that mask_bits [OF m(2)] unfolding m(1)
    by (intro bit_word_eqI) (auto simp only: bit_and_iff bit_not_iff possible_bit_word)
  then have "rt_schedule_remove_thread c k = Some k"
    using rt_schedule_remove_thread_eq [OF m(2)] nq by (auto simp: list_del_notin)
  moreover have "upd_thread c (set_stat RT_THREAD_RUNNING) k = k"
    using set_stat_idem [of "threads k c"] run by (simp add: upd_thread_def tstat_def)
  ultimately show ?thesis by (simp add: make_running_def)
qed

lemma highest_is_head:
  assumes inv: "sched_inv {} k" and q: "queues k (Ready p) = h # ts"
    and hi: "\<And>u. is_thread k u \<Longrightarrow> tstat k u = RT_THREAD_READY \<Longrightarrow> p \<le> tprio k u"
  shows "get_highest_priority_thread k = Some (h, p)" "ready_priority_group k \<noteq> 0"
proof -
  have g: "bit (ready_priority_group k) j \<longleftrightarrow> queues k (Ready j) \<noteq> []" for j
    using sched_invD(2) [OF inv] by (simp add: group_ok_def)
  then have b: "bit (ready_priority_group k) p" by (simp add: q)
  have "\<not> bit (ready_priority_group k) j" if "j < p" for j
  proof
    assume "bit (ready_priority_group k) j"
    then obtain u us where "queues k (Ready j) = u # us" using g [of j] by (cases "queues k (Ready j)") auto
    then have "in_queue k u (Ready j)" by (simp add: in_queue_def)
    from ready_in_queue [OF inv this] hi [of u] that show False by simp
  qed
  then have "rt_ffs (ready_priority_group k) = p + 1" using b by (intro rt_ffs_unique) auto
  then show "get_highest_priority_thread k = Some (h, p)"
    by (simp add: get_highest_priority_thread_def Let_def q)
  show "ready_priority_group k \<noteq> 0" using b by auto
qed

text \<open>
  A running thread that no ready thread precedes keeps the processor: without the yield flag
  not even a ready thread of the same priority takes over.
\<close>

lemma rt_schedule_stays:
  assumes inv: "sched_inv {} k" and cu: "cur_inv k" and cur: "rt_current_thread k = Some c"
    and run: "tstat k c = RT_THREAD_RUNNING" and ny: "stat (threads k c) AND RT_THREAD_STAT_YIELD = 0"
    and hi: "\<And>u. is_thread k u \<Longrightarrow> tstat k u = RT_THREAD_READY \<Longrightarrow> tprio k c \<le> tprio k u"
  shows "rt_schedule k = Some k"
proof (cases "scheduler_lock_nest k = 0 \<and> ready_priority_group k \<noteq> 0")
  case True
  obtain h p where hp: "get_highest_priority_thread k = Some (h, p)" "in_queue k h (Ready p)"
    using get_highest_priority_thread_ok [OF inv] True by metis
  have "tprio k c \<le> p" using hi [of h] ready_in_queue [OF inv hp(2)] by simp
  then have "schedule_choice c h p k = (c, False, k)"
    using run ny by (simp add: schedule_choice_def)
  then show ?thesis
    using True hp cur make_running_self [OF inv cu cur run] by (simp add: rt_schedule_def)
qed (auto simp: rt_schedule_def)

text \<open>
  With the yield flag set, a running thread goes to the end of the list of its priority and
  the first thread of that list takes over.
\<close>

lemma rt_schedule_rotates:
  assumes inv: "sched_inv {} k" and cu: "cur_inv k" and cur: "rt_current_thread k = Some c"
    and run: "tstat k c = RT_THREAD_RUNNING" and y: "stat (threads k c) AND RT_THREAD_STAT_YIELD \<noteq> 0"
    and q: "queues k (Ready (tprio k c)) = h # ts" and lock: "scheduler_lock_nest k = 0"
    and hi: "\<And>u. is_thread k u \<Longrightarrow> tstat k u = RT_THREAD_READY \<Longrightarrow> tprio k c \<le> tprio k u"
  obtains k' where "rt_schedule k = Some k'" "schedule_post k k'" "rt_current_thread k' = Some h"
    "queues k' (Ready (tprio k c)) = ts @ [c]"
proof -
  let ?p = "tprio k c"
  obtain k' where k': "rt_schedule k = Some k'" "schedule_post k k'"
    using rt_schedule_ok [OF inv cu cur] .
  note gh = highest_is_head [OF inv q hi]
  let ?k1 = "upd_thread c (stat_update (\<lambda>s. s AND NOT RT_THREAD_STAT_YIELD)) k"
  let ?k2 = "?k1\<lparr>rt_current_priority := of_nat ?p, rt_current_thread := Some h\<rparr>"
  have hin: "in_queue k h (Ready ?p)" by (simp add: in_queue_def q)
  have hc: "h \<noteq> c" using ready_in_queue(2) [OF inv hin] run by auto
  have d: "distinct (h # ts)" using sched_invD(1) [OF inv] q by (metis queues_ok_def)
  have choice: "schedule_choice c h ?p k = (h, True, ?k1)"
    using run y by (simp add: schedule_choice_def)
  have f2: "sched_frame k ?k2" using sched_frame_clear_switch [OF clear_yield_same(5)] .
  have th: "is_thread k c" using cur_invD(3) [OF cu cur run] .
  have m: "number_mask (threads k c) = push_bit ?p 1" using started_mask [OF inv th] run by simp
  have "sched_inv {c} k" using sched_inv_running_out(1) [OF inv _ run] by simp
  then have "sched_inv {c} ?k1"
    using clear_yield_same(2,6) sched_invD(3) [OF inv] by (intro sched_inv_upd_thread) auto
  then have inv2: "sched_inv {c} ?k2" using sched_inv_cong [of ?k2 ?k1] by simp
  have th2: "is_thread ?k2 c" using th sched_frame_thread(7) [OF f2] by simp
  have m2: "number_mask (threads ?k2 c) = push_bit (tprio ?k2 c) 1"
    using m sched_frame_thread(4,8) [OF f2] by simp
  have p2: "tprio ?k2 c = ?p" using sched_frame_thread(8) [OF f2] .
  obtain k3 where k3a: "rt_schedule_insert_thread c ?k2 = Some k3" "sched_inv ({} - {c}) k3"
      "rt_current_thread k3 = rt_current_thread ?k2" "sched_frame ?k2 k3"
      "rt_current_thread ?k2 \<noteq> Some c \<Longrightarrow>
        queues k3 = (queues ?k2)(Ready (tprio ?k2 c) := queues ?k2 (Ready (tprio ?k2 c)) @ [c])"
    using rt_schedule_insert_thread_ok [OF inv2 th2 m2] by blast
  have k3: "rt_schedule_insert_thread c ?k2 = Some k3" "sched_inv {} k3"
      "rt_current_thread k3 = Some h" "sched_frame ?k2 k3"
      "queues k3 = (queues k)(Ready ?p := queues k (Ready ?p) @ [c])"
    using k3a(1-4) k3a(5) [unfolded p2] hc by simp_all
  have ex: "rt_schedule k = do { k4 \<leftarrow> make_running h k3; require (scheduler_stack_ok (threads k4 h)); Some k4 }"
    using gh lock hc k3(1) by (simp add: rt_schedule_def cur choice)
  have hk3: "in_queue k3 h (Ready ?p)" by (simp add: in_queue_def k3(5) q)
  note r3 = ready_in_queue [OF k3(2) hk3]
  have "number_mask (threads k3 h) = push_bit (tprio k3 h) 1" using r3 by simp
  from make_running_ok [OF k3(2) r3(1) this] obtain k4
    where k4: "make_running h k3 = Some k4" "rt_current_thread k4 = rt_current_thread k3"
      "queues k4 = (\<lambda>q. list_del h (queues k3 q))" by metis
  have "k' = k4" using ex k'(1) k4(1) by (simp add: require_bind_if split: if_splits)
  moreover have "list_del h (queues k3 (Ready ?p)) = ts @ [c]"
    using d hc by (simp add: k3(5) q list_del_notin)
  ultimately show ?thesis using that [OF k'] k4 k3(3) by simp
qed

end
