(* ===== verification/Object.thy ===== *)
theory Object
  imports Sched KString
begin

section \<open>The kernel object system (rt-thread/src/object.c)\<close>

text \<open>
  Every kernel object carries its type, with the bit \<open>RT_Object_Class_Static\<close> for an object
  that was initialised in place, and hangs in the container of its class.  The container of a
  class is a list of objects (\<open>containers\<close>, newest first, as \<open>rt_list_insert_after\<close> on the
  head puts it).  Allocation takes the result of \<open>rt_malloc\<close> as an argument.  The walks over a
  container hold the scheduler lock, and releasing it is a scheduling point
  (\<open>rt_exit_critical\<close> calls \<open>rt_schedule\<close>): what follows it in the function runs when the
  thread is scheduled again.
\<close>

fun obj_type_of :: "kernel \<Rightarrow> objref \<Rightarrow> u8" where
  "obj_type_of k (OThread t) = obj_type (threads k t)"
| "obj_type_of k (OTimer t) = obj_type (timers k t)"
| "obj_type_of k (OSem s) = obj_type (sems k s)"
| "obj_type_of k (OMutex s) = obj_type (mutexes k s)"
| "obj_type_of k (OEvent s) = obj_type (events k s)"
| "obj_type_of k (OMailBox s) = obj_type (mailboxes k s)"
| "obj_type_of k (OMsgQueue s) = obj_type (msgqueues k s)"
| "obj_type_of k (OMemPool s) = obj_type (mempools k s)"
| "obj_type_of k (ODevice d) = obj_type (devices k d)"

fun obj_name_of :: "kernel \<Rightarrow> objref \<Rightarrow> u8 list" where
  "obj_name_of k (OThread t) = obj_name (threads k t)"
| "obj_name_of k (OTimer t) = obj_name (timers k t)"
| "obj_name_of k (OSem s) = obj_name (sems k s)"
| "obj_name_of k (OMutex s) = obj_name (mutexes k s)"
| "obj_name_of k (OEvent s) = obj_name (events k s)"
| "obj_name_of k (OMailBox s) = obj_name (mailboxes k s)"
| "obj_name_of k (OMsgQueue s) = obj_name (msgqueues k s)"
| "obj_name_of k (OMemPool s) = obj_name (mempools k s)"
| "obj_name_of k (ODevice d) = obj_name (devices k d)"

fun set_obj_type :: "objref \<Rightarrow> u8 \<Rightarrow> kernel \<Rightarrow> kernel" where
  "set_obj_type (OThread t) ty k = upd_thread t (obj_type_update (\<lambda>_. ty)) k"
| "set_obj_type (OTimer t) ty k = upd_timer t (obj_type_update (\<lambda>_. ty)) k"
| "set_obj_type (OSem s) ty k = upd_sem s (obj_type_update (\<lambda>_. ty)) k"
| "set_obj_type (OMutex s) ty k = upd_mutex s (obj_type_update (\<lambda>_. ty)) k"
| "set_obj_type (OEvent s) ty k = upd_event s (obj_type_update (\<lambda>_. ty)) k"
| "set_obj_type (OMailBox s) ty k = upd_mb s (obj_type_update (\<lambda>_. ty)) k"
| "set_obj_type (OMsgQueue s) ty k = upd_mq s (obj_type_update (\<lambda>_. ty)) k"
| "set_obj_type (OMemPool s) ty k = upd_mp s (obj_type_update (\<lambda>_. ty)) k"
| "set_obj_type (ODevice d) ty k = upd_dev d (obj_type_update (\<lambda>_. ty)) k"

fun set_obj_name :: "objref \<Rightarrow> u8 list \<Rightarrow> kernel \<Rightarrow> kernel" where
  "set_obj_name (OThread t) nm k = upd_thread t (obj_name_update (\<lambda>_. nm)) k"
| "set_obj_name (OTimer t) nm k = upd_timer t (obj_name_update (\<lambda>_. nm)) k"
| "set_obj_name (OSem s) nm k = upd_sem s (obj_name_update (\<lambda>_. nm)) k"
| "set_obj_name (OMutex s) nm k = upd_mutex s (obj_name_update (\<lambda>_. nm)) k"
| "set_obj_name (OEvent s) nm k = upd_event s (obj_name_update (\<lambda>_. nm)) k"
| "set_obj_name (OMailBox s) nm k = upd_mb s (obj_name_update (\<lambda>_. nm)) k"
| "set_obj_name (OMsgQueue s) nm k = upd_mq s (obj_name_update (\<lambda>_. nm)) k"
| "set_obj_name (OMemPool s) nm k = upd_mp s (obj_name_update (\<lambda>_. nm)) k"
| "set_obj_name (ODevice d) nm k = upd_dev d (obj_name_update (\<lambda>_. nm)) k"

fun set_obj_flag :: "objref \<Rightarrow> u8 \<Rightarrow> kernel \<Rightarrow> kernel" where
  "set_obj_flag (OThread t) fl k = upd_thread t (obj_flag_update (\<lambda>_. fl)) k"
| "set_obj_flag (OTimer t) fl k = upd_timer t (obj_flag_update (\<lambda>_. fl)) k"
| "set_obj_flag (OSem s) fl k = upd_sem s (obj_flag_update (\<lambda>_. fl)) k"
| "set_obj_flag (OMutex s) fl k = upd_mutex s (obj_flag_update (\<lambda>_. fl)) k"
| "set_obj_flag (OEvent s) fl k = upd_event s (obj_flag_update (\<lambda>_. fl)) k"
| "set_obj_flag (OMailBox s) fl k = upd_mb s (obj_flag_update (\<lambda>_. fl)) k"
| "set_obj_flag (OMsgQueue s) fl k = upd_mq s (obj_flag_update (\<lambda>_. fl)) k"
| "set_obj_flag (OMemPool s) fl k = upd_mp s (obj_flag_update (\<lambda>_. fl)) k"
| "set_obj_flag (ODevice d) fl k = upd_dev d (obj_flag_update (\<lambda>_. fl)) k"

definition rt_object_get_type :: "kernel \<Rightarrow> objref \<Rightarrow> u8" where
  "rt_object_get_type k ob = obj_type_of k ob AND NOT RT_Object_Class_Static"

definition rt_object_is_systemobject :: "kernel \<Rightarrow> objref \<Rightarrow> bool" where
  "rt_object_is_systemobject k ob \<longleftrightarrow> obj_type_of k ob AND RT_Object_Class_Static \<noteq> 0"

text \<open>
  The table \<open>rt_object_container\<close> has an entry for each class the configuration enables;
  \<open>rt_object_get_information\<close> searches it for a type and returns its list, or \<open>RT_NULL\<close>.
\<close>

definition rt_object_container_types :: "u8 list" where
  "rt_object_container_types = List.map class_code
     [RT_Object_Class_Thread, RT_Object_Class_Semaphore, RT_Object_Class_Mutex,
      RT_Object_Class_Event, RT_Object_Class_MailBox, RT_Object_Class_MessageQueue,
      RT_Object_Class_MemHeap, RT_Object_Class_MemPool, RT_Object_Class_Device,
      RT_Object_Class_Timer]"

definition rt_object_get_information :: "kernel \<Rightarrow> u8 \<Rightarrow> objref list option" where
  "rt_object_get_information k ty =
     (if ty \<in> set rt_object_container_types then Some (containers k ty) else None)"

definition container_insert_after :: "u8 \<Rightarrow> objref \<Rightarrow> kernel \<Rightarrow> kernel" where
  [kdefs]: "container_insert_after ty ob k = k\<lparr>containers := (containers k)(ty := ob # containers k ty)\<rparr>"

definition container_remove :: "objref \<Rightarrow> kernel \<Rightarrow> kernel" where
  [kdefs]: "container_remove ob k = k\<lparr>containers := (\<lambda>c. list_del ob (containers k c))\<rparr>"

definition rt_object_init :: "objref \<Rightarrow> rt_object_class_type \<Rightarrow> u8 list \<Rightarrow> kernel \<Rightarrow> kernel option" where
  "rt_object_init ob ty name k = do {
     information \<leftarrow> rt_object_get_information k (class_code ty);
     require (ob \<notin> set information);
     k1 \<leftarrow> rt_exit_critical (rt_enter_critical k);
     nm \<leftarrow> rt_strncpy (obj_name_of k1 ob) name 8;
     Some (container_insert_after (class_code ty) ob
       (set_obj_name ob nm (set_obj_type ob (class_code ty OR RT_Object_Class_Static) k1)))
   }"

definition rt_object_detach :: "objref \<Rightarrow> kernel \<Rightarrow> kernel" where
  "rt_object_detach ob k = container_remove ob (set_obj_type ob 0 k)"

text \<open>
  \<open>rt_object_allocate\<close> with the address that \<open>rt_malloc\<close> returned, \<open>None\<close> for no memory.
  \<open>clear\<close> stands for \<open>rt_memset\<close> to 0 of the object at that address.
\<close>

definition rt_object_allocate ::
    "objref option \<Rightarrow> (kernel \<Rightarrow> kernel) \<Rightarrow> rt_object_class_type \<Rightarrow> u8 list \<Rightarrow> kernel
      \<Rightarrow> (objref option \<times> kernel) option" where
  "rt_object_allocate mem clear ty name k = do {
     require (interrupt_nest k = 0);
     information \<leftarrow> rt_object_get_information k (class_code ty);
     (case mem of None \<Rightarrow> Some (None, k)
      | Some ob \<Rightarrow> do {
          let k1 = set_obj_flag ob 0 (set_obj_type ob (class_code ty) (clear k));
          nm \<leftarrow> rt_strncpy (replicate 8 0) name 8;
          Some (Some ob, container_insert_after (class_code ty) ob (set_obj_name ob nm k1))
        })
   }"

definition rt_object_delete :: "objref \<Rightarrow> kernel \<Rightarrow> kernel option" where
  "rt_object_delete ob k = do {
     require (obj_type_of k ob AND RT_Object_Class_Static = 0);
     Some (container_remove ob (set_obj_type ob 0 k))
   }"

text \<open>
  \<open>rt_object_find\<close> and the loop of \<open>rt_thread_find\<close>: the first object of the container
  whose name agrees with the given one on \<open>RT_NAME_MAX\<close> bytes.  The search runs with the
  scheduler locked; the result is returned after the lock is released.
\<close>

fun find_by_name :: "kernel \<Rightarrow> u8 list \<Rightarrow> objref list \<Rightarrow> objref option option" where
  "find_by_name k name [] = Some None"
| "find_by_name k name (ob # obs) = do {
     c \<leftarrow> rt_strncmp (obj_name_of k ob) name 8;
     if c = 0 then Some (Some ob) else find_by_name k name obs
   }"

definition rt_object_find :: "u8 list option \<Rightarrow> u8 \<Rightarrow> kernel \<Rightarrow> (objref option \<times> kernel) option" where
  "rt_object_find name ty k =
     (case name of
        None \<Rightarrow> Some (None, k)
      | Some nm \<Rightarrow>
          if ty > class_code RT_Object_Class_Unknown then Some (None, k)
          else do {
            require (interrupt_nest k = 0);
            let k1 = rt_enter_critical k;
            information \<leftarrow> rt_object_get_information k1 ty;
            ob \<leftarrow> find_by_name k1 nm information;
            k2 \<leftarrow> rt_exit_critical k1;
            Some (ob, k2)
          })"

end
