(* ===== verification/TimerBase.thy ===== *)
theory TimerBase
  imports Object
begin

section \<open>Timer objects (rt-thread/src/timer.c, first part)\<close>

text \<open>
  Initialisation, removal, stopping and control of timers: the operations that the thread
  functions use.  With one skip-list level a timer has one list node, and \<open>_rt_timer_remove\<close>
  unlinks it from whichever of the two timer lists holds it.
\<close>

definition timer_is_type :: "kernel \<Rightarrow> timer_id \<Rightarrow> bool" where
  "timer_is_type k x \<longleftrightarrow> rt_object_get_type k (OTimer x) = class_code RT_Object_Class_Timer"

definition timer_init :: "timer_id \<Rightarrow> timer_func \<Rightarrow> nat \<Rightarrow> u32 \<Rightarrow> u8 \<Rightarrow> kernel \<Rightarrow> kernel" where
  "timer_init x timeout param time flag k =
     upd_timer x (\<lambda>tm. tm\<lparr>obj_flag := flag AND NOT RT_TIMER_FLAG_ACTIVATED,
        timeout_func := timeout, parameter := param, timeout_tick := 0, init_tick := time\<rparr>) k"

definition timer_list_next_timeout :: "timer_id list \<Rightarrow> kernel \<Rightarrow> u32" where
  "timer_list_next_timeout timer_list k =
     (case timer_list of [] \<Rightarrow> RT_TICK_MAX | x # _ \<Rightarrow> timeout_tick (timers k x))"

definition timer_remove :: "timer_id \<Rightarrow> kernel \<Rightarrow> kernel" where
  "timer_remove x k = k\<lparr>rt_timer_list := list_del x (rt_timer_list k),
                        rt_soft_timer_list := list_del x (rt_soft_timer_list k)\<rparr>"

definition rt_timer_init ::
    "timer_id \<Rightarrow> u8 list \<Rightarrow> timer_func \<Rightarrow> nat \<Rightarrow> u32 \<Rightarrow> u8 \<Rightarrow> kernel \<Rightarrow> kernel option" where
  "rt_timer_init x name timeout param time flag k = do {
     k1 \<leftarrow> rt_object_init (OTimer x) RT_Object_Class_Timer name k;
     Some (timer_init x timeout param time flag k1)
   }"

definition rt_timer_detach :: "timer_id \<Rightarrow> kernel \<Rightarrow> (rt_err \<times> kernel) option" where
  "rt_timer_detach x k = do {
     require (timer_is_type k x);
     require (rt_object_is_systemobject k (OTimer x));
     Some (RT_EOK, rt_object_detach (OTimer x) (timer_remove x k))
   }"

definition zero_timer :: rt_timer where
  "zero_timer = \<lparr>obj_name = replicate 8 0, obj_type = 0, obj_flag = 0, timeout_func = User_timeout 0,
     parameter = 0, init_tick = 0, timeout_tick = 0\<rparr>"

definition rt_timer_create ::
    "nat option \<Rightarrow> u8 list \<Rightarrow> timer_func \<Rightarrow> nat \<Rightarrow> u32 \<Rightarrow> u8 \<Rightarrow> kernel
      \<Rightarrow> (timer_id option \<times> kernel) option" where
  "rt_timer_create mem name timeout param time flag k = do {
     (ob, k1) \<leftarrow> rt_object_allocate (map_option (\<lambda>n. OTimer (UserTimer n)) mem)
                   (case mem of None \<Rightarrow> id | Some n \<Rightarrow> upd_timer (UserTimer n) (\<lambda>_. zero_timer))
                   RT_Object_Class_Timer name k;
     (case (ob, mem) of
        (Some _, Some n) \<Rightarrow> Some (Some (UserTimer n), timer_init (UserTimer n) timeout param time flag k1)
      | _ \<Rightarrow> Some (None, k1))
   }"

definition rt_timer_delete :: "timer_id \<Rightarrow> kernel \<Rightarrow> (rt_err \<times> kernel) option" where
  "rt_timer_delete x k = do {
     require (timer_is_type k x);
     require (\<not> rt_object_is_systemobject k (OTimer x));
     k1 \<leftarrow> rt_object_delete (OTimer x) (timer_remove x k);
     Some (RT_EOK, k1)
   }"

definition rt_timer_stop :: "timer_id \<Rightarrow> kernel \<Rightarrow> (rt_err \<times> kernel) option" where
  "rt_timer_stop x k = do {
     require (timer_is_type k x);
     if obj_flag (timers k x) AND RT_TIMER_FLAG_ACTIVATED = 0 then Some (- RT_ERROR, k)
     else Some (RT_EOK,
       upd_timer x (obj_flag_update (\<lambda>f. f AND NOT RT_TIMER_FLAG_ACTIVATED)) (timer_remove x k))
   }"

text \<open>The commands of \<open>rt_timer_control\<close>; the argument of the get command is returned.\<close>

datatype timer_cmd = CTRL_SET_TIME u32 | CTRL_GET_TIME | CTRL_SET_ONESHOT | CTRL_SET_PERIODIC
  | CTRL_timer_other

fun timer_ctrl :: "timer_cmd \<Rightarrow> timer_id \<Rightarrow> kernel \<Rightarrow> u32 option \<times> kernel" where
  "timer_ctrl CTRL_GET_TIME x k = (Some (init_tick (timers k x)), k)"
| "timer_ctrl (CTRL_SET_TIME arg) x k = (None, upd_timer x (init_tick_update (\<lambda>_. arg)) k)"
| "timer_ctrl CTRL_SET_ONESHOT x k =
     (None, upd_timer x (obj_flag_update (\<lambda>f. f AND NOT RT_TIMER_FLAG_PERIODIC)) k)"
| "timer_ctrl CTRL_SET_PERIODIC x k =
     (None, upd_timer x (obj_flag_update (\<lambda>f. f OR RT_TIMER_FLAG_PERIODIC)) k)"
| "timer_ctrl CTRL_timer_other x k = (None, k)"

definition rt_timer_control :: "timer_id \<Rightarrow> timer_cmd \<Rightarrow> kernel \<Rightarrow> (u32 option \<times> kernel) option" where
  "rt_timer_control x cmd k = do {
     require (timer_is_type k x);
     Some (timer_ctrl cmd x k)
   }"

definition rt_timer_next_timeout_tick :: "kernel \<Rightarrow> u32" where
  "rt_timer_next_timeout_tick k = timer_list_next_timeout (rt_timer_list k) k"

definition rt_system_timer_init :: "kernel \<Rightarrow> kernel" where
  "rt_system_timer_init k = k\<lparr>rt_timer_list := []\<rparr>"

end
