(* ===== verification/Thread.thy ===== *)
theory Thread
  imports TimerBase
begin

section \<open>Threads (rt-thread/src/thread.c)\<close>

text \<open>
  Creation, start, suspension, resumption, timeout and removal of threads.  A thread's timer is
  \<open>ThreadTimer t\<close>.  The functions that let the current thread sleep are in theory Clock.
\<close>

definition thread_is_type :: "kernel \<Rightarrow> tid \<Rightarrow> bool" where
  "thread_is_type k t \<longleftrightarrow> rt_object_get_type k (OThread t) = class_code RT_Object_Class_Thread"

text \<open>\<open>1 << priority\<close>: a shift of a 32-bit value by 32 or more is undefined.\<close>

definition priority_mask :: "u8 \<Rightarrow> u32 option" where
  "priority_mask p = (if p < 32 then Some (push_bit (unat p) 1) else None)"

definition rt_thread_suspend :: "tid \<Rightarrow> kernel \<Rightarrow> (rt_err \<times> kernel) option" where
  "rt_thread_suspend t k = do {
     require (thread_is_type k t);
     let st = tstat k t;
     if st \<noteq> RT_THREAD_READY \<and> st \<noteq> RT_THREAD_RUNNING then Some (- RT_ERROR, k)
     else do {
       require (st = RT_THREAD_RUNNING \<longrightarrow> rt_thread_self k = Some t);
       k1 \<leftarrow> rt_schedule_remove_thread t k;
       let k2 = upd_thread t (set_stat RT_THREAD_SUSPEND) k1;
       (_, k3) \<leftarrow> rt_timer_stop (ThreadTimer t) k2;
       Some (RT_EOK, k3)
     }
   }"

definition rt_thread_resume :: "tid \<Rightarrow> kernel \<Rightarrow> (rt_err \<times> kernel) option" where
  "rt_thread_resume t k = do {
     require (thread_is_type k t);
     if tstat k t \<noteq> RT_THREAD_SUSPEND then Some (- RT_ERROR, k)
     else do {
       let k1 = tlist_remove t k;
       (_, k2) \<leftarrow> rt_timer_stop (ThreadTimer t) k1;
       k3 \<leftarrow> rt_schedule_insert_thread t k2;
       Some (RT_EOK, k3)
     }
   }"

definition rt_thread_timeout :: "tid \<Rightarrow> kernel \<Rightarrow> kernel option" where
  "rt_thread_timeout t k = do {
     require (tstat k t = RT_THREAD_SUSPEND);
     require (thread_is_type k t);
     let k1 = upd_thread t (thread_error_update (\<lambda>_. - RT_ETIMEOUT)) k;
     let k2 = tlist_remove t k1;
     k3 \<leftarrow> rt_schedule_insert_thread t k2;
     rt_schedule k3
   }"

definition rt_thread_startup :: "tid \<Rightarrow> kernel \<Rightarrow> (rt_err \<times> kernel) option" where
  "rt_thread_startup t k = do {
     require (tstat k t = RT_THREAD_INIT);
     require (thread_is_type k t);
     mask \<leftarrow> priority_mask (init_priority (threads k t));
     let k1 = upd_thread t (\<lambda>th. th\<lparr>current_priority := init_priority th, number_mask := mask,
                                    stat := RT_THREAD_SUSPEND\<rparr>) k;
     (_, k2) \<leftarrow> rt_thread_resume t k1;
     k3 \<leftarrow> (if rt_thread_self k2 \<noteq> None then rt_schedule k2 else Some k2);
     Some (RT_EOK, k3)
   }"

text \<open>\<open>rt_hw_stack_init\<close> (libcpu): the frame of 16 registers below the aligned top of the stack.\<close>

definition rt_hw_stack_init :: "u32 \<Rightarrow> u32" where
  "rt_hw_stack_init addr = ((addr + 4) AND NOT 7) - 64"

text \<open>
  \<open>_rt_thread_init\<close>.  The stack is filled with the byte \<open>#\<close>, which the stack check of the
  scheduler looks for at its end.  \<open>rt_list_init\<close> of the node leaves the queues as they are: a
  thread that is being initialised is in none.
\<close>

definition thread_init ::
    "tid \<Rightarrow> u32 \<Rightarrow> u32 \<Rightarrow> u32 \<Rightarrow> u32 \<Rightarrow> u8 \<Rightarrow> u32 \<Rightarrow> kernel \<Rightarrow> (rt_err \<times> kernel) option" where
  "thread_init t entry param stack_start stk_size priority tick k = do {
     let k1 = upd_thread t (\<lambda>th. th\<lparr>entry_point := entry, entry_parameter := param,
        stack_addr := stack_start, stack_size := stk_size,
        stack_bottom := (if stk_size > 0 then 0x23 else stack_bottom th),
        sp := rt_hw_stack_init (stack_start + stk_size - 4)\<rparr>) k;
     require (priority < 32);
     let k2 = upd_thread t (\<lambda>th. th\<lparr>init_priority := priority, current_priority := priority,
        number_mask := 0, thread_init_tick := tick, remaining_tick := tick,
        thread_error := RT_EOK, stat := RT_THREAD_INIT, cleanup := 0, user_data := 0\<rparr>) k1;
     k3 \<leftarrow> rt_timer_init (ThreadTimer t) (obj_name (threads k2 t)) Thread_timeout t 0
             RT_TIMER_FLAG_ONE_SHOT k2;
     Some (RT_EOK, k3)
   }"

definition rt_thread_init ::
    "tid \<Rightarrow> u8 list \<Rightarrow> u32 \<Rightarrow> u32 \<Rightarrow> u32 \<Rightarrow> u32 \<Rightarrow> u8 \<Rightarrow> u32 \<Rightarrow> kernel \<Rightarrow> (rt_err \<times> kernel) option" where
  "rt_thread_init t name entry param stack_start stk_size priority tick k = do {
     require (stack_start \<noteq> 0);
     k1 \<leftarrow> rt_object_init (OThread t) RT_Object_Class_Thread name k;
     thread_init t entry param stack_start stk_size priority tick k1
   }"

definition zero_thread :: rt_thread where
  "zero_thread = \<lparr>obj_name = replicate 8 0, obj_type = 0, obj_flag = 0, entry_point = 0,
     entry_parameter = 0, stack_addr = 0, stack_size = 0, sp = 0, stack_bottom = 0,
     thread_error = 0, stat = 0, current_priority = 0, init_priority = 0, number_mask = 0,
     event_set = 0, event_info = 0, thread_init_tick = 0, remaining_tick = 0, cleanup = 0,
     user_data = 0\<rparr>"

text \<open>
  \<open>rt_thread_create\<close>, with the addresses that the two calls of the allocator return.  Clearing
  the thread object clears the timer embedded in it.
\<close>

definition clear_thread :: "tid \<Rightarrow> kernel \<Rightarrow> kernel" where
  "clear_thread t k = upd_timer (ThreadTimer t) (\<lambda>_. zero_timer) (upd_thread t (\<lambda>_. zero_thread) k)"

definition rt_thread_create ::
    "tid option \<Rightarrow> u32 \<Rightarrow> u8 list \<Rightarrow> u32 \<Rightarrow> u32 \<Rightarrow> u32 \<Rightarrow> u8 \<Rightarrow> u32 \<Rightarrow> kernel
      \<Rightarrow> (tid option \<times> kernel) option" where
  "rt_thread_create mem stk_mem name entry param stk_size priority tick k = do {
     (ob, k1) \<leftarrow> rt_object_allocate (map_option OThread mem)
                   (case mem of None \<Rightarrow> id | Some t \<Rightarrow> clear_thread t) RT_Object_Class_Thread name k;
     (case (ob, mem) of
        (Some _, Some t) \<Rightarrow>
          if stk_mem = 0 then do {
            k2 \<leftarrow> rt_object_delete (OThread t) k1;
            Some (None, k2)
          } else do {
            (_, k2) \<leftarrow> thread_init t entry param stk_mem stk_size priority tick k1;
            Some (Some t, k2)
          }
      | _ \<Rightarrow> Some (None, k1))
   }"

text \<open>The end of a thread: its own exit, detaching a static one, deleting a dynamic one.\<close>

definition to_defunct :: "tid \<Rightarrow> kernel \<Rightarrow> kernel" where
  "to_defunct t k =
     (if rt_object_is_systemobject k (OThread t) \<and> cleanup (threads k t) = 0
      then rt_object_detach (OThread t) k
      else tlist_insert_after Defunct t k)"

definition rt_thread_exit :: "kernel \<Rightarrow> kernel option" where
  "rt_thread_exit k = do {
     t \<leftarrow> rt_thread_self k;
     k1 \<leftarrow> rt_schedule_remove_thread t k;
     let k2 = upd_thread t (stat_update (\<lambda>_. RT_THREAD_CLOSE)) k1;
     (_, k3) \<leftarrow> rt_timer_detach (ThreadTimer t) k2;
     rt_schedule (to_defunct t k3)
   }"

definition rt_thread_detach :: "tid \<Rightarrow> kernel \<Rightarrow> (rt_err \<times> kernel) option" where
  "rt_thread_detach t k = do {
     require (thread_is_type k t);
     require (rt_object_is_systemobject k (OThread t));
     k1 \<leftarrow> (if tstat k t \<noteq> RT_THREAD_INIT then rt_schedule_remove_thread t k else Some k);
     (_, k2) \<leftarrow> rt_timer_detach (ThreadTimer t) k1;
     let k3 = upd_thread t (stat_update (\<lambda>_. RT_THREAD_CLOSE)) k2;
     Some (RT_EOK, to_defunct t k3)
   }"

definition rt_thread_delete :: "tid \<Rightarrow> kernel \<Rightarrow> (rt_err \<times> kernel) option" where
  "rt_thread_delete t k = do {
     require (thread_is_type k t);
     require (\<not> rt_object_is_systemobject k (OThread t));
     k1 \<leftarrow> (if tstat k t \<noteq> RT_THREAD_INIT then rt_schedule_remove_thread t k else Some k);
     (_, k2) \<leftarrow> rt_timer_detach (ThreadTimer t) k1;
     let k3 = upd_thread t (stat_update (\<lambda>_. RT_THREAD_CLOSE)) k2;
     Some (RT_EOK, tlist_insert_after Defunct t k3)
   }"

definition rt_thread_yield :: "kernel \<Rightarrow> (rt_err \<times> kernel) option" where
  "rt_thread_yield k = do { k1 \<leftarrow> rt_schedule k; Some (RT_EOK, k1) }"

text \<open>The commands of \<open>rt_thread_control\<close>.\<close>

datatype thread_cmd = CTRL_CHANGE_PRIORITY u8 | CTRL_STARTUP | CTRL_CLOSE | CTRL_thread_other

definition change_priority :: "tid \<Rightarrow> u8 \<Rightarrow> kernel \<Rightarrow> kernel option" where
  "change_priority t p k = do {
     mask \<leftarrow> priority_mask p;
     let set_prio = upd_thread t (\<lambda>th. th\<lparr>current_priority := p, number_mask := mask\<rparr>);
     if tstat k t = RT_THREAD_READY then do {
       k1 \<leftarrow> rt_schedule_remove_thread t k;
       rt_schedule_insert_thread t (set_prio k1)
     }
     else Some (set_prio k)
   }"

fun thread_ctrl :: "thread_cmd \<Rightarrow> tid \<Rightarrow> kernel \<Rightarrow> (rt_err \<times> kernel) option" where
  "thread_ctrl (CTRL_CHANGE_PRIORITY p) t k = do { k1 \<leftarrow> change_priority t p k; Some (RT_EOK, k1) }"
| "thread_ctrl CTRL_STARTUP t k = rt_thread_startup t k"
| "thread_ctrl CTRL_CLOSE t k = rt_thread_delete t k"
| "thread_ctrl CTRL_thread_other t k = Some (RT_EOK, k)"

definition rt_thread_control :: "tid \<Rightarrow> thread_cmd \<Rightarrow> kernel \<Rightarrow> (rt_err \<times> kernel) option" where
  "rt_thread_control t cmd k = do {
     require (thread_is_type k t);
     thread_ctrl cmd t k
   }"

definition rt_thread_find :: "u8 list \<Rightarrow> kernel \<Rightarrow> (objref option \<times> kernel) option" where
  "rt_thread_find name k = do {
     let k1 = (if rt_thread_self k \<noteq> None then rt_enter_critical k else k);
     information \<leftarrow> rt_object_get_information k1 (class_code RT_Object_Class_Thread);
     ob \<leftarrow> find_by_name k1 name information;
     k2 \<leftarrow> (if rt_thread_self k1 \<noteq> None then rt_exit_critical k1 else Some k1);
     Some (ob, k2)
   }"

end
