(* ===== verification/Timer.thy ===== *)
theory Timer
  imports Thread
begin

section \<open>Starting timers and running their timeouts (rt-thread/src/timer.c, second part)\<close>

text \<open>
  The timer lists are kept in the order of the timeout ticks, compared by the wrapped
  difference.  The timeout functions of user timers are a parameter \<open>cb\<close> of the model: the
  number of the function and its argument are mapped to what the function does to the state.
\<close>

text \<open>
  The walk of \<open>rt_timer_start\<close>: past timers with the same timeout and those that expire
  earlier, up to the first one that expires later by less than half the tick range.
\<close>

fun timer_insert :: "(timer_id \<Rightarrow> u32) \<Rightarrow> timer_id \<Rightarrow> timer_id list \<Rightarrow> timer_id list" where
  "timer_insert tick x [] = [x]"
| "timer_insert tick x (y # ys) =
     (if tick y - tick x = 0 then y # timer_insert tick x ys
      else if tick y - tick x < RT_TICK_HALF then x # y # ys
      else y # timer_insert tick x ys)"

definition clear_activated :: "timer_id \<Rightarrow> kernel \<Rightarrow> kernel" where
  "clear_activated x = upd_timer x (obj_flag_update (\<lambda>f. f AND NOT RT_TIMER_FLAG_ACTIVATED))"

definition timer_link :: "timer_id \<Rightarrow> kernel \<Rightarrow> kernel" where
  "timer_link x k =
     (let tick = (\<lambda>y. timeout_tick (timers k y));
          k1 = (if obj_flag (timers k x) AND RT_TIMER_FLAG_SOFT_TIMER \<noteq> 0
                then k\<lparr>rt_soft_timer_list := timer_insert tick x (rt_soft_timer_list k)\<rparr>
                else k\<lparr>rt_timer_list := timer_insert tick x (rt_timer_list k)\<rparr>)
      in upd_timer x (obj_flag_update (\<lambda>f. f OR RT_TIMER_FLAG_ACTIVATED))
           (k1\<lparr>random_nr := random_nr k + 1\<rparr>))"

definition rt_timer_start :: "timer_id \<Rightarrow> kernel \<Rightarrow> (rt_err \<times> kernel) option" where
  "rt_timer_start x k = do {
     require (timer_is_type k x);
     let k1 = clear_activated x (timer_remove x k);
     require (init_tick (timers k1 x) < RT_TICK_HALF);
     let k2 = timer_link x (upd_timer x (\<lambda>tm. tm\<lparr>timeout_tick := rt_tick k1 + init_tick tm\<rparr>) k1);
     if obj_flag (timers k2 x) AND RT_TIMER_FLAG_SOFT_TIMER \<noteq> 0 \<and> tstat k2 timer_thread = RT_THREAD_SUSPEND
     then do {
       (_, k3) \<leftarrow> rt_thread_resume timer_thread k2;
       k4 \<leftarrow> rt_schedule k3;
       Some (RT_EOK, k4)
     }
     else Some (RT_EOK, k2)
   }"

type_synonym callbacks = "nat \<Rightarrow> nat \<Rightarrow> kernel \<Rightarrow> kernel option"

definition call_timeout :: "callbacks \<Rightarrow> timer_id \<Rightarrow> kernel \<Rightarrow> kernel option" where
  "call_timeout cb x k =
     (case timeout_func (timers k x) of
        Thread_timeout \<Rightarrow> rt_thread_timeout (parameter (timers k x)) k
      | User_timeout f \<Rightarrow> cb f (parameter (timers k x)) k)"

text \<open>After its timeout function a periodic timer that is still activated starts again.\<close>

definition timer_rearm :: "timer_id \<Rightarrow> kernel \<Rightarrow> kernel option" where
  "timer_rearm x k =
     (if obj_flag (timers k x) AND RT_TIMER_FLAG_PERIODIC \<noteq> 0 \<and>
         obj_flag (timers k x) AND RT_TIMER_FLAG_ACTIVATED \<noteq> 0
      then do { (_, k1) \<leftarrow> rt_timer_start x (clear_activated x k); Some k1 }
      else Some (clear_activated x k))"

text \<open>
  One round of the loop of \<open>rt_timer_check\<close>: \<open>Inl\<close> when the loop ends, \<open>Inr\<close> with the tick
  read again when a timer has expired.
\<close>

definition timer_check_step :: "callbacks \<Rightarrow> u32 \<Rightarrow> kernel \<Rightarrow> (kernel + u32 \<times> kernel) option" where
  "timer_check_step cb current_tick k =
     (case rt_timer_list k of
        [] \<Rightarrow> Some (Inl k)
      | x # _ \<Rightarrow>
          if current_tick - timeout_tick (timers k x) < RT_TICK_HALF then do {
            k1 \<leftarrow> call_timeout cb x (timer_remove x k);
            k2 \<leftarrow> timer_rearm x k1;
            Some (Inr (rt_tick k1, k2))
          }
          else Some (Inl k))"

partial_function (option) timer_check_loop :: "callbacks \<Rightarrow> u32 \<Rightarrow> kernel \<Rightarrow> kernel option" where
  "timer_check_loop cb current_tick k = do {
     r \<leftarrow> timer_check_step cb current_tick k;
     (case r of Inl k' \<Rightarrow> Some k' | Inr p \<Rightarrow> timer_check_loop cb (fst p) (snd p))
   }"

definition rt_timer_check :: "callbacks \<Rightarrow> kernel \<Rightarrow> kernel option" where
  "rt_timer_check cb k = timer_check_loop cb (rt_tick k) k"

subsection \<open>Soft timers\<close>

text \<open>
  \<open>rt_soft_timer_check\<close> walks the soft list with a node pointer that it advances before the
  timeout function runs; \<open>None\<close> is the list head.  Following the pointer of a node that the
  timeout function unlinked stays at that node; a node that has moved to the end of the other
  list leads to the head of that list, which is no timer.
\<close>

fun next_in :: "timer_id \<Rightarrow> timer_id list \<Rightarrow> timer_id option" where
  "next_in x [] = None"
| "next_in x (y # ys) = (if y = x then (case ys of [] \<Rightarrow> None | z # _ \<Rightarrow> Some z) else next_in x ys)"

definition timer_next :: "kernel \<Rightarrow> timer_id \<Rightarrow> timer_id option option" where
  "timer_next k x =
     (if x \<in> set (rt_soft_timer_list k) then Some (next_in x (rt_soft_timer_list k))
      else if x \<in> set (rt_timer_list k) then map_option Some (next_in x (rt_timer_list k))
      else Some (Some x))"

definition soft_check_step ::
    "callbacks \<Rightarrow> timer_id option \<Rightarrow> u32 \<Rightarrow> kernel \<Rightarrow> (kernel + timer_id option \<times> u32 \<times> kernel) option" where
  "soft_check_step cb n current_tick k =
     (case n of
        None \<Rightarrow> Some (Inl k)
      | Some x \<Rightarrow>
          if current_tick - timeout_tick (timers k x) < RT_TICK_HALF then do {
            n' \<leftarrow> timer_next k x;
            k1 \<leftarrow> rt_exit_critical (timer_remove x k);
            k2 \<leftarrow> call_timeout cb x k1;
            k3 \<leftarrow> timer_rearm x (rt_enter_critical k2);
            Some (Inr (n', rt_tick k2, k3))
          }
          else Some (Inl k))"

partial_function (option) soft_check_loop ::
    "callbacks \<Rightarrow> timer_id option \<Rightarrow> u32 \<Rightarrow> kernel \<Rightarrow> kernel option" where
  "soft_check_loop cb n current_tick k = do {
     r \<leftarrow> soft_check_step cb n current_tick k;
     (case r of Inl k' \<Rightarrow> Some k'
      | Inr p \<Rightarrow> soft_check_loop cb (fst p) (fst (snd p)) (snd (snd p)))
   }"

definition rt_soft_timer_check :: "callbacks \<Rightarrow> kernel \<Rightarrow> kernel option" where
  "rt_soft_timer_check cb k = do {
     let k1 = rt_enter_critical k;
     k2 \<leftarrow> soft_check_loop cb
             (case rt_soft_timer_list k1 of [] \<Rightarrow> None | x # _ \<Rightarrow> Some x) (rt_tick k) k1;
     rt_exit_critical k2
   }"

end
