(* ===== verification/Clock.thy ===== *)
theory Clock
  imports Timer
begin

section \<open>Ticks and sleeping (rt-thread/src/clock.c and thread.c)\<close>

text \<open>
  The tick interrupt, the conversion of milliseconds and the functions that let the current
  thread sleep.  A function that blocks is two definitions: what it does up to its call of
  \<open>rt_schedule\<close>, that call included, and what it does once the thread runs again.
\<close>

definition rt_tick_get :: "kernel \<Rightarrow> u32" where
  "rt_tick_get k = rt_tick k"

definition rt_tick_set :: "u32 \<Rightarrow> kernel \<Rightarrow> kernel" where
  "rt_tick_set tick k = k\<lparr>rt_tick := tick\<rparr>"

text \<open>\<open>rt_thread_self()\<close> is not checked for null: without a current thread this is undefined.\<close>

definition rt_tick_increase :: "callbacks \<Rightarrow> kernel \<Rightarrow> kernel option" where
  "rt_tick_increase cb k = do {
     let k1 = k\<lparr>rt_tick := rt_tick k + 1\<rparr>;
     t \<leftarrow> rt_thread_self k1;
     let k2 = upd_thread t (\<lambda>th. th\<lparr>remaining_tick := remaining_tick th - 1\<rparr>) k1;
     k3 \<leftarrow> (if remaining_tick (threads k2 t) = 0 then do {
              let k3 = upd_thread t (\<lambda>th. th\<lparr>remaining_tick := thread_init_tick th,
                          stat := stat th OR RT_THREAD_STAT_YIELD\<rparr>) k2;
              (_, k4) \<leftarrow> rt_thread_yield k3;
              Some k4
            } else Some k2);
     rt_timer_check cb k3
   }"

text \<open>
  \<open>rt_tick_from_millisecond\<close>, with \<open>RT_TICK_PER_SECOND\<close> 1000.  \<open>ms / 1000\<close> and \<open>ms % 1000\<close> are
  of a non-negative \<open>rt_int32_t\<close>; the first product and the sum are 32-bit.
\<close>

definition rt_tick_from_millisecond :: "u32 \<Rightarrow> u32" where
  "rt_tick_from_millisecond ms =
     (if sint ms < 0 then 0xFFFFFFFF
      else 1000 * (ms div 1000) + (1000 * (ms mod 1000) + 999) div 1000)"

subsection \<open>Sleep\<close>

definition rt_thread_sleep :: "u32 \<Rightarrow> kernel \<Rightarrow> kernel option" where
  "rt_thread_sleep tick k = do {
     t \<leftarrow> rt_thread_self k;
     require (thread_is_type k t);
     (_, k1) \<leftarrow> rt_thread_suspend t k;
     (_, k2) \<leftarrow> rt_timer_control (ThreadTimer t) (CTRL_SET_TIME tick) k1;
     (_, k3) \<leftarrow> rt_timer_start (ThreadTimer t) k2;
     rt_schedule k3
   }"

definition rt_thread_sleep_return :: "tid \<Rightarrow> kernel \<Rightarrow> rt_err \<times> kernel" where
  "rt_thread_sleep_return t k =
     (RT_EOK, if thread_error (threads k t) = - RT_ETIMEOUT
              then upd_thread t (thread_error_update (\<lambda>_. RT_EOK)) k else k)"

definition rt_thread_delay :: "u32 \<Rightarrow> kernel \<Rightarrow> kernel option" where
  "rt_thread_delay tick k = rt_thread_sleep tick k"

definition rt_thread_mdelay :: "u32 \<Rightarrow> kernel \<Rightarrow> kernel option" where
  "rt_thread_mdelay ms k = rt_thread_sleep (rt_tick_from_millisecond ms) k"

text \<open>
  \<open>rt_thread_delay_until\<close> with the value of \<open>*tick\<close>; the result is the value that the
  function stores in \<open>*tick\<close> before it blocks, or nothing when it does not block.
\<close>

definition rt_thread_delay_until :: "u32 \<Rightarrow> u32 \<Rightarrow> kernel \<Rightarrow> (u32 option \<times> kernel) option" where
  "rt_thread_delay_until tick inc_tick k = do {
     t \<leftarrow> rt_thread_self k;
     require (thread_is_type k t);
     if rt_tick_get k - tick < inc_tick then do {
       let delay = rt_tick_get k - tick + inc_tick;
       (_, k1) \<leftarrow> rt_thread_suspend t k;
       (_, k2) \<leftarrow> rt_timer_control (ThreadTimer t) (CTRL_SET_TIME delay) k1;
       (_, k3) \<leftarrow> rt_timer_start (ThreadTimer t) k2;
       k4 \<leftarrow> rt_schedule k3;
       Some (Some delay, k4)
     }
     else Some (None, k)
   }"

definition rt_thread_delay_until_return :: "tid \<Rightarrow> kernel \<Rightarrow> u32 \<times> kernel" where
  "rt_thread_delay_until_return t k =
     (let k1 = snd (rt_thread_sleep_return t k) in (rt_tick_get k1, k1))"

subsection \<open>The timer thread\<close>

text \<open>
  One round of the loop of \<open>rt_thread_timer_entry\<close>: suspend without a soft timer, sleep until
  the first one is due, or go straight on; then check the soft timers.
\<close>

definition timer_entry_wait :: "kernel \<Rightarrow> kernel option" where
  "timer_entry_wait k =
     (let next_timeout = timer_list_next_timeout (rt_soft_timer_list k) k in
      if next_timeout = RT_TICK_MAX then do {
        t \<leftarrow> rt_thread_self k;
        (_, k1) \<leftarrow> rt_thread_suspend t k;
        rt_schedule k1
      }
      else if next_timeout - rt_tick_get k < RT_TICK_HALF
      then rt_thread_delay (next_timeout - rt_tick_get k) k
      else Some k)"

definition timer_entry_check :: "callbacks \<Rightarrow> kernel \<Rightarrow> kernel option" where
  "timer_entry_check cb k = rt_soft_timer_check cb k"

text \<open>The timer thread has priority 4, a stack of 512 bytes at \<open>stk\<close> and a slice of 10 ticks.\<close>

definition rt_system_timer_thread_init :: "u32 \<Rightarrow> u32 \<Rightarrow> kernel \<Rightarrow> kernel option" where
  "rt_system_timer_thread_init entry stk k = do {
     let k1 = k\<lparr>rt_soft_timer_list := []\<rparr>;
     (_, k2) \<leftarrow> rt_thread_init timer_thread [0x74, 0x69, 0x6d, 0x65, 0x72, 0] entry 0 stk 512 4 10 k1;
     (_, k3) \<leftarrow> rt_thread_startup timer_thread k2;
     Some k3
   }"

end
