(* ===== verification/IpcBase.thy ===== *)
theory IpcBase
  imports Clock
begin

section \<open>Waiting lists of IPC objects (rt-thread/src/ipc.c)\<close>

text \<open>
  The functions the IPC objects share: putting the current thread on a waiting list in FIFO or
  priority order, and resuming the first or all of its threads.  A call that may block returns
  an \<open>outcome\<close>: \<open>Returned\<close> with its error code, or \<open>Blocked\<close> with the local variable that
  its continuation needs, when it has suspended the thread and called the scheduler.
\<close>

datatype outcome = Returned rt_err | Blocked u32

definition rt_ipc_object_init :: "objref \<Rightarrow> kernel \<Rightarrow> kernel" where
  "rt_ipc_object_init ob k = k\<lparr>queues := (queues k)(Suspended ob := [])\<rparr>"

text \<open>Insertion before the first waiting thread of lower priority.\<close>

fun prio_insert :: "(tid \<Rightarrow> u8) \<Rightarrow> tid \<Rightarrow> tid list \<Rightarrow> tid list" where
  "prio_insert prio t [] = [t]"
| "prio_insert prio t (s # ss) = (if prio t < prio s then t # s # ss else s # prio_insert prio t ss)"

definition rt_ipc_list_suspend :: "queue \<Rightarrow> tid \<Rightarrow> u8 \<Rightarrow> kernel \<Rightarrow> kernel option" where
  "rt_ipc_list_suspend q t flag k = do {
     (_, k1) \<leftarrow> rt_thread_suspend t k;
     Some (if flag = RT_IPC_FLAG_FIFO then tlist_insert_before q t k1
           else if flag = RT_IPC_FLAG_PRIO
           then k1\<lparr>queues := (queues k1)(q :=
                  prio_insert (\<lambda>s. current_priority (threads k1 s)) t (queues k1 q))\<rparr>
           else k1)
   }"

definition rt_ipc_list_resume :: "queue \<Rightarrow> kernel \<Rightarrow> kernel option" where
  "rt_ipc_list_resume q k =
     (case queues k q of
        [] \<Rightarrow> None
      | t # _ \<Rightarrow> do { (_, k1) \<leftarrow> rt_thread_resume t k; Some k1 })"

definition resume_first_failed :: "queue \<Rightarrow> kernel \<Rightarrow> kernel option" where
  "resume_first_failed q k =
     (case queues k q of
        [] \<Rightarrow> None
      | t # _ \<Rightarrow> do {
          (_, k1) \<leftarrow> rt_thread_resume t (upd_thread t (thread_error_update (\<lambda>_. - RT_ERROR)) k);
          Some k1
        })"

partial_function (option) rt_ipc_list_resume_all :: "queue \<Rightarrow> kernel \<Rightarrow> kernel option" where
  "rt_ipc_list_resume_all q k =
     (if tlist_isempty q k then Some k
      else do {
        k1 \<leftarrow> resume_first_failed q k;
        rt_ipc_list_resume_all q k1
      })"

text \<open>\<open>RT_DEBUG_IN_THREAD_CONTEXT\<close> and the type test of an IPC object.\<close>

definition in_thread_context :: "kernel \<Rightarrow> bool" where
  "in_thread_context k \<longleftrightarrow> rt_thread_self k \<noteq> None \<and> rt_interrupt_get_nest k = 0"

definition obj_is :: "kernel \<Rightarrow> objref \<Rightarrow> rt_object_class_type \<Rightarrow> bool" where
  "obj_is k ob ty \<longleftrightarrow> rt_object_get_type k ob = class_code ty"

text \<open>
  The block of code with which each operation waits: suspend the thread on the list, and with a
  positive timeout set its timer and start it.
\<close>

definition ipc_wait :: "queue \<Rightarrow> tid \<Rightarrow> u8 \<Rightarrow> u32 \<Rightarrow> kernel \<Rightarrow> kernel option" where
  "ipc_wait q t flag time k = do {
     k1 \<leftarrow> rt_ipc_list_suspend q t flag k;
     if sint time > 0 then do {
       (_, k2) \<leftarrow> rt_timer_control (ThreadTimer t) (CTRL_SET_TIME time) k1;
       (_, k3) \<leftarrow> rt_timer_start (ThreadTimer t) k2;
       Some k3
     }
     else Some k1
   }"

text \<open>The waiting time that is left after a wake-up, for the operations that wait again.\<close>

definition time_left :: "u32 \<Rightarrow> u32 \<Rightarrow> u32 \<Rightarrow> u32" where
  "time_left timeout start now =
     (if sint timeout > 0 then
        let rest = timeout - (now - start) in if sint rest < 0 then 0 else rest
      else timeout)"

definition set_error :: "tid \<Rightarrow> rt_err \<Rightarrow> kernel \<Rightarrow> kernel" where
  "set_error t e = upd_thread t (thread_error_update (\<lambda>_. e))"

end
