(* ===== verification/Semaphore.thy ===== *)
theory Semaphore
  imports IpcBase
begin

section \<open>Semaphores (rt-thread/src/ipc.c)\<close>

definition rt_sem_init :: "nat \<Rightarrow> u8 list \<Rightarrow> u32 \<Rightarrow> u8 \<Rightarrow> kernel \<Rightarrow> (rt_err \<times> kernel) option" where
  "rt_sem_init s name value flag k = do {
     require (value < 0x10000);
     k1 \<leftarrow> rt_object_init (OSem s) RT_Object_Class_Semaphore name k;
     let k2 = rt_ipc_object_init (OSem s) k1;
     Some (RT_EOK, upd_sem s (\<lambda>sm. sm\<lparr>sem_value := ucast value, obj_flag := flag\<rparr>) k2)
   }"

definition rt_sem_detach :: "nat \<Rightarrow> kernel \<Rightarrow> (rt_err \<times> kernel) option" where
  "rt_sem_detach s k = do {
     require (obj_is k (OSem s) RT_Object_Class_Semaphore);
     require (rt_object_is_systemobject k (OSem s));
     k1 \<leftarrow> rt_ipc_list_resume_all (Suspended (OSem s)) k;
     Some (RT_EOK, rt_object_detach (OSem s) k1)
   }"

definition zero_sem :: rt_semaphore where
  "zero_sem = \<lparr>obj_name = replicate 8 0, obj_type = 0, obj_flag = 0, sem_value = 0\<rparr>"

definition rt_sem_create :: "nat option \<Rightarrow> u8 list \<Rightarrow> u32 \<Rightarrow> u8 \<Rightarrow> kernel \<Rightarrow> (nat option \<times> kernel) option" where
  "rt_sem_create mem name value flag k = do {
     require (interrupt_nest k = 0);
     require (value < 0x10000);
     (ob, k1) \<leftarrow> rt_object_allocate (map_option OSem mem)
                   (case mem of None \<Rightarrow> id | Some s \<Rightarrow> upd_sem s (\<lambda>_. zero_sem)) RT_Object_Class_Semaphore name k;
     (case (ob, mem) of
        (Some _, Some s) \<Rightarrow>
          Some (Some s, upd_sem s (\<lambda>sm. sm\<lparr>sem_value := ucast value, obj_flag := flag\<rparr>)
                          (rt_ipc_object_init (OSem s) k1))
      | _ \<Rightarrow> Some (None, k1))
   }"

definition rt_sem_delete :: "nat \<Rightarrow> kernel \<Rightarrow> (rt_err \<times> kernel) option" where
  "rt_sem_delete s k = do {
     require (interrupt_nest k = 0);
     require (obj_is k (OSem s) RT_Object_Class_Semaphore);
     require (\<not> rt_object_is_systemobject k (OSem s));
     k1 \<leftarrow> rt_ipc_list_resume_all (Suspended (OSem s)) k;
     k2 \<leftarrow> rt_object_delete (OSem s) k1;
     Some (RT_EOK, k2)
   }"

text \<open>\<open>rt_sem_take\<close> up to its return or its call of the scheduler, and the rest of it.\<close>

definition rt_sem_take :: "nat \<Rightarrow> u32 \<Rightarrow> kernel \<Rightarrow> (outcome \<times> kernel) option" where
  "rt_sem_take s time k = do {
     require (obj_is k (OSem s) RT_Object_Class_Semaphore);
     if sem_value (sems k s) > 0
     then Some (Returned RT_EOK, upd_sem s (sem_value_update (\<lambda>v. v - 1)) k)
     else if time = 0 then Some (Returned (- RT_ETIMEOUT), k)
     else do {
       require (in_thread_context k);
       t \<leftarrow> rt_thread_self k;
       k1 \<leftarrow> ipc_wait (Suspended (OSem s)) t (obj_flag (sems k s)) time (set_error t RT_EOK k);
       k2 \<leftarrow> rt_schedule k1;
       Some (Blocked 0, k2)
     }
   }"

definition rt_sem_take_return :: "tid \<Rightarrow> kernel \<Rightarrow> rt_err" where
  "rt_sem_take_return t k =
     (if thread_error (threads k t) \<noteq> RT_EOK then thread_error (threads k t) else RT_EOK)"

definition rt_sem_trytake :: "nat \<Rightarrow> kernel \<Rightarrow> (outcome \<times> kernel) option" where
  "rt_sem_trytake s k = rt_sem_take s 0 k"

definition rt_sem_release :: "nat \<Rightarrow> kernel \<Rightarrow> (rt_err \<times> kernel) option" where
  "rt_sem_release s k = do {
     require (obj_is k (OSem s) RT_Object_Class_Semaphore);
     if \<not> tlist_isempty (Suspended (OSem s)) k then do {
       k1 \<leftarrow> rt_ipc_list_resume (Suspended (OSem s)) k;
       k2 \<leftarrow> rt_schedule k1;
       Some (RT_EOK, k2)
     }
     else Some (RT_EOK, upd_sem s (sem_value_update (\<lambda>v. v + 1)) k)
   }"

definition rt_sem_control :: "nat \<Rightarrow> int \<Rightarrow> u32 \<Rightarrow> kernel \<Rightarrow> (rt_err \<times> kernel) option" where
  "rt_sem_control s cmd arg k = do {
     require (obj_is k (OSem s) RT_Object_Class_Semaphore);
     if cmd = RT_IPC_CMD_RESET then do {
       k1 \<leftarrow> rt_ipc_list_resume_all (Suspended (OSem s)) k;
       k2 \<leftarrow> rt_schedule (upd_sem s (sem_value_update (\<lambda>_. ucast arg)) k1);
       Some (RT_EOK, k2)
     }
     else Some (- RT_ERROR, k)
   }"

end
