(* ===== verification/Mutex.thy ===== *)
theory Mutex
  imports IpcBase
begin

section \<open>Mutexes (rt-thread/src/ipc.c)\<close>

text \<open>
  A mutex has an owner and a hold count for recursive takes; a waiting thread of higher
  priority raises the priority of the owner, and the owner gets its original priority back
  when it releases the mutex.
\<close>

definition mutex_reset :: "u8 \<Rightarrow> rt_mutex \<Rightarrow> rt_mutex" where
  "mutex_reset flag m = m\<lparr>mutex_value := 1, owner := None, original_priority := 0xFF, hold := 0,
     obj_flag := flag\<rparr>"

definition rt_mutex_init :: "nat \<Rightarrow> u8 list \<Rightarrow> u8 \<Rightarrow> kernel \<Rightarrow> (rt_err \<times> kernel) option" where
  "rt_mutex_init m name flag k = do {
     k1 \<leftarrow> rt_object_init (OMutex m) RT_Object_Class_Mutex name k;
     Some (RT_EOK, upd_mutex m (mutex_reset flag) (rt_ipc_object_init (OMutex m) k1))
   }"

definition rt_mutex_detach :: "nat \<Rightarrow> kernel \<Rightarrow> (rt_err \<times> kernel) option" where
  "rt_mutex_detach m k = do {
     require (obj_is k (OMutex m) RT_Object_Class_Mutex);
     require (rt_object_is_systemobject k (OMutex m));
     k1 \<leftarrow> rt_ipc_list_resume_all (Suspended (OMutex m)) k;
     Some (RT_EOK, rt_object_detach (OMutex m) k1)
   }"

definition zero_mutex :: rt_mutex where
  "zero_mutex = \<lparr>obj_name = replicate 8 0, obj_type = 0, obj_flag = 0, mutex_value = 0,
     original_priority = 0, hold = 0, owner = None\<rparr>"

definition rt_mutex_create :: "nat option \<Rightarrow> u8 list \<Rightarrow> u8 \<Rightarrow> kernel \<Rightarrow> (nat option \<times> kernel) option" where
  "rt_mutex_create mem name flag k = do {
     require (interrupt_nest k = 0);
     (ob, k1) \<leftarrow> rt_object_allocate (map_option OMutex mem)
                   (case mem of None \<Rightarrow> id | Some m \<Rightarrow> upd_mutex m (\<lambda>_. zero_mutex)) RT_Object_Class_Mutex name k;
     (case (ob, mem) of
        (Some _, Some m) \<Rightarrow>
          Some (Some m, upd_mutex m (mutex_reset flag) (rt_ipc_object_init (OMutex m) k1))
      | _ \<Rightarrow> Some (None, k1))
   }"

definition rt_mutex_delete :: "nat \<Rightarrow> kernel \<Rightarrow> (rt_err \<times> kernel) option" where
  "rt_mutex_delete m k = do {
     require (interrupt_nest k = 0);
     require (obj_is k (OMutex m) RT_Object_Class_Mutex);
     require (\<not> rt_object_is_systemobject k (OMutex m));
     k1 \<leftarrow> rt_ipc_list_resume_all (Suspended (OMutex m)) k;
     k2 \<leftarrow> rt_object_delete (OMutex m) k1;
     Some (RT_EOK, k2)
   }"

text \<open>
  The body of \<open>rt_mutex_take\<close> from the label \<open>__again\<close>, which is where a thread that a signal
  interrupted starts over.  A null owner is dereferenced when the value is 0 without an owner.
\<close>

definition mutex_take_again :: "nat \<Rightarrow> tid \<Rightarrow> u32 \<Rightarrow> kernel \<Rightarrow> (outcome \<times> kernel) option" where
  "mutex_take_again m t time k =
     (if mutex_value (mutexes k m) > 0 then
        Some (Returned RT_EOK,
          upd_mutex m (\<lambda>mx. mx\<lparr>mutex_value := mutex_value mx - 1, owner := Some t,
             original_priority := current_priority (threads k t), hold := hold mx + 1\<rparr>) k)
      else if time = 0 then Some (Returned (- RT_ETIMEOUT), set_error t (- RT_ETIMEOUT) k)
      else do {
        own \<leftarrow> owner (mutexes k m);
        k1 \<leftarrow> (if current_priority (threads k t) < current_priority (threads k own) then do {
                 (_, k1) \<leftarrow> rt_thread_control own
                              (CTRL_CHANGE_PRIORITY (current_priority (threads k t))) k;
                 Some k1
               } else Some k);
        k2 \<leftarrow> ipc_wait (Suspended (OMutex m)) t (obj_flag (mutexes k m)) time k1;
        k3 \<leftarrow> rt_schedule k2;
        Some (Blocked 0, k3)
      })"

definition rt_mutex_take :: "nat \<Rightarrow> u32 \<Rightarrow> kernel \<Rightarrow> (outcome \<times> kernel) option" where
  "rt_mutex_take m time k = do {
     require (in_thread_context k);
     require (obj_is k (OMutex m) RT_Object_Class_Mutex);
     t \<leftarrow> rt_thread_self k;
     let k1 = set_error t RT_EOK k;
     if owner (mutexes k1 m) = Some t
     then Some (Returned RT_EOK, upd_mutex m (hold_update (\<lambda>h. h + 1)) k1)
     else mutex_take_again m t time k1
   }"

definition rt_mutex_take_return :: "nat \<Rightarrow> tid \<Rightarrow> u32 \<Rightarrow> kernel \<Rightarrow> (outcome \<times> kernel) option" where
  "rt_mutex_take_return m t time k =
     (if thread_error (threads k t) \<noteq> RT_EOK then
        if thread_error (threads k t) = - RT_EINTR then mutex_take_again m t time k
        else Some (Returned (thread_error (threads k t)), k)
      else Some (Returned RT_EOK, k))"

text \<open>The part of \<open>rt_mutex_release\<close> after the hold count has reached 0.\<close>

definition mutex_hand_over :: "nat \<Rightarrow> tid \<Rightarrow> kernel \<Rightarrow> (bool \<times> kernel) option" where
  "mutex_hand_over m own k = do {
     k1 \<leftarrow> (if original_priority (mutexes k m) \<noteq> current_priority (threads k own) then do {
              (_, k1) \<leftarrow> rt_thread_control own (CTRL_CHANGE_PRIORITY (original_priority (mutexes k m))) k;
              Some k1
            } else Some k);
     (case queues k1 (Suspended (OMutex m)) of
        t # _ \<Rightarrow> do {
          let k2 = upd_mutex m (\<lambda>mx. mx\<lparr>owner := Some t,
                original_priority := current_priority (threads k1 t), hold := hold mx + 1\<rparr>) k1;
          k3 \<leftarrow> rt_ipc_list_resume (Suspended (OMutex m)) k2;
          Some (True, k3)
        }
      | [] \<Rightarrow> Some (False, upd_mutex m (\<lambda>mx. mx\<lparr>mutex_value := mutex_value mx + 1, owner := None,
                                                  original_priority := 0xff\<rparr>) k1))
   }"

definition rt_mutex_release :: "nat \<Rightarrow> kernel \<Rightarrow> (rt_err \<times> kernel) option" where
  "rt_mutex_release m k = do {
     require (obj_is k (OMutex m) RT_Object_Class_Mutex);
     require (in_thread_context k);
     t \<leftarrow> rt_thread_self k;
     if owner (mutexes k m) \<noteq> Some t then Some (- RT_ERROR, set_error t (- RT_ERROR) k)
     else do {
       let k1 = upd_mutex m (hold_update (\<lambda>h. h - 1)) k;
       if hold (mutexes k1 m) = 0 then do {
         (need_schedule, k2) \<leftarrow> mutex_hand_over m t k1;
         k3 \<leftarrow> (if need_schedule then rt_schedule k2 else Some k2);
         Some (RT_EOK, k3)
       }
       else Some (RT_EOK, k1)
     }
   }"

definition rt_mutex_control :: "nat \<Rightarrow> int \<Rightarrow> u32 \<Rightarrow> kernel \<Rightarrow> (rt_err \<times> kernel) option" where
  "rt_mutex_control m cmd arg k = do {
     require (obj_is k (OMutex m) RT_Object_Class_Mutex);
     Some (- RT_ERROR, k)
   }"

end
