(* ===== verification/Event.thy ===== *)
theory Event
  imports IpcBase
begin

section \<open>Event sets (rt-thread/src/ipc.c)\<close>

text \<open>A thread waits for all or for one of the bits of a set, and may have them cleared.\<close>

definition rt_event_init :: "nat \<Rightarrow> u8 list \<Rightarrow> u8 \<Rightarrow> kernel \<Rightarrow> (rt_err \<times> kernel) option" where
  "rt_event_init e name flag k = do {
     k1 \<leftarrow> rt_object_init (OEvent e) RT_Object_Class_Event name k;
     let k2 = set_obj_flag (OEvent e) flag k1;
     Some (RT_EOK, upd_event e (set_bits_update (\<lambda>_. 0)) (rt_ipc_object_init (OEvent e) k2))
   }"

definition rt_event_detach :: "nat \<Rightarrow> kernel \<Rightarrow> (rt_err \<times> kernel) option" where
  "rt_event_detach e k = do {
     require (obj_is k (OEvent e) RT_Object_Class_Event);
     require (rt_object_is_systemobject k (OEvent e));
     k1 \<leftarrow> rt_ipc_list_resume_all (Suspended (OEvent e)) k;
     Some (RT_EOK, rt_object_detach (OEvent e) k1)
   }"

definition zero_event :: rt_event where
  "zero_event = \<lparr>obj_name = replicate 8 0, obj_type = 0, obj_flag = 0, set_bits = 0\<rparr>"

definition rt_event_create :: "nat option \<Rightarrow> u8 list \<Rightarrow> u8 \<Rightarrow> kernel \<Rightarrow> (nat option \<times> kernel) option" where
  "rt_event_create mem name flag k = do {
     require (interrupt_nest k = 0);
     (ob, k1) \<leftarrow> rt_object_allocate (map_option OEvent mem)
                   (case mem of None \<Rightarrow> id | Some e \<Rightarrow> upd_event e (\<lambda>_. zero_event)) RT_Object_Class_Event name k;
     (case (ob, mem) of
        (Some _, Some e) \<Rightarrow>
          Some (Some e, upd_event e (set_bits_update (\<lambda>_. 0))
             (rt_ipc_object_init (OEvent e) (set_obj_flag (OEvent e) flag k1)))
      | _ \<Rightarrow> Some (None, k1))
   }"

definition rt_event_delete :: "nat \<Rightarrow> kernel \<Rightarrow> (rt_err \<times> kernel) option" where
  "rt_event_delete e k = do {
     require (obj_is k (OEvent e) RT_Object_Class_Event);
     require (\<not> rt_object_is_systemobject k (OEvent e));
     require (interrupt_nest k = 0);
     k1 \<leftarrow> rt_ipc_list_resume_all (Suspended (OEvent e)) k;
     k2 \<leftarrow> rt_object_delete (OEvent e) k1;
     Some (RT_EOK, k2)
   }"

text \<open>Whether the event set satisfies what a thread waits for.\<close>

definition event_match :: "u8 \<Rightarrow> u32 \<Rightarrow> u32 \<Rightarrow> bool" where
  "event_match info want have_bits \<longleftrightarrow>
     (if info AND RT_EVENT_FLAG_AND \<noteq> 0 then have_bits AND want = want
      else if info AND RT_EVENT_FLAG_OR \<noteq> 0 then have_bits AND want \<noteq> 0
      else False)"

text \<open>
  One thread of the walk of \<open>rt_event_send\<close>: when it is satisfied, its received bits are
  saved (for OR), the bits it wants cleared are cleared, and it is resumed.
\<close>

definition event_send_one :: "nat \<Rightarrow> tid \<Rightarrow> kernel \<Rightarrow> (bool \<times> kernel) option" where
  "event_send_one e t k =
     (let th = threads k t; bits = set_bits (events k e) in
      if event_match (event_info th) (event_set th) bits then do {
        let k1 = (if event_info th AND RT_EVENT_FLAG_AND \<noteq> 0 then k
                  else upd_thread t (event_set_update (\<lambda>s. s AND bits)) k);
        let k2 = (if event_info th AND RT_EVENT_FLAG_CLEAR \<noteq> 0
                  then upd_event e (set_bits_update (\<lambda>b. b AND NOT (event_set (threads k1 t)))) k1
                  else k1);
        (_, k3) \<leftarrow> rt_thread_resume t k2;
        Some (True, k3)
      }
      else Some (False, k))"

text \<open>The walk moves to the next node before it resumes a thread, so it visits the list as it was.\<close>

fun event_send_walk :: "nat \<Rightarrow> tid list \<Rightarrow> kernel \<Rightarrow> (bool \<times> kernel) option" where
  "event_send_walk e [] k = Some (False, k)"
| "event_send_walk e (t # ts) k = do {
     (woken, k1) \<leftarrow> event_send_one e t k;
     (need, k2) \<leftarrow> event_send_walk e ts k1;
     Some (woken \<or> need, k2)
   }"

definition rt_event_send :: "nat \<Rightarrow> u32 \<Rightarrow> kernel \<Rightarrow> (rt_err \<times> kernel) option" where
  "rt_event_send e set_arg k = do {
     require (obj_is k (OEvent e) RT_Object_Class_Event);
     if set_arg = 0 then Some (- RT_ERROR, k)
     else do {
       let k1 = upd_event e (set_bits_update (\<lambda>b. b OR set_arg)) k;
       (need_schedule, k2) \<leftarrow> event_send_walk e (queues k1 (Suspended (OEvent e))) k1;
       k3 \<leftarrow> (if need_schedule then rt_schedule k2 else Some k2);
       Some (RT_EOK, k3)
     }
   }"

text \<open>\<open>rt_event_recv\<close>: the received bits are returned beside the outcome.\<close>

definition rt_event_recv :: "nat \<Rightarrow> u32 \<Rightarrow> u8 \<Rightarrow> u32 \<Rightarrow> kernel \<Rightarrow> (outcome \<times> u32 option \<times> kernel) option" where
  "rt_event_recv e set_arg opt timeout k = do {
     require (in_thread_context k);
     require (obj_is k (OEvent e) RT_Object_Class_Event);
     if set_arg = 0 then Some (Returned (- RT_ERROR), None, k)
     else do {
       t \<leftarrow> rt_thread_self k;
       let k1 = set_error t RT_EOK k;
       require (opt AND RT_EVENT_FLAG_AND \<noteq> 0 \<or> opt AND RT_EVENT_FLAG_OR \<noteq> 0);
       let bits = set_bits (events k1 e);
       if event_match opt set_arg bits then
         Some (Returned RT_EOK, Some (bits AND set_arg),
           if opt AND RT_EVENT_FLAG_CLEAR \<noteq> 0
           then upd_event e (set_bits_update (\<lambda>b. b AND NOT set_arg)) k1 else k1)
       else if timeout = 0 then Some (Returned (- RT_ETIMEOUT), None, set_error t (- RT_ETIMEOUT) k1)
       else do {
         let k2 = upd_thread t (\<lambda>th. th\<lparr>event_set := set_arg, event_info := opt\<rparr>) k1;
         k3 \<leftarrow> ipc_wait (Suspended (OEvent e)) t (obj_flag (events k2 e)) timeout k2;
         k4 \<leftarrow> rt_schedule k3;
         Some (Blocked 0, None, k4)
       }
     }
   }"

definition rt_event_recv_return :: "tid \<Rightarrow> kernel \<Rightarrow> rt_err \<times> u32 option" where
  "rt_event_recv_return t k =
     (if thread_error (threads k t) \<noteq> RT_EOK then (thread_error (threads k t), None)
      else (thread_error (threads k t), Some (event_set (threads k t))))"

definition rt_event_control :: "nat \<Rightarrow> int \<Rightarrow> kernel \<Rightarrow> (rt_err \<times> kernel) option" where
  "rt_event_control e cmd k = do {
     require (obj_is k (OEvent e) RT_Object_Class_Event);
     if cmd = RT_IPC_CMD_RESET then do {
       k1 \<leftarrow> rt_ipc_list_resume_all (Suspended (OEvent e)) k;
       k2 \<leftarrow> rt_schedule (upd_event e (set_bits_update (\<lambda>_. 0)) k1);
       Some (RT_EOK, k2)
     }
     else Some (- RT_ERROR, k)
   }"

end
