(* ===== verification/Mailbox.thy ===== *)
theory Mailbox
  imports IpcBase
begin

section \<open>Mailboxes (rt-thread/src/ipc.c)\<close>

text \<open>
  A mailbox is a ring of words with two waiting lists, of receivers and of senders.  A blocking
  call is a loop: each of its rounds is a definition that returns, or blocks with the start tick
  of the wait, and a definition that continues it when the thread runs again.
\<close>

definition mb_reset :: "rt_mailbox \<Rightarrow> rt_mailbox" where
  "mb_reset mb = mb\<lparr>mb_entry := 0, in_offset := 0, out_offset := 0\<rparr>"

definition senders_init :: "objref \<Rightarrow> kernel \<Rightarrow> kernel" where
  "senders_init ob k = k\<lparr>queues := (queues k)(Senders ob := [])\<rparr>"

text \<open>\<open>pool\<close> is the memory at \<open>msgpool\<close>.\<close>

definition rt_mb_init :: "nat \<Rightarrow> u8 list \<Rightarrow> u32 list \<Rightarrow> u32 \<Rightarrow> u8 \<Rightarrow> kernel \<Rightarrow> (rt_err \<times> kernel) option" where
  "rt_mb_init m name pool size_arg flag k = do {
     k1 \<leftarrow> rt_object_init (OMailBox m) RT_Object_Class_MailBox name k;
     let k2 = rt_ipc_object_init (OMailBox m) (set_obj_flag (OMailBox m) flag k1);
     let k3 = upd_mb m (\<lambda>mb. mb_reset (mb\<lparr>mb_pool := pool, mb_size := ucast size_arg\<rparr>)) k2;
     Some (RT_EOK, senders_init (OMailBox m) k3)
   }"

definition rt_mb_detach :: "nat \<Rightarrow> kernel \<Rightarrow> (rt_err \<times> kernel) option" where
  "rt_mb_detach m k = do {
     require (obj_is k (OMailBox m) RT_Object_Class_MailBox);
     require (rt_object_is_systemobject k (OMailBox m));
     k1 \<leftarrow> rt_ipc_list_resume_all (Suspended (OMailBox m)) k;
     k2 \<leftarrow> rt_ipc_list_resume_all (Senders (OMailBox m)) k1;
     Some (RT_EOK, rt_object_detach (OMailBox m) k2)
   }"

definition zero_mailbox :: rt_mailbox where
  "zero_mailbox = \<lparr>obj_name = replicate 8 0, obj_type = 0, obj_flag = 0, mb_pool = [], mb_size = 0,
     mb_entry = 0, in_offset = 0, out_offset = 0\<rparr>"

text \<open>\<open>pool_mem\<close> is the block that the allocator returns for the pool, \<open>None\<close> for no memory.\<close>

definition rt_mb_create ::
    "nat option \<Rightarrow> u32 list option \<Rightarrow> u8 list \<Rightarrow> u32 \<Rightarrow> u8 \<Rightarrow> kernel \<Rightarrow> (nat option \<times> kernel) option" where
  "rt_mb_create mem pool_mem name size_arg flag k = do {
     require (interrupt_nest k = 0);
     (ob, k1) \<leftarrow> rt_object_allocate (map_option OMailBox mem)
                   (case mem of None \<Rightarrow> id | Some m \<Rightarrow> upd_mb m (\<lambda>_. zero_mailbox)) RT_Object_Class_MailBox name k;
     (case (ob, mem) of
        (Some _, Some m) \<Rightarrow>
          let k2 = upd_mb m (mb_size_update (\<lambda>_. ucast size_arg))
                     (rt_ipc_object_init (OMailBox m) (set_obj_flag (OMailBox m) flag k1)) in
          (case pool_mem of
             None \<Rightarrow> do { k3 \<leftarrow> rt_object_delete (OMailBox m) k2; Some (None, k3) }
           | Some pool \<Rightarrow>
               Some (Some m, senders_init (OMailBox m)
                       (upd_mb m (\<lambda>mb. mb_reset (mb\<lparr>mb_pool := pool\<rparr>)) k2)))
      | _ \<Rightarrow> Some (None, k1))
   }"

definition rt_mb_delete :: "nat \<Rightarrow> kernel \<Rightarrow> (rt_err \<times> kernel) option" where
  "rt_mb_delete m k = do {
     require (interrupt_nest k = 0);
     require (obj_is k (OMailBox m) RT_Object_Class_MailBox);
     require (\<not> rt_object_is_systemobject k (OMailBox m));
     k1 \<leftarrow> rt_ipc_list_resume_all (Suspended (OMailBox m)) k;
     k2 \<leftarrow> rt_ipc_list_resume_all (Senders (OMailBox m)) k1;
     k3 \<leftarrow> rt_object_delete (OMailBox m) k2;
     Some (RT_EOK, k3)
   }"

subsection \<open>Sending\<close>

text \<open>Storing a mail in the ring; an offset outside the pool is undefined.\<close>

definition mb_put :: "u32 \<Rightarrow> rt_mailbox \<Rightarrow> rt_mailbox option" where
  "mb_put v mb = do {
     require (unat (in_offset mb) < length (mb_pool mb));
     let i = in_offset mb + 1;
     Some (mb\<lparr>mb_pool := (mb_pool mb)[unat (in_offset mb) := v],
              in_offset := (if i \<ge> mb_size mb then 0 else i),
              mb_entry := mb_entry mb + 1\<rparr>)
   }"

definition mb_deposit :: "nat \<Rightarrow> u32 \<Rightarrow> kernel \<Rightarrow> (outcome \<times> kernel) option" where
  "mb_deposit m v k = do {
     mb \<leftarrow> mb_put v (mailboxes k m);
     let k1 = upd_mb m (\<lambda>_. mb) k;
     if \<not> tlist_isempty (Suspended (OMailBox m)) k1 then do {
       k2 \<leftarrow> rt_ipc_list_resume (Suspended (OMailBox m)) k1;
       k3 \<leftarrow> rt_schedule k2;
       Some (Returned RT_EOK, k3)
     }
     else Some (Returned RT_EOK, k1)
   }"

text \<open>
  The loop from its test on.  \<open>thread\<close> is the result of \<open>rt_thread_self\<close>, read at the entry of
  the function; it is null before the scheduler starts, and then the assignment to its error
  field is undefined.
\<close>

definition mb_send_loop :: "nat \<Rightarrow> tid option \<Rightarrow> u32 \<Rightarrow> u32 \<Rightarrow> kernel \<Rightarrow> (outcome \<times> kernel) option" where
  "mb_send_loop m thread v timeout k =
     (if mb_entry (mailboxes k m) = mb_size (mailboxes k m) then do {
        t \<leftarrow> thread;
        let k1 = set_error t RT_EOK k;
        if timeout = 0 then Some (Returned (- RT_EFULL), k1)
        else do {
          require (in_thread_context k1);
          k2 \<leftarrow> ipc_wait (Senders (OMailBox m)) t (obj_flag (mailboxes k1 m)) timeout k1;
          k3 \<leftarrow> rt_schedule k2;
          Some (Blocked (if sint timeout > 0 then rt_tick k1 else 0), k3)
        }
      }
      else mb_deposit m v k)"

definition rt_mb_send_wait :: "nat \<Rightarrow> u32 \<Rightarrow> u32 \<Rightarrow> kernel \<Rightarrow> (outcome \<times> kernel) option" where
  "rt_mb_send_wait m v timeout k = do {
     require (obj_is k (OMailBox m) RT_Object_Class_MailBox);
     if mb_entry (mailboxes k m) = mb_size (mailboxes k m) \<and> timeout = 0
     then Some (Returned (- RT_EFULL), k)
     else mb_send_loop m (rt_thread_self k) v timeout k
   }"

definition rt_mb_send_wait_resume :: "nat \<Rightarrow> tid \<Rightarrow> u32 \<Rightarrow> u32 \<Rightarrow> u32 \<Rightarrow> kernel \<Rightarrow> (outcome \<times> kernel) option" where
  "rt_mb_send_wait_resume m t v timeout start k =
     (if thread_error (threads k t) \<noteq> RT_EOK then Some (Returned (thread_error (threads k t)), k)
      else mb_send_loop m (Some t) v (time_left timeout start (rt_tick k)) k)"

definition rt_mb_send :: "nat \<Rightarrow> u32 \<Rightarrow> kernel \<Rightarrow> (outcome \<times> kernel) option" where
  "rt_mb_send m v k = rt_mb_send_wait m v 0 k"

subsection \<open>Receiving\<close>

definition mb_get :: "rt_mailbox \<Rightarrow> (u32 \<times> rt_mailbox) option" where
  "mb_get mb = do {
     require (unat (out_offset mb) < length (mb_pool mb));
     let i = out_offset mb + 1;
     Some (mb_pool mb ! unat (out_offset mb),
           mb\<lparr>out_offset := (if i \<ge> mb_size mb then 0 else i), mb_entry := mb_entry mb - 1\<rparr>)
   }"

definition mb_withdraw :: "nat \<Rightarrow> kernel \<Rightarrow> (outcome \<times> u32 option \<times> kernel) option" where
  "mb_withdraw m k = do {
     (v, mb) \<leftarrow> mb_get (mailboxes k m);
     let k1 = upd_mb m (\<lambda>_. mb) k;
     if \<not> tlist_isempty (Senders (OMailBox m)) k1 then do {
       k2 \<leftarrow> rt_ipc_list_resume (Senders (OMailBox m)) k1;
       k3 \<leftarrow> rt_schedule k2;
       Some (Returned RT_EOK, Some v, k3)
     }
     else Some (Returned RT_EOK, Some v, k1)
   }"

definition mb_recv_loop :: "nat \<Rightarrow> tid option \<Rightarrow> u32 \<Rightarrow> kernel \<Rightarrow> (outcome \<times> u32 option \<times> kernel) option" where
  "mb_recv_loop m thread timeout k =
     (if mb_entry (mailboxes k m) = 0 then do {
        t \<leftarrow> thread;
        let k1 = set_error t RT_EOK k;
        if timeout = 0 then Some (Returned (- RT_ETIMEOUT), None, set_error t (- RT_ETIMEOUT) k1)
        else do {
          require (in_thread_context k1);
          k2 \<leftarrow> ipc_wait (Suspended (OMailBox m)) t (obj_flag (mailboxes k1 m)) timeout k1;
          k3 \<leftarrow> rt_schedule k2;
          Some (Blocked (if sint timeout > 0 then rt_tick k1 else 0), None, k3)
        }
      }
      else mb_withdraw m k)"

definition rt_mb_recv :: "nat \<Rightarrow> u32 \<Rightarrow> kernel \<Rightarrow> (outcome \<times> u32 option \<times> kernel) option" where
  "rt_mb_recv m timeout k = do {
     require (obj_is k (OMailBox m) RT_Object_Class_MailBox);
     if mb_entry (mailboxes k m) = 0 \<and> timeout = 0
     then Some (Returned (- RT_ETIMEOUT), None, k)
     else mb_recv_loop m (rt_thread_self k) timeout k
   }"

definition rt_mb_recv_resume :: "nat \<Rightarrow> tid \<Rightarrow> u32 \<Rightarrow> u32 \<Rightarrow> kernel \<Rightarrow> (outcome \<times> u32 option \<times> kernel) option" where
  "rt_mb_recv_resume m t timeout start k =
     (if thread_error (threads k t) \<noteq> RT_EOK then Some (Returned (thread_error (threads k t)), None, k)
      else mb_recv_loop m (Some t) (time_left timeout start (rt_tick k)) k)"

definition rt_mb_control :: "nat \<Rightarrow> int \<Rightarrow> kernel \<Rightarrow> (rt_err \<times> kernel) option" where
  "rt_mb_control m cmd k = do {
     require (obj_is k (OMailBox m) RT_Object_Class_MailBox);
     if cmd = RT_IPC_CMD_RESET then do {
       k1 \<leftarrow> rt_ipc_list_resume_all (Suspended (OMailBox m)) k;
       k2 \<leftarrow> rt_ipc_list_resume_all (Senders (OMailBox m)) k1;
       k3 \<leftarrow> rt_schedule (upd_mb m mb_reset k2);
       Some (RT_EOK, k3)
     }
     else Some (- RT_ERROR, k)
   }"

end
