(* ===== verification/MsgQueue.thy ===== *)
theory MsgQueue
  imports Mailbox
begin

section \<open>Message queues (rt-thread/src/ipc.c)\<close>

text \<open>
  The blocks of the pool are on the free list, in the queue, or held by a call between the
  three interrupt-free sections of the code: taking a block off a list, copying the message
  with interrupts enabled, and linking the block into the other list.  Each section is a
  definition, so that the sections of different calls can interleave.
\<close>

subsection \<open>The block lists\<close>

text \<open>The loop that links the blocks of the pool into the free list, the last one first.\<close>

fun mq_link_free :: "nat \<Rightarrow> (nat \<Rightarrow> rt_mq_block) \<Rightarrow> nat option \<Rightarrow> nat option \<times> (nat \<Rightarrow> rt_mq_block)" where
  "mq_link_free 0 pool free = (free, pool)"
| "mq_link_free (Suc n) pool free =
     (let (free1, pool1) = mq_link_free n pool free
      in (Some n, pool1(n := (pool1 n)\<lparr>msg_next := free1\<rparr>)))"

definition mq_setup_lists :: "(nat \<Rightarrow> u8 list) \<Rightarrow> rt_messagequeue \<Rightarrow> rt_messagequeue" where
  "mq_setup_lists mem mq =
     (let (free, pool) = mq_link_free (unat (max_msgs mq))
                           (\<lambda>i. \<lparr>msg_next = None, msg_data = mem i\<rparr>) None
      in mq\<lparr>msg_queue_head := None, msg_queue_tail := None, msg_queue_free := free,
            mq_pool := pool, mq_entry := 0\<rparr>)"

definition mq_take_free :: "rt_messagequeue \<Rightarrow> (nat \<times> rt_messagequeue) option" where
  "mq_take_free mq =
     (case msg_queue_free mq of
        None \<Rightarrow> None
      | Some b \<Rightarrow> Some (b, mq\<lparr>msg_queue_free := msg_next (mq_pool mq b)\<rparr>))"

definition mq_set_next :: "nat \<Rightarrow> nat option \<Rightarrow> rt_messagequeue \<Rightarrow> rt_messagequeue" where
  "mq_set_next b nxt mq = mq\<lparr>mq_pool := (mq_pool mq)(b := (mq_pool mq b)\<lparr>msg_next := nxt\<rparr>)\<rparr>"

text \<open>\<open>rt_memcpy(msg + 1, buffer, size)\<close>\<close>

definition mq_copy_in :: "nat \<Rightarrow> u8 list \<Rightarrow> nat \<Rightarrow> rt_messagequeue \<Rightarrow> rt_messagequeue option" where
  "mq_copy_in b buffer size_arg mq = do {
     require (size_arg \<le> length buffer \<and> size_arg \<le> length (msg_data (mq_pool mq b)));
     Some (mq\<lparr>mq_pool := (mq_pool mq)(b := (mq_pool mq b)\<lparr>msg_data :=
             take size_arg buffer @ drop size_arg (msg_data (mq_pool mq b))\<rparr>)\<rparr>)
   }"

definition mq_append :: "nat \<Rightarrow> rt_messagequeue \<Rightarrow> rt_messagequeue" where
  "mq_append b mq =
     (let mq1 = (case msg_queue_tail mq of None \<Rightarrow> mq | Some old \<Rightarrow> mq_set_next old (Some b) mq);
          mq2 = mq1\<lparr>msg_queue_tail := Some b\<rparr>;
          mq3 = (if msg_queue_head mq2 = None then mq2\<lparr>msg_queue_head := Some b\<rparr> else mq2)
      in mq3\<lparr>mq_entry := mq_entry mq3 + 1\<rparr>)"

definition mq_prepend :: "nat \<Rightarrow> rt_messagequeue \<Rightarrow> rt_messagequeue" where
  "mq_prepend b mq =
     (let mq1 = (mq_set_next b (msg_queue_head mq) mq)\<lparr>msg_queue_head := Some b\<rparr>;
          mq2 = (if msg_queue_tail mq1 = None then mq1\<lparr>msg_queue_tail := Some b\<rparr> else mq1)
      in mq2\<lparr>mq_entry := mq_entry mq2 + 1\<rparr>)"

text \<open>Taking the first message; a null head is dereferenced.\<close>

definition mq_take_head :: "rt_messagequeue \<Rightarrow> (nat \<times> rt_messagequeue) option" where
  "mq_take_head mq =
     (case msg_queue_head mq of
        None \<Rightarrow> None
      | Some b \<Rightarrow>
          let mq1 = mq\<lparr>msg_queue_head := msg_next (mq_pool mq b)\<rparr>;
              mq2 = (if msg_queue_tail mq1 = Some b then mq1\<lparr>msg_queue_tail := None\<rparr> else mq1)
          in Some (b, mq2\<lparr>mq_entry := mq_entry mq2 - 1\<rparr>))"

definition mq_copy_out :: "nat \<Rightarrow> nat \<Rightarrow> rt_messagequeue \<Rightarrow> u8 list option" where
  "mq_copy_out b size_arg mq =
     (let n = min size_arg (unat (msg_size mq)) in
      if n \<le> length (msg_data (mq_pool mq b)) then Some (take n (msg_data (mq_pool mq b))) else None)"

definition mq_give_back :: "nat \<Rightarrow> rt_messagequeue \<Rightarrow> rt_messagequeue" where
  "mq_give_back b mq = (mq_set_next b (msg_queue_free mq) mq)\<lparr>msg_queue_free := Some b\<rparr>"

subsection \<open>Creation and removal\<close>

text \<open>\<open>mem\<close> is the contents of the pool after each block header.\<close>

definition rt_mq_init ::
    "nat \<Rightarrow> u8 list \<Rightarrow> (nat \<Rightarrow> u8 list) \<Rightarrow> u32 \<Rightarrow> u32 \<Rightarrow> u8 \<Rightarrow> kernel \<Rightarrow> (rt_err \<times> kernel) option" where
  "rt_mq_init m name mem msg_size_arg pool_size flag k = do {
     k1 \<leftarrow> rt_object_init (OMsgQueue m) RT_Object_Class_MessageQueue name k;
     let k2 = rt_ipc_object_init (OMsgQueue m) (set_obj_flag (OMsgQueue m) flag k1);
     let msz = (ucast (rt_align msg_size_arg) :: u16);
     let k3 = upd_mq m (\<lambda>mq. mq_setup_lists mem (mq\<lparr>msg_size := msz,
                max_msgs := ucast (pool_size div (ucast msz + 4))\<rparr>)) k2;
     Some (RT_EOK, senders_init (OMsgQueue m) k3)
   }"

definition rt_mq_detach :: "nat \<Rightarrow> kernel \<Rightarrow> (rt_err \<times> kernel) option" where
  "rt_mq_detach m k = do {
     require (obj_is k (OMsgQueue m) RT_Object_Class_MessageQueue);
     require (rt_object_is_systemobject k (OMsgQueue m));
     k1 \<leftarrow> rt_ipc_list_resume_all (Suspended (OMsgQueue m)) k;
     k2 \<leftarrow> rt_ipc_list_resume_all (Senders (OMsgQueue m)) k1;
     Some (RT_EOK, rt_object_detach (OMsgQueue m) k2)
   }"

definition zero_mq :: rt_messagequeue where
  "zero_mq = \<lparr>obj_name = replicate 8 0, obj_type = 0, obj_flag = 0, msg_size = 0, max_msgs = 0,
     mq_entry = 0, msg_queue_head = None, msg_queue_tail = None, msg_queue_free = None,
     mq_pool = (\<lambda>_. \<lparr>msg_next = None, msg_data = []\<rparr>)\<rparr>"

definition rt_mq_create ::
    "nat option \<Rightarrow> (nat \<Rightarrow> u8 list) option \<Rightarrow> u8 list \<Rightarrow> u32 \<Rightarrow> u32 \<Rightarrow> u8 \<Rightarrow> kernel
      \<Rightarrow> (nat option \<times> kernel) option" where
  "rt_mq_create mem pool_mem name msg_size_arg max_arg flag k = do {
     require (interrupt_nest k = 0);
     (ob, k1) \<leftarrow> rt_object_allocate (map_option OMsgQueue mem)
                   (case mem of None \<Rightarrow> id | Some m \<Rightarrow> upd_mq m (\<lambda>_. zero_mq)) RT_Object_Class_MessageQueue name k;
     (case (ob, mem) of
        (Some _, Some m) \<Rightarrow>
          let k2 = upd_mq m (\<lambda>mq. mq\<lparr>msg_size := ucast (rt_align msg_size_arg), max_msgs := ucast max_arg\<rparr>)
                     (rt_ipc_object_init (OMsgQueue m) (set_obj_flag (OMsgQueue m) flag k1)) in
          (case pool_mem of
             None \<Rightarrow> do { k3 \<leftarrow> rt_object_delete (OMsgQueue m) k2; Some (None, k3) }
           | Some pm \<Rightarrow>
               Some (Some m, senders_init (OMsgQueue m) (upd_mq m (mq_setup_lists pm) k2)))
      | _ \<Rightarrow> Some (None, k1))
   }"

definition rt_mq_delete :: "nat \<Rightarrow> kernel \<Rightarrow> (rt_err \<times> kernel) option" where
  "rt_mq_delete m k = do {
     require (interrupt_nest k = 0);
     require (obj_is k (OMsgQueue m) RT_Object_Class_MessageQueue);
     require (\<not> rt_object_is_systemobject k (OMsgQueue m));
     k1 \<leftarrow> rt_ipc_list_resume_all (Suspended (OMsgQueue m)) k;
     k2 \<leftarrow> rt_ipc_list_resume_all (Senders (OMsgQueue m)) k1;
     k3 \<leftarrow> rt_object_delete (OMsgQueue m) k2;
     Some (RT_EOK, k3)
   }"

subsection \<open>Sending\<close>

text \<open>What a section leaves: the call returned or blocked, or it holds a block.\<close>

datatype mq_outcome = Mq_done outcome | Mq_holds nat

definition mq_send_loop ::
    "nat \<Rightarrow> tid option \<Rightarrow> u32 \<Rightarrow> kernel \<Rightarrow> (mq_outcome \<times> kernel) option" where
  "mq_send_loop m thread timeout k =
     (case mq_take_free (msgqueues k m) of
        None \<Rightarrow> do {
          t \<leftarrow> thread;
          let k1 = set_error t RT_EOK k;
          if timeout = 0 then Some (Mq_done (Returned (- RT_EFULL)), k1)
          else do {
            require (in_thread_context k1);
            k2 \<leftarrow> ipc_wait (Senders (OMsgQueue m)) t (obj_flag (msgqueues k1 m)) timeout k1;
            k3 \<leftarrow> rt_schedule k2;
            Some (Mq_done (Blocked (if sint timeout > 0 then rt_tick k1 else 0)), k3)
          }
        }
      | Some (b, mq) \<Rightarrow> Some (Mq_holds b, upd_mq m (\<lambda>_. mq) k))"

definition mq_send_reserve :: "nat \<Rightarrow> u32 \<Rightarrow> u32 \<Rightarrow> kernel \<Rightarrow> (mq_outcome \<times> kernel) option" where
  "mq_send_reserve m size_arg timeout k = do {
     require (obj_is k (OMsgQueue m) RT_Object_Class_MessageQueue);
     require (size_arg \<noteq> 0);
     if size_arg > ucast (msg_size (msgqueues k m)) then Some (Mq_done (Returned (- RT_ERROR)), k)
     else if msg_queue_free (msgqueues k m) = None \<and> timeout = 0
     then Some (Mq_done (Returned (- RT_EFULL)), k)
     else mq_send_loop m (rt_thread_self k) timeout k
   }"

definition mq_send_resume :: "nat \<Rightarrow> tid \<Rightarrow> u32 \<Rightarrow> u32 \<Rightarrow> kernel \<Rightarrow> (mq_outcome \<times> kernel) option" where
  "mq_send_resume m t timeout start k =
     (if thread_error (threads k t) \<noteq> RT_EOK
      then Some (Mq_done (Returned (thread_error (threads k t))), k)
      else mq_send_loop m (Some t) (time_left timeout start (rt_tick k)) k)"

definition mq_send_copy :: "nat \<Rightarrow> nat \<Rightarrow> u8 list \<Rightarrow> u32 \<Rightarrow> kernel \<Rightarrow> kernel option" where
  "mq_send_copy m b buffer size_arg k = do {
     mq \<leftarrow> mq_copy_in b buffer (unat size_arg) (mq_set_next b None (msgqueues k m));
     Some (upd_mq m (\<lambda>_. mq) k)
   }"

definition mq_wake_receiver :: "nat \<Rightarrow> kernel \<Rightarrow> kernel option" where
  "mq_wake_receiver m k =
     (if \<not> tlist_isempty (Suspended (OMsgQueue m)) k then do {
        k1 \<leftarrow> rt_ipc_list_resume (Suspended (OMsgQueue m)) k;
        rt_schedule k1
      }
      else Some k)"

definition mq_send_link :: "nat \<Rightarrow> nat \<Rightarrow> kernel \<Rightarrow> kernel option" where
  "mq_send_link m b k = mq_wake_receiver m (upd_mq m (mq_append b) k)"

text \<open>The whole call when it finds a free block and no other call runs in between.\<close>

definition rt_mq_send_wait :: "nat \<Rightarrow> u8 list \<Rightarrow> u32 \<Rightarrow> u32 \<Rightarrow> kernel \<Rightarrow> (outcome \<times> kernel) option" where
  "rt_mq_send_wait m buffer size_arg timeout k = do {
     (r, k1) \<leftarrow> mq_send_reserve m size_arg timeout k;
     (case r of
        Mq_done oc \<Rightarrow> Some (oc, k1)
      | Mq_holds b \<Rightarrow> do {
          k2 \<leftarrow> mq_send_copy m b buffer size_arg k1;
          k3 \<leftarrow> mq_send_link m b k2;
          Some (Returned RT_EOK, k3)
        })
   }"

definition rt_mq_send :: "nat \<Rightarrow> u8 list \<Rightarrow> u32 \<Rightarrow> kernel \<Rightarrow> (outcome \<times> kernel) option" where
  "rt_mq_send m buffer size_arg k = rt_mq_send_wait m buffer size_arg 0 k"

text \<open>\<open>rt_mq_urgent\<close> in its three sections.\<close>

definition mq_urgent_reserve :: "nat \<Rightarrow> u32 \<Rightarrow> kernel \<Rightarrow> (mq_outcome \<times> kernel) option" where
  "mq_urgent_reserve m size_arg k = do {
     require (obj_is k (OMsgQueue m) RT_Object_Class_MessageQueue);
     require (size_arg \<noteq> 0);
     if size_arg > ucast (msg_size (msgqueues k m)) then Some (Mq_done (Returned (- RT_ERROR)), k)
     else (case mq_take_free (msgqueues k m) of
             None \<Rightarrow> Some (Mq_done (Returned (- RT_EFULL)), k)
           | Some (b, mq) \<Rightarrow> Some (Mq_holds b, upd_mq m (\<lambda>_. mq) k))
   }"

definition mq_urgent_copy :: "nat \<Rightarrow> nat \<Rightarrow> u8 list \<Rightarrow> u32 \<Rightarrow> kernel \<Rightarrow> kernel option" where
  "mq_urgent_copy m b buffer size_arg k = do {
     mq \<leftarrow> mq_copy_in b buffer (unat size_arg) (msgqueues k m);
     Some (upd_mq m (\<lambda>_. mq) k)
   }"

definition mq_urgent_link :: "nat \<Rightarrow> nat \<Rightarrow> kernel \<Rightarrow> kernel option" where
  "mq_urgent_link m b k = mq_wake_receiver m (upd_mq m (mq_prepend b) k)"

definition rt_mq_urgent :: "nat \<Rightarrow> u8 list \<Rightarrow> u32 \<Rightarrow> kernel \<Rightarrow> (outcome \<times> kernel) option" where
  "rt_mq_urgent m buffer size_arg k = do {
     (r, k1) \<leftarrow> mq_urgent_reserve m size_arg k;
     (case r of
        Mq_done oc \<Rightarrow> Some (oc, k1)
      | Mq_holds b \<Rightarrow> do {
          k2 \<leftarrow> mq_urgent_copy m b buffer size_arg k1;
          k3 \<leftarrow> mq_urgent_link m b k2;
          Some (Returned RT_EOK, k3)
        })
   }"

subsection \<open>Receiving\<close>

definition mq_recv_loop :: "nat \<Rightarrow> tid option \<Rightarrow> u32 \<Rightarrow> kernel \<Rightarrow> (mq_outcome \<times> kernel) option" where
  "mq_recv_loop m thread timeout k =
     (if mq_entry (msgqueues k m) = 0 then do {
        require (in_thread_context k);
        t \<leftarrow> thread;
        let k1 = set_error t RT_EOK k;
        if timeout = 0 then Some (Mq_done (Returned (- RT_ETIMEOUT)), set_error t (- RT_ETIMEOUT) k1)
        else do {
          k2 \<leftarrow> ipc_wait (Suspended (OMsgQueue m)) t (obj_flag (msgqueues k1 m)) timeout k1;
          k3 \<leftarrow> rt_schedule k2;
          Some (Mq_done (Blocked (if sint timeout > 0 then rt_tick k1 else 0)), k3)
        }
      }
      else do {
        (b, mq) \<leftarrow> mq_take_head (msgqueues k m);
        Some (Mq_holds b, upd_mq m (\<lambda>_. mq) k)
      })"

definition mq_recv_take :: "nat \<Rightarrow> u32 \<Rightarrow> u32 \<Rightarrow> kernel \<Rightarrow> (mq_outcome \<times> kernel) option" where
  "mq_recv_take m size_arg timeout k = do {
     require (obj_is k (OMsgQueue m) RT_Object_Class_MessageQueue);
     require (size_arg \<noteq> 0);
     if mq_entry (msgqueues k m) = 0 \<and> timeout = 0
     then Some (Mq_done (Returned (- RT_ETIMEOUT)), k)
     else mq_recv_loop m (rt_thread_self k) timeout k
   }"

definition mq_recv_resume :: "nat \<Rightarrow> tid \<Rightarrow> u32 \<Rightarrow> u32 \<Rightarrow> kernel \<Rightarrow> (mq_outcome \<times> kernel) option" where
  "mq_recv_resume m t timeout start k =
     (if thread_error (threads k t) \<noteq> RT_EOK
      then Some (Mq_done (Returned (thread_error (threads k t))), k)
      else mq_recv_loop m (Some t) (time_left timeout start (rt_tick k)) k)"

definition mq_recv_copy :: "nat \<Rightarrow> nat \<Rightarrow> u32 \<Rightarrow> kernel \<Rightarrow> u8 list option" where
  "mq_recv_copy m b size_arg k = mq_copy_out b (unat size_arg) (msgqueues k m)"

definition mq_recv_free :: "nat \<Rightarrow> nat \<Rightarrow> kernel \<Rightarrow> kernel option" where
  "mq_recv_free m b k =
     (let k1 = upd_mq m (mq_give_back b) k in
      if \<not> tlist_isempty (Senders (OMsgQueue m)) k1 then do {
        k2 \<leftarrow> rt_ipc_list_resume (Senders (OMsgQueue m)) k1;
        rt_schedule k2
      }
      else Some k1)"

definition rt_mq_recv :: "nat \<Rightarrow> u32 \<Rightarrow> u32 \<Rightarrow> kernel \<Rightarrow> (outcome \<times> u8 list option \<times> kernel) option" where
  "rt_mq_recv m size_arg timeout k = do {
     (r, k1) \<leftarrow> mq_recv_take m size_arg timeout k;
     (case r of
        Mq_done oc \<Rightarrow> Some (oc, None, k1)
      | Mq_holds b \<Rightarrow> do {
          bytes \<leftarrow> mq_recv_copy m b size_arg k1;
          k2 \<leftarrow> mq_recv_free m b k1;
          Some (Returned RT_EOK, Some bytes, k2)
        })
   }"

subsection \<open>Reset\<close>

text \<open>The loop of \<open>rt_mq_control\<close> that moves every queued block to the free list.\<close>

partial_function (option) mq_release_all :: "rt_messagequeue \<Rightarrow> rt_messagequeue option" where
  "mq_release_all mq =
     (if msg_queue_head mq = None then Some mq
      else do {
        (b, mq1) \<leftarrow> mq_take_head mq;
        mq_release_all (mq_give_back b (mq1\<lparr>mq_entry := mq_entry mq\<rparr>))
      })"

definition rt_mq_control :: "nat \<Rightarrow> int \<Rightarrow> kernel \<Rightarrow> (rt_err \<times> kernel) option" where
  "rt_mq_control m cmd k = do {
     require (obj_is k (OMsgQueue m) RT_Object_Class_MessageQueue);
     if cmd = RT_IPC_CMD_RESET then do {
       k1 \<leftarrow> rt_ipc_list_resume_all (Suspended (OMsgQueue m)) k;
       k2 \<leftarrow> rt_ipc_list_resume_all (Senders (OMsgQueue m)) k1;
       mq \<leftarrow> mq_release_all (msgqueues k2 m);
       k3 \<leftarrow> rt_schedule (upd_mq m (\<lambda>_. mq\<lparr>mq_entry := 0\<rparr>) k2);
       Some (RT_EOK, k3)
     }
     else Some (- RT_ERROR, k)
   }"

end
