(* ===== verification/MemPool.thy ===== *)
theory MemPool
  imports IpcBase
begin

section \<open>Memory pools (rt-thread/src/mempool.c)\<close>

text \<open>
  A pool is an area of blocks of one size, each behind a header word.  The header of a free block
  holds the address of the next free block, that of an allocated block the pool
  (\<open>mp_links\<close>, by the address of the header).  A thread that finds no free block waits at the
  front of the waiting list; each round of an allocation is a definition.
\<close>

text \<open>\<open>rt_set_errno\<close> and \<open>rt_get_errno\<close> (kservice.c)\<close>

definition rt_set_errno :: "rt_err \<Rightarrow> kernel \<Rightarrow> kernel" where
  "rt_set_errno e k =
     (if rt_interrupt_get_nest k \<noteq> 0 then k\<lparr>rt_errno := e\<rparr>
      else (case rt_thread_self k of None \<Rightarrow> k\<lparr>rt_errno := e\<rparr> | Some t \<Rightarrow> set_error t e k))"

definition rt_get_errno :: "kernel \<Rightarrow> rt_err" where
  "rt_get_errno k =
     (if rt_interrupt_get_nest k \<noteq> 0 then rt_errno k
      else (case rt_thread_self k of None \<Rightarrow> rt_errno k | Some t \<Rightarrow> thread_error (threads k t)))"

subsection \<open>Setting up\<close>

text \<open>The loop that links each block to the next one; \<open>step\<close> is the block size with the header.\<close>

fun mp_link_blocks :: "nat \<Rightarrow> u32 \<Rightarrow> u32 \<Rightarrow> (u32 \<Rightarrow> mp_link) \<Rightarrow> (u32 \<Rightarrow> mp_link)" where
  "mp_link_blocks 0 base step links = links"
| "mp_link_blocks (Suc n) base step links =
     (mp_link_blocks n base step links)(base + of_nat n * step := Next_block (base + (of_nat n + 1) * step))"

text \<open>After the loop the last header is set to null, at \<open>base - step\<close> when there is no block.\<close>

definition mp_setup_blocks :: "u32 \<Rightarrow> u32 \<Rightarrow> u32 \<Rightarrow> (u32 \<Rightarrow> mp_link) \<Rightarrow> (u32 \<Rightarrow> mp_link)" where
  "mp_setup_blocks base step n links =
     (mp_link_blocks (unat n) base step links)(base + (n - 1) * step := Next_block 0)"

definition rt_mp_init :: "nat \<Rightarrow> u8 list \<Rightarrow> u32 \<Rightarrow> u32 \<Rightarrow> u32 \<Rightarrow> kernel \<Rightarrow> (rt_err \<times> kernel) option" where
  "rt_mp_init p name start sz bsize k = do {
     require (start \<noteq> 0);
     require (sz > 0 \<and> bsize > 0);
     k1 \<leftarrow> rt_object_init (OMemPool p) RT_Object_Class_MemPool name k;
     let bs = rt_align bsize;
     require (bs + 4 \<noteq> 0);
     let n = rt_align_down sz div (bs + 4);
     let k2 = upd_mp p (\<lambda>mp. mp\<lparr>start_address := start, mp_size := rt_align_down sz, block_size := bs,
                block_total_count := n, block_free_count := n\<rparr>) k1;
     let k3 = rt_ipc_object_init (OMemPool p) k2;
     let k4 = k3\<lparr>mp_links := mp_setup_blocks start (bs + 4) n (mp_links k3)\<rparr>;
     Some (RT_EOK, upd_mp p (block_list_update (\<lambda>_. start)) k4)
   }"

text \<open>The loop that wakes the waiting threads is that of \<open>rt_ipc_list_resume_all\<close>.\<close>

definition rt_mp_detach :: "nat \<Rightarrow> kernel \<Rightarrow> (rt_err \<times> kernel) option" where
  "rt_mp_detach p k = do {
     require (obj_is k (OMemPool p) RT_Object_Class_MemPool);
     require (rt_object_is_systemobject k (OMemPool p));
     k1 \<leftarrow> rt_ipc_list_resume_all (Suspended (OMemPool p)) k;
     Some (RT_EOK, rt_object_detach (OMemPool p) k1)
   }"

definition zero_mempool :: rt_mempool where
  "zero_mempool = \<lparr>obj_name = replicate 8 0, obj_type = 0, obj_flag = 0, start_address = 0, mp_size = 0,
     block_size = 0, block_list = 0, block_total_count = 0, block_free_count = 0\<rparr>"

text \<open>\<open>area\<close> is the address that the allocator returns for the blocks, \<open>None\<close> for no memory.\<close>

definition rt_mp_create ::
    "nat option \<Rightarrow> u32 option \<Rightarrow> u8 list \<Rightarrow> u32 \<Rightarrow> u32 \<Rightarrow> kernel \<Rightarrow> (nat option \<times> kernel) option" where
  "rt_mp_create mem area name block_count bsize k = do {
     require (interrupt_nest k = 0);
     require (block_count > 0 \<and> bsize > 0);
     (ob, k1) \<leftarrow> rt_object_allocate (map_option OMemPool mem)
                   (case mem of None \<Rightarrow> id | Some p \<Rightarrow> upd_mp p (\<lambda>_. zero_mempool)) RT_Object_Class_MemPool name k;
     (case (ob, mem) of
        (Some _, Some p) \<Rightarrow>
          let bs = rt_align bsize;
              k2 = upd_mp p (\<lambda>mp. mp\<lparr>block_size := bs, mp_size := (bs + 4) * block_count\<rparr>) k1 in
          (case area of
             None \<Rightarrow> do { k3 \<leftarrow> rt_object_delete (OMemPool p) k2; Some (None, k3) }
           | Some start \<Rightarrow>
               let k3 = rt_ipc_object_init (OMemPool p)
                          (upd_mp p (\<lambda>mp. mp\<lparr>start_address := start, block_total_count := block_count,
                             block_free_count := block_count\<rparr>) k2);
                   k4 = k3\<lparr>mp_links := mp_setup_blocks start (bs + 4) block_count (mp_links k3)\<rparr>
               in Some (Some p, upd_mp p (block_list_update (\<lambda>_. start)) k4))
      | _ \<Rightarrow> Some (None, k1))
   }"

definition rt_mp_delete :: "nat \<Rightarrow> kernel \<Rightarrow> (rt_err \<times> kernel) option" where
  "rt_mp_delete p k = do {
     require (interrupt_nest k = 0);
     require (obj_is k (OMemPool p) RT_Object_Class_MemPool);
     require (\<not> rt_object_is_systemobject k (OMemPool p));
     k1 \<leftarrow> rt_ipc_list_resume_all (Suspended (OMemPool p)) k;
     k2 \<leftarrow> rt_object_delete (OMemPool p) k1;
     Some (RT_EOK, k2)
   }"

subsection \<open>Allocating\<close>

text \<open>
  Taking the first free block: the pool and the headers after it, with the address of the header.
  A null list fails the assertion; a header that does not hold an address is undefined.
\<close>

definition mp_take :: "nat \<Rightarrow> rt_mempool \<times> (u32 \<Rightarrow> mp_link) \<Rightarrow> (u32 \<times> rt_mempool \<times> (u32 \<Rightarrow> mp_link)) option" where
  "mp_take p s = (case s of (mp, links) \<Rightarrow> do {
     let b = block_list mp;
     require (b \<noteq> 0);
     (case links b of
        Next_block nxt \<Rightarrow>
          Some (b, mp\<lparr>block_free_count := block_free_count mp - 1, block_list := nxt\<rparr>, links(b := Owner_pool p))
      | Owner_pool _ \<Rightarrow> None)
   })"

datatype mp_result = Mp_block u32 \<comment> \<open>returned, 0 for null\<close> | Mp_blocked u32

definition mp_alloc_loop :: "nat \<Rightarrow> tid option \<Rightarrow> u32 \<Rightarrow> kernel \<Rightarrow> (mp_result \<times> kernel) option" where
  "mp_alloc_loop p thread time k =
     (if block_free_count (mempools k p) = 0 then
        if time = 0 then Some (Mp_block 0, rt_set_errno (- RT_ETIMEOUT) k)
        else do {
          require (interrupt_nest k = 0);
          t \<leftarrow> thread;
          (_, k1) \<leftarrow> rt_thread_suspend t (set_error t RT_EOK k);
          let k2 = tlist_insert_after (Suspended (OMemPool p)) t k1;
          k3 \<leftarrow> (if sint time > 0 then do {
                  (_, k3) \<leftarrow> rt_timer_control (ThreadTimer t) (CTRL_SET_TIME time) k2;
                  (_, k4) \<leftarrow> rt_timer_start (ThreadTimer t) k3;
                  Some k4
                }
                else Some k2);
          k4 \<leftarrow> rt_schedule k3;
          Some (Mp_blocked (if sint time > 0 then rt_tick k else 0), k4)
        }
      else do {
        (b, mp, links) \<leftarrow> mp_take p (mempools k p, mp_links k);
        Some (Mp_block (b + 4), (upd_mp p (\<lambda>_. mp) k)\<lparr>mp_links := links\<rparr>)
      })"

definition rt_mp_alloc :: "nat \<Rightarrow> u32 \<Rightarrow> kernel \<Rightarrow> (mp_result \<times> kernel) option" where
  "rt_mp_alloc p time k = mp_alloc_loop p (rt_thread_self k) time k"

definition rt_mp_alloc_resume :: "nat \<Rightarrow> tid \<Rightarrow> u32 \<Rightarrow> u32 \<Rightarrow> kernel \<Rightarrow> (mp_result \<times> kernel) option" where
  "rt_mp_alloc_resume p t time before_sleep k =
     (if thread_error (threads k t) \<noteq> RT_EOK then Some (Mp_block 0, k)
      else mp_alloc_loop p (Some t) (time_left time before_sleep (rt_tick k)) k)"

subsection \<open>Releasing\<close>

text \<open>Linking a block in front of the free list.\<close>

definition mp_give :: "u32 \<Rightarrow> rt_mempool \<times> (u32 \<Rightarrow> mp_link) \<Rightarrow> rt_mempool \<times> (u32 \<Rightarrow> mp_link)" where
  "mp_give b s = (case s of (mp, links) \<Rightarrow>
     (mp\<lparr>block_free_count := block_free_count mp + 1, block_list := b\<rparr>, links(b := Next_block (block_list mp))))"

text \<open>The header says which pool the block belongs to; a header that holds another address is undefined.\<close>

definition rt_mp_free :: "u32 \<Rightarrow> kernel \<Rightarrow> kernel option" where
  "rt_mp_free block k =
     (if block = 0 then Some k
      else (case mp_links k (block - 4) of
              Next_block _ \<Rightarrow> None
            | Owner_pool p \<Rightarrow> do {
                let (mp, links) = mp_give (block - 4) (mempools k p, mp_links k);
                let k1 = (upd_mp p (\<lambda>_. mp) k)\<lparr>mp_links := links\<rparr>;
                (case queues k1 (Suspended (OMemPool p)) of
                   [] \<Rightarrow> Some k1
                 | t # _ \<Rightarrow> do {
                     (_, k2) \<leftarrow> rt_thread_resume t (set_error t RT_EOK k1);
                     rt_schedule k2
                   })
              }))"

end
