(* ===== verification/KernelInv.thy ===== *)
theory KernelInv
  imports IpcBase
begin

section \<open>The invariant of the kernel state\<close>

text \<open>
  \<open>kinv\<close> ties the state of every thread to the list it is on, the lists to the bitmap of ready
  priorities and to the timers, and the timer lists to the order of their ticks; the primitive
  operations of the scheduler, the timers and the IPC lists keep it.
\<close>

definition timer_on :: "kernel \<Rightarrow> timer_id \<Rightarrow> u8 \<Rightarrow> bool" where
  "timer_on k x fl \<longleftrightarrow> obj_flag (timers k x) AND fl \<noteq> 0"

text \<open>The timer that is part of a thread object.\<close>

definition thread_timer_ok :: "kernel \<Rightarrow> tid \<Rightarrow> bool" where
  "thread_timer_ok k t \<longleftrightarrow> timer_is_type k (ThreadTimer t) \<and>
     rt_object_is_systemobject k (OTimer (ThreadTimer t)) \<and>
     timeout_func (timers k (ThreadTimer t)) = Thread_timeout \<and>
     parameter (timers k (ThreadTimer t)) = t \<and>
     \<not> timer_on k (ThreadTimer t) RT_TIMER_FLAG_SOFT_TIMER \<and>
     \<not> timer_on k (ThreadTimer t) RT_TIMER_FLAG_PERIODIC"

definition linked :: "kernel \<Rightarrow> timer_id \<Rightarrow> bool" where
  "linked k x \<longleftrightarrow> x \<in> set (rt_timer_list k) \<union> set (rt_soft_timer_list k)"

definition tm_inv :: "kernel \<Rightarrow> bool" where
  "tm_inv k \<longleftrightarrow> distinct (rt_timer_list k) \<and> distinct (rt_soft_timer_list k) \<and>
     (\<forall>x. linked k x \<longrightarrow> timer_on k x RT_TIMER_FLAG_ACTIVATED \<and> timer_is_type k x) \<and>
     (\<forall>x \<in> set (rt_timer_list k). \<not> timer_on k x RT_TIMER_FLAG_SOFT_TIMER) \<and>
     (\<forall>x \<in> set (rt_soft_timer_list k). timer_on k x RT_TIMER_FLAG_SOFT_TIMER) \<and>
     (\<forall>t. is_thread k t \<and> tstat k t \<noteq> RT_THREAD_CLOSE \<longrightarrow> thread_timer_ok k t) \<and>
     (\<forall>t. linked k (ThreadTimer t) \<longrightarrow> is_thread k t \<and> tstat k t = RT_THREAD_SUSPEND) \<and>
     (\<forall>u. timeout_func (timers k (UserTimer u)) \<noteq> Thread_timeout)"

definition kinv :: "kernel \<Rightarrow> bool" where
  "kinv k \<longleftrightarrow> sched_inv {} k \<and> cur_inv k \<and> tm_inv k"

lemma kinvD: "kinv k \<Longrightarrow> sched_inv {} k" "kinv k \<Longrightarrow> cur_inv k" "kinv k \<Longrightarrow> tm_inv k"
  by (simp_all add: kinv_def)

lemma tm_invD:
  assumes "tm_inv k"
  shows "distinct (rt_timer_list k)" "distinct (rt_soft_timer_list k)"
    "\<And>x. linked k x \<Longrightarrow> timer_on k x RT_TIMER_FLAG_ACTIVATED"
    "\<And>x. linked k x \<Longrightarrow> timer_is_type k x"
    "\<And>x. x \<in> set (rt_timer_list k) \<Longrightarrow> \<not> timer_on k x RT_TIMER_FLAG_SOFT_TIMER"
    "\<And>x. x \<in> set (rt_soft_timer_list k) \<Longrightarrow> timer_on k x RT_TIMER_FLAG_SOFT_TIMER"
    "\<And>t. is_thread k t \<Longrightarrow> tstat k t \<noteq> RT_THREAD_CLOSE \<Longrightarrow> thread_timer_ok k t"
    "\<And>t. linked k (ThreadTimer t) \<Longrightarrow> is_thread k t"
    "\<And>t. linked k (ThreadTimer t) \<Longrightarrow> tstat k t = RT_THREAD_SUSPEND"
    "\<And>u. timeout_func (timers k (UserTimer u)) \<noteq> Thread_timeout"
  using assms unfolding tm_inv_def by blast+

lemma thread_is_type [simp]: "thread_is_type k t = is_thread k t"
  by (simp add: thread_is_type_def is_thread_def rt_object_get_type_def)

text \<open>What the thread, timer and scheduler operations leave alone.\<close>

definition kframe :: "kernel \<Rightarrow> kernel \<Rightarrow> bool" where
  "kframe k k' \<longleftrightarrow> sems k' = sems k \<and> mutexes k' = mutexes k \<and> events k' = events k \<and>
     mailboxes k' = mailboxes k \<and> msgqueues k' = msgqueues k \<and> mempools k' = mempools k \<and> devices k' = devices k \<and>
     mp_links k' = mp_links k \<and> containers k' = containers k \<and> rt_tick k' = rt_tick k \<and>
     scheduler_lock_nest k' = scheduler_lock_nest k \<and> interrupt_nest k' = interrupt_nest k \<and>
     (\<forall>t. (threads k' t)\<lparr>stat := 0\<rparr> = (threads k t)\<lparr>stat := 0\<rparr>)"

lemma kframe_refl [simp]: "kframe k k"
  by (simp add: kframe_def)

lemma kframe_trans [trans]: "kframe a b \<Longrightarrow> kframe b c \<Longrightarrow> kframe a c"
  by (simp add: kframe_def)

lemma sched_frame_kframe: "sched_frame k k' \<Longrightarrow> kframe k k'"
  using sched_frameD [of k k'] by (simp add: kframe_def) (simp add: sched_frame_def)

lemma kframeD:
  assumes "kframe k k'"
  shows "sems k' = sems k" "mutexes k' = mutexes k" "events k' = events k"
    "mailboxes k' = mailboxes k" "msgqueues k' = msgqueues k" "mempools k' = mempools k"
    "mp_links k' = mp_links k" "containers k' = containers k" "rt_tick k' = rt_tick k"
    "scheduler_lock_nest k' = scheduler_lock_nest k" "interrupt_nest k' = interrupt_nest k" "devices k' = devices k"
  using assms by (simp_all add: kframe_def)

lemma kframe_thread:
  assumes "kframe k k'"
  shows "obj_type (threads k' t) = obj_type (threads k t)"
    "current_priority (threads k' t) = current_priority (threads k t)"
    "number_mask (threads k' t) = number_mask (threads k t)"
    "thread_error (threads k' t) = thread_error (threads k t)"
    "event_set (threads k' t) = event_set (threads k t)"
    "event_info (threads k' t) = event_info (threads k t)"
    "is_thread k' t = is_thread k t" "tprio k' t = tprio k t"
proof -
  have e: "(threads k' t)\<lparr>stat := 0\<rparr> = (threads k t)\<lparr>stat := 0\<rparr>"
    using assms by (simp add: kframe_def)
  show "obj_type (threads k' t) = obj_type (threads k t)"
    "current_priority (threads k' t) = current_priority (threads k t)"
    "number_mask (threads k' t) = number_mask (threads k t)"
    "thread_error (threads k' t) = thread_error (threads k t)"
    "event_set (threads k' t) = event_set (threads k t)"
    "event_info (threads k' t) = event_info (threads k t)"
    using arg_cong [OF e, of obj_type] arg_cong [OF e, of current_priority] arg_cong [OF e, of number_mask]
      arg_cong [OF e, of thread_error] arg_cong [OF e, of event_set] arg_cong [OF e, of event_info]
    by simp_all
  then show "is_thread k' t = is_thread k t" "tprio k' t = tprio k t"
    by (simp_all add: is_thread_def tprio_def)
qed

lemma same_timers:
  assumes "timers k' = timers k"
  shows "timer_on k' x fl = timer_on k x fl" "timer_is_type k' x = timer_is_type k x"
    "rt_object_is_systemobject k' (OTimer x) = rt_object_is_systemobject k (OTimer x)"
    "thread_timer_ok k' t = thread_timer_ok k t"
  using assms by (simp_all add: timer_on_def timer_is_type_def rt_object_get_type_def
      rt_object_is_systemobject_def thread_timer_ok_def)

lemma tm_invI:
  assumes "distinct (rt_timer_list k)" "distinct (rt_soft_timer_list k)"
    "\<And>x. linked k x \<Longrightarrow> timer_on k x RT_TIMER_FLAG_ACTIVATED \<and> timer_is_type k x"
    "\<And>x. x \<in> set (rt_timer_list k) \<Longrightarrow> \<not> timer_on k x RT_TIMER_FLAG_SOFT_TIMER"
    "\<And>x. x \<in> set (rt_soft_timer_list k) \<Longrightarrow> timer_on k x RT_TIMER_FLAG_SOFT_TIMER"
    "\<And>t. is_thread k t \<Longrightarrow> tstat k t \<noteq> RT_THREAD_CLOSE \<Longrightarrow> thread_timer_ok k t"
    "\<And>t. linked k (ThreadTimer t) \<Longrightarrow> is_thread k t \<and> tstat k t = RT_THREAD_SUSPEND"
    "\<And>u. timeout_func (timers k (UserTimer u)) \<noteq> Thread_timeout"
  shows "tm_inv k"
  unfolding tm_inv_def using assms by auto

lemma tm_inv_same_timers:
  assumes inv: "tm_inv k" and tm: "timers k' = timers k"
    and l: "rt_timer_list k' = rt_timer_list k" "rt_soft_timer_list k' = rt_soft_timer_list k"
    and th: "\<And>t. is_thread k' t = is_thread k t"
    and st: "\<And>t. linked k (ThreadTimer t) \<Longrightarrow> tstat k t = RT_THREAD_SUSPEND \<Longrightarrow> tstat k' t = RT_THREAD_SUSPEND"
    and cl: "\<And>t. is_thread k t \<Longrightarrow> tstat k t = RT_THREAD_CLOSE \<Longrightarrow> tstat k' t = RT_THREAD_CLOSE"
  shows "tm_inv k'"
proof (rule tm_invI)
  have lk: "linked k' x = linked k x" for x by (simp add: linked_def l)
  note d = tm_invD [OF inv]
  show "timer_on k' x RT_TIMER_FLAG_ACTIVATED \<and> timer_is_type k' x" if "linked k' x" for x
    using that d(3,4) unfolding lk same_timers [OF tm] by blast
  show "thread_timer_ok k' t" if "is_thread k' t" "tstat k' t \<noteq> RT_THREAD_CLOSE" for t
    using that d(7) [of t] cl [of t] unfolding th same_timers [OF tm] by blast
  show "is_thread k' t \<and> tstat k' t = RT_THREAD_SUSPEND" if "linked k' (ThreadTimer t)" for t
    using that d(8,9) [of t] st [of t] unfolding th lk by blast
qed (use tm_invD [OF inv] in \<open>simp_all add: l tm same_timers [OF tm]\<close>)

lemma rt_schedule_kinv:
  assumes inv: "kinv k" and cur: "rt_current_thread k \<noteq> None"
  obtains k' where "rt_schedule k = Some k'" "kinv k'" "schedule_post k k'" "kframe k k'"
proof -
  obtain c where c: "rt_current_thread k = Some c" using cur by auto
  obtain k' where k': "rt_schedule k = Some k'" "schedule_post k k'"
    using rt_schedule_ok [OF kinvD(1,2) [OF inv] c] by blast
  then have p: "sched_inv {} k'" "cur_inv k'" "sched_frame k k'"
    and st: "\<And>t. tstat k' t = tstat k t \<or> {tstat k t, tstat k' t} = {RT_THREAD_READY, RT_THREAD_RUNNING}"
    unfolding schedule_post_def by blast+
  have "tm_inv k'"
  proof (rule tm_inv_same_timers [OF kinvD(3) [OF inv]])
    show "tstat k' t = RT_THREAD_SUSPEND" if "tstat k t = RT_THREAD_SUSPEND" for t
      using st [of t] that by (auto simp: doubleton_eq_iff)
    show "tstat k' t = RT_THREAD_CLOSE" if "tstat k t = RT_THREAD_CLOSE" for t
      using st [of t] that by (auto simp: doubleton_eq_iff)
  qed (use sched_frameD [OF p(3)] sched_frame_thread [OF p(3)] in auto)
  then have "kinv k'" using p by (simp add: kinv_def)
  then show ?thesis using that [OF k'(1) _ k'(2) sched_frame_kframe [OF p(3)]] by blast
qed

subsection \<open>Stopping a timer\<close>

lemma flag_bits:
  "(f AND NOT RT_TIMER_FLAG_ACTIVATED) AND RT_TIMER_FLAG_ACTIVATED = (0 :: u8)"
  "(f AND NOT RT_TIMER_FLAG_ACTIVATED) AND RT_TIMER_FLAG_SOFT_TIMER = f AND RT_TIMER_FLAG_SOFT_TIMER"
  "(f AND NOT RT_TIMER_FLAG_ACTIVATED) AND RT_TIMER_FLAG_PERIODIC = f AND RT_TIMER_FLAG_PERIODIC"
  "(f OR RT_TIMER_FLAG_ACTIVATED) AND RT_TIMER_FLAG_ACTIVATED = RT_TIMER_FLAG_ACTIVATED"
  "(f OR RT_TIMER_FLAG_ACTIVATED) AND RT_TIMER_FLAG_SOFT_TIMER = f AND RT_TIMER_FLAG_SOFT_TIMER"
  "(f OR RT_TIMER_FLAG_ACTIVATED) AND RT_TIMER_FLAG_PERIODIC = f AND RT_TIMER_FLAG_PERIODIC"
proof -
  have n: "NOT RT_TIMER_FLAG_ACTIVATED AND RT_TIMER_FLAG_ACTIVATED = (0 :: u8)"
    "NOT RT_TIMER_FLAG_ACTIVATED AND RT_TIMER_FLAG_SOFT_TIMER = RT_TIMER_FLAG_SOFT_TIMER"
    "NOT RT_TIMER_FLAG_ACTIVATED AND RT_TIMER_FLAG_PERIODIC = RT_TIMER_FLAG_PERIODIC"
    by simp_all
  show "(f AND NOT RT_TIMER_FLAG_ACTIVATED) AND RT_TIMER_FLAG_ACTIVATED = (0 :: u8)"
    "(f AND NOT RT_TIMER_FLAG_ACTIVATED) AND RT_TIMER_FLAG_SOFT_TIMER = f AND RT_TIMER_FLAG_SOFT_TIMER"
    "(f AND NOT RT_TIMER_FLAG_ACTIVATED) AND RT_TIMER_FLAG_PERIODIC = f AND RT_TIMER_FLAG_PERIODIC"
    by (simp_all only: and.assoc n and_zero_eq)
  show "(f OR RT_TIMER_FLAG_ACTIVATED) AND RT_TIMER_FLAG_ACTIVATED = RT_TIMER_FLAG_ACTIVATED"
    "(f OR RT_TIMER_FLAG_ACTIVATED) AND RT_TIMER_FLAG_SOFT_TIMER = f AND RT_TIMER_FLAG_SOFT_TIMER"
    "(f OR RT_TIMER_FLAG_ACTIVATED) AND RT_TIMER_FLAG_PERIODIC = f AND RT_TIMER_FLAG_PERIODIC"
    by (simp_all add: bit.conj_disj_distrib2)
qed

lemma upd_timer_frame [simp]:
  "rt_current_thread (upd_timer x f k) = rt_current_thread k" "threads (upd_timer x f k) = threads k"
  "queues (upd_timer x f k) = queues k" "ready_priority_group (upd_timer x f k) = ready_priority_group k"
  "rt_timer_list (upd_timer x f k) = rt_timer_list k"
  "rt_soft_timer_list (upd_timer x f k) = rt_soft_timer_list k"
  "rt_tick (upd_timer x f k) = rt_tick k"
  "timers (upd_timer x f k) y = (if y = x then f (timers k x) else timers k y)"
  by (simp_all add: upd_timer_def)

lemma timer_remove_frame [simp]:
  "rt_current_thread (timer_remove x k) = rt_current_thread k" "threads (timer_remove x k) = threads k"
  "queues (timer_remove x k) = queues k" "ready_priority_group (timer_remove x k) = ready_priority_group k"
  "rt_timer_list (timer_remove x k) = list_del x (rt_timer_list k)"
  "rt_soft_timer_list (timer_remove x k) = list_del x (rt_soft_timer_list k)"
  "timers (timer_remove x k) = timers k" "rt_tick (timer_remove x k) = rt_tick k"
  by (simp_all add: timer_remove_def)

lemma kframe_timer [simp]: "kframe k (upd_timer x f k)" "kframe k (timer_remove x k)"
  by (simp_all add: kframe_def upd_timer_def timer_remove_def)

lemma linked_remove [simp]: "linked (timer_remove x k) y \<longleftrightarrow> y \<noteq> x \<and> linked k y"
  by (auto simp: linked_def)

lemma linked_upd_timer [simp]: "linked (upd_timer x f k) y = linked k y"
  by (simp add: linked_def)

lemma clear_activated_simps [simp]:
  "timer_on (clear_activated x k) y RT_TIMER_FLAG_ACTIVATED \<longleftrightarrow> y \<noteq> x \<and> timer_on k y RT_TIMER_FLAG_ACTIVATED"
  "timer_on (clear_activated x k) y RT_TIMER_FLAG_SOFT_TIMER \<longleftrightarrow> timer_on k y RT_TIMER_FLAG_SOFT_TIMER"
  "timer_on (clear_activated x k) y RT_TIMER_FLAG_PERIODIC \<longleftrightarrow> timer_on k y RT_TIMER_FLAG_PERIODIC"
  "timer_is_type (clear_activated x k) y = timer_is_type k y"
  "rt_object_is_systemobject (clear_activated x k) (OTimer y) = rt_object_is_systemobject k (OTimer y)"
  "timeout_func (timers (clear_activated x k) y) = timeout_func (timers k y)"
  "parameter (timers (clear_activated x k) y) = parameter (timers k y)"
  "init_tick (timers (clear_activated x k) y) = init_tick (timers k y)"
  "timeout_tick (timers (clear_activated x k) y) = timeout_tick (timers k y)"
  "thread_timer_ok (clear_activated x k) t = thread_timer_ok k t"
  using flag_bits [of "obj_flag (timers k x)"]
  by (auto simp del: flag_bits simp: clear_activated_def upd_timer_def timer_on_def timer_is_type_def
      rt_object_get_type_def rt_object_is_systemobject_def thread_timer_ok_def)

lemma clear_activated_frame [simp]:
  "rt_current_thread (clear_activated x k) = rt_current_thread k" "threads (clear_activated x k) = threads k"
  "queues (clear_activated x k) = queues k"
  "ready_priority_group (clear_activated x k) = ready_priority_group k"
  "rt_timer_list (clear_activated x k) = rt_timer_list k"
  "rt_soft_timer_list (clear_activated x k) = rt_soft_timer_list k"
  "rt_tick (clear_activated x k) = rt_tick k"
  "linked (clear_activated x k) y = linked k y" "kframe k (clear_activated x k)"
  by (simp_all add: clear_activated_def)


lemma timer_remove_same [simp]:
  "timer_on (timer_remove x k) y fl = timer_on k y fl"
  "timer_is_type (timer_remove x k) y = timer_is_type k y"
  "rt_object_is_systemobject (timer_remove x k) (OTimer y) = rt_object_is_systemobject k (OTimer y)"
  "thread_timer_ok (timer_remove x k) t = thread_timer_ok k t"
  by (rule same_timers; simp)+

lemma clear_activated_remove_inv:
  assumes inv: "tm_inv k"
  shows "tm_inv (clear_activated x (timer_remove x k))"
proof -
  let ?k = "clear_activated x (timer_remove x k)"
  have l: "linked ?k y \<longleftrightarrow> y \<noteq> x \<and> linked k y" for y by simp
  have th: "is_thread ?k t = is_thread k t" "tstat ?k t = tstat k t" for t
    by (simp_all add: is_thread_def tstat_def)
  note d = tm_invD [OF inv]
  show ?thesis
  proof (rule tm_invI)
    show "timer_on ?k y RT_TIMER_FLAG_ACTIVATED \<and> timer_is_type ?k y" if "linked ?k y" for y
      using that d(3,4) [of y] unfolding l by simp
    show "is_thread ?k t \<and> tstat ?k t = RT_THREAD_SUSPEND" if "linked ?k (ThreadTimer t)" for t
      using that d(8,9) [of t] unfolding l th by blast
    show "thread_timer_ok ?k t" if "is_thread ?k t" "tstat ?k t \<noteq> RT_THREAD_CLOSE" for t
      using that d(7) [of t] unfolding th by simp
    show "\<not> timer_on ?k y RT_TIMER_FLAG_SOFT_TIMER" if "y \<in> set (rt_timer_list ?k)" for y
      using that d(5) [of y] by simp
    show "timer_on ?k y RT_TIMER_FLAG_SOFT_TIMER" if "y \<in> set (rt_soft_timer_list ?k)" for y
      using that d(6) [of y] by simp
  qed (use d(1,2,10) in simp_all)
qed

lemma rt_timer_stop_ok:
  assumes inv: "tm_inv k" and ty: "timer_is_type k x"
  obtains r k' where "rt_timer_stop x k = Some (r, k')" "tm_inv k'" "\<not> linked k' x" "kframe k k'"
    "threads k' = threads k" "queues k' = queues k" "ready_priority_group k' = ready_priority_group k"
    "rt_current_thread k' = rt_current_thread k" "\<And>y. linked k' y \<Longrightarrow> linked k y"
    "\<And>y. timer_is_type k' y = timer_is_type k y"
proof (cases "timer_on k x RT_TIMER_FLAG_ACTIVATED")
  case False
  then have "\<not> linked k x" using tm_invD(3) [OF inv] by blast
  moreover have "rt_timer_stop x k = Some (- RT_ERROR, k)"
    using False ty by (simp add: rt_timer_stop_def timer_on_def)
  ultimately show ?thesis by (intro that [of "- RT_ERROR" k]) (simp_all add: inv)
next
  case True
  have ex: "rt_timer_stop x k = Some (RT_EOK, clear_activated x (timer_remove x k))"
    using True ty by (simp add: rt_timer_stop_def timer_on_def clear_activated_def)
  have "kframe k (clear_activated x (timer_remove x k))"
    using kframe_trans [OF kframe_timer(2) clear_activated_frame(9)] .
  moreover have "timer_is_type (clear_activated x (timer_remove x k)) y = timer_is_type k y" for y
    by simp
  moreover have "linked (clear_activated x (timer_remove x k)) y \<longleftrightarrow> y \<noteq> x \<and> linked k y" for y by simp
  ultimately show ?thesis
    by (intro that [OF ex clear_activated_remove_inv [OF inv]]) simp_all
qed

subsection \<open>Suspending and resuming\<close>

lemma cur_inv_cong:
  assumes "cur_inv k" "rt_current_thread k' = rt_current_thread k"
    "\<And>u. is_thread k' u = is_thread k u" "\<And>u. tstat k' u = tstat k u"
  shows "cur_inv k'"
  using assms(1) unfolding cur_inv_def assms(2-4) .

lemma cur_inv_update:
  assumes cu: "cur_inv k" and c: "rt_current_thread k' = rt_current_thread k"
    and th: "\<And>u. is_thread k' u = is_thread k u"
    and st: "\<And>u. tstat k' u = (if u = t then s else tstat k u)"
    and run: "s = RT_THREAD_RUNNING \<Longrightarrow> rt_current_thread k = Some t \<and> is_thread k t"
    and rdy: "rt_current_thread k = Some t \<Longrightarrow> s \<noteq> RT_THREAD_READY"
  shows "cur_inv k'"
proof -
  have "rt_current_thread k' = Some u" if "is_thread k' u" "tstat k' u = RT_THREAD_RUNNING" for u
    using that run cur_invD(1) [OF cu, of u] unfolding c th st by (cases "u = t") simp_all
  moreover have "tstat k' u \<noteq> RT_THREAD_READY \<and> (tstat k' u = RT_THREAD_RUNNING \<longrightarrow> is_thread k' u)"
    if "rt_current_thread k' = Some u" for u
    using that run rdy cur_invD(2,3) [OF cu, of u] unfolding c th st by (cases "u = t") simp_all
  ultimately show ?thesis unfolding cur_inv_def by blast
qed

text \<open>A ready or running thread taken off its queue and marked as suspended.\<close>

lemma suspend_marked:
  assumes inv: "kinv k" and th: "is_thread k t"
    and st: "tstat k t = RT_THREAD_READY \<or> tstat k t = RT_THREAD_RUNNING"
  obtains g k2 where "rt_schedule_remove_thread t k =
      Some (k\<lparr>queues := (\<lambda>q. list_del t (queues k q)), ready_priority_group := g\<rparr>)"
    "k2 = upd_thread t (set_stat RT_THREAD_SUSPEND) (k\<lparr>queues := (\<lambda>q. list_del t (queues k q)), ready_priority_group := g\<rparr>)"
    "sched_inv {t} k2"
    "cur_inv k2"
    "tm_inv k2"
    "sched_frame k k2"
    "\<And>u. tstat k2 u =
       (if u = t then RT_THREAD_SUSPEND else tstat k u)"
proof -
  note si = kinvD(1) [OF inv] and cu = kinvD(2) [OF inv] and ti = kinvD(3) [OF inv]
  obtain g where r: "rt_schedule_remove_thread t k =
      Some (k\<lparr>queues := (\<lambda>q. list_del t (queues k q)), ready_priority_group := g\<rparr>)"
    and i1: "sched_inv {t} (k\<lparr>queues := (\<lambda>q. list_del t (queues k q)), ready_priority_group := g\<rparr>)"
    using sched_inv_remove [OF si th] by blast
  let ?k1 = "k\<lparr>queues := (\<lambda>q. list_del t (queues k q)), ready_priority_group := g\<rparr>"
  let ?k2 = "upd_thread t (set_stat RT_THREAD_SUSPEND) ?k1"
  have fr: "sched_frame k ?k1" by (rule sched_frame_fields)
  have f2: "sched_frame k ?k2"
    using sched_frame_trans [OF fr sched_frame_upd_stat [OF set_stat_stat]] .
  note f2t = sched_frame_thread [OF f2]
  have ts: "tstat ?k2 u = (if u = t then RT_THREAD_SUSPEND else tstat k u)" for u
    using same_threads(2) [of ?k1 k u] by simp
  have m: "number_mask (threads k t) = push_bit (tprio k t) 1"
    using started_mask(1) [OF si th] st by auto
  have "thread_ok ?k1 t" using sched_invD(3) [OF i1] sched_frame_thread(7) [OF fr] th by simp
  then have i2: "sched_inv {t} ?k2"
    using i1 thread_ok_set_stat [of ?k1 t] m sched_frame_thread(4,8) [OF fr, of t]
    by (intro sched_inv_upd_thread) auto
  have c2: "cur_inv ?k2"
    by (rule cur_inv_update [OF cu _ f2t(7) ts]) simp_all
  have t2: "tm_inv ?k2"
  proof (rule tm_inv_same_timers [OF ti])
    show "is_thread ?k2 u = is_thread k u" for u by (rule f2t(7))
    show "tstat ?k2 u = RT_THREAD_SUSPEND" if "tstat k u = RT_THREAD_SUSPEND" for u
      unfolding ts using that by simp
    show "tstat ?k2 u = RT_THREAD_CLOSE" if "tstat k u = RT_THREAD_CLOSE" for u
      unfolding ts using that st by auto
  qed simp_all
  show ?thesis by (rule that [OF r refl i2 c2 t2 f2 ts])
qed

lemma rt_thread_suspend_ok:
  assumes inv: "kinv k" and th: "is_thread k t"
    and st: "tstat k t = RT_THREAD_READY \<or> tstat k t = RT_THREAD_RUNNING"
  obtains k' where "rt_thread_suspend t k = Some (RT_EOK, k')" "kinv k'" "sched_inv {t} k'"
    "kframe k k'" "rt_current_thread k' = rt_current_thread k" "\<not> linked k' (ThreadTimer t)"
    "\<And>u. tstat k' u = (if u = t then RT_THREAD_SUSPEND else tstat k u)"
    "queues k' = (\<lambda>q. list_del t (queues k q))"
    "\<And>y. linked k' y \<Longrightarrow> linked k y" "\<And>y. timer_is_type k' y = timer_is_type k y"
proof -
  note si = kinvD(1) [OF inv] and cu = kinvD(2) [OF inv] and ti = kinvD(3) [OF inv]
  have cur: "tstat k t = RT_THREAD_RUNNING \<Longrightarrow> rt_thread_self k = Some t"
    using cur_invD(1) [OF cu th] by (simp add: rt_thread_self_def)
  obtain g k2 where r: "rt_schedule_remove_thread t k =
      Some (k\<lparr>queues := (\<lambda>q. list_del t (queues k q)), ready_priority_group := g\<rparr>)"
    and k2: "k2 = upd_thread t (set_stat RT_THREAD_SUSPEND) (k\<lparr>queues := (\<lambda>q. list_del t (queues k q)), ready_priority_group := g\<rparr>)"
    and i2: "sched_inv {t} k2" and c2: "cur_inv k2" and t2: "tm_inv k2" and f2: "sched_frame k k2"
    and ts: "\<And>u. tstat k2 u = (if u = t then RT_THREAD_SUSPEND else tstat k u)"
    using suspend_marked [OF inv th st] by blast
  have tim: "timers k2 = timers k" and cq: "rt_current_thread k2 = rt_current_thread k" "queues k2 = (\<lambda>q. list_del t (queues k q))"
    by (simp_all add: k2)
  have ty: "timer_is_type k2 (ThreadTimer t)"
    using tm_invD(7) [OF ti th] st same_timers(2) [OF tim] by (auto simp: thread_timer_ok_def)
  obtain rr k3 where k3: "rt_timer_stop (ThreadTimer t) k2 = Some (rr, k3)" "tm_inv k3"
      "\<not> linked k3 (ThreadTimer t)" "kframe k2 k3" "threads k3 = threads k2"
      "queues k3 = queues k2" "ready_priority_group k3 = ready_priority_group k2"
      "rt_current_thread k3 = rt_current_thread k2" "\<And>y. linked k3 y \<Longrightarrow> linked k2 y"
      "\<And>y. timer_is_type k3 y = timer_is_type k2 y"
    using rt_timer_stop_ok [OF t2 ty] by metis
  have i3: "sched_inv {t} k3" using i2 sched_inv_cong [OF k3(5,6,7)] by simp
  have ts3: "tstat k3 u = (if u = t then RT_THREAD_SUSPEND else tstat k u)" for u
    using ts same_threads(2) [OF k3(5)] by simp
  have "sched_inv {} k3"
    using sched_inv_release [of t "{}" k3] i3 ts3 [of t] by simp
  moreover have "cur_inv k3"
    by (rule cur_inv_cong [OF c2 k3(8)]) (simp_all add: same_threads [OF k3(5)])
  ultimately have "kinv k3" using k3(2) by (simp add: kinv_def)
  moreover have "rt_thread_suspend t k = Some (RT_EOK, k3)"
    using st cur th r k3(1) [unfolded k2] by (auto simp: rt_thread_suspend_def Let_def)
  moreover have "kframe k k3" using kframe_trans [OF sched_frame_kframe [OF f2] k3(4)] .
  moreover have "linked k2 y = linked k y" "timer_is_type k2 y = timer_is_type k y" for y
    using same_timers(2) [OF tim] by (simp_all add: linked_def k2)
  ultimately show ?thesis
    using i3 k3(3,6,8-10) ts3 cq by (intro that [of k3]) simp_all
qed

lemma tlist_remove_suspended:
  assumes inv: "sched_inv {} k" and st: "tstat k t \<noteq> RT_THREAD_READY"
  shows "sched_inv {t} (tlist_remove t k)"
proof -
  let ?k = "tlist_remove t k"
  have q: "in_queue ?k u q \<longleftrightarrow> u \<noteq> t \<and> in_queue k u q" for u q
    by (auto simp: in_queue_def kdefs)
  have th: "threads ?k = threads k" by (simp add: kdefs)
  have nr: "t \<notin> set (queues k (Ready p))" for p
    using sched_invD(6) [OF inv, of t "Ready p"] st by (auto simp: in_queue_def)
  have "queues_ok ?k"
    using sched_invD(1) [OF inv] unfolding queues_ok_def q by (auto simp: kdefs)
  moreover have "group_ok ?k"
    using sched_invD(2) [OF inv] nr by (simp add: group_ok_def kdefs list_del_notin)
  ultimately show ?thesis
    using sched_invD(3,5) [OF inv] unfolding sched_inv_def placed_def same_threads [OF th] q by auto
qed

text \<open>
  A suspended thread that has left its waiting list and whose timer is off becomes ready, or
  running when it is still the current one.
\<close>

lemma insert_resumed:
  assumes i: "sched_inv {t} k" and cu: "cur_inv k" and ti: "tm_inv k" and th: "is_thread k t"
    and st: "tstat k t = RT_THREAD_SUSPEND" and nl: "\<not> linked k (ThreadTimer t)"
  obtains k' where "rt_schedule_insert_thread t k = Some k'" "kinv k'" "kframe k k'"
    "rt_current_thread k' = rt_current_thread k"
    "\<And>u. tstat k' u = (if u = t then (if rt_current_thread k = Some t then RT_THREAD_RUNNING
                         else RT_THREAD_READY) else tstat k u)"
    "\<And>q. queues k' q = (if rt_current_thread k \<noteq> Some t \<and> q = Ready (tprio k t)
                         then queues k q @ [t] else queues k q)"
    "\<And>x. linked k' x = linked k x"
proof -
  have "number_mask (threads k t) = push_bit (tprio k t) 1"
    using sched_invD(3) [OF i th] st by (simp add: thread_ok_def started_def)
  then obtain k' where k': "rt_schedule_insert_thread t k = Some k'" "sched_inv ({} - {t}) k'"
    "sched_frame k k'" "rt_current_thread k' = rt_current_thread k"
    and ts: "\<And>u. tstat k' u = (if u = t then (if rt_current_thread k = Some t then RT_THREAD_RUNNING
                         else RT_THREAD_READY) else tstat k u)"
    and q: "rt_current_thread k \<noteq> Some t \<Longrightarrow> queues k' =
       (queues k)(Ready (tprio k t) := queues k (Ready (tprio k t)) @ [t])"
    "rt_current_thread k = Some t \<Longrightarrow> queues k' = queues k"
    using rt_schedule_insert_thread_ok [OF i th] by metis
  note f = sched_frame_thread [OF k'(3)] and fd = sched_frameD [OF k'(3)]
  have l: "linked k' x = linked k x" for x by (simp add: linked_def fd)
  have c': "cur_inv k'"
    by (rule cur_inv_update [OF cu k'(4) f(7) ts]) (use th in \<open>auto split: if_splits\<close>)
  have t': "tm_inv k'"
  proof (rule tm_inv_same_timers [OF ti fd(1,2,3) f(7)])
    fix u assume "linked k (ThreadTimer u)" "tstat k u = RT_THREAD_SUSPEND"
    then show "tstat k' u = RT_THREAD_SUSPEND" using nl by (cases "u = t") (simp_all add: ts)
  next
    fix u assume "tstat k u = RT_THREAD_CLOSE"
    then show "tstat k' u = RT_THREAD_CLOSE" using st by (cases "u = t") (simp_all add: ts)
  qed
  have "sched_inv {} k'" using k'(2) by simp
  then have "kinv k'" using c' t' by (simp add: kinv_def)
  moreover have "queues k' r = (if rt_current_thread k \<noteq> Some t \<and> r = Ready (tprio k t)
                         then queues k r @ [t] else queues k r)" for r
    using q by (cases "rt_current_thread k = Some t") simp_all
  ultimately show ?thesis using that [OF k'(1) _ sched_frame_kframe [OF k'(3)] k'(4) ts _ l] by blast
qed

lemma tlist_remove_same [simp]:
  "is_thread (tlist_remove t k) u = is_thread k u" "tstat (tlist_remove t k) u = tstat k u"
  "tprio (tlist_remove t k) u = tprio k u" "linked (tlist_remove t k) x = linked k x"
  "kframe k (tlist_remove t k)" "rt_current_thread (tlist_remove t k) = rt_current_thread k"
  "queues (tlist_remove t k) q = list_del t (queues k q)" "timers (tlist_remove t k) = timers k"
  "timer_is_type (tlist_remove t k) x = timer_is_type k x"
  "rt_timer_list (tlist_remove t k) = rt_timer_list k"
  "rt_soft_timer_list (tlist_remove t k) = rt_soft_timer_list k"
  by (simp_all add: kdefs is_thread_def tstat_def tprio_def linked_def kframe_def timer_is_type_def
      rt_object_get_type_def)

lemma tlist_remove_inv:
  assumes inv: "kinv k" and st: "tstat k t = RT_THREAD_SUSPEND"
  shows "sched_inv {t} (tlist_remove t k)" "cur_inv (tlist_remove t k)" "tm_inv (tlist_remove t k)"
proof -
  show "sched_inv {t} (tlist_remove t k)"
    using tlist_remove_suspended [OF kinvD(1) [OF inv]] st by simp
  show "cur_inv (tlist_remove t k)"
    by (rule cur_inv_cong [OF kinvD(2) [OF inv]]) simp_all
  show "tm_inv (tlist_remove t k)"
    by (rule tm_inv_same_timers [OF kinvD(3) [OF inv]]) simp_all
qed

lemma rt_thread_resume_ok:
  assumes inv: "kinv k" and th: "is_thread k t" and st: "tstat k t = RT_THREAD_SUSPEND"
  obtains k' where "rt_thread_resume t k = Some (RT_EOK, k')" "kinv k'" "kframe k k'"
    "rt_current_thread k' = rt_current_thread k"
    "\<And>u. tstat k' u = (if u = t then (if rt_current_thread k = Some t then RT_THREAD_RUNNING
                         else RT_THREAD_READY) else tstat k u)"
    "\<And>q. queues k' q = (if rt_current_thread k \<noteq> Some t \<and> q = Ready (tprio k t)
                         then list_del t (queues k q) @ [t] else list_del t (queues k q))"
    "\<And>x. linked k' x \<Longrightarrow> linked k x"
proof -
  let ?k1 = "tlist_remove t k"
  note i1 = tlist_remove_inv [OF inv st]
  have ty: "timer_is_type ?k1 (ThreadTimer t)"
    using tm_invD(7) [OF kinvD(3) [OF inv] th] st by (simp add: thread_timer_ok_def)
  obtain r k2 where k2: "rt_timer_stop (ThreadTimer t) ?k1 = Some (r, k2)" "tm_inv k2"
      "\<not> linked k2 (ThreadTimer t)" "kframe ?k1 k2" "threads k2 = threads ?k1"
      "queues k2 = queues ?k1" "ready_priority_group k2 = ready_priority_group ?k1"
      "rt_current_thread k2 = rt_current_thread ?k1" and l2: "\<And>y. linked k2 y \<Longrightarrow> linked ?k1 y"
    using rt_timer_stop_ok [OF i1(3) ty] by metis
  note same = same_threads [OF k2(5)]
  have a: "sched_inv {t} k2" using i1(1) sched_inv_cong [OF k2(5,6,7)] by simp
  have b: "cur_inv k2" by (rule cur_inv_cong [OF i1(2) k2(8) same(1,2)])
  have c2: "is_thread k2 t" "tstat k2 t = RT_THREAD_SUSPEND" using th st same by simp_all
  obtain k' where k': "rt_schedule_insert_thread t k2 = Some k'" "kinv k'" "kframe k2 k'"
    "rt_current_thread k' = rt_current_thread k2"
    and ts: "\<And>u. tstat k' u = (if u = t then (if rt_current_thread k2 = Some t then RT_THREAD_RUNNING
                         else RT_THREAD_READY) else tstat k2 u)"
    and q: "\<And>q. queues k' q = (if rt_current_thread k2 \<noteq> Some t \<and> q = Ready (tprio k2 t)
                         then queues k2 q @ [t] else queues k2 q)"
    and l: "\<And>x. linked k' x = linked k2 x"
    by (rule insert_resumed [OF a b k2(2) c2 k2(3)]) blast
  have f: "kframe k k'"
    using kframe_trans [OF kframe_trans [OF tlist_remove_same(5) k2(4)] k'(3)] .
  have c: "rt_current_thread k2 = rt_current_thread k" using k2(8) by simp
  show ?thesis
  proof (rule that [OF _ k'(2) f])
    show "rt_thread_resume t k = Some (RT_EOK, k')"
      using th st k2(1) k'(1) by (simp add: rt_thread_resume_def)
    show "rt_current_thread k' = rt_current_thread k" using k'(4) c by simp
    show "tstat k' u = (if u = t then (if rt_current_thread k = Some t then RT_THREAD_RUNNING
                         else RT_THREAD_READY) else tstat k u)" for u
      using ts [of u] c same(2) [of u] by simp
    show "queues k' r = (if rt_current_thread k \<noteq> Some t \<and> r = Ready (tprio k t)
                         then list_del t (queues k r) @ [t] else list_del t (queues k r))" for r
      using q [of r] c same(3) [of t] k2(6) by simp
    show "linked k x" if "linked k' x" for x using that l [of x] l2 [of x] by simp
  qed
qed

text \<open>A change of a thread that the invariant does not look at.\<close>

definition harmless :: "(rt_thread \<Rightarrow> rt_thread) \<Rightarrow> bool" where
  "harmless f \<longleftrightarrow> (\<forall>th. obj_type (f th) = obj_type th \<and> stat (f th) AND RT_THREAD_STAT_MASK = stat th AND RT_THREAD_STAT_MASK \<and>
     current_priority (f th) = current_priority th \<and> init_priority (f th) = init_priority th \<and>
     number_mask (f th) = number_mask th \<and> scheduler_stack_ok (f th) = scheduler_stack_ok th)"

lemma harmless_upd:
  assumes "harmless f"
  shows "is_thread (upd_thread t f k) u = is_thread k u" "tstat (upd_thread t f k) u = tstat k u"
    "tprio (upd_thread t f k) u = tprio k u" "thread_ok (upd_thread t f k) u = thread_ok k u"
  using assms by (simp_all add: harmless_def is_thread_def tstat_upd_thread tprio_upd_thread thread_ok_def
      started_def) (simp_all add: upd_thread_def tstat_def tprio_def)

lemma kinv_view:
  assumes th: "\<And>u. is_thread k' u = is_thread k u" "\<And>u. tstat k' u = tstat k u"
    "\<And>u. tprio k' u = tprio k u" "\<And>u. thread_ok k' u = thread_ok k u"
    and k: "queues k' = queues k" "ready_priority_group k' = ready_priority_group k"
    "rt_current_thread k' = rt_current_thread k" "timers k' = timers k"
    "rt_timer_list k' = rt_timer_list k" "rt_soft_timer_list k' = rt_soft_timer_list k"
    and inv: "kinv k"
  shows "kinv k'"
proof -
  have ad: "admits k' q u = admits k q u" for q u by (cases q) (simp_all add: th)
  have iq: "in_queue k' u q = in_queue k u q" for u q by (simp add: in_queue_def k)
  have "sched_inv {} k'"
    using kinvD(1) [OF inv]
    unfolding sched_inv_def placed_def queues_ok_def group_ok_def th ad iq k .
  moreover have "cur_inv k'" by (rule cur_inv_cong [OF kinvD(2) [OF inv] k(3) th(1,2)])
  moreover have "tm_inv k'"
    by (rule tm_inv_same_timers [OF kinvD(3) [OF inv] k(4-6) th(1)]) (simp_all add: th)
  ultimately show ?thesis by (simp add: kinv_def)
qed

lemma kinv_upd_thread:
  assumes "harmless f" "kinv k"
  shows "kinv (upd_thread t f k)"
  by (rule kinv_view [OF harmless_upd [OF assms(1)] _ _ _ _ _ _ assms(2)]) simp_all

lemma harmless_error [simp]: "harmless (thread_error_update f)"
  by (simp add: harmless_def scheduler_stack_ok_def)

lemma set_error_simps [simp]:
  "kinv k \<Longrightarrow> kinv (set_error t e k)" "is_thread (set_error t e k) u = is_thread k u"
  "tstat (set_error t e k) u = tstat k u" "tprio (set_error t e k) u = tprio k u"
  "queues (set_error t e k) = queues k" "rt_current_thread (set_error t e k) = rt_current_thread k"
  "linked (set_error t e k) x = linked k x" "timers (set_error t e k) = timers k"
  "rt_timer_list (set_error t e k) = rt_timer_list k"
  "rt_soft_timer_list (set_error t e k) = rt_soft_timer_list k"
  "sems (set_error t e k) = sems k" "mutexes (set_error t e k) = mutexes k"
  "events (set_error t e k) = events k" "mailboxes (set_error t e k) = mailboxes k"
  "msgqueues (set_error t e k) = msgqueues k" "mempools (set_error t e k) = mempools k" "devices (set_error t e k) = devices k"
  "rt_tick (set_error t e k) = rt_tick k" "interrupt_nest (set_error t e k) = interrupt_nest k"
  "scheduler_lock_nest (set_error t e k) = scheduler_lock_nest k"
  "thread_error (threads (set_error t e k) u) = (if u = t then e else thread_error (threads k u))"
  "current_priority (threads (set_error t e k) u) = current_priority (threads k u)"
  "obj_type (threads (set_error t e k) u) = obj_type (threads k u)"
  by (simp_all add: set_error_def kinv_upd_thread harmless_upd linked_def) (simp_all add: upd_thread_def)

lemma rt_thread_timeout_ok:
  assumes inv: "kinv k" and th: "is_thread k t" and st: "tstat k t = RT_THREAD_SUSPEND"
    and nl: "\<not> linked k (ThreadTimer t)" and cur: "rt_current_thread k \<noteq> None"
  obtains k' where "rt_thread_timeout t k = Some k'" "kinv k'" "thread_error (threads k' t) = - RT_ETIMEOUT"
    "rt_current_thread k' \<noteq> None" "kframe (set_error t (- RT_ETIMEOUT) k) k'"
    "tstat k' t \<in> {RT_THREAD_READY, RT_THREAD_RUNNING}"
    "\<And>x. linked k' x = linked k x" "scheduler_lock_nest k = 0 \<Longrightarrow> runs_highest k'"
proof -
  define k1 where "k1 = set_error t (- RT_ETIMEOUT) k"
  have i1: "kinv k1" and t1: "is_thread k1 t" "tstat k1 t = RT_THREAD_SUSPEND"
    and n1: "\<not> linked (tlist_remove t k1) (ThreadTimer t)" and c1: "rt_current_thread k1 = rt_current_thread k"
    using inv th st nl by (simp_all add: k1_def)
  note ri = tlist_remove_inv [OF i1 t1(2)]
  have t2: "is_thread (tlist_remove t k1) t" "tstat (tlist_remove t k1) t = RT_THREAD_SUSPEND"
    using t1 by simp_all
  obtain k2 where k2: "rt_schedule_insert_thread t (tlist_remove t k1) = Some k2" "kinv k2"
    "kframe (tlist_remove t k1) k2" "rt_current_thread k2 = rt_current_thread (tlist_remove t k1)"
    and ts: "\<And>u. tstat k2 u = (if u = t then (if rt_current_thread (tlist_remove t k1) = Some t
       then RT_THREAD_RUNNING else RT_THREAD_READY) else tstat (tlist_remove t k1) u)"
    and l2: "\<And>x. linked k2 x = linked (tlist_remove t k1) x"
    by (rule insert_resumed [OF ri(1,2,3) t2 n1]) blast
  have fr: "kframe k1 k2" using kframe_trans [OF tlist_remove_same(5) k2(3)] .
  have c2: "rt_current_thread k2 \<noteq> None" using k2(4) c1 cur by simp
  obtain k3 where k3: "rt_schedule k2 = Some k3" "kinv k3" "schedule_post k2 k3" "kframe k2 k3"
    using rt_schedule_kinv [OF k2(2) c2] by blast
  then have p3: "sched_frame k2 k3" "rt_current_thread k3 \<noteq> None"
      "scheduler_lock_nest k2 = 0 \<Longrightarrow> runs_highest k3"
    and s3: "tstat k3 t = tstat k2 t \<or> {tstat k2 t, tstat k3 t} = {RT_THREAD_READY, RT_THREAD_RUNNING}"
    unfolding schedule_post_def by blast+
  have f: "kframe k1 k3" using kframe_trans [OF fr k3(4)] .
  show ?thesis
  proof (rule that [of k3])
    show "rt_thread_timeout t k = Some k3"
      using st th k2(1) k3(1) by (simp add: rt_thread_timeout_def k1_def set_error_def)
    show "thread_error (threads k3 t) = - RT_ETIMEOUT"
      using kframe_thread(4) [OF f, of t] by (simp add: k1_def)
    show "tstat k3 t \<in> {RT_THREAD_READY, RT_THREAD_RUNNING}"
      using s3 ts [of t] by (auto simp: doubleton_eq_iff split: if_splits)
    show "linked k3 x = linked k x" for x
      using l2 [of x] sched_frameD(2,3) [OF p3(1)] by (simp add: linked_def k1_def)
    show "scheduler_lock_nest k = 0 \<Longrightarrow> runs_highest k3"
      using p3(3) kframeD(10) [OF fr] by (simp add: k1_def)
  qed (use k3 p3 f in \<open>simp_all add: k1_def\<close>)
qed

subsection \<open>Starting a timer\<close>

lemma set_timer_insert [simp]: "set (timer_insert tick x ys) = insert x (set ys)"
  by (induction tick x ys rule: timer_insert.induct) auto

lemma distinct_timer_insert [simp]: "distinct (timer_insert tick x ys) \<longleftrightarrow> x \<notin> set ys \<and> distinct ys"
  by (induction tick x ys rule: timer_insert.induct) auto

lemma timer_link_simps [simp]:
  "threads (timer_link x k) = threads k" "queues (timer_link x k) = queues k"
  "ready_priority_group (timer_link x k) = ready_priority_group k"
  "rt_current_thread (timer_link x k) = rt_current_thread k" "kframe k (timer_link x k)"
  "rt_tick (timer_link x k) = rt_tick k"
  "timers (timer_link x k) = (timers k)(x := (timers k x)\<lparr>obj_flag := obj_flag (timers k x) OR RT_TIMER_FLAG_ACTIVATED\<rparr>)"
  "rt_timer_list (timer_link x k) = (if timer_on k x RT_TIMER_FLAG_SOFT_TIMER then rt_timer_list k
     else timer_insert (\<lambda>y. timeout_tick (timers k y)) x (rt_timer_list k))"
  "rt_soft_timer_list (timer_link x k) = (if timer_on k x RT_TIMER_FLAG_SOFT_TIMER
     then timer_insert (\<lambda>y. timeout_tick (timers k y)) x (rt_soft_timer_list k) else rt_soft_timer_list k)"
  by (auto simp: timer_link_def Let_def timer_on_def kframe_def upd_timer_def)

lemma timer_link_same:
  shows "timer_on (timer_link x k) y RT_TIMER_FLAG_SOFT_TIMER = timer_on k y RT_TIMER_FLAG_SOFT_TIMER"
    "timer_on (timer_link x k) y RT_TIMER_FLAG_PERIODIC = timer_on k y RT_TIMER_FLAG_PERIODIC"
    "timer_on (timer_link x k) y RT_TIMER_FLAG_ACTIVATED \<longleftrightarrow> y = x \<or> timer_on k y RT_TIMER_FLAG_ACTIVATED"
    "timer_is_type (timer_link x k) y = timer_is_type k y"
    "thread_timer_ok (timer_link x k) t = thread_timer_ok k t"
    "linked (timer_link x k) y \<longleftrightarrow> y = x \<or> linked k y"
    "is_thread (timer_link x k) t = is_thread k t" "tstat (timer_link x k) t = tstat k t"
    "timeout_func (timers (timer_link x k) y) = timeout_func (timers k y)"
  using flag_bits(4-6) [of "obj_flag (timers k x)"]
  by (auto simp: timer_on_def timer_is_type_def rt_object_get_type_def thread_timer_ok_def linked_def
      rt_object_is_systemobject_def is_thread_def tstat_def)

lemma timer_link_inv:
  assumes inv: "tm_inv k" and nl: "\<not> linked k x" and ty: "timer_is_type k x"
    and th: "\<And>t. x = ThreadTimer t \<Longrightarrow> is_thread k t \<and> tstat k t = RT_THREAD_SUSPEND"
  shows "tm_inv (timer_link x k)"
proof (rule tm_invI)
  note d = tm_invD [OF inv]
  have nl': "x \<notin> set (rt_timer_list k)" "x \<notin> set (rt_soft_timer_list k)"
    using nl by (auto simp: linked_def)
  show "distinct (rt_timer_list (timer_link x k))" "distinct (rt_soft_timer_list (timer_link x k))"
    using d(1,2) nl' by simp_all
  show "timer_on (timer_link x k) y RT_TIMER_FLAG_ACTIVATED \<and> timer_is_type (timer_link x k) y"
    if "linked (timer_link x k) y" for y
    using that ty d(3,4) [of y] unfolding timer_link_same by blast
  show "\<not> timer_on (timer_link x k) y RT_TIMER_FLAG_SOFT_TIMER"
    if "y \<in> set (rt_timer_list (timer_link x k))" for y
    using that d(5) [of y] unfolding timer_link_same by (auto split: if_splits)
  show "timer_on (timer_link x k) y RT_TIMER_FLAG_SOFT_TIMER"
    if "y \<in> set (rt_soft_timer_list (timer_link x k))" for y
    using that d(6) [of y] unfolding timer_link_same by (auto split: if_splits)
  show "thread_timer_ok (timer_link x k) t"
    if "is_thread (timer_link x k) t" "tstat (timer_link x k) t \<noteq> RT_THREAD_CLOSE" for t
    using that d(7) [of t] unfolding timer_link_same by blast
  show "is_thread (timer_link x k) t \<and> tstat (timer_link x k) t = RT_THREAD_SUSPEND"
    if "linked (timer_link x k) (ThreadTimer t)" for t
    using that th [of t] d(8,9) [of t] unfolding timer_link_same by blast
  show "timeout_func (timers (timer_link x k) (UserTimer u)) \<noteq> Thread_timeout" for u
    using d(10) [of u] unfolding timer_link_same .
qed

text \<open>A change of a timer's times only.\<close>

definition times_only :: "(rt_timer \<Rightarrow> rt_timer) \<Rightarrow> bool" where
  "times_only f \<longleftrightarrow> (\<forall>tm. obj_flag (f tm) = obj_flag tm \<and> obj_type (f tm) = obj_type tm \<and>
     timeout_func (f tm) = timeout_func tm \<and> parameter (f tm) = parameter tm)"

lemma times_only_upd [simp]:
  "times_only (timeout_tick_update g)" "times_only (init_tick_update g)"
  "times_only (\<lambda>tm. tm\<lparr>timeout_tick := h tm\<rparr>)"
  by (simp_all add: times_only_def)

lemma times_only_same:
  assumes "times_only f"
  shows "timer_on (upd_timer x f k) y fl = timer_on k y fl"
    "timer_is_type (upd_timer x f k) y = timer_is_type k y"
    "thread_timer_ok (upd_timer x f k) t = thread_timer_ok k t"
    "timeout_func (timers (upd_timer x f k) y) = timeout_func (timers k y)"
  using assms by (auto simp: times_only_def timer_on_def timer_is_type_def rt_object_get_type_def
      thread_timer_ok_def rt_object_is_systemobject_def)

lemma upd_timer_threads [simp]:
  "is_thread (upd_timer x f k) t = is_thread k t" "tstat (upd_timer x f k) t = tstat k t"
  "is_thread (timer_remove x k) t = is_thread k t" "tstat (timer_remove x k) t = tstat k t"
  "is_thread (clear_activated x k) t = is_thread k t" "tstat (clear_activated x k) t = tstat k t"
  by (simp_all add: is_thread_def tstat_def)

lemma times_only_inv:
  assumes f: "times_only f" and inv: "tm_inv k"
  shows "tm_inv (upd_timer x f k)"
  using inv unfolding tm_inv_def times_only_same [OF f] by simp

text \<open>The state that \<open>rt_timer_start\<close> leaves, before it wakes the timer thread.\<close>

definition timer_started :: "timer_id \<Rightarrow> kernel \<Rightarrow> kernel" where
  "timer_started x k = timer_link x (upd_timer x (\<lambda>tm. tm\<lparr>timeout_tick := rt_tick k + init_tick tm\<rparr>)
     (clear_activated x (timer_remove x k)))"

lemma kinv_timers:
  assumes inv: "kinv k" and t: "tm_inv k'"
    and s: "threads k' = threads k" "queues k' = queues k"
    "ready_priority_group k' = ready_priority_group k" "rt_current_thread k' = rt_current_thread k"
  shows "kinv k'"
  using kinvD(1,2) [OF inv] t sched_inv_cong [OF s(1-3)] cur_inv_cong [OF _ s(4) same_threads(1,2) [OF s(1)]]
  by (simp add: kinv_def)

lemma timer_started_inv:
  assumes inv: "kinv k" and ty: "timer_is_type k x"
    and th: "\<And>t. x = ThreadTimer t \<Longrightarrow> is_thread k t \<and> tstat k t = RT_THREAD_SUSPEND"
  shows "kinv (timer_started x k)"
proof -
  let ?k1 = "clear_activated x (timer_remove x k)"
  let ?f = "\<lambda>tm. tm\<lparr>timeout_tick := rt_tick k + init_tick tm\<rparr>"
  have f: "times_only ?f" by simp
  have "tm_inv (upd_timer x ?f ?k1)"
    by (rule times_only_inv [OF f clear_activated_remove_inv [OF kinvD(3) [OF inv]]])
  then have "tm_inv (timer_started x k)"
    unfolding timer_started_def
    by (rule timer_link_inv) (use ty th in \<open>simp_all add: times_only_same [OF f]\<close>)
  then show ?thesis
    by (rule kinv_timers [OF inv]) (simp_all add: timer_started_def)
qed

lemma rt_timer_start_eq:
  assumes "timer_is_type k x" "init_tick (timers k x) < RT_TICK_HALF"
  shows "rt_timer_start x k =
    (if timer_on k x RT_TIMER_FLAG_SOFT_TIMER \<and> tstat k timer_thread = RT_THREAD_SUSPEND
     then do { (_, k3) \<leftarrow> rt_thread_resume timer_thread (timer_started x k); k4 \<leftarrow> rt_schedule k3; Some (RT_EOK, k4) }
     else Some (RT_EOK, timer_started x k))"
proof -
  have "timer_on (timer_started x k) x RT_TIMER_FLAG_SOFT_TIMER = timer_on k x RT_TIMER_FLAG_SOFT_TIMER"
    "tstat (timer_started x k) t = tstat k t" for t
    unfolding timer_started_def timer_link_same by (simp_all add: times_only_same)
  then show ?thesis using assms
    by (simp add: rt_timer_start_def Let_def timer_started_def timer_on_def)
qed


text \<open>Starting a timer of any kind keeps the invariant.\<close>

lemma timer_started_frame [simp]:
  "threads (timer_started x k) = threads k" "queues (timer_started x k) = queues k"
  "rt_current_thread (timer_started x k) = rt_current_thread k" "kframe k (timer_started x k)"
  "linked (timer_started x k) y \<longleftrightarrow> y = x \<or> linked k y"
  "is_thread (timer_started x k) t = is_thread k t" "tstat (timer_started x k) t = tstat k t"
proof -
  show "kframe k (timer_started x k)"
    unfolding timer_started_def
    by (rule kframe_trans [OF kframe_trans [OF kframe_trans [OF kframe_timer(2) clear_activated_frame(9)]
          kframe_timer(1)] timer_link_simps(5)])
qed (auto simp: timer_started_def timer_link_same)

lemma rt_timer_start_ok:
  assumes inv: "kinv k" and ty: "timer_is_type k x" and it: "init_tick (timers k x) < RT_TICK_HALF"
    and th: "\<And>t. x = ThreadTimer t \<Longrightarrow> is_thread k t \<and> tstat k t = RT_THREAD_SUSPEND"
    and soft: "timer_on k x RT_TIMER_FLAG_SOFT_TIMER \<Longrightarrow>
      is_thread k timer_thread \<and> rt_current_thread k \<noteq> None"
  obtains k' where "rt_timer_start x k = Some (RT_EOK, k')" "kinv k'" "kframe k k'"
    "\<not> timer_on k x RT_TIMER_FLAG_SOFT_TIMER \<Longrightarrow> k' = timer_started x k"
    "rt_current_thread k \<noteq> None \<Longrightarrow> rt_current_thread k' \<noteq> None"
proof -
  note st = timer_started_inv [OF inv ty th]
  note eq = rt_timer_start_eq [OF ty it]
  show ?thesis
  proof (cases "timer_on k x RT_TIMER_FLAG_SOFT_TIMER \<and> tstat k timer_thread = RT_THREAD_SUSPEND")
    case False
    then show ?thesis using st eq by (intro that [of "timer_started x k"]) auto
  next
    case True
    then have tt: "is_thread (timer_started x k) timer_thread"
      "tstat (timer_started x k) timer_thread = RT_THREAD_SUSPEND" using soft by simp_all
    obtain k3 where k3: "rt_thread_resume timer_thread (timer_started x k) = Some (RT_EOK, k3)" "kinv k3"
      "kframe (timer_started x k) k3" "rt_current_thread k3 = rt_current_thread (timer_started x k)"
      using rt_thread_resume_ok [OF st tt] by metis
    have c: "rt_current_thread k3 \<noteq> None" using k3(4) soft True by simp
    obtain k4 where k4: "rt_schedule k3 = Some k4" "kinv k4" "schedule_post k3 k4" "kframe k3 k4"
      using rt_schedule_kinv [OF k3(2) c] by blast
    show ?thesis
    proof (rule that [of k4])
      show "rt_timer_start x k = Some (RT_EOK, k4)" using eq True k3(1) k4(1) by simp
      show "kframe k k4"
        using kframe_trans [OF kframe_trans [OF timer_started_frame(4) k3(3)] k4(4)] .
    qed (use True k4 in \<open>simp_all add: schedule_post_def\<close>)
  qed
qed

subsection \<open>Waiting and waking\<close>

text \<open>
  A timeout argument is a number of ticks to wait, 0 for no waiting, or negative for waiting
  forever; the timer accepts less than half of the tick range.
\<close>

definition timeout_ok :: "u32 \<Rightarrow> bool" where
  "timeout_ok time \<longleftrightarrow> sint time \<le> 0 \<or> time < RT_TICK_HALF"

lemma set_prio_insert [simp]: "set (prio_insert prio t ss) = insert t (set ss)"
  by (induction ss) auto

lemma distinct_prio_insert [simp]: "distinct (prio_insert prio t ss) \<longleftrightarrow> t \<notin> set ss \<and> distinct ss"
  by (induction ss) auto

definition waiting_queue :: "queue \<Rightarrow> bool" where
  "waiting_queue q \<longleftrightarrow>
     (\<exists>ob. q = Suspended ob \<or> q = Senders ob) \<or> (\<exists>n. q = Completing n \<or> q = Pushers n \<or> q = Poppers n)"

lemma waiting_queue_simps [simp]:
  "waiting_queue (Suspended ob)" "waiting_queue (Senders ob)" "waiting_queue (Completing n)"
  "waiting_queue (Pushers n)" "waiting_queue (Poppers n)" "\<not> waiting_queue (Ready p)" "\<not> waiting_queue Defunct"
  by (simp_all add: waiting_queue_def)

text \<open>The waiting list after a thread has been put on it.\<close>

definition wait_insert :: "u8 \<Rightarrow> (tid \<Rightarrow> u8) \<Rightarrow> tid \<Rightarrow> tid list \<Rightarrow> tid list" where
  "wait_insert flag prio t ts =
     (if flag = RT_IPC_FLAG_FIFO then ts @ [t]
      else if flag = RT_IPC_FLAG_PRIO then prio_insert prio t ts else ts)"

lemma enqueue_waiting:
  assumes i: "sched_inv {t} k" and cu: "cur_inv k" and ti: "tm_inv k" and th: "is_thread k t"
    and st: "tstat k t = RT_THREAD_SUSPEND" and q: "waiting_queue q"
    and ts: "set ts = insert t (set (queues k q))" "distinct ts"
  shows "kinv (k\<lparr>queues := (queues k)(q := ts)\<rparr>)"
proof -
  let ?k = "k\<lparr>queues := (queues k)(q := ts)\<rparr>"
  have "sched_inv ({} - {t}) ?k"
  proof (rule sched_inv_enqueue [OF i _ _ ts])
    show "admits k q t" using q th st by (auto simp: waiting_queue_def)
    show "bit (ready_priority_group ?k) p \<longleftrightarrow> bit (ready_priority_group k) p \<or> q = Ready p" for p
      using q by auto
  qed (use st in auto)
  moreover have "cur_inv ?k" by (rule cur_inv_cong [OF cu]) (simp_all add: is_thread_def tstat_def)
  moreover have "tm_inv ?k"
    by (rule tm_inv_same_timers [OF ti]) (simp_all add: is_thread_def tstat_def)
  ultimately show ?thesis by (simp add: kinv_def)
qed

lemma not_waiting:
  assumes "sched_inv X k" "tstat k t \<noteq> RT_THREAD_SUSPEND" "waiting_queue q"
  shows "t \<notin> set (queues k q)"
  using sched_invD(6) [OF assms(1), of t q] assms(2,3) by (auto simp: waiting_queue_def in_queue_def)

lemma rt_ipc_list_suspend_ok:
  assumes inv: "kinv k" and th: "is_thread k t"
    and st: "tstat k t = RT_THREAD_READY \<or> tstat k t = RT_THREAD_RUNNING" and q: "waiting_queue q"
  obtains k' where "rt_ipc_list_suspend q t flag k = Some k'" "kinv k'" "kframe k k'"
    "rt_current_thread k' = rt_current_thread k" "\<not> linked k' (ThreadTimer t)"
    "\<And>u. tstat k' u = (if u = t then RT_THREAD_SUSPEND else tstat k u)"
    "queues k' q = wait_insert flag (\<lambda>s. current_priority (threads k s)) t (queues k q)"
    "\<And>r. r \<noteq> q \<Longrightarrow> queues k' r = list_del t (queues k r)"
proof -
  obtain k1 where k1: "rt_thread_suspend t k = Some (RT_EOK, k1)" "kinv k1" "sched_inv {t} k1"
    "kframe k k1" "rt_current_thread k1 = rt_current_thread k" "\<not> linked k1 (ThreadTimer t)"
    and ts: "\<And>u. tstat k1 u = (if u = t then RT_THREAD_SUSPEND else tstat k u)"
    and qs: "queues k1 = (\<lambda>q. list_del t (queues k q))"
    by (rule rt_thread_suspend_ok [OF inv th st]) blast
  have nq: "t \<notin> set (queues k q)" using not_waiting [OF kinvD(1) [OF inv] _ q] st by auto
  have q1: "queues k1 q = queues k q" using nq by (simp add: qs list_del_notin)
  define W where "W = wait_insert flag (\<lambda>s. current_priority (threads k s)) t (queues k q)"
  define k2 where "k2 = k1\<lparr>queues := (queues k1)(q := W)\<rparr>"
  have pr: "current_priority (threads k1 s) = current_priority (threads k s)" for s
    using kframe_thread(2) [OF k1(4)] .
  have ex: "rt_ipc_list_suspend q t flag k = Some k2"
    using k1(1) q1 fun_upd_triv [of "queues k1" q]
    by (auto simp: rt_ipc_list_suspend_def wait_insert_def k2_def W_def pr tlist_insert_before_def)
  have "kinv k2"
  proof (cases "flag = RT_IPC_FLAG_FIFO \<or> flag = RT_IPC_FLAG_PRIO")
    case True
    have d: "distinct (queues k q)" using sched_invD(1) [OF kinvD(1) [OF inv]] by (simp add: queues_ok_def)
    show ?thesis unfolding k2_def
    proof (rule enqueue_waiting [OF k1(3) kinvD(2,3) [OF k1(2)] _ _ q])
      show "is_thread k1 t" using th kframe_thread(7) [OF k1(4)] by simp
      show "set W = insert t (set (queues k1 q))" "distinct W"
        using True nq d by (auto simp: W_def wait_insert_def q1)
    qed (use ts in simp)
  next
    case False
    then have "k2 = k1" using q1 fun_upd_triv [of "queues k1" q] by (simp add: k2_def W_def wait_insert_def)
    then show ?thesis using k1(2) by simp
  qed
  moreover have "kframe k k2" using k1(4) by (simp add: k2_def kframe_def)
  ultimately show ?thesis
  proof (rule that [OF ex])
    show "tstat k2 u = (if u = t then RT_THREAD_SUSPEND else tstat k u)" for u
      using ts [of u] by (simp add: k2_def tstat_def)
    show "\<not> linked k2 (ThreadTimer t)" using k1(6) by (simp add: k2_def linked_def)
    show "queues k2 r = list_del t (queues k r)" if "r \<noteq> q" for r
      using that by (simp add: k2_def qs)
  qed (simp_all add: k2_def W_def k1(5))
qed

text \<open>The timer of a thread that has been put on a waiting list, started when there is a timeout.\<close>

definition start_wait_timer :: "tid \<Rightarrow> u32 \<Rightarrow> kernel \<Rightarrow> kernel option" where
  "start_wait_timer t time k =
     (if sint time > 0 then do {
        (_, k1) \<leftarrow> rt_timer_control (ThreadTimer t) (CTRL_SET_TIME time) k;
        (_, k2) \<leftarrow> rt_timer_start (ThreadTimer t) k1;
        Some k2
      }
      else Some k)"

lemma start_wait_timer_ok:
  assumes k1: "kinv k" "is_thread k t" "tstat k t = RT_THREAD_SUSPEND" "\<not> linked k (ThreadTimer t)" and to: "timeout_ok time"
  obtains k' where "start_wait_timer t time k = Some k'" "kinv k'" "kframe k k'"
    "rt_current_thread k' = rt_current_thread k" "\<And>u. tstat k' u = tstat k u" "queues k' = queues k"
    "linked k' (ThreadTimer t) \<longleftrightarrow> sint time > 0"
    "sint time > 0 \<Longrightarrow> timeout_tick (timers k' (ThreadTimer t)) = rt_tick k + time"
proof (cases "sint time > 0")
  case False
  show ?thesis
    by (rule that [of k]) (use False k1 in \<open>simp_all add: start_wait_timer_def\<close>)
next
  case True
  let ?x = "ThreadTimer t"
  let ?k2 = "upd_timer ?x (init_tick_update (\<lambda>_. time)) k"
  have tt: "thread_timer_ok k t" using tm_invD(7) [OF kinvD(3) [OF k1(1)] k1(2)] k1(3) by simp
  then have ty: "timer_is_type k ?x" "timer_is_type ?k2 ?x" "\<not> timer_on ?k2 ?x RT_TIMER_FLAG_SOFT_TIMER"
    by (simp_all add: thread_timer_ok_def times_only_same)
  have i2: "kinv ?k2"
    by (rule kinv_timers [OF k1(1) times_only_inv [OF _ kinvD(3) [OF k1(1)]]]) simp_all
  have it: "init_tick (timers ?k2 ?x) < RT_TICK_HALF" using True to by (simp add: timeout_ok_def)
  have s2: "is_thread ?k2 u \<and> tstat ?k2 u = RT_THREAD_SUSPEND" if "?x = ThreadTimer u" for u
    using that k1(2,3) by simp
  obtain k3 where k3: "rt_timer_start ?x ?k2 = Some (RT_EOK, k3)" "kinv k3" "k3 = timer_started ?x ?k2"
    using rt_timer_start_ok [OF i2 ty(2) it s2] ty(3) by metis
  have ex: "start_wait_timer t time k = Some k3"
    using True k3(1) ty(1) by (simp add: start_wait_timer_def rt_timer_control_def)
  show ?thesis
  proof (rule that [OF ex k3(2)])
    show "kframe k k3"
      using kframe_trans [OF kframe_timer(1) timer_started_frame(4)] k3(3) by simp
    show "tstat k3 u = tstat k u" for u by (simp add: k3(3))
    show "linked k3 ?x \<longleftrightarrow> sint time > 0" using True by (simp add: k3(3))
    show "timeout_tick (timers k3 ?x) = rt_tick k + time"
      by (simp add: k3(3) timer_started_def clear_activated_def)
  qed (simp_all add: k3(3))
qed

text \<open>Waiting: the thread is suspended on the list, and its timer runs when there is a timeout.\<close>

lemma ipc_wait_ok:
  assumes inv: "kinv k" and th: "is_thread k t"
    and st: "tstat k t = RT_THREAD_READY \<or> tstat k t = RT_THREAD_RUNNING"
    and q: "waiting_queue q" and to: "timeout_ok time"
  obtains k' where "ipc_wait q t flag time k = Some k'" "kinv k'" "kframe k k'"
    "rt_current_thread k' = rt_current_thread k"
    "\<And>u. tstat k' u = (if u = t then RT_THREAD_SUSPEND else tstat k u)"
    "queues k' q = wait_insert flag (\<lambda>s. current_priority (threads k s)) t (queues k q)"
    "\<And>r. r \<noteq> q \<Longrightarrow> queues k' r = list_del t (queues k r)"
    "linked k' (ThreadTimer t) \<longleftrightarrow> sint time > 0"
    "sint time > 0 \<Longrightarrow> timeout_tick (timers k' (ThreadTimer t)) = rt_tick k + time"
proof -
  obtain k1 where k1: "rt_ipc_list_suspend q t flag k = Some k1" "kinv k1" "kframe k k1"
    "rt_current_thread k1 = rt_current_thread k" "\<not> linked k1 (ThreadTimer t)"
    and ts: "\<And>u. tstat k1 u = (if u = t then RT_THREAD_SUSPEND else tstat k u)"
    and qs: "queues k1 q = wait_insert flag (\<lambda>s. current_priority (threads k s)) t (queues k q)"
    "\<And>r. r \<noteq> q \<Longrightarrow> queues k1 r = list_del t (queues k r)"
    by (rule rt_ipc_list_suspend_ok [OF inv th st q]) blast
  have t1: "is_thread k1 t" "tstat k1 t = RT_THREAD_SUSPEND" using th kframe_thread(7) [OF k1(3)] ts by simp_all
  obtain k2 where k2: "start_wait_timer t time k1 = Some k2" "kinv k2" "kframe k1 k2"
    "rt_current_thread k2 = rt_current_thread k1" "\<And>u. tstat k2 u = tstat k1 u" "queues k2 = queues k1"
    "linked k2 (ThreadTimer t) \<longleftrightarrow> sint time > 0"
    "sint time > 0 \<Longrightarrow> timeout_tick (timers k2 (ThreadTimer t)) = rt_tick k1 + time"
    by (rule start_wait_timer_ok [OF k1(2) t1 k1(5) to]) blast
  have ex: "ipc_wait q t flag time k = Some k2"
    using k1(1) k2(1) by (simp add: ipc_wait_def start_wait_timer_def)
  show ?thesis
    by (rule that [OF ex k2(2) kframe_trans [OF k1(3) k2(3)]])
      (use k2 k1(4) ts qs kframeD(9) [OF k1(3)] in simp_all)
qed

text \<open>Resuming the first waiting thread.\<close>

lemma first_waiting:
  assumes inv: "kinv k" and q: "waiting_queue q" and h: "queues k q = t # ts"
  shows "is_thread k t" "tstat k t = RT_THREAD_SUSPEND" "t \<notin> set ts" "\<And>r. r \<noteq> q \<Longrightarrow> t \<notin> set (queues k r)"
proof -
  have iq: "in_queue k t q" by (simp add: in_queue_def h)
  show "is_thread k t" "tstat k t = RT_THREAD_SUSPEND"
    using sched_invD(6) [OF kinvD(1) [OF inv] iq] q by (auto simp: waiting_queue_def)
  note qo = sched_invD(1) [OF kinvD(1) [OF inv]]
  show "t \<notin> set ts" using qo h by (metis distinct.simps(2) queues_ok_def)
  show "t \<notin> set (queues k r)" if "r \<noteq> q" for r
    using qo iq that unfolding queues_ok_def in_queue_def by blast
qed

lemma rt_ipc_list_resume_ok:
  assumes inv: "kinv k" and q: "waiting_queue q" and h: "queues k q = t # ts"
  obtains k' where "rt_ipc_list_resume q k = Some k'" "kinv k'" "kframe k k'"
    "rt_current_thread k' = rt_current_thread k" "queues k' q = ts"
    "\<And>r. waiting_queue r \<Longrightarrow> r \<noteq> q \<Longrightarrow> queues k' r = queues k r"
    "\<And>u. tstat k' u = (if u = t then (if rt_current_thread k = Some t then RT_THREAD_RUNNING
                         else RT_THREAD_READY) else tstat k u)"
proof -
  note fw = first_waiting [OF inv q h]
  obtain k' where k': "rt_thread_resume t k = Some (RT_EOK, k')" "kinv k'" "kframe k k'"
    "rt_current_thread k' = rt_current_thread k"
    and ts: "\<And>u. tstat k' u = (if u = t then (if rt_current_thread k = Some t then RT_THREAD_RUNNING
                         else RT_THREAD_READY) else tstat k u)"
    and qs: "\<And>q. queues k' q = (if rt_current_thread k \<noteq> Some t \<and> q = Ready (tprio k t)
                         then list_del t (queues k q) @ [t] else list_del t (queues k q))"
    by (rule rt_thread_resume_ok [OF inv fw(1,2)]) blast
  have ex: "rt_ipc_list_resume q k = Some k'" using k'(1) by (simp add: rt_ipc_list_resume_def h)
  show ?thesis
  proof (rule that [OF ex k'(2,3,4) _ _ ts])
    show "queues k' q = ts" using qs [of q] q fw(3) by (auto simp: h list_del_notin)
    show "queues k' r = queues k r" if "waiting_queue r" "r \<noteq> q" for r
      using qs [of r] that fw(4) [of r] by (auto simp: list_del_notin)
  qed
qed

text \<open>The objects that the threads and timers are used for, and the counters.\<close>

definition oframe :: "kernel \<Rightarrow> kernel \<Rightarrow> bool" where
  "oframe k k' \<longleftrightarrow> sems k' = sems k \<and> mutexes k' = mutexes k \<and> events k' = events k \<and>
     mailboxes k' = mailboxes k \<and> msgqueues k' = msgqueues k \<and> mempools k' = mempools k \<and> devices k' = devices k \<and>
     mp_links k' = mp_links k \<and> containers k' = containers k \<and> rt_tick k' = rt_tick k \<and>
     scheduler_lock_nest k' = scheduler_lock_nest k \<and> interrupt_nest k' = interrupt_nest k \<and>
     (\<forall>t. is_thread k' t = is_thread k t \<and> current_priority (threads k' t) = current_priority (threads k t) \<and>
       event_set (threads k' t) = event_set (threads k t) \<and> event_info (threads k' t) = event_info (threads k t))"

lemma oframe_refl [simp]: "oframe k k"
  by (simp add: oframe_def)

lemma oframe_trans [trans]: "oframe a b \<Longrightarrow> oframe b c \<Longrightarrow> oframe a c"
  by (simp add: oframe_def)

lemma kframe_oframe: "kframe k k' \<Longrightarrow> oframe k k'"
  using kframe_thread(2,5,6,7) [of k k'] by (simp add: oframe_def kframe_def)

lemma oframe_set_error [simp]: "oframe k (set_error t e k)"
  by (simp add: oframe_def) (simp add: set_error_def upd_thread_def)

lemma oframeD:
  assumes "oframe k k'"
  shows "sems k' = sems k" "mutexes k' = mutexes k" "events k' = events k"
    "mailboxes k' = mailboxes k" "msgqueues k' = msgqueues k" "mempools k' = mempools k"
    "mp_links k' = mp_links k" "containers k' = containers k" "rt_tick k' = rt_tick k"
    "scheduler_lock_nest k' = scheduler_lock_nest k" "interrupt_nest k' = interrupt_nest k"
    "is_thread k' t = is_thread k t" "current_priority (threads k' t) = current_priority (threads k t)"
    "event_set (threads k' t) = event_set (threads k t)" "event_info (threads k' t) = event_info (threads k t)"
    "devices k' = devices k"
  using assms by (simp_all add: oframe_def)

text \<open>
  Resuming all waiting threads: the loop ends, each thread of the list is resumed with the
  error \<open>-RT_ERROR\<close>, and no other thread and no other waiting list changes.
\<close>

lemma resume_first_failed_ok:
  assumes inv: "kinv k" and q: "waiting_queue q" and h: "queues k q = t # ts"
  obtains k' where "resume_first_failed q k = Some k'" "kinv k'" "oframe k k'"
    "rt_current_thread k' = rt_current_thread k" "queues k' q = ts"
    "\<And>r. waiting_queue r \<Longrightarrow> r \<noteq> q \<Longrightarrow> queues k' r = queues k r"
    "\<And>u. tstat k' u = (if u = t then (if rt_current_thread k = Some t then RT_THREAD_RUNNING
                         else RT_THREAD_READY) else tstat k u)"
    "\<And>u. thread_error (threads k' u) = (if u = t then - RT_ERROR else thread_error (threads k u))"
proof -
  let ?k = "set_error t (- RT_ERROR) k"
  have i: "kinv ?k" using inv by simp
  have h': "queues ?k q = t # ts" using h by simp
  obtain k' where k': "rt_ipc_list_resume q ?k = Some k'" "kinv k'" "kframe ?k k'"
    "rt_current_thread k' = rt_current_thread ?k" "queues k' q = ts"
    and r: "\<And>r. waiting_queue r \<Longrightarrow> r \<noteq> q \<Longrightarrow> queues k' r = queues ?k r"
    and st: "\<And>u. tstat k' u = (if u = t then (if rt_current_thread ?k = Some t then RT_THREAD_RUNNING
                         else RT_THREAD_READY) else tstat ?k u)"
    by (rule rt_ipc_list_resume_ok [OF i q h']) blast
  show ?thesis
  proof (rule that [OF _ k'(2)])
    show "resume_first_failed q k = Some k'"
      using k'(1) h by (simp add: resume_first_failed_def rt_ipc_list_resume_def set_error_def)
    show "oframe k k'" using oframe_trans [OF oframe_set_error kframe_oframe [OF k'(3)]] .
    show "thread_error (threads k' u) = (if u = t then - RT_ERROR else thread_error (threads k u))" for u
      using kframe_thread(4) [OF k'(3), of u] by simp
  qed (use k' r st in simp_all)
qed

lemma rt_ipc_list_resume_all_ok:
  assumes "kinv k" "waiting_queue q"
  obtains k' where "rt_ipc_list_resume_all q k = Some k'" "kinv k'" "oframe k k'"
    "rt_current_thread k' = rt_current_thread k" "queues k' q = []"
    "\<And>r. waiting_queue r \<Longrightarrow> r \<noteq> q \<Longrightarrow> queues k' r = queues k r"
    "\<And>u. tstat k' u = (if u \<in> set (queues k q) then (if rt_current_thread k = Some u then RT_THREAD_RUNNING
                         else RT_THREAD_READY) else tstat k u)"
    "\<And>u. thread_error (threads k' u) =
       (if u \<in> set (queues k q) then - RT_ERROR else thread_error (threads k u))"
  using assms
proof (induction "queues k q" arbitrary: k thesis)
  case Nil
  have "rt_ipc_list_resume_all q k = Some k"
    using Nil(1) by (subst rt_ipc_list_resume_all.simps) (simp add: tlist_isempty_def)
  then show ?case using Nil by (intro Nil(2) [of k]) (simp_all add: Nil(1) [symmetric])
next
  case (Cons t ts)
  note h = Cons.hyps(2) [symmetric]
  obtain k1 where k1: "resume_first_failed q k = Some k1" "kinv k1" "oframe k k1"
    "rt_current_thread k1 = rt_current_thread k" "queues k1 q = ts"
    and r1: "\<And>r. waiting_queue r \<Longrightarrow> r \<noteq> q \<Longrightarrow> queues k1 r = queues k r"
    and s1: "\<And>u. tstat k1 u = (if u = t then (if rt_current_thread k = Some t then RT_THREAD_RUNNING
                         else RT_THREAD_READY) else tstat k u)"
    and e1: "\<And>u. thread_error (threads k1 u) = (if u = t then - RT_ERROR else thread_error (threads k u))"
    by (rule resume_first_failed_ok [OF Cons.prems(2,3) h]) blast
  obtain k2 where k2: "rt_ipc_list_resume_all q k1 = Some k2" "kinv k2" "oframe k1 k2"
    "rt_current_thread k2 = rt_current_thread k1" "queues k2 q = []"
    and r2: "\<And>r. waiting_queue r \<Longrightarrow> r \<noteq> q \<Longrightarrow> queues k2 r = queues k1 r"
    and s2: "\<And>u. tstat k2 u = (if u \<in> set (queues k1 q) then (if rt_current_thread k1 = Some u
       then RT_THREAD_RUNNING else RT_THREAD_READY) else tstat k1 u)"
    and e2: "\<And>u. thread_error (threads k2 u) =
       (if u \<in> set (queues k1 q) then - RT_ERROR else thread_error (threads k1 u))"
    by (rule Cons.hyps(1) [OF k1(5) [symmetric] _ k1(2) Cons.prems(3)]) blast
  have ex: "rt_ipc_list_resume_all q k = Some k2"
    using h k1(1) k2(1) by (subst rt_ipc_list_resume_all.simps) (simp add: tlist_isempty_def)
  show ?case
  proof (rule Cons.prems(1) [OF ex k2(2) oframe_trans [OF k1(3) k2(3)]])
    show "tstat k2 u = (if u \<in> set (queues k q) then (if rt_current_thread k = Some u
       then RT_THREAD_RUNNING else RT_THREAD_READY) else tstat k u)" for u
      using s2 [of u] s1 [of u] k1(4,5) h by auto
    show "thread_error (threads k2 u) =
       (if u \<in> set (queues k q) then - RT_ERROR else thread_error (threads k u))" for u
      using e2 [of u] e1 [of u] k1(5) h by auto
  qed (use k1(4) k2(4,5) r1 r2 in simp_all)
qed

subsection \<open>Sleeping\<close>

lemma rt_thread_sleep_ok:
  assumes inv: "kinv k" and cur: "rt_current_thread k = Some t" and run: "tstat k t = RT_THREAD_RUNNING"
    and tick: "tick < RT_TICK_HALF"
  obtains k1 k2 where "rt_thread_sleep tick k = Some k2" "kinv k2" "schedule_post k1 k2" "kinv k1"
    "kframe k k1" "linked k1 (ThreadTimer t)"
    "timeout_tick (timers k1 (ThreadTimer t)) = rt_tick k + tick"
    "\<And>u. tstat k1 u = (if u = t then RT_THREAD_SUSPEND else tstat k u)" "rt_current_thread k1 = Some t"
proof -
  have th: "is_thread k t" using cur_invD(3) [OF kinvD(2) [OF inv] cur run] .
  obtain k1 where k1: "rt_thread_suspend t k = Some (RT_EOK, k1)" "kinv k1" "sched_inv {t} k1"
    "kframe k k1" "rt_current_thread k1 = rt_current_thread k" "\<not> linked k1 (ThreadTimer t)"
    and ts: "\<And>u. tstat k1 u = (if u = t then RT_THREAD_SUSPEND else tstat k u)"
    by (rule rt_thread_suspend_ok [OF inv th disjI2 [OF run]]) blast
  let ?x = "ThreadTimer t" and ?f = "init_tick_update (\<lambda>_. tick)"
  let ?k2 = "upd_timer ?x ?f k1"
  have t1: "is_thread k1 t" using th kframe_thread(7) [OF k1(4)] by simp
  have tt: "thread_timer_ok k1 t" using tm_invD(7) [OF kinvD(3) [OF k1(2)] t1] ts [of t] by simp
  then have ty: "timer_is_type k1 ?x" "timer_is_type ?k2 ?x" "\<not> timer_on ?k2 ?x RT_TIMER_FLAG_SOFT_TIMER"
    by (simp_all add: thread_timer_ok_def times_only_same)
  have i2: "kinv ?k2"
    by (rule kinv_timers [OF k1(2) times_only_inv [OF _ kinvD(3) [OF k1(2)]]]) simp_all
  have it: "init_tick (timers ?k2 ?x) < RT_TICK_HALF" using tick by simp
  have s2: "is_thread ?k2 u \<and> tstat ?k2 u = RT_THREAD_SUSPEND" if "?x = ThreadTimer u" for u
    using that t1 ts [of t] by simp
  obtain k3 where k3: "rt_timer_start ?x ?k2 = Some (RT_EOK, k3)" "kinv k3" "k3 = timer_started ?x ?k2"
    using rt_timer_start_ok [OF i2 ty(2) it s2] ty(3) by metis
  have c3: "rt_current_thread k3 = Some t" using k1(5) cur by (simp add: k3(3))
  obtain k4 where k4: "rt_schedule k3 = Some k4" "kinv k4" "schedule_post k3 k4"
    using rt_schedule_kinv [OF k3(2)] c3 by auto
  have ex: "rt_thread_sleep tick k = Some k4"
    using cur th k1(1) ty(1) k3(1) k4(1)
    by (simp add: rt_thread_sleep_def rt_thread_self_def rt_timer_control_def)
  show ?thesis
  proof (rule that [OF ex k4(2,3) k3(2)])
    show "kframe k k3"
      using kframe_trans [OF k1(4) kframe_trans [OF kframe_timer(1) timer_started_frame(4)]] k3(3) by simp
    show "tstat k3 u = (if u = t then RT_THREAD_SUSPEND else tstat k u)" for u
      using ts [of u] by (simp add: k3(3))
    show "timeout_tick (timers k3 ?x) = rt_tick k + tick"
      using kframeD(9) [OF k1(4)] by (simp add: k3(3) timer_started_def clear_activated_def)
  qed (simp_all add: k3(3) c3 k1(5) cur)
qed

end
