(* ===== verification/Sample.thy ===== *)
theory Sample
  imports KernelInv MsgQueue Semaphore Mutex Event
begin

section \<open>A state of the kernel\<close>

text \<open>
  A concrete state that satisfies the kernel invariant; the properties that have hypotheses are
  applied to it.  Thread 1 runs at priority 10, thread 2 is ready at 10 and thread 4, the idle
  thread, at 31.  Thread 3 (priority 5) waits for semaphore 0, thread 6 (priority 4) for mutex
  0, which thread 1 owns, and thread 5 (priority 6) for bits 0 and 1 of event set 0.
\<close>

definition sample_thread :: "u8 \<Rightarrow> u8 \<Rightarrow> rt_thread" where
  "sample_thread st p = zero_thread\<lparr>obj_type := 0x81, stat := st, current_priority := p,
     init_priority := p, number_mask := push_bit (unat p) 1, stack_addr := 0x20001000,
     stack_size := 0x200, sp := 0x20001100, stack_bottom := 0x23, thread_init_tick := 5,
     remaining_tick := 5\<rparr>"

definition sample_threads :: "tid \<Rightarrow> rt_thread" where
  "sample_threads t =
     (if t = 1 then sample_thread RT_THREAD_RUNNING 10
      else if t = 2 then sample_thread RT_THREAD_READY 10
      else if t = 3 then sample_thread RT_THREAD_SUSPEND 5
      else if t = 4 then sample_thread RT_THREAD_READY 31
      else if t = 5 then (sample_thread RT_THREAD_SUSPEND 6)\<lparr>event_set := 3, event_info := 6\<rparr>
      else if t = 6 then sample_thread RT_THREAD_SUSPEND 4
      else zero_thread)"

definition sample_queues :: "queue \<Rightarrow> tid list" where
  "sample_queues q =
     (if q = Ready 10 then [2] else if q = Ready 31 then [4]
      else if q = Suspended (OSem 0) then [3] else if q = Suspended (OEvent 0) then [5]
      else if q = Suspended (OMutex 0) then [6] else [])"

definition sample_timers :: "timer_id \<Rightarrow> rt_timer" where
  "sample_timers x =
     (case x of
        ThreadTimer t \<Rightarrow> zero_timer\<lparr>obj_type := 0x8A, timeout_func := Thread_timeout, parameter := t\<rparr>
      | UserTimer u \<Rightarrow> zero_timer\<lparr>obj_type := 0x8A, timeout_func := User_timeout u, init_tick := 7\<rparr>)"

definition sample :: kernel where
  "sample = \<lparr>rt_tick = 100, rt_current_thread = Some 1, rt_current_priority = 10,
     ready_priority_group = push_bit 10 1 OR push_bit 31 1, scheduler_lock_nest = 0, interrupt_nest = 0,
     queues = sample_queues, rt_timer_list = [], rt_soft_timer_list = [], random_nr = 0,
     containers = (\<lambda>_. []), threads = sample_threads, timers = sample_timers,
     sems = (\<lambda>s. zero_sem\<lparr>obj_type := 0x82, sem_value := (if s = 0 then 0 else 3)\<rparr>),
     mutexes = (\<lambda>m. zero_mutex\<lparr>obj_type := 0x83, mutex_value := (if m = 0 then 0 else 1),
        owner := (if m = 0 then Some 1 else None), hold := (if m = 0 then 1 else 0),
        original_priority := (if m = 0 then 10 else 0xFF)\<rparr>),
     events = (\<lambda>e. zero_event\<lparr>obj_type := 0x84\<rparr>),
     mailboxes = (\<lambda>m. zero_mailbox\<lparr>obj_type := 0x85, mb_size := 2, mb_pool := [0, 0]\<rparr>),
     msgqueues = (\<lambda>m. mq_setup_lists (\<lambda>_. [0, 0, 0, 0])
        (zero_mq\<lparr>obj_type := 0x86, msg_size := 4, max_msgs := 2\<rparr>)),
     mempools = (\<lambda>_. \<lparr>obj_name = replicate 8 0, obj_type = 0x88, obj_flag = 0, start_address = 0,
        mp_size = 0, block_size = 0, block_list = 0, block_total_count = 0, block_free_count = 0\<rparr>),
     devices = (\<lambda>_. \<lparr>obj_name = replicate 8 0, obj_type = 0, obj_flag = 0, dev_type = 0, dev_flag = 0, open_flag = 0,
        ref_count = 0, device_id = 0, rx_indicate = 0, tx_complete = 0, dev_user_data = 0\<rparr>),
     mp_links = (\<lambda>_. Next_block 0), rt_errno = 0\<rparr>"

lemma sample_fields [simp]:
  "rt_tick sample = 100" "rt_current_thread sample = Some 1" "scheduler_lock_nest sample = 0"
  "interrupt_nest sample = 0" "queues sample = sample_queues" "rt_timer_list sample = []"
  "rt_soft_timer_list sample = []" "threads sample = sample_threads" "timers sample = sample_timers"
  "sems sample s = zero_sem\<lparr>obj_type := 0x82, sem_value := (if s = 0 then 0 else 3)\<rparr>"
  "mutexes sample m = zero_mutex\<lparr>obj_type := 0x83, mutex_value := (if m = 0 then 0 else 1),
        owner := (if m = 0 then Some 1 else None), hold := (if m = 0 then 1 else 0),
        original_priority := (if m = 0 then 10 else 0xFF)\<rparr>"
  "events sample e = zero_event\<lparr>obj_type := 0x84\<rparr>"
  "mailboxes sample b = zero_mailbox\<lparr>obj_type := 0x85, mb_size := 2, mb_pool := [0, 0]\<rparr>"
  "msgqueues sample q = mq_setup_lists (\<lambda>_. [0, 0, 0, 0])
        (zero_mq\<lparr>obj_type := 0x86, msg_size := 4, max_msgs := 2\<rparr>)"
  by (simp_all add: sample_def)

lemma sample_thread_fields [simp]:
  "obj_type (sample_thread st p) = 0x81" "stat (sample_thread st p) = st"
  "current_priority (sample_thread st p) = p" "init_priority (sample_thread st p) = p"
  "number_mask (sample_thread st p) = push_bit (unat p) 1" "scheduler_stack_ok (sample_thread st p)"
  "thread_error (sample_thread st p) = 0"
  by (simp_all add: sample_thread_def zero_thread_def scheduler_stack_ok_def)

lemma zero_thread_fields [simp]: "obj_type zero_thread = 0" "stat zero_thread = 0"
  by (simp_all add: zero_thread_def)

lemma sample_is_thread: "is_thread sample t \<longleftrightarrow> t \<in> {1, 2, 3, 4, 5, 6}"
  by (simp add: is_thread_def sample_threads_def)

lemma sample_tstat: "tstat sample t = (if t = 1 then RT_THREAD_RUNNING else if t = 2 \<or> t = 4
    then RT_THREAD_READY else if t = 3 \<or> t = 5 \<or> t = 6 then RT_THREAD_SUSPEND else RT_THREAD_INIT)"
  by (simp add: tstat_def sample_threads_def)

lemma sample_tprio: "is_thread sample t \<Longrightarrow> tprio sample t =
    (if t = 1 \<or> t = 2 then 10 else if t = 3 then 5 else if t = 4 then 31 else if t = 5 then 6 else 4)"
  by (auto simp: tprio_def sample_threads_def sample_is_thread)

lemma sample_in_queue: "in_queue sample t q \<longleftrightarrow>
    t = 2 \<and> q = Ready 10 \<or> t = 4 \<and> q = Ready 31 \<or> t = 3 \<and> q = Suspended (OSem 0) \<or>
    t = 5 \<and> q = Suspended (OEvent 0) \<or> t = 6 \<and> q = Suspended (OMutex 0)"
  by (auto simp: in_queue_def sample_queues_def)

lemma sample_sched_inv: "sched_inv {} sample"
proof -
  have "queues_ok sample"
    unfolding queues_ok_def sample_in_queue by (auto simp: sample_queues_def)
  moreover have "bit (ready_priority_group sample) p \<longleftrightarrow> queues sample (Ready p) \<noteq> []" for p
  proof -
    have "bit (ready_priority_group sample) p \<longleftrightarrow> p = 10 \<or> p = 31"
      unfolding sample_def using mask_bits [of 10 p] mask_bits [of 31 p] by (simp only: kernel.simps bit_or_iff)
    then show ?thesis by (simp add: sample_queues_def)
  qed
  moreover have "thread_ok sample t" if "is_thread sample t" for t
    using that sample_tprio [OF that]
    by (auto simp: thread_ok_def sample_is_thread sample_threads_def tprio_def scheduler_stack_ok_def
        sample_thread_def zero_thread_def)
  moreover have "admits sample q t" if "in_queue sample t q" for t q
    using that unfolding sample_in_queue
    by (elim disjE conjE) (simp_all add: sample_is_thread sample_tstat sample_tprio)
  moreover have "in_queue sample t (Ready (tprio sample t))"
    if "is_thread sample t" "tstat sample t = RT_THREAD_READY" for t
  proof -
    have "t = 2 \<or> t = 4" using that(2) by (simp add: sample_tstat split: if_splits)
    then show ?thesis using sample_tprio [OF that(1)] by (auto simp: sample_in_queue)
  qed
  ultimately show ?thesis by (simp add: sched_inv_def group_ok_def placed_def)
qed

lemma sample_cur_inv: "cur_inv sample"
  unfolding cur_inv_def by (simp add: sample_tstat sample_is_thread)

lemma sample_tm_inv: "tm_inv sample"
proof (rule tm_invI)
  show "thread_timer_ok sample t" for t
    by (simp add: thread_timer_ok_def timer_is_type_def rt_object_get_type_def timer_on_def
        rt_object_is_systemobject_def sample_timers_def zero_timer_def)
qed (simp_all add: linked_def sample_timers_def)

lemma sample_kinv: "kinv sample"
  by (simp add: kinv_def sample_sched_inv sample_cur_inv sample_tm_inv)

lemma sample_runs_highest: "is_thread sample u \<Longrightarrow> tstat sample u = RT_THREAD_READY \<Longrightarrow> 10 \<le> tprio sample u"
  using sample_tprio [of u] by (auto simp: sample_tstat split: if_splits)

end
