(* ===== verification/SchedProps.thy ===== *)
theory SchedProps
  imports Sample
begin

section \<open>Scheduling properties\<close>

text \<open>What the scheduler guarantees on the states that the kernel invariant describes.\<close>

text \<open>C2: on a consistent state with a current thread \<open>rt_schedule\<close> never halts, keeps the
  kernel invariant and changes nothing but thread states, ready lists and who is current; when
  the scheduler is not locked, the thread it leaves running has at least the priority of every
  ready thread (a smaller number is a higher priority).\<close>

theorem rt_schedule_correct:
  assumes "kinv k" "rt_current_thread k \<noteq> None"
  shows "\<exists>k'. rt_schedule k = Some k' \<and> kinv k' \<and> kframe k k' \<and>
    (scheduler_lock_nest k = 0 \<longrightarrow>
      (\<forall>t. is_thread k' t \<and> tstat k' t = RT_THREAD_READY \<longrightarrow>
        (\<exists>c. rt_current_thread k' = Some c \<and> tstat k' c = RT_THREAD_RUNNING \<and> tprio k' c \<le> tprio k' t)))"
proof -
  obtain k' where "rt_schedule k = Some k'" "kinv k'" "schedule_post k k'" "kframe k k'"
    using rt_schedule_kinv [OF assms] by blast
  then show ?thesis unfolding schedule_post_def runs_highest_def by blast
qed

text \<open>The sample state in which the current thread has been suspended, as by a sleep.\<close>

lemma rt_schedule_correct_witness:
  "\<exists>k'. rt_schedule sample = Some k' \<and> kinv k' \<and> kframe sample k' \<and>
    (scheduler_lock_nest sample = 0 \<longrightarrow>
      (\<forall>t. is_thread k' t \<and> tstat k' t = RT_THREAD_READY \<longrightarrow>
        (\<exists>c. rt_current_thread k' = Some c \<and> tstat k' c = RT_THREAD_RUNNING \<and> tprio k' c \<le> tprio k' t)))"
  by (rule rt_schedule_correct [OF sample_kinv]) simp

text \<open>C3: round robin: when the running thread has used up its time slice (its yield flag is set),
  no ready thread is of higher priority and the scheduler is not locked, \<open>rt_schedule\<close> runs
  the first ready thread of the same priority and puts the old one at the end of the list.\<close>

theorem rt_schedule_round_robin:
  assumes "kinv k" "rt_current_thread k = Some c" "tstat k c = RT_THREAD_RUNNING"
    "stat (threads k c) AND RT_THREAD_STAT_YIELD \<noteq> 0" "queues k (Ready (tprio k c)) = h # ts"
    "scheduler_lock_nest k = 0"
    "\<forall>u. is_thread k u \<and> tstat k u = RT_THREAD_READY \<longrightarrow> tprio k c \<le> tprio k u"
  shows "\<exists>k'. rt_schedule k = Some k' \<and> kinv k' \<and> rt_current_thread k' = Some h \<and>
    queues k' (Ready (tprio k c)) = ts @ [c] \<and> tstat k' h = RT_THREAD_RUNNING"
proof -
  have hi: "\<And>u. is_thread k u \<Longrightarrow> tstat k u = RT_THREAD_READY \<Longrightarrow> tprio k c \<le> tprio k u"
    using assms(7) by blast
  obtain k' where k': "rt_schedule k = Some k'" "rt_current_thread k' = Some h"
    "queues k' (Ready (tprio k c)) = ts @ [c]"
    by (rule rt_schedule_rotates [OF kinvD(1,2) [OF assms(1)] assms(2-6) hi]) blast
  obtain k'' where "rt_schedule k = Some k''" "kinv k''" "schedule_post k k''"
    using rt_schedule_kinv [OF assms(1)] assms(2) by auto
  then have i: "kinv k'" and hp: "runs_highest k'"
    using k'(1) assms(6) by (auto simp: schedule_post_def)
  have "in_queue k' c (Ready (tprio k c))" using k'(3) by (simp add: in_queue_def)
  from ready_in_queue [OF kinvD(1) [OF i] this] hp k'(2)
  have "tstat k' h = RT_THREAD_RUNNING" unfolding runs_highest_def by auto
  then show ?thesis using k' i by blast
qed

definition sample_slice_used :: kernel where
  "sample_slice_used = upd_thread 1 (stat_update (\<lambda>s. s OR RT_THREAD_STAT_YIELD)) sample"

lemma harmless_yield: "harmless (stat_update (\<lambda>s. s OR RT_THREAD_STAT_YIELD))"
  by (simp add: harmless_def scheduler_stack_ok_def bit.conj_disj_distrib2)

lemma sample_slice_used_same:
  "kinv sample_slice_used" "is_thread sample_slice_used u = is_thread sample u"
  "tstat sample_slice_used u = tstat sample u" "tprio sample_slice_used u = tprio sample u"
  unfolding sample_slice_used_def
  by (rule kinv_upd_thread [OF harmless_yield sample_kinv] harmless_upd [OF harmless_yield])+

lemma rt_schedule_round_robin_witness:
  "\<exists>k'. rt_schedule sample_slice_used = Some k' \<and> kinv k' \<and> rt_current_thread k' = Some 2 \<and>
    queues k' (Ready (tprio sample_slice_used 1)) = [] @ [1] \<and> tstat k' 2 = RT_THREAD_RUNNING"
proof (rule rt_schedule_round_robin [OF sample_slice_used_same(1)])
  show "stat (threads sample_slice_used 1) AND RT_THREAD_STAT_YIELD \<noteq> 0"
    by (simp add: sample_slice_used_def upd_thread_def sample_threads_def)
  show "queues sample_slice_used (Ready (tprio sample_slice_used 1)) = [2]"
    unfolding sample_slice_used_same by (simp add: sample_slice_used_def sample_tprio sample_is_thread sample_queues_def)
  show "\<forall>u. is_thread sample_slice_used u \<and> tstat sample_slice_used u = RT_THREAD_READY \<longrightarrow>
      tprio sample_slice_used 1 \<le> tprio sample_slice_used u"
    unfolding sample_slice_used_same using sample_runs_highest by (simp add: sample_tprio sample_is_thread)
  show "tstat sample_slice_used 1 = RT_THREAD_RUNNING"
    unfolding sample_slice_used_same by (simp add: sample_tstat)
qed (simp_all add: sample_slice_used_def)

text \<open>\<open>rt_thread_yield\<close> alone does not give the processor to another thread: unless the
  yield flag is already set, a running thread that no ready thread precedes stays current and
  nothing changes, although ready threads of its own priority are waiting.\<close>

lemma rt_thread_yield_stays:
  assumes "kinv k" "rt_current_thread k = Some c" "tstat k c = RT_THREAD_RUNNING"
    "stat (threads k c) AND RT_THREAD_STAT_YIELD = 0"
    "\<forall>u. is_thread k u \<and> tstat k u = RT_THREAD_READY \<longrightarrow> tprio k c \<le> tprio k u"
  shows "rt_thread_yield k = Some (RT_EOK, k)"
proof -
  have "rt_schedule k = Some k"
    by (rule rt_schedule_stays [OF kinvD(1,2) [OF assms(1)] assms(2-4)]) (use assms(5) in blast)
  then show ?thesis by (simp add: rt_thread_yield_def)
qed

lemma rt_thread_yield_stays_witness:
  "rt_thread_yield sample = Some (RT_EOK, sample) \<and> queues sample (Ready (tprio sample 1)) = [2]"
proof
  show "rt_thread_yield sample = Some (RT_EOK, sample)"
    by (rule rt_thread_yield_stays [OF sample_kinv, of 1])
      (use sample_runs_highest in \<open>simp_all add: sample_tstat sample_tprio sample_is_thread sample_threads_def\<close>)
  show "queues sample (Ready (tprio sample 1)) = [2]"
    by (simp add: sample_tprio sample_is_thread sample_queues_def)
qed

end
