(* ===== verification/ThreadInv.thy ===== *)
theory ThreadInv
  imports SchedProps
begin

section \<open>The invariant through the life of a thread\<close>

text \<open>
  The operations of \<open>rt-thread/src/thread.c\<close> that start, stop, restart and end threads keep the
  kernel invariant, and what each of them does to the queues.
\<close>

subsection \<open>Ending a thread\<close>

definition closed_state :: "tid \<Rightarrow> kernel \<Rightarrow> kernel" where
  "closed_state t k = upd_thread t (stat_update (\<lambda>_. RT_THREAD_CLOSE))
     (rt_object_detach (OTimer (ThreadTimer t)) (timer_remove (ThreadTimer t) k))"

lemma closed_state_simps [simp]:
  "threads (closed_state t k) = (threads k)(t := (threads k t)\<lparr>stat := RT_THREAD_CLOSE\<rparr>)"
  "queues (closed_state t k) = queues k" "ready_priority_group (closed_state t k) = ready_priority_group k"
  "rt_current_thread (closed_state t k) = rt_current_thread k"
  "rt_timer_list (closed_state t k) = list_del (ThreadTimer t) (rt_timer_list k)"
  "rt_soft_timer_list (closed_state t k) = list_del (ThreadTimer t) (rt_soft_timer_list k)"
  "timers (closed_state t k) = (timers k)(ThreadTimer t := (timers k (ThreadTimer t))\<lparr>obj_type := 0\<rparr>)"
  by (simp_all add: closed_state_def upd_thread_def rt_object_detach_def container_remove_def
      upd_timer_def timer_remove_def)

lemma closed_state_same:
  "is_thread (closed_state t k) u = is_thread k u" "tprio (closed_state t k) u = tprio k u"
  "tstat (closed_state t k) u = (if u = t then RT_THREAD_CLOSE else tstat k u)"
  "linked (closed_state t k) x \<longleftrightarrow> x \<noteq> ThreadTimer t \<and> linked k x"
  by (auto simp: is_thread_def tprio_def tstat_def linked_def)

lemma closed_state_inv:
  assumes i: "sched_inv {t} k" and cu: "cur_inv k" and ti: "tm_inv k"
  shows "sched_inv {t} (closed_state t k)" "cur_inv (closed_state t k)" "tm_inv (closed_state t k)"
proof -
  let ?k = "closed_state t k"
  let ?f = "stat_update (\<lambda>_. RT_THREAD_CLOSE)"
  have "thread_ok (upd_thread t ?f k) t" if "is_thread (upd_thread t ?f k) t"
  proof -
    have "is_thread k t" using that by (simp add: is_thread_def upd_thread_def)
    from sched_invD(3) [OF i this] show ?thesis
      by (simp add: thread_ok_def tprio_upd_thread started_def tstat_upd_thread)
        (simp add: upd_thread_def tprio_def scheduler_stack_ok_def)
  qed
  then have "sched_inv {t} (upd_thread t ?f k)" using i by (intro sched_inv_upd_thread) auto
  then show "sched_inv {t} ?k"
    using sched_inv_cong [of ?k "upd_thread t ?f k"] by (simp add: upd_thread_def)
  show "cur_inv ?k"
    by (rule cur_inv_update [OF cu _ closed_state_same(1,3)]) simp_all
  note d = tm_invD [OF ti]
  have same: "timer_on ?k x fl = timer_on k x fl"
    "x \<noteq> ThreadTimer t \<Longrightarrow> timer_is_type ?k x = timer_is_type k x"
    "u \<noteq> t \<Longrightarrow> thread_timer_ok ?k u = thread_timer_ok k u" for x fl u
    by (simp_all add: timer_on_def timer_is_type_def rt_object_get_type_def thread_timer_ok_def
        rt_object_is_systemobject_def)
  show "tm_inv ?k"
  proof (rule tm_invI)
    show "timer_on ?k x RT_TIMER_FLAG_ACTIVATED \<and> timer_is_type ?k x" if "linked ?k x" for x
      using that d(3,4) [of x] same(1,2) unfolding closed_state_same by blast
    show "thread_timer_ok ?k u" if "is_thread ?k u" "tstat ?k u \<noteq> RT_THREAD_CLOSE" for u
      using that d(7) [of u] same(3) [of u] unfolding closed_state_same by (cases "u = t") simp_all
    show "is_thread ?k u \<and> tstat ?k u = RT_THREAD_SUSPEND" if "linked ?k (ThreadTimer u)" for u
      using that d(8,9) [of u] unfolding closed_state_same by simp
  qed (use d(1,2,5,6,10) in \<open>simp_all add: same\<close>)
qed

text \<open>A thread that is no longer in use leaves the object system or waits for the idle thread.\<close>

lemma detach_thread_inv:
  assumes i: "sched_inv {t} k" and cu: "cur_inv k" and ti: "tm_inv k" and st: "tstat k t = RT_THREAD_CLOSE"
  shows "kinv (rt_object_detach (OThread t) k)" "rt_current_thread (rt_object_detach (OThread t) k) = rt_current_thread k"
proof -
  let ?d = "rt_object_detach (OThread t) k"
  let ?f = "obj_type_update (\<lambda>_. 0) :: rt_thread \<Rightarrow> rt_thread"
  have nl: "\<not> linked k (ThreadTimer t)" using tm_invD(9) [OF ti, of t] st by auto
  have dt: "threads ?d = threads (upd_thread t ?f k)" "queues ?d = queues k"
    "ready_priority_group ?d = ready_priority_group k" "rt_current_thread ?d = rt_current_thread k"
    "timers ?d = timers k" "rt_timer_list ?d = rt_timer_list k" "rt_soft_timer_list ?d = rt_soft_timer_list k"
    by (simp_all add: rt_object_detach_def container_remove_def upd_thread_def)
  have same: "is_thread ?d u \<longleftrightarrow> u \<noteq> t \<and> is_thread k u" "tstat ?d u = tstat k u" for u
    by (simp_all add: is_thread_def tstat_def dt(1)) (simp_all add: upd_thread_def)
  have "sched_inv {t} (upd_thread t ?f k)"
    using i by (rule sched_inv_upd_thread) (simp_all add: is_thread_def upd_thread_def)
  then have "sched_inv {t} ?d" using sched_inv_cong [of ?d "upd_thread t ?f k"] dt by simp
  then have s1: "sched_inv {} ?d" using sched_inv_release [of t "{}" ?d] same by simp
  have c1: "cur_inv ?d"
    unfolding cur_inv_def same dt(4)
  proof (intro conjI allI impI)
    fix u assume "(u \<noteq> t \<and> is_thread k u) \<and> tstat k u = RT_THREAD_RUNNING"
    then show "rt_current_thread k = Some u" using cur_invD(1) [OF cu] by blast
  next
    fix u assume c: "rt_current_thread k = Some u"
    show "tstat k u \<noteq> RT_THREAD_READY" using cur_invD(2) [OF cu c] .
    show "u \<noteq> t" "is_thread k u" if "tstat k u = RT_THREAD_RUNNING"
      using that st cur_invD(3) [OF cu c] by auto
  qed
  have t1: "tm_inv ?d"
  proof (rule tm_invI)
    have lk: "linked ?d x = linked k x" for x by (simp add: linked_def dt)
    note d = tm_invD [OF ti]
    show "timer_on ?d x RT_TIMER_FLAG_ACTIVATED \<and> timer_is_type ?d x" if "linked ?d x" for x
      using that d(3,4) unfolding lk same_timers [OF dt(5)] by blast
    show "thread_timer_ok ?d u" if "is_thread ?d u" "tstat ?d u \<noteq> RT_THREAD_CLOSE" for u
      using that d(7) [of u] unfolding same same_timers [OF dt(5)] by blast
    show "is_thread ?d u \<and> tstat ?d u = RT_THREAD_SUSPEND" if "linked ?d (ThreadTimer u)" for u
      using that d(8,9) [of u] nl unfolding lk same by (cases "u = t") simp_all
  qed (use tm_invD [OF ti] in \<open>simp_all add: dt same_timers [OF dt(5)]\<close>)
  show "kinv ?d" using s1 c1 t1 by (simp add: kinv_def)
  show "rt_current_thread ?d = rt_current_thread k" by (rule dt(4))
qed

lemma to_defunct_inv:
  assumes i: "sched_inv {t} k" and cu: "cur_inv k" and ti: "tm_inv k" and st: "tstat k t = RT_THREAD_CLOSE"
  shows "kinv (to_defunct t k)" "rt_current_thread (to_defunct t k) = rt_current_thread k"
    "kinv (tlist_insert_after Defunct t k)"
proof -
  let ?q = "tlist_insert_after Defunct t k"
  note d = detach_thread_inv [OF assms]
  have "sched_inv ({} - {t}) ?q"
  proof (rule sched_inv_enqueue [where q = Defunct and ts = "t # queues k Defunct"])
    have "\<not> in_queue k t Defunct" using sched_invD(4) [OF i] by simp
    then show "distinct (t # queues k Defunct)"
      using sched_invD(1) [OF i] by (simp add: queues_ok_def in_queue_def)
  qed (use i st in \<open>auto simp: tlist_insert_after_def\<close>)
  moreover have "cur_inv ?q"
    by (rule cur_inv_cong [OF cu]) (simp_all add: tlist_insert_after_def is_thread_def tstat_def)
  moreover have "tm_inv ?q"
    by (rule tm_inv_same_timers [OF ti]) (simp_all add: tlist_insert_after_def is_thread_def tstat_def)
  ultimately show kq: "kinv ?q" by (simp add: kinv_def)
  show "kinv (to_defunct t k)" using d(1) kq by (simp add: to_defunct_def)
  show "rt_current_thread (to_defunct t k) = rt_current_thread k"
    using d(2) by (simp add: to_defunct_def tlist_insert_after_def)
qed


text \<open>A thread that was never started is in no queue.\<close>

lemma not_started_out:
  assumes "sched_inv {} k" "tstat k t = RT_THREAD_INIT"
  shows "sched_inv {t} k"
proof -
  have "\<not> in_queue k t q" for q
    using sched_invD(6) [OF assms(1), of t q] assms(2) by (cases q) auto
  then show ?thesis using assms(1) by (auto simp: sched_inv_def)
qed

lemma unqueue_ok:
  assumes inv: "kinv k" and th: "is_thread k t"
  obtains k' where "(if tstat k t \<noteq> RT_THREAD_INIT then rt_schedule_remove_thread t k else Some k) = Some k'"
    "sched_inv {t} k'" "cur_inv k'" "tm_inv k'" "threads k' = threads k" "timers k' = timers k"
    "rt_current_thread k' = rt_current_thread k" "kframe k k'"
proof (cases "tstat k t = RT_THREAD_INIT")
  case True
  then show ?thesis
    using not_started_out [OF kinvD(1) [OF inv] True] kinvD(2,3) [OF inv] by (intro that [of k]) simp_all
next
  case False
  obtain g where r: "rt_schedule_remove_thread t k =
      Some (k\<lparr>queues := (\<lambda>q. list_del t (queues k q)), ready_priority_group := g\<rparr>)"
    and i1: "sched_inv {t} (k\<lparr>queues := (\<lambda>q. list_del t (queues k q)), ready_priority_group := g\<rparr>)"
    using sched_inv_remove [OF kinvD(1) [OF inv] th] by blast
  let ?k = "k\<lparr>queues := (\<lambda>q. list_del t (queues k q)), ready_priority_group := g\<rparr>"
  have "cur_inv ?k"
    by (rule cur_inv_cong [OF kinvD(2) [OF inv]]) (simp_all add: is_thread_def tstat_def)
  moreover have "tm_inv ?k"
    by (rule tm_inv_same_timers [OF kinvD(3) [OF inv]]) (simp_all add: is_thread_def tstat_def)
  ultimately show ?thesis
    using False r i1 sched_frame_kframe [OF sched_frame_fields(1), of k]
    by (intro that [of ?k]) simp_all
qed

lemma rt_timer_detach_ok:
  assumes "thread_timer_ok k t"
  shows "rt_timer_detach (ThreadTimer t) k =
    Some (RT_EOK, rt_object_detach (OTimer (ThreadTimer t)) (timer_remove (ThreadTimer t) k))"
  using assms by (simp add: rt_timer_detach_def thread_timer_ok_def)

lemma thread_timer_ok_threads: "timers k' = timers k \<Longrightarrow> thread_timer_ok k' t = thread_timer_ok k t"
  by (rule same_timers(4))

lemma rt_thread_delete_ok:
  assumes inv: "kinv k" and th: "is_thread k t" and st: "tstat k t \<noteq> RT_THREAD_CLOSE"
  shows "\<not> rt_object_is_systemobject k (OThread t) \<Longrightarrow>
      returns (rt_thread_delete t k) (\<lambda>(r, k'). r = RT_EOK \<and> kinv k' \<and> tstat k' t = RT_THREAD_CLOSE \<and>
        rt_current_thread k' = rt_current_thread k)"
    and "rt_object_is_systemobject k (OThread t) \<Longrightarrow>
      returns (rt_thread_detach t k) (\<lambda>(r, k'). r = RT_EOK \<and> kinv k' \<and> tstat k' t = RT_THREAD_CLOSE \<and>
        rt_current_thread k' = rt_current_thread k)"
proof -
  obtain k1 where k1: "(if tstat k t \<noteq> RT_THREAD_INIT then rt_schedule_remove_thread t k else Some k) = Some k1"
    "sched_inv {t} k1" "cur_inv k1" "tm_inv k1" "threads k1 = threads k" "timers k1 = timers k"
    "rt_current_thread k1 = rt_current_thread k"
    by (rule unqueue_ok [OF inv th])
  have tt: "thread_timer_ok k1 t"
    using tm_invD(7) [OF kinvD(3) [OF inv] th st] thread_timer_ok_threads [OF k1(6)] by simp
  note cs = closed_state_inv [OF k1(2-4)]
  have sc: "tstat (closed_state t k1) t = RT_THREAD_CLOSE" by (simp add: closed_state_same)
  note df = to_defunct_inv [OF cs sc]
  have td: "tstat (to_defunct t (closed_state t k1)) t = RT_THREAD_CLOSE"
    using sc by (simp add: to_defunct_def tstat_def rt_object_detach_def container_remove_def
        upd_thread_def tlist_insert_after_def)
  have tq: "tstat (tlist_insert_after Defunct t (closed_state t k1)) t = RT_THREAD_CLOSE"
    "rt_current_thread (tlist_insert_after Defunct t (closed_state t k1)) = rt_current_thread k"
    using sc k1(7) by (simp_all add: tstat_def tlist_insert_after_def)
  show "returns (rt_thread_delete t k) (\<lambda>(r, k'). r = RT_EOK \<and> kinv k' \<and> tstat k' t = RT_THREAD_CLOSE \<and>
        rt_current_thread k' = rt_current_thread k)" if "\<not> rt_object_is_systemobject k (OThread t)"
    using that th k1(1) rt_timer_detach_ok [OF tt] df(3) tq
    by (simp add: rt_thread_delete_def closed_state_def [symmetric])
  show "returns (rt_thread_detach t k) (\<lambda>(r, k'). r = RT_EOK \<and> kinv k' \<and> tstat k' t = RT_THREAD_CLOSE \<and>
        rt_current_thread k' = rt_current_thread k)" if "rt_object_is_systemobject k (OThread t)"
    using that th k1(1,7) rt_timer_detach_ok [OF tt] df(1,2) td
    by (simp add: rt_thread_detach_def closed_state_def [symmetric])
qed

lemma closed_state_commute:
  "rt_object_detach (OTimer (ThreadTimer t)) (timer_remove (ThreadTimer t)
     (upd_thread t (stat_update (\<lambda>_. RT_THREAD_CLOSE)) k)) = closed_state t k"
  by (simp add: closed_state_def rt_object_detach_def container_remove_def upd_thread_def upd_timer_def
      timer_remove_def)

lemma rt_thread_exit_ok:
  assumes inv: "kinv k" and cur: "rt_current_thread k = Some t" and run: "tstat k t = RT_THREAD_RUNNING"
  obtains k' where "rt_thread_exit k = Some k'" "kinv k'" "tstat k' t = RT_THREAD_CLOSE"
    "scheduler_lock_nest k = 0 \<Longrightarrow> runs_highest k'"
proof -
  have th: "is_thread k t" using cur_invD(3) [OF kinvD(2) [OF inv] cur run] .
  obtain k1 where k1: "(if tstat k t \<noteq> RT_THREAD_INIT then rt_schedule_remove_thread t k else Some k) = Some k1"
    "sched_inv {t} k1" "cur_inv k1" "tm_inv k1" "threads k1 = threads k" "timers k1 = timers k"
    "rt_current_thread k1 = rt_current_thread k" "kframe k k1"
    by (rule unqueue_ok [OF inv th])
  let ?k2 = "upd_thread t (stat_update (\<lambda>_. RT_THREAD_CLOSE)) k1"
  have tt: "thread_timer_ok ?k2 t"
    using tm_invD(7) [OF kinvD(3) [OF inv] th] run thread_timer_ok_threads [of ?k2 k] k1(6) by simp
  note cs = closed_state_inv [OF k1(2-4)]
  have sc: "tstat (closed_state t k1) t = RT_THREAD_CLOSE" by (simp add: closed_state_same)
  note df = to_defunct_inv [OF cs sc]
  let ?d = "to_defunct t (closed_state t k1)"
  have c: "rt_current_thread ?d \<noteq> None" using df(2) k1(7) cur by simp
  obtain k' where k': "rt_schedule ?d = Some k'" "kinv k'" "schedule_post ?d k'"
    using rt_schedule_kinv [OF df(1) c] by blast
  have td: "tstat ?d t = RT_THREAD_CLOSE"
    using sc by (simp add: to_defunct_def tstat_def rt_object_detach_def container_remove_def
        upd_thread_def tlist_insert_after_def)
  have "scheduler_lock_nest ?d = scheduler_lock_nest k1"
    by (simp add: to_defunct_def closed_state_def rt_object_detach_def container_remove_def
        upd_thread_def upd_timer_def timer_remove_def tlist_insert_after_def)
  moreover have "tstat k' t = tstat ?d t \<or> {tstat ?d t, tstat k' t} = {RT_THREAD_READY, RT_THREAD_RUNNING}"
    using k'(3) unfolding schedule_post_def by blast
  moreover have "rt_thread_exit k = Some k'"
    using cur run k1(1) rt_timer_detach_ok [OF tt] k'(1)
    by (simp add: rt_thread_exit_def rt_thread_self_def closed_state_commute)
  ultimately show ?thesis
    using that [of k'] k' td kframeD(10) [OF k1(8)] by (auto simp: schedule_post_def doubleton_eq_iff)
qed

end
