(* ===== verification/Blocking.thy ===== *)
theory Blocking
  imports Sample
begin

section \<open>Blocking calls and wake-ups\<close>

text \<open>
  What it means that a call blocks the current thread on a waiting list, and that a call wakes
  the first thread of one: the specifications that semaphores, mutexes, events, mailboxes and
  message queues share, with the lemmas that the code of \<open>ipc.c\<close> meets them.
\<close>

lemma rt_schedule_insert_waiting:
  assumes "rt_schedule_insert_thread t k = Some k'" "waiting_queue r"
  shows "queues k' r = queues k r"
  using assms by (auto simp: rt_schedule_insert_thread_def Let_def kdefs require_def waiting_queue_def
      split: if_splits)

lemma make_running_waiting:
  assumes "make_running t k = Some k'"
  shows "queues k' r = list_del t (queues k r)"
  using assms by (auto simp: make_running_def rt_schedule_remove_thread_def Let_def kdefs require_def
      Option.bind_eq_Some_conv split: if_splits)

lemma rt_schedule_waiting:
  assumes inv: "kinv k" and ex: "rt_schedule k = Some k'" and r: "waiting_queue r"
  shows "queues k' r = queues k r"
proof (cases "scheduler_lock_nest k = 0 \<and> ready_priority_group k \<noteq> 0")
  case False
  then show ?thesis using ex by (auto simp: rt_schedule_def)
next
  case True
  note si = kinvD(1) [OF inv]
  obtain h p where hp: "get_highest_priority_thread k = Some (h, p)" "in_queue k h (Ready p)"
    using get_highest_priority_thread_ok [OF si] True by metis
  have h: "h \<notin> set (queues k r)"
    using not_waiting [OF si _ r, of h] ready_in_queue [OF si hp(2)] by simp
  obtain c where c: "rt_current_thread k = Some c"
    using ex True hp by (cases "rt_current_thread k") (auto simp: rt_schedule_def)
  have w: "queues k3 r = queues k1 r" if "rt_schedule_insert_thread c k1 = Some k3" for k1 k3
    using rt_schedule_insert_waiting [OF that r] .
  consider "schedule_choice c h p k = (c, False, k)" "tstat k c = RT_THREAD_RUNNING"
    | k1 where "schedule_choice c h p k = (h, True, k1)" "queues k1 = queues k"
    | "schedule_choice c h p k = (h, False, k)"
    by (rule schedule_choice_cases [of c h p k]) auto
  then show ?thesis
  proof cases
    case 1
    then have "make_running c k = Some k'" using ex True hp c by (simp add: rt_schedule_def)
    moreover have "c \<notin> set (queues k r)" using not_waiting [OF si _ r, of c] 1 by simp
    ultimately show ?thesis using make_running_waiting by (simp add: list_del_notin)
  next
    case 2
    then show ?thesis
      using ex True hp c h by (auto simp: rt_schedule_def require_def Option.bind_eq_Some_conv list_del_notin
          dest!: w make_running_waiting [where r = r] split: if_splits)
  next
    case 3
    then show ?thesis
      using ex True hp c h by (auto simp: rt_schedule_def require_def Option.bind_eq_Some_conv list_del_notin
          dest!: make_running_waiting [where r = r] split: if_splits)
  qed
qed

text \<open>\<open>waits_on\<close>: the thread \<open>c\<close> has been suspended on \<open>q\<close>, with its timer running when the
  timeout is positive, and another thread has been chosen; \<open>waits_in\<close> gives the new waiting list.\<close>

definition waits_in :: "queue \<Rightarrow> tid list \<Rightarrow> tid \<Rightarrow> u32 \<Rightarrow> kernel \<Rightarrow> kernel \<Rightarrow> bool" where
  "waits_in q W c time k k' \<longleftrightarrow> kinv k' \<and> kframe k k' \<and> tstat k' c = RT_THREAD_SUSPEND \<and> queues k' q = W \<and>
     (\<forall>r. waiting_queue r \<and> r \<noteq> q \<longrightarrow> queues k' r = queues k r) \<and>
     (linked k' (ThreadTimer c) \<longleftrightarrow> sint time > 0) \<and>
     (sint time > 0 \<longrightarrow> timeout_tick (timers k' (ThreadTimer c)) = rt_tick k + time) \<and>
     (scheduler_lock_nest k = 0 \<longrightarrow> runs_highest k') \<and> rt_current_thread k' \<noteq> None"

definition waits_on :: "queue \<Rightarrow> u8 \<Rightarrow> tid \<Rightarrow> u32 \<Rightarrow> kernel \<Rightarrow> kernel \<Rightarrow> bool" where
  waits_on_in: "waits_on q flag c time k k' \<longleftrightarrow>
     waits_in q (wait_insert flag (\<lambda>s. current_priority (threads k s)) c (queues k q)) c time k k'"

lemma waits_on_def:
  "waits_on q flag c time k k' \<longleftrightarrow> kinv k' \<and> kframe k k' \<and> tstat k' c = RT_THREAD_SUSPEND \<and>
     queues k' q = wait_insert flag (\<lambda>s. current_priority (threads k s)) c (queues k q) \<and>
     (\<forall>r. waiting_queue r \<and> r \<noteq> q \<longrightarrow> queues k' r = queues k r) \<and>
     (linked k' (ThreadTimer c) \<longleftrightarrow> sint time > 0) \<and>
     (sint time > 0 \<longrightarrow> timeout_tick (timers k' (ThreadTimer c)) = rt_tick k + time) \<and>
     (scheduler_lock_nest k = 0 \<longrightarrow> runs_highest k') \<and> rt_current_thread k' \<noteq> None"
  by (simp add: waits_on_in waits_in_def)

lemma waiting_schedule_ok:
  assumes inv: "kinv k" and cur: "rt_current_thread k = Some c" and run: "tstat k c = RT_THREAD_RUNNING"
    and q: "waiting_queue q" and k1: "kinv k1" "kframe k k1" "rt_current_thread k1 = rt_current_thread k"
    and ts: "tstat k1 c = RT_THREAD_SUSPEND"
    and qs: "queues k1 q = W" "\<And>r. r \<noteq> q \<Longrightarrow> queues k1 r = list_del c (queues k r)"
    and tm: "linked k1 (ThreadTimer c) \<longleftrightarrow> sint time > 0"
    "sint time > 0 \<Longrightarrow> timeout_tick (timers k1 (ThreadTimer c)) = rt_tick k + time"
  obtains k2 where "rt_schedule k1 = Some k2" "waits_in q W c time k k2"
proof -
  obtain k2 where k2: "rt_schedule k1 = Some k2" "kinv k2" "schedule_post k1 k2" "kframe k1 k2"
    using rt_schedule_kinv [OF k1(1)] k1(3) cur by auto
  have p: "sched_frame k1 k2" "rt_current_thread k2 \<noteq> None" "scheduler_lock_nest k1 = 0 \<Longrightarrow> runs_highest k2"
    and st: "tstat k2 c = tstat k1 c \<or> {tstat k1 c, tstat k2 c} = {RT_THREAD_READY, RT_THREAD_RUNNING}"
    using k2(3) unfolding schedule_post_def by blast+
  have "tstat k2 c = RT_THREAD_SUSPEND" using st ts by (auto simp: doubleton_eq_iff)
  moreover have "queues k2 r = queues k1 r" if "waiting_queue r" for r
    using rt_schedule_waiting [OF k1(1) k2(1) that] .
  moreover have "list_del c (queues k r) = queues k r" if "waiting_queue r" for r
    using not_waiting [OF kinvD(1) [OF inv] _ that, of c] run by (simp add: list_del_notin)
  moreover have "linked k2 x = linked k1 x" "timers k2 = timers k1" for x
    using sched_frameD [OF p(1)] by (simp_all add: linked_def)
  moreover have "kframe k k2" using kframe_trans [OF k1(2) k2(4)] .
  ultimately have "waits_in q W c time k k2"
    using k2(2) p(2,3) qs tm q kframeD(10) [OF k1(2)] by (simp add: waits_in_def)
  then show ?thesis using that k2(1) by blast
qed

lemma ipc_block_ok:
  assumes inv: "kinv k" and cur: "rt_current_thread k = Some c" and run: "tstat k c = RT_THREAD_RUNNING"
    and q: "waiting_queue q" and to: "timeout_ok time"
  obtains k1 k2 where "ipc_wait q c flag time k = Some k1" "rt_schedule k1 = Some k2"
    "waits_on q flag c time k k2"
proof -
  have th: "is_thread k c" using cur_invD(3) [OF kinvD(2) [OF inv] cur run] .
  obtain k1 where k1: "ipc_wait q c flag time k = Some k1" "kinv k1" "kframe k k1"
    "rt_current_thread k1 = rt_current_thread k"
    and ts: "\<And>u. tstat k1 u = (if u = c then RT_THREAD_SUSPEND else tstat k u)"
    and qs: "queues k1 q = wait_insert flag (\<lambda>s. current_priority (threads k s)) c (queues k q)"
      "\<And>r. r \<noteq> q \<Longrightarrow> queues k1 r = list_del c (queues k r)"
    and tm: "linked k1 (ThreadTimer c) \<longleftrightarrow> sint time > 0"
    "sint time > 0 \<Longrightarrow> timeout_tick (timers k1 (ThreadTimer c)) = rt_tick k + time"
    by (rule ipc_wait_ok [OF inv th disjI2 [OF run] q to]) blast
  have tc: "tstat k1 c = RT_THREAD_SUSPEND" using ts by simp
  obtain k2 where "rt_schedule k1 = Some k2" "waits_on q flag c time k k2"
    unfolding waits_on_in by (rule waiting_schedule_ok [OF inv cur run q k1(2-4) tc qs tm])
  then show ?thesis using that k1(1) by blast
qed

text \<open>Some other thread runs when one is ready; the idle thread always is.\<close>

lemma waits_on_switches:
  assumes w: "waits_on q flag c time k k'" and "scheduler_lock_nest k = 0"
    and u: "is_thread k' u" "tstat k' u \<in> {RT_THREAD_READY, RT_THREAD_RUNNING}"
  shows "rt_current_thread k' \<noteq> Some c"
proof -
  have h: "runs_highest k'" and s: "tstat k' c = RT_THREAD_SUSPEND" and i: "kinv k'"
    using assms(1,2) by (simp_all add: waits_on_def)
  show ?thesis
  proof (cases "tstat k' u = RT_THREAD_READY")
    case True
    then show ?thesis using h u s unfolding runs_highest_def by fastforce
  next
    case False
    then have "rt_current_thread k' = Some u" using u cur_invD(1) [OF kinvD(2) [OF i] u(1)] by simp
    then show ?thesis using u s by auto
  qed
qed

text \<open>\<open>wakes\<close>: the first thread of the waiting list \<open>q\<close> has been resumed.\<close>

definition wakes :: "queue \<Rightarrow> tid \<Rightarrow> kernel \<Rightarrow> kernel \<Rightarrow> bool" where
  "wakes q t k k' \<longleftrightarrow> kinv k' \<and> kframe k k' \<and> queues k q = t # queues k' q \<and>
     tstat k' t \<in> {RT_THREAD_READY, RT_THREAD_RUNNING} \<and>
     (\<forall>r. waiting_queue r \<and> r \<noteq> q \<longrightarrow> queues k' r = queues k r) \<and>
     (scheduler_lock_nest k = 0 \<longrightarrow> runs_highest k') \<and> rt_current_thread k' \<noteq> None"

lemma ipc_wake_ok:
  assumes inv: "kinv k" and q: "waiting_queue q" and h: "queues k q = t # ts"
    and cur: "rt_current_thread k \<noteq> None"
  obtains k1 k2 where "rt_ipc_list_resume q k = Some k1" "rt_schedule k1 = Some k2" "wakes q t k k2"
proof -
  obtain k1 where k1: "rt_ipc_list_resume q k = Some k1" "kinv k1" "kframe k k1"
    "rt_current_thread k1 = rt_current_thread k" "queues k1 q = ts"
    and r: "\<And>r. waiting_queue r \<Longrightarrow> r \<noteq> q \<Longrightarrow> queues k1 r = queues k r"
    and st: "\<And>u. tstat k1 u = (if u = t then (if rt_current_thread k = Some t then RT_THREAD_RUNNING
                         else RT_THREAD_READY) else tstat k u)"
    by (rule rt_ipc_list_resume_ok [OF inv q h]) blast
  obtain k2 where k2: "rt_schedule k1 = Some k2" "kinv k2" "schedule_post k1 k2" "kframe k1 k2"
    using rt_schedule_kinv [OF k1(2)] k1(4) cur by auto
  have p: "rt_current_thread k2 \<noteq> None" "scheduler_lock_nest k1 = 0 \<Longrightarrow> runs_highest k2"
    and s2: "tstat k2 t = tstat k1 t \<or> {tstat k1 t, tstat k2 t} = {RT_THREAD_READY, RT_THREAD_RUNNING}"
    using k2(3) unfolding schedule_post_def by blast+
  have "tstat k2 t \<in> {RT_THREAD_READY, RT_THREAD_RUNNING}"
    using s2 st [of t] by (auto simp: doubleton_eq_iff split: if_splits)
  moreover have "queues k2 r = queues k1 r" if "waiting_queue r" for r
    using rt_schedule_waiting [OF k1(2) k2(1) that] .
  moreover have "kframe k k2" using kframe_trans [OF k1(3) k2(4)] .
  ultimately have "wakes q t k k2"
    using k2(2) p k1(5) r q h kframeD(10) [OF k1(3)] by (simp add: wakes_def)
  then show ?thesis using that k1(1) k2(1) by blast
qed

text \<open>Waking the first thread of a waiting list, if there is one, and scheduling.\<close>

definition woken_first :: "queue \<Rightarrow> kernel \<Rightarrow> kernel \<Rightarrow> bool" where
  "woken_first q k k' \<longleftrightarrow> kinv k' \<and> kframe k k' \<and> rt_current_thread k' \<noteq> None \<and>
     (case queues k q of [] \<Rightarrow> k' = k | t # ts \<Rightarrow> wakes q t k k')"

lemma wake_first_ok:
  assumes inv: "kinv k" and q: "waiting_queue q" and cur: "rt_current_thread k \<noteq> None"
  obtains k' where "(if \<not> tlist_isempty q k then do { k1 \<leftarrow> rt_ipc_list_resume q k; rt_schedule k1 } else Some k) = Some k'"
    "woken_first q k k'"
proof (cases "queues k q")
  case Nil
  then show ?thesis using that [of k] inv cur by (simp add: woken_first_def tlist_isempty_def)
next
  case (Cons t ts)
  obtain k1 k2 where k2: "rt_ipc_list_resume q k = Some k1" "rt_schedule k1 = Some k2" "wakes q t k k2"
    by (rule ipc_wake_ok [OF inv q Cons cur]) blast
  then show ?thesis using that [of k2] Cons by (simp add: woken_first_def tlist_isempty_def wakes_def)
qed

subsection \<open>The calling thread\<close>

text \<open>The state in which thread \<open>c\<close> makes a call: it is running, outside interrupts.\<close>

definition in_call :: "kernel \<Rightarrow> tid \<Rightarrow> bool" where
  "in_call k c \<longleftrightarrow> kinv k \<and> rt_current_thread k = Some c \<and> tstat k c = RT_THREAD_RUNNING \<and> interrupt_nest k = 0"

lemma in_callD:
  assumes "in_call k c"
  shows "kinv k" "rt_current_thread k = Some c" "tstat k c = RT_THREAD_RUNNING" "interrupt_nest k = 0"
    "in_thread_context k" "rt_thread_self k = Some c"
  using assms by (simp_all add: in_call_def in_thread_context_def rt_thread_self_def rt_interrupt_get_nest_def)

lemma in_call_set_error [simp]: "in_call k c \<Longrightarrow> in_call (set_error t e k) c"
  by (simp add: in_call_def)

text \<open>A blocking round of a call: the error is cleared and the caller put on the waiting list \<open>q\<close>.\<close>

lemma call_wait_ok:
  assumes c: "in_call k c" and to: "timeout_ok time" and q: "waiting_queue q"
  obtains k1 k2 where "ipc_wait q c flag time (set_error c RT_EOK k) = Some k1" "rt_schedule k1 = Some k2"
    "waits_on q flag c time (set_error c RT_EOK k) k2" "oframe k k2"
proof -
  let ?k = "set_error c RT_EOK k"
  note d = in_callD [OF in_call_set_error [OF c]]
  obtain k1 k2 where k2: "ipc_wait q c flag time ?k = Some k1" "rt_schedule k1 = Some k2" "waits_on q flag c time ?k k2"
    by (rule ipc_block_ok [OF d(1-3) q to]) blast
  moreover have "oframe k k2"
    using k2(3) oframe_trans [OF oframe_set_error kframe_oframe [of ?k k2]] by (simp add: waits_on_def)
  ultimately show ?thesis using that by blast
qed

lemma sample_in_call: "in_call sample 1"
  by (simp add: in_call_def sample_kinv sample_tstat)

text \<open>A thread may wait; elsewhere, in an interrupt, only calls without waiting time are made.\<close>

definition may_call :: "kernel \<Rightarrow> u32 \<Rightarrow> bool" where
  "may_call k time \<longleftrightarrow> kinv k \<and> rt_current_thread k \<noteq> None \<and> timeout_ok time \<and> (time = 0 \<or> (\<exists>c. in_call k c))"

lemma sample_may_call: "timeout_ok time \<Longrightarrow> may_call sample time"
  using sample_in_call by (auto simp: may_call_def sample_kinv)

lemma kinv_objects:
  assumes "kinv k"
  shows "kinv (upd_sem s f k)" "kinv (upd_mutex m g k)" "kinv (upd_event e h k)" "kinv (upd_mb b i k)"
    "kinv (upd_mq q j k)" "kinv (upd_mp p l k)"
  by (rule kinv_view [OF _ _ _ _ _ _ _ _ _ _ assms];
      simp add: is_thread_def tstat_def tprio_def thread_ok_def started_def kdefs)+

lemma kinv_mp_links: "kinv k \<Longrightarrow> kinv (k\<lparr>mp_links := l\<rparr>)" "kinv k \<Longrightarrow> kinv (k\<lparr>rt_errno := e\<rparr>)"
  by (rule kinv_view; simp add: is_thread_def tstat_def tprio_def thread_ok_def started_def)+

lemma obj_is_simps [simp]:
  "obj_is k (OSem s) ty \<longleftrightarrow> obj_type (sems k s) AND NOT RT_Object_Class_Static = class_code ty"
  "obj_is k (OMutex m) ty \<longleftrightarrow> obj_type (mutexes k m) AND NOT RT_Object_Class_Static = class_code ty"
  "obj_is k (OEvent e) ty \<longleftrightarrow> obj_type (events k e) AND NOT RT_Object_Class_Static = class_code ty"
  "obj_is k (OMailBox b) ty \<longleftrightarrow> obj_type (mailboxes k b) AND NOT RT_Object_Class_Static = class_code ty"
  "obj_is k (OMsgQueue q) ty \<longleftrightarrow> obj_type (msgqueues k q) AND NOT RT_Object_Class_Static = class_code ty"
  "obj_is k (OMemPool p) ty \<longleftrightarrow> obj_type (mempools k p) AND NOT RT_Object_Class_Static = class_code ty"
  by (simp_all add: obj_is_def rt_object_get_type_def)

end
