(* ===== verification/TimerProps.thy ===== *)
theory TimerProps
  imports Blocking
begin

section \<open>Timer lists in order, and what the tick interrupt does with them\<close>

text \<open>
  Ticks wrap around.  A list of timers is in order from a base tick \<open>b\<close> when the timeout ticks,
  read as distances from \<open>b\<close>, grow along the list and span less than half the range of the tick,
  which is what the wrapped comparisons of \<open>timer.c\<close> need.
\<close>

definition in_order :: "u32 \<Rightarrow> (timer_id \<Rightarrow> u32) \<Rightarrow> timer_id list \<Rightarrow> bool" where
  "in_order b tick xs \<longleftrightarrow> (\<forall>x \<in> set xs. ahead b (tick x) < 2 ^ 31 - 1) \<and>
     sorted_wrt (\<lambda>x y. ahead b (tick x) \<le> ahead b (tick y)) xs"

lemma in_order_Nil [simp]: "in_order b tick []"
  by (simp add: in_order_def)

lemma in_order_Cons:
  "in_order b tick (x # xs) \<longleftrightarrow> ahead b (tick x) < 2 ^ 31 - 1 \<and>
     (\<forall>y \<in> set xs. ahead b (tick x) \<le> ahead b (tick y)) \<and> in_order b tick xs"
  by (auto simp: in_order_def)

lemma in_order_cong: "(\<And>x. x \<in> set xs \<Longrightarrow> tick x = tick' x) \<Longrightarrow> in_order b tick xs = in_order b tick' xs"
  by (induction xs) (auto simp: in_order_Cons)

lemma in_order_list_del: "in_order b tick xs \<Longrightarrow> in_order b tick (list_del x xs)"
  by (induction xs) (auto simp: in_order_Cons list_del_def)

text \<open>In order, insertion is the stable one: after every timer that is due no later.\<close>

lemma timer_insert_split:
  assumes "\<forall>y \<in> set xs. ahead b (tick y) < 2 ^ 31 - 1" "ahead b (tick x) < 2 ^ 31 - 1"
  shows "timer_insert tick x xs = takeWhile (\<lambda>y. ahead b (tick y) \<le> ahead b (tick x)) xs @
     x # dropWhile (\<lambda>y. ahead b (tick y) \<le> ahead b (tick x)) xs"
  using assms
proof (induction xs)
  case (Cons y ys)
  have h: "tick y - tick x < RT_TICK_HALF \<longleftrightarrow> ahead b (tick x) \<le> ahead b (tick y)"
    using Cons.prems by (intro half_range_order) auto
  have z: "tick y - tick x = 0 \<longleftrightarrow> ahead b (tick x) = ahead b (tick y)"
    by (auto simp: ahead_inj)
  show ?case using Cons by (auto simp: h z simp del: right_minus_eq)
qed simp

lemma sorted_takeWhile_filter:
  assumes "sorted_wrt (\<lambda>x y. f x \<le> (f y :: nat)) xs"
  shows "takeWhile (\<lambda>y. f y \<le> n) xs = filter (\<lambda>y. f y \<le> n) xs"
    "dropWhile (\<lambda>y. f y \<le> n) xs = filter (\<lambda>y. \<not> f y \<le> n) xs"
proof -
  have "takeWhile (\<lambda>y. f y \<le> n) xs = filter (\<lambda>y. f y \<le> n) xs \<and>
      dropWhile (\<lambda>y. f y \<le> n) xs = filter (\<lambda>y. \<not> f y \<le> n) xs"
    using assms
  proof (induction xs)
    case (Cons y ys)
    show ?case
    proof (cases "f y \<le> n")
      case False
      then have "\<not> f z \<le> n" if "z \<in> set ys" for z using Cons.prems that by fastforce
      then have "filter (\<lambda>y. f y \<le> n) ys = []" "filter (\<lambda>y. \<not> f y \<le> n) ys = ys"
        by (simp_all add: filter_empty_conv filter_id_conv)
      then show ?thesis using False by simp
    qed (use Cons in simp)
  qed simp
  then show "takeWhile (\<lambda>y. f y \<le> n) xs = filter (\<lambda>y. f y \<le> n) xs"
    "dropWhile (\<lambda>y. f y \<le> n) xs = filter (\<lambda>y. \<not> f y \<le> n) xs" by simp_all
qed

lemma timer_insert_filter:
  assumes "in_order b tick xs" "ahead b (tick x) < 2 ^ 31 - 1"
  shows "timer_insert tick x xs = filter (\<lambda>y. ahead b (tick y) \<le> ahead b (tick x)) xs @
     x # filter (\<lambda>y. \<not> ahead b (tick y) \<le> ahead b (tick x)) xs"
  using assms timer_insert_split [of xs b tick x]
    sorted_takeWhile_filter [of "\<lambda>y. ahead b (tick y)" xs "ahead b (tick x)"]
  by (simp add: in_order_def)

lemma in_order_insert:
  assumes "in_order b tick xs" "ahead b (tick x) < 2 ^ 31 - 1"
  shows "in_order b tick (timer_insert tick x xs)"
  using assms unfolding timer_insert_filter [OF assms] in_order_def
  by (auto simp: sorted_wrt_append sorted_wrt_filter)

subsection \<open>Starting a timer\<close>

lemma timer_started_lists:
  "rt_timer_list (timer_started x k) = (if timer_on k x RT_TIMER_FLAG_SOFT_TIMER then list_del x (rt_timer_list k)
     else timer_insert (\<lambda>y. timeout_tick (timers (timer_started x k) y)) x (list_del x (rt_timer_list k)))"
  "timeout_tick (timers (timer_started x k) y) =
     (if y = x then rt_tick k + init_tick (timers k x) else timeout_tick (timers k y))"
  by (simp_all add: timer_started_def times_only_same cong: if_cong)
    (auto simp: clear_activated_def intro!: arg_cong [where f = "\<lambda>f. timer_insert f x _"])

lemma timer_started_in_order:
  assumes hard: "\<not> timer_on k x RT_TIMER_FLAG_SOFT_TIMER"
    and so: "in_order b (\<lambda>y. timeout_tick (timers k y)) (rt_timer_list k)"
    and w: "ahead b (rt_tick k + init_tick (timers k x)) < 2 ^ 31 - 1"
  shows "in_order b (\<lambda>y. timeout_tick (timers (timer_started x k) y)) (rt_timer_list (timer_started x k))"
    and "rt_timer_list (timer_started x k) =
      (let due = ahead b (rt_tick k + init_tick (timers k x)); others = filter (\<lambda>y. y \<noteq> x) (rt_timer_list k)
       in filter (\<lambda>y. ahead b (timeout_tick (timers k y)) \<le> due) others @
          x # filter (\<lambda>y. \<not> ahead b (timeout_tick (timers k y)) \<le> due) others)"
proof -
  let ?k = "timer_started x k" and ?xs = "list_del x (rt_timer_list k)"
  have "in_order b (\<lambda>y. timeout_tick (timers k y)) ?xs" by (rule in_order_list_del [OF so])
  then have o: "in_order b (\<lambda>y. timeout_tick (timers ?k y)) ?xs"
    by (rule in_order_cong [THEN iffD1, rotated]) (auto simp: timer_started_lists)
  have w': "ahead b (timeout_tick (timers ?k x)) < 2 ^ 31 - 1" using w by (simp add: timer_started_lists)
  have l: "rt_timer_list ?k = timer_insert (\<lambda>y. timeout_tick (timers ?k y)) x ?xs"
    using hard timer_started_lists(1) [of x k] by simp
  show "in_order b (\<lambda>y. timeout_tick (timers ?k y)) (rt_timer_list ?k)"
    unfolding l by (rule in_order_insert [OF o w'])
  show "rt_timer_list ?k =
      (let due = ahead b (rt_tick k + init_tick (timers k x)); others = filter (\<lambda>y. y \<noteq> x) (rt_timer_list k)
       in filter (\<lambda>y. ahead b (timeout_tick (timers k y)) \<le> due) others @
          x # filter (\<lambda>y. \<not> ahead b (timeout_tick (timers k y)) \<le> due) others)"
    unfolding l timer_insert_filter [OF o w']
    unfolding timer_started_lists(2) Let_def
    by (simp add: list_del_def cong: conj_cong)
qed

text \<open>C4: \<open>rt_timer_start\<close> on a hard timer with a timeout below half the tick range, and with the
  list in order from some base tick: the timer is due at the current tick plus its period, the list
  stays in order, the timers due no later than it come before it and the others after it, each
  group in its old order; the kernel invariant is kept.\<close>

theorem rt_timer_start_in_order:
  assumes inv: "kinv k" and ty: "timer_is_type k x" and it: "init_tick (timers k x) < RT_TICK_HALF"
    and hard: "\<not> timer_on k x RT_TIMER_FLAG_SOFT_TIMER"
    and th: "\<forall>t. x = ThreadTimer t \<longrightarrow> is_thread k t \<and> tstat k t = RT_THREAD_SUSPEND"
    and so: "in_order b (\<lambda>y. timeout_tick (timers k y)) (rt_timer_list k)"
    and w: "ahead b (rt_tick k + init_tick (timers k x)) < 2 ^ 31 - 1"
  shows "\<exists>k'. rt_timer_start x k = Some (RT_EOK, k') \<and> kinv k' \<and>
    timeout_tick (timers k' x) = rt_tick k + init_tick (timers k x) \<and>
    timer_on k' x RT_TIMER_FLAG_ACTIVATED \<and>
    in_order b (\<lambda>y. timeout_tick (timers k' y)) (rt_timer_list k') \<and>
    rt_timer_list k' =
      (let due = ahead b (rt_tick k + init_tick (timers k x)); others = filter (\<lambda>y. y \<noteq> x) (rt_timer_list k)
       in filter (\<lambda>y. ahead b (timeout_tick (timers k y)) \<le> due) others @
          x # filter (\<lambda>y. \<not> ahead b (timeout_tick (timers k y)) \<le> due) others)"
proof -
  obtain k' where k': "rt_timer_start x k = Some (RT_EOK, k')" "kinv k'" "k' = timer_started x k"
    using rt_timer_start_ok [OF inv ty it] th hard by metis
  have "timer_on k' x RT_TIMER_FLAG_ACTIVATED"
    using tm_invD(3) [OF kinvD(3) [OF k'(2)], of x] k'(3) by simp
  moreover have "timeout_tick (timers k' x) = rt_tick k + init_tick (timers k x)"
    by (simp add: k'(3) timer_started_lists(2))
  ultimately show ?thesis using k'(1,2) timer_started_in_order [OF hard so w] unfolding k'(3) by blast
qed

lemma rt_timer_start_in_order_witness:
  "\<exists>k'. rt_timer_start (UserTimer 1) sample = Some (RT_EOK, k') \<and> kinv k' \<and>
    timeout_tick (timers k' (UserTimer 1)) = rt_tick sample + init_tick (timers sample (UserTimer 1)) \<and>
    timer_on k' (UserTimer 1) RT_TIMER_FLAG_ACTIVATED \<and>
    in_order 100 (\<lambda>y. timeout_tick (timers k' y)) (rt_timer_list k') \<and>
    rt_timer_list k' =
      (let due = ahead 100 (rt_tick sample + init_tick (timers sample (UserTimer 1)));
           others = filter (\<lambda>y. y \<noteq> UserTimer 1) (rt_timer_list sample)
       in filter (\<lambda>y. ahead 100 (timeout_tick (timers sample y)) \<le> due) others @
          UserTimer 1 # filter (\<lambda>y. \<not> ahead 100 (timeout_tick (timers sample y)) \<le> due) others)"
  by (rule rt_timer_start_in_order [OF sample_kinv])
    (simp_all add: sample_timers_def zero_timer_def timer_is_type_def rt_object_get_type_def timer_on_def ahead_def)

subsection \<open>The tick interrupt\<close>

definition expired :: "kernel \<Rightarrow> timer_id set" where
  "expired k = {x \<in> set (rt_timer_list k). rt_tick k - timeout_tick (timers k x) < RT_TICK_HALF}"

lemma expired_iff:
  assumes "in_order b (\<lambda>y. timeout_tick (timers k y)) (rt_timer_list k)" "ahead b (rt_tick k) < 2 ^ 31 - 1"
  shows "x \<in> expired k \<longleftrightarrow> x \<in> set (rt_timer_list k) \<and> ahead b (timeout_tick (timers k x)) \<le> ahead b (rt_tick k)"
  using half_range_order [OF assms(2), of "timeout_tick (timers k x)"] assms(1)
  by (auto simp: expired_def in_order_def)

lemma finite_expired [simp]: "finite (expired k)"
  by (simp add: expired_def)


text \<open>Functions of the kernel that leave the timers and their lists alone.\<close>

definition same_lists :: "kernel \<Rightarrow> kernel \<Rightarrow> bool" where
  "same_lists k k' \<longleftrightarrow> timers k' = timers k \<and> rt_timer_list k' = rt_timer_list k \<and>
     rt_soft_timer_list k' = rt_soft_timer_list k \<and> rt_tick k' = rt_tick k"

lemma same_lists_insert: "rt_schedule_insert_thread t k = Some k' \<Longrightarrow> same_lists k k'"
  by (auto simp: rt_schedule_insert_thread_def Let_def kdefs require_def same_lists_def split: if_splits)

lemma same_lists_make_running: "make_running t k = Some k' \<Longrightarrow> same_lists k k'"
  by (auto simp: make_running_def rt_schedule_remove_thread_def Let_def kdefs require_def same_lists_def
      Option.bind_eq_Some_conv split: if_splits)

lemma same_lists_trans: "same_lists a b \<Longrightarrow> same_lists b c \<Longrightarrow> same_lists a c"
  by (simp add: same_lists_def)

lemma same_lists_schedule:
  assumes "kinv k" "rt_current_thread k \<noteq> None" "rt_schedule k = Some k'"
  shows "same_lists k k'"
proof -
  obtain k'' where "rt_schedule k = Some k''" "schedule_post k k''"
    using rt_schedule_kinv [OF assms(1,2)] by blast
  then show ?thesis using assms(3) sched_frameD [of k k'] by (simp add: same_lists_def schedule_post_def)
qed

lemma rt_thread_timeout_effect:
  assumes inv: "kinv k" and th: "is_thread k t" and st: "tstat k t = RT_THREAD_SUSPEND"
    and nl: "\<not> linked k (ThreadTimer t)" and cur: "rt_current_thread k \<noteq> None"
    and ex: "rt_thread_timeout t k = Some k'"
  shows "same_lists k k'" "waiting_queue r \<Longrightarrow> queues k' r = list_del t (queues k r)"
    "u \<noteq> t \<Longrightarrow> tstat k' u = tstat k u \<or> {tstat k u, tstat k' u} = {RT_THREAD_READY, RT_THREAD_RUNNING}"
proof -
  define k1 where "k1 = tlist_remove t (set_error t (- RT_ETIMEOUT) k)"
  have i1: "kinv (set_error t (- RT_ETIMEOUT) k)" "tstat (set_error t (- RT_ETIMEOUT) k) t = RT_THREAD_SUSPEND"
    using inv st by simp_all
  note ri = tlist_remove_inv [OF i1, folded k1_def]
  have t1: "is_thread k1 t" "tstat k1 t = RT_THREAD_SUSPEND" "\<not> linked k1 (ThreadTimer t)"
    "rt_current_thread k1 = rt_current_thread k" "\<And>u. tstat k1 u = tstat k u"
    using th st nl by (simp_all add: k1_def)
  obtain k2 where k2: "rt_schedule_insert_thread t k1 = Some k2" "kinv k2"
    "rt_current_thread k2 = rt_current_thread k1"
    and ts: "\<And>u. tstat k2 u = (if u = t then (if rt_current_thread k1 = Some t
       then RT_THREAD_RUNNING else RT_THREAD_READY) else tstat k1 u)"
    and q2: "\<And>q. queues k2 q = (if rt_current_thread k1 \<noteq> Some t \<and> q = Ready (tprio k1 t)
                         then queues k1 q @ [t] else queues k1 q)"
    by (rule insert_resumed [OF ri(1,2,3) t1(1-3)]) blast
  have c2: "rt_current_thread k2 \<noteq> None" using k2(3) t1(4) cur by simp
  have k3: "rt_schedule k2 = Some k'"
    using ex st th k2(1) by (simp add: rt_thread_timeout_def k1_def set_error_def)
  then have p: "schedule_post k2 k'" using rt_schedule_kinv [OF k2(2) c2] by (metis option.inject)
  have "same_lists k k1" by (simp add: same_lists_def k1_def) (simp add: tlist_remove_def)
  then show "same_lists k k'"
    using same_lists_trans same_lists_insert [OF k2(1)] same_lists_schedule [OF k2(2) c2 k3] by blast
  show "queues k' r = list_del t (queues k r)" if "waiting_queue r"
    using rt_schedule_waiting [OF k2(2) k3 that] q2 [of r] that by (auto simp: k1_def)
  show "tstat k' u = tstat k u \<or> {tstat k u, tstat k' u} = {RT_THREAD_READY, RT_THREAD_RUNNING}" if "u \<noteq> t"
    using p ts [of u] t1(5) [of u] that unfolding schedule_post_def by metis
qed

lemma tm_inv_remove:
  assumes inv: "tm_inv k"
  shows "tm_inv (timer_remove x k)"
proof (rule tm_invI)
  note d = tm_invD [OF inv]
  show "timer_on (timer_remove x k) y RT_TIMER_FLAG_ACTIVATED \<and> timer_is_type (timer_remove x k) y"
    if "linked (timer_remove x k) y" for y
    using that d(3,4) [of y] by simp
  show "is_thread (timer_remove x k) t \<and> tstat (timer_remove x k) t = RT_THREAD_SUSPEND"
    if "linked (timer_remove x k) (ThreadTimer t)" for t
    using that d(8,9) [of t] by simp
  show "thread_timer_ok (timer_remove x k) t"
    if "is_thread (timer_remove x k) t" "tstat (timer_remove x k) t \<noteq> RT_THREAD_CLOSE" for t
    using that d(7) [of t] by simp
  show "\<not> timer_on (timer_remove x k) y RT_TIMER_FLAG_SOFT_TIMER" if "y \<in> set (rt_timer_list (timer_remove x k))" for y
    using that d(5) [of y] by simp
  show "timer_on (timer_remove x k) y RT_TIMER_FLAG_SOFT_TIMER" if "y \<in> set (rt_soft_timer_list (timer_remove x k))" for y
    using that d(6) [of y] by simp
qed (use tm_invD(1,2,10) [OF inv] in simp_all)

lemma kinv_timer_remove: "kinv k \<Longrightarrow> kinv (timer_remove x k)"
  by (rule kinv_timers) (simp_all add: tm_inv_remove kinvD)

lemma tm_inv_clear:
  assumes inv: "tm_inv k" and nl: "\<not> linked k x"
  shows "tm_inv (clear_activated x k)"
proof -
  have "clear_activated x (timer_remove x k) = clear_activated x k"
    using nl by (simp add: linked_def timer_remove_def list_del_notin)
  then show ?thesis using clear_activated_remove_inv [OF inv, of x] by simp
qed

lemma start_cleared: "rt_timer_start x (clear_activated x k) = rt_timer_start x k"
proof -
  have "clear_activated x (timer_remove x (clear_activated x k)) = clear_activated x (timer_remove x k)"
    by (simp add: clear_activated_def upd_timer_def timer_remove_def and.assoc comp_def)
  then show ?thesis by (simp add: rt_timer_start_def Let_def)
qed


text \<open>
  The states in which the tick interrupt finds the timers: the list in order from \<open>b\<close>, and each
  periodic timer with a period of at least one tick that fits the window.
\<close>

definition check_inv :: "u32 \<Rightarrow> kernel \<Rightarrow> bool" where
  "check_inv b k \<longleftrightarrow> kinv k \<and> rt_current_thread k \<noteq> None \<and>
     in_order b (\<lambda>y. timeout_tick (timers k y)) (rt_timer_list k) \<and> ahead b (rt_tick k) < 2 ^ 31 - 1 \<and>
     (\<forall>x. timer_on k x RT_TIMER_FLAG_PERIODIC \<and> timer_on k x RT_TIMER_FLAG_ACTIVATED \<and>
          \<not> timer_on k x RT_TIMER_FLAG_SOFT_TIMER \<longrightarrow>
        timer_is_type k x \<and> x \<in> range UserTimer \<and> 0 < init_tick (timers k x) \<and>
        init_tick (timers k x) < RT_TICK_HALF \<and> ahead b (rt_tick k + init_tick (timers k x)) < 2 ^ 31 - 1)"

text \<open>
  What a timeout function may do: it returns, keeps these states and the tick, makes no timer
  expire, does not turn a hard timer into a soft one, and does not start a one-shot timer that is
  activated and out of the lists, as its own timer is.
\<close>

definition cb_ok :: "u32 \<Rightarrow> callbacks \<Rightarrow> bool" where
  "cb_ok b cb \<longleftrightarrow> (\<forall>f p k. check_inv b k \<longrightarrow> (\<exists>k'. cb f p k = Some k' \<and> check_inv b k' \<and>
     rt_tick k' = rt_tick k \<and> expired k' \<subseteq> expired k \<and>
     (\<forall>y. timer_on k' y RT_TIMER_FLAG_SOFT_TIMER = timer_on k y RT_TIMER_FLAG_SOFT_TIMER) \<and>
     (\<forall>y. \<not> linked k y \<and> timer_on k y RT_TIMER_FLAG_ACTIVATED \<and> linked k' y \<longrightarrow>
        timer_on k' y RT_TIMER_FLAG_PERIODIC)))"

lemma check_invD:
  assumes "check_inv b k"
  shows "kinv k" "rt_current_thread k \<noteq> None" "in_order b (\<lambda>y. timeout_tick (timers k y)) (rt_timer_list k)"
    "ahead b (rt_tick k) < 2 ^ 31 - 1"
  using assms by (simp_all add: check_inv_def)

lemma check_inv_periodic:
  assumes "check_inv b k" "timer_on k x RT_TIMER_FLAG_PERIODIC" "timer_on k x RT_TIMER_FLAG_ACTIVATED"
    "\<not> timer_on k x RT_TIMER_FLAG_SOFT_TIMER"
  obtains u where "timer_is_type k x" "x = UserTimer u" "0 < init_tick (timers k x)"
    "init_tick (timers k x) < RT_TICK_HALF" "ahead b (rt_tick k + init_tick (timers k x)) < 2 ^ 31 - 1"
  using assms unfolding check_inv_def by blast

text \<open>The condition on periodic timers only looks at flags, types and periods.\<close>

lemma check_invI:
  assumes inv: "check_inv b k" and k: "kinv k'" "rt_current_thread k' \<noteq> None" "rt_tick k' = rt_tick k"
    "in_order b (\<lambda>y. timeout_tick (timers k' y)) (rt_timer_list k')"
    and fl: "\<And>x. timer_on k' x RT_TIMER_FLAG_ACTIVATED \<Longrightarrow> timer_on k' x RT_TIMER_FLAG_PERIODIC \<Longrightarrow>
      timer_on k x RT_TIMER_FLAG_ACTIVATED"
    "\<And>x. timer_on k' x RT_TIMER_FLAG_PERIODIC = timer_on k x RT_TIMER_FLAG_PERIODIC"
    "\<And>x. timer_on k' x RT_TIMER_FLAG_SOFT_TIMER = timer_on k x RT_TIMER_FLAG_SOFT_TIMER"
    "\<And>x. timer_is_type k' x = timer_is_type k x" "\<And>x. init_tick (timers k' x) = init_tick (timers k x)"
  shows "check_inv b k'"
  unfolding check_inv_def
proof (intro conjI allI impI)
  fix x assume a: "timer_on k' x RT_TIMER_FLAG_PERIODIC \<and> timer_on k' x RT_TIMER_FLAG_ACTIVATED \<and>
      \<not> timer_on k' x RT_TIMER_FLAG_SOFT_TIMER"
  have a': "timer_on k x RT_TIMER_FLAG_PERIODIC" "timer_on k x RT_TIMER_FLAG_ACTIVATED"
    "\<not> timer_on k x RT_TIMER_FLAG_SOFT_TIMER" using a fl by blast+
  show "timer_is_type k' x" "x \<in> range UserTimer" "0 < init_tick (timers k' x)"
    "init_tick (timers k' x) < RT_TICK_HALF" "ahead b (rt_tick k' + init_tick (timers k' x)) < 2 ^ 31 - 1"
    by (rule check_inv_periodic [OF inv a']; simp add: fl k)+
qed (use k check_invD(4) [OF inv] in simp_all)

lemma check_inv_remove:
  assumes inv: "check_inv b k"
  shows "check_inv b (timer_remove x k)" "expired (timer_remove x k) = expired k - {x}"
proof -
  show "check_inv b (timer_remove x k)"
    by (rule check_invI [OF inv kinv_timer_remove [OF check_invD(1) [OF inv]]])
      (use check_invD [OF inv] in \<open>simp_all add: in_order_list_del\<close>)
  show "expired (timer_remove x k) = expired k - {x}" by (auto simp: expired_def)
qed


lemma same_lists_expired: "same_lists k k' \<Longrightarrow> expired k' = expired k"
  by (simp add: same_lists_def expired_def)

lemma check_inv_same_lists:
  assumes inv: "check_inv b k" and s: "same_lists k k'" and k: "kinv k'" "rt_current_thread k' \<noteq> None"
  shows "check_inv b k'"
proof -
  have t: "timers k' = timers k" and l: "rt_timer_list k' = rt_timer_list k" "rt_tick k' = rt_tick k"
    using s by (simp_all add: same_lists_def)
  show ?thesis
    by (rule check_invI [OF inv k l(2)])
      (use check_invD(3) [OF inv] in \<open>simp_all add: same_timers [OF t] t l\<close>)
qed

lemma call_timeout_ok:
  assumes inv: "check_inv b k" and cb: "cb_ok b cb" and x: "x \<in> set (rt_timer_list k)"
  obtains k1 where "call_timeout cb x (timer_remove x k) = Some k1" "check_inv b k1" "rt_tick k1 = rt_tick k"
    "expired k1 \<subseteq> expired k - {x}" "\<not> timer_on k1 x RT_TIMER_FLAG_SOFT_TIMER"
    "\<not> timer_on k1 x RT_TIMER_FLAG_PERIODIC \<Longrightarrow> \<not> linked k1 x"
proof -
  let ?k = "timer_remove x k"
  note i = check_inv_remove [OF inv, of x]
  note tk = kinvD(3) [OF check_invD(1) [OF inv]]
  have lx: "linked k x" using x by (simp add: linked_def)
  have soft: "\<not> timer_on k x RT_TIMER_FLAG_SOFT_TIMER" using tm_invD(5) [OF tk x] .
  show ?thesis
  proof (cases "timeout_func (timers k x)")
    case Thread_timeout
    then obtain t where t: "x = ThreadTimer t" using tm_invD(10) [OF tk] by (cases x) auto
    have th: "is_thread k t" "tstat k t = RT_THREAD_SUSPEND" using tm_invD(8,9) [OF tk, of t] lx t by simp_all
    then have p: "parameter (timers k x) = t" using tm_invD(7) [OF tk th(1)] t by (simp add: thread_timer_ok_def)
    have a: "is_thread ?k t" "tstat ?k t = RT_THREAD_SUSPEND" "\<not> linked ?k (ThreadTimer t)"
      "rt_current_thread ?k \<noteq> None" using th t check_invD(2) [OF inv] by simp_all
    obtain k1 where k1: "rt_thread_timeout t ?k = Some k1" "kinv k1" "rt_current_thread k1 \<noteq> None"
      "\<And>y. linked k1 y = linked ?k y"
      by (rule rt_thread_timeout_ok [OF check_invD(1) [OF i(1)] a]) blast
    note s = rt_thread_timeout_effect(1) [OF check_invD(1) [OF i(1)] a k1(1)]
    have tm: "timers k1 = timers ?k" using s by (simp add: same_lists_def)
    show ?thesis
    proof (rule that [of k1])
      show "call_timeout cb x ?k = Some k1" using Thread_timeout p k1(1) by (simp add: call_timeout_def)
      show "check_inv b k1" by (rule check_inv_same_lists [OF i(1) s k1(2,3)])
      show "\<not> timer_on k1 x RT_TIMER_FLAG_SOFT_TIMER" using soft by (simp add: same_timers(1) [OF tm])
    qed (use s k1(4) same_lists_expired [OF s] i(2) in \<open>simp_all add: same_lists_def\<close>)
  next
    case (User_timeout f)
    obtain k1 where k1: "cb f (parameter (timers k x)) ?k = Some k1" "check_inv b k1" "rt_tick k1 = rt_tick ?k"
      "expired k1 \<subseteq> expired ?k"
      "\<And>y. timer_on k1 y RT_TIMER_FLAG_SOFT_TIMER = timer_on ?k y RT_TIMER_FLAG_SOFT_TIMER"
      "\<And>y. \<not> linked ?k y \<and> timer_on ?k y RT_TIMER_FLAG_ACTIVATED \<and> linked k1 y \<Longrightarrow>
        timer_on k1 y RT_TIMER_FLAG_PERIODIC"
      using cb i(1) unfolding cb_ok_def by metis
    show ?thesis
    proof (rule that [of k1])
      show "call_timeout cb x ?k = Some k1" using User_timeout k1(1) by (simp add: call_timeout_def)
      show "\<not> timer_on k1 x RT_TIMER_FLAG_PERIODIC \<Longrightarrow> \<not> linked k1 x"
        using k1(6) [of x] tm_invD(3) [OF tk lx] by auto
    qed (use k1 soft i(2) in auto)
  qed
qed

lemma timer_started_flags [simp]:
  "timer_on (timer_started x k) y RT_TIMER_FLAG_SOFT_TIMER = timer_on k y RT_TIMER_FLAG_SOFT_TIMER"
  "timer_on (timer_started x k) y RT_TIMER_FLAG_PERIODIC = timer_on k y RT_TIMER_FLAG_PERIODIC"
  "timer_on (timer_started x k) y RT_TIMER_FLAG_ACTIVATED \<longleftrightarrow> y = x \<or> timer_on k y RT_TIMER_FLAG_ACTIVATED"
  "timer_is_type (timer_started x k) y = timer_is_type k y"
  "init_tick (timers (timer_started x k) y) = init_tick (timers k y)"
  "rt_tick (timer_started x k) = rt_tick k"
  unfolding timer_started_def timer_link_same
  by (simp_all add: times_only_same) (auto simp: clear_activated_def)

lemma timer_rearm_ok:
  assumes inv: "check_inv b k" and soft: "\<not> timer_on k x RT_TIMER_FLAG_SOFT_TIMER"
    and one: "\<not> timer_on k x RT_TIMER_FLAG_PERIODIC \<Longrightarrow> \<not> linked k x"
  obtains k' where "timer_rearm x k = Some k'" "check_inv b k'" "rt_tick k' = rt_tick k" "expired k' \<subseteq> expired k"
proof (cases "timer_on k x RT_TIMER_FLAG_PERIODIC \<and> timer_on k x RT_TIMER_FLAG_ACTIVATED")
  case True
  then obtain u where u: "timer_is_type k x" "x = UserTimer u" "0 < init_tick (timers k x)"
    "init_tick (timers k x) < RT_TICK_HALF" "ahead b (rt_tick k + init_tick (timers k x)) < 2 ^ 31 - 1"
    using check_inv_periodic [OF inv _ _ soft] by blast
  have no: "is_thread k t \<and> tstat k t = RT_THREAD_SUSPEND" if "x = ThreadTimer t" for t using u(2) that by simp
  obtain k' where k': "rt_timer_start x k = Some (RT_EOK, k')" "kinv k'" "k' = timer_started x k"
    using rt_timer_start_ok [OF check_invD(1) [OF inv] u(1,4) no] soft by metis
  show ?thesis
  proof (rule that [of k'])
    show "timer_rearm x k = Some k'"
      using True k'(1) by (simp add: timer_rearm_def timer_on_def start_cleared)
    show "check_inv b k'"
      by (rule check_invI [OF inv k'(2)])
        (use True check_invD(2) [OF inv] timer_started_in_order(1) [OF soft check_invD(3) [OF inv] u(5)] in
          \<open>auto simp: k'(3)\<close>)
    have "\<not> rt_tick k - (rt_tick k + init_tick (timers k x)) < RT_TICK_HALF"
      using u(3,4) unat_diff_behind [of "rt_tick k" "rt_tick k" "rt_tick k + init_tick (timers k x)"]
      unfolding ahead_add by (simp add: word_less_nat_alt unat_gt_0)
    then show "expired k' \<subseteq> expired k"
      using soft by (auto simp: k'(3) expired_def timer_started_lists split: if_splits)
  qed (simp add: k'(3))
next
  case False
  then have nl: "\<not> linked k x"
    using one tm_invD(3) [OF kinvD(3) [OF check_invD(1) [OF inv]], of x] by blast
  have i: "kinv (clear_activated x k)"
    by (rule kinv_timers [OF check_invD(1) [OF inv] tm_inv_clear [OF kinvD(3) [OF check_invD(1) [OF inv]] nl]]) simp_all
  show ?thesis
  proof (rule that [of "clear_activated x k"])
    show "timer_rearm x k = Some (clear_activated x k)"
      using False by (auto simp: timer_rearm_def timer_on_def)
    show "check_inv b (clear_activated x k)"
      by (rule check_invI [OF inv i]) (use check_invD [OF inv] in simp_all)
  qed (simp_all add: expired_def)
qed


lemma timer_check_step_ok:
  assumes inv: "check_inv b k" and cb: "cb_ok b cb"
  obtains "timer_check_step cb (rt_tick k) k = Some (Inl k)" "expired k = {}"
  | k' where "timer_check_step cb (rt_tick k) k = Some (Inr (rt_tick k', k'))" "check_inv b k'"
      "rt_tick k' = rt_tick k" "expired k' \<subset> expired k"
proof (cases "rt_timer_list k")
  case Nil
  then show ?thesis using that(1) by (simp add: timer_check_step_def expired_def)
next
  case (Cons x xs)
  note o = check_invD(3) [OF inv] and w = check_invD(4) [OF inv]
  show ?thesis
  proof (cases "rt_tick k - timeout_tick (timers k x) < RT_TICK_HALF")
    case False
    then have "\<not> ahead b (timeout_tick (timers k x)) \<le> ahead b (rt_tick k)"
      using expired_iff [OF o w, of x] Cons by (simp add: expired_def)
    then have "y \<notin> expired k" for y
      using expired_iff [OF o w, of y] o Cons by (auto simp: in_order_Cons)
    then show ?thesis using that(1) False Cons by (auto simp: timer_check_step_def)
  next
    case True
    have x: "x \<in> set (rt_timer_list k)" "x \<in> expired k" using Cons True by (simp_all add: expired_def)
    obtain k1 where k1: "call_timeout cb x (timer_remove x k) = Some k1" "check_inv b k1" "rt_tick k1 = rt_tick k"
      "expired k1 \<subseteq> expired k - {x}" "\<not> timer_on k1 x RT_TIMER_FLAG_SOFT_TIMER"
      "\<not> timer_on k1 x RT_TIMER_FLAG_PERIODIC \<Longrightarrow> \<not> linked k1 x"
      by (rule call_timeout_ok [OF inv cb x(1)]) blast
    obtain k2 where k2: "timer_rearm x k1 = Some k2" "check_inv b k2" "rt_tick k2 = rt_tick k1"
      "expired k2 \<subseteq> expired k1"
      by (rule timer_rearm_ok [OF k1(2,5,6)]) blast
    show ?thesis
    proof (rule that(2) [of k2])
      show "timer_check_step cb (rt_tick k) k = Some (Inr (rt_tick k2, k2))"
        using Cons True k1(1,3) k2(1,3) by (simp add: timer_check_step_def)
      show "expired k2 \<subset> expired k" using k1(4) k2(4) x(2) by blast
    qed (use k1 k2 in simp_all)
  qed
qed

lemma timer_check_loop_ok:
  assumes "check_inv b k" "cb_ok b cb"
  obtains k' where "timer_check_loop cb (rt_tick k) k = Some k'" "check_inv b k'" "rt_tick k' = rt_tick k"
    "expired k' = {}"
  using assms
proof (induction "card (expired k)" arbitrary: k thesis rule: less_induct)
  case less
  show ?case
  proof (rule timer_check_step_ok [OF less.prems(2,3)])
    assume "timer_check_step cb (rt_tick k) k = Some (Inl k)" "expired k = {}"
    then show ?thesis using less.prems by (intro less.prems(1) [of k]) (simp_all add: timer_check_loop.simps)
  next
    fix k1 assume k1: "timer_check_step cb (rt_tick k) k = Some (Inr (rt_tick k1, k1))" "check_inv b k1"
      "rt_tick k1 = rt_tick k" "expired k1 \<subset> expired k"
    have "card (expired k1) < card (expired k)" by (rule psubset_card_mono [OF finite_expired k1(4)])
    from less.hyps [OF this _ k1(2) less.prems(3)]
    obtain k2 where "timer_check_loop cb (rt_tick k1) k1 = Some k2" "check_inv b k2" "rt_tick k2 = rt_tick k1"
      "expired k2 = {}" by blast
    then show ?thesis
      using k1 by (intro less.prems(1) [of k2]) (simp_all add: timer_check_loop.simps [of cb "rt_tick k" k])
  qed
qed

text \<open>C5: the timer part of the tick interrupt ends and leaves no expired timer: with timers in order,
  periodic timers of at least one tick and timeout functions that keep those states,
  \<open>rt_timer_check\<close> returns, keeps the invariant of the kernel, and every timer still in the list is
  due later.\<close>

theorem rt_timer_check_ends:
  assumes "check_inv b k" "cb_ok b cb"
  shows "\<exists>k'. rt_timer_check cb k = Some k' \<and> check_inv b k' \<and> rt_tick k' = rt_tick k \<and>
    (\<forall>x \<in> set (rt_timer_list k'). ahead b (rt_tick k') < ahead b (timeout_tick (timers k' x)))"
proof -
  obtain k' where k': "timer_check_loop cb (rt_tick k) k = Some k'" "check_inv b k'" "rt_tick k' = rt_tick k"
    "expired k' = {}" by (rule timer_check_loop_ok [OF assms]) blast
  have "ahead b (rt_tick k') < ahead b (timeout_tick (timers k' x))" if "x \<in> set (rt_timer_list k')" for x
    using expired_iff [OF check_invD(3,4) [OF k'(2)], of x] k'(4) that by simp
  then show ?thesis using k' by (auto simp: rt_timer_check_def)
qed

text \<open>A periodic timer that expires at tick 107, with a timeout function that changes nothing.\<close>

definition sample_due :: kernel where
  "sample_due = sample\<lparr>rt_tick := 107, rt_timer_list := [UserTimer 1],
     timers := (sample_timers)(UserTimer 1 := (sample_timers (UserTimer 1))\<lparr>obj_flag := 3, timeout_tick := 107\<rparr>)\<rparr>"

lemma sample_due_check_inv: "check_inv 100 sample_due"
proof -
  have "tm_inv sample_due"
  proof (rule tm_invI)
    show "thread_timer_ok sample_due t" for t
      by (simp add: thread_timer_ok_def timer_is_type_def rt_object_get_type_def timer_on_def
          rt_object_is_systemobject_def sample_timers_def zero_timer_def sample_due_def)
  qed (simp_all add: linked_def sample_timers_def sample_due_def timer_on_def timer_is_type_def
      rt_object_get_type_def zero_timer_def)
  then have "kinv sample_due"
    by (rule kinv_timers [OF sample_kinv]) (simp_all add: sample_due_def)
  moreover have "timer_is_type sample_due x \<and> x \<in> range UserTimer \<and> 0 < init_tick (timers sample_due x) \<and>
      init_tick (timers sample_due x) < RT_TICK_HALF \<and>
      ahead 100 (rt_tick sample_due + init_tick (timers sample_due x)) < 2 ^ 31 - 1"
    if "timer_on sample_due x RT_TIMER_FLAG_PERIODIC" for x
  proof -
    have "x = UserTimer 1"
      using that by (simp add: sample_due_def timer_on_def sample_timers_def zero_timer_def split: if_splits timer_id.splits)
    then show ?thesis
      by (simp add: sample_due_def timer_is_type_def rt_object_get_type_def sample_timers_def zero_timer_def ahead_def)
  qed
  ultimately show ?thesis
    unfolding check_inv_def by (auto simp: sample_due_def in_order_def ahead_def)
qed

lemma cb_ok_idle: "cb_ok b (\<lambda>f p k. Some k)"
  by (auto simp: cb_ok_def)

lemma rt_timer_check_ends_witness:
  "(\<exists>k'. rt_timer_check (\<lambda>f p k. Some k) sample_due = Some k' \<and> check_inv 100 k' \<and> rt_tick k' = rt_tick sample_due \<and>
    (\<forall>x \<in> set (rt_timer_list k'). ahead 100 (rt_tick k') < ahead 100 (timeout_tick (timers k' x)))) \<and>
   expired sample_due = {UserTimer 1}"
proof
  show "expired sample_due = {UserTimer 1}" by (auto simp: expired_def sample_due_def)
qed (rule rt_timer_check_ends [OF sample_due_check_inv cb_ok_idle])


text \<open>a one-shot timer whose timeout function starts it again is left in the timer list but marked
  as stopped: \<open>rt_timer_check\<close> clears the activated flag after the call, and \<open>rt_timer_stop\<close> then
  refuses to stop the pending timer.\<close>

lemma restarted_one_shot_cannot_be_stopped:
  assumes "kinv k" "rt_timer_list k = UserTimer u # xs" "timeout_func (timers k (UserTimer u)) = User_timeout f"
    "rt_tick k - timeout_tick (timers k (UserTimer u)) < RT_TICK_HALF"
    "\<not> timer_on k (UserTimer u) RT_TIMER_FLAG_PERIODIC" "init_tick (timers k (UserTimer u)) < RT_TICK_HALF"
    "\<forall>p k. cb f p k = map_option snd (rt_timer_start (UserTimer u) k)"
  shows "\<exists>k'. timer_check_step cb (rt_tick k) k = Some (Inr (rt_tick k, k')) \<and> UserTimer u \<in> set (rt_timer_list k') \<and>
    timeout_tick (timers k' (UserTimer u)) = rt_tick k + init_tick (timers k (UserTimer u)) \<and>
    rt_timer_stop (UserTimer u) k' = Some (- RT_ERROR, k')"
proof -
  let ?x = "UserTimer u" let ?k = "timer_remove ?x k"
  note tk = kinvD(3) [OF assms(1)]
  have l: "linked k ?x" using assms(2) by (simp add: linked_def)
  have ty: "timer_is_type ?k ?x" using tm_invD(4) [OF tk l] by simp
  have soft: "\<not> timer_on k ?x RT_TIMER_FLAG_SOFT_TIMER" using tm_invD(5) [OF tk, of ?x] assms(2) by simp
  have no: "is_thread ?k t \<and> tstat ?k t = RT_THREAD_SUSPEND" if "?x = ThreadTimer t" for t using that by simp
  have it: "init_tick (timers ?k ?x) < RT_TICK_HALF" using assms(6) by simp
  obtain k1 where k1: "rt_timer_start ?x ?k = Some (RT_EOK, k1)" "k1 = timer_started ?x ?k"
    using rt_timer_start_ok [OF kinv_timer_remove [OF assms(1)] ty it no] soft by (metis timer_remove_same(1))
  let ?k2 = "clear_activated ?x k1"
  have r: "timer_rearm ?x k1 = Some ?k2"
    using assms(5) k1(2) timer_started_flags(2) [of ?x ?k ?x] by (simp add: timer_rearm_def timer_on_def)
  have "timer_check_step cb (rt_tick k) k = Some (Inr (rt_tick k, ?k2))"
    using assms(2-4,7) k1 r by (simp add: timer_check_step_def call_timeout_def)
  moreover have "?x \<in> set (rt_timer_list ?k2)" using k1(2) soft by (simp add: timer_started_lists)
  moreover have "timeout_tick (timers ?k2 ?x) = rt_tick k + init_tick (timers k ?x)"
    by (simp add: k1(2) timer_started_lists)
  moreover have "rt_timer_stop ?x ?k2 = Some (- RT_ERROR, ?k2)"
    using ty k1(2) clear_activated_simps(1) [of ?x k1 ?x] by (simp add: rt_timer_stop_def timer_on_def)
  ultimately show ?thesis by blast
qed

definition sample_one_shot :: kernel where
  "sample_one_shot = upd_timer (UserTimer 1) (obj_flag_update (\<lambda>_. RT_TIMER_FLAG_ACTIVATED)) sample_due"

lemma sample_one_shot_kinv: "kinv sample_one_shot"
proof -
  have "tm_inv sample_one_shot"
  proof (rule tm_invI)
    show "thread_timer_ok sample_one_shot t" for t
      by (simp add: thread_timer_ok_def timer_is_type_def rt_object_get_type_def timer_on_def
          rt_object_is_systemobject_def sample_timers_def zero_timer_def sample_due_def sample_one_shot_def)
  qed (simp_all add: linked_def sample_timers_def sample_due_def timer_on_def timer_is_type_def
      rt_object_get_type_def zero_timer_def sample_one_shot_def)
  then show ?thesis
    by (rule kinv_timers [OF sample_kinv]) (simp_all add: sample_due_def sample_one_shot_def)
qed

lemma restarted_one_shot_cannot_be_stopped_witness:
  "\<exists>k'. timer_check_step (\<lambda>f p k. map_option snd (rt_timer_start (UserTimer 1) k)) (rt_tick sample_one_shot) sample_one_shot =
      Some (Inr (rt_tick sample_one_shot, k')) \<and> UserTimer 1 \<in> set (rt_timer_list k') \<and>
    timeout_tick (timers k' (UserTimer 1)) = rt_tick sample_one_shot + init_tick (timers sample_one_shot (UserTimer 1)) \<and>
    rt_timer_stop (UserTimer 1) k' = Some (- RT_ERROR, k')"
  by (rule restarted_one_shot_cannot_be_stopped [OF sample_one_shot_kinv, where f = 1 and xs = "[]"])
    (simp_all add: sample_one_shot_def sample_due_def sample_timers_def zero_timer_def timer_on_def)

subsection \<open>Waking the threads that wait with a timeout\<close>

text \<open>No periodic hard timer is running.\<close>

definition no_periodic :: "kernel \<Rightarrow> bool" where
  "no_periodic k \<longleftrightarrow> (\<forall>x. timer_on k x RT_TIMER_FLAG_PERIODIC \<and> timer_on k x RT_TIMER_FLAG_ACTIVATED \<longrightarrow>
     timer_on k x RT_TIMER_FLAG_SOFT_TIMER)"

text \<open>What one expired thread timer does.\<close>

lemma thread_timer_step:
  assumes inv: "check_inv b k" and l: "rt_timer_list k = ThreadTimer t # xs"
    and due: "rt_tick k - timeout_tick (timers k (ThreadTimer t)) < RT_TICK_HALF"
  obtains k' where "timer_check_step cb (rt_tick k) k = Some (Inr (rt_tick k', k'))" "check_inv b k'"
    "rt_tick k' = rt_tick k" "rt_timer_list k' = xs"
    "\<And>y. timeout_tick (timers k' y) = timeout_tick (timers k y)"
    "\<And>r. waiting_queue r \<Longrightarrow> queues k' r = list_del t (queues k r)"
    "thread_error (threads k' t) = - RT_ETIMEOUT" "tstat k' t \<in> {RT_THREAD_READY, RT_THREAD_RUNNING}"
    "\<And>u. u \<noteq> t \<Longrightarrow> thread_error (threads k' u) = thread_error (threads k u)"
    "\<And>u. u \<noteq> t \<Longrightarrow> tstat k' u = tstat k u \<or> {tstat k u, tstat k' u} = {RT_THREAD_READY, RT_THREAD_RUNNING}"
    "oframe k k'" "no_periodic k \<Longrightarrow> no_periodic k'"
proof -
  let ?x = "ThreadTimer t" let ?k = "timer_remove ?x k"
  note tk = kinvD(3) [OF check_invD(1) [OF inv]]
  have lx: "linked k ?x" using l by (simp add: linked_def)
  have th: "is_thread k t" "tstat k t = RT_THREAD_SUSPEND" using tm_invD(8,9) [OF tk lx] .
  then have ok: "thread_timer_ok k t" using tm_invD(7) [OF tk th(1)] by simp
  have a: "is_thread ?k t" "tstat ?k t = RT_THREAD_SUSPEND" "\<not> linked ?k ?x" "rt_current_thread ?k \<noteq> None"
    using th check_invD(2) [OF inv] by simp_all
  note i = check_invD(1) [OF check_inv_remove(1) [OF inv]]
  obtain k1 where k1: "rt_thread_timeout t ?k = Some k1" "kinv k1" "rt_current_thread k1 \<noteq> None"
    "\<And>y. linked k1 y = linked ?k y" "thread_error (threads k1 t) = - RT_ETIMEOUT"
    "tstat k1 t \<in> {RT_THREAD_READY, RT_THREAD_RUNNING}" "kframe (set_error t (- RT_ETIMEOUT) ?k) k1"
    by (rule rt_thread_timeout_ok [OF i a]) blast
  note ef = rt_thread_timeout_effect [OF i a k1(1)]
  have tm: "timers k1 = timers k" and tl: "rt_timer_list k1 = list_del ?x (rt_timer_list k)"
    and tt: "rt_tick k1 = rt_tick k" using ef(1) by (simp_all add: same_lists_def)
  have d: "distinct (rt_timer_list k)" using tm_invD(1) [OF tk] .
  let ?k2 = "clear_activated ?x k1"
  have np: "\<not> timer_on k ?x RT_TIMER_FLAG_PERIODIC" using ok by (simp add: thread_timer_ok_def)
  have ct: "call_timeout cb ?x ?k = Some k1"
    using ok k1(1) by (simp add: call_timeout_def thread_timer_ok_def)
  have r: "timer_rearm ?x k1 = Some ?k2" using np by (simp add: timer_rearm_def tm timer_on_def)
  have c1: "check_inv b k1" by (rule check_inv_same_lists [OF check_inv_remove(1) [OF inv] ef(1) k1(2,3)])
  have nl: "\<not> linked k1 ?x" using k1(4) by simp
  show ?thesis
  proof (rule that [of ?k2])
    show "timer_check_step cb (rt_tick k) k = Some (Inr (rt_tick ?k2, ?k2))"
      using l due ct r tt by (simp add: timer_check_step_def)
    have "kinv ?k2"
      by (rule kinv_timers [OF k1(2) tm_inv_clear [OF kinvD(3) [OF k1(2)] nl]]) simp_all
    then show "check_inv b ?k2" by (rule check_invI [OF c1]) (use check_invD [OF c1] in simp_all)
    show "timeout_tick (timers ?k2 y) = timeout_tick (timers k y)" for y using tm by simp
    show "thread_error (threads ?k2 u) = thread_error (threads k u)" if "u \<noteq> t" for u
      using kframe_thread(4) [OF k1(7), of u] that by simp
    show "tstat ?k2 u = tstat k u \<or> {tstat k u, tstat ?k2 u} = {RT_THREAD_READY, RT_THREAD_RUNNING}" if "u \<noteq> t" for u
      using ef(3) [OF that] by simp
    show "queues ?k2 r = list_del t (queues k r)" if "waiting_queue r" for r using ef(2) [OF that] by simp
    show "no_periodic ?k2" if "no_periodic k"
    proof -
      have "timer_on k1 y fl = timer_on k y fl" for y fl by (simp add: timer_on_def tm)
      then show ?thesis using that by (auto simp: no_periodic_def)
    qed
    show "rt_timer_list ?k2 = xs" using l tl d by (auto simp: list_del_notin)
    show "oframe k ?k2"
      using oframe_trans [OF kframe_oframe [OF kframe_timer(2)] oframe_trans [OF oframe_set_error
            oframe_trans [OF kframe_oframe [OF k1(7)] kframe_oframe [OF clear_activated_frame(9)]]]] .
  qed (use k1(5,6) tt in simp_all)
qed

text \<open>The threads whose timers a check of the tick interrupt runs, and what it leaves of a state.\<close>

definition woken :: "kernel \<Rightarrow> tid \<Rightarrow> bool" where
  "woken k t \<longleftrightarrow> ThreadTimer t \<in> expired k"

definition timeouts_done :: "kernel \<Rightarrow> kernel \<Rightarrow> bool" where
  "timeouts_done k k' \<longleftrightarrow>
     (\<forall>t. woken k t \<longrightarrow> thread_error (threads k' t) = - RT_ETIMEOUT \<and> tstat k' t \<in> {RT_THREAD_READY, RT_THREAD_RUNNING}) \<and>
     (\<forall>t. \<not> woken k t \<longrightarrow> thread_error (threads k' t) = thread_error (threads k t) \<and>
        (tstat k' t = tstat k t \<or> {tstat k t, tstat k' t} = {RT_THREAD_READY, RT_THREAD_RUNNING})) \<and>
     (\<forall>q. waiting_queue q \<longrightarrow> queues k' q = filter (\<lambda>t. \<not> woken k t) (queues k q)) \<and>
     rt_timer_list k' = filter (\<lambda>x. x \<notin> expired k) (rt_timer_list k)"

lemma timeouts_done_none:
  assumes "expired k = {}"
  shows "timeouts_done k k"
  using assms by (simp add: timeouts_done_def woken_def)

lemma timeouts_done_step:
  assumes t: "ThreadTimer t \<in> expired k" and e: "expired k1 = expired k - {ThreadTimer t}"
    and l: "rt_timer_list k1 = list_del (ThreadTimer t) (rt_timer_list k)"
    and q: "\<And>r. waiting_queue r \<Longrightarrow> queues k1 r = list_del t (queues k r)"
    and te: "thread_error (threads k1 t) = - RT_ETIMEOUT" "tstat k1 t \<in> {RT_THREAD_READY, RT_THREAD_RUNNING}"
    and o: "\<And>u. u \<noteq> t \<Longrightarrow> thread_error (threads k1 u) = thread_error (threads k u)"
    "\<And>u. u \<noteq> t \<Longrightarrow> tstat k1 u = tstat k u \<or> {tstat k u, tstat k1 u} = {RT_THREAD_READY, RT_THREAD_RUNNING}"
    and d: "timeouts_done k1 k'"
  shows "timeouts_done k k'"
proof -
  have w: "woken k1 u \<longleftrightarrow> u \<noteq> t \<and> woken k u" for u using e by (auto simp: woken_def)
  have wt: "woken k t" using t by (simp add: woken_def)
  have d1: "thread_error (threads k' u) = - RT_ETIMEOUT" "tstat k' u \<in> {RT_THREAD_READY, RT_THREAD_RUNNING}"
    if "woken k1 u" for u using d that unfolding timeouts_done_def by blast+
  have d2: "thread_error (threads k' u) = thread_error (threads k1 u)"
    "tstat k' u = tstat k1 u \<or> {tstat k1 u, tstat k' u} = {RT_THREAD_READY, RT_THREAD_RUNNING}"
    if "\<not> woken k1 u" for u using d that unfolding timeouts_done_def by blast+
  have rr: "tstat k' t \<in> {RT_THREAD_READY, RT_THREAD_RUNNING}"
    using d2(2) [of t] w [of t] te(2) by (auto simp: doubleton_eq_iff)
  show ?thesis
    unfolding timeouts_done_def
  proof (intro conjI allI impI)
    fix u
    show "thread_error (threads k' u) = - RT_ETIMEOUT" "tstat k' u \<in> {RT_THREAD_READY, RT_THREAD_RUNNING}" if "woken k u"
      using that d1 [of u] d2(1) [of t] w [of u] w [of t] te(1) rr by (cases "u = t"; simp)+
    assume n: "\<not> woken k u"
    then have ne: "u \<noteq> t" and n1: "\<not> woken k1 u" using wt w by auto
    show "thread_error (threads k' u) = thread_error (threads k u)" using d2(1) [OF n1] o(1) [OF ne] by simp
    show "tstat k' u = tstat k u \<or> {tstat k u, tstat k' u} = {RT_THREAD_READY, RT_THREAD_RUNNING}"
      using d2(2) [OF n1] o(2) [OF ne] by (auto simp: doubleton_eq_iff)
  next
    fix r assume "waiting_queue r"
    then have "queues k' r = filter (\<lambda>u. \<not> woken k1 u) (list_del t (queues k r))"
      using d q unfolding timeouts_done_def by simp
    then show "queues k' r = filter (\<lambda>u. \<not> woken k u) (queues k r)"
      unfolding w list_del_def by (auto simp: wt intro!: filter_cong)
  next
    have "rt_timer_list k' = filter (\<lambda>x. x \<notin> expired k1) (rt_timer_list k1)"
      using d unfolding timeouts_done_def by blast
    then show "rt_timer_list k' = filter (\<lambda>x. x \<notin> expired k) (rt_timer_list k)"
      using t unfolding e l list_del_def by (auto intro!: filter_cong)
  qed
qed

lemma timer_check_loop_wakes:
  assumes "check_inv b k" "set (rt_timer_list k) \<subseteq> range ThreadTimer"
  shows "\<exists>k'. timer_check_loop cb (rt_tick k) k = Some k' \<and> check_inv b k' \<and> timeouts_done k k' \<and>
    rt_tick k' = rt_tick k \<and> (\<forall>y. timeout_tick (timers k' y) = timeout_tick (timers k y)) \<and> (no_periodic k \<longrightarrow> no_periodic k')"
  using assms
proof (induction "rt_timer_list k" arbitrary: k)
  case Nil
  then show ?case
    by (intro exI [of _ k]) (simp add: timer_check_loop.simps timer_check_step_def timeouts_done_none expired_def
        split: list.split)
next
  case (Cons x xs)
  note o = check_invD(3) [OF Cons.prems(1)] and w = check_invD(4) [OF Cons.prems(1)]
  obtain t where x: "x = ThreadTimer t" using Cons.prems(2) Cons.hyps(2) by (metis imageE list.set_intros(1) subsetD)
  note l = Cons.hyps(2) [symmetric, unfolded x]
  show ?case
  proof (cases "rt_tick k - timeout_tick (timers k x) < RT_TICK_HALF")
    case False
    then have "\<not> ahead b (timeout_tick (timers k x)) \<le> ahead b (rt_tick k)"
      using expired_iff [OF o w, of x] l x by (simp add: expired_def)
    then have "y \<notin> expired k" for y
      using expired_iff [OF o w, of y] o l x by (auto simp: in_order_Cons)
    then have "expired k = {}" by blast
    then show ?thesis using Cons.prems(1) False l x
      by (intro exI [of _ k]) (simp add: timer_check_loop.simps timer_check_step_def timeouts_done_none)
  next
    case True
    obtain k1 where k1: "timer_check_step cb (rt_tick k) k = Some (Inr (rt_tick k1, k1))" "check_inv b k1"
      "rt_tick k1 = rt_tick k" "rt_timer_list k1 = xs"
      "\<And>y. timeout_tick (timers k1 y) = timeout_tick (timers k y)"
      and q: "\<And>r. waiting_queue r \<Longrightarrow> queues k1 r = list_del t (queues k r)"
      and te: "thread_error (threads k1 t) = - RT_ETIMEOUT" "tstat k1 t \<in> {RT_THREAD_READY, RT_THREAD_RUNNING}"
      and u: "\<And>u. u \<noteq> t \<Longrightarrow> thread_error (threads k1 u) = thread_error (threads k u)"
      "\<And>u. u \<noteq> t \<Longrightarrow> tstat k1 u = tstat k u \<or> {tstat k u, tstat k1 u} = {RT_THREAD_READY, RT_THREAD_RUNNING}"
      and np: "no_periodic k \<Longrightarrow> no_periodic k1"
      by (rule thread_timer_step [OF Cons.prems(1) l True [unfolded x], where cb = cb]) blast
    have "set (rt_timer_list k1) \<subseteq> range ThreadTimer" using Cons.prems(2) l k1(4) by simp
    from Cons.hyps(1) [OF k1(4) [symmetric] k1(2) this]
    obtain k' where k': "timer_check_loop cb (rt_tick k1) k1 = Some k'" "check_inv b k'" "timeouts_done k1 k'"
      "rt_tick k' = rt_tick k1" "\<forall>y. timeout_tick (timers k' y) = timeout_tick (timers k1 y)" "no_periodic k1 \<longrightarrow> no_periodic k'"
      by blast
    have d: "ThreadTimer t \<notin> set xs"
      using tm_invD(1) [OF kinvD(3) [OF check_invD(1) [OF Cons.prems(1)]]] l by simp
    have "timeouts_done k k'"
    proof (rule timeouts_done_step [OF _ _ _ q te u k'(3)])
      show "ThreadTimer t \<in> expired k" using True l x by (simp add: expired_def)
      show "expired k1 = expired k - {ThreadTimer t}" using d l k1(3-5) by (auto simp: expired_def)
      show "rt_timer_list k1 = list_del (ThreadTimer t) (rt_timer_list k)" using d l k1(4) by (simp add: list_del_notin)
    qed
    then show ?thesis using k1(1,3,5) k'(1,2,4-6) np by (auto simp: timer_check_loop.simps [of cb "rt_tick k" k])
  qed
qed


text \<open>C6: threads that wait with a timeout are woken on time and no other: when only thread timers are
  pending, \<open>rt_timer_check\<close> gives each thread whose timer has expired the error \<open>-RT_ETIMEOUT\<close>,
  makes it ready (or running) and takes it off its waiting list; it changes no other thread's error,
  suspends no thread, keeps the order of the remaining timers and waiting threads, and ends.\<close>

theorem rt_timer_check_wakes:
  assumes "check_inv b k" "set (rt_timer_list k) \<subseteq> range ThreadTimer"
  shows "\<exists>k'. rt_timer_check cb k = Some k' \<and> kinv k' \<and> timeouts_done k k'"
  using timer_check_loop_wakes [OF assms, of cb] by (auto simp: rt_timer_check_def check_inv_def)

text \<open>Thread 3, which waits for semaphore 0, with a timer that expires at tick 107.\<close>

definition sample_waiting :: kernel where
  "sample_waiting = sample\<lparr>rt_tick := 107, rt_timer_list := [ThreadTimer 3],
     timers := (sample_timers)(ThreadTimer 3 := (sample_timers (ThreadTimer 3))\<lparr>obj_flag := 1, timeout_tick := 107\<rparr>)\<rparr>"

lemma sample_waiting_same: "is_thread sample_waiting t = is_thread sample t" "tstat sample_waiting t = tstat sample t"
  by (simp_all add: sample_waiting_def is_thread_def tstat_def)

lemma sample_waiting_check_inv: "check_inv 100 sample_waiting"
proof -
  have "tm_inv sample_waiting"
  proof (rule tm_invI)
    show "thread_timer_ok sample_waiting t" for t
      by (simp add: thread_timer_ok_def timer_is_type_def rt_object_get_type_def timer_on_def
          rt_object_is_systemobject_def sample_timers_def zero_timer_def sample_waiting_def)
    show "is_thread sample_waiting t \<and> tstat sample_waiting t = RT_THREAD_SUSPEND"
      if "linked sample_waiting (ThreadTimer t)" for t
      using that unfolding sample_waiting_same
      by (simp add: linked_def sample_waiting_def sample_is_thread sample_tstat)
  qed (simp_all add: linked_def sample_timers_def sample_waiting_def timer_on_def timer_is_type_def
      rt_object_get_type_def zero_timer_def)
  then have "kinv sample_waiting"
    by (rule kinv_timers [OF sample_kinv]) (simp_all add: sample_waiting_def)
  moreover have "\<not> timer_on sample_waiting x RT_TIMER_FLAG_PERIODIC" for x
    by (simp add: sample_waiting_def timer_on_def sample_timers_def zero_timer_def split: timer_id.splits)
  ultimately show ?thesis
    unfolding check_inv_def by (auto simp: sample_waiting_def in_order_def ahead_def)
qed

lemma rt_timer_check_wakes_witness:
  "(\<exists>k'. rt_timer_check (\<lambda>f p k. Some k) sample_waiting = Some k' \<and> kinv k' \<and> timeouts_done sample_waiting k') \<and>
    woken sample_waiting 3"
proof
  show "\<exists>k'. rt_timer_check (\<lambda>f p k. Some k) sample_waiting = Some k' \<and> kinv k' \<and> timeouts_done sample_waiting k'"
    by (rule rt_timer_check_wakes [OF sample_waiting_check_inv]) (simp add: sample_waiting_def)
  show "woken sample_waiting 3" by (simp add: woken_def expired_def sample_waiting_def)
qed

lemma sleep_timed:
  assumes "kinv k" "rt_current_thread k = Some t" "tstat k t = RT_THREAD_RUNNING" "tick < RT_TICK_HALF"
    "scheduler_lock_nest k = 0" "is_thread k u" "tstat k u = RT_THREAD_READY"
  shows "\<exists>k'. rt_thread_sleep tick k = Some k' \<and> kinv k' \<and> kframe k k' \<and> tstat k' t = RT_THREAD_SUSPEND \<and>
    runs_highest k' \<and> rt_current_thread k' \<noteq> Some t \<and>
    (\<forall>d < RT_TICK_HALF. woken (k'\<lparr>rt_tick := rt_tick k + d\<rparr>) t \<longleftrightarrow> tick \<le> d)"
proof -
  obtain k1 k2 where k2: "rt_thread_sleep tick k = Some k2" "kinv k2" "schedule_post k1 k2" "kinv k1"
    "kframe k k1" "linked k1 (ThreadTimer t)" "timeout_tick (timers k1 (ThreadTimer t)) = rt_tick k + tick"
    and st: "\<And>u. tstat k1 u = (if u = t then RT_THREAD_SUSPEND else tstat k u)" and c1: "rt_current_thread k1 = Some t"
    by (rule rt_thread_sleep_ok [OF assms(1-4)]) blast
  have p: "sched_frame k1 k2" "scheduler_lock_nest k1 = 0 \<Longrightarrow> runs_highest k2"
    and s2: "\<And>u. tstat k2 u = tstat k1 u \<or> {tstat k1 u, tstat k2 u} = {RT_THREAD_READY, RT_THREAD_RUNNING}"
    using k2(3) unfolding schedule_post_def by blast+
  have sus: "tstat k2 t = RT_THREAD_SUSPEND" using s2 [of t] st [of t] by (auto simp: doubleton_eq_iff)
  have hi: "runs_highest k2" using p(2) kframeD(10) [OF k2(5)] assms(5) by simp
  have fr: "kframe k k2" using kframe_trans [OF k2(5) sched_frame_kframe [OF p(1)]] .
  have nt: "rt_current_thread k2 \<noteq> Some t"
  proof (cases "tstat k2 u = RT_THREAD_READY")
    case True
    then show ?thesis using hi sus assms(6) kframe_thread(7) [OF fr, of u] unfolding runs_highest_def by fastforce
  next
    case False
    then have "tstat k2 u = RT_THREAD_RUNNING"
      using s2 [of u] st [of u] assms(3,7) by (cases "u = t") (auto simp: doubleton_eq_iff)
    then have "rt_current_thread k2 = Some u"
      using cur_invD(1) [OF kinvD(2) [OF k2(2)]] assms(6) kframe_thread(7) [OF fr, of u] by simp
    moreover have "u \<noteq> t" using assms(3,7) by auto
    ultimately show ?thesis by simp
  qed
  have tm: "timers k2 = timers k1" "rt_timer_list k2 = rt_timer_list k1" "rt_soft_timer_list k2 = rt_soft_timer_list k1"
    using sched_frameD [OF p(1)] by simp_all
  have th: "is_thread k1 t"
    using cur_invD(3) [OF kinvD(2) [OF assms(1)] assms(2,3)] kframe_thread(7) [OF k2(5)] by simp
  have "thread_timer_ok k1 t" using tm_invD(7) [OF kinvD(3) [OF k2(4)] th] st [of t] by simp
  then have "ThreadTimer t \<in> set (rt_timer_list k2)"
    using k2(6) tm_invD(6) [OF kinvD(3) [OF k2(4)], of "ThreadTimer t"] tm by (auto simp: linked_def thread_timer_ok_def)
  moreover have "d - tick < RT_TICK_HALF \<longleftrightarrow> tick \<le> d" if "d < RT_TICK_HALF" for d
    using half_range_order [of 0 d tick] that assms(4) by (simp add: ahead_def word_less_nat_alt word_le_nat_alt)
  ultimately have "\<forall>d < RT_TICK_HALF. woken (k2\<lparr>rt_tick := rt_tick k + d\<rparr>) t \<longleftrightarrow> tick \<le> d"
    using k2(7) tm by (simp add: woken_def expired_def)
  then show ?thesis using k2(1,2) fr sus hi nt by blast
qed

text \<open>C7: \<open>rt_thread_sleep\<close> suspends the calling thread, starts its timer for the current tick plus the
  given one and lets the highest ready thread run; the timer is due exactly from the moment when at
  least that many ticks have passed (counted within half the range of the tick).\<close>

theorem rt_thread_sleep_timed:
  assumes "kinv k" "rt_current_thread k = Some t" "tstat k t = RT_THREAD_RUNNING" "tick < RT_TICK_HALF"
    "scheduler_lock_nest k = 0" "is_thread k u" "tstat k u = RT_THREAD_READY"
  shows "\<exists>k'. rt_thread_sleep tick k = Some k' \<and> kinv k' \<and> kframe k k' \<and> tstat k' t = RT_THREAD_SUSPEND \<and>
    runs_highest k' \<and> rt_current_thread k' \<noteq> Some t \<and>
    (\<forall>d < RT_TICK_HALF. woken (k'\<lparr>rt_tick := rt_tick k + d\<rparr>) t \<longleftrightarrow> tick \<le> d)"
  by (rule sleep_timed [OF assms])

lemma rt_thread_sleep_timed_witness:
  "\<exists>k'. rt_thread_sleep 20 sample = Some k' \<and> kinv k' \<and> kframe sample k' \<and> tstat k' 1 = RT_THREAD_SUSPEND \<and>
    runs_highest k' \<and> rt_current_thread k' \<noteq> Some 1 \<and>
    (\<forall>d < RT_TICK_HALF. woken (k'\<lparr>rt_tick := rt_tick sample + d\<rparr>) 1 \<longleftrightarrow> 20 \<le> d)"
  by (rule rt_thread_sleep_timed [OF sample_kinv, where u = 2]) (simp_all add: sample_tstat sample_is_thread)

end
