(* ===== verification/ClockProps.thy ===== *)
theory ClockProps
  imports TimerProps SchedProps
begin

section \<open>Ticks, time slices and delays\<close>

text \<open>What the tick interrupt does to the running thread, and the delays of \<open>thread.c\<close>.\<close>

lemma harmless_tick [simp]: "harmless (\<lambda>th. th\<lparr>remaining_tick := f th\<rparr>)"
  by (simp add: harmless_def scheduler_stack_ok_def)

lemma harmless_slice_end [simp]:
  "harmless (\<lambda>th. th\<lparr>remaining_tick := f th, stat := stat th OR RT_THREAD_STAT_YIELD\<rparr>)"
  by (simp add: harmless_def scheduler_stack_ok_def bit.conj_disj_distrib2)

lemma kinv_tick: "kinv k \<Longrightarrow> kinv (k\<lparr>rt_tick := n\<rparr>)"
  by (rule kinv_view) (simp_all add: is_thread_def tstat_def tprio_def thread_ok_def started_def)

lemma rt_timer_check_idle: "expired k = {} \<Longrightarrow> rt_timer_check cb k = Some k"
  by (auto simp: rt_timer_check_def timer_check_loop.simps timer_check_step_def expired_def split: list.split)

lemma kframe_slice: "kframe k k' \<Longrightarrow> remaining_tick (threads k' t) = remaining_tick (threads k t) \<and>
    thread_init_tick (threads k' t) = thread_init_tick (threads k t)"
proof -
  assume "kframe k k'"
  then have e: "(threads k' t)\<lparr>stat := 0\<rparr> = (threads k t)\<lparr>stat := 0\<rparr>" by (simp add: kframe_def)
  show ?thesis using arg_cong [OF e, of remaining_tick] arg_cong [OF e, of thread_init_tick] by simp
qed

text \<open>the time slice: each tick counts the slice of the running thread down. While ticks are left the
  thread goes on running; when the last one is used up, the slice is filled again and the first
  ready thread of the same priority runs, the old one going to the end of the ready list. (The
  scheduler is not locked, no ready thread has a higher priority and no timer expires.)\<close>

text \<open>The running thread has used up its slice: the next thread of its queue runs.\<close>

lemma slice_end_switches:
  assumes i2: "kinv k2" and f2: "rt_current_thread k2 = Some c" "scheduler_lock_nest k2 = 0" "expired k2 = {}"
    and q: "queues k2 (Ready (tprio k2 c)) = h # ts" and y: "stat (threads k2 c) AND RT_THREAD_STAT_YIELD \<noteq> 0"
    and run: "tstat k2 c = RT_THREAD_RUNNING"
    and hi: "\<And>u. is_thread k2 u \<Longrightarrow> tstat k2 u = RT_THREAD_READY \<Longrightarrow> tprio k2 c \<le> tprio k2 u"
  obtains k3 where "rt_schedule k2 = Some k3" "kinv k3" "kframe k2 k3" "rt_current_thread k3 = Some h"
    "queues k3 (Ready (tprio k2 c)) = ts @ [c]" "tstat k3 h = RT_THREAD_RUNNING" "expired k3 = {}"
proof -
  obtain k3 where k3: "rt_schedule k2 = Some k3" "rt_current_thread k3 = Some h"
    "queues k3 (Ready (tprio k2 c)) = ts @ [c]"
    by (rule rt_schedule_rotates [OF kinvD(1,2) [OF i2] f2(1) run y q f2(2)]) (use hi in blast)
  obtain k3' where "rt_schedule k2 = Some k3'" "kinv k3'" "schedule_post k2 k3'" "kframe k2 k3'"
    using rt_schedule_kinv [OF i2] f2(1) by auto
  then have i3: "kinv k3" "runs_highest k3" "kframe k2 k3" "sched_frame k2 k3"
    using k3(1) f2(2) by (auto simp: schedule_post_def)
  have "in_queue k3 c (Ready (tprio k2 c))" using k3(3) by (simp add: in_queue_def)
  from ready_in_queue(1,2) [OF kinvD(1) [OF i3(1)] this]
  have run3: "tstat k3 h = RT_THREAD_RUNNING" using i3(2) k3(2) unfolding runs_highest_def by auto
  have ex: "expired k3 = {}" using f2(3) sched_frameD [OF i3(4)] by (simp add: expired_def)
  show ?thesis by (rule that [OF k3(1) i3(1,3) k3(2,3) run3 ex])
qed

lemma rt_tick_increase_slice:
  assumes "kinv k" "rt_current_thread k = Some c" "tstat k c = RT_THREAD_RUNNING" "scheduler_lock_nest k = 0"
    "queues k (Ready (tprio k c)) = h # ts"
    "\<forall>u. is_thread k u \<and> tstat k u = RT_THREAD_READY \<longrightarrow> tprio k c \<le> tprio k u"
    "expired (k\<lparr>rt_tick := rt_tick k + 1\<rparr>) = {}"
  shows "\<exists>k'. rt_tick_increase cb k = Some k' \<and> kinv k' \<and> rt_tick k' = rt_tick k + 1 \<and>
    (if remaining_tick (threads k c) = 1
     then remaining_tick (threads k' c) = thread_init_tick (threads k c) \<and>
       rt_current_thread k' = Some h \<and> tstat k' h = RT_THREAD_RUNNING \<and>
       queues k' (Ready (tprio k c)) = ts @ [c]
     else remaining_tick (threads k' c) = remaining_tick (threads k c) - 1 \<and>
       rt_current_thread k' = Some c \<and> queues k' = queues k)"
proof -
  define k1 where "k1 = upd_thread c (\<lambda>th. th\<lparr>remaining_tick := remaining_tick th - 1\<rparr>) (k\<lparr>rt_tick := rt_tick k + 1\<rparr>)"
  have i1: "kinv k1" unfolding k1_def by (rule kinv_upd_thread [OF harmless_tick kinv_tick [OF assms(1)]])
  have s1: "is_thread k1 u = is_thread k u" "tstat k1 u = tstat k u" "tprio k1 u = tprio k u" for u
    unfolding k1_def harmless_upd [OF harmless_tick] by (simp_all add: is_thread_def tstat_def tprio_def)
  have r1: "remaining_tick (threads k1 c) = remaining_tick (threads k c) - 1"
    "thread_init_tick (threads k1 c) = thread_init_tick (threads k c)" by (simp_all add: k1_def upd_thread_def)
  have f1: "rt_current_thread k1 = Some c" "scheduler_lock_nest k1 = 0" "queues k1 = queues k"
    "rt_tick k1 = rt_tick k + 1" "expired k1 = {}"
    using assms by (simp_all add: k1_def upd_thread_def expired_def)
  have z: "remaining_tick (threads k c) - 1 = 0 \<longleftrightarrow> remaining_tick (threads k c) = 1" by simp
  show ?thesis
  proof (cases "remaining_tick (threads k c) = 1")
    case False
    have "rt_tick_increase cb k = Some k1"
      using False r1(1) z rt_timer_check_idle [OF f1(5)] assms(2)
      by (simp add: rt_tick_increase_def Let_def rt_thread_self_def k1_def [symmetric])
    then show ?thesis using False i1 f1 r1 by auto
  next
    case True
    define k2 where "k2 = upd_thread c (\<lambda>th. th\<lparr>remaining_tick := thread_init_tick th,
        stat := stat th OR RT_THREAD_STAT_YIELD\<rparr>) k1"
    have i2: "kinv k2" unfolding k2_def by (rule kinv_upd_thread [OF harmless_slice_end i1])
    have s2: "is_thread k2 u = is_thread k u" "tstat k2 u = tstat k u" "tprio k2 u = tprio k u" for u
      unfolding k2_def harmless_upd [OF harmless_slice_end] s1 by simp_all
    have f2: "rt_current_thread k2 = Some c" "scheduler_lock_nest k2 = 0" "queues k2 = queues k"
      "rt_tick k2 = rt_tick k + 1" "expired k2 = {}"
      using f1 by (simp_all add: k2_def upd_thread_def expired_def)
    have y: "stat (threads k2 c) AND RT_THREAD_STAT_YIELD \<noteq> 0" by (simp add: k2_def upd_thread_def)
    have hi: "tprio k2 c \<le> tprio k2 u" if "is_thread k2 u" "tstat k2 u = RT_THREAD_READY" for u
      using that assms(6) unfolding s2 by blast
    obtain k3 where k3: "rt_schedule k2 = Some k3" "kinv k3" "kframe k2 k3" "rt_current_thread k3 = Some h"
      "queues k3 (Ready (tprio k2 c)) = ts @ [c]" "tstat k3 h = RT_THREAD_RUNNING" "expired k3 = {}"
      by (rule slice_end_switches [OF i2 f2(1,2,5) _ y])
        (use hi assms(3,5) f2(3) in \<open>auto simp: s2\<close>)
    have "rt_tick_increase cb k = Some k3"
      using True r1(1) rt_timer_check_idle [of k3 cb, OF k3(7)] assms(2) k3(1)
      by (simp add: rt_tick_increase_def Let_def rt_thread_self_def k1_def [symmetric] k2_def [symmetric] rt_thread_yield_def)
    moreover have "remaining_tick (threads k3 c) = thread_init_tick (threads k c)"
      using kframe_slice [OF k3(3), of c] r1(2) by (simp add: k2_def upd_thread_def)
    ultimately show ?thesis
      using True k3(2,4-6) f2(4) kframeD(9) [OF k3(3)] by (auto simp: s2)
  qed
qed

lemma rt_tick_increase_slice_witness:
  "\<exists>k'. rt_tick_increase (\<lambda>f p k. Some k) sample = Some k' \<and> kinv k' \<and> rt_tick k' = rt_tick sample + 1 \<and>
    (if remaining_tick (threads sample 1) = 1
     then remaining_tick (threads k' 1) = thread_init_tick (threads sample 1) \<and>
       rt_current_thread k' = Some 2 \<and> tstat k' 2 = RT_THREAD_RUNNING \<and>
       queues k' (Ready (tprio sample 1)) = [] @ [1]
     else remaining_tick (threads k' 1) = remaining_tick (threads sample 1) - 1 \<and>
       rt_current_thread k' = Some 1 \<and> queues k' = queues sample)"
  by (rule rt_tick_increase_slice [OF sample_kinv])
    (use sample_runs_highest in \<open>simp_all add: sample_tstat sample_tprio sample_is_thread sample_queues_def expired_def\<close>)

text \<open>with 1000 ticks a second a non-negative number of milliseconds is the same number of ticks,
  without overflow, and a negative one is the largest tick.\<close>

lemma rt_tick_from_millisecond_exact:
  "unat (rt_tick_from_millisecond ms) = (if sint ms < 0 then 2 ^ 32 - 1 else unat ms)"
proof -
  have b: "unat ms < 2 ^ 32" using unsigned_less [of ms] by simp
  have s: "unat (1000 * (ms div 1000)) = 1000 * (unat ms div 1000)"
    using b unfolding unat_word_ariths(2) unat_div by (simp add: mod_less)
  have m: "unat ((1000 * (ms mod 1000) + 999) div 1000) = unat ms mod 1000"
  proof -
    have "unat (1000 * (ms mod 1000)) = 1000 * (unat ms mod 1000)"
      unfolding unat_word_ariths(2) unat_mod by (simp add: mod_less)
    moreover have "unat ms mod 1000 < 1000" by simp
    ultimately have "unat (1000 * (ms mod 1000) + 999) = 1000 * (unat ms mod 1000) + 999"
      unfolding unat_word_ariths(1) by simp
    then show ?thesis by (simp add: unat_div)
  qed
  show ?thesis
  proof (cases "sint ms < 0")
    case False
    have "unat (1000 * (ms div 1000) + (1000 * (ms mod 1000) + 999) div 1000) = unat ms"
      unfolding unat_word_ariths(1) s m using b by simp
    then show ?thesis using False by (simp add: rt_tick_from_millisecond_def)
  qed (simp add: rt_tick_from_millisecond_def)
qed

lemma rt_timer_start_halts: "\<not> init_tick (timers k x) < RT_TICK_HALF \<Longrightarrow> rt_timer_start x k = None"
  by (simp add: rt_timer_start_def Let_def clear_activated_def require_def)

text \<open>a sleep of half the range of the tick or more halts the kernel on the assertion of
  \<open>rt_timer_start\<close>; so does \<open>rt_thread_mdelay\<close> with a negative time, for which the conversion
  to ticks documents waiting for ever.\<close>

lemma rt_thread_mdelay_negative_halts:
  assumes "kinv k" "rt_current_thread k = Some t" "tstat k t = RT_THREAD_RUNNING"
  shows "(RT_TICK_HALF \<le> tick \<longrightarrow> rt_thread_sleep tick k = None) \<and>
    (sint ms < 0 \<longrightarrow> rt_thread_mdelay ms k = None)"
proof -
  have th: "is_thread k t" using cur_invD(3) [OF kinvD(2) [OF assms(1)] assms(2,3)] .
  obtain k1 where k1: "rt_thread_suspend t k = Some (RT_EOK, k1)" "kinv k1"
    by (rule rt_thread_suspend_ok [OF assms(1) th disjI2 [OF assms(3)]]) blast
  have n: "rt_thread_sleep tick k = None" if "RT_TICK_HALF \<le> tick" for tick
  proof -
    let ?k = "upd_timer (ThreadTimer t) (init_tick_update (\<lambda>_. tick)) k1"
    have "rt_timer_start (ThreadTimer t) ?k = None"
      using that by (intro rt_timer_start_halts) (simp add: not_less)
    then show ?thesis
      using assms(2) k1(1) by (simp add: rt_thread_sleep_def rt_thread_self_def rt_timer_control_def require_def)
  qed
  then show ?thesis
    using n [of "0xFFFFFFFF"] by (simp add: rt_thread_mdelay_def rt_tick_from_millisecond_def)
qed

lemma rt_thread_mdelay_negative_halts_witness:
  "rt_thread_sleep 0x80000000 sample = None \<and> rt_thread_mdelay 0xFFFFFFFF sample = None"
  using rt_thread_mdelay_negative_halts [OF sample_kinv, of 1 "0x80000000" "0xFFFFFFFF"]
  by (simp add: sample_tstat)

lemma delay_until_is_sleep:
  assumes "rt_current_thread k = Some t" "rt_tick k - tick < inc"
  shows "rt_thread_delay_until tick inc k =
    map_option (Pair (Some (rt_tick k - tick + inc))) (rt_thread_sleep (rt_tick k - tick + inc) k)"
  using assms by (simp add: rt_thread_delay_until_def rt_thread_sleep_def rt_thread_self_def rt_tick_get_def require_def
      Let_def map_option_case split: Option.bind_split option.split prod.splits)

text \<open>\<open>rt_thread_delay_until\<close> does not wake the thread at \<open>*tick + inc_tick\<close>, as its comment
  says: it sleeps for the increment plus, not minus, the time that has already passed, so that at
  \<open>*tick + inc_tick\<close> the thread is still suspended unless no time had passed.\<close>

lemma rt_thread_delay_until_too_long:
  assumes "kinv k" "rt_current_thread k = Some t" "tstat k t = RT_THREAD_RUNNING" "scheduler_lock_nest k = 0"
    "is_thread k u" "tstat k u = RT_THREAD_READY" "rt_tick k \<noteq> tick" "rt_tick k - tick < inc" "inc < 0x3FFFFFFF"
  shows "\<exists>k'. rt_thread_delay_until tick inc k = Some (Some (rt_tick k - tick + inc), k') \<and> kinv k' \<and>
    tstat k' t = RT_THREAD_SUSPEND \<and> \<not> woken (k'\<lparr>rt_tick := tick + inc\<rparr>) t \<and>
    woken (k'\<lparr>rt_tick := rt_tick k + (rt_tick k - tick) + inc\<rparr>) t"
proof -
  define e where "e = rt_tick k - tick"
  have e: "e \<noteq> 0" "e < inc" using assms(7,8) by (simp_all add: e_def)
  then have ue: "0 < unat e" "unat e < unat inc" "unat inc < 0x3FFFFFFF"
    using assms(9) by (simp_all add: word_less_nat_alt unat_gt_0)
  have ei: "unat (e + inc) = unat e + unat inc" using ue by (simp add: unat_word_ariths)
  then have small: "e + inc < RT_TICK_HALF" using ue by (simp add: word_less_nat_alt)
  obtain k' where k': "rt_thread_sleep (e + inc) k = Some k'" "kinv k'" "tstat k' t = RT_THREAD_SUSPEND"
    and w: "\<forall>d < RT_TICK_HALF. woken (k'\<lparr>rt_tick := rt_tick k + d\<rparr>) t \<longleftrightarrow> e + inc \<le> d"
    using sleep_timed [OF assms(1-3) small assms(4-6)] by blast
  have d: "unat (inc - e) = unat inc - unat e" using ue by (simp add: unat_sub word_le_nat_alt)
  then have "\<not> woken (k'\<lparr>rt_tick := rt_tick k + (inc - e)\<rparr>) t"
    using w ue ei by (simp add: word_less_nat_alt word_le_nat_alt)
  moreover have "rt_tick k + (inc - e) = tick + inc" by (simp add: e_def)
  moreover have "woken (k'\<lparr>rt_tick := rt_tick k + (e + inc)\<rparr>) t" using w small by simp
  ultimately show ?thesis
    using k' delay_until_is_sleep [OF assms(2,8)] by (simp add: e_def algebra_simps)
qed

lemma rt_thread_delay_until_too_long_witness:
  "\<exists>k'. rt_thread_delay_until 97 10 sample = Some (Some (rt_tick sample - 97 + 10), k') \<and> kinv k' \<and>
    tstat k' 1 = RT_THREAD_SUSPEND \<and> \<not> woken (k'\<lparr>rt_tick := 97 + 10\<rparr>) 1 \<and>
    woken (k'\<lparr>rt_tick := rt_tick sample + (rt_tick sample - 97) + 10\<rparr>) 1"
  by (rule rt_thread_delay_until_too_long [OF sample_kinv, where u = 2]) (simp_all add: sample_tstat sample_is_thread)

end
