(* ===== verification/SemProps.thy ===== *)
theory SemProps
  imports TimerProps
begin

section \<open>Semaphores: takes, releases and the count of tokens\<close>

text \<open>
  The functional behaviour of the two operations, and the invariant of every interleaving of
  takes, releases, timeouts and scheduling: threads wait only while the value is 0, and tokens
  are neither lost nor made.
\<close>

definition is_sem :: "kernel \<Rightarrow> nat \<Rightarrow> bool" where
  "is_sem k s \<longleftrightarrow> obj_is k (OSem s) RT_Object_Class_Semaphore"

lemma sem_take_ok:
  assumes c: "in_call k c" and s: "is_sem k s" and to: "timeout_ok time"
  obtains oc k' where "rt_sem_take s time k = Some (oc, k')" "kinv k'"
    "if 0 < sem_value (sems k s) then oc = Returned RT_EOK \<and> k' = upd_sem s (sem_value_update (\<lambda>v. v - 1)) k
     else if time = 0 then oc = Returned (- RT_ETIMEOUT) \<and> k' = k
     else oc = Blocked 0 \<and>
       waits_on (Suspended (OSem s)) (obj_flag (sems k s)) c time (set_error c RT_EOK k) k'"
proof -
  note s' = s [unfolded is_sem_def]
  consider "0 < sem_value (sems k s)" | "\<not> 0 < sem_value (sems k s)" "time = 0"
    | "\<not> 0 < sem_value (sems k s)" "time \<noteq> 0" by blast
  then show ?thesis
  proof cases
    case 1
    then show ?thesis
      using s' kinv_objects(1) [OF in_callD(1) [OF c]]
      by (intro that [of "Returned RT_EOK"]) (simp_all add: rt_sem_take_def del: obj_is_simps)
  next
    case 2
    then show ?thesis
      using s' by (intro that [OF _ in_callD(1) [OF c], of "Returned (- RT_ETIMEOUT)"])
        (simp_all add: rt_sem_take_def del: obj_is_simps)
  next
    case 3
  let ?k = "set_error c RT_EOK k"
  note d = in_callD [OF c] and d' = in_callD [OF in_call_set_error [OF c]]
  obtain k1 k2 where k2: "ipc_wait (Suspended (OSem s)) c (obj_flag (sems k s)) time ?k = Some k1"
    "rt_schedule k1 = Some k2" "waits_on (Suspended (OSem s)) (obj_flag (sems k s)) c time ?k k2"
    by (rule ipc_block_ok [OF d'(1-3) waiting_queue_simps(1) to]) blast
    then show ?thesis
      using that [of "Blocked 0" k2] 3 s' d by (simp add: rt_sem_take_def waits_on_def del: obj_is_simps)
  qed
qed

text \<open>\<open>rt_sem_take\<close> in the running thread, on every branch: with a positive value it takes one
  token at once; with value 0 and no waiting time it returns \<open>-RT_ETIMEOUT\<close> and changes nothing;
  otherwise it suspends the thread on the semaphore's list, in FIFO or priority order, with its
  timer started when the time is limited, and the highest ready thread runs.\<close>

lemma rt_sem_take_correct:
  assumes "in_call k c" "is_sem k s" "timeout_ok time"
  shows "\<exists>oc k'. rt_sem_take s time k = Some (oc, k') \<and> kinv k' \<and>
    (if 0 < sem_value (sems k s) then oc = Returned RT_EOK \<and> kframe (k\<lparr>sems := sems k'\<rparr>) k' \<and>
       unat (sem_value (sems k' s)) = unat (sem_value (sems k s)) - 1 \<and> queues k' = queues k \<and>
       rt_current_thread k' = Some c
     else if time = 0 then oc = Returned (- RT_ETIMEOUT) \<and> k' = k
     else oc = Blocked 0 \<and>
       waits_on (Suspended (OSem s)) (obj_flag (sems k s)) c time (set_error c RT_EOK k) k')"
proof -
  obtain oc k' where k': "rt_sem_take s time k = Some (oc, k')" "kinv k'"
    "if 0 < sem_value (sems k s) then oc = Returned RT_EOK \<and> k' = upd_sem s (sem_value_update (\<lambda>v. v - 1)) k
     else if time = 0 then oc = Returned (- RT_ETIMEOUT) \<and> k' = k
     else oc = Blocked 0 \<and>
       waits_on (Suspended (OSem s)) (obj_flag (sems k s)) c time (set_error c RT_EOK k) k'"
    by (rule sem_take_ok [OF assms]) blast
  have "unat (v - 1) = unat v - 1" if "0 < v" for v :: u16
    using that by (simp add: unat_minus_one word_gt_0)
  then show ?thesis using k' in_callD(2) [OF assms(1)]
    by (auto simp: upd_sem_def kframe_def split: if_splits)
qed

lemma rt_sem_take_correct_witness:
  "\<exists>oc k'. rt_sem_take 0 5 sample = Some (oc, k') \<and> kinv k' \<and>
    (if 0 < sem_value (sems sample 0) then oc = Returned RT_EOK \<and> kframe (sample\<lparr>sems := sems k'\<rparr>) k' \<and>
       unat (sem_value (sems k' 0)) = unat (sem_value (sems sample 0)) - 1 \<and> queues k' = queues sample \<and>
       rt_current_thread k' = Some 1
     else if (5::u32) = 0 then oc = Returned (- RT_ETIMEOUT) \<and> k' = sample
     else oc = Blocked 0 \<and>
       waits_on (Suspended (OSem 0)) (obj_flag (sems sample 0)) 1 5 (set_error 1 RT_EOK sample) k')"
  by (rule rt_sem_take_correct [OF sample_in_call]) (simp_all add: is_sem_def zero_sem_def timeout_ok_def)

lemma sem_release_ok:
  assumes inv: "kinv k" and s: "is_sem k s" and cur: "rt_current_thread k \<noteq> None"
  obtains k' where "rt_sem_release s k = Some (RT_EOK, k')" "kinv k'"
    "case queues k (Suspended (OSem s)) of [] \<Rightarrow> k' = upd_sem s (sem_value_update (\<lambda>v. v + 1)) k
     | t # ts \<Rightarrow> wakes (Suspended (OSem s)) t k k'"
proof (cases "queues k (Suspended (OSem s))")
  case Nil
  then show ?thesis
    using that [of "upd_sem s (sem_value_update (\<lambda>v. v + 1)) k"] s kinv_objects(1) [OF inv]
    by (simp add: rt_sem_release_def is_sem_def tlist_isempty_def del: obj_is_simps)
next
  case (Cons t ts)
  obtain k1 k2 where "rt_ipc_list_resume (Suspended (OSem s)) k = Some k1" "rt_schedule k1 = Some k2"
    "wakes (Suspended (OSem s)) t k k2"
    by (rule ipc_wake_ok [OF inv waiting_queue_simps(1) Cons cur]) blast
  then show ?thesis
    using that [of k2] s Cons by (simp add: rt_sem_release_def is_sem_def tlist_isempty_def wakes_def del: obj_is_simps)
qed

text \<open>C8: \<open>rt_sem_release\<close> hands the token to the first waiting thread, which leaves the list and
  becomes ready (or runs, if it is of the highest priority), the value staying as it is; without
  waiting threads the value grows by one. The counter has 16 bits and is not checked: the
  65536th token is lost, the value going back to 0 with the result \<open>RT_EOK\<close>.\<close>

theorem rt_sem_release_correct:
  assumes "kinv k" "is_sem k s" "rt_current_thread k \<noteq> None"
  shows "\<exists>k'. rt_sem_release s k = Some (RT_EOK, k') \<and> kinv k' \<and>
    (case queues k (Suspended (OSem s)) of
       [] \<Rightarrow> queues k' = queues k \<and> rt_current_thread k' = rt_current_thread k \<and>
         unat (sem_value (sems k' s)) = (if sem_value (sems k s) = 0xFFFF then 0 else unat (sem_value (sems k s)) + 1)
     | t # ts \<Rightarrow> wakes (Suspended (OSem s)) t k k' \<and> sems k' = sems k)"
proof -
  obtain k' where k': "rt_sem_release s k = Some (RT_EOK, k')" "kinv k'"
    "case queues k (Suspended (OSem s)) of [] \<Rightarrow> k' = upd_sem s (sem_value_update (\<lambda>v. v + 1)) k
     | t # ts \<Rightarrow> wakes (Suspended (OSem s)) t k k'"
    by (rule sem_release_ok [OF assms]) blast
  have "unat (v + 1) = (if v = 0xFFFF then 0 else unat v + 1)" for v :: u16
  proof -
    have m: "(0xFFFF :: u16) = - 1" by simp
    have iff: "v + 1 = 0 \<longleftrightarrow> v = 0xFFFF" unfolding m by (rule eq_neg_iff_add_eq_0 [symmetric])
    show ?thesis
    proof (cases "v + 1 = 0")
      case True
      then have "unat (v + 1) = 0" "v = 0xFFFF" using iff by (simp, blast)
      then show ?thesis by (simp only: simp_thms if_True)
    next
      case False
      then have "v \<noteq> 0xFFFF" "unat (v + 1) = unat v + 1" using iff unatSuc [of v] by (blast, simp add: add.commute)
      then show ?thesis by (simp only: if_False)
    qed
  qed
  then show ?thesis using k' by (auto simp: upd_sem_def wakes_def kframe_def split: list.splits)
qed

lemma rt_sem_release_correct_witness:
  "\<exists>k'. rt_sem_release 0 sample = Some (RT_EOK, k') \<and> kinv k' \<and>
    (case queues sample (Suspended (OSem 0)) of
       [] \<Rightarrow> queues k' = queues sample \<and> rt_current_thread k' = rt_current_thread sample \<and>
         unat (sem_value (sems k' 0)) = (if sem_value (sems sample 0) = 0xFFFF then 0 else unat (sem_value (sems sample 0)) + 1)
     | t # ts \<Rightarrow> wakes (Suspended (OSem 0)) t sample k' \<and> sems k' = sems sample)"
  by (rule rt_sem_release_correct [OF sample_kinv]) (simp_all add: is_sem_def zero_sem_def)


subsection \<open>Runs of a semaphore\<close>

text \<open>
  Any interleaving of calls on the semaphore \<open>s\<close> with scheduling, ticks, interrupts and the
  timeouts of threads, from \<open>k0\<close>; \<open>n\<close> counts the tokens given to threads and \<open>m\<close> the releases.
\<close>

inductive sem_run :: "nat \<Rightarrow> kernel \<Rightarrow> kernel \<Rightarrow> nat \<Rightarrow> nat \<Rightarrow> bool" for s k0 where
  start: "sem_run s k0 k0 0 0"
| take: "sem_run s k0 k n m \<Longrightarrow> in_call k c \<Longrightarrow> timeout_ok time \<Longrightarrow> rt_sem_take s time k = Some (oc, k') \<Longrightarrow>
    sem_run s k0 k' (if oc = Returned RT_EOK then n + 1 else n) m"
| release: "sem_run s k0 k n m \<Longrightarrow> rt_current_thread k \<noteq> None \<Longrightarrow> rt_sem_release s k = Some (r, k') \<Longrightarrow>
    sem_run s k0 k' (if queues k (Suspended (OSem s)) = [] then n else n + 1) (m + 1)"
| timeout: "sem_run s k0 k n m \<Longrightarrow> check_inv b k \<Longrightarrow> rt_timer_list k = ThreadTimer t # xs \<Longrightarrow>
    timer_check_step cb (rt_tick k) k = Some (Inr (tick, k')) \<Longrightarrow> sem_run s k0 k' n m"
| schedule: "sem_run s k0 k n m \<Longrightarrow> rt_current_thread k \<noteq> None \<Longrightarrow> rt_schedule k = Some k' \<Longrightarrow> sem_run s k0 k' n m"
| tick: "sem_run s k0 k n m \<Longrightarrow> sem_run s k0 (rt_tick_set tick k) n m"
| interrupt: "sem_run s k0 k n m \<Longrightarrow> sem_run s k0 (rt_interrupt_enter k) n m"
| interrupt_end: "sem_run s k0 k n m \<Longrightarrow> sem_run s k0 (rt_interrupt_leave k) n m"

definition sem_inv :: "nat \<Rightarrow> kernel \<Rightarrow> bool" where
  "sem_inv s k \<longleftrightarrow> kinv k \<and> is_sem k s \<and> (queues k (Suspended (OSem s)) \<noteq> [] \<longrightarrow> sem_value (sems k s) = 0)"

lemma sem_invI:
  assumes "kinv k'" "sems k' s = sems k s" "sem_inv s k"
    "set (queues k' (Suspended (OSem s))) \<subseteq> set (queues k (Suspended (OSem s)))"
  shows "sem_inv s k'"
  using assms by (auto simp: sem_inv_def is_sem_def)

lemma sem_run_take:
  assumes i: "sem_inv s k" and c: "in_call k c" and to: "timeout_ok time" and ex: "rt_sem_take s time k = Some (oc, k')"
  shows "sem_inv s k'" "sem_value (sems k' s) = sem_value (sems k s) - (if oc = Returned RT_EOK then 1 else 0)"
proof -
  have s: "is_sem k s" using i by (simp add: sem_inv_def)
  obtain oc' k'' where "rt_sem_take s time k = Some (oc', k'')" "kinv k''"
    "if 0 < sem_value (sems k s) then oc' = Returned RT_EOK \<and> k'' = upd_sem s (sem_value_update (\<lambda>v. v - 1)) k
     else if time = 0 then oc' = Returned (- RT_ETIMEOUT) \<and> k'' = k
     else oc' = Blocked 0 \<and>
       waits_on (Suspended (OSem s)) (obj_flag (sems k s)) c time (set_error c RT_EOK k) k''"
    by (rule sem_take_ok [OF c s to]) blast
  then have k': "kinv k'" "if 0 < sem_value (sems k s) then oc = Returned RT_EOK \<and> k' = upd_sem s (sem_value_update (\<lambda>v. v - 1)) k
     else if time = 0 then oc = Returned (- RT_ETIMEOUT) \<and> k' = k
     else oc = Blocked 0 \<and> waits_on (Suspended (OSem s)) (obj_flag (sems k s)) c time (set_error c RT_EOK k) k'"
    using ex by simp_all
  have w: "sems k' = sems k" if "waits_on q f c time (set_error c RT_EOK k) k'" for q f
    using that kframeD(1) [of "set_error c RT_EOK k" k'] by (simp add: waits_on_def)
  show "sem_inv s k'"
    using k' i w by (auto simp: sem_inv_def is_sem_def upd_sem_def word_gt_0 split: if_splits)
  show "sem_value (sems k' s) = sem_value (sems k s) - (if oc = Returned RT_EOK then 1 else 0)"
    using k' w by (auto simp: upd_sem_def split: if_splits)
qed

lemma sem_run_release:
  assumes i: "sem_inv s k" and c: "rt_current_thread k \<noteq> None" and ex: "rt_sem_release s k = Some (r, k')"
  shows "sem_inv s k'"
    "sem_value (sems k' s) = sem_value (sems k s) + (if queues k (Suspended (OSem s)) = [] then 1 else 0)"
proof -
  have s: "is_sem k s" "kinv k" using i by (simp_all add: sem_inv_def)
  obtain k'' where "rt_sem_release s k = Some (RT_EOK, k'')" "kinv k''"
    "case queues k (Suspended (OSem s)) of [] \<Rightarrow> k'' = upd_sem s (sem_value_update (\<lambda>v. v + 1)) k
     | t # ts \<Rightarrow> wakes (Suspended (OSem s)) t k k''"
    by (rule sem_release_ok [OF s(2,1) c]) blast
  then have k': "kinv k'" "case queues k (Suspended (OSem s)) of [] \<Rightarrow> k' = upd_sem s (sem_value_update (\<lambda>v. v + 1)) k
     | t # ts \<Rightarrow> wakes (Suspended (OSem s)) t k k'" using ex by auto
  have w: "sems k' = sems k" if "wakes q t k k'" for q t
    using that kframeD(1) [of k k'] by (simp add: wakes_def)
  show "sem_inv s k'"
  proof (cases "queues k (Suspended (OSem s))")
    case Nil
    then show ?thesis using k' i by (auto simp: sem_inv_def is_sem_def upd_sem_def)
  next
    case (Cons t ts)
    then have "wakes (Suspended (OSem s)) t k k'" using k'(2) by simp
    from w [OF this] this show ?thesis by (intro sem_invI [OF k'(1) _ i]) (auto simp: wakes_def)
  qed
  show "sem_value (sems k' s) = sem_value (sems k s) + (if queues k (Suspended (OSem s)) = [] then 1 else 0)"
    using k' w by (auto simp: upd_sem_def split: list.splits)
qed

lemma sem_run_timeout:
  assumes i: "sem_inv s k" and c: "check_inv b k" and l: "rt_timer_list k = ThreadTimer t # xs"
    and ex: "timer_check_step cb (rt_tick k) k = Some (Inr (tick, k'))"
  shows "sem_inv s k'" "sems k' = sems k"
proof -
  have due: "rt_tick k - timeout_tick (timers k (ThreadTimer t)) < RT_TICK_HALF"
    using ex l by (auto simp: timer_check_step_def split: if_splits)
  obtain k'' where "timer_check_step cb (rt_tick k) k = Some (Inr (rt_tick k'', k''))" "check_inv b k''"
    "\<And>r. waiting_queue r \<Longrightarrow> queues k'' r = list_del t (queues k r)" "oframe k k''"
    by (rule thread_timer_step [OF c l due, where cb = cb]) blast
  then have k': "check_inv b k'" "\<And>r. waiting_queue r \<Longrightarrow> queues k' r = list_del t (queues k r)" "oframe k k'"
    using ex by auto
  show "sems k' = sems k" using oframeD(1) [OF k'(3)] .
  then show "sem_inv s k'"
    by (intro sem_invI [OF check_invD(1) [OF k'(1)] _ i]) (use k'(2) in auto)
qed

lemma sem_run_schedule:
  assumes i: "sem_inv s k" and c: "rt_current_thread k \<noteq> None" and ex: "rt_schedule k = Some k'"
  shows "sem_inv s k'" "sems k' = sems k"
proof -
  have kk: "kinv k" using i by (simp add: sem_inv_def)
  obtain k'' where "rt_schedule k = Some k''" "kinv k''" "kframe k k''"
    by (rule rt_schedule_kinv [OF kk c]) blast
  then have k': "kinv k'" "kframe k k'" using ex by simp_all
  show "sems k' = sems k" using kframeD(1) [OF k'(2)] .
  then show "sem_inv s k'"
    using rt_schedule_waiting [OF kk ex waiting_queue_simps(1)] by (intro sem_invI [OF k'(1) _ i]) simp_all
qed

lemma kinv_counters: "kinv k \<Longrightarrow> kinv (k\<lparr>interrupt_nest := n\<rparr>)" "kinv k \<Longrightarrow> kinv (k\<lparr>rt_tick := u\<rparr>)"
  by (rule kinv_view; simp add: is_thread_def tstat_def tprio_def thread_ok_def started_def)+

text \<open>C9: over every interleaving of takes, releases, timeouts, ticks and scheduling, threads wait on a
  semaphore only while its value is 0, and the tokens are accounted for: the value is the initial
  one plus the releases minus the tokens handed out, as long as that fits the 16-bit counter
  (the equation holds modulo \<open>2^16\<close> in every case).\<close>

theorem sem_tokens_accounted:
  assumes "sem_run s k0 k n m" "sem_inv s k0"
  shows "sem_inv s k \<and> sem_value (sems k s) + of_nat n = sem_value (sems k0 s) + of_nat m"
  using assms
proof (induction rule: sem_run.induct)
  case (take k n m c time oc k')
  then have i: "sem_inv s k" and e: "sem_value (sems k s) + of_nat n = sem_value (sems k0 s) + of_nat m" by simp_all
  note t = sem_run_take [OF i take.hyps(2-4)]
  show ?case using t(1) e unfolding t(2) by (cases "oc = Returned RT_EOK") simp_all
next
  case (release k n m r k')
  then have i: "sem_inv s k" and e: "sem_value (sems k s) + of_nat n = sem_value (sems k0 s) + of_nat m" by simp_all
  note t = sem_run_release [OF i release.hyps(2,3)]
  show ?case using t(1) e unfolding t(2) by (simp add: algebra_simps)
next
  case (timeout k n m b t xs cb tick k')
  then show ?case using sem_run_timeout [of s k b t xs cb tick k'] by simp
next
  case (schedule k n m k')
  then show ?case using sem_run_schedule [of s k k'] by simp
next
  case (tick k n m tick)
  then show ?case by (auto simp: rt_tick_set_def sem_inv_def is_sem_def kinv_counters)
next
  case (interrupt k n m)
  then show ?case by (auto simp: rt_interrupt_enter_def sem_inv_def is_sem_def kinv_counters)
next
  case (interrupt_end k n m)
  then show ?case by (auto simp: rt_interrupt_leave_def sem_inv_def is_sem_def kinv_counters)
qed simp


lemma sem_tokens_accounted_witness:
  "\<exists>k'. rt_sem_release 0 sample = Some (RT_EOK, k') \<and> sem_inv 0 k' \<and>
    sem_value (sems k' 0) + of_nat 1 = sem_value (sems sample 0) + of_nat 1"
proof -
  have s: "is_sem sample 0" and i: "sem_inv 0 sample"
    by (simp_all add: sem_inv_def is_sem_def zero_sem_def sample_kinv)
  have c: "rt_current_thread sample \<noteq> None" by simp
  obtain k' where k': "rt_sem_release 0 sample = Some (RT_EOK, k')"
    by (rule sem_release_ok [OF sample_kinv s c]) blast
  have "sem_run 0 sample k' 1 1"
    using sem_run.release [OF sem_run.start c k'] by (simp add: sample_queues_def)
  from sem_tokens_accounted [OF this i] k' show ?thesis by simp
qed

end
