(* ===== verification/MutexProps.thy ===== *)
theory MutexProps
  imports SemProps
begin

section \<open>Mutexes: ownership, recursion and priority inheritance\<close>

text \<open>
  What a take and a release do on every branch, and what priority inheritance gives: while it
  waits, a thread finds the owner at least as urgent as itself.
\<close>

subsection \<open>Changing a priority\<close>

text \<open>Only the priority of \<open>t\<close> changes, and its place among the ready threads.\<close>

definition prio_changed :: "tid \<Rightarrow> u8 \<Rightarrow> kernel \<Rightarrow> kernel \<Rightarrow> bool" where
  "prio_changed t p k k' \<longleftrightarrow> kinv k' \<and>
     oframe (upd_thread t (current_priority_update (\<lambda>_. p)) k) k' \<and>
     rt_current_thread k' = rt_current_thread k \<and> same_lists k k' \<and>
     (\<forall>q. waiting_queue q \<longrightarrow> queues k' q = queues k q) \<and>
     (\<forall>u. tstat k' u = tstat k u \<and> thread_error (threads k' u) = thread_error (threads k u))"

lemma set_prio_fields:
  fixes t p k m defines "k' \<equiv> upd_thread t (\<lambda>th. th\<lparr>current_priority := p, number_mask := m\<rparr>) k"
  shows "is_thread k' u = is_thread k u" "tstat k' u = tstat k u"
    "tprio k' u = (if u = t then unat p else tprio k u)"
    "thread_error (threads k' u) = thread_error (threads k u)"
    "oframe (upd_thread t (current_priority_update (\<lambda>_. p)) k) k'" "same_lists k k'"
    "rt_current_thread k' = rt_current_thread k" "queues k' = queues k"
    "ready_priority_group k' = ready_priority_group k" "timers k' = timers k"
    "rt_timer_list k' = rt_timer_list k" "rt_soft_timer_list k' = rt_soft_timer_list k"
  by (simp_all add: k'_def is_thread_def tstat_def tprio_def oframe_def same_lists_def upd_thread_def)

lemma set_prio_thread_ok:
  assumes "thread_ok k t" "p < 32"
  shows "thread_ok (upd_thread t (\<lambda>th. th\<lparr>current_priority := p, number_mask := push_bit (unat p) 1\<rparr>) k) t"
  using assms by (simp add: thread_ok_def set_prio_fields started_def scheduler_stack_ok_def word_less_nat_alt)
    (simp add: upd_thread_def)

lemma set_prio_kinv:
  assumes inv: "kinv k" and th: "is_thread k t" and p: "p < 32" and st: "tstat k t \<noteq> RT_THREAD_READY"
  shows "kinv (upd_thread t (\<lambda>th. th\<lparr>current_priority := p, number_mask := push_bit (unat p) 1\<rparr>) k)"
proof -
  let ?k = "upd_thread t (\<lambda>th. th\<lparr>current_priority := p, number_mask := push_bit (unat p) 1\<rparr>) k"
  note si = kinvD(1) [OF inv]
  have ad: "admits ?k q u = admits k q u" for q u
    by (cases q) (use st in \<open>auto simp: set_prio_fields\<close>)
  have iq: "in_queue ?k u q = in_queue k u q" for u q by simp
  have pl: "placed ?k u" for u
    using sched_invD(5) [OF si, of u] st unfolding placed_def ad iq set_prio_fields by auto
  have tok: "thread_ok ?k u" if "is_thread ?k u" for u
  proof (cases "u = t")
    case True
    then show ?thesis using set_prio_thread_ok [OF sched_invD(3) [OF si th] p] by simp
  next
    case False
    then show ?thesis using sched_invD(3) [OF si, of u] that
      unfolding thread_ok_def set_prio_fields started_def by (simp add: upd_thread_def)
  qed
  have "queues_ok ?k" "group_ok ?k"
    using sched_invD(1,2) [OF si] unfolding queues_ok_def group_ok_def iq set_prio_fields by blast+
  then have "sched_inv {} ?k" using pl tok by (simp add: sched_inv_def)
  moreover have "cur_inv ?k" by (rule cur_inv_cong [OF kinvD(2) [OF inv] set_prio_fields(7,1,2)])
  moreover have "tm_inv ?k"
    by (rule tm_inv_same_timers [OF kinvD(3) [OF inv] set_prio_fields(10-12,1)]) (simp_all add: set_prio_fields)
  ultimately show ?thesis by (simp add: kinv_def)
qed

lemma change_priority_ready:
  assumes inv: "kinv k" and th: "is_thread k t" and p: "p < 32" and ready: "tstat k t = RT_THREAD_READY"
  obtains k' where "change_priority t p k = Some k'" "prio_changed t p k k'"
proof -
  note si = kinvD(1) [OF inv]
  obtain g where r: "rt_schedule_remove_thread t k =
      Some (k\<lparr>queues := (\<lambda>q. list_del t (queues k q)), ready_priority_group := g\<rparr>)"
    and i1: "sched_inv {t} (k\<lparr>queues := (\<lambda>q. list_del t (queues k q)), ready_priority_group := g\<rparr>)"
    using sched_inv_remove [OF si th] by blast
  let ?k1 = "k\<lparr>queues := (\<lambda>q. list_del t (queues k q)), ready_priority_group := g\<rparr>"
  let ?k2 = "upd_thread t (\<lambda>th. th\<lparr>current_priority := p, number_mask := push_bit (unat p) 1\<rparr>) ?k1"
  have s1: "is_thread ?k1 u = is_thread k u" "tstat ?k1 u = tstat k u" for u
    by (simp_all add: is_thread_def tstat_def)
  have t1: "is_thread ?k1 t" using th s1 by simp
  have i2: "sched_inv {t} ?k2"
    using set_prio_thread_ok [OF sched_invD(3) [OF i1 t1] p] by (intro sched_inv_upd_thread [OF i1]) simp_all
  have t2: "is_thread ?k2 t" using t1 by (simp add: set_prio_fields)
  have m2: "number_mask (threads ?k2 t) = push_bit (tprio ?k2 t) 1"
    unfolding set_prio_fields by (simp add: upd_thread_def)
  have c: "rt_current_thread ?k2 \<noteq> Some t" using cur_invD(2) [OF kinvD(2) [OF inv], of t] ready by auto
  obtain k3 where k3: "rt_schedule_insert_thread t ?k2 = Some k3" "sched_inv ({} - {t}) k3"
    "sched_frame ?k2 k3" "rt_current_thread k3 = rt_current_thread ?k2"
    and st: "\<And>u. tstat k3 u = (if u = t then (if rt_current_thread ?k2 = Some t then RT_THREAD_RUNNING
                         else RT_THREAD_READY) else tstat ?k2 u)"
    and q3: "rt_current_thread ?k2 \<noteq> Some t \<Longrightarrow> queues k3 =
       (queues ?k2)(Ready (tprio ?k2 t) := queues ?k2 (Ready (tprio ?k2 t)) @ [t])"
    by (rule rt_schedule_insert_thread_ok [OF i2 t2 m2]) blast
  note f3 = sched_frameD [OF k3(3)] and ft3 = sched_frame_thread [OF k3(3)]
  have ts: "tstat k3 u = tstat k u" for u
    using st [of u] c ready by (simp add: set_prio_fields s1)
  have thr: "is_thread k3 u = is_thread k u" for u by (simp add: ft3(7) set_prio_fields s1)
  have "cur_inv k3" by (rule cur_inv_cong [OF kinvD(2) [OF inv] _ thr ts]) (simp add: k3(4))
  moreover have "tm_inv k3"
    by (rule tm_inv_same_timers [OF kinvD(3) [OF inv]]) (simp_all add: f3 thr ts)
  ultimately have "kinv k3" using k3(2) by (simp add: kinv_def)
  moreover have "oframe (upd_thread t (current_priority_update (\<lambda>_. p)) k) k3"
    unfolding oframe_def using f3 ft3(2,7,9,10) by (simp add: set_prio_fields is_thread_def) (simp add: upd_thread_def)
  moreover have "same_lists k k3" using f3 by (simp add: same_lists_def)
  moreover have "queues k3 q = queues k q" if "waiting_queue q" for q
    using q3 [OF c] not_waiting [OF si _ that, of t] ready that by (auto simp: list_del_notin)
  moreover have "thread_error (threads k3 u) = thread_error (threads k u)" for u
    using kframe_thread(4) [OF sched_frame_kframe [OF k3(3)], of u] by (simp add: set_prio_fields)
  ultimately have "prio_changed t p k k3" using k3(4) ts by (simp add: prio_changed_def)
  moreover have "change_priority t p k = Some k3"
    using ready p r k3(1) by (simp add: change_priority_def priority_mask_def Let_def)
  ultimately show ?thesis using that by blast
qed

lemma change_priority_ok:
  assumes inv: "kinv k" and th: "is_thread k t" and p: "p < 32"
  obtains k' where "change_priority t p k = Some k'" "prio_changed t p k k'"
proof (cases "tstat k t = RT_THREAD_READY")
  case False
  let ?k = "upd_thread t (\<lambda>th. th\<lparr>current_priority := p, number_mask := push_bit (unat p) 1\<rparr>) k"
  have "change_priority t p k = Some ?k"
    using False p by (simp add: change_priority_def priority_mask_def Let_def)
  moreover have "prio_changed t p k ?k"
    using set_prio_kinv [OF inv th p False] unfolding prio_changed_def
    by (intro conjI allI impI set_prio_fields) (simp_all add: set_prio_fields)
  ultimately show ?thesis using that by blast
next
  case True
  show ?thesis by (rule change_priority_ready [OF inv th p True]) (fact that)
qed


subsection \<open>Taking\<close>

definition is_mutex :: "kernel \<Rightarrow> nat \<Rightarrow> bool" where
  "is_mutex k m \<longleftrightarrow> obj_is k (OMutex m) RT_Object_Class_Mutex"

text \<open>A mutex that is taken has an owner, which is a thread, and an owner's original priority is one.\<close>

definition mutex_ok :: "kernel \<Rightarrow> nat \<Rightarrow> bool" where
  "mutex_ok k m \<longleftrightarrow> is_mutex k m \<and>
     (mutex_value (mutexes k m) = 0 \<longrightarrow> (\<exists>own. owner (mutexes k m) = Some own)) \<and>
     (\<forall>own. owner (mutexes k m) = Some own \<longrightarrow> is_thread k own \<and> original_priority (mutexes k m) < 32)"

text \<open>The owner after a thread of priority \<open>p\<close> has begun to wait.\<close>

definition boosted :: "tid \<Rightarrow> u8 \<Rightarrow> kernel \<Rightarrow> kernel \<Rightarrow> bool" where
  "boosted own p k k' \<longleftrightarrow>
     (if p < current_priority (threads k own) then prio_changed own p k k' else k' = k)"

lemma boost_ok:
  assumes inv: "kinv k" and th: "is_thread k own" and p: "p < 32"
  obtains k' where "(if p < current_priority (threads k own) then do {
        (_, k1) \<leftarrow> rt_thread_control own (CTRL_CHANGE_PRIORITY p) k; Some k1 } else Some k) = Some k'"
    "boosted own p k k'"
proof (cases "p < current_priority (threads k own)")
  case True
  obtain k' where "change_priority own p k = Some k'" "prio_changed own p k k'"
    by (rule change_priority_ok [OF inv th p]) blast
  then show ?thesis using that [of k'] True th by (simp add: boosted_def rt_thread_control_def)
qed (use that in \<open>simp add: boosted_def\<close>)

lemma prio_changed_in_call:
  assumes "in_call k c" "prio_changed t p k k'"
  shows "in_call k' c"
proof -
  have "interrupt_nest k' = interrupt_nest k"
    using oframeD(11) [of "upd_thread t (current_priority_update (\<lambda>_. p)) k" k'] assms(2)
    by (simp add: prio_changed_def upd_thread_def)
  then show ?thesis using assms by (simp add: in_call_def prio_changed_def)
qed

lemma prio_changed_prio:
  assumes "prio_changed t p k k'"
  shows "current_priority (threads k' u) = (if u = t then p else current_priority (threads k u))"
    "is_thread k' u = is_thread k u" "mutexes k' = mutexes k"
proof -
  have o: "oframe (upd_thread t (current_priority_update (\<lambda>_. p)) k) k'" using assms by (simp add: prio_changed_def)
  show "current_priority (threads k' u) = (if u = t then p else current_priority (threads k u))"
    using oframeD(13) [OF o, of u] by (simp add: upd_thread_def)
  show "is_thread k' u = is_thread k u" using oframeD(12) [OF o, of u] by (simp add: upd_thread_def is_thread_def)
  show "mutexes k' = mutexes k" using oframeD(2) [OF o] by (simp add: upd_thread_def)
qed

lemma boosted_prio:
  assumes "boosted own p k k'"
  shows "current_priority (threads k' u) = (if u = own then min p (current_priority (threads k own))
      else current_priority (threads k u))" "mutexes k' = mutexes k"
proof -
  show "current_priority (threads k' u) = (if u = own then min p (current_priority (threads k own))
      else current_priority (threads k u))"
  proof (cases "p < current_priority (threads k own)")
    case True
    then show ?thesis
      using assms prio_changed_prio(1) [of own p k k' u] by (simp add: boosted_def min_absorb1 less_imp_le)
  next
    case False
    then have "min p (current_priority (threads k own)) = current_priority (threads k own)" by simp
    then show ?thesis using assms False by (simp add: boosted_def)
  qed
  show "mutexes k' = mutexes k"
    using assms prio_changed_prio(3) [of own p k k'] by (auto simp: boosted_def split: if_splits)
qed

lemma running_prio:
  assumes "in_call k c"
  shows "is_thread k c" "current_priority (threads k c) < 32"
proof -
  note d = in_callD [OF assms]
  show th: "is_thread k c" using cur_invD(3) [OF kinvD(2) [OF d(1)] d(2,3)] .
  show "current_priority (threads k c) < 32"
    using sched_invD(3) [OF kinvD(1) [OF d(1)] th] by (simp add: thread_ok_def tprio_def word_less_nat_alt)
qed

text \<open>A thread that finds the mutex taken passes its priority on to the owner and waits.\<close>

lemma mutex_take_blocks:
  assumes i: "in_call k c" and own: "owner (mutexes k m) = Some own" "own \<noteq> c" "is_thread k own"
    and v: "mutex_value (mutexes k m) = 0" and time: "time \<noteq> 0" "timeout_ok time"
  obtains k1 k3 where "mutex_take_again m c time k = Some (Blocked 0, k3)" "kinv k3"
    "boosted own (current_priority (threads k c)) k k1" "waits_on (Suspended (OMutex m)) (obj_flag (mutexes k m)) c time k1 k3"
    "mutexes k3 = mutexes k" "tprio k3 own = min (tprio k c) (tprio k own)"
proof -
  let ?p = "current_priority (threads k c)"
  obtain k1 where k1: "(if ?p < current_priority (threads k own) then do {
      (_, k1) \<leftarrow> rt_thread_control own (CTRL_CHANGE_PRIORITY ?p) k; Some k1 } else Some k) = Some k1"
    "boosted own ?p k k1"
    by (rule boost_ok [OF in_callD(1) [OF i] own(3) running_prio(2) [OF i]]) blast
  have i1: "in_call k1 c"
    using k1(2) i prio_changed_in_call [OF i] by (auto simp: boosted_def split: if_splits)
  obtain k2 k3 where k3: "ipc_wait (Suspended (OMutex m)) c (obj_flag (mutexes k m)) time k1 = Some k2"
    "rt_schedule k2 = Some k3" "waits_on (Suspended (OMutex m)) (obj_flag (mutexes k m)) c time k1 k3"
    by (rule ipc_block_ok [OF in_callD(1-3) [OF i1] waiting_queue_simps(1) time(2)]) blast
  have fr: "kframe k1 k3" "kinv k3" using k3(3) by (simp_all add: waits_on_def)
  have "current_priority (threads k3 own) = min ?p (current_priority (threads k own))"
    using kframe_thread(2) [OF fr(1), of own] boosted_prio(1) [OF k1(2), of own] by simp
  then have "tprio k3 own = min (tprio k c) (tprio k own)" by (simp add: tprio_def min_def word_le_nat_alt)
  moreover have "mutexes k3 = mutexes k" using kframeD(2) [OF fr(1)] boosted_prio(2) [OF k1(2)] by simp
  moreover have "mutex_take_again m c time k = Some (Blocked 0, k3)"
  proof (cases "?p < current_priority (threads k own)")
    case True
    then obtain r where "rt_thread_control own (CTRL_CHANGE_PRIORITY ?p) k = Some (r, k1)"
      using k1(1) by (auto simp: Option.bind_eq_Some_conv)
    then show ?thesis using True v own time(1) k3(1,2) by (simp add: mutex_take_again_def)
  next
    case no: False
    then have "k1 = k" using k1(1) by simp
    then show ?thesis using no v own time(1) k3(1,2) by (simp add: mutex_take_again_def)
  qed
  ultimately show ?thesis using that k1(2) k3(3) fr(2) by blast
qed

text \<open>C10: \<open>rt_mutex_take\<close> in the running thread, on every branch: the owner takes again by counting
  up; a free mutex gets the thread as owner, with its priority remembered; without waiting time
  the call times out; otherwise the owner inherits the priority of the thread if that is more
  urgent, and the thread is suspended on the mutex, from which the scheduler goes on.\<close>

theorem rt_mutex_take_correct:
  assumes "in_call k c" "mutex_ok k m" "timeout_ok time"
  shows "\<exists>oc k'. rt_mutex_take m time k = Some (oc, k') \<and> kinv k' \<and>
    (let mx = mutexes k m; k0 = set_error c RT_EOK k in
     if owner mx = Some c then oc = Returned RT_EOK \<and> k' = upd_mutex m (hold_update (\<lambda>h. h + 1)) k0
     else if mutex_value mx > 0 then oc = Returned RT_EOK \<and>
       k' = upd_mutex m (\<lambda>mx. mx\<lparr>mutex_value := mutex_value mx - 1, owner := Some c,
              original_priority := current_priority (threads k c), hold := hold mx + 1\<rparr>) k0
     else if time = 0 then oc = Returned (- RT_ETIMEOUT) \<and> k' = set_error c (- RT_ETIMEOUT) k0
     else oc = Blocked 0 \<and> (\<exists>own k1. owner mx = Some own \<and> boosted own (current_priority (threads k c)) k0 k1 \<and>
       waits_on (Suspended (OMutex m)) (obj_flag mx) c time k1 k' \<and> mutexes k' = mutexes k \<and>
       tprio k' own = min (tprio k c) (tprio k own)))"
proof -
  let ?k = "set_error c RT_EOK k"
  note d = in_callD [OF assms(1)]
  have m: "obj_is k (OMutex m) RT_Object_Class_Mutex" using assms(2) by (simp add: mutex_ok_def is_mutex_def)
  have i: "in_call ?k c" using assms(1) by simp
  have ex: "rt_mutex_take m time k =
      (if owner (mutexes k m) = Some c then Some (Returned RT_EOK, upd_mutex m (hold_update (\<lambda>h. h + 1)) ?k)
       else mutex_take_again m c time ?k)"
    using m d by (simp add: rt_mutex_take_def Let_def)
  have ki: "kinv (upd_mutex m f ?k)" for f by (rule kinv_objects(2) [OF in_callD(1) [OF i]])
  show ?thesis
  proof (cases "owner (mutexes k m) = Some c \<or> mutex_value (mutexes k m) > 0 \<or> time = 0")
    case True
    then show ?thesis unfolding ex using ki d(1) by (auto simp: mutex_take_again_def Let_def)
  next
    case False
    then have v: "mutex_value (mutexes ?k m) = 0" by (simp add: word_gt_0)
    obtain own where own: "owner (mutexes ?k m) = Some own" "own \<noteq> c" "is_thread ?k own"
      using assms(2) v False unfolding mutex_ok_def by auto
    obtain k1 k3 where k3: "mutex_take_again m c time ?k = Some (Blocked 0, k3)" "kinv k3"
      "boosted own (current_priority (threads ?k c)) ?k k1" "waits_on (Suspended (OMutex m)) (obj_flag (mutexes ?k m)) c time k1 k3"
      "mutexes k3 = mutexes ?k" "tprio k3 own = min (tprio ?k c) (tprio ?k own)"
      by (rule mutex_take_blocks [OF i own v _ assms(3)]) (use False in blast)
    then show ?thesis unfolding ex using False own(1) by (auto simp: Let_def tprio_def)
  qed
qed


lemma sample_mutex_ok: "mutex_ok sample 0"
  by (simp add: mutex_ok_def is_mutex_def zero_mutex_def sample_is_thread)


lemma rt_mutex_take_correct_witness:
  "\<exists>oc k'. rt_mutex_take 1 0 sample = Some (oc, k') \<and> kinv k' \<and>
    (let mx = mutexes sample 1; k0 = set_error 1 RT_EOK sample in
     if owner mx = Some 1 then oc = Returned RT_EOK \<and> k' = upd_mutex 1 (hold_update (\<lambda>h. h + 1)) k0
     else if mutex_value mx > 0 then oc = Returned RT_EOK \<and>
       k' = upd_mutex 1 (\<lambda>mx. mx\<lparr>mutex_value := mutex_value mx - 1, owner := Some 1,
              original_priority := current_priority (threads sample 1), hold := hold mx + 1\<rparr>) k0
     else if (0::u32) = 0 then oc = Returned (- RT_ETIMEOUT) \<and> k' = set_error 1 (- RT_ETIMEOUT) k0
     else oc = Blocked 0 \<and> (\<exists>own k1. owner mx = Some own \<and> boosted own (current_priority (threads sample 1)) k0 k1 \<and>
       waits_on (Suspended (OMutex 1)) (obj_flag mx) 1 0 k1 k' \<and> mutexes k' = mutexes sample \<and>
       tprio k' own = min (tprio sample 1) (tprio sample own)))"
  by (rule rt_mutex_take_correct [OF sample_in_call])
    (simp_all add: mutex_ok_def is_mutex_def zero_mutex_def timeout_ok_def)

subsection \<open>Releasing\<close>

text \<open>The priority that the owner gets back.\<close>

definition restored :: "tid \<Rightarrow> u8 \<Rightarrow> kernel \<Rightarrow> kernel \<Rightarrow> bool" where
  "restored own p k k' \<longleftrightarrow>
     (if p \<noteq> current_priority (threads k own) then prio_changed own p k k' else k' = k)"

lemma restored_frame:
  assumes "restored own p k k'"
  shows "current_priority (threads k' u) = (if u = own then p else current_priority (threads k u))"
    "mutexes k' = mutexes k" "waiting_queue q \<Longrightarrow> queues k' q = queues k q"
    "rt_current_thread k' = rt_current_thread k" "kinv k \<Longrightarrow> kinv k'"
  using assms prio_changed_prio [of own p k k'] by (auto simp: restored_def prio_changed_def split: if_splits)

lemma restore_ok:
  assumes inv: "kinv k" and th: "is_thread k own" and p: "p < 32"
  obtains k' where "(if p \<noteq> current_priority (threads k own) then do {
        (_, k1) \<leftarrow> rt_thread_control own (CTRL_CHANGE_PRIORITY p) k; Some k1 } else Some k) = Some k'"
    "restored own p k k'"
proof (cases "p \<noteq> current_priority (threads k own)")
  case True
  obtain k' where "change_priority own p k = Some k'" "prio_changed own p k k'"
    by (rule change_priority_ok [OF inv th p]) blast
  then show ?thesis using that [of k'] True th by (simp add: restored_def rt_thread_control_def)
qed (use that in \<open>simp add: restored_def\<close>)

text \<open>The last release: the owner gets its priority back, and the first waiting thread, if there is one, the mutex.\<close>

lemma mutex_hand_over_ok:
  assumes ki: "kinv k" and c: "rt_current_thread k \<noteq> None" "is_thread k c" and mx: "hold (mutexes k m) = 0" "original_priority (mutexes k m) < 32"
  obtains b k1 k2 k3 where "mutex_hand_over m c k = Some (b, k2)" "(if b then rt_schedule k2 else Some k2) = Some k3" "kinv k3"
    "restored c (original_priority (mutexes k m)) k k1" "tprio k3 c = unat (original_priority (mutexes k m))"
    "case queues k (Suspended (OMutex m)) of
       [] \<Rightarrow> k3 = upd_mutex m (\<lambda>mx. mx\<lparr>mutex_value := mutex_value mx + 1, owner := None, original_priority := 0xFF\<rparr>) k1
     | t # ts \<Rightarrow> mutexes k3 m = (mutexes k m)\<lparr>owner := Some t, original_priority := current_priority (threads k1 t), hold := 1\<rparr> \<and>
         wakes (Suspended (OMutex m)) t (upd_mutex m (\<lambda>_. mutexes k3 m) k1) k3"
proof -
  let ?mx = "mutexes k m" let ?q = "Suspended (OMutex m)"
  obtain k1 where k1: "(if original_priority ?mx \<noteq> current_priority (threads k c) then do {
      (_, k1) \<leftarrow> rt_thread_control c (CTRL_CHANGE_PRIORITY (original_priority ?mx)) k; Some k1 } else Some k) = Some k1"
    "restored c (original_priority ?mx) k k1"
    by (rule restore_ok [OF ki c(2) mx(2)]) blast
  note r = restored_frame [OF k1(2)]
  have q1: "queues k1 ?q = queues k ?q" and mx1: "mutexes k1 m = ?mx" using r(2) r(3) [of ?q] by simp_all
  have p1: "tprio k1 c = unat (original_priority ?mx)" using r(1) [of c] by (simp add: tprio_def)
  show ?thesis
  proof (cases "queues k ?q")
    case Nil
    let ?k2 = "upd_mutex m (\<lambda>mx. mx\<lparr>mutex_value := mutex_value mx + 1, owner := None, original_priority := 0xff\<rparr>) k1"
    have "mutex_hand_over m c k = Some (False, ?k2)" unfolding mutex_hand_over_def k1(1) using q1 Nil by simp
    moreover have "tprio ?k2 c = unat (original_priority ?mx)" using p1 by (simp add: tprio_def upd_mutex_def)
    ultimately show ?thesis using that [of False ?k2 ?k2 k1] Nil k1(2) kinv_objects(2) [OF r(5) [OF ki]] by simp
  next
    case (Cons t ts)
    let ?k2 = "upd_mutex m (\<lambda>mx. mx\<lparr>owner := Some t,
              original_priority := current_priority (threads k1 t), hold := hold mx + 1\<rparr>) k1"
    have i2: "kinv ?k2" by (rule kinv_objects(2) [OF r(5) [OF ki]])
    have q2: "queues ?k2 ?q = t # ts" and c2: "rt_current_thread ?k2 \<noteq> None"
      using q1 Cons r(4) c(1) by (simp_all add: upd_mutex_def)
    obtain k3 k4 where k4: "rt_ipc_list_resume ?q ?k2 = Some k3" "rt_schedule k3 = Some k4" "wakes ?q t ?k2 k4"
      by (rule ipc_wake_ok [OF i2 waiting_queue_simps(1) q2 c2]) blast
    have w: "kinv k4" "kframe ?k2 k4" using k4(3) by (simp_all add: wakes_def)
    have mx4: "mutexes k4 m = ?mx\<lparr>owner := Some t, original_priority := current_priority (threads k1 t), hold := 1\<rparr>"
      using kframeD(2) [OF w(2)] mx1 mx(1) by (simp add: upd_mutex_def)
    have "upd_mutex m (\<lambda>_. mutexes k4 m) k1 = ?k2" unfolding mx4 using mx1 mx(1) by (simp add: upd_mutex_def)
    then have "wakes ?q t (upd_mutex m (\<lambda>_. mutexes k4 m) k1) k4" using k4(3) by simp
    moreover have "mutex_hand_over m c k = Some (True, k3)" unfolding mutex_hand_over_def k1(1) using q1 Cons k4(1) by simp
    moreover have "tprio k4 c = unat (original_priority ?mx)"
      using p1 kframe_thread(8) [OF w(2), of c] by (simp add: tprio_def upd_mutex_def)
    ultimately show ?thesis using that [of True k3 k4 k1] Cons k1(2) w(1) mx4 k4(2) by simp
  qed
qed

text \<open>C11: \<open>rt_mutex_release\<close> in the running thread: a thread that is not the owner gets
  \<open>-RT_ERROR\<close>; an owner that has taken the mutex more than once only counts down; the last release
  gives the owner its original priority back and hands the mutex over: the first waiting thread
  becomes the owner, with its priority remembered and the count 1, and is resumed; without one the
  mutex is free again.\<close>

theorem rt_mutex_release_correct:
  assumes "in_call k c" "mutex_ok k m"
  shows "\<exists>r k'. rt_mutex_release m k = Some (r, k') \<and> kinv k' \<and>
    (let mx = mutexes k m; k0 = upd_mutex m (hold_update (\<lambda>h. h - 1)) k in
     if owner mx \<noteq> Some c then r = - RT_ERROR \<and> k' = set_error c (- RT_ERROR) k
     else if hold mx \<noteq> 1 then r = RT_EOK \<and> k' = k0
     else r = RT_EOK \<and> (\<exists>k1. restored c (original_priority mx) k0 k1 \<and> tprio k' c = unat (original_priority mx) \<and>
       (case queues k (Suspended (OMutex m)) of
          [] \<Rightarrow> k' = upd_mutex m (\<lambda>mx. mx\<lparr>mutex_value := mutex_value mx + 1, owner := None,
                                         original_priority := 0xFF\<rparr>) k1
        | t # ts \<Rightarrow> mutexes k' m = mx\<lparr>owner := Some t, original_priority := current_priority (threads k1 t), hold := 1\<rparr> \<and>
            wakes (Suspended (OMutex m)) t (upd_mutex m (\<lambda>_. mutexes k' m) k1) k')))"
proof -
  let ?k = "upd_mutex m (hold_update (\<lambda>h. h - 1)) k" let ?mx = "mutexes k m" let ?q = "Suspended (OMutex m)"
  note d = in_callD [OF assms(1)]
  have m: "obj_is k (OMutex m) RT_Object_Class_Mutex" using assms(2) by (simp add: mutex_ok_def is_mutex_def)
  consider (no) "owner ?mx \<noteq> Some c" | (more) "owner ?mx = Some c" "hold ?mx \<noteq> 1" | (last) "owner ?mx = Some c" "hold ?mx = 1"
    by blast
  then show ?thesis
  proof cases
    case no
    then show ?thesis using m d by (simp add: rt_mutex_release_def Let_def)
  next
    case more
    have "rt_mutex_release m k = Some (RT_EOK, ?k)"
      using m d more by (simp add: rt_mutex_release_def Let_def upd_mutex_def)
    then show ?thesis using more kinv_objects(2) [OF d(1)] by (simp add: Let_def)
  next
    case last
    have th: "is_thread ?k c" "rt_current_thread ?k \<noteq> None" "hold (mutexes ?k m) = 0" "original_priority (mutexes ?k m) < 32"
      using assms(2) last d(2) by (simp_all add: mutex_ok_def upd_mutex_def is_thread_def)
    have f: "queues ?k = queues k" "mutexes ?k m = ?mx\<lparr>hold := 0\<rparr>" using last(2) by (simp_all add: upd_mutex_def)
    obtain b k1 k2 k3 where h: "mutex_hand_over m c ?k = Some (b, k2)" "(if b then rt_schedule k2 else Some k2) = Some k3" "kinv k3"
      "restored c (original_priority (mutexes ?k m)) ?k k1" "tprio k3 c = unat (original_priority (mutexes ?k m))"
      "case queues ?k ?q of
         [] \<Rightarrow> k3 = upd_mutex m (\<lambda>mx. mx\<lparr>mutex_value := mutex_value mx + 1, owner := None, original_priority := 0xFF\<rparr>) k1
       | t # ts \<Rightarrow> mutexes k3 m = (mutexes ?k m)\<lparr>owner := Some t, original_priority := current_priority (threads k1 t), hold := 1\<rparr> \<and>
           wakes ?q t (upd_mutex m (\<lambda>_. mutexes k3 m) k1) k3"
      by (rule mutex_hand_over_ok [OF kinv_objects(2) [OF d(1)] th(2,1,3,4)]) blast
    have "rt_mutex_release m k = Some (RT_EOK, k3)"
      using m d last h(1,2) by (simp add: rt_mutex_release_def Let_def upd_mutex_def)
    then show ?thesis using last h(3-6) unfolding f Let_def
      by (intro exI [of _ RT_EOK] exI [of _ k3]) (auto intro!: exI [of _ k1] split: list.splits)
  qed
qed


lemma rt_mutex_release_correct_witness:
  "\<exists>r k'. rt_mutex_release 0 sample = Some (r, k') \<and> kinv k' \<and>
    (let mx = mutexes sample 0; k0 = upd_mutex 0 (hold_update (\<lambda>h. h - 1)) sample in
     if owner mx \<noteq> Some 1 then r = - RT_ERROR \<and> k' = set_error 1 (- RT_ERROR) sample
     else if hold mx \<noteq> 1 then r = RT_EOK \<and> k' = k0
     else r = RT_EOK \<and> (\<exists>k1. restored 1 (original_priority mx) k0 k1 \<and> tprio k' 1 = unat (original_priority mx) \<and>
       (case queues sample (Suspended (OMutex 0)) of
          [] \<Rightarrow> k' = upd_mutex 0 (\<lambda>mx. mx\<lparr>mutex_value := mutex_value mx + 1, owner := None,
                                         original_priority := 0xFF\<rparr>) k1
        | t # ts \<Rightarrow> mutexes k' 0 = mx\<lparr>owner := Some t, original_priority := current_priority (threads k1 t), hold := 1\<rparr> \<and>
            wakes (Suspended (OMutex 0)) t (upd_mutex 0 (\<lambda>_. mutexes k' 0) k1) k')))"
  by (rule rt_mutex_release_correct [OF sample_in_call sample_mutex_ok])

end
