(* ===== verification/EventProps.thy ===== *)
theory EventProps
  imports SemProps
begin

section \<open>Event sets: exact delivery and no missed wake-up\<close>

text \<open>
  A send is compared with a pure function on the waiting list that says which threads are
  satisfied, what each receives and which bits remain; and over every interleaving no thread
  waits for bits that are set.
\<close>

text \<open>What a satisfied thread receives, and the walk over the waiting threads with their wishes.\<close>

definition got :: "u8 \<Rightarrow> u32 \<Rightarrow> u32 \<Rightarrow> u32" where
  "got info want bits = (if info AND RT_EVENT_FLAG_AND \<noteq> 0 then want else want AND bits)"

fun deliver :: "(tid \<Rightarrow> u32) \<Rightarrow> (tid \<Rightarrow> u8) \<Rightarrow> u32 \<Rightarrow> tid list \<Rightarrow> (tid \<times> u32) list \<times> u32" where
  "deliver want info bits [] = ([], bits)"
| "deliver want info bits (t # ts) =
     (if event_match (info t) (want t) bits then
        let g = got (info t) (want t) bits;
            rest = deliver want info (if info t AND RT_EVENT_FLAG_CLEAR \<noteq> 0 then bits AND NOT g else bits) ts
        in ((t, g) # fst rest, snd rest)
      else deliver want info bits ts)"

lemma deliver_subset: "fst ` set (fst (deliver want info bits ts)) \<subseteq> set ts"
  by (induction ts arbitrary: bits) (auto simp: Let_def subset_insertI2)

lemma deliver_cong:
  "(\<And>t. t \<in> set ts \<Longrightarrow> want t = want' t \<and> info t = info' t) \<Longrightarrow>
    deliver want info bits ts = deliver want' info' bits ts"
  by (induction ts arbitrary: bits) (auto simp: Let_def)

text \<open>Bits only go, and fewer bits satisfy fewer threads.\<close>

lemma match_mono:
  assumes "event_match info want b" "b AND c = b"
  shows "event_match info want c"
proof -
  have "want AND b = want \<Longrightarrow> want AND c = want" using assms(2) by (metis and.assoc and.commute)
  moreover have "b AND want \<noteq> 0 \<Longrightarrow> c AND want \<noteq> 0"
    using assms(2) by (metis and.assoc and_zero_eq)
  ultimately show ?thesis using assms(1) by (auto simp: event_match_def and.commute split: if_splits)
qed

lemma deliver_bits: "snd (deliver want info bits ts) AND bits = snd (deliver want info bits ts)"
proof (induction want info bits ts rule: deliver.induct)
  case (2 want info bits t ts)
  define g where "g = got (info t) (want t) bits"
  have c: "x AND bits = x" if "x AND (bits AND NOT g) = x" for x
    using that by (metis and.assoc and.commute and.idem)
  show ?case
    using 2 c by (auto simp: Let_def g_def [symmetric] split: if_splits)
qed simp

lemma deliver_rest:
  "t \<in> set ts \<Longrightarrow> t \<notin> fst ` set (fst (deliver want info bits ts)) \<Longrightarrow>
    \<not> event_match (info t) (want t) (snd (deliver want info bits ts))"
proof (induction want info bits ts rule: deliver.induct)
  case (2 want info bits u ts)
  show ?case
  proof (cases "event_match (info u) (want u) bits")
    case True
    then show ?thesis using 2 by (auto simp: Let_def split: if_splits)
  next
    case False
    then have "\<not> event_match (info u) (want u) (snd (deliver want info bits ts))"
      using match_mono deliver_bits by blast
    then show ?thesis using 2 False by auto
  qed
qed simp


subsection \<open>Sending\<close>

definition is_event :: "kernel \<Rightarrow> nat \<Rightarrow> bool" where
  "is_event k e \<longleftrightarrow> obj_is k (OEvent e) RT_Object_Class_Event"

abbreviation wants :: "kernel \<Rightarrow> tid \<Rightarrow> u32" where "wants k t \<equiv> event_set (threads k t)"
abbreviation infos :: "kernel \<Rightarrow> tid \<Rightarrow> u8" where "infos k t \<equiv> event_info (threads k t)"
abbreviation bits_of :: "kernel \<Rightarrow> nat \<Rightarrow> u32" where "bits_of k e \<equiv> set_bits (events k e)"

text \<open>The threads \<open>ws\<close> have been woken with what they received; the event set is left with \<open>b\<close>.\<close>

definition delivered :: "nat \<Rightarrow> (tid \<times> u32) list \<Rightarrow> u32 \<Rightarrow> kernel \<Rightarrow> kernel \<Rightarrow> bool" where
  "delivered e ws b k k' \<longleftrightarrow> kinv k' \<and> rt_current_thread k' = rt_current_thread k \<and>
     scheduler_lock_nest k' = scheduler_lock_nest k \<and> bits_of k' e = b \<and>
     (\<forall>f. is_event k' f = is_event k f \<and> (f \<noteq> e \<longrightarrow> events k' f = events k f)) \<and>
     (\<forall>q. waiting_queue q \<longrightarrow> queues k' q = filter (\<lambda>t. t \<notin> fst ` set ws) (queues k q)) \<and>
     (\<forall>(t, g) \<in> set ws. wants k' t = g \<and> tstat k' t \<in> {RT_THREAD_READY, RT_THREAD_RUNNING}) \<and>
     (\<forall>t. t \<notin> fst ` set ws \<longrightarrow> wants k' t = wants k t \<and> tstat k' t = tstat k t) \<and>
     (\<forall>t. infos k' t = infos k t \<and> thread_error (threads k' t) = thread_error (threads k t))"

lemma harmless_event_set [simp]: "harmless (event_set_update f)"
  by (simp add: harmless_def scheduler_stack_ok_def)

lemma event_send_one_ok:
  assumes inv: "kinv k" and t: "t \<in> set (queues k (Suspended (OEvent e)))"
    and m: "event_match (infos k t) (wants k t) (bits_of k e)"
  obtains k' where "event_send_one e t k = Some (True, k')"
    "delivered e [(t, got (infos k t) (wants k t) (bits_of k e))]
       (if infos k t AND RT_EVENT_FLAG_CLEAR \<noteq> 0
        then bits_of k e AND NOT (got (infos k t) (wants k t) (bits_of k e)) else bits_of k e) k k'"
proof -
  let ?g = "got (infos k t) (wants k t) (bits_of k e)"
  define k1 where "k1 = (if infos k t AND RT_EVENT_FLAG_AND \<noteq> 0 then k
                  else upd_thread t (event_set_update (\<lambda>s. s AND bits_of k e)) k)"
  define k2 where "k2 = (if infos k t AND RT_EVENT_FLAG_CLEAR \<noteq> 0
                  then upd_event e (set_bits_update (\<lambda>b. b AND NOT (event_set (threads k1 t)))) k1 else k1)"
  have i1: "kinv k1" unfolding k1_def using inv by (simp add: kinv_upd_thread)
  have i2: "kinv k2" unfolding k2_def using kinv_objects(3) [OF i1] i1 by simp
  have th: "is_thread k t" "tstat k t = RT_THREAD_SUSPEND"
    using sched_invD(6) [OF kinvD(1) [OF inv], of t "Suspended (OEvent e)"] t by (auto simp: in_queue_def)
  have s2: "is_thread k2 u = is_thread k u" "tstat k2 u = tstat k u" "infos k2 u = infos k u"
    "thread_error (threads k2 u) = thread_error (threads k u)" "wants k2 u = (if u = t then ?g else wants k u)" for u
    by (simp_all add: k2_def k1_def upd_event_def upd_thread_def is_thread_def tstat_def got_def)
  have f2: "rt_current_thread k2 = rt_current_thread k" "scheduler_lock_nest k2 = scheduler_lock_nest k"
    "queues k2 = queues k" by (simp_all add: k2_def k1_def upd_event_def upd_thread_def)
  have b2: "bits_of k2 e = (if infos k t AND RT_EVENT_FLAG_CLEAR \<noteq> 0 then bits_of k e AND NOT ?g else bits_of k e)"
    "is_event k2 f = is_event k f" "f \<noteq> e \<Longrightarrow> events k2 f = events k f" for f
    by (simp_all add: k2_def k1_def upd_event_def upd_thread_def is_event_def got_def)
  have th2: "is_thread k2 t" "tstat k2 t = RT_THREAD_SUSPEND" using th s2 by simp_all
  obtain k3 where k3: "rt_thread_resume t k2 = Some (RT_EOK, k3)" "kinv k3" "kframe k2 k3"
    "rt_current_thread k3 = rt_current_thread k2"
    and st: "\<And>u. tstat k3 u = (if u = t then (if rt_current_thread k2 = Some t then RT_THREAD_RUNNING
                         else RT_THREAD_READY) else tstat k2 u)"
    and q3: "\<And>q. queues k3 q = (if rt_current_thread k2 \<noteq> Some t \<and> q = Ready (tprio k2 t)
                         then list_del t (queues k2 q) @ [t] else list_del t (queues k2 q))"
    by (rule rt_thread_resume_ok [OF i2 th2]) blast
  have ex: "event_send_one e t k = Some (True, k3)"
  proof -
    have "event_send_one e t k = do { (_, k3) \<leftarrow> rt_thread_resume t k2; Some (True, k3) }"
      by (simp only: event_send_one_def Let_def m if_True k1_def k2_def)
    then show ?thesis using k3(1) by simp
  qed
  note f3 = kframeD(3,10) [OF k3(3)] and ft3 = kframe_thread(4-6) [OF k3(3)]
  have e3: "is_event k3 f = is_event k f" for f using b2(2) [of f] by (simp add: is_event_def f3)
  have q': "queues k3 q = filter (\<lambda>u. u \<noteq> t) (queues k q)" if "waiting_queue q" for q
    using q3 [of q] that f2(3) by (auto simp: list_del_def)
  have "delivered e [(t, ?g)] (bits_of k2 e) k k3"
    unfolding delivered_def
    using k3(2,4) f2 f3 b2(3) e3 q' ft3 st s2 by (auto split: if_splits)
  then show ?thesis using that [OF ex] unfolding b2(1) by blast
qed

lemma delivered_none: "kinv k \<Longrightarrow> delivered e [] (bits_of k e) k k"
  by (simp add: delivered_def)

lemma delivered_append:
  assumes a: "delivered e ws b k k1" and c: "delivered e vs b' k1 k2"
    and d: "fst ` set ws \<inter> fst ` set vs = {}"
  shows "delivered e (ws @ vs) b' k k2"
proof -
  have w: "wants k2 t = g" "tstat k2 t \<in> {RT_THREAD_READY, RT_THREAD_RUNNING}" if "(t, g) \<in> set ws" for t g
  proof -
    have "t \<notin> fst ` set vs" using that d by force
    then have "wants k2 t = wants k1 t" "tstat k2 t = tstat k1 t" using c by (simp_all add: delivered_def)
    then show "wants k2 t = g" "tstat k2 t \<in> {RT_THREAD_READY, RT_THREAD_RUNNING}"
      using a that unfolding delivered_def by auto
  qed
  have q: "queues k2 q = filter (\<lambda>t. t \<notin> fst ` set (ws @ vs)) (queues k q)" if "waiting_queue q" for q
    using a c that unfolding delivered_def by (auto intro: filter_cong)
  show ?thesis
    unfolding delivered_def
  proof (intro conjI)
    show "\<forall>(t, g) \<in> set (ws @ vs). wants k2 t = g \<and> tstat k2 t \<in> {RT_THREAD_READY, RT_THREAD_RUNNING}"
      using w c unfolding delivered_def by fastforce
    show "\<forall>q. waiting_queue q \<longrightarrow> queues k2 q = filter (\<lambda>t. t \<notin> fst ` set (ws @ vs)) (queues k q)" using q by blast
    have "wants k2 t = wants k t \<and> tstat k2 t = tstat k t" if "t \<notin> fst ` set ws" "t \<notin> fst ` set vs" for t
      using a c that unfolding delivered_def by simp
    then show "\<forall>t. t \<notin> fst ` set (ws @ vs) \<longrightarrow> wants k2 t = wants k t \<and> tstat k2 t = tstat k t"
      unfolding set_append image_Un by blast
  qed (use a c in \<open>simp_all add: delivered_def\<close>)
qed


lemma event_send_walk_ok:
  assumes "kinv k" "distinct ts" "set ts \<subseteq> set (queues k (Suspended (OEvent e)))"
  obtains k' where "event_send_walk e ts k = Some (fst (deliver (wants k) (infos k) (bits_of k e) ts) \<noteq> [], k')"
    "delivered e (fst (deliver (wants k) (infos k) (bits_of k e) ts))
       (snd (deliver (wants k) (infos k) (bits_of k e) ts)) k k'"
  using assms
proof (induction ts arbitrary: k thesis)
  case Nil
  then show ?case by (simp add: delivered_none)
next
  case (Cons t ts)
  note inv = Cons.prems(2)
  have t: "t \<in> set (queues k (Suspended (OEvent e)))" "t \<notin> set ts" "distinct ts" using Cons.prems by simp_all
  show ?case
  proof (cases "event_match (infos k t) (wants k t) (bits_of k e)")
    case False
    have no: "event_send_one e t k = Some (False, k)" using False by (simp add: event_send_one_def Let_def)
    obtain k' where k': "event_send_walk e ts k = Some (fst (deliver (wants k) (infos k) (bits_of k e) ts) \<noteq> [], k')"
      "delivered e (fst (deliver (wants k) (infos k) (bits_of k e) ts))
       (snd (deliver (wants k) (infos k) (bits_of k e) ts)) k k'"
      using Cons.IH [OF _ inv t(3)] Cons.prems(4) by auto
    then show ?thesis using False no by (intro Cons.prems(1) [of k']) simp_all
  next
    case True
    define g where "g = got (infos k t) (wants k t) (bits_of k e)"
    define b where "b = (if infos k t AND RT_EVENT_FLAG_CLEAR \<noteq> 0 then bits_of k e AND NOT g else bits_of k e)"
    obtain k1 where k1: "event_send_one e t k = Some (True, k1)" "delivered e [(t, g)] b k k1"
      by (rule event_send_one_ok [OF inv t(1) True, folded g_def, folded b_def]) blast
    have i1: "kinv k1" and b1: "bits_of k1 e = b" using k1(2) by (simp_all add: delivered_def)
    have "queues k1 (Suspended (OEvent e)) = filter (\<lambda>u. u \<noteq> t) (queues k (Suspended (OEvent e)))"
      using k1(2) by (simp add: delivered_def)
    then have sub: "set ts \<subseteq> set (queues k1 (Suspended (OEvent e)))" using Cons.prems(4) t(2) by auto
    have cong: "deliver (wants k1) (infos k1) b ts = deliver (wants k) (infos k) b ts"
      using k1(2) t(2) by (intro deliver_cong) (auto simp: delivered_def)
    let ?d = "deliver (wants k) (infos k) b ts"
    obtain k2 where k2: "event_send_walk e ts k1 = Some (fst ?d \<noteq> [], k2)" "delivered e (fst ?d) (snd ?d) k1 k2"
      using Cons.IH [OF _ i1 t(3) sub] unfolding b1 cong by blast
    have dl: "deliver (wants k) (infos k) (bits_of k e) (t # ts) = ((t, g) # fst ?d, snd ?d)"
      using True by (simp add: Let_def g_def b_def)
    have dj: "fst ` set [(t, g)] \<inter> fst ` set (fst ?d) = {}"
      using deliver_subset [of "wants k" "infos k" b ts] t(2) by auto
    show ?thesis
    proof (rule Cons.prems(1) [of k2])
      show "event_send_walk e (t # ts) k =
        Some (fst (deliver (wants k) (infos k) (bits_of k e) (t # ts)) \<noteq> [], k2)"
        unfolding dl using k1(1) k2(1) by simp
      show "delivered e (fst (deliver (wants k) (infos k) (bits_of k e) (t # ts)))
          (snd (deliver (wants k) (infos k) (bits_of k e) (t # ts))) k k2"
        unfolding dl using delivered_append [OF k1(2) k2(2) dj] by simp
    qed
  qed
qed

lemma filter_notin: "distinct xs \<Longrightarrow> set (filter (\<lambda>t. t \<notin> A) xs) = set xs - A"
  by auto

text \<open>What a send leaves, with the scheduling at its end.\<close>

definition event_sent :: "nat \<Rightarrow> u32 \<Rightarrow> kernel \<Rightarrow> kernel \<Rightarrow> bool" where
  "event_sent e bits k k' \<longleftrightarrow> kinv k' \<and> rt_current_thread k' \<noteq> None \<and>
     (let q = Suspended (OEvent e); (ws, b) = deliver (wants k) (infos k) (bits_of k e OR bits) (queues k q) in
      bits_of k' e = b \<and> is_event k' e = is_event k e \<and> queues k' q = filter (\<lambda>t. t \<notin> fst ` set ws) (queues k q) \<and>
      (\<forall>(t, g) \<in> set ws. wants k' t = g \<and> tstat k' t \<in> {RT_THREAD_READY, RT_THREAD_RUNNING}) \<and>
      (\<forall>t. t \<notin> fst ` set ws \<longrightarrow> wants k' t = wants k t) \<and> (\<forall>t. infos k' t = infos k t) \<and>
      (ws \<noteq> [] \<and> scheduler_lock_nest k = 0 \<longrightarrow> runs_highest k'))"

lemma event_send_ok:
  assumes inv: "kinv k" and e: "is_event k e" and cur: "rt_current_thread k \<noteq> None" and s: "set_arg \<noteq> 0"
  obtains k' where "rt_event_send e set_arg k = Some (RT_EOK, k')" "event_sent e set_arg k k'"
proof -
  let ?q = "Suspended (OEvent e)"
  let ?k = "upd_event e (set_bits_update (\<lambda>b. b OR set_arg)) k"
  have i: "kinv ?k" by (rule kinv_objects(3) [OF inv])
  have f: "threads ?k = threads k" "queues ?k = queues k" "bits_of ?k e = bits_of k e OR set_arg"
    "rt_current_thread ?k = rt_current_thread k" "scheduler_lock_nest ?k = scheduler_lock_nest k" "is_event ?k e = is_event k e"
    by (simp_all add: upd_event_def is_event_def)
  have d: "distinct (queues ?k ?q)" using sched_invD(1) [OF kinvD(1) [OF i]] by (simp add: queues_ok_def)
  obtain ws b where wb: "deliver (wants k) (infos k) (bits_of k e OR set_arg) (queues k ?q) = (ws, b)"
    by (metis surj_pair)
  obtain k1 where k1: "event_send_walk e (queues ?k ?q) ?k = Some (ws \<noteq> [], k1)" "delivered e ws b ?k k1"
    by (rule event_send_walk_ok [OF i d subset_refl]) (use wb in \<open>simp add: f\<close>)
  note dl = k1(2) [unfolded delivered_def]
  show ?thesis
  proof (cases "ws = []")
    case True
    have "rt_event_send e set_arg k = Some (RT_EOK, k1)"
      using e s k1(1) True by (simp add: rt_event_send_def is_event_def del: obj_is_simps)
    moreover have "event_sent e set_arg k k1"
      using dl True wb f cur by (simp add: event_sent_def)
    ultimately show ?thesis using that by blast
  next
    case False
    have c1: "rt_current_thread k1 \<noteq> None" and i1: "kinv k1" using dl f cur by simp_all
    obtain k2 where k2: "rt_schedule k1 = Some k2" "kinv k2" "schedule_post k1 k2" "kframe k1 k2"
      by (rule rt_schedule_kinv [OF i1 c1]) blast
    have p: "rt_current_thread k2 \<noteq> None" "scheduler_lock_nest k1 = 0 \<longrightarrow> runs_highest k2"
      and st: "\<And>u. tstat k1 u \<in> {RT_THREAD_READY, RT_THREAD_RUNNING} \<Longrightarrow> tstat k2 u \<in> {RT_THREAD_READY, RT_THREAD_RUNNING}"
      using k2(3) unfolding schedule_post_def by (blast, blast, auto simp: doubleton_eq_iff) (metis)+
    have e2: "is_event k2 e = is_event k1 e" using kframeD(3) [OF k2(4)] by (simp add: is_event_def)
    have ex: "rt_event_send e set_arg k = Some (RT_EOK, k2)"
      using e s k1(1) False k2(1) by (simp add: rt_event_send_def is_event_def del: obj_is_simps)
    have q2: "queues k2 ?q = queues k1 ?q" by (rule rt_schedule_waiting [OF i1 k2(1)]) simp
    have wk: "wants k2 t = g \<and> tstat k2 t \<in> {RT_THREAD_READY, RT_THREAD_RUNNING}" if "(t, g) \<in> set ws" for t g
    proof -
      have "wants k1 t = g" "tstat k1 t \<in> {RT_THREAD_READY, RT_THREAD_RUNNING}" using dl that by auto
      then show ?thesis using st [of t] kframe_thread(5) [OF k2(4), of t] by simp
    qed
    have "event_sent e set_arg k k2"
      unfolding event_sent_def Let_def wb prod.case
    proof (intro conjI)
      show "\<forall>(t, g) \<in> set ws. wants k2 t = g \<and> tstat k2 t \<in> {RT_THREAD_READY, RT_THREAD_RUNNING}" using wk by blast
    qed (use dl p q2 f k2(2) kframeD(3,10) [OF k2(4)] kframe_thread(5,6) [OF k2(4)] e2 in simp_all)
    then show ?thesis using that ex by blast
  qed
qed


text \<open>After a send no thread still waits for bits that are there.\<close>

lemma event_sent_unmatched:
  assumes "event_sent e s k k'"
  shows "\<forall>t \<in> set (queues k' (Suspended (OEvent e))). \<not> event_match (infos k' t) (wants k' t) (bits_of k' e)"
proof
  let ?q = "Suspended (OEvent e)"
  let ?d = "deliver (wants k) (infos k) (bits_of k e OR s) (queues k ?q)"
  fix t assume t: "t \<in> set (queues k' ?q)"
  have "t \<in> set (queues k ?q)" "t \<notin> fst ` set (fst ?d)" "bits_of k' e = snd ?d"
    "wants k' t = wants k t" "infos k' t = infos k t"
    using assms t by (auto simp: event_sent_def Let_def split: prod.splits)
  then show "\<not> event_match (infos k' t) (wants k' t) (bits_of k' e)"
    using deliver_rest [of t "queues k ?q" "wants k" "infos k" "bits_of k e OR s"] by simp
qed

text \<open>C12: \<open>rt_event_send\<close> delivers exactly: the new bits are added, and along the waiting list, in its
  order, each thread whose wish (all or any of its bits) the remaining bits satisfy is resumed and
  receives what it matched, its bits being cleared for those behind it when it asked for that. No
  other thread is woken, and no thread that still waits is satisfied by the bits that remain.\<close>

theorem rt_event_send_exact:
  assumes "kinv k" "is_event k e" "rt_current_thread k \<noteq> None" "set_arg \<noteq> 0"
  shows "\<exists>k'. rt_event_send e set_arg k = Some (RT_EOK, k') \<and> event_sent e set_arg k k' \<and>
    (\<forall>t \<in> set (queues k' (Suspended (OEvent e))). \<not> event_match (infos k' t) (wants k' t) (bits_of k' e))"
proof -
  let ?q = "Suspended (OEvent e)"
  obtain k' where k': "rt_event_send e set_arg k = Some (RT_EOK, k')" "event_sent e set_arg k k'"
    by (rule event_send_ok [OF assms]) blast
  from event_sent_unmatched [OF k'(2)] show ?thesis using k' by blast
qed

lemma rt_event_send_exact_witness:
  "(\<exists>k'. rt_event_send 0 3 sample = Some (RT_EOK, k') \<and> event_sent 0 3 sample k' \<and>
    (\<forall>t \<in> set (queues k' (Suspended (OEvent 0))). \<not> event_match (infos k' t) (wants k' t) (bits_of k' 0))) \<and>
   deliver (wants sample) (infos sample) (bits_of sample 0 OR 3) (queues sample (Suspended (OEvent 0))) = ([(5, 3)], 0)"
proof
  show "deliver (wants sample) (infos sample) (bits_of sample 0 OR 3) (queues sample (Suspended (OEvent 0))) = ([(5, 3)], 0)"
    by (simp add: sample_queues_def sample_threads_def zero_event_def event_match_def got_def Let_def)
qed (rule rt_event_send_exact [OF sample_kinv]; simp add: is_event_def zero_event_def)

subsection \<open>Receiving\<close>

lemma event_recv_ok:
  assumes c: "in_call k c" and e: "is_event k e" and to: "timeout_ok time" and s: "set_arg \<noteq> 0"
    and opt: "opt AND RT_EVENT_FLAG_AND \<noteq> 0 \<or> opt AND RT_EVENT_FLAG_OR \<noteq> 0"
  obtains oc r k' where "rt_event_recv e set_arg opt time k = Some (oc, r, k')" "kinv k'"
    "let k0 = set_error c RT_EOK k in
     if event_match opt set_arg (bits_of k e)
     then oc = Returned RT_EOK \<and> r = Some (bits_of k e AND set_arg) \<and>
       k' = (if opt AND RT_EVENT_FLAG_CLEAR \<noteq> 0 then upd_event e (set_bits_update (\<lambda>b. b AND NOT set_arg)) k0 else k0)
     else if time = 0 then oc = Returned (- RT_ETIMEOUT) \<and> r = None \<and> k' = set_error c (- RT_ETIMEOUT) k0
     else oc = Blocked 0 \<and> r = None \<and> waits_on (Suspended (OEvent e)) (obj_flag (events k e)) c time
       (upd_thread c (\<lambda>th. th\<lparr>event_set := set_arg, event_info := opt\<rparr>) k0) k'"
proof -
  let ?k = "set_error c RT_EOK k"
  let ?k2 = "upd_thread c (\<lambda>th. th\<lparr>event_set := set_arg, event_info := opt\<rparr>) ?k"
  note d = in_callD [OF c]
  have h: "harmless (\<lambda>th :: rt_thread. th\<lparr>event_set := set_arg, event_info := opt\<rparr>)"
    by (simp add: harmless_def scheduler_stack_ok_def)
  have i0: "kinv ?k" using d(1) by simp
  consider "event_match opt set_arg (bits_of k e)" | "\<not> event_match opt set_arg (bits_of k e)" "time = 0"
    | "\<not> event_match opt set_arg (bits_of k e)" "time \<noteq> 0" by blast
  then show ?thesis
  proof cases
    case 1
    then show ?thesis
      using e d s opt i0 kinv_objects(3) [OF i0]
      by (intro that [of "Returned RT_EOK" "Some (bits_of k e AND set_arg)"])
        (simp_all add: rt_event_recv_def is_event_def Let_def del: obj_is_simps)
  next
    case 2
    then show ?thesis
      using e d s opt i0
      by (intro that [of "Returned (- RT_ETIMEOUT)" None])
        (simp_all add: rt_event_recv_def is_event_def Let_def del: obj_is_simps)
  next
    case 3
    have i2: "in_call ?k2 c"
      using c kinv_upd_thread [OF h i0] harmless_upd(2) [OF h, of c ?k c]
      by (simp add: in_call_def)
    note d2 = in_callD [OF i2]
    obtain k1 k3 where k3: "ipc_wait (Suspended (OEvent e)) c (obj_flag (events k e)) time ?k2 = Some k1"
      "rt_schedule k1 = Some k3" "waits_on (Suspended (OEvent e)) (obj_flag (events k e)) c time ?k2 k3"
      by (rule ipc_block_ok [OF d2(1-3) waiting_queue_simps(1) to]) blast
    have ev: "events ?k2 = events k" by (simp add: upd_thread_def)
    show ?thesis
      using 3 e d s opt k3 ev
      by (intro that [of "Blocked 0" None k3])
        (simp_all add: rt_event_recv_def is_event_def Let_def waits_on_def del: obj_is_simps)
  qed
qed

subsection \<open>Runs of an event set\<close>

text \<open>Any interleaving of sends and receives on the event set \<open>e\<close> with timeouts, scheduling and ticks.\<close>

inductive event_run :: "nat \<Rightarrow> kernel \<Rightarrow> kernel \<Rightarrow> bool" for e k0 where
  start: "event_run e k0 k0"
| send: "event_run e k0 k \<Longrightarrow> rt_current_thread k \<noteq> None \<Longrightarrow> rt_event_send e s k = Some (r, k') \<Longrightarrow> event_run e k0 k'"
| recv: "event_run e k0 k \<Longrightarrow> in_call k c \<Longrightarrow> timeout_ok time \<Longrightarrow> rt_event_recv e s opt time k = Some (oc, v, k') \<Longrightarrow>
    event_run e k0 k'"
| timeout: "event_run e k0 k \<Longrightarrow> check_inv b k \<Longrightarrow> rt_timer_list k = ThreadTimer t # xs \<Longrightarrow>
    timer_check_step cb (rt_tick k) k = Some (Inr (tick, k')) \<Longrightarrow> event_run e k0 k'"
| schedule: "event_run e k0 k \<Longrightarrow> rt_current_thread k \<noteq> None \<Longrightarrow> rt_schedule k = Some k' \<Longrightarrow> event_run e k0 k'"
| tick: "event_run e k0 k \<Longrightarrow> event_run e k0 (rt_tick_set tick k)"
| interrupt: "event_run e k0 k \<Longrightarrow> event_run e k0 (rt_interrupt_enter k)"
| interrupt_end: "event_run e k0 k \<Longrightarrow> event_run e k0 (rt_interrupt_leave k)"

definition event_inv :: "nat \<Rightarrow> kernel \<Rightarrow> bool" where
  "event_inv e k \<longleftrightarrow> kinv k \<and> is_event k e \<and>
     (\<forall>t \<in> set (queues k (Suspended (OEvent e))). \<not> event_match (infos k t) (wants k t) (bits_of k e))"

lemma event_invI:
  assumes "kinv k'" "events k' e = events k e" "event_inv e k"
    "set (queues k' (Suspended (OEvent e))) \<subseteq> set (queues k (Suspended (OEvent e)))"
    "\<And>t. infos k' t = infos k t" "\<And>t. wants k' t = wants k t"
  shows "event_inv e k'"
  using assms by (auto simp: event_inv_def is_event_def)


lemma event_run_send:
  assumes i: "event_inv e k" and c: "rt_current_thread k \<noteq> None" and ex: "rt_event_send e s k = Some (r, k')"
  shows "event_inv e k'"
proof (cases "s = 0")
  case True
  then show ?thesis using i ex by (auto simp: event_inv_def rt_event_send_def)
next
  case False
  have e: "kinv k" "is_event k e" using i by (simp_all add: event_inv_def)
  obtain k'' where "rt_event_send e s k = Some (RT_EOK, k'')" "event_sent e s k k''"
    by (rule event_send_ok [OF e c False]) blast
  then have k': "event_sent e s k k'" using ex by simp
  then have "kinv k'" "is_event k' e" using e by (simp_all add: event_sent_def Let_def split: prod.splits)
  then show ?thesis using event_sent_unmatched [OF k'] by (simp add: event_inv_def)
qed

lemma set_error_event [simp]:
  "wants (set_error c r k) t = wants k t" "infos (set_error c r k) t = infos k t"
  by (simp_all add: set_error_def upd_thread_def)

lemma wait_insert_subset: "set (wait_insert flag prio t ts) \<subseteq> insert t (set ts)"
  by (simp add: wait_insert_def subset_insertI)

lemma event_run_recv_ok:
  assumes i: "event_inv e k" and c: "in_call k c" and to: "timeout_ok time"
    and ex: "rt_event_recv e s opt time k = Some (oc, v, k')"
    and 2: "s \<noteq> 0" "opt AND RT_EVENT_FLAG_AND \<noteq> 0 \<or> opt AND RT_EVENT_FLAG_OR \<noteq> 0"
  shows "event_inv e k'"
proof -
  have e: "kinv k" "is_event k e" using i by (simp_all add: event_inv_def)
  let ?q = "Suspended (OEvent e)"
  let ?k2 = "upd_thread c (\<lambda>th. th\<lparr>event_set := s, event_info := opt\<rparr>) (set_error c RT_EOK k)"
  note un = i [unfolded event_inv_def, THEN conjunct2, THEN conjunct2]
  obtain oc' v' k'' where r: "rt_event_recv e s opt time k = Some (oc', v', k'')" "kinv k''"
    "let k0 = set_error c RT_EOK k in
     if event_match opt s (bits_of k e)
     then oc' = Returned RT_EOK \<and> v' = Some (bits_of k e AND s) \<and>
       k'' = (if opt AND RT_EVENT_FLAG_CLEAR \<noteq> 0 then upd_event e (set_bits_update (\<lambda>b. b AND NOT s)) k0 else k0)
     else if time = 0 then oc' = Returned (- RT_ETIMEOUT) \<and> v' = None \<and> k'' = set_error c (- RT_ETIMEOUT) k0
     else oc' = Blocked 0 \<and> v' = None \<and> waits_on ?q (obj_flag (events k e)) c time
       (upd_thread c (\<lambda>th. th\<lparr>event_set := s, event_info := opt\<rparr>) k0) k''"
    by (rule event_recv_ok [OF c e(2) to 2]) blast
  have k: "k'' = k'" using r(1) ex by simp
  note i' = r(2) [unfolded k] and post = r(3) [unfolded k Let_def]
  have fewer: "\<not> event_match f w (b AND NOT s)" if "\<not> event_match f w b" for f w b
    proof -
    have "(b AND NOT s) AND b = b AND NOT s" by (simp add: and.left_commute and.commute)
    then show ?thesis using that match_mono by blast
  qed
  consider "event_match opt s (bits_of k e)" | "\<not> event_match opt s (bits_of k e)" "time = 0"
    | "\<not> event_match opt s (bits_of k e)" "time \<noteq> 0" by blast
  then show ?thesis
  proof cases
    case 1
    then show ?thesis using post i' i e(2) un fewer by (auto simp: event_inv_def is_event_def upd_event_def)
  next
    case 2
    then show ?thesis using post i' un e(2) by (auto simp: event_inv_def is_event_def)
  next
    case 3
    then have w: "waits_on ?q (obj_flag (events k e)) c time ?k2 k'" using post by simp
    have ev: "events k' = events k" using w kframeD(3) [of ?k2 k'] by (simp add: waits_on_def upd_thread_def)
    have th: "wants k' t = wants ?k2 t" "infos k' t = infos ?k2 t" for t
      using w kframe_thread(5,6) [of ?k2 k' t] by (simp_all add: waits_on_def)
    have q: "queues k' ?q = wait_insert (obj_flag (events k e)) (\<lambda>s. current_priority (threads ?k2 s)) c (queues ?k2 ?q)"
      using w by (simp add: waits_on_def)
    have "set (queues k' ?q) \<subseteq> insert c (set (queues k ?q))"
      unfolding q using wait_insert_subset [of _ _ c "queues ?k2 ?q"] by (simp add: upd_thread_def)
    then show ?thesis using 3(1) un i' e(2) by (auto simp: event_inv_def is_event_def ev th upd_thread_def)
  qed
qed

lemma event_run_recv:
  assumes i: "event_inv e k" and c: "in_call k c" and to: "timeout_ok time"
    and ex: "rt_event_recv e s opt time k = Some (oc, v, k')"
  shows "event_inv e k'"
proof -
  consider "s = 0" | "s \<noteq> 0" "opt AND RT_EVENT_FLAG_AND \<noteq> 0 \<or> opt AND RT_EVENT_FLAG_OR \<noteq> 0"
    | "s \<noteq> 0" "opt AND RT_EVENT_FLAG_AND = 0" "opt AND RT_EVENT_FLAG_OR = 0" by blast
  then show ?thesis
  proof cases
    case 1
    then show ?thesis using i ex by (auto simp: event_inv_def rt_event_recv_def split: if_splits option.splits)
  next
    case 2
    then show ?thesis by (rule event_run_recv_ok [OF i c to ex])
  next
    case 3
    then show ?thesis using ex by (auto simp: rt_event_recv_def event_match_def Let_def Option.bind_eq_Some_conv require_def)
  qed
qed


lemma event_run_timeout:
  assumes i: "event_inv e k" and c: "check_inv b k" and l: "rt_timer_list k = ThreadTimer t # xs"
    and ex: "timer_check_step cb (rt_tick k) k = Some (Inr (tick, k'))"
  shows "event_inv e k'"
proof -
  have due: "rt_tick k - timeout_tick (timers k (ThreadTimer t)) < RT_TICK_HALF"
    using ex l by (auto simp: timer_check_step_def split: if_splits)
  obtain k'' where "timer_check_step cb (rt_tick k) k = Some (Inr (rt_tick k'', k''))" "check_inv b k''"
    "\<And>r. waiting_queue r \<Longrightarrow> queues k'' r = list_del t (queues k r)" "oframe k k''"
    by (rule thread_timer_step [OF c l due, where cb = cb]) blast
  then have k': "check_inv b k'" "\<And>r. waiting_queue r \<Longrightarrow> queues k' r = list_del t (queues k r)" "oframe k k'"
    using ex by auto
  show ?thesis
    by (rule event_invI [OF check_invD(1) [OF k'(1)] _ i])
      (use k'(2) oframeD(3,14,15) [OF k'(3)] in auto)
qed

lemma event_run_schedule:
  assumes i: "event_inv e k" and c: "rt_current_thread k \<noteq> None" and ex: "rt_schedule k = Some k'"
  shows "event_inv e k'"
proof -
  have kk: "kinv k" using i by (simp add: event_inv_def)
  obtain k'' where "rt_schedule k = Some k''" "kinv k''" "kframe k k''"
    by (rule rt_schedule_kinv [OF kk c]) blast
  then have k': "kinv k'" "kframe k k'" using ex by simp_all
  show ?thesis
    by (rule event_invI [OF k'(1) kframeD(3) [OF k'(2), THEN fun_cong] i])
      (use rt_schedule_waiting [OF kk ex waiting_queue_simps(1)] kframe_thread(5,6) [OF k'(2)] in simp_all)
qed

text \<open>C13: no wakeup of an event set is missed: over every interleaving of sends, receives, timeouts,
  ticks, interrupts and scheduling, no thread ever stays on the waiting list of an event set
  whose bits satisfy the thread's wish.\<close>

theorem event_no_missed_wakeup:
  assumes "event_run e k0 k" "event_inv e k0"
  shows "\<forall>t \<in> set (queues k (Suspended (OEvent e))). \<not> event_match (event_info (threads k t)) (event_set (threads k t)) (set_bits (events k e))"
proof -
  have "event_inv e k"
    using assms
  proof (induction rule: event_run.induct)
    case (send k s r k')
    then show ?case using event_run_send [of e k s r k'] by simp
  next
    case (recv k c time s opt oc v k')
    then show ?case using event_run_recv [of e k c time s opt oc v k'] by simp
  next
    case (timeout k b t xs cb tick k')
    then show ?case using event_run_timeout [of e k b t xs cb tick k'] by simp
  next
    case (schedule k k')
    then show ?case using event_run_schedule [of e k k'] by simp
  qed (auto simp: rt_tick_set_def rt_interrupt_enter_def rt_interrupt_leave_def event_inv_def is_event_def kinv_counters)
  then show ?thesis by (simp add: event_inv_def)
qed

lemma event_no_missed_wakeup_witness:
  "\<exists>k'. rt_event_send 0 3 sample = Some (RT_EOK, k') \<and>
    (\<forall>t \<in> set (queues k' (Suspended (OEvent 0))).
      \<not> event_match (event_info (threads k' t)) (event_set (threads k' t)) (set_bits (events k' 0)))"
proof -
  have i: "event_inv 0 sample"
    by (simp add: event_inv_def is_event_def zero_event_def sample_kinv sample_queues_def sample_threads_def
        event_match_def)
  then have e: "is_event sample 0" by (simp add: event_inv_def)
  have c: "rt_current_thread sample \<noteq> None" by simp
  have s: "(3 :: u32) \<noteq> 0" by simp
  obtain k' where k': "rt_event_send 0 3 sample = Some (RT_EOK, k')"
    by (rule event_send_ok [OF sample_kinv e c s]) blast
  show ?thesis using event_no_missed_wakeup [OF event_run.send [OF event_run.start c k'] i] k' by blast
qed

text \<open>\<open>rt_event_recv\<close> in the running thread, on every branch: satisfied at once, it returns the bits it
  asked for that are set and clears what it asked to clear; without waiting time it returns
  \<open>-RT_ETIMEOUT\<close>; otherwise it records the wish in the thread and suspends it on the event's list.\<close>

lemma rt_event_recv_correct:
  assumes "in_call k c" "is_event k e" "timeout_ok time" "set_arg \<noteq> 0"
    "opt AND RT_EVENT_FLAG_AND \<noteq> 0 \<or> opt AND RT_EVENT_FLAG_OR \<noteq> 0"
  shows "\<exists>oc r k'. rt_event_recv e set_arg opt time k = Some (oc, r, k') \<and> kinv k' \<and>
    (if event_match opt set_arg (bits_of k e)
     then oc = Returned RT_EOK \<and> r = Some (bits_of k e AND set_arg) \<and> queues k' = queues k \<and>
       bits_of k' e = (if opt AND RT_EVENT_FLAG_CLEAR \<noteq> 0 then bits_of k e AND NOT set_arg else bits_of k e)
     else if time = 0 then oc = Returned (- RT_ETIMEOUT) \<and> r = None \<and> events k' = events k \<and> queues k' = queues k \<and>
       thread_error (threads k' c) = - RT_ETIMEOUT
     else oc = Blocked 0 \<and> r = None \<and> waits_on (Suspended (OEvent e)) (obj_flag (events k e)) c time
       (upd_thread c (\<lambda>th. th\<lparr>event_set := set_arg, event_info := opt\<rparr>) (set_error c RT_EOK k)) k')"
proof -
  obtain oc r k' where k': "rt_event_recv e set_arg opt time k = Some (oc, r, k')" "kinv k'"
    "let k0 = set_error c RT_EOK k in
     if event_match opt set_arg (bits_of k e)
     then oc = Returned RT_EOK \<and> r = Some (bits_of k e AND set_arg) \<and>
       k' = (if opt AND RT_EVENT_FLAG_CLEAR \<noteq> 0 then upd_event e (set_bits_update (\<lambda>b. b AND NOT set_arg)) k0 else k0)
     else if time = 0 then oc = Returned (- RT_ETIMEOUT) \<and> r = None \<and> k' = set_error c (- RT_ETIMEOUT) k0
     else oc = Blocked 0 \<and> r = None \<and> waits_on (Suspended (OEvent e)) (obj_flag (events k e)) c time
       (upd_thread c (\<lambda>th. th\<lparr>event_set := set_arg, event_info := opt\<rparr>) k0) k'"
    by (rule event_recv_ok [OF assms]) blast
  show ?thesis
  proof (intro exI conjI)
    show "rt_event_recv e set_arg opt time k = Some (oc, r, k')" by (rule k'(1))
  qed (use k'(2,3) in \<open>simp_all add: Let_def upd_event_def split: if_splits\<close>)
qed

lemma rt_event_recv_correct_witness:
  "\<exists>oc r k'. rt_event_recv 0 4 RT_EVENT_FLAG_OR 10 sample = Some (oc, r, k') \<and> oc = Blocked 0 \<and>
     waits_on (Suspended (OEvent 0)) (obj_flag (events sample 0)) 1 10
       (upd_thread 1 (\<lambda>th. th\<lparr>event_set := 4, event_info := RT_EVENT_FLAG_OR\<rparr>) (set_error 1 RT_EOK sample)) k'"
proof -
  have e: "is_event sample 0" by (simp add: is_event_def zero_event_def)
  have "(10 :: u32) \<noteq> 0" "timeout_ok 10" "(4 :: u32) \<noteq> 0"
    "RT_EVENT_FLAG_OR AND RT_EVENT_FLAG_AND \<noteq> 0 \<or> RT_EVENT_FLAG_OR AND RT_EVENT_FLAG_OR \<noteq> 0"
    "\<not> event_match RT_EVENT_FLAG_OR 4 (bits_of sample 0)"
    by (simp_all add: timeout_ok_def event_match_def zero_event_def)
  then show ?thesis
    using rt_event_recv_correct [OF sample_in_call e, of 10 4 RT_EVENT_FLAG_OR] by auto
qed

end
