(* ===== verification/Fifo.thy ===== *)
theory Fifo
  imports Prelude
begin

section \<open>First-in first-out containers and rings\<close>

text \<open>
  The contract that the mailboxes and the ring buffers have in common: a
  bounded sequence of elements that leave in the order in which they came.  What follows from
  the contract for any sequence of calls is proved once, here; the containers are instances.
  The arithmetic of rings is shared by the mailboxes and the ring buffers.
\<close>

text \<open>A sequence of operations: what is taken out, in order, and the state at the end.\<close>

datatype 'a fifo_op = Put 'a | Get

fun fifo_run :: "('a \<Rightarrow> 's \<Rightarrow> 's option) \<Rightarrow> ('s \<Rightarrow> ('a \<times> 's) option) \<Rightarrow> 'a fifo_op list \<Rightarrow> 's \<Rightarrow> ('a list \<times> 's) option" where
  "fifo_run put get [] s = Some ([], s)"
| "fifo_run put get (Put x # ops) s = Option.bind (put x s) (fifo_run put get ops)"
| "fifo_run put get (Get # ops) s =
     Option.bind (get s) (\<lambda>(x, s1). map_option (apfst ((#) x)) (fifo_run put get ops s1))"

fun puts :: "'a fifo_op list \<Rightarrow> 'a list" where
  "puts [] = []"
| "puts (Put x # ops) = x # puts ops"
| "puts (Get # ops) = puts ops"

text \<open>The fill level stays within the bounds along the sequence, and every element put is admitted.\<close>

fun fits :: "('a \<Rightarrow> bool) \<Rightarrow> nat \<Rightarrow> nat \<Rightarrow> 'a fifo_op list \<Rightarrow> bool" where
  "fits ok cap n [] = True"
| "fits ok cap n (Put x # ops) = (ok x \<and> n < cap \<and> fits ok cap (Suc n) ops)"
| "fits ok cap n (Get # ops) = (0 < n \<and> fits ok cap (n - 1) ops)"

locale fifo =
  fixes inv :: "'s \<Rightarrow> bool"
    and contents :: "'s \<Rightarrow> 'a list"
    and capacity :: "'s \<Rightarrow> nat"
    and ok :: "'s \<Rightarrow> 'a \<Rightarrow> bool"
    and put :: "'a \<Rightarrow> 's \<Rightarrow> 's option"
    and get :: "'s \<Rightarrow> ('a \<times> 's) option"
  assumes bounded: "inv s \<Longrightarrow> length (contents s) \<le> capacity s"
    and put_law: "inv s \<Longrightarrow> ok s x \<Longrightarrow> length (contents s) < capacity s \<Longrightarrow>
      \<exists>s'. put x s = Some s' \<and> inv s' \<and> contents s' = contents s @ [x] \<and> capacity s' = capacity s \<and> ok s' = ok s"
    and get_law: "inv s \<Longrightarrow> contents s = x # xs \<Longrightarrow>
      \<exists>s'. get s = Some (x, s') \<and> inv s' \<and> contents s' = xs \<and> capacity s' = capacity s \<and> ok s' = ok s"
begin

lemma put_then_get:
  assumes "inv s" "ok s x" "contents s = []" "0 < capacity s"
  shows "\<exists>s' s''. put x s = Some s' \<and> get s' = Some (x, s'') \<and> inv s'' \<and> contents s'' = []"
proof -
  obtain s' where s': "put x s = Some s'" "inv s'" "contents s' = [x]" using put_law [OF assms(1,2)] assms(3,4) by auto
  then show ?thesis using get_law [OF s'(2,3)] by auto
qed

lemma run_ok:
  assumes "inv s" "fits (ok s) (capacity s) (length (contents s)) ops"
  shows "\<exists>out s'. fifo_run put get ops s = Some (out, s') \<and> inv s' \<and> capacity s' = capacity s \<and>
    out @ contents s' = contents s @ puts ops"
  using assms
proof (induction ops arbitrary: s)
  case (Cons op ops)
  show ?case
  proof (cases op)
  case (Put x)
  then obtain s1 where s1: "put x s = Some s1" "inv s1" "contents s1 = contents s @ [x]" "capacity s1 = capacity s" "ok s1 = ok s"
    using put_law [of s x] Cons.prems by auto
    have "fits (ok s1) (capacity s1) (length (contents s1)) ops" using Cons.prems(2) Put s1 by simp
    from Cons.IH [OF s1(2) this] show ?thesis using s1 Put by auto
  next
    case Get
    then obtain x xs where c: "contents s = x # xs" using Cons.prems(2) by (cases "contents s") auto
    then obtain s1 where s1: "get s = Some (x, s1)" "inv s1" "contents s1 = xs" "capacity s1 = capacity s" "ok s1 = ok s"
      using get_law [OF Cons.prems(1)] by blast
    have "fits (ok s1) (capacity s1) (length (contents s1)) ops" using Cons.prems(2) Get s1 c by simp
    from Cons.IH [OF s1(2) this] show ?thesis using s1 Get c by auto
  qed
qed auto

end

subsection \<open>Rings\<close>

definition ring_list :: "'a list \<Rightarrow> nat \<Rightarrow> nat \<Rightarrow> nat \<Rightarrow> 'a list" where
  "ring_list p n s c = map (\<lambda>i. p ! ((s + i) mod n)) [0..<c]"

lemma length_ring_list [simp]: "length (ring_list p n s c) = c"
  by (simp add: ring_list_def)

lemma ring_list_0 [simp]: "ring_list p n s 0 = []"
  by (simp add: ring_list_def)

lemma ring_mod_inj:
  assumes "(s + i) mod n = (s + j) mod n" "i < n" "j < n"
  shows "i = (j :: nat)"
proof (rule ccontr)
  assume ne: "i \<noteq> j"
  have no: False if "(s + a) mod n = (s + b) mod n" "a < b" "b < n" for a b
  proof -
    have "n dvd (s + b) - (s + a)" using that mod_eq_dvd_iff_nat [of "s + a" "s + b" n] by simp
    then have "n dvd b - a" by simp
    then show False using that dvd_imp_le [of n "b - a"] by auto
  qed
  show False using ne no [of i j] no [of j i] assms by (cases "i < j") auto
qed

lemma ring_list_put:
  assumes "c < n" "n \<le> length p"
  shows "ring_list (p[(s + c) mod n := v]) n s (Suc c) = ring_list p n s c @ [v]"
proof -
  have "(s + c) mod n < n" using assms(1) by simp
  then have "(s + c) mod n < length p" using assms(2) by simp
  moreover have "(s + c) mod n \<noteq> (s + i) mod n" if "i < c" for i
    using ring_mod_inj [of s c n i] that assms(1) by auto
  ultimately show ?thesis by (auto simp: ring_list_def nth_list_update_neq)
qed

lemma ring_list_get:
  assumes "0 < c" "s < n"
  shows "ring_list p n s c = p ! s # ring_list p n (if Suc s \<ge> n then 0 else Suc s) (c - 1)"
proof (rule nth_equalityI)
  have m: "(s + Suc i) mod n = ((if Suc s \<ge> n then 0 else Suc s) + i) mod n" for i
  proof (cases "Suc s \<ge> n")
    case True
    then have "s + Suc i = n + i" using assms by simp
    show ?thesis unfolding \<open>s + Suc i = n + i\<close> using True by simp
  qed (use assms in simp)
  fix i assume "i < length (ring_list p n s c)"
  then show "ring_list p n s c ! i = (p ! s # ring_list p n (if Suc s \<ge> n then 0 else Suc s) (c - 1)) ! i"
    using m assms by (cases i) (simp_all add: ring_list_def)
qed (use assms in simp)

end
