(* ===== verification/MailboxProps.thy ===== *)
theory MailboxProps
  imports SemProps Mailbox Fifo
begin

section \<open>Mailboxes: order and completeness of delivery\<close>

text \<open>
  The ring of a mailbox refines a sequence of mails; the calls put at its end and take from its
  front, or block; over every interleaving the mails are delivered in order.
\<close>

subsection \<open>The ring of a mailbox\<close>

definition mb_wf :: "rt_mailbox \<Rightarrow> bool" where
  "mb_wf mb \<longleftrightarrow> 0 < mb_size mb \<and> unat (mb_size mb) \<le> length (mb_pool mb) \<and> mb_entry mb \<le> mb_size mb \<and>
     out_offset mb < mb_size mb \<and> in_offset mb < mb_size mb \<and>
     unat (in_offset mb) = (unat (out_offset mb) + unat (mb_entry mb)) mod unat (mb_size mb)"

definition mb_list :: "rt_mailbox \<Rightarrow> u32 list" where
  "mb_list mb = ring_list (mb_pool mb) (unat (mb_size mb)) (unat (out_offset mb)) (unat (mb_entry mb))"

lemma length_mb_list [simp]: "length (mb_list mb) = unat (mb_entry mb)"
  by (simp add: mb_list_def)

lemma mb_full_iff: "mb_wf mb \<Longrightarrow> mb_entry mb = mb_size mb \<longleftrightarrow> length (mb_list mb) = unat (mb_size mb)"
  by (simp add: word_unat_eq_iff)

lemma mb_empty_iff: "mb_entry mb = 0 \<longleftrightarrow> mb_list mb = []"
  by (metis length_0_conv length_mb_list unat_eq_zero)

text \<open>Moving an offset: \<open>++offset\<close>, and 0 at the end.\<close>

lemma offset_next:
  fixes i n :: u16
  assumes "i < n"
  shows "unat (if i + 1 \<ge> n then 0 else i + 1) = (if Suc (unat i) \<ge> unat n then 0 else Suc (unat i))"
    "(if i + 1 \<ge> n then 0 else i + 1) < n"
proof -
  have l: "unat i < unat n" using assms by (simp add: word_less_nat_alt)
  note s = unat_Suc_below [OF l]
  then show "unat (if i + 1 \<ge> n then 0 else i + 1) = (if Suc (unat i) \<ge> unat n then 0 else Suc (unat i))"
    by (simp add: word_le_nat_alt)
  show "(if i + 1 \<ge> n then 0 else i + 1) < n"
    using l s by (auto simp: word_less_nat_alt word_le_nat_alt)
qed

lemma mb_put_ok:
  assumes "mb_wf mb" "length (mb_list mb) < unat (mb_size mb)"
  obtains mb' where "mb_put v mb = Some mb'" "mb_wf mb'" "mb_list mb' = mb_list mb @ [v]"
    "mb_size mb' = mb_size mb" "obj_type mb' = obj_type mb" "obj_flag mb' = obj_flag mb"
proof -
  let ?n = "unat (mb_size mb)" and ?o = "unat (out_offset mb)" and ?e = "unat (mb_entry mb)"
  define j where "j = (if in_offset mb + 1 \<ge> mb_size mb then 0 else in_offset mb + 1)"
  define mb' where "mb' = mb\<lparr>mb_pool := (mb_pool mb)[unat (in_offset mb) := v], in_offset := j, mb_entry := mb_entry mb + 1\<rparr>"
  note w = assms(1) [unfolded mb_wf_def]
  have e: "unat (mb_entry mb + 1) = Suc ?e"
    using assms(2) unat_Suc_below [of "mb_entry mb" "mb_size mb"] by simp
  have "unat (in_offset mb) < length (mb_pool mb)" using w by (simp add: word_less_nat_alt)
  then have p: "mb_put v mb = Some mb'" by (simp add: mb_put_def mb'_def j_def Let_def)
  have jn: "unat j = (if Suc (unat (in_offset mb)) \<ge> ?n then 0 else Suc (unat (in_offset mb)))" "j < mb_size mb"
    unfolding j_def using offset_next [of "in_offset mb" "mb_size mb"] w by simp_all
  have l: "unat (in_offset mb) < ?n" using w by (simp add: word_less_nat_alt)
  have "unat j = Suc (unat (in_offset mb)) mod ?n" using jn(1) l by (auto simp: le_Suc_eq)
  also have "\<dots> = (?o + Suc ?e) mod ?n" using w by (simp add: mod_Suc_eq)
  finally have "mb_wf mb'"
    using w assms(2) jn(2) e unfolding mb_wf_def mb'_def by (simp add: word_le_nat_alt)
  moreover have "mb_list mb' = mb_list mb @ [v]"
    using ring_list_put [of ?e ?n "mb_pool mb" ?o v] assms(2) w e by (simp add: mb_list_def mb'_def)
  ultimately show ?thesis using that [OF p] by (simp add: mb'_def)
qed

lemma mb_get_ok:
  assumes "mb_wf mb" "mb_list mb = v # vs"
  obtains mb' where "mb_get mb = Some (v, mb')" "mb_wf mb'" "mb_list mb' = vs"
    "mb_size mb' = mb_size mb" "obj_type mb' = obj_type mb" "obj_flag mb' = obj_flag mb"
proof -
  let ?n = "unat (mb_size mb)" and ?o = "unat (out_offset mb)" and ?e = "unat (mb_entry mb)"
  define j where "j = (if out_offset mb + 1 \<ge> mb_size mb then 0 else out_offset mb + 1)"
  define mb' where "mb' = mb\<lparr>out_offset := j, mb_entry := mb_entry mb - 1\<rparr>"
  note w = assms(1) [unfolded mb_wf_def]
  have pos: "0 < ?e" using assms(2) length_mb_list [of mb] by simp
  then have e: "unat (mb_entry mb - 1) = ?e - 1" by (simp add: unat_minus_one unat_gt_0)
  have l: "?o < ?n" using w by (simp add: word_less_nat_alt)
  have jn: "unat j = (if Suc ?o \<ge> ?n then 0 else Suc ?o)" "j < mb_size mb"
    unfolding j_def using offset_next [of "out_offset mb" "mb_size mb"] w by simp_all
  have r: "mb_list mb = mb_pool mb ! ?o # mb_list mb'"
    using ring_list_get [OF pos l, of "mb_pool mb"] by (simp add: mb_list_def mb'_def e jn(1))
  have "mb_get mb = Some (v, mb')"
    using r assms(2) l w by (simp add: mb_get_def mb'_def j_def Let_def)
  moreover have "mb_wf mb'"
  proof -
    have "(unat j + (?e - 1)) mod ?n = (?o + ?e) mod ?n"
    proof (cases "Suc ?o \<ge> ?n")
      case True
      then have "?o + ?e = ?n + (?e - 1)" using l pos by simp
      then show ?thesis using jn(1) True by simp
    next
      case False
      then show ?thesis using jn(1) pos by simp
    qed
    then show ?thesis using w jn(2) e unfolding mb_wf_def mb'_def by (simp add: word_le_nat_alt le_diff_conv)
  qed
  ultimately show ?thesis using that r assms(2) by (simp add: mb'_def)
qed

interpretation mbq: fifo mb_wf mb_list "\<lambda>mb. unat (mb_size mb)" "\<lambda>_ _. True" mb_put mb_get
proof
  show "length (mb_list mb) \<le> unat (mb_size mb)" if "mb_wf mb" for mb
    using that by (simp add: mb_wf_def word_le_nat_alt)
  show "\<exists>s'. mb_put x s = Some s' \<and> mb_wf s' \<and> mb_list s' = mb_list s @ [x] \<and> unat (mb_size s') = unat (mb_size s) \<and>
      (\<lambda>_. True) = (\<lambda>_. True)" if "mb_wf s" "length (mb_list s) < unat (mb_size s)" for s x
    by (rule mb_put_ok [OF that, of x]) simp
  show "\<exists>s'. mb_get s = Some (x, s') \<and> mb_wf s' \<and> mb_list s' = xs \<and> unat (mb_size s') = unat (mb_size s) \<and>
      (\<lambda>_. True) = (\<lambda>_. True)" if "mb_wf s" "mb_list s = x # xs" for s x xs
    by (rule mb_get_ok [OF that]) simp
qed

lemma mb_reset_wf: "0 < mb_size mb \<Longrightarrow> unat (mb_size mb) \<le> length (mb_pool mb) \<Longrightarrow> mb_wf (mb_reset mb) \<and> mb_list (mb_reset mb) = []"
  by (simp add: mb_wf_def mb_reset_def mb_list_def)


subsection \<open>The calls\<close>

definition is_mb :: "kernel \<Rightarrow> nat \<Rightarrow> bool" where
  "is_mb k m \<longleftrightarrow> obj_is k (OMailBox m) RT_Object_Class_MailBox"

abbreviation mails :: "kernel \<Rightarrow> nat \<Rightarrow> u32 list" where
  "mails k m \<equiv> mb_list (mailboxes k m)"

abbreviation mb_full :: "kernel \<Rightarrow> nat \<Rightarrow> bool" where
  "mb_full k m \<equiv> mb_entry (mailboxes k m) = mb_size (mailboxes k m)"

text \<open>\<open>hands_over\<close>: the mailbox has changed to \<open>mb'\<close> and the first thread waiting on \<open>q\<close>, if any, is woken.\<close>

definition hands_over :: "nat \<Rightarrow> queue \<Rightarrow> rt_mailbox \<Rightarrow> kernel \<Rightarrow> kernel \<Rightarrow> bool" where
  "hands_over m q mb' k k' \<longleftrightarrow> kinv k' \<and> mailboxes k' = (mailboxes k)(m := mb') \<and>
     (case queues k q of [] \<Rightarrow> k' = upd_mb m (\<lambda>_. mb') k | t # ts \<Rightarrow> wakes q t (upd_mb m (\<lambda>_. mb') k) k')"

lemma hand_over_ok:
  assumes inv: "kinv k" and cur: "rt_current_thread k \<noteq> None" and q: "waiting_queue q"
  obtains k' where "(if \<not> tlist_isempty q (upd_mb m (\<lambda>_. mb') k)
      then do { k2 \<leftarrow> rt_ipc_list_resume q (upd_mb m (\<lambda>_. mb') k); rt_schedule k2 }
      else Some (upd_mb m (\<lambda>_. mb') k)) = Some k'" "hands_over m q mb' k k'"
proof -
  let ?k = "upd_mb m (\<lambda>_. mb') k"
  have i: "kinv ?k" by (rule kinv_objects(4) [OF inv])
  have f: "queues ?k = queues k" "rt_current_thread ?k = rt_current_thread k" "mailboxes ?k = (mailboxes k)(m := mb')"
    by (simp_all add: upd_mb_def)
  have c: "rt_current_thread ?k \<noteq> None" using cur f by simp
  obtain k' where k': "(if \<not> tlist_isempty q ?k then do { k2 \<leftarrow> rt_ipc_list_resume q ?k; rt_schedule k2 } else Some ?k) = Some k'"
    "woken_first q ?k k'"
    by (rule wake_first_ok [OF i q c])
  have "hands_over m q mb' k k'"
    using k'(2) kframeD(4) [of ?k k'] f by (simp add: hands_over_def woken_first_def split: list.splits)
  then show ?thesis using that k'(1) by blast
qed

lemma mb_deposit_ok:
  assumes inv: "kinv k" and cur: "rt_current_thread k \<noteq> None" and w: "mb_wf (mailboxes k m)" and nf: "\<not> mb_full k m"
  obtains mb' k' where "mb_deposit m v k = Some (Returned RT_EOK, k')" "mb_wf mb'"
    "mb_list mb' = mails k m @ [v]" "obj_type mb' = obj_type (mailboxes k m)" "mb_size mb' = mb_size (mailboxes k m)"
    "hands_over m (Suspended (OMailBox m)) mb' k k'"
proof -
  have "length (mails k m) < unat (mb_size (mailboxes k m))"
    using nf mb_full_iff [OF w] mbq.bounded [OF w] by (simp add: le_less)
  then obtain mb' where mb: "mb_put v (mailboxes k m) = Some mb'" "mb_wf mb'" "mb_list mb' = mails k m @ [v]"
    "obj_type mb' = obj_type (mailboxes k m)" "mb_size mb' = mb_size (mailboxes k m)"
    by (rule mb_put_ok [OF w, of v]) blast
  obtain k' where k': "(if \<not> tlist_isempty (Suspended (OMailBox m)) (upd_mb m (\<lambda>_. mb') k)
      then do { k2 \<leftarrow> rt_ipc_list_resume (Suspended (OMailBox m)) (upd_mb m (\<lambda>_. mb') k); rt_schedule k2 }
      else Some (upd_mb m (\<lambda>_. mb') k)) = Some k'" "hands_over m (Suspended (OMailBox m)) mb' k k'"
    by (rule hand_over_ok [OF inv cur waiting_queue_simps(1)])
  then have "mb_deposit m v k = Some (Returned RT_EOK, k')"
    using mb(1) by (auto simp: mb_deposit_def Let_def Option.bind_eq_Some_conv split: if_splits)
  then show ?thesis using that mb k'(2) by blast
qed

lemma mb_withdraw_ok:
  assumes inv: "kinv k" and cur: "rt_current_thread k \<noteq> None" and w: "mb_wf (mailboxes k m)" and v: "mails k m = v # vs"
  obtains mb' k' where "mb_withdraw m k = Some (Returned RT_EOK, Some v, k')" "mb_wf mb'"
    "mb_list mb' = vs" "obj_type mb' = obj_type (mailboxes k m)" "mb_size mb' = mb_size (mailboxes k m)"
    "hands_over m (Senders (OMailBox m)) mb' k k'"
proof -
  obtain mb' where mb: "mb_get (mailboxes k m) = Some (v, mb')" "mb_wf mb'" "mb_list mb' = vs"
    "obj_type mb' = obj_type (mailboxes k m)" "mb_size mb' = mb_size (mailboxes k m)"
    by (rule mb_get_ok [OF w v]) blast
  obtain k' where k': "(if \<not> tlist_isempty (Senders (OMailBox m)) (upd_mb m (\<lambda>_. mb') k)
      then do { k2 \<leftarrow> rt_ipc_list_resume (Senders (OMailBox m)) (upd_mb m (\<lambda>_. mb') k); rt_schedule k2 }
      else Some (upd_mb m (\<lambda>_. mb') k)) = Some k'" "hands_over m (Senders (OMailBox m)) mb' k k'"
    by (rule hand_over_ok [OF inv cur waiting_queue_simps(2)])
  then have "mb_withdraw m k = Some (Returned RT_EOK, Some v, k')"
    using mb(1) by (auto simp: mb_withdraw_def Let_def Option.bind_eq_Some_conv split: if_splits)
  then show ?thesis using that mb k'(2) by blast
qed

text \<open>The outcome of one round of sending.\<close>

definition mb_sent :: "nat \<Rightarrow> tid \<Rightarrow> u32 \<Rightarrow> u32 \<Rightarrow> kernel \<Rightarrow> outcome \<Rightarrow> kernel \<Rightarrow> bool" where
  "mb_sent m c v time k oc k' \<longleftrightarrow>
     (if \<not> mb_full k m then oc = Returned RT_EOK \<and>
        (\<exists>mb'. mb_wf mb' \<and> mb_list mb' = mails k m @ [v] \<and> obj_type mb' = obj_type (mailboxes k m) \<and>
          mb_size mb' = mb_size (mailboxes k m) \<and> hands_over m (Suspended (OMailBox m)) mb' k k')
      else if time = 0 then oc = Returned (- RT_EFULL) \<and> k' \<in> {k, set_error c RT_EOK k}
      else (\<exists>tick. oc = Blocked tick) \<and>
        waits_on (Senders (OMailBox m)) (obj_flag (mailboxes k m)) c time (set_error c RT_EOK k) k')"

lemma mb_send_loop_ok:
  assumes c: "in_call k c" and w: "mb_wf (mailboxes k m)" and to: "timeout_ok time"
  obtains oc k' where "mb_send_loop m (Some c) v time k = Some (oc, k')" "kinv k'" "mb_sent m c v time k oc k'"
proof -
  note d = in_callD [OF c] and d' = in_callD [OF in_call_set_error [OF c]]
  consider "\<not> mb_full k m" | "mb_full k m" "time = 0" | "mb_full k m" "time \<noteq> 0" by blast
  then show ?thesis
  proof cases
    case 1
    have cur: "rt_current_thread k \<noteq> None" using d(2) by simp
    obtain mb' k' where k': "mb_deposit m v k = Some (Returned RT_EOK, k')" "mb_wf mb'"
      "mb_list mb' = mails k m @ [v]" "obj_type mb' = obj_type (mailboxes k m)" "mb_size mb' = mb_size (mailboxes k m)"
      "hands_over m (Suspended (OMailBox m)) mb' k k'"
      by (rule mb_deposit_ok [OF d(1) cur w 1, of v]) blast
    have "mb_send_loop m (Some c) v time k = Some (Returned RT_EOK, k')" using 1 k'(1) by (simp add: mb_send_loop_def)
    moreover have "mb_sent m c v time k (Returned RT_EOK) k'" using 1 k'(2-6) by (auto simp: mb_sent_def)
    ultimately show ?thesis using that k'(6) by (simp add: hands_over_def)
  next
    case 2
    have "mb_send_loop m (Some c) v time k = Some (Returned (- RT_EFULL), set_error c RT_EOK k)"
      using 2 by (simp add: mb_send_loop_def)
    moreover have "mb_sent m c v time k (Returned (- RT_EFULL)) (set_error c RT_EOK k)"
      using 2 by (simp add: mb_sent_def)
    ultimately show ?thesis using that d'(1) by blast
  next
    case 3
    obtain k1 k2 where k2: "ipc_wait (Senders (OMailBox m)) c (obj_flag (mailboxes k m)) time (set_error c RT_EOK k) = Some k1"
      "rt_schedule k1 = Some k2"
      "waits_on (Senders (OMailBox m)) (obj_flag (mailboxes k m)) c time (set_error c RT_EOK k) k2"
      by (rule call_wait_ok [OF c to waiting_queue_simps(2)]) blast
    have "mb_send_loop m (Some c) v time k = Some (Blocked (if sint time > 0 then rt_tick k else 0), k2)"
      using 3 k2(1,2) d'(5) by (simp add: mb_send_loop_def)
    moreover have "mb_sent m c v time k (Blocked (if sint time > 0 then rt_tick k else 0)) k2"
      using 3 k2(3) by (simp add: mb_sent_def)
    ultimately show ?thesis using that k2(3) by (simp add: waits_on_def)
  qed
qed


text \<open>The outcome of one round of receiving.\<close>

definition mb_received :: "nat \<Rightarrow> tid \<Rightarrow> u32 \<Rightarrow> kernel \<Rightarrow> outcome \<Rightarrow> u32 option \<Rightarrow> kernel \<Rightarrow> bool" where
  "mb_received m c time k oc r k' \<longleftrightarrow>
     (case mails k m of
        v # vs \<Rightarrow> oc = Returned RT_EOK \<and> r = Some v \<and>
          (\<exists>mb'. mb_wf mb' \<and> mb_list mb' = vs \<and> obj_type mb' = obj_type (mailboxes k m) \<and>
            mb_size mb' = mb_size (mailboxes k m) \<and> hands_over m (Senders (OMailBox m)) mb' k k')
      | [] \<Rightarrow> r = None \<and>
          (if time = 0 then oc = Returned (- RT_ETIMEOUT) \<and> k' \<in> {k, set_error c (- RT_ETIMEOUT) (set_error c RT_EOK k)}
           else (\<exists>tick. oc = Blocked tick) \<and>
             waits_on (Suspended (OMailBox m)) (obj_flag (mailboxes k m)) c time (set_error c RT_EOK k) k'))"

lemma mb_recv_loop_ok:
  assumes c: "in_call k c" and w: "mb_wf (mailboxes k m)" and to: "timeout_ok time"
  obtains oc r k' where "mb_recv_loop m (Some c) time k = Some (oc, r, k')" "kinv k'" "mb_received m c time k oc r k'"
proof -
  note d = in_callD [OF c] and d' = in_callD [OF in_call_set_error [OF c]]
  consider v vs where "mails k m = v # vs" | "mails k m = []" "time = 0" | "mails k m = []" "time \<noteq> 0"
    by (cases "mails k m") auto
  then show ?thesis
  proof cases
    case 1
    have cur: "rt_current_thread k \<noteq> None" using d(2) by simp
    obtain mb' k' where k': "mb_withdraw m k = Some (Returned RT_EOK, Some v, k')" "mb_wf mb'"
      "mb_list mb' = vs" "obj_type mb' = obj_type (mailboxes k m)" "mb_size mb' = mb_size (mailboxes k m)"
      "hands_over m (Senders (OMailBox m)) mb' k k'"
      by (rule mb_withdraw_ok [OF d(1) cur w 1]) blast
    have "mb_recv_loop m (Some c) time k = Some (Returned RT_EOK, Some v, k')"
      using 1 k'(1) by (simp add: mb_recv_loop_def mb_empty_iff)
    moreover have "mb_received m c time k (Returned RT_EOK) (Some v) k'" using 1 k'(2-6) by (auto simp: mb_received_def)
    ultimately show ?thesis using that k'(6) by (simp add: hands_over_def)
  next
    case 2
    let ?k = "set_error c (- RT_ETIMEOUT) (set_error c RT_EOK k)"
    have "mb_recv_loop m (Some c) time k = Some (Returned (- RT_ETIMEOUT), None, ?k)"
      using 2 by (simp add: mb_recv_loop_def mb_empty_iff)
    moreover have "mb_received m c time k (Returned (- RT_ETIMEOUT)) None ?k"
      using 2 by (simp add: mb_received_def)
    moreover have "kinv ?k" using d'(1) by simp
    ultimately show ?thesis using that by blast
  next
    case 3
    obtain k1 k2 where k2: "ipc_wait (Suspended (OMailBox m)) c (obj_flag (mailboxes k m)) time (set_error c RT_EOK k) = Some k1"
      "rt_schedule k1 = Some k2"
      "waits_on (Suspended (OMailBox m)) (obj_flag (mailboxes k m)) c time (set_error c RT_EOK k) k2"
      by (rule call_wait_ok [OF c to waiting_queue_simps(1)]) blast
    have "mb_recv_loop m (Some c) time k = Some (Blocked (if sint time > 0 then rt_tick k else 0), None, k2)"
      using 3 k2(1,2) d'(5) by (simp add: mb_recv_loop_def mb_empty_iff)
    moreover have "mb_received m c time k (Blocked (if sint time > 0 then rt_tick k else 0)) None k2"
      using 3 k2(3) by (simp add: mb_received_def)
    ultimately show ?thesis using that k2(3) by (simp add: waits_on_def)
  qed
qed

lemma mb_send_wait_ok:
  assumes "in_call k c" "is_mb k m" "mb_wf (mailboxes k m)" "timeout_ok time"
  obtains oc k' where "rt_mb_send_wait m v time k = Some (oc, k')" "kinv k'" "mb_sent m c v time k oc k'"
proof (cases "mb_full k m \<and> time = 0")
  case True
  have "rt_mb_send_wait m v time k = Some (Returned (- RT_EFULL), k)" "mb_sent m c v time k (Returned (- RT_EFULL)) k"
    using True assms(2) by (simp_all add: rt_mb_send_wait_def is_mb_def mb_sent_def del: obj_is_simps)
  then show ?thesis using that in_callD(1) [OF assms(1)] by blast
next
  case False
  then have e: "rt_mb_send_wait m v time k = mb_send_loop m (Some c) v time k"
    using assms(2) in_callD(6) [OF assms(1)] by (auto simp: rt_mb_send_wait_def is_mb_def simp del: obj_is_simps)
  show ?thesis by (rule mb_send_loop_ok [OF assms(1,3,4), of v]) (rule that [unfolded e])
qed

lemma mb_recv_ok:
  assumes "in_call k c" "is_mb k m" "mb_wf (mailboxes k m)" "timeout_ok time"
  obtains oc r k' where "rt_mb_recv m time k = Some (oc, r, k')" "kinv k'" "mb_received m c time k oc r k'"
proof (cases "mails k m = [] \<and> time = 0")
  case True
  have "rt_mb_recv m time k = Some (Returned (- RT_ETIMEOUT), None, k)" "mb_received m c time k (Returned (- RT_ETIMEOUT)) None k"
    using True assms(2) by (simp_all add: rt_mb_recv_def is_mb_def mb_received_def mb_empty_iff del: obj_is_simps)
  then show ?thesis using that in_callD(1) [OF assms(1)] by blast
next
  case False
  then have e: "rt_mb_recv m time k = mb_recv_loop m (Some c) time k"
    using assms(2) in_callD(6) [OF assms(1)] by (auto simp: rt_mb_recv_def is_mb_def mb_empty_iff simp del: obj_is_simps)
  show ?thesis by (rule mb_recv_loop_ok [OF assms(1,3,4)]) (rule that [unfolded e])
qed

text \<open>\<open>rt_mb_send_wait\<close> in the running thread, on every branch: with room it appends the mail to the
  sequence of mails and wakes the first receiver; when the mailbox is full it returns
  \<open>-RT_EFULL\<close> without waiting time, the mails as they were, and otherwise suspends the thread on
  the list of senders.\<close>

lemma rt_mb_send_wait_correct:
  assumes "in_call k c" "is_mb k m" "mb_wf (mailboxes k m)" "timeout_ok time"
  shows "\<exists>oc k'. rt_mb_send_wait m v time k = Some (oc, k') \<and> kinv k' \<and> mb_sent m c v time k oc k'"
  by (rule mb_send_wait_ok [OF assms, of v]) blast

lemma sample_mb: "is_mb sample m" "mb_wf (mailboxes sample m)" "mails sample m = []"
  by (simp_all add: is_mb_def mb_wf_def mb_list_def zero_mailbox_def word_le_nat_alt)

lemma rt_mb_send_wait_correct_witness:
  "\<exists>oc k'. rt_mb_send_wait 0 7 5 sample = Some (oc, k') \<and> kinv k' \<and> mb_sent 0 1 7 5 sample oc k' \<and> oc = Returned RT_EOK"
proof -
  obtain oc k' where k': "rt_mb_send_wait 0 7 5 sample = Some (oc, k')" "kinv k'" "mb_sent 0 1 7 5 sample oc k'"
    using rt_mb_send_wait_correct [OF sample_in_call sample_mb(1,2), of 5 0 7] by (auto simp: timeout_ok_def)
  then have "oc = Returned RT_EOK" by (simp add: mb_sent_def zero_mailbox_def)
  then show ?thesis using k' by blast
qed

text \<open>\<open>rt_mb_recv\<close> in the running thread, on every branch: it returns the oldest mail and wakes the
  first waiting sender; from an empty mailbox it returns \<open>-RT_ETIMEOUT\<close> without waiting time, and
  otherwise suspends the thread on the list of receivers.\<close>

lemma rt_mb_recv_correct:
  assumes "in_call k c" "is_mb k m" "mb_wf (mailboxes k m)" "timeout_ok time"
  shows "\<exists>oc r k'. rt_mb_recv m time k = Some (oc, r, k') \<and> kinv k' \<and> mb_received m c time k oc r k'"
  by (rule mb_recv_ok [OF assms]) blast


lemma rt_mb_recv_correct_witness:
  "\<exists>oc r k'. rt_mb_recv 0 0 sample = Some (oc, r, k') \<and> kinv k' \<and> mb_received 0 1 0 sample oc r k' \<and> oc = Returned (- RT_ETIMEOUT)"
proof -
  obtain oc r k' where k': "rt_mb_recv 0 0 sample = Some (oc, r, k')" "kinv k'" "mb_received 0 1 0 sample oc r k'"
    using rt_mb_recv_correct [OF sample_in_call sample_mb(1,2), of 0 0] by (auto simp: timeout_ok_def)
  then have "oc = Returned (- RT_ETIMEOUT)" using sample_mb(3) by (simp add: mb_received_def del: sample_fields)
  then show ?thesis using k' by blast
qed

subsection \<open>Runs of a mailbox\<close>

text \<open>
  Any interleaving of calls on the mailbox \<open>m\<close>, the rounds of blocked calls that continue, sends
  from interrupts and whatever else the kernel does without touching the mailbox; \<open>ins\<close> are the
  mails whose sending succeeded, \<open>outs\<close> those that were received, in the order of the calls.
\<close>

definition mb_inv :: "nat \<Rightarrow> kernel \<Rightarrow> bool" where
  "mb_inv m k \<longleftrightarrow> kinv k \<and> is_mb k m \<and> mb_wf (mailboxes k m)"

abbreviation sent_mails :: "outcome \<Rightarrow> u32 \<Rightarrow> u32 list" where
  "sent_mails oc v \<equiv> (if oc = Returned RT_EOK then [v] else [])"

abbreviation received_mails :: "u32 option \<Rightarrow> u32 list" where
  "received_mails r \<equiv> (case r of None \<Rightarrow> [] | Some v \<Rightarrow> [v])"

inductive mb_run :: "nat \<Rightarrow> kernel \<Rightarrow> kernel \<Rightarrow> u32 list \<Rightarrow> u32 list \<Rightarrow> bool" for m k0 where
  start: "mb_run m k0 k0 [] []"
| send: "mb_run m k0 k ins outs \<Longrightarrow> in_call k c \<Longrightarrow> timeout_ok time \<Longrightarrow> rt_mb_send_wait m v time k = Some (oc, k') \<Longrightarrow>
    mb_run m k0 k' (ins @ sent_mails oc v) outs"
| send_again: "mb_run m k0 k ins outs \<Longrightarrow> in_call k c \<Longrightarrow> timeout_ok (time_left time from (rt_tick k)) \<Longrightarrow>
    rt_mb_send_wait_resume m c v time from k = Some (oc, k') \<Longrightarrow> mb_run m k0 k' (ins @ sent_mails oc v) outs"
| send_irq: "mb_run m k0 k ins outs \<Longrightarrow> rt_current_thread k \<noteq> None \<Longrightarrow> rt_mb_send m v k = Some (oc, k') \<Longrightarrow>
    mb_run m k0 k' (ins @ sent_mails oc v) outs"
| recv: "mb_run m k0 k ins outs \<Longrightarrow> in_call k c \<Longrightarrow> timeout_ok time \<Longrightarrow> rt_mb_recv m time k = Some (oc, r, k') \<Longrightarrow>
    mb_run m k0 k' ins (outs @ received_mails r)"
| recv_again: "mb_run m k0 k ins outs \<Longrightarrow> in_call k c \<Longrightarrow> timeout_ok (time_left time from (rt_tick k)) \<Longrightarrow>
    rt_mb_recv_resume m c time from k = Some (oc, r, k') \<Longrightarrow> mb_run m k0 k' ins (outs @ received_mails r)"
| other: "mb_run m k0 k ins outs \<Longrightarrow> kinv k' \<Longrightarrow> mailboxes k' m = mailboxes k m \<Longrightarrow> mb_run m k0 k' ins outs"

lemma mb_inv_same: "mb_inv m k \<Longrightarrow> kinv k' \<Longrightarrow> mailboxes k' m = mailboxes k m \<Longrightarrow> mb_inv m k'"
  by (simp add: mb_inv_def is_mb_def)

lemma mb_inv_new:
  "mb_inv m k \<Longrightarrow> mb_wf mb' \<Longrightarrow> obj_type mb' = obj_type (mailboxes k m) \<Longrightarrow> hands_over m q mb' k k' \<Longrightarrow>
    mb_inv m k' \<and> mailboxes k' m = mb'"
  by (simp add: mb_inv_def is_mb_def hands_over_def)

lemma mb_sent_step:
  assumes "mb_inv m k" "mb_sent m c v time k oc k'"
  shows "mb_inv m k'" "mails k' m = mails k m @ sent_mails oc v"
proof -
  have "mb_inv m k' \<and> mails k' m = mails k m @ sent_mails oc v"
  proof (cases "mb_full k m")
    case False
    then obtain mb' where mb: "oc = Returned RT_EOK" "mb_wf mb'" "mb_list mb' = mails k m @ [v]"
      "obj_type mb' = obj_type (mailboxes k m)" "hands_over m (Suspended (OMailBox m)) mb' k k'"
      using assms(2) by (auto simp: mb_sent_def)
    show ?thesis using mb_inv_new [OF assms(1) mb(2,4,5)] mb(1,3) by simp
  next
    case True
    have "kinv k' \<and> mailboxes k' = mailboxes k \<and> oc \<noteq> Returned RT_EOK"
    proof (cases "time = 0")
      case True
      then show ?thesis using assms \<open>mb_full k m\<close> by (auto simp: mb_sent_def mb_inv_def)
    next
      case False
      then have w: "waits_on (Senders (OMailBox m)) (obj_flag (mailboxes k m)) c time (set_error c RT_EOK k) k'" "oc \<noteq> Returned RT_EOK"
        using assms \<open>mb_full k m\<close> by (auto simp: mb_sent_def)
      then show ?thesis using kframeD(4) [of "set_error c RT_EOK k" k'] by (simp add: waits_on_def)
    qed
    then show ?thesis using mb_inv_same [OF assms(1)] by simp
  qed
  then show "mb_inv m k'" "mails k' m = mails k m @ sent_mails oc v" by simp_all
qed

lemma mb_received_step:
  assumes "mb_inv m k" "mb_received m c time k oc r k'"
  shows "mb_inv m k'" "mails k m = received_mails r @ mails k' m"
proof -
  have "mb_inv m k' \<and> mails k m = received_mails r @ mails k' m"
  proof (cases "mails k m")
    case (Cons v vs)
    then obtain mb' where mb: "r = Some v" "mb_wf mb'" "mb_list mb' = vs"
      "obj_type mb' = obj_type (mailboxes k m)" "hands_over m (Senders (OMailBox m)) mb' k k'"
      using assms(2) by (auto simp: mb_received_def)
    show ?thesis using mb_inv_new [OF assms(1) mb(2,4,5)] mb(1,3) Cons by simp
  next
    case Nil
    have "kinv k' \<and> mailboxes k' = mailboxes k \<and> r = None"
    proof (cases "time = 0")
      case True
      then show ?thesis using assms Nil by (auto simp: mb_received_def mb_inv_def)
    next
      case False
      then have w: "waits_on (Suspended (OMailBox m)) (obj_flag (mailboxes k m)) c time (set_error c RT_EOK k) k'" "r = None"
        using assms Nil by (auto simp: mb_received_def)
      then show ?thesis using kframeD(4) [of "set_error c RT_EOK k" k'] by (simp add: waits_on_def)
    qed
    then show ?thesis using mb_inv_same [OF assms(1)] Nil by simp
  qed
  then show "mb_inv m k'" "mails k m = received_mails r @ mails k' m" by simp_all
qed

text \<open>What each call does to the mails.\<close>

lemma mb_send_step:
  assumes i: "mb_inv m k" and c: "in_call k c" "timeout_ok time" and ex: "rt_mb_send_wait m v time k = Some (oc, k')"
  shows "mb_inv m k'" "mails k' m = mails k m @ sent_mails oc v"
proof -
  note i' = i [unfolded mb_inv_def]
  obtain oc' k'' where "rt_mb_send_wait m v time k = Some (oc', k'')" "mb_sent m c v time k oc' k''"
    by (rule mb_send_wait_ok [OF c(1) _ _ c(2), of m v]) (use i' in blast)+
  then have "mb_sent m c v time k oc k'" using ex by simp
  from mb_sent_step [OF i this] show "mb_inv m k'" "mails k' m = mails k m @ sent_mails oc v" .
qed

lemma mb_send_again_step:
  assumes i: "mb_inv m k" and c: "in_call k c" "timeout_ok (time_left time from (rt_tick k))"
    and ex: "rt_mb_send_wait_resume m c v time from k = Some (oc, k')"
  shows "mb_inv m k' \<and> mails k' m = mails k m @ sent_mails oc v"
proof (cases "thread_error (threads k c) = RT_EOK")
  case True
  let ?left = "time_left time from (rt_tick k)"
  note i' = i [unfolded mb_inv_def]
  obtain oc' k'' where "mb_send_loop m (Some c) v ?left k = Some (oc', k'')" "mb_sent m c v ?left k oc' k''"
    by (rule mb_send_loop_ok [OF c(1) _ c(2), of m v]) (use i' in blast)+
  then have "mb_sent m c v ?left k oc k'" using ex True by (simp add: rt_mb_send_wait_resume_def)
  from mb_sent_step [OF i this] show ?thesis by blast
next
  case False
  then have "k' = k" "oc \<noteq> Returned RT_EOK" using ex by (auto simp: rt_mb_send_wait_resume_def)
  then show ?thesis using i by simp
qed

lemma mb_send_irq_step:
  assumes i: "mb_inv m k" and c: "rt_current_thread k \<noteq> None" and ex: "rt_mb_send m v k = Some (oc, k')"
  shows "mb_inv m k' \<and> mails k' m = mails k m @ sent_mails oc v"
proof -
  note i' = i [unfolded mb_inv_def]
  note ex' = ex [unfolded rt_mb_send_def rt_mb_send_wait_def require_bind_Some_iff]
  show ?thesis
  proof (cases "mb_full k m")
    case True
    then have "k' = k" "oc \<noteq> Returned RT_EOK" using ex' by auto
    then show ?thesis using i by simp
  next
    case False
    obtain mb' k'' where mb: "mb_deposit m v k = Some (Returned RT_EOK, k'')" "mb_wf mb'" "mb_list mb' = mails k m @ [v]"
      "obj_type mb' = obj_type (mailboxes k m)" "hands_over m (Suspended (OMailBox m)) mb' k k''"
      by (rule mb_deposit_ok [OF _ c _ False, of v]) (use i' in blast)+
    then have eq: "k'' = k'" "oc = Returned RT_EOK" using ex' False by (simp_all add: mb_send_loop_def)
    show ?thesis using mb_inv_new [OF i mb(2,4,5)] mb(3) unfolding eq by simp
  qed
qed

lemma mb_recv_step:
  assumes i: "mb_inv m k" and c: "in_call k c" "timeout_ok time" and ex: "rt_mb_recv m time k = Some (oc, r, k')"
  shows "mb_inv m k'" "mails k m = received_mails r @ mails k' m"
proof -
  note i' = i [unfolded mb_inv_def]
  obtain oc' r' k'' where "rt_mb_recv m time k = Some (oc', r', k'')" "mb_received m c time k oc' r' k''"
    by (rule mb_recv_ok [OF c(1) _ _ c(2), of m]) (use i' in blast)+
  then have "mb_received m c time k oc r k'" using ex by simp
  from mb_received_step [OF i this] show "mb_inv m k'" "mails k m = received_mails r @ mails k' m" .
qed

lemma mb_recv_again_step:
  assumes i: "mb_inv m k" and c: "in_call k c" "timeout_ok (time_left time from (rt_tick k))"
    and ex: "rt_mb_recv_resume m c time from k = Some (oc, r, k')"
  shows "mb_inv m k' \<and> mails k m = received_mails r @ mails k' m"
proof (cases "thread_error (threads k c) = RT_EOK")
  case True
  let ?left = "time_left time from (rt_tick k)"
  note i' = i [unfolded mb_inv_def]
  obtain oc' r' k'' where "mb_recv_loop m (Some c) ?left k = Some (oc', r', k'')" "mb_received m c ?left k oc' r' k''"
    by (rule mb_recv_loop_ok [OF c(1) _ c(2), of m]) (use i' in blast)+
  then have "mb_received m c ?left k oc r k'" using ex True by (simp add: rt_mb_recv_resume_def)
  from mb_received_step [OF i this] show ?thesis by blast
next
  case False
  then have "k' = k" "r = None" using ex by (auto simp: rt_mb_recv_resume_def)
  then show ?thesis using i by simp
qed

text \<open>C14: over every interleaving of senders, receivers, their timeouts and interrupts, the mails are
  received in the order in which their sends succeeded, none is lost and none is made: those
  received and those still in the mailbox are those that were in it and those sent.\<close>

theorem mails_in_order:
  assumes "mb_run m k0 k ins outs" "mb_inv m k0"
  shows "mb_inv m k \<and> mb_list (mailboxes k0 m) @ ins = outs @ mb_list (mailboxes k m)"
  using assms
proof (induction rule: mb_run.induct)
  case (send k ins outs c time v oc k')
  then show ?case using mb_send_step [OF _ send.hyps(2-4)] by (simp flip: append_assoc)
next
  case (send_again k ins outs c time "from" v oc k')
  then show ?case using mb_send_again_step [OF _ send_again.hyps(2-4)] by (simp flip: append_assoc)
next
  case (send_irq k ins outs v oc k')
  then show ?case using mb_send_irq_step [OF _ send_irq.hyps(2,3)] by (simp flip: append_assoc)
next
  case (recv k ins outs c time oc r k')
  then show ?case using mb_recv_step [OF _ recv.hyps(2-4)] by simp
next
  case (recv_again k ins outs c time "from" oc r k')
  then show ?case using mb_recv_again_step [OF _ recv_again.hyps(2-4)] by simp
next
  case (other k ins outs k')
  then show ?case using mb_inv_same [of m k k'] by simp
qed simp


lemma mails_in_order_witness:
  "\<exists>k. mb_run 0 sample k [7] [] \<and> mb_inv 0 k \<and> mb_list (mailboxes k 0) = [7]"
proof -
  have i: "mb_inv 0 sample" using sample_kinv sample_mb(1,2) [of 0] by (simp only: mb_inv_def simp_thms)
  have to: "timeout_ok 5" by (simp add: timeout_ok_def)
  obtain oc k' where k': "rt_mb_send_wait 0 7 5 sample = Some (oc, k')" "mb_sent 0 1 7 5 sample oc k'"
    by (rule mb_send_wait_ok [OF sample_in_call sample_mb(1,2) to, of 0 7]) blast
  then have "oc = Returned RT_EOK" by (simp add: mb_sent_def zero_mailbox_def)
  then have r: "mb_run 0 sample k' [7] []"
    using mb_run.send [OF mb_run.start sample_in_call to k'(1)] by simp
  from mails_in_order [OF this i] sample_mb(3) [of 0] have "mb_inv 0 k' \<and> mb_list (mailboxes k' 0) = [7]"
    by (simp del: sample_fields)
  then show ?thesis using r by blast
qed

text \<open>a mailbox on its own is a queue: for every sequence of puts and gets that neither overfills nor
  underruns it, the calls succeed and what comes out, followed by what is left, is what was in it
  followed by what was put.\<close>

lemma mailbox_is_fifo:
  assumes "mb_wf mb" "fits (\<lambda>_. True) (unat (mb_size mb)) (length (mb_list mb)) ops"
  shows "\<exists>out mb'. fifo_run mb_put mb_get ops mb = Some (out, mb') \<and> mb_wf mb' \<and> out @ mb_list mb' = mb_list mb @ puts ops"
  using mbq.run_ok [OF assms] by blast

lemma mailbox_is_fifo_witness:
  "\<exists>out mb'. fifo_run mb_put mb_get [Put 1, Put 2, Get, Put 3, Get] (mailboxes sample 0) = Some (out, mb') \<and> mb_wf mb' \<and>
     out @ mb_list mb' = [1, 2, 3]"
  using mailbox_is_fifo [OF sample_mb(2) [of 0], of "[Put 1, Put 2, Get, Put 3, Get]"] sample_mb(3) [of 0]
  by (simp add: zero_mailbox_def)

end
