(* ===== verification/MsgQueueBlocks.thy ===== *)
theory MsgQueueBlocks
  imports MsgQueue BlockPool
begin

section \<open>Message queues: the blocks of the pool\<close>

text \<open>
  Which blocks are queued, which are free and which are held by calls under way, and the effect
  of every section on this division.
\<close>

subsection \<open>The lists of blocks\<close>

primrec mq_chain :: "(nat \<Rightarrow> rt_mq_block) \<Rightarrow> nat option \<Rightarrow> nat list \<Rightarrow> bool" where
  "mq_chain p h [] \<longleftrightarrow> h = None"
| "mq_chain p h (b # bs) \<longleftrightarrow> h = Some b \<and> mq_chain p (msg_next (p b)) bs"

lemma mq_chain_None [simp]: "mq_chain p None bs \<longleftrightarrow> bs = []"
  by (cases bs) auto

lemma mq_chain_Some: "mq_chain p (Some b) bs \<longleftrightarrow> (\<exists>cs. bs = b # cs \<and> mq_chain p (msg_next (p b)) cs)"
  by (cases bs) auto

lemma mq_chain_unique: "mq_chain p h bs \<Longrightarrow> mq_chain p h cs \<Longrightarrow> bs = cs"
  by (induction bs arbitrary: h cs) (auto simp: mq_chain_Some)

lemma mq_chain_cong: "(\<And>b. b \<in> set bs \<Longrightarrow> msg_next (p' b) = msg_next (p b)) \<Longrightarrow> mq_chain p' h bs = mq_chain p h bs"
  by (induction bs arbitrary: h) auto

lemma mq_chain_append: "mq_chain p h (bs @ [b]) \<Longrightarrow> distinct (bs @ [b]) \<Longrightarrow> c \<notin> set (bs @ [b]) \<Longrightarrow>
    mq_chain (p(b := (p b)\<lparr>msg_next := Some c\<rparr>)) h (bs @ [b, c]) = (msg_next (p c) = None)"
  by (induction bs arbitrary: h) auto

text \<open>\<open>mq_rep mq qs fs H\<close>: \<open>qs\<close> is the queue, \<open>fs\<close> the free list, and the calls under way hold the blocks \<open>H\<close>.\<close>

definition mq_rep :: "rt_messagequeue \<Rightarrow> nat list \<Rightarrow> nat list \<Rightarrow> nat set \<Rightarrow> bool" where
  "mq_rep mq qs fs H \<longleftrightarrow>
     mq_chain (mq_pool mq) (msg_queue_head mq) qs \<and>
     msg_queue_tail mq = (if qs = [] then None else Some (last qs)) \<and>
     mq_chain (mq_pool mq) (msg_queue_free mq) fs \<and>
     distinct (qs @ fs) \<and> H \<inter> set (qs @ fs) = {} \<and> set (qs @ fs) \<union> H = {..<unat (max_msgs mq)} \<and>
     unat (mq_entry mq) = length qs \<and>
     (\<forall>b < unat (max_msgs mq). length (msg_data (mq_pool mq b)) = unat (msg_size mq))"

abbreviation block_data :: "rt_messagequeue \<Rightarrow> nat \<Rightarrow> u8 list" where
  "block_data mq b \<equiv> msg_data (mq_pool mq b)"

lemma mq_rep_held: "mq_rep mq qs fs H \<Longrightarrow> b \<in> H \<Longrightarrow> b < unat (max_msgs mq) \<and> b \<notin> set qs \<and> b \<notin> set fs"
  by (auto simp: mq_rep_def)

lemma mq_rep_count: "mq_rep mq qs fs H \<Longrightarrow> length qs + length fs + card H = unat (max_msgs mq)"
proof -
  assume r: "mq_rep mq qs fs H"
  have f: "finite H" using r finite_subset [of H "{..<unat (max_msgs mq)}"] by (auto simp: mq_rep_def)
  have "card (set (qs @ fs) \<union> H) = card (set (qs @ fs)) + card H"
    using r f by (intro card_Un_disjoint) (auto simp: mq_rep_def)
  moreover have "card (set (qs @ fs)) = length qs + length fs"
    using r distinct_card [of "qs @ fs"] by (simp add: mq_rep_def)
  ultimately show ?thesis using r by (simp add: mq_rep_def)
qed

lemma link_free_ok:
  assumes "mq_link_free n pool None = (free, pool')"
  shows "mq_chain pool' free (rev [0..<n])" "\<And>b. msg_data (pool' b) = msg_data (pool b)" "\<And>b. n \<le> b \<Longrightarrow> pool' b = pool b"
proof -
  have "mq_chain pool' free (rev [0..<n]) \<and> (\<forall>b. msg_data (pool' b) = msg_data (pool b)) \<and> (\<forall>b \<ge> n. pool' b = pool b)"
    using assms
  proof (induction n arbitrary: free pool')
    case (Suc n)
    obtain f1 p1 where 1: "mq_link_free n pool None = (f1, p1)" by (metis surj_pair)
    note IH = Suc.IH [OF 1]
    have e: "free = Some n" "pool' = p1(n := (p1 n)\<lparr>msg_next := f1\<rparr>)" using Suc.prems 1 by auto
    have "mq_chain pool' f1 (rev [0..<n]) = mq_chain p1 f1 (rev [0..<n])" by (rule mq_chain_cong) (simp add: e)
    moreover have "msg_next (pool' n) = f1" by (simp add: e)
    ultimately have "mq_chain pool' free (rev [0..<Suc n])" using IH e(1) by simp
    moreover have "msg_data (pool' b) = msg_data (pool b)" "Suc n \<le> b \<longrightarrow> pool' b = pool b" for b
      using IH by (auto simp: e)
    ultimately show ?case by simp
  qed simp
  then show "mq_chain pool' free (rev [0..<n])" "\<And>b. msg_data (pool' b) = msg_data (pool b)" "\<And>b. n \<le> b \<Longrightarrow> pool' b = pool b"
    by simp_all
qed

lemma mq_setup_rep:
  assumes "\<And>b. b < unat (max_msgs mq) \<Longrightarrow> length (mem b) = unat (msg_size mq)"
  shows "mq_rep (mq_setup_lists mem mq) [] (rev [0..<unat (max_msgs mq)]) {}"
proof -
  obtain free pool where p: "mq_link_free (unat (max_msgs mq)) (\<lambda>i. \<lparr>msg_next = None, msg_data = mem i\<rparr>) None = (free, pool)"
    by (metis surj_pair)
  note l = link_free_ok [OF p]
  show ?thesis using assms l by (auto simp: mq_rep_def mq_setup_lists_def p)
qed

subsection \<open>The sections\<close>

lemma take_free_ok:
  assumes r: "mq_rep mq qs (b # fs) H"
  obtains mq' where "mq_take_free mq = Some (b, mq')" "mq_rep mq' qs fs (insert b H)"
    "mq_pool mq' = mq_pool mq" "msg_size mq' = msg_size mq" "max_msgs mq' = max_msgs mq" "obj_type mq' = obj_type mq"
proof -
  have f: "msg_queue_free mq = Some b" using r by (simp add: mq_rep_def)
  show ?thesis
    by (rule that [of "mq\<lparr>msg_queue_free := msg_next (mq_pool mq b)\<rparr>"])
      (use r f in \<open>auto simp: mq_take_free_def mq_rep_def\<close>)
qed

lemma take_free_none: "mq_rep mq qs [] H \<Longrightarrow> mq_take_free mq = None"
  by (simp add: mq_rep_def mq_take_free_def)

text \<open>Changing a held block leaves the lists.\<close>

lemma mq_rep_upd_held:
  assumes r: "mq_rep mq qs fs H" and b: "b \<in> H" and l: "length (msg_data (f (mq_pool mq b))) = length (block_data mq b)"
  shows "mq_rep (mq\<lparr>mq_pool := (mq_pool mq)(b := f (mq_pool mq b))\<rparr>) qs fs H"
proof -
  let ?p = "(mq_pool mq)(b := f (mq_pool mq b))"
  have n: "b \<notin> set qs" "b \<notin> set fs" using mq_rep_held [OF r b] by simp_all
  have "mq_chain ?p h qs = mq_chain (mq_pool mq) h qs" "mq_chain ?p h fs = mq_chain (mq_pool mq) h fs" for h
    using n by (auto intro!: mq_chain_cong)
  then show ?thesis using r l by (auto simp: mq_rep_def)
qed

lemma copy_in_ok:
  assumes r: "mq_rep mq qs fs H" and b: "b \<in> H" and l: "n \<le> length buffer" "n \<le> unat (msg_size mq)"
  obtains mq' where "mq_copy_in b buffer n mq = Some mq'" "mq_rep mq' qs fs H"
    "block_data mq' b = take n buffer @ drop n (block_data mq b)" "msg_next (mq_pool mq' b) = msg_next (mq_pool mq b)"
    "\<And>c. c \<noteq> b \<Longrightarrow> mq_pool mq' c = mq_pool mq c" "msg_size mq' = msg_size mq" "max_msgs mq' = max_msgs mq" "obj_type mq' = obj_type mq"
proof -
  let ?f = "\<lambda>bl. bl\<lparr>msg_data := take n buffer @ drop n (msg_data bl)\<rparr>"
  have s: "length (block_data mq b) = unat (msg_size mq)" using mq_rep_held [OF r b] r by (simp add: mq_rep_def)
  show ?thesis
  proof (rule that [of "mq\<lparr>mq_pool := (mq_pool mq)(b := ?f (mq_pool mq b))\<rparr>"])
    show "mq_rep (mq\<lparr>mq_pool := (mq_pool mq)(b := ?f (mq_pool mq b))\<rparr>) qs fs H"
      by (rule mq_rep_upd_held [OF r b]) (use s l in simp)
  qed (use s l in \<open>simp_all add: mq_copy_in_def\<close>)
qed

lemma set_next_held:
  assumes "mq_rep mq qs fs H" "b \<in> H"
  shows "mq_rep (mq_set_next b x mq) qs fs H"
  using mq_rep_upd_held [OF assms, of "\<lambda>bl. bl\<lparr>msg_next := x\<rparr>"] by (simp add: mq_set_next_def)

lemma mq_set_next_simps [simp]:
  "mq_pool (mq_set_next b x mq) c = (if c = b then (mq_pool mq b)\<lparr>msg_next := x\<rparr> else mq_pool mq c)"
  "msg_size (mq_set_next b x mq) = msg_size mq" "max_msgs (mq_set_next b x mq) = max_msgs mq"
  "mq_entry (mq_set_next b x mq) = mq_entry mq" "msg_queue_head (mq_set_next b x mq) = msg_queue_head mq"
  "msg_queue_tail (mq_set_next b x mq) = msg_queue_tail mq" "msg_queue_free (mq_set_next b x mq) = msg_queue_free mq"
  "obj_type (mq_set_next b x mq) = obj_type mq" "obj_flag (mq_set_next b x mq) = obj_flag mq"
  by (simp_all add: mq_set_next_def)


lemma mq_entry_next:
  assumes r: "mq_rep mq qs fs H" and b: "b \<in> H"
  shows "unat (mq_entry mq + 1) = Suc (length qs)"
proof -
  have "finite H" using r finite_subset [of H "{..<unat (max_msgs mq)}"] by (auto simp: mq_rep_def)
  then have "0 < card H" using b card_gt_0_iff by blast
  then have "length qs < unat (max_msgs mq)" using mq_rep_count [OF r] by simp
  then show ?thesis using unat_Suc_below [of "mq_entry mq" "max_msgs mq"] r by (simp add: mq_rep_def)
qed

lemma append_ok:
  assumes r: "mq_rep mq qs fs H" and b: "b \<in> H" and n: "msg_next (mq_pool mq b) = None"
  shows "mq_rep (mq_append b mq) (qs @ [b]) fs (H - {b})"
    "\<And>c. block_data (mq_append b mq) c = block_data mq c" "msg_size (mq_append b mq) = msg_size mq"
    "max_msgs (mq_append b mq) = max_msgs mq" "obj_type (mq_append b mq) = obj_type mq"
proof -
  have h: "b < unat (max_msgs mq)" "b \<notin> set qs" "b \<notin> set fs" using mq_rep_held [OF r b] by simp_all
  note e = mq_entry_next [OF r b]
  show "mq_rep (mq_append b mq) (qs @ [b]) fs (H - {b})"
  proof (cases qs rule: rev_cases)
    case Nil
    then have "msg_queue_tail mq = None" "msg_queue_head mq = None" using r by (simp_all add: mq_rep_def)
    then show ?thesis using r h e n b Nil by (auto simp: mq_rep_def mq_append_def Let_def)
  next
    case (snoc xs l)
    have t: "msg_queue_tail mq = Some l" and hd: "msg_queue_head mq \<noteq> None"
      using r snoc by (auto simp: mq_rep_def)
    let ?p = "(mq_pool mq)(l := (mq_pool mq l)\<lparr>msg_next := Some b\<rparr>)"
    have q: "mq_chain ?p (msg_queue_head mq) (xs @ [l, b])"
      using mq_chain_append [of "mq_pool mq" "msg_queue_head mq" xs l b] r snoc h n by (simp add: mq_rep_def)
    have f: "mq_chain ?p (msg_queue_free mq) fs"
    proof -
      have "l \<notin> set fs" using r snoc by (auto simp: mq_rep_def)
      then have "mq_chain ?p (msg_queue_free mq) fs = mq_chain (mq_pool mq) (msg_queue_free mq) fs"
        by (intro mq_chain_cong) auto
      then show ?thesis using r by (simp add: mq_rep_def)
    qed
    have a: "mq_append b mq = mq\<lparr>mq_pool := ?p, msg_queue_tail := Some b, mq_entry := mq_entry mq + 1\<rparr>"
      using t hd by (simp add: mq_append_def mq_set_next_def Let_def)
    show ?thesis unfolding a using r q f h e b snoc by (auto simp: mq_rep_def)
  qed
qed (auto simp: mq_append_def Let_def split: option.splits)

lemma prepend_ok:
  assumes r: "mq_rep mq qs fs H" and b: "b \<in> H"
  shows "mq_rep (mq_prepend b mq) (b # qs) fs (H - {b})"
    "\<And>c. block_data (mq_prepend b mq) c = block_data mq c" "msg_size (mq_prepend b mq) = msg_size mq"
    "max_msgs (mq_prepend b mq) = max_msgs mq" "obj_type (mq_prepend b mq) = obj_type mq"
proof -
  have h: "b < unat (max_msgs mq)" "b \<notin> set qs" "b \<notin> set fs" using mq_rep_held [OF r b] by simp_all
  note e = mq_entry_next [OF r b]
  have s: "mq_rep (mq_set_next b (msg_queue_head mq) mq) qs fs H" by (rule set_next_held [OF r b])
  show "mq_rep (mq_prepend b mq) (b # qs) fs (H - {b})"
    using s h e b by (auto simp: mq_rep_def mq_prepend_def Let_def)
qed (auto simp: mq_prepend_def Let_def)

lemma take_head_ok:
  assumes r: "mq_rep mq (b # qs) fs H"
  obtains mq' where "mq_take_head mq = Some (b, mq')" "mq_rep mq' qs fs (insert b H)"
    "mq_pool mq' = mq_pool mq" "msg_size mq' = msg_size mq" "max_msgs mq' = max_msgs mq" "obj_type mq' = obj_type mq"
proof -
  have f: "msg_queue_head mq = Some b" using r by (simp add: mq_rep_def)
  have "mq_entry mq \<noteq> 0" using r by (auto simp: mq_rep_def)
  then have e: "unat (mq_entry mq - 1) = length qs" using r by (simp add: mq_rep_def unat_minus_one)
  define mq' where "mq' = mq\<lparr>msg_queue_head := msg_next (mq_pool mq b),
    msg_queue_tail := (if msg_queue_tail mq = Some b then None else msg_queue_tail mq), mq_entry := mq_entry mq - 1\<rparr>"
  have "mq_take_head mq = Some (b, mq')" using f by (simp add: mq_take_head_def mq'_def Let_def)
  moreover have "msg_queue_tail mq = Some b \<longleftrightarrow> qs = []" using r by (auto simp: mq_rep_def)
  then have "mq_rep mq' qs fs (insert b H)" using r e unfolding mq'_def by (auto simp: mq_rep_def)
  ultimately show ?thesis using that by (simp add: mq'_def)
qed

lemma give_back_ok:
  assumes r: "mq_rep mq qs fs H" and b: "b \<in> H"
  shows "mq_rep (mq_give_back b mq) qs (b # fs) (H - {b})"
    "\<And>c. block_data (mq_give_back b mq) c = block_data mq c" "msg_size (mq_give_back b mq) = msg_size mq"
    "max_msgs (mq_give_back b mq) = max_msgs mq" "obj_type (mq_give_back b mq) = obj_type mq"
proof -
  have s: "mq_rep (mq_set_next b (msg_queue_free mq) mq) qs fs H" by (rule set_next_held [OF r b])
  show "mq_rep (mq_give_back b mq) qs (b # fs) (H - {b})"
    using s mq_rep_held [OF r b] b by (auto simp: mq_rep_def mq_give_back_def)
qed (auto simp: mq_give_back_def)

lemma copy_out_ok:
  assumes r: "mq_rep mq qs fs H" and b: "b \<in> H"
  shows "mq_copy_out b n mq = Some (take n (block_data mq b))"
proof -
  have "length (block_data mq b) = unat (msg_size mq)" using mq_rep_held [OF r b] r by (simp add: mq_rep_def)
  then show ?thesis by (simp add: mq_copy_out_def min_def)
qed


text \<open>The free list is a pool of blocks, whatever is in the queue.\<close>

interpretation mqpool: block_pool "\<lambda>mq. mq_rep mq qs" mq_take_free mq_give_back for qs
proof
  show "distinct fs \<and> A \<inter> set fs = {}" if "mq_rep s qs fs A" for s fs A
    using that by (auto simp: mq_rep_def)
  show "\<exists>s'. mq_take_free s = Some (b, s') \<and> mq_rep s' qs fs (insert b A)" if "mq_rep s qs (b # fs) A" for s b fs A
    by (rule take_free_ok [OF that]) blast
  show "mq_rep (mq_give_back b s) qs (b # fs) (A - {b})" if "mq_rep s qs fs A" "b \<in> A" for s fs A b
    by (rule give_back_ok(1) [OF that])
qed

subsection \<open>The queue of messages\<close>

primrec mq_walk :: "nat \<Rightarrow> (nat \<Rightarrow> rt_mq_block) \<Rightarrow> nat option \<Rightarrow> nat list" where
  "mq_walk 0 p h = []"
| "mq_walk (Suc n) p h = (case h of None \<Rightarrow> [] | Some b \<Rightarrow> b # mq_walk n p (msg_next (p b)))"

lemma mq_walk_chain: "mq_chain p h bs \<Longrightarrow> length bs \<le> n \<Longrightarrow> mq_walk n p h = bs"
proof (induction bs arbitrary: n h)
  case Nil
  then show ?case by (cases n) auto
next
  case (Cons b bs)
  then show ?case by (cases n) auto
qed

definition mq_contents :: "rt_messagequeue \<Rightarrow> u8 list list" where
  "mq_contents mq = map (block_data mq) (mq_walk (unat (mq_entry mq)) (mq_pool mq) (msg_queue_head mq))"

lemma mq_contents_rep: "mq_rep mq qs fs H \<Longrightarrow> mq_contents mq = map (block_data mq) qs"
  using mq_walk_chain [of "mq_pool mq" "msg_queue_head mq" qs "length qs"] by (simp add: mq_contents_def mq_rep_def)

definition mq_wf :: "rt_messagequeue \<Rightarrow> bool" where
  "mq_wf mq \<longleftrightarrow> (\<exists>qs fs. mq_rep mq qs fs {})"

end
