(* ===== verification/MsgQueueProps.thy ===== *)
theory MsgQueueProps
  imports MsgQueueBlocks SemProps
begin

section \<open>Message queues: whole calls and interleaved sections\<close>

text \<open>
  The calls of the kernel on every branch, when they run undisturbed, and the invariant of any
  interleaving of their sections.
\<close>

subsection \<open>The sections in the kernel\<close>

definition is_mq :: "kernel \<Rightarrow> nat \<Rightarrow> bool" where
  "is_mq k m \<longleftrightarrow> obj_is k (OMsgQueue m) RT_Object_Class_MessageQueue"

lemma kframe_mq: "kframe (upd_mq m f k) k' \<Longrightarrow> msgqueues k' m = f (msgqueues k m)"
  using kframeD(5) [of "upd_mq m f k" k'] by (simp add: upd_mq_def)

lemma upd_mq_frame [simp]:
  "rt_current_thread (upd_mq m f k) = rt_current_thread k" "queues (upd_mq m f k) = queues k"
  "msgqueues (upd_mq m f k) = (msgqueues k)(m := f (msgqueues k m))" "threads (upd_mq m f k) = threads k"
  by (simp_all add: upd_mq_def)

text \<open>\<open>sections_end\<close>: a section that found no block or no message has returned or blocked.\<close>

definition section_waits :: "nat \<Rightarrow> queue \<Rightarrow> rt_err \<Rightarrow> u32 \<Rightarrow> kernel \<Rightarrow> mq_outcome \<Rightarrow> kernel \<Rightarrow> bool" where
  "section_waits m q err time k oc k' \<longleftrightarrow>
     (if time = 0 then oc = Mq_done (Returned err) \<and> (k' = k \<or> (\<exists>c e. k' = set_error c e (set_error c RT_EOK k)))
      else (\<exists>tick. oc = Mq_done (Blocked tick)) \<and>
        (\<exists>c. in_call k c \<and> waits_on q (obj_flag (msgqueues k m)) c time (set_error c RT_EOK k) k'))"

lemma section_waits_frame:
  assumes "section_waits m q err time k oc k'" "kinv k"
  shows "kinv k'" "msgqueues k' = msgqueues k" "\<exists>r. oc = Mq_done r"
proof -
  have "kinv k' \<and> msgqueues k' = msgqueues k \<and> (\<exists>r. oc = Mq_done r)"
  proof (cases "time = 0")
    case True
    then show ?thesis using assms by (auto simp: section_waits_def)
  next
    case False
    then obtain c where "waits_on q (obj_flag (msgqueues k m)) c time (set_error c RT_EOK k) k'" "\<exists>r. oc = Mq_done r"
      using assms by (auto simp: section_waits_def)
    then show ?thesis using kframeD(5) [of "set_error c RT_EOK k" k'] by (simp add: waits_on_def)
  qed
  then show "kinv k'" "msgqueues k' = msgqueues k" "\<exists>r. oc = Mq_done r" by simp_all
qed

text \<open>Taking a free block.\<close>

lemma mq_send_loop_full:
  assumes c: "in_call k c" and to: "timeout_ok time" and f: "mq_take_free (msgqueues k m) = None"
  obtains oc k' where "mq_send_loop m (Some c) time k = Some (oc, k')"
    "section_waits m (Senders (OMsgQueue m)) (- RT_EFULL) time k oc k'"
proof (cases "time = 0")
  case True
  have e: "set_error c RT_EOK (set_error c RT_EOK k) = set_error c RT_EOK k"
    by (simp add: set_error_def upd_thread_def)
  have "mq_send_loop m (Some c) time k = Some (Mq_done (Returned (- RT_EFULL)), set_error c RT_EOK k)"
    using True f by (simp add: mq_send_loop_def)
  moreover have "section_waits m (Senders (OMsgQueue m)) (- RT_EFULL) time k (Mq_done (Returned (- RT_EFULL))) (set_error c RT_EOK k)"
    using True e by (metis section_waits_def)
  ultimately show ?thesis using that by blast
next
  case False
  note d' = in_callD [OF in_call_set_error [OF c]]
  obtain k1 k2 where k2: "ipc_wait (Senders (OMsgQueue m)) c (obj_flag (msgqueues k m)) time (set_error c RT_EOK k) = Some k1"
    "rt_schedule k1 = Some k2"
    "waits_on (Senders (OMsgQueue m)) (obj_flag (msgqueues k m)) c time (set_error c RT_EOK k) k2"
    by (rule call_wait_ok [OF c to waiting_queue_simps(2)]) blast
  have "mq_send_loop m (Some c) time k = Some (Mq_done (Blocked (if sint time > 0 then rt_tick k else 0)), k2)"
    using False f k2(1,2) d'(5) by (simp add: mq_send_loop_def)
  moreover have "section_waits m (Senders (OMsgQueue m)) (- RT_EFULL) time k
    (Mq_done (Blocked (if sint time > 0 then rt_tick k else 0))) k2"
    using False c k2(3) by (auto simp: section_waits_def)
  ultimately show ?thesis using that by blast
qed

lemma mq_send_reserve_ok:
  assumes mc: "may_call k time" and i: "is_mq k m" and sz: "size_arg \<noteq> 0" "size_arg \<le> ucast (msg_size (msgqueues k m))"
  obtains oc k' where "mq_send_reserve m size_arg time k = Some (oc, k')"
    "case mq_take_free (msgqueues k m) of
       Some (b, mq) \<Rightarrow> oc = Mq_holds b \<and> k' = upd_mq m (\<lambda>_. mq) k
     | None \<Rightarrow> section_waits m (Senders (OMsgQueue m)) (- RT_EFULL) time k oc k'"
proof (cases "mq_take_free (msgqueues k m)")
  case (Some p)
  obtain b mq where p: "p = (b, mq)" by (cases p)
  then have "msg_queue_free (msgqueues k m) \<noteq> None" using Some by (auto simp: mq_take_free_def split: option.splits)
  then have "mq_send_reserve m size_arg time k = Some (Mq_holds b, upd_mq m (\<lambda>_. mq) k)"
    using i sz Some p by (auto simp: mq_send_reserve_def is_mq_def mq_send_loop_def simp del: obj_is_simps)
  then show ?thesis using that Some p by simp
next
  case None
  then have f: "msg_queue_free (msgqueues k m) = None" by (auto simp: mq_take_free_def split: option.splits)
  show ?thesis
  proof (cases "time = 0")
    case True
    then have "mq_send_reserve m size_arg time k = Some (Mq_done (Returned (- RT_EFULL)), k)"
      using i sz f by (auto simp: mq_send_reserve_def is_mq_def simp del: obj_is_simps)
    then show ?thesis using that [of "Mq_done (Returned (- RT_EFULL))" k] None True by (simp add: section_waits_def)
  next
    case False
    then obtain c where c: "in_call k c" using mc by (auto simp: may_call_def)
    have to: "timeout_ok time" using mc by (simp add: may_call_def)
    obtain oc k' where k': "mq_send_loop m (Some c) time k = Some (oc, k')"
      "section_waits m (Senders (OMsgQueue m)) (- RT_EFULL) time k oc k'"
      by (rule mq_send_loop_full [OF c to None])
    then have "mq_send_reserve m size_arg time k = Some (oc, k')"
      using i sz False in_callD(6) [OF c] by (auto simp: mq_send_reserve_def is_mq_def simp del: obj_is_simps)
    then show ?thesis using that k'(2) None by simp
  qed
qed

text \<open>Taking the first message.\<close>

lemma mq_recv_loop_empty:
  assumes c: "in_call k c" and to: "timeout_ok time" and f: "mq_entry (msgqueues k m) = 0"
  obtains oc k' where "mq_recv_loop m (Some c) time k = Some (oc, k')"
    "section_waits m (Suspended (OMsgQueue m)) (- RT_ETIMEOUT) time k oc k'"
proof (cases "time = 0")
  case True
  have "mq_recv_loop m (Some c) time k =
      Some (Mq_done (Returned (- RT_ETIMEOUT)), set_error c (- RT_ETIMEOUT) (set_error c RT_EOK k))"
    using True f in_callD(5) [OF c] by (simp add: mq_recv_loop_def)
  moreover have "section_waits m (Suspended (OMsgQueue m)) (- RT_ETIMEOUT) time k (Mq_done (Returned (- RT_ETIMEOUT)))
      (set_error c (- RT_ETIMEOUT) (set_error c RT_EOK k))"
    using True by (auto simp: section_waits_def)
  ultimately show ?thesis using that by blast
next
  case False
  note d = in_callD [OF c]
  obtain k1 k2 where k2: "ipc_wait (Suspended (OMsgQueue m)) c (obj_flag (msgqueues k m)) time (set_error c RT_EOK k) = Some k1"
    "rt_schedule k1 = Some k2"
    "waits_on (Suspended (OMsgQueue m)) (obj_flag (msgqueues k m)) c time (set_error c RT_EOK k) k2"
    by (rule call_wait_ok [OF c to waiting_queue_simps(1)]) blast
  have "mq_recv_loop m (Some c) time k = Some (Mq_done (Blocked (if sint time > 0 then rt_tick k else 0)), k2)"
    using False f k2(1,2) d(5) by (simp add: mq_recv_loop_def)
  moreover have "section_waits m (Suspended (OMsgQueue m)) (- RT_ETIMEOUT) time k
    (Mq_done (Blocked (if sint time > 0 then rt_tick k else 0))) k2"
    using False c k2(3) by (auto simp: section_waits_def)
  ultimately show ?thesis using that by blast
qed

lemma mq_recv_take_ok:
  assumes mc: "may_call k time" and i: "is_mq k m" and sz: "size_arg \<noteq> 0"
    and r: "mq_rep (msgqueues k m) qs fs H"
  obtains oc k' where "mq_recv_take m size_arg time k = Some (oc, k')"
    "case qs of
       b # bs \<Rightarrow> oc = Mq_holds b \<and> (\<exists>mq. mq_take_head (msgqueues k m) = Some (b, mq) \<and> k' = upd_mq m (\<lambda>_. mq) k)
     | [] \<Rightarrow> section_waits m (Suspended (OMsgQueue m)) (- RT_ETIMEOUT) time k oc k'"
proof (cases qs)
  case (Cons b bs)
  obtain mq where mq: "mq_take_head (msgqueues k m) = Some (b, mq)"
    by (rule take_head_ok [OF r [unfolded Cons]]) blast
  have "mq_entry (msgqueues k m) \<noteq> 0" using r Cons by (auto simp: mq_rep_def)
  then have "mq_recv_take m size_arg time k = Some (Mq_holds b, upd_mq m (\<lambda>_. mq) k)"
    using i sz mq by (auto simp: mq_recv_take_def is_mq_def mq_recv_loop_def simp del: obj_is_simps)
  then show ?thesis using that mq Cons by simp
next
  case Nil
  then have f: "mq_entry (msgqueues k m) = 0" using r by (simp add: mq_rep_def unat_eq_0)
  show ?thesis
  proof (cases "time = 0")
    case True
    then have "mq_recv_take m size_arg time k = Some (Mq_done (Returned (- RT_ETIMEOUT)), k)"
      using i sz f by (auto simp: mq_recv_take_def is_mq_def simp del: obj_is_simps)
    then show ?thesis using that [of "Mq_done (Returned (- RT_ETIMEOUT))" k] Nil True by (simp add: section_waits_def)
  next
    case False
    then obtain c where c: "in_call k c" using mc by (auto simp: may_call_def)
    have to: "timeout_ok time" using mc by (simp add: may_call_def)
    obtain oc k' where k': "mq_recv_loop m (Some c) time k = Some (oc, k')"
      "section_waits m (Suspended (OMsgQueue m)) (- RT_ETIMEOUT) time k oc k'"
      by (rule mq_recv_loop_empty [OF c to f])
    then have "mq_recv_take m size_arg time k = Some (oc, k')"
      using i sz False f in_callD(6) [OF c] by (auto simp: mq_recv_take_def is_mq_def simp del: obj_is_simps)
    then show ?thesis using that k'(2) Nil by simp
  qed
qed

text \<open>The last sections: linking the block and waking the other side.\<close>

lemma mq_link_ok:
  assumes "kinv k" "rt_current_thread k \<noteq> None"
  shows "\<exists>k'. mq_send_link m b k = Some k' \<and> woken_first (Suspended (OMsgQueue m)) (upd_mq m (mq_append b) k) k'"
    "\<exists>k'. mq_urgent_link m b k = Some k' \<and> woken_first (Suspended (OMsgQueue m)) (upd_mq m (mq_prepend b) k) k'"
    "\<exists>k'. mq_recv_free m b k = Some k' \<and> woken_first (Senders (OMsgQueue m)) (upd_mq m (mq_give_back b) k) k'"
proof -
  have w: "\<exists>k'. (if \<not> tlist_isempty q (upd_mq m f k) then do { k1 \<leftarrow> rt_ipc_list_resume q (upd_mq m f k); rt_schedule k1 }
      else Some (upd_mq m f k)) = Some k' \<and> woken_first q (upd_mq m f k) k'" if "waiting_queue q" for q f
    by (rule wake_first_ok [OF kinv_objects(5) [OF assms(1)] that, of m f]) (use assms(2) in auto)
  show "\<exists>k'. mq_send_link m b k = Some k' \<and> woken_first (Suspended (OMsgQueue m)) (upd_mq m (mq_append b) k) k'"
    using w [of "Suspended (OMsgQueue m)" "mq_append b"] by (simp add: mq_send_link_def mq_wake_receiver_def)
  show "\<exists>k'. mq_urgent_link m b k = Some k' \<and> woken_first (Suspended (OMsgQueue m)) (upd_mq m (mq_prepend b) k) k'"
    using w [of "Suspended (OMsgQueue m)" "mq_prepend b"] by (simp add: mq_urgent_link_def mq_wake_receiver_def)
  show "\<exists>k'. mq_recv_free m b k = Some k' \<and> woken_first (Senders (OMsgQueue m)) (upd_mq m (mq_give_back b) k) k'"
    using w [of "Senders (OMsgQueue m)" "mq_give_back b"] by (simp add: mq_recv_free_def Let_def)
qed

lemma woken_first_mq: "woken_first q (upd_mq m f k) k' \<Longrightarrow> msgqueues k' m = f (msgqueues k m) \<and> kinv k' \<and> rt_current_thread k' \<noteq> None"
  using kframe_mq [of m f k k'] by (simp add: woken_first_def)


subsection \<open>Whole calls\<close>

abbreviation messages :: "kernel \<Rightarrow> nat \<Rightarrow> u8 list list" where
  "messages k m \<equiv> mq_contents (msgqueues k m)"

abbreviation mq_has_room :: "kernel \<Rightarrow> nat \<Rightarrow> bool" where
  "mq_has_room k m \<equiv> length (messages k m) < unat (max_msgs (msgqueues k m))"

lemma mq_room:
  assumes "mq_wf (msgqueues k m)"
  obtains qs fs where "mq_rep (msgqueues k m) qs fs {}" "mq_has_room k m \<longleftrightarrow> fs \<noteq> []"
    "\<And>b fs'. fs = b # fs' \<Longrightarrow> \<exists>mq1. mq_take_free (msgqueues k m) = Some (b, mq1) \<and> mq_rep mq1 qs fs' {b} \<and>
        mq_pool mq1 = mq_pool (msgqueues k m) \<and> msg_size mq1 = msg_size (msgqueues k m)"
    "fs = [] \<Longrightarrow> mq_take_free (msgqueues k m) = None"
proof -
  obtain qs fs where r: "mq_rep (msgqueues k m) qs fs {}" using assms by (auto simp: mq_wf_def)
  show ?thesis
  proof (rule that [OF r])
    show "mq_has_room k m \<longleftrightarrow> fs \<noteq> []" using mq_rep_count [OF r] mq_contents_rep [OF r] by (cases fs) auto
    show "\<exists>mq1. mq_take_free (msgqueues k m) = Some (b, mq1) \<and> mq_rep mq1 qs fs' {b} \<and>
        mq_pool mq1 = mq_pool (msgqueues k m) \<and> msg_size mq1 = msg_size (msgqueues k m)" if "fs = b # fs'" for b fs'
      by (rule take_free_ok [OF r [unfolded that]]) blast
    show "mq_take_free (msgqueues k m) = None" if "fs = []" using r that take_free_none by blast
  qed
qed

text \<open>The blocks of the queue are untouched by a copy into a held block.\<close>

lemma map_data_other:
  "(\<And>c. c \<noteq> b \<Longrightarrow> mq_pool mq' c = mq_pool mq c) \<Longrightarrow> b \<notin> set qs \<Longrightarrow> map (block_data mq') qs = map (block_data mq) qs"
  by (rule map_cong [OF refl]) metis

lemma mq_sent_contents:
  assumes r: "mq_rep mq qs fs {}" and r1: "mq_rep mq1 qs fs' {b}" and p: "mq_pool mq1 = mq_pool mq"
    and sz: "n \<le> length buffer" "n \<le> unat (msg_size mq1)"
  obtains mq2 pad where "mq_copy_in b buffer n (mq_set_next b None mq1) = Some mq2" "mq_wf (mq_append b mq2)"
    "mq_contents (mq_append b mq2) = mq_contents mq @ [take n buffer @ pad]"
proof -
  have s: "mq_rep (mq_set_next b None mq1) qs fs' {b}" by (rule set_next_held [OF r1]) simp
  obtain mq2 where 2: "mq_copy_in b buffer n (mq_set_next b None mq1) = Some mq2" "mq_rep mq2 qs fs' {b}"
    "block_data mq2 b = take n buffer @ drop n (block_data (mq_set_next b None mq1) b)"
    "msg_next (mq_pool mq2 b) = msg_next (mq_pool (mq_set_next b None mq1) b)"
    and o: "\<And>c. c \<noteq> b \<Longrightarrow> mq_pool mq2 c = mq_pool (mq_set_next b None mq1) c"
    by (rule copy_in_ok [OF s, of b n buffer]) (use sz in auto)
  have n: "msg_next (mq_pool mq2 b) = None" using 2(4) by simp
  note a = append_ok [OF 2(2) _ n, simplified]
  have nb: "b \<notin> set qs" using mq_rep_held [OF r1, of b] by simp
  have "map (block_data mq2) qs = map (block_data mq) qs"
    by (rule map_data_other [OF _ nb]) (use o p in simp)
  then have "mq_contents (mq_append b mq2) = mq_contents mq @ [take n buffer @ drop n (block_data (mq_set_next b None mq1) b)]"
    unfolding mq_contents_rep [OF a(1)] mq_contents_rep [OF r] using 2(3) by (simp add: a(2))
  moreover have "mq_wf (mq_append b mq2)" using a(1) by (auto simp: mq_wf_def)
  ultimately show ?thesis using that 2(1) by blast
qed

lemma mq_urgent_contents:
  assumes r: "mq_rep mq qs fs {}" and r1: "mq_rep mq1 qs fs' {b}" and p: "mq_pool mq1 = mq_pool mq"
    and sz: "n \<le> length buffer" "n \<le> unat (msg_size mq1)"
  obtains mq2 pad where "mq_copy_in b buffer n mq1 = Some mq2" "mq_wf (mq_prepend b mq2)"
    "mq_contents (mq_prepend b mq2) = (take n buffer @ pad) # mq_contents mq"
proof -
  obtain mq2 where 2: "mq_copy_in b buffer n mq1 = Some mq2" "mq_rep mq2 qs fs' {b}"
    "block_data mq2 b = take n buffer @ drop n (block_data mq1 b)"
    and o: "\<And>c. c \<noteq> b \<Longrightarrow> mq_pool mq2 c = mq_pool mq1 c"
    by (rule copy_in_ok [OF r1, of b n buffer]) (use sz in auto)
  note a = prepend_ok [OF 2(2), of b, simplified]
  have nb: "b \<notin> set qs" using mq_rep_held [OF r1, of b] by simp
  have "map (block_data mq2) qs = map (block_data mq) qs"
    by (rule map_data_other [OF _ nb]) (use o p in simp)
  then have "mq_contents (mq_prepend b mq2) = (take n buffer @ drop n (block_data mq1 b)) # mq_contents mq"
    unfolding mq_contents_rep [OF a(1)] mq_contents_rep [OF r] using 2(3) by (simp add: a(2))
  moreover have "mq_wf (mq_prepend b mq2)" using a(1) by (auto simp: mq_wf_def)
  ultimately show ?thesis using that 2(1) by blast
qed

lemma size_le: "size_arg \<le> ucast (n :: u16) \<longleftrightarrow> unat (size_arg :: u32) \<le> unat n"
  by (simp add: word_le_nat_alt unsigned_ucast_eq take_bit_nat_eq_self unsigned_less [THEN less_le_trans])

text \<open>\<open>rt_mq_send_wait\<close> on every branch, when no other call of the queue is under way: a message that is
  too long is refused; with a free block the message goes to the end of the queue and the first
  receiver is woken; without one the call returns \<open>-RT_EFULL\<close> or suspends the thread.\<close>

lemma rt_mq_send_wait_correct:
  assumes "may_call k time" "is_mq k m" "mq_wf (msgqueues k m)" "size_arg \<noteq> 0" "unat size_arg \<le> length buffer"
  shows "\<exists>oc k'. rt_mq_send_wait m buffer size_arg time k = Some (oc, k') \<and>
    (if size_arg > ucast (msg_size (msgqueues k m)) then oc = Returned (- RT_ERROR) \<and> k' = k
     else if mq_has_room k m then oc = Returned RT_EOK \<and> kinv k' \<and> mq_wf (msgqueues k' m) \<and>
       (\<exists>pad. messages k' m = messages k m @ [take (unat size_arg) buffer @ pad]) \<and>
       (\<exists>f. woken_first (Suspended (OMsgQueue m)) (upd_mq m f k) k')
     else section_waits m (Senders (OMsgQueue m)) (- RT_EFULL) time k (Mq_done oc) k')"
proof (cases "size_arg > ucast (msg_size (msgqueues k m))")
  case True
  then have "rt_mq_send_wait m buffer size_arg time k = Some (Returned (- RT_ERROR), k)"
    using assms(2,4) by (simp add: rt_mq_send_wait_def mq_send_reserve_def is_mq_def del: obj_is_simps)
  then show ?thesis using True by simp
next
  case False
  then have sz: "size_arg \<le> ucast (msg_size (msgqueues k m))" by simp
  have inv: "kinv k" "rt_current_thread k \<noteq> None" using assms(1) by (simp_all add: may_call_def)
  obtain qs fs where r: "mq_rep (msgqueues k m) qs fs {}" "mq_has_room k m \<longleftrightarrow> fs \<noteq> []"
    and tf: "\<And>b fs'. fs = b # fs' \<Longrightarrow> \<exists>mq1. mq_take_free (msgqueues k m) = Some (b, mq1) \<and> mq_rep mq1 qs fs' {b} \<and>
        mq_pool mq1 = mq_pool (msgqueues k m) \<and> msg_size mq1 = msg_size (msgqueues k m)"
    and nf: "fs = [] \<Longrightarrow> mq_take_free (msgqueues k m) = None"
    by (rule mq_room [OF assms(3)]) blast
  obtain oc k1 where k1: "mq_send_reserve m size_arg time k = Some (oc, k1)"
    and sec: "case mq_take_free (msgqueues k m) of
       Some (b, mq) \<Rightarrow> oc = Mq_holds b \<and> k1 = upd_mq m (\<lambda>_. mq) k
     | None \<Rightarrow> section_waits m (Senders (OMsgQueue m)) (- RT_EFULL) time k oc k1"
    by (rule mq_send_reserve_ok [OF assms(1,2,4) sz])
  show ?thesis
  proof (cases fs)
    case Nil
    have w: "section_waits m (Senders (OMsgQueue m)) (- RT_EFULL) time k oc k1" using sec nf [OF Nil] by simp
    then obtain oc' where "oc = Mq_done oc'" using section_waits_frame(3) [OF w inv(1)] by blast
    then have "rt_mq_send_wait m buffer size_arg time k = Some (oc', k1)" using k1 by (simp add: rt_mq_send_wait_def)
    then show ?thesis using False w r(2) Nil \<open>oc = Mq_done oc'\<close> by auto
  next
    case (Cons b fs')
    obtain mq1 where m1: "mq_take_free (msgqueues k m) = Some (b, mq1)" "mq_rep mq1 qs fs' {b}"
      "mq_pool mq1 = mq_pool (msgqueues k m)" "msg_size mq1 = msg_size (msgqueues k m)"
      using tf [OF Cons] by blast
    have e1: "oc = Mq_holds b" "k1 = upd_mq m (\<lambda>_. mq1) k" using sec m1(1) by simp_all
    obtain mq2 pad where 2: "mq_copy_in b buffer (unat size_arg) (mq_set_next b None mq1) = Some mq2"
      "mq_wf (mq_append b mq2)"
      "mq_contents (mq_append b mq2) = messages k m @ [take (unat size_arg) buffer @ pad]"
      by (rule mq_sent_contents [OF r(1) m1(2,3) assms(5)]) (use sz in \<open>simp_all add: size_le m1(4)\<close>)
    let ?k2 = "upd_mq m (\<lambda>_. mq2) k1"
    have c: "mq_send_copy m b buffer size_arg k1 = Some ?k2" using 2(1) by (simp add: mq_send_copy_def e1)
    have i2: "kinv ?k2" "rt_current_thread ?k2 \<noteq> None" using kinv_objects(5) inv by (simp_all add: e1)
    obtain k3 where k3: "mq_send_link m b ?k2 = Some k3"
      "woken_first (Suspended (OMsgQueue m)) (upd_mq m (mq_append b) ?k2) k3"
      using mq_link_ok(1) [OF i2] by blast
    have "upd_mq m (mq_append b) ?k2 = upd_mq m (\<lambda>_. mq_append b mq2) k" by (simp add: e1 upd_mq_def)
    moreover have "rt_mq_send_wait m buffer size_arg time k = Some (Returned RT_EOK, k3)"
      using k1 c k3(1) by (simp add: rt_mq_send_wait_def e1)
    ultimately show ?thesis using False r(2) Cons k3(2) 2(2,3) woken_first_mq by fastforce
  qed
qed


lemma sample_mq: "is_mq sample m" "mq_wf (msgqueues sample m)" "messages sample m = []"
  "msg_size (msgqueues sample m) = 4" "max_msgs (msgqueues sample m) = 2"
proof -
  let ?mq = "zero_mq\<lparr>obj_type := 0x86, msg_size := 4, max_msgs := 2\<rparr>"
  have r: "mq_rep (msgqueues sample m) [] (rev [0..<2]) {}"
    using mq_setup_rep [of ?mq "\<lambda>_. [0, 0, 0, 0]"] by simp
  then show "mq_wf (msgqueues sample m)" unfolding mq_wf_def by blast
  show "messages sample m = []" using mq_contents_rep [OF r] by simp
  show "is_mq sample m" "msg_size (msgqueues sample m) = 4" "max_msgs (msgqueues sample m) = 2"
    by (simp_all add: is_mq_def mq_setup_lists_def case_prod_beta)
qed

lemma rt_mq_send_wait_correct_witness:
  "\<exists>k' pad. rt_mq_send_wait 0 [1, 2, 3] 3 10 sample = Some (Returned RT_EOK, k') \<and> mq_wf (msgqueues k' 0) \<and>
     messages k' 0 = [[1, 2, 3] @ pad]"
proof -
  have to: "timeout_ok 10" by (simp add: timeout_ok_def)
  have ne: "(3 :: u32) \<noteq> 0" and l: "unat (3 :: u32) \<le> length [1, 2, 3 :: u8]" by simp_all
  obtain oc k' where "rt_mq_send_wait 0 [1, 2, 3] 3 10 sample = Some (oc, k')"
    "if 3 > (ucast (msg_size (msgqueues sample 0)) :: u32) then oc = Returned (- RT_ERROR) \<and> k' = sample
     else if mq_has_room sample 0 then oc = Returned RT_EOK \<and> kinv k' \<and> mq_wf (msgqueues k' 0) \<and>
       (\<exists>pad. messages k' 0 = messages sample 0 @ [take (unat (3 :: u32)) [1, 2, 3] @ pad]) \<and>
       (\<exists>f. woken_first (Suspended (OMsgQueue 0)) (upd_mq 0 f sample) k')
     else section_waits 0 (Senders (OMsgQueue 0)) (- RT_EFULL) 10 sample (Mq_done oc) k'"
    using rt_mq_send_wait_correct [OF sample_may_call [OF to] sample_mq(1,2) ne l, of 0] by blast
  then show ?thesis using sample_mq(3-5) [of 0] by (auto simp del: sample_fields)
qed

text \<open>\<open>rt_mq_urgent\<close> on every branch, when no other call of the queue is under way: a message that is too
  long is refused; with a free block the message goes to the front of the queue; without one the
  call returns \<open>-RT_EFULL\<close> at once.\<close>

lemma rt_mq_urgent_correct:
  assumes "kinv k" "rt_current_thread k \<noteq> None" "is_mq k m" "mq_wf (msgqueues k m)" "size_arg \<noteq> 0"
    "unat size_arg \<le> length buffer"
  shows "\<exists>oc k'. rt_mq_urgent m buffer size_arg k = Some (oc, k') \<and>
    (if size_arg > ucast (msg_size (msgqueues k m)) then oc = Returned (- RT_ERROR) \<and> k' = k
     else if mq_has_room k m then oc = Returned RT_EOK \<and> kinv k' \<and> mq_wf (msgqueues k' m) \<and>
       (\<exists>pad. messages k' m = (take (unat size_arg) buffer @ pad) # messages k m) \<and>
       (\<exists>f. woken_first (Suspended (OMsgQueue m)) (upd_mq m f k) k')
     else oc = Returned (- RT_EFULL) \<and> k' = k)"
proof (cases "size_arg > ucast (msg_size (msgqueues k m))")
  case True
  then have "rt_mq_urgent m buffer size_arg k = Some (Returned (- RT_ERROR), k)"
    using assms(3,5) by (simp add: rt_mq_urgent_def mq_urgent_reserve_def is_mq_def del: obj_is_simps)
  then show ?thesis using True by simp
next
  case False
  then have sz: "size_arg \<le> ucast (msg_size (msgqueues k m))" by simp
  obtain qs fs where r: "mq_rep (msgqueues k m) qs fs {}" "mq_has_room k m \<longleftrightarrow> fs \<noteq> []"
    and tf: "\<And>b fs'. fs = b # fs' \<Longrightarrow> \<exists>mq1. mq_take_free (msgqueues k m) = Some (b, mq1) \<and> mq_rep mq1 qs fs' {b} \<and>
        mq_pool mq1 = mq_pool (msgqueues k m) \<and> msg_size mq1 = msg_size (msgqueues k m)"
    and nf: "fs = [] \<Longrightarrow> mq_take_free (msgqueues k m) = None"
    by (rule mq_room [OF assms(4)]) blast
  show ?thesis
  proof (cases fs)
    case Nil
    then have "rt_mq_urgent m buffer size_arg k = Some (Returned (- RT_EFULL), k)"
      using nf False assms(3,5) by (auto simp: rt_mq_urgent_def mq_urgent_reserve_def is_mq_def simp del: obj_is_simps)
    then show ?thesis using False r(2) Nil by auto
  next
    case (Cons b fs')
    obtain mq1 where m1: "mq_take_free (msgqueues k m) = Some (b, mq1)" "mq_rep mq1 qs fs' {b}"
      "mq_pool mq1 = mq_pool (msgqueues k m)" "msg_size mq1 = msg_size (msgqueues k m)"
      using tf [OF Cons] by blast
    let ?k1 = "upd_mq m (\<lambda>_. mq1) k"
    have e1: "mq_urgent_reserve m size_arg k = Some (Mq_holds b, ?k1)"
      using m1(1) False assms(3,5) by (auto simp: mq_urgent_reserve_def is_mq_def simp del: obj_is_simps)
    obtain mq2 pad where 2: "mq_copy_in b buffer (unat size_arg) mq1 = Some mq2" "mq_wf (mq_prepend b mq2)"
      "mq_contents (mq_prepend b mq2) = (take (unat size_arg) buffer @ pad) # messages k m"
      by (rule mq_urgent_contents [OF r(1) m1(2,3) assms(6)]) (use sz in \<open>simp_all add: size_le m1(4)\<close>)
    let ?k2 = "upd_mq m (\<lambda>_. mq2) ?k1"
    have c: "mq_urgent_copy m b buffer size_arg ?k1 = Some ?k2" using 2(1) by (simp add: mq_urgent_copy_def)
    have i2: "kinv ?k2" "rt_current_thread ?k2 \<noteq> None" using kinv_objects(5) assms(1,2) by simp_all
    obtain k3 where k3: "mq_urgent_link m b ?k2 = Some k3"
      "woken_first (Suspended (OMsgQueue m)) (upd_mq m (mq_prepend b) ?k2) k3"
      using mq_link_ok(2) [OF i2] by blast
    have "upd_mq m (mq_prepend b) ?k2 = upd_mq m (\<lambda>_. mq_prepend b mq2) k" by (simp add: upd_mq_def)
    moreover have "rt_mq_urgent m buffer size_arg k = Some (Returned RT_EOK, k3)"
      using e1 c k3(1) by (simp add: rt_mq_urgent_def)
    ultimately show ?thesis using False r(2) Cons k3(2) 2(2,3) woken_first_mq by fastforce
  qed
qed

lemma rt_mq_urgent_correct_witness:
  "\<exists>k' pad. rt_mq_urgent 0 [9, 8] 2 sample = Some (Returned RT_EOK, k') \<and> mq_wf (msgqueues k' 0) \<and>
     messages k' 0 = [[9, 8] @ pad]"
proof -
  have c: "rt_current_thread sample \<noteq> None" and ne: "(2 :: u32) \<noteq> 0" and l: "unat (2 :: u32) \<le> length [9, 8 :: u8]" by simp_all
  obtain oc k' where "rt_mq_urgent 0 [9, 8] 2 sample = Some (oc, k')"
    "if 2 > (ucast (msg_size (msgqueues sample 0)) :: u32) then oc = Returned (- RT_ERROR) \<and> k' = sample
     else if mq_has_room sample 0 then oc = Returned RT_EOK \<and> kinv k' \<and> mq_wf (msgqueues k' 0) \<and>
       (\<exists>pad. messages k' 0 = (take (unat (2 :: u32)) [9, 8] @ pad) # messages sample 0) \<and>
       (\<exists>f. woken_first (Suspended (OMsgQueue 0)) (upd_mq 0 f sample) k')
     else oc = Returned (- RT_EFULL) \<and> k' = sample"
    using rt_mq_urgent_correct [OF sample_kinv c sample_mq(1,2) ne l, of 0] by blast
  then show ?thesis using sample_mq(3-5) [of 0] by (auto simp del: sample_fields)
qed

text \<open>\<open>rt_mq_recv\<close> on every branch, when no other call of the queue is under way: it returns the first
  \<open>size\<close> bytes of the oldest message, gives its block back and wakes the first waiting sender; from
  an empty queue it returns \<open>-RT_ETIMEOUT\<close> or suspends the thread.\<close>

lemma rt_mq_recv_correct:
  assumes "may_call k time" "is_mq k m" "mq_wf (msgqueues k m)" "size_arg \<noteq> 0"
  shows "\<exists>oc r k'. rt_mq_recv m size_arg time k = Some (oc, r, k') \<and>
    (case messages k m of
       msg # ms \<Rightarrow> oc = Returned RT_EOK \<and> r = Some (take (unat size_arg) msg) \<and> kinv k' \<and> mq_wf (msgqueues k' m) \<and>
         messages k' m = ms \<and> (\<exists>f. woken_first (Senders (OMsgQueue m)) (upd_mq m f k) k')
     | [] \<Rightarrow> r = None \<and> section_waits m (Suspended (OMsgQueue m)) (- RT_ETIMEOUT) time k (Mq_done oc) k')"
proof -
  have inv: "kinv k" "rt_current_thread k \<noteq> None" using assms(1) by (simp_all add: may_call_def)
  obtain qs fs where r: "mq_rep (msgqueues k m) qs fs {}" using assms(3) by (auto simp: mq_wf_def)
  obtain oc k1 where k1: "mq_recv_take m size_arg time k = Some (oc, k1)"
    and sec: "case qs of
       b # bs \<Rightarrow> oc = Mq_holds b \<and> (\<exists>mq. mq_take_head (msgqueues k m) = Some (b, mq) \<and> k1 = upd_mq m (\<lambda>_. mq) k)
     | [] \<Rightarrow> section_waits m (Suspended (OMsgQueue m)) (- RT_ETIMEOUT) time k oc k1"
    by (rule mq_recv_take_ok [OF assms(1,2,4) r])
  show ?thesis
  proof (cases qs)
    case Nil
    have w: "section_waits m (Suspended (OMsgQueue m)) (- RT_ETIMEOUT) time k oc k1" using sec Nil by simp
    then obtain oc' where "oc = Mq_done oc'" using section_waits_frame(3) [OF w inv(1)] by blast
    then have "rt_mq_recv m size_arg time k = Some (oc', None, k1)" using k1 by (simp add: rt_mq_recv_def)
    then show ?thesis using w Nil mq_contents_rep [OF r] \<open>oc = Mq_done oc'\<close> by auto
  next
    case (Cons b bs)
    obtain mq1 where m1: "mq_take_head (msgqueues k m) = Some (b, mq1)" "mq_rep mq1 bs fs {b}"
      "mq_pool mq1 = mq_pool (msgqueues k m)"
      by (rule take_head_ok [OF r [unfolded Cons]]) blast
    have e1: "oc = Mq_holds b" "k1 = upd_mq m (\<lambda>_. mq1) k" using sec m1(1) Cons by simp_all
    have ms: "messages k m = block_data (msgqueues k m) b # map (block_data (msgqueues k m)) bs"
      using mq_contents_rep [OF r] Cons by simp
    have c: "mq_recv_copy m b size_arg k1 = Some (take (unat size_arg) (block_data (msgqueues k m) b))"
      using copy_out_ok [OF m1(2), of b] by (simp add: mq_recv_copy_def e1 m1(3))
    have i1: "kinv k1" "rt_current_thread k1 \<noteq> None" using kinv_objects(5) inv by (simp_all add: e1)
    obtain k2 where k2: "mq_recv_free m b k1 = Some k2"
      "woken_first (Senders (OMsgQueue m)) (upd_mq m (mq_give_back b) k1) k2"
      using mq_link_ok(3) [OF i1] by blast
    note g = give_back_ok [OF m1(2), of b, simplified]
    have w: "mq_wf (mq_give_back b mq1)" "mq_contents (mq_give_back b mq1) = map (block_data (msgqueues k m)) bs"
      using g(1) unfolding mq_contents_rep [OF g(1)] by (auto simp: mq_wf_def g(2) m1(3))
    have u: "upd_mq m (mq_give_back b) k1 = upd_mq m (\<lambda>_. mq_give_back b mq1) k" by (simp add: e1 upd_mq_def)
    have ex: "rt_mq_recv m size_arg time k = Some (Returned RT_EOK, Some (take (unat size_arg) (block_data (msgqueues k m) b)), k2)"
      using k1 c k2(1) by (simp add: rt_mq_recv_def e1)
    note k2' = k2(2) [unfolded u]
    show ?thesis
    proof (intro exI conjI)
      show "rt_mq_recv m size_arg time k = Some (Returned RT_EOK, Some (take (unat size_arg) (block_data (msgqueues k m) b)), k2)"
        by (rule ex)
    qed (use w woken_first_mq [OF k2'] k2' in \<open>auto simp: ms\<close>)
  qed
qed

lemma rt_mq_recv_correct_witness:
  "\<exists>k'. rt_mq_recv 0 4 0 sample = Some (Returned (- RT_ETIMEOUT), None, k')"
proof -
  have to: "timeout_ok 0" by (simp add: timeout_ok_def)
  have ne: "(4 :: u32) \<noteq> 0" by simp
  show ?thesis
    using rt_mq_recv_correct [OF sample_may_call [OF to] sample_mq(1,2) ne, of 0] sample_mq(3) [of 0]
    by (auto simp: section_waits_def simp del: sample_fields)
qed


subsection \<open>Calls under way at the same time\<close>

text \<open>
  The sections of any number of sends, urgent sends and receives interleave.  \<open>h\<close> says what the
  call that holds a block has done so far, and the trace \<open>tr\<close> records the instants at which a
  message enters or leaves the queue, the latest first.
\<close>

datatype mq_call = Send_reserved | Send_copied "u8 list" | Urgent_reserved | Urgent_copied "u8 list" | Recv_taken "u8 list"

datatype mq_event = Sent "u8 list" | Urgent "u8 list" | Received "u8 list"

fun replay :: "mq_event list \<Rightarrow> u8 list list \<Rightarrow> u8 list list option" where
  "replay [] xs = Some xs"
| "replay (Sent d # tr) xs = map_option (\<lambda>ys. ys @ [d]) (replay tr xs)"
| "replay (Urgent d # tr) xs = map_option ((#) d) (replay tr xs)"
| "replay (Received d # tr) xs =
     (case replay tr xs of Some (y # ys) \<Rightarrow> if y = d then Some ys else None | _ \<Rightarrow> None)"

abbreviation reserved :: "mq_outcome \<Rightarrow> mq_call \<Rightarrow> (nat \<Rightarrow> mq_call option) \<Rightarrow> (nat \<Rightarrow> mq_call option)" where
  "reserved oc c h \<equiv> (case oc of Mq_holds b \<Rightarrow> h(b \<mapsto> c) | Mq_done _ \<Rightarrow> h)"

inductive mq_run :: "nat \<Rightarrow> kernel \<Rightarrow> kernel \<Rightarrow> (nat \<Rightarrow> mq_call option) \<Rightarrow> mq_event list \<Rightarrow> bool" for m k0 where
  start: "mq_run m k0 k0 Map.empty []"
| send_reserve: "mq_run m k0 k h tr \<Longrightarrow> may_call k time \<Longrightarrow> mq_send_reserve m size_arg time k = Some (oc, k') \<Longrightarrow>
    mq_run m k0 k' (reserved oc Send_reserved h) tr"
| send_again: "mq_run m k0 k h tr \<Longrightarrow> in_call k c \<Longrightarrow> timeout_ok (time_left time from (rt_tick k)) \<Longrightarrow>
    mq_send_resume m c time from k = Some (oc, k') \<Longrightarrow> mq_run m k0 k' (reserved oc Send_reserved h) tr"
| send_copy: "mq_run m k0 k h tr \<Longrightarrow> h b = Some Send_reserved \<Longrightarrow> mq_send_copy m b buffer size_arg k = Some k' \<Longrightarrow>
    mq_run m k0 k' (h(b \<mapsto> Send_copied (block_data (msgqueues k' m) b))) tr"
| send_link: "mq_run m k0 k h tr \<Longrightarrow> h b = Some (Send_copied d) \<Longrightarrow> rt_current_thread k \<noteq> None \<Longrightarrow>
    mq_send_link m b k = Some k' \<Longrightarrow> mq_run m k0 k' (h(b := None)) (Sent d # tr)"
| urgent_reserve: "mq_run m k0 k h tr \<Longrightarrow> mq_urgent_reserve m size_arg k = Some (oc, k') \<Longrightarrow>
    mq_run m k0 k' (reserved oc Urgent_reserved h) tr"
| urgent_copy: "mq_run m k0 k h tr \<Longrightarrow> h b = Some Urgent_reserved \<Longrightarrow> mq_urgent_copy m b buffer size_arg k = Some k' \<Longrightarrow>
    mq_run m k0 k' (h(b \<mapsto> Urgent_copied (block_data (msgqueues k' m) b))) tr"
| urgent_link: "mq_run m k0 k h tr \<Longrightarrow> h b = Some (Urgent_copied d) \<Longrightarrow> rt_current_thread k \<noteq> None \<Longrightarrow>
    mq_urgent_link m b k = Some k' \<Longrightarrow> mq_run m k0 k' (h(b := None)) (Urgent d # tr)"
| recv_take: "mq_run m k0 k h tr \<Longrightarrow> may_call k time \<Longrightarrow> mq_recv_take m size_arg time k = Some (oc, k') \<Longrightarrow>
    mq_run m k0 k' (case oc of Mq_holds b \<Rightarrow> h(b \<mapsto> Recv_taken (block_data (msgqueues k m) b)) | Mq_done _ \<Rightarrow> h)
      (case oc of Mq_holds b \<Rightarrow> Received (block_data (msgqueues k m) b) # tr | Mq_done _ \<Rightarrow> tr)"
| recv_again: "mq_run m k0 k h tr \<Longrightarrow> in_call k c \<Longrightarrow> timeout_ok (time_left time from (rt_tick k)) \<Longrightarrow>
    mq_recv_resume m c time from k = Some (oc, k') \<Longrightarrow>
    mq_run m k0 k' (case oc of Mq_holds b \<Rightarrow> h(b \<mapsto> Recv_taken (block_data (msgqueues k m) b)) | Mq_done _ \<Rightarrow> h)
      (case oc of Mq_holds b \<Rightarrow> Received (block_data (msgqueues k m) b) # tr | Mq_done _ \<Rightarrow> tr)"
| recv_free: "mq_run m k0 k h tr \<Longrightarrow> h b = Some (Recv_taken d) \<Longrightarrow> rt_current_thread k \<noteq> None \<Longrightarrow>
    mq_recv_free m b k = Some k' \<Longrightarrow> mq_run m k0 k' (h(b := None)) tr"
| other: "mq_run m k0 k h tr \<Longrightarrow> kinv k' \<Longrightarrow> msgqueues k' m = msgqueues k m \<Longrightarrow> mq_run m k0 k' h tr"

text \<open>What a call knows of the block it holds.\<close>

fun call_knows :: "rt_mq_block \<Rightarrow> mq_call \<Rightarrow> bool" where
  "call_knows bl (Send_copied d) \<longleftrightarrow> msg_data bl = d \<and> msg_next bl = None"
| "call_knows bl (Urgent_copied d) \<longleftrightarrow> msg_data bl = d"
| "call_knows bl (Recv_taken d) \<longleftrightarrow> msg_data bl = d"
| "call_knows bl _ \<longleftrightarrow> True"

definition mq_calls :: "rt_messagequeue \<Rightarrow> (nat \<Rightarrow> mq_call option) \<Rightarrow> bool" where
  "mq_calls mq h \<longleftrightarrow> (\<exists>qs fs. mq_rep mq qs fs (dom h)) \<and> (\<forall>b c. h b = Some c \<longrightarrow> call_knows (mq_pool mq b) c)"

definition mq_inv :: "nat \<Rightarrow> kernel \<Rightarrow> (nat \<Rightarrow> mq_call option) \<Rightarrow> bool" where
  "mq_inv m k h \<longleftrightarrow> kinv k \<and> is_mq k m \<and> mq_calls (msgqueues k m) h"

text \<open>The effect of each section on the record of the queue.\<close>

lemma calls_reserve:
  assumes i: "mq_calls mq h" and t: "mq_take_free mq = Some (b, mq')" and c: "c = Send_reserved \<or> c = Urgent_reserved"
  shows "mq_calls mq' (h(b \<mapsto> c))" "mq_contents mq' = mq_contents mq" "obj_type mq' = obj_type mq"
proof -
  obtain qs fs where r: "mq_rep mq qs fs (dom h)" using i by (auto simp: mq_calls_def)
  then obtain fs' where fs: "fs = b # fs'"
    using t by (cases fs) (auto simp: take_free_none mq_rep_def mq_take_free_def split: option.splits)
  obtain mq1 where 1: "mq_take_free mq = Some (b, mq1)" "mq_rep mq1 qs fs' (insert b (dom h))" "mq_pool mq1 = mq_pool mq"
    "obj_type mq1 = obj_type mq"
    by (rule take_free_ok [OF r [unfolded fs]]) blast
  have e: "mq1 = mq'" using 1(1) t by simp
  show "mq_contents mq' = mq_contents mq" "obj_type mq' = obj_type mq"
    using mq_contents_rep [OF r] mq_contents_rep [OF 1(2)] 1(3,4) e by simp_all
  show "mq_calls mq' (h(b \<mapsto> c))"
    using i 1(2,3) c unfolding e by (auto simp: mq_calls_def)
qed

lemma calls_copy:
  assumes i: "mq_calls mq h" and b: "b \<in> dom h" and x: "mq1 = mq \<or> mq1 = mq_set_next b None mq"
    and c: "mq_copy_in b buffer n mq1 = Some mq'"
    and k: "c = Send_copied (block_data mq' b) \<and> mq1 = mq_set_next b None mq \<or> c = Urgent_copied (block_data mq' b)"
  shows "mq_calls mq' (h(b \<mapsto> c))" "mq_contents mq' = mq_contents mq" "obj_type mq' = obj_type mq"
proof -
  obtain qs fs where r: "mq_rep mq qs fs (dom h)" using i by (auto simp: mq_calls_def)
  have r1: "mq_rep mq1 qs fs (dom h)" using x r set_next_held [OF r b] by auto
  have f: "msg_size mq1 = msg_size mq" "obj_type mq1 = obj_type mq" "\<And>a. a \<noteq> b \<Longrightarrow> mq_pool mq1 a = mq_pool mq a"
    using x by auto
  have l: "n \<le> length buffer" "n \<le> unat (msg_size mq1)"
    using c mq_rep_held [OF r1 b] r1 by (auto simp: mq_copy_in_def mq_rep_def)
  obtain mq2 where 2: "mq_copy_in b buffer n mq1 = Some mq2" "mq_rep mq2 qs fs (dom h)"
    "msg_next (mq_pool mq2 b) = msg_next (mq_pool mq1 b)" "\<And>a. a \<noteq> b \<Longrightarrow> mq_pool mq2 a = mq_pool mq1 a"
    "obj_type mq2 = obj_type mq1"
    by (rule copy_in_ok [OF r1 b l]) blast
  have e: "mq2 = mq'" using 2(1) c by simp
  have o: "\<And>a. a \<noteq> b \<Longrightarrow> mq_pool mq' a = mq_pool mq a" using 2(4) f(3) e by simp
  have nb: "b \<notin> set qs" using mq_rep_held [OF r b] by simp
  show "mq_contents mq' = mq_contents mq"
    using mq_contents_rep [OF r] mq_contents_rep [OF 2(2)] map_data_other [OF o nb] e by simp
  show "obj_type mq' = obj_type mq" using 2(5) f(2) e by simp
  have d: "dom (h(b \<mapsto> c)) = dom h" using b by auto
  have "call_knows (mq_pool mq' a) ca" if "(h(b \<mapsto> c)) a = Some ca" for a ca
  proof (cases "a = b")
    case True
    then show ?thesis using that k 2(3) e by auto
  next
    case False
    then show ?thesis using that i o [OF False] by (simp add: mq_calls_def)
  qed
  then show "mq_calls mq' (h(b \<mapsto> c))" unfolding mq_calls_def d using 2(2) e by blast
qed

lemma dom_del: "dom (h(b := None)) = dom h - {b}"
  by auto

lemma calls_leave:
  assumes i: "mq_calls mq h" and r: "mq_rep mq' qs fs (dom h - {b})"
    and o: "\<And>a. a \<noteq> b \<Longrightarrow> a \<in> dom h \<Longrightarrow> mq_pool mq' a = mq_pool mq a"
  shows "mq_calls mq' (h(b := None))"
proof -
  have "call_knows (mq_pool mq' a) c" if "(h(b := None)) a = Some c" for a c
  proof -
    have a: "a \<noteq> b" "h a = Some c" using that by (auto split: if_splits)
    then have "a \<in> dom h" by blast
    then show ?thesis using o [OF a(1)] i a(2) by (simp add: mq_calls_def)
  qed
  then show ?thesis unfolding mq_calls_def dom_del using r by blast
qed

lemma calls_link:
  assumes i: "mq_calls mq h"
  shows "h b = Some (Send_copied d) \<Longrightarrow> mq_calls (mq_append b mq) (h(b := None)) \<and>
      mq_contents (mq_append b mq) = mq_contents mq @ [d]"
    "h b = Some (Urgent_copied d) \<Longrightarrow> mq_calls (mq_prepend b mq) (h(b := None)) \<and>
      mq_contents (mq_prepend b mq) = d # mq_contents mq"
    "h b = Some (Recv_taken d) \<Longrightarrow> mq_calls (mq_give_back b mq) (h(b := None)) \<and>
      mq_contents (mq_give_back b mq) = mq_contents mq"
proof -
  obtain qs fs where r: "mq_rep mq qs fs (dom h)" using i by (auto simp: mq_calls_def)
  have kn: "call_knows (mq_pool mq b) c" if "h b = Some c" for c using i that by (simp add: mq_calls_def)
  note c = mq_contents_rep [OF r]
  show "mq_calls (mq_append b mq) (h(b := None)) \<and> mq_contents (mq_append b mq) = mq_contents mq @ [d]"
    if h: "h b = Some (Send_copied d)"
  proof
    have b: "b \<in> dom h" and k: "msg_next (mq_pool mq b) = None" "block_data mq b = d" using h kn [OF h] by auto
    note a = append_ok [OF r b k(1)]
    have o: "mq_pool (mq_append b mq) x = mq_pool mq x" if "x \<in> dom h" for x
    proof -
      have "msg_queue_tail mq \<noteq> Some x" using r mq_rep_held [OF r that] by (auto simp: mq_rep_def)
      then show ?thesis by (auto simp: mq_append_def Let_def split: option.splits)
    qed
    show "mq_calls (mq_append b mq) (h(b := None))" by (rule calls_leave [OF i a(1) o])
    show "mq_contents (mq_append b mq) = mq_contents mq @ [d]" unfolding mq_contents_rep [OF a(1)] c using a(2) k(2) by simp
  qed
  show "mq_calls (mq_prepend b mq) (h(b := None)) \<and> mq_contents (mq_prepend b mq) = d # mq_contents mq"
    if h: "h b = Some (Urgent_copied d)"
  proof
    have b: "b \<in> dom h" and k: "block_data mq b = d" using h kn [OF h] by auto
    note a = prepend_ok [OF r b]
    show "mq_calls (mq_prepend b mq) (h(b := None))"
      by (rule calls_leave [OF i a(1)]) (simp add: mq_prepend_def Let_def)
    show "mq_contents (mq_prepend b mq) = d # mq_contents mq" unfolding mq_contents_rep [OF a(1)] c using a(2) k by simp
  qed
  show "mq_calls (mq_give_back b mq) (h(b := None)) \<and> mq_contents (mq_give_back b mq) = mq_contents mq"
    if h: "h b = Some (Recv_taken d)"
  proof
    have b: "b \<in> dom h" using h by auto
    note a = give_back_ok [OF r b]
    show "mq_calls (mq_give_back b mq) (h(b := None))"
      by (rule calls_leave [OF i a(1)]) (simp add: mq_give_back_def)
    show "mq_contents (mq_give_back b mq) = mq_contents mq" unfolding mq_contents_rep [OF a(1)] c using a(2) by simp
  qed
qed

lemma calls_take:
  assumes i: "mq_calls mq h" and t: "mq_take_head mq = Some (b, mq')"
  shows "mq_calls mq' (h(b \<mapsto> Recv_taken (block_data mq b)))" "mq_contents mq = block_data mq b # mq_contents mq'"
    "obj_type mq' = obj_type mq"
proof -
  obtain qs fs where r: "mq_rep mq qs fs (dom h)" using i by (auto simp: mq_calls_def)
  then obtain bs where qs: "qs = b # bs"
    using t by (cases qs) (auto simp: mq_rep_def mq_take_head_def Let_def split: option.splits if_splits)
  obtain mq1 where 1: "mq_take_head mq = Some (b, mq1)" "mq_rep mq1 bs fs (insert b (dom h))" "mq_pool mq1 = mq_pool mq"
    "obj_type mq1 = obj_type mq"
    by (rule take_head_ok [OF r [unfolded qs]]) blast
  have e: "mq1 = mq'" using 1(1) t by simp
  show "mq_contents mq = block_data mq b # mq_contents mq'" "obj_type mq' = obj_type mq"
    using mq_contents_rep [OF r] mq_contents_rep [OF 1(2)] qs 1(3,4) e by simp_all
  show "mq_calls mq' (h(b \<mapsto> Recv_taken (block_data mq b)))"
    using i 1(2,3) unfolding e by (auto simp: mq_calls_def)
qed


text \<open>A first section either leaves the queue alone or takes the block from its list.\<close>

definition got_block :: "nat \<Rightarrow> (rt_messagequeue \<Rightarrow> (nat \<times> rt_messagequeue) option) \<Rightarrow> kernel \<Rightarrow> mq_outcome \<Rightarrow> kernel \<Rightarrow> bool" where
  "got_block m tk k oc k' \<longleftrightarrow>
     (case oc of
        Mq_done _ \<Rightarrow> kinv k' \<and> msgqueues k' m = msgqueues k m
      | Mq_holds b \<Rightarrow> \<exists>mq. tk (msgqueues k m) = Some (b, mq) \<and> k' = upd_mq m (\<lambda>_. mq) k)"

lemma waits_got_block: "section_waits m q err time k oc k' \<Longrightarrow> kinv k \<Longrightarrow> got_block m tk k oc k'"
  using section_waits_frame [of m q err time k oc k'] by (auto simp: got_block_def)

lemma send_reserve_got:
  assumes "may_call k time" "is_mq k m" "mq_send_reserve m size_arg time k = Some (oc, k')"
  shows "got_block m mq_take_free k oc k'"
proof (cases "size_arg > ucast (msg_size (msgqueues k m))")
  case True
  then show ?thesis using assms by (auto simp: got_block_def mq_send_reserve_def may_call_def)
next
  case False
  then have sz: "size_arg \<noteq> 0" "size_arg \<le> ucast (msg_size (msgqueues k m))" using assms(3) by (auto simp: mq_send_reserve_def)
  obtain oc1 k1 where x: "mq_send_reserve m size_arg time k = Some (oc1, k1)"
    and y: "case mq_take_free (msgqueues k m) of
       Some (b, mq) \<Rightarrow> oc1 = Mq_holds b \<and> k1 = upd_mq m (\<lambda>_. mq) k
     | None \<Rightarrow> section_waits m (Senders (OMsgQueue m)) (- RT_EFULL) time k oc1 k1"
    by (rule mq_send_reserve_ok [OF assms(1,2) sz])
  have e: "oc1 = oc" "k1 = k'" using x assms(3) by simp_all
  from y [unfolded e] show ?thesis using waits_got_block assms(1)
    by (cases "mq_take_free (msgqueues k m)") (auto simp: got_block_def may_call_def)
qed

lemma send_resume_got:
  assumes c: "in_call k c" and to: "timeout_ok (time_left time from (rt_tick k))"
    and ex: "mq_send_resume m c time from k = Some (oc, k')"
  shows "got_block m mq_take_free k oc k'"
proof (cases "thread_error (threads k c) = RT_EOK")
  case False
  then show ?thesis using ex in_callD(1) [OF c] by (auto simp: mq_send_resume_def got_block_def)
next
  case True
  let ?left = "time_left time from (rt_tick k)"
  have l: "mq_send_loop m (Some c) ?left k = Some (oc, k')" using ex True by (simp add: mq_send_resume_def)
  show ?thesis
  proof (cases "mq_take_free (msgqueues k m)")
    case (Some p)
    then show ?thesis using l by (cases p) (auto simp: mq_send_loop_def got_block_def)
  next
    case None
    obtain oc1 k1 where "mq_send_loop m (Some c) ?left k = Some (oc1, k1)"
      "section_waits m (Senders (OMsgQueue m)) (- RT_EFULL) ?left k oc1 k1"
      by (rule mq_send_loop_full [OF c to None])
    then show ?thesis using l waits_got_block in_callD(1) [OF c] by auto
  qed
qed

lemma recv_take_got:
  assumes mc: "may_call k time" and i: "is_mq k m" and r: "mq_calls (msgqueues k m) h"
    and ex: "mq_recv_take m size_arg time k = Some (oc, k')"
  shows "got_block m mq_take_head k oc k'"
proof -
  obtain qs fs where r: "mq_rep (msgqueues k m) qs fs (dom h)" using r by (auto simp: mq_calls_def)
  have sz: "size_arg \<noteq> 0" using ex by (auto simp: mq_recv_take_def)
  obtain oc1 k1 where x: "mq_recv_take m size_arg time k = Some (oc1, k1)"
    and y: "case qs of
       b # bs \<Rightarrow> oc1 = Mq_holds b \<and> (\<exists>mq. mq_take_head (msgqueues k m) = Some (b, mq) \<and> k1 = upd_mq m (\<lambda>_. mq) k)
     | [] \<Rightarrow> section_waits m (Suspended (OMsgQueue m)) (- RT_ETIMEOUT) time k oc1 k1"
    by (rule mq_recv_take_ok [OF mc i sz r])
  have e: "oc1 = oc" "k1 = k'" using x ex by simp_all
  from y [unfolded e] show ?thesis using waits_got_block mc by (cases qs) (auto simp: got_block_def may_call_def)
qed

lemma recv_resume_got:
  assumes c: "in_call k c" and to: "timeout_ok (time_left time from (rt_tick k))"
    and ex: "mq_recv_resume m c time from k = Some (oc, k')"
  shows "got_block m mq_take_head k oc k'"
proof (cases "thread_error (threads k c) = RT_EOK")
  case False
  then show ?thesis using ex in_callD(1) [OF c] by (auto simp: mq_recv_resume_def got_block_def)
next
  case True
  let ?left = "time_left time from (rt_tick k)"
  have l: "mq_recv_loop m (Some c) ?left k = Some (oc, k')" using ex True by (simp add: mq_recv_resume_def)
  show ?thesis
  proof (cases "mq_entry (msgqueues k m) = 0")
    case False
    then show ?thesis using l by (auto simp: mq_recv_loop_def got_block_def Option.bind_eq_Some_conv)
  next
    case True
    obtain oc1 k1 where "mq_recv_loop m (Some c) ?left k = Some (oc1, k1)"
      "section_waits m (Suspended (OMsgQueue m)) (- RT_ETIMEOUT) ?left k oc1 k1"
      by (rule mq_recv_loop_empty [OF c to True])
    then show ?thesis using l waits_got_block in_callD(1) [OF c] by auto
  qed
qed

lemma mq_inv_upd:
  "mq_inv m k h \<Longrightarrow> mq_calls mq h' \<Longrightarrow> obj_type mq = obj_type (msgqueues k m) \<Longrightarrow> kinv k' \<Longrightarrow> msgqueues k' m = mq \<Longrightarrow> mq_inv m k' h'"
  by (simp add: mq_inv_def is_mq_def)

lemma got_free:
  assumes i: "mq_inv m k h" and g: "got_block m mq_take_free k oc k'" and c: "c = Send_reserved \<or> c = Urgent_reserved"
  shows "mq_inv m k' (reserved oc c h)" "messages k' m = messages k m"
proof -
  have k: "kinv k" "mq_calls (msgqueues k m) h" using i by (simp_all add: mq_inv_def)
  have "mq_inv m k' (reserved oc c h) \<and> messages k' m = messages k m"
  proof (cases oc)
    case (Mq_done r)
    then show ?thesis using g mq_inv_upd [OF i k(2)] by (simp add: got_block_def)
  next
    case (Mq_holds b)
    then obtain mq where mq: "mq_take_free (msgqueues k m) = Some (b, mq)" "k' = upd_mq m (\<lambda>_. mq) k"
      using g by (auto simp: got_block_def)
    note cr = calls_reserve [OF k(2) mq(1) c]
    show ?thesis using mq_inv_upd [OF i cr(1,3) kinv_objects(5) [OF k(1)], of m "\<lambda>_. mq"] cr(2) by (simp add: mq(2) Mq_holds)
  qed
  then show "mq_inv m k' (reserved oc c h)" "messages k' m = messages k m" by simp_all
qed

lemma got_message:
  assumes i: "mq_inv m k h" and g: "got_block m mq_take_head k oc k'"
  shows "mq_inv m k' (case oc of Mq_holds b \<Rightarrow> h(b \<mapsto> Recv_taken (block_data (msgqueues k m) b)) | Mq_done _ \<Rightarrow> h)"
    "messages k m = (case oc of Mq_holds b \<Rightarrow> [block_data (msgqueues k m) b] | Mq_done _ \<Rightarrow> []) @ messages k' m"
proof -
  have k: "kinv k" "mq_calls (msgqueues k m) h" using i by (simp_all add: mq_inv_def)
  have "mq_inv m k' (case oc of Mq_holds b \<Rightarrow> h(b \<mapsto> Recv_taken (block_data (msgqueues k m) b)) | Mq_done _ \<Rightarrow> h) \<and>
    messages k m = (case oc of Mq_holds b \<Rightarrow> [block_data (msgqueues k m) b] | Mq_done _ \<Rightarrow> []) @ messages k' m"
  proof (cases oc)
    case (Mq_done r)
    then show ?thesis using g mq_inv_upd [OF i k(2)] by (simp add: got_block_def)
  next
    case (Mq_holds b)
    then obtain mq where mq: "mq_take_head (msgqueues k m) = Some (b, mq)" "k' = upd_mq m (\<lambda>_. mq) k"
      using g by (auto simp: got_block_def)
    note cr = calls_take [OF k(2) mq(1)]
    show ?thesis using mq_inv_upd [OF i cr(1,3) kinv_objects(5) [OF k(1)], of m "\<lambda>_. mq"] cr(2) by (simp add: mq(2) Mq_holds)
  qed
  then show "mq_inv m k' (case oc of Mq_holds b \<Rightarrow> h(b \<mapsto> Recv_taken (block_data (msgqueues k m) b)) | Mq_done _ \<Rightarrow> h)"
    "messages k m = (case oc of Mq_holds b \<Rightarrow> [block_data (msgqueues k m) b] | Mq_done _ \<Rightarrow> []) @ messages k' m" by simp_all
qed

lemma copied:
  assumes i: "mq_inv m k h"
  shows "h b = Some Send_reserved \<Longrightarrow> mq_send_copy m b buffer size_arg k = Some k' \<Longrightarrow>
      mq_inv m k' (h(b \<mapsto> Send_copied (block_data (msgqueues k' m) b))) \<and> messages k' m = messages k m"
    "h b = Some Urgent_reserved \<Longrightarrow> mq_urgent_copy m b buffer size_arg k = Some k' \<Longrightarrow>
      mq_inv m k' (h(b \<mapsto> Urgent_copied (block_data (msgqueues k' m) b))) \<and> messages k' m = messages k m"
proof -
  have k: "kinv k" "mq_calls (msgqueues k m) h" using i by (simp_all add: mq_inv_def)
  show "mq_inv m k' (h(b \<mapsto> Send_copied (block_data (msgqueues k' m) b))) \<and> messages k' m = messages k m"
    if b: "h b = Some Send_reserved" and ex: "mq_send_copy m b buffer size_arg k = Some k'"
  proof -
    obtain mq where mq: "mq_copy_in b buffer (unat size_arg) (mq_set_next b None (msgqueues k m)) = Some mq" "k' = upd_mq m (\<lambda>_. mq) k"
      using ex by (auto simp: mq_send_copy_def Option.bind_eq_Some_conv)
    have d: "b \<in> dom h" using b by blast
    note cr = calls_copy [OF k(2) d _ mq(1), of "Send_copied (block_data mq b)", simplified]
    show ?thesis using mq_inv_upd [OF i cr(1,3) kinv_objects(5) [OF k(1)], of m "\<lambda>_. mq"] cr(2) by (simp add: mq(2))
  qed
  show "mq_inv m k' (h(b \<mapsto> Urgent_copied (block_data (msgqueues k' m) b))) \<and> messages k' m = messages k m"
    if b: "h b = Some Urgent_reserved" and ex: "mq_urgent_copy m b buffer size_arg k = Some k'"
  proof -
    obtain mq where mq: "mq_copy_in b buffer (unat size_arg) (msgqueues k m) = Some mq" "k' = upd_mq m (\<lambda>_. mq) k"
      using ex by (auto simp: mq_urgent_copy_def Option.bind_eq_Some_conv)
    have d: "b \<in> dom h" using b by blast
    note cr = calls_copy [OF k(2) d _ mq(1), of "Urgent_copied (block_data mq b)", simplified]
    show ?thesis using mq_inv_upd [OF i cr(1,3) kinv_objects(5) [OF k(1)], of m "\<lambda>_. mq"] cr(2) by (simp add: mq(2))
  qed
qed

lemma linked_back:
  assumes i: "mq_inv m k h" and c: "rt_current_thread k \<noteq> None"
  shows "h b = Some (Send_copied d) \<Longrightarrow> mq_send_link m b k = Some k' \<Longrightarrow>
      mq_inv m k' (h(b := None)) \<and> messages k' m = messages k m @ [d]"
    "h b = Some (Urgent_copied d) \<Longrightarrow> mq_urgent_link m b k = Some k' \<Longrightarrow>
      mq_inv m k' (h(b := None)) \<and> messages k' m = d # messages k m"
    "h b = Some (Recv_taken d) \<Longrightarrow> mq_recv_free m b k = Some k' \<Longrightarrow>
      mq_inv m k' (h(b := None)) \<and> messages k' m = messages k m"
proof -
  have k: "kinv k" "mq_calls (msgqueues k m) h" using i by (simp_all add: mq_inv_def)
  have t: "obj_type (mq_append b mq) = obj_type mq" "obj_type (mq_prepend b mq) = obj_type mq"
    "obj_type (mq_give_back b mq) = obj_type mq" for mq
    by (auto simp: mq_append_def mq_prepend_def mq_give_back_def Let_def split: option.splits)
  note ok = mq_link_ok [OF k(1) c, of m b] and cl = calls_link [OF k(2), where b = b and d = d]
  show "mq_inv m k' (h(b := None)) \<and> messages k' m = messages k m @ [d]"
    if "h b = Some (Send_copied d)" "mq_send_link m b k = Some k'"
    using ok(1) that(2) woken_first_mq [of _ m "mq_append b" k k'] cl(1) [OF that(1)] mq_inv_upd [OF i _ t(1), of "h(b := None)" k'] by auto
  show "mq_inv m k' (h(b := None)) \<and> messages k' m = d # messages k m"
    if "h b = Some (Urgent_copied d)" "mq_urgent_link m b k = Some k'"
    using ok(2) that(2) woken_first_mq [of _ m "mq_prepend b" k k'] cl(2) [OF that(1)] mq_inv_upd [OF i _ t(2), of "h(b := None)" k'] by auto
  show "mq_inv m k' (h(b := None)) \<and> messages k' m = messages k m"
    if "h b = Some (Recv_taken d)" "mq_recv_free m b k = Some k'"
    using ok(3) that(2) woken_first_mq [of _ m "mq_give_back b" k k'] cl(3) [OF that(1)] mq_inv_upd [OF i _ t(3), of "h(b := None)" k'] by auto
qed


lemma mq_run_keeps:
  assumes "mq_run m k0 k h tr" "mq_inv m k0 Map.empty"
  shows "mq_inv m k h \<and> replay tr (messages k0 m) = Some (messages k m)"
  using assms
proof (induction rule: mq_run.induct)
  case (send_reserve k h tr time size_arg oc k')
  then have i: "mq_inv m k h" "is_mq k m" by (simp_all add: mq_inv_def)
  note g = got_free [OF i(1) send_reserve_got [OF send_reserve.hyps(2) i(2) send_reserve.hyps(3)], of Send_reserved, simplified]
  show ?case using g send_reserve by simp
next
  case (send_again k h tr c time "from" oc k')
  then have i: "mq_inv m k h" by simp
  note g = got_free [OF i send_resume_got [OF send_again.hyps(2-4)], of Send_reserved, simplified]
  show ?case using g send_again by simp
next
  case (send_copy k h tr b buffer size_arg k')
  then show ?case using copied(1) [of m k h b buffer size_arg k'] by metis
next
  case (send_link k h tr b d k')
  then show ?case using linked_back(1) [of m k h b d k'] by (metis replay.simps(2) option.map(2))
next
  case (urgent_reserve k h tr size_arg oc k')
  then have i: "mq_inv m k h" "kinv k" by (simp_all add: mq_inv_def)
  have gb: "got_block m mq_take_free k oc k'"
    using urgent_reserve.hyps(2) i(2)
    by (auto simp: mq_urgent_reserve_def got_block_def split: if_splits option.splits prod.splits)
  show ?case using got_free [OF i(1) gb, of Urgent_reserved] urgent_reserve by simp
next
  case (urgent_copy k h tr b buffer size_arg k')
  then show ?case using copied(2) [of m k h b buffer size_arg k'] by metis
next
  case (urgent_link k h tr b d k')
  then show ?case using linked_back(2) [of m k h b d k'] by (metis replay.simps(3) option.map(2))
next
  case (recv_take k h tr time size_arg oc k')
  then have i: "mq_inv m k h" "is_mq k m" "mq_calls (msgqueues k m) h" by (simp_all add: mq_inv_def)
  note g = got_message [OF i(1) recv_take_got [OF recv_take.hyps(2) i(2,3) recv_take.hyps(3)]]
  have "replay (case oc of Mq_holds b \<Rightarrow> Received (block_data (msgqueues k m) b) # tr | Mq_done _ \<Rightarrow> tr) (messages k0 m) =
      Some (messages k' m)"
    using g(2) recv_take by (cases oc) simp_all
  with g(1) show ?case by (rule conjI)
next
  case (recv_again k h tr c time "from" oc k')
  then have i: "mq_inv m k h" by simp
  note g = got_message [OF i recv_resume_got [OF recv_again.hyps(2-4)]]
  have "replay (case oc of Mq_holds b \<Rightarrow> Received (block_data (msgqueues k m) b) # tr | Mq_done _ \<Rightarrow> tr) (messages k0 m) =
      Some (messages k' m)"
    using g(2) recv_again by (cases oc) simp_all
  with g(1) show ?case by (rule conjI)
next
  case (recv_free k h tr b d k')
  then show ?case using linked_back(3) [of m k h b d k'] by metis
next
  case (other k h tr k')
  then show ?case by (simp add: mq_inv_def is_mq_def)
qed simp

text \<open>C15: the sections of sends, urgent sends and receives of any number of calls may interleave in any
  way, with scheduling and interrupts between them: the blocks of the pool stay divided between
  the queue, the free list and the calls, so no more messages are in the queue than there are
  blocks; the messages leave the queue in the order of linking, urgent ones first; and the bytes
  that a receiver copies are those of the message it took, whatever has run in between.\<close>

theorem mq_sections_interleave:
  assumes "mq_run m k0 k h tr" "mq_inv m k0 Map.empty"
  shows "mq_inv m k h \<and> replay tr (messages k0 m) = Some (messages k m) \<and>
    length (messages k m) + card (dom h) \<le> unat (max_msgs (msgqueues k m)) \<and>
    (\<forall>b d n. h b = Some (Recv_taken d) \<longrightarrow> mq_recv_copy m b n k = Some (take (unat n) d))"
proof -
  have i: "mq_inv m k h" and rp: "replay tr (messages k0 m) = Some (messages k m)" using mq_run_keeps [OF assms] by simp_all
  obtain qs fs where r: "mq_rep (msgqueues k m) qs fs (dom h)" using i by (auto simp: mq_inv_def mq_calls_def)
  have "length (messages k m) + card (dom h) \<le> unat (max_msgs (msgqueues k m))"
    using mq_rep_count [OF r] mq_contents_rep [OF r] by simp
  moreover have "mq_recv_copy m b n k = Some (take (unat n) d)" if "h b = Some (Recv_taken d)" for b d n
  proof -
    have "b \<in> dom h" "call_knows (mq_pool (msgqueues k m) b) (Recv_taken d)"
      using that i unfolding mq_inv_def mq_calls_def by blast+
    then show ?thesis using copy_out_ok [OF r, of b] by (simp add: mq_recv_copy_def)
  qed
  ultimately show ?thesis using i rp by blast
qed

lemma sample_mq_inv: "mq_inv m sample Map.empty"
  using sample_kinv sample_mq(1,2) [of m] by (simp add: mq_inv_def mq_calls_def mq_wf_def del: sample_fields)

lemma mq_sections_interleave_witness:
  "\<exists>k b. mq_run 0 sample k (Map.empty(b \<mapsto> Send_reserved)) [] \<and> mq_inv 0 k (Map.empty(b \<mapsto> Send_reserved)) \<and> messages k 0 = []"
proof -
  have to: "timeout_ok 5" by (simp add: timeout_ok_def)
  have sz: "(4 :: u32) \<noteq> 0" "4 \<le> (ucast (msg_size (msgqueues sample 0)) :: u32)" using sample_mq(4) [of 0] by (simp_all del: sample_fields)
  note mc = sample_may_call [OF to]
  obtain qs fs where fs: "mq_has_room sample 0 \<longleftrightarrow> fs \<noteq> []"
    "\<And>b fs'. fs = b # fs' \<Longrightarrow> \<exists>mq1. mq_take_free (msgqueues sample 0) = Some (b, mq1)"
    by (rule mq_room [OF sample_mq(2) [of 0]]) blast
  have "fs \<noteq> []" using fs(1) sample_mq(3,5) [of 0] by (simp del: sample_fields)
  then obtain b mq1 where f: "mq_take_free (msgqueues sample 0) = Some (b, mq1)" using fs(2) by (cases fs) auto
  obtain oc k' where k': "mq_send_reserve 0 4 5 sample = Some (oc, k')" "oc = Mq_holds b"
    by (rule mq_send_reserve_ok [OF mc sample_mq(1) sz]) (use f in \<open>simp del: sample_fields\<close>)
  have "mq_run 0 sample k' (Map.empty(b \<mapsto> Send_reserved)) []"
    using mq_run.send_reserve [OF mq_run.start mc k'(1)] k'(2) by simp
  note r = this
  note mq_sections_interleave [OF r sample_mq_inv]
  then have "mq_inv 0 k' (Map.empty(b \<mapsto> Send_reserved))" "messages k' 0 = []"
    using sample_mq(3) [of 0] by (simp_all only: replay.simps option.inject)
  then show ?thesis using r by blast
qed

end
