(* ===== verification/MsgQueueCalls.thy ===== *)
theory MsgQueueCalls
  imports MsgQueueProps "HOL-Library.Sublist"
begin

section \<open>Sequences of calls of a message queue\<close>











subsection \<open>One call\<close>

text \<open>The sizes of a queue, which no call changes.\<close>

definition mq_shape :: "rt_messagequeue \<Rightarrow> u16 \<times> u16 \<times> u8" where
  "mq_shape mq = (msg_size mq, max_msgs mq, obj_type mq)"

lemma mq_shape_sections [simp]:
  "mq_shape (mq_set_next b x mq) = mq_shape mq" "mq_shape (mq_append b mq) = mq_shape mq"
  "mq_shape (mq_prepend b mq) = mq_shape mq" "mq_shape (mq_give_back b mq) = mq_shape mq"
  by (auto simp: mq_shape_def mq_set_next_def mq_append_def mq_prepend_def mq_give_back_def Let_def split: option.splits)





















end
