(* ===== verification/MemPoolProps.thy ===== *)
theory MemPoolProps
  imports MemPool BlockPool SemProps
begin

section \<open>Memory pools: the free list and the blocks that are out\<close>

text \<open>
  The headers of a pool represent a list of free blocks and a set of allocated ones; the calls
  move blocks between them, wait at the front of the waiting list, and over every interleaving
  never hand out a block twice.
\<close>

subsection \<open>The blocks of a pool\<close>

fun mp_chain :: "(u32 \<Rightarrow> mp_link) \<Rightarrow> u32 \<Rightarrow> u32 list \<Rightarrow> bool" where
  "mp_chain links h [] \<longleftrightarrow> h = 0"
| "mp_chain links h (b # bs) \<longleftrightarrow> h = b \<and> b \<noteq> 0 \<and> (case links b of Next_block n \<Rightarrow> mp_chain links n bs | Owner_pool _ \<Rightarrow> False)"

lemma mp_chain_cong: "(\<And>b. b \<in> set bs \<Longrightarrow> links' b = links b) \<Longrightarrow> mp_chain links' h bs = mp_chain links h bs"
  by (induction bs arbitrary: h) (auto split: mp_link.splits)

text \<open>\<open>mp_rep p (mp, links) fs A\<close>: the free list is \<open>fs\<close> and the blocks \<open>A\<close> are allocated, all named by their headers.\<close>

definition mp_rep :: "nat \<Rightarrow> u32 set \<Rightarrow> rt_mempool \<times> (u32 \<Rightarrow> mp_link) \<Rightarrow> u32 list \<Rightarrow> u32 set \<Rightarrow> bool" where
  "mp_rep p B s fs A \<longleftrightarrow> (case s of (mp, links) \<Rightarrow>
     mp_chain links (block_list mp) fs \<and> distinct fs \<and> A \<inter> set fs = {} \<and> A \<union> set fs = B \<and> (\<forall>b \<in> B. b \<noteq> 0 \<and> b + 4 \<noteq> 0) \<and> finite B \<and>
     card B \<le> unat (block_total_count mp) \<and>
     unat (block_free_count mp) = length fs \<and> (\<forall>b \<in> A. links b = Owner_pool p))"

lemma mp_rep_count: "mp_rep p B (mp, links) fs A \<Longrightarrow> length fs + card A = card B"
proof -
  assume r: "mp_rep p B (mp, links) fs A"
  then have "finite A" by (auto simp: mp_rep_def intro: finite_subset)
  then have "card (A \<union> set fs) = card A + card (set fs)" using r by (intro card_Un_disjoint) (auto simp: mp_rep_def)
  then show ?thesis using r distinct_card [of fs] by (simp add: mp_rep_def)
qed

lemma mp_take_ok:
  assumes r: "mp_rep p B (mp, links) (b # fs) A"
  obtains mp' links' where "mp_take p (mp, links) = Some (b, mp', links')" "mp_rep p B (mp', links') fs (insert b A)"
    "\<And>c. c \<noteq> b \<Longrightarrow> links' c = links c" "block_total_count mp' = block_total_count mp" "obj_type mp' = obj_type mp"
proof -
  obtain n where n: "links b = Next_block n" "mp_chain links n fs" "block_list mp = b" "b \<noteq> 0"
    using r by (auto simp: mp_rep_def split: mp_link.splits)
  let ?mp = "mp\<lparr>block_free_count := block_free_count mp - 1, block_list := n\<rparr>" and ?l = "links(b := Owner_pool p)"
  have t: "mp_take p (mp, links) = Some (b, ?mp, ?l)" using n by (simp add: mp_take_def)
  have "block_free_count mp \<noteq> 0" using r by (auto simp: mp_rep_def)
  then have c: "unat (block_free_count mp - 1) = length fs" using r by (simp add: mp_rep_def unat_minus_one)
  have "b \<notin> set fs" using r by (simp add: mp_rep_def)
  then have "mp_chain ?l n fs = mp_chain links n fs" by (intro mp_chain_cong) auto
  then have "mp_rep p B (?mp, ?l) fs (insert b A)" using r n c by (auto simp: mp_rep_def)
  then show ?thesis using that [OF t] by simp
qed

lemma mp_give_ok:
  assumes r: "mp_rep p B (mp, links) fs A" and b: "b \<in> A"
  shows "mp_rep p B (mp_give b (mp, links)) (b # fs) (A - {b})"
proof -
  let ?l = "links(b := Next_block (block_list mp))"
  have fin: "finite A" using r by (auto simp: mp_rep_def intro: finite_subset)
  then have "0 < card A" using b card_gt_0_iff by blast
  then have "length fs < card B" using mp_rep_count [OF r] by simp
  then have "unat (block_free_count mp) < unat (block_total_count mp)" using r by (simp add: mp_rep_def)
  then have c: "unat (block_free_count mp + 1) = Suc (length fs)"
    using r unsigned_less [of "block_total_count mp", where 'a = nat] by (simp add: mp_rep_def unat_word_ariths)
  have nb: "b \<notin> set fs" "b \<noteq> 0" using r b by (auto simp: mp_rep_def)
  then have "mp_chain ?l (block_list mp) fs = mp_chain links (block_list mp) fs" by (intro mp_chain_cong) auto
  then show ?thesis using r b nb c by (auto simp: mp_rep_def mp_give_def)
qed

interpretation mpool: block_pool "mp_rep p B" "mp_take p" mp_give for p B
proof
  show "distinct fs \<and> A \<inter> set fs = {}" if "mp_rep p B s fs A" for s fs A
    using that by (auto simp: mp_rep_def)
  show "\<exists>s'. mp_take p s = Some (b, s') \<and> mp_rep p B s' fs (insert b A)" if "mp_rep p B s (b # fs) A" for s b fs A
    using that by (cases s) (metis mp_take_ok)
  show "mp_rep p B (mp_give b s) (b # fs) (A - {b})" if "mp_rep p B s fs A" "b \<in> A" for s fs A b
    using that by (cases s) (metis mp_give_ok)
qed

subsection \<open>Setting up\<close>

definition mp_blocks :: "u32 \<Rightarrow> u32 \<Rightarrow> nat \<Rightarrow> u32 list" where
  "mp_blocks base step n = map (\<lambda>i. base + of_nat i * step) [0..<n]"

text \<open>The area of a pool lies below the end of memory, so the addresses of the blocks do not wrap.\<close>

lemma unat_block:
  assumes "unat base + n * unat (step :: u32) \<le> 2 ^ 32" "i < n" "0 < step"
  shows "unat (base + of_nat i * step) = unat base + i * unat step"
proof -
  have st: "0 < unat step" using assms(3) by (simp add: word_less_nat_alt)
  have "Suc i * unat step \<le> n * unat step" using assms(2) by (intro mult_right_mono) auto
  then have b: "unat base + i * unat step < 2 ^ 32" using assms(1) st by simp
  have "i \<le> i * unat step" using st by simp
  then have "i < 2 ^ 32" using b by linarith
  then have "unat (of_nat i :: u32) = i" by (simp add: unat_of_nat)
  then have "unat (of_nat i * step) = i * unat step" using b by (simp add: unat_word_ariths)
  then show ?thesis using b by (simp add: unat_word_ariths)
qed

lemma blocks_apart:
  assumes "unat base + n * unat (step :: u32) \<le> 2 ^ 32" "i < j" "j < n" "0 < step"
  shows "unat (base + of_nat i * step) + unat step \<le> unat (base + of_nat j * step)"
proof -
  have "Suc i * unat step \<le> j * unat step" using assms(2) by (intro mult_right_mono) auto
  then show ?thesis using unat_block [OF assms(1) _ assms(4)] assms(2,3) by simp
qed

lemma block_inj:
  assumes "unat base + n * unat (step :: u32) \<le> 2 ^ 32" "0 < step" "i < n" "j < n"
    and "base + of_nat i * step = base + of_nat j * step"
  shows "i = j"
proof -
  have st: "0 < unat step" using assms(2) by (simp add: word_less_nat_alt)
  show ?thesis
    using blocks_apart [OF assms(1) _ _ assms(2), of i j] blocks_apart [OF assms(1) _ _ assms(2), of j i] assms(3-5) st
    by (cases i j rule: linorder_cases) auto
qed


lemma link_blocks_at:
  assumes "unat base + N * unat (step :: u32) \<le> 2 ^ 32" "0 < step" "n \<le> N"
  shows "i < n \<Longrightarrow> mp_link_blocks n base step links (base + of_nat i * step) = Next_block (base + (of_nat i + 1) * step)"
  using assms(3)
proof (induction n)
  case (Suc n)
  then show ?case
    using block_inj [OF assms(1,2), of i n] by (cases "i = n") (auto simp: less_Suc_eq)
qed simp

lemma setup_chain:
  assumes a: "unat base + unat n * unat (step :: u32) \<le> 2 ^ 32" "0 < step" "base \<noteq> 0" and i: "i < unat n"
  shows "mp_chain (mp_setup_blocks base step n links) (base + of_nat i * step) (map (\<lambda>i. base + of_nat i * step) [i..<unat n])"
  using i
proof (induction "unat n - i" arbitrary: i)
  case (Suc d)
  let ?b = "\<lambda>i. base + of_nat i * step" and ?L = "mp_setup_blocks base step n links"
  have l: "[i..<unat n] = i # [Suc i..<unat n]" using Suc.prems by (simp add: upt_conv_Cons)
  have "unat (?b i) \<noteq> 0" using unat_block [OF a(1) Suc.prems a(2)] a(3) by (simp add: unat_eq_0)
  then have nz: "?b i \<noteq> 0" by auto
  have last: "base + (n - 1) * step = ?b (unat n - 1)"
  proof -
    have "n \<noteq> 0" using Suc.prems by auto
    from unat_minus_one [OF this] have "of_nat (unat n - 1) = (of_nat (unat (n - 1)) :: u32)" by (simp only:)
    then show ?thesis by simp
  qed
  show ?case
  proof (cases "Suc i = unat n")
    case True
    then have "base + (n - 1) * step = ?b i" using last by (metis diff_Suc_1)
    then have "?L (?b i) = Next_block 0" by (simp add: mp_setup_blocks_def)
    then show ?thesis using l True nz by simp
  next
    case False
    then have s: "Suc i < unat n" using Suc.prems by simp
    have "?b i \<noteq> ?b (unat n - 1)"
      using block_inj [OF a(1,2), of i "unat n - 1"] s by auto
    then have "?L (?b i) = mp_link_blocks (unat n) base step links (?b i)"
      unfolding mp_setup_blocks_def last by (rule fun_upd_other)
    also have "\<dots> = Next_block (base + (of_nat i + 1) * step)"
      by (rule link_blocks_at [OF a(1,2) order_refl Suc.prems])
    finally have "?L (?b i) = Next_block (?b (Suc i))" by (simp add: add.commute)
    moreover have "d = unat n - Suc i" using Suc.hyps(2) by simp
    note Suc.hyps(1) [OF this s]
    ultimately show ?thesis using l nz by simp
  qed
qed simp

lemma mp_setup_rep:
  assumes a: "unat base + unat n * unat (step :: u32) \<le> 2 ^ 32" "4 < step" "base \<noteq> 0" "n \<noteq> 0"
    and m: "block_list mp = base" "block_total_count mp = n" "block_free_count mp = n"
  shows "mp_rep p (set (mp_blocks base step (unat n))) (mp, mp_setup_blocks base step n links) (mp_blocks base step (unat n)) {}"
proof -
  have n: "0 < unat n" using a(4) by (simp add: unat_gt_0)
  have st: "0 < step" using a(2) by (simp add: word_less_nat_alt)
  have "mp_chain (mp_setup_blocks base step n links) base (mp_blocks base step (unat n))"
    using setup_chain [OF a(1) st a(3) n] by (simp add: mp_blocks_def)
  moreover have "distinct (mp_blocks base step (unat n))"
    using block_inj [OF a(1) st] by (auto simp: mp_blocks_def distinct_map inj_on_def)
  moreover have "b \<noteq> 0 \<and> b + 4 \<noteq> 0" if "b \<in> set (mp_blocks base step (unat n))" for b
  proof -
    have "b \<in> (\<lambda>i. base + of_nat i * step) ` {0..<unat n}" using that by (simp add: mp_blocks_def)
    then obtain i where i: "i < unat n" "b = base + of_nat i * step" by (elim imageE) simp
    have u: "unat b = unat base + i * unat step" using unat_block [OF a(1) i(1) st] i(2) by simp
    have "Suc i * unat step \<le> unat n * unat step" using i(1) by (intro mult_right_mono) auto
    moreover have "4 < unat step" using a(2) by (simp add: word_less_nat_alt)
    ultimately have "unat b + 4 < 2 ^ 32" using a(1) u by simp
    then have "unat (b + 4) = unat b + 4" by (simp add: unat_word_ariths)
    moreover have "unat b \<noteq> 0" using u a(3) by (simp add: unat_eq_0)
    ultimately show ?thesis by auto
  qed
  ultimately show ?thesis
    using m card_length [of "mp_blocks base step (unat n)"] by (simp add: mp_rep_def mp_blocks_def)
qed

subsection \<open>The calls\<close>

abbreviation pool_of :: "kernel \<Rightarrow> nat \<Rightarrow> rt_mempool \<times> (u32 \<Rightarrow> mp_link)" where
  "pool_of k p \<equiv> (mempools k p, mp_links k)"

lemma set_error_mp_links [simp]: "mp_links (set_error t e k) = mp_links k"
  by (simp add: set_error_def)

lemma rt_set_errno_frame:
  "kinv k \<Longrightarrow> kinv (rt_set_errno e k)" "mempools (rt_set_errno e k) = mempools k"
  "mp_links (rt_set_errno e k) = mp_links k"
  by (auto simp: rt_set_errno_def kinv_mp_links split: option.splits)

text \<open>Waiting at the front of the list.\<close>

lemma mp_wait_ok:
  assumes c: "in_call k c" and to: "timeout_ok time" and q: "waiting_queue q"
  obtains k1 k3 k4 where "rt_thread_suspend c k = Some (RT_EOK, k1)"
    "start_wait_timer c time (tlist_insert_after q c k1) = Some k3" "rt_schedule k3 = Some k4"
    "waits_in q (c # queues k q) c time k k4"
proof -
  note d = in_callD [OF c]
  have th: "is_thread k c" using cur_invD(3) [OF kinvD(2) [OF d(1)] d(2,3)] .
  obtain k1 where k1: "rt_thread_suspend c k = Some (RT_EOK, k1)" "kinv k1" "sched_inv {c} k1"
    "kframe k k1" "rt_current_thread k1 = rt_current_thread k" "\<not> linked k1 (ThreadTimer c)"
    and ts: "\<And>u. tstat k1 u = (if u = c then RT_THREAD_SUSPEND else tstat k u)"
    and qs: "queues k1 = (\<lambda>q. list_del c (queues k q))"
    by (rule rt_thread_suspend_ok [OF d(1) th disjI2 [OF d(3)]]) blast
  have nq: "c \<notin> set (queues k q)" using not_waiting [OF kinvD(1) [OF d(1)] _ q] d(3) by auto
  have q1: "queues k1 q = queues k q" using nq by (simp add: qs list_del_notin)
  define k2 where "k2 = tlist_insert_after q c k1"
  have k2: "k2 = k1\<lparr>queues := (queues k1)(q := c # queues k q)\<rparr>" by (simp add: k2_def tlist_insert_after_def q1)
  have dq: "distinct (queues k q)" using sched_invD(1) [OF kinvD(1) [OF d(1)]] by (simp add: queues_ok_def)
  have t1: "is_thread k1 c" using th kframe_thread(7) [OF k1(4)] by simp
  have i2: "kinv k2" unfolding k2
  proof (rule enqueue_waiting [OF k1(3) kinvD(2,3) [OF k1(2)] t1 _ q])
    show "set (c # queues k q) = insert c (set (queues k1 q))" by (simp add: q1)
  qed (use ts nq dq in simp_all)
  have f2: "kframe k k2" using k1(4) by (simp add: k2 kframe_def)
  have t2: "is_thread k2 c" "tstat k2 c = RT_THREAD_SUSPEND" "\<not> linked k2 (ThreadTimer c)"
    using t1 ts k1(6) by (simp_all add: k2 is_thread_def tstat_def linked_def)
  obtain k3 where k3: "start_wait_timer c time k2 = Some k3" "kinv k3" "kframe k2 k3"
    "rt_current_thread k3 = rt_current_thread k2" "\<And>u. tstat k3 u = tstat k2 u" "queues k3 = queues k2"
    "linked k3 (ThreadTimer c) \<longleftrightarrow> sint time > 0"
    "sint time > 0 \<Longrightarrow> timeout_tick (timers k3 (ThreadTimer c)) = rt_tick k2 + time"
    by (rule start_wait_timer_ok [OF i2 t2 to]) blast
  have cu: "rt_current_thread k3 = rt_current_thread k" using k3(4) k1(5) by (simp add: k2)
  have s3: "tstat k3 c = RT_THREAD_SUSPEND" using k3(5) t2(2) by simp
  have q3: "queues k3 q = c # queues k q" "\<And>r. r \<noteq> q \<Longrightarrow> queues k3 r = list_del c (queues k r)"
    using k3(6) qs by (simp_all add: k2)
  have tm: "sint time > 0 \<Longrightarrow> timeout_tick (timers k3 (ThreadTimer c)) = rt_tick k + time"
    using k3(8) kframeD(9) [OF f2] by simp
  obtain k4 where "rt_schedule k3 = Some k4" "waits_in q (c # queues k q) c time k k4"
    by (rule waiting_schedule_ok [OF d(1-3) q k3(2) kframe_trans [OF f2 k3(3)] cu s3 q3 k3(7) tm])
  then show ?thesis using that k1(1) k3(1) k2_def by blast
qed


text \<open>What a round of an allocation does.\<close>

definition mp_allocated :: "nat \<Rightarrow> u32 set \<Rightarrow> u32 list \<Rightarrow> u32 set \<Rightarrow> u32 \<Rightarrow> kernel \<Rightarrow> mp_result \<Rightarrow> kernel \<Rightarrow> bool" where
  "mp_allocated p B fs A time k r k' \<longleftrightarrow> kinv k' \<and>
     (case fs of
        b # fs' \<Rightarrow> r = Mp_block (b + 4) \<and> mp_rep p B (pool_of k' p) fs' (insert b A) \<and> queues k' = queues k \<and>
          rt_current_thread k' = rt_current_thread k
      | [] \<Rightarrow> mempools k' = mempools k \<and> mp_links k' = mp_links k \<and>
          (if time = 0 then r = Mp_block 0 \<and> k' = rt_set_errno (- RT_ETIMEOUT) k
           else (\<exists>tick c. r = Mp_blocked tick \<and> in_call k c \<and>
             waits_in (Suspended (OMemPool p)) (c # queues k (Suspended (OMemPool p))) c time (set_error c RT_EOK k) k')))"

lemma mp_alloc_loop_ok:
  assumes mc: "may_call k time" and th: "time \<noteq> 0 \<Longrightarrow> in_call k c \<and> thread = Some c" and r: "mp_rep p B (pool_of k p) fs A"
  obtains res k' where "mp_alloc_loop p thread time k = Some (res, k')" "mp_allocated p B fs A time k res k'"
proof (cases fs)
  case (Cons b fs')
  obtain mp' links' where t: "mp_take p (pool_of k p) = Some (b, mp', links')" "mp_rep p B (mp', links') fs' (insert b A)"
    by (rule mp_take_ok [OF r [unfolded Cons]]) blast
  let ?k = "(upd_mp p (\<lambda>_. mp') k)\<lparr>mp_links := links'\<rparr>"
  have "block_free_count (mempools k p) \<noteq> 0" using r Cons by (auto simp: mp_rep_def)
  then have "mp_alloc_loop p thread time k = Some (Mp_block (b + 4), ?k)" using t(1) by (simp add: mp_alloc_loop_def)
  moreover have "kinv ?k" using mc kinv_mp_links(1) kinv_objects(6) by (simp add: may_call_def)
  ultimately show ?thesis using that t(2) Cons by (simp add: mp_allocated_def upd_mp_def)
next
  case Nil
  then have f: "block_free_count (mempools k p) = 0" using r by (simp add: mp_rep_def unat_eq_0)
  have inv: "kinv k" and to: "timeout_ok time" using mc by (simp_all add: may_call_def)
  show ?thesis
  proof (cases "time = 0")
    case True
    then have "mp_alloc_loop p thread time k = Some (Mp_block 0, rt_set_errno (- RT_ETIMEOUT) k)"
      using f by (simp add: mp_alloc_loop_def)
    then show ?thesis using that Nil True rt_set_errno_frame inv by (simp add: mp_allocated_def)
  next
    case False
    then have c: "in_call k c" "thread = Some c" using th by simp_all
    let ?k = "set_error c RT_EOK k"
    obtain k1 k3 k4 where k4: "rt_thread_suspend c ?k = Some (RT_EOK, k1)"
      "start_wait_timer c time (tlist_insert_after (Suspended (OMemPool p)) c k1) = Some k3" "rt_schedule k3 = Some k4"
      "waits_in (Suspended (OMemPool p)) (c # queues ?k (Suspended (OMemPool p))) c time ?k k4"
      by (rule mp_wait_ok [OF in_call_set_error [OF c(1)] to waiting_queue_simps(1)])
    have "mp_alloc_loop p thread time k = Some (Mp_blocked (if sint time > 0 then rt_tick k else 0), k4)"
      using f False k4(1-3) c in_callD(4) [OF c(1)] by (simp add: mp_alloc_loop_def start_wait_timer_def)
    moreover have "mempools k4 = mempools k" "mp_links k4 = mp_links k" "kinv k4"
      using k4(4) kframeD(6,7) [of ?k k4] by (simp_all add: waits_in_def)
    ultimately show ?thesis using that Nil False c(1) k4(4) by (auto simp: mp_allocated_def)
  qed
qed

lemma mp_alloc_ok:
  assumes "may_call k time" "mp_rep p B (pool_of k p) fs A"
  obtains res k' where "rt_mp_alloc p time k = Some (res, k')" "mp_allocated p B fs A time k res k'"
proof -
  obtain c where c: "time \<noteq> 0 \<Longrightarrow> in_call k c" using assms(1) by (auto simp: may_call_def)
  show ?thesis
    unfolding rt_mp_alloc_def
  proof (rule mp_alloc_loop_ok [OF assms(1) _ assms(2), of c "rt_thread_self k"])
    show "in_call k c \<and> rt_thread_self k = Some c" if "time \<noteq> 0" using c [OF that] in_callD(6) by blast
  qed (rule that [unfolded rt_mp_alloc_def])
qed

text \<open>A release links the block in front and hands the chance to allocate to the thread that waited last.\<close>

definition mp_released :: "nat \<Rightarrow> u32 set \<Rightarrow> u32 list \<Rightarrow> u32 set \<Rightarrow> u32 \<Rightarrow> kernel \<Rightarrow> kernel \<Rightarrow> bool" where
  "mp_released p B fs A b k k' \<longleftrightarrow> kinv k' \<and> rt_current_thread k' \<noteq> None \<and> mp_rep p B (pool_of k' p) (b # fs) (A - {b}) \<and>
     (case queues k (Suspended (OMemPool p)) of
        [] \<Rightarrow> queues k' = queues k
      | t # ts \<Rightarrow> queues k' (Suspended (OMemPool p)) = ts \<and> tstat k' t \<in> {RT_THREAD_READY, RT_THREAD_RUNNING} \<and>
          thread_error (threads k' t) = RT_EOK)"

lemma mp_free_ok:
  assumes inv: "kinv k" and cur: "rt_current_thread k \<noteq> None" and r: "mp_rep p B (pool_of k p) fs A" and b: "b \<in> A"
  obtains k' where "rt_mp_free (b + 4) k = Some k'" "mp_released p B fs A b k k'"
proof -
  have b0: "b + 4 \<noteq> 0" and ow: "mp_links k b = Owner_pool p" using r b by (auto simp: mp_rep_def)
  obtain mp' links' where g: "mp_give b (pool_of k p) = (mp', links')" by (metis surj_pair)
  have r': "mp_rep p B (mp', links') (b # fs) (A - {b})" using mp_give_ok [OF r b] g by simp
  let ?k1 = "(upd_mp p (\<lambda>_. mp') k)\<lparr>mp_links := links'\<rparr>" and ?q = "Suspended (OMemPool p)"
  have i1: "kinv ?k1" using inv kinv_mp_links(1) kinv_objects(6) by simp
  have f1: "queues ?k1 = queues k" "rt_current_thread ?k1 = rt_current_thread k" "pool_of ?k1 p = (mp', links')"
    by (simp_all add: upd_mp_def)
  show ?thesis
  proof (cases "queues k ?q")
    case Nil
    have "rt_mp_free (b + 4) k = Some ?k1" using b0 ow g Nil by (simp add: rt_mp_free_def upd_mp_def)
    then show ?thesis using that i1 cur r' Nil f1 by (simp add: mp_released_def)
  next
    case (Cons t ts)
    let ?k2 = "set_error t RT_EOK ?k1"
    have i2: "kinv ?k2" using i1 by simp
    have h: "queues ?k2 ?q = t # ts" and c: "rt_current_thread ?k2 \<noteq> None" using Cons cur f1 by simp_all
    obtain k3 k4 where k4: "rt_ipc_list_resume ?q ?k2 = Some k3" "rt_schedule k3 = Some k4" "wakes ?q t ?k2 k4"
      by (rule ipc_wake_ok [OF i2 waiting_queue_simps(1) h c]) blast
    have "rt_mp_free (b + 4) k = Some k4"
      using b0 ow g Cons k4(1,2) h
      by (auto simp: rt_mp_free_def rt_ipc_list_resume_def Option.bind_eq_Some_conv upd_mp_def)
    moreover have "mempools k4 = mempools ?k1" "mp_links k4 = mp_links ?k1" "thread_error (threads k4 t) = RT_EOK"
      using k4(3) kframeD(6,7) [of ?k2 k4] kframe_thread(4) [of ?k2 k4 t] by (simp_all add: wakes_def)
    then have "pool_of k4 p = (mp', links')" using f1(3) by simp
    ultimately show ?thesis using that k4(3) r' Cons h \<open>thread_error (threads k4 t) = RT_EOK\<close>
      by (simp add: mp_released_def wakes_def)
  qed
qed


text \<open>\<open>rt_mp_alloc\<close> on every branch: it hands out the first free block, behind its header, or returns null
  at once with the error number \<open>-RT_ETIMEOUT\<close>, or suspends the thread. A thread that waits is put
  in front of those that wait already.\<close>

lemma rt_mp_alloc_correct:
  assumes "may_call k time" "mp_rep p B (pool_of k p) fs A"
  shows "\<exists>res k'. rt_mp_alloc p time k = Some (res, k') \<and> mp_allocated p B fs A time k res k'"
  by (rule mp_alloc_ok [OF assms]) blast

text \<open>\<open>rt_mp_free\<close> of an allocated block makes it the first free block and wakes the first thread of the
  waiting list, which is the one that began to wait last.\<close>

lemma rt_mp_free_correct:
  assumes "kinv k" "rt_current_thread k \<noteq> None" "mp_rep p B (pool_of k p) fs A" "b \<in> A"
  shows "\<exists>k'. rt_mp_free (b + 4) k = Some k' \<and> mp_released p B fs A b k k'"
  by (rule mp_free_ok [OF assms]) blast

text \<open>A pool of three blocks of 8 bytes at address 0x20002000, one of them allocated.\<close>

definition sample_pool :: kernel where
  "sample_pool = (upd_mp 0 (\<lambda>mp. mp\<lparr>start_address := 0x20002000, mp_size := 36, block_size := 8,
       block_list := 0x2000200C, block_total_count := 3, block_free_count := 2\<rparr>) sample)
     \<lparr>mp_links := (mp_setup_blocks 0x20002000 12 3 (\<lambda>_. Next_block 0))(0x20002000 := Owner_pool 0)\<rparr>"

lemma mp_setup_3: "mp_setup_blocks 0x20002000 12 3 (\<lambda>_. Next_block 0) =
    (\<lambda>_. Next_block 0)(0x20002000 := Next_block 0x2000200C, 0x2000200C := Next_block 0x20002018, 0x20002018 := Next_block 0)"
proof -
  have u: "unat (3 :: u32) = Suc (Suc (Suc 0))" by simp
  show ?thesis unfolding mp_setup_blocks_def u by simp
qed

abbreviation sample_blocks :: "u32 set" where
  "sample_blocks \<equiv> {0x20002000, 0x2000200C, 0x20002018}"

lemma sample_pool_rep: "mp_rep 0 sample_blocks (pool_of sample_pool 0) [0x2000200C, 0x20002018] {0x20002000}"
  unfolding sample_pool_def mp_setup_3 by (simp add: mp_rep_def upd_mp_def insert_commute)

lemma sample_pool_kinv: "kinv sample_pool"
  unfolding sample_pool_def by (rule kinv_mp_links(1) [OF kinv_objects(6) [OF sample_kinv]])

lemma sample_pool_call: "in_call sample_pool 1" "may_call sample_pool 0"
proof -
  show "in_call sample_pool 1"
    using sample_pool_kinv by (simp add: in_call_def sample_pool_def upd_mp_def tstat_def sample_threads_def)
  then show "may_call sample_pool 0" using in_callD(1,2) by (auto simp: may_call_def timeout_ok_def)
qed

lemma rt_mp_alloc_correct_witness:
  "\<exists>k'. rt_mp_alloc 0 0 sample_pool = Some (Mp_block 0x20002010, k') \<and>
     mp_rep 0 sample_blocks (pool_of k' 0) [0x20002018] {0x2000200C, 0x20002000}"
  using rt_mp_alloc_correct [OF sample_pool_call(2) sample_pool_rep] by (auto simp: mp_allocated_def)

lemma rt_mp_free_correct_witness:
  "\<exists>k'. rt_mp_free 0x20002004 sample_pool = Some k' \<and>
     mp_released 0 sample_blocks [0x2000200C, 0x20002018] {0x20002000} 0x20002000 sample_pool k'"
proof -
  have c: "rt_current_thread sample_pool \<noteq> None" using in_callD(2) [OF sample_pool_call(1)] by simp
  show ?thesis using rt_mp_free_correct [OF sample_pool_kinv c sample_pool_rep, where b = "0x20002000"] by simp
qed

subsection \<open>Runs of a pool\<close>

text \<open>
  Any interleaving of allocations, their continued rounds, releases of blocks that are out and
  whatever else the kernel does without touching the pool and its headers; \<open>A\<close> are the blocks
  that are out.
\<close>

abbreviation now_out :: "mp_result \<Rightarrow> u32 set \<Rightarrow> u32 set" where
  "now_out r A \<equiv> (case r of Mp_block a \<Rightarrow> if a = 0 then A else insert (a - 4) A | Mp_blocked _ \<Rightarrow> A)"

inductive mp_run :: "nat \<Rightarrow> u32 set \<Rightarrow> kernel \<Rightarrow> u32 set \<Rightarrow> kernel \<Rightarrow> u32 set \<Rightarrow> bool" for p B k0 A0 where
  start: "mp_run p B k0 A0 k0 A0"
| alloc: "mp_run p B k0 A0 k A \<Longrightarrow> may_call k time \<Longrightarrow> rt_mp_alloc p time k = Some (r, k') \<Longrightarrow> mp_run p B k0 A0 k' (now_out r A)"
| alloc_again: "mp_run p B k0 A0 k A \<Longrightarrow> in_call k c \<Longrightarrow> timeout_ok (time_left time from (rt_tick k)) \<Longrightarrow>
    rt_mp_alloc_resume p c time from k = Some (r, k') \<Longrightarrow> mp_run p B k0 A0 k' (now_out r A)"
| free: "mp_run p B k0 A0 k A \<Longrightarrow> rt_current_thread k \<noteq> None \<Longrightarrow> b \<in> A \<Longrightarrow> rt_mp_free (b + 4) k = Some k' \<Longrightarrow>
    mp_run p B k0 A0 k' (A - {b})"
| other: "mp_run p B k0 A0 k A \<Longrightarrow> kinv k' \<Longrightarrow> mempools k' p = mempools k p \<Longrightarrow>
    (\<forall>b \<in> B. mp_links k' b = mp_links k b) \<Longrightarrow> mp_run p B k0 A0 k' A"

definition mp_inv :: "nat \<Rightarrow> u32 set \<Rightarrow> kernel \<Rightarrow> u32 set \<Rightarrow> bool" where
  "mp_inv p B k A \<longleftrightarrow> kinv k \<and> (\<exists>fs. mp_rep p B (pool_of k p) fs A)"

lemma mp_allocated_step:
  assumes r: "mp_rep p B (pool_of k p) fs A" and a: "mp_allocated p B fs A time k res k'"
  shows "mp_inv p B k' (now_out res A)" "\<And>x. res = Mp_block x \<Longrightarrow> x \<noteq> 0 \<Longrightarrow> x - 4 \<in> B - A"
proof -
  have "mp_inv p B k' (now_out res A) \<and> (\<forall>x. res = Mp_block x \<and> x \<noteq> 0 \<longrightarrow> x - 4 \<in> B - A)"
  proof (cases fs)
    case (Cons b fs')
    then have e: "res = Mp_block (b + 4)" "mp_rep p B (pool_of k' p) fs' (insert b A)" "kinv k'"
      using a by (simp_all add: mp_allocated_def)
    have "b + 4 \<noteq> 0" "b \<in> B" "b \<notin> A" using r Cons by (auto simp: mp_rep_def)
    then show ?thesis using e by (auto simp: mp_inv_def)
  next
    case Nil
    then have e: "kinv k'" "pool_of k' p = pool_of k p" "now_out res A = A" "\<forall>x. res = Mp_block x \<longrightarrow> x = 0"
      using a by (auto simp: mp_allocated_def split: if_splits)
    then show ?thesis using r Nil by (auto simp: mp_inv_def)
  qed
  then show "mp_inv p B k' (now_out res A)" "\<And>x. res = Mp_block x \<Longrightarrow> x \<noteq> 0 \<Longrightarrow> x - 4 \<in> B - A" by auto
qed

lemma mp_rep_cong:
  "mp_rep p B (mp, links) fs A \<Longrightarrow> (\<forall>b \<in> B. links' b = links b) \<Longrightarrow> mp_rep p B (mp, links') fs A"
proof -
  assume r: "mp_rep p B (mp, links) fs A" and l: "\<forall>b \<in> B. links' b = links b"
  have "mp_chain links' h fs = mp_chain links h fs" for h
    using r l by (intro mp_chain_cong) (auto simp: mp_rep_def)
  then show ?thesis using r l by (auto simp: mp_rep_def)
qed

lemma mp_run_inv:
  assumes "mp_run p B k0 A0 k A" "mp_inv p B k0 A0"
  shows "mp_inv p B k A"
  using assms
proof (induction rule: mp_run.induct)
  case (alloc k A time r k')
  then obtain fs where fs: "mp_rep p B (pool_of k p) fs A" by (auto simp: mp_inv_def)
  obtain r' k'' where "rt_mp_alloc p time k = Some (r', k'')" "mp_allocated p B fs A time k r' k''"
    by (rule mp_alloc_ok [OF alloc.hyps(2) fs])
  then have "mp_allocated p B fs A time k r k'" using alloc.hyps(3) by simp
  from mp_allocated_step(1) [OF fs this] show ?case .
next
  case (alloc_again k A c time "from" r k')
  then obtain fs where fs: "mp_rep p B (pool_of k p) fs A" "kinv k" by (auto simp: mp_inv_def)
  show ?case
  proof (cases "thread_error (threads k c) = RT_EOK")
    case True
    let ?left = "time_left time from (rt_tick k)"
    have mc: "may_call k ?left" using alloc_again.hyps(2,3) in_callD(1,2) [OF alloc_again.hyps(2)] by (auto simp: may_call_def)
    obtain r' k'' where "mp_alloc_loop p (Some c) ?left k = Some (r', k'')" "mp_allocated p B fs A ?left k r' k''"
      by (rule mp_alloc_loop_ok [OF mc _ fs(1), of c "Some c"]) (use alloc_again.hyps(2) in auto)
    then have "mp_allocated p B fs A ?left k r k'" using alloc_again.hyps(4) True by (simp add: rt_mp_alloc_resume_def)
    from mp_allocated_step(1) [OF fs(1) this] show ?thesis .
  next
    case False
    then have "k' = k" "r = Mp_block 0" using alloc_again.hyps(4) by (auto simp: rt_mp_alloc_resume_def)
    then show ?thesis using alloc_again.IH alloc_again.prems by simp
  qed
next
  case (free k A b k')
  then obtain fs where fs: "mp_rep p B (pool_of k p) fs A" "kinv k" by (auto simp: mp_inv_def)
  obtain k'' where "rt_mp_free (b + 4) k = Some k''" "mp_released p B fs A b k k''"
    by (rule mp_free_ok [OF fs(2) free.hyps(2) fs(1) free.hyps(3)])
  then show ?case using free.hyps(4) by (auto simp: mp_inv_def mp_released_def)
next
  case (other k A k')
  then show ?case using mp_rep_cong by (fastforce simp: mp_inv_def)
qed simp

text \<open>C17: over every interleaving no block of a memory pool is handed out twice: the blocks stay divided
  between the free list and those that are out, the free count is right, and an allocation that
  returns a block returns one of the pool that is not out.\<close>

theorem mp_never_allocates_twice:
  assumes "mp_run p B k0 A0 k A" "mp_inv p B k0 A0"
  shows "mp_inv p B k A \<and> unat (block_free_count (mempools k p)) + card A = card B \<and>
    (\<forall>time x k'. may_call k time \<and> rt_mp_alloc p time k = Some (Mp_block x, k') \<and> x \<noteq> 0 \<longrightarrow> x - 4 \<in> B - A)"
proof -
  have i: "mp_inv p B k A" by (rule mp_run_inv [OF assms])
  then obtain fs where fs: "mp_rep p B (pool_of k p) fs A" by (auto simp: mp_inv_def)
  have "x - 4 \<in> B - A" if mc: "may_call k time" and ex: "rt_mp_alloc p time k = Some (Mp_block x, k')" and "x \<noteq> 0" for time x k'
  proof -
    obtain r' k'' where "rt_mp_alloc p time k = Some (r', k'')" "mp_allocated p B fs A time k r' k''"
      by (rule mp_alloc_ok [OF mc fs])
    then have "mp_allocated p B fs A time k (Mp_block x) k'" using ex by simp
    from mp_allocated_step(2) [OF fs this refl \<open>x \<noteq> 0\<close>] show ?thesis .
  qed
  moreover have "unat (block_free_count (mempools k p)) + card A = card B"
    using mp_rep_count [OF fs] fs by (simp add: mp_rep_def)
  ultimately show ?thesis using i by blast
qed

lemma mp_never_allocates_twice_witness:
  "\<exists>k'. mp_run 0 sample_blocks sample_pool {0x20002000} k' {0x2000200C, 0x20002000} \<and>
     mp_inv 0 sample_blocks k' {0x2000200C, 0x20002000} \<and> block_free_count (mempools k' 0) = 1"
proof -
  have i: "mp_inv 0 sample_blocks sample_pool {0x20002000}" using sample_pool_rep sample_pool_kinv by (auto simp: mp_inv_def)
  obtain r k' where k': "rt_mp_alloc 0 0 sample_pool = Some (r, k')"
    "mp_allocated 0 sample_blocks [0x2000200C, 0x20002018] {0x20002000} 0 sample_pool r k'"
    by (rule mp_alloc_ok [OF sample_pool_call(2) sample_pool_rep])
  then have r: "r = Mp_block 0x20002010" by (simp add: mp_allocated_def)
  have run: "mp_run 0 sample_blocks sample_pool {0x20002000} k' {0x2000200C, 0x20002000}"
    using mp_run.alloc [OF mp_run.start sample_pool_call(2) k'(1)] r by simp
  note t = mp_never_allocates_twice [OF run i]
  then have "unat (block_free_count (mempools k' 0)) = 1" by (simp add: card_insert_if)
  then have "block_free_count (mempools k' 0) = 1" by (metis unat_1 word_unat_eq_iff)
  then show ?thesis using run t by blast
qed


text \<open>the set-up of a pool whose area ends within the address space divides it: every block is on the
  free list, the blocks with their headers do not overlap and lie in the area. When the area is
  too small for one block, the last step of the set-up writes a null header in front of the area,
  into memory that is not the pool's.\<close>

lemma mp_setup_divides_area:
  assumes "unat base + unat n * unat step \<le> 2 ^ 32" "4 < step" "base \<noteq> 0"
    "block_list mp = base" "block_total_count mp = n" "block_free_count mp = n"
  shows "(n \<noteq> 0 \<longrightarrow> mp_rep p (set (mp_blocks base step (unat n))) (mp, mp_setup_blocks base step n links)
      (mp_blocks base step (unat n)) {}) \<and>
    (\<forall>i < unat n. unat base \<le> unat (mp_blocks base step (unat n) ! i) \<and>
      unat (mp_blocks base step (unat n) ! i) + unat step \<le> unat base + unat n * unat step) \<and>
    (\<forall>j < unat n. \<forall>i < j. unat (mp_blocks base step (unat n) ! i) + unat step \<le> unat (mp_blocks base step (unat n) ! j)) \<and>
    (n = 0 \<longrightarrow> mp_setup_blocks base step n links = links(base - step := Next_block 0))"
proof -
  have st: "0 < step" using assms(2) by (simp add: word_less_nat_alt)
  have nth: "mp_blocks base step (unat n) ! i = base + of_nat i * step" if "i < unat n" for i
    using that by (simp add: mp_blocks_def)
  have "unat base \<le> unat (base + of_nat i * step) \<and> unat (base + of_nat i * step) + unat step \<le> unat base + unat n * unat step"
    if "i < unat n" for i
  proof -
    have "Suc i * unat step \<le> unat n * unat step" using that by (intro mult_right_mono) auto
    then show ?thesis using unat_block [OF assms(1) that st] by simp
  qed
  moreover have "unat (base + of_nat i * step) + unat step \<le> unat (base + of_nat j * step)" if "i < j" "j < unat n" for i j
    by (rule blocks_apart [OF assms(1) that st])
  moreover have "mp_setup_blocks base step 0 links = links(base - step := Next_block 0)"
    by (simp add: mp_setup_blocks_def)
  ultimately show ?thesis using mp_setup_rep [OF assms(1-3) _ assms(4-6)] by (simp add: nth)
qed

lemma mp_setup_divides_area_witness:
  "mp_rep 0 (set (mp_blocks 0x20002000 12 3))
     (zero_mempool\<lparr>block_list := 0x20002000, block_total_count := 3, block_free_count := 3\<rparr>,
      mp_setup_blocks 0x20002000 12 3 (\<lambda>_. Owner_pool 1)) (mp_blocks 0x20002000 12 3) {}"
  using mp_setup_divides_area [of "0x20002000" 3 12 "zero_mempool\<lparr>block_list := 0x20002000, block_total_count := 3, block_free_count := 3\<rparr>" 0 "\<lambda>_. Owner_pool 1"]
  by simp

text \<open>a pool is a stack of blocks: any sequence of takes and gives that the list of free blocks admits
  succeeds on the linked headers with the same blocks, the one given back last being taken first.\<close>

lemma mempool_is_block_pool:
  assumes "mp_rep p B s fs A" "free_list_run ops fs A = Some (out, fs', A')"
  shows "\<exists>s'. pool_run (mp_take p) mp_give ops s = Some (out, s') \<and> mp_rep p B s' fs' A' \<and> set fs' \<union> A' = set fs \<union> A"
  by (rule mpool.run_ok [OF assms])

lemma mempool_is_block_pool_witness:
  "\<exists>s'. pool_run (mp_take 0) mp_give [Take_block, Give_block 0x20002000, Take_block] (pool_of sample_pool 0) =
     Some ([0x2000200C, 0x20002000], s')"
proof -
  have "free_list_run [Take_block, Give_block 0x20002000, Take_block] [0x2000200C, 0x20002018] {0x20002000} =
    Some ([0x2000200C, 0x20002000 :: u32], [0x20002018], {0x20002000, 0x2000200C})" by auto
  from mempool_is_block_pool [OF sample_pool_rep this] show ?thesis by blast
qed

end
