(* ===== verification/RingBuffer.thy ===== *)
theory RingBuffer
  imports Prelude
begin

section \<open>Ring buffers (rt-thread/components/drivers/src/ringbuffer.c)\<close>

text \<open>
  A ring of bytes for device drivers.  Each index has 15 bits and a mirror bit that flips when
  the index goes round; equal indices mean an empty buffer in the same mirror and a full one in
  different mirrors.  The size is a signed 16-bit number.  A copy outside the object that a
  pointer points into is undefined.
\<close>

type_synonym u15 = "15 word"

record rt_ringbuffer =
  buffer_ptr :: "u8 list" \<comment> \<open>the pool\<close>
  read_mirror :: bool
  read_index :: u15
  write_mirror :: bool
  write_index :: u15
  buffer_size :: u16

datatype rt_ringbuffer_state = RT_RINGBUFFER_EMPTY | RT_RINGBUFFER_FULL | RT_RINGBUFFER_HALFFULL

definition rt_ringbuffer_status :: "rt_ringbuffer \<Rightarrow> rt_ringbuffer_state" where
  "rt_ringbuffer_status rb =
     (if read_index rb = write_index rb
      then if read_mirror rb = write_mirror rb then RT_RINGBUFFER_EMPTY else RT_RINGBUFFER_FULL
      else RT_RINGBUFFER_HALFFULL)"

text \<open>\<open>memcpy(&pool[pos], data, length data)\<close> and the bytes that \<open>memcpy\<close> reads.\<close>

definition mem_write :: "u8 list \<Rightarrow> nat \<Rightarrow> u8 list \<Rightarrow> u8 list option" where
  "mem_write pool pos bytes =
     (if pos + length bytes \<le> length pool then Some (take pos pool @ bytes @ drop (pos + length bytes) pool) else None)"

definition mem_read :: "u8 list \<Rightarrow> nat \<Rightarrow> nat \<Rightarrow> u8 list option" where
  "mem_read mem pos len = (if pos + len \<le> length mem then Some (take len (drop pos mem)) else None)"

text \<open>The size is an \<open>int\<close> in the arithmetic of the functions.\<close>

abbreviation rb_size :: "rt_ringbuffer \<Rightarrow> int" where
  "rb_size rb \<equiv> sint (buffer_size rb)"

definition rt_ringbuffer_init :: "u8 list \<Rightarrow> u16 \<Rightarrow> rt_ringbuffer option" where
  "rt_ringbuffer_init pool size_arg = do {
     require (sint size_arg > 0);
     Some \<lparr>buffer_ptr = pool, read_mirror = False, read_index = 0, write_mirror = False, write_index = 0,
           buffer_size = size_arg AND NOT 3\<rparr>
   }"

definition rt_ringbuffer_data_len :: "rt_ringbuffer \<Rightarrow> u32" where
  "rt_ringbuffer_data_len rb =
     (case rt_ringbuffer_status rb of
        RT_RINGBUFFER_EMPTY \<Rightarrow> 0
      | RT_RINGBUFFER_FULL \<Rightarrow> word_of_int (rb_size rb)
      | RT_RINGBUFFER_HALFFULL \<Rightarrow>
          if write_index rb > read_index rb then word_of_int (uint (write_index rb) - uint (read_index rb))
          else word_of_int (rb_size rb - (uint (read_index rb) - uint (write_index rb))))"

definition rt_ringbuffer_space_len :: "rt_ringbuffer \<Rightarrow> u32" where
  "rt_ringbuffer_space_len rb = word_of_int (rb_size rb) - rt_ringbuffer_data_len rb"

definition rt_ringbuffer_get_size :: "rt_ringbuffer \<Rightarrow> u16" where
  "rt_ringbuffer_get_size rb = buffer_size rb"

subsection \<open>Blocks of data\<close>

text \<open>
  The copy at the write index, which \<open>put\<close> and \<open>put_force\<close> share: in one piece when the data
  end before the end of the pool, otherwise in two pieces with a flip of the mirror.
\<close>

definition rb_write :: "u8 list \<Rightarrow> u16 \<Rightarrow> rt_ringbuffer \<Rightarrow> rt_ringbuffer option" where
  "rb_write ptr len rb =
     (if rb_size rb - uint (write_index rb) > uint len then do {
        bytes \<leftarrow> mem_read ptr 0 (unat len);
        pool \<leftarrow> mem_write (buffer_ptr rb) (unat (write_index rb)) bytes;
        Some (rb\<lparr>buffer_ptr := pool, write_index := write_index rb + ucast len\<rparr>)
      }
      else do {
        let n1 = rb_size rb - uint (write_index rb);
        require (0 \<le> n1);
        bytes1 \<leftarrow> mem_read ptr 0 (nat n1);
        pool1 \<leftarrow> mem_write (buffer_ptr rb) (unat (write_index rb)) bytes1;
        bytes2 \<leftarrow> mem_read ptr (nat n1) (nat (uint len - n1));
        pool2 \<leftarrow> mem_write pool1 0 bytes2;
        Some (rb\<lparr>buffer_ptr := pool2, write_mirror := \<not> write_mirror rb, write_index := word_of_int (uint len - n1)\<rparr>)
      })"

definition rt_ringbuffer_put :: "u8 list \<Rightarrow> u16 \<Rightarrow> rt_ringbuffer \<Rightarrow> (u32 \<times> rt_ringbuffer) option" where
  "rt_ringbuffer_put ptr len rb =
     (let sz = (ucast (rt_ringbuffer_space_len rb) :: u16) in
      if sz = 0 then Some (0, rb)
      else do {
        let len' = (if sz < len then sz else len);
        rb' \<leftarrow> rb_write ptr len' rb;
        Some (ucast len', rb')
      })"

text \<open>
  \<open>put_force\<close> keeps the last \<open>buffer_size\<close> bytes of longer data.  When the data do not fit it
  moves the read index to the write index, and flips the read mirror if the write went round.
\<close>

definition rt_ringbuffer_put_force :: "u8 list \<Rightarrow> u16 \<Rightarrow> rt_ringbuffer \<Rightarrow> (u32 \<times> rt_ringbuffer) option" where
  "rt_ringbuffer_put_force ptr len rb =
     (let space = (ucast (rt_ringbuffer_space_len rb) :: u16);
          over = uint len > rb_size rb;
          ptr' = (if over then drop (nat (uint len - rb_size rb)) ptr else ptr);
          len' = (if over then buffer_size rb else len);
          around = \<not> (rb_size rb - uint (write_index rb) > uint len') in do {
        rb1 \<leftarrow> rb_write ptr' len' rb;
        Some (ucast len',
          if len' > space then
            rb1\<lparr>read_mirror := (if around then \<not> read_mirror rb1 else read_mirror rb1), read_index := write_index rb1\<rparr>
          else rb1)
      })"

text \<open>\<open>get\<close>: the bytes copied to the caller, of which there are as many as the result says.\<close>

definition rt_ringbuffer_get :: "u16 \<Rightarrow> rt_ringbuffer \<Rightarrow> (u8 list \<times> rt_ringbuffer) option" where
  "rt_ringbuffer_get len rb =
     (let sz = rt_ringbuffer_data_len rb in
      if sz = 0 then Some ([], rb)
      else
        let len' = (if sz < ucast len then ucast sz else len) in
        if rb_size rb - uint (read_index rb) > uint len' then do {
          bytes \<leftarrow> mem_read (buffer_ptr rb) (unat (read_index rb)) (unat len');
          Some (bytes, rb\<lparr>read_index := read_index rb + ucast len'\<rparr>)
        }
        else do {
          let n1 = rb_size rb - uint (read_index rb);
          require (0 \<le> n1);
          bytes1 \<leftarrow> mem_read (buffer_ptr rb) (unat (read_index rb)) (nat n1);
          bytes2 \<leftarrow> mem_read (buffer_ptr rb) 0 (nat (uint len' - n1));
          Some (bytes1 @ bytes2, rb\<lparr>read_mirror := \<not> read_mirror rb, read_index := word_of_int (uint len' - n1)\<rparr>)
        })"

subsection \<open>Single bytes\<close>

definition rt_ringbuffer_putchar :: "u8 \<Rightarrow> rt_ringbuffer \<Rightarrow> (u32 \<times> rt_ringbuffer) option" where
  "rt_ringbuffer_putchar ch rb =
     (if rt_ringbuffer_space_len rb = 0 then Some (0, rb)
      else do {
        pool \<leftarrow> mem_write (buffer_ptr rb) (unat (write_index rb)) [ch];
        let rb1 = rb\<lparr>buffer_ptr := pool\<rparr>;
        Some (1,
          if uint (write_index rb) = rb_size rb - 1
          then rb1\<lparr>write_mirror := \<not> write_mirror rb, write_index := 0\<rparr>
          else rb1\<lparr>write_index := write_index rb + 1\<rparr>)
      })"

definition rt_ringbuffer_putchar_force :: "u8 \<Rightarrow> rt_ringbuffer \<Rightarrow> (u32 \<times> rt_ringbuffer) option" where
  "rt_ringbuffer_putchar_force ch rb = do {
     let old_state = rt_ringbuffer_status rb;
     pool \<leftarrow> mem_write (buffer_ptr rb) (unat (write_index rb)) [ch];
     let rb1 = rb\<lparr>buffer_ptr := pool\<rparr>;
     Some (1,
       if uint (write_index rb) = rb_size rb - 1 then
         let rb2 = rb1\<lparr>write_mirror := \<not> write_mirror rb, write_index := 0\<rparr> in
         if old_state = RT_RINGBUFFER_FULL
         then rb2\<lparr>read_mirror := \<not> read_mirror rb2, read_index := write_index rb2\<rparr> else rb2
       else
         let rb2 = rb1\<lparr>write_index := write_index rb + 1\<rparr> in
         if old_state = RT_RINGBUFFER_FULL then rb2\<lparr>read_index := write_index rb2\<rparr> else rb2)
   }"

definition rt_ringbuffer_getchar :: "rt_ringbuffer \<Rightarrow> (u8 option \<times> rt_ringbuffer) option" where
  "rt_ringbuffer_getchar rb =
     (if rt_ringbuffer_data_len rb = 0 then Some (None, rb)
      else do {
        bytes \<leftarrow> mem_read (buffer_ptr rb) (unat (read_index rb)) 1;
        Some (Some (hd bytes),
          if uint (read_index rb) = rb_size rb - 1
          then rb\<lparr>read_mirror := \<not> read_mirror rb, read_index := 0\<rparr>
          else rb\<lparr>read_index := read_index rb + 1\<rparr>)
      })"

definition rt_ringbuffer_reset :: "rt_ringbuffer \<Rightarrow> rt_ringbuffer" where
  "rt_ringbuffer_reset rb = rb\<lparr>read_mirror := False, read_index := 0, write_mirror := False, write_index := 0\<rparr>"

text \<open>
  \<open>rt_ringbuffer_create\<close> with the results of the two calls of \<open>rt_malloc\<close>: whether there was
  memory for the control block, and the memory of the pool.
\<close>

definition rt_ringbuffer_create :: "bool \<Rightarrow> u8 list option \<Rightarrow> u16 \<Rightarrow> rt_ringbuffer option option" where
  "rt_ringbuffer_create mem pool size_arg = do {
     require (size_arg > 0);
     (if \<not> mem then Some None
      else (case pool of
              None \<Rightarrow> Some None
            | Some bytes \<Rightarrow> map_option Some (rt_ringbuffer_init bytes (size_arg AND NOT 3))))
   }"

end
