(* ===== verification/RingBufferProps.thy ===== *)
theory RingBufferProps
  imports Fifo RingBuffer
begin

unbundle bit_operations_syntax

text \<open>
  What the ring buffer of \<open>RingBuffer\<close> does: its contents are the bytes between the indices modulo
  the size, and every operation is the operation of a bounded first-in first-out queue on them.
\<close>

subsection \<open>Writing and reading blocks of a ring\<close>

lemma ring_list_write:
  assumes n: "c + length ws \<le> n" and new: "\<And>i. i < length ws \<Longrightarrow> p' ! ((s + c + i) mod n) = ws ! i"
    and old: "\<And>j. (\<And>i. i < length ws \<Longrightarrow> j \<noteq> (s + c + i) mod n) \<Longrightarrow> p' ! j = p ! j"
  shows "ring_list p' n s (c + length ws) = ring_list p n s c @ ws"
proof (rule nth_equalityI)
  fix i assume i: "i < length (ring_list p' n s (c + length ws))"
  show "ring_list p' n s (c + length ws) ! i = (ring_list p n s c @ ws) ! i"
  proof (cases "i < c")
    case True
    have "(s + i) mod n \<noteq> (s + c + j) mod n" if "j < length ws" for j
      using ring_mod_inj [of s i n "c + j"] that True n by (auto simp: add.assoc)
    then have "p' ! ((s + i) mod n) = p ! ((s + i) mod n)" by (rule old)
    then show ?thesis using True i by (simp add: ring_list_def nth_append)
  next
    case False
    then obtain j where j: "i = c + j" "j < length ws" using i by (metis add_less_cancel_left le_add_diff_inverse length_ring_list not_less)
    then show ?thesis using new [of j] by (simp add: ring_list_def nth_append add.assoc)
  qed
qed simp

lemma ring_list_split: "ring_list p n s (a + b) = ring_list p n s a @ ring_list p n ((s + a) mod n) b"
  by (rule nth_equalityI) (auto simp: ring_list_def nth_append mod_add_left_eq)

lemma ring_list_take: "a \<le> c \<Longrightarrow> take a (ring_list p n s c) = ring_list p n s a"
  by (simp add: ring_list_def take_map)

lemma ring_list_drop: "a \<le> c \<Longrightarrow> drop a (ring_list p n s c) = ring_list p n ((s + a) mod n) (c - a)"
  using ring_list_split [of p n s a "c - a"] by (simp add: ring_list_def)

text \<open>A piece of the pool that does not go round, and one that does.\<close>

lemma ring_list_straight: "s + a \<le> n \<Longrightarrow> n \<le> length p \<Longrightarrow> ring_list p n s a = take a (drop s p)"
  by (rule nth_equalityI) (auto simp: ring_list_def)

lemma ring_list_around:
  assumes "s < n" "n \<le> s + a" "a \<le> n" "n \<le> length p"
  shows "ring_list p n s a = take (n - s) (drop s p) @ take (a - (n - s)) p"
proof -
  have "ring_list p n s a = ring_list p n s (n - s) @ ring_list p n ((s + (n - s)) mod n) (a - (n - s))"
    using ring_list_split [of p n s "n - s" "a - (n - s)"] assms by simp
  then show ?thesis using ring_list_straight [of s "n - s" n p] ring_list_straight [of 0 "a - (n - s)" n p] assms by simp
qed

lemma mem_write_total: "pos + length ws \<le> length p \<Longrightarrow> \<exists>p'. mem_write p pos ws = Some p'"
  by (simp add: mem_write_def)

lemma mem_write_nth:
  assumes "mem_write p pos ws = Some p'"
  shows "length p' = length p" "\<And>j. pos \<le> j \<Longrightarrow> j < pos + length ws \<Longrightarrow> p' ! j = ws ! (j - pos)"
    "\<And>j. j < pos \<or> pos + length ws \<le> j \<Longrightarrow> p' ! j = p ! j"
proof -
  have l: "pos + length ws \<le> length p" "p' = take pos p @ ws @ drop (pos + length ws) p"
    using assms by (auto simp: mem_write_def split: if_splits)
  show "length p' = length p" using l by simp
  show "p' ! j = ws ! (j - pos)" if "pos \<le> j" "j < pos + length ws" for j
  proof -
    have "j - pos < length ws" using that by arith
    then show ?thesis using that l by (simp add: nth_append)
  qed
  show "p' ! j = p ! j" if "j < pos \<or> pos + length ws \<le> j" for j
    using that l by (cases "j < length p") (auto simp: nth_append)
qed

subsection \<open>The contents of a ring buffer\<close>

definition rb_cap :: "rt_ringbuffer \<Rightarrow> nat" where
  "rb_cap rb = nat (rb_size rb)"

definition rb_count :: "rt_ringbuffer \<Rightarrow> nat" where
  "rb_count rb =
     (let r = unat (read_index rb); w = unat (write_index rb) in
      if r = w then if read_mirror rb = write_mirror rb then 0 else rb_cap rb
      else if r < w then w - r else rb_cap rb - (r - w))"

definition rb_wf :: "rt_ringbuffer \<Rightarrow> bool" where
  "rb_wf rb \<longleftrightarrow> 0 < rb_size rb \<and> rb_cap rb \<le> length (buffer_ptr rb) \<and>
     unat (read_index rb) < rb_cap rb \<and> unat (write_index rb) < rb_cap rb \<and>
     (read_index rb < write_index rb \<longrightarrow> read_mirror rb = write_mirror rb) \<and>
     (write_index rb < read_index rb \<longrightarrow> read_mirror rb \<noteq> write_mirror rb)"

definition rb_list :: "rt_ringbuffer \<Rightarrow> u8 list" where
  "rb_list rb = ring_list (buffer_ptr rb) (rb_cap rb) (unat (read_index rb)) (rb_count rb)"

lemma length_rb_list [simp]: "length (rb_list rb) = rb_count rb"
  by (simp add: rb_list_def)

lemma rb_bounds:
  assumes "rb_wf rb"
  shows "rb_count rb \<le> rb_cap rb" "rb_cap rb < 2 ^ 15" "rb_size rb = int (rb_cap rb)"
    "uint (read_index rb) = int (unat (read_index rb))" "uint (write_index rb) = int (unat (write_index rb))"
    "unat (write_index rb) = (unat (read_index rb) + rb_count rb) mod rb_cap rb"
proof -
  show c: "rb_size rb = int (rb_cap rb)" using assms by (simp add: rb_wf_def rb_cap_def)
  show "rb_cap rb < 2 ^ 15" using sint_lt [of "buffer_size rb"] c by simp
  show "uint (read_index rb) = int (unat (read_index rb))" "uint (write_index rb) = int (unat (write_index rb))" by simp_all
  show "rb_count rb \<le> rb_cap rb" using assms by (auto simp: rb_count_def Let_def rb_wf_def)
  show "unat (write_index rb) = (unat (read_index rb) + rb_count rb) mod rb_cap rb"
  proof -
    have "unat (read_index rb) + (rb_cap rb - (unat (read_index rb) - unat (write_index rb))) =
        unat (write_index rb) + rb_cap rb" if "unat (write_index rb) < unat (read_index rb)"
      using that assms by (auto simp: rb_wf_def)
    then show ?thesis using assms by (auto simp: rb_count_def Let_def rb_wf_def)
  qed
qed

lemma data_len_count:
  assumes "rb_wf rb"
  shows "unat (rt_ringbuffer_data_len rb) = rb_count rb" "unat (rt_ringbuffer_space_len rb) = rb_cap rb - rb_count rb"
proof -
  note b = rb_bounds [OF assms]
  let ?r = "read_index rb" and ?w = "write_index rb"
  have st: "rt_ringbuffer_data_len rb = word_of_int (int (rb_count rb))"
  proof -
    consider "?r = ?w" | "?r < ?w" | "?w < ?r" by (rule linorder_cases)
    then show ?thesis
    proof cases
      case 1
      show ?thesis
      proof (cases "read_mirror rb = write_mirror rb")
        case False
        then have c: "rb_count rb = rb_cap rb" using 1 by (simp add: rb_count_def)
        have "rt_ringbuffer_data_len rb = word_of_int (rb_size rb)"
          using 1 False by (simp add: rt_ringbuffer_data_len_def rt_ringbuffer_status_def)
        also have "\<dots> = word_of_int (int (rb_cap rb))" by (rule arg_cong [OF b(3)])
        finally show ?thesis unfolding c .
      qed (use 1 in \<open>simp add: rt_ringbuffer_data_len_def rt_ringbuffer_status_def rb_count_def\<close>)
    next
      case 2
      then have "unat ?r < unat ?w" by (simp add: word_less_nat_alt)
      then have "rb_count rb = unat ?w - unat ?r" "uint ?w - uint ?r = int (unat ?w - unat ?r)"
        unfolding b(4,5) by (simp_all add: rb_count_def Let_def of_nat_diff)
      moreover have "?r \<noteq> ?w" using 2 by auto
      ultimately show ?thesis using 2 by (simp add: rt_ringbuffer_data_len_def rt_ringbuffer_status_def)
    next
      case 3
      then have l: "unat ?w < unat ?r" by (simp add: word_less_nat_alt)
      have "unat ?r - unat ?w \<le> rb_cap rb" using assms by (auto simp: rb_wf_def)
      then have "rb_count rb = rb_cap rb - (unat ?r - unat ?w)"
        "rb_size rb - (uint ?r - uint ?w) = int (rb_cap rb - (unat ?r - unat ?w))"
        using l b(3) unfolding b(4,5) by (simp_all add: rb_count_def Let_def of_nat_diff)
      moreover have "?r \<noteq> ?w" "\<not> ?r < ?w" using 3 by auto
      ultimately show ?thesis by (simp add: rt_ringbuffer_data_len_def rt_ringbuffer_status_def)
    qed
  qed
  have u: "unat (word_of_int (int n) :: u32) = n" if "n < 2 ^ 15" for n
    using that by (simp add: unat_of_nat)
  show "unat (rt_ringbuffer_data_len rb) = rb_count rb" unfolding st using u [of "rb_count rb"] b(1,2) by simp
  have "rt_ringbuffer_space_len rb = word_of_int (int (rb_cap rb - rb_count rb))"
    unfolding rt_ringbuffer_space_len_def st b(3) using b(1) by (simp add: of_nat_diff)
  then show "unat (rt_ringbuffer_space_len rb) = rb_cap rb - rb_count rb" using u [of "rb_cap rb - rb_count rb"] b(2) by simp
qed


subsection \<open>Blocks\<close>

lemma nat_minus: "nat (int a - int b) = a - b"
  by arith

lemma unat_of_nat_15: "x < 2 ^ 15 \<Longrightarrow> unat (word_of_int (int x) :: u15) = x"
  by (simp add: unsigned_of_nat take_bit_nat_eq_self)

text \<open>The write is one copy, or two when it goes round.\<close>

lemma rb_write_straight:
  assumes wf: "rb_wf rb" and l: "unat len \<le> rb_cap rb" "unat len \<le> length ptr" and side: "unat (write_index rb) + unat len < rb_cap rb"
  obtains rb' where "rb_write ptr len rb = Some rb'" "length (buffer_ptr rb') = length (buffer_ptr rb)"
    "\<And>i. i < unat len \<Longrightarrow> buffer_ptr rb' ! ((unat (write_index rb) + i) mod rb_cap rb) = ptr ! i"
    "\<And>j. (\<And>i. i < unat len \<Longrightarrow> j \<noteq> (unat (write_index rb) + i) mod rb_cap rb) \<Longrightarrow> buffer_ptr rb' ! j = buffer_ptr rb ! j"
    "unat (write_index rb') = (unat (write_index rb) + unat len) mod rb_cap rb"
    "write_mirror rb' = (write_mirror rb \<noteq> (rb_cap rb \<le> unat (write_index rb) + unat len))"
    "buffer_size rb' = buffer_size rb" "read_index rb' = read_index rb" "read_mirror rb' = read_mirror rb"
proof -
  let ?w = "unat (write_index rb)" and ?n = "rb_cap rb" and ?m = "unat len"
  note b = rb_bounds [OF wf]
  have w: "?w < ?n" "?n \<le> length (buffer_ptr rb)" using wf by (simp_all add: rb_wf_def)
  have ul: "uint len = int ?m" by simp
  from side have c: "rb_size rb - uint (write_index rb) > uint len" unfolding b(3,5) ul by linarith
  have "length (take ?m ptr) = ?m" using l(2) by simp
  then have "?w + length (take ?m ptr) \<le> length (buffer_ptr rb)" using side w by linarith
  then obtain pool where p: "mem_write (buffer_ptr rb) ?w (take ?m ptr) = Some pool"
    using mem_write_total by blast
  note nth = mem_write_nth [OF p]
  let ?rb = "rb\<lparr>buffer_ptr := pool, write_index := write_index rb + ucast len\<rparr>"
  have m: "(?w + i) mod ?n = ?w + i" if "i < ?m" for i using that side by simp
  show ?thesis
  proof (rule that [of ?rb])
    show "rb_write ptr len rb = Some ?rb" using c p l by (simp add: rb_write_def mem_read_def)
    show "buffer_ptr ?rb ! ((?w + i) mod ?n) = ptr ! i" if "i < ?m" for i
      using nth(2) [of "?w + i"] that l m [OF that] by simp
    show "buffer_ptr ?rb ! j = buffer_ptr rb ! j" if j: "\<And>i. i < ?m \<Longrightarrow> j \<noteq> (?w + i) mod ?n" for j
    proof -
      have "j < ?w \<or> ?w + ?m \<le> j"
      proof (rule ccontr)
        assume "\<not> (j < ?w \<or> ?w + ?m \<le> j)"
        then have "?w \<le> j" "j - ?w < ?m" by arith+
        then show False using j [of "j - ?w"] m [of "j - ?w"] by simp
      qed
      then show ?thesis using nth(3) [of j] l by simp
    qed
    show "unat (write_index ?rb) = (?w + ?m) mod ?n"
      using side b(2) by (simp add: unat_word_ariths unsigned_ucast_eq take_bit_nat_eq_self)
  qed (use nth(1) side in auto)
qed

text \<open>A write that passes the end of the pool: the first part up to the end, the rest from the start.\<close>

lemma around_mod:
  fixes w :: nat
  assumes "w < n" "n \<le> w + m" "m \<le> n" "i < m"
  shows "(w + i) mod n = (if i < n - w then w + i else i - (n - w))"
proof (cases "i < n - w")
  case False
  have e: "w + i = n + (i - (n - w))" and l2: "i - (n - w) < n" using False assms by linarith+
  have "(n + (i - (n - w))) mod n = i - (n - w)" using l2 by (simp only: mod_add_self1 mod_less)
  then show ?thesis unfolding e using False by (simp only: if_False)
qed (use assms in simp)

lemma pool_write_around:
  assumes w: "w < n" "n \<le> length pool" and m: "m \<le> n" "m \<le> length ptr" "n \<le> w + m"
  obtains pool1 pool2 where "mem_write pool w (take (n - w) ptr) = Some pool1"
    "mem_write pool1 0 (take (m - (n - w)) (drop (n - w) ptr)) = Some pool2" "length pool2 = length pool"
    "\<And>i. i < m \<Longrightarrow> pool2 ! ((w + i) mod n) = ptr ! i"
    "\<And>j. (\<And>i. i < m \<Longrightarrow> j \<noteq> (w + i) mod n) \<Longrightarrow> pool2 ! j = pool ! j"
proof -
  let ?n1 = "n - w"
  have len: "length (take ?n1 ptr) = ?n1" "length (take (m - ?n1) (drop ?n1 ptr)) = m - ?n1" using w m by auto
  have "w + length (take ?n1 ptr) \<le> length pool" unfolding len using w by linarith
  then obtain pool1 where p1: "mem_write pool w (take ?n1 ptr) = Some pool1" using mem_write_total by blast
  note nth1 = mem_write_nth [OF p1]
  have "0 + length (take (m - ?n1) (drop ?n1 ptr)) \<le> length pool1" unfolding len nth1(1) using w m by linarith
  then obtain pool2 where p2: "mem_write pool1 0 (take (m - ?n1) (drop ?n1 ptr)) = Some pool2" using mem_write_total by blast
  note nth2 = mem_write_nth [OF p2]
  note mods = around_mod [OF w(1) m(3,1)]
  show ?thesis
  proof (rule that [OF p1 p2])
    show "length pool2 = length pool" using nth1(1) nth2(1) by simp
    show "pool2 ! ((w + i) mod n) = ptr ! i" if i: "i < m" for i
    proof (cases "i < ?n1")
      case True
      have "pool2 ! (w + i) = pool1 ! (w + i)" using nth2(3) [of "w + i"] len w m True by auto
      also have "\<dots> = ptr ! i" using nth1(2) [of "w + i"] True len by simp
      finally show ?thesis using mods [OF i] True by simp
    next
      case False
      then have d: "i - ?n1 < m - ?n1" "?n1 + (i - ?n1) = i" using i by linarith+
      have "i - ?n1 < 0 + length (take (m - ?n1) (drop ?n1 ptr))" unfolding len(2) using d(1) by simp
      from nth2(2) [OF le0 this] have "pool2 ! (i - ?n1) = ptr ! i" using d m i by simp
      then show ?thesis using mods [OF i] False by simp
    qed
    show "pool2 ! j = pool ! j" if j: "\<And>i. i < m \<Longrightarrow> j \<noteq> (w + i) mod n" for j
    proof -
      have "\<not> j < m - ?n1" using j [of "j + ?n1"] mods [of "j + ?n1"] by (cases "j + ?n1 < m") simp_all
      moreover have "j < w \<or> n \<le> j"
      proof (rule ccontr)
        assume "\<not> (j < w \<or> n \<le> j)"
        then have "w \<le> j" "j - w < m" "j - w < ?n1" using m(3) by arith+
        then show False using j [of "j - w"] mods [of "j - w"] by simp
      qed
      ultimately show ?thesis using nth2(3) [of j] nth1(3) [of j] len w by auto
    qed
  qed
qed

lemma rb_write_around:
  assumes wf: "rb_wf rb" and l: "unat len \<le> rb_cap rb" "unat len \<le> length ptr" and side: "\<not> unat (write_index rb) + unat len < rb_cap rb"
  obtains rb' where "rb_write ptr len rb = Some rb'" "length (buffer_ptr rb') = length (buffer_ptr rb)"
    "\<And>i. i < unat len \<Longrightarrow> buffer_ptr rb' ! ((unat (write_index rb) + i) mod rb_cap rb) = ptr ! i"
    "\<And>j. (\<And>i. i < unat len \<Longrightarrow> j \<noteq> (unat (write_index rb) + i) mod rb_cap rb) \<Longrightarrow> buffer_ptr rb' ! j = buffer_ptr rb ! j"
    "unat (write_index rb') = (unat (write_index rb) + unat len) mod rb_cap rb"
    "write_mirror rb' = (write_mirror rb \<noteq> (rb_cap rb \<le> unat (write_index rb) + unat len))"
    "buffer_size rb' = buffer_size rb" "read_index rb' = read_index rb" "read_mirror rb' = read_mirror rb"
proof -
  let ?w = "unat (write_index rb)" and ?n = "rb_cap rb" and ?m = "unat len"
  note b = rb_bounds [OF wf]
  have w: "?w < ?n" "?n \<le> length (buffer_ptr rb)" using wf by (simp_all add: rb_wf_def)
  have ul: "uint len = int ?m" by simp
  from side have c: "\<not> rb_size rb - uint (write_index rb) > uint len" unfolding b(3,5) ul by linarith
  let ?n1 = "?n - ?w"
  have n1: "rb_size rb - uint (write_index rb) = int ?n1" unfolding b(3,5) using w(1) by linarith
  have n2: "uint len - int ?n1 = int (?m - ?n1)" unfolding ul using side w(1) by linarith
  obtain pool1 pool2 where p: "mem_write (buffer_ptr rb) ?w (take ?n1 ptr) = Some pool1"
    "mem_write pool1 0 (take (?m - ?n1) (drop ?n1 ptr)) = Some pool2" and len2: "length pool2 = length (buffer_ptr rb)"
    and nth: "\<And>i. i < ?m \<Longrightarrow> pool2 ! ((?w + i) mod ?n) = ptr ! i"
      "\<And>j. (\<And>i. i < ?m \<Longrightarrow> j \<noteq> (?w + i) mod ?n) \<Longrightarrow> pool2 ! j = buffer_ptr rb ! j"
    using pool_write_around [OF w l] side by (metis not_less)
  let ?rb = "rb\<lparr>buffer_ptr := pool2, write_mirror := \<not> write_mirror rb, write_index := word_of_int (int (?m - ?n1))\<rparr>"
  have r: "mem_read ptr 0 ?n1 = Some (take ?n1 ptr)" "mem_read ptr ?n1 (?m - ?n1) = Some (take (?m - ?n1) (drop ?n1 ptr))"
    using side w l by (simp_all add: mem_read_def)
  show ?thesis
  proof (rule that [of ?rb])
    show "rb_write ptr len rb = Some ?rb"
      unfolding rb_write_def if_not_P [OF c] Let_def n1 n2 nat_int r p
      by (simp only: of_nat_0_le_iff require_True bind.bind_lunit r p c [unfolded n1] if_False)
    show "buffer_ptr ?rb ! ((?w + i) mod ?n) = ptr ! i" if "i < ?m" for i using nth(1) [OF that] by simp
    show "buffer_ptr ?rb ! j = buffer_ptr rb ! j" if "\<And>i. i < ?m \<Longrightarrow> j \<noteq> (?w + i) mod ?n" for j
      using nth(2) [OF that] by simp
    show "unat (write_index ?rb) = (?w + ?m) mod ?n"
    proof -
      have "(?w + ?m) mod ?n = (?m - ?n1) mod ?n"
      proof -
        have "?w + ?m = ?n + (?m - ?n1)" using side w by linarith
        then show ?thesis by (simp only: mod_add_self1)
      qed
      moreover have "?m - ?n1 < ?n" using l w by simp
      moreover have "unat (write_index ?rb) = ?m - ?n1"
        using unat_of_nat_15 [of "?m - ?n1"] \<open>?m - ?n1 < ?n\<close> b(2) by simp
      ultimately show ?thesis by simp
    qed
  qed (use len2 side in auto)
qed

text \<open>
  What the shared copy does: the bytes go behind the contents modulo the size, and the write
  index moves on; \<open>around\<close> says whether it went round.
\<close>

lemma rb_write_ok:
  assumes wf: "rb_wf rb" and l: "unat len \<le> rb_cap rb" "unat len \<le> length ptr"
  obtains rb' where "rb_write ptr len rb = Some rb'" "length (buffer_ptr rb') = length (buffer_ptr rb)"
    "\<And>i. i < unat len \<Longrightarrow> buffer_ptr rb' ! ((unat (write_index rb) + i) mod rb_cap rb) = ptr ! i"
    "\<And>j. (\<And>i. i < unat len \<Longrightarrow> j \<noteq> (unat (write_index rb) + i) mod rb_cap rb) \<Longrightarrow> buffer_ptr rb' ! j = buffer_ptr rb ! j"
    "unat (write_index rb') = (unat (write_index rb) + unat len) mod rb_cap rb"
    "write_mirror rb' = (write_mirror rb \<noteq> (rb_cap rb \<le> unat (write_index rb) + unat len))"
    "buffer_size rb' = buffer_size rb" "read_index rb' = read_index rb" "read_mirror rb' = read_mirror rb"
proof (cases "unat (write_index rb) + unat len < rb_cap rb")
  case True
  show ?thesis by (rule rb_write_straight [OF assms True]) (fact that)
next
  case False
  show ?thesis by (rule rb_write_around [OF assms False]) (fact that)
qed


subsection \<open>Indices with their mirrors\<close>

text \<open>An index and its mirror are a position in two rounds of the pool; the fill level is a difference of positions.\<close>

definition vpos :: "nat \<Rightarrow> bool \<Rightarrow> nat \<Rightarrow> nat" where
  "vpos n mir i = i + (if mir then n else 0)"

definition vcount :: "nat \<Rightarrow> nat \<Rightarrow> nat \<Rightarrow> nat" where
  "vcount n a b = (b + 2 * n - a) mod (2 * n)"

lemma mod_shift: "x < y \<Longrightarrow> (y + x) mod y = (x :: nat)"
  by simp

lemma vpos_less: "i < n \<Longrightarrow> vpos n mir i < 2 * n"
  by (simp add: vpos_def)

lemma vpos_advance:
  assumes "i < n" "m \<le> n"
  shows "vpos n (mir \<noteq> (n \<le> i + m)) ((i + m) mod n) = (vpos n mir i + m) mod (2 * n)"
proof (cases "n \<le> i + m")
  case True
  then have e: "i + m = n + (i + m - n)" "i + m - n < n" using assms by linarith+
  have "(i + m) mod n = (n + (i + m - n)) mod n" using e(1) by (rule arg_cong)
  then have "(i + m) mod n = i + m - n" using mod_shift [OF e(2)] by (rule trans)
  moreover have "(i + n + m) mod (2 * n) = i + m - n"
  proof -
    have "i + n + m = 2 * n + (i + m - n)" using e by linarith
    moreover have "i + m - n < 2 * n" using e(2) by linarith
    ultimately show ?thesis by (simp only: mod_shift)
  qed
  ultimately show ?thesis using True e assms by (cases mir) (auto simp: vpos_def)
next
  case False
  then show ?thesis by (cases mir) (auto simp: vpos_def)
qed

lemma vcount_zero: "a < 2 * n \<Longrightarrow> vcount n a a = 0"
  by (simp add: vcount_def)

lemma vcount_advance:
  assumes "a < 2 * n" "vcount n a b + m < 2 * n"
  shows "vcount n a ((b + m) mod (2 * n)) = vcount n a b + m"
proof -
  have "vcount n a ((b + m) mod (2 * n)) = (b + m + (2 * n - a)) mod (2 * n)"
  proof -
    have "(b + m) mod (2 * n) + 2 * n - a = (b + m) mod (2 * n) + (2 * n - a)" using assms(1) by linarith
    then show ?thesis unfolding vcount_def by (simp only: mod_add_left_eq)
  qed
  also have "\<dots> = (vcount n a b + m) mod (2 * n)"
  proof -
    have "b + m + (2 * n - a) = (b + 2 * n - a) + m" using assms(1) by linarith
    then show ?thesis unfolding vcount_def by (simp only: mod_add_left_eq)
  qed
  finally show ?thesis using assms(2) by simp
qed

lemma vcount_consume:
  assumes "a < 2 * n" "m \<le> vcount n a b"
  shows "vcount n ((a + m) mod (2 * n)) b = vcount n a b - m"
proof (cases "n = 0")
  case False
  let ?a = "(a + m) mod (2 * n)"
  have a': "?a < 2 * n" using False by simp
  obtain q where q: "a + m = q * (2 * n) + ?a" by (metis div_mod_decomp)
  have "int (vcount n ?a b) = (int b + 2 * int n - int ?a) mod (2 * int n)"
    using a' by (simp add: vcount_def zmod_int of_nat_diff)
  also have "int ?a = int a + int m - int q * (2 * int n)"
  proof -
    have "int a + int m = int q * (2 * int n) + int ?a" using arg_cong [OF q, of int] by simp
    then show ?thesis by linarith
  qed
  also have "int b + 2 * int n - (int a + int m - int q * (2 * int n)) = (int b + 2 * int n - int a - int m) + int q * (2 * int n)" by simp
  also have "\<dots> mod (2 * int n) = (int b + 2 * int n - int a - int m) mod (2 * int n)" by (rule mod_mult_self1)
  also have "\<dots> = ((int b + 2 * int n - int a) mod (2 * int n) - int m) mod (2 * int n)" by (simp add: mod_diff_left_eq)
  also have "(int b + 2 * int n - int a) mod (2 * int n) = int (vcount n a b)"
    using assms(1) by (simp add: vcount_def zmod_int of_nat_diff)
  also have "(int (vcount n a b) - int m) mod (2 * int n) = int (vcount n a b) - int m"
  proof -
    have "vcount n a b < 2 * n" using False by (simp add: vcount_def)
    then show ?thesis using assms(2) by (intro mod_pos_pos_trivial) linarith+
  qed
  finally show ?thesis using assms(2) by linarith
qed (use assms in \<open>simp add: vcount_def\<close>)

lemma rb_wf_positions:
  assumes "0 < rb_size rb" "unat (read_index rb) < rb_cap rb" "unat (write_index rb) < rb_cap rb" "rb_cap rb \<le> length (buffer_ptr rb)"
  defines "c \<equiv> vcount (rb_cap rb) (vpos (rb_cap rb) (read_mirror rb) (unat (read_index rb)))
      (vpos (rb_cap rb) (write_mirror rb) (unat (write_index rb)))"
  shows "rb_wf rb \<longleftrightarrow> c \<le> rb_cap rb" "rb_wf rb \<Longrightarrow> rb_count rb = c"
proof -
  let ?n = "rb_cap rb" and ?r = "unat (read_index rb)" and ?w = "unat (write_index rb)"
  have s: "read_index rb = write_index rb \<longleftrightarrow> ?r = ?w" "read_index rb < write_index rb \<longleftrightarrow> ?r < ?w"
    "write_index rb < read_index rb \<longleftrightarrow> ?w < ?r" by (simp_all add: word_unat_eq_iff word_less_nat_alt)
  have same: "vcount ?n (vpos ?n a ?r) (vpos ?n a ?w) = (if ?r \<le> ?w then ?w - ?r else 2 * ?n - (?r - ?w))" for a
  proof (cases "?r \<le> ?w")
    case True
    then have "vpos ?n a ?w + 2 * ?n - vpos ?n a ?r = 2 * ?n + (?w - ?r)" by (simp add: vpos_def)
    moreover have "?w - ?r < 2 * ?n" using assms(3) by linarith
    ultimately show ?thesis using True unfolding vcount_def by (simp only: mod_shift if_True)
  next
    case False
    then have "vpos ?n a ?w + 2 * ?n - vpos ?n a ?r = 2 * ?n - (?r - ?w)" by (simp add: vpos_def)
    moreover have "2 * ?n - (?r - ?w) < 2 * ?n" using False assms(2) by linarith
    ultimately show ?thesis using False by (simp add: vcount_def)
  qed
  have differ: "vcount ?n (vpos ?n a ?r) (vpos ?n (\<not> a) ?w) = (if ?r < ?w then ?n + (?w - ?r) else ?n - (?r - ?w))" for a
  proof (cases a)
    case True
    have "vpos ?n (\<not> a) ?w + 2 * ?n - vpos ?n a ?r = (if ?r < ?w then ?n + (?w - ?r) else ?n - (?r - ?w))"
      using True assms(2) by (auto simp: vpos_def)
    moreover have "\<dots> < 2 * ?n" using assms(2,3) by auto
    ultimately show ?thesis by (simp add: vcount_def)
  next
    case False
    have "vpos ?n (\<not> a) ?w + 2 * ?n - vpos ?n a ?r = 2 * ?n + (if ?r < ?w then ?n + (?w - ?r) else ?n - (?r - ?w))"
      using False assms(2) by (auto simp: vpos_def)
    moreover have "(if ?r < ?w then ?n + (?w - ?r) else ?n - (?r - ?w)) < 2 * ?n" using assms(2,3) by auto
    ultimately show ?thesis unfolding vcount_def by (simp only: mod_shift)
  qed
  have c: "c = (if read_mirror rb = write_mirror rb then if ?r \<le> ?w then ?w - ?r else 2 * ?n - (?r - ?w)
      else if ?r < ?w then ?n + (?w - ?r) else ?n - (?r - ?w))"
    unfolding c_def using same [of "read_mirror rb"] differ [of "read_mirror rb"] by (cases "read_mirror rb"; cases "write_mirror rb") auto
  show "rb_wf rb \<longleftrightarrow> c \<le> ?n" using assms(1-4) unfolding c rb_wf_def s by auto
  show "rb_count rb = c" if "rb_wf rb" using that unfolding c rb_wf_def s by (auto simp: rb_count_def Let_def)
qed

subsection \<open>The operations on blocks\<close>

abbreviation rd_pos :: "rt_ringbuffer \<Rightarrow> nat" where
  "rd_pos rb \<equiv> vpos (rb_cap rb) (read_mirror rb) (unat (read_index rb))"

abbreviation wr_pos :: "rt_ringbuffer \<Rightarrow> nat" where
  "wr_pos rb \<equiv> vpos (rb_cap rb) (write_mirror rb) (unat (write_index rb))"

lemma rb_wfD:
  assumes "rb_wf rb"
  shows "0 < rb_size rb" "unat (read_index rb) < rb_cap rb" "unat (write_index rb) < rb_cap rb"
    "rb_cap rb \<le> length (buffer_ptr rb)" "rb_count rb = vcount (rb_cap rb) (rd_pos rb) (wr_pos rb)"
    "rd_pos rb < 2 * rb_cap rb" "wr_pos rb < 2 * rb_cap rb" "0 < rb_cap rb"
proof -
  show p: "0 < rb_size rb" "unat (read_index rb) < rb_cap rb" "unat (write_index rb) < rb_cap rb"
    "rb_cap rb \<le> length (buffer_ptr rb)" using assms by (simp_all add: rb_wf_def)
  show "rb_count rb = vcount (rb_cap rb) (rd_pos rb) (wr_pos rb)" by (rule rb_wf_positions(2) [OF p assms])
qed (use assms in \<open>auto simp: rb_wf_def vpos_less\<close>)

text \<open>Moving the write index on by \<open>m\<close> and the read index by \<open>d\<close>.\<close>

lemma rb_moved:
  assumes wf: "rb_wf rb" and m: "m \<le> rb_cap rb" "d \<le> rb_cap rb"
    and w: "unat (write_index rb') = (unat (write_index rb) + m) mod rb_cap rb"
      "write_mirror rb' = (write_mirror rb \<noteq> (rb_cap rb \<le> unat (write_index rb) + m))"
    and r: "unat (read_index rb') = (unat (read_index rb) + d) mod rb_cap rb"
      "read_mirror rb' = (read_mirror rb \<noteq> (rb_cap rb \<le> unat (read_index rb) + d))"
    and f: "buffer_size rb' = buffer_size rb" "length (buffer_ptr rb') = length (buffer_ptr rb)"
    and c: "d \<le> rb_count rb + m" "rb_count rb + m - d \<le> rb_cap rb" "rb_count rb + m < 2 * rb_cap rb"
  shows "rb_wf rb'" "rb_count rb' = rb_count rb + m - d" "rb_cap rb' = rb_cap rb"
proof -
  note b = rb_wfD [OF wf]
  show cap: "rb_cap rb' = rb_cap rb" using f(1) by (simp add: rb_cap_def)
  have W: "wr_pos rb' = (wr_pos rb + m) mod (2 * rb_cap rb)" unfolding cap w by (rule vpos_advance [OF b(3) m(1)])
  have R: "rd_pos rb' = (rd_pos rb + d) mod (2 * rb_cap rb)" unfolding cap r by (rule vpos_advance [OF b(2) m(2)])
  have v: "vcount (rb_cap rb) (rd_pos rb) (wr_pos rb') = rb_count rb + m"
    unfolding W b(5) by (rule vcount_advance [OF b(6)]) (use c(3) b(5) in simp)
  have "d \<le> vcount (rb_cap rb) (rd_pos rb) (wr_pos rb')" unfolding v by (rule c(1))
  from vcount_consume [OF b(6) this]
  have "vcount (rb_cap rb') (rd_pos rb') (wr_pos rb') = rb_count rb + m - d" unfolding R [symmetric] v [unfolded cap] cap .
  moreover have "0 < rb_size rb'" "unat (read_index rb') < rb_cap rb'" "unat (write_index rb') < rb_cap rb'"
    "rb_cap rb' \<le> length (buffer_ptr rb')" using b f w(1) r(1) unfolding cap by simp_all
  note p = rb_wf_positions [OF this]
  ultimately show "rb_wf rb'" "rb_count rb' = rb_count rb + m - d" using p c(2) unfolding cap by auto
qed

lemma put_ok:
  assumes wf: "rb_wf rb" and l: "unat len \<le> length ptr"
  obtains rb' where "rt_ringbuffer_put ptr len rb = Some (of_nat (min (unat len) (rb_cap rb - rb_count rb)), rb')" "rb_wf rb'"
    "rb_list rb' = rb_list rb @ take (min (unat len) (rb_cap rb - rb_count rb)) ptr" "rb_cap rb' = rb_cap rb"
proof -
  let ?sp = "rb_cap rb - rb_count rb" and ?n = "rb_cap rb"
  note b = rb_bounds [OF wf] and d = rb_wfD [OF wf] and sl = data_len_count(2) [OF wf]
  define sz where "sz = (ucast (rt_ringbuffer_space_len rb) :: u16)"
  have us: "unat sz = ?sp" using sl b(2) by (simp add: sz_def unsigned_ucast_eq take_bit_nat_eq_self)
  show ?thesis
  proof (cases "sz = 0")
    case True
    then have z: "?sp = 0" using us by simp
    have "rt_ringbuffer_put ptr len rb = Some (of_nat (min (unat len) ?sp), rb)"
      unfolding rt_ringbuffer_put_def sz_def [symmetric] Let_def if_P [OF True] z by simp
    then show ?thesis by (rule that [of rb]) (simp_all only: wf z min_0R take_0 append_Nil2)
  next
    case False
    define m where "m = (if sz < len then sz else len)"
    have um: "unat m = min (unat len) ?sp" using us by (auto simp: m_def word_less_nat_alt)
    have ml: "unat m \<le> ?n" "unat m \<le> length ptr" using um l by simp_all
    obtain rb' where rb': "rb_write ptr m rb = Some rb'" "length (buffer_ptr rb') = length (buffer_ptr rb)"
      "\<And>i. i < unat m \<Longrightarrow> buffer_ptr rb' ! ((unat (write_index rb) + i) mod ?n) = ptr ! i"
      "\<And>j. (\<And>i. i < unat m \<Longrightarrow> j \<noteq> (unat (write_index rb) + i) mod ?n) \<Longrightarrow> buffer_ptr rb' ! j = buffer_ptr rb ! j"
      "unat (write_index rb') = (unat (write_index rb) + unat m) mod ?n"
      "write_mirror rb' = (write_mirror rb \<noteq> (?n \<le> unat (write_index rb) + unat m))"
      "buffer_size rb' = buffer_size rb" "read_index rb' = read_index rb" "read_mirror rb' = read_mirror rb"
      by (rule rb_write_ok [OF wf ml]) blast
    have r0: "unat (read_index rb') = (unat (read_index rb) + 0) mod ?n"
      "read_mirror rb' = (read_mirror rb \<noteq> (?n \<le> unat (read_index rb) + 0))" using rb'(8,9) d(2) by simp_all
    have cm: "rb_count rb + unat m \<le> ?n" using um b(1) by simp
    note mv = rb_moved [OF wf ml(1) le0 rb'(5,6) r0 rb'(7,2)]
    have mv': "rb_wf rb'" "rb_count rb' = rb_count rb + unat m" "rb_cap rb' = ?n" using mv cm d(8) by simp_all
    have w: "(unat (write_index rb) + i) mod ?n = (unat (read_index rb) + rb_count rb + i) mod ?n" for i
      unfolding b(6) by (simp add: mod_add_left_eq)
    have "rb_list rb' = rb_list rb @ take (unat m) ptr"
      using ring_list_write [of "rb_count rb" "take (unat m) ptr" ?n "buffer_ptr rb'" "unat (read_index rb)" "buffer_ptr rb"]
        rb'(3,4,8) cm ml(2) mv' by (simp add: rb_list_def w)
    moreover have "rt_ringbuffer_put ptr len rb = Some (of_nat (min (unat len) ?sp), rb')"
    proof -
      have "(ucast m :: u32) = of_nat (unat m)" by simp
      then show ?thesis
        unfolding rt_ringbuffer_put_def sz_def [symmetric] Let_def m_def [symmetric] if_not_P [OF False] rb'(1) um [symmetric] by simp
    qed
    ultimately show ?thesis using that mv'(1,3) um by simp
  qed
qed

text \<open>The ring after \<open>k\<close> bytes were read: only the read index and its mirror have moved.\<close>

definition rb_read_past :: "rt_ringbuffer \<Rightarrow> nat \<Rightarrow> rt_ringbuffer \<Rightarrow> bool" where
  "rb_read_past rb k rb' \<longleftrightarrow>
     unat (read_index rb') = (unat (read_index rb) + k) mod rb_cap rb \<and>
     read_mirror rb' = (read_mirror rb \<noteq> (rb_cap rb \<le> unat (read_index rb) + k)) \<and>
     buffer_ptr rb' = buffer_ptr rb \<and> write_index rb' = write_index rb \<and> write_mirror rb' = write_mirror rb \<and>
     buffer_size rb' = buffer_size rb"

lemma read_past_list:
  assumes wf: "rb_wf rb" and k: "k \<le> rb_count rb" and r: "rb_read_past rb k rb'"
  shows "rb_wf rb'" "rb_list rb' = drop k (rb_list rb)" "rb_cap rb' = rb_cap rb"
proof -
  let ?n = "rb_cap rb"
  note b = rb_bounds [OF wf] and d = rb_wfD [OF wf]
  have o: "unat (read_index rb') = (unat (read_index rb) + k) mod ?n" "read_mirror rb' = (read_mirror rb \<noteq> (?n \<le> unat (read_index rb) + k))"
    "buffer_ptr rb' = buffer_ptr rb" "write_index rb' = write_index rb" "write_mirror rb' = write_mirror rb" "buffer_size rb' = buffer_size rb"
    using r by (simp_all add: rb_read_past_def)
  have w0: "unat (write_index rb') = (unat (write_index rb) + 0) mod ?n"
    "write_mirror rb' = (write_mirror rb \<noteq> (?n \<le> unat (write_index rb) + 0))" using o(4,5) d(3) by simp_all
  have kn: "k \<le> ?n" "length (buffer_ptr rb') = length (buffer_ptr rb)" using k b(1) o(3) by simp_all
  note mv = rb_moved [OF wf le0 kn(1) w0 o(1,2,6) kn(2)]
  show "rb_wf rb'" "rb_cap rb' = ?n" using mv k b(1) d(8) by simp_all
  have "rb_count rb' = rb_count rb - k" using mv k b(1) d(8) by simp
  then show "rb_list rb' = drop k (rb_list rb)"
    using ring_list_drop [OF k, of "buffer_ptr rb" ?n "unat (read_index rb)"] \<open>rb_cap rb' = ?n\<close> o(1,3) by (simp add: rb_list_def)
qed

lemma get_reads:
  assumes wf: "rb_wf rb" and ne: "rt_ringbuffer_data_len rb \<noteq> 0"
    and m: "m = (if rt_ringbuffer_data_len rb < ucast len then ucast (rt_ringbuffer_data_len rb) else len)" and mn: "unat m \<le> rb_cap rb"
  shows "\<exists>rb'. rt_ringbuffer_get len rb = Some (ring_list (buffer_ptr rb) (rb_cap rb) (unat (read_index rb)) (unat m), rb') \<and>
    rb_read_past rb (unat m) rb'"
proof -
  let ?n = "rb_cap rb" and ?r = "unat (read_index rb)"
  note b = rb_bounds [OF wf] and d = rb_wfD [OF wf]
  have uu: "uint m = int (unat m)" by simp
  show ?thesis
  proof (cases "?r + unat m < ?n")
    case True
    then have c: "rb_size rb - uint (read_index rb) > uint m" unfolding b(3,4) uu by linarith
    let ?rb = "rb\<lparr>read_index := read_index rb + ucast m\<rparr>"
    have rd: "mem_read (buffer_ptr rb) ?r (unat m) = Some (ring_list (buffer_ptr rb) ?n ?r (unat m))"
      using ring_list_straight [of ?r "unat m" ?n "buffer_ptr rb"] True d(4) by (simp add: mem_read_def)
    have "rt_ringbuffer_get len rb = Some (ring_list (buffer_ptr rb) ?n ?r (unat m), ?rb)"
      unfolding rt_ringbuffer_get_def Let_def m [symmetric] using ne c rd by simp
    moreover have "unat (read_index ?rb) = (?r + unat m) mod ?n"
      using True b(2) by (simp add: unat_word_ariths unsigned_ucast_eq take_bit_nat_eq_self)
    ultimately show ?thesis using True by (intro exI [of _ ?rb]) (simp add: rb_read_past_def)
  next
    case wrap: False
    then have c: "\<not> rb_size rb - uint (read_index rb) > uint m" unfolding b(3,4) uu by linarith
    let ?n1 = "?n - ?r"
    have n1: "rb_size rb - uint (read_index rb) = int ?n1" unfolding b(3,4) using d(2) by linarith
    have n2: "uint m - int ?n1 = int (unat m - ?n1)" unfolding uu using wrap d(2) by linarith
    let ?rb = "rb\<lparr>read_mirror := \<not> read_mirror rb, read_index := word_of_int (int (unat m - ?n1))\<rparr>"
    have rd: "mem_read (buffer_ptr rb) ?r ?n1 = Some (take ?n1 (drop ?r (buffer_ptr rb)))"
      "mem_read (buffer_ptr rb) 0 (unat m - ?n1) = Some (take (unat m - ?n1) (buffer_ptr rb))"
      using d(2,4) mn by (simp_all add: mem_read_def)
    have e: "take ?n1 (drop ?r (buffer_ptr rb)) @ take (unat m - ?n1) (buffer_ptr rb) = ring_list (buffer_ptr rb) ?n ?r (unat m)"
      using ring_list_around [of ?r ?n "unat m" "buffer_ptr rb"] wrap d(2,4) mn by simp
    have "rt_ringbuffer_get len rb = Some (take ?n1 (drop ?r (buffer_ptr rb)) @ take (unat m - ?n1) (buffer_ptr rb), ?rb)"
      unfolding rt_ringbuffer_get_def Let_def m [symmetric] if_not_P [OF ne] if_not_P [OF c] n1 n2 nat_int
      by (simp only: of_nat_0_le_iff require_True bind.bind_lunit rd c [unfolded n1] if_False)
    moreover have "unat (read_index ?rb) = (?r + unat m) mod ?n"
    proof -
      have lt: "unat m - ?n1 < ?n" using mn d(2) by linarith
      have "?r + unat m = ?n + (unat m - ?n1)" using wrap d(2) by linarith
      then have "(?r + unat m) mod ?n = unat m - ?n1" using lt by (simp only: mod_shift)
      then show ?thesis using unat_of_nat_15 [of "unat m - ?n1"] lt b(2) by simp
    qed
    ultimately show ?thesis using wrap unfolding e by (intro exI [of _ ?rb]) (simp add: rb_read_past_def)
  qed
qed

lemma get_ok:
  assumes wf: "rb_wf rb"
  obtains (got) rb' where "rt_ringbuffer_get len rb = Some (take (unat len) (rb_list rb), rb')" "rb_wf rb'"
    "rb_list rb' = drop (unat len) (rb_list rb)" "rb_cap rb' = rb_cap rb"
proof (cases "rt_ringbuffer_data_len rb = 0")
  case True
  then have "rb_count rb = 0" using data_len_count(1) [OF wf] by simp
  then have "rb_list rb = []" by (simp add: rb_list_def)
  then show ?thesis using got [of rb] True wf by (simp add: rt_ringbuffer_get_def)
next
  case False
  define m where "m = (if rt_ringbuffer_data_len rb < ucast len then ucast (rt_ringbuffer_data_len rb) else len)"
  note b = rb_bounds [OF wf] and dl = data_len_count(1) [OF wf]
  have um: "unat m = min (unat len) (rb_count rb)"
    using dl b(1,2) by (auto simp: m_def word_less_nat_alt unsigned_ucast_eq take_bit_nat_eq_self unsigned_less [THEN less_le_trans])
  have ml: "unat m \<le> rb_count rb" "unat m \<le> rb_cap rb" using um b(1) by simp_all
  obtain rb' where r: "rt_ringbuffer_get len rb = Some (ring_list (buffer_ptr rb) (rb_cap rb) (unat (read_index rb)) (unat m), rb')"
    "rb_read_past rb (unat m) rb'" using get_reads [OF wf False m_def ml(2)] by blast
  have "take (unat len) (rb_list rb) = ring_list (buffer_ptr rb) (rb_cap rb) (unat (read_index rb)) (unat m)"
    using um ring_list_take [OF ml(1), of "buffer_ptr rb" "rb_cap rb" "unat (read_index rb)"]
    by (cases "unat len \<le> rb_count rb") (simp_all add: rb_list_def)
  moreover have "drop (unat len) (rb_list rb) = drop (unat m) (rb_list rb)"
    using um by (cases "unat len \<le> rb_count rb") simp_all
  ultimately show ?thesis using got [of rb'] r(1) read_past_list [OF wf ml(1) r(2)] by simp
qed


subsection \<open>Writes that may overwrite\<close>

text \<open>The bytes that \<open>put_force\<close> copies, and the contents it leaves.\<close>

definition forced_data :: "nat \<Rightarrow> u8 list \<Rightarrow> nat \<Rightarrow> u8 list" where
  "forced_data cap ptr len = (let m = min len cap in take m (drop (len - m) ptr))"

definition forced_list :: "rt_ringbuffer \<Rightarrow> u8 list \<Rightarrow> u8 list" where
  "forced_list rb bytes =
     (if rb_count rb + length bytes \<le> rb_cap rb then rb_list rb @ bytes
      else if read_mirror rb = write_mirror rb then []
      else drop (rb_count rb + length bytes - rb_cap rb) (rb_list rb @ bytes))"

text \<open>With different mirrors the write index is behind the read index in the pool.\<close>

lemma rb_mirrors:
  assumes "rb_wf rb"
  shows "read_mirror rb \<noteq> write_mirror rb \<Longrightarrow> unat (read_index rb) + rb_count rb = unat (write_index rb) + rb_cap rb"
    "read_mirror rb = write_mirror rb \<Longrightarrow> unat (read_index rb) + rb_count rb = unat (write_index rb)"
proof -
  show "unat (read_index rb) + rb_count rb = unat (write_index rb) + rb_cap rb" if "read_mirror rb \<noteq> write_mirror rb"
    using that assms by (auto simp: rb_wf_def rb_count_def Let_def word_less_nat_alt)
  show "unat (read_index rb) + rb_count rb = unat (write_index rb)" if "read_mirror rb = write_mirror rb"
    using that assms by (auto simp: rb_wf_def rb_count_def Let_def word_less_nat_alt word_unat_eq_iff)
qed

text \<open>The ring \<open>rb1\<close> has the first \<open>k\<close> of the bytes \<open>ps\<close> behind the write index, which has moved over them.\<close>

definition rb_written :: "rt_ringbuffer \<Rightarrow> u8 list \<Rightarrow> nat \<Rightarrow> rt_ringbuffer \<Rightarrow> bool" where
  "rb_written rb ps k rb1 \<longleftrightarrow>
     length (buffer_ptr rb1) = length (buffer_ptr rb) \<and>
     (\<forall>i < k. buffer_ptr rb1 ! ((unat (write_index rb) + i) mod rb_cap rb) = ps ! i) \<and>
     (\<forall>j. (\<forall>i < k. j \<noteq> (unat (write_index rb) + i) mod rb_cap rb) \<longrightarrow> buffer_ptr rb1 ! j = buffer_ptr rb ! j) \<and>
     unat (write_index rb1) = (unat (write_index rb) + k) mod rb_cap rb \<and>
     write_mirror rb1 = (write_mirror rb \<noteq> (rb_cap rb \<le> unat (write_index rb) + k)) \<and>
     buffer_size rb1 = buffer_size rb \<and> read_index rb1 = read_index rb \<and> read_mirror rb1 = read_mirror rb"

lemma rb_writtenD:
  assumes "rb_written rb ps k rb1"
  shows "length (buffer_ptr rb1) = length (buffer_ptr rb)"
    "\<And>i. i < k \<Longrightarrow> buffer_ptr rb1 ! ((unat (write_index rb) + i) mod rb_cap rb) = ps ! i"
    "\<And>j. (\<And>i. i < k \<Longrightarrow> j \<noteq> (unat (write_index rb) + i) mod rb_cap rb) \<Longrightarrow> buffer_ptr rb1 ! j = buffer_ptr rb ! j"
    "unat (write_index rb1) = (unat (write_index rb) + k) mod rb_cap rb"
    "write_mirror rb1 = (write_mirror rb \<noteq> (rb_cap rb \<le> unat (write_index rb) + k))"
    "buffer_size rb1 = buffer_size rb" "read_index rb1 = read_index rb" "read_mirror rb1 = read_mirror rb"
  using assms by (simp_all add: rb_written_def)

lemma write_offset: "rb_wf rb \<Longrightarrow> (unat (write_index rb) + i) mod rb_cap rb = (unat (read_index rb) + rb_count rb + i) mod rb_cap rb"
  using rb_bounds(6) [of rb] by (simp add: mod_add_left_eq)

lemma written_fits:
  assumes wf: "rb_wf rb" and k: "k \<le> rb_cap rb" "k \<le> length ps" and w: "rb_written rb ps k rb1" and fits: "rb_count rb + k \<le> rb_cap rb"
  shows "rb_wf rb1 \<and> rb_cap rb1 = rb_cap rb \<and> rb_list rb1 = rb_list rb @ take k ps"
proof -
  note r = rb_writtenD [OF w] and d = rb_wfD [OF wf]
  have r0: "unat (read_index rb1) = (unat (read_index rb) + 0) mod rb_cap rb"
    "read_mirror rb1 = (read_mirror rb \<noteq> (rb_cap rb \<le> unat (read_index rb) + 0))"
    using r(7,8) d(2) by simp_all
  note mv = rb_moved [OF wf k(1) le0 r(4,5) r0 r(6,1)]
  have mv': "rb_wf rb1" "rb_count rb1 = rb_count rb + k" "rb_cap rb1 = rb_cap rb" using mv fits d(8) by simp_all
  have "rb_list rb1 = rb_list rb @ take k ps"
    using ring_list_write [of "rb_count rb" "take k ps" "rb_cap rb" "buffer_ptr rb1" "unat (read_index rb)" "buffer_ptr rb"]
      r(2,3,7) fits k(2) mv' by (simp add: rb_list_def write_offset [OF wf])
  then show ?thesis using mv' by simp
qed

text \<open>What \<open>rt_ringbuffer_put_force\<close> makes of a ring whose old bytes were overwritten.\<close>

definition rb_overrun :: "rt_ringbuffer \<Rightarrow> nat \<Rightarrow> rt_ringbuffer \<Rightarrow> rt_ringbuffer" where
  "rb_overrun rb k rb1 =
     rb1\<lparr>read_mirror := (read_mirror rb \<noteq> (rb_cap rb \<le> unat (write_index rb) + k)), read_index := write_index rb1\<rparr>"

lemma overrun_empty:
  assumes wf: "rb_wf rb" and w: "rb_written rb ps k rb1" and same: "read_mirror rb = write_mirror rb"
  shows "rb_wf (rb_overrun rb k rb1) \<and> rb_cap (rb_overrun rb k rb1) = rb_cap rb \<and> rb_list (rb_overrun rb k rb1) = []"
proof -
  let ?rb = "rb_overrun rb k rb1"
  note r = rb_writtenD [OF w] and d = rb_wfD [OF wf]
  have cap: "rb_cap ?rb = rb_cap rb" using r(6) by (simp add: rb_overrun_def rb_cap_def)
  have eq: "read_index ?rb = write_index ?rb" "read_mirror ?rb = write_mirror ?rb" using r(5) same by (simp_all add: rb_overrun_def)
  have "rb_count ?rb = 0" using eq by (simp add: rb_count_def Let_def)
  moreover have "rb_wf ?rb" unfolding rb_wf_def cap using eq r(1,4,6) d by (simp add: rb_overrun_def)
  ultimately show ?thesis using cap by (simp add: rb_list_def)
qed

lemma overrun_full:
  assumes wf: "rb_wf rb" and k: "k \<le> rb_cap rb" "k \<le> length ps" and w: "rb_written rb ps k rb1" and diff: "read_mirror rb \<noteq> write_mirror rb"
    and over: "\<not> rb_count rb + k \<le> rb_cap rb"
  shows "rb_wf (rb_overrun rb k rb1) \<and> rb_cap (rb_overrun rb k rb1) = rb_cap rb \<and>
    rb_list (rb_overrun rb k rb1) = drop (rb_count rb + k - rb_cap rb) (rb_list rb) @ take k ps"
proof -
  let ?rb = "rb_overrun rb k rb1" and ?n = "rb_cap rb" and ?w = "unat (write_index rb)" and ?r = "unat (read_index rb)"
  note r = rb_writtenD [OF w] and d = rb_wfD [OF wf]
  define l where "l = rb_count rb + k - ?n"
  have l: "?r + l = ?w + k" "l \<le> rb_count rb" "rb_count rb - l + k = ?n" using rb_mirrors(1) [OF wf diff] over k(1) by (auto simp: l_def)
  have cap: "rb_cap ?rb = ?n" using r(6) by (simp add: rb_overrun_def rb_cap_def)
  have r0: "unat (read_index ?rb) = (?r + l) mod ?n" using r(4) by (simp add: rb_overrun_def l(1))
  have eq: "read_index ?rb = write_index ?rb" "read_mirror ?rb \<noteq> write_mirror ?rb" using r(5) diff by (auto simp: rb_overrun_def)
  have cnt: "rb_count ?rb = ?n" using eq cap by (simp add: rb_count_def Let_def)
  have "rb_list ?rb = ring_list (buffer_ptr rb1) ?n ((?r + l) mod ?n) (rb_count rb - l + k)"
    using r0 by (simp add: rb_list_def cnt cap l(3)) (simp add: rb_overrun_def)
  also have "\<dots> = ring_list (buffer_ptr rb) ?n ((?r + l) mod ?n) (rb_count rb - l) @ take k ps"
  proof -
    have "((?r + l) mod ?n + (rb_count rb - l) + i) mod ?n = (?w + i) mod ?n" for i
    proof -
      have "((?r + l) mod ?n + (rb_count rb - l) + i) mod ?n = (?r + l + (rb_count rb - l) + i) mod ?n"
        using mod_add_left_eq [of "?r + l" ?n "rb_count rb - l + i"] by (simp only: add.assoc)
      also have "?r + l + (rb_count rb - l) + i = ?r + rb_count rb + i" using l(2) by simp
      finally show ?thesis by (simp only: write_offset [OF wf])
    qed
    moreover have "length (take k ps) = k" using k(2) by simp
    ultimately show ?thesis
      using ring_list_write [of "rb_count rb - l" "take k ps" ?n "buffer_ptr rb1" "(?r + l) mod ?n" "buffer_ptr rb"] r(2,3) l(3) by simp
  qed
  also have "ring_list (buffer_ptr rb) ?n ((?r + l) mod ?n) (rb_count rb - l) = drop l (rb_list rb)"
    unfolding rb_list_def by (rule ring_list_drop [OF l(2), symmetric])
  moreover have "rb_wf ?rb" unfolding rb_wf_def cap using eq r(1,4,6) d by (simp add: rb_overrun_def)
  ultimately show ?thesis using cap by (simp add: l_def)
qed

lemma put_force_writes:
  assumes wf: "rb_wf rb" and l: "unat len \<le> length ptr" and k: "k = min (unat len) (rb_cap rb)"
  obtains ps rb1 where "k \<le> length ps" "forced_data (rb_cap rb) ptr (unat len) = take k ps" "rb_written rb ps k rb1"
    "rt_ringbuffer_put_force ptr len rb = Some (of_nat k, if rb_count rb + k \<le> rb_cap rb then rb1 else rb_overrun rb k rb1)"
proof -
  let ?n = "rb_cap rb" and ?w = "unat (write_index rb)"
  define ov where "ov = (uint len > rb_size rb)"
  define ps where "ps = (if ov then drop (nat (uint len - rb_size rb)) ptr else ptr)"
  define m where "m = (if ov then buffer_size rb else len)"
  define space where "space = (ucast (rt_ringbuffer_space_len rb) :: u16)"
  define around where "around = (\<not> (rb_size rb - uint (write_index rb) > uint m))"
  note b = rb_bounds [OF wf]
  have ul: "uint len = int (unat len)" "uint m = int (unat m)" by simp_all
  have ov: "ov \<longleftrightarrow> ?n < unat len" unfolding ov_def b(3) ul by (rule of_nat_less_iff)
  have "buffer_size rb = word_of_int (rb_size rb)" by simp
  also have "\<dots> = of_nat ?n" unfolding b(3) by simp
  finally have bs: "unat (buffer_size rb) = ?n" using b(2) by (simp add: unsigned_of_nat take_bit_nat_eq_self)
  have um: "unat m = k" using ov bs by (simp add: m_def k)
  have pt: "ps = drop (unat len - k) ptr" using um ov unfolding ps_def k b(3) ul(1) nat_minus by simp
  have ml: "unat m \<le> ?n" "unat m \<le> length ps" using um l k pt by simp_all
  have ar: "around \<longleftrightarrow> ?n \<le> ?w + k" unfolding around_def b(3,5) ul um by linarith
  obtain rb1 where rb1: "rb_write ps m rb = Some rb1" "rb_written rb ps k rb1"
    by (rule rb_write_ok [OF wf ml]) (simp add: rb_written_def um)
  have "unat space = ?n - rb_count rb"
    using data_len_count(2) [OF wf] b(2) by (simp add: space_def unsigned_ucast_eq take_bit_nat_eq_self)
  then have sp: "m > space \<longleftrightarrow> \<not> rb_count rb + k \<le> ?n" using um b(1) by (auto simp: word_less_nat_alt)
  have "(ucast m :: u32) = of_nat k" unfolding um [symmetric] by simp
  moreover have "rb1\<lparr>read_mirror := (if around then \<not> read_mirror rb1 else read_mirror rb1), read_index := write_index rb1\<rparr> = rb_overrun rb k rb1"
    using rb_writtenD(8) [OF rb1(2)] by (auto simp: rb_overrun_def ar)
  ultimately have "rt_ringbuffer_put_force ptr len rb = Some (of_nat k, if rb_count rb + k \<le> ?n then rb1 else rb_overrun rb k rb1)"
    unfolding rt_ringbuffer_put_force_def Let_def ov_def [symmetric] ps_def [symmetric] m_def [symmetric]
      space_def [symmetric] around_def [symmetric] rb1(1) using sp by simp
  moreover have "forced_data ?n ptr (unat len) = take k ps" unfolding forced_data_def Let_def k [symmetric] pt ..
  ultimately show ?thesis using that [OF _ _ rb1(2)] ml(2) um by simp
qed

lemma put_force_ok:
  assumes wf: "rb_wf rb" and l: "unat len \<le> length ptr"
  obtains (got) rb' where "rt_ringbuffer_put_force ptr len rb = Some (of_nat (min (unat len) (rb_cap rb)), rb')" "rb_wf rb'"
    "rb_list rb' = forced_list rb (forced_data (rb_cap rb) ptr (unat len))" "rb_cap rb' = rb_cap rb"
proof -
  define k where "k = min (unat len) (rb_cap rb)"
  obtain ps rb1 where p: "k \<le> length ps" "forced_data (rb_cap rb) ptr (unat len) = take k ps" "rb_written rb ps k rb1"
    "rt_ringbuffer_put_force ptr len rb = Some (of_nat k, if rb_count rb + k \<le> rb_cap rb then rb1 else rb_overrun rb k rb1)"
    by (rule put_force_writes [OF wf l k_def]) blast
  have k: "k \<le> rb_cap rb" by (simp add: k_def)
  have fl: "forced_list rb (take k ps) =
     (if rb_count rb + k \<le> rb_cap rb then rb_list rb @ take k ps
      else if read_mirror rb = write_mirror rb then []
      else drop (rb_count rb + k - rb_cap rb) (rb_list rb) @ take k ps)"
    using p(1) k rb_bounds(1) [OF wf] by (simp add: forced_list_def)
  consider "rb_count rb + k \<le> rb_cap rb" | "\<not> rb_count rb + k \<le> rb_cap rb" "read_mirror rb = write_mirror rb"
    | "\<not> rb_count rb + k \<le> rb_cap rb" "read_mirror rb \<noteq> write_mirror rb" by blast
  then show ?thesis
  proof cases
    case 1
    then show ?thesis using got [of rb1] written_fits [OF wf k p(1,3) 1] p(4) unfolding p(2) fl by (simp add: k_def)
  next
    case 2
    then show ?thesis using got [of "rb_overrun rb k rb1"] overrun_empty [OF wf p(3) 2(2)] p(4) unfolding p(2) fl by (simp add: k_def)
  next
    case 3
    then show ?thesis using got [of "rb_overrun rb k rb1"] overrun_full [OF wf k p(1,3) 3(2,1)] p(4) unfolding p(2) fl by (simp add: k_def)
  qed
qed


subsection \<open>Single bytes\<close>

lemma rb_single:
  assumes "rb_wf rb"
  shows "rb_size rb - uint (write_index rb) > 1 \<longleftrightarrow> uint (write_index rb) \<noteq> rb_size rb - 1"
    "rb_size rb - uint (read_index rb) > 1 \<longleftrightarrow> uint (read_index rb) \<noteq> rb_size rb - 1"
    "(ucast (rt_ringbuffer_space_len rb) :: u16) = 0 \<longleftrightarrow> rt_ringbuffer_space_len rb = 0"
    "\<not> (ucast (rt_ringbuffer_space_len rb) :: u16) < 1 \<longleftrightarrow> rt_ringbuffer_space_len rb \<noteq> 0"
    "\<not> rt_ringbuffer_data_len rb < 1 \<longleftrightarrow> rt_ringbuffer_data_len rb \<noteq> 0"
    "rt_ringbuffer_status rb = RT_RINGBUFFER_FULL \<longleftrightarrow> rt_ringbuffer_space_len rb = 0"
proof -
  note b = rb_bounds [OF assms] and d = rb_wfD [OF assms] and sl = data_len_count [OF assms]
  show "rb_size rb - uint (write_index rb) > 1 \<longleftrightarrow> uint (write_index rb) \<noteq> rb_size rb - 1"
    "rb_size rb - uint (read_index rb) > 1 \<longleftrightarrow> uint (read_index rb) \<noteq> rb_size rb - 1"
    unfolding b(3,4,5) using d(2,3) by linarith+
  have us: "unat (ucast (rt_ringbuffer_space_len rb) :: u16) = rb_cap rb - rb_count rb"
    using sl(2) b(2) by (simp add: unsigned_ucast_eq take_bit_nat_eq_self)
  show z: "(ucast (rt_ringbuffer_space_len rb) :: u16) = 0 \<longleftrightarrow> rt_ringbuffer_space_len rb = 0"
    unfolding unat_eq_zero [symmetric] us sl(2) ..
  show "\<not> (ucast (rt_ringbuffer_space_len rb) :: u16) < 1 \<longleftrightarrow> rt_ringbuffer_space_len rb \<noteq> 0"
    using z by (simp add: word_less_nat_alt unat_eq_zero)
  show "\<not> rt_ringbuffer_data_len rb < 1 \<longleftrightarrow> rt_ringbuffer_data_len rb \<noteq> 0"
    by (simp add: word_less_nat_alt unat_eq_zero)
  have "rb_count rb = rb_cap rb \<longleftrightarrow> rt_ringbuffer_status rb = RT_RINGBUFFER_FULL"
    using rb_mirrors [OF assms] d(2,3,8) by (auto simp: rt_ringbuffer_status_def word_unat_eq_iff)
  moreover have "rt_ringbuffer_space_len rb = 0 \<longleftrightarrow> rb_count rb = rb_cap rb"
    unfolding unat_eq_zero [symmetric] sl(2) using b(1) by auto
  ultimately show "rt_ringbuffer_status rb = RT_RINGBUFFER_FULL \<longleftrightarrow> rt_ringbuffer_space_len rb = 0" by simp
qed

lemma putchar_block:
  assumes "rb_wf rb"
  shows "rt_ringbuffer_putchar ch rb = rt_ringbuffer_put [ch] 1 rb"
  using rb_single [OF assms]
  by (auto simp: rt_ringbuffer_putchar_def rt_ringbuffer_put_def rb_write_def mem_read_def Let_def bind_eq_Some_conv mem_write_def
      split: if_splits)


lemma getchar_block:
  assumes "rb_wf rb"
  shows "rt_ringbuffer_getchar rb =
    map_option (\<lambda>(bytes, rb'). (if bytes = [] then None else Some (hd bytes), rb')) (rt_ringbuffer_get 1 rb)"
proof (cases "rt_ringbuffer_data_len rb = 0")
  case False
  have m: "mem_read p i (Suc 0) \<noteq> Some []" "mem_read p 0 0 = Some []" for p i
    by (auto simp: mem_read_def drop_eq_Nil)
  have s: "rb_size rb - uint (read_index rb) = 1 \<longleftrightarrow> uint (read_index rb) = rb_size rb - 1" by linarith
  show ?thesis
  proof (cases "uint (read_index rb) = rb_size rb - 1")
    case True
    then show ?thesis using False rb_single(5) [OF assms] m
      by (cases "mem_read (buffer_ptr rb) (unat (read_index rb)) (Suc 0)")
        (auto simp: rt_ringbuffer_getchar_def rt_ringbuffer_get_def Let_def)
  next
    case ne: False
    then have c: "rb_size rb - uint (read_index rb) > 1" using rb_single(2) [OF assms] by simp
    then show ?thesis using False ne rb_single(5) [OF assms] m
      by (cases "mem_read (buffer_ptr rb) (unat (read_index rb)) (Suc 0)")
        (auto simp: rt_ringbuffer_getchar_def rt_ringbuffer_get_def Let_def)
  qed
qed (simp add: rt_ringbuffer_getchar_def rt_ringbuffer_get_def)

lemma putchar_force_block:
  assumes "rb_wf rb"
  shows "rt_ringbuffer_putchar_force ch rb = rt_ringbuffer_put_force [ch] 1 rb"
proof -
  have o: "\<not> (1 :: int) > rb_size rb" using rb_wfD(1) [OF assms] by simp
  have f: "(ucast (rt_ringbuffer_space_len rb) :: u16) < 1 \<longleftrightarrow> rt_ringbuffer_status rb = RT_RINGBUFFER_FULL"
    using rb_single(4,6) [OF assms] by blast
  have r: "mem_read [ch] 0 1 = Some [ch]" "mem_read [ch] 1 0 = Some []" "mem_write p 0 [] = Some p" for p
    by (simp_all add: mem_read_def mem_write_def)
  show ?thesis
  proof (cases "uint (write_index rb) = rb_size rb - 1")
    case True
    then show ?thesis using o f r
      by (auto simp: rt_ringbuffer_putchar_force_def rt_ringbuffer_put_force_def rb_write_def Let_def)
  next
    case False
    then have "rb_size rb - uint (write_index rb) > 1" using rb_single(1) [OF assms] by simp
    then show ?thesis using False o f r
      by (auto simp: rt_ringbuffer_putchar_force_def rt_ringbuffer_put_force_def rb_write_def Let_def)
  qed
qed


subsection \<open>A queue of bytes\<close>

definition rb_put_byte :: "u8 \<Rightarrow> rt_ringbuffer \<Rightarrow> rt_ringbuffer option" where
  "rb_put_byte ch rb =
     (case rt_ringbuffer_putchar ch rb of Some (n, rb') \<Rightarrow> if n = 1 then Some rb' else None | None \<Rightarrow> None)"

definition rb_get_byte :: "rt_ringbuffer \<Rightarrow> (u8 \<times> rt_ringbuffer) option" where
  "rb_get_byte rb = (case rt_ringbuffer_getchar rb of Some (Some ch, rb') \<Rightarrow> Some (ch, rb') | _ \<Rightarrow> None)"

interpretation rbq: fifo rb_wf rb_list rb_cap "\<lambda>_ _. True" rb_put_byte rb_get_byte
proof unfold_locales
  fix rb and ch :: u8
  assume rb: "rb_wf rb"
  show "length (rb_list rb) \<le> rb_cap rb" using rb_bounds(1) [OF rb] by simp
  assume "length (rb_list rb) < rb_cap rb"
  then have c: "min (unat (1 :: u16)) (rb_cap rb - rb_count rb) = 1" by simp
  have l: "unat (1 :: u16) \<le> length [ch]" by simp
  obtain rb' where "rt_ringbuffer_put [ch] 1 rb = Some (of_nat (min (unat (1 :: u16)) (rb_cap rb - rb_count rb)), rb')" "rb_wf rb'"
    "rb_list rb' = rb_list rb @ take (min (unat (1 :: u16)) (rb_cap rb - rb_count rb)) [ch]" "rb_cap rb' = rb_cap rb"
    by (rule put_ok [OF rb l]) blast
  then show "\<exists>s'. rb_put_byte ch rb = Some s' \<and> rb_wf s' \<and> rb_list s' = rb_list rb @ [ch] \<and> rb_cap s' = rb_cap rb \<and> (\<lambda>_. True) = (\<lambda>_ :: u8. True)"
    unfolding rb_put_byte_def putchar_block [OF rb] c by simp
next
  fix rb x xs
  assume rb: "rb_wf rb" and x: "rb_list rb = x # xs"
  obtain rb' where "rt_ringbuffer_get 1 rb = Some (take (unat (1 :: u16)) (rb_list rb), rb')" "rb_wf rb'"
    "rb_list rb' = drop (unat (1 :: u16)) (rb_list rb)" "rb_cap rb' = rb_cap rb" by (rule get_ok [OF rb]) blast
  then show "\<exists>s'. rb_get_byte rb = Some (x, s') \<and> rb_wf s' \<and> rb_list s' = xs \<and> rb_cap s' = rb_cap rb \<and> (\<lambda>_. True) = (\<lambda>_ :: u8. True)"
    unfolding rb_get_byte_def getchar_block [OF rb] x by simp
qed

text \<open>Calls with blocks and bytes: the bytes accepted and the bytes delivered, in order.\<close>

datatype rb_call = PutBlock "u8 list" u16 | GetBlock u16 | PutByte u8 | GetByte

fun rb_call_ok :: "rb_call \<Rightarrow> bool" where
  "rb_call_ok (PutBlock ptr len) = (unat len \<le> length ptr)"
| "rb_call_ok _ = True"

fun rb_step :: "rb_call \<Rightarrow> rt_ringbuffer \<Rightarrow> (u8 list \<times> u8 list \<times> rt_ringbuffer) option" where
  "rb_step (PutBlock ptr len) rb = map_option (\<lambda>(n, rb'). (take (unat n) ptr, [], rb')) (rt_ringbuffer_put ptr len rb)"
| "rb_step (GetBlock len) rb = map_option (\<lambda>(bytes, rb'). ([], bytes, rb')) (rt_ringbuffer_get len rb)"
| "rb_step (PutByte ch) rb = map_option (\<lambda>(n, rb'). (take (unat n) [ch], [], rb')) (rt_ringbuffer_putchar ch rb)"
| "rb_step GetByte rb = map_option (\<lambda>(b, rb'). ([], (case b of None \<Rightarrow> [] | Some ch \<Rightarrow> [ch]), rb')) (rt_ringbuffer_getchar rb)"

fun rb_run :: "rb_call list \<Rightarrow> rt_ringbuffer \<Rightarrow> (u8 list \<times> u8 list \<times> rt_ringbuffer) option" where
  "rb_run [] rb = Some ([], [], rb)"
| "rb_run (c # cs) rb = do {
     (ins, outs, rb1) \<leftarrow> rb_step c rb;
     (ins', outs', rb2) \<leftarrow> rb_run cs rb1;
     Some (ins @ ins', outs @ outs', rb2)
   }"

lemma put_step:
  assumes wf: "rb_wf rb" and l: "unat len \<le> length ptr"
  shows "\<exists>n rb'. rt_ringbuffer_put ptr len rb = Some (n, rb') \<and> rb_wf rb' \<and> rb_list rb' = rb_list rb @ take (unat n) ptr \<and>
    rb_cap rb' = rb_cap rb"
proof (rule put_ok [OF wf l])
  fix rb'
  let ?m = "min (unat len) (rb_cap rb - rb_count rb)"
  have "?m < 2 ^ 32" unfolding min_less_iff_disj using rb_bounds(2) [OF wf] by (intro disjI2) simp
  then have u: "unat (of_nat ?m :: u32) = ?m" by (simp add: unsigned_of_nat take_bit_nat_eq_self)
  assume "rt_ringbuffer_put ptr len rb = Some (of_nat ?m, rb')" "rb_wf rb'" "rb_list rb' = rb_list rb @ take ?m ptr" "rb_cap rb' = rb_cap rb"
  then show ?thesis using u by metis
qed

lemma rb_step_ok:
  assumes wf: "rb_wf rb" and c: "rb_call_ok c"
  shows "\<exists>ins outs rb'. rb_step c rb = Some (ins, outs, rb') \<and> rb_wf rb' \<and> rb_cap rb' = rb_cap rb \<and>
    outs @ rb_list rb' = rb_list rb @ ins"
proof (cases c)
  case (PutBlock ptr len)
  then show ?thesis using put_step [OF wf, of len ptr] c by auto
next
  case (PutByte ch)
  then show ?thesis using put_step [OF wf, of 1 "[ch]"] putchar_block [OF wf, of ch] by auto
next
  case (GetBlock len)
  then show ?thesis by simp (rule get_ok [OF wf, of len], simp)
next
  case GetByte
  then show ?thesis unfolding GetByte rb_step.simps getchar_block [OF wf]
    by (cases "rb_list rb") (rule get_ok [OF wf, of 1], simp)+
qed


text \<open>C18: For any sequence of calls with blocks and bytes the ring buffer never halts, and the bytes
  delivered followed by the contents are the contents at the start followed by the bytes that
  the calls accepted: nothing is lost, made up or reordered, however often the indices go round.\<close>

theorem ring_buffer_stream:
  assumes "rb_wf rb" "list_all rb_call_ok cs"
  shows "\<exists>ins outs rb'. rb_run cs rb = Some (ins, outs, rb') \<and> rb_wf rb' \<and> rb_cap rb' = rb_cap rb \<and>
    outs @ rb_list rb' = rb_list rb @ ins"
  using assms
proof (induction cs arbitrary: rb)
  case (Cons c cs)
  obtain ins outs rb1 where s: "rb_step c rb = Some (ins, outs, rb1)" "rb_wf rb1" "rb_cap rb1 = rb_cap rb"
    "outs @ rb_list rb1 = rb_list rb @ ins" using rb_step_ok [of rb c] Cons.prems by auto
  obtain ins' outs' rb2 where r: "rb_run cs rb1 = Some (ins', outs', rb2)" "rb_wf rb2" "rb_cap rb2 = rb_cap rb1"
    "outs' @ rb_list rb2 = rb_list rb1 @ ins'" using Cons.IH [OF s(2)] Cons.prems(2) by auto
  have "(outs @ outs') @ rb_list rb2 = rb_list rb @ ins @ ins'" using s(4) r(4) by (metis append.assoc)
  then show ?case using s r by simp
qed simp

text \<open>An empty ring buffer of eight bytes.\<close>

definition sample_ring :: rt_ringbuffer where
  "sample_ring = \<lparr>buffer_ptr = replicate 8 0, read_mirror = False, read_index = 0, write_mirror = False, write_index = 0,
     buffer_size = 8\<rparr>"

lemma sample_ring_wf: "rb_wf sample_ring" "rb_list sample_ring = []" "rb_cap sample_ring = 8" "rb_count sample_ring = 0"
  by (simp_all add: sample_ring_def rb_wf_def rb_cap_def rb_list_def rb_count_def)

lemma ring_buffer_stream_witness:
  "\<exists>ins outs rb'. rb_run [PutBlock [1, 2, 3, 4, 5, 6] 6, GetBlock 4, PutBlock [7, 8, 9, 10] 4, GetByte] sample_ring =
     Some (ins, outs, rb') \<and> outs @ rb_list rb' = ins"
  using ring_buffer_stream [of sample_ring "[PutBlock [1, 2, 3, 4, 5, 6] 6, GetBlock 4, PutBlock [7, 8, 9, 10] 4, GetByte]"]
  by (auto simp: sample_ring_wf)

text \<open>\<open>rt_ringbuffer_put_force\<close> keeps the newest bytes of longer data and always reports them as
  stored.  They are behind the contents if they fit; if they do not, the oldest bytes make room
  when the indices have different mirrors, but with equal mirrors both mirrors flip and the
  buffer is empty: the new bytes and the old ones are lost.\<close>

lemma rt_ringbuffer_put_force_correct:
  assumes "rb_wf rb" "unat len \<le> length ptr"
  shows "\<exists>rb'. rt_ringbuffer_put_force ptr len rb = Some (of_nat (min (unat len) (rb_cap rb)), rb') \<and> rb_wf rb' \<and>
    rb_cap rb' = rb_cap rb \<and> rb_list rb' = forced_list rb (forced_data (rb_cap rb) ptr (unat len))"
  by (rule put_force_ok [OF assms]) blast

text \<open>Four bytes in a buffer of eight, then six more: none is left.\<close>

lemma rt_ringbuffer_put_force_correct_witness:
  "\<exists>rb rb'. rb_wf rb \<and> rb_list rb = [1, 2, 3, 4] \<and> rb_cap rb = 8 \<and>
     rt_ringbuffer_put_force [5, 6, 7, 8, 9, 10] 6 rb = Some (6, rb') \<and> rb_list rb' = []"
proof -
  define rb where "rb = sample_ring\<lparr>buffer_ptr := [1, 2, 3, 4, 0, 0, 0, 0], write_index := 4\<rparr>"
  have c: "rb_cap rb = 8" "rb_count rb = 4" by (simp_all add: rb_def sample_ring_def rb_cap_def rb_count_def)
  have l: "rb_list rb = [1, 2, 3, 4]" unfolding rb_list_def c by (simp add: rb_def sample_ring_def ring_list_def upt_rec)
  have wf: "rb_wf rb" unfolding rb_wf_def c(1) by (simp add: rb_def sample_ring_def)
  obtain rb' where "rt_ringbuffer_put_force [5, 6, 7, 8, 9, 10] 6 rb = Some (6, rb')"
    "rb_list rb' = forced_list rb (forced_data 8 [5, 6, 7, 8, 9, 10] 6)"
    using rt_ringbuffer_put_force_correct [OF wf, of 6 "[5, 6, 7, 8, 9, 10]"] by (auto simp: c)
  moreover have "forced_list rb (forced_data 8 [5, 6, 7, 8, 9, 10] 6) = []"
    unfolding forced_list_def c forced_data_def by (simp add: rb_def sample_ring_def)
  ultimately show ?thesis using wf l c(1) by auto
qed

text \<open>The calls with single bytes are the calls with blocks of one byte.\<close>

lemma ring_buffer_bytes_are_blocks:
  assumes "rb_wf rb"
  shows "rt_ringbuffer_putchar ch rb = rt_ringbuffer_put [ch] 1 rb \<and>
    rt_ringbuffer_putchar_force ch rb = rt_ringbuffer_put_force [ch] 1 rb \<and>
    rt_ringbuffer_getchar rb =
      map_option (\<lambda>(bytes, rb'). (if bytes = [] then None else Some (hd bytes), rb')) (rt_ringbuffer_get 1 rb)"
  using putchar_block [OF assms] putchar_force_block [OF assms] getchar_block [OF assms] by blast

lemma ring_buffer_bytes_are_blocks_witness:
  "rt_ringbuffer_putchar 7 sample_ring = rt_ringbuffer_put [7] 1 sample_ring"
  using ring_buffer_bytes_are_blocks [OF sample_ring_wf(1)] by blast

lemma and_not_3: "x AND NOT 3 = x div 4 * (4 :: int)"
proof -
  have "x AND NOT 3 = x - (x AND 3)"
    using disjunctive_diff_eq_and_not [of x "x AND 3"] by (simp add: bit_eq_iff bit_simps) (metis bit.conj_disj_distrib)
  also have "x AND 3 = x mod 4" using take_bit_eq_mask [of 2 x] by (simp add: take_bit_eq_mod mask_eq_exp_minus_1)
  finally show ?thesis by (simp add: minus_mod_eq_div_mult)
qed

lemma sint_and_not_3: "sint (sz AND NOT 3 :: u16) = sint sz div 4 * 4"
proof -
  have "sint (sz AND NOT 3) = sint sz AND NOT 3" by (simp add: signed_and_eq)
  then show ?thesis unfolding and_not_3 .
qed

text \<open>\<open>rt_ringbuffer_init\<close> makes an empty buffer whose size is rounded down to a multiple of four,
  which leaves no buffer to work with below a size of four.\<close>

lemma rt_ringbuffer_init_correct:
  assumes "0 < sint sz" "nat (sint sz) \<le> length pool"
  shows "\<exists>rb. rt_ringbuffer_init pool sz = Some rb \<and> rb_list rb = [] \<and> rb_cap rb = nat (sint sz) div 4 * 4 \<and>
    (rb_wf rb \<longleftrightarrow> 4 \<le> nat (sint sz)) \<and> rt_ringbuffer_reset rb = rb"
proof -
  let ?rb = "\<lparr>buffer_ptr = pool, read_mirror = False, read_index = 0, write_mirror = False, write_index = 0,
    buffer_size = sz AND NOT 3\<rparr>"
  have "rb_size ?rb = int (nat (sint sz) div 4 * 4)" 
    unfolding rt_ringbuffer.select_convs sint_and_not_3 using assms(1) by simp
  then have c: "rb_cap ?rb = nat (sint sz) div 4 * 4" "0 < rb_size ?rb \<longleftrightarrow> 4 \<le> nat (sint sz)"
    unfolding rb_cap_def by (auto simp: div_greater_zero_iff)
  moreover have "rb_wf ?rb \<longleftrightarrow> 4 \<le> nat (sint sz)"
    unfolding rb_wf_def c using assms(2) by (auto simp: div_greater_zero_iff intro: le_trans [OF div_times_less_eq_dividend])
  moreover have "rb_count ?rb = 0" by (simp add: rb_count_def)
  then have "rb_list ?rb = []" by (simp add: rb_list_def)
  ultimately show ?thesis using assms(1) by (simp add: rt_ringbuffer_init_def rt_ringbuffer_reset_def)
qed

lemma rt_ringbuffer_init_correct_witness:
  "\<exists>rb. rt_ringbuffer_init (replicate 10 0) 10 = Some rb \<and> rb_wf rb \<and> rb_cap rb = 8"
  using rt_ringbuffer_init_correct [of 10 "replicate 10 0"] by auto

end
