(* ===== verification/Heap.thy ===== *)
theory Heap
  imports Semaphore
begin

unbundle bit_operations_syntax

section \<open>The system heap (rt-thread/src/mem.c)\<close>

text \<open>
  The heap is an area of blocks, each behind a header of 12 bytes that holds a magic number, the
  used flag and the offsets of the next and the previous header; a last header that is always in
  use ends it.  \<open>mems\<close> are the headers and \<open>heap_bytes\<close> the bytes of the area, both by address.
  The semaphore \<open>heap_sem\<close> protects the sections of the calls, which are separate definitions:
  what a call does before it takes the semaphore, and what it does while it has it.
\<close>

record heap_mem =
  magic :: u16
  used :: u16
  mem_next :: u32
  mem_prev :: u32

record heap =
  heap_ptr :: u32
  heap_end :: u32
  lfree :: u32
  mem_size_aligned :: u32
  used_mem :: u32
  max_mem :: u32
  mems :: "u32 \<Rightarrow> heap_mem"
  heap_bytes :: "u32 \<Rightarrow> u8"

abbreviation HEAP_MAGIC :: u16 where "HEAP_MAGIC \<equiv> 0x1ea0"
abbreviation SIZEOF_STRUCT_MEM :: u32 where "SIZEOF_STRUCT_MEM \<equiv> 12"
abbreviation RT_WAITING_FOREVER :: u32 where "RT_WAITING_FOREVER \<equiv> - 1"
abbreviation MIN_SIZE_ALIGNED :: u32 where "MIN_SIZE_ALIGNED \<equiv> 12"

definition upd_mem :: "u32 \<Rightarrow> (heap_mem \<Rightarrow> heap_mem) \<Rightarrow> heap \<Rightarrow> heap" where
  [kdefs]: "upd_mem a f h = h\<lparr>mems := (mems h)(a := f (mems h a))\<rparr>"

text \<open>The header at an offset: \<open>(struct heap_mem *)&heap_ptr[ptr]\<close>\<close>

abbreviation mem_at :: "u32 \<Rightarrow> heap \<Rightarrow> u32" where
  "mem_at ptr h \<equiv> heap_ptr h + ptr"

text \<open>Joining a free block with free neighbours: first the next one, then the previous one.\<close>

definition plug_forward :: "u32 \<Rightarrow> heap \<Rightarrow> heap" where
  "plug_forward mem h =
     (let nmem = mem_at (mem_next (mems h mem)) h in
      if mem \<noteq> nmem \<and> used (mems h nmem) = 0 \<and> nmem \<noteq> heap_end h then
        let h1 = (if lfree h = nmem then h\<lparr>lfree := mem\<rparr> else h);
            h2 = upd_mem mem (mem_next_update (\<lambda>_. mem_next (mems h1 nmem))) h1
        in upd_mem (mem_at (mem_next (mems h2 nmem)) h2) (mem_prev_update (\<lambda>_. mem - heap_ptr h2)) h2
      else h)"

definition plug_backward :: "u32 \<Rightarrow> heap \<Rightarrow> heap" where
  "plug_backward mem h =
     (let pmem = mem_at (mem_prev (mems h mem)) h in
      if pmem \<noteq> mem \<and> used (mems h pmem) = 0 then
        let h1 = (if lfree h = mem then h\<lparr>lfree := pmem\<rparr> else h);
            h2 = upd_mem pmem (mem_next_update (\<lambda>_. mem_next (mems h1 mem))) h1
        in upd_mem (mem_at (mem_next (mems h2 mem)) h2) (mem_prev_update (\<lambda>_. pmem - heap_ptr h2)) h2
      else h)"

definition plug_holes :: "u32 \<Rightarrow> heap \<Rightarrow> heap option" where
  "plug_holes mem h = do {
     require (mem \<ge> heap_ptr h);
     require (mem < heap_end h);
     require (used (mems h mem) = 0);
     Some (plug_backward mem (plug_forward mem h))
   }"

text \<open>The part of \<open>rt_system_heap_init\<close> that sets the heap up; \<open>None\<close> when the area is too small.\<close>

definition heap_setup :: "u32 \<Rightarrow> u32 \<Rightarrow> heap \<Rightarrow> heap option" where
  "heap_setup begin_addr end_addr h =
     (let begin_align = rt_align begin_addr; end_align = rt_align_down end_addr in
      if end_align > 2 * SIZEOF_STRUCT_MEM \<and> end_align - 2 * SIZEOF_STRUCT_MEM \<ge> begin_align then
        let sz = end_align - begin_align - 2 * SIZEOF_STRUCT_MEM;
            last = sz + SIZEOF_STRUCT_MEM;
            h1 = h\<lparr>mem_size_aligned := sz, heap_ptr := begin_align\<rparr>;
            h2 = upd_mem begin_align (\<lambda>_. \<lparr>magic = HEAP_MAGIC, used = 0, mem_next = last, mem_prev = 0\<rparr>) h1;
            h3 = h2\<lparr>heap_end := begin_align + last\<rparr>;
            h4 = upd_mem (heap_end h3) (\<lambda>_. \<lparr>magic = HEAP_MAGIC, used = 1, mem_next = last, mem_prev = last\<rparr>) h3
        in Some (h4\<lparr>lfree := begin_align\<rparr>)
      else None)"

subsection \<open>Allocating\<close>

text \<open>
  The search from the lowest free block, and the loop that looks for the next free block.  Neither
  has a bound of its own: they follow the offsets in the headers.
\<close>

partial_function (option) malloc_search :: "u32 \<Rightarrow> u32 \<Rightarrow> heap \<Rightarrow> u32 option option" where
  "malloc_search sz ptr h =
     (if ptr < mem_size_aligned h - sz then
        let mem = mems h (mem_at ptr h) in
        if used mem = 0 \<and> mem_next mem - (ptr + SIZEOF_STRUCT_MEM) \<ge> sz then Some (Some ptr)
        else malloc_search sz (mem_next mem) h
      else Some None)"

partial_function (option) lfree_advance :: "u32 \<Rightarrow> heap \<Rightarrow> u32 option" where
  "lfree_advance p h =
     (if used (mems h p) \<noteq> 0 \<and> p \<noteq> heap_end h then lfree_advance (mem_at (mem_next (mems h p)) h) h
      else Some p)"

definition count_used :: "u32 \<Rightarrow> heap \<Rightarrow> heap" where
  "count_used n h =
     (let h1 = h\<lparr>used_mem := used_mem h + n\<rparr> in
      if max_mem h1 < used_mem h1 then h1\<lparr>max_mem := used_mem h1\<rparr> else h1)"

text \<open>Taking the block at \<open>ptr\<close>: it is split when the rest is large enough for a block.\<close>

definition malloc_take :: "u32 \<Rightarrow> u32 \<Rightarrow> heap \<Rightarrow> heap" where
  "malloc_take sz ptr h =
     (let mem = mem_at ptr h in
      if mem_next (mems h mem) - (ptr + SIZEOF_STRUCT_MEM) \<ge> sz + SIZEOF_STRUCT_MEM + MIN_SIZE_ALIGNED then
        let ptr2 = ptr + SIZEOF_STRUCT_MEM + sz;
            mem2 = mem_at ptr2 h;
            h1 = upd_mem mem2 (\<lambda>_. \<lparr>magic = HEAP_MAGIC, used = 0, mem_next = mem_next (mems h mem), mem_prev = ptr\<rparr>) h;
            h2 = upd_mem mem (\<lambda>m. m\<lparr>mem_next := ptr2, used := 1\<rparr>) h1;
            h3 = (if mem_next (mems h2 mem2) \<noteq> mem_size_aligned h2 + SIZEOF_STRUCT_MEM
                  then upd_mem (mem_at (mem_next (mems h2 mem2)) h2) (mem_prev_update (\<lambda>_. ptr2)) h2 else h2)
        in count_used (sz + SIZEOF_STRUCT_MEM) h3
      else
        let h1 = upd_mem mem (used_update (\<lambda>_. 1)) h
        in count_used (mem_next (mems h1 mem) - (mem - heap_ptr h1)) h1)"

text \<open>The section of \<open>rt_malloc\<close>: the address of the block's bytes, 0 for null.\<close>

definition malloc_locked :: "u32 \<Rightarrow> heap \<Rightarrow> (u32 \<times> heap) option" where
  "malloc_locked sz h = do {
     found \<leftarrow> malloc_search sz (lfree h - heap_ptr h) h;
     (case found of
        None \<Rightarrow> Some (0, h)
      | Some ptr \<Rightarrow> do {
          let mem = mem_at ptr h;
          let h1 = upd_mem mem (magic_update (\<lambda>_. HEAP_MAGIC)) (malloc_take sz ptr h);
          h2 \<leftarrow> (if mem = lfree h1 then do {
                  p \<leftarrow> lfree_advance (lfree h1) h1;
                  require (p = heap_end h1 \<or> used (mems h1 p) = 0);
                  Some (h1\<lparr>lfree := p\<rparr>)
                } else Some h1);
          Some (mem + SIZEOF_STRUCT_MEM, h2)
        })
   }"

text \<open>
  The size that \<open>rt_malloc\<close> looks for: \<open>None\<close> when it returns null at once.  The assertions
  follow the release of the semaphore.
\<close>

definition malloc_size :: "u32 \<Rightarrow> heap \<Rightarrow> u32 option" where
  "malloc_size size_arg h =
     (if size_arg = 0 then None
      else let sz = rt_align size_arg in
        if sz > mem_size_aligned h then None
        else Some (if sz < MIN_SIZE_ALIGNED then MIN_SIZE_ALIGNED else sz))"

definition malloc_asserts :: "u32 \<Rightarrow> u32 \<Rightarrow> heap \<Rightarrow> unit option" where
  "malloc_asserts sz rmem h = do {
     require (rmem + sz \<le> heap_end h);
     require (rmem mod 4 = 0);
     require ((rmem - SIZEOF_STRUCT_MEM) AND 3 = 0)
   }"

subsection \<open>Releasing\<close>

definition free_asserts :: "u32 \<Rightarrow> heap \<Rightarrow> unit option" where
  "free_asserts rmem h = do {
     require (rmem AND 3 = 0);
     require (rmem \<ge> heap_ptr h \<and> rmem < heap_end h)
   }"

definition free_locked :: "u32 \<Rightarrow> heap \<Rightarrow> heap option" where
  "free_locked rmem h = do {
     let mem = rmem - SIZEOF_STRUCT_MEM;
     require (used (mems h mem) \<noteq> 0);
     require (magic (mems h mem) = HEAP_MAGIC);
     let h1 = upd_mem mem (\<lambda>m. m\<lparr>used := 0, magic := HEAP_MAGIC\<rparr>) h;
     let h2 = (if mem < lfree h1 then h1\<lparr>lfree := mem\<rparr> else h1);
     let h3 = h2\<lparr>used_mem := used_mem h2 - (mem_next (mems h2 mem) - (mem - heap_ptr h2))\<rparr>;
     plug_holes mem h3
   }"

subsection \<open>Changing the size\<close>

text \<open>
  The section of \<open>rt_realloc\<close>: \<open>Inl\<close> the address it returns, or \<open>Inr\<close> the old size when the
  block has to move to a new one.
\<close>

definition realloc_locked :: "u32 \<Rightarrow> u32 \<Rightarrow> heap \<Rightarrow> ((u32 + u32) \<times> heap) option" where
  "realloc_locked rmem newsize h =
     (if rmem < heap_ptr h \<or> rmem \<ge> heap_end h then Some (Inl rmem, h)
      else
        let mem = rmem - SIZEOF_STRUCT_MEM;
            ptr = mem - heap_ptr h;
            sz = mem_next (mems h mem) - ptr - SIZEOF_STRUCT_MEM in
        if sz = newsize then Some (Inl rmem, h)
        else if newsize + SIZEOF_STRUCT_MEM + 12 < sz then do {
          let ptr2 = ptr + SIZEOF_STRUCT_MEM + newsize;
          let mem2 = mem_at ptr2 h;
          let h1 = h\<lparr>used_mem := used_mem h - (sz - newsize)\<rparr>;
          let h2 = upd_mem mem2 (\<lambda>_. \<lparr>magic = HEAP_MAGIC, used = 0, mem_next = mem_next (mems h1 mem), mem_prev = ptr\<rparr>) h1;
          let h3 = upd_mem mem (mem_next_update (\<lambda>_. ptr2)) h2;
          let h4 = (if mem_next (mems h3 mem2) \<noteq> mem_size_aligned h3 + SIZEOF_STRUCT_MEM
                    then upd_mem (mem_at (mem_next (mems h3 mem2)) h3) (mem_prev_update (\<lambda>_. ptr2)) h3 else h3);
          h5 \<leftarrow> plug_holes mem2 h4;
          Some (Inl rmem, h5)
        }
        else Some (Inr sz, h))"

text \<open>The effect of \<open>rt_memcpy\<close> between two blocks and of \<open>rt_memset\<close>.\<close>

definition heap_copy :: "u32 \<Rightarrow> u32 \<Rightarrow> u32 \<Rightarrow> heap \<Rightarrow> heap" where
  "heap_copy dst src n h =
     h\<lparr>heap_bytes := (\<lambda>a. if a - dst < n then heap_bytes h (src + (a - dst)) else heap_bytes h a)\<rparr>"

definition heap_fill :: "u32 \<Rightarrow> u8 \<Rightarrow> u32 \<Rightarrow> heap \<Rightarrow> heap" where
  "heap_fill dst v n h = h\<lparr>heap_bytes := (\<lambda>a. if a - dst < n then v else heap_bytes h a)\<rparr>"

subsection \<open>The calls with the semaphore\<close>

definition heap_sem :: nat where
  "heap_sem = 1"

text \<open>
  A call ends with the address it returns, or blocks while it takes the semaphore; then its
  section follows when the thread continues, whatever the result of the waiting was.
\<close>

datatype heap_result = Mem u32 | Heap_blocked

type_synonym heap_state = "heap \<times> kernel"

definition rt_system_heap_init :: "u32 \<Rightarrow> u32 \<Rightarrow> heap_state \<Rightarrow> heap_state option" where
  "rt_system_heap_init begin_addr end_addr s = (case s of (h, k) \<Rightarrow> do {
     require (interrupt_nest k = 0);
     (case heap_setup begin_addr end_addr h of
        None \<Rightarrow> Some (h, k)
      | Some h1 \<Rightarrow> do {
          (_, k1) \<leftarrow> rt_sem_init heap_sem [104, 101, 97, 112, 0] 1 0 k;
          Some (h1, k1)
        })
   })"

definition rt_malloc_continue :: "u32 \<Rightarrow> heap_state \<Rightarrow> (heap_result \<times> heap_state) option" where
  "rt_malloc_continue sz s = (case s of (h, k) \<Rightarrow> do {
     (rmem, h1) \<leftarrow> malloc_locked sz h;
     (_, k1) \<leftarrow> rt_sem_release heap_sem k;
     _ \<leftarrow> (if rmem = 0 then Some () else malloc_asserts sz rmem h1);
     Some (Mem rmem, h1, k1)
   })"

definition rt_malloc :: "u32 \<Rightarrow> heap_state \<Rightarrow> (heap_result \<times> heap_state) option" where
  "rt_malloc size_arg s = (case s of (h, k) \<Rightarrow>
     if size_arg = 0 then Some (Mem 0, h, k)
     else do {
       require (interrupt_nest k = 0);
       (case malloc_size size_arg h of
          None \<Rightarrow> Some (Mem 0, h, k)
        | Some sz \<Rightarrow> do {
            (oc, k1) \<leftarrow> rt_sem_take heap_sem RT_WAITING_FOREVER k;
            (case oc of
               Returned _ \<Rightarrow> rt_malloc_continue sz (h, k1)
             | Blocked _ \<Rightarrow> Some (Heap_blocked, h, k1))
          })
     })"

definition rt_free_continue :: "u32 \<Rightarrow> heap_state \<Rightarrow> (heap_result \<times> heap_state) option" where
  "rt_free_continue rmem s = (case s of (h, k) \<Rightarrow> do {
     h1 \<leftarrow> free_locked rmem h;
     (_, k1) \<leftarrow> rt_sem_release heap_sem k;
     Some (Mem 0, h1, k1)
   })"

definition rt_free :: "u32 \<Rightarrow> heap_state \<Rightarrow> (heap_result \<times> heap_state) option" where
  "rt_free rmem s = (case s of (h, k) \<Rightarrow>
     if rmem = 0 then Some (Mem 0, h, k)
     else do {
       require (interrupt_nest k = 0);
       _ \<leftarrow> free_asserts rmem h;
       (oc, k1) \<leftarrow> rt_sem_take heap_sem RT_WAITING_FOREVER k;
       (case oc of
          Returned _ \<Rightarrow> rt_free_continue rmem (h, k1)
        | Blocked _ \<Rightarrow> Some (Heap_blocked, h, k1))
     })"

text \<open>After the new block of a growing \<open>rt_realloc\<close> has been allocated at \<open>nmem\<close>.\<close>

definition rt_realloc_move :: "u32 \<Rightarrow> u32 \<Rightarrow> u32 \<Rightarrow> u32 \<Rightarrow> heap_state \<Rightarrow> (heap_result \<times> heap_state) option" where
  "rt_realloc_move rmem newsize sz nmem s = (case s of (h, k) \<Rightarrow>
     if nmem \<noteq> 0 then do {
       (r, s1) \<leftarrow> rt_free rmem (heap_copy nmem rmem (if sz < newsize then sz else newsize) h, k);
       (case r of Heap_blocked \<Rightarrow> Some (Heap_blocked, s1) | Mem _ \<Rightarrow> Some (Mem nmem, s1))
     }
     else Some (Mem nmem, h, k))"

definition rt_realloc_continue :: "u32 \<Rightarrow> u32 \<Rightarrow> heap_state \<Rightarrow> (heap_result \<times> heap_state) option" where
  "rt_realloc_continue rmem newsize s = (case s of (h, k) \<Rightarrow> do {
     (r, h1) \<leftarrow> realloc_locked rmem newsize h;
     (_, k1) \<leftarrow> rt_sem_release heap_sem k;
     (case r of
        Inl a \<Rightarrow> Some (Mem a, h1, k1)
      | Inr sz \<Rightarrow> do {
          (m, s2) \<leftarrow> rt_malloc newsize (h1, k1);
          (case m of Heap_blocked \<Rightarrow> Some (Heap_blocked, s2) | Mem nmem \<Rightarrow> rt_realloc_move rmem newsize sz nmem s2)
        })
   })"

definition rt_realloc :: "u32 \<Rightarrow> u32 \<Rightarrow> heap_state \<Rightarrow> (heap_result \<times> heap_state) option" where
  "rt_realloc rmem newsize_arg s = (case s of (h, k) \<Rightarrow> do {
     require (interrupt_nest k = 0);
     let newsize = rt_align newsize_arg;
     if newsize > mem_size_aligned h then Some (Mem 0, h, k)
     else if newsize = 0 then do {
       (r, s1) \<leftarrow> rt_free rmem (h, k);
       (case r of Heap_blocked \<Rightarrow> Some (Heap_blocked, s1) | Mem _ \<Rightarrow> Some (Mem 0, s1))
     }
     else if rmem = 0 then rt_malloc newsize (h, k)
     else do {
       (oc, k1) \<leftarrow> rt_sem_take heap_sem RT_WAITING_FOREVER k;
       (case oc of
          Returned _ \<Rightarrow> rt_realloc_continue rmem newsize (h, k1)
        | Blocked _ \<Rightarrow> Some (Heap_blocked, h, k1))
     }
   })"

definition rt_calloc :: "u32 \<Rightarrow> u32 \<Rightarrow> heap_state \<Rightarrow> (heap_result \<times> heap_state) option" where
  "rt_calloc count size_arg s = do {
     (r, h, k) \<leftarrow> rt_malloc (count * size_arg) s;
     (case r of
        Mem p \<Rightarrow> Some (Mem p, (if p \<noteq> 0 then heap_fill p 0 (count * size_arg) h else h), k)
      | Heap_blocked \<Rightarrow> Some (Heap_blocked, h, k))
   }"

definition rt_memory_info :: "heap \<Rightarrow> u32 \<times> u32 \<times> u32" where
  "rt_memory_info h = (mem_size_aligned h, used_mem h, max_mem h)"

end
