(* ===== verification/HeapBlocks.thy ===== *)
theory HeapBlocks
  imports Heap
begin

unbundle bit_operations_syntax

section \<open>The blocks of the heap\<close>

text \<open>
  The heap represents a list of blocks, each with its size (header included) and whether it is in
  use.  The offset of a block is the sum of the sizes before it, so the blocks cannot overlap and
  fill the heap; the headers are linked in both directions.
\<close>

type_synonym blocks = "(nat \<times> bool) list"

abbreviation bsize :: "blocks \<Rightarrow> nat" where
  "bsize bs \<equiv> sum_list (map fst bs)"

definition header_ok :: "heap_mem \<Rightarrow> nat \<Rightarrow> nat \<Rightarrow> bool \<Rightarrow> bool" where
  "header_ok m p nx u \<longleftrightarrow> mem_next m = of_nat nx \<and> mem_prev m = of_nat p \<and> (used m \<noteq> 0 \<longleftrightarrow> u) \<and> magic m = HEAP_MAGIC"

text \<open>The headers of \<open>bs\<close> from offset \<open>i\<close> on, with the header before them at \<open>p\<close>.\<close>

fun segs :: "(u32 \<Rightarrow> heap_mem) \<Rightarrow> u32 \<Rightarrow> nat \<Rightarrow> nat \<Rightarrow> blocks \<Rightarrow> bool" where
  "segs m a p i [] = True"
| "segs m a p i ((n, u) # bs) = (header_ok (m (a + of_nat i)) p (i + n) u \<and> segs m a i (i + n) bs)"

fun prev_of :: "nat \<Rightarrow> nat \<Rightarrow> blocks \<Rightarrow> nat" where
  "prev_of p i [] = p"
| "prev_of p i ((n, u) # bs) = prev_of i (i + n) bs"

lemma segs_append: "segs m a p i (as @ bs) \<longleftrightarrow> segs m a p i as \<and> segs m a (prev_of p i as) (i + bsize as) bs"
  by (induction m a p i as rule: segs.induct) (auto simp: add.assoc)

lemma prev_of_snoc [simp]: "prev_of p i (as @ [(n, u)]) = i + bsize as"
  by (induction p i as rule: prev_of.induct) auto

lemma adr_eq: "x < 2 ^ 32 \<Longrightarrow> y < 2 ^ 32 \<Longrightarrow> (a :: u32) + of_nat x = a + of_nat y \<longleftrightarrow> x = y"
proof -
  assume "x < 2 ^ 32" "y < 2 ^ 32"
  then have "(of_nat x :: u32) = of_nat y \<longleftrightarrow> x = y"
    by (simp add: word_unat_eq_iff unsigned_of_nat take_bit_nat_eq_self)
  then show ?thesis unfolding add_left_cancel .
qed

text \<open>A header outside the offsets of the blocks does not matter.\<close>

lemma segs_upd:
  assumes "x < i \<or> i + bsize bs \<le> x" "x < 2 ^ 32" "i + bsize bs < 2 ^ 32" "\<forall>(n, u) \<in> set bs. 0 < n"
  shows "segs (m(a + of_nat x := v)) a p i bs = segs m a p i bs"
  using assms
proof (induction bs arbitrary: p i)
  case (Cons b bs)
  obtain n u where b: "b = (n, u)" by force
  have ne: "a + of_nat i \<noteq> a + of_nat x" using Cons.prems adr_eq [of i x a] b by auto
  have "segs (m(a + of_nat x := v)) a i (i + n) bs = segs m a i (i + n) bs"
    by (rule Cons.IH) (use Cons.prems b in auto)
  moreover have "(m(a + of_nat x := v)) (a + of_nat i) = m (a + of_nat i)" using ne by simp
  ultimately show ?case unfolding b segs.simps by (simp only:)
qed simp

lemma segs_prev:
  assumes "segs m a p i ((n, u) # bs)" "0 < n" "i + n + bsize bs < 2 ^ 32" "\<forall>(n, u) \<in> set bs. 0 < n"
  shows "segs (m(a + of_nat i := (m (a + of_nat i))\<lparr>mem_prev := of_nat q\<rparr>)) a q i ((n, u) # bs)"
  using assms segs_upd [of i "i + n" bs m a "(m (a + of_nat i))\<lparr>mem_prev := of_nat q\<rparr>" i] by (auto simp: header_ok_def)


subsection \<open>What the heap represents\<close>

abbreviation heap_size :: "heap \<Rightarrow> nat" where
  "heap_size h \<equiv> unat (mem_size_aligned h)"

abbreviation adr :: "heap \<Rightarrow> nat \<Rightarrow> u32" where
  "adr h i \<equiv> heap_ptr h + of_nat i"

text \<open>The frame: where the heap is and its last header.  No address wraps around.\<close>

definition heap_frame :: "heap \<Rightarrow> bool" where
  "heap_frame h \<longleftrightarrow> 12 \<le> heap_size h \<and> 4 dvd heap_size h \<and> unat (heap_ptr h) + heap_size h + 24 < 2 ^ 32 \<and>
     4 dvd unat (heap_ptr h) \<and> heap_end h = adr h (heap_size h + 12) \<and> used (mems h (heap_end h)) \<noteq> 0"

definition sizes_ok :: "blocks \<Rightarrow> bool" where
  "sizes_ok bs \<longleftrightarrow> (\<forall>(n, u) \<in> set bs. 16 \<le> n \<and> 4 dvd n)"

text \<open>The offsets of the free blocks.\<close>

definition free_offsets :: "blocks \<Rightarrow> nat set" where
  "free_offsets bs = {bsize as | as n cs. bs = as @ (n, False) # cs}"

definition heap_laid :: "heap \<Rightarrow> blocks \<Rightarrow> bool" where
  "heap_laid h bs \<longleftrightarrow> heap_frame h \<and> sizes_ok bs \<and> bsize bs = heap_size h + 12 \<and> segs (mems h) (heap_ptr h) 0 0 bs \<and>
     lfree h \<in> insert (heap_end h) (adr h ` free_offsets bs)"

text \<open>No two neighbours are free, and the counter says how much is in use.\<close>

definition used_size :: "blocks \<Rightarrow> nat" where
  "used_size bs = (\<Sum>(n, u) \<leftarrow> bs. if u then n else 0)"

definition heap_rep :: "heap \<Rightarrow> blocks \<Rightarrow> bool" where
  "heap_rep h bs \<longleftrightarrow> heap_laid h bs \<and> successively (\<lambda>b c. snd b \<or> snd c) bs \<and> used_mem h = of_nat (used_size bs)"

text \<open>The lowest free block is where the search starts.\<close>

definition lfree_lowest :: "heap \<Rightarrow> blocks \<Rightarrow> bool" where
  "lfree_lowest h bs \<longleftrightarrow> (\<forall>i \<in> free_offsets bs. lfree h \<le> adr h i)"

lemma sizes_simps [simp]:
  "sizes_ok []" "sizes_ok ((n, u) # bs) \<longleftrightarrow> 16 \<le> n \<and> 4 dvd n \<and> sizes_ok bs"
  "sizes_ok (as @ bs) \<longleftrightarrow> sizes_ok as \<and> sizes_ok bs"
  by (auto simp: sizes_ok_def)

lemma sizes_pos: "sizes_ok bs \<Longrightarrow> \<forall>(n, u) \<in> set bs. 0 < n"
  by (auto simp: sizes_ok_def)

lemma used_size_simps [simp]:
  "used_size [] = 0" "used_size ((n, u) # bs) = (if u then n else 0) + used_size bs"
  "used_size (as @ bs) = used_size as + used_size bs"
  by (simp_all add: used_size_def)

lemma used_size_le: "used_size bs \<le> bsize bs"
  by (induction bs) (auto simp: used_size_def)

lemma sizes_dvd: "sizes_ok bs \<Longrightarrow> 4 dvd bsize bs"
  by (induction bs) auto

lemma free_offsets_simps [simp]:
  "free_offsets [] = {}"
  "free_offsets ((n, u) # bs) = (if u then {} else {0}) \<union> (+) n ` free_offsets bs"
proof -
  show "free_offsets [] = {}" by (simp add: free_offsets_def)
  show "free_offsets ((n, u) # bs) = (if u then {} else {0}) \<union> (+) n ` free_offsets bs"
    unfolding free_offsets_def
  proof safe
    fix as m cs assume e: "(n, u) # bs = as @ (m, False) # cs" and ne: "bsize as \<notin> (+) n ` {bsize as |as n cs. bs = as @ (n, False) # cs}"
    then show "bsize as \<in> (if u then {} else {0})" by (cases as) auto
  next
    fix x assume "x \<in> (if u then {} else {0 :: nat})"
    then show "\<exists>as m cs. x = bsize as \<and> (n, u) # bs = as @ (m, False) # cs"
      by (intro exI [of _ "[]"] exI [of _ n] exI [of _ bs]) (auto split: if_splits)
  next
    fix as m cs assume "bs = as @ (m, False) # cs"
    then show "\<exists>as' m' cs'. n + bsize as = bsize as' \<and> (n, u) # as @ (m, False) # cs = as' @ (m', False) # cs'"
      by (intro exI [of _ "(n, u) # as"] exI [of _ m] exI [of _ cs]) auto
  qed
qed

lemma free_offsets_append: "free_offsets (as @ bs) = free_offsets as \<union> (+) (bsize as) ` free_offsets bs"
  by (induction as) (auto simp: image_Un image_image add.assoc)


subsection \<open>Addresses and offsets\<close>

lemma unat_u32: "i < 2 ^ 32 \<Longrightarrow> unat (of_nat i :: u32) = i"
  by (simp add: unsigned_of_nat take_bit_nat_eq_self)

lemma heap_frame_bounds:
  assumes "heap_frame h" "i \<le> heap_size h + 12"
  shows "i < 2 ^ 32" "unat (adr h i) = unat (heap_ptr h) + i" "unat (heap_ptr h) + i < 2 ^ 32"
proof -
  show b: "unat (heap_ptr h) + i < 2 ^ 32" "i < 2 ^ 32" using assms by (auto simp: heap_frame_def)
  then show "unat (adr h i) = unat (heap_ptr h) + i"
    unfolding unat_word_ariths(1) using unat_u32 [OF b(2)] by simp
qed

lemma adr_simps:
  assumes "heap_frame h" "i \<le> heap_size h + 12" "j \<le> heap_size h + 12"
  shows "adr h i = adr h j \<longleftrightarrow> i = j" "adr h i < adr h j \<longleftrightarrow> i < j" "adr h i \<le> adr h j \<longleftrightarrow> i \<le> j"
  using heap_frame_bounds [OF assms(1,2)] heap_frame_bounds [OF assms(1,3)]
  by (simp_all only: word_less_nat_alt word_le_nat_alt word_unat_eq_iff) simp_all

lemma adr_minus: "adr h i - heap_ptr h = of_nat i"
  by simp

lemma adr_plus: "adr h i + of_nat n = adr h (i + n)"
  by simp

lemma frame_end: "heap_frame h \<Longrightarrow> heap_end h = adr h (heap_size h + 12)"
  by (simp add: heap_frame_def)

lemma block_room:
  assumes "16 \<le> n" "i + n < 2 ^ 32"
  shows "(of_nat (i + n) :: u32) - (of_nat i + 12) = of_nat (n - 12)" "unat (of_nat (n - 12) :: u32) = n - 12"
proof -
  have "(of_nat (n - 12) :: u32) = of_nat n - 12" using assms(1) by (simp add: of_nat_diff)
  then show "(of_nat (i + n) :: u32) - (of_nat i + 12) = of_nat (n - 12)" by simp
  show "unat (of_nat (n - 12) :: u32) = n - 12" using assms by (intro unat_u32) simp
qed

subsection \<open>The search\<close>

text \<open>
  First fit in the list of blocks.  The bound of the loop leaves out a block of exactly the right
  size at the very end.
\<close>

fun first_fit :: "nat \<Rightarrow> nat \<Rightarrow> nat \<Rightarrow> blocks \<Rightarrow> nat option" where
  "first_fit M sz i [] = None"
| "first_fit M sz i ((n, u) # bs) =
     (if i + sz < M then if \<not> u \<and> sz + 12 \<le> n then Some i else first_fit M sz (i + n) bs else None)"

lemma malloc_search_ok:
  assumes fr: "heap_frame h" and sz: "unat sz \<le> heap_size h"
  shows "segs (mems h) (heap_ptr h) p i bs \<Longrightarrow> sizes_ok bs \<Longrightarrow> i + bsize bs = heap_size h + 12 \<Longrightarrow>
    malloc_search sz (of_nat i) h = Some (map_option of_nat (first_fit (heap_size h) (unat sz) i bs))"
proof (induction bs arbitrary: p i)
  case Nil
  have "i < 2 ^ 32" by (rule heap_frame_bounds(1) [OF fr]) (use Nil.prems in simp)
  then have ui: "unat (of_nat i :: u32) = i" by (rule unat_u32)
  have "\<not> (of_nat i :: u32) < mem_size_aligned h - sz"
    unfolding word_less_nat_alt ui using sz Nil.prems by (simp add: unat_sub word_le_nat_alt)
  then show ?case by (subst malloc_search.simps) simp
next
  case (Cons b bs)
  obtain n u where b: "b = (n, u)" by force
  have n: "16 \<le> n" "i + n \<le> heap_size h + 12" using Cons.prems b by auto
  have i2: "i + n < 2 ^ 32" by (rule heap_frame_bounds(1) [OF fr n(2)])
  then have ui: "unat (of_nat i :: u32) = i" by (intro unat_u32) simp
  have hd: "mem_next (mems h (adr h i)) = of_nat (i + n)" "used (mems h (adr h i)) = 0 \<longleftrightarrow> \<not> u"
    using Cons.prems(1) by (auto simp: b header_ok_def)
  have lt: "(of_nat i :: u32) < mem_size_aligned h - sz \<longleftrightarrow> i + unat sz < heap_size h"
    unfolding word_less_nat_alt ui using sz by (auto simp: unat_sub word_le_nat_alt)
  have fit: "mem_next (mems h (adr h i)) - (of_nat i + 12) \<ge> sz \<longleftrightarrow> unat sz + 12 \<le> n"
    unfolding hd(1) block_room(1) [OF n(1) i2] word_le_nat_alt block_room(2) [OF n(1) i2] using n by auto
  have "malloc_search sz (of_nat (i + n)) h = Some (map_option of_nat (first_fit (heap_size h) (unat sz) (i + n) bs))"
    by (rule Cons.IH [of i]) (use Cons.prems b in auto)
  then show ?case using hd(2) by (subst malloc_search.simps) (simp add: b Let_def lt fit hd(1) [symmetric] del: of_nat_add)
qed

lemma first_fit_Some:
  "first_fit M sz i bs = Some x \<Longrightarrow> \<exists>as n cs. bs = as @ (n, False) # cs \<and> x = i + bsize as \<and> sz + 12 \<le> n \<and> x + sz < M"
proof (induction M sz i bs rule: first_fit.induct)
  case (2 M sz i n u bs)
  show ?case
  proof (cases "\<not> u \<and> sz + 12 \<le> n")
    case True
    then show ?thesis using 2(2) by (intro exI [of _ "[]"] exI [of _ n] exI [of _ bs]) (auto split: if_splits)
  next
    case False
    then obtain as m cs where "bs = as @ (m, False) # cs" "x = i + n + bsize as" "sz + 12 \<le> m" "x + sz < M"
      using 2 by (auto split: if_splits)
    then show ?thesis by (intro exI [of _ "(n, u) # as"] exI [of _ m] exI [of _ cs]) simp
  qed
qed simp

text \<open>No fit: every free block is too small, but for one of exactly the right size at the end.\<close>

lemma first_fit_None:
  assumes "first_fit M sz i bs = None" "i + bsize bs = M + 12" "bs = as @ (n, False) # cs" "sz + 12 \<le> n" "sizes_ok bs"
  shows "sz + 12 = n \<and> cs = []"
  using assms
proof (induction M sz i bs arbitrary: as rule: first_fit.induct)
  case (2 M sz i m u bs)
  show ?case
  proof (cases as)
    case Nil
    then have e: "m = n" "\<not> u" "bs = cs" using 2 by auto
    then have "\<not> i + sz < M" using 2(2,5) by auto
    moreover have "i + n + bsize cs = M + 12" using 2(3) e by simp
    ultimately have "sz + 12 = n" "bsize cs = 0" using 2(5) by linarith+
    moreover have "cs = []" using \<open>bsize cs = 0\<close> 2(6) e by (cases cs) auto
    ultimately show ?thesis by simp
  next
    case (Cons b as')
    then have e: "bs = as' @ (n, False) # cs" using 2 by auto
    show ?thesis
    proof (cases "i + sz < M")
      case True
      then show ?thesis using 2 e by (auto split: if_splits)
    next
      case False
      have "bsize bs = bsize as' + n + bsize cs" "16 \<le> m" using e 2(6) by auto
      then have False using False 2(3,5) by simp
      then show ?thesis ..
    qed
  qed
qed simp


subsection \<open>Replacing blocks by others of the same size\<close>

lemma segs_cong:
  "(\<And>x. i \<le> x \<Longrightarrow> x < i + bsize bs \<Longrightarrow> m (a + of_nat x) = m' (a + of_nat x)) \<Longrightarrow> sizes_ok bs \<Longrightarrow>
    segs m a p i bs = segs m' a p i bs"
proof (induction bs arbitrary: p i)
  case (Cons b bs)
  obtain n u where b: "b = (n, u)" by force
  have "segs m a i (i + n) bs = segs m' a i (i + n) bs" by (rule Cons.IH) (use Cons.prems b in auto)
  moreover have "m (a + of_nat i) = m' (a + of_nat i)" using Cons.prems b by auto
  ultimately show ?case by (simp add: b)
qed simp

lemma segs_relink:
  assumes "segs m a p i cs" "sizes_ok cs" "cs \<noteq> [] \<Longrightarrow> m' (a + of_nat i) = (m (a + of_nat i))\<lparr>mem_prev := of_nat q\<rparr>"
    "\<And>x. i < x \<Longrightarrow> x < i + bsize cs \<Longrightarrow> m' (a + of_nat x) = m (a + of_nat x)"
  shows "segs m' a q i cs"
proof (cases cs)
  case (Cons b bs)
  obtain n u where b: "b = (n, u)" by force
  have "segs m' a i (i + n) bs = segs m a i (i + n) bs" by (rule segs_cong) (use assms b Cons in auto)
  then show ?thesis using assms b Cons by (simp add: header_ok_def)
qed simp

lemma heap_laid_replace:
  assumes h: "heap_laid h (as @ old @ cs)" and new: "sizes_ok new" "bsize new = bsize old"
    and fr: "heap_ptr h' = heap_ptr h" "mem_size_aligned h' = mem_size_aligned h" "heap_end h' = heap_end h"
    and out: "\<And>x. x < bsize as \<or> bsize as + bsize old < x \<Longrightarrow> x \<le> heap_size h + 12 \<Longrightarrow> mems h' (adr h x) = mems h (adr h x)"
    and mid: "segs (mems h') (heap_ptr h) (prev_of 0 0 as) (bsize as) new"
    and nxt: "bsize as + bsize old < heap_size h + 12 \<Longrightarrow> mems h' (adr h (bsize as + bsize old)) =
      (mems h (adr h (bsize as + bsize old)))\<lparr>mem_prev := of_nat (prev_of (prev_of 0 0 as) (bsize as) new)\<rparr>"
    and en: "used (mems h' (heap_end h)) = used (mems h (heap_end h))"
    and lf: "lfree h' \<in> insert (heap_end h) (adr h ` free_offsets (as @ new @ cs))"
  shows "heap_laid h' (as @ new @ cs)"
proof -
  have l: "heap_frame h" "sizes_ok as" "sizes_ok old" "sizes_ok cs" "bsize as + (bsize old + bsize cs) = heap_size h + 12"
    "segs (mems h) (heap_ptr h) 0 0 as" "segs (mems h) (heap_ptr h) (prev_of 0 0 as) (bsize as) old"
    "segs (mems h) (heap_ptr h) (prev_of (prev_of 0 0 as) (bsize as) old) (bsize as + bsize old) cs"
    using h by (simp_all add: heap_laid_def segs_append)
  have "segs (mems h') (heap_ptr h) 0 0 as = segs (mems h) (heap_ptr h) 0 0 as"
    by (rule segs_cong) (use out l in auto)
  moreover have "segs (mems h') (heap_ptr h) (prev_of (prev_of 0 0 as) (bsize as) new) (bsize as + bsize old) cs"
  proof (rule segs_relink [OF l(8,4)])
    assume "cs \<noteq> []"
    then have "0 < bsize cs" using l(4) by (cases cs) auto
    then show "mems h' (adr h (bsize as + bsize old)) =
      (mems h (adr h (bsize as + bsize old)))\<lparr>mem_prev := of_nat (prev_of (prev_of 0 0 as) (bsize as) new)\<rparr>"
      using l(5) by (intro nxt) linarith
  qed (use out l(5) in auto)
  moreover have "heap_frame h' = heap_frame h" unfolding heap_frame_def fr en ..
  then have "heap_frame h'" using l(1) by simp
  ultimately show ?thesis using l fr new mid lf by (simp add: heap_laid_def segs_append)
qed


subsection \<open>Taking a block\<close>

definition split_block :: "nat \<Rightarrow> nat \<Rightarrow> blocks" where
  "split_block sz n = (if sz + 36 \<le> n then [(sz + 12, True), (n - (sz + 12), False)] else [(n, True)])"

definition taken_size :: "nat \<Rightarrow> nat \<Rightarrow> nat" where
  "taken_size sz n = (if sz + 36 \<le> n then sz + 12 else n)"

text \<open>What a step leaves alone: everything but the headers, the counters and the lowest free block.\<close>

definition same_area :: "heap \<Rightarrow> heap \<Rightarrow> bool" where
  "same_area h h' \<longleftrightarrow> heap_ptr h' = heap_ptr h \<and> mem_size_aligned h' = mem_size_aligned h \<and> heap_end h' = heap_end h \<and>
     heap_bytes h' = heap_bytes h"

lemma count_used_simps [simp]:
  "mems (count_used n h) = mems h" "heap_ptr (count_used n h) = heap_ptr h" "heap_end (count_used n h) = heap_end h"
  "lfree (count_used n h) = lfree h" "mem_size_aligned (count_used n h) = mem_size_aligned h"
  "heap_bytes (count_used n h) = heap_bytes h" "used_mem (count_used n h) = used_mem h + n"
  "max_mem (count_used n h) = max (max_mem h) (used_mem h + n)"
  by (auto simp: count_used_def Let_def max_def)

lemma upd_mem_simps [simp]:
  "mems (upd_mem a f h) = (mems h)(a := f (mems h a))" "heap_ptr (upd_mem a f h) = heap_ptr h"
  "heap_end (upd_mem a f h) = heap_end h" "lfree (upd_mem a f h) = lfree h"
  "mem_size_aligned (upd_mem a f h) = mem_size_aligned h" "heap_bytes (upd_mem a f h) = heap_bytes h"
  "used_mem (upd_mem a f h) = used_mem h" "max_mem (upd_mem a f h) = max_mem h"
  by (simp_all add: upd_mem_def)

lemma laid_block:
  assumes "heap_laid h (as @ (n, u) # cs)"
  shows "heap_frame h" "header_ok (mems h (adr h (bsize as))) (prev_of 0 0 as) (bsize as + n) u" "16 \<le> n" "4 dvd n"
    "bsize as + n + bsize cs = heap_size h + 12" "4 dvd bsize as" "sizes_ok as" "sizes_ok cs"
  using assms sizes_dvd [of as] by (simp_all add: heap_laid_def segs_append)

lemma split_sizes:
  assumes "16 \<le> n" "4 dvd n" "12 \<le> sz" "4 dvd sz"
  shows "sizes_ok (split_block sz n)" "bsize (split_block sz n) = n"
  using assms by (auto simp: split_block_def dvd_diff_nat)

text \<open>The block is split when the rest has room for a header and the smallest size.\<close>

lemma malloc_take_splits:
  assumes h: "heap_laid h (as @ (n, False) # cs)" and sz: "sz = of_nat k" "12 \<le> k" "4 dvd k" "k + 12 \<le> n"
  shows "sz + 12 + 12 \<le> mem_next (mems h (adr h (bsize as))) - (of_nat (bsize as) + 12) \<longleftrightarrow> k + 36 \<le> n"
proof -
  note b = laid_block [OF h]
  have i2: "bsize as + n < 2 ^ 32" using heap_frame_bounds(1) [OF b(1), of "bsize as + n"] b(5) by simp
  have hd: "mem_next (mems h (adr h (bsize as))) = of_nat (bsize as + n)" using b(2) by (simp add: header_ok_def)
  have "sz + 12 + 12 = of_nat (k + 24)" by (simp add: sz(1))
  moreover have "k + 24 < 2 ^ 32" using sz(4) b(1,5) by (simp add: heap_frame_def)
  ultimately have "unat (sz + 12 + 12) = k + 24" using unat_u32 by metis
  then show ?thesis
    unfolding hd block_room(1) [OF b(3) i2] word_le_nat_alt block_room(2) [OF b(3) i2] using b(3) by auto
qed

lemma malloc_take_split:
  assumes h: "heap_laid h (as @ (n, False) # cs)" and sz: "sz = of_nat k" "12 \<le> k" "4 dvd k" "k + 12 \<le> n"
    and h': "h' = (upd_mem (adr h (bsize as)) (magic_update (\<lambda>_. HEAP_MAGIC)) (malloc_take sz (of_nat (bsize as)) h))\<lparr>lfree := p\<rparr>"
    and lf: "p \<in> insert (heap_end h) (adr h ` free_offsets (as @ split_block k n @ cs))"
    and big: "k + 36 \<le> n" and same: "same_area h h'"
  shows "heap_laid h' (as @ split_block k n @ cs)"
proof -
  note b = laid_block [OF h] and c = malloc_take_splits [OF h sz]
  let ?i = "bsize as" and ?M = "heap_size h"
  have le: "?i + n \<le> ?M + 12" "?i \<le> ?M + 12" using b(5) by simp_all
  have hd: "mem_next (mems h (adr h ?i)) = of_nat (?i + n)" using b(2) by (simp add: header_ok_def)
  let ?j = "?i + (k + 12)"
  have sp: "split_block k n = [(k + 12, True), (n - (k + 12), False)]" using big by (simp add: split_block_def)
  have jn: "?j + (n - (k + 12)) = ?i + n" using big by simp
  have a2: "heap_ptr h + (of_nat ?i + 12 + sz) = adr h ?j" "of_nat ?i + 12 + sz = (of_nat ?j :: u32)" by (simp_all add: sz(1))
  have ne: "adr h ?j \<noteq> adr h ?i" "adr h ?j \<noteq> adr h (?i + n)" "adr h ?i \<noteq> adr h (?i + n)"
    using adr_simps(1) [OF b(1)] big le jn b(3) by (simp_all del: of_nat_add)
  have ee: "mem_size_aligned h + 12 = of_nat (?M + 12)" "(of_nat (?i + n) :: u32) = of_nat (?M + 12) \<longleftrightarrow> ?i + n = ?M + 12"
    using adr_simps(1) [OF b(1) le(1), of "?M + 12"] by (simp_all del: of_nat_add) simp
  have ms: "mems h' = (let m1 = (mems h)(adr h ?j := \<lparr>magic = HEAP_MAGIC, used = 0, mem_next = of_nat (?i + n), mem_prev = of_nat ?i\<rparr>);
      m2 = m1(adr h ?i := (m1 (adr h ?i))\<lparr>mem_next := of_nat ?j, used := 1\<rparr>);
      m3 = (if ?i + n \<noteq> ?M + 12 then m2(adr h (?i + n) := (m2 (adr h (?i + n)))\<lparr>mem_prev := of_nat ?j\<rparr>) else m2)
    in m3(adr h ?i := (m3 (adr h ?i))\<lparr>magic := HEAP_MAGIC\<rparr>))"
    unfolding h' malloc_take_def Let_def hd
    unfolding if_P [OF c [unfolded hd, THEN iffD2, OF big]] a2
    using ne by (simp add: ee if_distrib [where f = mems] del: of_nat_add)
  show ?thesis
  proof (rule heap_laid_replace [where old = "[(n, False)]"])
    show "heap_laid h (as @ [(n, False)] @ cs)" using h by simp
    show "sizes_ok (split_block k n)" "bsize (split_block k n) = bsize [(n, False)]" using split_sizes [OF b(3,4) sz(2,3)] by simp_all
    show "heap_ptr h' = heap_ptr h" "mem_size_aligned h' = mem_size_aligned h" "heap_end h' = heap_end h" using same by (simp_all add: same_area_def)
    have b2: "x < 2 ^ 32" if "x \<le> ?M + 12" for x using heap_frame_bounds(1) [OF b(1) that] .
    show "mems h' (adr h x) = mems h (adr h x)" if "x < ?i \<or> ?i + bsize [(n, False)] < x" "x \<le> ?M + 12" for x
    proof -
      have "x \<noteq> ?i" "x \<noteq> ?j" "x \<noteq> ?i + n" using that(1) jn by auto
      then have "adr h x \<noteq> adr h ?i" "adr h x \<noteq> adr h ?j" "adr h x \<noteq> adr h (?i + n)"
        using adr_simps(1) [OF b(1) that(2)] le jn by (simp_all del: of_nat_add)
      then show ?thesis unfolding ms Let_def by (simp del: of_nat_add)
    qed
    show "segs (mems h') (heap_ptr h) (prev_of 0 0 as) ?i (split_block k n)"
      using b(2) ne jn unfolding ms sp Let_def header_ok_def by (simp add: header_ok_def del: of_nat_add)
    show "mems h' (adr h (?i + bsize [(n, False)])) = (mems h (adr h (?i + bsize [(n, False)])))
        \<lparr>mem_prev := of_nat (prev_of (prev_of 0 0 as) ?i (split_block k n))\<rparr>" if "?i + bsize [(n, False)] < ?M + 12"
      using that ne unfolding ms sp Let_def by (simp del: of_nat_add)
    show "used (mems h' (heap_end h)) = used (mems h (heap_end h))"
    proof -
      have "adr h (?M + 12) \<noteq> adr h ?i" "adr h (?M + 12) \<noteq> adr h ?j" "?i + n \<noteq> ?M + 12 \<Longrightarrow> adr h (?M + 12) \<noteq> adr h (?i + n)"
        using adr_simps(1) [OF b(1) le_refl] le jn big b(3) by (simp_all del: of_nat_add)
      then show ?thesis unfolding ms Let_def frame_end [OF b(1)] by (simp del: of_nat_add)
    qed
    show "lfree h' \<in> insert (heap_end h) (adr h ` free_offsets (as @ split_block k n @ cs))" using lf by (simp add: h')
  qed
qed

lemma malloc_take_whole:
  assumes h: "heap_laid h (as @ (n, False) # cs)" and sz: "sz = of_nat k" "12 \<le> k" "4 dvd k" "k + 12 \<le> n"
    and h': "h' = (upd_mem (adr h (bsize as)) (magic_update (\<lambda>_. HEAP_MAGIC)) (malloc_take sz (of_nat (bsize as)) h))\<lparr>lfree := p\<rparr>"
    and lf: "p \<in> insert (heap_end h) (adr h ` free_offsets (as @ split_block k n @ cs))"
    and small: "\<not> k + 36 \<le> n" and same: "same_area h h'"
  shows "heap_laid h' (as @ split_block k n @ cs)"
proof -
  note b = laid_block [OF h] and c = malloc_take_splits [OF h sz]
  let ?i = "bsize as" and ?M = "heap_size h"
  have le: "?i + n \<le> ?M + 12" "?i \<le> ?M + 12" using b(5) by simp_all
  have hd: "mem_next (mems h (adr h ?i)) = of_nat (?i + n)" using b(2) by (simp add: header_ok_def)
  from small have sp: "split_block k n = [(n, True)]" by (simp add: split_block_def)
  have ms: "mems h' = (mems h)(adr h ?i := (mems h (adr h ?i))\<lparr>used := 1, magic := HEAP_MAGIC\<rparr>)"
    unfolding h' malloc_take_def Let_def hd
    unfolding if_not_P [OF c [unfolded hd, THEN Not_eq_iff [THEN iffD2], THEN iffD2, OF small]] by simp
  show ?thesis
  proof (rule heap_laid_replace [where old = "[(n, False)]"])
    show "heap_laid h (as @ [(n, False)] @ cs)" using h by simp
    show "sizes_ok (split_block k n)" "bsize (split_block k n) = bsize [(n, False)]" using split_sizes [OF b(3,4) sz(2,3)] by simp_all
    show "heap_ptr h' = heap_ptr h" "mem_size_aligned h' = mem_size_aligned h" "heap_end h' = heap_end h" using same by (simp_all add: same_area_def)
    have other: "mems h' (adr h x) = mems h (adr h x)" if "x \<noteq> ?i" "x \<le> ?M + 12" for x
      using adr_simps(1) [OF b(1) that(2) le(2)] that unfolding ms by (simp del: of_nat_add)
    show "mems h' (adr h x) = mems h (adr h x)" if "x < ?i \<or> ?i + bsize [(n, False)] < x" "x \<le> ?M + 12" for x
      using that by (intro other) auto
    show "segs (mems h') (heap_ptr h) (prev_of 0 0 as) ?i (split_block k n)"
      using b(2) unfolding ms sp header_ok_def by (simp add: header_ok_def)
    show "mems h' (adr h (?i + bsize [(n, False)])) = (mems h (adr h (?i + bsize [(n, False)])))
        \<lparr>mem_prev := of_nat (prev_of (prev_of 0 0 as) ?i (split_block k n))\<rparr>" if "?i + bsize [(n, False)] < ?M + 12"
    proof -
      have "cs \<noteq> []" using that b(5) by auto
      then obtain n2 u2 cs2 where cs: "cs = (n2, u2) # cs2" by (cases cs) auto
      have "mem_prev (mems h (adr h (?i + n))) = of_nat ?i"
        using h by (simp add: heap_laid_def segs_append cs header_ok_def)
      then have "(mems h (adr h (?i + n)))\<lparr>mem_prev := of_nat ?i\<rparr> = mems h (adr h (?i + n))" by (metis heap_mem.surjective heap_mem.update_convs(4))
      then show ?thesis using other [of "?i + n"] le b(3) by (simp add: sp)
    qed
    show "used (mems h' (heap_end h)) = used (mems h (heap_end h))"
      using other [of "?M + 12"] le b(3) unfolding frame_end [OF b(1)] by simp
    show "lfree h' \<in> insert (heap_end h) (adr h ` free_offsets (as @ split_block k n @ cs))" using lf by (simp add: h')
  qed
qed

lemma malloc_take_ok:
  assumes h: "heap_laid h (as @ (n, False) # cs)" and sz: "sz = of_nat k" "12 \<le> k" "4 dvd k" "k + 12 \<le> n"
    and h': "h' = (upd_mem (adr h (bsize as)) (magic_update (\<lambda>_. HEAP_MAGIC)) (malloc_take sz (of_nat (bsize as)) h))\<lparr>lfree := p\<rparr>"
    and lf: "p \<in> insert (heap_end h) (adr h ` free_offsets (as @ split_block k n @ cs))"
  shows "heap_laid h' (as @ split_block k n @ cs)" "same_area h h'" "used_mem h' = used_mem h + of_nat (taken_size k n)"
    "max_mem h' = max (max_mem h) (used_mem h')"
proof -
  note b = laid_block [OF h] and c = malloc_take_splits [OF h sz]
  have hd: "mem_next (mems h (adr h (bsize as))) = of_nat (bsize as + n)" using b(2) by (simp add: header_ok_def)
  show same: "same_area h h'" unfolding h' same_area_def malloc_take_def Let_def by simp
  show "used_mem h' = used_mem h + of_nat (taken_size k n)"
    unfolding h' malloc_take_def Let_def taken_size_def using c hd by (simp add: sz(1))
  show "max_mem h' = max (max_mem h) (used_mem h')"
    unfolding h' malloc_take_def Let_def by simp
  show "heap_laid h' (as @ split_block k n @ cs)"
    using malloc_take_split [OF h sz h' lf _ same] malloc_take_whole [OF h sz h' lf _ same] by blast
qed

subsection \<open>The next free block\<close>

lemma lfree_advance_ok:
  assumes fr: "heap_frame h" and sg: "segs (mems h) (heap_ptr h) p i bs" "sizes_ok bs" "i + bsize bs = heap_size h + 12"
  shows "\<exists>q. lfree_advance (adr h i) h = Some q \<and> q \<in> insert (heap_end h) ((\<lambda>j. adr h (i + j)) ` free_offsets bs) \<and>
    (\<forall>j \<in> free_offsets bs. q \<le> adr h (i + j)) \<and> (q = heap_end h \<or> used (mems h q) = 0)"
  using sg
proof (induction bs arbitrary: p i)
  case Nil
  then have "adr h i = heap_end h" using frame_end [OF fr] by simp
  then show ?case by (subst lfree_advance.simps) simp
next
  case (Cons b bs)
  obtain n u where b: "b = (n, u)" by force
  have hd: "mem_next (mems h (adr h i)) = of_nat (i + n)" "used (mems h (adr h i)) = 0 \<longleftrightarrow> \<not> u"
    using Cons.prems(1) by (auto simp: b header_ok_def)
  have le: "i + (n + bsize bs) = heap_size h + 12" "16 \<le> n" using Cons.prems b by auto
  have le_off: "j \<le> bsize bs" if "j \<in> free_offsets bs" for j using that by (auto simp: free_offsets_def)
  show ?case
  proof (cases u)
    case True
    have ne: "adr h i \<noteq> heap_end h" using adr_simps(1) [OF fr, of i "heap_size h + 12"] le frame_end [OF fr] by simp
    obtain q where q: "lfree_advance (adr h (i + n)) h = Some q" "q \<in> insert (heap_end h) ((\<lambda>j. adr h (i + n + j)) ` free_offsets bs)"
      "\<forall>j \<in> free_offsets bs. q \<le> adr h (i + n + j)" "q = heap_end h \<or> used (mems h q) = 0"
      using Cons.IH [of i "i + n"] Cons.prems b by auto
    have "lfree_advance (adr h i) h = Some q"
      using True ne hd q(1) by (subst lfree_advance.simps) (simp del: of_nat_add)
    then show ?thesis using q True by (auto simp: b add.assoc simp del: of_nat_add)
  next
    case False
    have l: "adr h i \<le> adr h (i + (n + j))" if "j \<in> free_offsets bs" for j
      using adr_simps(3) [OF fr, of i "i + (n + j)"] le le_off [OF that] by simp
    have "lfree_advance (adr h i) h = Some (adr h i)" using False hd by (subst lfree_advance.simps) simp
    then show ?thesis using False hd l by (auto simp: b simp del: of_nat_add intro!: exI [of _ "adr h i"])
  qed
qed

subsection \<open>The section of \<open>rt_malloc\<close>\<close>

text \<open>The sizes that \<open>rt_malloc\<close> looks for.\<close>

definition size_ok :: "heap \<Rightarrow> u32 \<Rightarrow> bool" where
  "size_ok h sz \<longleftrightarrow> 12 \<le> unat sz \<and> 4 dvd unat sz \<and> unat sz \<le> heap_size h"

text \<open>What an allocation does to the list of blocks; nothing else in the heap changes.\<close>

definition malloc_done :: "u32 \<Rightarrow> heap \<Rightarrow> blocks \<Rightarrow> u32 \<Rightarrow> heap \<Rightarrow> blocks \<Rightarrow> bool" where
  "malloc_done sz h bs rmem h' bs' \<longleftrightarrow>
     (\<exists>as n cs. bs = as @ (n, False) # cs \<and> bs' = as @ split_block (unat sz) n @ cs \<and> unat sz + 12 \<le> n \<and>
        rmem = adr h (bsize as + 12) \<and> same_area h h' \<and> used_mem h' = used_mem h + of_nat (taken_size (unat sz) n) \<and>
        max_mem h' = max (max_mem h) (used_mem h'))"

text \<open>Where the search starts.\<close>

lemma laid_lfree:
  assumes "heap_laid h bs"
  obtains as cs where "bs = as @ cs" "lfree h = adr h (bsize as)" "cs = [] \<or> (\<exists>n cs'. cs = (n, False) # cs')"
proof -
  have "lfree h = heap_end h \<or> (\<exists>as n cs. bs = as @ (n, False) # cs \<and> lfree h = adr h (bsize as))"
    using assms by (auto simp: heap_laid_def free_offsets_def)
  then show ?thesis
  proof
    assume "lfree h = heap_end h"
    then show ?thesis using that [of bs "[]"] assms frame_end [of h] by (simp add: heap_laid_def)
  next
    assume "\<exists>as n cs. bs = as @ (n, False) # cs \<and> lfree h = adr h (bsize as)"
    then show ?thesis using that by blast
  qed
qed


lemma free_offset_room: "j \<in> free_offsets bs \<Longrightarrow> sizes_ok bs \<Longrightarrow> j + 16 \<le> bsize bs"
  by (auto simp: free_offsets_def)

lemma bsize_0: "sizes_ok bs \<Longrightarrow> bsize bs = 0 \<longleftrightarrow> bs = []"
  by (cases bs) auto

lemma successively_split:
  assumes "successively (\<lambda>b c. snd b \<or> snd c) (as @ (n, False) # cs)"
  shows "successively (\<lambda>b c. snd b \<or> snd c) (as @ split_block k n @ cs)"
  using assms by (cases cs) (auto simp: split_block_def successively_append_iff)

lemma used_size_split: "used_size (split_block k n) = taken_size k n"
  by (simp add: split_block_def taken_size_def)

lemma lfree_malloc_take [simp]: "lfree (malloc_take sz ptr h) = lfree h"
  by (simp add: malloc_take_def Let_def)

lemma malloc_take_end [simp]: "heap_end (malloc_take sz ptr h) = heap_end h"
  by (simp add: malloc_take_def Let_def)

lemma prefix_bsize:
  assumes "as @ cs = as2 @ cs2" "bsize as \<le> bsize as2" "sizes_ok as"
  shows "\<exists>us. as2 = as @ us"
proof -
  consider us where "as2 = as @ us" | us where "as = as2 @ us" using assms(1) by (auto simp: append_eq_append_conv2)
  then show ?thesis
  proof cases
    case 2
    then have "us = []" using assms(2,3) bsize_0 [of us] by simp
    then show ?thesis using 2 by simp
  qed blast
qed

lemma free_offsets_low:
  assumes "heap_frame h" "sizes_ok as" "bsize as + bsize cs = heap_size h + 12" "\<forall>i \<in> free_offsets (as @ cs). adr h (bsize as) \<le> adr h i"
  shows "free_offsets as = {}"
proof -
  have False if "i \<in> free_offsets as" for i
  proof -
    have i: "i + 16 \<le> bsize as" by (rule free_offset_room [OF that assms(2)])
    have "adr h (bsize as) \<le> adr h i" using assms(4) that by (simp add: free_offsets_append)
    then show False using adr_simps(3) [OF assms(1), of "bsize as" i] assms(3) i by simp
  qed
  then show ?thesis by blast
qed

lemma laid_segs:
  assumes "heap_laid (h\<lparr>lfree := q\<rparr>) (as @ bs)"
  shows "segs (mems h) (heap_ptr h) (prev_of 0 0 as) (bsize as) bs" "heap_frame h"
proof -
  have "heap_frame (h\<lparr>lfree := q\<rparr>) = heap_frame h" by (simp add: heap_frame_def)
  then show "segs (mems h) (heap_ptr h) (prev_of 0 0 as) (bsize as) bs" "heap_frame h"
    using assms by (simp_all add: heap_laid_def segs_append)
qed

text \<open>What the search passes over, the state after a block was taken, and the new lowest free block.\<close>

lemma search_passes:
  assumes laid: "heap_laid h (as @ cs)" and none: "first_fit (heap_size h) k (bsize as) cs = None"
    and bs: "as @ cs = as2 @ (n, False) # cs2" and le: "adr h (bsize as) \<le> adr h (bsize as2)"
  shows "n < k + 12 \<or> n = k + 12 \<and> cs2 = []"
proof (cases "k + 12 \<le> n")
  case True
  have ok: "heap_frame h" "sizes_ok as" "sizes_ok cs" "bsize as + bsize cs = heap_size h + 12"
    using laid by (simp_all add: heap_laid_def segs_append)
  have "bsize as2 + n + bsize cs2 = heap_size h + 12" using laid_block(5) [of h as2 n False cs2] laid bs by simp
  then have "bsize as \<le> bsize as2" using le adr_simps(3) [OF ok(1), of "bsize as" "bsize as2"] ok(4) by simp
  then obtain us where us: "as2 = as @ us" using prefix_bsize [OF bs _ ok(2)] by auto
  then have "cs = us @ (n, False) # cs2" using bs by simp
  from first_fit_None [OF none ok(4) this True ok(3)] show ?thesis by simp
qed simp

lemma malloc_taken_rep:
  assumes h: "heap_rep h (as @ (n, False) # cs)" and sz: "size_ok h sz" "unat sz + 12 \<le> n"
    and h1: "h1 = upd_mem (adr h (bsize as)) (magic_update (\<lambda>_. HEAP_MAGIC)) (malloc_take sz (of_nat (bsize as)) h)"
    and q: "q \<in> insert (heap_end h) (adr h ` free_offsets (as @ split_block (unat sz) n @ cs))"
  shows "heap_rep (h1\<lparr>lfree := q\<rparr>) (as @ split_block (unat sz) n @ cs)"
    "malloc_done sz h (as @ (n, False) # cs) (adr h (bsize as) + 12) (h1\<lparr>lfree := q\<rparr>) (as @ split_block (unat sz) n @ cs)"
    "lfree_lowest (h1\<lparr>lfree := q\<rparr>) (as @ split_block (unat sz) n @ cs) \<longleftrightarrow>
      (\<forall>i \<in> free_offsets (as @ split_block (unat sz) n @ cs). q \<le> adr h i)"
proof -
  have laid: "heap_laid h (as @ (n, False) # cs)" and hol: "successively (\<lambda>b c. snd b \<or> snd c) (as @ (n, False) # cs)"
    and um: "used_mem h = of_nat (used_size (as @ (n, False) # cs))" using h by (simp_all add: heap_rep_def)
  have k: "12 \<le> unat sz" "4 dvd unat sz" using sz(1) by (simp_all add: size_ok_def)
  have "sz = of_nat (unat sz)" by simp
  note t = malloc_take_ok [OF laid this k sz(2) refl q, folded h1]
  show "heap_rep (h1\<lparr>lfree := q\<rparr>) (as @ split_block (unat sz) n @ cs)"
    unfolding heap_rep_def using t(1,3) successively_split [OF hol, of "unat sz"] um by (simp add: used_size_split)
  show "malloc_done sz h (as @ (n, False) # cs) (adr h (bsize as) + 12) (h1\<lparr>lfree := q\<rparr>) (as @ split_block (unat sz) n @ cs)"
    unfolding malloc_done_def using t(2-4) sz(2) by (intro exI [of _ as] exI [of _ n] exI [of _ cs]) auto
  show "lfree_lowest (h1\<lparr>lfree := q\<rparr>) (as @ split_block (unat sz) n @ cs) \<longleftrightarrow>
      (\<forall>i \<in> free_offsets (as @ split_block (unat sz) n @ cs). q \<le> adr h i)"
    using t(2) by (simp add: lfree_lowest_def same_area_def)
qed

text \<open>When the block at \<open>lfree\<close> is taken, the search for the next free one ends at the lowest.\<close>

lemma malloc_advances:
  assumes h: "heap_rep h (as @ (n, False) # cs)" and sz: "size_ok h sz" "unat sz + 12 \<le> n"
    and h1: "h1 = upd_mem (adr h (bsize as)) (magic_update (\<lambda>_. HEAP_MAGIC)) (malloc_take sz (of_nat (bsize as)) h)"
  shows "\<exists>q. lfree_advance (adr h (bsize as)) h1 = Some q \<and> (q = heap_end h \<or> used (mems h1 q) = 0) \<and>
    q \<in> insert (heap_end h) (adr h ` free_offsets (as @ split_block (unat sz) n @ cs)) \<and>
    (free_offsets as = {} \<longrightarrow> (\<forall>i \<in> free_offsets (as @ split_block (unat sz) n @ cs). q \<le> adr h i))"
proof -
  let ?x = "bsize as" and ?new = "split_block (unat sz) n"
  have laid: "heap_laid h (as @ (n, False) # cs)" using h by (simp add: heap_rep_def)
  note b = laid_block [OF laid]
  have k: "12 \<le> unat sz" "4 dvd unat sz" using sz(1) by (simp_all add: size_ok_def)
  have sn: "sizes_ok ?new" "bsize ?new = n" using split_sizes [OF b(3,4) k] .
  have "sz = of_nat (unat sz)" by simp
  note tk = malloc_take_ok [OF laid this k sz(2) refl insertI1, folded h1]
  have a: "heap_ptr h1 = heap_ptr h" "heap_end h1 = heap_end h" "heap_size h1 = heap_size h" using tk(2) by (simp_all add: same_area_def)
  have sg: "segs (mems h1) (heap_ptr h1) (prev_of 0 0 as) ?x (?new @ cs)" "heap_frame h1"
    using laid_segs [OF tk(1)] a(1) by simp_all
  have "?x + bsize (?new @ cs) = heap_size h1 + 12" using b(5) sn(2) a(3) by simp
  from lfree_advance_ok [OF sg(2,1) _ this] sn(1) b(8)
  obtain q where q: "lfree_advance (adr h ?x) h1 = Some q" "q \<in> insert (heap_end h) ((\<lambda>j. adr h (?x + j)) ` free_offsets (?new @ cs))"
    "\<forall>j \<in> free_offsets (?new @ cs). q \<le> adr h (?x + j)" "q = heap_end h \<or> used (mems h1 q) = 0"
    unfolding a by auto
  have "q \<in> insert (heap_end h) (adr h ` free_offsets (as @ ?new @ cs))"
    using q(2) unfolding free_offsets_append [of as] image_Un image_image by blast
  moreover have "\<forall>i \<in> free_offsets (as @ ?new @ cs). q \<le> adr h i" if "free_offsets as = {}"
    using q(3) that unfolding free_offsets_append [of as] by (auto simp del: of_nat_add)
  ultimately show ?thesis using q(1,4) by blast
qed

text \<open>When a later block is taken, the lowest free one stays.\<close>

lemma lfree_stays:
  assumes h: "heap_rep h (as @ (n0, False) # us @ (n, False) # cs)" and k: "12 \<le> k" "4 dvd k" and le: "k + 12 \<le> n"
    and i: "i \<in> free_offsets ((as @ (n0, False) # us) @ split_block k n @ cs)"
    and lw: "\<forall>i \<in> free_offsets as. adr h (bsize as) \<le> adr h i"
  shows "adr h (bsize as) \<le> adr h i"
proof (cases "bsize as \<le> i")
  case True
  have "heap_laid h ((as @ (n0, False) # us) @ (n, False) # cs)" using h by (simp add: heap_rep_def)
  note b = laid_block [OF this]
  have sn: "sizes_ok (split_block k n)" "bsize (split_block k n) = n" using split_sizes [OF b(3,4) k] .
  have "i + 16 \<le> bsize ((as @ (n0, False) # us) @ split_block k n @ cs)" by (rule free_offset_room [OF i]) (use b sn in simp)
  then show ?thesis using adr_simps(3) [OF b(1), of "bsize as" i] True b(5) sn(2) by simp
next
  case False
  then have "i \<in> free_offsets as" using i by (auto simp: free_offsets_append)
  then show ?thesis using lw by blast
qed

text \<open>The block found is the one that \<open>lfree\<close> points to: \<open>lfree\<close> moves on.\<close>

lemma malloc_locked_first:
  assumes rep: "heap_rep h (as @ (n, False) # cs)" and sz: "size_ok h sz" and n: "unat sz + 12 \<le> n"
    and lf: "lfree h = adr h (bsize as)" and search: "malloc_search sz (lfree h - heap_ptr h) h = Some (Some (of_nat (bsize as)))"
  defines "bs \<equiv> as @ (n, False) # cs"
  shows "\<exists>rmem h' bs'. malloc_locked sz h = Some (rmem, h') \<and> malloc_done sz h bs rmem h' bs' \<and> heap_rep h' bs' \<and>
    (lfree_lowest h bs \<longrightarrow> lfree_lowest h' bs')"
proof -
  let ?new = "split_block (unat sz) n"
  let ?h1 = "upd_mem (adr h (bsize as)) (magic_update (\<lambda>_. HEAP_MAGIC)) (malloc_take sz (of_nat (bsize as)) h)"
  have ok: "heap_frame h" "sizes_ok as" "bsize as + bsize ((n, False) # cs) = heap_size h + 12"
    using rep by (simp_all add: heap_rep_def heap_laid_def)
  obtain q where q: "lfree_advance (adr h (bsize as)) ?h1 = Some q" "q = heap_end h \<or> used (mems ?h1 q) = 0"
    "q \<in> insert (heap_end h) (adr h ` free_offsets (as @ ?new @ cs))"
    "free_offsets as = {} \<longrightarrow> (\<forall>i \<in> free_offsets (as @ ?new @ cs). q \<le> adr h i)"
    using malloc_advances [OF rep sz n refl] by auto
  have "malloc_locked sz h = Some (adr h (bsize as) + 12, ?h1\<lparr>lfree := q\<rparr>)"
    unfolding malloc_locked_def search option.map bind.bind_lunit option.case Let_def using q(1,2) lf by simp
  moreover have "\<forall>i \<in> free_offsets (as @ ?new @ cs). q \<le> adr h i" if "lfree_lowest h bs"
    using q(4) free_offsets_low [OF ok] that unfolding lfree_lowest_def bs_def lf by simp
  ultimately show ?thesis using malloc_taken_rep [OF rep sz n refl q(3), folded bs_def] by blast
qed

text \<open>The block found lies behind the one that \<open>lfree\<close> points to: \<open>lfree\<close> stays.\<close>

lemma malloc_locked_later:
  assumes rep: "heap_rep h (as @ (n0, False) # us @ (n, False) # cs)" and sz: "size_ok h sz" and n: "unat sz + 12 \<le> n"
    and lf: "lfree h = adr h (bsize as)"
  defines "A \<equiv> as @ (n0, False) # us"
  assumes search: "malloc_search sz (lfree h - heap_ptr h) h = Some (Some (of_nat (bsize A)))"
  defines "bs \<equiv> A @ (n, False) # cs"
  shows "\<exists>rmem h' bs'. malloc_locked sz h = Some (rmem, h') \<and> malloc_done sz h bs rmem h' bs' \<and> heap_rep h' bs' \<and>
    (lfree_lowest h bs \<longrightarrow> lfree_lowest h' bs')"
proof -
  let ?new = "split_block (unat sz) n" and ?x = "bsize A"
  let ?h1 = "upd_mem (adr h ?x) (magic_update (\<lambda>_. HEAP_MAGIC)) (malloc_take sz (of_nat ?x) h)"
  have rep': "heap_rep h (A @ (n, False) # cs)" using rep by (simp add: A_def)
  have laid: "heap_laid h (A @ (n, False) # cs)" using rep' by (simp add: heap_rep_def)
  have k: "12 \<le> unat sz" "4 dvd unat sz" using sz by (simp_all add: size_ok_def)
  have b: "sizes_ok A" "?x + n + bsize cs = heap_size h + 12" using laid_block [OF laid] by simp_all
  have "?x \<noteq> bsize as" "?x \<le> heap_size h + 12" "bsize as \<le> heap_size h + 12" using b by (simp_all add: A_def)
  then have ne: "adr h ?x \<noteq> adr h (bsize as)" using adr_simps(1) [OF laid_block(1) [OF laid], of ?x "bsize as"] by simp
  have "malloc_locked sz h = Some (adr h ?x + 12, ?h1\<lparr>lfree := lfree h\<rparr>)"
    unfolding malloc_locked_def search option.map bind.bind_lunit option.case Let_def using ne lf by simp
  moreover have q: "lfree h \<in> insert (heap_end h) (adr h ` free_offsets (A @ ?new @ cs))"
    unfolding lf by (simp add: A_def free_offsets_append)
  moreover have "\<forall>i \<in> free_offsets (A @ ?new @ cs). lfree h \<le> adr h i" if "lfree_lowest h bs"
  proof
    fix i
    assume i: "i \<in> free_offsets (A @ ?new @ cs)"
    have "\<forall>i \<in> free_offsets as. adr h (bsize as) \<le> adr h i"
      using that unfolding lfree_lowest_def lf by (simp add: bs_def A_def free_offsets_append)
    from lfree_stays [OF _ k n _ this] rep i show "lfree h \<le> adr h i" unfolding lf A_def by simp
  qed
  ultimately show ?thesis using malloc_taken_rep [OF rep' sz n refl q, folded bs_def] by blast
qed

lemma malloc_locked_ok:
  assumes h: "heap_rep h bs" and sz: "size_ok h sz"
  shows "\<exists>rmem h'. malloc_locked sz h = Some (rmem, h') \<and>
    (rmem = 0 \<and> h' = h \<and> (\<forall>as n cs. bs = as @ (n, False) # cs \<longrightarrow> lfree h \<le> adr h (bsize as) \<longrightarrow>
        n < unat sz + 12 \<or> n = unat sz + 12 \<and> cs = []) \<or>
     (\<exists>bs'. malloc_done sz h bs rmem h' bs' \<and> heap_rep h' bs' \<and> (lfree_lowest h bs \<longrightarrow> lfree_lowest h' bs')))"
proof -
  let ?k = "unat sz" and ?M = "heap_size h"
  have laid: "heap_laid h bs" using h by (simp add: heap_rep_def)
  have k: "12 \<le> ?k" "4 dvd ?k" "?k \<le> ?M" using sz by (simp_all add: size_ok_def)
  obtain as cs where sp: "bs = as @ cs" "lfree h = adr h (bsize as)" "cs = [] \<or> (\<exists>n cs'. cs = (n, False) # cs')"
    using laid_lfree [OF laid] by metis
  have ok: "heap_frame h" "segs (mems h) (heap_ptr h) (prev_of 0 0 as) (bsize as) cs" "sizes_ok as" "sizes_ok cs" "bsize as + bsize cs = ?M + 12"
    using laid by (simp_all add: heap_laid_def sp(1) segs_append)
  have search: "malloc_search sz (lfree h - heap_ptr h) h = Some (map_option of_nat (first_fit ?M ?k (bsize as) cs))"
    unfolding sp(2) adr_minus by (rule malloc_search_ok [OF ok(1) k(3) ok(2,4,5)])
  show ?thesis
  proof (cases "first_fit ?M ?k (bsize as) cs")
    case None
    have "malloc_locked sz h = Some (0, h)" using None search by (simp add: malloc_locked_def)
    then show ?thesis using search_passes [OF laid [unfolded sp(1)] None] unfolding sp(1,2) by blast
  next
    case (Some x)
    then obtain as2 n cs2 where f: "cs = as2 @ (n, False) # cs2" "x = bsize (as @ as2)" "unat sz + 12 \<le> n"
      using first_fit_Some [OF Some] by auto
    have s: "malloc_search sz (lfree h - heap_ptr h) h = Some (Some (of_nat (bsize (as @ as2))))" using search Some f(2) by simp
    show ?thesis
    proof (cases "as2 = []")
      case True
      then show ?thesis using malloc_locked_first [OF _ sz f(3) sp(2), of cs2] h s unfolding sp(1) f(1) by fastforce
    next
      case False
      then obtain n0 us where as2: "as2 = (n0, False) # us" using sp(3) f(1) by (cases as2) auto
      show ?thesis using malloc_locked_later [OF _ sz f(3) sp(2), of n0 us cs2] h s unfolding sp(1) f(1) as2 by fastforce
    qed
  qed
qed


subsection \<open>Joining free neighbours\<close>

fun join_next :: "nat \<Rightarrow> blocks \<Rightarrow> blocks" where
  "join_next n ((m, False) # cs) = (n + m, False) # cs"
| "join_next n cs = (n, False) # cs"

definition join_prev :: "blocks \<Rightarrow> blocks \<Rightarrow> blocks" where
  "join_prev as cs =
     (case cs of
        (n, False) # cs' \<Rightarrow> if as \<noteq> [] \<and> \<not> snd (last as) then butlast as @ (fst (last as) + n, False) # cs' else as @ cs
      | _ \<Rightarrow> as @ cs)"

text \<open>A step that only joins blocks: the counters and the bytes stay, and so does the lowest free block.\<close>

definition joined :: "heap \<Rightarrow> blocks \<Rightarrow> heap \<Rightarrow> blocks \<Rightarrow> bool" where
  "joined h bs h' bs' \<longleftrightarrow> heap_laid h' bs' \<and> same_area h h' \<and> used_mem h' = used_mem h \<and> max_mem h' = max_mem h \<and>
     used_size bs' = used_size bs \<and> (lfree_lowest h bs \<longrightarrow> lfree_lowest h' bs')"

lemma joined_trans: "joined h bs h' bs' \<Longrightarrow> joined h' bs' h'' bs'' \<Longrightarrow> joined h bs h'' bs''"
  by (simp add: joined_def same_area_def)

text \<open>Joining a block with the next one, as both directions do it.\<close>

lemma merge_ok:
  assumes h: "heap_laid h (as @ (n, False) # (m, False) # cs)"
    and ms: "mems h' = (mems h)(adr h (bsize as) := (mems h (adr h (bsize as)))\<lparr>mem_next := of_nat (bsize as + n + m)\<rparr>,
        adr h (bsize as + n + m) := (mems h (adr h (bsize as + n + m)))\<lparr>mem_prev := of_nat (bsize as)\<rparr>)"
    and fields: "same_area h h'" "used_mem h' = used_mem h" "max_mem h' = max_mem h"
      "lfree h' = (if lfree h = adr h (bsize as + n) then adr h (bsize as) else lfree h)"
  shows "joined h (as @ (n, False) # (m, False) # cs) h' (as @ (n + m, False) # cs)"
proof -
  let ?i = "bsize as" and ?M = "heap_size h" and ?bs = "as @ (n, False) # (m, False) # cs"
  let ?bs' = "as @ [(n + m, False)] @ cs" and ?e = "?i + n + m"
  note b = laid_block [OF h]
  have l2: "heap_laid h ((as @ [(n, False)]) @ (m, False) # cs)" using h by simp
  note b2 = laid_block [OF l2]
  have le: "?e \<le> ?M + 12" "?i \<le> ?M + 12" "?i + n \<le> ?M + 12" using b2(5) by simp_all
  have free: "free_offsets ?bs' = free_offsets ?bs - {?i + n}"
  proof -
    have "free_offsets ?bs = insert (?i + n) (free_offsets ?bs')" by (auto simp: free_offsets_append image_Un image_image add.assoc)
    moreover have "?i + n \<notin> free_offsets ?bs'" using b(3) b2(3) free_offset_room [OF _ b(7), of "?i + n"] by (auto simp: free_offsets_append)
    ultimately show ?thesis by blast
  qed
  have ne2: "adr h ?e \<noteq> adr h ?i" "adr h (?i + n) \<noteq> adr h ?i" "adr h (?i + n) \<noteq> heap_end h"
    using adr_simps(1) [OF b(1)] le b(3) b2(3,5) frame_end [OF b(1)] by (simp_all del: of_nat_add)
  have laid: "heap_laid h' ?bs'"
  proof (rule heap_laid_replace [where old = "[(n, False), (m, False)]" and h = h])
    show "heap_laid h (as @ [(n, False), (m, False)] @ cs)" using h by simp
    show "sizes_ok [(n + m, False)]" "bsize [(n + m, False)] = bsize [(n, False), (m, False)]" using b b2 by simp_all
    show "heap_ptr h' = heap_ptr h" "mem_size_aligned h' = mem_size_aligned h" "heap_end h' = heap_end h"
      using fields(1) by (simp_all add: same_area_def)
    show "mems h' (adr h x) = mems h (adr h x)" if "x < ?i \<or> ?i + bsize [(n, False), (m, False)] < x" "x \<le> ?M + 12" for x
      using that adr_simps(1) [OF b(1) that(2) le(1)] adr_simps(1) [OF b(1) that(2) le(2)] unfolding ms by (auto simp del: of_nat_add)
    show "segs (mems h') (heap_ptr h) (prev_of 0 0 as) ?i [(n + m, False)]"
      using b(2) ne2(1) unfolding ms by (simp add: header_ok_def add.assoc del: of_nat_add)
    show "mems h' (adr h (?i + bsize [(n, False), (m, False)])) = (mems h (adr h (?i + bsize [(n, False), (m, False)])))
        \<lparr>mem_prev := of_nat (prev_of (prev_of 0 0 as) ?i [(n + m, False)])\<rparr>" if "?i + bsize [(n, False), (m, False)] < ?M + 12"
      using ne2(1) unfolding ms by (simp add: add.assoc del: of_nat_add)
    show "used (mems h' (heap_end h)) = used (mems h (heap_end h))"
      using adr_simps(1) [OF b(1) le_refl le(2)] b(3) b2(5) unfolding ms frame_end [OF b(1)] by (simp del: of_nat_add)
    have "lfree h \<in> insert (heap_end h) (adr h ` free_offsets ?bs)" using h by (simp add: heap_laid_def)
    moreover have "?i \<in> free_offsets ?bs'" by (simp add: free_offsets_append)
    ultimately show "lfree h' \<in> insert (heap_end h) (adr h ` free_offsets ?bs')" unfolding fields(4) free by auto
  qed
  moreover have "lfree_lowest h' ?bs'" if lw: "lfree_lowest h ?bs"
  proof -
    have "?i \<in> free_offsets ?bs" by (simp add: free_offsets_append)
    then have "lfree h \<le> adr h ?i" using lw unfolding lfree_lowest_def by blast
    moreover have "adr h ?i < adr h (?i + n)" using adr_simps(2) [OF b(1) le(2,3)] b(3) by simp
    ultimately have "lfree h' = lfree h" unfolding fields(4) by (auto simp del: of_nat_add)
    then show ?thesis using lw fields(1) unfolding lfree_lowest_def free same_area_def by simp
  qed
  ultimately show ?thesis using fields by (simp add: joined_def)
qed

text \<open>A free block between used ones stays as it is.\<close>

lemma plug_forward_alone:
  assumes h: "heap_laid h (as @ (n, False) # cs)" and u: "cs = [] \<or> snd (hd cs)"
  shows "plug_forward (adr h (bsize as)) h = h"
proof -
  note b = laid_block [OF h]
  have hd: "mem_next (mems h (adr h (bsize as))) = of_nat (bsize as + n)" using b(2) by (simp add: header_ok_def)
  have "\<not> (used (mems h (adr h (bsize as + n))) = 0 \<and> adr h (bsize as + n) \<noteq> heap_end h)"
  proof (cases cs)
    case Nil
    then show ?thesis using b(5) frame_end [OF b(1)] by simp
  next
    case (Cons c cs')
    then obtain m where "cs = (m, True) # cs'" using u by (cases c) auto
    then have "used (mems h (adr h (bsize as + n))) \<noteq> 0" using h by (simp add: heap_laid_def segs_append header_ok_def)
    then show ?thesis by simp
  qed
  then show ?thesis unfolding plug_forward_def Let_def hd by auto
qed

lemma plug_backward_alone:
  assumes h: "heap_laid h (as @ (n, False) # cs)" and u: "as = [] \<or> snd (last as)"
  shows "plug_backward (adr h (bsize as)) h = h"
proof -
  have hd: "mem_prev (mems h (adr h (bsize as))) = of_nat (prev_of 0 0 as)" using laid_block(2) [OF h] by (simp add: header_ok_def)
  have "\<not> (adr h (prev_of 0 0 as) \<noteq> adr h (bsize as) \<and> used (mems h (adr h (prev_of 0 0 as))) = 0)"
  proof (cases as rule: rev_cases)
    case (snoc as' c)
    then obtain m where "as = as' @ [(m, True)]" using u by (cases c) auto
    then show ?thesis using h by (simp add: heap_laid_def segs_append header_ok_def)
  qed simp
  then show ?thesis unfolding plug_backward_def Let_def hd by auto
qed

lemma plug_forward_ok:
  assumes h: "heap_laid h (as @ (n, False) # cs)"
  shows "joined h (as @ (n, False) # cs) (plug_forward (adr h (bsize as)) h) (as @ join_next n cs)"
proof -
  note b = laid_block [OF h]
  let ?i = "bsize as" and ?M = "heap_size h" and ?h' = "plug_forward (adr h (bsize as)) h"
  have hd: "mem_next (mems h (adr h ?i)) = of_nat (?i + n)" using b(2) by (simp add: header_ok_def)
  have le: "?i + n \<le> ?M + 12" "?i \<le> ?M + 12" using b(5) by simp_all
  have ne: "adr h ?i \<noteq> adr h (?i + n)" using adr_simps(1) [OF b(1) le(2,1)] b(3) by simp
  show ?thesis
  proof (cases "cs = [] \<or> snd (hd cs)")
    case True
    have "?h' = h" by (rule plug_forward_alone [OF h True])
    moreover have "join_next n cs = (n, False) # cs" using True by (cases cs; cases "hd cs") auto
    ultimately show ?thesis using h by (simp add: joined_def same_area_def)
  next
    case False
    then obtain m cs' where cs: "cs = (m, False) # cs'" by (cases cs) auto
    have l2: "heap_laid h ((as @ [(n, False)]) @ (m, False) # cs')" using h cs by simp
    note b2 = laid_block [OF l2]
    let ?e = "?i + n + m"
    have hd2: "mem_next (mems h (adr h (?i + n))) = of_nat ?e" "used (mems h (adr h (?i + n))) = 0"
      using b2(2) by (simp_all add: header_ok_def add.assoc)
    have ne2: "adr h (?i + n) \<noteq> heap_end h" "adr h ?e \<noteq> adr h ?i"
      using adr_simps(1) [OF b(1) le(1), of "?M + 12"] adr_simps(1) [OF b(1) _ le(2), of ?e] frame_end [OF b(1)] b(3) b2(3,5)
      by (simp_all del: of_nat_add)
    have "joined h (as @ (n, False) # (m, False) # cs') ?h' (as @ (n + m, False) # cs')"
    proof (rule merge_ok)
      show "heap_laid h (as @ (n, False) # (m, False) # cs')" using h cs by simp
      show "mems ?h' = (mems h)(adr h ?i := (mems h (adr h ?i))\<lparr>mem_next := of_nat ?e\<rparr>,
          adr h ?e := (mems h (adr h ?e))\<lparr>mem_prev := of_nat ?i\<rparr>)"
        unfolding plug_forward_def Let_def hd using ne ne2 hd2 by (auto simp: fun_upd_def simp del: of_nat_add)
      show "same_area h ?h'" "used_mem ?h' = used_mem h" "max_mem ?h' = max_mem h"
        "lfree ?h' = (if lfree h = adr h (?i + n) then adr h ?i else lfree h)"
        unfolding plug_forward_def Let_def hd same_area_def using ne ne2 hd2 by (simp_all del: of_nat_add)
    qed
    then show ?thesis by (simp add: cs)
  qed
qed

lemma plug_backward_ok:
  assumes h: "heap_laid h (as @ (n, False) # cs)"
  shows "joined h (as @ (n, False) # cs) (plug_backward (adr h (bsize as)) h) (join_prev as ((n, False) # cs))"
proof -
  note b = laid_block [OF h]
  let ?i = "bsize as" and ?M = "heap_size h" and ?h' = "plug_backward (adr h (bsize as)) h"
  have hd: "mem_next (mems h (adr h ?i)) = of_nat (?i + n)" "mem_prev (mems h (adr h ?i)) = of_nat (prev_of 0 0 as)"
    using b(2) by (simp_all add: header_ok_def)
  have le: "?i + n \<le> ?M + 12" "?i \<le> ?M + 12" using b(5) by simp_all
  show ?thesis
  proof (cases "as = [] \<or> snd (last as)")
    case True
    have "?h' = h" by (rule plug_backward_alone [OF h True])
    moreover have "join_prev as ((n, False) # cs) = as @ (n, False) # cs" using True by (auto simp: join_prev_def)
    ultimately show ?thesis using h by (simp add: joined_def same_area_def)
  next
    case False
    then obtain m as' where as: "as = as' @ [(m, False)]" by (cases as rule: rev_cases) auto
    have l2: "heap_laid h (as' @ (m, False) # (n, False) # cs)" using h as by simp
    note b2 = laid_block [OF l2]
    let ?j = "bsize as'" and ?e = "bsize as' + m + n"
    have p: "prev_of 0 0 as = ?j" unfolding as prev_of_snoc by simp
    have i: "?i = ?j + m" unfolding as by simp
    have le2: "?j \<le> ?M + 12" "?e \<le> ?M + 12" "?j + m \<le> ?M + 12" using le i by simp_all
    have u: "used (mems h (adr h ?j)) = 0" using b2(2) by (simp add: header_ok_def)
    note hdi = hd [unfolded i p]
    have ne: "adr h ?j \<noteq> adr h (?j + m)" "adr h ?e \<noteq> adr h ?j"
    proof -
      have "?j \<noteq> ?j + m" "?e \<noteq> ?j" using b2(3) by linarith+
      then show "adr h ?j \<noteq> adr h (?j + m)" "adr h ?e \<noteq> adr h ?j"
        unfolding adr_simps(1) [OF b(1) le2(1,3)] adr_simps(1) [OF b(1) le2(2,1)] .
    qed
    have "joined h (as' @ (m, False) # (n, False) # cs) ?h' (as' @ (m + n, False) # cs)"
    proof (rule merge_ok [OF l2])
      show "mems ?h' = (mems h)(adr h ?j := (mems h (adr h ?j))\<lparr>mem_next := of_nat ?e\<rparr>,
          adr h ?e := (mems h (adr h ?e))\<lparr>mem_prev := of_nat ?j\<rparr>)"
        unfolding plug_backward_def Let_def i hdi using ne u hdi(1) by (auto simp: fun_upd_def simp del: of_nat_add)
      show "same_area h ?h'" "used_mem ?h' = used_mem h" "max_mem ?h' = max_mem h"
        "lfree ?h' = (if lfree h = adr h (?j + m) then adr h ?j else lfree h)"
        unfolding plug_backward_def Let_def i hdi same_area_def using ne u by (simp_all del: of_nat_add)
    qed
    moreover have "join_prev as ((n, False) # cs) = as' @ (m + n, False) # cs" by (simp add: join_prev_def as)
    ultimately show ?thesis using as by simp
  qed
qed


subsection \<open>The section of \<open>rt_free\<close>\<close>

definition freed :: "blocks \<Rightarrow> nat \<Rightarrow> blocks \<Rightarrow> blocks" where
  "freed as n cs = join_prev as (join_next n cs)"

lemma join_next_Cons: "\<exists>m cs'. join_next n cs = (m, False) # cs'"
  by (induction n cs rule: join_next.induct) auto

lemma freed_no_holes:
  assumes "successively (\<lambda>b c. snd b \<or> snd c) (as @ (n, u) # cs)"
  shows "successively (\<lambda>b c. snd b \<or> snd c) (freed as n cs)"
proof -
  have a: "successively (\<lambda>b c. snd b \<or> snd c) as" and c: "successively (\<lambda>b c. snd b \<or> snd c) cs"
    using assms by (auto simp: successively_append_iff successively_Cons)
  have n: "successively (\<lambda>b c. snd b \<or> snd c) (join_next n cs)"
    using c by (induction n cs rule: join_next.induct) (auto simp: successively_Cons)
  obtain m cs' where j: "join_next n cs = (m, False) # cs'" using join_next_Cons by blast
  show ?thesis
  proof (cases "as = [] \<or> snd (last as)")
    case True
    then have "freed as n cs = as @ join_next n cs" unfolding freed_def j by (auto simp: join_prev_def)
    then show ?thesis using a n True j by (auto simp: successively_append_iff)
  next
    case False
    then obtain as' k where as: "as = as' @ [(k, False)]" by (cases as rule: rev_cases) auto
    then have "freed as n cs = as' @ (k + m, False) # cs'" unfolding freed_def j by (simp add: join_prev_def)
    then show ?thesis using a n j unfolding as by (auto simp: successively_append_iff successively_Cons)
  qed
qed

definition free_done :: "u32 \<Rightarrow> heap \<Rightarrow> blocks \<Rightarrow> heap \<Rightarrow> blocks \<Rightarrow> bool" where
  "free_done rmem h bs h' bs' \<longleftrightarrow>
     (\<exists>as n cs. bs = as @ (n, True) # cs \<and> bs' = freed as n cs \<and> rmem = adr h (bsize as + 12) \<and>
        same_area h h' \<and> used_mem h' = used_mem h - of_nat n \<and> max_mem h' = max_mem h)"

lemma plug_holes_ok:
  assumes h: "heap_laid h (as @ (n, False) # cs)"
  shows "\<exists>h'. plug_holes (adr h (bsize as)) h = Some h' \<and> joined h (as @ (n, False) # cs) h' (freed as n cs) \<and>
    ((cs = [] \<or> snd (hd cs)) \<and> (as = [] \<or> snd (last as)) \<longrightarrow> h' = h)"
proof -
  note b = laid_block [OF h]
  let ?m = "adr h (bsize as)" and ?M = "heap_size h"
  let ?h1 = "plug_forward ?m h"
  have le: "bsize as \<le> ?M + 12" "0 \<le> ?M + 12" using b(5) by simp_all
  have g: "heap_ptr h \<le> ?m" "?m < heap_end h"
    using adr_simps(3) [OF b(1) le(2,1)] adr_simps(2) [OF b(1) le(1) le_refl] b(3,5) unfolding frame_end [OF b(1)] by simp_all
  have u: "used (mems h ?m) = 0" using b(2) by (simp add: header_ok_def)
  obtain m cs' where j: "join_next n cs = (m, False) # cs'" using join_next_Cons by blast
  have f: "joined h (as @ (n, False) # cs) ?h1 (as @ (m, False) # cs')" using plug_forward_ok [OF h] j by simp
  then have "heap_laid ?h1 (as @ (m, False) # cs')" and p: "heap_ptr ?h1 = heap_ptr h" by (simp_all add: joined_def same_area_def)
  from plug_backward_ok [OF this(1)] have "joined ?h1 (as @ (m, False) # cs') (plug_backward ?m ?h1) (freed as n cs)"
    unfolding p freed_def j .
  moreover have "plug_backward ?m ?h1 = h" if "cs = [] \<or> snd (hd cs)" "as = [] \<or> snd (last as)"
    using plug_forward_alone [OF h that(1)] plug_backward_alone [OF h that(2)] by simp
  ultimately show ?thesis using joined_trans [OF f] g u by (auto simp: plug_holes_def)
qed

text \<open>The block marked as free, before it is joined with its neighbours.\<close>

definition mark_free :: "u32 \<Rightarrow> heap \<Rightarrow> heap" where
  "mark_free m h =
    (let h1 = upd_mem m (\<lambda>b. b\<lparr>used := 0, magic := HEAP_MAGIC\<rparr>) h;
         h2 = (if m < lfree h1 then h1\<lparr>lfree := m\<rparr> else h1)
     in h2\<lparr>used_mem := used_mem h2 - (mem_next (mems h2 m) - (m - heap_ptr h2))\<rparr>)"

lemma mark_free_simps:
  assumes "mem_next (mems h m) = of_nat (bsize as + n)" "m = adr h (bsize as)"
  shows "mems (mark_free m h) = (mems h)(m := (mems h m)\<lparr>used := 0, magic := HEAP_MAGIC\<rparr>)"
    "same_area h (mark_free m h)" "used_mem (mark_free m h) = used_mem h - of_nat n" "max_mem (mark_free m h) = max_mem h"
    "lfree (mark_free m h) = (if m < lfree h then m else lfree h)"
  using assms by (simp_all add: mark_free_def Let_def same_area_def)

lemma mark_free_laid:
  assumes laid: "heap_laid h (as @ (n, True) # cs)"
  defines "h3 \<equiv> mark_free (adr h (bsize as)) h"
  shows "heap_laid h3 (as @ (n, False) # cs)"
proof -
  let ?bs = "as @ (n, True) # cs" and ?i = "bsize as" and ?M = "heap_size h"
  note b = laid_block [OF laid]
  have le: "?i + n \<le> ?M + 12" "?i \<le> ?M + 12" using b(5) by simp_all
  have "mem_next (mems h (adr h ?i)) = of_nat (?i + n)" using b(2) by (simp add: header_ok_def)
  note m = mark_free_simps [OF this refl, folded h3_def]
  note ms = m(1) and f3 = m(2-5)
  have fo: "free_offsets (as @ (n, False) # cs) = insert ?i (free_offsets ?bs)" by (auto simp: free_offsets_append)
  have "heap_laid h3 (as @ [(n, False)] @ cs)"
  proof (rule heap_laid_replace [where old = "[(n, True)]" and h = h])
    show "heap_laid h (as @ [(n, True)] @ cs)" using laid by simp
    show "sizes_ok [(n, False)]" "bsize [(n, False)] = bsize [(n, True)]" using b by simp_all
    show "heap_ptr h3 = heap_ptr h" "mem_size_aligned h3 = mem_size_aligned h" "heap_end h3 = heap_end h" using f3(1) by (simp_all add: same_area_def)
    have other: "mems h3 (adr h x) = mems h (adr h x)" if "x \<noteq> ?i" "x \<le> ?M + 12" for x
      using adr_simps(1) [OF b(1) that(2) le(2)] that unfolding ms by (simp del: of_nat_add)
    show "mems h3 (adr h x) = mems h (adr h x)" if "x < ?i \<or> ?i + bsize [(n, True)] < x" "x \<le> ?M + 12" for x
      using that by (intro other) auto
    show "segs (mems h3) (heap_ptr h) (prev_of 0 0 as) ?i [(n, False)]" using b(2) unfolding ms by (simp add: header_ok_def)
    show "mems h3 (adr h (?i + bsize [(n, True)])) = (mems h (adr h (?i + bsize [(n, True)])))
        \<lparr>mem_prev := of_nat (prev_of (prev_of 0 0 as) ?i [(n, False)])\<rparr>" if "?i + bsize [(n, True)] < ?M + 12"
    proof -
      have "cs \<noteq> []" using that b(5) by auto
      then obtain n2 u2 cs2 where cs: "cs = (n2, u2) # cs2" by (cases cs) auto
      have "mem_prev (mems h (adr h (?i + n))) = of_nat ?i" using laid by (simp add: heap_laid_def segs_append cs header_ok_def)
      then have "(mems h (adr h (?i + n)))\<lparr>mem_prev := of_nat ?i\<rparr> = mems h (adr h (?i + n))"
        by (metis heap_mem.surjective heap_mem.update_convs(4))
      then show ?thesis using other [of "?i + n"] le b(3) by simp
    qed
    show "used (mems h3 (heap_end h)) = used (mems h (heap_end h))"
      using other [of "?M + 12"] le b(3) unfolding frame_end [OF b(1)] by simp
    have "lfree h \<in> insert (heap_end h) (adr h ` free_offsets ?bs)" using laid by (simp add: heap_laid_def)
    then show "lfree h3 \<in> insert (heap_end h) (adr h ` free_offsets (as @ [(n, False)] @ cs))" using fo unfolding f3(4) by auto
  qed
  then show ?thesis by simp
qed

lemma free_locked_ok:
  assumes h: "heap_rep h (as @ (n, True) # cs)"
  shows "\<exists>h'. free_locked (adr h (bsize as + 12)) h = Some h' \<and> free_done (adr h (bsize as + 12)) h (as @ (n, True) # cs) h' (freed as n cs) \<and>
    heap_rep h' (freed as n cs) \<and> (lfree_lowest h (as @ (n, True) # cs) \<longrightarrow> lfree_lowest h' (freed as n cs))"
proof -
  let ?bs = "as @ (n, True) # cs" and ?bf = "as @ (n, False) # cs" and ?m = "adr h (bsize as)"
  have laid: "heap_laid h ?bs" and hol: "successively (\<lambda>b c. snd b \<or> snd c) ?bs" and um: "used_mem h = of_nat (used_size ?bs)"
    using h by (simp_all add: heap_rep_def)
  have hd: "mem_next (mems h ?m) = of_nat (bsize as + n)" "used (mems h ?m) \<noteq> 0" "magic (mems h ?m) = HEAP_MAGIC"
    using laid_block(2) [OF laid] by (simp_all add: header_ok_def)
  have r: "adr h (bsize as + 12) - 12 = ?m" by simp
  define h3 where "h3 = mark_free ?m h"
  note f3 = mark_free_simps(2-5) [OF hd(1) refl, folded h3_def] and l3 = mark_free_laid [OF laid, folded h3_def]
  have fo: "free_offsets ?bf = insert (bsize as) (free_offsets ?bs)" by (auto simp: free_offsets_append)
  have ex: "free_locked (adr h (bsize as + 12)) h = plug_holes ?m h3"
    unfolding free_locked_def r Let_def h3_def mark_free_def using hd(2,3) by (simp add: require_bind_if)
  have a3: "adr h3 (bsize as) = ?m" using f3(1) by (simp add: same_area_def)
  obtain h' where h': "plug_holes ?m h3 = Some h'" "joined h3 ?bf h' (freed as n cs)" using plug_holes_ok [OF l3] unfolding a3 by blast
  have "used_size ?bs = used_size ?bf + n" by simp
  then have "used_mem h3 = of_nat (used_size ?bf)" unfolding f3(2) um by simp
  moreover have "lfree_lowest h3 ?bf" if "lfree_lowest h ?bs"
    using that f3(1,4) unfolding lfree_lowest_def fo same_area_def by auto
  ultimately have "heap_rep h' (freed as n cs)" "lfree_lowest h ?bs \<longrightarrow> lfree_lowest h' (freed as n cs)"
    using h'(2) freed_no_holes [OF hol] by (auto simp: joined_def heap_rep_def)
  moreover have "free_done (adr h (bsize as + 12)) h ?bs h' (freed as n cs)"
    unfolding free_done_def using h'(2) f3 by (intro exI [of _ as] exI [of _ n] exI [of _ cs]) (simp add: joined_def same_area_def)
  ultimately show ?thesis using ex h'(1) by auto
qed


subsection \<open>The section of \<open>rt_realloc\<close>\<close>

text \<open>Making a block smaller: the rest becomes a free block, joined with a free block behind it.\<close>

definition shrunk :: "blocks \<Rightarrow> nat \<Rightarrow> nat \<Rightarrow> blocks \<Rightarrow> blocks" where
  "shrunk as k n cs = as @ (k + 12, True) # join_next (n - (k + 12)) cs"

lemma shrunk_freed: "shrunk as k n cs = freed (as @ [(k + 12, True)]) (n - (k + 12)) cs"
  using join_next_Cons [of "n - (k + 12)" cs] by (auto simp: shrunk_def freed_def join_prev_def)

text \<open>The heap of \<open>rt_realloc\<close> before the holes are joined: the block at offset \<open>i\<close> of \<open>n\<close> bytes is cut behind
  \<open>k\<close> bytes of data.\<close>

definition cut_block :: "heap \<Rightarrow> nat \<Rightarrow> nat \<Rightarrow> nat \<Rightarrow> heap" where
  "cut_block h i n k =
     (let m = adr h i; j = i + (k + 12);
          h1 = h\<lparr>used_mem := used_mem h - (of_nat (n - 12) - of_nat k)\<rparr>;
          h2 = upd_mem (adr h j) (\<lambda>_. \<lparr>magic = HEAP_MAGIC, used = 0, mem_next = mem_next (mems h1 m), mem_prev = of_nat i\<rparr>) h1;
          h3 = upd_mem m (mem_next_update (\<lambda>_. of_nat j)) h2
      in if mem_next (mems h3 (adr h j)) \<noteq> mem_size_aligned h3 + SIZEOF_STRUCT_MEM
         then upd_mem (mem_at (mem_next (mems h3 (adr h j))) h3) (mem_prev_update (\<lambda>_. of_nat j)) h3 else h3)"

lemma cut_block_same:
  "same_area h (cut_block h i n k)" "used_mem (cut_block h i n k) = used_mem h - (of_nat (n - 12) - of_nat k)"
  "max_mem (cut_block h i n k) = max_mem h" "lfree (cut_block h i n k) = lfree h"
  by (simp_all add: cut_block_def Let_def same_area_def)

lemma realloc_cuts:
  assumes h: "heap_laid h (as @ (n, True) # cs)" and k: "k + 36 < n"
  shows "realloc_locked (adr h (bsize as + 12)) (of_nat k) h =
    map_option (\<lambda>h'. (Inl (adr h (bsize as + 12)), h')) (plug_holes (adr h (bsize as + (k + 12))) (cut_block h (bsize as) n k))"
proof -
  let ?i = "bsize as" and ?M = "heap_size h"
  let ?m = "adr h ?i" and ?j = "bsize as + (k + 12)"
  note b = laid_block [OF h]
  have le: "?i + n \<le> ?M + 12" "?i + 12 \<le> ?M + 12" using b(3,5) by simp_all
  have i2: "?i + n < 2 ^ 32" using heap_frame_bounds(1) [OF b(1) le(1)] .
  have hd: "mem_next (mems h ?m) = of_nat (?i + n)" using b(2) by (simp add: header_ok_def)
  have r: "adr h (?i + 12) - 12 = ?m" by simp
  have rg: "\<not> (adr h (?i + 12) < heap_ptr h \<or> heap_end h \<le> adr h (?i + 12))"
    using adr_simps(2) [OF b(1) le(2), of 0] adr_simps(3) [OF b(1) le_refl le(2)] b(3,5) unfolding frame_end [OF b(1)] by simp
  have sz: "(of_nat (?i + n) :: u32) - of_nat ?i - 12 = of_nat (n - 12)" using b(3) by (simp add: of_nat_diff)
  have un: "unat (of_nat (n - 12) :: u32) = n - 12" by (rule block_room(2) [OF b(3) i2])
  have k2: "unat (of_nat k :: u32) = k" "unat (of_nat (k + 24) :: u32) = k + 24" using k i2 by (simp_all only: unat_u32)
  have n1: "(of_nat (n - 12) :: u32) \<noteq> of_nat k" unfolding word_unat_eq_iff un k2(1) using k by simp
  have e: "(of_nat k :: u32) + 12 + 12 = of_nat (k + 24)" by simp
  have n2: "(of_nat k :: u32) + 12 + 12 < of_nat (n - 12)" unfolding e word_less_nat_alt un k2(2) using k by linarith
  have a2: "heap_ptr h + (of_nat ?i + 12 + of_nat k) = adr h ?j" "of_nat ?i + 12 + of_nat k = (of_nat ?j :: u32)" by simp_all
  show ?thesis
    unfolding realloc_locked_def if_not_P [OF rg] Let_def r adr_minus hd sz if_not_P [OF n1] if_P [OF n2] a2
    unfolding cut_block_def [unfolded Let_def, symmetric] by (cases "plug_holes (adr h ?j) (cut_block h ?i n k)") simp_all
qed

lemma cut_block_laid:
  assumes laid: "heap_laid h (as @ (n, True) # cs)" and k: "4 \<le> k" "4 dvd k" "k + 36 < n"
  shows "heap_laid (cut_block h (bsize as) n k) (as @ [(k + 12, True), (n - (k + 12), False)] @ cs)"
proof -
  let ?i = "bsize as" and ?M = "heap_size h" and ?h = "cut_block h (bsize as) n k"
  let ?m = "adr h ?i" and ?j = "bsize as + (k + 12)" and ?r = "n - (k + 12)"
  note b = laid_block [OF laid]
  have jn: "?j + ?r = ?i + n" using k by simp
  have le: "?i + n \<le> ?M + 12" "?i \<le> ?M + 12" "?j \<le> ?M + 12" using b(3,5) k by simp_all
  have hd: "mem_next (mems h ?m) = of_nat (?i + n)" "used (mems h ?m) \<noteq> 0" "magic (mems h ?m) = HEAP_MAGIC"
    "mem_prev (mems h ?m) = of_nat (prev_of 0 0 as)"
    using b(2) by (simp_all add: header_ok_def)
  have ne: "adr h ?j \<noteq> adr h ?i" "adr h ?j \<noteq> adr h (?i + n)" "adr h ?i \<noteq> adr h (?i + n)"
    using adr_simps(1) [OF b(1) le(3,2)] adr_simps(1) [OF b(1) le(3,1)] adr_simps(1) [OF b(1) le(2,1)] k b(3) by (simp_all del: of_nat_add)
  have ee: "mem_size_aligned h + 12 = of_nat (?M + 12)" "(of_nat (?i + n) :: u32) = of_nat (?M + 12) \<longleftrightarrow> ?i + n = ?M + 12"
    using adr_simps(1) [OF b(1) le(1), of "?M + 12"] by (simp_all del: of_nat_add) simp
  have ms: "mems ?h = (let m1 = (mems h)(adr h ?j := \<lparr>magic = HEAP_MAGIC, used = 0, mem_next = of_nat (?i + n), mem_prev = of_nat ?i\<rparr>);
      m2 = m1(?m := (m1 ?m)\<lparr>mem_next := of_nat ?j\<rparr>)
    in (if ?i + n \<noteq> ?M + 12 then m2(adr h (?i + n) := (m2 (adr h (?i + n)))\<lparr>mem_prev := of_nat ?j\<rparr>) else m2))"
    unfolding cut_block_def Let_def using ne by (simp add: hd(1) ee if_distrib [where f = mems] del: of_nat_add)
  note f4 = cut_block_same [of h ?i n k]
  show ?thesis
  proof (rule heap_laid_replace [where old = "[(n, True)]" and h = h])
    show "heap_laid h (as @ [(n, True)] @ cs)" using laid by simp
    show "sizes_ok [(k + 12, True), (?r, False)]" "bsize [(k + 12, True), (?r, False)] = bsize [(n, True)]"
      using b(3,4) k by (auto simp: dvd_diff_nat)
    show "heap_ptr ?h = heap_ptr h" "mem_size_aligned ?h = mem_size_aligned h" "heap_end ?h = heap_end h" using f4(1) by (simp_all add: same_area_def)
    show "mems ?h (adr h x) = mems h (adr h x)" if "x < ?i \<or> ?i + bsize [(n, True)] < x" "x \<le> ?M + 12" for x
    proof -
      have "x \<noteq> ?i" "x \<noteq> ?j" "x \<noteq> ?i + n" using that(1) jn by auto
      then have "adr h x \<noteq> ?m" "adr h x \<noteq> adr h ?j" "adr h x \<noteq> adr h (?i + n)"
        using adr_simps(1) [OF b(1) that(2)] le by (simp_all del: of_nat_add)
      then show ?thesis unfolding ms Let_def by (simp del: of_nat_add)
    qed
    show "segs (mems ?h) (heap_ptr h) (prev_of 0 0 as) ?i [(k + 12, True), (?r, False)]"
      using hd ne jn unfolding ms Let_def by (simp add: header_ok_def del: of_nat_add)
    show "mems ?h (adr h (?i + bsize [(n, True)])) = (mems h (adr h (?i + bsize [(n, True)])))
        \<lparr>mem_prev := of_nat (prev_of (prev_of 0 0 as) ?i [(k + 12, True), (?r, False)])\<rparr>" if "?i + bsize [(n, True)] < ?M + 12"
      using that ne unfolding ms Let_def by (simp del: of_nat_add)
    have "adr h (?M + 12) \<noteq> ?m" "adr h (?M + 12) \<noteq> adr h ?j" "?i + n \<noteq> ?M + 12 \<Longrightarrow> adr h (?M + 12) \<noteq> adr h (?i + n)"
      using adr_simps(1) [OF b(1) le_refl] le k b(3) by (simp_all del: of_nat_add)
    then show "used (mems ?h (heap_end h)) = used (mems h (heap_end h))"
      unfolding ms Let_def frame_end [OF b(1)] by (simp del: of_nat_add)
    have "lfree h \<in> insert (heap_end h) (adr h ` free_offsets (as @ (n, True) # cs))" using laid by (simp add: heap_laid_def)
    moreover have "free_offsets (as @ (n, True) # cs) \<subseteq> free_offsets (as @ [(k + 12, True), (?r, False)] @ cs)"
      using jn by (auto simp: free_offsets_append image_iff)
    ultimately show "lfree ?h \<in> insert (heap_end h) (adr h ` free_offsets (as @ [(k + 12, True), (?r, False)] @ cs))" unfolding f4(4) by auto
  qed
qed

lemma realloc_shrinks:
  assumes h: "heap_rep h (as @ (n, True) # cs)" and k: "4 \<le> k" "4 dvd k" "k + 36 < n"
  shows "\<exists>h'. realloc_locked (adr h (bsize as + 12)) (of_nat k) h = Some (Inl (adr h (bsize as + 12)), h') \<and>
    heap_rep h' (shrunk as k n cs) \<and> same_area h h' \<and> used_mem h' = used_mem h - of_nat (n - (k + 12)) \<and> max_mem h' = max_mem h \<and>
    (cs = [] \<or> snd (hd cs) \<longrightarrow> lfree h' = lfree h)"
proof -
  let ?bs = "as @ (n, True) # cs" and ?h = "cut_block h (bsize as) n k"
  let ?j = "bsize as + (k + 12)" and ?r = "n - (k + 12)"
  let ?bf = "(as @ [(k + 12, True)]) @ (?r, False) # cs"
  have laid: "heap_laid h ?bs" and hol: "successively (\<lambda>b c. snd b \<or> snd c) ?bs" and um: "used_mem h = of_nat (used_size ?bs)"
    using h by (simp_all add: heap_rep_def)
  note f4 = cut_block_same [of h "bsize as" n k]
  have l4: "heap_laid ?h ?bf" using cut_block_laid [OF laid k] by simp
  have a4: "adr ?h (bsize (as @ [(k + 12, True)])) = adr h ?j" using f4(1) by (simp add: same_area_def)
  obtain h' where h': "plug_holes (adr h ?j) ?h = Some h'" "joined ?h ?bf h' (shrunk as k n cs)" "cs = [] \<or> snd (hd cs) \<Longrightarrow> h' = ?h"
    using plug_holes_ok [OF l4] unfolding a4 shrunk_freed [symmetric] by auto
  have u: "used_mem ?h = used_mem h - of_nat ?r" unfolding f4(2) using k by (simp add: of_nat_diff)
  moreover have "of_nat (used_size ?bs) - of_nat ?r = (of_nat (used_size ?bf) :: u32)" using k by (simp add: of_nat_diff)
  moreover have "successively (\<lambda>b c. snd b \<or> snd c) (shrunk as k n cs)"
  proof -
    have "successively (\<lambda>b c. snd b \<or> snd c) (as @ (k + 12, True) # (?r, True) # cs)"
      using hol by (auto simp: successively_append_iff successively_Cons)
    then show ?thesis using freed_no_holes [of "as @ [(k + 12, True)]" ?r True cs] by (simp add: shrunk_freed)
  qed
  ultimately have "heap_rep h' (shrunk as k n cs)" using h'(2) um by (simp add: joined_def heap_rep_def)
  then show ?thesis using h' f4 u realloc_cuts [OF laid k(3)] by (auto simp: joined_def same_area_def)
qed


end
