(* ===== verification/HeapOwners.thy ===== *)
theory HeapOwners
  imports HeapBlocks
begin

unbundle bit_operations_syntax

section \<open>The owners of the heap's blocks\<close>

text \<open>
  Which blocks are in use, who may use their bytes, and what any sequence of allocations, releases
  and changes of size keeps; then the same for the whole calls, which take and release the heap's
  semaphore around their sections, and the set-up of the heap.
\<close>

subsection \<open>The blocks in use\<close>

text \<open>The blocks in use in a list that starts at offset \<open>i\<close>, with their sizes.\<close>

fun used_from :: "nat \<Rightarrow> blocks \<Rightarrow> (nat \<times> nat) set" where
  "used_from i [] = {}"
| "used_from i ((n, u) # bs) = (if u then {(i, n)} else {}) \<union> used_from (i + n) bs"

lemma used_from_append [simp]: "used_from i (as @ bs) = used_from i as \<union> used_from (i + bsize as) bs"
  by (induction i as rule: used_from.induct) (auto simp: add.assoc)

lemma used_from_iff: "(j, m) \<in> used_from i bs \<longleftrightarrow> (\<exists>as cs. bs = as @ (m, True) # cs \<and> j = i + bsize as)"
proof
  show "\<exists>as cs. bs = as @ (m, True) # cs \<and> j = i + bsize as" if "(j, m) \<in> used_from i bs"
    using that
  proof (induction i bs rule: used_from.induct)
    case (2 i n u bs)
    show ?case
    proof (cases "u \<and> (j, m) = (i, n)")
      case True
      then show ?thesis by (intro exI [of _ "[]"] exI [of _ bs]) auto
    next
      case False
      then have "(j, m) \<in> used_from (i + n) bs" using 2(2) by (auto split: if_splits)
      then obtain as cs where "bs = as @ (m, True) # cs" "j = i + n + bsize as" using 2(1) by blast
      then show ?thesis by (intro exI [of _ "(n, u) # as"] exI [of _ cs]) simp
    qed
  qed simp
qed auto

lemma used_from_room: "(j, m) \<in> used_from i bs \<Longrightarrow> i \<le> j \<and> j + m \<le> i + bsize bs"
  unfolding used_from_iff by auto

lemma used_from_apart:
  "(j, n) \<in> used_from i bs \<Longrightarrow> (k, m) \<in> used_from i bs \<Longrightarrow> (j, n) = (k, m) \<or> j + n \<le> k \<or> k + m \<le> j"
proof (induction i bs rule: used_from.induct)
  case (2 i l u bs)
  have r: "i + l \<le> x" if "(x, y) \<in> used_from (i + l) bs" for x y using used_from_room [OF that] by simp
  show ?case using 2 r by (auto split: if_splits)
qed simp

lemma used_from_split:
  "used_from i (split_block k n @ cs) = insert (i, taken_size k n) (used_from (i + n) cs)" if "k + 12 \<le> n"
  using that by (auto simp: split_block_def taken_size_def)

lemma used_from_join_next [simp]: "used_from i (join_next n cs) = used_from (i + n) cs"
  by (induction n cs rule: join_next.induct) (auto simp: add.assoc)

lemma used_from_freed [simp]: "used_from i (freed as n cs) = used_from i (as @ (n, False) # cs)"
proof -
  obtain m cs' where j: "join_next n cs = (m, False) # cs'" using join_next_Cons by blast
  have c: "used_from i' (join_next n cs) = used_from (i' + m) cs'" for i' by (simp only: j) simp
  show ?thesis
  proof (cases "as = [] \<or> snd (last as)")
    case True
    then have "freed as n cs = as @ join_next n cs" unfolding freed_def j by (auto simp: join_prev_def)
    then show ?thesis by simp
  next
    case False
    then obtain as' k where as: "as = as' @ [(k, False)]" by (cases as rule: rev_cases) auto
    have "freed as n cs = as' @ (k + m, False) # cs'" unfolding freed_def j by (simp add: join_prev_def as)
    then show ?thesis using c [of "i + bsize as"] by (simp add: as add.assoc)
  qed
qed

lemma used_from_shrunk: "k + 12 \<le> n \<Longrightarrow> used_from i (shrunk as k n cs) = insert (i + bsize as, k + 12) (used_from i (as @ (n, False) # cs))"
  by (simp add: shrunk_def add.assoc)

lemma used_from_size: "(j, m) \<in> used_from i bs \<Longrightarrow> sizes_ok bs \<Longrightarrow> 16 \<le> m"
  unfolding used_from_iff by auto

abbreviation used_blocks :: "blocks \<Rightarrow> (nat \<times> nat) set" where
  "used_blocks bs \<equiv> used_from 0 bs"

text \<open>No other block in use is at the offset of a given block.\<close>

lemma used_fresh:
  assumes "16 \<le> n" "(bsize as, m) \<in> used_blocks (as @ (n, False) # cs)" "sizes_ok as"
  shows False
proof -
  have "(bsize as, m) \<in> used_blocks as" using assms(1,2) used_from_room [of "bsize as" m "bsize as + n" cs] by auto
  then obtain as' cs' where "as = as' @ (m, True) # cs'" "bsize as = bsize as'" unfolding used_from_iff by auto
  then show False using assms(3) by auto
qed

subsection \<open>Owners of memory\<close>

text \<open>
  \<open>live\<close> are the addresses that were handed out and not given back, with the number of bytes
  that may be used there.  They are exactly the blocks in use.
\<close>

definition owned :: "heap \<Rightarrow> blocks \<Rightarrow> (u32 \<Rightarrow> nat option) \<Rightarrow> bool" where
  "owned h bs live \<longleftrightarrow>
     (\<forall>p n. live p = Some n \<longrightarrow> (\<exists>(i, m) \<in> used_blocks bs. p = adr h (i + 12) \<and> n + 12 \<le> m)) \<and>
     (\<forall>(i, m) \<in> used_blocks bs. live (adr h (i + 12)) \<noteq> None)"

text \<open>
  A sequence of allocations, releases and changes of size on the heap \<open>h0\<close>.  A block that
  \<open>rt_realloc\<close> cannot change in place is moved: that is an allocation and a release.
\<close>

inductive heap_run :: "heap \<Rightarrow> heap \<Rightarrow> (u32 \<Rightarrow> nat option) \<Rightarrow> bool" for h0 where
  start: "heap_run h0 h0 Map.empty"
| malloc: "heap_run h0 h live \<Longrightarrow> malloc_size n h = Some sz \<Longrightarrow> malloc_locked sz h = Some (p, h') \<Longrightarrow>
    heap_run h0 h' (if p = 0 then live else live(p \<mapsto> unat sz))"
| free: "heap_run h0 h live \<Longrightarrow> p \<in> dom live \<Longrightarrow> free_locked p h = Some h' \<Longrightarrow> heap_run h0 h' (live(p := None))"
| realloc: "heap_run h0 h live \<Longrightarrow> p \<in> dom live \<Longrightarrow> sz = rt_align n \<Longrightarrow> sz \<noteq> 0 \<Longrightarrow> sz \<le> mem_size_aligned h \<Longrightarrow>
    realloc_locked p sz h = Some (r, h') \<Longrightarrow> heap_run h0 h' (case r of Inl _ \<Rightarrow> live(p \<mapsto> unat sz) | Inr _ \<Rightarrow> live)"


lemma aligned_dvd: "4 dvd unat (x AND NOT 3 :: u32)"
proof -
  have "take_bit 2 (x AND NOT 3) = 0" unfolding take_bit_eq_mask by (simp add: mask_eq_exp_minus_1 and.assoc)
  then have "take_bit 2 (unat (x AND NOT 3)) = 0" by (metis unsigned_0 unsigned_take_bit_eq)
  then show ?thesis by (simp add: take_bit_eq_mod mod_eq_0_iff_dvd)
qed

lemma rt_align_dvd: "4 dvd unat (rt_align n)" "4 dvd unat (rt_align_down n)"
  unfolding rt_align_def rt_align_down_def by (rule aligned_dvd)+

lemma rt_align_pos: "rt_align n \<noteq> 0 \<Longrightarrow> 4 \<le> unat (rt_align n)"
proof -
  assume "rt_align n \<noteq> 0"
  then have "unat (rt_align n) \<noteq> 0" by (simp add: unat_eq_zero)
  then show ?thesis using rt_align_dvd(1) [of n] by (simp add: dvd_imp_le)
qed

lemma malloc_size_ok:
  assumes "malloc_size n h = Some sz" "heap_frame h"
  shows "size_ok h sz" "unat (rt_align n) \<le> unat sz"
  using assms rt_align_dvd(1) [of n]
  by (auto simp: malloc_size_def size_ok_def heap_frame_def Let_def word_le_nat_alt word_less_nat_alt split: if_splits)

lemma same_area_frame: "same_area h h' \<Longrightarrow> adr h' i = adr h i \<and> heap_size h' = heap_size h"
  by (simp add: same_area_def)

lemma owned_malloc:
  assumes o: "owned h bs live" and m: "malloc_done sz h bs p h' bs'"
  shows "owned h' bs' (live(p \<mapsto> unat sz))"
proof -
  obtain as n cs where d: "bs = as @ (n, False) # cs" "bs' = as @ split_block (unat sz) n @ cs" "unat sz + 12 \<le> n"
    "p = adr h (bsize as + 12)" "same_area h h'" using m by (auto simp: malloc_done_def)
  have u: "used_blocks bs' = insert (bsize as, taken_size (unat sz) n) (used_blocks bs)"
    unfolding d(1,2) using used_from_split [OF d(3)] by simp
  have t: "unat sz + 12 \<le> taken_size (unat sz) n" using d(3) by (simp add: taken_size_def)
  have a: "heap_ptr h' = heap_ptr h" using d(5) by (simp add: same_area_def)
  show ?thesis
    unfolding owned_def u a
  proof (intro conjI allI impI ballI)
    fix q k assume "(live(p \<mapsto> unat sz)) q = Some k"
    then show "\<exists>(i, m) \<in> insert (bsize as, taken_size (unat sz) n) (used_blocks bs). q = adr h (i + 12) \<and> k + 12 \<le> m"
      using o t d(4) by (cases "q = p") (auto simp: owned_def)
  next
    fix x assume "x \<in> insert (bsize as, taken_size (unat sz) n) (used_blocks bs)"
    then show "case x of (i, m) \<Rightarrow> (live(p \<mapsto> unat sz)) (adr h (i + 12)) \<noteq> None"
      using o d(4) by (auto simp: owned_def)
  qed
qed

lemma ownedD: "owned h bs live \<Longrightarrow> live p = Some k \<Longrightarrow> \<exists>i m. (i, m) \<in> used_blocks bs \<and> p = adr h (i + 12) \<and> k + 12 \<le> m"
  unfolding owned_def by blast

lemma owned_live: "owned h bs live \<Longrightarrow> (i, m) \<in> used_blocks bs \<Longrightarrow> live (adr h (i + 12)) \<noteq> None"
  unfolding owned_def by blast

text \<open>The address of an owner says where its block is.\<close>

lemma owned_block:
  assumes "owned h bs live" "live p = Some k"
  obtains as n cs where "bs = as @ (n, True) # cs" "p = adr h (bsize as + 12)" "k + 12 \<le> n"
proof -
  obtain i m where im: "(i, m) \<in> used_blocks bs" "p = adr h (i + 12)" "k + 12 \<le> m" using ownedD [OF assms] by blast
  then obtain as cs where "bs = as @ (m, True) # cs" "i = bsize as" unfolding used_from_iff by auto
  then show ?thesis using that im by blast
qed

lemma owned_changed:
  assumes h: "heap_laid h bs" and o: "owned h bs live" and bs: "bs = as @ (n, True) # cs" "p = adr h (bsize as + 12)"
    and a: "same_area h h'"
    and u: "used_blocks bs' = (case new of None \<Rightarrow> {} | Some k \<Rightarrow> {(bsize as, k + 12)}) \<union> used_blocks (as @ (n, False) # cs)"
  shows "owned h' bs' (live(p := new))"
proof -
  note b = laid_block [OF h [unfolded bs(1)]]
  have u0: "used_blocks bs = insert (bsize as, n) (used_blocks (as @ (n, False) # cs))" unfolding bs(1) by simp
  have other: "adr h (i + 12) \<noteq> p" if i: "(i, m) \<in> used_blocks (as @ (n, False) # cs)" for i m
  proof -
    have "i \<noteq> bsize as" using used_fresh [OF b(3) _ b(7)] i by blast
    moreover have "i + m \<le> heap_size h + 12" "16 \<le> m"
      using used_from_room [OF i] used_from_size [OF i] b(3-5,7,8) by simp_all
    moreover have "bsize as + 12 \<le> heap_size h + 12" using b(3,5) by simp
    ultimately show ?thesis using adr_simps(1) [OF b(1), of "i + 12" "bsize as + 12"] unfolding bs(2) by simp
  qed
  show ?thesis
    unfolding owned_def using a [unfolded same_area_def]
  proof (intro conjI allI impI ballI)
    fix q k assume q: "(live(p := new)) q = Some k"
    show "\<exists>(i, m) \<in> used_blocks bs'. q = adr h' (i + 12) \<and> k + 12 \<le> m"
    proof (cases "q = p")
      case True
      then show ?thesis using q a unfolding u by (auto simp: bs(2) same_area_def)
    next
      case False
      then have "live q = Some k" using q by simp
      then obtain i m where "(i, m) \<in> used_blocks bs" "q = adr h (i + 12)" "k + 12 \<le> m" using ownedD [OF o] by blast
      then show ?thesis using False a unfolding u u0 by (auto simp: bs(2) same_area_def)
    qed
  next
    fix x assume x: "x \<in> used_blocks bs'"
    obtain i m where im: "x = (i, m)" by force
    have a': "adr h' (i + 12) = adr h (i + 12)" using a by (simp add: same_area_def)
    have "(live(p := new)) (adr h (i + 12)) \<noteq> None"
    proof (cases "(i, m) \<in> used_blocks (as @ (n, False) # cs)")
      case True
      then have "live (adr h (i + 12)) \<noteq> None" using owned_live [OF o, of i m] by (simp add: u0)
      then show ?thesis using other [OF True] by simp
    next
      case False
      then obtain k where "new = Some k" "i = bsize as" using x unfolding u im by (auto split: option.splits)
      then show ?thesis by (simp add: bs(2))
    qed
    then show "case x of (i, m) \<Rightarrow> (live(p := new)) (adr h' (i + 12)) \<noteq> None" unfolding im prod.case a' .
  qed
qed


definition heap_inv :: "heap \<Rightarrow> heap \<Rightarrow> blocks \<Rightarrow> (u32 \<Rightarrow> nat option) \<Rightarrow> bool" where
  "heap_inv h0 h bs live \<longleftrightarrow> heap_rep h bs \<and> owned h bs live \<and> heap_ptr h = heap_ptr h0 \<and> heap_size h = heap_size h0"

lemma heap_inv_frame: "heap_inv h0 h bs live \<Longrightarrow> heap_frame h"
  by (simp add: heap_inv_def heap_rep_def heap_laid_def)

lemma malloc_done_nonzero:
  assumes rep: "heap_rep h bs" and d: "malloc_done sz h bs p h' bs'"
  shows "p \<noteq> 0"
proof -
  obtain as n cs where c: "bs = as @ (n, False) # cs" "p = adr h (bsize as + 12)" using d by (auto simp: malloc_done_def)
  then have "heap_laid h (as @ (n, False) # cs)" using rep by (simp add: heap_rep_def)
  note b = laid_block [OF this]
  have "unat p = unat (heap_ptr h) + (bsize as + 12)"
    unfolding c(2) by (rule heap_frame_bounds(2) [OF b(1)]) (use b(3,5) in simp)
  then show ?thesis by (intro notI) simp
qed

text \<open>Each step keeps the invariant; and none fails an assertion or runs forever.\<close>

lemma step_malloc:
  assumes v: "heap_inv h0 h bs live" and sz: "malloc_size n h = Some sz"
  shows "\<exists>p h' bs'. malloc_locked sz h = Some (p, h') \<and> heap_inv h0 h' bs' (if p = 0 then live else live(p \<mapsto> unat sz)) \<and>
    (p \<noteq> 0 \<longrightarrow> malloc_done sz h bs p h' bs')"
proof -
  have rep: "heap_rep h bs" and o: "owned h bs live" using v by (simp_all add: heap_inv_def)
  from malloc_locked_ok [OF rep malloc_size_ok(1) [OF sz heap_inv_frame [OF v]]]
  obtain p h' where m: "malloc_locked sz h = Some (p, h')"
    "p = 0 \<and> h' = h \<or> (\<exists>bs'. malloc_done sz h bs p h' bs' \<and> heap_rep h' bs')" by blast
  from m(2) show ?thesis
  proof
    assume "p = 0 \<and> h' = h"
    then show ?thesis using m(1) v by auto
  next
    assume "\<exists>bs'. malloc_done sz h bs p h' bs' \<and> heap_rep h' bs'"
    then obtain bs' where d: "malloc_done sz h bs p h' bs'" "heap_rep h' bs'" by blast
    have "same_area h h'" using d(1) by (auto simp: malloc_done_def)
    moreover have "p \<noteq> 0" by (rule malloc_done_nonzero [OF rep d(1)])
    ultimately show ?thesis using m(1) v d owned_malloc [OF o d(1)] by (auto simp: heap_inv_def same_area_def)
  qed
qed

lemma step_free:
  assumes v: "heap_inv h0 h bs live" and p: "live p = Some k"
  shows "\<exists>h' bs'. free_locked p h = Some h' \<and> heap_inv h0 h' bs' (live(p := None))"
proof -
  have rep: "heap_rep h bs" and o: "owned h bs live" using v by (simp_all add: heap_inv_def)
  obtain as n cs where bs: "bs = as @ (n, True) # cs" "p = adr h (bsize as + 12)" by (rule owned_block [OF o p])
  from free_locked_ok [OF rep [unfolded bs(1)]] obtain h' where h': "free_locked p h = Some h'"
    "free_done p h bs h' (freed as n cs)" "heap_rep h' (freed as n cs)" unfolding bs by blast
  have a: "same_area h h'" using h'(2) by (auto simp: free_done_def)
  have "owned h' (freed as n cs) (live(p := None))"
    by (rule owned_changed [OF _ o bs a]) (use rep in \<open>simp_all add: heap_rep_def\<close>)
  then show ?thesis using h' a v by (auto simp: heap_inv_def same_area_def)
qed

lemma realloc_locked_cases:
  assumes h: "heap_rep h (as @ (n, True) # cs)" and k: "4 \<le> k" "4 dvd k" "k \<le> heap_size h"
  shows "realloc_locked (adr h (bsize as + 12)) (of_nat k) h =
      (if k + 12 = n then Some (Inl (adr h (bsize as + 12)), h) else Some (Inr (of_nat (n - 12)), h)) \<or> k + 36 < n"
proof (cases "k + 36 < n")
  case False
  have laid: "heap_laid h (as @ (n, True) # cs)" using h by (simp add: heap_rep_def)
  note b = laid_block [OF laid]
  let ?i = "bsize as" and ?M = "heap_size h"
  have le: "?i + n \<le> ?M + 12" "?i + 12 \<le> ?M + 12" using b(3,5) by simp_all
  have hd: "mem_next (mems h (adr h ?i)) = of_nat (?i + n)" using b(2) by (simp add: header_ok_def)
  have r: "adr h (?i + 12) - 12 = adr h ?i" by simp
  have rg: "\<not> (adr h (?i + 12) < heap_ptr h \<or> heap_end h \<le> adr h (?i + 12))"
    using adr_simps(2) [OF b(1) le(2), of 0] adr_simps(3) [OF b(1) le_refl le(2)] b(3,5) unfolding frame_end [OF b(1)] by simp
  have sz: "(of_nat (?i + n) :: u32) - of_nat ?i - 12 = of_nat (n - 12)" using b(3) by (simp add: of_nat_diff)
  have i2: "?i + n < 2 ^ 32" using heap_frame_bounds(1) [OF b(1) le(1)] .
  have un: "unat (of_nat (n - 12) :: u32) = n - 12" by (rule block_room(2) [OF b(3) i2])
  have "k + 24 < 2 ^ 32" using k(3) b(1) by (simp add: heap_frame_def)
  then have k2: "unat (of_nat k :: u32) = k" "unat (of_nat (k + 24) :: u32) = k + 24" by (simp_all only: unat_u32)
  have e: "(of_nat k :: u32) + 12 + 12 = of_nat (k + 24)" by simp
  have ns: "\<not> (of_nat k :: u32) + 12 + 12 < of_nat (n - 12)" "(of_nat (n - 12) :: u32) = of_nat k \<longleftrightarrow> k + 12 = n"
    unfolding e word_less_nat_alt word_unat_eq_iff un k2 using False b(3) by linarith+
  show ?thesis unfolding realloc_locked_def if_not_P [OF rg] Let_def r adr_minus hd sz if_not_P [OF ns(1)] ns(2) by simp
qed simp


lemma step_realloc:
  assumes v: "heap_inv h0 h bs live" and p: "live p = Some l" and sz: "sz = rt_align n" "sz \<noteq> 0" "sz \<le> mem_size_aligned h"
  shows "\<exists>r h' bs'. realloc_locked p sz h = Some (r, h') \<and>
    heap_inv h0 h' bs' (case r of Inl _ \<Rightarrow> live(p \<mapsto> unat sz) | Inr _ \<Rightarrow> live)"
proof -
  have rep: "heap_rep h bs" and o: "owned h bs live" and laid: "heap_laid h bs" using v by (simp_all add: heap_inv_def heap_rep_def)
  obtain as m cs where bs: "bs = as @ (m, True) # cs" "p = adr h (bsize as + 12)" by (rule owned_block [OF o p])
  have k: "4 \<le> unat sz" "4 dvd unat sz" "unat sz \<le> heap_size h"
    using rt_align_pos [of n] rt_align_dvd(1) [of n] sz by (simp_all add: word_le_nat_alt)
  consider "unat sz + 36 < m" | "unat sz + 12 = m" | "\<not> unat sz + 36 < m" "unat sz + 12 \<noteq> m" by blast
  then show ?thesis
  proof cases
    case 1
    from realloc_shrinks [OF rep [unfolded bs(1)] k(1,2) 1] obtain h' where h': "realloc_locked p sz h = Some (Inl p, h')"
      "heap_rep h' (shrunk as (unat sz) m cs)" "same_area h h'" unfolding bs(2) [symmetric] by auto
    have "owned h' (shrunk as (unat sz) m cs) (live(p \<mapsto> unat sz))"
      by (rule owned_changed [OF laid o bs h'(3)]) (use 1 in \<open>simp add: used_from_shrunk\<close>)
    then show ?thesis using h' v by (auto simp: heap_inv_def same_area_def)
  next
    case 2
    then have e: "realloc_locked p sz h = Some (Inl p, h)"
      using realloc_locked_cases [OF rep [unfolded bs(1)] k] unfolding bs(2) [symmetric] by simp
    have "owned h bs (live(p \<mapsto> unat sz))"
      by (rule owned_changed [OF laid o bs]) (use 2 bs(1) in \<open>simp_all add: same_area_def\<close>)
    then show ?thesis using e v by (auto simp: heap_inv_def)
  next
    case 3
    then have "realloc_locked p sz h = Some (Inr (of_nat (m - 12)), h)"
      using realloc_locked_cases [OF rep [unfolded bs(1)] k] unfolding bs(2) [symmetric] by simp
    then show ?thesis using v by auto
  qed
qed

lemma heap_run_inv:
  assumes "heap_run h0 h live" "heap_rep h0 [(heap_size h0 + 12, False)]"
  shows "\<exists>bs. heap_inv h0 h bs live"
  using assms
proof (induction rule: heap_run.induct)
  case start
  then show ?case by (intro exI [of _ "[(heap_size h0 + 12, False)]"]) (simp add: heap_inv_def owned_def)
next
  case (malloc h live n sz p h')
  then obtain bs where "heap_inv h0 h bs live" by blast
  from step_malloc [OF this malloc.hyps(2)] show ?case using malloc.hyps(3) by auto
next
  case (free h live p h')
  then obtain bs k where "heap_inv h0 h bs live" "live p = Some k" by blast
  from step_free [OF this] show ?case using free.hyps(3) by (auto simp del: fun_upd_apply)
next
  case (realloc h live p sz n r h')
  then obtain bs k where "heap_inv h0 h bs live" "live p = Some k" by blast
  from step_realloc [OF this realloc.hyps(3-5)] show ?case using realloc.hyps(6) by auto
qed

text \<open>The bytes that an owner may use.\<close>

abbreviation bytes_of :: "u32 \<Rightarrow> nat \<Rightarrow> nat set" where
  "bytes_of p n \<equiv> {unat p..<unat p + n}"

lemma owned_bytes:
  assumes v: "heap_inv h0 h bs live" and p: "live p = Some n"
  obtains i m where "(i, m) \<in> used_blocks bs" "unat p = unat (heap_ptr h0) + i + 12" "n + 12 \<le> m" "i + m \<le> heap_size h0 + 12" "4 dvd unat p"
proof -
  have o: "owned h bs live" and laid: "heap_laid h bs" using v by (simp_all add: heap_inv_def heap_rep_def)
  obtain as m cs where bs: "bs = as @ (m, True) # cs" "p = adr h (bsize as + 12)" "n + 12 \<le> m" by (rule owned_block [OF o p])
  note b = laid_block [OF laid [unfolded bs(1)]]
  have "unat p = unat (heap_ptr h) + (bsize as + 12)" unfolding bs(2) by (rule heap_frame_bounds(2) [OF b(1)]) (use b(3,5) in simp)
  moreover have "(bsize as, m) \<in> used_blocks bs" unfolding bs(1) by simp
  moreover have "4 dvd unat (heap_ptr h)" using b(1) by (simp add: heap_frame_def)
  ultimately show ?thesis using that [of "bsize as" m] v bs(3) b(5,6) by (simp add: heap_inv_def)
qed

lemma owned_disjoint:
  assumes v: "heap_inv h0 h bs live" and pq: "live p = Some n" "live q = Some k" "p \<noteq> q"
  shows "bytes_of p n \<inter> bytes_of q k = {}"
proof -
  obtain i m where i: "(i, m) \<in> used_blocks bs" "unat p = unat (heap_ptr h0) + i + 12" "n + 12 \<le> m" by (rule owned_bytes [OF v pq(1)])
  obtain j l where j: "(j, l) \<in> used_blocks bs" "unat q = unat (heap_ptr h0) + j + 12" "k + 12 \<le> l" by (rule owned_bytes [OF v pq(2)])
  have "i \<noteq> j" using i(2) j(2) pq(3) by (auto simp: word_unat_eq_iff)
  then have "i + m \<le> j \<or> j + l \<le> i" using used_from_apart [OF i(1) j(1)] by auto
  then show ?thesis using i j by auto
qed

lemma malloc_fresh:
  assumes v: "heap_inv h0 h bs live" and m: "p \<noteq> 0 \<longrightarrow> malloc_done sz h bs p h' bs'"
  shows "p \<notin> dom live"
proof
  assume "p \<in> dom live"
  then obtain k where k: "live p = Some k" by blast
  obtain i l where i: "(i, l) \<in> used_blocks bs" "unat p = unat (heap_ptr h0) + i + 12" by (rule owned_bytes [OF v k])
  then have "p \<noteq> 0" by auto
  then obtain as n cs where c: "bs = as @ (n, False) # cs" "p = adr h (bsize as + 12)" using m by (auto simp: malloc_done_def)
  then have "heap_laid h (as @ (n, False) # cs)" using v by (simp add: heap_inv_def heap_rep_def)
  note b = laid_block [OF this]
  have "unat p = unat (heap_ptr h) + (bsize as + 12)" unfolding c(2) by (rule heap_frame_bounds(2) [OF b(1)]) (use b(3,5) in simp)
  then have "i = bsize as" using i(2) v by (simp add: heap_inv_def)
  then show False using used_fresh [OF b(3) _ b(7), of l cs] i(1) unfolding c(1) by blast
qed

lemma all_free: "successively (\<lambda>b c. snd b \<or> snd c) bs \<Longrightarrow> used_from i bs = {} \<Longrightarrow> bs = [] \<or> (\<exists>n. bs = [(n, False)])"
proof (induction i bs rule: used_from.induct)
  case (2 i n u bs)
  then show ?case by (auto simp: successively_Cons split: if_splits)
qed simp


subsection \<open>The calls with the semaphore\<close>

text \<open>Nobody has the heap's semaphore.\<close>

definition heap_calm :: "kernel \<Rightarrow> bool" where
  "heap_calm k \<longleftrightarrow> interrupt_nest k = 0 \<and> obj_is k (OSem heap_sem) RT_Object_Class_Semaphore \<and>
     sem_value (sems k heap_sem) = 1 \<and> queues k (Suspended (OSem heap_sem)) = []"

lemma calm_take: "heap_calm k \<Longrightarrow> rt_sem_take heap_sem RT_WAITING_FOREVER k = Some (Returned RT_EOK, upd_sem heap_sem (sem_value_update (\<lambda>v. v - 1)) k)"
  by (simp add: heap_calm_def rt_sem_take_def)

lemma calm_release: 
  assumes c: "heap_calm k"
  shows "rt_sem_release heap_sem (upd_sem heap_sem (sem_value_update (\<lambda>v. v - 1)) k) = Some (RT_EOK, k)"
proof -
  let ?k = "upd_sem heap_sem (sem_value_update (\<lambda>v. v - 1)) k"
  have e: "upd_sem heap_sem (sem_value_update (\<lambda>v. v + 1)) ?k = k"
    by (simp add: upd_sem_def fun_upd_idem comp_def)
  have o: "obj_is ?k (OSem heap_sem) RT_Object_Class_Semaphore" using c by (simp add: heap_calm_def upd_sem_def obj_is_def rt_object_get_type_def)
  have "tlist_isempty (Suspended (OSem heap_sem)) ?k" using c by (simp add: heap_calm_def tlist_isempty_def upd_sem_def)
  then show ?thesis using o e by (simp add: rt_sem_release_def)
qed

text \<open>The assertions about the address that \<open>rt_malloc\<close> returns and \<open>rt_free\<close> gets.\<close>

lemma dvd_aligned:
  assumes "4 dvd unat (x :: u32)"
  shows "x mod 4 = 0" "x AND 3 = 0"
proof -
  show "x mod 4 = 0" using assms by (simp add: word_unat_eq_iff unat_mod dvd_eq_mod_eq_0)
  then have "take_bit 2 x = 0" by (simp add: take_bit_eq_mod)
  then show "x AND 3 = 0" by (simp add: take_bit_eq_mask mask_eq_exp_minus_1)
qed

lemma block_address:
  assumes "heap_laid h (as @ (n, u) # cs)"
  shows "unat (adr h (bsize as + 12)) = unat (heap_ptr h) + bsize as + 12" "4 dvd unat (adr h (bsize as + 12))"
    "4 dvd unat (adr h (bsize as))" "adr h (bsize as + 12) < heap_end h" "heap_ptr h \<le> adr h (bsize as + 12)"
    "k + 12 \<le> n \<Longrightarrow> adr h (bsize as + 12) + of_nat k \<le> heap_end h"
proof -
  note b = laid_block [OF assms]
  have le: "bsize as + 12 \<le> heap_size h + 12" "bsize as \<le> heap_size h + 12" using b(3,5) by simp_all
  show a: "unat (adr h (bsize as + 12)) = unat (heap_ptr h) + bsize as + 12"
    using heap_frame_bounds(2) [OF b(1) le(1)] by simp
  have d: "4 dvd unat (heap_ptr h) + bsize as" using b(1,6) by (simp add: heap_frame_def)
  have "4 dvd unat (heap_ptr h) + bsize as + 12" by (rule dvd_add [OF d]) simp
  then show "4 dvd unat (adr h (bsize as + 12))" unfolding a .
  show "4 dvd unat (adr h (bsize as))" unfolding heap_frame_bounds(2) [OF b(1) le(2)] by (rule d)
  show "adr h (bsize as + 12) < heap_end h"
    unfolding frame_end [OF b(1)] using adr_simps(2) [OF b(1) le(1) le_refl] b(3,5) by simp
  show "heap_ptr h \<le> adr h (bsize as + 12)" using adr_simps(3) [OF b(1) _ le(1), of 0] by simp
  show "adr h (bsize as + 12) + of_nat k \<le> heap_end h" if "k + 12 \<le> n"
  proof -
    have "bsize as + 12 + k \<le> heap_size h + 12" using that b(5) by simp
    then show ?thesis unfolding frame_end [OF b(1)] adr_plus using adr_simps(3) [OF b(1) _ le_refl] by blast
  qed
qed

lemma rt_malloc_ok:
  assumes h: "heap_rep h bs" and c: "heap_calm k"
  shows "case (if n = 0 then None else malloc_size n h) of
      None \<Rightarrow> rt_malloc n (h, k) = Some (Mem 0, h, k)
    | Some sz \<Rightarrow> \<exists>p h'. malloc_locked sz h = Some (p, h') \<and> rt_malloc n (h, k) = Some (Mem p, h', k)"
proof (cases "n = 0 \<or> malloc_size n h = None")
  case True
  then show ?thesis using c by (auto simp: rt_malloc_def heap_calm_def)
next
  case False
  then obtain sz where sz: "malloc_size n h = Some sz" by blast
  have "heap_frame h" using h by (simp add: heap_rep_def heap_laid_def)
  from malloc_locked_ok [OF h malloc_size_ok(1) [OF sz this]]
  obtain p h' where m: "malloc_locked sz h = Some (p, h')"
    "p = 0 \<or> (\<exists>bs'. malloc_done sz h bs p h' bs')" by blast
  have "malloc_asserts sz p h' = Some ()" if "p \<noteq> 0"
  proof -
    obtain as l cs where d: "bs = as @ (l, False) # cs" "unat sz + 12 \<le> l" "p = adr h (bsize as + 12)" "same_area h h'"
      using m(2) \<open>p \<noteq> 0\<close> by (auto simp: malloc_done_def)
    then have "heap_laid h (as @ (l, False) # cs)" using h by (simp add: heap_rep_def)
    note a = block_address [OF this]
    have "p + sz \<le> heap_end h'" using a(6) [OF d(2)] d(3,4) by (simp add: same_area_def)
    moreover have "p mod 4 = 0" "(p - 12) AND 3 = 0"
      using dvd_aligned(1) [OF a(2)] dvd_aligned(2) [OF a(3)] unfolding d(3) by simp_all
    ultimately show ?thesis by (simp add: malloc_asserts_def)
  qed
  then have "rt_malloc n (h, k) = Some (Mem p, h', k)"
    using False sz m(1) calm_take [OF c] calm_release [OF c] c
    by (simp add: rt_malloc_def rt_malloc_continue_def heap_calm_def)
  then show ?thesis using False sz m(1) by simp
qed

lemma rt_free_ok:
  assumes h: "heap_rep h (as @ (n, True) # cs)" and c: "heap_calm k"
  shows "\<exists>h'. rt_free (adr h (bsize as + 12)) (h, k) = Some (Mem 0, h', k) \<and>
    free_locked (adr h (bsize as + 12)) h = Some h'"
proof -
  let ?p = "adr h (bsize as + 12)"
  have "heap_laid h (as @ (n, True) # cs)" using h by (simp add: heap_rep_def)
  note a = block_address [OF this]
  have "?p \<noteq> 0" using a(1) by auto
  moreover have "free_asserts ?p h = Some ()" using a(4,5) dvd_aligned(2) [OF a(2)] by (simp add: free_asserts_def)
  moreover obtain h' where "free_locked ?p h = Some h'" using free_locked_ok [OF h] by blast
  ultimately show ?thesis using calm_take [OF c] calm_release [OF c] c
    by (simp add: rt_free_def rt_free_continue_def heap_calm_def)
qed


subsection \<open>The whole of \<open>rt_realloc\<close>\<close>

lemma used_removed:
  assumes "16 \<le> n" "sizes_ok as"
  shows "used_blocks (as @ (n, False) # cs) = used_blocks (as @ (n, True) # cs) - {(bsize as, n)}"
  using used_fresh [OF assms(1) _ assms(2), of n cs] by auto

lemma heap_copy_fields [simp]:
  "heap_ptr (heap_copy d s n h) = heap_ptr h" "heap_end (heap_copy d s n h) = heap_end h" "lfree (heap_copy d s n h) = lfree h"
  "mem_size_aligned (heap_copy d s n h) = mem_size_aligned h" "used_mem (heap_copy d s n h) = used_mem h"
  "max_mem (heap_copy d s n h) = max_mem h" "mems (heap_copy d s n h) = mems h"
  by (simp_all add: heap_copy_def)

lemma heap_rep_copy [simp]: "heap_rep (heap_copy d s n h) bs \<longleftrightarrow> heap_rep h bs"
  by (simp add: heap_rep_def heap_laid_def heap_frame_def)

lemma rt_align_idem: "rt_align (rt_align n) = rt_align n"
proof -
  let ?a = "(n + 3) AND NOT 3"
  have "?a AND 3 = 0" by (simp add: and.assoc)
  then have "?a + 3 = ?a OR 3" by (rule disjunctive_add_eq_or)
  then have "(?a + 3) AND NOT 3 = ?a" by (simp add: and.assoc bit.conj_disj_distrib2)
  then show ?thesis unfolding rt_align_def .
qed

lemma copied_bytes:
  assumes q: "unat q + unat n \<le> 2 ^ 32"
  shows "x < unat n \<Longrightarrow> heap_bytes (heap_copy q p n h) (q + of_nat x) = heap_bytes h (p + of_nat x)"
    "unat a < unat q \<or> unat q + unat n \<le> unat a \<Longrightarrow> heap_bytes (heap_copy q p n h) a = heap_bytes h a"
proof -
  assume x: "x < unat n"
  have "unat n < 2 ^ 32" using unsigned_less [of n] by simp
  then have "unat (of_nat x :: u32) = x" using x by (intro unat_u32) simp
  then show "heap_bytes (heap_copy q p n h) (q + of_nat x) = heap_bytes h (p + of_nat x)"
    using x by (simp add: heap_copy_def word_less_nat_alt)
next
  assume a: "unat a < unat q \<or> unat q + unat n \<le> unat a"
  have "\<not> a - q < n"
  proof (cases "q \<le> a")
    case True
    then show ?thesis using a by (auto simp: word_less_nat_alt word_le_nat_alt unat_sub)
  next
    case False
    then have "unat (a - q) = 2 ^ 32 + unat a - unat q" by (simp add: unat_sub_if' word_le_nat_alt)
    then show ?thesis using q by (simp add: word_less_nat_alt)
  qed
  then show "heap_bytes (heap_copy q p n h) a = heap_bytes h a" by (simp add: heap_copy_def)
qed


lemma rt_realloc_section:
  assumes "heap_calm k" "p \<noteq> 0" "\<not> mem_size_aligned h < rt_align m" "rt_align m \<noteq> 0"
  shows "realloc_locked p (rt_align m) h = Some (Inl a, h1) \<Longrightarrow> rt_realloc p m (h, k) = Some (Mem a, h1, k)"
    "realloc_locked p (rt_align m) h = Some (Inr sz, h1) \<Longrightarrow> rt_malloc (rt_align m) (h1, k) = Some (Mem q, h2, k2) \<Longrightarrow>
      rt_realloc p m (h, k) = rt_realloc_move p (rt_align m) sz q (h2, k2)"
  using calm_take [OF assms(1)] calm_release [OF assms(1)] assms
  by (simp_all add: rt_realloc_def rt_realloc_continue_def heap_calm_def)

text \<open>The bytes of all blocks in use but the one at offset \<open>i\<close> are as they were.\<close>

definition others_kept :: "heap \<Rightarrow> blocks \<Rightarrow> nat \<Rightarrow> heap \<Rightarrow> bool" where
  "others_kept h bs i h' \<longleftrightarrow> (\<forall>j l x. (j, l) \<in> used_blocks bs \<longrightarrow> j \<noteq> i \<longrightarrow> 12 \<le> x \<longrightarrow> x < l \<longrightarrow>
     heap_bytes h' (adr h (j + x)) = heap_bytes h (adr h (j + x)))"

text \<open>The block of size \<open>n\<close> at offset \<open>i\<close> has become one for \<open>k\<close> bytes at \<open>q\<close>.\<close>

definition block_resized :: "heap \<Rightarrow> blocks \<Rightarrow> nat \<Rightarrow> nat \<Rightarrow> nat \<Rightarrow> u32 \<Rightarrow> heap \<Rightarrow> blocks \<Rightarrow> bool" where
  "block_resized h bs i n k q h' bs' \<longleftrightarrow>
     (\<exists>j l. used_blocks bs' = insert (j, l) (used_blocks bs - {(i, n)}) \<and> q = adr h (j + 12) \<and> k + 12 \<le> l \<and>
        (\<forall>x < min k (n - 12). heap_bytes h' (adr h (j + 12 + x)) = heap_bytes h (adr h (i + 12 + x))))"

lemma block_resized_here:
  assumes "used_blocks bs' = insert (i, l) (used_blocks bs - {(i, n)})" "k + 12 \<le> l" "heap_bytes h' = heap_bytes h"
  shows "block_resized h bs i n k (adr h (i + 12)) h' bs'"
  unfolding block_resized_def using assms by (intro exI [of _ i] exI [of _ l]) simp

text \<open>Moving a block: after the allocation of the new one, the copy and the release of the old one.\<close>

text \<open>Where the new block lies: away from the blocks in use, within the heap.\<close>

lemma malloc_done_place:
  assumes h: "heap_rep h bs" and m: "malloc_done sz h bs q h1 bs1"
  obtains j l where "q = adr h (j + 12)" "used_blocks bs1 = insert (j, l) (used_blocks bs)" "unat sz + 12 \<le> l"
    "j + l \<le> heap_size h + 12" "unat q = unat (heap_ptr h) + j + 12"
    "\<And>i n. (i, n) \<in> used_blocks bs \<Longrightarrow> i \<noteq> j \<and> (i + n \<le> j \<or> j + l \<le> i)"
proof -
  obtain as l cs where d: "bs = as @ (l, False) # cs" "bs1 = as @ split_block (unat sz) l @ cs" "unat sz + 12 \<le> l"
    "q = adr h (bsize as + 12)" using m by (auto simp: malloc_done_def)
  let ?j = "bsize as" and ?l = "taken_size (unat sz) l"
  have laid: "heap_laid h (as @ (l, False) # cs)" using h d(1) by (simp add: heap_rep_def)
  note lb = laid_block [OF laid]
  have u1: "used_blocks bs1 = insert (?j, ?l) (used_blocks bs)" unfolding d(1,2) using used_from_split [OF d(3)] by simp
  have fresh: "i \<noteq> ?j" if "(i, n) \<in> used_blocks bs" for i n
    using used_fresh [OF lb(3) _ lb(7), of n cs] that unfolding d(1) by blast
  show ?thesis
  proof (rule that [OF d(4) u1])
    show "unat sz + 12 \<le> ?l" "?j + ?l \<le> heap_size h + 12" using lb(5) d(3) by (simp_all add: taken_size_def)
    show "unat q = unat (heap_ptr h) + ?j + 12" unfolding d(4) by (rule block_address(1) [OF laid])
    show "i \<noteq> ?j \<and> (i + n \<le> ?j \<or> ?j + ?l \<le> i)" if "(i, n) \<in> used_blocks bs" for i n
      using used_from_apart [of i n 0 bs1 ?j ?l] that u1 fresh [OF that] by auto
  qed
qed

text \<open>Copying the contents of a block into the new one touches no other block.\<close>

lemma copy_to_new_block:
  assumes h: "heap_rep h bs" and m: "malloc_done sz h bs q h1 bs1" and c: "unat cnt \<le> unat sz"
  shows "x < unat cnt \<Longrightarrow> heap_bytes (heap_copy q (adr h (i + 12)) cnt h1) (q + of_nat x) = heap_bytes h (adr h (i + 12 + x))"
    "(j, n) \<in> used_blocks bs \<Longrightarrow> x < n \<Longrightarrow> heap_bytes (heap_copy q (adr h (i + 12)) cnt h1) (adr h (j + x)) = heap_bytes h (adr h (j + x))"
proof -
  obtain j' l where d: "unat sz + 12 \<le> l" "j' + l \<le> heap_size h + 12" "unat q = unat (heap_ptr h) + j' + 12"
    "\<And>i n. (i, n) \<in> used_blocks bs \<Longrightarrow> i \<noteq> j' \<and> (i + n \<le> j' \<or> j' + l \<le> i)"
    using malloc_done_place [OF h m] by metis
  have laid: "heap_laid h bs" "heap_frame h" using h by (simp_all add: heap_rep_def heap_laid_def)
  have hb: "heap_bytes h1 = heap_bytes h" using m by (auto simp: malloc_done_def same_area_def)
  have room: "unat q + unat cnt \<le> 2 ^ 32"
    using heap_frame_bounds(3) [OF laid(2) d(2)] d(1,3) c by linarith
  show "heap_bytes (heap_copy q (adr h (i + 12)) cnt h1) (q + of_nat x) = heap_bytes h (adr h (i + 12 + x))" if "x < unat cnt"
    using copied_bytes(1) [OF room that, of "adr h (i + 12)" h1] by (simp add: hb add.assoc)
  show "heap_bytes (heap_copy q (adr h (i + 12)) cnt h1) (adr h (j + x)) = heap_bytes h (adr h (j + x))"
    if "(j, n) \<in> used_blocks bs" "x < n"
  proof -
    have r: "j + n \<le> heap_size h + 12" using used_from_room [OF that(1)] laid(1) by (simp add: heap_laid_def)
    have ux: "unat (adr h (j + x)) = unat (heap_ptr h) + (j + x)"
      by (rule heap_frame_bounds(2) [OF laid(2)]) (use r that(2) in linarith)
    have "unat (adr h (j + x)) < unat q \<or> unat q + unat cnt \<le> unat (adr h (j + x))"
      unfolding d(3) ux using d(4) [OF that(1)] d(1) c that(2) by linarith
    from copied_bytes(2) [OF room this, of "adr h (i + 12)" h1] show ?thesis by (simp only: hb)
  qed
qed

text \<open>Giving the old block back after the copy.\<close>

lemma free_after_copy:
  assumes c: "heap_calm k" and i: "(i, n) \<in> used_blocks bs1" and r: "heap_rep h1 bs1"
  obtains h' bs' where "rt_free (adr h1 (i + 12)) (heap_copy q p cnt h1, k) = Some (Mem 0, h', k)" "heap_rep h' bs'"
    "heap_bytes h' = heap_bytes (heap_copy q p cnt h1)" "used_blocks bs' = used_blocks bs1 - {(i, n)}"
proof -
  let ?h2 = "heap_copy q p cnt h1" and ?p = "adr h1 (i + 12)"
  obtain as cs where b: "bs1 = as @ (n, True) # cs" "i = bsize as"
    using i unfolding used_from_iff [of i n 0 bs1, simplified] by auto
  obtain h' where f: "rt_free ?p (?h2, k) = Some (Mem 0, h', k)" "free_locked ?p ?h2 = Some h'"
    using rt_free_ok [OF _ c, of ?h2 as n cs] r unfolding b by auto
  have g: "free_done ?p ?h2 bs1 h' (freed as n cs)" "heap_rep h' (freed as n cs)"
    using free_locked_ok [of ?h2 as n cs] r f(2) unfolding b by auto
  have "16 \<le> n" "sizes_ok as" using r unfolding b(1) by (simp_all add: heap_rep_def heap_laid_def)
  from used_removed [OF this, of cs] have "used_blocks (freed as n cs) = used_blocks bs1 - {(i, n)}"
    unfolding used_from_freed b .
  moreover have "heap_bytes h' = heap_bytes ?h2" using g(1) by (auto simp: free_done_def same_area_def)
  ultimately show ?thesis using that [OF f(1) g(2)] by simp
qed

lemma rt_realloc_move_ok:
  assumes h: "heap_rep h bs" and c: "heap_calm k" and i: "(i, n) \<in> used_blocks bs"
    and m: "malloc_done sz h bs q h1 bs1" "heap_rep h1 bs1" and new: "unat new \<le> unat sz"
    and cnt: "unat cnt = min (unat new) (n - 12)" "cnt = (if of_nat (n - 12) < new then of_nat (n - 12) else new)"
  shows "\<exists>h' bs'. rt_realloc_move (adr h (i + 12)) new (of_nat (n - 12)) q (h1, k) = Some (Mem q, h', k) \<and> heap_rep h' bs' \<and>
    others_kept h bs i h' \<and> block_resized h bs i n (unat new) q h' bs'"
proof -
  let ?p = "adr h (i + 12)"
  obtain j l where d: "q = adr h (j + 12)" "used_blocks bs1 = insert (j, l) (used_blocks bs)" "unat sz + 12 \<le> l"
    "\<And>i n. (i, n) \<in> used_blocks bs \<Longrightarrow> i \<noteq> j \<and> (i + n \<le> j \<or> j + l \<le> i)"
    using malloc_done_place [OF h m(1)] by metis
  have pt: "heap_ptr h1 = heap_ptr h" using m(1) by (auto simp: malloc_done_def same_area_def)
  have i1: "(i, n) \<in> used_blocks bs1" using i d(2) by simp
  obtain h' bs' where f: "rt_free ?p (heap_copy q ?p cnt h1, k) = Some (Mem 0, h', k)" "heap_rep h' bs'"
    "heap_bytes h' = heap_bytes (heap_copy q ?p cnt h1)" "used_blocks bs' = used_blocks bs1 - {(i, n)}"
    using free_after_copy [OF c i1 m(2), of q ?p cnt] unfolding pt by blast
  have "rt_realloc_move ?p new (of_nat (n - 12)) q (h1, k) = Some (Mem q, h', k)"
    using malloc_done_nonzero [OF h m(1)] f(1) unfolding cnt(2) by (simp add: rt_realloc_move_def)
  moreover have cs: "unat cnt \<le> unat sz" using cnt(1) new by simp
  note copy = copy_to_new_block [OF h m(1) cs, where i = i, folded f(3)]
  have "used_blocks bs' = insert (j, l) (used_blocks bs - {(i, n)})" using d(4) [OF i] unfolding f(4) d(2) by (simp add: insert_Diff_if)
  then have "block_resized h bs i n (unat new) q h' bs'"
    unfolding block_resized_def using d(1,3) new copy(1) cnt(1)
    by (intro exI [of _ j] exI [of _ l]) (simp add: add.assoc)
  moreover have "others_kept h bs i h'" unfolding others_kept_def using copy(2) by blast
  ultimately show ?thesis using f(2) by blast
qed

subsection \<open>Setting the heap up\<close>

lemma heap_setup_ok:
  assumes room: "unat (rt_align b) + 36 \<le> unat (rt_align_down e)" and um: "used_mem h = 0"
  shows "\<exists>h'. heap_setup b e h = Some h' \<and> heap_rep h' [(heap_size h' + 12, False)] \<and> lfree_lowest h' [(heap_size h' + 12, False)] \<and>
    heap_ptr h' = rt_align b \<and> unat (rt_align_down e) = unat (rt_align b) + heap_size h' + 24 \<and> max_mem h' = max_mem h"
proof -
  let ?a = "rt_align b" and ?z = "rt_align_down e"
  let ?M = "unat ?z - unat ?a - 24"
  have z2: "unat ?z < 2 ^ 32" using unsigned_less [of ?z] by simp
  have c: "?z > 2 * SIZEOF_STRUCT_MEM" "?z - 2 * SIZEOF_STRUCT_MEM \<ge> ?a"
    using room by (simp_all add: word_less_nat_alt word_le_nat_alt unat_sub)
  have le: "?a \<le> ?z" using room by (simp add: word_le_nat_alt)
  have us: "unat (?z - ?a - 24) = ?M"
    using room by (simp add: unat_sub le word_le_nat_alt unat_sub [OF le])
  have nat: "(of_nat ?M :: u32) = ?z - ?a - 24" unfolding us [symmetric] by simp
  obtain h' where h': "heap_setup b e h = Some h'" using c by (simp add: heap_setup_def Let_def)
  have d: "4 dvd ?M" using rt_align_dvd(2) [of e] rt_align_dvd(1) [of b] by (simp add: dvd_diff_nat)
  have ne: "?a \<noteq> ?a + (?z - ?a - 24 + 12)"
  proof
    assume "?a = ?a + (?z - ?a - 24 + 12)"
    then have "?z - ?a = 12" by (simp add: algebra_simps)
    then show False using room unat_sub [OF le] by simp
  qed
  have f: "heap_ptr h' = ?a" "mem_size_aligned h' = ?z - ?a - 24" "lfree h' = ?a" "heap_end h' = ?a + (?z - ?a - 24 + 12)"
    "used_mem h' = used_mem h" "max_mem h' = max_mem h" "used (mems h' (heap_end h')) = 1"
    "mems h' ?a = \<lparr>magic = HEAP_MAGIC, used = 0, mem_next = ?z - ?a - 24 + 12, mem_prev = 0\<rparr>"
    using h' c ne by (auto simp: heap_setup_def Let_def upd_mem_def)
  have hs: "heap_size h' = ?M" unfolding f(2) by (rule us)
  have en: "?z - ?a - 24 + 12 = of_nat (?M + 12)" using nat by simp
  have fr: "heap_frame h'"
    unfolding heap_frame_def hs f(1,4,7) en using room d z2 rt_align_dvd(1) [of b] f(4,7) en by simp
  have "16 \<le> ?M + 12" using room by linarith
  moreover have "4 dvd ?M + 12" by (rule dvd_add [OF d]) simp
  ultimately have "sizes_ok [(?M + 12, False)]" unfolding sizes_simps by (intro conjI sizes_simps(1))
  moreover have "segs (mems h') (heap_ptr h') 0 0 [(?M + 12, False)]" using f(1,8) en by (simp add: header_ok_def)
  ultimately have "heap_laid h' [(heap_size h' + 12, False)]"
    unfolding heap_laid_def hs using fr f(1,3) by simp
  then have "heap_rep h' [(heap_size h' + 12, False)]" using um f(5) by (simp add: heap_rep_def)
  moreover have "lfree_lowest h' [(heap_size h' + 12, False)]" by (simp add: lfree_lowest_def f)
  ultimately show ?thesis using h' f room hs by auto
qed

lemma heap_whole_again:
  assumes v: "heap_inv h0 h bs Map.empty"
  shows "heap_rep h [(heap_size h0 + 12, False)] \<and> used_mem h = 0"
proof -
  have "used_blocks bs = {}" using v by (auto simp: heap_inv_def owned_def)
  then have "bs = [] \<or> (\<exists>n. bs = [(n, False)])" using v all_free by (auto simp: heap_inv_def heap_rep_def)
  moreover have "bsize bs = heap_size h0 + 12" using v by (simp add: heap_inv_def heap_rep_def heap_laid_def)
  ultimately have "bs = [(heap_size h0 + 12, False)]" by auto
  then show ?thesis using v by (simp add: heap_inv_def heap_rep_def)
qed

text \<open>What an allocation does; it fails only when no free block is large enough, but for one of exactly the
  right size at the end.\<close>

lemma malloc_locked_room:
  assumes "heap_rep h bs" "lfree_lowest h bs" "size_ok h sz"
  shows "\<exists>p h'. malloc_locked sz h = Some (p, h') \<and>
    (p = 0 \<longrightarrow> h' = h \<and> (\<forall>as n cs. bs = as @ (n, False) # cs \<longrightarrow> n < unat sz + 12 \<or> n = unat sz + 12 \<and> cs = [])) \<and>
    (p \<noteq> 0 \<longrightarrow> (\<exists>bs'. malloc_done sz h bs p h' bs' \<and> heap_rep h' bs' \<and> lfree_lowest h' bs'))"
proof -
  obtain p h' where m: "malloc_locked sz h = Some (p, h')"
    "p = 0 \<and> h' = h \<and> (\<forall>as n cs. bs = as @ (n, False) # cs \<longrightarrow> lfree h \<le> adr h (bsize as) \<longrightarrow> n < unat sz + 12 \<or> n = unat sz + 12 \<and> cs = []) \<or>
     (\<exists>bs'. malloc_done sz h bs p h' bs' \<and> heap_rep h' bs' \<and> lfree_lowest h' bs')"
    using malloc_locked_ok [OF assms(1,3)] assms(2) by blast
  have low: "lfree h \<le> adr h (bsize as)" if "bs = as @ (n, False) # cs" for as n cs
    using assms(2) that unfolding lfree_lowest_def free_offsets_def by blast
  have "p \<noteq> 0" if "malloc_done sz h bs p h' bs'" for bs'
    using malloc_done_nonzero [OF assms(1) that] .
  then show ?thesis using m low by blast
qed

end
