(* ===== verification/HeapProps.thy ===== *)
theory HeapProps
  imports HeapOwners Sample
begin

unbundle bit_operations_syntax

section \<open>The heap: allocations, releases and changes of size\<close>

text \<open>
  What the calls promise to the threads that use the heap: blocks of their own, their bytes kept,
  and all of the memory back in the end; and where \<open>rt_realloc\<close> loses memory.
\<close>

text \<open>A heap of 100 bytes and what a few calls make of it.\<close>

definition zero_heap :: heap where
  "zero_heap = \<lparr>heap_ptr = 0, heap_end = 0, lfree = 0, mem_size_aligned = 0, used_mem = 0, max_mem = 0,
     mems = (\<lambda>_. \<lparr>magic = 0, used = 0, mem_next = 0, mem_prev = 0\<rparr>), heap_bytes = (\<lambda>_. 0)\<rparr>"

definition sample_heap :: heap where
  "sample_heap = the (heap_setup 0x1001 0x1065 zero_heap)"

definition sample_heap1 :: heap where
  "sample_heap1 = snd (the (malloc_locked 12 sample_heap))"

lemma sample_heap_eq: "heap_setup 0x1001 0x1065 zero_heap = Some sample_heap"
  by (simp add: sample_heap_def zero_heap_def heap_setup_def rt_align_def rt_align_down_def upd_mem_def)

lemma sample_heap_fields [simp]:
  "heap_ptr sample_heap = 0x1004" "heap_end sample_heap = 0x1058" "lfree sample_heap = 0x1004" "mem_size_aligned sample_heap = 72"
  by (simp_all add: sample_heap_def zero_heap_def heap_setup_def rt_align_def rt_align_down_def upd_mem_def)

lemma sample_heap_rep: "heap_rep sample_heap [(84, False)]" "lfree_lowest sample_heap [(84, False)]"
  using heap_setup_ok [of "0x1001" "0x1065" zero_heap] by (simp_all add: sample_heap_eq) (simp_all add: rt_align_def rt_align_down_def zero_heap_def)

lemma sample_alloc:
  assumes "size_ok sample_heap sz" "unat sz < 72"
  shows "\<exists>h'. malloc_locked sz sample_heap = Some (0x1010, h') \<and>
    malloc_done sz sample_heap [(84, False)] 0x1010 h' (split_block (unat sz) 84) \<and> heap_rep h' (split_block (unat sz) 84)"
proof -
  from malloc_locked_ok [OF sample_heap_rep(1) assms(1)] obtain p h' where m: "malloc_locked sz sample_heap = Some (p, h')"
    "p = 0 \<and> (\<forall>as n cs. [(84, False)] = as @ (n, False) # cs \<longrightarrow> lfree sample_heap \<le> adr sample_heap (bsize as) \<longrightarrow>
       n < unat sz + 12 \<or> n = unat sz + 12 \<and> cs = []) \<or>
     (\<exists>bs'. malloc_done sz sample_heap [(84, False)] p h' bs' \<and> heap_rep h' bs')" by fastforce
  from m(2) obtain bs' where d: "malloc_done sz sample_heap [(84, False)] p h' bs'" "heap_rep h' bs'"
    using assms(2) by fastforce
  then have "p = 0x1010" "bs' = split_block (unat sz) 84" by (auto simp: malloc_done_def Cons_eq_append_conv)
  then show ?thesis using m(1) d by simp
qed

lemma sample_malloc:
  "malloc_locked 12 sample_heap = Some (0x1010, sample_heap1)"
  "malloc_done 12 sample_heap [(84, False)] 0x1010 sample_heap1 [(24, True), (60, False)]"
  "heap_rep sample_heap1 [(24, True), (60, False)]"
  using sample_alloc [of 12] by (auto simp: size_ok_def sample_heap1_def split_block_def)

text \<open>A state of the kernel in which the heap's semaphore is free.\<close>

definition calm_sample :: kernel where
  "calm_sample = upd_sem heap_sem (sem_value_update (\<lambda>_. 1)) sample"

lemma calm_sample: "heap_calm calm_sample"
  by (simp add: heap_calm_def calm_sample_def heap_sem_def obj_is_def rt_object_get_type_def upd_sem_def sample_queues_def)

subsection \<open>The properties\<close>


text \<open>A block that stays where it is, or is moved; sizes are given after their alignment.\<close>

lemma others_kept_same: "heap_bytes h' = heap_bytes h \<Longrightarrow> others_kept h bs i h'"
  by (simp add: others_kept_def)

lemma rt_realloc_in_place:
  assumes h: "heap_rep h bs" and c: "heap_calm k" and i: "(i, n) \<in> used_blocks bs"
    and fit: "\<not> mem_size_aligned h < rt_align m" "rt_align m \<noteq> 0"
    and small: "unat (rt_align m) + 36 < n \<or> unat (rt_align m) + 12 = n"
  shows "\<exists>h' bs'. rt_realloc (adr h (i + 12)) m (h, k) = Some (Mem (adr h (i + 12)), h', k) \<and> heap_rep h' bs' \<and>
    others_kept h bs i h' \<and> block_resized h bs i n (unat (rt_align m)) (adr h (i + 12)) h' bs'"
proof -
  let ?p = "adr h (i + 12)" and ?new = "rt_align m"
  obtain as cs where b: "bs = as @ (n, True) # cs" "i = bsize as" using i unfolding used_from_iff by auto
  have rep: "heap_rep h (as @ (n, True) # cs)" and laid: "heap_laid h (as @ (n, True) # cs)"
    using h by (simp_all add: b heap_rep_def)
  have p0: "?p \<noteq> 0" using block_address(1) [OF laid] by (auto simp: b)
  have s: "4 \<le> unat ?new" "4 dvd unat ?new" "unat ?new \<le> heap_size h"
    using fit rt_align_pos [of m] rt_align_dvd(1) [of m] by (simp_all add: word_less_nat_alt)
  have nat: "of_nat (unat ?new) = ?new" by simp
  note sct = rt_realloc_section(1) [OF c p0 fit]
  show ?thesis
  proof (cases "unat ?new + 12 = n")
    case True
    then have "realloc_locked ?p ?new h = Some (Inl ?p, h)" using realloc_locked_cases [OF rep s] unfolding nat b(2) by simp
    moreover have "block_resized h bs i n (unat ?new) ?p h bs" using True i by (intro block_resized_here [of _ _ n]) auto
    ultimately show ?thesis using sct h others_kept_same by blast
  next
    case False
    with small have less: "unat ?new + 36 < n" by blast
    obtain h' where h': "realloc_locked ?p ?new h = Some (Inl ?p, h')" "heap_rep h' (shrunk as (unat ?new) n cs)" "same_area h h'"
      using realloc_shrinks [OF rep s(1,2) less] unfolding nat b(2) by blast
    have "used_blocks (as @ (n, False) # cs) = used_blocks bs - {(i, n)}"
      using used_removed [OF laid_block(3,7) [OF laid]] by (simp add: b)
    then have "used_blocks (shrunk as (unat ?new) n cs) = insert (i, unat ?new + 12) (used_blocks bs - {(i, n)})"
      using less by (simp add: used_from_shrunk b(2))
    moreover have hb: "heap_bytes h' = heap_bytes h" using h'(3) by (simp add: same_area_def)
    ultimately have "block_resized h bs i n (unat ?new) ?p h' (shrunk as (unat ?new) n cs)"
      by (intro block_resized_here [where l = "unat ?new + 12"]) simp_all
    then show ?thesis using sct [OF h'(1)] h'(2) others_kept_same [OF hb] by blast
  qed
qed

lemma rt_realloc_moves:
  assumes h: "heap_rep h bs" and c: "heap_calm k" and i: "(i, n) \<in> used_blocks bs"
    and fit: "\<not> mem_size_aligned h < rt_align m" "rt_align m \<noteq> 0"
    and large: "\<not> unat (rt_align m) + 36 < n" "unat (rt_align m) + 12 \<noteq> n"
  shows "\<exists>q h' bs'. rt_realloc (adr h (i + 12)) m (h, k) = Some (Mem q, h', k) \<and> heap_rep h' bs' \<and> others_kept h bs i h' \<and>
    (q = 0 \<and> h' = h \<or> block_resized h bs i n (unat (rt_align m)) q h' bs')"
proof -
  let ?p = "adr h (i + 12)" and ?new = "rt_align m"
  obtain as cs where b: "bs = as @ (n, True) # cs" "i = bsize as" using i unfolding used_from_iff by auto
  have rep: "heap_rep h (as @ (n, True) # cs)" and laid: "heap_laid h (as @ (n, True) # cs)"
    using h by (simp_all add: b heap_rep_def)
  note lb = laid_block [OF laid]
  have p0: "?p \<noteq> 0" using block_address(1) [OF laid] by (auto simp: b)
  have s: "4 \<le> unat ?new" "4 dvd unat ?new" "unat ?new \<le> heap_size h"
    using fit rt_align_pos [of m] rt_align_dvd(1) [of m] by (simp_all add: word_less_nat_alt)
  have nat: "of_nat (unat ?new) = ?new" by simp
  have "realloc_locked ?p ?new h = Some (Inr (of_nat (n - 12)), h)"
    using realloc_locked_cases [OF rep s] large unfolding nat b(2) by simp
  note sec = rt_realloc_section(2) [OF c p0 fit this]
  obtain sz where sz: "malloc_size ?new h = Some sz" "unat ?new \<le> unat sz" "size_ok h sz"
    using fit malloc_size_ok [of ?new h] lb(1) by (auto simp: malloc_size_def Let_def rt_align_idem)
  obtain q h1 where q: "malloc_locked sz h = Some (q, h1)" "rt_malloc ?new (h, k) = Some (Mem q, h1, k)"
    using rt_malloc_ok [OF h c, of ?new] sz(1) fit(2) by auto
  from malloc_locked_ok [OF h sz(3)] consider (none) "q = 0" "h1 = h"
    | (moved) bs1 where "malloc_done sz h bs q h1 bs1" "heap_rep h1 bs1" using q(1) by auto
  then show ?thesis
  proof cases
    case none
    then have "rt_realloc ?p m (h, k) = Some (Mem 0, h, k)" using sec [OF q(2)] by (simp add: rt_realloc_move_def)
    then show ?thesis using none h others_kept_same by blast
  next
    case moved
    have un: "unat (of_nat (n - 12) :: u32) = n - 12"
      by (rule block_room(2) [OF lb(3) heap_frame_bounds(1) [OF lb(1), of "bsize as + n"]]) (use lb(5) in simp)
    let ?c = "if of_nat (n - 12) < ?new then of_nat (n - 12) else ?new"
    have "unat ?c = min (unat ?new) (n - 12)" using un by (simp add: word_less_nat_alt)
    from rt_realloc_move_ok [OF h c i moved sz(2) this refl] show ?thesis unfolding sec [OF q(2)] by blast
  qed
qed

text \<open>C21: What \<open>rt_realloc\<close> does with a block in use while nobody has the heap's semaphore: a size too large for
  the heap gives null and size 0 releases the block; otherwise the result is null and nothing has
  changed, or a block with room for the new size that starts with the old bytes, as many as both
  sizes allow, in place of the old block.  The bytes of the other blocks in use are kept.\<close>

theorem rt_realloc_correct:
  assumes "heap_rep h bs" "heap_calm k" "(i, n) \<in> used_blocks bs"
  shows "\<exists>q h' bs'. rt_realloc (adr h (i + 12)) m (h, k) = Some (Mem q, h', k) \<and> heap_rep h' bs' \<and> others_kept h bs i h' \<and>
    (if mem_size_aligned h < rt_align m then q = 0 \<and> h' = h
     else if rt_align m = 0 then q = 0 \<and> used_blocks bs' = used_blocks bs - {(i, n)}
     else q = 0 \<and> h' = h \<or> block_resized h bs i n (unat (rt_align m)) q h' bs')"
proof -
  let ?p = "adr h (i + 12)" and ?new = "rt_align m"
  obtain as cs where b: "bs = as @ (n, True) # cs" "i = bsize as" using assms(3) unfolding used_from_iff by auto
  have rep: "heap_rep h (as @ (n, True) # cs)" using assms(1) by (simp add: b)
  then have "heap_laid h (as @ (n, True) # cs)" by (simp add: heap_rep_def)
  note lb = laid_block [OF this]
  have inest: "interrupt_nest k = 0" using assms(2) by (simp add: heap_calm_def)
  consider (large) "mem_size_aligned h < ?new" | (zero) "\<not> mem_size_aligned h < ?new" "?new = 0"
    | (fit) "\<not> mem_size_aligned h < ?new" "?new \<noteq> 0" by blast
  then show ?thesis
  proof cases
    case large
    then have "rt_realloc ?p m (h, k) = Some (Mem 0, h, k)" using inest by (simp add: rt_realloc_def Let_def)
    then show ?thesis using large assms(1) others_kept_same by auto
  next
    case zero
    obtain h' where f: "rt_free ?p (h, k) = Some (Mem 0, h', k)" "free_locked ?p h = Some h'"
      using rt_free_ok [OF rep assms(2)] unfolding b(2) by blast
    have g: "free_done ?p h (as @ (n, True) # cs) h' (freed as n cs)" "heap_rep h' (freed as n cs)"
      using free_locked_ok [OF rep] f(2) unfolding b(2) by auto
    have "rt_realloc ?p m (h, k) = Some (Mem 0, h', k)" using inest zero f(1) by (simp add: rt_realloc_def Let_def)
    moreover have "heap_bytes h' = heap_bytes h" using g(1) by (auto simp: free_done_def same_area_def)
    moreover have "used_blocks (freed as n cs) = used_blocks bs - {(i, n)}" using used_removed [OF lb(3,7)] by (simp add: b)
    ultimately show ?thesis unfolding if_not_P [OF zero(1)] if_P [OF zero(2)] using g(2) others_kept_same by blast
  next
    case fit
    show ?thesis unfolding if_not_P [OF fit(1)] if_not_P [OF fit(2)]
      using rt_realloc_in_place [OF assms fit] rt_realloc_moves [OF assms fit] by blast
  qed
qed


lemma rt_realloc_correct_witness:
  "\<exists>q h' bs'. rt_realloc 0x1010 20 (sample_heap1, calm_sample) = Some (Mem q, h', calm_sample) \<and> heap_rep h' bs' \<and>
     (q = 0 \<and> h' = sample_heap1 \<or> block_resized sample_heap1 [(24, True), (60, False)] 0 24 20 q h' bs')"
proof -
  have "heap_ptr sample_heap1 = 0x1004" "mem_size_aligned sample_heap1 = 72"
    using sample_malloc(2) by (auto simp: malloc_done_def same_area_def)
  then show ?thesis
    using rt_realloc_correct [OF sample_malloc(3) calm_sample, of 0 24 20] by (fastforce simp: rt_align_def)
qed

text \<open>C19: Whatever sequence of allocations, releases and changes of size happens on the heap, the blocks
  handed out lie in the heap, are aligned, hold at least the bytes asked for and never overlap;
  the next release of one of them, or the next allocation, ends and fails no assertion.  When
  everything has been released, in whatever order, the heap is one free block of its whole size
  again and the counter of used memory is 0.\<close>

theorem heap_blocks_apart:
  assumes "heap_rep h0 [(heap_size h0 + 12, False)]" "heap_run h0 h live"
  shows "(\<forall>p n. live p = Some n \<longrightarrow> 4 dvd unat p \<and> unat (heap_ptr h0) \<le> unat p \<and> unat p + n \<le> unat (heap_ptr h0) + heap_size h0 + 12 \<and>
      (\<forall>q k. live q = Some k \<longrightarrow> p \<noteq> q \<longrightarrow> bytes_of p n \<inter> bytes_of q k = {}) \<and> (\<exists>h'. free_locked p h = Some h')) \<and>
    (\<forall>n sz. malloc_size n h = Some sz \<longrightarrow> (\<exists>p h'. malloc_locked sz h = Some (p, h') \<and> p \<notin> dom live)) \<and>
    (live = Map.empty \<longrightarrow> heap_rep h [(heap_size h0 + 12, False)] \<and> used_mem h = 0)"
proof (intro conjI allI impI)
  obtain bs where v: "heap_inv h0 h bs live" using heap_run_inv [OF assms(2,1)] by blast
  fix p n assume p: "live p = Some n"
  obtain i m where i: "unat p = unat (heap_ptr h0) + i + 12" "n + 12 \<le> m" "i + m \<le> heap_size h0 + 12" "4 dvd unat p" by (rule owned_bytes [OF v p])
  then show "4 dvd unat p" "unat (heap_ptr h0) \<le> unat p" "unat p + n \<le> unat (heap_ptr h0) + heap_size h0 + 12" by simp_all
  show "bytes_of p n \<inter> bytes_of q k = {}" if "live q = Some k" "p \<noteq> q" for q k by (rule owned_disjoint [OF v p that])
  show "\<exists>h'. free_locked p h = Some h'" using step_free [OF v p] by blast
next
  obtain bs where v: "heap_inv h0 h bs live" using heap_run_inv [OF assms(2,1)] by blast
  fix n sz assume "malloc_size n h = Some sz"
  from step_malloc [OF v this] obtain p h' bs' where m: "malloc_locked sz h = Some (p, h')"
    "p \<noteq> 0 \<longrightarrow> malloc_done sz h bs p h' bs'" by blast
  then show "\<exists>p h'. malloc_locked sz h = Some (p, h') \<and> p \<notin> dom live" using malloc_fresh [OF v] by blast
next
  obtain bs where v: "heap_inv h0 h bs live" using heap_run_inv [OF assms(2,1)] by blast
  assume "live = Map.empty"
  then show "heap_rep h [(heap_size h0 + 12, False)]" "used_mem h = 0" using heap_whole_again v by blast+
qed

lemma heap_blocks_apart_witness:
  "heap_run sample_heap sample_heap1 [0x1010 \<mapsto> 12] \<and> (\<exists>h'. free_locked 0x1010 sample_heap1 = Some h') \<and>
   (\<exists>p h'. malloc_locked 20 sample_heap1 = Some (p, h') \<and> p \<noteq> 0x1010)"
proof -
  have r: "heap_run sample_heap sample_heap1 [0x1010 \<mapsto> 12]"
    using heap_run.malloc [OF heap_run.start, of 12 sample_heap 12 "0x1010" sample_heap1] sample_malloc(1)
    by (simp add: malloc_size_def rt_align_def)
  have z: "heap_size sample_heap1 = 72" using sample_malloc(2) by (auto simp: malloc_done_def same_area_def)
  have "malloc_size 20 sample_heap1 = Some 20" using z by (simp add: malloc_size_def rt_align_def word_less_nat_alt)
  then show ?thesis using heap_blocks_apart [OF _ r] sample_heap_rep(1) r by fastforce
qed


text \<open>Releasing what was just allocated gives back the blocks as they were, split or not.\<close>

lemma malloc_free_roundtrip:
  assumes "heap_rep h bs" "size_ok h sz" "malloc_locked sz h = Some (p, h1)" "p \<noteq> 0"
  shows "\<exists>h2. free_locked p h1 = Some h2 \<and> heap_rep h2 bs \<and> used_mem h2 = used_mem h \<and> heap_bytes h2 = heap_bytes h"
proof -
  obtain bs1 where d: "malloc_done sz h bs p h1 bs1" and rep: "heap_rep h1 bs1" using malloc_locked_ok [OF assms(1,2)] assms(3,4) by auto
  then obtain as n cs where c: "bs = as @ (n, False) # cs" "bs1 = as @ split_block (unat sz) n @ cs" "unat sz + 12 \<le> n"
    "p = adr h (bsize as + 12)" "same_area h h1" "used_mem h1 = used_mem h + of_nat (taken_size (unat sz) n)" by (auto simp: malloc_done_def)
  define cs1 where "cs1 = (if unat sz + 36 \<le> n then (n - (unat sz + 12), False) # cs else cs)"
  have b1: "bs1 = as @ (taken_size (unat sz) n, True) # cs1" by (simp add: c(2) split_block_def taken_size_def cs1_def)
  have p1: "p = adr h1 (bsize as + 12)" using c(4,5) by (simp add: same_area_def)
  have hol: "successively (\<lambda>b c. snd b \<or> snd c) bs" using assms(1) by (simp add: heap_rep_def)
  have "join_next (taken_size (unat sz) n) cs1 = (n, False) # cs"
    using hol c(3) by (cases cs rule: list.exhaust; cases "hd cs")
      (auto simp: cs1_def taken_size_def c(1) successively_append_iff successively_Cons)
  moreover have "as = [] \<or> snd (last as)" using hol by (auto simp: c(1) successively_append_iff)
  ultimately have bs: "freed as (taken_size (unat sz) n) cs1 = bs" by (auto simp: freed_def join_prev_def c(1))
  obtain h2 where h2: "free_locked p h1 = Some h2" "free_done p h1 (as @ (taken_size (unat sz) n, True) # cs1) h2 bs" "heap_rep h2 bs"
    using free_locked_ok [OF rep [unfolded b1]] unfolding p1 bs by blast
  have "used_mem h2 = used_mem h" using h2(3) assms(1) by (simp add: heap_rep_def)
  moreover have "same_area h1 h2" using h2(2) by (auto simp: free_done_def)
  ultimately show ?thesis using h2(1,3) c(5) by (auto simp: same_area_def)
qed

lemma malloc_free_roundtrip_witness:
  "\<exists>h2. free_locked 0x1010 sample_heap1 = Some h2 \<and> heap_rep h2 [(84, False)]"
  using malloc_free_roundtrip [OF sample_heap_rep(1) _ sample_malloc(1)] by (fastforce simp: size_ok_def)

text \<open>Making a block smaller while no block is free loses the memory: \<open>rt_realloc\<close> puts the rest into the
  list as a free block but does not move the pointer to the lowest free block, so no allocation of any
  size finds it.\<close>

lemma realloc_loses_memory:
  assumes "heap_rep h (as @ (n, True) # cs)" "free_offsets (as @ (n, True) # cs) = {}"
    and "4 \<le> k" "4 dvd k" "k + 36 < n"
  shows "\<exists>h'. realloc_locked (adr h (bsize as + 12)) (of_nat k) h = Some (Inl (adr h (bsize as + 12)), h') \<and>
    heap_rep h' (as @ [(k + 12, True), (n - (k + 12), False)] @ cs) \<and>
    (\<forall>sz. size_ok h' sz \<longrightarrow> malloc_locked sz h' = Some (0, h'))"
proof -
  have cs: "cs = [] \<or> snd (hd cs)"
    using assms(2) by (cases cs) (auto simp: free_offsets_append split: if_splits prod.splits)
  then have sh: "shrunk as k n cs = as @ [(k + 12, True), (n - (k + 12), False)] @ cs"
    by (cases cs; cases "hd cs") (auto simp: shrunk_def)
  obtain h' where h': "realloc_locked (adr h (bsize as + 12)) (of_nat k) h = Some (Inl (adr h (bsize as + 12)), h')"
    "heap_rep h' (shrunk as k n cs)" "same_area h h'" "lfree h' = lfree h"
    using realloc_shrinks [OF assms(1,3-5)] cs by auto
  have "lfree h = heap_end h" using assms(1,2) by (simp add: heap_rep_def heap_laid_def)
  then have l: "lfree h' = heap_end h'" using h'(3,4) by (simp add: same_area_def)
  have fr: "heap_frame h'" using h'(2) by (simp add: heap_rep_def heap_laid_def)
  have "malloc_locked sz h' = Some (0, h')" if "size_ok h' sz" for sz
  proof -
    have "malloc_search sz (of_nat (heap_size h' + 12)) h' = Some None"
      using malloc_search_ok [OF fr, of sz 0 "heap_size h' + 12" "[]"] that by (simp add: size_ok_def)
    then show ?thesis using l frame_end [OF fr] by (simp add: malloc_locked_def)
  qed
  then show ?thesis using h'(1,2) unfolding sh by blast
qed

lemma realloc_loses_memory_witness:
  "\<exists>h h'. heap_rep h [(84, True)] \<and> realloc_locked 0x1010 12 h = Some (Inl 0x1010, h') \<and>
     heap_rep h' [(24, True), (60, False)] \<and> malloc_locked 12 h' = Some (0, h')"
proof -
  obtain h where h: "malloc_done 60 sample_heap [(84, False)] 0x1010 h [(84, True)]" "heap_rep h [(84, True)]"
    using sample_alloc [of 60] by (auto simp: size_ok_def split_block_def)
  have a: "heap_ptr h = 0x1004" "mem_size_aligned h = 72" using h(1) by (auto simp: malloc_done_def same_area_def)
  obtain h' where h': "realloc_locked 0x1010 12 h = Some (Inl 0x1010, h')" "heap_rep h' [(24, True), (60, False)]"
    "\<And>sz. size_ok h' sz \<Longrightarrow> malloc_locked sz h' = Some (0, h')"
    using realloc_loses_memory [of h "[]" 84 "[]" 12] h(2) by (auto simp: a)
  have "heap_frame h'" "heap_size h' + 12 = 84" using h'(2) by (auto simp: heap_rep_def heap_laid_def)
  then have "size_ok h' 12" by (simp add: size_ok_def)
  then show ?thesis using h(2) h' by blast
qed

text \<open>C20: What \<open>rt_malloc\<close> does while nobody has the heap's semaphore, the headers are sound and the pointer
  to the lowest free block is right: it takes and releases the semaphore, passes its assertions and
  hands out a free block that is large enough, split when the rest makes a block; it returns null
  for size 0, for a size larger than the heap, and when no free block is large enough, where it
  overlooks one of exactly the right size at the end of the heap.\<close>

theorem rt_malloc_correct:
  assumes "heap_rep h bs" "lfree_lowest h bs" "heap_calm k"
  shows "\<exists>p h'. rt_malloc n (h, k) = Some (Mem p, h', k) \<and>
    (if n = 0 \<or> mem_size_aligned h < rt_align n then p = 0 \<and> h' = h
     else let sz = max 12 (rt_align n) in
       if p = 0 then h' = h \<and> (\<forall>as l cs. bs = as @ (l, False) # cs \<longrightarrow> l < unat sz + 12 \<or> l = unat sz + 12 \<and> cs = [])
       else \<exists>bs'. malloc_done sz h bs p h' bs' \<and> heap_rep h' bs' \<and> lfree_lowest h' bs')"
proof (cases "n = 0 \<or> mem_size_aligned h < rt_align n")
  case True
  then have "(if n = 0 then None else malloc_size n h) = None" by (auto simp: malloc_size_def Let_def)
  then have "rt_malloc n (h, k) = Some (Mem 0, h, k)" using rt_malloc_ok [OF assms(1,3), of n] by simp
  then show ?thesis using True by auto
next
  case False
  let ?sz = "max 12 (rt_align n)"
  have sz: "malloc_size n h = Some ?sz" using False by (auto simp: malloc_size_def Let_def max_def)
  have "heap_frame h" using assms(1) by (simp add: heap_rep_def heap_laid_def)
  note ok = malloc_size_ok(1) [OF sz this]
  obtain p h' where m: "malloc_locked ?sz h = Some (p, h')" "rt_malloc n (h, k) = Some (Mem p, h', k)"
    using rt_malloc_ok [OF assms(1,3), of n] sz False by auto
  show ?thesis unfolding if_not_P [OF False] Let_def using malloc_locked_room [OF assms(1,2) ok] m by auto
qed

lemma rt_malloc_correct_witness:
  "\<exists>h'. rt_malloc 10 (sample_heap, calm_sample) = Some (Mem 0x1010, h', calm_sample)"
proof -
  have "heap_size sample_heap = 72" by simp
  then show ?thesis
    using rt_malloc_correct [OF sample_heap_rep calm_sample, of 10] 
    by (fastforce simp: rt_align_def Let_def malloc_done_def Cons_eq_append_conv split: if_splits)
qed

end
