(* ===== verification/HeapCalls.thy ===== *)
theory HeapCalls
  imports HeapOwners
begin
unbundle bit_operations_syntax

section \<open>The calls of the heap and the blocks in use\<close>

text \<open>What the whole calls do to the blocks in use, for the components that allocate memory.\<close>

lemma rt_align_ge:
  assumes "unat n + 3 < 2 ^ 32"
  shows "unat n \<le> unat (rt_align n)"
proof -
  let ?y = "n + 3"
  have u: "unat ?y = unat n + 3" using assms by (simp add: unat_word_ariths)
  have e: "?y AND 3 = take_bit 2 ?y" by (simp add: take_bit_eq_mask mask_eq_exp_minus_1)
  have m: "unat (?y AND 3) = (unat n + 3) mod 4" unfolding e unsigned_take_bit_eq u by (simp add: take_bit_eq_mod)
  have "(y AND NOT k) AND (y AND k) = 0" "(y AND NOT k) OR (y AND k) = y" for y k :: u32
    by (rule bit_eqI, auto simp: bit_simps)+
  then have "rt_align n + (?y AND 3) = ?y"
    unfolding rt_align_def by (metis disjunctive_add_eq_or)
  then have a: "rt_align n = ?y - (?y AND 3)" by (metis add_diff_cancel_right')
  have "?y AND 3 \<le> ?y" unfolding word_le_nat_alt u m by linarith
  then have "unat (rt_align n) = unat n + 3 - (unat n + 3) mod 4" unfolding a by (simp only: unat_sub u m)
  then show ?thesis by linarith
qed

lemma rt_malloc_block:
  assumes h: "heap_rep h bs" and c: "heap_calm k"
  obtains (none) "rt_malloc n (h, k) = Some (Mem 0, h, k)"
  | (block) h' bs' j l where "rt_malloc n (h, k) = Some (Mem (adr h (j + 12)), h', k)" "heap_rep h' bs'" "same_area h h'"
      "adr h (j + 12) \<noteq> 0" "used_blocks bs' = insert (j, l) (used_blocks bs)" "(j, l) \<notin> used_blocks bs" "unat (rt_align n) + 12 \<le> l"
proof (cases "n = 0 \<or> malloc_size n h = None")
  case True
  then show ?thesis using rt_malloc_ok [OF h c, of n] by (intro none) (auto split: if_splits)
next
  case False
  then obtain sz where sz: "malloc_size n h = Some sz" by blast
  obtain p h' where m: "malloc_locked sz h = Some (p, h')" "rt_malloc n (h, k) = Some (Mem p, h', k)"
    using rt_malloc_ok [OF h c, of n] False sz by auto
  have fr: "heap_frame h" using h by (simp add: heap_rep_def heap_laid_def)
  from malloc_locked_ok [OF h malloc_size_ok(1) [OF sz fr]] m(1)
  consider "p = 0" "h' = h" | bs' where "malloc_done sz h bs p h' bs'" "heap_rep h' bs'" by auto
  then show ?thesis
  proof cases
    case 1
    then show ?thesis using m(2) by (intro none) simp
  next
    case (2 bs')
    then obtain as i cs where d: "bs = as @ (i, False) # cs" "bs' = as @ split_block (unat sz) i @ cs" "unat sz + 12 \<le> i"
      "p = adr h (bsize as + 12)" "same_area h h'" by (auto simp: malloc_done_def)
    have "heap_laid h (as @ (i, False) # cs)" using h d(1) by (simp add: heap_rep_def)
    note lb = laid_block [OF this]
    have u: "used_blocks bs' = insert (bsize as, taken_size (unat sz) i) (used_blocks bs)"
      unfolding d(1,2) using used_from_split [OF d(3)] by simp
    have "(bsize as, taken_size (unat sz) i) \<notin> used_blocks bs"
      unfolding d(1) using used_fresh [OF lb(3) _ lb(7)] by blast
    moreover have "unat (rt_align n) + 12 \<le> taken_size (unat sz) i"
      using malloc_size_ok(2) [OF sz fr] d(3) by (simp add: taken_size_def)
    ultimately show ?thesis using block [OF _ 2(2) d(5) _ u] m(2) malloc_done_nonzero [OF h 2(1)] unfolding d(4) by blast
  qed
qed

lemma rt_free_block:
  assumes h: "heap_rep h bs" and c: "heap_calm k" and i: "(i, n) \<in> used_blocks bs"
  obtains h' bs' where "rt_free (adr h (i + 12)) (h, k) = Some (Mem 0, h', k)" "heap_rep h' bs'" "same_area h h'"
    "used_blocks bs' = used_blocks bs - {(i, n)}"
proof -
  obtain as cs where b: "bs = as @ (n, True) # cs" "i = bsize as" using i unfolding used_from_iff by auto
  have rep: "heap_rep h (as @ (n, True) # cs)" using h by (simp add: b)
  then have "heap_laid h (as @ (n, True) # cs)" by (simp add: heap_rep_def)
  note lb = laid_block [OF this]
  obtain h' where f: "rt_free (adr h (i + 12)) (h, k) = Some (Mem 0, h', k)" "free_locked (adr h (i + 12)) h = Some h'"
    using rt_free_ok [OF rep c] unfolding b(2) by blast
  then have g: "free_done (adr h (i + 12)) h bs h' (freed as n cs)" "heap_rep h' (freed as n cs)"
    using free_locked_ok [OF rep] unfolding b by auto
  then have "same_area h h'" by (auto simp: free_done_def)
  moreover have "used_blocks (freed as n cs) = used_blocks bs - {(i, n)}"
    using used_removed [OF lb(3,7)] by (simp add: b)
  ultimately show ?thesis using that f(1) g(2) by blast
qed

text \<open>The same over the blocks that are handed out (\<open>live\<close>).\<close>

lemma rt_free_live:
  assumes h0: "heap_rep h0 [(heap_size h0 + 12, False)]" and v: "heap_run h0 h live" and c: "heap_calm k"
    and p: "p \<in> dom live"
  obtains h' where "rt_free p (h, k) = Some (Mem 0, h', k)" "heap_run h0 h' (live(p := None))"
proof -
  obtain bs where "heap_inv h0 h bs live" using heap_run_inv [OF v h0] by blast
  then have rep: "heap_rep h bs" and o: "owned h bs live" by (simp_all add: heap_inv_def)
  obtain n where "live p = Some n" using p by blast
  from owned_block [OF o this] obtain as n cs where b: "bs = as @ (n, True) # cs" "p = adr h (bsize as + 12)" by blast
  obtain h' where f: "rt_free p (h, k) = Some (Mem 0, h', k)" "free_locked p h = Some h'"
    using rt_free_ok [OF rep [unfolded b(1)] c] unfolding b(2) by blast
  show ?thesis by (rule that [OF f(1) heap_run.free [OF v p f(2)]])
qed

lemma rt_malloc_live:
  assumes h0: "heap_rep h0 [(heap_size h0 + 12, False)]" and v: "heap_run h0 h live" and c: "heap_calm k"
  obtains (none) "rt_malloc n (h, k) = Some (Mem 0, h, k)"
  | (block) p h' m where "rt_malloc n (h, k) = Some (Mem p, h', k)" "p \<noteq> 0" "p \<notin> dom live" "heap_run h0 h' (live(p \<mapsto> m))"
proof -
  obtain bs where inv: "heap_inv h0 h bs live" using heap_run_inv [OF v h0] by blast
  then have rep: "heap_rep h bs" by (simp add: heap_inv_def)
  show ?thesis
  proof (cases "n = 0 \<or> malloc_size n h = None")
    case True
    then show ?thesis using rt_malloc_ok [OF rep c, of n] by (intro none) (auto split: if_splits)
  next
    case False
    then obtain sz where sz: "malloc_size n h = Some sz" by blast
    obtain p h' where m: "malloc_locked sz h = Some (p, h')" "rt_malloc n (h, k) = Some (Mem p, h', k)"
      using rt_malloc_ok [OF rep c, of n] False sz by auto
    from malloc_locked_ok [OF rep malloc_size_ok(1) [OF sz heap_inv_frame [OF inv]]] m(1)
    consider "p = 0" "h' = h" | bs' where "malloc_done sz h bs p h' bs'" by auto
    then show ?thesis
    proof cases
      case 1
      then show ?thesis using m(2) by (intro none) simp
    next
      case (2 bs')
      have "p \<noteq> 0" by (rule malloc_done_nonzero [OF rep 2])
      moreover have "p \<notin> dom live" by (rule malloc_fresh [OF inv]) (use 2 in blast)
      ultimately show ?thesis using block [OF m(2)] heap_run.malloc [OF v sz m(1)] by simp
    qed
  qed
qed

text \<open>With a large enough free block and a right pointer to the lowest one, an allocation succeeds.\<close>

abbreviation block_need :: "u32 \<Rightarrow> nat" where
  "block_need n \<equiv> max 12 (unat (rt_align n)) + 12"

lemma rt_malloc_room:
  assumes h: "heap_rep h bs" "lfree_lowest h bs" and c: "heap_calm k" and n: "n \<noteq> 0" and m: "(m, False) \<in> set bs" "block_need n < m"
  obtains h' bs' j l where "rt_malloc n (h, k) = Some (Mem (adr h (j + 12)), h', k)" "heap_rep h' bs'" "same_area h h'"
      "adr h (j + 12) \<noteq> 0" "used_blocks bs' = insert (j, l) (used_blocks bs)" "(j, l) \<notin> used_blocks bs" "unat (rt_align n) + 12 \<le> l"
      "lfree_lowest h' bs'" "\<forall>r. 24 \<le> r \<and> block_need n + r \<le> m \<longrightarrow> (\<exists>m'. (m', False) \<in> set bs' \<and> r \<le> m')"
proof -
  have fr: "heap_frame h" and bz: "bsize bs = heap_size h + 12" using h(1) by (simp_all add: heap_rep_def heap_laid_def)
  obtain as0 cs0 where b0: "bs = as0 @ (m, False) # cs0" using m(1) by (meson split_list)
  then have "m \<le> bsize bs" by simp
  then have al: "\<not> mem_size_aligned h < rt_align n" using m(2) bz by (simp add: word_less_nat_alt)
  define sz where "sz = max 12 (rt_align n)"
  have usz: "unat sz + 12 = block_need n" by (simp add: sz_def max_def word_le_nat_alt)
  have sz: "malloc_size n h = Some sz" using al n by (auto simp: malloc_size_def Let_def sz_def max_def)
  obtain p h' where q: "malloc_locked sz h = Some (p, h')" "rt_malloc n (h, k) = Some (Mem p, h', k)"
    using rt_malloc_ok [OF h(1) c, of n] n sz by auto
  from malloc_locked_room [OF h malloc_size_ok(1) [OF sz fr]] q(1) b0 m(2)
  obtain bs' where d: "malloc_done sz h bs p h' bs'" "heap_rep h' bs'" "lfree_lowest h' bs'" unfolding usz by fastforce
  obtain as i cs where e: "bs = as @ (i, False) # cs" "bs' = as @ split_block (unat sz) i @ cs" "unat sz + 12 \<le> i"
      "p = adr h (bsize as + 12)" "same_area h h'" using d(1) by (auto simp: malloc_done_def)
  have "heap_laid h (as @ (i, False) # cs)" using h(1) e(1) by (simp add: heap_rep_def)
  note lb = laid_block [OF this]
  have u: "used_blocks bs' = insert (bsize as, taken_size (unat sz) i) (used_blocks bs)"
    unfolding e(1,2) using used_from_split [OF e(3)] by simp
  have nu: "(bsize as, taken_size (unat sz) i) \<notin> used_blocks bs"
    unfolding e(1) using used_fresh [OF lb(3) _ lb(7)] by blast
  have ts: "unat (rt_align n) + 12 \<le> taken_size (unat sz) i"
    using usz e(3) max.cobounded2 [of "unat (rt_align n)" 12] by (auto simp: taken_size_def)
  have "\<exists>m'. (m', False) \<in> set bs' \<and> r \<le> m'" if "24 \<le> r" "block_need n + r \<le> m" for r
  proof (cases "m = i")
    case True
    then have "(m - (unat sz + 12), False) \<in> set bs'" using that usz by (auto simp: e(2) split_block_def)
    then show ?thesis using that usz by (intro exI [of _ "m - (unat sz + 12)"]) simp
  next
    case False
    then have "(m, False) \<in> set bs'" using m(1) unfolding e(1,2) by auto
    then show ?thesis using that(2) le_trans by (intro exI [of _ m]) simp
  qed
  then show ?thesis using that [OF _ d(2) e(5) _ u nu ts d(3)] q(2) malloc_done_nonzero [OF h(1) d(1)] unfolding e(4) by blast
qed

text \<open>A size above \<open>0xFFFFFFFC\<close> is rounded up to 0 and then raised to the smallest size: \<open>rt_malloc\<close> takes it
  for a request of 12 bytes.\<close>

lemma malloc_size_wraps:
  assumes "heap_rep h bs" "0xFFFFFFFC < n"
  shows "malloc_size n h = Some 12"
proof -
  have "12 \<le> mem_size_aligned h" using assms(1) by (simp add: heap_rep_def heap_laid_def heap_frame_def word_le_nat_alt)
  moreover have "unat n < 2 ^ 32" using unsigned_less [of n] by simp
  then have "unat n = 4294967293 \<or> unat n = 4294967294 \<or> unat n = 4294967295" using assms(2) unfolding word_less_nat_alt by simp linarith
  then have "n = 0xFFFFFFFD \<or> n = 0xFFFFFFFE \<or> n = 0xFFFFFFFF" by (simp add: word_unat_eq_iff)
  then have "rt_align n = 0" "n \<noteq> 0" by (auto simp: rt_align_def)
  ultimately show ?thesis by (simp add: malloc_size_def)
qed

end
