(* ===== verification/KStringProps.thy ===== *)
theory KStringProps
  imports KString
begin

unbundle bit_operations_syntax

section \<open>What the string functions compute\<close>

text \<open>
  The functions of theory KString against their mathematical meaning: \<open>cstr n s\<close> is the string
  that starts at \<open>s\<close>, of at most \<open>n\<close> bytes, and \<open>readable n s\<close> says that it ends within the
  object or that the object has \<open>n\<close> bytes.
\<close>

definition cstr :: "nat \<Rightarrow> u8 list \<Rightarrow> u8 list" where
  "cstr n s = takeWhile (\<lambda>c. c \<noteq> 0) (take n s)"

definition readable :: "nat \<Rightarrow> u8 list \<Rightarrow> bool" where
  "readable n s \<longleftrightarrow> n \<le> length s \<or> 0 \<in> set (take n s)"

lemma cstr_simps [simp]:
  "cstr 0 s = []" "cstr n [] = []" "cstr (Suc n) (c # s) = (if c = 0 then [] else c # cstr n s)"
  by (simp_all add: cstr_def)

lemma readable_simps [simp]:
  "readable 0 s" "\<not> readable (Suc n) []" "readable (Suc n) (c # s) \<longleftrightarrow> c = 0 \<or> readable n s"
  by (auto simp: readable_def)

lemma length_cstr: "length (cstr n s) \<le> n"
  unfolding cstr_def using length_takeWhile_le [of _ "take n s"] by (simp add: order_trans)

lemma cstr_nonzero: "0 \<notin> set (cstr n s)"
  by (auto simp: cstr_def dest: set_takeWhileD)

lemma strncpy_pad_eq: "n \<le> length d \<Longrightarrow> strncpy_pad d n = Some (replicate n 0 @ drop n d)"
  by (induction d n rule: strncpy_pad.induct) auto

lemma strncpy_loop_eq:
  "readable n s \<Longrightarrow> n \<le> length d \<Longrightarrow>
     strncpy_loop d s n = Some (cstr n s @ replicate (n - length (cstr n s)) 0 @ drop n d)"
  by (induction d s n rule: strncpy_loop.induct) (auto simp: strncpy_pad_eq)

lemma rt_strncpy_eq:
  "readable n s \<Longrightarrow> n \<le> length d \<Longrightarrow> rt_strncpy d s n = Some (cstr n s @ replicate (n - length (cstr n s)) 0 @ drop n d)"
  by (simp add: rt_strncpy_def strncpy_loop_eq)

lemma char_zero: "sint (c :: u8) = 0 \<longleftrightarrow> c = 0" "uint (c :: u8) = 0 \<longleftrightarrow> c = 0" "uint (c :: u8) = uint d \<longleftrightarrow> c = d"
  by (simp_all add: signed_eq_0_iff word_uint_eq_iff)

lemma rt_strncmp_eq:
  "readable n a \<Longrightarrow> readable n b \<Longrightarrow> \<exists>r. rt_strncmp a b n = Some r \<and> (r = 0 \<longleftrightarrow> cstr n a = cstr n b)"
  by (induction a b n rule: rt_strncmp.induct) (auto simp: char_zero)

lemma rt_strcmp_eq:
  "0 \<in> set a \<Longrightarrow> 0 \<in> set b \<Longrightarrow>
     \<exists>r. rt_strcmp a b = Some r \<and> (r = 0 \<longleftrightarrow> takeWhile (\<lambda>c. c \<noteq> 0) a = takeWhile (\<lambda>c. c \<noteq> 0) b)"
  by (induction a b rule: rt_strcmp.induct) (auto simp: char_zero)

lemma rt_memcmp_eq:
  "n \<le> length a \<Longrightarrow> n \<le> length b \<Longrightarrow> \<exists>r. rt_memcmp a b n = Some r \<and> (r = 0 \<longleftrightarrow> take n a = take n b)"
  by (induction a b n rule: rt_memcmp.induct) (auto simp: Let_def char_zero)

lemma strlen_loop_eq: "0 \<in> set s \<Longrightarrow> strlen_loop s n = Some (n + length (takeWhile (\<lambda>c. c \<noteq> 0) s))"
  by (induction s n rule: strlen_loop.induct) auto

lemma rt_strlen_eq: "0 \<in> set s \<Longrightarrow> rt_strlen s = Some (length (takeWhile (\<lambda>c. c \<noteq> 0) s))"
  by (simp add: rt_strlen_def strlen_loop_eq)

text \<open>\<open>rt_strnlen\<close> needs one readable byte more than the bound.\<close>

lemma strnlen_loop_eq:
  "k \<le> n \<Longrightarrow> readable (Suc (n - k)) s \<Longrightarrow> strnlen_loop s k n = Some (k + length (cstr (n - k) s))"
proof (induction s k n rule: strnlen_loop.induct)
  case (2 c s k n)
  show ?case
  proof (cases "k < n")
    case True
    then have "n - k = Suc (n - Suc k)" by simp
    then show ?thesis using 2 True by auto
  qed (use 2 in auto)
qed simp

lemma rt_strnlen_eq: "readable (Suc n) s \<Longrightarrow> rt_strnlen s n = Some (length (cstr n s))"
  by (simp add: rt_strnlen_def strnlen_loop_eq)

lemma strnlen_overreads: "0 \<notin> set s \<Longrightarrow> n + length s = m \<Longrightarrow> strnlen_loop s n m = None"
  by (induction s n m rule: strnlen_loop.induct) auto

lemma rt_strnlen_overreads: "0 \<notin> set s \<Longrightarrow> rt_strnlen s (length s) = None"
  by (simp add: rt_strnlen_def strnlen_overreads)

text \<open>A name that was copied compares as equal to its source, whatever follows it.\<close>

lemma cstr_padded [simp]: "cstr n (cstr n s @ replicate (n - length (cstr n s)) 0 @ d) = cstr n s"
proof -
  have z: "takeWhile (\<lambda>c. c \<noteq> 0) (cstr n s) = cstr n s" using cstr_nonzero [of n s] by (auto simp: takeWhile_eq_all_conv)
  have "take n (cstr n s @ replicate (n - length (cstr n s)) 0 @ d) = cstr n s @ replicate (n - length (cstr n s)) 0"
    using length_cstr [of n s] by simp
  then show ?thesis unfolding cstr_def [of n "_ @ _"] using cstr_nonzero [of n s]
    by (cases "n - length (cstr n s)") (auto simp: takeWhile_append z)
qed

end
