(* ===== verification/HeapAlign.thy ===== *)
theory HeapAlign
  imports HeapCalls KStringProps
begin

unbundle bit_operations_syntax

section \<open>Aligned allocations and copies of strings on the heap\<close>

text \<open>
  The calls of \<open>kservice.c\<close> over the heap: \<open>rt_malloc_align\<close>, \<open>rt_free_align\<close> and \<open>rt_strdup\<close>.  An aligned
  allocation keeps the address of its block in the four bytes before the address it returns.
\<close>

definition heap_store32 :: "u32 \<Rightarrow> u32 \<Rightarrow> heap \<Rightarrow> heap" where
  "heap_store32 a w h = h\<lparr>heap_bytes := (heap_bytes h)
     (a := ucast w, a + 1 := ucast (drop_bit 8 w), a + 2 := ucast (drop_bit 16 w), a + 3 := ucast (drop_bit 24 w))\<rparr>"

definition heap_load32 :: "u32 \<Rightarrow> heap \<Rightarrow> u32" where
  "heap_load32 a h = ucast (heap_bytes h a) OR push_bit 8 (ucast (heap_bytes h (a + 1))) OR
     push_bit 16 (ucast (heap_bytes h (a + 2))) OR push_bit 24 (ucast (heap_bytes h (a + 3)))"

definition malloc_align_ptr :: "u32 \<Rightarrow> u32 \<Rightarrow> u32" where
  "malloc_align_ptr ptr align =
     (if ptr AND (align - 1) = 0 then ptr + align else (ptr + (align - 1)) AND NOT (align - 1))"

definition rt_malloc_align :: "u32 \<Rightarrow> u32 \<Rightarrow> heap_state \<Rightarrow> (heap_result \<times> heap_state) option" where
  "rt_malloc_align size_arg align_arg s = do {
     let uintptr_size = 3;
     let align = (align_arg + uintptr_size) AND NOT uintptr_size;
     let align_size = ((size_arg + uintptr_size) AND NOT uintptr_size) + align;
     (r, h, k) \<leftarrow> rt_malloc align_size s;
     (case r of
        Heap_blocked \<Rightarrow> Some (Heap_blocked, h, k)
      | Mem ptr \<Rightarrow>
          if ptr \<noteq> 0 then do {
            let align_ptr = malloc_align_ptr ptr align;
            Some (Mem align_ptr, heap_store32 (align_ptr - 4) ptr h, k)
          }
          else Some (Mem 0, h, k))
   }"

definition rt_free_align :: "u32 \<Rightarrow> heap_state \<Rightarrow> (heap_result \<times> heap_state) option" where
  "rt_free_align ptr s = (let real_ptr = heap_load32 (ptr - 4) (fst s) in rt_free real_ptr s)"

text \<open>\<open>s\<close> are the bytes from the argument on; the copy goes to the new block.\<close>

definition rt_strdup :: "u8 list \<Rightarrow> heap_state \<Rightarrow> (heap_result \<times> heap_state) option" where
  "rt_strdup s st = do {
     n \<leftarrow> rt_strlen s;
     let len = of_nat n + 1;
     (r, h, k) \<leftarrow> rt_malloc len st;
     (case r of
        Heap_blocked \<Rightarrow> Some (Heap_blocked, h, k)
      | Mem tmp \<Rightarrow>
          if tmp = 0 then Some (Mem 0, h, k)
          else Some (Mem tmp, h\<lparr>heap_bytes := (\<lambda>a. if a - tmp < len then s ! unat (a - tmp) else heap_bytes h a)\<rparr>, k))
   }"

subsection \<open>Words in the heap\<close>

lemma split_word32:
  "ucast (ucast w :: u8) OR push_bit 8 (ucast (ucast (drop_bit 8 w) :: u8)) OR push_bit 16 (ucast (ucast (drop_bit 16 w) :: u8)) OR
     push_bit 24 (ucast (ucast (drop_bit 24 w) :: u8)) = (w :: u32)"
proof (rule bit_word_eqI)
  fix n assume "n < LENGTH(32)"
  then consider "n < 8" | "8 \<le> n" "n < 16" | "16 \<le> n" "n < 24" | "24 \<le> n" "n < 32" by fastforce
  then show "bit (ucast (ucast w :: u8) OR push_bit 8 (ucast (ucast (drop_bit 8 w) :: u8)) OR
      push_bit 16 (ucast (ucast (drop_bit 16 w) :: u8)) OR push_bit 24 (ucast (ucast (drop_bit 24 w) :: u8)) :: u32) n = bit w n"
    by cases (auto simp: bit_simps)
qed

lemma word_plus_distinct: "a \<noteq> a + 1" "a \<noteq> a + 2" "a \<noteq> a + 3" "a + 1 \<noteq> a + 2" "a + 1 \<noteq> a + 3" "a + 2 \<noteq> a + 3" for a :: u32
  by simp_all

lemma load_stored: "heap_load32 a (heap_store32 a w h) = w"
  using word_plus_distinct [of a] by (simp add: heap_load32_def heap_store32_def split_word32)

lemma load_cong:
  assumes "\<forall>x < 4. heap_bytes h' (a + of_nat x) = heap_bytes h (a + of_nat x)"
  shows "heap_load32 a h' = heap_load32 a h"
  using assms [rule_format, of 0] assms [rule_format, of 1] assms [rule_format, of 2] assms [rule_format, of 3]
  by (simp add: heap_load32_def)

lemma store_outside:
  assumes "unat p < unat a \<or> unat a + 4 \<le> unat p" "unat a + 4 \<le> 2 ^ 32"
  shows "heap_bytes (heap_store32 a w h) p = heap_bytes h p"
proof -
  have u: "unat (a + of_nat x) = unat a + x" if "x < 4" for x
    using assms(2) that unat_u32 [of x] by (simp add: unat_word_ariths)
  have "p \<noteq> a + of_nat x" if "x < 4" for x using u [OF that] assms(1) that by auto
  from this [of 0] this [of 1] this [of 2] this [of 3] show ?thesis by (simp add: heap_store32_def)
qed

lemma heap_store32_fields [simp]:
  "heap_ptr (heap_store32 a w h) = heap_ptr h" "heap_end (heap_store32 a w h) = heap_end h" "lfree (heap_store32 a w h) = lfree h"
  "mem_size_aligned (heap_store32 a w h) = mem_size_aligned h" "used_mem (heap_store32 a w h) = used_mem h"
  "mems (heap_store32 a w h) = mems h"
  by (simp_all add: heap_store32_def)

lemma heap_rep_bytes [simp]: "heap_rep (h\<lparr>heap_bytes := f\<rparr>) bs \<longleftrightarrow> heap_rep h bs"
  by (simp add: heap_rep_def heap_laid_def heap_frame_def)

lemma heap_rep_store [simp]: "heap_rep (heap_store32 a w h) bs \<longleftrightarrow> heap_rep h bs"
  by (simp add: heap_store32_def)

subsection \<open>The aligned address\<close>

lemma unat_and_mask: "unat (x AND mask e :: u32) = unat x mod 2 ^ e"
  by (simp only: take_bit_eq_mask [symmetric] unsigned_take_bit_eq) (simp only: take_bit_eq_mod)

lemma unat_align_down: "unat (x AND NOT (mask e) :: u32) = unat x - unat x mod 2 ^ e"
proof -
  have m: "unat (x AND mask e) = unat x mod 2 ^ e"
    by (rule unat_and_mask)
  have "(x AND NOT (mask e)) AND (x AND mask e) = 0" "(x AND NOT (mask e)) OR (x AND mask e) = x"
    by (rule bit_eqI, auto simp: bit_simps)+
  then have "(x AND NOT (mask e)) + (x AND mask e) = x" by (metis disjunctive_add_eq_or)
  then have "x AND NOT (mask e) = x - (x AND mask e)" by (metis add_diff_cancel_right')
  moreover have "x AND mask e \<le> x" unfolding word_le_nat_alt m by simp
  ultimately show ?thesis by (simp only: unat_sub m)
qed

lemma align_exp:
  assumes "2 \<le> e" "e < 32"
  shows "rt_align (2 ^ e) = 2 ^ e" "unat (2 ^ e :: u32) = 2 ^ e"
proof -
  have "(2 ^ e :: nat) < 2 ^ 32" using assms by (intro power_strict_increasing) simp_all
  from unat_u32 [OF this] show u: "unat (2 ^ e :: u32) = 2 ^ e" by simp
  have "(2 ^ e :: nat) \<le> 2 ^ 31" using assms by (intro power_increasing) simp_all
  then have p: "unat (2 ^ e + 3 :: u32) = 2 ^ e + 3" using u by (simp add: unat_word_ariths)
  have "(4 :: nat) dvd 2 ^ e" using le_imp_power_dvd [OF assms(1), of "2 :: nat"] by simp
  then obtain m where "(2 :: nat) ^ e = 4 * m" by (rule dvdE)
  then have "(2 ^ e + 3) mod 4 = (3 :: nat)" by presburger
  then have "unat (rt_align (2 ^ e)) = 2 ^ e"
    using unat_align_down [of "2 ^ e + 3" 2] p by (simp add: rt_align_def mask_eq_exp_minus_1)
  then show "rt_align (2 ^ e) = 2 ^ e" using u by (simp add: word_unat_eq_iff)
qed

lemma malloc_align_ptr_ok:
  assumes e: "2 \<le> e" "e < 32" and p: "4 dvd unat ptr" "unat ptr + 2 ^ e < 2 ^ 32"
  defines "a \<equiv> malloc_align_ptr ptr (2 ^ e)"
  shows "2 ^ e dvd unat a" "unat ptr + 4 \<le> unat a" "unat a \<le> unat ptr + 2 ^ e"
proof -
  have m: "(2 ^ e :: u32) - 1 = mask e" by (simp add: mask_eq_exp_minus_1)
  have z: "ptr AND mask e = 0 \<longleftrightarrow> 2 ^ e dvd unat ptr"
    unfolding word_unat_eq_iff unat_and_mask by (simp add: mod_eq_0_iff_dvd)
  note ue = align_exp(2) [OF e]
  have "(1 :: u32) \<le> 2 ^ e" unfolding word_le_nat_alt ue by simp
  then have um: "unat (mask e :: u32) = 2 ^ e - 1" unfolding m [symmetric] by (simp add: unat_sub ue)
  have d4: "(4 :: nat) dvd 2 ^ e" using le_imp_power_dvd [OF e(1), of "2 :: nat"] by simp
  have "2 ^ e dvd unat a \<and> unat ptr + 4 \<le> unat a \<and> unat a \<le> unat ptr + 2 ^ e"
  proof (cases "2 ^ e dvd unat ptr")
    case True
    then have "unat a = unat ptr + 2 ^ e" using p(2) ue z by (simp add: a_def malloc_align_ptr_def m unat_word_ariths)
    then show ?thesis using True d4 by (auto dest: dvd_imp_le)
  next
    case False
    let ?y = "unat ptr + (2 ^ e - 1)"
    have "unat (ptr + mask e) = ?y" using p(2) um by (simp add: unat_word_ariths)
    then have a: "unat a = ?y - ?y mod 2 ^ e" using False z by (simp add: a_def malloc_align_ptr_def m unat_align_down)
    then have d: "2 ^ e dvd unat a" using dvd_minus_mod [of "2 ^ e" ?y] by metis
    have "?y mod 2 ^ e < 2 ^ e" "?y mod 2 ^ e \<le> ?y" by simp_all
    then have le: "unat a \<le> ?y" "?y < unat a + 2 ^ e" using a by linarith+
    then have "unat ptr \<le> unat a" by simp
    moreover have "unat ptr \<noteq> unat a" using d False by auto
    moreover have "4 dvd unat a" using d d4 by (rule dvd_trans [rotated])
    ultimately have g: "2 ^ e dvd unat a" "unat ptr < unat a" "4 dvd unat a" using d by simp_all
    from p(1) g(3) obtain i j where "unat ptr = 4 * i" "unat a = 4 * j" by (metis dvdE)
    with g(2) have "unat ptr + 4 \<le> unat a" by presburger
    then show ?thesis using g(1) le(1) by simp
  qed
  then show "2 ^ e dvd unat a" "unat ptr + 4 \<le> unat a" "unat a \<le> unat ptr + 2 ^ e" by blast+
qed

subsection \<open>The calls\<close>

lemma used_place:
  assumes "heap_rep h bs" "(i, l) \<in> used_blocks bs"
  shows "4 dvd unat (adr h (i + 12))" "unat (adr h (i + 12)) + (l - 12) + 12 < 2 ^ 32" "12 \<le> l"
proof -
  obtain as cs where b: "bs = as @ (l, True) # cs" "i = bsize as" using assms(2) unfolding used_from_iff by auto
  have "heap_laid h (as @ (l, True) # cs)" using assms(1) by (simp add: heap_rep_def b)
  note lb = laid_block [OF this]
  have u: "unat (adr h (i + 12)) = unat (heap_ptr h) + (i + 12)" by (rule heap_frame_bounds(2) [OF lb(1)]) (use lb(3,5) b(2) in simp)
  then show "4 dvd unat (adr h (i + 12))" using lb(1,6) b(2) by (simp add: heap_frame_def)
  show "unat (adr h (i + 12)) + (l - 12) + 12 < 2 ^ 32" "12 \<le> l" using u lb(1,3,5) b(2) by (simp_all add: heap_frame_def)
qed

lemma rt_align_le: "unat n + 3 < 2 ^ 32 \<Longrightarrow> unat (rt_align n) \<le> unat n + 3"
  using unat_align_down [of "n + 3" 2] by (simp add: rt_align_def mask_eq_exp_minus_1 unat_word_ariths)

text \<open>The aligned area lies in a new block, behind the word that holds the address of the block.\<close>

lemma rt_malloc_align_ok:
  assumes h: "heap_rep h bs" and c: "heap_calm k" and e: "2 \<le> e" "e < 32" and sz: "unat size_arg + 2 ^ e + 6 < 2 ^ 32"
  obtains (none) "rt_malloc_align size_arg (2 ^ e) (h, k) = Some (Mem 0, h, k)"
  | (block) a h' bs' i l where "rt_malloc_align size_arg (2 ^ e) (h, k) = Some (Mem a, h', k)" "2 ^ e dvd unat a" "heap_rep h' bs'"
      "used_blocks bs' = insert (i, l) (used_blocks bs)" "(i, l) \<notin> used_blocks bs" "adr h' = adr h"
      "unat (adr h (i + 12)) + 4 \<le> unat a" "unat a + unat size_arg \<le> unat (adr h (i + 12)) + (l - 12)"
      "heap_load32 (a - 4) h' = adr h (i + 12)"
      "\<forall>p. unat p < unat (adr h (i + 12)) \<or> unat a \<le> unat p \<longrightarrow> heap_bytes h' p = heap_bytes h p"
proof -
  define n where "n = rt_align size_arg + 2 ^ e"
  have le: "unat size_arg \<le> unat (rt_align size_arg)" "unat (rt_align size_arg) \<le> unat size_arg + 3"
    using rt_align_ge [of size_arg] rt_align_le [of size_arg] sz by simp_all
  then have n: "unat n = unat (rt_align size_arg) + 2 ^ e" using sz align_exp(2) [OF e] by (simp add: n_def unat_word_ariths)
  then have n2: "unat n \<le> unat (rt_align n)" by (intro rt_align_ge) (use sz le in linarith)
  have eq: "rt_malloc_align size_arg (2 ^ e) (h, k) = do {
     (r, h, k) \<leftarrow> rt_malloc n (h, k);
     (case r of Heap_blocked \<Rightarrow> Some (Heap_blocked, h, k)
      | Mem ptr \<Rightarrow> if ptr \<noteq> 0 then Some (Mem (malloc_align_ptr ptr (2 ^ e)), heap_store32 (malloc_align_ptr ptr (2 ^ e) - 4) ptr h, k)
          else Some (Mem 0, h, k)) }"
    unfolding rt_malloc_align_def n_def rt_align_def Let_def align_exp(1) [OF e, unfolded rt_align_def] ..
  show ?thesis
  proof (cases rule: rt_malloc_block [OF h c, of n])
    case 1
    then show ?thesis by (intro none) (simp add: eq)
  next
    case (2 h1 bs1 i l)
    let ?p = "adr h (i + 12)"
    define a where "a = malloc_align_ptr ?p (2 ^ e)"
    have ah: "heap_ptr h1 = heap_ptr h" using 2(3) by (simp add: same_area_def)
    have u: "(i, l) \<in> used_blocks bs1" using 2(5) by simp
    note pl = used_place [OF 2(2) u, unfolded ah]
    have "2 ^ e \<le> l - 12" using 2(7) n n2 by linarith
    then have "unat ?p + 2 ^ e < 2 ^ 32" using pl(2) by linarith
    note ok = malloc_align_ptr_ok [OF e pl(1) this, folded a_def]
    have al: "unat a < 2 ^ 32" using unsigned_less [where w = a and 'a = nat] by simp
    have a4: "unat (a - 4) = unat a - 4" using ok(2) by (simp add: unat_sub word_le_nat_alt)
    have "rt_malloc_align size_arg (2 ^ e) (h, k) = Some (Mem a, heap_store32 (a - 4) ?p h1, k)"
      using 2(1,4) by (simp add: eq a_def)
    moreover have "heap_bytes (heap_store32 (a - 4) ?p h1) p = heap_bytes h p" if "unat p < unat ?p \<or> unat a \<le> unat p" for p
    proof -
      have "heap_bytes (heap_store32 (a - 4) ?p h1) p = heap_bytes h1 p"
        by (rule store_outside) (use that ok(2) a4 al in \<open>auto\<close>)
      then show ?thesis using 2(3) by (simp add: same_area_def)
    qed
    moreover have "unat a + unat size_arg \<le> unat ?p + (l - 12)" using ok(3) 2(7) n n2 le by linarith
    ultimately show ?thesis
      using block [of a "heap_store32 (a - 4) ?p h1" bs1 i l] 2(2,5,6) ok ah load_stored by simp
  qed
qed

text \<open>Releasing it releases the block, as long as the word before the area was not overwritten.\<close>

lemma rt_free_align_ok:
  assumes h: "heap_rep h bs" and c: "heap_calm k" and i: "(i, l) \<in> used_blocks bs" and p: "heap_load32 (a - 4) h = adr h (i + 12)"
  obtains h' bs' where "rt_free_align a (h, k) = Some (Mem 0, h', k)" "heap_rep h' bs'" "same_area h h'"
    "used_blocks bs' = used_blocks bs - {(i, l)}"
  by (rule rt_free_block [OF h c i]) (simp add: that rt_free_align_def p)

text \<open>Rounding the size up and adding the alignment wraps around: a request for nearly all of the addresses gets a small
  block, which does not hold it.\<close>

lemma rt_malloc_align_wraps:
  assumes "rt_malloc 8 s = Some (Mem p, h, k)" "p \<noteq> 0"
  shows "rt_malloc_align 0xFFFFFFF8 16 s = Some (Mem (malloc_align_ptr p 16), heap_store32 (malloc_align_ptr p 16 - 4) p h, k)"
proof -
  have "(((0xFFFFFFF8 :: u32) + 3) AND NOT 3) + ((16 + 3) AND NOT 3) = 8" "((16 :: u32) + 3) AND NOT 3 = 16" by simp_all
  then show ?thesis unfolding rt_malloc_align_def Let_def by (simp only: assms) (simp add: assms(2))
qed

text \<open>A copy of a string: the bytes up to the NUL, in a block of their own.\<close>

lemma rt_strdup_ok:
  assumes h: "heap_rep h bs" and c: "heap_calm k" and s: "0 \<notin> set t" "length t + 4 < 2 ^ 32"
  obtains (none) "rt_strdup (t @ 0 # r) (h, k) = Some (Mem 0, h, k)"
  | (block) h' bs' i l where "rt_strdup (t @ 0 # r) (h, k) = Some (Mem (adr h (i + 12)), h', k)" "heap_rep h' bs'"
      "used_blocks bs' = insert (i, l) (used_blocks bs)" "(i, l) \<notin> used_blocks bs" "length t + 1 \<le> l - 12"
      "\<forall>x < length t + 1. heap_bytes h' (adr h (i + 12) + of_nat x) = (t @ [0]) ! x"
proof -
  have n: "rt_strlen (t @ 0 # r) = Some (length t)" using s(1) takeWhile_append2 [of t "\<lambda>c. c \<noteq> 0" "0 # r"] by (fastforce simp: rt_strlen_eq)
  have u: "unat (of_nat (length t) + 1 :: u32) = length t + 1" using unat_u32 [of "length t + 1"] s(2) by (simp add: add.commute)
  show ?thesis
  proof (cases rule: rt_malloc_block [OF h c, of "of_nat (length t) + 1"])
    case 1
    then show ?thesis by (intro none) (simp add: rt_strdup_def n Let_def)
  next
    case (2 h1 bs1 i l)
    define p where "p = adr h (i + 12)"
    define h2 where "h2 = h1\<lparr>heap_bytes := (\<lambda>a. if a - p < of_nat (length t) + 1 then (t @ 0 # r) ! unat (a - p) else heap_bytes h1 a)\<rparr>"
    have "length t + 1 \<le> unat (rt_align (of_nat (length t) + 1))" using rt_align_ge [of "of_nat (length t) + 1"] u s(2) by simp
    then have "length t + 1 \<le> l - 12" using 2(7) by linarith
    moreover have "heap_bytes h2 (p + of_nat x) = (t @ [0]) ! x" if "x < length t + 1" for x
    proof -
      have "unat (of_nat x :: u32) = x" using unat_u32 [of x] that s(2) by simp
      then show ?thesis using that u by (auto simp: h2_def word_less_nat_alt nth_append)
    qed
    moreover have "rt_strdup (t @ 0 # r) (h, k) = Some (Mem p, h2, k)" using 2(1,4) [folded p_def] by (simp add: rt_strdup_def n Let_def h2_def)
    ultimately show ?thesis using block [of i h2 bs1 l, folded p_def] 2(2,5,6) by (simp add: h2_def)
  qed
qed

end
