(* ===== verification/TickRun.thy ===== *)
theory TickRun
  imports ClockProps
begin

unbundle bit_operations_syntax

section \<open>Threads that wait for a number of ticks\<close>

text \<open>
  The tick interrupt happens again and again while nothing else does: a thread whose timer is
  pending stays suspended until its tick comes, and is then woken.
\<close>

fun ticks :: "callbacks \<Rightarrow> nat \<Rightarrow> kernel \<Rightarrow> kernel option" where
  "ticks cb 0 k = Some k"
| "ticks cb (Suc n) k = do { k1 \<leftarrow> rt_tick_increase cb k; ticks cb n k1 }"

text \<open>The part of the interrupt before the timers: the count of ticks and the slice of the running thread.\<close>

lemma rt_tick_slice:
  assumes k: "kinv k" "rt_current_thread k \<noteq> None"
  obtains k1 where "rt_tick_increase cb k = rt_timer_check cb k1" "kinv k1" "rt_current_thread k1 \<noteq> None"
    "rt_tick k1 = rt_tick k + 1" "timers k1 = timers k" "rt_timer_list k1 = rt_timer_list k"
    "\<And>t. tstat k1 t = RT_THREAD_SUSPEND \<longleftrightarrow> tstat k t = RT_THREAD_SUSPEND"
proof -
  obtain c where c: "rt_current_thread k = Some c" using k(2) by blast
  define k1 where "k1 = upd_thread c (\<lambda>th. th\<lparr>remaining_tick := remaining_tick th - 1\<rparr>) (k\<lparr>rt_tick := rt_tick k + 1\<rparr>)"
  have i1: "kinv k1" unfolding k1_def by (rule kinv_upd_thread [OF harmless_tick kinv_tick [OF k(1)]])
  have s1: "tstat k1 u = tstat k u" for u
    unfolding k1_def harmless_upd [OF harmless_tick] by (simp add: tstat_def)
  have f1: "rt_current_thread k1 = Some c" "rt_tick k1 = rt_tick k + 1" "timers k1 = timers k" "rt_timer_list k1 = rt_timer_list k"
    using c by (simp_all add: k1_def upd_thread_def)
  show ?thesis
  proof (cases "remaining_tick (threads k1 c) = 0")
    case False
    then have "rt_tick_increase cb k = rt_timer_check cb k1"
      using c by (simp add: rt_tick_increase_def Let_def rt_thread_self_def k1_def [symmetric])
    then show ?thesis using that [of k1] i1 f1 s1 by simp
  next
    case True
    define k2 where "k2 = upd_thread c (\<lambda>th. th\<lparr>remaining_tick := thread_init_tick th,
        stat := stat th OR RT_THREAD_STAT_YIELD\<rparr>) k1"
    have i2: "kinv k2" unfolding k2_def by (rule kinv_upd_thread [OF harmless_slice_end i1])
    have s2: "tstat k2 u = tstat k u" for u
      unfolding k2_def harmless_upd [OF harmless_slice_end] s1 by simp
    have f2: "rt_current_thread k2 = Some c" "rt_tick k2 = rt_tick k + 1" "timers k2 = timers k" "rt_timer_list k2 = rt_timer_list k"
      using f1 by (simp_all add: k2_def upd_thread_def)
    obtain k3 where k3: "rt_schedule k2 = Some k3" "kinv k3" "schedule_post k2 k3" "kframe k2 k3"
      using rt_schedule_kinv [OF i2] f2(1) by auto
    have p: "rt_current_thread k3 \<noteq> None" "sched_frame k2 k3"
      and s3: "tstat k3 u = tstat k2 u \<or> {tstat k2 u, tstat k3 u} = {RT_THREAD_READY, RT_THREAD_RUNNING}" for u
      using k3(3) unfolding schedule_post_def by blast+
    have "rt_tick_increase cb k = rt_timer_check cb k3"
      using True c k3(1) by (simp add: rt_tick_increase_def Let_def rt_thread_self_def k1_def [symmetric] k2_def [symmetric] rt_thread_yield_def)
    moreover have "tstat k3 u = RT_THREAD_SUSPEND \<longleftrightarrow> tstat k u = RT_THREAD_SUSPEND" for u
      using s3 [of u] unfolding s2 by (auto simp: doubleton_eq_iff)
    moreover have "rt_tick k3 = rt_tick k + 1" "timers k3 = timers k" "rt_timer_list k3 = rt_timer_list k"
      using sched_frameD [OF p(2)] f2 by simp_all
    ultimately show ?thesis using that [of k3] k3(2) p(1) by blast
  qed
qed

text \<open>What every tick keeps while only the timers of threads are pending.\<close>

definition sleepers :: "u32 \<Rightarrow> kernel \<Rightarrow> bool" where
  "sleepers b k \<longleftrightarrow> check_inv b k \<and> no_periodic k \<and> set (rt_timer_list k) \<subseteq> range ThreadTimer"

lemma ahead_Suc: "ahead b t < 2 ^ 32 - 1 \<Longrightarrow> ahead b (t + 1) = ahead b t + 1"
proof -
  assume "ahead b t < 2 ^ 32 - 1"
  then have "unat ((t - b) + 1) = unat (t - b) + 1" unfolding ahead_def unat_word_ariths(1) by simp
  then show ?thesis by (simp add: ahead_def algebra_simps)
qed

lemma check_inv_tick:
  assumes s: "sleepers b k" and b: "ahead b (rt_tick k) + 1 < 2 ^ 31 - 1"
    and k1: "kinv k1" "rt_current_thread k1 \<noteq> None" "rt_tick k1 = rt_tick k + 1" "timers k1 = timers k" "rt_timer_list k1 = rt_timer_list k"
  shows "sleepers b k1"
proof -
  have a: "ahead b (rt_tick k + 1) = ahead b (rt_tick k) + 1" by (rule ahead_Suc) (use b in simp)
  have np: "no_periodic k1" using s k1(4) by (simp add: sleepers_def no_periodic_def timer_on_def)
  then have "check_inv b k1"
    using s k1 a b unfolding sleepers_def check_inv_def no_periodic_def by auto
  then show ?thesis using s np k1(5) by (simp add: sleepers_def)
qed


text \<open>One tick: who is due is woken with the error, who is not stays suspended with its timer.\<close>

lemma tick_step:
  assumes s: "sleepers b k" and b: "ahead b (rt_tick k) + 1 < 2 ^ 31 - 1" and t: "ThreadTimer t \<in> set (rt_timer_list k)"
  obtains k' where "rt_tick_increase cb k = Some k'" "sleepers b k'" "rt_tick k' = rt_tick k + 1"
    "timeout_tick (timers k' (ThreadTimer t)) = timeout_tick (timers k (ThreadTimer t))"
    "if ahead b (timeout_tick (timers k (ThreadTimer t))) \<le> ahead b (rt_tick k) + 1
     then thread_error (threads k' t) = - RT_ETIMEOUT \<and> tstat k' t \<in> {RT_THREAD_READY, RT_THREAD_RUNNING}
     else ThreadTimer t \<in> set (rt_timer_list k')"
proof -
  have k: "kinv k" "rt_current_thread k \<noteq> None" using s by (simp_all add: sleepers_def check_inv_def)
  obtain k1 where k1: "rt_tick_increase cb k = rt_timer_check cb k1" "kinv k1" "rt_current_thread k1 \<noteq> None"
    "rt_tick k1 = rt_tick k + 1" "timers k1 = timers k" "rt_timer_list k1 = rt_timer_list k"
    by (rule rt_tick_slice [OF k, of cb]) blast
  have s1: "sleepers b k1" by (rule check_inv_tick [OF s b k1(2-6)])
  then have c: "check_inv b k1" "set (rt_timer_list k1) \<subseteq> range ThreadTimer" "no_periodic k1" by (simp_all add: sleepers_def)
  from timer_check_loop_wakes [OF c(1,2), of cb] obtain k' where k': "rt_timer_check cb k1 = Some k'" "check_inv b k'"
    "timeouts_done k1 k'" "rt_tick k' = rt_tick k1" "\<And>y. timeout_tick (timers k' y) = timeout_tick (timers k1 y)" "no_periodic k'"
    using c(3) by (auto simp: rt_timer_check_def)
  have l: "rt_timer_list k' = filter (\<lambda>x. x \<notin> expired k1) (rt_timer_list k1)" using k'(3) by (simp add: timeouts_done_def)
  then have "set (rt_timer_list k') \<subseteq> range ThreadTimer" using c(2) by auto
  then have s': "sleepers b k'" using k'(2,6) by (simp add: sleepers_def)
  have a: "ahead b (rt_tick k1) = ahead b (rt_tick k) + 1" unfolding k1(4) by (rule ahead_Suc) (use b in simp)
  have due: "woken k1 t \<longleftrightarrow> ahead b (timeout_tick (timers k (ThreadTimer t))) \<le> ahead b (rt_tick k) + 1"
    using expired_iff [OF check_invD(3,4) [OF c(1)], of "ThreadTimer t"] t unfolding woken_def a k1(5,6) by simp
  show ?thesis
  proof (rule that [of k'])
    show "if ahead b (timeout_tick (timers k (ThreadTimer t))) \<le> ahead b (rt_tick k) + 1
       then thread_error (threads k' t) = - RT_ETIMEOUT \<and> tstat k' t \<in> {RT_THREAD_READY, RT_THREAD_RUNNING}
       else ThreadTimer t \<in> set (rt_timer_list k')"
      using k'(3) t l unfolding due [symmetric] by (auto simp: timeouts_done_def woken_def k1(6))
  qed (use k1 k' s' in simp_all)
qed

lemma sleeper_suspended:
  "sleepers b k \<Longrightarrow> ThreadTimer t \<in> set (rt_timer_list k) \<Longrightarrow> tstat k t = RT_THREAD_SUSPEND"
  using tm_invD(9) [of k t] kinvD(3) [of k] by (auto simp: sleepers_def check_inv_def linked_def)

lemma ahead_plus: "ahead b t + n < 2 ^ 32 - 1 \<Longrightarrow> ahead b (t + of_nat n) = ahead b t + n"
proof (induction n)
  case (Suc n)
  then have "ahead b (t + of_nat n + 1) = ahead b t + n + 1" using ahead_Suc [of b "t + of_nat n"] by simp
  then show ?case by (simp add: add.commute add.left_commute)
qed simp

lemma ticks_wake:
  assumes "sleepers b k" "ThreadTimer t \<in> set (rt_timer_list k)" "0 < n" "ahead b (rt_tick k) + n < 2 ^ 31 - 1"
    and "timeout_tick (timers k (ThreadTimer t)) = rt_tick k + of_nat n"
  shows "(\<forall>i < n. \<exists>k'. ticks cb i k = Some k' \<and> tstat k' t = RT_THREAD_SUSPEND \<and> ThreadTimer t \<in> set (rt_timer_list k')) \<and>
    (\<exists>k'. ticks cb n k = Some k' \<and> thread_error (threads k' t) = - RT_ETIMEOUT \<and>
       tstat k' t \<in> {RT_THREAD_READY, RT_THREAD_RUNNING} \<and> rt_tick k' = rt_tick k + of_nat n)"
  using assms
proof (induction n arbitrary: k)
  case (Suc m)
  have at: "ahead b (timeout_tick (timers k (ThreadTimer t))) = ahead b (rt_tick k) + Suc m"
    unfolding Suc.prems(5) by (rule ahead_plus) (use Suc.prems(4) in simp)
  have b1: "ahead b (rt_tick k) + 1 < 2 ^ 31 - 1" using Suc.prems(4) by simp
  obtain k1 where k1: "rt_tick_increase cb k = Some k1" "sleepers b k1" "rt_tick k1 = rt_tick k + 1"
    "timeout_tick (timers k1 (ThreadTimer t)) = timeout_tick (timers k (ThreadTimer t))"
    "if ahead b (timeout_tick (timers k (ThreadTimer t))) \<le> ahead b (rt_tick k) + 1
     then thread_error (threads k1 t) = - RT_ETIMEOUT \<and> tstat k1 t \<in> {RT_THREAD_READY, RT_THREAD_RUNNING}
     else ThreadTimer t \<in> set (rt_timer_list k1)"
    by (rule tick_step [OF Suc.prems(1) b1 Suc.prems(2), of cb]) blast
  show ?case
  proof (cases "m = 0")
    case True
    then show ?thesis using k1(1,3,5) sleeper_suspended [OF Suc.prems(1,2)] Suc.prems(2) unfolding at by simp
  next
    case False
    then have l: "ThreadTimer t \<in> set (rt_timer_list k1)" using k1(5) unfolding at by simp
    have "ahead b (rt_tick k1) = ahead b (rt_tick k) + 1" unfolding k1(3) by (rule ahead_Suc) (use b1 in simp)
    then have "ahead b (rt_tick k1) + m < 2 ^ 31 - 1" using Suc.prems(4) by simp
    moreover have "timeout_tick (timers k1 (ThreadTimer t)) = rt_tick k1 + of_nat m" unfolding k1(3,4) Suc.prems(5) by simp
    ultimately have ih: "(\<forall>i < m. \<exists>k'. ticks cb i k1 = Some k' \<and> tstat k' t = RT_THREAD_SUSPEND \<and> ThreadTimer t \<in> set (rt_timer_list k')) \<and>
      (\<exists>k'. ticks cb m k1 = Some k' \<and> thread_error (threads k' t) = - RT_ETIMEOUT \<and>
         tstat k' t \<in> {RT_THREAD_READY, RT_THREAD_RUNNING} \<and> rt_tick k' = rt_tick k1 + of_nat m)"
      using False by (intro Suc.IH [OF k1(2) l]) simp_all
    show ?thesis
    proof (intro conjI allI impI)
      fix i assume "i < Suc m"
      then show "\<exists>k'. ticks cb i k = Some k' \<and> tstat k' t = RT_THREAD_SUSPEND \<and> ThreadTimer t \<in> set (rt_timer_list k')"
        using ih k1(1) sleeper_suspended [OF Suc.prems(1,2)] Suc.prems(2) by (cases i) simp_all
    next
      show "\<exists>k'. ticks cb (Suc m) k = Some k' \<and> thread_error (threads k' t) = - RT_ETIMEOUT \<and>
         tstat k' t \<in> {RT_THREAD_READY, RT_THREAD_RUNNING} \<and> rt_tick k' = rt_tick k + of_nat (Suc m)"
        using ih k1(1,3) by (simp add: add.assoc)
    qed
  qed
qed simp

text \<open>C27: A thread whose timer is pending wakes, and on time: as long as only timers of threads are pending
  and the ticks stay within half the range of the counter, every tick before the timeout leaves the
  thread suspended and its timer in the list, and the tick of the timeout itself returns with the
  thread ready or running and the error \<open>-RT_ETIMEOUT\<close>.\<close>

theorem sleeping_thread_wakes:
  assumes "sleepers b k" "ThreadTimer t \<in> set (rt_timer_list k)" "0 < n" "ahead b (rt_tick k) + n < 2 ^ 31 - 1"
    and "timeout_tick (timers k (ThreadTimer t)) = rt_tick k + of_nat n"
  shows "(\<forall>i < n. \<exists>k'. ticks cb i k = Some k' \<and> tstat k' t = RT_THREAD_SUSPEND \<and> ThreadTimer t \<in> set (rt_timer_list k')) \<and>
    (\<exists>k'. ticks cb n k = Some k' \<and> thread_error (threads k' t) = - RT_ETIMEOUT \<and>
       tstat k' t \<in> {RT_THREAD_READY, RT_THREAD_RUNNING} \<and> rt_tick k' = rt_tick k + of_nat n)"
  by (rule ticks_wake [OF assms])

definition sample_sleeper :: kernel where
  "sample_sleeper = sample_waiting\<lparr>rt_tick := 105\<rparr>"

lemma sleeping_thread_wakes_witness:
  "\<exists>k'. ticks (\<lambda>f p k. Some k) 2 sample_sleeper = Some k' \<and> thread_error (threads k' 3) = - RT_ETIMEOUT \<and> rt_tick k' = 107"
proof -
  have "check_inv 100 sample_sleeper"
    using sample_waiting_check_inv kinv_tick [of sample_waiting 105]
    unfolding check_inv_def sample_sleeper_def by (auto simp: sample_waiting_def timer_on_def sample_timers_def zero_timer_def ahead_def split: if_splits timer_id.splits)
  moreover have "no_periodic sample_sleeper"
    by (simp add: no_periodic_def sample_sleeper_def sample_waiting_def timer_on_def sample_timers_def zero_timer_def split: timer_id.split)
  ultimately have "sleepers 100 sample_sleeper" by (simp add: sleepers_def) (simp add: sample_sleeper_def sample_waiting_def)
  from sleeping_thread_wakes [OF this, of 3 2 "\<lambda>f p k. Some k"] show ?thesis
    by (simp add: sample_sleeper_def sample_waiting_def ahead_def) blast
qed

end
