(* ===== verification/Button.thy ===== *)
theory Button
  imports Prelude
begin
unbundle bit_operations_syntax

section \<open>Buttons (applications/button.h)\<close>

text \<open>
  A button is a pin with the level that counts as pressed and a time, in milliseconds, for which it
  has to be held.  A call of \<open>isTrigger\<close> or \<open>isPress\<close> reads the pin once or twice and the tick
  counter once or twice; the values that it reads are arguments, in the order of the reads.
\<close>

record button =
  btn_gpio :: int
  btn_state :: bool
  btn_mode :: u8
  btn_jitter :: u16
  last_t :: u32
  started :: bool
  triggered :: bool

abbreviation RT_TICK_PER_SECOND :: u32 where "RT_TICK_PER_SECOND \<equiv> 1000"

text \<open>The member \<open>_last_t\<close> has no initial value; the constructor leaves what was there.\<close>

definition Button :: "int \<Rightarrow> bool \<Rightarrow> u8 \<Rightarrow> u16 \<Rightarrow> u32 \<Rightarrow> button" where
  "Button gpio state mode jitter garbage =
     \<lparr>btn_gpio = gpio, btn_state = state, btn_mode = mode, btn_jitter = jitter, last_t = garbage,
      started = False, triggered = False\<rparr>"

text \<open>One reading: the pin and the tick counter, each for the first and for the second read of a call.\<close>

record reading =
  pin1 :: int
  pin2 :: int
  tick1 :: u32
  tick2 :: u32

definition pin_active :: "button \<Rightarrow> int \<Rightarrow> bool" where
  "pin_active b pin \<longleftrightarrow> pin = of_bool (btn_state b)"

text \<open>The first part of both calls: \<open>None\<close> when the pin is found inactive, and the call returns false.\<close>

definition button_sample :: "reading \<Rightarrow> button \<Rightarrow> bool \<times> button" where
  "button_sample r b =
     (if pin_active b (pin1 r) \<and> \<not> started b then (True, b\<lparr>started := True, last_t := tick1 r, triggered := False\<rparr>)
      else if \<not> pin_active b (pin2 r) then (False, b\<lparr>started := False\<rparr>)
      else (True, b))"

definition held_long :: "u32 \<Rightarrow> button \<Rightarrow> bool" where
  "held_long now b \<longleftrightarrow> (now - last_t b) * 1000 div RT_TICK_PER_SECOND \<ge> ucast (btn_jitter b)"

definition isTrigger :: "reading \<Rightarrow> button \<Rightarrow> bool \<times> button" where
  "isTrigger r b =
     (case button_sample r b of
        (False, b1) \<Rightarrow> (False, b1)
      | (True, b1) \<Rightarrow>
          if held_long (tick2 r) b1 \<and> \<not> triggered b1 then (True, b1\<lparr>triggered := True\<rparr>) else (False, b1))"

definition isPress :: "reading \<Rightarrow> button \<Rightarrow> bool \<times> button" where
  "isPress r b =
     (case button_sample r b of
        (False, b1) \<Rightarrow> (False, b1)
      | (True, b1) \<Rightarrow> (held_long (tick2 r) b1, b1))"

text \<open>A sequence of calls of \<open>isTrigger\<close>.\<close>

fun trigger_run :: "reading list \<Rightarrow> button \<Rightarrow> bool list \<times> button" where
  "trigger_run [] b = ([], b)"
| "trigger_run (r # rs) b = (let (o1, b1) = isTrigger r b; (os, b2) = trigger_run rs b1 in (o1 # os, b2))"

subsection \<open>Properties\<close>

text \<open>How long the button has been held, in ticks.  The product in the code is exact below this bound.\<close>

abbreviation held :: "u32 \<Rightarrow> u32 \<Rightarrow> nat" where
  "held t0 now \<equiv> unat (now - t0)"

lemma unat_u16_u32 [simp]: "unat (ucast (j :: u16) :: u32) = unat j"
  by (simp add: unsigned_ucast_eq take_bit_nat_eq_self unsigned_less [THEN less_le_trans])

lemma held_long_exact:
  assumes "held (last_t b) now < 4294968"
  shows "held_long now b \<longleftrightarrow> unat (btn_jitter b) \<le> held (last_t b) now"
proof -
  have l: "held (last_t b) now * unat (1000 :: u32) < 2 ^ LENGTH(32)" using assms by simp
  have "unat ((now - last_t b) * 1000) = held (last_t b) now * 1000" using iffD1 [OF unat_mult_lem l] by simp
  then show ?thesis
    unfolding held_long_def word_le_nat_alt unat_div by simp
qed

text \<open>Every reading finds the button pressed.\<close>

definition pressed_throughout :: "button \<Rightarrow> reading list \<Rightarrow> bool" where
  "pressed_throughout b rs \<longleftrightarrow> (\<forall>r \<in> set rs. pin_active b (pin1 r) \<and> pin_active b (pin2 r))"

lemma pressed_Cons [simp]:
  "pressed_throughout b (r # rs) \<longleftrightarrow> pin_active b (pin1 r) \<and> pin_active b (pin2 r) \<and> pressed_throughout b rs"
  by (auto simp: pressed_throughout_def)

lemma pressed_upd [simp]:
  "pressed_throughout (b\<lparr>started := x\<rparr>) rs = pressed_throughout b rs"
  "pressed_throughout (b\<lparr>triggered := x\<rparr>) rs = pressed_throughout b rs"
  "pressed_throughout (b\<lparr>last_t := t\<rparr>) rs = pressed_throughout b rs"
  by (simp_all add: pressed_throughout_def pin_active_def)

lemma isTrigger_held:
  assumes "started b" "pin_active b (pin1 r)" "pin_active b (pin2 r)" "held (last_t b) (tick2 r) < 4294968"
  shows "isTrigger r b = (let o1 = unat (btn_jitter b) \<le> held (last_t b) (tick2 r) \<and> \<not> triggered b in (o1, b\<lparr>triggered := triggered b \<or> o1\<rparr>))"
  using assms by (auto simp: isTrigger_def button_sample_def held_long_exact)

lemma trigger_run_state: "btn_state (snd (trigger_run rs b)) = btn_state b"
proof (induction rs arbitrary: b)
  case (Cons r rs)
  have "btn_state (snd (isTrigger r b)) = btn_state b" by (simp add: isTrigger_def button_sample_def)
  then show ?case using Cons by (simp split: prod.split) (metis snd_conv)
qed simp

text \<open>While the button stays pressed after it has triggered, nothing happens.\<close>

lemma trigger_run_after:
  assumes "started b" "triggered b" "pressed_throughout b rs"
  shows "trigger_run rs b = (replicate (length rs) False, b)"
  using assms by (induction rs arbitrary: b) (auto simp: isTrigger_def button_sample_def)

lemma trigger_run_held:
  assumes "started b" "\<not> triggered b" "pressed_throughout b rs" "\<And>r. r \<in> set rs \<Longrightarrow> held (last_t b) (tick2 r) < 4294968" "i < length rs"
  shows "fst (trigger_run rs b) ! i \<longleftrightarrow>
    unat (btn_jitter b) \<le> held (last_t b) (tick2 (rs ! i)) \<and> (\<forall>j < i. held (last_t b) (tick2 (rs ! j)) < unat (btn_jitter b))"
  using assms
proof (induction rs arbitrary: b i)
  case (Cons r rs)
  let ?long = "unat (btn_jitter b) \<le> held (last_t b) (tick2 r)"
  have t: "isTrigger r b = (?long, b\<lparr>triggered := ?long\<rparr>)" using isTrigger_held [of b r] Cons.prems by (simp add: Let_def)
  show ?case
  proof (cases ?long)
    case True
    have "trigger_run rs (b\<lparr>triggered := True\<rparr>) = (replicate (length rs) False, b\<lparr>triggered := True\<rparr>)"
      using Cons.prems by (intro trigger_run_after) simp_all
    then have s: "fst (trigger_run (r # rs) b) = True # replicate (length rs) False" using t True by simp
    show ?thesis
    proof (cases i)
      case 0
      then show ?thesis using s True by simp
    next
      case (Suc k)
      then have "\<not> fst (trigger_run (r # rs) b) ! i" using s Cons.prems(5) by simp
      moreover have "0 < i \<and> \<not> held (last_t b) (tick2 ((r # rs) ! 0)) < unat (btn_jitter b)" using Suc True by simp
      ultimately show ?thesis by blast
    qed
  next
    case False
    then have b: "b\<lparr>triggered := ?long\<rparr> = b" using Cons.prems(2) by simp
    have s: "trigger_run (r # rs) b = (False # fst (trigger_run rs b), snd (trigger_run rs b))"
      using t False unfolding b by (simp split: prod.split)
    show ?thesis
    proof (cases i)
      case 0
      then show ?thesis using s False by simp
    next
      case (Suc k)
      have "fst (trigger_run rs b) ! k \<longleftrightarrow> unat (btn_jitter b) \<le> held (last_t b) (tick2 (rs ! k)) \<and>
          (\<forall>j < k. held (last_t b) (tick2 (rs ! j)) < unat (btn_jitter b))"
        using Cons.prems Suc by (intro Cons.IH) auto
      then show ?thesis using s False Suc by (auto simp: less_Suc_eq_0_disj)
    qed
  qed
qed simp

text \<open>C26: However a press is sampled, \<open>isTrigger\<close> returns true for exactly one of its readings: the first
  at which the button has been held for the debounce time, which is measured from the first reading
  of the press and may go across the wrap-around of the tick counter; this needs the press to be
  shorter than 4294968 ticks.  A reading that finds the button released ends the press.\<close>

theorem button_triggers_once:
  assumes "\<not> started b" "pressed_throughout b rs" "i < length rs"
    and "\<And>r. r \<in> set rs \<Longrightarrow> held (tick1 (hd rs)) (tick2 r) < 4294968"
  shows "(fst (trigger_run rs b) ! i \<longleftrightarrow> unat (btn_jitter b) \<le> held (tick1 (hd rs)) (tick2 (rs ! i)) \<and>
      (\<forall>j < i. held (tick1 (hd rs)) (tick2 (rs ! j)) < unat (btn_jitter b))) \<and>
    (\<not> pin_active b (pin1 r) \<and> \<not> pin_active b (pin2 r) \<longrightarrow>
      fst (isTrigger r (snd (trigger_run rs b))) = False \<and> \<not> started (snd (isTrigger r (snd (trigger_run rs b)))))"
proof (intro conjI impI)
  obtain r0 rs' where rs: "rs = r0 # rs'" using assms(3) by (cases rs) auto
  let ?b = "b\<lparr>started := True, last_t := tick1 r0, triggered := False\<rparr>"
  have same: "trigger_run rs b = trigger_run rs ?b"
    using assms(1,2) by (simp add: rs isTrigger_def button_sample_def pin_active_def)
  have "fst (trigger_run rs ?b) ! i \<longleftrightarrow> unat (btn_jitter ?b) \<le> held (last_t ?b) (tick2 (rs ! i)) \<and>
      (\<forall>j < i. held (last_t ?b) (tick2 (rs ! j)) < unat (btn_jitter ?b))"
    by (rule trigger_run_held) (use assms in \<open>simp_all add: rs pin_active_def pressed_throughout_def\<close>)
  then show "fst (trigger_run rs b) ! i \<longleftrightarrow> unat (btn_jitter b) \<le> held (tick1 (hd rs)) (tick2 (rs ! i)) \<and>
      (\<forall>j < i. held (tick1 (hd rs)) (tick2 (rs ! j)) < unat (btn_jitter b))"
    unfolding same by (simp add: rs)
next
  have st: "btn_state (snd (trigger_run rs b)) = btn_state b" by (rule trigger_run_state)
  assume "\<not> pin_active b (pin1 r) \<and> \<not> pin_active b (pin2 r)"
  then have "button_sample r (snd (trigger_run rs b)) = (False, (snd (trigger_run rs b))\<lparr>started := False\<rparr>)"
    by (simp add: button_sample_def pin_active_def st)
  then show "fst (isTrigger r (snd (trigger_run rs b))) = False" "\<not> started (snd (isTrigger r (snd (trigger_run rs b))))"
    by (simp_all add: isTrigger_def)
qed

lemma button_triggers_once_witness:
  "fst (trigger_run [\<lparr>pin1 = 0, pin2 = 0, tick1 = 0xFFFFFFF0, tick2 = 0xFFFFFFF1\<rparr>, \<lparr>pin1 = 0, pin2 = 0, tick1 = 0x20, tick2 = 0x20\<rparr>]
     (Button 64 False 2 30 7)) ! 1"
  by (subst button_triggers_once [THEN conjunct1]) (auto simp: Button_def pressed_throughout_def pin_active_def)

text \<open>A button that is held for 4294968 ticks, about 72 minutes, counts as not pressed again: the product
  of the ticks and 1000 has wrapped around.\<close>

lemma isPress_wraps:
  assumes "started b" "pin_active b (pin1 r)" "pin_active b (pin2 r)" "tick2 r = last_t b + 4294968" "0 < btn_jitter b"
  shows "fst (isPress r b) = False"
  using assms by (simp add: isPress_def button_sample_def held_long_def word_less_nat_alt word_le_nat_alt)
end
