(* ===== verification/SlideWindow.thy ===== *)
theory SlideWindow
  imports Prelude Complex_Main
begin

unbundle bit_operations_syntax

section \<open>Sliding windows (applications/slide_window.h)\<close>

text \<open>
  A window keeps the last values that were pushed in an array and gives their mean once it is full.
  The arithmetic of the type \<open>double\<close> is a parameter: the record \<open>arith\<close> holds the operations that
  the application uses.  The element type of the windows of the application is \<open>double\<close> too.
\<close>

subsection \<open>The arithmetic\<close>

record 'd arith =
  d_add :: "'d \<Rightarrow> 'd \<Rightarrow> 'd"
  d_sub :: "'d \<Rightarrow> 'd \<Rightarrow> 'd"
  d_mul :: "'d \<Rightarrow> 'd \<Rightarrow> 'd"
  d_div :: "'d \<Rightarrow> 'd \<Rightarrow> 'd"
  d_neg :: "'d \<Rightarrow> 'd"
  d_abs :: "'d \<Rightarrow> 'd"
  d_less :: "'d \<Rightarrow> 'd \<Rightarrow> bool"
  d_lit :: "rat \<Rightarrow> 'd"
  d_to_u32 :: "'d \<Rightarrow> u32"

text \<open>The value of an integer, which is exact for the widths that occur.\<close>

abbreviation d_int :: "'d arith \<Rightarrow> int \<Rightarrow> 'd" where
  "d_int A n \<equiv> d_lit A (of_int n)"

subsection \<open>The window\<close>

text \<open>\<open>back_ptr\<close> is the index to which \<open>back_ptr_\<close> points.\<close>

record 'd slide_window =
  mem_len :: u16
  static_array :: "'d list"
  back_ptr :: nat
  is_full :: bool

text \<open>
  The constructor: \<open>array\<close> is what the array holds after the call of \<open>memset\<close>, which clears
  \<open>size\<close> bytes, not \<open>size\<close> elements.
\<close>

definition SlideWindow :: "'d list \<Rightarrow> u16 \<Rightarrow> 'd slide_window" where
  "SlideWindow array size_arg = \<lparr>mem_len = size_arg, static_array = array, back_ptr = 0, is_full = False\<rparr>"

text \<open>The loop that moves every value one place to the front.\<close>

definition shift_down :: "nat \<Rightarrow> 'd list \<Rightarrow> 'd list" where
  "shift_down n xs = foldl (\<lambda>a i. a[i := a ! (i + 1)]) xs [0..<n - 1]"

text \<open>\<open>None\<close> is an access outside the array.\<close>

definition window_push :: "'d \<Rightarrow> 'd slide_window \<Rightarrow> 'd slide_window option" where
  "window_push value w = do {
     require (back_ptr w < length (static_array w) \<and> unat (mem_len w) \<le> length (static_array w));
     (if \<not> is_full w then
        let w1 = w\<lparr>static_array := (static_array w)[back_ptr w := value], back_ptr := back_ptr w + 1\<rparr> in
        if back_ptr w1 \<ge> unat (mem_len w1) then do {
          require (0 < mem_len w1);
          Some (w1\<lparr>is_full := True, back_ptr := unat (mem_len w1) - 1\<rparr>)
        }
        else Some w1
      else
        let a = shift_down (unat (mem_len w)) (static_array w) in
        Some (w\<lparr>static_array := a[back_ptr w := value]\<rparr>))
   }"

definition getFilterValue :: "'d arith \<Rightarrow> 'd slide_window \<Rightarrow> 'd" where
  "getFilterValue A w =
     (if \<not> is_full w then d_int A 0
      else d_div A (foldl (d_add A) (d_int A 0) (take (unat (mem_len w)) (static_array w))) (d_int A (uint (mem_len w))))"

definition isValid :: "'d slide_window \<Rightarrow> bool" where
  "isValid w = is_full w"

subsection \<open>What a window holds\<close>

text \<open>The window after any pushes holds the last of them, oldest first.\<close>

definition window_rep :: "'d slide_window \<Rightarrow> 'd list \<Rightarrow> bool" where
  "window_rep w xs \<longleftrightarrow> 0 < mem_len w \<and> length (static_array w) = unat (mem_len w) \<and>
     (if length xs < unat (mem_len w) then \<not> is_full w \<and> back_ptr w = length xs \<and> take (length xs) (static_array w) = xs
      else is_full w \<and> back_ptr w = unat (mem_len w) - 1 \<and> static_array w = drop (length xs - unat (mem_len w)) xs)"

lemma shift_down_eq: "n = length xs \<Longrightarrow> 0 < n \<Longrightarrow> (shift_down n xs)[n - 1 := v] = tl xs @ [v]"
proof -
  assume n: "n = length xs" "0 < n"
  have "foldl (\<lambda>a i. a[i := a ! (i + 1)]) xs [0..<k] = take k (tl xs) @ drop k xs" if "k < n" for k
    using that
  proof (induction k)
    case (Suc k)
    let ?a = "take k (tl xs) @ drop k xs"
    have l: "length (take k (tl xs)) = k" using Suc.prems n by simp
    have "?a[k := ?a ! (k + 1)] = take k (tl xs) @ (drop k xs)[0 := xs ! (k + 1)]"
      using l Suc.prems n by (simp add: list_update_append nth_append)
    also have "(drop k xs)[0 := xs ! (k + 1)] = xs ! (k + 1) # drop (Suc k) xs"
      using Suc.prems n by (simp add: Cons_nth_drop_Suc [symmetric])
    also have "take k (tl xs) @ xs ! (k + 1) # drop (Suc k) xs = take (Suc k) (tl xs) @ drop (Suc k) xs"
      using Suc.prems n by (simp add: take_Suc_conv_app_nth nth_tl)
    finally show ?case using Suc by simp
  qed simp
  from this [of "n - 1"] have "shift_down n xs = take (n - 1) (tl xs) @ drop (n - 1) xs" using n by (simp add: shift_down_def)
  moreover have "take (n - 1) (tl xs) = tl xs" "drop (n - 1) xs = [last xs]"
    using n by (simp, metis One_nat_def append_butlast_last_id append_eq_conv_conj length_butlast length_0_conv less_numeral_extra(3))
  ultimately show "(shift_down n xs)[n - 1 := v] = tl xs @ [v]" using n by (simp add: list_update_append)
qed

lemma window_push_ok:
  assumes "window_rep w xs"
  shows "\<exists>w'. window_push v w = Some w' \<and> window_rep w' (xs @ [v]) \<and> mem_len w' = mem_len w"
proof -
  let ?n = "unat (mem_len w)" and ?a = "static_array w"
  have n: "0 < ?n" "0 < mem_len w" "length ?a = ?n" using assms by (simp_all add: window_rep_def word_less_nat_alt)
  show ?thesis
  proof (cases "length xs < ?n")
    case True
    then have w: "\<not> is_full w" "back_ptr w = length xs" "take (length xs) ?a = xs"
      using assms by (simp_all add: window_rep_def)
    have t: "take (Suc (length xs)) (?a[length xs := v]) = xs @ [v]" using w(3) True n(3) by (simp add: take_Suc_conv_app_nth)
    show ?thesis
    proof (cases "Suc (length xs) = ?n")
      case True
      then have "?a[length xs := v] = xs @ [v]" using t n(3) by simp
      then have "window_push v w = Some (w\<lparr>static_array := xs @ [v], back_ptr := ?n - 1, is_full := True\<rparr>)"
        using w n True by (simp add: window_push_def)
      then show ?thesis using n True by (auto simp: window_rep_def)
    next
      case False
      then have "window_push v w = Some (w\<lparr>static_array := ?a[length xs := v], back_ptr := Suc (length xs)\<rparr>)"
        using w n True by (simp add: window_push_def)
      then show ?thesis using n w True False t by (auto simp: window_rep_def)
    qed
  next
    case False
    then have w: "is_full w" "back_ptr w = ?n - 1" "?a = drop (length xs - ?n) xs" using assms by (simp_all add: window_rep_def)
    have "(shift_down ?n ?a)[?n - 1 := v] = tl ?a @ [v]" by (rule shift_down_eq) (use n in simp_all)
    then have p: "window_push v w = Some (w\<lparr>static_array := tl ?a @ [v]\<rparr>)" using w n by (simp add: window_push_def)
    have "tl ?a @ [v] = drop (length (xs @ [v]) - ?n) (xs @ [v])"
      using False n(1) unfolding w(3) by (simp add: tl_drop drop_Suc [symmetric] Suc_diff_le)
    then show ?thesis using p n w(1,2) False by (auto simp: window_rep_def)
  qed
qed

fun window_run :: "'d list \<Rightarrow> 'd slide_window \<Rightarrow> 'd slide_window option" where
  "window_run [] w = Some w"
| "window_run (v # vs) w = do { w1 \<leftarrow> window_push v w; window_run vs w1 }"

lemma window_run_ok:
  assumes "window_rep w xs"
  shows "\<exists>w'. window_run vs w = Some w' \<and> window_rep w' (xs @ vs) \<and> mem_len w' = mem_len w"
  using assms
proof (induction vs arbitrary: w xs)
  case (Cons v vs)
  obtain w1 where w1: "window_push v w = Some w1" "window_rep w1 (xs @ [v])" "mem_len w1 = mem_len w"
    using window_push_ok [OF Cons.prems] by blast
  then show ?case using Cons.IH [OF w1(2)] by simp
qed simp

lemma window_init: "0 < n \<Longrightarrow> length array = unat n \<Longrightarrow> window_rep (SlideWindow array n) []"
  by (simp add: window_rep_def SlideWindow_def word_less_nat_alt)

subsection \<open>Properties\<close>

text \<open>C25: After any sequence of pushes into a new window of size \<open>n\<close>, whatever its array held, the window is
  valid exactly when at least \<open>n\<close> values were pushed; then it holds the last \<open>n\<close> of them in the order of
  their pushes and its value is their mean.  Before that its value is 0.\<close>

theorem slide_window_keeps_last:
  assumes "0 < n" "length array = unat n"
  shows "\<exists>w. window_run vs (SlideWindow array n) = Some w \<and> (isValid w \<longleftrightarrow> unat n \<le> length vs) \<and>
    (if unat n \<le> length vs
     then static_array w = drop (length vs - unat n) vs \<and>
       getFilterValue A w = d_div A (foldl (d_add A) (d_int A 0) (drop (length vs - unat n) vs)) (d_int A (uint n))
     else getFilterValue A w = d_int A 0)"
proof -
  obtain w where w: "window_run vs (SlideWindow array n) = Some w" "window_rep w vs" "mem_len w = n"
    using window_run_ok [OF window_init [OF assms]] by (auto simp: SlideWindow_def)
  then show ?thesis by (auto simp: window_rep_def isValid_def getFilterValue_def)
qed

text \<open>The arithmetic of the rational numbers, to have an instance of the parameter.\<close>

definition rat_arith :: "rat arith" where
  "rat_arith = \<lparr>d_add = (+), d_sub = (-), d_mul = (*), d_div = (/), d_neg = uminus, d_abs = abs, d_less = (<), d_lit = id,
     d_to_u32 = (\<lambda>x. word_of_int \<lfloor>x\<rfloor>)\<rparr>"

lemma slide_window_keeps_last_witness:
  "\<exists>w. window_run [1, 2, 3, 5] (SlideWindow [9, 9, 9 :: rat] 3) = Some w \<and> static_array w = [2, 3, 5] \<and> getFilterValue rat_arith w = 10 / 3"
  using slide_window_keeps_last [of 3 "[9, 9, 9]" "[1, 2, 3, 5]" rat_arith] by (auto simp: rat_arith_def)

end
