(* ===== verification/SpeedControl.thy ===== *)
theory SpeedControl
  imports SlideWindow
begin

unbundle bit_operations_syntax

section \<open>Speed control (applications/pid.h, calc_speed.h, pwm.h, main.cpp)\<close>

text \<open>
  The thread of the car that measures the speed of its two wheels with encoders, computes a
  controller for each and sets the duty of the two channels of each motor.
\<close>

subsection \<open>The controller\<close>

record 'd pid =
  pre_err :: 'd
  pid_ref :: 'd
  pid_sum :: 'd
  pid_max :: 'd
  pid_min :: 'd
  pid_p :: 'd
  pid_i :: 'd
  pid_d :: 'd

text \<open>The constructor sets neither the previous error nor the sum: they are what the memory holds.\<close>

definition Pid :: "'d \<Rightarrow> 'd \<Rightarrow> 'd \<Rightarrow> 'd \<Rightarrow> 'd \<Rightarrow> 'd \<Rightarrow> 'd \<Rightarrow> 'd \<Rightarrow> 'd pid" where
  "Pid garbage1 garbage2 ref p i d mx mn =
     \<lparr>pre_err = garbage1, pid_ref = ref, pid_sum = garbage2, pid_max = mx, pid_min = mn, pid_p = p, pid_i = i, pid_d = d\<rparr>"

text \<open>\<open>setRef\<close> is declared to return a value and has no \<open>return\<close>, which C++ leaves undefined; no caller uses the value,
  and this is the assignment that the function makes.\<close>

definition setRef :: "'d \<Rightarrow> 'd pid \<Rightarrow> 'd pid" where
  "setRef ref c = c\<lparr>pid_ref := ref\<rparr>"

definition pid_limit :: "'d arith \<Rightarrow> 'd \<Rightarrow> 'd pid \<Rightarrow> 'd" where
  "pid_limit A out c =
     (let out1 = (if d_less A (pid_max c) out then pid_max c else out)
      in if d_less A out1 (pid_min c) then pid_min c else out1)"

definition pid_calc :: "'d arith \<Rightarrow> 'd \<Rightarrow> 'd pid \<Rightarrow> 'd \<times> 'd pid" where
  "pid_calc A feed c =
     (let err = d_sub A (pid_ref c) feed;
          s1 = d_add A (pid_sum c) err;
          s2 = (if d_less A (d_int A 0) s1
                then (if d_less A (d_int A 100000) s1 then pid_max c else s1)
                else (if d_less A s1 (d_int A (- 100000)) then pid_min c else s1));
          out = d_add A (d_add A (d_mul A (pid_p c) err) (d_mul A (pid_i c) s2)) (d_mul A (pid_d c) (d_sub A (pre_err c) err))
      in (pid_limit A out c, c\<lparr>pid_sum := s2, pre_err := err\<rparr>))"

subsection \<open>The speed of a wheel\<close>

record 'd calc_speed =
  filter_window :: "'d slide_window"
  encode_name :: string
  last_cnt :: u16
  last_time :: u32
  cpr :: u16
  first_call :: bool
  inverse :: "8 word"

text \<open>\<open>None\<close> when the name does not fit into the array of six characters.\<close>

definition CalcSpeed :: "'d list \<Rightarrow> u16 \<Rightarrow> string \<Rightarrow> u16 \<Rightarrow> 'd calc_speed option" where
  "CalcSpeed array n name cnt_per_r =
     (if length name \<le> 6
      then Some \<lparr>filter_window = SlideWindow array n, encode_name = name, last_cnt = 0, last_time = 0, cpr = cnt_per_r,
        first_call = True, inverse = 1\<rparr>
      else None)"

definition speed_setInverse :: "bool \<Rightarrow> 'd calc_speed \<Rightarrow> 'd calc_speed" where
  "speed_setInverse flag s = s\<lparr>inverse := (if flag then - 1 else 1)\<rparr>"

text \<open>
  What a call reads: the counters of the two encoder timers and the tick, for the first call only,
  and then again.  The counter of a timer that \<open>getCounter\<close> does not know is never read.
\<close>

record sample_reads =
  tick_first :: u32
  counters_first :: "int \<Rightarrow> u16"
  counters_now :: "int \<Rightarrow> u16"
  tick_now :: u32

definition timer_of :: "string \<Rightarrow> int option" where
  "timer_of name = (if name = ''htm4'' then Some 4 else if name = ''htm2'' then Some 2 else None)"

definition first_sample :: "sample_reads \<Rightarrow> 'd calc_speed \<Rightarrow> 'd calc_speed" where
  "first_sample r s =
     (if first_call s then
        let s1 = s\<lparr>first_call := False, last_time := tick_first r\<rparr> in
        (case timer_of (encode_name s) of None \<Rightarrow> s1 | Some t \<Rightarrow> s1\<lparr>last_cnt := counters_first r t\<rparr>)
      else s)"

text \<open>The speed in turns per minute; \<open>None\<close> when the counter is read without a value.\<close>

definition speed_rpm :: "'d arith \<Rightarrow> u16 \<Rightarrow> u16 \<Rightarrow> u32 \<Rightarrow> 'd" where
  "speed_rpm A diff_cnt n diff_t =
     d_div A (d_div A (d_mul A (d_mul A (d_int A (sint diff_cnt)) (d_int A 60)) (d_int A 1000)) (d_int A (uint n))) (d_int A (uint diff_t))"

definition speed_calc :: "'d arith \<Rightarrow> sample_reads \<Rightarrow> 'd calc_speed \<Rightarrow> ('d \<times> 'd calc_speed) option" where
  "speed_calc A r s0 = do {
     let s = first_sample r s0;
     now_cnt \<leftarrow> map_option (counters_now r) (timer_of (encode_name s));
     let diff_cnt = now_cnt - last_cnt s;
     let diff_t0 = tick_now r - last_time s;
     let diff_t = (if diff_t0 = 0 then 1 else diff_t0);
     w \<leftarrow> window_push (speed_rpm A diff_cnt (cpr s) diff_t) (filter_window s);
     Some (d_mul A (d_int A (sint (inverse s))) (getFilterValue A w),
       s\<lparr>filter_window := w, last_cnt := now_cnt, last_time := tick_now r\<rparr>)
   }"

definition speed_isValid :: "'d calc_speed \<Rightarrow> bool" where
  "speed_isValid s = isValid (filter_window s)"

subsection \<open>The motors\<close>

text \<open>A call of \<open>rt_pwm_set\<close>: the channel, the period and the length of the pulse, in nanoseconds.\<close>

record pwm_set =
  pwm_channel :: u8
  pwm_period :: u32
  pwm_pulse :: u32

record pwm =
  period :: u32
  channel_cw :: u8
  channel_ccw :: u8
  pwm_inverse :: bool

definition Pwm :: "u32 \<Rightarrow> u8 \<Rightarrow> u8 \<Rightarrow> pwm" where
  "Pwm per cw ccw = \<lparr>period = per, channel_cw = cw, channel_ccw = ccw, pwm_inverse = False\<rparr>"

definition setCW :: "u32 \<Rightarrow> pwm \<Rightarrow> pwm_set list" where
  "setCW pulse m =
     (if \<not> pwm_inverse m then [\<lparr>pwm_channel = channel_cw m, pwm_period = period m, pwm_pulse = pulse\<rparr>,
        \<lparr>pwm_channel = channel_ccw m, pwm_period = period m, pwm_pulse = 0\<rparr>]
      else [\<lparr>pwm_channel = channel_ccw m, pwm_period = period m, pwm_pulse = pulse\<rparr>,
        \<lparr>pwm_channel = channel_cw m, pwm_period = period m, pwm_pulse = 0\<rparr>])"

definition setCCW :: "u32 \<Rightarrow> pwm \<Rightarrow> pwm_set list" where
  "setCCW pulse m =
     (if \<not> pwm_inverse m then [\<lparr>pwm_channel = channel_ccw m, pwm_period = period m, pwm_pulse = pulse\<rparr>,
        \<lparr>pwm_channel = channel_cw m, pwm_period = period m, pwm_pulse = 0\<rparr>]
      else [\<lparr>pwm_channel = channel_cw m, pwm_period = period m, pwm_pulse = pulse\<rparr>,
        \<lparr>pwm_channel = channel_ccw m, pwm_period = period m, pwm_pulse = 0\<rparr>])"

subsection \<open>One round of the thread\<close>

text \<open>\<open>speed\<close> is the array that the last message of the queue was copied to.\<close>

record 'd car =
  car_cnt :: u8
  left_wheel :: "'d calc_speed"
  right_wheel :: "'d calc_speed"
  pleft :: "'d pid"
  pright :: "'d pid"
  left_pwm :: pwm
  right_pwm :: pwm
  speed :: "'d \<times> 'd"

definition wheel_base :: "'d arith \<Rightarrow> 'd" where "wheel_base A = d_lit A (21 / 100)"

definition wheel_radius :: "'d arith \<Rightarrow> 'd" where "wheel_radius A = d_lit A (35 / 1000)"

text \<open>
  The speed of a wheel, in turns per minute, for the speed of the car and how fast it turns;
  \<open>op\<close> is the subtraction for the left wheel and the addition for the right one.
\<close>

definition wheel_speed :: "'d arith \<Rightarrow> ('d \<Rightarrow> 'd \<Rightarrow> 'd) \<Rightarrow> 'd \<times> 'd \<Rightarrow> 'd" where
  "wheel_speed A op v =
     d_div A (d_mul A (d_mul A (d_int A 60) (op (d_mul A (d_int A 2) (fst v)) (d_mul A (wheel_base A) (snd v)))) (d_lit A (1 / 2)))
       (d_mul A (d_mul A (d_int A 2) (d_lit A (314 / 100))) (wheel_radius A))"

definition limit_speed :: "'d arith \<Rightarrow> 'd \<Rightarrow> 'd" where
  "limit_speed A v =
     (if d_less A (d_int A 200) (d_abs A v)
      then (if d_less A (d_int A 0) v then d_int A 200 else d_int A (- 200)) else v)"

definition drive :: "'d arith \<Rightarrow> 'd \<Rightarrow> pwm \<Rightarrow> pwm_set list" where
  "drive A p m =
     (if d_less A (d_int A 0) p then setCW (d_to_u32 A p) m
      else if d_less A p (d_int A 0) then setCCW (d_to_u32 A (d_neg A p)) m
      else setCW 0 m)"

text \<open>
  A round, with the message it finds in the queue, if any.  The last readings are for the two calls
  of \<open>calc\<close> that the printing makes in every hundredth round.
\<close>

record 'd round_reads =
  message :: "('d \<times> 'd) option"
  left_reads :: sample_reads
  right_reads :: sample_reads
  left_print :: sample_reads
  right_print :: sample_reads

definition speed_round :: "'d arith \<Rightarrow> 'd round_reads \<Rightarrow> 'd car \<Rightarrow> (pwm_set list \<times> pwm_set list \<times> 'd car) option" where
  "speed_round A r c0 = do {
     let c = (case message r of None \<Rightarrow> c0 | Some v \<Rightarrow> c0\<lparr>speed := v\<rparr>);
     let left_speed = limit_speed A (wheel_speed A (d_sub A) (speed c));
     let right_speed = limit_speed A (wheel_speed A (d_add A) (speed c));
     let c = c\<lparr>pleft := setRef left_speed (pleft c), pright := setRef right_speed (pright c)\<rparr>;
     (v, l) \<leftarrow> speed_calc A (left_reads r) (left_wheel c);
     let (p, pl) = pid_calc A v (pleft c);
     let c = c\<lparr>left_wheel := l, pleft := pl\<rparr>;
     let lcmds = drive A p (left_pwm c);
     (v, rw) \<leftarrow> speed_calc A (right_reads r) (right_wheel c);
     let (p, pr) = pid_calc A v (pright c);
     let c = c\<lparr>right_wheel := rw, pright := pr\<rparr>;
     let rcmds = drive A p (right_pwm c);
     c \<leftarrow> (if car_cnt c \<ge> 100 then do {
             (_, l) \<leftarrow> speed_calc A (left_print r) (left_wheel c);
             (_, rw) \<leftarrow> speed_calc A (right_print r) (right_wheel c);
             Some (c\<lparr>car_cnt := 0, left_wheel := l, right_wheel := rw\<rparr>)
           } else Some (c\<lparr>car_cnt := car_cnt c + 1\<rparr>));
     Some (lcmds, rcmds, c)
   }"

text \<open>
  The state in which the thread starts.  The arguments are what the memory holds: the arrays of the
  two windows, and the members of the two controllers that nothing sets.
\<close>

definition car_start :: "'d arith \<Rightarrow> 'd list \<Rightarrow> 'd list \<Rightarrow> 'd \<times> 'd \<Rightarrow> 'd \<times> 'd \<Rightarrow> 'd car option" where
  "car_start A left_array right_array gl gr = do {
     l \<leftarrow> CalcSpeed left_array 50 ''htm2'' 30000;
     r \<leftarrow> CalcSpeed right_array 50 ''htm4'' 32000;
     let pl = Pid (fst gl) (snd gl) (d_int A 0) (d_int A 800) (d_int A 2) (d_int A 1) (d_int A 100000) (d_int A (- 100000));
     let pr = Pid (fst gr) (snd gr) (d_int A 0) (d_int A 800) (d_int A 2) (d_int A 1) (d_int A 100000) (d_int A (- 100000));
     Some \<lparr>car_cnt = 0, left_wheel = l, right_wheel = r, pleft = pl, pright = pr,
       left_pwm = Pwm 100000 1 2, right_pwm = Pwm 100000 1 2, speed = (d_int A 0, d_int A 0)\<rparr>
   }"

text \<open>A number of rounds: the commands for the left and the right motor in each.\<close>

fun speed_thread :: "'d arith \<Rightarrow> 'd round_reads list \<Rightarrow> 'd car \<Rightarrow> ((pwm_set list \<times> pwm_set list) list \<times> 'd car) option" where
  "speed_thread A [] c = Some ([], c)"
| "speed_thread A (r # rs) c = do {
     (lcmds, rcmds, c1) \<leftarrow> speed_round A r c;
     (cmds, c2) \<leftarrow> speed_thread A rs c1;
     Some ((lcmds, rcmds) # cmds, c2)
   }"

subsection \<open>Properties of the measurement\<close>

text \<open>
  The encoder counts and the ticks as unbounded numbers: how far a wheel has moved between two
  samples, and how long it took.
\<close>

fun moves :: "int \<times> int \<Rightarrow> (int \<times> int) list \<Rightarrow> (int \<times> int) list" where
  "moves p [] = []"
| "moves p (q # qs) = (fst q - fst p, snd q - snd p) # moves q qs"

definition rpm_of :: "'d arith \<Rightarrow> u16 \<Rightarrow> int \<times> int \<Rightarrow> 'd" where
  "rpm_of A n m = d_div A (d_div A (d_mul A (d_mul A (d_int A (fst m)) (d_int A 60)) (d_int A 1000)) (d_int A (uint n))) (d_int A (snd m))"

definition mean_of :: "'d arith \<Rightarrow> u16 \<Rightarrow> 'd list \<Rightarrow> 'd" where
  "mean_of A n xs =
     (if length xs < unat n then d_int A 0
      else d_div A (foldl (d_add A) (d_int A 0) (drop (length xs - unat n) xs)) (d_int A (uint n)))"

lemma window_value: "window_rep w xs \<Longrightarrow> getFilterValue A w = mean_of A (mem_len w) xs"
  by (auto simp: window_rep_def getFilterValue_def mean_of_def)

definition sampled_at :: "'d calc_speed \<Rightarrow> int \<times> int \<Rightarrow> bool" where
  "sampled_at s p \<longleftrightarrow> \<not> first_call s \<and> last_cnt s = word_of_int (fst p) \<and> last_time s = word_of_int (snd p)"

lemma sint_diff:
  assumes "- 32768 \<le> a - b" "a - b < (32768 :: int)"
  shows "sint (word_of_int a - word_of_int b :: u16) = a - b"
proof -
  have "(word_of_int a - word_of_int b :: u16) = word_of_int (a - b)" by simp
  then show ?thesis using assms by (simp only: sint_sbintrunc') (simp add: signed_take_bit_int_eq_self)
qed

lemma uint_diff:
  assumes "0 \<le> a - b" "a - b < (2 ^ 32 :: int)"
  shows "uint (word_of_int a - word_of_int b :: u32) = a - b"
proof -
  have "(word_of_int a - word_of_int b :: u32) = word_of_int (a - b)" by simp
  then show ?thesis using assms by (simp only: uint_word_of_int) (simp add: mod_pos_pos_trivial)
qed

lemma speed_calc_ok:
  assumes s: "sampled_at s p" "timer_of (encode_name s) = Some t" "window_rep (filter_window s) xs"
    and r: "counters_now r t = word_of_int (fst q)" "tick_now r = word_of_int (snd q)"
    and d: "- 32768 \<le> fst q - fst p" "fst q - fst p < 32768" "0 < snd q - snd p" "snd q - snd p < 2 ^ 32"
  shows "\<exists>s'. speed_calc A r s = Some (d_mul A (d_int A (sint (inverse s)))
      (mean_of A (mem_len (filter_window s)) (xs @ [rpm_of A (cpr s) (fst q - fst p, snd q - snd p)])), s') \<and>
    sampled_at s' q \<and> encode_name s' = encode_name s \<and> inverse s' = inverse s \<and> cpr s' = cpr s \<and>
    window_rep (filter_window s') (xs @ [rpm_of A (cpr s) (fst q - fst p, snd q - snd p)]) \<and>
    mem_len (filter_window s') = mem_len (filter_window s)"
proof -
  have f: "first_sample r s = s" using s(1) by (simp add: first_sample_def sampled_at_def)
  have t: "uint (tick_now r - last_time s) = snd q - snd p" using s(1) r(2) d uint_diff by (simp add: sampled_at_def)
  then have t0: "tick_now r - last_time s \<noteq> 0" using d(3) by (metis less_irrefl unsigned_0)
  have c: "sint (counters_now r t - last_cnt s) = fst q - fst p" using s(1) r(1) d sint_diff by (simp add: sampled_at_def)
  let ?x = "rpm_of A (cpr s) (fst q - fst p, snd q - snd p)"
  have x: "speed_rpm A (counters_now r t - last_cnt s) (cpr s) (tick_now r - last_time s) = ?x"
    by (simp add: speed_rpm_def rpm_of_def t c)
  obtain w where w: "window_push ?x (filter_window s) = Some w" "window_rep w (xs @ [?x])" "mem_len w = mem_len (filter_window s)"
    using window_push_ok [OF s(3)] by blast
  show ?thesis using w s(1,2) r t0 x window_value [OF w(2), of A] by (simp add: speed_calc_def f Let_def sampled_at_def)
qed

fun speed_run :: "'d arith \<Rightarrow> sample_reads list \<Rightarrow> 'd calc_speed \<Rightarrow> ('d list \<times> 'd calc_speed) option" where
  "speed_run A [] s = Some ([], s)"
| "speed_run A (r # rs) s = do { (v, s1) \<leftarrow> speed_calc A r s; (vs, s2) \<leftarrow> speed_run A rs s1; Some (v # vs, s2) }"

text \<open>C24: The speed is right across the wrap-around of the 16-bit counters and of the ticks: when between two
  samples a wheel moves by less than half the range of the counter and time passes, the values of any
  number of calls are the means of the last window of speeds computed from the true, unbounded
  numbers of counts and ticks; before the window is full they are 0.\<close>

theorem speed_is_exact:
  assumes "sampled_at s p" "timer_of (encode_name s) = Some t" "window_rep (filter_window s) xs"
    and "list_all2 (\<lambda>r q. counters_now r t = word_of_int (fst q) \<and> tick_now r = word_of_int (snd q)) rs qs"
    and "\<forall>m \<in> set (moves p qs). - 32768 \<le> fst m \<and> fst m < 32768 \<and> 0 < snd m \<and> snd m < 2 ^ 32"
  shows "\<exists>s'. speed_run A rs s = Some (map (\<lambda>i. d_mul A (d_int A (sint (inverse s)))
      (mean_of A (mem_len (filter_window s)) (xs @ take (i + 1) (map (rpm_of A (cpr s)) (moves p qs))))) [0..<length rs], s')"
  using assms
proof (induction rs arbitrary: s p qs xs)
  case (Cons r rs)
  obtain q qs' where qs: "qs = q # qs'" using Cons.prems(4) by (cases qs) auto
  let ?x = "rpm_of A (cpr s) (fst q - fst p, snd q - snd p)"
  obtain s' where s': "speed_calc A r s = Some (d_mul A (d_int A (sint (inverse s))) (mean_of A (mem_len (filter_window s)) (xs @ [?x])), s')"
    "sampled_at s' q" "encode_name s' = encode_name s" "inverse s' = inverse s" "cpr s' = cpr s"
    "window_rep (filter_window s') (xs @ [?x])" "mem_len (filter_window s') = mem_len (filter_window s)"
    using speed_calc_ok [OF Cons.prems(1-3), of r q A] Cons.prems(4,5) by (auto simp: qs)
  obtain s2 where "speed_run A rs s' = Some (map (\<lambda>i. d_mul A (d_int A (sint (inverse s')))
      (mean_of A (mem_len (filter_window s')) ((xs @ [?x]) @ take (i + 1) (map (rpm_of A (cpr s')) (moves q qs'))))) [0..<length rs], s2)"
    using Cons.IH [OF s'(2) _ s'(6), of qs'] Cons.prems(2,4,5) s'(3) by (auto simp: qs)
  then show ?case using s' by (simp add: qs map_upt_Suc del: upt_Suc)
qed simp

definition sample_wheel :: "rat calc_speed" where
  "sample_wheel = \<lparr>filter_window = SlideWindow [7] 1, encode_name = ''htm2'', last_cnt = 65530, last_time = 0xFFFFFFFB,
     cpr = 30000, first_call = False, inverse = - 1\<rparr>"

lemma speed_is_exact_witness:
  "\<exists>s'. speed_run rat_arith [\<lparr>tick_first = 0, counters_first = (\<lambda>_. 0), counters_now = (\<lambda>_. 10), tick_now = 5\<rparr>] sample_wheel
     = Some ([- 16 / 5], s')"
proof -
  have "window_rep (filter_window sample_wheel) []" by (simp add: sample_wheel_def window_init)
  then show ?thesis
    using speed_is_exact [of sample_wheel "(65530, 4294967291)" 2 "[]"
        "[\<lparr>tick_first = 0, counters_first = (\<lambda>_. 0), counters_now = (\<lambda>_. 10), tick_now = 5\<rparr>]" "[(65546, 4294967301)]" rat_arith]
    by (simp add: sample_wheel_def sampled_at_def timer_of_def SlideWindow_def mean_of_def rpm_of_def rat_arith_def)
qed

subsection \<open>Properties of the control\<close>

text \<open>
  What the control relies on of the arithmetic: comparisons are asymmetric, and conversions of
  numbers between 0 and 100000 to integers do not get larger than that.  Both hold for numbers and
  for results that are not a number, which compare with nothing.
\<close>

definition arith_ok :: "'d arith \<Rightarrow> bool" where
  "arith_ok A \<longleftrightarrow> (\<forall>x y. d_less A x y \<longrightarrow> \<not> d_less A y x) \<and> d_less A (d_int A (- 100000)) (d_int A 100000) \<and>
     d_less A (d_int A (- 200)) (d_int A 200) \<and>
     (\<forall>x. \<not> d_less A (d_int A 200) (d_abs A x) \<longrightarrow> \<not> d_less A (d_int A 200) x \<and> \<not> d_less A x (d_int A (- 200))) \<and>
     (\<forall>x. d_less A (d_int A 0) x \<longrightarrow> \<not> d_less A (d_int A 100000) x \<longrightarrow> d_to_u32 A x \<le> 100000) \<and>
     (\<forall>x. d_less A x (d_int A 0) \<longrightarrow> \<not> d_less A x (d_int A (- 100000)) \<longrightarrow> d_to_u32 A (d_neg A x) \<le> 100000)"

lemma arith_okD:
  assumes "arith_ok A"
  shows "d_less A x y \<Longrightarrow> \<not> d_less A y x" "\<not> d_less A x x"
    "\<not> d_less A (d_int A 100000) (d_int A (- 100000))" "\<not> d_less A (d_int A 200) (d_int A (- 200))"
    "\<not> d_less A (d_int A 200) (d_abs A x) \<Longrightarrow> \<not> d_less A (d_int A 200) x"
    "\<not> d_less A (d_int A 200) (d_abs A x) \<Longrightarrow> \<not> d_less A x (d_int A (- 200))"
    "d_less A (d_int A 0) x \<Longrightarrow> \<not> d_less A (d_int A 100000) x \<Longrightarrow> d_to_u32 A x \<le> 100000"
    "d_less A x (d_int A 0) \<Longrightarrow> \<not> d_less A x (d_int A (- 100000)) \<Longrightarrow> d_to_u32 A (d_neg A x) \<le> 100000"
  using assms unfolding arith_ok_def by blast+

lemma pid_calc_bounded:
  assumes "arith_ok A" "pid_max c = d_int A 100000" "pid_min c = d_int A (- 100000)"
  shows "\<not> d_less A (d_int A 100000) (fst (pid_calc A feed c)) \<and> \<not> d_less A (fst (pid_calc A feed c)) (d_int A (- 100000))"
proof -
  have "\<not> d_less A (pid_max c) (pid_limit A out c) \<and> \<not> d_less A (pid_limit A out c) (pid_min c)" for out
    using arith_okD(2,3) [OF assms(1)] assms(2,3) by (simp add: pid_limit_def Let_def)
  then show ?thesis unfolding pid_calc_def Let_def fst_conv assms(2,3) .
qed

lemma limit_speed_bounded:
  assumes "arith_ok A"
  shows "\<not> d_less A (d_int A 200) (limit_speed A v) \<and> \<not> d_less A (limit_speed A v) (d_int A (- 200))"
proof (cases "d_less A (d_int A 200) (d_abs A v)")
  case True
  then have "limit_speed A v = d_int A 200 \<or> limit_speed A v = d_int A (- 200)" unfolding limit_speed_def by simp
  then show ?thesis
  proof
    assume e: "limit_speed A v = d_int A 200"
    show ?thesis unfolding e by (intro conjI arith_okD(2,4) [OF assms])
  next
    assume e: "limit_speed A v = d_int A (- 200)"
    show ?thesis unfolding e by (intro conjI arith_okD(2,4) [OF assms])
  qed
next
  case False
  then have "limit_speed A v = v" unfolding limit_speed_def by (rule if_not_P)
  then show ?thesis using arith_okD(5,6) [OF assms False] by simp
qed

text \<open>The two commands that a round gives a motor.\<close>

definition motor_safe :: "pwm \<Rightarrow> pwm_set list \<Rightarrow> bool" where
  "motor_safe m cmds \<longleftrightarrow> (\<exists>a b. cmds = [a, b] \<and> {pwm_channel a, pwm_channel b} = {channel_cw m, channel_ccw m} \<and>
     pwm_period a = period m \<and> pwm_period b = period m \<and> pwm_pulse a \<le> period m \<and> pwm_pulse b = 0)"

lemma drive_safe:
  assumes "arith_ok A" "period m = 100000" "\<not> d_less A (d_int A 100000) p" "\<not> d_less A p (d_int A (- 100000))"
  shows "motor_safe m (drive A p m)"
proof -
  have 1: "d_to_u32 A p \<le> 100000" if "d_less A (d_int A 0) p" using arith_okD(7) [OF assms(1) that assms(3)] .
  have 2: "d_to_u32 A (d_neg A p) \<le> 100000" if "d_less A p (d_int A 0)" using arith_okD(8) [OF assms(1) that assms(4)] .
  show ?thesis using 1 2 by (simp add: drive_def motor_safe_def setCW_def setCCW_def assms(2) insert_commute)
qed

definition wheel_ok :: "'d calc_speed \<Rightarrow> bool" where
  "wheel_ok w \<longleftrightarrow> timer_of (encode_name w) \<noteq> None \<and> (\<exists>xs. window_rep (filter_window w) xs)"

definition car_ok :: "'d arith \<Rightarrow> 'd car \<Rightarrow> bool" where
  "car_ok A c \<longleftrightarrow> (\<forall>pc \<in> {pleft c, pright c}. pid_max pc = d_int A 100000 \<and> pid_min pc = d_int A (- 100000)) \<and>
     left_pwm c = Pwm 100000 1 2 \<and> right_pwm c = Pwm 100000 1 2 \<and>
     wheel_ok (left_wheel c) \<and> wheel_ok (right_wheel c)"

lemma first_sample_fields [simp]:
  "encode_name (first_sample r s) = encode_name s" "filter_window (first_sample r s) = filter_window s"
  by (simp_all add: first_sample_def Let_def split: option.split)

lemma speed_calc_total:
  assumes "wheel_ok w"
  obtains v w' where "speed_calc A r w = Some (v, w')" "wheel_ok w'"
proof -
  obtain t xs where t: "timer_of (encode_name w) = Some t" "window_rep (filter_window w) xs" using assms by (auto simp: wheel_ok_def)
  define x where "x = speed_rpm A (counters_now r t - last_cnt (first_sample r w)) (cpr (first_sample r w))
    (if tick_now r - last_time (first_sample r w) = 0 then 1 else tick_now r - last_time (first_sample r w))"
  obtain w' where "window_push x (filter_window w) = Some w'" "window_rep w' (xs @ [x])" using window_push_ok [OF t(2)] by blast
  then show ?thesis using t(1) by (intro that) (auto simp: speed_calc_def Let_def x_def [symmetric] wheel_ok_def simp del: right_minus_eq)
qed

lemma pid_calc_limits [simp]:
  "pid_max (snd (pid_calc A v c)) = pid_max c" "pid_min (snd (pid_calc A v c)) = pid_min c" "pid_ref (snd (pid_calc A v c)) = pid_ref c"
  by (simp_all add: pid_calc_def Let_def)

text \<open>A round keeps what it relies on.\<close>

lemma speed_round_safe:
  assumes "arith_ok A" "car_ok A c"
  shows "\<exists>l r c'. speed_round A reads c = Some (l, r, c') \<and> car_ok A c' \<and>
    motor_safe (Pwm 100000 1 2) l \<and> motor_safe (Pwm 100000 1 2) r \<and>
    (\<forall>pc \<in> {pleft c', pright c'}. \<not> d_less A (d_int A 200) (pid_ref pc) \<and> \<not> d_less A (pid_ref pc) (d_int A (- 200)))"
proof -
  define c1 where "c1 = (case message reads of None \<Rightarrow> c | Some v \<Rightarrow> c\<lparr>speed := v\<rparr>)"
  let ?L = "limit_speed A (wheel_speed A (d_sub A) (speed c1))" and ?R = "limit_speed A (wheel_speed A (d_add A) (speed c1))"
  have c1: "car_ok A c1" "left_pwm c1 = left_pwm c" "right_pwm c1 = right_pwm c"
    using assms(2) by (simp_all add: c1_def car_ok_def split: option.split)
  have lim: "\<And>p. pid_max p = d_int A 100000 \<and> pid_min p = d_int A (- 100000) \<Longrightarrow>
      \<not> d_less A (d_int A 100000) (fst (pid_calc A v p)) \<and> \<not> d_less A (fst (pid_calc A v p)) (d_int A (- 100000))" for v
    using pid_calc_bounded [OF assms(1)] by blast
  obtain v l where l: "speed_calc A (left_reads reads) (left_wheel c1) = Some (v, l)" "wheel_ok l"
    using speed_calc_total c1(1) unfolding car_ok_def by blast
  obtain u rw where rw: "speed_calc A (right_reads reads) (right_wheel c1) = Some (u, rw)" "wheel_ok rw"
    using speed_calc_total c1(1) unfolding car_ok_def by blast
  obtain v2 l2 where l2: "speed_calc A (left_print reads) l = Some (v2, l2)" "wheel_ok l2"
    by (rule speed_calc_total [OF l(2)])
  obtain u2 rw2 where rw2: "speed_calc A (right_print reads) rw = Some (u2, rw2)" "wheel_ok rw2"
    by (rule speed_calc_total [OF rw(2)])
  let ?pl = "setRef ?L (pleft c1)" and ?pr = "setRef ?R (pright c1)"
  obtain c' where c': "speed_round A reads c = Some (drive A (fst (pid_calc A v ?pl)) (left_pwm c),
      drive A (fst (pid_calc A u ?pr)) (right_pwm c), c')"
    "pleft c' = snd (pid_calc A v ?pl)" "pright c' = snd (pid_calc A u ?pr)"
    "left_pwm c' = left_pwm c" "right_pwm c' = right_pwm c" "wheel_ok (left_wheel c')" "wheel_ok (right_wheel c')"
  proof (cases "car_cnt c1 \<ge> 100")
    case True
    show ?thesis
      by (rule that [of "c1\<lparr>pleft := snd (pid_calc A v ?pl), pright := snd (pid_calc A u ?pr), car_cnt := 0, left_wheel := l2, right_wheel := rw2\<rparr>"])
        (use True l(1) rw(1) l2 rw2 c1 in \<open>simp_all add: speed_round_def Let_def c1_def [symmetric] split_beta setRef_def\<close>)
  next
    case False
    show ?thesis
      by (rule that [of "c1\<lparr>pleft := snd (pid_calc A v ?pl), pright := snd (pid_calc A u ?pr), car_cnt := car_cnt c1 + 1, left_wheel := l, right_wheel := rw\<rparr>"])
        (use False l rw c1 in \<open>simp_all add: speed_round_def Let_def c1_def [symmetric] split_beta setRef_def\<close>)
  qed
  have m: "pid_max p = d_int A 100000 \<and> pid_min p = d_int A (- 100000)" if "p \<in> {?pl, ?pr}" for p
    using that c1(1) by (auto simp: car_ok_def setRef_def)
  have "motor_safe (left_pwm c) (drive A (fst (pid_calc A v ?pl)) (left_pwm c))"
    "motor_safe (right_pwm c) (drive A (fst (pid_calc A u ?pr)) (right_pwm c))"
    using drive_safe [OF assms(1)] lim [OF m] assms(2) by (auto simp: car_ok_def Pwm_def)
  moreover have "car_ok A c'" 
    using c'(2-7) m assms(2) by (simp add: car_ok_def wheel_ok_def)
  moreover have "pid_ref (pleft c') = ?L" "pid_ref (pright c') = ?R" using c'(2,3) by (simp_all add: setRef_def)
  moreover have "left_pwm c = Pwm 100000 1 2" "right_pwm c = Pwm 100000 1 2" using assms(2) by (simp_all add: car_ok_def)
  ultimately show ?thesis using c'(1) limit_speed_bounded [OF assms(1)] by (metis insert_iff singletonD)
qed

lemma car_start_ok:
  assumes "length xs = 50" "length ys = 50"
  shows "\<exists>c. car_start A xs ys gl gr = Some c \<and> car_ok A c"
  using assms window_init [of 50] by (auto simp: car_start_def car_ok_def wheel_ok_def CalcSpeed_def Pid_def timer_of_def)

lemma speed_thread_ok:
  assumes "arith_ok A" "car_ok A c"
  shows "\<exists>cmds c'. speed_thread A rs c = Some (cmds, c') \<and> length cmds = length rs \<and>
    (\<forall>(l, r) \<in> set cmds. motor_safe (Pwm 100000 1 2) l \<and> motor_safe (Pwm 100000 1 2) r)"
  using assms(2)
proof (induction rs arbitrary: c)
  case (Cons r rs)
  obtain l r' c1 where "speed_round A r c = Some (l, r', c1)" "car_ok A c1" "motor_safe (Pwm 100000 1 2) l" "motor_safe (Pwm 100000 1 2) r'"
    using speed_round_safe [OF assms(1) Cons.prems] by blast
  then show ?case using Cons.IH [of c1] by fastforce
qed simp

text \<open>C23: Whatever commands arrive, whatever the encoders read and however many rounds the control thread
  runs, it ends every round without an access outside an array, and in every round it sets each motor
  to a pulse that is not longer than the period on one of its channels and to 0 on the other.  What
  the members of the controllers that nothing initialises hold does not matter for this.\<close>

theorem speed_thread_safe:
  assumes "arith_ok A" "length xs = 50" "length ys = 50"
  shows "\<exists>c cmds c'. car_start A xs ys gl gr = Some c \<and> speed_thread A rs c = Some (cmds, c') \<and> length cmds = length rs \<and>
    (\<forall>(l, r) \<in> set cmds. motor_safe (Pwm 100000 1 2) l \<and> motor_safe (Pwm 100000 1 2) r)"
proof -
  obtain c where c: "car_start A xs ys gl gr = Some c" "car_ok A c" using car_start_ok [OF assms(2,3)] by blast
  then show ?thesis using speed_thread_ok [OF assms(1) c(2), of rs] by blast
qed

definition sample_read :: sample_reads where
  "sample_read = \<lparr>tick_first = 3, counters_first = (\<lambda>_. 0), counters_now = (\<lambda>_. 0xFFF0), tick_now = 4\<rparr>"

lemma rat_arith_ok: "arith_ok rat_arith"
proof -
  have u: "word_of_int \<lfloor>x\<rfloor> \<le> (100000 :: u32)" if "0 < x" "x \<le> 100000" for x :: rat
  proof -
    have "0 \<le> \<lfloor>x\<rfloor>" "\<lfloor>x\<rfloor> \<le> 100000" using that by (simp_all add: le_floor_iff floor_le_iff)
    then show ?thesis by (simp add: word_le_def uint_word_of_int mod_pos_pos_trivial)
  qed
  have "x < 0 \<Longrightarrow> - 100000 \<le> x \<Longrightarrow> word_of_int \<lfloor>- x\<rfloor> \<le> (100000 :: u32)" for x :: rat using u [of "- x"] by simp
  then show ?thesis using u by (auto simp: arith_ok_def rat_arith_def)
qed

lemma speed_thread_safe_witness:
  "\<exists>c l r c'. car_start rat_arith (replicate 50 7) (replicate 50 7) (5, - 7) (0, 1) = Some c \<and>
     speed_thread rat_arith [\<lparr>message = Some (9, - 3), left_reads = sample_read, right_reads = sample_read,
       left_print = sample_read, right_print = sample_read\<rparr>] c = Some ([(l, r)], c') \<and> motor_safe (Pwm 100000 1 2) l"
  using speed_thread_safe [OF rat_arith_ok, of "replicate 50 7" "replicate 50 7" "(5, - 7)" "(0, 1)"
      "[\<lparr>message = Some (9, - 3), left_reads = sample_read, right_reads = sample_read, left_print = sample_read, right_print = sample_read\<rparr>]"]
  by (fastforce simp: length_Suc_conv)

end
