(* ===== verification/Receiver.thy ===== *)
theory Receiver
  imports Heap MsgQueue
begin
unbundle bit_operations_syntax

section \<open>Receiving commands (applications/tcpserver_esp8266.cpp)\<close>

text \<open>
  The wireless module announces data with a line \<open>+IPD,<connection>,<length>:\<close>; the handler of that
  line allocates a buffer, reads the bytes into it and passes them on, and the callback puts the
  first 16 of them, the two numbers of a command, into the message queue of the speed thread.  The
  bytes that still come from the module are an argument; they end where the time for reading ends.
\<close>

definition app_mq :: nat where
  "app_mq = 0"

abbreviation COMMAND_SIZE :: u32 where "COMMAND_SIZE \<equiv> 16"

text \<open>The set-up of the queue: the pool has 32 bytes, headers included.\<close>

definition app_queue_init :: "(nat \<Rightarrow> u8 list) \<Rightarrow> kernel \<Rightarrow> (rt_err \<times> kernel) option" where
  "app_queue_init mem k = rt_mq_init app_mq [109, 113, 116, 0] mem COMMAND_SIZE (2 * COMMAND_SIZE) RT_IPC_FLAG_FIFO k"

subsection \<open>Bytes in the heap's area\<close>

definition heap_read :: "u32 \<Rightarrow> nat \<Rightarrow> heap \<Rightarrow> u8 list" where
  "heap_read p n h = map (\<lambda>i. heap_bytes h (p + of_nat i)) [0..<n]"

definition heap_write :: "u32 \<Rightarrow> u8 list \<Rightarrow> heap \<Rightarrow> heap" where
  "heap_write p bs h =
     h\<lparr>heap_bytes := (\<lambda>a. if unat (a - p) < length bs then bs ! unat (a - p) else heap_bytes h a)\<rparr>"

subsection \<open>The callback\<close>

text \<open>Writing through a null pointer halts the processor: \<open>None\<close>.\<close>

definition recvCb :: "u32 \<Rightarrow> u32 \<Rightarrow> heap_state \<Rightarrow> (heap_result \<times> heap_state) option" where
  "recvCb data size_arg s = do {
     (r, h, k) \<leftarrow> rt_malloc size_arg s;
     (case r of
        Heap_blocked \<Rightarrow> Some (Heap_blocked, h, k)
      | Mem buff \<Rightarrow> do {
          require (buff \<noteq> 0 \<or> size_arg = 0);
          let h1 = heap_copy buff data size_arg h;
          if size_arg < COMMAND_SIZE then rt_free buff (h1, k)
          else do {
            (_, k1) \<leftarrow> rt_mq_urgent app_mq (heap_read buff (unat COMMAND_SIZE) h1) COMMAND_SIZE k;
            rt_free buff (h1, k1)
          }
        })
   }"

subsection \<open>The line of the module\<close>

text \<open>\<open>sscanf\<close> with \<open>%d\<close>: white space, a sign and digits; \<open>None\<close> when there is no number.\<close>

definition is_space :: "u8 \<Rightarrow> bool" where
  "is_space c \<longleftrightarrow> c = 32 \<or> 9 \<le> c \<and> c \<le> 13"

definition is_digit :: "u8 \<Rightarrow> bool" where
  "is_digit c \<longleftrightarrow> 48 \<le> c \<and> c \<le> 57"

definition scan_int :: "u8 list \<Rightarrow> (int \<times> u8 list) option" where
  "scan_int s =
     (let s1 = dropWhile is_space s;
          neg = (s1 \<noteq> [] \<and> hd s1 = 45);
          s2 = (if s1 \<noteq> [] \<and> (hd s1 = 45 \<or> hd s1 = 43) then tl s1 else s1);
          v = foldl (\<lambda>n c. n * 10 + (uint c - 48)) 0 (takeWhile is_digit s2)
      in if s2 = [] \<or> \<not> is_digit (hd s2) then None
         else Some (if neg then - v else v, dropWhile is_digit s2))"

text \<open>The two numbers of the line, 0 where the line does not have them.\<close>

definition scan_ipd :: "u8 list \<Rightarrow> int \<times> u32" where
  "scan_ipd line =
     (if take 5 line \<noteq> [43, 73, 80, 68, 44] then (0, 0)
      else case scan_int (drop 5 line) of
        None \<Rightarrow> (0, 0)
      | Some (d, s) \<Rightarrow>
          if s = [] \<or> hd s \<noteq> 44 then (d, 0)
          else (case scan_int (tl s) of None \<Rightarrow> (d, 0) | Some (n, _) \<Rightarrow> (d, word_of_int n)))"

subsection \<open>Reading from the module\<close>

text \<open>\<open>at_client_obj_recv\<close>: all of the bytes or, when they do not come in time, 0; the bytes that did come
  are in the buffer.  The results are the count, the bytes in the buffer and the bytes left.\<close>

definition at_client_obj_recv :: "u32 \<Rightarrow> u8 list \<Rightarrow> u32 \<times> u8 list \<times> u8 list" where
  "at_client_obj_recv n input =
     (if unat n \<le> length input then (n, take (unat n) input, drop (unat n) input) else (0, input, []))"

text \<open>Reading and discarding what nothing could be allocated for, eight bytes at a time.\<close>

partial_function (option) discard :: "u32 \<Rightarrow> u32 \<Rightarrow> u8 list \<Rightarrow> u8 list option" where
  "discard temp_size bfsz input =
     (if temp_size < bfsz then
        (case at_client_obj_recv (if bfsz - temp_size > 8 then 8 else bfsz - temp_size) input of
           (_, _, rest) \<Rightarrow> discard (temp_size + 8) bfsz rest)
      else Some input)"

definition urc_recv_func :: "u8 list \<Rightarrow> u8 list \<Rightarrow> heap_state \<Rightarrow> (heap_result \<times> u8 list \<times> heap_state) option" where
  "urc_recv_func line input s = do {
     require (line \<noteq> []);
     let (device_socket, bfsz) = scan_ipd line;
     if device_socket < 0 \<or> bfsz = 0 then Some (Mem 0, input, s)
     else do {
       (r, h, k) \<leftarrow> rt_calloc 1 bfsz s;
       (case r of
          Heap_blocked \<Rightarrow> Some (Heap_blocked, input, h, k)
        | Mem recv_buf \<Rightarrow>
            if recv_buf = 0 then do {
              rest \<leftarrow> discard 0 bfsz input;
              Some (Mem 0, rest, h, k)
            }
            else (case at_client_obj_recv bfsz input of (n, bs, rest) \<Rightarrow>
              let h1 = heap_write recv_buf bs h in
              if n \<noteq> bfsz then do {
                (r1, s1) \<leftarrow> rt_free recv_buf (h1, k);
                Some (r1, rest, s1)
              }
              else do {
                (r1, s1) \<leftarrow> recvCb recv_buf bfsz (h1, k);
                Some (r1, rest, s1)
              }))
     }
   }"

end
