(* ===== verification/ReceiverProps.thy ===== *)
theory ReceiverProps
  imports HeapCalls Receiver MsgQueueProps HeapProps
begin
unbundle bit_operations_syntax

section \<open>Receiving commands: what is handed on and what is lost\<close>

text \<open>
  The receive path composed of the heap, the message queue and the handler: what a complete
  reception does to the queue and to the heap.
\<close>

lemma calm_woken:
  assumes c: "heap_calm k" and w: "woken_first (Suspended (OMsgQueue m)) (upd_mq m f k) k'"
  shows "heap_calm k'"
proof -
  let ?k = "upd_mq m f k"
  have fr: "sems k' = sems k" "interrupt_nest k' = interrupt_nest k"
    using w kframeD(1,11) [of ?k k'] by (simp_all add: woken_first_def upd_mq_def)
  have q: "queues k' (Suspended (OSem heap_sem)) = queues k (Suspended (OSem heap_sem))"
    using w by (auto simp: woken_first_def wakes_def upd_mq_def split: list.splits)
  show ?thesis using c fr q by (simp add: heap_calm_def)
qed

lemma heap_write_fields [simp]:
  "heap_ptr (heap_write p bs h) = heap_ptr h" "heap_rep (heap_write p bs h) xs = heap_rep h xs"
  "lfree (heap_write p bs h) = lfree h" "lfree (heap_fill p v n h) = lfree h"
  "heap_ptr (heap_fill p v n h) = heap_ptr h" "heap_rep (heap_fill p v n h) xs = heap_rep h xs"
  by (simp_all add: heap_write_def heap_fill_def heap_rep_def heap_laid_def heap_frame_def)

lemma heap_read_written:
  assumes "n \<le> length bs" "length bs < 2 ^ 32"
  shows "heap_read p n (heap_write p bs h) = take n bs"
proof (rule nth_equalityI)
  fix i assume "i < length (heap_read p n (heap_write p bs h))"
  then have "i < n" by (simp add: heap_read_def)
  then show "heap_read p n (heap_write p bs h) ! i = take n bs ! i"
    using assms unat_u32 [of i] by (simp add: heap_read_def heap_write_def)
qed (use assms in \<open>simp add: heap_read_def\<close>)

lemma discard_ends:
  assumes "unat bfsz \<le> 2 ^ 32 - 8"
  shows "\<exists>rest. discard temp_size bfsz input = Some rest"
proof (induction "unat bfsz - unat temp_size" arbitrary: temp_size input rule: less_induct)
  case less
  show ?case
  proof (cases "temp_size < bfsz")
    case True
    obtain n b rest where a: "at_client_obj_recv (if bfsz - temp_size > 8 then 8 else bfsz - temp_size) input = (n, b, rest)"
      by (cases "at_client_obj_recv (if bfsz - temp_size > 8 then 8 else bfsz - temp_size) input") blast
    have lt: "unat temp_size < unat bfsz" using True by (simp add: word_less_nat_alt)
    then have "unat (temp_size + 8) = unat temp_size + 8" using assms by (simp add: unat_word_ariths)
    then have "unat bfsz - unat (temp_size + 8) < unat bfsz - unat temp_size" using lt by simp
    from less [OF this, of rest] show ?thesis using True a by (subst discard.simps) simp
  next
    case False
    then show ?thesis by (subst discard.simps) simp
  qed
qed

lemma copied_read:
  assumes "unat q + unat n \<le> 2 ^ 32" "m \<le> unat n"
  shows "heap_read q m (heap_copy q p n h) = heap_read p m h"
  using copied_bytes(1) [OF assms(1)] assms(2) by (simp add: heap_read_def)

text \<open>The queue of the car, with nobody in the middle of a call.\<close>

definition app_ready :: "kernel \<Rightarrow> bool" where
  "app_ready k \<longleftrightarrow> heap_calm k \<and> kinv k \<and> rt_current_thread k \<noteq> None \<and> is_mq k app_mq \<and>
     mq_wf (msgqueues k app_mq) \<and> msg_size (msgqueues k app_mq) = 16"

text \<open>The callback: without memory for its copy it writes through a null pointer; with it, it hands on the
  first 16 bytes and releases the copy.\<close>

lemma recvCb_null:
  "rt_malloc n (h, k) = Some (Mem 0, h, k) \<Longrightarrow> n \<noteq> 0 \<Longrightarrow> recvCb data n (h, k) = None"
  by (simp add: recvCb_def require_def)

lemma app_urgent:
  assumes "app_ready k" "length b = 16"
  obtains oc k' where "rt_mq_urgent app_mq b 16 k = Some (oc, k')" "heap_calm k'"
    "if mq_has_room k app_mq then \<exists>pad. messages k' app_mq = (b @ pad) # messages k app_mq else k' = k"
proof -
  have q: "kinv k" "rt_current_thread k \<noteq> None" "is_mq k app_mq" "mq_wf (msgqueues k app_mq)" and c: "heap_calm k"
    and sz: "msg_size (msgqueues k app_mq) = 16" using assms(1) by (simp_all add: app_ready_def)
  have ne: "(16 :: u32) \<noteq> 0" and lb: "unat (16 :: u32) \<le> length b" using assms(2) by simp_all
  obtain oc k' where u: "rt_mq_urgent app_mq b 16 k = Some (oc, k')"
    "if 16 > (ucast (msg_size (msgqueues k app_mq)) :: u32) then oc = Returned (- RT_ERROR) \<and> k' = k
     else if mq_has_room k app_mq then oc = Returned RT_EOK \<and> kinv k' \<and> mq_wf (msgqueues k' app_mq) \<and>
       (\<exists>pad. messages k' app_mq = (take (unat (16 :: u32)) b @ pad) # messages k app_mq) \<and>
       (\<exists>f. woken_first (Suspended (OMsgQueue app_mq)) (upd_mq app_mq f k) k')
     else oc = Returned (- RT_EFULL) \<and> k' = k"
    using rt_mq_urgent_correct [OF q ne lb] by blast
  then show ?thesis using that calm_woken [OF c] c sz assms(2) by (auto split: if_splits)
qed

lemma recvCb_ok:
  assumes h: "heap_rep h bs" "app_ready k" and n: "16 \<le> n" "unat n + 3 < 2 ^ 32"
    and m: "rt_malloc n (h, k) = Some (Mem (adr h (j + 12)), h1, k)" "heap_rep h1 bs1" "same_area h h1"
    "adr h (j + 12) \<noteq> 0" "used_blocks bs1 = insert (j, l) (used_blocks bs)" "(j, l) \<notin> used_blocks bs" "unat (rt_align n) + 12 \<le> l"
  shows "\<exists>h' k' bs'. recvCb data n (h, k) = Some (Mem 0, h', k') \<and> heap_rep h' bs' \<and> used_blocks bs' = used_blocks bs \<and> heap_ptr h' = heap_ptr h \<and>
    (if mq_has_room k app_mq then \<exists>pad. messages k' app_mq = (heap_read data 16 h @ pad) # messages k app_mq else k' = k)"
proof -
  let ?q = "adr h (j + 12)"
  let ?h2 = "heap_copy ?q data n h1" and ?b = "heap_read ?q 16 (heap_copy ?q data n h1)"
  have a: "heap_ptr h1 = heap_ptr h" "heap_bytes h1 = heap_bytes h" using m(3) by (simp_all add: same_area_def)
  have "bsize bs1 = heap_size h1 + 12" "heap_frame h1" using m(2) by (simp_all add: heap_rep_def heap_laid_def)
  then have jl: "j + l \<le> heap_size h1 + 12" "heap_frame h1" using used_from_room [of j l 0 bs1] m(5) by auto
  have ge: "unat n \<le> unat (rt_align n)" by (rule rt_align_ge [OF n(2)])
  have "j + 12 \<le> heap_size h1 + 12" using jl(1) m(7) by linarith
  from heap_frame_bounds(2) [OF jl(2) this] have "unat ?q = unat (heap_ptr h) + (j + 12)" unfolding a(1) .
  then have room: "unat ?q + unat n \<le> 2 ^ 32"
    using heap_frame_bounds(3) [OF jl(2,1)] m(7) ge unfolding a(1) by linarith
  have b: "?b = heap_read data 16 h"
    using copied_read [OF room, of 16 data h1] n(1) by (simp add: word_le_nat_alt heap_read_def a(2))
  have "length ?b = 16" by (simp add: heap_read_def)
  then obtain oc k' where u: "rt_mq_urgent app_mq ?b 16 k = Some (oc, k')" "heap_calm k'"
    "if mq_has_room k app_mq then \<exists>pad. messages k' app_mq = (?b @ pad) # messages k app_mq else k' = k"
    by (rule app_urgent [OF h(2)])
  have rep: "heap_rep ?h2 bs1" using m(2) by simp
  have jm: "(j, l) \<in> used_blocks bs1" using m(5) by simp
  obtain h' bs' where f: "rt_free (adr ?h2 (j + 12)) (?h2, k') = Some (Mem 0, h', k')" "heap_rep h' bs'" "same_area ?h2 h'"
    "used_blocks bs' = used_blocks bs1 - {(j, l)}"
    using rt_free_block [OF rep u(2) jm] by blast
  have "recvCb data n (h, k) = Some (Mem 0, h', k')"
    using m(1,4) u(1) f(1) a(1) leD [OF n(1)] by (simp add: recvCb_def Let_def)
  moreover have "used_blocks bs' = used_blocks bs" using f(4) m(5,6) by blast
  moreover have "heap_ptr h' = heap_ptr h" using f(3) a(1) by (simp add: same_area_def)
  ultimately show ?thesis using f(2) u(3) unfolding b by blast
qed

text \<open>C22: A complete reception of at least 16 bytes, while the heap has a free block for two copies of them,
  hands the first 16 bytes on to the front of the command queue, or drops them when the queue is
  full; and it never releases its buffer: of the blocks in use all stay, and one large enough for
  the bytes is added.\<close>

theorem reception_leaks_buffer:
  assumes "heap_rep h bs" "lfree_lowest h bs" "app_ready k" "(m, False) \<in> set bs" "2 * block_need n < m"
    and "scan_ipd line = (d, n)" "0 \<le> d" "16 \<le> n" "unat n + 3 < 2 ^ 32" "unat n \<le> length input"
  shows "\<exists>h' k' bs' j l. urc_recv_func line input (h, k) = Some (Mem 0, drop (unat n) input, h', k') \<and> heap_rep h' bs' \<and>
    used_blocks bs' = insert (j, l) (used_blocks bs) \<and> (j, l) \<notin> used_blocks bs \<and> unat n + 12 \<le> l \<and>
    (if mq_has_room k app_mq then \<exists>pad. messages k' app_mq = (take 16 input @ pad) # messages k app_mq else k' = k)"
proof -
  have calm: "heap_calm k" using assms(3) by (simp add: app_ready_def)
  have line: "line \<noteq> []" using assms(6,8) by (auto simp: scan_ipd_def word_le_nat_alt)
  have n0: "n \<noteq> 0" using assms(8) by (auto simp: word_le_nat_alt)
  have recv: "at_client_obj_recv n input = (n, take (unat n) input, drop (unat n) input)"
    using assms(10) by (simp add: at_client_obj_recv_def)
  have bn: "block_need n < m" by (rule le_less_trans [OF _ assms(5)]) simp
  obtain h1 bs1 j l where m: "rt_malloc n (h, k) = Some (Mem (adr h (j + 12)), h1, k)" "heap_rep h1 bs1" "same_area h h1"
      "adr h (j + 12) \<noteq> 0" "used_blocks bs1 = insert (j, l) (used_blocks bs)" "(j, l) \<notin> used_blocks bs" "unat (rt_align n) + 12 \<le> l"
      "lfree_lowest h1 bs1" "\<forall>r. 24 \<le> r \<and> block_need n + r \<le> m \<longrightarrow> (\<exists>m'. (m', False) \<in> set bs1 \<and> r \<le> m')"
    by (rule rt_malloc_room [OF assms(1,2) calm n0 assms(4) bn])
  let ?q = "adr h (j + 12)"
  let ?h2 = "heap_write ?q (take (unat n) input) (heap_fill ?q 0 n h1)"
  have rep: "heap_rep ?h2 bs1" "lfree_lowest ?h2 bs1" using m(2,8) by (simp_all add: lfree_lowest_def)
  have u: "urc_recv_func line input (h, k) = map_option (\<lambda>(r, s). (r, drop (unat n) input, s)) (recvCb ?q n (?h2, k))"
    using m(1,4) assms(6,7) line n0 recv
    by (cases "recvCb ?q n (?h2, k)") (simp_all add: urc_recv_func_def rt_calloc_def Let_def split_beta)
  have "unat n < 2 ^ 32" using assms(9) by linarith
  then have r: "heap_read ?q 16 ?h2 = take 16 input"
    using heap_read_written [of 16 "take (unat n) input" ?q] assms(8,10) by (simp add: word_le_nat_alt)
  have l: "unat n + 12 \<le> l" using rt_align_ge [OF assms(9)] m(7) by linarith
  have "24 \<le> block_need n + 1" by simp
  then obtain m' where m': "(m', False) \<in> set bs1" "block_need n < m'" using m(9) assms(5) by (fastforce simp: Suc_le_eq)
  obtain h3 bs3 i e where "rt_malloc n (?h2, k) = Some (Mem (adr ?h2 (i + 12)), h3, k)" "heap_rep h3 bs3" "same_area ?h2 h3"
      "adr ?h2 (i + 12) \<noteq> 0" "used_blocks bs3 = insert (i, e) (used_blocks bs1)" "(i, e) \<notin> used_blocks bs1" "unat (rt_align n) + 12 \<le> e"
    using rt_malloc_room [OF rep calm n0 m'] by metis
  from recvCb_ok [OF rep(1) assms(3,8,9) this, of ?q] show ?thesis
    unfolding r m(5) using u m(6) l by fastforce
qed

text \<open>The pool of the application's queue, 32 bytes, has room for one message of 16 bytes and its header.\<close>

lemma app_queue_holds_one:
  assumes "app_queue_init mem k = Some (e, k')"
  shows "msg_size (msgqueues k' app_mq) = 16 \<and> max_msgs (msgqueues k' app_mq) = 1"
  using assms by (auto simp: app_queue_init_def rt_mq_init_def Option.bind_eq_Some_conv Let_def rt_align_def senders_init_def
      mq_setup_lists_def case_prod_beta upd_mq_def)

definition app_sample :: kernel where
  "app_sample = upd_mq app_mq (\<lambda>_. mq_setup_lists (\<lambda>_. replicate 16 0) (zero_mq\<lparr>obj_type := 0x86, msg_size := 16, max_msgs := 1\<rparr>)) calm_sample"

lemma app_sample_ready: "app_ready app_sample"
proof -
  let ?mq = "zero_mq\<lparr>obj_type := 0x86, msg_size := 16, max_msgs := 1\<rparr>"
  have "mq_rep (mq_setup_lists (\<lambda>_. replicate 16 0) ?mq) [] (rev [0..<1]) {}"
    using mq_setup_rep [of ?mq "\<lambda>_. replicate 16 0"] by simp
  then have "mq_wf (msgqueues app_sample app_mq)" unfolding mq_wf_def app_sample_def upd_mq_def by auto
  moreover have "kinv calm_sample" using kinv_objects(1) [OF sample_kinv] by (simp add: calm_sample_def)
  then have "kinv app_sample" using kinv_objects(5) by (simp add: app_sample_def)
  moreover have "heap_calm app_sample" using calm_sample by (simp add: app_sample_def heap_calm_def upd_mq_def obj_is_def rt_object_get_type_def)
  ultimately show ?thesis
    by (simp add: app_ready_def is_mq_def obj_is_def rt_object_get_type_def app_sample_def upd_mq_def mq_setup_lists_def
        case_prod_beta calm_sample_def upd_sem_def del: obj_is_simps)
qed

lemma reception_leaks_buffer_witness:
  "\<exists>h' k' bs' j l. urc_recv_func [43, 73, 80, 68, 44, 48, 44, 49, 54, 58] (replicate 16 7) (sample_heap, app_sample) = Some (Mem 0, [], h', k') \<and>
     heap_rep h' bs' \<and> used_blocks bs' = {(j, l)}"
proof -
  have "scan_ipd [43, 73, 80, 68, 44, 48, 44, 49, 54, 58] = (0, 16)"
    by (simp add: scan_ipd_def scan_int_def Let_def is_space_def is_digit_def)
  then show ?thesis
    using reception_leaks_buffer [OF sample_heap_rep app_sample_ready, of 84 16 "[43, 73, 80, 68, 44, 48, 44, 49, 54, 58]" 0 "replicate 16 7"]
    by (fastforce simp: rt_align_def)
qed

end
