(* ===== verification/ObjectProps.thy ===== *)
theory ObjectProps
  imports KStringProps ThreadInv Mailbox Sample
begin

unbundle bit_operations_syntax

section \<open>The directory of kernel objects\<close>

text \<open>
  The containers hold each object once, under the class that its type says, and a search by
  name and class returns an object of that class with that name, if there is one.
\<close>

fun class_of :: "objref \<Rightarrow> rt_object_class_type" where
  "class_of (OThread _) = RT_Object_Class_Thread"
| "class_of (OTimer _) = RT_Object_Class_Timer"
| "class_of (OSem _) = RT_Object_Class_Semaphore"
| "class_of (OMutex _) = RT_Object_Class_Mutex"
| "class_of (OEvent _) = RT_Object_Class_Event"
| "class_of (OMailBox _) = RT_Object_Class_MailBox"
| "class_of (OMsgQueue _) = RT_Object_Class_MessageQueue"
| "class_of (OMemPool _) = RT_Object_Class_MemPool"
| "class_of (ODevice _) = RT_Object_Class_Device"

definition names_ok :: "kernel \<Rightarrow> bool" where
  "names_ok k \<longleftrightarrow> (\<forall>ob. length (obj_name_of k ob) = 8)"

definition registered :: "kernel \<Rightarrow> objref \<Rightarrow> bool" where
  "registered k ob \<longleftrightarrow> (\<exists>c. ob \<in> set (containers k c))"

definition objects_ok :: "kernel \<Rightarrow> bool" where
  "objects_ok k \<longleftrightarrow> names_ok k \<and> (\<forall>c. distinct (containers k c)) \<and>
     (\<forall>c ob. ob \<in> set (containers k c) \<longrightarrow> c = class_code (class_of ob) \<and> rt_object_get_type k ob = c)"

text \<open>What other operations keep: the containers and the header of every object.\<close>

definition headers_kept :: "kernel \<Rightarrow> kernel \<Rightarrow> bool" where
  "headers_kept k k' \<longleftrightarrow> containers k' = containers k \<and>
     (\<forall>ob. obj_type_of k' ob = obj_type_of k ob \<and> obj_name_of k' ob = obj_name_of k ob)"

lemma headers_refl [simp]: "headers_kept k k"
  by (simp add: headers_kept_def)

lemma headers_trans [trans]: "headers_kept a b \<Longrightarrow> headers_kept b c \<Longrightarrow> headers_kept a c"
  by (simp add: headers_kept_def)

lemma headers_ok: "headers_kept k k' \<Longrightarrow> objects_ok k' = objects_ok k"
  by (simp add: headers_kept_def objects_ok_def names_ok_def rt_object_get_type_def)

lemma headersI:
  assumes "containers k' = containers k" "timers k' = timers k" "sems k' = sems k" "mutexes k' = mutexes k"
    "events k' = events k" "mailboxes k' = mailboxes k" "msgqueues k' = msgqueues k" "mempools k' = mempools k" "devices k' = devices k"
    and "\<And>t. obj_type (threads k' t) = obj_type (threads k t) \<and> obj_name (threads k' t) = obj_name (threads k t)"
  shows "headers_kept k k'"
proof -
  have "obj_type_of k' ob = obj_type_of k ob \<and> obj_name_of k' ob = obj_name_of k ob" for ob
    by (cases ob) (simp_all add: assms)
  then show ?thesis using assms(1) by (simp add: headers_kept_def)
qed

lemma headers_upd_thread:
  "(\<And>th. obj_type (f th) = obj_type th \<and> obj_name (f th) = obj_name th) \<Longrightarrow> headers_kept k (upd_thread t f k)"
  by (rule headersI) (simp_all add: kdefs)

lemma headers_update [simp]:
  "headers_kept k (k\<lparr>queues := q\<rparr>)" "headers_kept k (k\<lparr>ready_priority_group := g\<rparr>)"
  "headers_kept k (k\<lparr>rt_current_priority := p, rt_current_thread := c\<rparr>)" "headers_kept k (k\<lparr>scheduler_lock_nest := n\<rparr>)"
  "headers_kept k (tlist_remove t k)" "headers_kept k (tlist_insert_before r t k)" "headers_kept k (rt_enter_critical k)"
  by (rule headersI; simp add: kdefs rt_enter_critical_def)+

text \<open>Scheduling keeps the headers, whatever it schedules.\<close>

lemma headers_remove: "rt_schedule_remove_thread t k = Some k' \<Longrightarrow> headers_kept k k'"
  by (auto simp: rt_schedule_remove_thread_def require_def Let_def bind_eq_Some_conv kdefs split: if_splits intro!: headersI)

lemma headers_set_stat [simp]: "headers_kept k (upd_thread t (set_stat s) k)"
  by (rule headers_upd_thread) (simp add: set_stat_def)

lemma headers_insert: "rt_schedule_insert_thread t k = Some k' \<Longrightarrow> headers_kept k k'"
  by (auto simp: rt_schedule_insert_thread_def require_def Let_def bind_eq_Some_conv kdefs set_stat_def split: if_splits intro!: headersI)

lemma headers_running: "make_running t k = Some k' \<Longrightarrow> headers_kept k k'"
  by (auto simp: make_running_def bind_eq_Some_conv dest!: headers_remove intro: headers_trans)

lemma headers_schedule:
  assumes "rt_schedule k = Some k'"
  shows "headers_kept k k'"
proof (cases "scheduler_lock_nest k = 0 \<and> ready_priority_group k \<noteq> 0")
  case False
  then show ?thesis using assms by (auto simp: rt_schedule_def)
next
  case True
  then obtain h p c where h: "get_highest_priority_thread k = Some (h, p)" "rt_current_thread k = Some c"
    using assms by (auto simp: rt_schedule_def bind_eq_Some_conv)
  obtain to ins k1 where ch: "schedule_choice c h p k = (to, ins, k1)" by (cases "schedule_choice c h p k") auto
  have 1: "headers_kept k k1"
    using ch by (auto simp: schedule_choice_def split: if_splits intro: headers_upd_thread)
  show ?thesis
  proof (cases "to = c")
    case True
    with assms h ch \<open>_ \<and> _\<close> have "make_running c k1 = Some k'" by (simp add: rt_schedule_def)
    then show ?thesis using 1 headers_running headers_trans by blast
  next
    case False
    let ?k2 = "k1\<lparr>rt_current_priority := of_nat p, rt_current_thread := Some to\<rparr>"
    obtain k3 where k3: "(if ins then rt_schedule_insert_thread c ?k2 else Some ?k2) = Some k3" "make_running to k3 = Some k'"
      using False assms h ch \<open>_ \<and> _\<close> by (auto simp: rt_schedule_def Let_def require_def bind_eq_Some_conv split: if_splits)
    have "headers_kept k1 ?k2" by simp
    moreover have "headers_kept ?k2 k3" using k3(1) headers_insert by (auto split: if_splits)
    ultimately show ?thesis using 1 headers_running [OF k3(2)] headers_trans by blast
  qed
qed

lemma headers_exit_critical: "rt_exit_critical k = Some k' \<Longrightarrow> headers_kept k k'"
  using headers_trans [OF headers_update(4) headers_schedule]
  by (auto simp: rt_exit_critical_def Let_def split: if_splits)

subsection \<open>Registering and removing objects\<close>

text \<open>The object \<open>ob\<close> has got a type and a name and is new in its container.\<close>

definition registers :: "objref \<Rightarrow> u8 \<Rightarrow> u8 list \<Rightarrow> kernel \<Rightarrow> kernel \<Rightarrow> bool" where
  "registers ob st nm k k' \<longleftrightarrow>
     (\<forall>ob'. obj_type_of k' ob' = (if ob' = ob then class_code (class_of ob) OR st else obj_type_of k ob')) \<and>
     (\<forall>ob'. obj_name_of k' ob' = (if ob' = ob then nm else obj_name_of k ob')) \<and>
     (\<forall>c. containers k' c = (if c = class_code (class_of ob) then [ob] else []) @ containers k c)"

lemma set_header_simps [simp]:
  "obj_type_of (set_obj_type ob ty k) ob' = (if ob' = ob then ty else obj_type_of k ob')"
  "obj_name_of (set_obj_type ob ty k) ob' = obj_name_of k ob'"
  "obj_type_of (set_obj_name ob nm k) ob' = obj_type_of k ob'"
  "obj_name_of (set_obj_name ob nm k) ob' = (if ob' = ob then nm else obj_name_of k ob')"
  "obj_type_of (set_obj_flag ob fl k) ob' = obj_type_of k ob'" "obj_name_of (set_obj_flag ob fl k) ob' = obj_name_of k ob'"
  "containers (set_obj_type ob ty k) = containers k" "containers (set_obj_name ob nm k) = containers k"
  "containers (set_obj_flag ob fl k) = containers k"
  by (cases ob; cases ob'; simp add: kdefs)+

lemma container_header_simps [simp]:
  "obj_type_of (container_insert_after c ob k) ob' = obj_type_of k ob'"
  "obj_name_of (container_insert_after c ob k) ob' = obj_name_of k ob'"
  "obj_type_of (container_remove ob k) ob' = obj_type_of k ob'"
  "obj_name_of (container_remove ob k) ob' = obj_name_of k ob'"
  "containers (container_insert_after c ob k) d = (if d = c then ob # containers k c else containers k d)"
  "containers (container_remove ob k) d = list_del ob (containers k d)"
  by (cases ob'; simp add: kdefs)+

lemma class_code_bits [simp]:
  "(class_code c OR RT_Object_Class_Static) AND - 129 = class_code c" "class_code c AND - 129 = class_code c"
  by (cases c; simp)+

lemma registers_ok:
  assumes "objects_ok k" "registers ob st nm k k'" "length nm = 8" "\<not> registered k ob" "st \<in> {0, RT_Object_Class_Static}"
  shows "objects_ok k'"
proof -
  have "names_ok k'" using assms(1-3) by (auto simp: names_ok_def registers_def objects_ok_def)
  moreover have "distinct (containers k' c)" for c
    using assms(1,2,4) by (auto simp: registers_def objects_ok_def registered_def)
  moreover have "c = class_code (class_of ob') \<and> rt_object_get_type k' ob' = c" if "ob' \<in> set (containers k' c)" for c ob'
    using assms(1,2,4,5) that
    by (auto simp: registers_def objects_ok_def registered_def rt_object_get_type_def split: if_splits)
  ultimately show ?thesis by (simp add: objects_ok_def)
qed

lemma length_padded: "length (cstr n s @ replicate (n - length (cstr n s)) 0 @ d) = n + length d"
  using length_cstr [of n s] by simp

definition name_field :: "u8 list \<Rightarrow> u8 list" where
  "name_field s = cstr 8 s @ replicate (8 - length (cstr 8 s)) 0"

lemma name_field_simps [simp]: "length (name_field s) = 8" "cstr 8 (name_field s) = cstr 8 s"
  using length_cstr [of 8 s] cstr_padded [of 8 s "[]"] by (simp_all add: name_field_def)

lemma strncpy_name: "readable 8 s \<Longrightarrow> length d = 8 \<Longrightarrow> rt_strncpy d s 8 = Some (name_field s)"
  using rt_strncpy_eq [of 8 s d] by (simp add: name_field_def)

lemma rt_object_init_ok:
  assumes "rt_object_init ob (class_of ob) name k = Some k'" "names_ok k" "readable 8 name"
  shows "registers ob RT_Object_Class_Static (name_field name) k k'"
proof -
  obtain k1 where k1: "rt_exit_critical (rt_enter_critical k) = Some k1"
    and k': "k' = container_insert_after (class_code (class_of ob)) ob
       (set_obj_name ob (name_field name) (set_obj_type ob (class_code (class_of ob) OR RT_Object_Class_Static) k1))"
  proof -
    from assms(1) obtain k1 nm where a: "rt_exit_critical (rt_enter_critical k) = Some k1" "rt_strncpy (obj_name_of k1 ob) name 8 = Some nm"
      "k' = container_insert_after (class_code (class_of ob)) ob
       (set_obj_name ob nm (set_obj_type ob (class_code (class_of ob) OR RT_Object_Class_Static) k1))"
      by (auto simp: rt_object_init_def bind_eq_Some_conv require_def split: if_splits)
    have "headers_kept k k1" using headers_trans [OF headers_update(7) headers_exit_critical [OF a(1)]] .
    then have "length (obj_name_of k1 ob) = 8" using assms(2) by (simp add: headers_kept_def names_ok_def)
    then show ?thesis using that [OF a(1)] a(2,3) strncpy_name [OF assms(3)] by simp
  qed
  have "headers_kept k k1" using headers_trans [OF headers_update(7) headers_exit_critical [OF k1]] .
  then show ?thesis by (simp add: registers_def k' headers_kept_def)
qed

lemma rt_object_remove_ok:
  assumes "objects_ok k" and k': "k' = container_remove ob (set_obj_type ob 0 k)"
  shows "objects_ok k'" "\<not> registered k' ob"
  using assms(1) unfolding k' objects_ok_def names_ok_def registered_def by (auto simp: rt_object_get_type_def)

subsection \<open>Searching\<close>

lemma find_by_name_eq:
  assumes "names_ok k" "readable 8 name"
  shows "find_by_name k name obs = Some (List.find (\<lambda>ob. cstr 8 (obj_name_of k ob) = cstr 8 name) obs)"
proof (induction obs)
  case (Cons ob obs)
  have "readable 8 (obj_name_of k ob)" using assms(1) by (simp add: names_ok_def readable_def)
  from rt_strncmp_eq [OF this assms(2)] Cons show ?case by auto
qed simp

lemma rt_object_find_cases:
  assumes "rt_object_find (Some name) ty k = Some (r, k')" "names_ok k" "readable 8 name"
  shows "headers_kept k k' \<and>
    r = (if ty > class_code RT_Object_Class_Unknown then None
         else List.find (\<lambda>ob. cstr 8 (obj_name_of k ob) = cstr 8 name) (containers k ty))"
proof -
  have "names_ok (rt_enter_critical k)" "\<And>ob. obj_name_of (rt_enter_critical k) ob = obj_name_of k ob"
    "containers (rt_enter_critical k) = containers k"
    using headers_update(7) [of k] assms(2) by (simp_all add: headers_kept_def names_ok_def)
  note e = this find_by_name_eq [OF this(1) assms(3)]
  show ?thesis
    using assms(1) headers_exit_critical headers_trans [OF headers_update(7)]
    by (auto simp: rt_object_find_def require_def bind_eq_Some_conv rt_object_get_information_def e Let_def split: if_splits)
qed

lemma rt_object_find_returns:
  assumes inv: "kinv k" "rt_current_thread k \<noteq> None" "interrupt_nest k = 0" "scheduler_lock_nest k = 0"
    and n: "names_ok k" "readable 8 name" and ty: "ty \<in> set rt_object_container_types"
  obtains r k' where "rt_object_find (Some name) ty k = Some (r, k')"
proof -
  let ?k = "rt_enter_critical k"
  have e: "k\<lparr>scheduler_lock_nest := 0\<rparr> = k" using inv(4) by simp
  have x: "rt_exit_critical ?k = rt_schedule k"
    using inv(2,4) by (simp add: rt_exit_critical_def rt_enter_critical_def e Let_def del: option.exhaust_sel)
  obtain k' where k': "rt_schedule k = Some k'" using rt_schedule_kinv [OF inv(1,2)] by blast
  have "names_ok ?k" using n(1) headers_update(7) [of k] by (simp add: headers_kept_def names_ok_def)
  note f = find_by_name_eq [OF this n(2)]
  have "\<not> class_code RT_Object_Class_Unknown < ty" using ty by (auto simp: rt_object_container_types_def)
  moreover obtain obs where "rt_object_get_information ?k ty = Some obs" using ty by (simp add: rt_object_get_information_def)
  ultimately have "rt_object_find (Some name) ty k = Some (List.find (\<lambda>ob. cstr 8 (obj_name_of ?k ob) = cstr 8 name) obs, k')"
    using inv(3) k' x by (simp add: rt_object_find_def require_def f Let_def)
  then show ?thesis by (rule that)
qed

subsection \<open>Any sequence of operations on the directory\<close>

text \<open>The memory of a new object is cleared; objects in the directory are elsewhere.\<close>

definition clears :: "(kernel \<Rightarrow> kernel) \<Rightarrow> kernel \<Rightarrow> bool" where
  "clears clear k \<longleftrightarrow> containers (clear k) = containers k \<and> names_ok (clear k) \<and>
     (\<forall>ob. registered k ob \<longrightarrow> obj_type_of (clear k) ob = obj_type_of k ob \<and> obj_name_of (clear k) ob = obj_name_of k ob)"

inductive registry_run :: "kernel \<Rightarrow> kernel \<Rightarrow> bool" for k0 where
  start: "registry_run k0 k0"
| init: "registry_run k0 k \<Longrightarrow> \<not> registered k ob \<Longrightarrow> readable 8 name \<Longrightarrow>
    rt_object_init ob (class_of ob) name k = Some k' \<Longrightarrow> registry_run k0 k'"
| allocate: "registry_run k0 k \<Longrightarrow> \<not> registered k ob \<Longrightarrow> readable 8 name \<Longrightarrow> clears clear k \<Longrightarrow>
    rt_object_allocate (Some ob) clear (class_of ob) name k = Some (r, k') \<Longrightarrow> registry_run k0 k'"
| detach: "registry_run k0 k \<Longrightarrow> registry_run k0 (rt_object_detach ob k)"
| delete: "registry_run k0 k \<Longrightarrow> rt_object_delete ob k = Some k' \<Longrightarrow> registry_run k0 k'"
| other: "registry_run k0 k \<Longrightarrow> headers_kept k k' \<Longrightarrow> registry_run k0 k'"

lemma rt_object_allocate_ok:
  assumes "rt_object_allocate (Some ob) clear (class_of ob) name k = Some (r, k')" "objects_ok k" "\<not> registered k ob"
    "clears clear k" "readable 8 name"
  shows "objects_ok k' \<and> r = Some ob"
proof -
  have c: "objects_ok (clear k)" "\<not> registered (clear k) ob"
    using assms(2-4) by (auto simp: objects_ok_def clears_def registered_def rt_object_get_type_def)
  have n: "rt_strncpy (replicate 8 0) name 8 = Some (name_field name)" by (rule strncpy_name [OF assms(5)]) simp
  have "registers ob 0 (name_field name) (clear k) k'" "r = Some ob"
    using assms(1) by (auto simp: rt_object_allocate_def require_def bind_eq_Some_conv n registers_def split: if_splits)
  then show ?thesis using registers_ok [OF c(1) _ _ c(2)] by simp
qed

lemma registry_run_ok: "registry_run k0 k \<Longrightarrow> objects_ok k0 \<Longrightarrow> objects_ok k"
proof (induction rule: registry_run.induct)
  case (init k ob name k')
  have ok: "objects_ok k" by (rule init.IH [OF init.prems])
  then have "registers ob RT_Object_Class_Static (name_field name) k k'"
    using rt_object_init_ok [OF init.hyps(4) _ init.hyps(3)] by (simp add: objects_ok_def)
  from registers_ok [OF ok this _ init.hyps(2)] show ?case by simp
next
  case (allocate k ob name clear r k')
  have "objects_ok k" by (rule allocate.IH [OF allocate.prems])
  from rt_object_allocate_ok [OF allocate.hyps(5) this allocate.hyps(2,4,3)] show ?case by simp
next
  case (detach k ob)
  have "objects_ok k" by (rule detach.IH [OF detach.prems])
  from rt_object_remove_ok(1) [OF this refl] show ?case by (simp add: rt_object_detach_def)
next
  case (delete k ob k')
  have "objects_ok k" by (rule delete.IH [OF delete.prems])
  from rt_object_remove_ok(1) [OF this refl] show ?case
    using delete.hyps(2) by (auto simp: rt_object_delete_def require_def split: if_splits)
qed (simp_all add: headers_ok)

subsection \<open>The properties\<close>

lemma find_SomeD: "List.find P xs = Some x \<Longrightarrow> x \<in> set xs \<and> P x"
  by (induction xs) (auto split: if_splits)

lemma class_in_table: "class_code (class_of ob) \<in> set rt_object_container_types"
  by (cases ob) (simp_all add: rt_object_container_types_def)

text \<open>C29: Whatever sequence of initialisations, allocations, detachments and deletions of objects and of
  other operations has run, a search of the object system for a name and a class returns an
  object of that class, by its type and by what it is, with that name.\<close>

theorem found_object_typed:
  assumes "objects_ok k0" "registry_run k0 k" "readable 8 name"
    and "rt_object_find (Some name) ty k = Some (Some ob, k')"
  shows "class_code (class_of ob) = ty \<and> rt_object_get_type k' ob = ty \<and> cstr 8 (obj_name_of k' ob) = cstr 8 name"
proof -
  have ok: "objects_ok k" by (rule registry_run_ok [OF assms(2,1)])
  have "names_ok k" using ok by (simp add: objects_ok_def)
  note f = rt_object_find_cases [OF assms(4) this assms(3)]
  then have "List.find (\<lambda>ob. cstr 8 (obj_name_of k ob) = cstr 8 name) (containers k ty) = Some ob" by (simp split: if_splits)
  from find_SomeD [OF this] have "ob \<in> set (containers k ty)" "cstr 8 (obj_name_of k ob) = cstr 8 name" by simp_all
  then show ?thesis using ok f by (auto simp: objects_ok_def headers_kept_def rt_object_get_type_def)
qed

text \<open>C30: An object is found under the name that it was initialised with, cut to the eight bytes of the
  name field, also when older objects have the same name; once it is detached, no search finds it.\<close>

theorem initialised_object_found:
  assumes "objects_ok k" "\<not> registered k ob" "readable 8 name"
    and "rt_object_init ob (class_of ob) name k = Some k1"
    and "kinv k1" "rt_current_thread k1 \<noteq> None" "interrupt_nest k1 = 0" "scheduler_lock_nest k1 = 0"
  shows "(\<exists>k2. rt_object_find (Some name) (class_code (class_of ob)) k1 = Some (Some ob, k2)) \<and>
    (\<forall>other ty r k2. readable 8 other \<longrightarrow> rt_object_find (Some other) ty (rt_object_detach ob k1) = Some (r, k2) \<longrightarrow> r \<noteq> Some ob)"
proof (intro conjI allI impI)
  have n: "names_ok k" using assms(1) by (simp add: objects_ok_def)
  note reg = rt_object_init_ok [OF assms(4) n assms(3)]
  have ok: "objects_ok k1" by (rule registers_ok [OF assms(1) reg _ assms(2)]) simp_all
  then have n1: "names_ok k1" by (simp add: objects_ok_def)
  obtain r k2 where f: "rt_object_find (Some name) (class_code (class_of ob)) k1 = Some (r, k2)"
    using rt_object_find_returns [OF assms(5-8) n1 assms(3) class_in_table] by blast
  have "containers k1 (class_code (class_of ob)) = ob # containers k (class_code (class_of ob))"
    "cstr 8 (obj_name_of k1 ob) = cstr 8 name" using reg by (simp_all add: registers_def)
  moreover have "\<not> class_code (class_of ob) > class_code RT_Object_Class_Unknown" by (cases ob) simp_all
  ultimately have "r = Some ob" using rt_object_find_cases [OF f n1 assms(3)] by simp
  then show "\<exists>k2. rt_object_find (Some name) (class_code (class_of ob)) k1 = Some (Some ob, k2)" using f by blast
  fix other ty r k2
  assume o: "readable 8 other" and d: "rt_object_find (Some other) ty (rt_object_detach ob k1) = Some (r, k2)"
  note gone = rt_object_remove_ok [OF ok refl, of ob, folded rt_object_detach_def]
  have "names_ok (rt_object_detach ob k1)" using gone(1) by (simp add: objects_ok_def)
  from rt_object_find_cases [OF d this o] show "r \<noteq> Some ob"
    using gone(2) by (auto simp: registered_def dest: find_SomeD split: if_splits)
qed

subsection \<open>A concrete directory\<close>

lemma sample_objects_ok: "objects_ok sample"
proof -
  have "length (obj_name_of sample ob) = 8" for ob
    by (cases ob) (auto simp: sample_threads_def sample_thread_def zero_thread_def sample_timers_def zero_timer_def
        zero_sem_def zero_mutex_def zero_event_def zero_mailbox_def zero_mq_def mq_setup_lists_def sample_def split: timer_id.splits prod.splits)
  then show ?thesis by (simp add: objects_ok_def names_ok_def) (simp add: sample_def)
qed

lemma sample_init:
  obtains k1 where "rt_object_init (OSem 7) RT_Object_Class_Semaphore [115, 0] sample = Some k1" "kinv k1"
    "rt_current_thread k1 \<noteq> None" "interrupt_nest k1 = 0" "scheduler_lock_nest k1 = 0"
proof -
  have e: "rt_exit_critical (rt_enter_critical sample) = rt_schedule sample"
    by (simp add: rt_exit_critical_def rt_enter_critical_def Let_def) (simp add: sample_def)
  obtain k0 where k0: "rt_schedule sample = Some k0" "kinv k0" "schedule_post sample k0" "kframe sample k0"
    using rt_schedule_kinv [OF sample_kinv] by auto
  have "headers_kept sample k0" by (rule headers_schedule [OF k0(1)])
  then have "length (obj_name_of k0 (OSem 7)) = 8"
    using sample_objects_ok by (simp add: headers_kept_def objects_ok_def names_ok_def del: obj_name_of.simps)
  moreover have "readable 8 [115, 0]" by (simp add: readable_def)
  ultimately have n: "rt_strncpy (obj_name_of k0 (OSem 7)) [115, 0] 8 = Some (name_field [115, 0])" by (intro strncpy_name)
  let ?k = "container_insert_after 2 (OSem 7) (set_obj_name (OSem 7) (name_field [115, 0]) (set_obj_type (OSem 7) 0x82 k0))"
  have "rt_object_init (OSem 7) RT_Object_Class_Semaphore [115, 0] sample = Some ?k"
    using n by (simp add: rt_object_init_def require_def rt_object_get_information_def rt_object_container_types_def e k0(1))
      (simp add: sample_def)
  moreover have "kinv ?k" by (rule kinv_view [OF _ _ _ _ _ _ _ _ _ _ k0(2)])
      (simp_all add: kdefs is_thread_def tstat_def tprio_def thread_ok_def started_def)
  moreover have "rt_current_thread k0 \<noteq> None" using k0(3) by (auto simp: schedule_post_def)
  ultimately show ?thesis using that [of ?k] kframeD(10,11) [OF k0(4)] by (simp add: kdefs)
qed

lemma found_object_typed_witness:
  "\<exists>k1 k2. rt_object_init (OSem 7) RT_Object_Class_Semaphore [115, 0] sample = Some k1 \<and>
     rt_object_find (Some [115, 0]) 2 k1 = Some (Some (OSem 7), k2) \<and> rt_object_get_type k2 (OSem 7) = 2"
proof -
  obtain k1 where k1: "rt_object_init (OSem 7) RT_Object_Class_Semaphore [115, 0] sample = Some k1" "kinv k1"
    "rt_current_thread k1 \<noteq> None" "interrupt_nest k1 = 0" "scheduler_lock_nest k1 = 0" by (rule sample_init)
  have nr: "\<not> registered sample (OSem 7)" by (simp add: registered_def sample_def)
  have rd: "readable 8 [115, 0]" by (simp add: readable_def)
  have run: "registry_run sample k1" using registry_run.init [OF registry_run.start nr rd] k1(1) by simp
  have ok: "objects_ok k1" by (rule registry_run_ok [OF run sample_objects_ok])
  then have n: "names_ok k1" by (simp add: objects_ok_def)
  have reg: "registers (OSem 7) RT_Object_Class_Static (name_field [115, 0]) sample k1"
    using rt_object_init_ok [of "OSem 7" "[115, 0]" sample k1] k1(1) sample_objects_ok rd by (simp add: objects_ok_def)
  obtain r k2 where f: "rt_object_find (Some [115, 0]) 2 k1 = Some (r, k2)"
    using rt_object_find_returns [OF k1(2-5) n rd] by (auto simp: rt_object_container_types_def)
  have "r = Some (OSem 7)" using rt_object_find_cases [OF f n rd] reg by (simp add: registers_def)
  then show ?thesis using found_object_typed [OF sample_objects_ok run rd, of 2 "OSem 7" k2] f k1(1) by blast
qed

lemma initialised_object_found_witness:
  "\<exists>k1 k2. rt_object_init (OSem 7) RT_Object_Class_Semaphore [115, 0] sample = Some k1 \<and>
     rt_object_find (Some [115, 0]) 2 k1 = Some (Some (OSem 7), k2)"
proof -
  obtain k1 where k1: "rt_object_init (OSem 7) RT_Object_Class_Semaphore [115, 0] sample = Some k1" "kinv k1"
    "rt_current_thread k1 \<noteq> None" "interrupt_nest k1 = 0" "scheduler_lock_nest k1 = 0" by (rule sample_init)
  have "\<not> registered sample (OSem 7)" by (simp add: registered_def sample_def)
  moreover have "readable 8 [115, 0]" by (simp add: readable_def)
  ultimately show ?thesis using initialised_object_found [OF sample_objects_ok, of "OSem 7" "[115, 0]" k1] k1 by auto
qed

end
