(* ===== verification/Idle.thy ===== *)
theory Idle
  imports HeapProps HeapCalls ThreadInv
begin

unbundle bit_operations_syntax

section \<open>The idle thread (rt-thread/src/idle.c)\<close>

text \<open>
  The hooks of the idle thread and its clean-up of the threads that have ended.  The clean-up
  works on the kernel and on the heap together (\<open>heap_state\<close>).  The functions whose addresses
  the hook list and the threads hold are parameters, as is the address of a thread object,
  which the model names by a number.
\<close>

subsection \<open>The hooks\<close>

text \<open>\<open>idle_hook_list\<close>: the addresses of four functions, 0 for none.\<close>

abbreviation RT_IDLE_HOOK_LIST_SIZE :: nat where "RT_IDLE_HOOK_LIST_SIZE \<equiv> 4"

fun hook_replace :: "u32 \<Rightarrow> u32 \<Rightarrow> u32 list \<Rightarrow> u32 list option" where
  "hook_replace old new [] = None"
| "hook_replace old new (f # fs) =
     (if f = old then Some (new # fs) else map_option ((#) f) (hook_replace old new fs))"

definition rt_thread_idle_sethook :: "u32 \<Rightarrow> u32 list \<Rightarrow> rt_err \<times> u32 list" where
  "rt_thread_idle_sethook hook fs =
     (case hook_replace 0 hook fs of None \<Rightarrow> (-RT_EFULL, fs) | Some fs1 \<Rightarrow> (RT_EOK, fs1))"

definition rt_thread_idle_delhook :: "u32 \<Rightarrow> u32 list \<Rightarrow> rt_err \<times> u32 list" where
  "rt_thread_idle_delhook hook fs =
     (case hook_replace hook 0 fs of None \<Rightarrow> (-RT_ENOSYS, fs) | Some fs1 \<Rightarrow> (RT_EOK, fs1))"

type_synonym idle_state = "u32 list \<times> heap_state"

fun run_hooks :: "(u32 \<Rightarrow> idle_state \<Rightarrow> idle_state option) \<Rightarrow> nat list \<Rightarrow> idle_state \<Rightarrow> idle_state option" where
  "run_hooks call [] s = Some s"
| "run_hooks call (i # is) s = do {
     s1 \<leftarrow> (if fst s ! i \<noteq> 0 then call (fst s ! i) s else Some s);
     run_hooks call is s1
   }"

subsection \<open>The clean-up\<close>

type_synonym cleanup_call = "u32 \<Rightarrow> tid \<Rightarrow> heap_state \<Rightarrow> heap_state option"

definition has_defunct_thread :: "kernel \<Rightarrow> bool" where
  "has_defunct_thread k \<longleftrightarrow> \<not> tlist_isempty Defunct k"

text \<open>
  The part of the loop with interrupts disabled: nothing was found, a static thread was
  detached and the function returns, or a dynamic one was taken whose memory is to be released.
\<close>

datatype idle_found = Found_none | Found_static tid | Found_dynamic tid

definition idle_take :: "cleanup_call \<Rightarrow> heap_state \<Rightarrow> (idle_found \<times> heap_state) option" where
  "idle_take call s = (case s of (h, k) \<Rightarrow> do {
     require (interrupt_nest k = 0);
     (case queues k Defunct of
        [] \<Rightarrow> Some (Found_none, h, k)
      | t # _ \<Rightarrow> do {
          let k1 = rt_enter_critical (tlist_remove t k);
          (h2, k2) \<leftarrow> (if cleanup (threads k1 t) \<noteq> 0 then call (cleanup (threads k1 t)) t (h, k1) else Some (h, k1));
          if rt_object_is_systemobject k2 (OThread t) then do {
            k3 \<leftarrow> rt_exit_critical (rt_object_detach (OThread t) k2);
            Some (Found_static t, h2, k3)
          } else do {
            k3 \<leftarrow> rt_exit_critical k2;
            Some (Found_dynamic t, h2, k3)
          }
        })
   })"

text \<open>
  Releasing the stack and the object.  \<open>rt_object_delete\<close> of theory Object unlinks the object;
  the release of its memory follows here, where the heap is present.
\<close>

definition idle_release :: "(tid \<Rightarrow> u32) \<Rightarrow> tid \<Rightarrow> heap_state \<Rightarrow> (heap_result \<times> heap_state) option" where
  "idle_release addr t s = do {
     (r, h, k) \<leftarrow> rt_free (stack_addr (threads (snd s) t)) s;
     (case r of
        Heap_blocked \<Rightarrow> Some (Heap_blocked, h, k)
      | Mem _ \<Rightarrow> do {
          k1 \<leftarrow> rt_object_delete (OThread t) k;
          rt_free (addr t) (h, k1)
        })
   }"

partial_function (option) rt_thread_idle_excute ::
    "cleanup_call \<Rightarrow> (tid \<Rightarrow> u32) \<Rightarrow> heap_state \<Rightarrow> (heap_result \<times> heap_state) option" where
  "rt_thread_idle_excute call addr s =
     (if has_defunct_thread (snd s) then do {
        (found, s1) \<leftarrow> idle_take call s;
        (case found of
           Found_dynamic t \<Rightarrow> do {
             (r, s2) \<leftarrow> idle_release addr t s1;
             (case r of
                Heap_blocked \<Rightarrow> Some (Heap_blocked, s2)
              | Mem _ \<Rightarrow> rt_thread_idle_excute call addr s2)
           }
         | _ \<Rightarrow> Some (Mem 0, s1))
      }
      else Some (Mem 0, s))"

text \<open>One round of \<open>rt_thread_idle_entry\<close>, and the start of the thread.\<close>

definition idle_round ::
    "(u32 \<Rightarrow> idle_state \<Rightarrow> idle_state option) \<Rightarrow> cleanup_call \<Rightarrow> (tid \<Rightarrow> u32) \<Rightarrow> idle_state
      \<Rightarrow> (heap_result \<times> idle_state) option" where
  "idle_round call_hook call addr s = do {
     (fs, s1) \<leftarrow> run_hooks call_hook [0..<RT_IDLE_HOOK_LIST_SIZE] s;
     (r, s2) \<leftarrow> rt_thread_idle_excute call addr s1;
     Some (r, fs, s2)
   }"

definition rt_thread_idle_init :: "tid \<Rightarrow> u32 \<Rightarrow> u32 \<Rightarrow> kernel \<Rightarrow> kernel option" where
  "rt_thread_idle_init idle entry stack k = do {
     (_, k1) \<leftarrow> rt_thread_init idle [116, 105, 100, 108, 101, 48, 0] entry 0 stack 256 31 32 k;
     (_, k2) \<leftarrow> rt_thread_startup idle k1;
     Some k2
   }"

subsection \<open>Setting and deleting hooks\<close>

lemma hook_replace_None: "hook_replace old new fs = None \<longleftrightarrow> old \<notin> set fs"
  by (induction fs) auto

lemma hook_replace_back:
  assumes "hook_replace old new fs = Some fs'" "new \<notin> set fs"
  shows "hook_replace new old fs' = Some fs"
  using assms by (induction fs arbitrary: fs') (auto split: if_splits)

lemma hook_replace_Some:
  "hook_replace old new fs = Some fs' \<Longrightarrow> \<exists>as bs. fs = as @ old # bs \<and> old \<notin> set as \<and> fs' = as @ new # bs"
proof (induction fs arbitrary: fs')
  case (Cons f fs)
  show ?case
  proof (cases "f = old")
    case True
    then show ?thesis using Cons.prems by (intro exI [of _ "[]"] exI [of _ fs]) auto
  next
    case False
    then obtain gs where g: "hook_replace old new fs = Some gs" "fs' = f # gs" using Cons.prems by auto
    from Cons.IH [OF g(1)] show ?thesis using False g(2) by (metis append_Cons set_ConsD)
  qed
qed simp

lemma idle_hooks:
  "0 \<notin> set fs \<Longrightarrow> rt_thread_idle_sethook f fs = (-RT_EFULL, fs)"
  "0 \<in> set fs \<Longrightarrow> \<exists>as bs. fs = as @ 0 # bs \<and> 0 \<notin> set as \<and> rt_thread_idle_sethook f fs = (RT_EOK, as @ f # bs)"
  "f \<notin> set fs \<Longrightarrow> rt_thread_idle_delhook f fs = (-RT_ENOSYS, fs)"
  "0 \<in> set fs \<Longrightarrow> f \<notin> set fs \<Longrightarrow> rt_thread_idle_delhook f (snd (rt_thread_idle_sethook f fs)) = (RT_EOK, fs)"
  using hook_replace_None [of 0 f fs] hook_replace_None [of f 0 fs] hook_replace_Some [of 0 f fs] hook_replace_back [of 0 f fs]
  by (auto simp: rt_thread_idle_sethook_def rt_thread_idle_delhook_def split: option.splits)

subsection \<open>The clean-up returns the memory of the dead threads\<close>

text \<open>No thread is ready, as when the idle thread runs, and the scheduler is not locked.\<close>

definition idle_time :: "kernel \<Rightarrow> bool" where
  "idle_time k \<longleftrightarrow> kinv k \<and> heap_calm k \<and> ready_priority_group k = 0 \<and> scheduler_lock_nest k = 0"

lemma idle_timeD:
  "idle_time k \<Longrightarrow> kinv k" "idle_time k \<Longrightarrow> heap_calm k" "idle_time k \<Longrightarrow> ready_priority_group k = 0"
  "idle_time k \<Longrightarrow> scheduler_lock_nest k = 0" "idle_time k \<Longrightarrow> interrupt_nest k = 0"
  by (simp_all add: idle_time_def heap_calm_def)

lemma idle_distinct: "idle_time k \<Longrightarrow> distinct (queues k q)"
  using sched_invD(1) [OF kinvD(1) [OF idle_timeD(1)], of k] by (simp add: queues_ok_def)

lemma defunct_closed: "kinv k \<Longrightarrow> t \<in> set (queues k Defunct) \<Longrightarrow> tstat k t = RT_THREAD_CLOSE"
  using sched_invD(6) [of "{}" k t Defunct] kinvD(1) [of k] by (simp add: in_queue_def)

lemma defunct_not_waiting: "kinv k \<Longrightarrow> t \<in> set (queues k Defunct) \<Longrightarrow> t \<notin> set (queues k (Suspended ob))"
  using sched_invD(6) [of "{}" k t "Suspended ob"] kinvD(1) [of k] defunct_closed [of k t] by (auto simp: in_queue_def)

lemma critical_pair:
  assumes "scheduler_lock_nest k = 1" "ready_priority_group k = 0"
  shows "rt_exit_critical k = Some (k\<lparr>scheduler_lock_nest := 0\<rparr>)"
  using assms by (auto simp: rt_exit_critical_def rt_schedule_def Let_def)

abbreviation thread_list :: "kernel \<Rightarrow> objref list" where
  "thread_list k \<equiv> containers k (class_code RT_Object_Class_Thread)"

text \<open>
  What a cleanup function of the thread \<open>t\<close> may do: it changes semaphores and objects other than
  threads and timers, and the two fields of its thread that are its own, and it wakes no thread.
\<close>

definition cleaned :: "tid \<Rightarrow> kernel \<Rightarrow> kernel \<Rightarrow> bool" where
  "cleaned t k k' \<longleftrightarrow> (\<exists>c d. threads k' = (threads k)(t := (threads k t)\<lparr>cleanup := c, user_data := d\<rparr>)) \<and>
     queues k' = queues k \<and> ready_priority_group k' = ready_priority_group k \<and> rt_current_thread k' = rt_current_thread k \<and>
     timers k' = timers k \<and> rt_timer_list k' = rt_timer_list k \<and> rt_soft_timer_list k' = rt_soft_timer_list k \<and>
     scheduler_lock_nest k' = scheduler_lock_nest k \<and> heap_calm k' \<and>
     thread_list k' = thread_list k"

abbreviation waiters :: "kernel \<Rightarrow> objref \<Rightarrow> tid list" where
  "waiters k \<equiv> (\<lambda>ob. queues k (Suspended ob))"

text \<open>
  The cleanup functions of the threads \<open>ts\<close> return, having released the memory \<open>own t\<close>, which is
  their own, as long as \<open>J\<close> holds of the semaphores and of the threads that wait; and they keep \<open>J\<close>.
\<close>

definition cleanup_ok :: "cleanup_call \<Rightarrow> (tid \<Rightarrow> u32 set) \<Rightarrow> heap \<Rightarrow> ((nat \<Rightarrow> rt_semaphore) \<Rightarrow> (objref \<Rightarrow> tid list) \<Rightarrow> bool) \<Rightarrow> tid set \<Rightarrow> bool" where
  "cleanup_ok call own h0 J ts \<longleftrightarrow> (\<forall>t \<in> ts. \<forall>h k live. cleanup (threads k t) \<noteq> 0 \<and> heap_calm k \<and> scheduler_lock_nest k = 1 \<and>
     J (sems k) (waiters k) \<and> heap_run h0 h live \<and> own t \<subseteq> dom live \<longrightarrow>
     (\<exists>h' k'. call (cleanup (threads k t)) t (h, k) = Some (h', k') \<and> heap_run h0 h' (live |` (- own t)) \<and>
        cleaned t k k' \<and> J (sems k') (waiters k')))"

text \<open>The memory that goes with a thread: the stack and the object of a dynamic one, and what its cleanup function releases.\<close>

definition cleanup_memory :: "(tid \<Rightarrow> u32 set) \<Rightarrow> kernel \<Rightarrow> tid \<Rightarrow> u32 set" where
  "cleanup_memory own k t = (if cleanup (threads k t) = 0 then {} else own t)"

definition object_memory :: "(tid \<Rightarrow> u32) \<Rightarrow> kernel \<Rightarrow> tid \<Rightarrow> u32 set" where
  "object_memory addr k t = (if rt_object_is_systemobject k (OThread t) then {} else {stack_addr (threads k t), addr t})"

definition dead_memory :: "(tid \<Rightarrow> u32) \<Rightarrow> (tid \<Rightarrow> u32 set) \<Rightarrow> kernel \<Rightarrow> tid \<Rightarrow> u32 set" where
  "dead_memory addr own k t = object_memory addr k t \<union> cleanup_memory own k t"

definition memory_apart :: "(tid \<Rightarrow> u32) \<Rightarrow> (tid \<Rightarrow> u32 set) \<Rightarrow> kernel \<Rightarrow> tid list \<Rightarrow> u32 set \<Rightarrow> bool" where
  "memory_apart addr own k ts A \<longleftrightarrow>
     (\<forall>t \<in> set ts. dead_memory addr own k t \<subseteq> A \<and> object_memory addr k t \<inter> cleanup_memory own k t = {} \<and>
        (\<not> rt_object_is_systemobject k (OThread t) \<longrightarrow> stack_addr (threads k t) \<noteq> addr t)) \<and>
     (\<forall>t \<in> set ts. \<forall>u \<in> set ts. t \<noteq> u \<longrightarrow> dead_memory addr own k t \<inter> dead_memory addr own k u = {})"

text \<open>The threads \<open>ts\<close> have left the list of dead threads and the object system.\<close>

definition reaped :: "tid list \<Rightarrow> kernel \<Rightarrow> kernel \<Rightarrow> bool" where
  "reaped ts k k' \<longleftrightarrow> idle_time k' \<and> (\<forall>q. queues k' q = filter (\<lambda>u. u \<notin> set ts) (queues k q)) \<and>
     thread_list k' = filter (\<lambda>ob. ob \<notin> OThread ` set ts) (thread_list k) \<and>
     (\<forall>u. u \<notin> set ts \<longrightarrow> threads k' u = threads k u) \<and> (\<forall>t \<in> set ts. obj_type (threads k' t) = 0)"

lemma reaped_Nil: "idle_time k \<Longrightarrow> reaped [] k k"
  by (simp add: reaped_def)

lemma reaped_Cons:
  assumes "reaped [t] k k1" "reaped ts k1 k'" "t \<notin> set ts"
  shows "reaped (t # ts) k k'"
  using assms by (auto simp: reaped_def intro!: filter_cong)

subsection \<open>One dead thread\<close>

lemma cleaned_refl: "heap_calm k \<Longrightarrow> cleaned t k k"
  unfolding cleaned_def by (intro conjI exI [of _ "cleanup (threads k t)"] exI [of _ "user_data (threads k t)"]) simp_all

lemma cleaned_threads:
  assumes "cleaned t k k'"
  shows "is_thread k' u = is_thread k u" "tstat k' u = tstat k u" "tprio k' u = tprio k u" "thread_ok k' u = thread_ok k u"
    "rt_object_is_systemobject k' (OThread u) = rt_object_is_systemobject k (OThread u)" "stack_addr (threads k' u) = stack_addr (threads k u)"
    "u \<noteq> t \<Longrightarrow> threads k' u = threads k u"
proof -
  obtain c d where "threads k' = (threads k)(t := (threads k t)\<lparr>cleanup := c, user_data := d\<rparr>)" using assms by (auto simp: cleaned_def)
  then show "is_thread k' u = is_thread k u" "tstat k' u = tstat k u" "tprio k' u = tprio k u" "thread_ok k' u = thread_ok k u"
    "rt_object_is_systemobject k' (OThread u) = rt_object_is_systemobject k (OThread u)" "stack_addr (threads k' u) = stack_addr (threads k u)"
    "u \<noteq> t \<Longrightarrow> threads k' u = threads k u"
    by (auto simp: is_thread_def tstat_def tprio_def thread_ok_def started_def scheduler_stack_ok_def rt_object_is_systemobject_def)
qed

text \<open>Off its list, cleaned and detached, the thread is gone and the kernel is as consistent as before.\<close>

lemma reaped_one:
  assumes i: "idle_time k" and t: "t \<in> set (queues k Defunct)" and c: "cleaned t (tlist_remove t k) k1"
  shows "reaped [t] k (rt_object_detach (OThread t) k1)"
proof -
  let ?k0 = "tlist_remove t k" and ?k' = "rt_object_detach (OThread t) k1"
  note inv = idle_timeD(1) [OF i] and th = cleaned_threads [OF c]
  have st: "tstat k t = RT_THREAD_CLOSE" by (rule defunct_closed [OF inv t])
  have f: "queues k1 = queues ?k0" "ready_priority_group k1 = ready_priority_group ?k0" "rt_current_thread k1 = rt_current_thread ?k0"
    "timers k1 = timers ?k0" "rt_timer_list k1 = rt_timer_list ?k0" "rt_soft_timer_list k1 = rt_soft_timer_list ?k0"
    "scheduler_lock_nest k1 = scheduler_lock_nest k" "heap_calm k1"
    "thread_list k1 = thread_list k"
    using c by (simp_all add: cleaned_def kdefs)
  have "sched_inv {t} ?k0" by (rule tlist_remove_suspended [OF kinvD(1) [OF inv]]) (simp add: st)
  moreover have "admits k1 q u = admits ?k0 q u" "in_queue k1 u q = in_queue ?k0 u q" for q u
    by (cases q; simp add: th) (simp add: in_queue_def f)
  ultimately have s1: "sched_inv {t} k1" unfolding sched_inv_def placed_def queues_ok_def group_ok_def th f by simp
  have "cur_inv ?k0" by (rule cur_inv_cong [OF kinvD(2) [OF inv]]) simp_all
  then have c1: "cur_inv k1" by (rule cur_inv_cong [OF _ f(3) th(1,2)])
  have "tm_inv ?k0" by (rule tm_inv_same_timers [OF kinvD(3) [OF inv]]) simp_all
  then have t1: "tm_inv k1" by (rule tm_inv_same_timers [OF _ f(4-6) th(1)]) (simp_all add: th)
  have "tstat k1 t = RT_THREAD_CLOSE" using st by (simp add: th)
  then have "kinv ?k'" by (rule detach_thread_inv(1) [OF s1 c1 t1])
  moreover have "heap_calm ?k'" using f(8) by (simp add: heap_calm_def rt_object_detach_def obj_is_def rt_object_get_type_def kdefs)
  moreover have "ready_priority_group ?k' = 0" "scheduler_lock_nest ?k' = 0"
    using f idle_timeD(3,4) [OF i] by (simp_all add: rt_object_detach_def kdefs)
  moreover have "queues ?k' q = filter (\<lambda>u. u \<noteq> t) (queues k q)" for q using f(1) by (simp add: rt_object_detach_def kdefs list_del_def)
  moreover have "thread_list ?k' = filter (\<lambda>ob. ob \<noteq> OThread t) (thread_list k)"
    using f(9) by (simp add: rt_object_detach_def kdefs list_del_def)
  moreover have "threads ?k' u = (if u = t then (threads k1 t)\<lparr>obj_type := 0\<rparr> else threads k u)" for u
    using th(7) [of u] by (simp add: rt_object_detach_def kdefs)
  ultimately show ?thesis by (simp add: reaped_def idle_time_def)
qed

lemma restrict_map_all [simp]: "m |` UNIV = m"
  by (simp add: restrict_map_def)

text \<open>The part with interrupts disabled, with the cleanup function.\<close>

lemma idle_take_ok:
  assumes i: "idle_time k" and q: "queues k Defunct = t # ts" and c: "cleanup_ok call own h0 J T" "t \<in> T"
    and J: "J (sems k) (waiters k)" and v: "heap_run h0 h live" "cleanup_memory own k t \<subseteq> dom live"
  obtains h1 k1 where "cleaned t (tlist_remove t k) k1" "heap_run h0 h1 (live |` (- cleanup_memory own k t))" "J (sems k1) (waiters k1)"
    "idle_take call (h, k) = Some (if rt_object_is_systemobject k (OThread t)
       then (Found_static t, h1, rt_object_detach (OThread t) k1) else (Found_dynamic t, h1, k1))"
proof -
  let ?kt = "tlist_remove t k"
  let ?k = "rt_enter_critical ?kt"
  note d = idle_timeD [OF i]
  have t: "t \<in> set (queues k Defunct)" by (simp add: q)
  have w: "waiters ?k = waiters k" "sems ?k = sems k" "threads ?k = threads k" "scheduler_lock_nest ?k = 1" "heap_calm ?k"
    using defunct_not_waiting [OF d(1) t] d(2,4)
    by (auto simp: rt_enter_critical_def kdefs list_del_notin heap_calm_def obj_is_def rt_object_get_type_def)
  have "\<exists>h1 k2. (if cleanup (threads ?k t) \<noteq> 0 then call (cleanup (threads ?k t)) t (h, ?k) else Some (h, ?k)) = Some (h1, k2) \<and>
      heap_run h0 h1 (live |` (- cleanup_memory own k t)) \<and> cleaned t ?k k2 \<and> J (sems k2) (waiters k2)"
  proof (cases "cleanup (threads k t) = 0")
    case True
    then show ?thesis using v(1) w J cleaned_refl [OF w(5), of t] by (simp add: cleanup_memory_def)
  next
    case False
    then show ?thesis using c(1) [unfolded cleanup_ok_def, rule_format, of t ?k h live] c(2) w J v by (simp add: cleanup_memory_def)
  qed
  then obtain h1 k2 where k2: "(if cleanup (threads ?k t) \<noteq> 0 then call (cleanup (threads ?k t)) t (h, ?k) else Some (h, ?k)) = Some (h1, k2)"
      "cleaned t ?k k2" "heap_run h0 h1 (live |` (- cleanup_memory own k t))" "J (sems k2) (waiters k2)" by blast
  let ?k1 = "k2\<lparr>scheduler_lock_nest := 0\<rparr>"
  have l: "scheduler_lock_nest k2 = 1" "ready_priority_group k2 = 0"
    using k2(2) w(4) d(3) by (simp_all add: cleaned_def rt_enter_critical_def kdefs)
  have sys: "rt_object_is_systemobject k2 (OThread t) = rt_object_is_systemobject k (OThread t)"
    unfolding cleaned_threads(5) [OF k2(2)] by (simp add: rt_object_is_systemobject_def rt_enter_critical_def kdefs)
  have s: "rt_exit_critical (rt_object_detach (OThread t) k2) = Some (rt_object_detach (OThread t) ?k1)"
    using l by (subst critical_pair) (simp_all add: rt_object_detach_def kdefs)
  have y: "rt_exit_critical k2 = Some ?k1" by (rule critical_pair [OF l])
  have "idle_take call (h, k) = Some (if rt_object_is_systemobject k (OThread t)
       then (Found_static t, h1, rt_object_detach (OThread t) ?k1) else (Found_dynamic t, h1, ?k1))"
    using d(5) k2(1) by (simp add: idle_take_def q sys s y Let_def)
  moreover have "cleaned t ?kt ?k1" using k2(2) d(4)
    by (auto simp: cleaned_def rt_enter_critical_def kdefs heap_calm_def obj_is_def rt_object_get_type_def)
  ultimately show ?thesis using that [of ?k1 h1] k2(3,4) by simp
qed

lemma idle_release_ok:
  assumes h0: "heap_rep h0 [(heap_size h0 + 12, False)]" and v: "heap_run h0 h live" and c: "heap_calm k"
    and dyn: "\<not> rt_object_is_systemobject k (OThread t)"
    and l: "stack_addr (threads k t) \<in> dom live" "addr t \<in> dom live" "addr t \<noteq> stack_addr (threads k t)"
  obtains h' where "idle_release addr t (h, k) = Some (Mem 0, h', rt_object_detach (OThread t) k)"
    "heap_run h0 h' (live(stack_addr (threads k t) := None, addr t := None))"
proof -
  let ?p = "stack_addr (threads k t)" and ?k = "rt_object_detach (OThread t) k"
  obtain h1 where f1: "rt_free ?p (h, k) = Some (Mem 0, h1, k)" "heap_run h0 h1 (live(?p := None))"
    by (rule rt_free_live [OF h0 v c l(1)])
  have a: "addr t \<in> dom (live(?p := None))" using l(2,3) by simp
  have "heap_calm ?k" using c by (simp add: heap_calm_def rt_object_detach_def obj_is_def rt_object_get_type_def kdefs)
  from rt_free_live [OF h0 f1(2) this a] obtain h2 where f2: "rt_free (addr t) (h1, ?k) = Some (Mem 0, h2, ?k)"
    "heap_run h0 h2 (live(?p := None, addr t := None))" by blast
  have "rt_object_delete (OThread t) k = Some ?k"
    using dyn by (simp add: rt_object_delete_def rt_object_is_systemobject_def rt_object_detach_def)
  then have "idle_release addr t (h, k) = Some (Mem 0, h2, ?k)" using f1(1) f2(1) by (simp add: idle_release_def)
  then show ?thesis using that f2(2) by blast
qed

lemma detach_waiters [simp]:
  "sems (rt_object_detach (OThread t) k) = sems k" "queues (rt_object_detach (OThread t) k) = queues k"
  by (simp_all add: rt_object_detach_def kdefs)

subsection \<open>All dead threads\<close>

text \<open>The last round: no dead thread is left, or a static one ends the call.\<close>

lemma idle_excute_last:
  assumes i: "idle_time k" and c: "cleanup_ok call own h0 J T" "set (take 1 rest) \<subseteq> T" and J: "J (sems k) (waiters k)"
    and q: "queues k Defunct = rest" and st: "rest \<noteq> [] \<Longrightarrow> rt_object_is_systemobject k (OThread (hd rest))"
    and v: "heap_run h0 h live" and m: "memory_apart addr own k (take 1 rest) (dom live)"
  shows "\<exists>h' k'. rt_thread_idle_excute call addr (h, k) = Some (Mem 0, h', k') \<and> reaped (take 1 rest) k k' \<and> J (sems k') (waiters k') \<and>
    heap_run h0 h' (live |` (- (\<Union>t \<in> set (take 1 rest). dead_memory addr own k t)))"
proof (cases rest)
  case Nil
  then have "rt_thread_idle_excute call addr (h, k) = Some (Mem 0, h, k)"
    using q by (simp add: rt_thread_idle_excute.simps has_defunct_thread_def tlist_isempty_def)
  then show ?thesis using Nil v J reaped_Nil [OF i] by simp
next
  case (Cons s ts)
  have sys: "rt_object_is_systemobject k (OThread s)" using st Cons by simp
  have own: "dead_memory addr own k s = cleanup_memory own k s" using sys by (simp add: dead_memory_def object_memory_def)
  then have o: "cleanup_memory own k s \<subseteq> dom live" using m Cons by (simp add: memory_apart_def)
  have s: "s \<in> T" using c(2) Cons by simp
  obtain h1 k1 where k1: "cleaned s (tlist_remove s k) k1" "heap_run h0 h1 (live |` (- cleanup_memory own k s))" "J (sems k1) (waiters k1)"
    "idle_take call (h, k) = Some (if rt_object_is_systemobject k (OThread s)
       then (Found_static s, h1, rt_object_detach (OThread s) k1) else (Found_dynamic s, h1, k1))"
    by (rule idle_take_ok [OF i q [unfolded Cons] c(1) s J v o])
  have "rt_thread_idle_excute call addr (h, k) = Some (Mem 0, h1, rt_object_detach (OThread s) k1)"
    using q Cons k1(4) sys by (simp add: rt_thread_idle_excute.simps has_defunct_thread_def tlist_isempty_def)
  moreover have "reaped [s] k (rt_object_detach (OThread s) k1)" by (rule reaped_one [OF i _ k1(1)]) (simp add: q Cons)
  ultimately show ?thesis using k1(2,3) by (simp add: Cons own)
qed

text \<open>A round for a dynamic thread.\<close>

lemma idle_excute_one:
  assumes i: "idle_time k" and c: "cleanup_ok call own h0 J T" "t \<in> T" and J: "J (sems k) (waiters k)" and q: "queues k Defunct = t # ts"
    and dyn: "\<not> rt_object_is_systemobject k (OThread t)"
    and v: "heap_run h0 h live" and m: "memory_apart addr own k (t # us) (dom live)" and h0: "heap_rep h0 [(heap_size h0 + 12, False)]"
  obtains h1 k1 where "rt_thread_idle_excute call addr (h, k) = rt_thread_idle_excute call addr (h1, k1)"
    "reaped [t] k k1" "J (sems k1) (waiters k1)" "heap_run h0 h1 (live |` (- dead_memory addr own k t))"
proof -
  have a: "cleanup_memory own k t \<subseteq> dom live" "stack_addr (threads k t) \<in> dom live" "addr t \<in> dom live"
    "stack_addr (threads k t) \<notin> cleanup_memory own k t" "addr t \<notin> cleanup_memory own k t" "addr t \<noteq> stack_addr (threads k t)"
    using m dyn by (auto simp: memory_apart_def dead_memory_def object_memory_def)
  obtain h1 k1 where k1: "cleaned t (tlist_remove t k) k1" "heap_run h0 h1 (live |` (- cleanup_memory own k t))" "J (sems k1) (waiters k1)"
    "idle_take call (h, k) = Some (if rt_object_is_systemobject k (OThread t)
       then (Found_static t, h1, rt_object_detach (OThread t) k1) else (Found_dynamic t, h1, k1))"
    by (rule idle_take_ok [OF i q c J v a(1)])
  have th: "stack_addr (threads k1 t) = stack_addr (threads k t)" "\<not> rt_object_is_systemobject k1 (OThread t)"
    using dyn unfolding cleaned_threads(5,6) [OF k1(1)] by (simp_all add: rt_object_is_systemobject_def kdefs)
  have calm: "heap_calm k1" using k1(1) by (simp add: cleaned_def)
  have l: "stack_addr (threads k1 t) \<in> dom (live |` (- cleanup_memory own k t))" "addr t \<in> dom (live |` (- cleanup_memory own k t))"
    "addr t \<noteq> stack_addr (threads k1 t)"
    using a th(1) by auto
  obtain h2 where r: "idle_release addr t (h1, k1) = Some (Mem 0, h2, rt_object_detach (OThread t) k1)"
    "heap_run h0 h2 ((live |` (- cleanup_memory own k t))(stack_addr (threads k1 t) := None, addr t := None))"
    by (rule idle_release_ok [where addr = addr, OF h0 k1(2) calm th(2) l])
  have "(live |` (- cleanup_memory own k t))(stack_addr (threads k1 t) := None, addr t := None) = live |` (- dead_memory addr own k t)"
    using dyn by (auto simp: th(1) restrict_map_def dead_memory_def object_memory_def)
  note r2 = r(2) [unfolded this]
  have "rt_thread_idle_excute call addr (h, k) = rt_thread_idle_excute call addr (h2, rt_object_detach (OThread t) k1)"
    using k1(4) dyn r(1) q
    by (simp add: rt_thread_idle_excute.simps [of call addr "(h, k)"] has_defunct_thread_def tlist_isempty_def)
  moreover have "reaped [t] k (rt_object_detach (OThread t) k1)" by (rule reaped_one [OF i _ k1(1)]) (simp add: q)
  ultimately show ?thesis using that [OF _ _ _ r2] k1(3) by simp
qed

lemma reaped_memory:
  assumes "reaped [t] k k1" "u \<noteq> t"
  shows "threads k1 u = threads k u" "rt_object_is_systemobject k1 (OThread u) = rt_object_is_systemobject k (OThread u)"
    "dead_memory addr own k1 u = dead_memory addr own k u" "object_memory addr k1 u = object_memory addr k u"
    "cleanup_memory own k1 u = cleanup_memory own k u"
  using assms
  by (simp_all add: reaped_def rt_object_is_systemobject_def dead_memory_def object_memory_def cleanup_memory_def)

lemma memory_apart_rest:
  assumes m: "memory_apart addr own k (t # us) (dom live)" and r: "reaped [t] k k1" and d: "t \<notin> set us"
  shows "memory_apart addr own k1 us (dom (live |` (- dead_memory addr own k t)))"
proof -
  have ne: "u \<noteq> t" if "u \<in> set us" for u using d that by blast
  note e = reaped_memory [OF r ne]
  have a: "dead_memory addr own k u \<inter> dead_memory addr own k t = {}" if "u \<in> set us" for u
    using m ne [OF that] that by (simp add: memory_apart_def)
  show ?thesis
    unfolding memory_apart_def
  proof (intro conjI ballI impI)
    fix u assume u: "u \<in> set us"
    show "dead_memory addr own k1 u \<subseteq> dom (live |` (- dead_memory addr own k t))"
      using m u a [OF u] e(3) [OF u] by (auto simp: memory_apart_def)
    show "object_memory addr k1 u \<inter> cleanup_memory own k1 u = {}" using m u e [OF u] by (simp add: memory_apart_def)
    show "stack_addr (threads k1 u) \<noteq> addr u" if "\<not> rt_object_is_systemobject k1 (OThread u)"
      using m u e [OF u] that by (simp add: memory_apart_def)
    fix w assume w: "w \<in> set us" "u \<noteq> w"
    show "dead_memory addr own k1 u \<inter> dead_memory addr own k1 w = {}"
      using m u w e(3) [OF u] e(3) [OF w(1)] by (simp add: memory_apart_def)
  qed
qed

lemma idle_excute_reaps:
  assumes "idle_time k" "cleanup_ok call own h0 J T" "set (ds @ take 1 rest) \<subseteq> T" "J (sems k) (waiters k)" "queues k Defunct = ds @ rest"
    "\<forall>t \<in> set ds. \<not> rt_object_is_systemobject k (OThread t)"
    "rest \<noteq> [] \<Longrightarrow> rt_object_is_systemobject k (OThread (hd rest))"
    "heap_run h0 h live" "memory_apart addr own k (ds @ take 1 rest) (dom live)"
    and h0: "heap_rep h0 [(heap_size h0 + 12, False)]"
  shows "\<exists>h' k'. rt_thread_idle_excute call addr (h, k) = Some (Mem 0, h', k') \<and> reaped (ds @ take 1 rest) k k' \<and> J (sems k') (waiters k') \<and>
    heap_run h0 h' (live |` (- (\<Union>t \<in> set (ds @ take 1 rest). dead_memory addr own k t)))"
  using assms(1-9)
proof (induction ds arbitrary: k h live)
  case Nil
  then show ?case using idle_excute_last [of k call own h0 J T rest h live addr] by simp
next
  case (Cons t ds)
  let ?ts = "ds @ take 1 rest"
  have q: "queues k Defunct = t # (ds @ rest)" and tT: "t \<in> T" and dyn: "\<not> rt_object_is_systemobject k (OThread t)"
    using Cons.prems(3,5,6) by simp_all
  have m: "memory_apart addr own k (t # ?ts) (dom live)" using Cons.prems(9) by simp
  have dist: "t \<notin> set (ds @ rest)" using idle_distinct [OF Cons.prems(1), of Defunct] unfolding q by simp
  then have d: "t \<notin> set ?ts" by (auto dest: in_set_takeD)
  obtain h1 k1 where k1: "rt_thread_idle_excute call addr (h, k) = rt_thread_idle_excute call addr (h1, k1)"
    "reaped [t] k k1" "J (sems k1) (waiters k1)" "heap_run h0 h1 (live |` (- dead_memory addr own k t))"
    by (rule idle_excute_one [OF Cons.prems(1,2) tT Cons.prems(4) q dyn Cons.prems(8) m h0])
  have "filter (\<lambda>u. u \<noteq> t) (ds @ rest) = ds @ rest" using dist by (intro filter_True) auto
  then have i1: "idle_time k1" and q1: "queues k1 Defunct = ds @ rest" using k1(2) q by (simp_all add: reaped_def)
  have same: "rt_object_is_systemobject k1 (OThread u) = rt_object_is_systemobject k (OThread u)"
    "dead_memory addr own k1 u = dead_memory addr own k u" if "u \<in> set (ds @ rest)" for u
    using reaped_memory(2,3) [OF k1(2), of u] that dist by auto
  have ih: "\<exists>h' k'. rt_thread_idle_excute call addr (h1, k1) = Some (Mem 0, h', k') \<and> reaped ?ts k1 k' \<and> J (sems k') (waiters k') \<and>
    heap_run h0 h' ((live |` (- dead_memory addr own k t)) |` (- (\<Union>u \<in> set ?ts. dead_memory addr own k1 u)))"
  proof (rule Cons.IH [OF i1 Cons.prems(2) _ k1(3) q1 _ _ k1(4) memory_apart_rest [OF m k1(2) d]])
    show "set ?ts \<subseteq> T" using Cons.prems(3) by simp
    show "\<forall>u \<in> set ds. \<not> rt_object_is_systemobject k1 (OThread u)" using Cons.prems(6) same(1) by simp
    show "rt_object_is_systemobject k1 (OThread (hd rest))" if "rest \<noteq> []" using Cons.prems(7) [OF that] same(1) that by simp
  qed
  have "(\<Union>u \<in> set ?ts. dead_memory addr own k1 u) = (\<Union>u \<in> set ?ts. dead_memory addr own k u)"
    using same(2) by (intro SUP_cong refl) (auto dest: in_set_takeD)
  then have "(live |` (- dead_memory addr own k t)) |` (- (\<Union>u \<in> set ?ts. dead_memory addr own k1 u)) =
      live |` (- (\<Union>u \<in> set ((t # ds) @ take 1 rest). dead_memory addr own k u))"
    by (simp add: Int_commute)
  then show ?case using ih reaped_Cons [OF k1(2) _ d] unfolding k1(1) by auto
qed

text \<open>
  The idle thread 4 runs alone.  Thread 7 was dynamic, with the heap's first two blocks as its
  stack and its object; the static thread 8 left a cleanup function; thread 9 is dynamic.
\<close>

definition dead_thread :: "u8 \<Rightarrow> u32 \<Rightarrow> u32 \<Rightarrow> rt_thread" where
  "dead_thread ty a c = (sample_thread RT_THREAD_CLOSE 10)\<lparr>obj_type := ty, stack_addr := a, sp := a + 4, cleanup := c\<rparr>"

definition idle_threads :: "tid \<Rightarrow> rt_thread" where
  "idle_threads t =
     (if t = 4 then sample_thread RT_THREAD_RUNNING 31 else if t = 7 then dead_thread 1 0x1010 0
      else if t = 8 then dead_thread 0x81 0x20002000 0x8000401 else if t = 9 then dead_thread 1 0x20003000 0 else zero_thread)"

definition idle_sample :: kernel where
  "idle_sample = calm_sample\<lparr>rt_current_thread := Some 4, ready_priority_group := 0, threads := idle_threads,
     queues := (\<lambda>q. if q = Defunct then [7, 8, 9] else [])\<rparr>"

lemma idle_sample_fields [simp]:
  "rt_current_thread idle_sample = Some 4" "ready_priority_group idle_sample = 0" "threads idle_sample = idle_threads"
  "queues idle_sample q = (if q = Defunct then [7, 8, 9] else [])" "timers idle_sample = sample_timers"
  "rt_timer_list idle_sample = []" "rt_soft_timer_list idle_sample = []" "scheduler_lock_nest idle_sample = 0"
  by (simp_all add: idle_sample_def calm_sample_def upd_sem_def)

lemma idle_sample_time: "idle_time idle_sample"
proof -
  have th: "is_thread idle_sample t \<longleftrightarrow> t \<in> {4, 7, 8, 9}" for t
    by (simp add: is_thread_def idle_threads_def dead_thread_def)
  have st: "tstat idle_sample t = (if t = 4 then RT_THREAD_RUNNING else if t \<in> {7, 8, 9} then RT_THREAD_CLOSE else RT_THREAD_INIT)" for t
    by (simp add: tstat_def idle_threads_def dead_thread_def)
  have ok: "thread_ok idle_sample t" if "is_thread idle_sample t" for t
    using that unfolding th thread_ok_def started_def st
    by (auto simp: tprio_def idle_threads_def dead_thread_def scheduler_stack_ok_def sample_thread_def zero_thread_def)
  have "sched_inv {} idle_sample"
    unfolding sched_inv_def queues_ok_def group_ok_def placed_def in_queue_def using ok
    by (auto simp: st)
  moreover have "cur_inv idle_sample" unfolding cur_inv_def by (simp add: st th)
  moreover have "tm_inv idle_sample"
  proof (rule tm_invI)
    show "thread_timer_ok idle_sample t" for t
      by (simp add: thread_timer_ok_def timer_is_type_def rt_object_get_type_def timer_on_def
          rt_object_is_systemobject_def sample_timers_def zero_timer_def)
  qed (simp_all add: linked_def sample_timers_def)
  moreover have "heap_calm idle_sample"
    using calm_sample by (simp add: heap_calm_def idle_sample_def obj_is_def rt_object_get_type_def)
  ultimately show ?thesis by (simp add: idle_time_def kinv_def)
qed

text \<open>The next block of 12 bytes of the sample heap.\<close>

lemma sample_next:
  assumes v: "heap_run sample_heap h live" and h: "heap_rep h (as @ [(n, False)])" "lfree_lowest h (as @ [(n, False)])"
    and n: "24 < n" and as: "\<forall>x \<in> set as. snd x" and f: "heap_ptr h = 0x1004" "mem_size_aligned h = 72"
  shows "\<exists>h'. heap_run sample_heap h' (live(adr h (bsize as + 12) \<mapsto> 12)) \<and> heap_rep h' (as @ split_block 12 n) \<and>
    lfree_lowest h' (as @ split_block 12 n) \<and> heap_ptr h' = 0x1004 \<and> mem_size_aligned h' = 72"
proof -
  have sz: "malloc_size 12 h = Some 12" using f by (simp add: malloc_size_def rt_align_def)
  have so: "size_ok h 12" using f by (simp add: size_ok_def)
  have fo: "bsize as \<in> free_offsets (as @ [(n, False)])" by (auto simp: free_offsets_def)
  then have lo: "lfree h \<le> adr h (bsize as)" using h(2) by (simp add: lfree_lowest_def)
  obtain p h' where m: "malloc_locked 12 h = Some (p, h')" and c: "p = 0 \<and> h' = h \<and> (\<forall>bs l cs. as @ [(n, False)] = bs @ (l, False) # cs \<longrightarrow>
      lfree h \<le> adr h (bsize bs) \<longrightarrow> l < unat (12 :: u32) + 12 \<or> l = unat (12 :: u32) + 12 \<and> cs = []) \<or>
     (\<exists>bs'. malloc_done 12 h (as @ [(n, False)]) p h' bs' \<and> heap_rep h' bs' \<and> (lfree_lowest h (as @ [(n, False)]) \<longrightarrow> lfree_lowest h' bs'))"
    using malloc_locked_ok [OF h(1) so] by blast
  have one: "bs = as \<and> l = n \<and> cs = []" if "as @ [(n, False)] = bs @ (l, False) # cs" for bs l cs
  proof (cases cs rule: rev_cases)
    case (snoc cs' x)
    then have "(l, False) \<in> set as" using that by (metis append_eq_append_conv2 butlast_snoc append_is_Nil_conv in_set_conv_decomp append.assoc append_Cons)
    then show ?thesis using as by auto
  qed (use that in auto)
  then obtain bs' where bs': "malloc_done 12 h (as @ [(n, False)]) p h' bs'" "heap_rep h' bs'" "lfree_lowest h' bs'"
    using c n lo h(2) by fastforce
  have "p \<noteq> 0" by (rule malloc_done_nonzero [OF h(1) bs'(1)])
  moreover have "p = adr h (bsize as + 12)" "bs' = as @ split_block 12 n" "same_area h h'"
    using bs'(1) by (auto simp: malloc_done_def dest!: one)
  ultimately show ?thesis using heap_run.malloc [OF v sz m] f bs'(2,3) by (auto simp: same_area_def)
qed

lemma sample_three_blocks:
  "\<exists>h. heap_run sample_heap h [0x1010 \<mapsto> 12, 0x1028 \<mapsto> 12, 0x1040 \<mapsto> 12]"
proof -
  obtain h1 where 1: "heap_run sample_heap h1 [0x1010 \<mapsto> 12]" "heap_rep h1 [(24, True), (60, False)]" "lfree_lowest h1 [(24, True), (60, False)]"
    "heap_ptr h1 = 0x1004" "mem_size_aligned h1 = 72"
    using sample_next [of sample_heap Map.empty "[]" 84] heap_run.start sample_heap_rep by (auto simp: split_block_def)
  obtain h2 where 2: "heap_run sample_heap h2 [0x1010 \<mapsto> 12, 0x1028 \<mapsto> 12]" "heap_rep h2 [(24, True), (24, True), (36, False)]"
    "lfree_lowest h2 [(24, True), (24, True), (36, False)]" "heap_ptr h2 = 0x1004" "mem_size_aligned h2 = 72"
    using sample_next [of h1 _ "[(24, True)]" 60] 1 by (auto simp: split_block_def)
  show ?thesis
    using sample_next [of h2 _ "[(24, True), (24, True)]" 36] 2 by (auto simp: split_block_def)
qed

subsection \<open>The property\<close>

text \<open>C28: When the idle thread runs alone, nobody has the heap's semaphore, and the cleanup functions of the
  dead threads return, wake no thread and change nothing but semaphores, other objects and memory of their own,
  a call of \<open>rt_thread_idle_excute\<close> ends.  Every dynamic thread in front of the first static one leaves the
  list of dead threads and the object system, and its stack and object return to the heap with
  what its cleanup function released; a static thread is cleaned and detached and ends the call, so the threads
  behind it stay.\<close>

theorem idle_returns_memory:
  assumes "idle_time k" "heap_rep h0 [(heap_size h0 + 12, False)]" "heap_run h0 h live"
    and "queues k Defunct = ds @ rest" "\<forall>t \<in> set ds. \<not> rt_object_is_systemobject k (OThread t)"
    and "rest = [] \<or> rt_object_is_systemobject k (OThread (hd rest))"
    and "ts = ds @ take 1 rest" "memory_apart addr own k ts (dom live)"
    and "cleanup_ok call own h0 J (set ts)" "J (sems k) (waiters k)"
  shows "\<exists>h' k'. rt_thread_idle_excute call addr (h, k) = Some (Mem 0, h', k') \<and>
    idle_time k' \<and> queues k' Defunct = tl rest \<and> heap_run h0 h' (live |` (- (\<Union>t \<in> set ts. dead_memory addr own k t))) \<and>
    (\<forall>t. obj_type (threads k' t) = (if t \<in> set ts then 0 else obj_type (threads k t))) \<and>
    thread_list k' = filter (\<lambda>ob. ob \<notin> OThread ` set ts) (thread_list k)"
proof -
  obtain h' k' where k': "rt_thread_idle_excute call addr (h, k) = Some (Mem 0, h', k')" "reaped ts k k'"
    "heap_run h0 h' (live |` (- (\<Union>t \<in> set ts. dead_memory addr own k t)))"
    using idle_excute_reaps [OF assms(1,9) _ assms(10,4,5) _ assms(3) _ assms(2), of addr] assms(6,8) unfolding assms(7) by blast
  have d: "distinct (ds @ rest)" using idle_distinct [OF assms(1), of Defunct] unfolding assms(4) .
  have "filter (\<lambda>u. u \<notin> set ts) (ds @ rest) = tl rest" using d assms(7) by (cases rest) (auto simp: filter_id_conv)
  then have "queues k' Defunct = tl rest" using k'(2) assms(4) by (simp add: reaped_def)
  then show ?thesis using k' by (auto simp: reaped_def)
qed

text \<open>
  The cleanup function of thread 8 releases a block of memory and a semaphore for which no thread waits.
\<close>

definition sample_cleanup :: cleanup_call where
  "sample_cleanup f t s = do {
     (_, h, k) \<leftarrow> rt_free 0x1040 s;
     (_, k1) \<leftarrow> rt_sem_release 2 k;
     Some (h, k1)
   }"

definition sample_joinable :: "(nat \<Rightarrow> rt_semaphore) \<Rightarrow> (objref \<Rightarrow> tid list) \<Rightarrow> bool" where
  "sample_joinable ss ws \<longleftrightarrow> obj_type (ss 2) AND NOT RT_Object_Class_Static = class_code RT_Object_Class_Semaphore \<and> ws (OSem 2) = []"

lemma idle_returns_memory_witness:
  "\<exists>h h' k'. heap_run sample_heap h [0x1010 \<mapsto> 12, 0x1028 \<mapsto> 12, 0x1040 \<mapsto> 12] \<and>
     rt_thread_idle_excute sample_cleanup (\<lambda>t. 0x1028) (h, idle_sample) = Some (Mem 0, h', k') \<and>
     queues k' Defunct = [9] \<and> heap_run sample_heap h' Map.empty"
proof -
  let ?own = "\<lambda>t :: tid. {0x1040 :: u32}" and ?live = "[0x1010 \<mapsto> 12, 0x1028 \<mapsto> 12, 0x1040 \<mapsto> 12] :: u32 \<Rightarrow> nat option"
  obtain h where h: "heap_run sample_heap h ?live" using sample_three_blocks by blast
  have h0: "heap_rep sample_heap [(heap_size sample_heap + 12, False)]" using sample_heap_rep(1) by simp
  have ok: "cleanup_ok sample_cleanup ?own sample_heap sample_joinable (set [7, 8])"
    unfolding cleanup_ok_def
  proof (intro ballI allI impI, elim conjE)
    fix t h k live
    assume c: "heap_calm k" and J: "sample_joinable (sems k) (waiters k)" and v: "heap_run sample_heap h live" and l: "{0x1040} \<subseteq> dom live"
    obtain h' where f: "rt_free 0x1040 (h, k) = Some (Mem 0, h', k)" "heap_run sample_heap h' (live(0x1040 := None))"
      by (rule rt_free_live [OF h0 v c]) (use l in auto)
    have r: "rt_sem_release 2 k = Some (RT_EOK, upd_sem 2 (sem_value_update (\<lambda>v. v + 1)) k)"
      using J by (simp add: sample_joinable_def rt_sem_release_def obj_is_def rt_object_get_type_def tlist_isempty_def)
    have m: "live(0x1040 := None) = live |` (- {0x1040})" by (auto simp: restrict_map_def)
    have "cleaned t k (upd_sem 2 (sem_value_update (\<lambda>v. v + 1)) k)"
      using cleaned_refl [OF c, of t] c by (auto simp: cleaned_def heap_calm_def upd_sem_def heap_sem_def obj_is_def rt_object_get_type_def)
    then show "\<exists>h' k'. sample_cleanup (cleanup (threads k t)) t (h, k) = Some (h', k') \<and> heap_run sample_heap h' (live |` (- {0x1040})) \<and>
        cleaned t k k' \<and> sample_joinable (sems k') (waiters k')"
      using f r J unfolding m by (auto simp: sample_cleanup_def sample_joinable_def upd_sem_def)
  qed
  have mem: "dead_memory (\<lambda>t. 0x1028) ?own idle_sample 7 = {0x1010, 0x1028}" "dead_memory (\<lambda>t. 0x1028) ?own idle_sample 8 = {0x1040}"
    by (auto simp: dead_memory_def object_memory_def cleanup_memory_def rt_object_is_systemobject_def idle_threads_def dead_thread_def)
  have apart: "memory_apart (\<lambda>t. 0x1028) ?own idle_sample [7, 8] (dom ?live)"
    unfolding memory_apart_def list.set
    by (simp add: mem) (auto simp: object_memory_def cleanup_memory_def rt_object_is_systemobject_def idle_threads_def dead_thread_def)
  have m: "?live |` (- (\<Union>t \<in> set [7, 8]. dead_memory (\<lambda>t. 0x1028) ?own idle_sample t)) = Map.empty"
    by (auto simp: mem restrict_map_def)
  have J: "sample_joinable (sems idle_sample) (waiters idle_sample)"
    by (simp add: sample_joinable_def idle_sample_def calm_sample_def upd_sem_def heap_sem_def)
  show ?thesis
    using idle_returns_memory [OF idle_sample_time h0 h, of "[7]" "[8, 9]" "[7, 8]" "\<lambda>t. 0x1028" ?own, OF _ _ _ _ apart ok J, unfolded m] h
    by (simp add: rt_object_is_systemobject_def idle_threads_def dead_thread_def) blast
qed

end
