(* ===== verification/Completion.thy ===== *)
theory Completion
  imports SemProps
begin

unbundle bit_operations_syntax

section \<open>Completions (rt-thread/components/drivers/src/completion.c)\<close>

text \<open>
  A completion is a flag and the list of the threads that wait for it; the state of completion
  \<open>n\<close> is its flag next to the kernel, whose queue \<open>Completing n\<close> is the list.  Only one thread
  may wait at a time.  A wait is split at the call of the scheduler, as for the IPC objects.
\<close>

abbreviation RT_UNCOMPLETED :: u32 where "RT_UNCOMPLETED \<equiv> 0"
abbreviation RT_COMPLETED :: u32 where "RT_COMPLETED \<equiv> 1"

type_synonym comp_state = "u32 \<times> kernel"

definition rt_completion_init :: "nat \<Rightarrow> comp_state \<Rightarrow> comp_state" where
  "rt_completion_init n s = (case s of (flag, k) \<Rightarrow> (RT_UNCOMPLETED, k\<lparr>queues := (queues k)(Completing n := [])\<rparr>))"

definition rt_completion_wait :: "nat \<Rightarrow> u32 \<Rightarrow> comp_state \<Rightarrow> (outcome \<times> comp_state) option" where
  "rt_completion_wait n timeout s = (case s of (flag, k) \<Rightarrow>
     if flag \<noteq> RT_COMPLETED then do {
       require (tlist_isempty (Completing n) k);
       if timeout = 0 then Some (Returned (- RT_ETIMEOUT), flag, k)
       else do {
         t \<leftarrow> rt_thread_self k;
         require (interrupt_nest k = 0);
         k1 \<leftarrow> ipc_wait (Completing n) t RT_IPC_FLAG_FIFO timeout (set_error t RT_EOK k);
         k2 \<leftarrow> rt_schedule k1;
         Some (Blocked 0, flag, k2)
       }
     }
     else Some (Returned RT_EOK, RT_UNCOMPLETED, k))"

definition rt_completion_wait_resume :: "tid \<Rightarrow> comp_state \<Rightarrow> rt_err \<times> comp_state" where
  "rt_completion_wait_resume t s = (case s of (flag, k) \<Rightarrow> (thread_error (threads k t), RT_UNCOMPLETED, k))"

definition rt_completion_done :: "nat \<Rightarrow> comp_state \<Rightarrow> comp_state option" where
  "rt_completion_done n s = (case s of (flag, k) \<Rightarrow>
     if flag = RT_COMPLETED then Some (flag, k)
     else if \<not> tlist_isempty (Completing n) k then do {
       k1 \<leftarrow> rt_ipc_list_resume (Completing n) k;
       k2 \<leftarrow> rt_schedule k1;
       Some (RT_COMPLETED, k2)
     }
     else Some (RT_COMPLETED, k))"

subsection \<open>What happens around the calls\<close>

text \<open>
  Steps of the kernel that concern no list: the timer check that wakes a thread, scheduling, the
  tick and interrupts.  Threads leave waiting lists by them but never enter one.
\<close>

inductive kernel_step :: "kernel \<Rightarrow> kernel \<Rightarrow> bool" where
  timeout: "check_inv b k \<Longrightarrow> rt_timer_list k = ThreadTimer t # xs \<Longrightarrow>
    timer_check_step cb (rt_tick k) k = Some (Inr (tick, k')) \<Longrightarrow> kernel_step k k'"
| schedule: "rt_current_thread k \<noteq> None \<Longrightarrow> rt_schedule k = Some k' \<Longrightarrow> kernel_step k k'"
| tick: "kernel_step k (rt_tick_set tick k)"
| interrupt: "kernel_step k (rt_interrupt_enter k)"
| interrupt_end: "kernel_step k (rt_interrupt_leave k)"

text \<open>The waiting list \<open>q'\<close> is \<open>q\<close> without some of its threads.\<close>

definition thins :: "tid list \<Rightarrow> tid list \<Rightarrow> bool" where
  "thins xs ys \<longleftrightarrow> (\<exists>P. ys = filter P xs)"

lemma thins_refl [simp]: "thins xs xs"
  unfolding thins_def by (rule exI [of _ "\<lambda>_. True"]) simp

lemma thins_del [simp]: "thins xs (list_del t xs)"
  unfolding thins_def list_del_def by (rule exI) simp

lemma thinsD: "thins xs ys \<Longrightarrow> length ys \<le> length xs" "thins xs ys \<Longrightarrow> set ys \<subseteq> set xs" "thins [] ys \<Longrightarrow> ys = []"
  by (auto simp: thins_def)

lemma kernel_step_ok:
  assumes "kernel_step k k'" "kinv k"
  shows "kinv k' \<and> (\<forall>q. waiting_queue q \<longrightarrow> thins (queues k q) (queues k' q))"
  using assms
proof (induction rule: kernel_step.induct)
  case (timeout b k t xs cb tick k')
  have due: "rt_tick k - timeout_tick (timers k (ThreadTimer t)) < RT_TICK_HALF"
    using timeout.hyps(2,3) by (auto simp: timer_check_step_def split: if_splits)
  obtain k'' where "timer_check_step cb (rt_tick k) k = Some (Inr (rt_tick k'', k''))" "check_inv b k''"
    "\<And>r. waiting_queue r \<Longrightarrow> queues k'' r = list_del t (queues k r)"
    by (rule thread_timer_step [OF timeout.hyps(1,2) due, where cb = cb]) blast
  then show ?case using timeout.hyps(3) check_invD(1) [of b k'] by auto
next
  case (schedule k k')
  then show ?case using rt_schedule_kinv [OF schedule.prems schedule.hyps(1)] rt_schedule_waiting [OF schedule.prems schedule.hyps(2)]
    by (metis option.inject thins_refl)
qed (simp_all add: rt_tick_set_def rt_interrupt_enter_def rt_interrupt_leave_def kinv_counters)

subsection \<open>Runs of a completion\<close>

text \<open>
  Any interleaving of calls on completion \<open>n\<close> and steps of the kernel; a woken thread finishes its
  wait at any later time.
\<close>

inductive comp_run :: "nat \<Rightarrow> comp_state \<Rightarrow> comp_state \<Rightarrow> bool" for n s0 where
  start: "comp_run n s0 s0"
| wait: "comp_run n s0 (f, k) \<Longrightarrow> in_call k c \<Longrightarrow> timeout_ok time \<Longrightarrow>
    rt_completion_wait n time (f, k) = Some (oc, s') \<Longrightarrow> comp_run n s0 s'"
| resume: "comp_run n s0 s \<Longrightarrow> rt_completion_wait_resume t s = (r, s') \<Longrightarrow> comp_run n s0 s'"
| finish: "comp_run n s0 (f, k) \<Longrightarrow> rt_current_thread k \<noteq> None \<Longrightarrow> rt_completion_done n (f, k) = Some s' \<Longrightarrow> comp_run n s0 s'"
| kernel: "comp_run n s0 (f, k) \<Longrightarrow> kernel_step k k' \<Longrightarrow> comp_run n s0 (f, k')"

definition comp_inv :: "nat \<Rightarrow> comp_state \<Rightarrow> bool" where
  "comp_inv n s \<longleftrightarrow> (case s of (flag, k) \<Rightarrow> kinv k \<and> flag \<in> {RT_UNCOMPLETED, RT_COMPLETED} \<and>
     length (queues k (Completing n)) \<le> 1 \<and> (flag = RT_COMPLETED \<longrightarrow> queues k (Completing n) = []))"

lemma completion_wait_ok:
  assumes i: "comp_inv n (f, k)" and c: "in_call k c" and to: "timeout_ok time" and one: "queues k (Completing n) = []"
  obtains oc s' where "rt_completion_wait n time (f, k) = Some (oc, s')" "comp_inv n s'"
    "if f = RT_COMPLETED then oc = Returned RT_EOK \<and> s' = (RT_UNCOMPLETED, k)
     else if time = 0 then oc = Returned (- RT_ETIMEOUT) \<and> s' = (f, k)
     else oc = Blocked 0 \<and> fst s' = f \<and> waits_on (Completing n) RT_IPC_FLAG_FIFO c time (set_error c RT_EOK k) (snd s')"
proof (cases "f = RT_COMPLETED \<or> time = 0")
  case True
  then show ?thesis using i one that by (auto simp: rt_completion_wait_def comp_inv_def tlist_isempty_def require_def)
next
  case False
  have wq: "waiting_queue (Completing n)" by simp
  obtain k1 k2 where k2: "ipc_wait (Completing n) c RT_IPC_FLAG_FIFO time (set_error c RT_EOK k) = Some k1" "rt_schedule k1 = Some k2"
    "waits_on (Completing n) RT_IPC_FLAG_FIFO c time (set_error c RT_EOK k) k2"
    by (rule call_wait_ok [OF c to wq]) blast
  have "rt_completion_wait n time (f, k) = Some (Blocked 0, f, k2)"
    using False one k2(1,2) in_callD [OF c] by (simp add: rt_completion_wait_def tlist_isempty_def require_def)
  moreover have "comp_inv n (f, k2)"
    using k2(3) i False one by (auto simp: comp_inv_def waits_on_def wait_insert_def)
  ultimately show ?thesis using that k2(3) False by simp
qed

lemma completion_done_ok:
  assumes i: "comp_inv n (f, k)" and c: "rt_current_thread k \<noteq> None"
  obtains k' where "rt_completion_done n (f, k) = Some (RT_COMPLETED, k')" "comp_inv n (RT_COMPLETED, k')"
    "case queues k (Completing n) of [] \<Rightarrow> k' = k | t # ts \<Rightarrow> wakes (Completing n) t k k'"
proof (cases "queues k (Completing n)")
  case Nil
  then show ?thesis using that [of k] i by (auto simp: rt_completion_done_def comp_inv_def tlist_isempty_def)
next
  case (Cons t ts)
  then have f: "f \<noteq> RT_COMPLETED" "ts = []" "kinv k" using i by (auto simp: comp_inv_def)
  have wq: "waiting_queue (Completing n)" by simp
  obtain k1 k2 where k2: "rt_ipc_list_resume (Completing n) k = Some k1" "rt_schedule k1 = Some k2" "wakes (Completing n) t k k2"
    by (rule ipc_wake_ok [OF f(3) wq Cons c]) blast
  then show ?thesis using that [of k2] f Cons
    by (simp add: rt_completion_done_def tlist_isempty_def comp_inv_def wakes_def)
qed

lemma comp_run_inv:
  assumes "comp_run n s0 s" "comp_inv n s0"
  shows "comp_inv n s"
  using assms
proof (induction rule: comp_run.induct)
  case (wait f k c time oc s')
  then have i: "comp_inv n (f, k)" by simp
  have one: "queues k (Completing n) = []"
    using i wait.hyps(4) by (auto simp: comp_inv_def rt_completion_wait_def require_def tlist_isempty_def split: if_splits)
  show ?case using completion_wait_ok [OF i wait.hyps(2,3) one] wait.hyps(4) by (metis option.inject prod.inject)
next
  case (resume s t r s')
  then show ?case by (auto simp: comp_inv_def rt_completion_wait_resume_def split: prod.splits)
next
  case (finish f k s')
  then have i: "comp_inv n (f, k)" by simp
  show ?case using completion_done_ok [OF i finish.hyps(2)] finish.hyps(3) by (metis option.inject)
next
  case (kernel f k k')
  then have i: "comp_inv n (f, k)" by simp
  then have "kinv k'" "thins (queues k (Completing n)) (queues k' (Completing n))"
    using kernel_step_ok [OF kernel.hyps(2)] by (simp_all add: comp_inv_def)
  then show ?case using i thinsD(1,3) by (fastforce simp: comp_inv_def)
qed simp

text \<open>
  A waiting thread that timed out clears the flag when it returns: a completion that came in
  between is lost.
\<close>

lemma completion_lost:
  assumes "thread_error (threads k t) = - RT_ETIMEOUT"
  shows "rt_completion_wait_resume t (RT_COMPLETED, k) = (- RT_ETIMEOUT, RT_UNCOMPLETED, k)"
  using assms by (simp add: rt_completion_wait_resume_def)

text \<open>C31: Over every interleaving of waits, completions, timeouts and scheduling, at most one thread waits
  for a completion and none while it is done; so \<open>rt_completion_done\<close> never fails, leaves nobody
  waiting, and makes the thread that waited ready to run.\<close>

theorem completion_no_missed_wakeup:
  assumes "comp_run n s0 (f, k)" "comp_inv n s0" "rt_current_thread k \<noteq> None"
  shows "length (queues k (Completing n)) \<le> 1 \<and> (f = RT_COMPLETED \<longrightarrow> queues k (Completing n) = []) \<and>
    (\<exists>k'. rt_completion_done n (f, k) = Some (RT_COMPLETED, k') \<and> queues k' (Completing n) = [] \<and>
       (\<forall>t \<in> set (queues k (Completing n)). tstat k' t \<in> {RT_THREAD_READY, RT_THREAD_RUNNING}))"
proof -
  have i: "comp_inv n (f, k)" by (rule comp_run_inv [OF assms(1,2)])
  obtain k' where k': "rt_completion_done n (f, k) = Some (RT_COMPLETED, k')" "comp_inv n (RT_COMPLETED, k')"
    "case queues k (Completing n) of [] \<Rightarrow> k' = k | t # ts \<Rightarrow> wakes (Completing n) t k k'"
    by (rule completion_done_ok [OF i assms(3)])
  have "\<forall>t \<in> set (queues k (Completing n)). tstat k' t \<in> {RT_THREAD_READY, RT_THREAD_RUNNING}"
    using k'(3) i by (cases "queues k (Completing n)") (auto simp: wakes_def comp_inv_def)
  then show ?thesis using i k'(1,2) by (auto simp: comp_inv_def)
qed

lemma completion_no_missed_wakeup_witness:
  "\<exists>k1 k2. rt_completion_wait 0 5 (RT_UNCOMPLETED, sample) = Some (Blocked 0, RT_UNCOMPLETED, k1) \<and>
     rt_completion_done 0 (RT_UNCOMPLETED, k1) = Some (RT_COMPLETED, k2) \<and> queues k1 (Completing 0) = [1] \<and> queues k2 (Completing 0) = [] \<and>
     tstat k2 1 \<in> {RT_THREAD_READY, RT_THREAD_RUNNING}"
proof -
  have e: "queues sample (Completing 0) = []" by (simp add: sample_queues_def)
  have i: "comp_inv 0 (RT_UNCOMPLETED, sample)" by (simp add: comp_inv_def sample_kinv sample_queues_def)
  have to: "timeout_ok 5" by (simp add: timeout_ok_def)
  obtain oc s' where w: "rt_completion_wait 0 5 (RT_UNCOMPLETED, sample) = Some (oc, s')" "oc = Blocked 0" "fst s' = RT_UNCOMPLETED"
    "waits_on (Completing 0) RT_IPC_FLAG_FIFO 1 5 (set_error 1 RT_EOK sample) (snd s')"
    by (rule completion_wait_ok [OF i sample_in_call to e]) auto
  obtain k1 where k1: "s' = (RT_UNCOMPLETED, k1)" using w(3) by (cases s') simp
  have q: "queues k1 (Completing 0) = [1]" "rt_current_thread k1 \<noteq> None"
    using w(4) e by (auto simp: k1 waits_on_def wait_insert_def)
  have "comp_run 0 (RT_UNCOMPLETED, sample) (RT_UNCOMPLETED, k1)"
    using comp_run.wait [OF comp_run.start sample_in_call to w(1)] by (simp add: k1)
  from completion_no_missed_wakeup [OF this i q(2)] show ?thesis using w(1,2) q(1) by (auto simp: k1)
qed

end
