(* ===== verification/DataQueue.thy ===== *)
theory DataQueue
  imports Completion
begin

unbundle bit_operations_syntax

section \<open>Data queues (rt-thread/components/drivers/src/dataqueue.c)\<close>

text \<open>
  A ring of items, each the address and the size of a buffer, with running 16-bit indices, and
  the lists of the threads that wait to push and to pop (\<open>Pushers n\<close> and \<open>Poppers n\<close> of the
  kernel).  The code compares the indices as C integers, without their wrap-around.  A call
  that may block is split at the call of the scheduler; its continuation runs the loop again.
  \<open>notify\<close> is the function whose address \<open>dq_notify\<close> holds, 0 for none.
\<close>

record rt_data_queue =
  dq_size :: u16
  dq_lwm :: u16
  dq_get :: u16
  dq_put :: u16
  dq_items :: "(u32 \<times> u32) list"
  dq_notify :: u32

type_synonym dq_state = "rt_data_queue \<times> kernel"

abbreviation RT_DATAQUEUE_EVENT_POP :: u32 where "RT_DATAQUEUE_EVENT_POP \<equiv> 1"
abbreviation RT_DATAQUEUE_EVENT_PUSH :: u32 where "RT_DATAQUEUE_EVENT_PUSH \<equiv> 2"
abbreviation RT_DATAQUEUE_EVENT_LWM :: u32 where "RT_DATAQUEUE_EVENT_LWM \<equiv> 3"

text \<open>\<open>mem\<close>: the items that \<open>rt_malloc\<close> provides, \<open>None\<close> without memory.\<close>

definition rt_data_queue_init ::
    "nat \<Rightarrow> u16 \<Rightarrow> u16 \<Rightarrow> u32 \<Rightarrow> (u32 \<times> u32) list option \<Rightarrow> dq_state \<Rightarrow> rt_err \<times> dq_state" where
  "rt_data_queue_init n size_arg lwm notify_addr mem s = (case s of (q, k) \<Rightarrow>
     let k1 = k\<lparr>queues := (queues k)(Pushers n := [], Poppers n := [])\<rparr>;
         q1 = q\<lparr>dq_notify := notify_addr, dq_size := size_arg, dq_lwm := lwm, dq_get := 0, dq_put := 0\<rparr>
     in (case mem of None \<Rightarrow> (- RT_ENOMEM, q1\<lparr>dq_items := []\<rparr>, k1)
         | Some xs \<Rightarrow> (RT_EOK, q1\<lparr>dq_items := xs\<rparr>, k1)))"

definition dq_fill :: "rt_data_queue \<Rightarrow> int" where
  "dq_fill q = uint (dq_put q) - uint (dq_get q)"

definition dq_index :: "u16 \<Rightarrow> rt_data_queue \<Rightarrow> nat option" where
  "dq_index i q = do {
     require (dq_size q \<noteq> 0);
     let j = unat i mod unat (dq_size q);
     require (j < length (dq_items q));
     Some j
   }"

text \<open>The bodies of the operations between the waiting and the waking.\<close>

definition dq_store :: "u32 \<Rightarrow> u32 \<Rightarrow> rt_data_queue \<Rightarrow> rt_data_queue option" where
  "dq_store ptr sz q = do {
     j \<leftarrow> dq_index (dq_put q) q;
     Some (q\<lparr>dq_items := (dq_items q)[j := (ptr, sz)], dq_put := dq_put q + 1\<rparr>)
   }"

definition dq_fetch :: "rt_data_queue \<Rightarrow> ((u32 \<times> u32) \<times> rt_data_queue) option" where
  "dq_fetch q = do {
     j \<leftarrow> dq_index (dq_get q) q;
     Some (dq_items q ! j, q\<lparr>dq_get := dq_get q + 1\<rparr>)
   }"

type_synonym dq_notifier = "u32 \<Rightarrow> u32 \<Rightarrow> dq_state \<Rightarrow> dq_state option"

definition dq_tell :: "dq_notifier \<Rightarrow> u32 \<Rightarrow> dq_state \<Rightarrow> dq_state option" where
  "dq_tell notify ev s = (if dq_notify (fst s) \<noteq> 0 then notify (dq_notify (fst s)) ev s else Some s)"

text \<open>One round of waiting on a list.\<close>

definition dq_wait :: "queue \<Rightarrow> u32 \<Rightarrow> kernel \<Rightarrow> kernel option" where
  "dq_wait lst timeout k = do {
     require (interrupt_nest k = 0);
     t \<leftarrow> rt_thread_self k;
     k1 \<leftarrow> ipc_wait lst t RT_IPC_FLAG_FIFO timeout (set_error t RT_EOK k);
     rt_schedule k1
   }"

definition rt_data_queue_push ::
    "dq_notifier \<Rightarrow> nat \<Rightarrow> u32 \<Rightarrow> u32 \<Rightarrow> u32 \<Rightarrow> dq_state \<Rightarrow> (outcome \<times> dq_state) option" where
  "rt_data_queue_push notify n ptr sz timeout s = (case s of (q, k) \<Rightarrow>
     if dq_fill q = uint (dq_size q) then
       if timeout = 0 then Some (Returned (- RT_ETIMEOUT), q, k)
       else do { k1 \<leftarrow> dq_wait (Pushers n) timeout k; Some (Blocked timeout, q, k1) }
     else do {
       q1 \<leftarrow> dq_store ptr sz q;
       if \<not> tlist_isempty (Poppers n) k then do {
         k1 \<leftarrow> rt_ipc_list_resume (Poppers n) k;
         k2 \<leftarrow> rt_schedule k1;
         Some (Returned RT_EOK, q1, k2)
       }
       else do {
         s2 \<leftarrow> dq_tell notify RT_DATAQUEUE_EVENT_PUSH (q1, k);
         Some (Returned RT_EOK, s2)
       }
     })"

definition rt_data_queue_push_resume ::
    "dq_notifier \<Rightarrow> nat \<Rightarrow> tid \<Rightarrow> u32 \<Rightarrow> u32 \<Rightarrow> u32 \<Rightarrow> dq_state \<Rightarrow> (outcome \<times> dq_state) option" where
  "rt_data_queue_push_resume notify n t ptr sz timeout s =
     (let r = thread_error (threads (snd s) t) in
      if r \<noteq> RT_EOK then Some (Returned r, s) else rt_data_queue_push notify n ptr sz timeout s)"

text \<open>The result of a pop: its error code and the item it stored for the caller, if any.\<close>

definition rt_data_queue_pop ::
    "dq_notifier \<Rightarrow> nat \<Rightarrow> u32 \<Rightarrow> dq_state \<Rightarrow> ((outcome \<times> (u32 \<times> u32) option) \<times> dq_state) option" where
  "rt_data_queue_pop notify n timeout s = (case s of (q, k) \<Rightarrow>
     if dq_get q = dq_put q then
       if timeout = 0 then Some ((Returned (- RT_ETIMEOUT), None), q, k)
       else do { k1 \<leftarrow> dq_wait (Poppers n) timeout k; Some ((Blocked timeout, None), q, k1) }
     else do {
       (x, q1) \<leftarrow> dq_fetch q;
       if dq_fill q1 \<le> uint (dq_lwm q1) then do {
         k1 \<leftarrow> (if \<not> tlist_isempty (Pushers n) k then do {
                  k1 \<leftarrow> rt_ipc_list_resume (Pushers n) k;
                  rt_schedule k1
                }
                else Some k);
         s2 \<leftarrow> dq_tell notify RT_DATAQUEUE_EVENT_LWM (q1, k1);
         Some ((Returned RT_EOK, Some x), s2)
       }
       else do {
         s2 \<leftarrow> dq_tell notify RT_DATAQUEUE_EVENT_POP (q1, k);
         Some ((Returned RT_EOK, Some x), s2)
       }
     })"

definition rt_data_queue_pop_resume ::
    "dq_notifier \<Rightarrow> nat \<Rightarrow> tid \<Rightarrow> u32 \<Rightarrow> dq_state \<Rightarrow> ((outcome \<times> (u32 \<times> u32) option) \<times> dq_state) option" where
  "rt_data_queue_pop_resume notify n t timeout s =
     (let r = thread_error (threads (snd s) t) in
      if r \<noteq> RT_EOK then Some ((Returned r, None), s) else rt_data_queue_pop notify n timeout s)"

definition rt_data_queue_peak :: "rt_data_queue \<Rightarrow> (rt_err \<times> (u32 \<times> u32) option) option" where
  "rt_data_queue_peak q =
     (if dq_get q = dq_put q then Some (- RT_EEMPTY, None)
      else do { j \<leftarrow> dq_index (dq_get q) q; Some (RT_EOK, Some (dq_items q ! j)) })"

definition rt_data_queue_reset :: "nat \<Rightarrow> kernel \<Rightarrow> kernel option" where
  "rt_data_queue_reset n k = do {
     k1 \<leftarrow> rt_ipc_list_resume_all (Poppers n) (rt_enter_critical k);
     k2 \<leftarrow> rt_ipc_list_resume_all (Pushers n) k1;
     k3 \<leftarrow> rt_exit_critical k2;
     rt_schedule k3
   }"

subsection \<open>The ring as a list\<close>

text \<open>
  While no index has gone round its 16 bits, the ring holds the items between the indices.
\<close>

definition dq_ok :: "rt_data_queue \<Rightarrow> bool" where
  "dq_ok q \<longleftrightarrow> 0 < unat (dq_size q) \<and> length (dq_items q) = unat (dq_size q) \<and>
     unat (dq_get q) \<le> unat (dq_put q) \<and> unat (dq_put q) \<le> unat (dq_get q) + unat (dq_size q)"

definition dq_list :: "rt_data_queue \<Rightarrow> (u32 \<times> u32) list" where
  "dq_list q = map (\<lambda>i. dq_items q ! (i mod unat (dq_size q))) [unat (dq_get q)..<unat (dq_put q)]"

lemma dq_fill_eq: "dq_ok q \<Longrightarrow> dq_fill q = int (length (dq_list q))"
  by (simp add: dq_fill_def dq_list_def dq_ok_def of_nat_diff)

lemma dq_full: "dq_ok q \<Longrightarrow> dq_fill q = uint (dq_size q) \<longleftrightarrow> length (dq_list q) = unat (dq_size q)"
  using of_nat_eq_iff [of "length (dq_list q)" "unat (dq_size q)", where 'a = int] by (simp only: dq_fill_eq uint_nat)

lemma dq_empty: "dq_ok q \<Longrightarrow> dq_get q = dq_put q \<longleftrightarrow> dq_list q = []"
  by (auto simp: dq_list_def dq_ok_def word_unat_eq_iff)

lemma dq_store_ok:
  assumes "dq_ok q" "length (dq_list q) < unat (dq_size q)" "unat (dq_put q) < 65535"
  obtains q' where "dq_store ptr sz q = Some q'" "dq_ok q'" "dq_list q' = dq_list q @ [(ptr, sz)]"
    "dq_size q' = dq_size q" "dq_lwm q' = dq_lwm q" "dq_notify q' = dq_notify q" "unat (dq_put q') = unat (dq_put q) + 1" "dq_get q' = dq_get q"
proof -
  let ?n = "unat (dq_size q)" and ?p = "unat (dq_put q)" and ?g = "unat (dq_get q)"
  have len: "?p - ?g < ?n" using assms(2) by (simp add: dq_list_def)
  have n: "0 < ?n" "length (dq_items q) = ?n" "?g \<le> ?p" using assms(1) by (simp_all add: dq_ok_def)
  have pw: "unat (dq_put q + 1) = ?p + 1" using assms(3) by (simp add: unat_word_ariths)
  let ?q = "q\<lparr>dq_items := (dq_items q)[?p mod ?n := (ptr, sz)], dq_put := dq_put q + 1\<rparr>"
  have "dq_size q \<noteq> 0" using n(1) by (metis unat_0 less_irrefl)
  then have "dq_store ptr sz q = Some ?q" using n by (simp add: dq_store_def dq_index_def require_def Let_def)
  moreover have "dq_ok ?q" using n len pw by (simp add: dq_ok_def)
  moreover have "dq_list ?q = dq_list q @ [(ptr, sz)]"
  proof -
    have "(dq_items q)[?p mod ?n := (ptr, sz)] ! (i mod ?n) = dq_items q ! (i mod ?n)" if "i \<in> set [?g..<?p]" for i
    proof -
      have "?g \<le> i" "i < ?p" using that by simp_all
      then have "i < ?p" "?p < i + ?n" using len by arith+
      from mod_apart [OF this] show ?thesis by simp
    qed
    then show ?thesis using n pw by (simp add: dq_list_def)
  qed
  ultimately show ?thesis using that pw by simp
qed

lemma dq_fetch_ok:
  assumes "dq_ok q" "dq_list q = x # xs"
  obtains q' where "dq_fetch q = Some (x, q')" "dq_ok q'" "dq_list q' = xs"
    "dq_size q' = dq_size q" "dq_lwm q' = dq_lwm q" "dq_notify q' = dq_notify q" "dq_put q' = dq_put q"
proof -
  let ?n = "unat (dq_size q)" and ?p = "unat (dq_put q)" and ?g = "unat (dq_get q)"
  have n: "0 < ?n" "length (dq_items q) = ?n" "?p \<le> ?g + ?n" using assms(1) by (simp_all add: dq_ok_def)
  have lt: "?g < ?p" using assms(2) by (cases "?g < ?p") (simp_all add: dq_list_def)
  have "?p < 65536" using unsigned_less [of "dq_put q"] by simp
  then have gw: "unat (dq_get q + 1) = ?g + 1" using lt by (simp add: unat_word_ariths)
  have x: "dq_items q ! (?g mod ?n) = x" "xs = map (\<lambda>i. dq_items q ! (i mod ?n)) [?g + 1..<?p]"
    using assms(2) lt by (simp_all add: dq_list_def upt_conv_Cons)
  have "dq_size q \<noteq> 0" using n(1) by (metis unat_0 less_irrefl)
  then have "dq_fetch q = Some (x, q\<lparr>dq_get := dq_get q + 1\<rparr>)"
    using n x(1) by (simp add: dq_fetch_def dq_index_def require_def Let_def)
  moreover have "dq_ok (q\<lparr>dq_get := dq_get q + 1\<rparr>)" using n gw lt by (simp add: dq_ok_def)
  moreover have "dq_list (q\<lparr>dq_get := dq_get q + 1\<rparr>) = xs" using gw x(2) by (simp add: dq_list_def)
  ultimately show ?thesis using that by simp
qed

lemma dq_peak_ok:
  assumes "dq_ok q"
  shows "rt_data_queue_peak q = (case dq_list q of [] \<Rightarrow> Some (- RT_EEMPTY, None) | x # _ \<Rightarrow> Some (RT_EOK, Some x))"
proof (cases "dq_list q")
  case Nil
  then show ?thesis using dq_empty [OF assms] by (simp add: rt_data_queue_peak_def)
next
  case (Cons x l)
  obtain q' where "dq_fetch q = Some (x, q')" by (rule dq_fetch_ok [OF assms Cons])
  then obtain j where "dq_index (dq_get q) q = Some j" "dq_items q ! j = x" by (auto simp: dq_fetch_def bind_eq_Some_conv)
  then show ?thesis using Cons dq_empty [OF assms] by (simp add: rt_data_queue_peak_def)
qed

subsection \<open>Runs of a data queue\<close>

text \<open>
  Any interleaving of pushes, pops, their continuations and steps of the kernel; \<open>xs\<close> are the
  items that were pushed and \<open>ys\<close> those that were popped, in order.
\<close>

inductive dq_run :: "dq_notifier \<Rightarrow> nat \<Rightarrow> dq_state \<Rightarrow> dq_state \<Rightarrow> (u32 \<times> u32) list \<Rightarrow> (u32 \<times> u32) list \<Rightarrow> bool"
  for notify n s0 where
  start: "dq_run notify n s0 s0 [] []"
| push: "dq_run notify n s0 s xs ys \<Longrightarrow> rt_data_queue_push notify n ptr sz timeout s = Some (oc, s') \<Longrightarrow>
    dq_run notify n s0 s' (if oc = Returned RT_EOK then xs @ [(ptr, sz)] else xs) ys"
| push_again: "dq_run notify n s0 s xs ys \<Longrightarrow> rt_data_queue_push_resume notify n t ptr sz timeout s = Some (oc, s') \<Longrightarrow>
    dq_run notify n s0 s' (if oc = Returned RT_EOK then xs @ [(ptr, sz)] else xs) ys"
| pop: "dq_run notify n s0 s xs ys \<Longrightarrow> rt_data_queue_pop notify n timeout s = Some ((oc, r), s') \<Longrightarrow>
    dq_run notify n s0 s' xs (case r of None \<Rightarrow> ys | Some x \<Rightarrow> ys @ [x])"
| pop_again: "dq_run notify n s0 s xs ys \<Longrightarrow> rt_data_queue_pop_resume notify n t timeout s = Some ((oc, r), s') \<Longrightarrow>
    dq_run notify n s0 s' xs (case r of None \<Rightarrow> ys | Some x \<Rightarrow> ys @ [x])"
| kernel: "dq_run notify n s0 (q, k) xs ys \<Longrightarrow> kernel_step k k' \<Longrightarrow> dq_run notify n s0 (q, k') xs ys"

text \<open>The notified function leaves the queue to its operations.\<close>

definition quiet_notifier :: "dq_notifier \<Rightarrow> bool" where
  "quiet_notifier notify \<longleftrightarrow> (\<forall>a ev s s'. notify a ev s = Some s' \<longrightarrow> fst s' = fst s)"

lemma dq_tell_same: "quiet_notifier notify \<Longrightarrow> dq_tell notify ev (q, k) = Some (q', k') \<Longrightarrow> q' = q"
  by (force simp: quiet_notifier_def dq_tell_def split: if_splits)

lemma push_effect:
  assumes "rt_data_queue_push notify n ptr sz timeout (q, k) = Some (oc, s')" "quiet_notifier notify"
  shows "if dq_fill q = uint (dq_size q) then oc \<noteq> Returned RT_EOK \<and> fst s' = q
    else oc = Returned RT_EOK \<and> dq_store ptr sz q = Some (fst s')"
  using assms(1)
  by (auto simp: rt_data_queue_push_def bind_eq_Some_conv dest!: dq_tell_same [OF assms(2)] split: if_splits)

lemma pop_effect:
  assumes "rt_data_queue_pop notify n timeout (q, k) = Some ((oc, r), s')" "quiet_notifier notify"
  shows "if dq_get q = dq_put q then r = None \<and> fst s' = q else \<exists>x. r = Some x \<and> dq_fetch q = Some (x, fst s')"
  using assms(1)
  by (auto simp: rt_data_queue_pop_def bind_eq_Some_conv dest!: dq_tell_same [OF assms(2)] split: if_splits)

text \<open>The ring holds what was pushed and not yet popped; the put index counts the pushes.\<close>

definition dq_holds :: "rt_data_queue \<Rightarrow> (u32 \<times> u32) list \<Rightarrow> (u32 \<times> u32) list \<Rightarrow> bool" where
  "dq_holds q xs ys \<longleftrightarrow> dq_ok q \<and> xs = ys @ dq_list q \<and> unat (dq_put q) = length xs"

lemma holds_push:
  assumes h: "dq_holds q xs ys" and quiet: "quiet_notifier notify"
    and ex: "rt_data_queue_push notify n ptr sz timeout (q, k) = Some (oc, s')"
    and few: "length (if oc = Returned RT_EOK then xs @ [(ptr, sz)] else xs) \<le> 65535"
  shows "dq_holds (fst s') (if oc = Returned RT_EOK then xs @ [(ptr, sz)] else xs) ys"
proof (cases "dq_fill q = uint (dq_size q)")
  case True
  then show ?thesis using push_effect [OF ex quiet] h by simp
next
  case False
  then have e: "oc = Returned RT_EOK" "dq_store ptr sz q = Some (fst s')" using push_effect [OF ex quiet] by simp_all
  have ok: "dq_ok q" "unat (dq_put q) < 65535" using h few e(1) by (simp_all add: dq_holds_def)
  have "length (dq_list q) < unat (dq_size q)" using False dq_full [OF ok(1)] ok(1) by (auto simp: dq_ok_def dq_list_def)
  from dq_store_ok [OF ok(1) this ok(2), of ptr sz] obtain q' where "dq_store ptr sz q = Some q'" "dq_ok q'"
    "dq_list q' = dq_list q @ [(ptr, sz)]" "unat (dq_put q') = unat (dq_put q) + 1" by blast
  then show ?thesis using e h by (simp add: dq_holds_def)
qed

lemma holds_pop:
  assumes h: "dq_holds q xs ys" and quiet: "quiet_notifier notify"
    and ex: "rt_data_queue_pop notify n timeout (q, k) = Some ((oc, r), s')"
  shows "dq_holds (fst s') xs (case r of None \<Rightarrow> ys | Some x \<Rightarrow> ys @ [x])"
proof (cases "dq_get q = dq_put q")
  case True
  then show ?thesis using pop_effect [OF ex quiet] h by simp
next
  case False
  then obtain x where e: "r = Some x" "dq_fetch q = Some (x, fst s')" using pop_effect [OF ex quiet] by auto
  have ok: "dq_ok q" using h by (simp add: dq_holds_def)
  then obtain y zs where y: "dq_list q = y # zs" using False dq_empty by (cases "dq_list q") auto
  obtain q' where "dq_fetch q = Some (y, q')" "dq_ok q'" "dq_list q' = zs" "dq_put q' = dq_put q"
    by (rule dq_fetch_ok [OF ok y])
  then show ?thesis using e h y by (simp add: dq_holds_def)
qed

lemma resume_effect:
  "rt_data_queue_push_resume notify n t ptr sz timeout s = Some (oc, s') \<Longrightarrow>
     oc \<noteq> Returned RT_EOK \<and> s' = s \<or> rt_data_queue_push notify n ptr sz timeout s = Some (oc, s')"
  "rt_data_queue_pop_resume notify n t timeout s = Some ((oc, r), s') \<Longrightarrow>
     r = None \<and> s' = s \<or> rt_data_queue_pop notify n timeout s = Some ((oc, r), s')"
  by (auto simp: rt_data_queue_push_resume_def rt_data_queue_pop_resume_def Let_def split: if_splits)

lemma dq_run_holds:
  assumes "dq_run notify n s0 s xs ys" "dq_holds (fst s0) [] []" "quiet_notifier notify" "length xs \<le> 65535"
  shows "dq_holds (fst s) xs ys"
  using assms
proof (induction rule: dq_run.induct)
  case (push s xs ys ptr sz timeout oc s')
  then have "dq_holds (fst s) xs ys" by (auto split: if_splits)
  with push show ?case using holds_push [of "fst s" xs ys notify n ptr sz timeout "snd s" oc s'] by simp
next
  case (push_again s xs ys t ptr sz timeout oc s')
  then have h: "dq_holds (fst s) xs ys" by (auto split: if_splits)
  from resume_effect(1) [OF push_again.hyps(2)] show ?case
    using holds_push [of "fst s" xs ys notify n ptr sz timeout "snd s" oc s'] push_again.prems h by auto
next
  case (pop s xs ys timeout oc r s')
  then show ?case using holds_pop [of "fst s" xs ys notify n timeout "snd s" oc r s'] by simp
next
  case (pop_again s xs ys t timeout oc r s')
  then have h: "dq_holds (fst s) xs ys" by simp
  from resume_effect(2) [OF pop_again.hyps(2)] show ?case
    using holds_pop [of "fst s" xs ys notify n timeout "snd s" oc r s'] pop_again.prems h by auto
qed simp_all

subsection \<open>The properties\<close>

lemma dq_wait_ok:
  assumes c: "in_call k c" and to: "timeout_ok timeout" and q: "waiting_queue lst"
  obtains k' where "dq_wait lst timeout k = Some k'" "waits_on lst RT_IPC_FLAG_FIFO c timeout (set_error c RT_EOK k) k'"
proof -
  obtain k1 k2 where "ipc_wait lst c RT_IPC_FLAG_FIFO timeout (set_error c RT_EOK k) = Some k1" "rt_schedule k1 = Some k2"
    "waits_on lst RT_IPC_FLAG_FIFO c timeout (set_error c RT_EOK k) k2"
    by (rule call_wait_ok [OF c to q]) blast
  then show ?thesis using that in_callD [OF c] by (simp add: dq_wait_def require_def)
qed

text \<open>\<open>rt_data_queue_push\<close> on every branch, while the indices have not gone round: a full queue
  times out at once or suspends the caller on the list of pushers; otherwise the item is appended
  and the first waiting popper is woken.\<close>

lemma rt_data_queue_push_correct:
  assumes "dq_ok q" "unat (dq_put q) < 65535" "dq_notify q = 0" "may_call k timeout"
  shows "\<exists>oc q' k'. rt_data_queue_push notify n ptr sz timeout (q, k) = Some (oc, q', k') \<and>
    (if length (dq_list q) = unat (dq_size q) then q' = q \<and>
       (if timeout = 0 then oc = Returned (- RT_ETIMEOUT) \<and> k' = k
        else oc = Blocked timeout \<and> (\<exists>c. waits_on (Pushers n) RT_IPC_FLAG_FIFO c timeout (set_error c RT_EOK k) k'))
     else oc = Returned RT_EOK \<and> dq_ok q' \<and> dq_list q' = dq_list q @ [(ptr, sz)] \<and> woken_first (Poppers n) k k')"
proof (cases "length (dq_list q) = unat (dq_size q)")
  case True
  note full = iffD2 [OF dq_full [OF assms(1)] True]
  show ?thesis
  proof (cases "timeout = 0")
    case True
    then show ?thesis using full \<open>length (dq_list q) = _\<close> by (simp add: rt_data_queue_push_def)
  next
    case False
    then obtain c where c: "in_call k c" "timeout_ok timeout" using assms(4) by (auto simp: may_call_def)
    have wq: "waiting_queue (Pushers n)" by simp
    obtain k' where "dq_wait (Pushers n) timeout k = Some k'"
      "waits_on (Pushers n) RT_IPC_FLAG_FIFO c timeout (set_error c RT_EOK k) k'" by (rule dq_wait_ok [OF c wq])
    then show ?thesis using full True False by (auto simp: rt_data_queue_push_def)
  qed
next
  case False
  have "length (dq_list q) < unat (dq_size q)" using False assms(1) by (auto simp: dq_ok_def dq_list_def)
  from dq_store_ok [OF assms(1) this assms(2), of ptr sz] obtain q' where q': "dq_store ptr sz q = Some q'" "dq_ok q'"
    "dq_list q' = dq_list q @ [(ptr, sz)]" "dq_notify q' = dq_notify q" by blast
  have wq: "waiting_queue (Poppers n)" "kinv k" "rt_current_thread k \<noteq> None" using assms(4) by (simp_all add: may_call_def)
  obtain k' where k': "(if \<not> tlist_isempty (Poppers n) k then do { k1 \<leftarrow> rt_ipc_list_resume (Poppers n) k; rt_schedule k1 } else Some k) = Some k'"
    "woken_first (Poppers n) k k'" by (rule wake_first_ok [OF wq(2,1,3)])
  have "rt_data_queue_push notify n ptr sz timeout (q, k) = Some (Returned RT_EOK, q', k')"
    using k'(1) q'(1,4) False dq_full [OF assms(1)] assms(3)
    by (auto simp: rt_data_queue_push_def dq_tell_def bind_eq_Some_conv split: if_splits)
  then show ?thesis using False q'(2,3) k'(2) by auto
qed

text \<open>C32: Over every interleaving of pushes, pops, blocked calls and the kernel's steps, the items come out
  in the order in which they went in, none lost and none made, and the queue never holds more
  than its size, as long as there are fewer than \<open>2^16\<close> pushes.\<close>

theorem data_queue_fifo:
  assumes "dq_run notify n (q0, k0) (q, k) xs ys" "dq_ok q0" "dq_put q0 = 0" "quiet_notifier notify" "length xs \<le> 65535"
  shows "xs = ys @ dq_list q \<and> length (dq_list q) \<le> unat (dq_size q) \<and>
    rt_data_queue_peak q = (case dq_list q of [] \<Rightarrow> Some (- RT_EEMPTY, None) | x # _ \<Rightarrow> Some (RT_EOK, Some x))"
proof -
  have "dq_holds q0 [] []" using assms(2,3) by (simp add: dq_holds_def dq_list_def)
  then have h: "dq_holds q xs ys" using dq_run_holds [OF assms(1) _ assms(4,5)] by simp
  then have ok: "dq_ok q" by (simp add: dq_holds_def)
  have "rt_data_queue_peak q = (case dq_list q of [] \<Rightarrow> Some (- RT_EEMPTY, None) | x # _ \<Rightarrow> Some (RT_EOK, Some x))"
    by (rule dq_peak_ok [OF ok])
  moreover have "length (dq_list q) \<le> unat (dq_size q)" using ok by (simp add: dq_list_def dq_ok_def le_diff_conv)
  ultimately show ?thesis using h by (simp add: dq_holds_def)
qed

text \<open>When the put index has gone round and the get index has not, a full queue is not recognised:
  a push is accepted and its item replaces the oldest one.\<close>

lemma data_queue_wrap_overwrites:
  assumes "dq_put q < dq_get q" "dq_put q = dq_get q + dq_size q" "dq_size q \<noteq> 0" "unat (dq_size q) dvd 2 ^ 16"
    and "length (dq_items q) = unat (dq_size q)" "queues k (Poppers n) = []" "dq_notify q = 0"
  shows "\<exists>q'. rt_data_queue_push notify n ptr sz timeout (q, k) = Some (Returned RT_EOK, q', k) \<and>
    rt_data_queue_peak q' = Some (RT_EOK, Some (ptr, sz)) \<and> dq_put q' = dq_put q + 1"
proof -
  let ?n = "unat (dq_size q)"
  have n: "0 < ?n" using assms(3) by (simp add: unat_gt_0)
  have "uint (dq_put q) < uint (dq_get q)" using assms(1) by (simp add: word_less_def)
  then have nf: "dq_fill q \<noteq> uint (dq_size q)" using uint_ge_0 [of "dq_size q"] unfolding dq_fill_def by linarith
  have "unat (dq_put q) = (unat (dq_get q) + ?n) mod 2 ^ 16" unfolding assms(2) by (simp add: unat_word_ariths)
  then have slot: "unat (dq_put q) mod ?n = unat (dq_get q) mod ?n" using assms(4) by (simp add: mod_mod_cancel)
  let ?j = "unat (dq_put q) mod ?n"
  let ?q = "q\<lparr>dq_items := (dq_items q)[?j := (ptr, sz)], dq_put := dq_put q + 1\<rparr>"
  have j: "?j < ?n" using n by simp
  have st: "dq_store ptr sz q = Some ?q" using assms(3,5) j by (simp add: dq_store_def dq_index_def require_def Let_def)
  have ne: "dq_get q \<noteq> dq_put q + 1"
  proof
    assume e: "dq_get q = dq_put q + 1"
    have "unat (dq_get q) < 2 ^ 16" using unsigned_less [of "dq_get q"] by simp
    then have "unat (dq_put q) + 1 < 2 ^ 16" using assms(1) by (simp add: word_less_nat_alt)
    then have g: "unat (dq_get q) = unat (dq_put q) + 1" unfolding e by (simp add: unat_word_ariths)
    have "dq_size q = dq_put q - dq_get q" using assms(2) by simp
    then have "dq_size q = 0xFFFF" unfolding e by simp
    then have "?n = 65535" by simp
    then show False using assms(4) by simp
  qed
  have "rt_data_queue_push notify n ptr sz timeout (q, k) = Some (Returned RT_EOK, ?q, k)"
    using nf st assms(6,7) by (simp add: rt_data_queue_push_def tlist_isempty_def dq_tell_def)
  moreover have "rt_data_queue_peak ?q = Some (RT_EOK, Some (ptr, sz))"
    using ne slot assms(3,5) j by (simp add: rt_data_queue_peak_def dq_index_def require_def Let_def)
  ultimately show ?thesis by auto
qed

subsection \<open>Concrete data queues\<close>

definition sample_dq :: "u16 \<Rightarrow> u16 \<Rightarrow> rt_data_queue" where
  "sample_dq g p = \<lparr>dq_size = 2, dq_lwm = 1, dq_get = g, dq_put = p, dq_items = [(1, 10), (2, 20)], dq_notify = 0\<rparr>"

lemma rt_data_queue_push_correct_witness:
  "\<exists>oc q' k'. rt_data_queue_push (\<lambda>_ _. Some) 0 3 30 0 (sample_dq 0 1, sample) = Some (oc, q', k') \<and>
     oc = Returned RT_EOK \<and> dq_list q' = [(1, 10), (3, 30)]"
  using rt_data_queue_push_correct [of "sample_dq 0 1" sample 0 "\<lambda>_ _. Some" 0 3 30] sample_may_call [of 0]
  by (auto simp: dq_ok_def sample_dq_def timeout_ok_def dq_list_def)

lemma data_queue_fifo_witness:
  "\<exists>q. rt_data_queue_push (\<lambda>_ _. Some) 0 3 30 0 (sample_dq 0 0, sample) = Some (Returned RT_EOK, q, sample) \<and>
     dq_list q = [(3, 30)] \<and> rt_data_queue_peak q = Some (RT_EOK, Some (3, 30))"
proof -
  let ?q = "(sample_dq 0 0)\<lparr>dq_items := [(3, 30), (2, 20)], dq_put := 1\<rparr>"
  have p: "rt_data_queue_push (\<lambda>_ _. Some) 0 3 30 0 (sample_dq 0 0, sample) = Some (Returned RT_EOK, ?q, sample)"
    by (simp add: rt_data_queue_push_def sample_dq_def dq_fill_def dq_store_def dq_index_def require_def tlist_isempty_def
        dq_tell_def sample_queues_def)
  have "dq_run (\<lambda>_ _. Some) 0 (sample_dq 0 0, sample) (?q, sample) [(3, 30)] []"
    using dq_run.push [OF dq_run.start p] by simp
  from data_queue_fifo [OF this] p show ?thesis by (auto simp: dq_ok_def sample_dq_def quiet_notifier_def split: list.splits)
qed

lemma data_queue_wrap_overwrites_witness:
  "\<exists>q'. rt_data_queue_push (\<lambda>_ _. Some) 0 3 30 0 (sample_dq 65535 1, sample) = Some (Returned RT_EOK, q', sample) \<and>
     rt_data_queue_peak q' = Some (RT_EOK, Some (3, 30))"
  using data_queue_wrap_overwrites [of "sample_dq 65535 1" sample 0 "\<lambda>_ _. Some" 3 30 0]
  by (auto simp: sample_dq_def sample_queues_def)

end
