(* ===== verification/SerialFifo.thy ===== *)
theory SerialFifo
  imports KState
begin

unbundle bit_operations_syntax

section \<open>The receive FIFO of a serial device (rt-thread/components/drivers/serial/serial.c)\<close>

text \<open>
  The software FIFO between the interrupt handler of a serial device and the threads that read
  it.  \<open>bufsz\<close> is the size that the device was configured with.  In interrupt mode the handler
  stores byte by byte; in DMA mode the hardware writes the buffer and the handler moves the put
  index.  A full FIFO gives up its oldest bytes.
\<close>

record rt_serial_rx_fifo =
  fifo_buffer :: "u8 list"
  put_index :: u16
  get_index :: u16
  fifo_full :: bool

definition next_index :: "u16 \<Rightarrow> u16 \<Rightarrow> u16" where
  "next_index bufsz i = (if i + 1 \<ge> bufsz then 0 else i + 1)"

text \<open>The handler stores a byte in interrupt mode.\<close>

definition serial_isr_put :: "u16 \<Rightarrow> u8 \<Rightarrow> rt_serial_rx_fifo \<Rightarrow> rt_serial_rx_fifo option" where
  "serial_isr_put bufsz c f = do {
     require (unat (put_index f) < length (fifo_buffer f));
     let f1 = f\<lparr>fifo_buffer := (fifo_buffer f)[unat (put_index f) := c], put_index := next_index bufsz (put_index f)\<rparr>;
     Some (if put_index f1 = get_index f1
           then f1\<lparr>get_index := next_index bufsz (get_index f1), fifo_full := True\<rparr>
           else f1)
   }"

text \<open>One round of the loop of \<open>_serial_int_rx\<close>: \<open>None\<close> inside when there are no data.\<close>

definition serial_get_byte :: "u16 \<Rightarrow> rt_serial_rx_fifo \<Rightarrow> (u8 \<times> rt_serial_rx_fifo) option option" where
  "serial_get_byte bufsz f =
     (if get_index f = put_index f \<and> \<not> fifo_full f then Some None
      else do {
        require (unat (get_index f) < length (fifo_buffer f));
        let c = fifo_buffer f ! unat (get_index f);
        Some (Some (c, f\<lparr>get_index := next_index bufsz (get_index f), fifo_full := False\<rparr>))
      })"

fun serial_int_rx :: "u16 \<Rightarrow> nat \<Rightarrow> rt_serial_rx_fifo \<Rightarrow> (u8 list \<times> rt_serial_rx_fifo) option" where
  "serial_int_rx bufsz 0 f = Some ([], f)"
| "serial_int_rx bufsz (Suc n) f = do {
     r \<leftarrow> serial_get_byte bufsz f;
     (case r of
        None \<Rightarrow> Some ([], f)
      | Some (c, f1) \<Rightarrow> do {
          (cs, f2) \<leftarrow> serial_int_rx bufsz n f1;
          Some (c # cs, f2)
        })
   }"

text \<open>The length that the handler reports in interrupt mode, and the one computed in DMA mode.\<close>

definition serial_rx_length :: "u16 \<Rightarrow> rt_serial_rx_fifo \<Rightarrow> u32" where
  "serial_rx_length bufsz f =
     (if put_index f \<ge> get_index f then ucast (put_index f) - ucast (get_index f)
      else ucast bufsz - (ucast (get_index f) - ucast (put_index f)))"

definition serial_fifo_calc_recved_len :: "u16 \<Rightarrow> rt_serial_rx_fifo \<Rightarrow> u32" where
  "serial_fifo_calc_recved_len bufsz f =
     (if put_index f = get_index f then (if \<not> fifo_full f then 0 else ucast bufsz)
      else if put_index f > get_index f then ucast (put_index f) - ucast (get_index f)
      else ucast bufsz - (ucast (get_index f) - ucast (put_index f)))"

text \<open>The 16-bit indices plus a length: the sum is cut to 16 bits when it is stored.\<close>

definition dma_recv_update_get_index :: "u16 \<Rightarrow> u32 \<Rightarrow> rt_serial_rx_fifo \<Rightarrow> rt_serial_rx_fifo option" where
  "dma_recv_update_get_index bufsz len f = do {
     require (len \<le> serial_fifo_calc_recved_len bufsz f);
     let g = get_index f + ucast len;
     require (g < bufsz \<or> bufsz \<noteq> 0);
     Some (f\<lparr>fifo_full := (if fifo_full f \<and> len \<noteq> 0 then False else fifo_full f),
             get_index := (if g \<ge> bufsz then g mod bufsz else g)\<rparr>)
   }"

definition dma_recv_update_put_index :: "u16 \<Rightarrow> u32 \<Rightarrow> rt_serial_rx_fifo \<Rightarrow> rt_serial_rx_fifo option" where
  "dma_recv_update_put_index bufsz len f = do {
     require (bufsz \<noteq> 0);
     let p = put_index f + ucast len;
     let f1 = (if get_index f \<le> put_index f then
                 (if p \<ge> bufsz
                  then f\<lparr>put_index := p mod bufsz, fifo_full := (if p mod bufsz \<ge> get_index f then True else fifo_full f)\<rparr>
                  else f\<lparr>put_index := p\<rparr>)
               else
                 (if p \<ge> get_index f
                  then f\<lparr>put_index := (if p \<ge> bufsz then p mod bufsz else p), fifo_full := True\<rparr>
                  else f\<lparr>put_index := p\<rparr>));
     Some (if fifo_full f1 then f1\<lparr>get_index := put_index f1\<rparr> else f1)
   }"

text \<open>The part of \<open>_serial_dma_rx\<close> for a device with a buffer: the bytes that the copies read.\<close>

definition serial_dma_rx :: "u16 \<Rightarrow> nat \<Rightarrow> rt_serial_rx_fifo \<Rightarrow> (u8 list \<times> rt_serial_rx_fifo) option" where
  "serial_dma_rx bufsz n f = do {
     let recvd = unat (serial_fifo_calc_recved_len bufsz f);
     let len = (if n < recvd then n else recvd);
     let g = unat (get_index f); let b = unat bufsz;
     let data = (if g + len < b then take len (drop g (fifo_buffer f))
                 else take (b - g) (drop g (fifo_buffer f)) @ take (len + g - b) (fifo_buffer f));
     f1 \<leftarrow> dma_recv_update_get_index bufsz (of_nat len) f;
     Some (data, f1)
   }"

subsection \<open>The bytes in the FIFO\<close>

definition fifo_count :: "nat \<Rightarrow> rt_serial_rx_fifo \<Rightarrow> nat" where
  "fifo_count b f = (let p = unat (put_index f); g = unat (get_index f) in
     if p = g then (if fifo_full f then b else 0) else if g < p then p - g else b - (g - p))"

definition fifo_list :: "nat \<Rightarrow> rt_serial_rx_fifo \<Rightarrow> u8 list" where
  "fifo_list b f = map (\<lambda>i. fifo_buffer f ! ((unat (get_index f) + i) mod b)) [0..<fifo_count b f]"

definition fifo_ok :: "u16 \<Rightarrow> rt_serial_rx_fifo \<Rightarrow> bool" where
  "fifo_ok bufsz f \<longleftrightarrow> length (fifo_buffer f) = unat bufsz \<and> put_index f < bufsz \<and> get_index f < bufsz"

lemma fifo_okD:
  assumes "fifo_ok bufsz f"
  shows "length (fifo_buffer f) = unat bufsz" "unat (put_index f) < unat bufsz" "unat (get_index f) < unat bufsz" "0 < unat bufsz"
  using assms by (auto simp: fifo_ok_def word_less_nat_alt)

lemma unat_next_index:
  assumes "unat i < unat bufsz"
  shows "unat (next_index bufsz i) = (unat i + 1) mod unat bufsz" "next_index bufsz i < bufsz"
proof -
  have "unat bufsz < 2 ^ 16" using unsigned_less [of bufsz] by simp
  then have e: "unat (i + 1) = unat i + 1" using assms by (simp add: unat_word_ariths)
  show "unat (next_index bufsz i) = (unat i + 1) mod unat bufsz"
    using assms e by (cases "unat i + 1 = unat bufsz") (auto simp: next_index_def word_le_nat_alt)
  moreover have "(unat i + 1) mod unat bufsz < unat bufsz" using assms by simp
  ultimately show "next_index bufsz i < bufsz" by (simp add: word_less_nat_alt)
qed

lemma next_index_plus:
  assumes "unat i < unat bufsz"
  shows "(unat (next_index bufsz i) + m) mod unat bufsz = (unat i + Suc m) mod unat bufsz"
  unfolding unat_next_index(1) [OF assms] mod_add_left_eq by simp

lemma fifo_put_mod:
  assumes "fifo_ok bufsz f"
  shows "fifo_count (unat bufsz) f \<le> unat bufsz"
    "(unat (get_index f) + fifo_count (unat bufsz) f) mod unat bufsz = unat (put_index f)"
  using fifo_okD [OF assms] by (auto simp: fifo_count_def Let_def mod_if)

lemma length_fifo_list [simp]: "length (fifo_list b f) = fifo_count b f"
  by (simp add: fifo_list_def)

lemma fifo_countI:
  assumes "unat (put_index f) = (unat (get_index f) + m) mod b" "0 < m" "m < b" "unat (get_index f) < b"
  shows "fifo_count b f = m"
  using assms by (cases "unat (get_index f) + m < b") (auto simp: fifo_count_def Let_def mod_if)

lemma fifo_nth: "i < fifo_count b f \<Longrightarrow> fifo_list b f ! i = fifo_buffer f ! ((unat (get_index f) + i) mod b)"
  by (simp add: fifo_list_def)

subsection \<open>Interrupt mode\<close>

text \<open>One place of the buffer stays free, so that equal indices mean an empty FIFO.\<close>

definition int_ok :: "u16 \<Rightarrow> rt_serial_rx_fifo \<Rightarrow> bool" where
  "int_ok bufsz f \<longleftrightarrow> 2 \<le> bufsz \<and> fifo_ok bufsz f \<and> fifo_count (unat bufsz) f < unat bufsz"

text \<open>A list that keeps its last \<open>n\<close> elements.\<close>

definition keep_last :: "nat \<Rightarrow> 'a list \<Rightarrow> 'a list" where
  "keep_last n xs = drop (length xs - n) xs"

lemma keep_last_simps [simp]:
  "length (keep_last n xs) = min n (length xs)" "length xs \<le> n \<Longrightarrow> keep_last n xs = xs"
  by (auto simp: keep_last_def)

lemma int_okD:
  assumes "int_ok bufsz f"
  shows "fifo_ok bufsz f" "fifo_count (unat bufsz) f < unat bufsz" "2 \<le> unat bufsz"
  using assms by (simp_all add: int_ok_def word_le_nat_alt)

text \<open>The byte is stored at the put index; in a full buffer the get index moves on as well.\<close>

definition isr_stored :: "u16 \<Rightarrow> u8 \<Rightarrow> rt_serial_rx_fifo \<Rightarrow> rt_serial_rx_fifo" where
  "isr_stored bufsz c f =
     f\<lparr>fifo_buffer := (fifo_buffer f)[unat (put_index f) := c], put_index := next_index bufsz (put_index f)\<rparr>"

lemma isr_stored_buffer:
  assumes ok: "int_ok bufsz f"
  defines "b \<equiv> unat bufsz" and "g \<equiv> unat (get_index f)" and "n \<equiv> fifo_count (unat bufsz) f"
  shows "unat (next_index bufsz (put_index f)) = (g + (n + 1)) mod b" "next_index bufsz (put_index f) < bufsz"
    "i < n \<Longrightarrow> fifo_buffer (isr_stored bufsz c f) ! ((g + i) mod b) = fifo_list b f ! i"
    "fifo_buffer (isr_stored bufsz c f) ! ((g + n) mod b) = c"
proof -
  have fo: "fifo_ok bufsz f" and n: "n < b" using ok by (simp_all add: int_ok_def n_def b_def)
  note d = fifo_okD [OF fo]
  have p: "unat (put_index f) = (g + n) mod b" using fifo_put_mod(2) [OF fo] by (simp add: n_def g_def b_def)
  have "unat (next_index bufsz (put_index f)) = ((g + n) mod b + 1) mod b"
    using unat_next_index(1) [OF d(2), folded b_def] unfolding p .
  then show "unat (next_index bufsz (put_index f)) = (g + (n + 1)) mod b" unfolding mod_add_left_eq by (simp add: add.assoc)
  show "next_index bufsz (put_index f) < bufsz" by (rule unat_next_index(2) [OF d(2)])
  show "fifo_buffer (isr_stored bufsz c f) ! ((g + i) mod b) = fifo_list b f ! i" if "i < n"
    using mod_apart [of "g + i" "g + n" b] that n p by (simp add: isr_stored_def fifo_nth n_def g_def b_def)
  show "fifo_buffer (isr_stored bufsz c f) ! ((g + n) mod b) = c"
    using d(1,2) unfolding p [symmetric] by (simp add: isr_stored_def)
qed

lemma isr_put_room:
  assumes ok: "int_ok bufsz f" and room: "fifo_count (unat bufsz) f + 1 < unat bufsz"
  shows "serial_isr_put bufsz c f = Some (isr_stored bufsz c f)" "int_ok bufsz (isr_stored bufsz c f)"
    "fifo_list (unat bufsz) (isr_stored bufsz c f) = fifo_list (unat bufsz) f @ [c]"
proof -
  let ?b = "unat bufsz" and ?g = "unat (get_index f)" and ?f1 = "isr_stored bufsz c f"
  define n where "n = fifo_count ?b f"
  note d = fifo_okD [OF int_okD(1) [OF ok]] and s = isr_stored_buffer [OF ok, folded n_def]
  have "next_index bufsz (put_index f) \<noteq> get_index f"
    using mod_apart [of ?g "?g + (n + 1)" ?b] room s(1) d(3) by (auto simp: n_def)
  then show "serial_isr_put bufsz c f = Some ?f1" using d(1,2) by (simp add: serial_isr_put_def require_def isr_stored_def)
  have cnt: "fifo_count ?b ?f1 = n + 1" by (rule fifo_countI) (use s(1) room d(3) in \<open>simp_all add: isr_stored_def n_def\<close>)
  then show "int_ok bufsz ?f1" using ok room s(2) d by (simp add: int_ok_def fifo_ok_def n_def isr_stored_def)
  show "fifo_list ?b ?f1 = fifo_list ?b f @ [c]"
  proof (rule nth_equalityI)
    have g: "get_index ?f1 = get_index f" by (simp add: isr_stored_def)
    show "fifo_list ?b ?f1 ! i = (fifo_list ?b f @ [c]) ! i" if "i < length (fifo_list ?b ?f1)" for i
      using that cnt s(3) [of i c] s(4) [of c]
      by (cases "i < n") (simp_all add: fifo_nth nth_append n_def less_Suc_eq g)
  qed (use cnt in \<open>simp add: n_def\<close>)
qed

lemma isr_put_full:
  fixes c :: u8
  assumes ok: "int_ok bufsz f" and full: "fifo_count (unat bufsz) f + 1 = unat bufsz"
  defines "f2 \<equiv> (isr_stored bufsz c f)\<lparr>get_index := next_index bufsz (get_index f), fifo_full := True\<rparr>"
  shows "serial_isr_put bufsz c f = Some f2" "int_ok bufsz f2"
    "fifo_list (unat bufsz) f2 = tl (fifo_list (unat bufsz) f) @ [c]"
proof -
  let ?b = "unat bufsz" and ?g = "unat (get_index f)"
  define n where "n = fifo_count ?b f"
  have nb: "n + 1 = ?b" using full by (simp add: n_def)
  note d = fifo_okD [OF int_okD(1) [OF ok]] and s = isr_stored_buffer [OF ok, folded n_def] and b2 = int_okD(3) [OF ok]
  have eq: "next_index bufsz (put_index f) = get_index f" using s(1) d(3) unfolding nb by (simp add: word_unat_eq_iff)
  then show "serial_isr_put bufsz c f = Some f2"
    using d(1,2) by (simp add: serial_isr_put_def require_def f2_def isr_stored_def)
  have g1: "unat (next_index bufsz (get_index f)) = (?g + 1) mod ?b" "next_index bufsz (get_index f) < bufsz"
    using unat_next_index [OF d(3)] by simp_all
  have w: "(?g + Suc n) mod ?b = ?g" using nb d(3) by (metis Suc_eq_plus1 mod_add_self2 mod_less)
  have cnt: "fifo_count ?b f2 = n"
  proof (rule fifo_countI)
    show "unat (put_index f2) = (unat (get_index f2) + n) mod ?b"
      using w eq next_index_plus [OF d(3), of n] by (simp add: f2_def isr_stored_def)
    show "unat (get_index f2) < ?b" using g1(1) d(4) by (simp add: f2_def)
  qed (use nb b2 in \<open>simp_all add: f2_def\<close>)
  then show "int_ok bufsz f2" using ok nb s(2) g1 d by (simp add: int_ok_def fifo_ok_def f2_def isr_stored_def)
  show "fifo_list ?b f2 = tl (fifo_list ?b f) @ [c]"
  proof (rule nth_equalityI)
    fix i assume "i < length (fifo_list ?b f2)"
    then have i: "i < n" using cnt by simp
    have "fifo_list ?b f2 ! i = fifo_buffer (isr_stored bufsz c f) ! ((?g + (i + 1)) mod ?b)"
      using i cnt next_index_plus [OF d(3), of i] by (simp add: fifo_nth f2_def)
    also have "\<dots> = (if i + 1 < n then fifo_list ?b f ! (i + 1) else c)"
      using s(3) [of "i + 1" c] s(4) [of c] i by (cases "i + 1 = n") auto
    also have "\<dots> = (tl (fifo_list ?b f) @ [c]) ! i" using i by (auto simp: n_def nth_append nth_tl)
    finally show "fifo_list ?b f2 ! i = (tl (fifo_list ?b f) @ [c]) ! i" .
  qed (use cnt nb b2 in \<open>simp add: n_def\<close>)
qed

lemma serial_isr_put_ok:
  assumes ok: "int_ok bufsz f"
  obtains f' where "serial_isr_put bufsz c f = Some f'" "int_ok bufsz f'"
    "fifo_list (unat bufsz) f' = keep_last (unat bufsz - 1) (fifo_list (unat bufsz) f @ [c])"
proof (cases "fifo_count (unat bufsz) f + 1 < unat bufsz")
  case True
  then show ?thesis using that [OF isr_put_room(1,2) [OF ok True]] isr_put_room(3) [OF ok True] by simp
next
  case False
  then have full: "fifo_count (unat bufsz) f + 1 = unat bufsz" using int_okD(2) [OF ok] by simp
  have "keep_last (unat bufsz - 1) (fifo_list (unat bufsz) f @ [c]) = tl (fifo_list (unat bufsz) f) @ [c]"
    using full int_okD(3) [OF ok] by (cases "fifo_list (unat bufsz) f") (auto simp: keep_last_def dest!: arg_cong [of _ _ length])
  then show ?thesis using that [OF isr_put_full(1,2) [OF ok full]] isr_put_full(3) [OF ok full] by simp
qed

lemma serial_get_byte_ok:
  assumes ok: "int_ok bufsz f"
  shows "fifo_list (unat bufsz) f = [] \<Longrightarrow> serial_get_byte bufsz f = Some None"
    "fifo_list (unat bufsz) f = x # xs \<Longrightarrow> \<exists>f'. serial_get_byte bufsz f = Some (Some (x, f')) \<and> int_ok bufsz f' \<and>
       fifo_list (unat bufsz) f' = xs"
proof -
  let ?b = "unat bufsz" and ?g = "unat (get_index f)" and ?p = "unat (put_index f)"
  have fo: "fifo_ok bufsz f" and n: "fifo_count ?b f < ?b" using ok by (simp_all add: int_ok_def)
  note d = fifo_okD [OF fo]
  have p: "?p = (?g + fifo_count ?b f) mod ?b" using fifo_put_mod(2) [OF fo] by simp
  show "serial_get_byte bufsz f = Some None" if "fifo_list ?b f = []"
  proof -
    have c: "fifo_count ?b f = 0" using that by (metis length_fifo_list list.size(3))
    then have "get_index f = put_index f" using p d(3) by (simp add: word_unat_eq_iff)
    moreover have "\<not> fifo_full f" using c d(4) calculation by (auto simp: fifo_count_def Let_def)
    ultimately show ?thesis by (simp add: serial_get_byte_def)
  qed
  assume l: "fifo_list ?b f = x # xs"
  then have cnt: "fifo_count ?b f = Suc (length xs)" by (metis length_fifo_list length_Cons)
  have "?g mod ?b \<noteq> (?g + fifo_count ?b f) mod ?b" by (rule mod_apart) (use cnt n in simp_all)
  then have "?g \<noteq> ?p" unfolding p using d(3) by simp
  then have ne: "get_index f \<noteq> put_index f" by (simp add: word_unat_eq_iff)
  let ?f = "f\<lparr>get_index := next_index bufsz (get_index f), fifo_full := False\<rparr>"
  have x: "fifo_buffer f ! ?g = x" using fifo_nth [of 0 ?b f] cnt l d(3) by simp
  have ex: "serial_get_byte bufsz f = Some (Some (x, ?f))" using ne d(1,3) x by (simp add: serial_get_byte_def require_def)
  note g1 = unat_next_index [OF d(3)]
  have c': "fifo_count ?b ?f = length xs"
  proof (cases "xs = []")
    case True
    have "unat (next_index bufsz (get_index f)) = ?p" unfolding g1(1) p cnt using True by simp
    then show ?thesis using True by (simp add: fifo_count_def Let_def)
  next
    case False
    then have "0 < length xs" by simp
    moreover have "unat (put_index ?f) = (unat (get_index ?f) + length xs) mod ?b"
      using p next_index_plus [OF d(3), of "length xs"] unfolding cnt by simp
    ultimately show ?thesis using n cnt g1(1) d(4) by (intro fifo_countI) simp_all
  qed
  have "fifo_list ?b ?f = xs"
  proof (rule nth_equalityI)
    show "fifo_list ?b ?f ! i = xs ! i" if "i < length (fifo_list ?b ?f)" for i
      using that c' cnt next_index_plus [OF d(3), of i] fifo_nth [of "Suc i" ?b f] l by (simp add: fifo_nth)
  qed (use c' in simp)
  moreover have "int_ok bufsz ?f" using ok c' n cnt g1 d by (simp add: int_ok_def fifo_ok_def)
  ultimately show "\<exists>f'. serial_get_byte bufsz f = Some (Some (x, f')) \<and> int_ok bufsz f' \<and> fifo_list ?b f' = xs"
    using ex by blast
qed

lemma serial_int_rx_ok:
  "int_ok bufsz f \<Longrightarrow> \<exists>f'. serial_int_rx bufsz n f = Some (take n (fifo_list (unat bufsz) f), f') \<and> int_ok bufsz f' \<and>
     fifo_list (unat bufsz) f' = drop n (fifo_list (unat bufsz) f)"
proof (induction n arbitrary: f)
  case (Suc n)
  show ?case
  proof (cases "fifo_list (unat bufsz) f")
    case Nil
    then show ?thesis using serial_get_byte_ok(1) [OF Suc.prems] Suc.prems by simp
  next
    case (Cons x xs)
    obtain f1 where f1: "serial_get_byte bufsz f = Some (Some (x, f1))" "int_ok bufsz f1" "fifo_list (unat bufsz) f1 = xs"
      using serial_get_byte_ok(2) [OF Suc.prems Cons] by blast
    then show ?thesis using Suc.IH [OF f1(2)] Cons by auto
  qed
qed simp

subsection \<open>DMA mode\<close>

text \<open>The hardware writes the bytes \<open>bs\<close> from the put index on, round the end of the buffer.\<close>

definition dma_fill :: "nat \<Rightarrow> u8 list \<Rightarrow> rt_serial_rx_fifo \<Rightarrow> rt_serial_rx_fifo" where
  "dma_fill b bs f = f\<lparr>fifo_buffer := map (\<lambda>j. let i = (j + b - unat (put_index f)) mod b in
     if i < length bs then bs ! i else fifo_buffer f ! j) [0..<b]\<rparr>"

definition dma_ok :: "u16 \<Rightarrow> rt_serial_rx_fifo \<Rightarrow> bool" where
  "dma_ok bufsz f \<longleftrightarrow> unat bufsz \<le> 2 ^ 15 \<and> fifo_ok bufsz f \<and> (fifo_full f \<longrightarrow> put_index f = get_index f)"

lemma calc_recved_len:
  assumes "fifo_ok bufsz f"
  shows "unat (serial_fifo_calc_recved_len bufsz f) = fifo_count (unat bufsz) f"
proof -
  note d = fifo_okD [OF assms]
  have u: "unat (ucast w :: u32) = unat w" for w :: u16
  proof -
    have "unat w < 2 ^ 16" using unsigned_less [of w] by simp
    then show ?thesis by (simp add: unsigned_ucast_eq take_bit_nat_eq_self)
  qed
  have lt: "unat bufsz < 2 ^ 16" using unsigned_less [of bufsz] by simp
  have s: "unat (ucast x - ucast y :: u32) = unat x - unat y" if "y \<le> x" for x y :: u16
    using that by (subst unat_sub) (simp_all add: u word_le_nat_alt)
  have ne: "put_index f \<noteq> get_index f \<Longrightarrow> unat (put_index f) \<noteq> unat (get_index f)" by (simp add: word_unat_eq_iff)
  have s2: "unat (ucast bufsz - (ucast (get_index f) - ucast (put_index f)) :: u32) = unat bufsz - (unat (get_index f) - unat (put_index f))"
    if "put_index f \<le> get_index f"
    using s [OF that] d(3) by (subst unat_sub) (simp_all add: u word_le_nat_alt)
  show ?thesis using s [of "get_index f" "put_index f"] s2 u [of bufsz] ne
    by (auto simp: serial_fifo_calc_recved_len_def fifo_count_def Let_def word_less_nat_alt word_le_nat_alt)
qed

lemma add_index:
  assumes "unat (i :: u16) < b" "n \<le> b" "b \<le> 2 ^ 15"
  shows "unat (i + ucast (of_nat n :: u32)) = unat i + n"
proof -
  have "unat (of_nat n :: u32) = n" using assms by (simp add: unsigned_of_nat take_bit_nat_eq_self)
  then have "unat (ucast (of_nat n :: u32) :: u16) = n"
    using assms by (simp add: unsigned_ucast_eq take_bit_nat_eq_self)
  then show ?thesis using assms by (simp add: unat_word_ariths)
qed

lemma unat_mod_index: "unat (p mod bufsz) = unat p mod unat (bufsz :: u16)"
  by (rule unat_mod)

text \<open>How far the place of the byte \<open>i\<close> lies behind the put index, in an area that holds \<open>n\<close> bytes.\<close>

lemma ring_distance:
  fixes b g i n p :: nat
  assumes b: "0 < b" and p: "p = (g + n) mod b" and n: "n \<le> b" and i: "i < n + b"
  shows "((g + i) mod b + b - p) mod b = (if n \<le> i then i - n else (b + i - n) mod b)"
proof -
  let ?j = "(g + i) mod b"
  have pb: "p \<le> b" using p b by (simp add: less_imp_le)
  have "int (?j + b - p) = int ?j + int b - int p" using pb by simp
  then have "int (?j + b - p) mod int b = (int ?j - int p) mod int b" by (simp add: add_diff_eq [symmetric] add.commute)
  also have "\<dots> = (int g + int i - (int g + int n)) mod int b" unfolding p by (simp add: zmod_int mod_diff_eq)
  finally have e: "int ((?j + b - p) mod b) = (int i - int n) mod int b" by (simp add: zmod_int)
  show ?thesis
  proof (cases "n \<le> i")
    case True
    then have "int ((?j + b - p) mod b) = int ((i - n) mod b)" using e by (simp add: zmod_int)
    moreover have "i - n < b" using i True by linarith
    ultimately show ?thesis using True by simp
  next
    case False
    have "(int i - int n) mod int b = int ((b + i - n) mod b)"
      using n by (simp add: zmod_int) (metis add_diff_eq add.commute mod_add_self2)
    then show ?thesis using e False by simp
  qed
qed

lemma dma_fill_nth:
  assumes ok: "fifo_ok bufsz f" and bs: "length bs \<le> unat bufsz" and f: "fifo_count (unat bufsz) f = n"
    and i: "i < n + length bs" "n + length bs \<le> i + unat bufsz"
  shows "fifo_buffer (dma_fill (unat bufsz) bs f) ! ((unat (get_index f) + i) mod unat bufsz) = (fifo_list (unat bufsz) f @ bs) ! i"
proof -
  let ?b = "unat bufsz" and ?g = "unat (get_index f)" and ?p = "unat (put_index f)"
  let ?j = "(?g + i) mod ?b"
  note d = fifo_okD [OF ok]
  have p: "?p = (?g + n) mod ?b" using fifo_put_mod(2) [OF ok] f by simp
  have nb: "n \<le> ?b" using fifo_put_mod(1) [OF ok] f by simp
  have j: "?j < ?b" using d(4) by simp
  have dist: "(?j + ?b - ?p) mod ?b = (if n \<le> i then i - n else (?b + i - n) mod ?b)"
    by (rule ring_distance [OF d(4) p nb]) (use i bs in linarith)
  show ?thesis
  proof (cases "n \<le> i")
    case True
    then have "i - n < length bs" using i by linarith
    then show ?thesis using j True dist f by (simp add: dma_fill_def Let_def nth_append)
  next
    case False
    have far: "\<not> (?b + i - n) mod ?b < length bs"
    proof (cases "n - i < ?b")
      case True
      then have "(?b + i - n) mod ?b = ?b + i - n" using False by simp
      then show ?thesis using i(2) False nb by linarith
    next
      case False
      then have "length bs = 0" using i(2) nb d(4) by arith
      then show ?thesis by simp
    qed
    have "(fifo_list ?b f @ bs) ! i = fifo_buffer f ! ?j" using False f by (simp add: nth_append fifo_nth)
    then show ?thesis using j dist far False by (simp add: dma_fill_def Let_def)
  qed
qed

lemma dma_fill_simps [simp]:
  "put_index (dma_fill b bs f) = put_index f" "get_index (dma_fill b bs f) = get_index f"
  "fifo_full (dma_fill b bs f) = fifo_full f" "length (fifo_buffer (dma_fill b bs f)) = b"
  "fifo_count b (dma_fill b bs f) = fifo_count b f"
  by (simp_all add: dma_fill_def fifo_count_def Let_def)

text \<open>The indices after the handler: the FIFO holds all bytes, or is full from the put index on.\<close>

lemma dma_okD:
  assumes "dma_ok bufsz f"
  shows "fifo_ok bufsz f" "unat bufsz \<le> 2 ^ 15" "fifo_full f \<Longrightarrow> put_index f = get_index f"
  using assms by (simp_all add: dma_ok_def)

lemma update_put_index_eval:
  assumes ok: "dma_ok bufsz f" and len: "len \<le> unat bufsz"
  defines "n \<equiv> fifo_count (unat bufsz) f"
  obtains q where "unat q = (unat (put_index f) + len) mod unat bufsz"
    "dma_recv_update_put_index bufsz (of_nat len) f = Some (if unat bufsz \<le> n + len
      then f\<lparr>put_index := q, fifo_full := True, get_index := q\<rparr> else f\<lparr>put_index := q\<rparr>)"
proof -
  let ?b = "unat bufsz" and ?g = "unat (get_index f)" and ?p = "unat (put_index f)"
  note d = fifo_okD [OF dma_okD(1) [OF ok]]
  define p where "p = put_index f + ucast (of_nat len :: u32)"
  define q where "q = (if p \<ge> bufsz then p mod bufsz else p)"
  have up: "unat p = ?p + len" unfolding p_def by (rule add_index [OF d(2) len dma_okD(2) [OF ok]])
  have m: "unat (p mod bufsz) = (?p + len) mod ?b" by (simp add: unat_mod_index up)
  have b0: "bufsz \<noteq> 0" using d(4) by auto
  have nf: "n = (if ?p = ?g then (if fifo_full f then ?b else 0) else if ?g < ?p then ?p - ?g else ?b - (?g - ?p))"
    by (simp add: n_def fifo_count_def Let_def)
  have fb: "fifo_full f \<Longrightarrow> n = ?b" using dma_okD(3) [OF ok] nf by simp
  note run = dma_recv_update_put_index_def require_def Let_def p_def [symmetric] q_def [symmetric]
  have "dma_recv_update_put_index bufsz (of_nat len) f = Some (if ?b \<le> n + len
      then f\<lparr>put_index := q, fifo_full := True, get_index := q\<rparr> else f\<lparr>put_index := q\<rparr>)"
  proof (cases "get_index f \<le> put_index f")
    case True
    then have gp: "?g \<le> ?p" "\<not> fifo_full f \<Longrightarrow> n = ?p - ?g" using nf by (auto simp: word_le_nat_alt)
    have "p \<ge> bufsz \<Longrightarrow> p mod bufsz \<ge> get_index f \<longleftrightarrow> ?b \<le> ?p - ?g + len"
      using m up gp d(2) len by (auto simp: word_le_nat_alt mod_if)
    moreover have "\<not> p \<ge> bufsz \<Longrightarrow> ?p + len < ?b" using up by (simp add: word_le_nat_alt)
    ultimately show ?thesis using True b0 fb gp
      by (cases "p \<ge> bufsz"; cases "fifo_full f") (simp_all add: run q_def)
  next
    case False
    then have gp: "?p < ?g" by (simp add: word_le_nat_alt)
    then have nfull: "\<not> fifo_full f" and n': "n = ?b - (?g - ?p)" using dma_okD(3) [OF ok] nf by auto
    have "p \<ge> get_index f \<longleftrightarrow> ?b \<le> n + len" using up n' gp d(3) by (auto simp: word_le_nat_alt)
    moreover have "p < get_index f \<Longrightarrow> q = p" using d(3) by (auto simp: q_def word_le_nat_alt word_less_nat_alt)
    ultimately show ?thesis using False nfull b0 by (auto simp: run)
  qed
  moreover have "unat q = (?p + len) mod ?b" unfolding q_def using m up by (simp add: word_le_nat_alt)
  ultimately show ?thesis using that by blast
qed

lemma update_put_index_ok:
  assumes ok: "dma_ok bufsz f" and len: "len \<le> unat bufsz"
  defines "n \<equiv> fifo_count (unat bufsz) f"
  obtains f' where "dma_recv_update_put_index bufsz (of_nat len) f = Some f'" "dma_ok bufsz f'" "fifo_buffer f' = fifo_buffer f"
    "fifo_count (unat bufsz) f' = min (n + len) (unat bufsz)"
    "unat (get_index f') = (unat (get_index f) + (n + len - unat bufsz)) mod unat bufsz"
proof -
  let ?b = "unat bufsz" and ?g = "unat (get_index f)" and ?p = "unat (put_index f)"
  note fo = dma_okD(1) [OF ok] and full = dma_okD(3) [OF ok]
  note d = fifo_okD [OF fo]
  have np: "?p = (?g + n) mod ?b" "n \<le> ?b" using fifo_put_mod [OF fo] by (simp_all add: n_def)
  have nf: "n = (if ?p = ?g then (if fifo_full f then ?b else 0) else if ?g < ?p then ?p - ?g else ?b - (?g - ?p))"
    by (simp add: n_def fifo_count_def Let_def)
  obtain q where uq: "unat q = (?p + len) mod ?b" and
    ex: "dma_recv_update_put_index bufsz (of_nat len) f = Some (if ?b \<le> n + len
      then f\<lparr>put_index := q, fifo_full := True, get_index := q\<rparr> else f\<lparr>put_index := q\<rparr>)"
    unfolding n_def by (rule update_put_index_eval [OF ok len])
  have ql: "q < bufsz" using uq d(4) by (simp add: word_less_nat_alt)
  show ?thesis
  proof (cases "?b \<le> n + len")
    case True
    let ?f = "f\<lparr>put_index := q, fifo_full := True, get_index := q\<rparr>"
    have "unat q = (?g + (n + len)) mod ?b" unfolding uq np(1) mod_add_left_eq by (simp add: add.assoc)
    then have "unat q = (?g + (n + len - ?b)) mod ?b"
      using True mod_add_self2 [of "?g + (n + len - ?b)" ?b] by (simp add: add.assoc)
    moreover have "fifo_count ?b ?f = ?b" by (simp add: fifo_count_def)
    moreover have "dma_ok bufsz ?f" using ok ql by (simp add: dma_ok_def fifo_ok_def)
    ultimately show ?thesis using that [of ?f] ex True by simp
  next
    case False
    let ?f = "f\<lparr>put_index := q\<rparr>"
    have nfull: "\<not> fifo_full f" using False nf full by (cases "fifo_full f") simp_all
    have e: "unat q = (?g + (n + len)) mod ?b" unfolding uq np(1) mod_add_left_eq by (simp add: add.assoc)
    have "fifo_count ?b ?f = n + len"
    proof (cases "n + len = 0")
      case True
      then have "unat q = ?g" using e d(3) by simp
      then show ?thesis using True nfull by (simp add: fifo_count_def)
    next
      case False
      then show ?thesis using e \<open>\<not> ?b \<le> n + len\<close> d(3) by (intro fifo_countI) simp_all
    qed
    moreover have "dma_ok bufsz ?f" using ok ql nfull by (simp add: dma_ok_def fifo_ok_def)
    ultimately show ?thesis using that [of ?f] ex False d(3) by simp
  qed
qed

lemma dma_receive_ok:
  assumes ok: "dma_ok bufsz f" and bs: "length bs \<le> unat bufsz"
  obtains f' where "dma_recv_update_put_index bufsz (of_nat (length bs)) (dma_fill (unat bufsz) bs f) = Some f'" "dma_ok bufsz f'"
    "fifo_list (unat bufsz) f' = keep_last (unat bufsz) (fifo_list (unat bufsz) f @ bs)"
proof -
  let ?b = "unat bufsz" and ?f = "dma_fill (unat bufsz) bs f" and ?n = "fifo_count (unat bufsz) f"
  have fo: "fifo_ok bufsz f" using ok by (simp add: dma_ok_def)
  have ok1: "dma_ok bufsz ?f" using ok by (simp add: dma_ok_def fifo_ok_def)
  obtain f' where f': "dma_recv_update_put_index bufsz (of_nat (length bs)) ?f = Some f'" "dma_ok bufsz f'"
    "fifo_buffer f' = fifo_buffer ?f" "fifo_count ?b f' = min (?n + length bs) ?b"
    "unat (get_index f') = (unat (get_index f) + (?n + length bs - ?b)) mod ?b"
    using update_put_index_ok [OF ok1 bs] by auto
  have "fifo_list ?b f' = keep_last ?b (fifo_list ?b f @ bs)"
  proof (rule nth_equalityI)
    fix i assume "i < length (fifo_list ?b f')"
    then have i: "i < min (?n + length bs) ?b" using f'(4) by simp
    let ?i = "?n + length bs - ?b + i"
    have "fifo_list ?b f' ! i = fifo_buffer ?f ! ((unat (get_index f) + ?i) mod ?b)"
      using i f'(3-5) by (simp add: fifo_nth mod_add_left_eq add.assoc)
    also have "\<dots> = (fifo_list ?b f @ bs) ! ?i" by (rule dma_fill_nth [OF fo bs refl]) (use i in linarith)+
    finally show "fifo_list ?b f' ! i = keep_last ?b (fifo_list ?b f @ bs) ! i"
      using i by (simp add: keep_last_def del: drop_append)
  qed (use f'(4) in simp)
  then show ?thesis using that f'(1,2) by blast
qed

text \<open>Taking \<open>len\<close> of the bytes that lie in the buffer: the index moves, the flag of a full buffer is cleared.\<close>

definition fifo_taken :: "nat \<Rightarrow> u16 \<Rightarrow> rt_serial_rx_fifo \<Rightarrow> rt_serial_rx_fifo" where
  "fifo_taken len q f = f\<lparr>fifo_full := (if len \<noteq> 0 then False else fifo_full f), get_index := q\<rparr>"

lemma fifo_taken_ok:
  assumes ok: "dma_ok bufsz f" and len: "len \<le> fifo_count (unat bufsz) f"
    and uq: "unat q = (unat (get_index f) + len) mod unat bufsz"
  shows "dma_ok bufsz (fifo_taken len q f)" "fifo_count (unat bufsz) (fifo_taken len q f) = fifo_count (unat bufsz) f - len"
proof -
  let ?b = "unat bufsz" and ?m = "fifo_count (unat bufsz) f"
  note fo = dma_okD(1) [OF ok]
  note d = fifo_okD [OF fo]
  have mb: "?m \<le> ?b" "(unat (get_index f) + ?m) mod ?b = unat (put_index f)" using fifo_put_mod [OF fo] by simp_all
  have q0: "q = get_index f" if "len = 0" using that uq d(3) by (simp add: word_unat_eq_iff)
  have "q < bufsz" using uq d(4) by (simp add: word_less_nat_alt)
  then show "dma_ok bufsz (fifo_taken len q f)" using ok q0 by (auto simp: fifo_taken_def dma_ok_def fifo_ok_def)
  show "fifo_count ?b (fifo_taken len q f) = ?m - len"
  proof (cases "len = 0 \<or> len = ?m")
    case True
    then have "len \<noteq> 0 \<Longrightarrow> unat q = unat (put_index f)" using uq mb(2) by simp
    then show ?thesis using True q0 by (cases "len = 0") (auto simp: fifo_taken_def fifo_count_def)
  next
    case False
    have "unat (put_index f) = (unat q + (?m - len)) mod ?b" unfolding uq mod_add_left_eq using len mb(2) by simp
    moreover have "?m - len < ?b" using mb(1) False len by linarith
    ultimately show ?thesis using False len uq d(4) by (intro fifo_countI) (simp_all add: fifo_taken_def)
  qed
qed

lemma fifo_taken_list:
  assumes ok: "dma_ok bufsz f" and len: "len = min n (fifo_count (unat bufsz) f)"
    and uq: "unat q = (unat (get_index f) + len) mod unat bufsz"
  shows "fifo_list (unat bufsz) (fifo_taken len q f) = drop n (fifo_list (unat bufsz) f)"
proof (rule nth_equalityI)
  let ?b = "unat bufsz" and ?m = "fifo_count (unat bufsz) f" and ?f = "fifo_taken len q f"
  have c: "fifo_count ?b ?f = ?m - len" by (rule fifo_taken_ok [OF ok _ uq]) (simp add: len)
  then show "length (fifo_list ?b ?f) = length (drop n (fifo_list ?b f))" by (simp add: len)
  fix i assume "i < length (fifo_list ?b ?f)"
  then have i: "i < ?m - len" using c by simp
  then have "fifo_list ?b ?f ! i = fifo_buffer f ! ((unat (get_index f) + (len + i)) mod ?b)"
    using c uq by (simp add: fifo_nth mod_add_left_eq add.assoc fifo_taken_def)
  then show "fifo_list ?b ?f ! i = drop n (fifo_list ?b f) ! i" using i by (auto simp: len fifo_nth min_def)
qed

lemma update_get_index_eval:
  assumes ok: "dma_ok bufsz f" and len: "len \<le> fifo_count (unat bufsz) f"
  obtains q where "unat q = (unat (get_index f) + len) mod unat bufsz"
    "dma_recv_update_get_index bufsz (of_nat len) f = Some (fifo_taken len q f)"
proof -
  let ?b = "unat bufsz" and ?g = "unat (get_index f)"
  note fo = dma_okD(1) [OF ok] and b = dma_okD(2) [OF ok]
  note d = fifo_okD [OF fo]
  have lb: "len \<le> ?b" using len fifo_put_mod [OF fo] by simp
  define g where "g = get_index f + ucast (of_nat len :: u32)"
  define q where "q = (if g \<ge> bufsz then g mod bufsz else g)"
  have "unat g = ?g + len" unfolding g_def by (rule add_index [OF d(3) lb b])
  then have "unat q = (?g + len) mod ?b" unfolding q_def by (simp add: word_le_nat_alt unat_mod_index)
  moreover have ul: "unat (of_nat len :: u32) = len" using lb b by (simp add: unsigned_of_nat take_bit_nat_eq_self)
  then have "(of_nat len :: u32) = 0 \<longleftrightarrow> len = 0" by (metis unat_0 unat_eq_zero)
  moreover have "of_nat len \<le> serial_fifo_calc_recved_len bufsz f"
    unfolding word_le_nat_alt ul calc_recved_len [OF fo] by (rule len)
  moreover have "bufsz \<noteq> 0" using d(4) by auto
  ultimately show ?thesis using that [of q]
    by (simp add: dma_recv_update_get_index_def require_def Let_def fifo_taken_def g_def [symmetric] q_def)
qed

lemma dma_rx_copy:
  assumes ok: "dma_ok bufsz f" and len: "len = min n (fifo_count (unat bufsz) f)"
  defines "b \<equiv> unat bufsz" and "g \<equiv> unat (get_index f)"
  shows "(if g + len < b then take len (drop g (fifo_buffer f))
    else take (b - g) (drop g (fifo_buffer f)) @ take (len + g - b) (fifo_buffer f)) = take n (fifo_list b f)" (is "?l = _")
proof (rule nth_equalityI)
  note fo = dma_okD(1) [OF ok]
  note d = fifo_okD [OF fo, folded b_def g_def]
  have lb: "len \<le> b" using fifo_put_mod [OF fo] by (simp add: len b_def)
  show "length ?l = length (take n (fifo_list b f))" using d(1,3) lb by (simp add: len b_def min.commute)
  fix i assume "i < length ?l"
  then have i: "i < len" using d(1,3) lb by (auto split: if_splits)
  then have "take n (fifo_list b f) ! i = fifo_buffer f ! ((g + i) mod b)" by (simp add: len fifo_nth b_def g_def)
  also have "\<dots> = ?l ! i" using i d(1,3) lb by (auto simp: nth_append mod_if add.commute)
  finally show "?l ! i = take n (fifo_list b f) ! i" by simp
qed

lemma serial_dma_rx_ok:
  assumes ok: "dma_ok bufsz f"
  obtains f' where "serial_dma_rx bufsz n f = Some (take n (fifo_list (unat bufsz) f), f')" "dma_ok bufsz f'"
    "fifo_list (unat bufsz) f' = drop n (fifo_list (unat bufsz) f)"
proof -
  let ?m = "fifo_count (unat bufsz) f"
  define len where len: "len = min n ?m"
  then have le: "len \<le> ?m" by simp
  obtain q where uq: "unat q = (unat (get_index f) + len) mod unat bufsz" and
    up: "dma_recv_update_get_index bufsz (of_nat len) f = Some (fifo_taken len q f)"
    by (rule update_get_index_eval [OF ok le])
  have "(if n < ?m then n else ?m) = len" by (simp add: len)
  then have "serial_dma_rx bufsz n f = Some (take n (fifo_list (unat bufsz) f), fifo_taken len q f)"
    unfolding dma_rx_copy [OF ok len, symmetric] by (simp add: serial_dma_rx_def Let_def calc_recved_len [OF dma_okD(1) [OF ok]] up)
  then show ?thesis by (rule that) (rule fifo_taken_ok(1) [OF ok le uq], rule fifo_taken_list [OF ok len uq])
qed

end
