(* ===== verification/Device.thy ===== *)
theory Device
  imports HeapCalls ObjectProps MemPool
begin

unbundle bit_operations_syntax

section \<open>Devices (rt-thread/src/device.c)\<close>

text \<open>
  A device is a kernel object whose structure holds the functions of its driver.  The structure
  is the record \<open>rt_device\<close> in the kernel; the functions are the record \<open>dev_ops\<close>, a parameter
  of the operations, each absent when its pointer is \<open>RT_NULL\<close>.  They work on the heap, the
  kernel and the state \<open>'s\<close> of the drivers.  A function of a driver may wait in the middle of a
  call; then the call is modelled up to that point (\<open>Waits\<close>).  A buffer to write is its address
  and its bytes; a read returns the bytes that it stored.  \<open>'c\<close> is what the argument of a control
  command may point to.
\<close>

abbreviation RT_EIO :: rt_err where "RT_EIO \<equiv> 8"

abbreviation RT_DEVICE_FLAG_STANDALONE :: u16 where "RT_DEVICE_FLAG_STANDALONE \<equiv> 0x008"
abbreviation RT_DEVICE_FLAG_ACTIVATED :: u16 where "RT_DEVICE_FLAG_ACTIVATED \<equiv> 0x010"
abbreviation RT_DEVICE_OFLAG_CLOSE :: u16 where "RT_DEVICE_OFLAG_CLOSE \<equiv> 0x000"
abbreviation RT_DEVICE_OFLAG_OPEN :: u16 where "RT_DEVICE_OFLAG_OPEN \<equiv> 0x008"
abbreviation RT_DEVICE_OFLAG_MASK :: u16 where "RT_DEVICE_OFLAG_MASK \<equiv> 0xf0f"

type_synonym 's dev_world = "heap_state \<times> 's"

datatype 'a dev_result = Done 'a | Waits

record ('s, 'c) dev_ops =
  dev_init :: "(nat \<Rightarrow> 's dev_world \<Rightarrow> (rt_err dev_result \<times> 's dev_world) option) option"
  dev_open :: "(nat \<Rightarrow> u16 \<Rightarrow> 's dev_world \<Rightarrow> (rt_err dev_result \<times> 's dev_world) option) option"
  dev_close :: "(nat \<Rightarrow> 's dev_world \<Rightarrow> (rt_err dev_result \<times> 's dev_world) option) option"
  dev_read :: "(nat \<Rightarrow> u32 \<Rightarrow> u32 \<Rightarrow> u32 \<Rightarrow> 's dev_world \<Rightarrow> ((u32 \<times> u8 list) dev_result \<times> 's dev_world) option) option"
  dev_write :: "(nat \<Rightarrow> u32 \<Rightarrow> u32 \<times> u8 list \<Rightarrow> u32 \<Rightarrow> 's dev_world \<Rightarrow> (u32 dev_result \<times> 's dev_world) option) option"
  dev_control :: "(nat \<Rightarrow> int \<Rightarrow> 'c \<Rightarrow> 's dev_world \<Rightarrow> ((rt_err \<times> 'c) dev_result \<times> 's dev_world) option) option"

fun dev_kernel :: "'s dev_world \<Rightarrow> kernel" where
  "dev_kernel ((h, k), s) = k"

fun map_kernel :: "(kernel \<Rightarrow> kernel) \<Rightarrow> 's dev_world \<Rightarrow> 's dev_world" where
  "map_kernel f ((h, k), s) = ((h, f k), s)"

definition device_of :: "'s dev_world \<Rightarrow> nat \<Rightarrow> rt_device" where
  "device_of w d = devices (dev_kernel w) d"

definition upd_device :: "nat \<Rightarrow> (rt_device \<Rightarrow> rt_device) \<Rightarrow> 's dev_world \<Rightarrow> 's dev_world" where
  "upd_device d f = map_kernel (upd_dev d f)"

definition is_device :: "kernel \<Rightarrow> nat \<Rightarrow> bool" where
  "is_device k d \<longleftrightarrow> rt_object_get_type k (ODevice d) = class_code RT_Object_Class_Device"

subsection \<open>The directory of devices\<close>

definition rt_device_find :: "u8 list \<Rightarrow> kernel \<Rightarrow> (objref option \<times> kernel) option" where
  "rt_device_find name k = do {
     let k1 = (if rt_thread_self k \<noteq> None then rt_enter_critical k else k);
     information \<leftarrow> rt_object_get_information k1 (class_code RT_Object_Class_Device);
     ob \<leftarrow> find_by_name k1 name information;
     k2 \<leftarrow> (if rt_thread_self k1 \<noteq> None then rt_exit_critical k1 else Some k1);
     Some (ob, k2)
   }"

text \<open>The fields for file operations (\<open>fops\<close>, \<open>wait_queue\<close>, under \<open>RT_USING_POSIX\<close>) are not part of the record of a
  device, so registering does not set them here.\<close>

definition rt_device_register :: "nat option \<Rightarrow> u8 list \<Rightarrow> u16 \<Rightarrow> kernel \<Rightarrow> (rt_err \<times> kernel) option" where
  "rt_device_register dev name flags k =
     (case dev of
        None \<Rightarrow> Some (- RT_ERROR, k)
      | Some d \<Rightarrow> do {
          (found, k1) \<leftarrow> rt_device_find name k;
          if found \<noteq> None then Some (- RT_ERROR, k1)
          else do {
            k2 \<leftarrow> rt_object_init (ODevice d) RT_Object_Class_Device name k1;
            Some (RT_EOK, upd_dev d (\<lambda>dv. dv\<lparr>dev_flag := flags, ref_count := 0, open_flag := 0\<rparr>) k2)
          }
        })"

definition rt_device_unregister :: "nat \<Rightarrow> kernel \<Rightarrow> (rt_err \<times> kernel) option" where
  "rt_device_unregister d k = do {
     require (is_device k d);
     require (rt_object_is_systemobject k (ODevice d));
     Some (RT_EOK, rt_object_detach (ODevice d) k)
   }"

definition rt_device_init_all :: rt_err where
  "rt_device_init_all = RT_EOK"

text \<open>\<open>sizeof_device\<close> is the size of \<open>struct rt_device\<close>, \<open>at\<close> the device at an address.\<close>

definition zero_device :: rt_device where
  "zero_device = \<lparr>obj_name = replicate 8 0, obj_type = 0, obj_flag = 0, dev_type = 0, dev_flag = 0, open_flag = 0,
     ref_count = 0, device_id = 0, rx_indicate = 0, tx_complete = 0, dev_user_data = 0\<rparr>"

definition rt_device_create :: "u32 \<Rightarrow> (u32 \<Rightarrow> nat) \<Rightarrow> u32 \<Rightarrow> u32 \<Rightarrow> heap_state \<Rightarrow> (heap_result \<times> heap_state) option" where
  "rt_device_create sizeof_device at ty attach_size s = do {
     (r, h, k) \<leftarrow> rt_malloc (rt_align sizeof_device + rt_align attach_size) s;
     (case r of
        Mem p \<Rightarrow> Some (Mem p, h, if p \<noteq> 0 then upd_dev (at p) (\<lambda>_. zero_device\<lparr>dev_type := ty\<rparr>) k else k)
      | Heap_blocked \<Rightarrow> Some (Heap_blocked, h, k))
   }"

definition rt_device_destroy :: "(nat \<Rightarrow> u32) \<Rightarrow> nat \<Rightarrow> heap_state \<Rightarrow> (heap_result \<times> heap_state) option" where
  "rt_device_destroy addr d s = (case s of (h, k) \<Rightarrow> do {
     require (is_device k d);
     require (\<not> rt_object_is_systemobject k (ODevice d));
     rt_free (addr d) (h, rt_object_detach (ODevice d) k)
   })"

subsection \<open>Use of a device\<close>

definition activate :: "nat \<Rightarrow> 's dev_world \<Rightarrow> 's dev_world" where
  "activate d = upd_device d (\<lambda>dv. dv\<lparr>dev_flag := dev_flag dv OR RT_DEVICE_FLAG_ACTIVATED\<rparr>)"

definition rt_device_init :: "(nat \<Rightarrow> ('s, 'c) dev_ops) \<Rightarrow> nat \<Rightarrow> 's dev_world \<Rightarrow> (rt_err dev_result \<times> 's dev_world) option" where
  "rt_device_init drv d w =
     (case dev_init (drv d) of
        None \<Rightarrow> Some (Done RT_EOK, w)
      | Some f \<Rightarrow>
          if dev_flag (device_of w d) AND RT_DEVICE_FLAG_ACTIVATED = 0 then do {
            (r, w1) \<leftarrow> f d w;
            Some (r, if r = Done RT_EOK then activate d w1 else w1)
          }
          else Some (Done RT_EOK, w))"

text \<open>The first part of \<open>rt_device_open\<close>, the call of the driver, and the count of the openings.\<close>

definition open_activate :: "(nat \<Rightarrow> ('s, 'c) dev_ops) \<Rightarrow> nat \<Rightarrow> 's dev_world \<Rightarrow> (rt_err dev_result \<times> 's dev_world) option" where
  "open_activate drv d w =
     (if dev_flag (device_of w d) AND RT_DEVICE_FLAG_ACTIVATED = 0 then
        (case dev_init (drv d) of
           None \<Rightarrow> Some (Done RT_EOK, activate d w)
         | Some f \<Rightarrow> do {
             (r, w1) \<leftarrow> f d w;
             Some (r, if r = Done RT_EOK then activate d w1 else w1)
           })
      else Some (Done RT_EOK, w))"

definition call_open :: "(nat \<Rightarrow> ('s, 'c) dev_ops) \<Rightarrow> nat \<Rightarrow> u16 \<Rightarrow> 's dev_world \<Rightarrow> (rt_err dev_result \<times> 's dev_world) option" where
  "call_open drv d oflag w =
     (case dev_open (drv d) of
        Some f \<Rightarrow> f d oflag w
      | None \<Rightarrow> Some (Done RT_EOK, upd_device d (\<lambda>dv. dv\<lparr>open_flag := oflag AND RT_DEVICE_OFLAG_MASK\<rparr>) w))"

definition done_ok :: "rt_err dev_result \<Rightarrow> bool" where
  "done_ok r \<longleftrightarrow> r = Done RT_EOK \<or> r = Done (- RT_ENOSYS)"

definition open_counted ::
    "(nat \<Rightarrow> ('s, 'c) dev_ops) \<Rightarrow> nat \<Rightarrow> u16 \<Rightarrow> 's dev_world \<Rightarrow> (rt_err dev_result \<times> 's dev_world) option" where
  "open_counted drv d oflag w =
     (if dev_flag (device_of w d) AND RT_DEVICE_FLAG_STANDALONE \<noteq> 0 \<and> open_flag (device_of w d) AND RT_DEVICE_OFLAG_OPEN \<noteq> 0
      then Some (Done (- RT_EBUSY), w)
      else do {
        (r, w1) \<leftarrow> call_open drv d oflag w;
        if done_ok r then do {
          let w2 = upd_device d (\<lambda>dv. dv\<lparr>open_flag := open_flag dv OR RT_DEVICE_OFLAG_OPEN, ref_count := ref_count dv + 1\<rparr>) w1;
          require (ref_count (device_of w2 d) \<noteq> 0);
          Some (r, w2)
        }
        else Some (r, w1)
      })"

definition rt_device_open ::
    "(nat \<Rightarrow> ('s, 'c) dev_ops) \<Rightarrow> nat \<Rightarrow> u16 \<Rightarrow> 's dev_world \<Rightarrow> (rt_err dev_result \<times> 's dev_world) option" where
  "rt_device_open drv d oflag w = do {
     require (is_device (dev_kernel w) d);
     (r, w1) \<leftarrow> open_activate drv d w;
     if r \<noteq> Done RT_EOK then Some (r, w1) else open_counted drv d oflag w1
   }"

definition rt_device_close ::
    "(nat \<Rightarrow> ('s, 'c) dev_ops) \<Rightarrow> nat \<Rightarrow> 's dev_world \<Rightarrow> (rt_err dev_result \<times> 's dev_world) option" where
  "rt_device_close drv d w = do {
     require (is_device (dev_kernel w) d);
     if ref_count (device_of w d) = 0 then Some (Done (- RT_ERROR), w)
     else do {
       let w1 = upd_device d (\<lambda>dv. dv\<lparr>ref_count := ref_count dv - 1\<rparr>) w;
       if ref_count (device_of w1 d) \<noteq> 0 then Some (Done RT_EOK, w1)
       else do {
         (r, w2) \<leftarrow> (case dev_close (drv d) of None \<Rightarrow> Some (Done RT_EOK, w1) | Some f \<Rightarrow> f d w1);
         Some (r, if done_ok r then upd_device d (\<lambda>dv. dv\<lparr>open_flag := RT_DEVICE_OFLAG_CLOSE\<rparr>) w2 else w2)
       }
     }
   }"

definition rt_device_read ::
    "(nat \<Rightarrow> ('s, 'c) dev_ops) \<Rightarrow> nat \<Rightarrow> u32 \<Rightarrow> u32 \<Rightarrow> u32 \<Rightarrow> 's dev_world
      \<Rightarrow> ((u32 \<times> u8 list) dev_result \<times> 's dev_world) option" where
  "rt_device_read drv d pos buffer sz w = do {
     require (is_device (dev_kernel w) d);
     if ref_count (device_of w d) = 0 then Some (Done (0, []), map_kernel (rt_set_errno (- RT_ERROR)) w)
     else (case dev_read (drv d) of
             Some f \<Rightarrow> f d pos buffer sz w
           | None \<Rightarrow> Some (Done (0, []), map_kernel (rt_set_errno (- RT_ENOSYS)) w))
   }"

definition rt_device_write ::
    "(nat \<Rightarrow> ('s, 'c) dev_ops) \<Rightarrow> nat \<Rightarrow> u32 \<Rightarrow> u32 \<times> u8 list \<Rightarrow> u32 \<Rightarrow> 's dev_world \<Rightarrow> (u32 dev_result \<times> 's dev_world) option" where
  "rt_device_write drv d pos buffer sz w = do {
     require (is_device (dev_kernel w) d);
     if ref_count (device_of w d) = 0 then Some (Done 0, map_kernel (rt_set_errno (- RT_ERROR)) w)
     else (case dev_write (drv d) of
             Some f \<Rightarrow> f d pos buffer sz w
           | None \<Rightarrow> Some (Done 0, map_kernel (rt_set_errno (- RT_ENOSYS)) w))
   }"

definition rt_device_control ::
    "(nat \<Rightarrow> ('s, 'c) dev_ops) \<Rightarrow> nat \<Rightarrow> int \<Rightarrow> 'c \<Rightarrow> 's dev_world \<Rightarrow> ((rt_err \<times> 'c) dev_result \<times> 's dev_world) option" where
  "rt_device_control drv d cmd arg w = do {
     require (is_device (dev_kernel w) d);
     (case dev_control (drv d) of Some f \<Rightarrow> f d cmd arg w | None \<Rightarrow> Some (Done (- RT_ENOSYS, arg), w))
   }"

definition rt_device_set_rx_indicate :: "nat \<Rightarrow> u32 \<Rightarrow> kernel \<Rightarrow> (rt_err \<times> kernel) option" where
  "rt_device_set_rx_indicate d f k = do {
     require (is_device k d);
     Some (RT_EOK, upd_dev d (\<lambda>dv. dv\<lparr>rx_indicate := f\<rparr>) k)
   }"

definition rt_device_set_tx_complete :: "nat \<Rightarrow> u32 \<Rightarrow> kernel \<Rightarrow> (rt_err \<times> kernel) option" where
  "rt_device_set_tx_complete d f k = do {
     require (is_device k d);
     Some (RT_EOK, upd_dev d (\<lambda>dv. dv\<lparr>tx_complete := f\<rparr>) k)
   }"

subsection \<open>The count of the openings\<close>

lemma bind_pairE:
  assumes "Option.bind c (\<lambda>(a, b). f a b) = Some y"
  obtains a b where "c = Some (a, b)" "f a b = Some y"
  using assms by (cases c) auto

lemma device_simps [simp]:
  "dev_kernel (map_kernel f w) = f (dev_kernel w)"
  "dev_kernel (upd_device d g w) = upd_dev d g (dev_kernel w)"
  "device_of (upd_device d g w) e = (if e = d then g (device_of w d) else device_of w e)"
  by (cases w rule: dev_kernel.cases; simp add: upd_device_def device_of_def upd_dev_def)+

lemma map_kernel_fst [simp]: "fst (fst (map_kernel f w)) = fst (fst w)" "snd (map_kernel f w) = snd w"
  "fst (fst (upd_device d g w)) = fst (fst w)" "snd (upd_device d g w) = snd w"
  by (cases w rule: dev_kernel.cases; simp add: upd_device_def)+

lemma is_device_upd_dev [simp]:
  "(\<And>dv. obj_type (f dv) = obj_type dv) \<Longrightarrow> is_device (upd_dev e f k) d = is_device k d"
  by (simp add: is_device_def rt_object_get_type_def upd_dev_def)

lemma done_ok_simps [simp]: "done_ok (Done RT_EOK)" "done_ok (Done (- RT_ENOSYS))" "\<not> done_ok Waits"
  "\<not> done_ok (Done (- RT_EBUSY))" "\<not> done_ok (Done (- RT_ERROR))"
  by (simp_all add: done_ok_def)

lemma activated_bits [simp]:
  "(x OR RT_DEVICE_FLAG_ACTIVATED) AND RT_DEVICE_FLAG_ACTIVATED = RT_DEVICE_FLAG_ACTIVATED"
  "(x OR RT_DEVICE_FLAG_ACTIVATED) AND RT_DEVICE_FLAG_STANDALONE = x AND RT_DEVICE_FLAG_STANDALONE"
  "(x OR RT_DEVICE_OFLAG_OPEN) AND RT_DEVICE_OFLAG_OPEN = RT_DEVICE_OFLAG_OPEN"
  by (simp_all add: bit.conj_disj_distrib2)

text \<open>What a driver leaves to the functions of this file.\<close>

definition keeps_device :: "nat \<Rightarrow> 's dev_world \<Rightarrow> 's dev_world \<Rightarrow> bool" where
  "keeps_device d w w' \<longleftrightarrow> (is_device (dev_kernel w') d \<longleftrightarrow> is_device (dev_kernel w) d) \<and>
     ref_count (device_of w' d) = ref_count (device_of w d) \<and>
     dev_flag (device_of w' d) AND RT_DEVICE_FLAG_ACTIVATED = dev_flag (device_of w d) AND RT_DEVICE_FLAG_ACTIVATED \<and>
     dev_flag (device_of w' d) AND RT_DEVICE_FLAG_STANDALONE = dev_flag (device_of w d) AND RT_DEVICE_FLAG_STANDALONE"

definition keeps_open :: "nat \<Rightarrow> 's dev_world \<Rightarrow> 's dev_world \<Rightarrow> bool" where
  "keeps_open d w w' \<longleftrightarrow>
     open_flag (device_of w' d) AND RT_DEVICE_OFLAG_OPEN = open_flag (device_of w d) AND RT_DEVICE_OFLAG_OPEN"

text \<open>
  Openings and closings of device \<open>d\<close>, with anything in between that keeps to this and to the
  invariant \<open>ready\<close> of the driver; \<open>n\<close> is the number of openings that were not closed.  An
  opening whose initialisation failed is not counted, even with \<open>-RT_ENOSYS\<close>.
\<close>

definition opened :: "nat \<Rightarrow> rt_err dev_result \<Rightarrow> 's dev_world \<Rightarrow> bool" where
  "opened d r w \<longleftrightarrow> done_ok r \<and> dev_flag (device_of w d) AND RT_DEVICE_FLAG_ACTIVATED \<noteq> 0"

inductive device_run ::
    "(nat \<Rightarrow> ('s, 'c) dev_ops) \<Rightarrow> (nat \<Rightarrow> 's dev_world \<Rightarrow> bool) \<Rightarrow> nat \<Rightarrow> 's dev_world \<Rightarrow> 's dev_world \<Rightarrow> nat \<Rightarrow> bool"
  for drv ready d w0 where
  start: "device_run drv ready d w0 w0 0"
| opens: "device_run drv ready d w0 w n \<Longrightarrow> rt_device_open drv d oflag w = Some (r, w') \<Longrightarrow>
    device_run drv ready d w0 w' (if opened d r w' then Suc n else n)"
| close: "device_run drv ready d w0 w n \<Longrightarrow> rt_device_close drv d w = Some (r, w') \<Longrightarrow> device_run drv ready d w0 w' (n - 1)"
| other: "device_run drv ready d w0 w n \<Longrightarrow> ready d w' \<Longrightarrow> keeps_device d w w' \<Longrightarrow> keeps_open d w w' \<Longrightarrow>
    device_run drv ready d w0 w' n"

inductive_cases device_runE: "device_run drv ready d w0 w n"

definition count_ok :: "nat \<Rightarrow> 's dev_world \<Rightarrow> nat \<Rightarrow> bool" where
  "count_ok d w n \<longleftrightarrow> is_device (dev_kernel w) d \<and> unat (ref_count (device_of w d)) = n \<and>
     (0 < n \<longrightarrow> open_flag (device_of w d) AND RT_DEVICE_OFLAG_OPEN \<noteq> 0 \<and> dev_flag (device_of w d) AND RT_DEVICE_FLAG_ACTIVATED \<noteq> 0) \<and>
     (dev_flag (device_of w d) AND RT_DEVICE_FLAG_STANDALONE \<noteq> 0 \<longrightarrow> n \<le> 1)"

text \<open>The contract between the device functions and a driver.\<close>

locale device_driver =
  fixes ops :: "('s, 'c) dev_ops" and ready :: "nat \<Rightarrow> 's dev_world \<Rightarrow> bool"
  assumes init_ok: "dev_init ops = Some f \<Longrightarrow> ready d w \<Longrightarrow> f d w = Some (r, w') \<Longrightarrow> ready d w' \<and> keeps_device d w w' \<and> keeps_open d w w'"
    and open_ok: "dev_open ops = Some g \<Longrightarrow> ready d w \<Longrightarrow> g d oflag w = Some (r, w') \<Longrightarrow>
      ready d w' \<and> keeps_device d w w' \<and> (\<not> done_ok r \<longrightarrow> keeps_open d w w')"
    and close_ok: "dev_close ops = Some f \<Longrightarrow> ready d w \<Longrightarrow> f d w = Some (r, w') \<Longrightarrow> ready d w' \<and> keeps_device d w w' \<and> keeps_open d w w'"
    and ready_upd: "(\<And>dv. obj_type (c dv) = obj_type dv) \<Longrightarrow> ready d (upd_device d c w) = ready d w"
begin

lemma activate_ok:
  assumes "open_activate drv d w = Some (r, w')" "drv d = ops" "ready d w" "count_ok d w n"
  shows "ready d w' \<and> count_ok d w' n \<and> (r = Done RT_EOK \<longleftrightarrow> dev_flag (device_of w' d) AND RT_DEVICE_FLAG_ACTIVATED \<noteq> 0)"
proof (cases "dev_flag (device_of w d) AND RT_DEVICE_FLAG_ACTIVATED = 0")
  case False
  then show ?thesis using assms by (simp add: open_activate_def)
next
  case True
  show ?thesis
  proof (cases "dev_init ops")
    case None
    then show ?thesis using True assms by (auto simp: open_activate_def activate_def count_ok_def ready_upd)
  next
    case (Some f)
    then obtain w1 where f: "f d w = Some (r, w1)" "w' = (if r = Done RT_EOK then activate d w1 else w1)"
      using True assms(1,2) by (auto simp: open_activate_def bind_eq_Some_conv)
    have k: "ready d w1" "keeps_device d w w1" "keeps_open d w w1" using init_ok [OF Some assms(3) f(1)] by simp_all
    then have "count_ok d w1 n" "dev_flag (device_of w1 d) AND RT_DEVICE_FLAG_ACTIVATED = 0"
      using assms(4) True by (simp_all add: count_ok_def keeps_device_def keeps_open_def)
    then show ?thesis unfolding f(2) using k(1) by (cases "r = Done RT_EOK") (auto simp: activate_def count_ok_def ready_upd)
  qed
qed

lemma counted_ok:
  assumes "open_counted drv d oflag w = Some (r, w')" "drv d = ops" "ready d w" "count_ok d w n"
    and act: "dev_flag (device_of w d) AND RT_DEVICE_FLAG_ACTIVATED \<noteq> 0"
  shows "ready d w' \<and> count_ok d w' (if opened d r w' then Suc n else n)"
proof (cases "dev_flag (device_of w d) AND RT_DEVICE_FLAG_STANDALONE \<noteq> 0 \<and> open_flag (device_of w d) AND RT_DEVICE_OFLAG_OPEN \<noteq> 0")
  case True
  then show ?thesis using assms(1,3,4) by (auto simp: open_counted_def opened_def)
next
  case False
  let ?count = "\<lambda>dv :: rt_device. dv\<lparr>open_flag := open_flag dv OR RT_DEVICE_OFLAG_OPEN, ref_count := ref_count dv + 1\<rparr>"
  have "Option.bind (call_open drv d oflag w) (\<lambda>(r, w1). if done_ok r
      then Option.bind (require (ref_count (device_of w1 d) + 1 \<noteq> 0)) (\<lambda>_. Some (r, upd_device d ?count w1)) else Some (r, w1)) = Some (r, w')"
    using assms(1) False by (simp add: open_counted_def Let_def cong: if_cong)
  then obtain w2 where call: "call_open drv d oflag w = Some (r, w2)"
    "if done_ok r then w' = upd_device d ?count w2 \<and> ref_count (device_of w2 d) + 1 \<noteq> 0 else w' = w2"
    by (rule bind_pairE) (auto simp: require_def split: if_splits)
  have one: "dev_flag (device_of w d) AND RT_DEVICE_FLAG_STANDALONE \<noteq> 0 \<Longrightarrow> n = 0" using False assms(4) by (auto simp: count_ok_def)
  have "ready d w2 \<and> keeps_device d w w2 \<and> (\<not> done_ok r \<longrightarrow> keeps_open d w w2)"
  proof (cases "dev_open ops")
    case None
    then show ?thesis using call(1) assms(2,3) by (auto simp: call_open_def keeps_device_def ready_upd)
  next
    case (Some g)
    then show ?thesis using call(1) open_ok [OF Some assms(3), of oflag r w2] assms(2) by (simp add: call_open_def)
  qed
  then have w2: "ready d w2" "keeps_device d w w2" "\<not> done_ok r \<Longrightarrow> keeps_open d w w2" by simp_all
  show ?thesis
  proof (cases "done_ok r")
    case False
    then show ?thesis using call(2) w2 assms(4) by (simp add: opened_def count_ok_def keeps_device_def keeps_open_def)
  next
    case True
    then have w': "w' = upd_device d ?count w2" "ref_count (device_of w2 d) + 1 \<noteq> 0" using call(2) by simp_all
    then have "unat (ref_count (device_of w2 d) + 1) = Suc n"
      using w2(2) assms(4) unatSuc [of "ref_count (device_of w2 d)"] by (simp add: keeps_device_def count_ok_def add.commute)
    then show ?thesis unfolding w'(1) using w2(1,2) assms(4) act one True
      by (simp add: opened_def count_ok_def keeps_device_def ready_upd)
  qed
qed

lemma opening_counts:
  assumes "rt_device_open drv d oflag w = Some (r, w')" "drv d = ops" "ready d w" "count_ok d w n"
  shows "ready d w' \<and> count_ok d w' (if opened d r w' then Suc n else n)"
proof -
  have "is_device (dev_kernel w) d" using assms(4) by (simp add: count_ok_def)
  then have "Option.bind (open_activate drv d w) (\<lambda>(r, w1). if r \<noteq> Done RT_EOK then Some (r, w1) else open_counted drv d oflag w1) = Some (r, w')"
    using assms(1) by (simp add: rt_device_open_def require_def)
  then obtain r1 w1 where a: "open_activate drv d w = Some (r1, w1)"
    "(if r1 \<noteq> Done RT_EOK then Some (r1, w1) else open_counted drv d oflag w1) = Some (r, w')" by (rule bind_pairE)
  note k = activate_ok [OF a(1) assms(2-4)]
  show ?thesis
  proof (cases "r1 = Done RT_EOK")
    case True
    then show ?thesis using counted_ok [of drv d oflag w1 r w' n] a(2) k assms(2) by simp
  next
    case False
    then have "\<not> opened d r w'" "w' = w1" using a(2) k by (auto simp: opened_def)
    then show ?thesis using k by simp
  qed
qed

lemma closing_counts:
  assumes "rt_device_close drv d w = Some (r, w')" "drv d = ops" "ready d w" "count_ok d w n"
  shows "ready d w' \<and> count_ok d w' (n - 1)"
proof (cases "ref_count (device_of w d) = 0")
  case True
  then show ?thesis using assms by (auto simp: rt_device_close_def require_def count_ok_def split: if_splits)
next
  case False
  let ?w = "upd_device d (\<lambda>dv :: rt_device. dv\<lparr>ref_count := ref_count dv - 1\<rparr>) w"
  have "unat (ref_count (device_of w d) - 1) = n - 1" using False assms(4) by (simp add: count_ok_def unat_minus_one)
  then have c: "count_ok d ?w (n - 1)" "ready d ?w" using assms(3,4) by (auto simp: count_ok_def ready_upd)
  show ?thesis
  proof (cases "ref_count (device_of w d) - 1 = 0")
    case False
    then show ?thesis using c assms(1) \<open>ref_count _ \<noteq> 0\<close> by (auto simp: rt_device_close_def require_def split: if_splits)
  next
    case True
    then have n: "n - 1 = 0" using c(1) by (simp add: count_ok_def)
    let ?call = "case dev_close ops of None \<Rightarrow> Some (Done RT_EOK, ?w) | Some f \<Rightarrow> f d ?w"
    let ?mark = "upd_device d (\<lambda>dv. dv\<lparr>open_flag := RT_DEVICE_OFLAG_CLOSE\<rparr>)"
    have "is_device (dev_kernel w) d" using assms(4) by (simp add: count_ok_def)
    then have "Option.bind ?call (\<lambda>(r, w2). Some (r, if done_ok r then ?mark w2 else w2)) = Some (r, w')"
      using assms(1,2) True \<open>ref_count _ \<noteq> 0\<close> by (simp add: rt_device_close_def require_def Let_def)
    then obtain w2 where w2: "?call = Some (r, w2)" "w' = (if done_ok r then ?mark w2 else w2)" by (rule bind_pairE) simp
    have "ready d w2 \<and> keeps_device d ?w w2 \<and> keeps_open d ?w w2"
    proof (cases "dev_close ops")
      case None
      then show ?thesis using w2(1) c(2) by (simp add: keeps_device_def keeps_open_def)
    next
      case (Some f)
      then show ?thesis using w2(1) close_ok [OF Some c(2)] by simp
    qed
    then show ?thesis using w2(2) c(1) unfolding n by (auto simp: count_ok_def keeps_device_def ready_upd)
  qed
qed

lemma run_count:
  assumes "device_run drv ready d w0 w n" "drv d = ops" "ready d w0" "count_ok d w0 0"
  shows "ready d w \<and> count_ok d w n"
  using assms
proof (induction rule: device_run.induct)
  case (opens w n oflag r w')
  then show ?case using opening_counts by blast
next
  case (close w n r w')
  then show ?case using closing_counts by blast
next
  case (other w n w')
  then show ?case by (simp add: count_ok_def keeps_device_def keeps_open_def)
qed simp

end

subsection \<open>Two dead ends\<close>

text \<open>Registering a device makes it a static object, which \<open>rt_device_destroy\<close> refuses with an assertion.\<close>

lemma registered_not_destroyed:
  assumes "rt_device_register (Some d) name flags k = Some (RT_EOK, k')"
  shows "is_device k' d \<and> rt_device_destroy addr d (h, k') = None"
proof -
  obtain k1 k2 where i: "rt_object_init (ODevice d) RT_Object_Class_Device name k1 = Some k2"
      "k' = upd_dev d (\<lambda>dv. dv\<lparr>dev_flag := flags, ref_count := 0, open_flag := 0\<rparr>) k2"
    using assms by (auto simp: rt_device_register_def bind_eq_Some_conv split: if_splits)
  then have "obj_type_of k' (ODevice d) = class_code RT_Object_Class_Device OR RT_Object_Class_Static"
    by (auto simp: rt_object_init_def bind_eq_Some_conv require_def upd_dev_def kdefs split: if_splits)
  then show ?thesis by (simp add: is_device_def rt_object_get_type_def rt_object_is_systemobject_def rt_device_destroy_def require_def)
qed

text \<open>
  The count of a device is 0 before its driver is asked to close it.  When the driver refuses, a
  stand-alone device stays marked as open: it can be neither closed nor opened any more.
\<close>

lemma standalone_locked:
  assumes "dev_close (drv d) = Some f" "is_device (dev_kernel w) d" "ref_count (device_of w d) = 1"
    and "dev_flag (device_of w d) AND RT_DEVICE_FLAG_STANDALONE \<noteq> 0" "dev_flag (device_of w d) AND RT_DEVICE_FLAG_ACTIVATED \<noteq> 0"
    and "open_flag (device_of w d) AND RT_DEVICE_OFLAG_OPEN \<noteq> 0" "\<not> done_ok r"
    and "f d (upd_device d (\<lambda>dv. dv\<lparr>ref_count := ref_count dv - 1\<rparr>) w) = Some (r, w')"
    and "keeps_device d (upd_device d (\<lambda>dv. dv\<lparr>ref_count := ref_count dv - 1\<rparr>) w) w'"
    and "keeps_open d (upd_device d (\<lambda>dv. dv\<lparr>ref_count := ref_count dv - 1\<rparr>) w) w'"
  shows "rt_device_close drv d w = Some (r, w') \<and> rt_device_close drv d w' = Some (Done (- RT_ERROR), w') \<and>
    rt_device_open drv d oflag w' = Some (Done (- RT_EBUSY), w')"
proof -
  have "is_device (dev_kernel w') d" "ref_count (device_of w' d) = 0"
    "dev_flag (device_of w' d) AND RT_DEVICE_FLAG_STANDALONE \<noteq> 0" "dev_flag (device_of w' d) AND RT_DEVICE_FLAG_ACTIVATED \<noteq> 0"
    "open_flag (device_of w' d) AND RT_DEVICE_OFLAG_OPEN \<noteq> 0"
    using assms by (simp_all add: keeps_device_def keeps_open_def)
  then show ?thesis using assms(1-3,7,8)
    by (simp add: rt_device_close_def rt_device_open_def open_activate_def open_counted_def require_def Let_def cong: if_cong)
qed

end
