(* ===== verification/Serial.thy ===== *)
theory Serial
  imports Device DataQueue SerialFifo
begin

unbundle bit_operations_syntax

section \<open>Serial devices (rt-thread/components/drivers/serial/serial.c)\<close>

text \<open>
  The driver framework of the serial ports.  The functions of the port's low-level driver
  (\<open>rt_uart_ops\<close>) work on the state \<open>'h\<close> of the hardware and are parameters.  The structures that
  \<open>serial_rx\<close> and \<open>serial_tx\<close> point to are on the heap; the model keeps the address of the block
  and its contents as a record.  The completion and the waiting lists of the data queue of device
  \<open>d\<close> are number \<open>d\<close> of the kernel.  The functions that a user registers are called by their
  address (\<open>serial_callbacks\<close>).  A size above \<open>INT_MAX\<close> is not modelled: the call gives \<open>None\<close>.
\<close>

abbreviation RT_DEVICE_FLAG_SUSPENDED :: u16 where "RT_DEVICE_FLAG_SUSPENDED \<equiv> 0x020"
abbreviation RT_DEVICE_FLAG_STREAM :: u16 where "RT_DEVICE_FLAG_STREAM \<equiv> 0x040"
abbreviation RT_DEVICE_FLAG_INT_RX :: u16 where "RT_DEVICE_FLAG_INT_RX \<equiv> 0x100"
abbreviation RT_DEVICE_FLAG_DMA_RX :: u16 where "RT_DEVICE_FLAG_DMA_RX \<equiv> 0x200"
abbreviation RT_DEVICE_FLAG_INT_TX :: u16 where "RT_DEVICE_FLAG_INT_TX \<equiv> 0x400"
abbreviation RT_DEVICE_FLAG_DMA_TX :: u16 where "RT_DEVICE_FLAG_DMA_TX \<equiv> 0x800"

abbreviation RT_DEVICE_CTRL_RESUME :: int where "RT_DEVICE_CTRL_RESUME \<equiv> 0x01"
abbreviation RT_DEVICE_CTRL_SUSPEND :: int where "RT_DEVICE_CTRL_SUSPEND \<equiv> 0x02"
abbreviation RT_DEVICE_CTRL_CONFIG :: int where "RT_DEVICE_CTRL_CONFIG \<equiv> 0x03"
abbreviation RT_DEVICE_CTRL_SET_INT :: int where "RT_DEVICE_CTRL_SET_INT \<equiv> 0x10"
abbreviation RT_DEVICE_CTRL_CLR_INT :: int where "RT_DEVICE_CTRL_CLR_INT \<equiv> 0x11"

abbreviation RT_SERIAL_EVENT_RX_IND :: u32 where "RT_SERIAL_EVENT_RX_IND \<equiv> 1"
abbreviation RT_SERIAL_EVENT_TX_DONE :: u32 where "RT_SERIAL_EVENT_TX_DONE \<equiv> 2"
abbreviation RT_SERIAL_EVENT_RX_DMADONE :: u32 where "RT_SERIAL_EVENT_RX_DMADONE \<equiv> 3"
abbreviation RT_SERIAL_EVENT_TX_DMADONE :: u32 where "RT_SERIAL_EVENT_TX_DMADONE \<equiv> 4"
abbreviation RT_SERIAL_DMA_RX :: int where "RT_SERIAL_DMA_RX \<equiv> 1"
abbreviation RT_SERIAL_DMA_TX :: int where "RT_SERIAL_DMA_TX \<equiv> 2"

record serial_configure =
  baud_rate :: u32
  data_bits :: "4 word"
  stop_bits :: "2 word"
  parity :: "2 word"
  bit_order :: "1 word"
  invert :: "1 word"
  bufsz :: u16
  reserved :: "6 word"

datatype serial_rx_struct = Rx_none | Rx_fifo u32 rt_serial_rx_fifo | Rx_dma u32 bool

datatype serial_tx_struct = Tx_none | Tx_fifo u32 u32 | Tx_dma u32 bool rt_data_queue
  \<comment> \<open>\<open>Tx_fifo\<close> holds the flag of its completion\<close>

record rt_serial_device =
  serial_config :: serial_configure
  serial_rx :: serial_rx_struct
  serial_tx :: serial_tx_struct

text \<open>What the argument of a control command is: a null pointer, a configuration or a word.\<close>

datatype serial_arg = No_arg | Arg_config serial_configure | Arg_word u32

record 'h rt_uart_ops =
  uart_configure :: "(nat \<Rightarrow> serial_configure \<Rightarrow> 'h \<Rightarrow> rt_err \<times> 'h) option"
  uart_control :: "nat \<Rightarrow> int \<Rightarrow> serial_arg \<Rightarrow> 'h \<Rightarrow> (rt_err \<times> serial_arg) \<times> 'h"
  uart_putc :: "nat \<Rightarrow> u8 \<Rightarrow> 'h \<Rightarrow> int \<times> 'h"
  uart_getc :: "nat \<Rightarrow> 'h \<Rightarrow> int \<times> 'h"
  uart_dma_transmit :: "(nat \<Rightarrow> u32 \<Rightarrow> u32 \<Rightarrow> int \<Rightarrow> 'h \<Rightarrow> u32 \<times> 'h) option"

record 'h serial_state =
  serials :: "nat \<Rightarrow> rt_serial_device"
  hardware :: 'h

type_synonym 'h serial_world = "'h serial_state dev_world"

definition serial_of :: "'h serial_world \<Rightarrow> nat \<Rightarrow> rt_serial_device" where
  "serial_of w d = serials (snd w) d"

definition serial_bufsz :: "'h serial_world \<Rightarrow> nat \<Rightarrow> u16" where
  "serial_bufsz w d = bufsz (serial_config (serial_of w d))"

definition upd_serial :: "nat \<Rightarrow> (rt_serial_device \<Rightarrow> rt_serial_device) \<Rightarrow> 'h serial_world \<Rightarrow> 'h serial_world" where
  "upd_serial d f w = (fst w, (snd w)\<lparr>serials := (serials (snd w))(d := f (serials (snd w) d))\<rparr>)"

definition set_rx :: "nat \<Rightarrow> serial_rx_struct \<Rightarrow> 'h serial_world \<Rightarrow> 'h serial_world" where
  "set_rx d rx = upd_serial d (\<lambda>s. s\<lparr>serial_rx := rx\<rparr>)"

definition set_tx :: "nat \<Rightarrow> serial_tx_struct \<Rightarrow> 'h serial_world \<Rightarrow> 'h serial_world" where
  "set_tx d tx = upd_serial d (\<lambda>s. s\<lparr>serial_tx := tx\<rparr>)"

definition or_open_flag :: "nat \<Rightarrow> u16 \<Rightarrow> 'h serial_world \<Rightarrow> 'h serial_world" where
  "or_open_flag d fl = upd_device d (\<lambda>dv. dv\<lparr>open_flag := open_flag dv OR fl\<rparr>)"

definition clear_open_flag :: "nat \<Rightarrow> u16 \<Rightarrow> 'h serial_world \<Rightarrow> 'h serial_world" where
  "clear_open_flag d fl = upd_device d (\<lambda>dv. dv\<lparr>open_flag := open_flag dv AND NOT fl\<rparr>)"

definition has_open_flag :: "nat \<Rightarrow> u16 \<Rightarrow> 'h serial_world \<Rightarrow> bool" where
  "has_open_flag d fl w \<longleftrightarrow> open_flag (device_of w d) AND fl \<noteq> 0"

definition on_hardware :: "('h \<Rightarrow> 'a \<times> 'h) \<Rightarrow> 'h serial_world \<Rightarrow> 'a \<times> 'h serial_world" where
  "on_hardware f w = (case f (hardware (snd w)) of (r, h) \<Rightarrow> (r, fst w, (snd w)\<lparr>hardware := h\<rparr>))"

definition low_control :: "'h rt_uart_ops \<Rightarrow> nat \<Rightarrow> int \<Rightarrow> u16 \<Rightarrow> 'h serial_world \<Rightarrow> 'h serial_world" where
  "low_control ops d cmd fl w = snd (on_hardware (uart_control ops d cmd (Arg_word (ucast fl))) w)"

text \<open>\<open>rt_malloc\<close> with the assertion on its result, and \<open>rt_free\<close>.\<close>

definition serial_alloc :: "u32 \<Rightarrow> 'h serial_world \<Rightarrow> (u32 dev_result \<times> 'h serial_world) option" where
  "serial_alloc n w = do {
     (r, hk) \<leftarrow> rt_malloc n (fst w);
     (case r of
        Heap_blocked \<Rightarrow> Some (Waits, hk, snd w)
      | Mem p \<Rightarrow> do { require (p \<noteq> 0); Some (Done p, hk, snd w) })
   }"

definition serial_release :: "u32 \<Rightarrow> 'h serial_world \<Rightarrow> (unit dev_result \<times> 'h serial_world) option" where
  "serial_release p w = do {
     (r, hk) \<leftarrow> rt_free p (fst w);
     Some (case r of Heap_blocked \<Rightarrow> Waits | Mem _ \<Rightarrow> Done (), hk, snd w)
   }"

subsection \<open>Opening and closing\<close>

definition rt_serial_init :: "'h rt_uart_ops \<Rightarrow> nat \<Rightarrow> 'h serial_world \<Rightarrow> (rt_err dev_result \<times> 'h serial_world) option" where
  "rt_serial_init ops d w =
     (let w1 = set_tx d Tx_none (set_rx d Rx_none w) in
      case uart_configure ops of
        None \<Rightarrow> Some (Done RT_EOK, w1)
      | Some f \<Rightarrow> (case on_hardware (f d (serial_config (serial_of w1 d))) w1 of (r, w2) \<Rightarrow> Some (Done r, w2)))"

definition new_rx_fifo :: "u16 \<Rightarrow> rt_serial_rx_fifo" where
  "new_rx_fifo n = \<lparr>fifo_buffer = replicate (unat n) 0, put_index = 0, get_index = 0, fifo_full = False\<rparr>"

text \<open>The sizes of the structures \<open>rt_serial_rx_fifo\<close>, \<open>rt_serial_rx_dma\<close>, \<open>rt_serial_tx_fifo\<close> and \<open>rt_serial_tx_dma\<close>.\<close>

abbreviation sizeof_rx_fifo :: u32 where "sizeof_rx_fifo \<equiv> 12"
abbreviation sizeof_rx_dma :: u32 where "sizeof_rx_dma \<equiv> 4"
abbreviation sizeof_tx_fifo :: u32 where "sizeof_tx_fifo \<equiv> 12"
abbreviation sizeof_tx_dma :: u32 where "sizeof_tx_dma \<equiv> 40"
abbreviation sizeof_data_item :: u32 where "sizeof_data_item \<equiv> 8"

definition serial_open_rx :: "'h rt_uart_ops \<Rightarrow> nat \<Rightarrow> u16 \<Rightarrow> 'h serial_world \<Rightarrow> (unit dev_result \<times> 'h serial_world) option" where
  "serial_open_rx ops d oflag w =
     (if serial_rx (serial_of w d) = Rx_none then
        if oflag AND RT_DEVICE_FLAG_INT_RX \<noteq> 0 then do {
          (r, w1) \<leftarrow> serial_alloc (sizeof_rx_fifo + ucast (serial_bufsz w d)) w;
          (case r of Waits \<Rightarrow> Some (Waits, w1)
           | Done p \<Rightarrow> Some (Done (), low_control ops d RT_DEVICE_CTRL_SET_INT RT_DEVICE_FLAG_INT_RX
               (or_open_flag d RT_DEVICE_FLAG_INT_RX (set_rx d (Rx_fifo p (new_rx_fifo (serial_bufsz w d))) w1))))
        }
        else if oflag AND RT_DEVICE_FLAG_DMA_RX \<noteq> 0 then
          if serial_bufsz w d = 0 then do {
            (r, w1) \<leftarrow> serial_alloc sizeof_rx_dma w;
            (case r of Waits \<Rightarrow> Some (Waits, w1)
             | Done p \<Rightarrow> Some (Done (), or_open_flag d RT_DEVICE_FLAG_DMA_RX (set_rx d (Rx_dma p False) w1)))
          }
          else do {
            (r, w1) \<leftarrow> serial_alloc (sizeof_rx_fifo + ucast (serial_bufsz w d)) w;
            (case r of Waits \<Rightarrow> Some (Waits, w1)
             | Done p \<Rightarrow> Some (Done (), or_open_flag d RT_DEVICE_FLAG_DMA_RX (low_control ops d RT_DEVICE_CTRL_CONFIG RT_DEVICE_FLAG_DMA_RX
                 (set_rx d (Rx_fifo p (new_rx_fifo (serial_bufsz w d))) w1))))
          }
        else Some (Done (), w)
      else if oflag AND RT_DEVICE_FLAG_INT_RX \<noteq> 0 then Some (Done (), or_open_flag d RT_DEVICE_FLAG_INT_RX w)
      else if oflag AND RT_DEVICE_FLAG_DMA_RX \<noteq> 0 then Some (Done (), or_open_flag d RT_DEVICE_FLAG_DMA_RX w)
      else Some (Done (), w))"

text \<open>
  The items of the data queue are allocated by \<open>rt_data_queue_init\<close>, whose result is ignored; they
  start with arbitrary contents \<open>junk\<close>.
\<close>

definition serial_queue_init :: "(nat \<Rightarrow> u32 \<times> u32) \<Rightarrow> nat \<Rightarrow> rt_data_queue \<Rightarrow> 'h serial_world \<Rightarrow> (rt_data_queue dev_result \<times> 'h serial_world) option" where
  "serial_queue_init junk d q w = do {
     (r, h, k) \<leftarrow> rt_malloc (sizeof_data_item * 8) (fst w);
     (case r of
        Heap_blocked \<Rightarrow> Some (Waits, (h, k), snd w)
      | Mem p \<Rightarrow> (case rt_data_queue_init d 8 4 0 (if p = 0 then None else Some (map junk [0..<8])) (q, k) of
                    (_, q1, k1) \<Rightarrow> Some (Done q1, (h, k1), snd w)))
   }"

definition junk_queue :: rt_data_queue where
  "junk_queue = \<lparr>dq_size = 0, dq_lwm = 0, dq_get = 0, dq_put = 0, dq_items = [], dq_notify = 0\<rparr>"

definition serial_open_tx :: "'h rt_uart_ops \<Rightarrow> (nat \<Rightarrow> u32 \<times> u32) \<Rightarrow> nat \<Rightarrow> u16 \<Rightarrow> 'h serial_world \<Rightarrow> (unit dev_result \<times> 'h serial_world) option" where
  "serial_open_tx ops junk d oflag w =
     (if serial_tx (serial_of w d) = Tx_none then
        if oflag AND RT_DEVICE_FLAG_INT_TX \<noteq> 0 then do {
          (r, w1) \<leftarrow> serial_alloc sizeof_tx_fifo w;
          (case r of Waits \<Rightarrow> Some (Waits, w1)
           | Done p \<Rightarrow> (case rt_completion_init d (0, dev_kernel w1) of
               (fl, k) \<Rightarrow> Some (Done (), low_control ops d RT_DEVICE_CTRL_SET_INT RT_DEVICE_FLAG_INT_TX
                 (or_open_flag d RT_DEVICE_FLAG_INT_TX (set_tx d (Tx_fifo p fl) (map_kernel (\<lambda>_. k) w1))))))
        }
        else if oflag AND RT_DEVICE_FLAG_DMA_TX \<noteq> 0 then do {
          (r, w1) \<leftarrow> serial_alloc sizeof_tx_dma w;
          (case r of Waits \<Rightarrow> Some (Waits, w1)
           | Done p \<Rightarrow> do {
               (rq, w2) \<leftarrow> serial_queue_init junk d junk_queue w1;
               (case rq of Waits \<Rightarrow> Some (Waits, w2)
                | Done q \<Rightarrow> Some (Done (), low_control ops d RT_DEVICE_CTRL_CONFIG RT_DEVICE_FLAG_DMA_TX
                    (or_open_flag d RT_DEVICE_FLAG_DMA_TX (set_tx d (Tx_dma p False q) w2))))
             })
        }
        else Some (Done (), w)
      else if oflag AND RT_DEVICE_FLAG_INT_TX \<noteq> 0 then Some (Done (), or_open_flag d RT_DEVICE_FLAG_INT_TX w)
      else if oflag AND RT_DEVICE_FLAG_DMA_TX \<noteq> 0 then Some (Done (), or_open_flag d RT_DEVICE_FLAG_DMA_TX w)
      else Some (Done (), w))"

definition open_flags_refused :: "u16 \<Rightarrow> u16 \<Rightarrow> bool" where
  "open_flags_refused oflag fl \<longleftrightarrow>
     (\<exists>m \<in> {RT_DEVICE_FLAG_DMA_RX, RT_DEVICE_FLAG_DMA_TX, RT_DEVICE_FLAG_INT_RX, RT_DEVICE_FLAG_INT_TX}.
        oflag AND m \<noteq> 0 \<and> fl AND m = 0)"

definition rt_serial_open ::
    "'h rt_uart_ops \<Rightarrow> (nat \<Rightarrow> u32 \<times> u32) \<Rightarrow> nat \<Rightarrow> u16 \<Rightarrow> 'h serial_world \<Rightarrow> (rt_err dev_result \<times> 'h serial_world) option" where
  "rt_serial_open ops junk d oflag w =
     (if open_flags_refused oflag (dev_flag (device_of w d)) then Some (Done (- RT_EIO), w)
      else do {
        let stream_flag = (if oflag AND RT_DEVICE_FLAG_STREAM \<noteq> 0 \<or> has_open_flag d RT_DEVICE_FLAG_STREAM w then RT_DEVICE_FLAG_STREAM else 0);
        let w1 = upd_device d (\<lambda>dv. dv\<lparr>open_flag := oflag AND 0xff\<rparr>) w;
        (r2, w2) \<leftarrow> serial_open_rx ops d oflag w1;
        (case r2 of Waits \<Rightarrow> Some (Waits, w2)
         | Done _ \<Rightarrow> do {
             (r3, w3) \<leftarrow> serial_open_tx ops junk d oflag w2;
             (case r3 of Waits \<Rightarrow> Some (Waits, w3) | Done _ \<Rightarrow> Some (Done RT_EOK, or_open_flag d stream_flag w3))
           })
      })"

text \<open>The address of a structure, whatever it is; the code frees it through a cast.\<close>

fun rx_address :: "serial_rx_struct \<Rightarrow> u32 option" where
  "rx_address Rx_none = None"
| "rx_address (Rx_fifo p _) = Some p"
| "rx_address (Rx_dma p _) = Some p"

fun tx_address :: "serial_tx_struct \<Rightarrow> u32 option" where
  "tx_address Tx_none = None"
| "tx_address (Tx_fifo p _) = Some p"
| "tx_address (Tx_dma p _ _) = Some p"

definition serial_close_rx :: "'h rt_uart_ops \<Rightarrow> nat \<Rightarrow> 'h serial_world \<Rightarrow> (unit dev_result \<times> 'h serial_world) option" where
  "serial_close_rx ops d w =
     (if has_open_flag d RT_DEVICE_FLAG_INT_RX w then do {
        p \<leftarrow> rx_address (serial_rx (serial_of w d));
        (r, w1) \<leftarrow> serial_release p w;
        (case r of Waits \<Rightarrow> Some (Waits, w1)
         | Done _ \<Rightarrow> Some (Done (), low_control ops d RT_DEVICE_CTRL_CLR_INT RT_DEVICE_FLAG_INT_RX
             (clear_open_flag d RT_DEVICE_FLAG_INT_RX (set_rx d Rx_none w1))))
      }
      else if has_open_flag d RT_DEVICE_FLAG_DMA_RX w then do {
        p \<leftarrow> rx_address (serial_rx (serial_of w d));
        (r, w1) \<leftarrow> serial_release p w;
        (case r of Waits \<Rightarrow> Some (Waits, w1)
         | Done _ \<Rightarrow> Some (Done (), clear_open_flag d RT_DEVICE_FLAG_DMA_RX (set_rx d Rx_none
             (low_control ops d RT_DEVICE_CTRL_CLR_INT RT_DEVICE_FLAG_DMA_RX w1))))
      }
      else Some (Done (), w))"

definition serial_close_tx :: "'h rt_uart_ops \<Rightarrow> nat \<Rightarrow> 'h serial_world \<Rightarrow> (unit dev_result \<times> 'h serial_world) option" where
  "serial_close_tx ops d w =
     (if has_open_flag d RT_DEVICE_FLAG_INT_TX w then do {
        p \<leftarrow> tx_address (serial_tx (serial_of w d));
        (r, w1) \<leftarrow> serial_release p w;
        (case r of Waits \<Rightarrow> Some (Waits, w1)
         | Done _ \<Rightarrow> Some (Done (), low_control ops d RT_DEVICE_CTRL_CLR_INT RT_DEVICE_FLAG_INT_TX
             (clear_open_flag d RT_DEVICE_FLAG_INT_TX (set_tx d Tx_none w1))))
      }
      else if has_open_flag d RT_DEVICE_FLAG_DMA_TX w then do {
        p \<leftarrow> tx_address (serial_tx (serial_of w d));
        (r, w1) \<leftarrow> serial_release p w;
        (case r of Waits \<Rightarrow> Some (Waits, w1)
         | Done _ \<Rightarrow> Some (Done (), clear_open_flag d RT_DEVICE_FLAG_DMA_TX (set_tx d Tx_none w1)))
      }
      else Some (Done (), w))"

definition rt_serial_close :: "'h rt_uart_ops \<Rightarrow> nat \<Rightarrow> 'h serial_world \<Rightarrow> (rt_err dev_result \<times> 'h serial_world) option" where
  "rt_serial_close ops d w =
     (if ref_count (device_of w d) > 1 then Some (Done RT_EOK, w)
      else do {
        (r, w1) \<leftarrow> serial_close_rx ops d w;
        (case r of Waits \<Rightarrow> Some (Waits, w1)
         | Done _ \<Rightarrow> do {
             (r2, w2) \<leftarrow> serial_close_tx ops d w1;
             Some (case r2 of Waits \<Rightarrow> Waits | Done _ \<Rightarrow> Done RT_EOK, w2)
           })
      })"

subsection \<open>Reading\<close>

text \<open>\<open>_serial_poll_rx\<close> stops when the hardware has no byte and after a line feed.\<close>

fun serial_poll_rx :: "'h rt_uart_ops \<Rightarrow> nat \<Rightarrow> nat \<Rightarrow> 'h serial_world \<Rightarrow> u8 list \<times> 'h serial_world" where
  "serial_poll_rx ops d 0 w = ([], w)"
| "serial_poll_rx ops d (Suc n) w =
     (case on_hardware (uart_getc ops d) w of (ch, w1) \<Rightarrow>
        if ch = -1 then ([], w1)
        else if ch = 10 then ([word_of_int ch], w1)
        else (case serial_poll_rx ops d n w1 of (cs, w2) \<Rightarrow> (word_of_int ch # cs, w2)))"

text \<open>Without a buffer the read only starts a transfer to the caller's memory.\<close>

definition serial_dma_rx_start ::
    "'h rt_uart_ops \<Rightarrow> nat \<Rightarrow> u32 \<Rightarrow> u32 \<Rightarrow> 'h serial_world \<Rightarrow> ((u32 \<times> u8 list) \<times> 'h serial_world) option" where
  "serial_dma_rx_start ops d buffer sz w =
     (case serial_rx (serial_of w d) of
        Rx_dma p activated \<Rightarrow>
          if \<not> activated then do {
            f \<leftarrow> uart_dma_transmit ops;
            Some ((sz, []), snd (on_hardware (f d buffer sz RT_SERIAL_DMA_RX) (set_rx d (Rx_dma p True) w)))
          }
          else Some ((0, []), map_kernel (rt_set_errno (- RT_EBUSY)) w)
      | _ \<Rightarrow> None)"

definition fifo_read ::
    "(u16 \<Rightarrow> nat \<Rightarrow> rt_serial_rx_fifo \<Rightarrow> (u8 list \<times> rt_serial_rx_fifo) option) \<Rightarrow> nat \<Rightarrow> u32 \<Rightarrow> 'h serial_world
      \<Rightarrow> ((u32 \<times> u8 list) \<times> 'h serial_world) option" where
  "fifo_read rd d sz w =
     (case serial_rx (serial_of w d) of
        Rx_fifo p f \<Rightarrow> do {
          (cs, f1) \<leftarrow> rd (serial_bufsz w d) (unat sz) f;
          Some ((of_nat (length cs), cs), set_rx d (Rx_fifo p f1) w)
        }
      | _ \<Rightarrow> None)"

definition rt_serial_read ::
    "'h rt_uart_ops \<Rightarrow> nat \<Rightarrow> u32 \<Rightarrow> u32 \<Rightarrow> u32 \<Rightarrow> 'h serial_world \<Rightarrow> ((u32 \<times> u8 list) dev_result \<times> 'h serial_world) option" where
  "rt_serial_read ops d pos buffer sz w =
     (if sz = 0 then Some (Done (0, []), w)
      else do {
        require (sz < 0x80000000);
        (r, w1) \<leftarrow> (if has_open_flag d RT_DEVICE_FLAG_INT_RX w then fifo_read serial_int_rx d sz w
                    else if has_open_flag d RT_DEVICE_FLAG_DMA_RX w then
                      if serial_bufsz w d = 0 then serial_dma_rx_start ops d buffer sz w
                      else fifo_read serial_dma_rx d sz w
                    else (case serial_poll_rx ops d (unat sz) w of (cs, w1) \<Rightarrow> Some ((of_nat (length cs), cs), w1)));
        Some (Done r, w1)
      })"

subsection \<open>Writing\<close>

definition put_byte :: "'h rt_uart_ops \<Rightarrow> nat \<Rightarrow> u8 \<Rightarrow> 'h serial_world \<Rightarrow> 'h serial_world" where
  "put_byte ops d c w = snd (on_hardware (uart_putc ops d c) w)"

fun serial_poll_tx :: "'h rt_uart_ops \<Rightarrow> nat \<Rightarrow> u8 list \<Rightarrow> 'h serial_world \<Rightarrow> 'h serial_world" where
  "serial_poll_tx ops d [] w = w"
| "serial_poll_tx ops d (c # cs) w =
     serial_poll_tx ops d cs (put_byte ops d c
       (if c = 10 \<and> has_open_flag d RT_DEVICE_FLAG_STREAM w then put_byte ops d 13 w else w))"

text \<open>
  \<open>_serial_int_tx\<close> up to its end or to a wait for the completion, with the bytes that are left;
  when the thread is woken, it clears the flag of the completion and goes on with them.
\<close>

definition tx_wait :: "nat \<Rightarrow> 'h serial_world \<Rightarrow> (outcome \<times> 'h serial_world) option" where
  "tx_wait d w =
     (case serial_tx (serial_of w d) of
        Tx_fifo p flag \<Rightarrow> do {
          (oc, flag1, k) \<leftarrow> rt_completion_wait d RT_WAITING_FOREVER (flag, dev_kernel w);
          Some (oc, set_tx d (Tx_fifo p flag1) (map_kernel (\<lambda>_. k) w))
        }
      | _ \<Rightarrow> None)"

partial_function (option) serial_int_tx :: "'h rt_uart_ops \<Rightarrow> nat \<Rightarrow> u8 list \<Rightarrow> 'h serial_world \<Rightarrow> (u8 list \<times> 'h serial_world) option" where
  "serial_int_tx ops d cs w =
     (case cs of
        [] \<Rightarrow> Some ([], w)
      | c # cs1 \<Rightarrow>
          (case on_hardware (uart_putc ops d c) w of (r, w1) \<Rightarrow>
             if r = -1 then do {
               (oc, w2) \<leftarrow> tx_wait d w1;
               (case oc of Blocked _ \<Rightarrow> Some (cs, w2) | Returned _ \<Rightarrow> serial_int_tx ops d cs w2)
             }
             else serial_int_tx ops d cs1 w1))"

definition serial_int_tx_resume :: "'h rt_uart_ops \<Rightarrow> nat \<Rightarrow> tid \<Rightarrow> u8 list \<Rightarrow> 'h serial_world \<Rightarrow> (u8 list \<times> 'h serial_world) option" where
  "serial_int_tx_resume ops d t cs w =
     (case serial_tx (serial_of w d) of
        Tx_fifo p flag \<Rightarrow>
          (case rt_completion_wait_resume t (flag, dev_kernel w) of (_, flag1, k) \<Rightarrow>
             serial_int_tx ops d cs (set_tx d (Tx_fifo p flag1) (map_kernel (\<lambda>_. k) w)))
      | _ \<Rightarrow> None)"

text \<open>
  \<open>_serial_dma_tx\<close>: the push into the data queue, and, after interrupts were enabled in between,
  the start of the transfer.
\<close>

definition no_notifier :: dq_notifier where
  "no_notifier _ _ _ = None"

definition dma_tx_push :: "nat \<Rightarrow> u32 \<Rightarrow> u32 \<Rightarrow> 'h serial_world \<Rightarrow> (outcome \<times> 'h serial_world) option" where
  "dma_tx_push d ptr sz w =
     (case serial_tx (serial_of w d) of
        Tx_dma p activated q \<Rightarrow> do {
          (oc, q1, k) \<leftarrow> rt_data_queue_push no_notifier d ptr sz RT_WAITING_FOREVER (q, dev_kernel w);
          Some (oc, set_tx d (Tx_dma p activated q1) (map_kernel (\<lambda>_. k) w))
        }
      | _ \<Rightarrow> None)"

definition dma_tx_push_resume :: "nat \<Rightarrow> tid \<Rightarrow> u32 \<Rightarrow> u32 \<Rightarrow> 'h serial_world \<Rightarrow> (outcome \<times> 'h serial_world) option" where
  "dma_tx_push_resume d t ptr sz w =
     (case serial_tx (serial_of w d) of
        Tx_dma p activated q \<Rightarrow> do {
          (oc, q1, k) \<leftarrow> rt_data_queue_push_resume no_notifier d t ptr sz RT_WAITING_FOREVER (q, dev_kernel w);
          Some (oc, set_tx d (Tx_dma p activated q1) (map_kernel (\<lambda>_. k) w))
        }
      | _ \<Rightarrow> None)"

definition dma_tx_start :: "'h rt_uart_ops \<Rightarrow> nat \<Rightarrow> u32 \<Rightarrow> u32 \<Rightarrow> 'h serial_world \<Rightarrow> 'h serial_world option" where
  "dma_tx_start ops d ptr sz w =
     (case serial_tx (serial_of w d) of
        Tx_dma p activated q \<Rightarrow>
          if \<not> activated then do {
            f \<leftarrow> uart_dma_transmit ops;
            Some (snd (on_hardware (f d ptr sz RT_SERIAL_DMA_TX) (set_tx d (Tx_dma p True q) w)))
          }
          else Some w
      | _ \<Rightarrow> None)"

definition dma_tx_finish :: "'h rt_uart_ops \<Rightarrow> nat \<Rightarrow> u32 \<Rightarrow> u32 \<Rightarrow> outcome \<times> 'h serial_world \<Rightarrow> (u32 dev_result \<times> 'h serial_world) option" where
  "dma_tx_finish ops d ptr sz r = (case r of
       (Blocked _, w) \<Rightarrow> Some (Waits, w)
     | (Returned e, w) \<Rightarrow>
         if e = RT_EOK then do { w1 \<leftarrow> dma_tx_start ops d ptr sz w; Some (Done sz, w1) }
         else Some (Done 0, map_kernel (rt_set_errno e) w))"

definition serial_dma_tx :: "'h rt_uart_ops \<Rightarrow> nat \<Rightarrow> u32 \<Rightarrow> u32 \<Rightarrow> 'h serial_world \<Rightarrow> (u32 dev_result \<times> 'h serial_world) option" where
  "serial_dma_tx ops d ptr sz w = do { r \<leftarrow> dma_tx_push d ptr sz w; dma_tx_finish ops d ptr sz r }"

definition serial_dma_tx_resume :: "'h rt_uart_ops \<Rightarrow> nat \<Rightarrow> tid \<Rightarrow> u32 \<Rightarrow> u32 \<Rightarrow> 'h serial_world \<Rightarrow> (u32 dev_result \<times> 'h serial_world) option" where
  "serial_dma_tx_resume ops d t ptr sz w = do { r \<leftarrow> dma_tx_push_resume d t ptr sz w; dma_tx_finish ops d ptr sz r }"

definition rt_serial_write ::
    "'h rt_uart_ops \<Rightarrow> nat \<Rightarrow> u32 \<Rightarrow> u32 \<times> u8 list \<Rightarrow> u32 \<Rightarrow> 'h serial_world \<Rightarrow> (u32 dev_result \<times> 'h serial_world) option" where
  "rt_serial_write ops d pos buffer sz w =
     (if sz = 0 then Some (Done 0, w)
      else do {
        require (sz < 0x80000000 \<and> unat sz \<le> length (snd buffer));
        let data = take (unat sz) (snd buffer);
        if has_open_flag d RT_DEVICE_FLAG_INT_TX w then do {
          (left, w1) \<leftarrow> serial_int_tx ops d data w;
          Some (if left = [] then Done sz else Waits, w1)
        }
        else if has_open_flag d RT_DEVICE_FLAG_DMA_TX w then serial_dma_tx ops d (fst buffer) sz w
        else Some (Done sz, serial_poll_tx ops d data w)
      })"

subsection \<open>Control\<close>

text \<open>\<open>FIONREAD\<close>, a constant of the C library, is a parameter.  A refused change of the buffer size gives
  the positive \<open>RT_EBUSY\<close>, as the code has it.\<close>

definition rt_serial_control ::
    "'h rt_uart_ops \<Rightarrow> int \<Rightarrow> nat \<Rightarrow> int \<Rightarrow> serial_arg \<Rightarrow> 'h serial_world \<Rightarrow> ((rt_err \<times> serial_arg) dev_result \<times> 'h serial_world) option" where
  "rt_serial_control ops fionread d cmd arg w =
     (if cmd = RT_DEVICE_CTRL_SUSPEND then
        Some (Done (RT_EOK, arg), upd_device d (\<lambda>dv. dv\<lparr>dev_flag := dev_flag dv OR RT_DEVICE_FLAG_SUSPENDED\<rparr>) w)
      else if cmd = RT_DEVICE_CTRL_RESUME then
        Some (Done (RT_EOK, arg), upd_device d (\<lambda>dv. dv\<lparr>dev_flag := dev_flag dv AND NOT RT_DEVICE_FLAG_SUSPENDED\<rparr>) w)
      else if cmd = RT_DEVICE_CTRL_CONFIG then
        (case arg of
           No_arg \<Rightarrow> Some (Done (RT_EOK, arg), w)
         | Arg_word _ \<Rightarrow> None
         | Arg_config cfg \<Rightarrow>
             if bufsz cfg \<noteq> serial_bufsz w d \<and> ref_count (device_of w d) \<noteq> 0 then Some (Done (RT_EBUSY, arg), w)
             else do {
               let w1 = upd_serial d (\<lambda>s. s\<lparr>serial_config := cfg\<rparr>) w;
               if ref_count (device_of w1 d) \<noteq> 0 then do {
                 f \<leftarrow> uart_configure ops;
                 Some (Done (RT_EOK, arg), snd (on_hardware (f d cfg) w1))
               }
               else Some (Done (RT_EOK, arg), w1)
             })
      else if cmd = fionread then
        (case serial_rx (serial_of w d) of
           Rx_fifo p f \<Rightarrow> Some (Done (RT_EOK, Arg_word (serial_fifo_calc_recved_len (serial_bufsz w d) f)), w)
         | _ \<Rightarrow> None)
      else (case on_hardware (uart_control ops d cmd arg) w of (r, w1) \<Rightarrow> Some (Done r, w1)))"

subsection \<open>Registration\<close>

definition serial_ops :: "'h rt_uart_ops \<Rightarrow> (nat \<Rightarrow> u32 \<times> u32) \<Rightarrow> int \<Rightarrow> ('h serial_state, serial_arg) dev_ops" where
  "serial_ops ops junk fionread =
     \<lparr>dev_init = Some (rt_serial_init ops), dev_open = Some (rt_serial_open ops junk), dev_close = Some (rt_serial_close ops),
      dev_read = Some (rt_serial_read ops), dev_write = Some (rt_serial_write ops), dev_control = Some (rt_serial_control ops fionread)\<rparr>"

definition rt_hw_serial_register :: "nat \<Rightarrow> u8 list \<Rightarrow> u32 \<Rightarrow> u32 \<Rightarrow> kernel \<Rightarrow> (rt_err \<times> kernel) option" where
  "rt_hw_serial_register d name flag data k =
     rt_device_register (Some d) name (ucast flag)
       (upd_dev d (\<lambda>dv. dv\<lparr>dev_type := 0, rx_indicate := 0, tx_complete := 0, dev_user_data := data\<rparr>) k)"

subsection \<open>The interrupt handler\<close>

record 'h serial_callbacks =
  indicate :: "u32 \<Rightarrow> nat \<Rightarrow> u32 \<Rightarrow> 'h serial_world \<Rightarrow> 'h serial_world option"
  complete :: "u32 \<Rightarrow> nat \<Rightarrow> u32 \<Rightarrow> 'h serial_world \<Rightarrow> 'h serial_world option"

definition tell_rx :: "'h serial_callbacks \<Rightarrow> nat \<Rightarrow> u32 \<Rightarrow> 'h serial_world \<Rightarrow> 'h serial_world option" where
  "tell_rx cb d n w = (if rx_indicate (device_of w d) \<noteq> 0 then indicate cb (rx_indicate (device_of w d)) d n w else Some w)"

text \<open>All bytes that the hardware has are stored; a port that always has one keeps the handler for ever.\<close>

partial_function (option) serial_isr_receive :: "'h rt_uart_ops \<Rightarrow> nat \<Rightarrow> 'h serial_world \<Rightarrow> 'h serial_world option" where
  "serial_isr_receive ops d w =
     (case on_hardware (uart_getc ops d) w of (ch, w1) \<Rightarrow>
        if ch = -1 then Some w1
        else (case serial_rx (serial_of w1 d) of
                Rx_fifo p f \<Rightarrow> do {
                  f1 \<leftarrow> serial_isr_put (serial_bufsz w1 d) (word_of_int ch) f;
                  serial_isr_receive ops d (set_rx d (Rx_fifo p f1) w1)
                }
              | _ \<Rightarrow> None))"

definition serial_isr_rx :: "'h rt_uart_ops \<Rightarrow> 'h serial_callbacks \<Rightarrow> nat \<Rightarrow> 'h serial_world \<Rightarrow> 'h serial_world option" where
  "serial_isr_rx ops cb d w = do {
     require (serial_rx (serial_of w d) \<noteq> Rx_none);
     w1 \<leftarrow> serial_isr_receive ops d w;
     (case serial_rx (serial_of w1 d) of
        Rx_fifo p f \<Rightarrow>
          let n = serial_rx_length (serial_bufsz w1 d) f in if n \<noteq> 0 then tell_rx cb d n w1 else Some w1
      | _ \<Rightarrow> None)
   }"

definition serial_isr_tx_done :: "nat \<Rightarrow> 'h serial_world \<Rightarrow> 'h serial_world option" where
  "serial_isr_tx_done d w =
     (case serial_tx (serial_of w d) of
        Tx_fifo p flag \<Rightarrow> do {
          (flag1, k) \<leftarrow> rt_completion_done d (flag, dev_kernel w);
          Some (set_tx d (Tx_fifo p flag1) (map_kernel (\<lambda>_. k) w))
        }
      | _ \<Rightarrow> None)"

text \<open>The transfer of the first item is over: it is dropped, the next one is started, and the user is told.\<close>

definition serial_isr_tx_dma :: "'h rt_uart_ops \<Rightarrow> 'h serial_callbacks \<Rightarrow> nat \<Rightarrow> 'h serial_world \<Rightarrow> 'h serial_world option" where
  "serial_isr_tx_dma ops cb d w =
     (case serial_tx (serial_of w d) of
        Tx_dma p activated q \<Rightarrow> do {
          ((_, last), q1, k) \<leftarrow> rt_data_queue_pop no_notifier d 0 (q, dev_kernel w);
          (e, nxt) \<leftarrow> rt_data_queue_peak q1;
          let w1 = map_kernel (\<lambda>_. k) w;
          w2 \<leftarrow> (case nxt of
                   Some (ptr, sz) \<Rightarrow> do {
                     f \<leftarrow> uart_dma_transmit ops;
                     Some (snd (on_hardware (f d ptr sz RT_SERIAL_DMA_TX) (set_tx d (Tx_dma p True q1) w1)))
                   }
                 | None \<Rightarrow> Some (set_tx d (Tx_dma p False q1) w1));
          if tx_complete (device_of w2 d) \<noteq> 0 then do {
            (ptr, _) \<leftarrow> last;
            complete cb (tx_complete (device_of w2 d)) d ptr w2
          }
          else Some w2
        }
      | _ \<Rightarrow> None)"

definition serial_isr_rx_dma :: "'h serial_callbacks \<Rightarrow> nat \<Rightarrow> u32 \<Rightarrow> 'h serial_world \<Rightarrow> 'h serial_world option" where
  "serial_isr_rx_dma cb d len w =
     (if serial_bufsz w d = 0 then
        (case serial_rx (serial_of w d) of
           Rx_dma p activated \<Rightarrow> do {
             require (rx_indicate (device_of w d) \<noteq> 0);
             w1 \<leftarrow> indicate cb (rx_indicate (device_of w d)) d len w;
             Some (set_rx d (Rx_dma p False) w1)
           }
         | _ \<Rightarrow> None)
      else
        (case serial_rx (serial_of w d) of
           Rx_fifo p f \<Rightarrow> do {
             f1 \<leftarrow> dma_recv_update_put_index (serial_bufsz w d) len f;
             tell_rx cb d (serial_fifo_calc_recved_len (serial_bufsz w d) f1) (set_rx d (Rx_fifo p f1) w)
           }
         | _ \<Rightarrow> None))"

definition rt_hw_serial_isr :: "'h rt_uart_ops \<Rightarrow> 'h serial_callbacks \<Rightarrow> nat \<Rightarrow> u32 \<Rightarrow> 'h serial_world \<Rightarrow> 'h serial_world option" where
  "rt_hw_serial_isr ops cb d event w =
     (let ev = event AND 0xff in
      if ev = RT_SERIAL_EVENT_RX_IND then serial_isr_rx ops cb d w
      else if ev = RT_SERIAL_EVENT_TX_DONE then serial_isr_tx_done d w
      else if ev = RT_SERIAL_EVENT_TX_DMADONE then serial_isr_tx_dma ops cb d w
      else if ev = RT_SERIAL_EVENT_RX_DMADONE then serial_isr_rx_dma cb d (drop_bit 8 event) w
      else Some w)"

end
