(* ===== verification/SerialProps.thy ===== *)
theory SerialProps
  imports Serial HeapProps
begin

unbundle bit_operations_syntax

section \<open>Properties of the serial devices\<close>

text \<open>
  What opening and closing a serial device do to its structures and to the heap, that its
  functions meet the contract of a device driver, and a port on which the properties are applied.
\<close>

subsection \<open>Access to the parts of the state\<close>

lemma serial_kernel_simps [simp]:
  "dev_kernel (upd_serial d f w) = dev_kernel w" "dev_kernel (snd (on_hardware g w)) = dev_kernel w"
  "device_of (upd_serial d f w) e = device_of w e" "device_of (snd (on_hardware g w)) e = device_of w e"
  by (cases w rule: dev_kernel.cases; simp add: upd_serial_def on_hardware_def device_of_def split: prod.splits)+

lemma serial_of_simps [simp]:
  "serial_of (upd_serial d f w) e = (if e = d then f (serial_of w d) else serial_of w e)"
  "serial_of (snd (on_hardware g w)) e = serial_of w e" "serial_of (upd_device c i w) e = serial_of w e"
  "serial_of (map_kernel m w) e = serial_of w e"
  by (simp_all add: serial_of_def upd_serial_def on_hardware_def split: prod.splits)

lemma fst_simps [simp]: "fst (upd_serial d f w) = fst w" "fst (snd (on_hardware g w)) = fst w"
  by (simp_all add: upd_serial_def on_hardware_def split: prod.splits)

lemma hardware_simps [simp]:
  "hardware (snd (upd_serial d f w)) = hardware (snd w)" "hardware (snd (snd (on_hardware g w))) = snd (g (hardware (snd w)))"
  by (simp_all add: upd_serial_def on_hardware_def split: prod.splits)

lemma device_of_map_kernel: "devices (f (dev_kernel w)) d = devices (dev_kernel w) d \<Longrightarrow> device_of (map_kernel f w) d = device_of w d"
  by (simp add: device_of_def)

lemma or_eq_zero: "(x :: 'a :: len word) OR y = 0 \<longleftrightarrow> x = 0 \<and> y = 0"
  by (auto simp: word_zero_iff_no_bit bit_or_iff)

lemma open_flag_simps [simp]:
  "has_open_flag d m (or_open_flag d fl w) \<longleftrightarrow> has_open_flag d m w \<or> fl AND m \<noteq> 0"
  "has_open_flag d m (clear_open_flag d fl w) \<longleftrightarrow> open_flag (device_of w d) AND (NOT fl AND m) \<noteq> 0"
  "has_open_flag d m (upd_serial e f w) \<longleftrightarrow> has_open_flag d m w" "has_open_flag d m (snd (on_hardware g w)) \<longleftrightarrow> has_open_flag d m w"
  by (simp_all add: has_open_flag_def or_open_flag_def clear_open_flag_def bit.conj_disj_distrib2 and.assoc or_eq_zero)

lemma serial_bufsz_simps [simp]:
  "serial_bufsz (snd (on_hardware g w)) e = serial_bufsz w e" "serial_bufsz (upd_device c i w) e = serial_bufsz w e"
  "serial_bufsz (map_kernel m w) e = serial_bufsz w e" "serial_bufsz (set_rx d rx w) e = serial_bufsz w e"
  "serial_bufsz (set_tx d tx w) e = serial_bufsz w e"
  by (simp_all add: serial_bufsz_def set_rx_def set_tx_def)

subsection \<open>The memory of a serial device\<close>

definition serial_blocks :: "rt_serial_device \<Rightarrow> u32 list" where
  "serial_blocks s = (case rx_address (serial_rx s) of None \<Rightarrow> [] | Some p \<Rightarrow> [p]) @
     (case tx_address (serial_tx s) of None \<Rightarrow> [] | Some p \<Rightarrow> [p])"

text \<open>Nobody has the heap's semaphore, and the blocks of the device are handed out (\<open>live\<close>).\<close>

definition serial_mem :: "heap \<Rightarrow> nat \<Rightarrow> 'h serial_world \<Rightarrow> (u32 \<Rightarrow> nat option) \<Rightarrow> bool" where
  "serial_mem h0 d w live \<longleftrightarrow> heap_rep h0 [(heap_size h0 + 12, False)] \<and> heap_run h0 (fst (fst w)) live \<and>
     heap_calm (dev_kernel w) \<and> distinct (serial_blocks (serial_of w d)) \<and> set (serial_blocks (serial_of w d)) \<subseteq> dom live"

definition serial_ready :: "heap \<Rightarrow> nat \<Rightarrow> 'h serial_world \<Rightarrow> bool" where
  "serial_ready h0 d w \<longleftrightarrow> (\<exists>live. serial_mem h0 d w live)"

lemma calm_upd_dev [simp]: "heap_calm (upd_dev d f k) = heap_calm k"
  by (simp add: heap_calm_def obj_is_def rt_object_get_type_def upd_dev_def)

lemma calm_queues: "(\<And>s. qs (Suspended (OSem s)) = queues k (Suspended (OSem s))) \<Longrightarrow> heap_calm (k\<lparr>queues := qs\<rparr>) = heap_calm k"
  by (simp add: heap_calm_def obj_is_def rt_object_get_type_def)

lemma serial_mem_cong:
  "fst (fst w') = fst (fst w) \<Longrightarrow> dev_kernel w' = dev_kernel w \<Longrightarrow> serial_of w' d = serial_of w d \<Longrightarrow> serial_mem h0 d w' live = serial_mem h0 d w live"
  by (simp add: serial_mem_def)

lemma serial_mem_simps [simp]:
  "serial_mem h0 d (upd_device e f w) live = serial_mem h0 d w live"
  "serial_mem h0 d (snd (on_hardware g w)) live = serial_mem h0 d w live"
  by (simp_all add: serial_mem_def)

lemma serial_alloc_ok:
  assumes m: "serial_mem h0 d w live" and a: "serial_alloc n w = Some (r, w')"
  obtains p l where "r = Done p" "p \<notin> dom live" "heap_run h0 (fst (fst w')) (live(p \<mapsto> l))"
    "dev_kernel w' = dev_kernel w" "snd w' = snd w"
proof -
  obtain h k s where w: "w = ((h, k), s)" by (cases w rule: dev_kernel.cases)
  have c: "heap_rep h0 [(heap_size h0 + 12, False)]" "heap_run h0 h live" "heap_calm k" using m by (simp_all add: serial_mem_def w)
  show ?thesis
  proof (cases rule: rt_malloc_live [OF c, of n])
    case 1
    then show ?thesis using a by (simp add: serial_alloc_def w require_def)
  next
    case (2 p h' l)
    then show ?thesis using a that [of p l] by (auto simp: serial_alloc_def w require_def)
  qed
qed

lemma serial_release_ok:
  assumes m: "serial_mem h0 d w live" and p: "p \<in> dom live"
  obtains w' where "serial_release p w = Some (Done (), w')" "heap_run h0 (fst (fst w')) (live(p := None))"
    "dev_kernel w' = dev_kernel w" "snd w' = snd w"
proof -
  obtain h k s where w: "w = ((h, k), s)" by (cases w rule: dev_kernel.cases)
  have c: "heap_rep h0 [(heap_size h0 + 12, False)]" "heap_run h0 h live" "heap_calm k" using m by (simp_all add: serial_mem_def w)
  obtain h' where "rt_free p (h, k) = Some (Mem 0, h', k)" "heap_run h0 h' (live(p := None))" by (rule rt_free_live [OF c p])
  then show ?thesis using that [of "((h', k), s)"] by (simp add: serial_release_def w)
qed

subsection \<open>Opening\<close>

text \<open>What is left of the device's structure when some flags are added.\<close>

lemma keeps_device_or [simp]: "keeps_device d w (or_open_flag e fl w)"
  by (simp add: keeps_device_def or_open_flag_def)

lemma keeps_device_refl [simp]: "keeps_device d w w"
  by (simp add: keeps_device_def)

lemma keeps_device_trans: "keeps_device d a b \<Longrightarrow> keeps_device d b c \<Longrightarrow> keeps_device d a c"
  by (simp add: keeps_device_def)

lemma low_control_simps [simp]:
  "dev_kernel (low_control ops d cmd fl w) = dev_kernel w" "device_of (low_control ops d cmd fl w) e = device_of w e"
  "serial_of (low_control ops d cmd fl w) e = serial_of w e" "fst (low_control ops d cmd fl w) = fst w"
  "has_open_flag e m (low_control ops d cmd fl w) = has_open_flag e m w" "serial_bufsz (low_control ops d cmd fl w) e = serial_bufsz w e"
  by (simp_all add: low_control_def)

lemma or_open_flag_simps [simp]:
  "serial_of (or_open_flag d fl w) e = serial_of w e" "fst (fst (or_open_flag d fl w)) = fst (fst w)"
  "heap_calm (dev_kernel (or_open_flag d fl w)) = heap_calm (dev_kernel w)" "serial_bufsz (or_open_flag d fl w) e = serial_bufsz w e"
  "serial_of (clear_open_flag d fl w) e = serial_of w e" "fst (fst (clear_open_flag d fl w)) = fst (fst w)"
  "heap_calm (dev_kernel (clear_open_flag d fl w)) = heap_calm (dev_kernel w)"
  by (simp_all add: or_open_flag_def clear_open_flag_def)

text \<open>
  The part of an opening for one direction: the structure exists or a block has been handed out
  for it, when the flags ask for one of the two modes.
\<close>

definition mode_flag :: "u16 \<Rightarrow> u16 \<Rightarrow> u16 \<Rightarrow> u16" where
  "mode_flag a b oflag = (if oflag AND a \<noteq> 0 then a else if oflag AND b \<noteq> 0 then b else 0)"

definition rx_opened :: "heap \<Rightarrow> nat \<Rightarrow> u16 \<Rightarrow> (u32 \<Rightarrow> nat option) \<Rightarrow> 'h serial_world \<Rightarrow> 'h serial_world \<Rightarrow> bool" where
  "rx_opened h0 d oflag live w w' \<longleftrightarrow>
     (let fl = mode_flag RT_DEVICE_FLAG_INT_RX RT_DEVICE_FLAG_DMA_RX oflag; s = serial_of w d; s' = serial_of w' d in
      dev_kernel w' = dev_kernel (or_open_flag d fl w) \<and> serial_tx s' = serial_tx s \<and> serial_config s' = serial_config s \<and>
      (if serial_rx s \<noteq> Rx_none \<or> fl = 0 then serial_rx s' = serial_rx s \<and> heap_run h0 (fst (fst w')) live
       else \<exists>p l. rx_address (serial_rx s') = Some p \<and> p \<notin> dom live \<and> heap_run h0 (fst (fst w')) (live(p \<mapsto> l))))"

lemma or_open_flag_0 [simp]: "or_open_flag d 0 w = w"
  by (cases w rule: dev_kernel.cases) (simp add: or_open_flag_def upd_device_def upd_dev_def)

lemma set_rx_simps [simp]:
  "serial_of (set_rx d rx w) e = (if e = d then (serial_of w d)\<lparr>serial_rx := rx\<rparr> else serial_of w e)"
  "serial_of (set_tx d tx w) e = (if e = d then (serial_of w d)\<lparr>serial_tx := tx\<rparr> else serial_of w e)"
  "dev_kernel (set_rx d rx w) = dev_kernel w" "dev_kernel (set_tx d tx w) = dev_kernel w"
  "device_of (set_rx d rx w) e = device_of w e" "device_of (set_tx d tx w) e = device_of w e"
  "fst (set_rx d rx w) = fst w" "fst (set_tx d tx w) = fst w"
  "has_open_flag e m (set_rx d rx w) = has_open_flag e m w" "has_open_flag e m (set_tx d tx w) = has_open_flag e m w"
  "snd (or_open_flag d fl w) = snd w" "hardware (snd (set_rx d rx w)) = hardware (snd w)" "hardware (snd (set_tx d tx w)) = hardware (snd w)"
  by (simp_all add: set_rx_def set_tx_def or_open_flag_def)

lemma serial_of_snd: "snd w' = snd w \<Longrightarrow> serial_of w' d = serial_of w d"
  by (simp add: serial_of_def)

lemma alloc_bind:
  assumes m: "serial_mem h0 d w live"
    and o: "Option.bind (serial_alloc n w) (\<lambda>(r, w1). case r of Waits \<Rightarrow> Some (Waits, w1) | Done p \<Rightarrow> F p w1) = Some (r, w')"
  obtains p l w1 where "F p w1 = Some (r, w')" "p \<notin> dom live" "heap_run h0 (fst (fst w1)) (live(p \<mapsto> l))"
    "dev_kernel w1 = dev_kernel w" "snd w1 = snd w" "serial_of w1 d = serial_of w d"
proof -
  obtain r1 w1 where a: "serial_alloc n w = Some (r1, w1)" "(case r1 of Waits \<Rightarrow> Some (Waits, w1) | Done p \<Rightarrow> F p w1) = Some (r, w')"
    using o by (rule bind_pairE)
  obtain p l where p: "r1 = Done p" "p \<notin> dom live" "heap_run h0 (fst (fst w1)) (live(p \<mapsto> l))"
    "dev_kernel w1 = dev_kernel w" "snd w1 = snd w" by (rule serial_alloc_ok [OF m a(1)])
  show ?thesis by (rule that [OF _ p(2-5) serial_of_snd [OF p(5)]]) (use a(2) p(1) in simp)
qed

lemma upd_dev_id [simp]: "upd_dev d (\<lambda>dv. dv) k = k"
  by (simp add: upd_dev_def)

lemma dev_kernel_or [simp]:
  "dev_kernel (or_open_flag d fl w) = upd_dev d (\<lambda>dv. dv\<lparr>open_flag := open_flag dv OR fl\<rparr>) (dev_kernel w)"
  by (simp add: or_open_flag_def)

lemma serial_open_rx_ok:
  assumes m: "serial_mem h0 d w live" and o: "serial_open_rx ops d oflag w = Some (r, w')"
  shows "r = Done () \<and> rx_opened h0 d oflag live w w'"
proof -
  have run: "heap_run h0 (fst (fst w)) live" using m by (simp add: serial_mem_def)
  note done_simps = rx_opened_def mode_flag_def Let_def
  consider (there) "serial_rx (serial_of w d) \<noteq> Rx_none"
    | (int) "serial_rx (serial_of w d) = Rx_none" "oflag AND RT_DEVICE_FLAG_INT_RX \<noteq> 0"
    | (dma) "serial_rx (serial_of w d) = Rx_none" "oflag AND RT_DEVICE_FLAG_INT_RX = 0" "oflag AND RT_DEVICE_FLAG_DMA_RX \<noteq> 0"
    | (none) "serial_rx (serial_of w d) = Rx_none" "oflag AND RT_DEVICE_FLAG_INT_RX = 0" "oflag AND RT_DEVICE_FLAG_DMA_RX = 0" by blast
  then show ?thesis
  proof cases
    case there
    then show ?thesis using o run by (auto simp: serial_open_rx_def done_simps split: if_splits)
  next
    case int
    from o [unfolded serial_open_rx_def if_P [OF int(1)] if_P [OF int(2)]]
    obtain p l w1 where "Some (Done (), low_control ops d RT_DEVICE_CTRL_SET_INT RT_DEVICE_FLAG_INT_RX
        (or_open_flag d RT_DEVICE_FLAG_INT_RX (set_rx d (Rx_fifo p (new_rx_fifo (serial_bufsz w d))) w1))) = Some (r, w')"
      "p \<notin> dom live" "heap_run h0 (fst (fst w1)) (live(p \<mapsto> l))" "dev_kernel w1 = dev_kernel w" "serial_of w1 d = serial_of w d"
      by (rule alloc_bind [OF m])
    then show ?thesis using int by (auto simp: done_simps)
  next
    case dma
    show ?thesis
    proof (cases "serial_bufsz w d = 0")
      case True
      have "Option.bind (serial_alloc sizeof_rx_dma w) (\<lambda>(r, w1). case r of Waits \<Rightarrow> Some (Waits, w1)
          | Done p \<Rightarrow> Some (Done (), or_open_flag d RT_DEVICE_FLAG_DMA_RX (set_rx d (Rx_dma p False) w1))) = Some (r, w')"
        using o dma True by (simp add: serial_open_rx_def)
      then obtain p l w1 where "Some (Done (), or_open_flag d RT_DEVICE_FLAG_DMA_RX (set_rx d (Rx_dma p False) w1)) = Some (r, w')"
        "p \<notin> dom live" "heap_run h0 (fst (fst w1)) (live(p \<mapsto> l))" "dev_kernel w1 = dev_kernel w" "serial_of w1 d = serial_of w d"
        by (rule alloc_bind [OF m])
      then show ?thesis using dma by (auto simp: done_simps)
    next
      case False
      have "Option.bind (serial_alloc (sizeof_rx_fifo + ucast (serial_bufsz w d)) w) (\<lambda>(r, w1). case r of Waits \<Rightarrow> Some (Waits, w1)
          | Done p \<Rightarrow> Some (Done (), or_open_flag d RT_DEVICE_FLAG_DMA_RX (low_control ops d RT_DEVICE_CTRL_CONFIG RT_DEVICE_FLAG_DMA_RX
              (set_rx d (Rx_fifo p (new_rx_fifo (serial_bufsz w d))) w1)))) = Some (r, w')"
        using o dma False by (simp add: serial_open_rx_def)
      then obtain p l w1 where "Some (Done (), or_open_flag d RT_DEVICE_FLAG_DMA_RX (low_control ops d RT_DEVICE_CTRL_CONFIG RT_DEVICE_FLAG_DMA_RX
              (set_rx d (Rx_fifo p (new_rx_fifo (serial_bufsz w d))) w1))) = Some (r, w')"
        "p \<notin> dom live" "heap_run h0 (fst (fst w1)) (live(p \<mapsto> l))" "dev_kernel w1 = dev_kernel w" "serial_of w1 d = serial_of w d"
        by (rule alloc_bind [OF m])
      then show ?thesis using dma by (auto simp: done_simps)
    qed
  next
    case none
    then show ?thesis using o run by (simp add: serial_open_rx_def done_simps)
  qed
qed

text \<open>In DMA mode a second block is handed out for the items of the data queue, if there is memory.\<close>

definition items_live :: "serial_tx_struct \<Rightarrow> (u32 \<Rightarrow> nat option) \<Rightarrow> (u32 \<Rightarrow> nat option) \<Rightarrow> bool" where
  "items_live tx live live' \<longleftrightarrow>
     (case tx of
        Tx_dma _ _ q \<Rightarrow> if dq_items q = [] then live' = live else \<exists>p l. p \<notin> dom live \<and> live' = live(p \<mapsto> l)
      | _ \<Rightarrow> live' = live)"

definition tx_opened :: "heap \<Rightarrow> nat \<Rightarrow> u16 \<Rightarrow> (u32 \<Rightarrow> nat option) \<Rightarrow> 'h serial_world \<Rightarrow> 'h serial_world \<Rightarrow> bool" where
  "tx_opened h0 d oflag live w w' \<longleftrightarrow>
     (let fl = mode_flag RT_DEVICE_FLAG_INT_TX RT_DEVICE_FLAG_DMA_TX oflag; s = serial_of w d; s' = serial_of w' d in
      (\<exists>qs. dev_kernel w' = dev_kernel (or_open_flag d fl w)\<lparr>queues := qs\<rparr> \<and> (\<forall>ob. qs (Suspended ob) = queues (dev_kernel w) (Suspended ob))) \<and>
      serial_rx s' = serial_rx s \<and> serial_config s' = serial_config s \<and>
      (if serial_tx s \<noteq> Tx_none \<or> fl = 0 then serial_tx s' = serial_tx s \<and> heap_run h0 (fst (fst w')) live
       else \<exists>p l live'. tx_address (serial_tx s') = Some p \<and> p \<notin> dom live \<and>
         items_live (serial_tx s') (live(p \<mapsto> l)) live' \<and> heap_run h0 (fst (fst w')) live'))"

lemma serial_queue_init_ok:
  assumes h: "heap_rep h0 [(heap_size h0 + 12, False)]" "heap_run h0 (fst (fst w)) live" "heap_calm (dev_kernel w)"
    and i: "serial_queue_init junk d q w = Some (r, w')"
  obtains q1 qs where "r = Done q1" "snd w' = snd w" "dev_kernel w' = dev_kernel w\<lparr>queues := qs\<rparr>"
    "\<And>ob. qs (Suspended ob) = queues (dev_kernel w) (Suspended ob)"
    "if dq_items q1 = [] then heap_run h0 (fst (fst w')) live else \<exists>p l. p \<notin> dom live \<and> heap_run h0 (fst (fst w')) (live(p \<mapsto> l))"
proof -
  obtain h k s where w: "w = ((h, k), s)" by (cases w rule: dev_kernel.cases)
  have c: "heap_run h0 h live" "heap_calm k" using h(2,3) by (simp_all add: w)
  show ?thesis
  proof (cases rule: rt_malloc_live [OF h(1) c, of "sizeof_data_item * 8"])
    case 1
    then show ?thesis using i that c(1) by (auto simp: serial_queue_init_def w rt_data_queue_init_def)
  next
    case (2 p h' l)
    let ?qs = "(queues k)(Pushers d := [], Poppers d := [])"
    have "w' = ((h', k\<lparr>queues := ?qs\<rparr>), s) \<and> (\<exists>q1. r = Done q1 \<and> dq_items q1 = map junk [0..<8])"
      using 2(1,2) i by (auto simp: serial_queue_init_def w rt_data_queue_init_def)
    then obtain q1 where "r = Done q1" "dq_items q1 \<noteq> []" "w' = ((h', k\<lparr>queues := ?qs\<rparr>), s)" by auto
    moreover have "\<exists>p l. p \<notin> dom live \<and> heap_run h0 h' (live(p \<mapsto> l))" using 2(3,4) by blast
    ultimately show ?thesis using that [of q1 ?qs] by (simp add: w)
  qed
qed

lemma same_queues [simp]: "k\<lparr>queues := queues k\<rparr> = (k :: kernel)" "(upd_dev d f k)\<lparr>queues := queues k\<rparr> = upd_dev d f k"
  by (simp_all add: upd_dev_def)

lemma open_tx_dma_ok:
  assumes m: "serial_mem h0 d w live" and o: "serial_open_tx ops junk d oflag w = Some (r, w')"
    and dma: "serial_tx (serial_of w d) = Tx_none" "oflag AND RT_DEVICE_FLAG_INT_TX = 0" "oflag AND RT_DEVICE_FLAG_DMA_TX \<noteq> 0"
  shows "r = Done () \<and> tx_opened h0 d oflag live w w'"
proof -
  have h0: "heap_rep h0 [(heap_size h0 + 12, False)]" and calm: "heap_calm (dev_kernel w)"
    using m by (simp_all add: serial_mem_def)
  note done_simps = tx_opened_def mode_flag_def Let_def
  let ?w = "\<lambda>p q w2. low_control ops d RT_DEVICE_CTRL_CONFIG RT_DEVICE_FLAG_DMA_TX (or_open_flag d RT_DEVICE_FLAG_DMA_TX (set_tx d (Tx_dma p False q) w2))"
  let ?F = "\<lambda>p w1. Option.bind (serial_queue_init junk d junk_queue w1) (\<lambda>(rq, w2). case rq of Waits \<Rightarrow> Some (Waits, w2) | Done q \<Rightarrow> Some (Done (), ?w p q w2))"
  have "Option.bind (serial_alloc sizeof_tx_dma w) (\<lambda>(r, w1). case r of Waits \<Rightarrow> Some (Waits, w1) | Done p \<Rightarrow> ?F p w1) = Some (r, w')"
    using o dma by (simp add: serial_open_tx_def)
  then obtain p l w1 where F: "?F p w1 = Some (r, w')" and p: "p \<notin> dom live" "heap_run h0 (fst (fst w1)) (live(p \<mapsto> l))"
    "dev_kernel w1 = dev_kernel w" "serial_of w1 d = serial_of w d"
    by (rule alloc_bind [OF m])
  obtain rq w2 where q: "serial_queue_init junk d junk_queue w1 = Some (rq, w2)"
    "(case rq of Waits \<Rightarrow> Some (Waits, w2) | Done q \<Rightarrow> Some (Done (), ?w p q w2)) = Some (r, w')" using F by (rule bind_pairE)
  obtain q1 qs where q1: "rq = Done q1" "snd w2 = snd w1" "dev_kernel w2 = dev_kernel w1\<lparr>queues := qs\<rparr>"
    "\<And>ob. qs (Suspended ob) = queues (dev_kernel w1) (Suspended ob)"
    "if dq_items q1 = [] then heap_run h0 (fst (fst w2)) (live(p \<mapsto> l))
     else \<exists>p' l'. p' \<notin> dom (live(p \<mapsto> l)) \<and> heap_run h0 (fst (fst w2)) (live(p \<mapsto> l, p' \<mapsto> l'))"
    using serial_queue_init_ok [OF h0 p(2) _ q(1)] calm p(3) by metis
  have "serial_of w2 d = serial_of w d" using serial_of_snd [OF q1(2)] p(4) by simp
  moreover have w': "r = Done ()" "w' = ?w p q1 w2" using q(2) q1(1) by simp_all
  moreover have "\<exists>qs. dev_kernel w' = dev_kernel (or_open_flag d RT_DEVICE_FLAG_DMA_TX w)\<lparr>queues := qs\<rparr> \<and>
      (\<forall>ob. qs (Suspended ob) = queues (dev_kernel w) (Suspended ob))"
    using q1(3,4) p(3) by (intro exI [of _ qs]) (simp add: w'(2) upd_dev_def)
  moreover obtain live' where "items_live (Tx_dma p False q1) (live(p \<mapsto> l)) live'" "heap_run h0 (fst (fst w2)) live'"
    using q1(5) by (cases "dq_items q1 = []") (auto simp: items_live_def simp del: dom_fun_upd)
  ultimately show ?thesis using dma p(1) by (auto simp: done_simps simp del: dom_fun_upd dev_kernel_or)
qed

lemma serial_open_tx_ok:
  assumes m: "serial_mem h0 d w live" and o: "serial_open_tx ops junk d oflag w = Some (r, w')"
  shows "r = Done () \<and> tx_opened h0 d oflag live w w'"
proof -
  have run: "heap_run h0 (fst (fst w)) live" using m by (simp add: serial_mem_def)
  note done_simps = tx_opened_def mode_flag_def Let_def
  consider (there) "serial_tx (serial_of w d) \<noteq> Tx_none"
    | (int) "serial_tx (serial_of w d) = Tx_none" "oflag AND RT_DEVICE_FLAG_INT_TX \<noteq> 0"
    | (dma) "serial_tx (serial_of w d) = Tx_none" "oflag AND RT_DEVICE_FLAG_INT_TX = 0" "oflag AND RT_DEVICE_FLAG_DMA_TX \<noteq> 0"
    | (none) "serial_tx (serial_of w d) = Tx_none" "oflag AND RT_DEVICE_FLAG_INT_TX = 0" "oflag AND RT_DEVICE_FLAG_DMA_TX = 0" by blast
  then show ?thesis
  proof cases
    case there
    then show ?thesis using o run
      by (auto simp: serial_open_tx_def done_simps split: if_splits intro!: exI [of _ "queues (dev_kernel w)"])
  next
    case int
    let ?w = "\<lambda>p w1. low_control ops d RT_DEVICE_CTRL_SET_INT RT_DEVICE_FLAG_INT_TX (or_open_flag d RT_DEVICE_FLAG_INT_TX
        (set_tx d (Tx_fifo p 0) (map_kernel (\<lambda>_. dev_kernel w1\<lparr>queues := (queues (dev_kernel w1))(Completing d := [])\<rparr>) w1)))"
    have "Option.bind (serial_alloc sizeof_tx_fifo w) (\<lambda>(r, w1). case r of Waits \<Rightarrow> Some (Waits, w1) | Done p \<Rightarrow> Some (Done (), ?w p w1)) = Some (r, w')"
      using o int by (simp add: serial_open_tx_def rt_completion_init_def cong: dev_result.case_cong)
    then obtain p l w1 where "Some (Done (), ?w p w1) = Some (r, w')" "p \<notin> dom live" "heap_run h0 (fst (fst w1)) (live(p \<mapsto> l))"
      "dev_kernel w1 = dev_kernel w" "serial_of w1 d = serial_of w d"
      by (rule alloc_bind [OF m])
    then show ?thesis using int by (auto simp: done_simps items_live_def upd_dev_def intro!: exI [of _ "(queues (dev_kernel w))(Completing d := [])"])
  next
    case dma
    then show ?thesis by (rule open_tx_dma_ok [OF m o])
  next
    case none
    then show ?thesis using o run by (auto simp: serial_open_tx_def done_simps intro!: exI [of _ "queues (dev_kernel w)"])
  qed
qed

lemma distinct_blocks_rx:
  assumes "distinct (serial_blocks s)" "set (serial_blocks s) \<subseteq> dom live" "rx_address (serial_rx s') = Some p" "p \<notin> dom live"
    "serial_tx s' = serial_tx s"
  shows "distinct (serial_blocks s')" "set (serial_blocks s') \<subseteq> insert p (dom live)"
  using assms by (auto simp: serial_blocks_def split: option.splits)

lemma distinct_blocks_tx:
  assumes "distinct (serial_blocks s)" "set (serial_blocks s) \<subseteq> dom live" "tx_address (serial_tx s') = Some p" "p \<notin> dom live"
    "serial_rx s' = serial_rx s"
  shows "distinct (serial_blocks s')" "set (serial_blocks s') \<subseteq> insert p (dom live)"
  using assms by (auto simp: serial_blocks_def split: option.splits)

lemma items_live_dom: "items_live tx live live' \<Longrightarrow> dom live \<subseteq> dom live'"
  by (auto simp: items_live_def split: serial_tx_struct.splits if_splits)

lemma keeps_device_kernel:
  assumes "dev_kernel w' = dev_kernel (or_open_flag d fl w)\<lparr>queues := qs\<rparr>"
  shows "keeps_device d w w'"
  using assms by (simp add: keeps_device_def device_of_def is_device_def rt_object_get_type_def upd_dev_def)

definition rx_live :: "nat \<Rightarrow> u16 \<Rightarrow> 'h serial_world \<Rightarrow> 'h serial_world \<Rightarrow> (u32 \<Rightarrow> nat option) \<Rightarrow> (u32 \<Rightarrow> nat option) \<Rightarrow> bool" where
  "rx_live d oflag w w' live live' \<longleftrightarrow>
     (if serial_rx (serial_of w d) \<noteq> Rx_none \<or> mode_flag RT_DEVICE_FLAG_INT_RX RT_DEVICE_FLAG_DMA_RX oflag = 0 then live' = live
      else \<exists>p l. rx_address (serial_rx (serial_of w' d)) = Some p \<and> p \<notin> dom live \<and> live' = live(p \<mapsto> l))"

lemma rx_opened_mem:
  assumes m: "serial_mem h0 d w live" and r: "rx_opened h0 d oflag live w w'"
  obtains live' where "serial_mem h0 d w' live'" "keeps_device d w w'" "rx_live d oflag w w' live live'"
proof -
  let ?fl = "mode_flag RT_DEVICE_FLAG_INT_RX RT_DEVICE_FLAG_DMA_RX oflag" and ?s = "serial_of w d" and ?s' = "serial_of w' d"
  have k: "dev_kernel w' = dev_kernel (or_open_flag d ?fl w)" and tx: "serial_tx ?s' = serial_tx ?s" using r by (simp_all add: rx_opened_def Let_def)
  have keep: "keeps_device d w w'" by (rule keeps_device_kernel [where qs = "queues (dev_kernel w)"]) (simp add: k)
  show ?thesis
  proof (cases "serial_rx ?s \<noteq> Rx_none \<or> ?fl = 0")
    case True
    then have "serial_blocks ?s' = serial_blocks ?s" "heap_run h0 (fst (fst w')) live"
      using r tx by (simp_all add: rx_opened_def Let_def serial_blocks_def)
    then show ?thesis using m k keep True by (intro that [of live]) (simp_all add: serial_mem_def rx_live_def)
  next
    case False
    then obtain p l where p: "rx_address (serial_rx ?s') = Some p" "p \<notin> dom live" "heap_run h0 (fst (fst w')) (live(p \<mapsto> l))"
      using r by (auto simp: rx_opened_def Let_def)
    show ?thesis using m k keep p False distinct_blocks_rx [OF _ _ p(1,2) tx]
      by (intro that [of "live(p \<mapsto> l)"]) (auto simp: serial_mem_def rx_live_def)
  qed
qed

definition tx_live :: "nat \<Rightarrow> u16 \<Rightarrow> 'h serial_world \<Rightarrow> 'h serial_world \<Rightarrow> (u32 \<Rightarrow> nat option) \<Rightarrow> (u32 \<Rightarrow> nat option) \<Rightarrow> bool" where
  "tx_live d oflag w w' live live' \<longleftrightarrow>
     (if serial_tx (serial_of w d) \<noteq> Tx_none \<or> mode_flag RT_DEVICE_FLAG_INT_TX RT_DEVICE_FLAG_DMA_TX oflag = 0 then live' = live
      else \<exists>p l. tx_address (serial_tx (serial_of w' d)) = Some p \<and> p \<notin> dom live \<and> items_live (serial_tx (serial_of w' d)) (live(p \<mapsto> l)) live')"

lemma tx_opened_mem:
  assumes m: "serial_mem h0 d w live" and r: "tx_opened h0 d oflag live w w'"
  obtains live' where "serial_mem h0 d w' live'" "keeps_device d w w'" "tx_live d oflag w w' live live'"
proof -
  let ?fl = "mode_flag RT_DEVICE_FLAG_INT_TX RT_DEVICE_FLAG_DMA_TX oflag" and ?s = "serial_of w d" and ?s' = "serial_of w' d"
  obtain qs where k: "dev_kernel w' = dev_kernel (or_open_flag d ?fl w)\<lparr>queues := qs\<rparr>"
    "\<And>ob. qs (Suspended ob) = queues (dev_kernel w) (Suspended ob)" and rx: "serial_rx ?s' = serial_rx ?s"
    using r by (auto simp: tx_opened_def Let_def)
  have keep: "keeps_device d w w'" by (rule keeps_device_kernel [OF k(1)])
  have calm: "heap_calm (dev_kernel w')"
    using m k by (simp add: serial_mem_def heap_calm_def obj_is_def rt_object_get_type_def upd_dev_def)
  show ?thesis
  proof (cases "serial_tx ?s \<noteq> Tx_none \<or> ?fl = 0")
    case True
    then have "serial_blocks ?s' = serial_blocks ?s" "heap_run h0 (fst (fst w')) live"
      using r rx by (simp_all add: tx_opened_def Let_def serial_blocks_def)
    then show ?thesis using m calm keep True by (intro that [of live]) (simp_all add: serial_mem_def tx_live_def)
  next
    case False
    then obtain p l live' where p: "tx_address (serial_tx ?s') = Some p" "p \<notin> dom live" "heap_run h0 (fst (fst w')) live'"
      "items_live (serial_tx ?s') (live(p \<mapsto> l)) live'"
      using r by (auto simp: tx_opened_def Let_def)
    have "distinct (serial_blocks ?s')" "set (serial_blocks ?s') \<subseteq> insert p (dom live)"
      using distinct_blocks_tx [OF _ _ p(1,2) rx] m by (simp_all add: serial_mem_def)
    moreover have "insert p (dom live) \<subseteq> dom live'" using items_live_dom [OF p(4)] by simp
    ultimately have "distinct (serial_blocks ?s')" "set (serial_blocks ?s') \<subseteq> dom live'" by blast+
    then show ?thesis using m calm keep p False by (intro that [of live']) (auto simp: serial_mem_def tx_live_def)
  qed
qed

lemma serial_open_cases:
  assumes m: "serial_mem h0 d w live" and o: "rt_serial_open ops junk d oflag w = Some (r, w')"
  obtains (refused) "open_flags_refused oflag (dev_flag (device_of w d))" "r = Done (- RT_EIO)" "w' = w"
  | (opened) w2 live2 w3 st where "r = Done RT_EOK" "w' = or_open_flag d st w3" "st \<in> {0, RT_DEVICE_FLAG_STREAM}"
      "rx_opened h0 d oflag live (upd_device d (\<lambda>dv. dv\<lparr>open_flag := oflag AND 0xff\<rparr>) w) w2" "serial_mem h0 d w2 live2"
      "rx_live d oflag w w2 live live2" "keeps_device d w w2" "tx_opened h0 d oflag live2 w2 w3"
      "serial_open_rx ops d oflag (upd_device d (\<lambda>dv. dv\<lparr>open_flag := oflag AND 0xff\<rparr>) w) = Some (Done (), w2)"
      "serial_open_tx ops junk d oflag w2 = Some (Done (), w3)"
proof (cases "open_flags_refused oflag (dev_flag (device_of w d))")
  case True
  then have "r = Done (- RT_EIO)" "w' = w" using o by (simp_all add: rt_serial_open_def)
  then show ?thesis by (rule refused [OF True])
next
  case False
  let ?w = "upd_device d (\<lambda>dv. dv\<lparr>open_flag := oflag AND 0xff\<rparr>) w"
  let ?st = "if oflag AND RT_DEVICE_FLAG_STREAM \<noteq> 0 \<or> has_open_flag d RT_DEVICE_FLAG_STREAM w then RT_DEVICE_FLAG_STREAM else 0"
  let ?G = "\<lambda>w2. Option.bind (serial_open_tx ops junk d oflag w2)
     (\<lambda>(r3, w3). case r3 of Waits \<Rightarrow> Some (Waits, w3) | Done _ \<Rightarrow> Some (Done RT_EOK, or_open_flag d ?st w3))"
  have "Option.bind (serial_open_rx ops d oflag ?w) (\<lambda>(r2, w2). case r2 of Waits \<Rightarrow> Some (Waits, w2) | Done _ \<Rightarrow> ?G w2) = Some (r, w')"
    using o unfolding rt_serial_open_def Let_def if_not_P [OF False] .
  then obtain r2 w2 where 2: "serial_open_rx ops d oflag ?w = Some (r2, w2)" "(case r2 of Waits \<Rightarrow> Some (Waits, w2) | Done _ \<Rightarrow> ?G w2) = Some (r, w')"
    by (rule bind_pairE)
  have m1: "serial_mem h0 d ?w live" using m by simp
  note rx = serial_open_rx_ok [OF m1 2(1)]
  have rxo: "rx_opened h0 d oflag live ?w w2" using rx by simp
  obtain live2 where l2: "serial_mem h0 d w2 live2" "keeps_device d ?w w2" "rx_live d oflag ?w w2 live live2"
    by (rule rx_opened_mem [OF m1 rxo])
  have "?G w2 = Some (r, w')" using 2(2) rx by simp
  then obtain r3 w3 where 3: "serial_open_tx ops junk d oflag w2 = Some (r3, w3)"
    "(case r3 of Waits \<Rightarrow> Some (Waits, w3) | Done _ \<Rightarrow> Some (Done RT_EOK, or_open_flag d ?st w3)) = Some (r, w')" by (rule bind_pairE)
  note tx = serial_open_tx_ok [OF l2(1) 3(1)]
  show ?thesis
  proof (rule opened [of ?st w3 w2 live2])
    show "keeps_device d w w2" using l2(2) by (simp add: keeps_device_def)
    show "rx_live d oflag w w2 live live2" using l2(3) by (simp add: rx_live_def)
    show "serial_open_rx ops d oflag ?w = Some (Done (), w2)" using 2(1) rx by simp
    show "serial_open_tx ops junk d oflag w2 = Some (Done (), w3)" using 3(1) tx by simp
    show "r = Done RT_EOK" "w' = or_open_flag d ?st w3" using 3(2) tx by simp_all
  qed (use rxo l2(1) tx in simp_all)
qed

subsection \<open>Closing\<close>

text \<open>A closing gives back the blocks of the modes that the open flags name.\<close>

lemma release_bind:
  assumes m: "serial_mem h0 d w live" and p: "p \<in> dom live"
  obtains w1 where "serial_release p w = Some (Done (), w1)" "heap_run h0 (fst (fst w1)) (live(p := None))"
    "dev_kernel w1 = dev_kernel w" "serial_of w1 d = serial_of w d"
  using serial_release_ok [OF m p] serial_of_snd by metis

lemma serial_close_rx_ok:
  assumes m: "serial_mem h0 d w live"
  shows "case serial_close_rx ops d w of
      None \<Rightarrow> (has_open_flag d RT_DEVICE_FLAG_INT_RX w \<or> has_open_flag d RT_DEVICE_FLAG_DMA_RX w) \<and> serial_rx (serial_of w d) = Rx_none
    | Some (r, w') \<Rightarrow> r = Done () \<and> serial_tx (serial_of w' d) = serial_tx (serial_of w d) \<and>
        (if has_open_flag d RT_DEVICE_FLAG_INT_RX w \<or> has_open_flag d RT_DEVICE_FLAG_DMA_RX w
         then \<exists>p fl. rx_address (serial_rx (serial_of w d)) = Some p \<and> fl \<in> {RT_DEVICE_FLAG_INT_RX, RT_DEVICE_FLAG_DMA_RX} \<and>
           serial_rx (serial_of w' d) = Rx_none \<and> dev_kernel w' = dev_kernel (clear_open_flag d fl w) \<and> serial_mem h0 d w' (live(p := None))
         else w' = w)"
proof (cases "rx_address (serial_rx (serial_of w d))")
  case None
  then have "serial_rx (serial_of w d) = Rx_none" by (cases "serial_rx (serial_of w d)") simp_all
  then show ?thesis using m by (simp add: serial_close_rx_def)
next
  case (Some p)
  have p: "p \<in> dom live" "p \<in> set (serial_blocks (serial_of w d))" using m Some by (auto simp: serial_mem_def serial_blocks_def)
  obtain w1 where w1: "serial_release p w = Some (Done (), w1)" "heap_run h0 (fst (fst w1)) (live(p := None))"
    "dev_kernel w1 = dev_kernel w" "serial_of w1 d = serial_of w d" by (rule release_bind [OF m p(1)])
  have mem: "serial_mem h0 d w' (live(p := None))" if "fst (fst w') = fst (fst w1)" "dev_kernel w' = dev_kernel (clear_open_flag d fl w)"
      "serial_of w' d = (serial_of w d)\<lparr>serial_rx := Rx_none\<rparr>" for w' :: "'a serial_world" and fl
    using m that w1(2) Some by (auto simp: serial_mem_def serial_blocks_def split: option.splits)
  let ?i = "low_control ops d RT_DEVICE_CTRL_CLR_INT RT_DEVICE_FLAG_INT_RX (clear_open_flag d RT_DEVICE_FLAG_INT_RX (set_rx d Rx_none w1))"
  let ?m = "clear_open_flag d RT_DEVICE_FLAG_DMA_RX (set_rx d Rx_none (low_control ops d RT_DEVICE_CTRL_CLR_INT RT_DEVICE_FLAG_DMA_RX w1))"
  have i: "serial_mem h0 d ?i (live(p := None))" by (rule mem [where fl = RT_DEVICE_FLAG_INT_RX]) (simp_all add: w1(3,4) clear_open_flag_def)
  have d: "serial_mem h0 d ?m (live(p := None))" by (rule mem [where fl = RT_DEVICE_FLAG_DMA_RX]) (simp_all add: w1(3,4) clear_open_flag_def)
  have k: "dev_kernel ?i = dev_kernel (clear_open_flag d RT_DEVICE_FLAG_INT_RX w)" "dev_kernel ?m = dev_kernel (clear_open_flag d RT_DEVICE_FLAG_DMA_RX w)"
    by (simp_all add: w1(3) clear_open_flag_def)
  show ?thesis
  proof (cases "has_open_flag d RT_DEVICE_FLAG_INT_RX w")
    case True
    then have "serial_close_rx ops d w = Some (Done (), ?i)" using Some w1(1) by (simp add: serial_close_rx_def)
    then show ?thesis using True Some i k(1) w1(4) by auto
  next
    case False
    show ?thesis
    proof (cases "has_open_flag d RT_DEVICE_FLAG_DMA_RX w")
      case True
      then have "serial_close_rx ops d w = Some (Done (), ?m)" using False Some w1(1) by (simp add: serial_close_rx_def)
      then show ?thesis using True Some d k(2) w1(4) by auto
    next
      case F2: False
      then show ?thesis using False by (simp add: serial_close_rx_def)
    qed
  qed
qed

lemma serial_close_tx_ok:
  assumes m: "serial_mem h0 d w live"
  shows "case serial_close_tx ops d w of
      None \<Rightarrow> (has_open_flag d RT_DEVICE_FLAG_INT_TX w \<or> has_open_flag d RT_DEVICE_FLAG_DMA_TX w) \<and> serial_tx (serial_of w d) = Tx_none
    | Some (r, w') \<Rightarrow> r = Done () \<and> serial_rx (serial_of w' d) = serial_rx (serial_of w d) \<and>
        (if has_open_flag d RT_DEVICE_FLAG_INT_TX w \<or> has_open_flag d RT_DEVICE_FLAG_DMA_TX w
         then \<exists>p fl. tx_address (serial_tx (serial_of w d)) = Some p \<and> fl \<in> {RT_DEVICE_FLAG_INT_TX, RT_DEVICE_FLAG_DMA_TX} \<and>
           serial_tx (serial_of w' d) = Tx_none \<and> dev_kernel w' = dev_kernel (clear_open_flag d fl w) \<and> serial_mem h0 d w' (live(p := None))
         else w' = w)"
proof (cases "tx_address (serial_tx (serial_of w d))")
  case None
  then have "serial_tx (serial_of w d) = Tx_none" by (cases "serial_tx (serial_of w d)") simp_all
  then show ?thesis using m by (simp add: serial_close_tx_def)
next
  case (Some p)
  have p: "p \<in> dom live" "p \<in> set (serial_blocks (serial_of w d))" using m Some by (auto simp: serial_mem_def serial_blocks_def)
  obtain w1 where w1: "serial_release p w = Some (Done (), w1)" "heap_run h0 (fst (fst w1)) (live(p := None))"
    "dev_kernel w1 = dev_kernel w" "serial_of w1 d = serial_of w d" by (rule release_bind [OF m p(1)])
  have mem: "serial_mem h0 d w' (live(p := None))" if "fst (fst w') = fst (fst w1)" "dev_kernel w' = dev_kernel (clear_open_flag d fl w)"
      "serial_of w' d = (serial_of w d)\<lparr>serial_tx := Tx_none\<rparr>" for w' :: "'a serial_world" and fl
    using m that w1(2) Some by (auto simp: serial_mem_def serial_blocks_def split: option.splits)
  let ?i = "low_control ops d RT_DEVICE_CTRL_CLR_INT RT_DEVICE_FLAG_INT_TX (clear_open_flag d RT_DEVICE_FLAG_INT_TX (set_tx d Tx_none w1))"
  let ?m = "clear_open_flag d RT_DEVICE_FLAG_DMA_TX (set_tx d Tx_none w1)"
  have i: "serial_mem h0 d ?i (live(p := None))" by (rule mem [where fl = RT_DEVICE_FLAG_INT_TX]) (simp_all add: w1(3,4) clear_open_flag_def)
  have d: "serial_mem h0 d ?m (live(p := None))" by (rule mem [where fl = RT_DEVICE_FLAG_DMA_TX]) (simp_all add: w1(3,4) clear_open_flag_def)
  have k: "dev_kernel ?i = dev_kernel (clear_open_flag d RT_DEVICE_FLAG_INT_TX w)" "dev_kernel ?m = dev_kernel (clear_open_flag d RT_DEVICE_FLAG_DMA_TX w)"
    by (simp_all add: w1(3) clear_open_flag_def)
  show ?thesis
  proof (cases "has_open_flag d RT_DEVICE_FLAG_INT_TX w")
    case True
    then have "serial_close_tx ops d w = Some (Done (), ?i)" using Some w1(1) by (simp add: serial_close_tx_def)
    then show ?thesis using True Some i k(1) w1(4) by auto
  next
    case False
    show ?thesis
    proof (cases "has_open_flag d RT_DEVICE_FLAG_DMA_TX w")
      case True
      then have "serial_close_tx ops d w = Some (Done (), ?m)" using False Some w1(1) by (simp add: serial_close_tx_def)
      then show ?thesis using True Some d k(2) w1(4) by auto
    next
      case F2: False
      then show ?thesis using False by (simp add: serial_close_tx_def)
    qed
  qed
qed

lemma keeps_clear:
  assumes "dev_kernel w' = dev_kernel (clear_open_flag d fl w)"
    "fl \<in> {RT_DEVICE_FLAG_INT_RX, RT_DEVICE_FLAG_DMA_RX} \<or> fl \<in> {RT_DEVICE_FLAG_INT_TX, RT_DEVICE_FLAG_DMA_TX}"
  shows "keeps_device d w w'" "keeps_open d w w'"
  using assms by (auto simp: keeps_device_def keeps_open_def clear_open_flag_def device_of_def is_device_def rt_object_get_type_def upd_dev_def and.assoc)

lemma serial_close_rx_keeps:
  assumes m: "serial_mem h0 d w live" and o: "serial_close_rx ops d w = Some (r, w')"
  shows "r = Done () \<and> serial_ready h0 d w' \<and> keeps_device d w w' \<and> keeps_open d w w'"
proof -
  have s: "r = Done ()" "if has_open_flag d RT_DEVICE_FLAG_INT_RX w \<or> has_open_flag d RT_DEVICE_FLAG_DMA_RX w
         then \<exists>p fl. rx_address (serial_rx (serial_of w d)) = Some p \<and> fl \<in> {RT_DEVICE_FLAG_INT_RX, RT_DEVICE_FLAG_DMA_RX} \<and>
           serial_rx (serial_of w' d) = Rx_none \<and> dev_kernel w' = dev_kernel (clear_open_flag d fl w) \<and> serial_mem h0 d w' (live(p := None))
         else w' = w"
    using serial_close_rx_ok [OF m, of ops, unfolded o option.case prod.case] by blast+
  show ?thesis
  proof (cases "has_open_flag d RT_DEVICE_FLAG_INT_RX w \<or> has_open_flag d RT_DEVICE_FLAG_DMA_RX w")
    case True
    then obtain p fl where "fl \<in> {RT_DEVICE_FLAG_INT_RX, RT_DEVICE_FLAG_DMA_RX}" "dev_kernel w' = dev_kernel (clear_open_flag d fl w)"
      "serial_mem h0 d w' (live(p := None))" using s(2) by auto
    then show ?thesis using s(1) keeps_clear [of w' d fl w] by (auto simp: serial_ready_def)
  next
    case False
    then show ?thesis using s m by (auto simp: serial_ready_def keeps_open_def)
  qed
qed

lemma serial_close_tx_keeps:
  assumes m: "serial_mem h0 d w live" and o: "serial_close_tx ops d w = Some (r, w')"
  shows "r = Done () \<and> serial_ready h0 d w' \<and> keeps_device d w w' \<and> keeps_open d w w'"
proof -
  have s: "r = Done ()" "if has_open_flag d RT_DEVICE_FLAG_INT_TX w \<or> has_open_flag d RT_DEVICE_FLAG_DMA_TX w
         then \<exists>p fl. tx_address (serial_tx (serial_of w d)) = Some p \<and> fl \<in> {RT_DEVICE_FLAG_INT_TX, RT_DEVICE_FLAG_DMA_TX} \<and>
           serial_tx (serial_of w' d) = Tx_none \<and> dev_kernel w' = dev_kernel (clear_open_flag d fl w) \<and> serial_mem h0 d w' (live(p := None))
         else w' = w"
    using serial_close_tx_ok [OF m, of ops, unfolded o option.case prod.case] by blast+
  show ?thesis
  proof (cases "has_open_flag d RT_DEVICE_FLAG_INT_TX w \<or> has_open_flag d RT_DEVICE_FLAG_DMA_TX w")
    case True
    then obtain p fl where "fl \<in> {RT_DEVICE_FLAG_INT_TX, RT_DEVICE_FLAG_DMA_TX}" "dev_kernel w' = dev_kernel (clear_open_flag d fl w)"
      "serial_mem h0 d w' (live(p := None))" using s(2) by auto
    then show ?thesis using s(1) keeps_clear [of w' d fl w] by (auto simp: serial_ready_def)
  next
    case False
    then show ?thesis using s m by (auto simp: serial_ready_def keeps_open_def)
  qed
qed

lemma rt_serial_close_keeps:
  assumes m: "serial_mem h0 d w live" and o: "rt_serial_close ops d w = Some (r, w')"
  shows "serial_ready h0 d w' \<and> keeps_device d w w' \<and> keeps_open d w w'"
proof (cases "ref_count (device_of w d) > 1")
  case True
  then show ?thesis using o m by (auto simp: rt_serial_close_def serial_ready_def keeps_open_def)
next
  case False
  let ?G = "\<lambda>w1. Option.bind (serial_close_tx ops d w1) (\<lambda>(r2, w2). Some (case r2 of Waits \<Rightarrow> Waits | Done _ \<Rightarrow> Done RT_EOK, w2))"
  have "Option.bind (serial_close_rx ops d w) (\<lambda>(r, w1). case r of Waits \<Rightarrow> Some (Waits, w1) | Done _ \<Rightarrow> ?G w1) = Some (r, w')"
    using o unfolding rt_serial_close_def if_not_P [OF False] .
  then obtain r1 w1 where 1: "serial_close_rx ops d w = Some (r1, w1)" "(case r1 of Waits \<Rightarrow> Some (Waits, w1) | Done _ \<Rightarrow> ?G w1) = Some (r, w')"
    by (rule bind_pairE)
  note k1 = serial_close_rx_keeps [OF m 1(1)]
  obtain live1 where m1: "serial_mem h0 d w1 live1" using k1 by (auto simp: serial_ready_def)
  have "?G w1 = Some (r, w')" using 1(2) k1 by simp
  then obtain r2 w2 where 2: "serial_close_tx ops d w1 = Some (r2, w2)"
    "Some (case r2 of Waits \<Rightarrow> Waits | Done _ \<Rightarrow> Done RT_EOK, w2) = Some (r, w')" by (rule bind_pairE)
  show ?thesis using k1 serial_close_tx_keeps [OF m1 2(1)] 2(2) by (auto simp: keeps_device_def keeps_open_def)
qed

subsection \<open>The serial driver keeps the contract of the devices\<close>

lemma rt_serial_init_keeps:
  assumes "serial_mem h0 d w live" "rt_serial_init ops d w = Some (r, w')"
  shows "serial_ready h0 d w' \<and> keeps_device d w w' \<and> keeps_open d w w'"
proof -
  let ?w = "set_tx d Tx_none (set_rx d Rx_none w)"
  have m: "serial_mem h0 d ?w live" using assms(1) by (simp add: serial_mem_def serial_blocks_def)
  have "fst w' = fst ?w \<and> dev_kernel w' = dev_kernel ?w \<and> serial_of w' d = serial_of ?w d"
  proof (cases "uart_configure ops")
    case None
    then show ?thesis using assms(2) by (simp add: rt_serial_init_def Let_def)
  next
    case (Some f)
    obtain e w2 where e: "on_hardware (f d (serial_config (serial_of ?w d))) ?w = (e, w2)" by (rule prod.exhaust)
    then have "w' = snd (on_hardware (f d (serial_config (serial_of ?w d))) ?w)" using assms(2) Some by (simp add: rt_serial_init_def Let_def)
    then show ?thesis by simp
  qed
  then show ?thesis using m by (auto simp: serial_mem_def serial_ready_def keeps_device_def keeps_open_def device_of_def)
qed

lemma rt_serial_open_keeps:
  assumes m: "serial_mem h0 d w live" and o: "rt_serial_open ops junk d oflag w = Some (r, w')"
  shows "serial_ready h0 d w' \<and> keeps_device d w w' \<and> (\<not> done_ok r \<longrightarrow> keeps_open d w w')"
proof (cases rule: serial_open_cases [OF m o])
  case 1
  then show ?thesis using m by (auto simp: serial_ready_def keeps_open_def)
next
  case (2 w2 live2 w3 st)
  obtain live3 where "serial_mem h0 d w3 live3" "keeps_device d w2 w3" by (rule tx_opened_mem [OF 2(5,8)]) blast
  moreover have "serial_mem h0 d (or_open_flag d st w3) live3 = serial_mem h0 d w3 live3" by (simp add: or_open_flag_def)
  ultimately show ?thesis using 2(1,2,7) keeps_device_or [of d w3 d st] by (auto simp: serial_ready_def keeps_device_def)
qed

lemma serial_driver_keeps:
  assumes "serial_ready h0 d w"
  shows "rt_serial_init ops d w = Some (r, w') \<Longrightarrow> serial_ready h0 d w' \<and> keeps_device d w w' \<and> keeps_open d w w'"
    "rt_serial_open ops junk d oflag w = Some (r, w') \<Longrightarrow> serial_ready h0 d w' \<and> keeps_device d w w' \<and> (\<not> done_ok r \<longrightarrow> keeps_open d w w')"
    "rt_serial_close ops d w = Some (r, w') \<Longrightarrow> serial_ready h0 d w' \<and> keeps_device d w w' \<and> keeps_open d w w'"
proof -
  obtain live where m: "serial_mem h0 d w live" using assms by (auto simp: serial_ready_def)
  show "rt_serial_init ops d w = Some (r, w') \<Longrightarrow> serial_ready h0 d w' \<and> keeps_device d w w' \<and> keeps_open d w w'"
    "rt_serial_open ops junk d oflag w = Some (r, w') \<Longrightarrow> serial_ready h0 d w' \<and> keeps_device d w w' \<and> (\<not> done_ok r \<longrightarrow> keeps_open d w w')"
    "rt_serial_close ops d w = Some (r, w') \<Longrightarrow> serial_ready h0 d w' \<and> keeps_device d w w' \<and> keeps_open d w w'"
    using rt_serial_init_keeps [OF m] rt_serial_open_keeps [OF m] rt_serial_close_keeps [OF m] by blast+
qed

interpretation serial: device_driver "serial_ops ops junk fionread" "serial_ready h0" for ops junk fionread h0
proof unfold_locales
  show "serial_ready h0 d (upd_device d c w) = serial_ready h0 d w" for c d w by (simp add: serial_ready_def)
qed (auto simp: serial_ops_def dest: serial_driver_keeps)

subsection \<open>Opening and closing again\<close>

definition rx_modes :: "u16 \<Rightarrow> bool" where
  "rx_modes x \<longleftrightarrow> x AND RT_DEVICE_FLAG_INT_RX \<noteq> 0 \<or> x AND RT_DEVICE_FLAG_DMA_RX \<noteq> 0"

definition tx_modes :: "u16 \<Rightarrow> bool" where
  "tx_modes x \<longleftrightarrow> x AND RT_DEVICE_FLAG_INT_TX \<noteq> 0 \<or> x AND RT_DEVICE_FLAG_DMA_TX \<noteq> 0"

lemma modes_or: "rx_modes (x OR y) \<longleftrightarrow> rx_modes x \<or> rx_modes y" "tx_modes (x OR y) \<longleftrightarrow> tx_modes x \<or> tx_modes y"
  by (auto simp: rx_modes_def tx_modes_def bit.conj_disj_distrib2 or_eq_zero)

lemma modes_low: "\<not> rx_modes (x AND 0xff)" "\<not> tx_modes (x AND 0xff)"
  by (simp_all add: rx_modes_def tx_modes_def and.assoc)

lemma mode_flag_modes:
  "rx_modes (mode_flag RT_DEVICE_FLAG_INT_RX RT_DEVICE_FLAG_DMA_RX x) \<longleftrightarrow> mode_flag RT_DEVICE_FLAG_INT_RX RT_DEVICE_FLAG_DMA_RX x \<noteq> 0"
  "tx_modes (mode_flag RT_DEVICE_FLAG_INT_TX RT_DEVICE_FLAG_DMA_TX x) \<longleftrightarrow> mode_flag RT_DEVICE_FLAG_INT_TX RT_DEVICE_FLAG_DMA_TX x \<noteq> 0"
  "\<not> rx_modes (mode_flag RT_DEVICE_FLAG_INT_TX RT_DEVICE_FLAG_DMA_TX x)"
  "\<not> tx_modes (mode_flag RT_DEVICE_FLAG_INT_RX RT_DEVICE_FLAG_DMA_RX x)"
  by (simp_all add: rx_modes_def tx_modes_def mode_flag_def)

lemma closed_rx:
  assumes m: "serial_mem h0 d w live" and agree: "rx_modes (open_flag (device_of w d)) \<longleftrightarrow> serial_rx (serial_of w d) \<noteq> Rx_none"
  obtains w' where "serial_close_rx ops d w = Some (Done (), w')" "serial_rx (serial_of w' d) = Rx_none"
    "serial_tx (serial_of w' d) = serial_tx (serial_of w d)"
    "serial_mem h0 d w' (case rx_address (serial_rx (serial_of w d)) of None \<Rightarrow> live | Some p \<Rightarrow> live(p := None))"
    "keeps_device d w w'" "tx_modes (open_flag (device_of w' d)) = tx_modes (open_flag (device_of w d))"
proof -
  have f: "has_open_flag d RT_DEVICE_FLAG_INT_RX w \<or> has_open_flag d RT_DEVICE_FLAG_DMA_RX w \<longleftrightarrow> rx_modes (open_flag (device_of w d))"
    by (simp add: has_open_flag_def rx_modes_def)
  note ok = serial_close_rx_ok [OF m, of ops, unfolded f]
  then obtain r w' where w': "serial_close_rx ops d w = Some (r, w')" using agree by (cases "serial_close_rx ops d w") auto
  show ?thesis
  proof (cases "rx_modes (open_flag (device_of w d))")
    case True
    then obtain p fl where "r = Done ()" "serial_tx (serial_of w' d) = serial_tx (serial_of w d)" "rx_address (serial_rx (serial_of w d)) = Some p"
      "fl \<in> {RT_DEVICE_FLAG_INT_RX, RT_DEVICE_FLAG_DMA_RX}" "serial_rx (serial_of w' d) = Rx_none"
      "dev_kernel w' = dev_kernel (clear_open_flag d fl w)" "serial_mem h0 d w' (live(p := None))"
      using ok unfolding w' by auto
    moreover from this have "tx_modes (open_flag (device_of w' d)) = tx_modes (open_flag (device_of w d))"
      by (auto simp: device_of_def clear_open_flag_def upd_dev_def tx_modes_def and.assoc)
    ultimately show ?thesis using that [of w'] w' keeps_clear(1) [of w' d fl w] by simp
  next
    case False
    then have "serial_rx (serial_of w d) = Rx_none" using agree by simp
    then show ?thesis using False ok m that [of w'] unfolding w' by simp
  qed
qed

lemma closed_tx:
  assumes m: "serial_mem h0 d w live" and agree: "tx_modes (open_flag (device_of w d)) \<longleftrightarrow> serial_tx (serial_of w d) \<noteq> Tx_none"
  obtains w' where "serial_close_tx ops d w = Some (Done (), w')" "serial_tx (serial_of w' d) = Tx_none"
    "serial_rx (serial_of w' d) = serial_rx (serial_of w d)"
    "serial_mem h0 d w' (case tx_address (serial_tx (serial_of w d)) of None \<Rightarrow> live | Some p \<Rightarrow> live(p := None))"
    "keeps_device d w w'" "rx_modes (open_flag (device_of w' d)) = rx_modes (open_flag (device_of w d))"
proof -
  have f: "has_open_flag d RT_DEVICE_FLAG_INT_TX w \<or> has_open_flag d RT_DEVICE_FLAG_DMA_TX w \<longleftrightarrow> tx_modes (open_flag (device_of w d))"
    by (simp add: has_open_flag_def tx_modes_def)
  note ok = serial_close_tx_ok [OF m, of ops, unfolded f]
  then obtain r w' where w': "serial_close_tx ops d w = Some (r, w')" using agree by (cases "serial_close_tx ops d w") auto
  show ?thesis
  proof (cases "tx_modes (open_flag (device_of w d))")
    case True
    then obtain p fl where "r = Done ()" "serial_rx (serial_of w' d) = serial_rx (serial_of w d)" "tx_address (serial_tx (serial_of w d)) = Some p"
      "fl \<in> {RT_DEVICE_FLAG_INT_TX, RT_DEVICE_FLAG_DMA_TX}" "serial_tx (serial_of w' d) = Tx_none"
      "dev_kernel w' = dev_kernel (clear_open_flag d fl w)" "serial_mem h0 d w' (live(p := None))"
      using ok unfolding w' by auto
    moreover from this have "rx_modes (open_flag (device_of w' d)) = rx_modes (open_flag (device_of w d))"
      by (auto simp: device_of_def clear_open_flag_def upd_dev_def rx_modes_def and.assoc)
    ultimately show ?thesis using that [of w'] w' keeps_clear(1) [of w' d fl w] by simp
  next
    case False
    then have "serial_tx (serial_of w d) = Tx_none" using agree by simp
    then show ?thesis using False ok m that [of w'] unfolding w' by simp
  qed
qed

definition taken_back :: "u32 option \<Rightarrow> (u32 \<Rightarrow> nat option) \<Rightarrow> (u32 \<Rightarrow> nat option)" where
  "taken_back a live = (case a of None \<Rightarrow> live | Some p \<Rightarrow> live(p := None))"

lemma rt_serial_close_total:
  assumes m: "serial_mem h0 d w live" and z: "ref_count (device_of w d) = 0"
    and rx: "rx_modes (open_flag (device_of w d)) \<longleftrightarrow> serial_rx (serial_of w d) \<noteq> Rx_none"
    and tx: "tx_modes (open_flag (device_of w d)) \<longleftrightarrow> serial_tx (serial_of w d) \<noteq> Tx_none"
  obtains w' where "rt_serial_close ops d w = Some (Done RT_EOK, w')" "serial_rx (serial_of w' d) = Rx_none" "serial_tx (serial_of w' d) = Tx_none"
    "keeps_device d w w'"
    "heap_run h0 (fst (fst w')) (taken_back (tx_address (serial_tx (serial_of w d))) (taken_back (rx_address (serial_rx (serial_of w d))) live))"
proof -
  obtain w1 where 1: "serial_close_rx ops d w = Some (Done (), w1)" "serial_rx (serial_of w1 d) = Rx_none"
    "serial_tx (serial_of w1 d) = serial_tx (serial_of w d)"
    "serial_mem h0 d w1 (case rx_address (serial_rx (serial_of w d)) of None \<Rightarrow> live | Some p \<Rightarrow> live(p := None))"
    "keeps_device d w w1" "tx_modes (open_flag (device_of w1 d)) = tx_modes (open_flag (device_of w d))"
    by (rule closed_rx [OF m rx])
  have tx1: "tx_modes (open_flag (device_of w1 d)) \<longleftrightarrow> serial_tx (serial_of w1 d) \<noteq> Tx_none" using tx 1(3,6) by simp
  obtain w2 where 2: "serial_close_tx ops d w1 = Some (Done (), w2)" "serial_tx (serial_of w2 d) = Tx_none"
    "serial_rx (serial_of w2 d) = serial_rx (serial_of w1 d)" "keeps_device d w1 w2"
    "serial_mem h0 d w2 (case tx_address (serial_tx (serial_of w1 d)) of
        None \<Rightarrow> (case rx_address (serial_rx (serial_of w d)) of None \<Rightarrow> live | Some p \<Rightarrow> live(p := None))
      | Some q \<Rightarrow> (case rx_address (serial_rx (serial_of w d)) of None \<Rightarrow> live | Some p \<Rightarrow> live(p := None))(q := None))"
    by (rule closed_tx [OF 1(4) tx1])
  show ?thesis
  proof (rule that [of w2])
    show "rt_serial_close ops d w = Some (Done RT_EOK, w2)" using z 1(1) 2(1) by (simp add: rt_serial_close_def)
    show "keeps_device d w w2" using 1(5) 2(4) by (rule keeps_device_trans)
    show "heap_run h0 (fst (fst w2)) (taken_back (tx_address (serial_tx (serial_of w d))) (taken_back (rx_address (serial_rx (serial_of w d))) live))"
      using 2(5) 1(3) by (simp add: serial_mem_def taken_back_def)
  qed (use 1(2) 2(2,3) in simp_all)
qed

lemma blocks_taken_back:
  assumes rx: "if rx = Rx_none then mid = live else \<exists>p l. rx_address rx = Some p \<and> p \<notin> dom live \<and> mid = live(p \<mapsto> l)"
    and tx: "if tx = Tx_none then end_live = mid else \<exists>p l. tx_address tx = Some p \<and> p \<notin> dom mid \<and> items_live tx (mid(p \<mapsto> l)) end_live"
  shows "\<exists>live1. items_live tx live live1 \<and> taken_back (tx_address tx) (taken_back (rx_address rx) end_live) = live1"
proof (cases "tx = Tx_none")
  case True
  then show ?thesis using assms by (auto simp: items_live_def taken_back_def split: if_splits)
next
  case False
  then obtain p l where p: "tx_address tx = Some p" "p \<notin> dom mid" "items_live tx (mid(p \<mapsto> l)) end_live" using tx by auto
  have rx_back: "(taken_back (rx_address rx) (mid(p \<mapsto> l)))(p := None) = live"
    using rx p(2) by (cases "rx = Rx_none") (auto simp: taken_back_def fun_eq_iff domIff split: if_split_asm)
  have more: "(taken_back (rx_address rx) (mid(p \<mapsto> l, p' \<mapsto> l')))(p := None) = live(p' \<mapsto> l') \<and> p' \<notin> dom live"
    if "p' \<notin> dom (mid(p \<mapsto> l))" for p' l'
    using rx p(2) that by (auto simp: taken_back_def fun_eq_iff split: if_splits)
  show ?thesis
  proof (cases "\<exists>a b q. tx = Tx_dma a b q \<and> dq_items q \<noteq> []")
    case True
    then have i: "items_live tx lv lv' = (\<exists>q m. q \<notin> dom lv \<and> lv' = lv(q \<mapsto> m))" for lv lv' by (elim exE conjE) (simp add: items_live_def)
    then obtain p' l' where "p' \<notin> dom (mid(p \<mapsto> l))" "end_live = mid(p \<mapsto> l, p' \<mapsto> l')" using p(3) by blast
    then show ?thesis using more [of p' l'] p(1) unfolding i by (auto simp: taken_back_def)
  next
    case False
    then have i: "items_live tx lv lv' \<longleftrightarrow> lv' = lv" for lv lv' by (auto simp: items_live_def split: serial_tx_struct.splits)
    then show ?thesis using rx_back p(1,3) by (simp add: taken_back_def)
  qed
qed

text \<open>The open flags after a successful opening of a closed device name the structures that exist.\<close>

lemma serial_opened_closed:
  assumes m: "serial_mem h0 d w live" and none: "serial_rx (serial_of w d) = Rx_none" "serial_tx (serial_of w d) = Tx_none"
    and o: "rt_serial_open ops junk d oflag w = Some (Done RT_EOK, w')"
  obtains live1 live3 where "serial_mem h0 d w' live3" "keeps_device d w w'"
    "rx_modes (open_flag (device_of w' d)) \<longleftrightarrow> serial_rx (serial_of w' d) \<noteq> Rx_none"
    "tx_modes (open_flag (device_of w' d)) \<longleftrightarrow> serial_tx (serial_of w' d) \<noteq> Tx_none"
    "items_live (serial_tx (serial_of w' d)) live live1"
    "taken_back (tx_address (serial_tx (serial_of w' d))) (taken_back (rx_address (serial_rx (serial_of w' d))) live3) = live1"
proof (cases rule: serial_open_cases [OF m o])
  case 1
  then show ?thesis by simp
next
  case (2 w2 live2 w3 st)
  let ?w = "upd_device d (\<lambda>dv. dv\<lparr>open_flag := oflag AND 0xff\<rparr>) w"
  let ?r = "mode_flag RT_DEVICE_FLAG_INT_RX RT_DEVICE_FLAG_DMA_RX oflag" and ?t = "mode_flag RT_DEVICE_FLAG_INT_TX RT_DEVICE_FLAG_DMA_TX oflag"
  obtain live3 where l3: "serial_mem h0 d w3 live3" "keeps_device d w2 w3" "tx_live d oflag w2 w3 live2 live3"
    by (rule tx_opened_mem [OF 2(5,8)])
  have k2: "dev_kernel w2 = dev_kernel (or_open_flag d ?r ?w)" "serial_tx (serial_of w2 d) = Tx_none"
    "serial_rx (serial_of w2 d) \<noteq> Rx_none \<longleftrightarrow> ?r \<noteq> 0"
    using 2(4) none by (auto simp: rx_opened_def Let_def split: if_splits)
  note t = 2(8) [unfolded tx_opened_def Let_def]
  obtain qs where qs: "dev_kernel w3 = dev_kernel (or_open_flag d ?t w2)\<lparr>queues := qs\<rparr>" using t by blast
  have "serial_tx (serial_of w3 d) \<noteq> Tx_none \<longleftrightarrow> ?t \<noteq> 0" using t k2(2) by (auto split: if_splits)
  with qs t have k3: "dev_kernel w3 = dev_kernel (or_open_flag d ?t w2)\<lparr>queues := qs\<rparr>"
    "serial_rx (serial_of w3 d) = serial_rx (serial_of w2 d)" "serial_tx (serial_of w3 d) \<noteq> Tx_none \<longleftrightarrow> ?t \<noteq> 0" by blast+
  have "open_flag (device_of w' d) = (((oflag AND 0xff) OR ?r) OR ?t) OR st"
    using k2(1) k3(1) by (simp add: 2(2) device_of_def upd_dev_def or.assoc)
  then have modes: "rx_modes (open_flag (device_of w' d)) \<longleftrightarrow> ?r \<noteq> 0" "tx_modes (open_flag (device_of w' d)) \<longleftrightarrow> ?t \<noteq> 0"
    using 2(3) by (auto simp: modes_or modes_low mode_flag_modes) (auto simp: rx_modes_def tx_modes_def)
  have w': "serial_of w' d = serial_of w3 d" by (simp add: 2(2))
  have "\<exists>live1. items_live (serial_tx (serial_of w3 d)) live live1 \<and>
     taken_back (tx_address (serial_tx (serial_of w3 d))) (taken_back (rx_address (serial_rx (serial_of w3 d))) live3) = live1"
  proof (rule blocks_taken_back)
    have "serial_rx (serial_of w3 d) = Rx_none \<longleftrightarrow> ?r = 0" "serial_tx (serial_of w3 d) = Tx_none \<longleftrightarrow> ?t = 0" using k2(3) k3(2,3) by simp_all
    then show "if serial_rx (serial_of w3 d) = Rx_none then live2 = live
        else \<exists>p l. rx_address (serial_rx (serial_of w3 d)) = Some p \<and> p \<notin> dom live \<and> live2 = live(p \<mapsto> l)"
      "if serial_tx (serial_of w3 d) = Tx_none then live3 = live2
        else \<exists>p l. tx_address (serial_tx (serial_of w3 d)) = Some p \<and> p \<notin> dom live2 \<and> items_live (serial_tx (serial_of w3 d)) (live2(p \<mapsto> l)) live3"
      using 2(6) l3(3) by (cases "?r = 0"; cases "?t = 0"; simp add: rx_live_def tx_live_def none k2(2) k3(2))+
  qed
  then obtain live1 where l1: "items_live (serial_tx (serial_of w3 d)) live live1"
     "taken_back (tx_address (serial_tx (serial_of w3 d))) (taken_back (rx_address (serial_rx (serial_of w3 d))) live3) = live1" by blast
  show ?thesis
  proof (rule that [of live3 live1])
    show "serial_mem h0 d w' live3" using l3(1) by (simp add: 2(2) or_open_flag_def)
    show "keeps_device d w w'" using 2(7) l3(2) keeps_device_or [of d w3 d st] keeps_device_trans unfolding 2(2) by blast
    show "rx_modes (open_flag (device_of w' d)) \<longleftrightarrow> serial_rx (serial_of w' d) \<noteq> Rx_none" using modes(1) k2(3) k3(2) w' by simp
    show "tx_modes (open_flag (device_of w' d)) \<longleftrightarrow> serial_tx (serial_of w' d) \<noteq> Tx_none" using modes(2) k3(3) w' by simp
  qed (use l1 w' in simp_all)
qed

text \<open>An activated serial device that is opened: the counting is around \<open>rt_serial_open\<close>.\<close>

definition one_opening :: "rt_device \<Rightarrow> rt_device" where
  "one_opening dv = dv\<lparr>open_flag := open_flag dv OR RT_DEVICE_OFLAG_OPEN, ref_count := ref_count dv + 1\<rparr>"

lemma device_open_serial:
  assumes "is_device (dev_kernel w) d" "dev_flag (device_of w d) AND RT_DEVICE_FLAG_ACTIVATED \<noteq> 0" "drv d = serial_ops ops junk fionread"
    and "rt_device_open drv d oflag w = Some (Done RT_EOK, w1)"
  obtains w0 where "rt_serial_open ops junk d oflag w = Some (Done RT_EOK, w0)" "w1 = upd_device d one_opening w0"
proof -
  have "dev_flag (device_of w d) AND RT_DEVICE_FLAG_STANDALONE = 0 \<or> open_flag (device_of w d) AND RT_DEVICE_OFLAG_OPEN = 0" (is ?alone)
  proof (rule ccontr)
    assume "\<not> ?alone"
    then show False using assms by (simp add: rt_device_open_def open_activate_def open_counted_def require_def)
  qed
  then have "Option.bind (rt_serial_open ops junk d oflag w) (\<lambda>(r, w1). if done_ok r
      then Option.bind (require (ref_count (device_of w1 d) + 1 \<noteq> 0)) (\<lambda>_. Some (r, upd_device d one_opening w1)) else Some (r, w1)) = Some (Done RT_EOK, w1)"
    using assms
    by (auto simp: rt_device_open_def open_activate_def open_counted_def call_open_def serial_ops_def Let_def require_def one_opening_def [abs_def] cong: if_cong)
  then show ?thesis by (rule bind_pairE) (auto simp: require_def intro: that split: if_splits)
qed

text \<open>What a first opening has set: the structures by way of the two parts, and the flags of the modes.\<close>

lemma device_opened:
  assumes "serial_mem h0 d w live" "serial_rx (serial_of w d) = Rx_none" "serial_tx (serial_of w d) = Tx_none"
    and "is_device (dev_kernel w) d" "ref_count (device_of w d) = 0" "dev_flag (device_of w d) AND RT_DEVICE_FLAG_ACTIVATED \<noteq> 0"
    and "drv d = serial_ops ops junk fionread" "rt_device_open drv d oflag w = Some (Done RT_EOK, w1)"
  obtains w2 w3 live2 where
    "serial_open_rx ops d oflag (upd_device d (\<lambda>dv. dv\<lparr>open_flag := oflag AND 0xff\<rparr>) w) = Some (Done (), w2)"
    "serial_mem h0 d w2 live2" "serial_open_tx ops junk d oflag w2 = Some (Done (), w3)" "serial_tx (serial_of w2 d) = Tx_none"
    "serial_rx (serial_of w1 d) = serial_rx (serial_of w2 d)" "serial_tx (serial_of w1 d) = serial_tx (serial_of w3 d)"
    "serial_bufsz w1 d = serial_bufsz w d" "ref_count (device_of w1 d) = 1" "is_device (dev_kernel w1) d"
    "has_open_flag d RT_DEVICE_FLAG_INT_RX w1 \<longleftrightarrow> oflag AND RT_DEVICE_FLAG_INT_RX \<noteq> 0"
    "has_open_flag d RT_DEVICE_FLAG_DMA_RX w1 \<longleftrightarrow> oflag AND RT_DEVICE_FLAG_INT_RX = 0 \<and> oflag AND RT_DEVICE_FLAG_DMA_RX \<noteq> 0"
    "has_open_flag d RT_DEVICE_FLAG_INT_TX w1 \<longleftrightarrow> oflag AND RT_DEVICE_FLAG_INT_TX \<noteq> 0"
    "has_open_flag d RT_DEVICE_FLAG_DMA_TX w1 \<longleftrightarrow> oflag AND RT_DEVICE_FLAG_INT_TX = 0 \<and> oflag AND RT_DEVICE_FLAG_DMA_TX \<noteq> 0"
proof -
  let ?w = "upd_device d (\<lambda>dv. dv\<lparr>open_flag := oflag AND 0xff\<rparr>) w"
  let ?r = "mode_flag RT_DEVICE_FLAG_INT_RX RT_DEVICE_FLAG_DMA_RX oflag" and ?t = "mode_flag RT_DEVICE_FLAG_INT_TX RT_DEVICE_FLAG_DMA_TX oflag"
  obtain w0 where w0: "rt_serial_open ops junk d oflag w = Some (Done RT_EOK, w0)" "w1 = upd_device d one_opening w0"
    by (rule device_open_serial [OF assms(4,6-8)])
  have keep: "keeps_device d w w0" by (rule serial_opened_closed [OF assms(1-3) w0(1)])
  show ?thesis
  proof (cases rule: serial_open_cases [OF assms(1) w0(1)])
    case 1
    then show ?thesis by simp
  next
    case (2 w2 live2 w3 st)
    have k2: "dev_kernel w2 = dev_kernel (or_open_flag d ?r ?w)" "serial_config (serial_of w2 d) = serial_config (serial_of w d)"
      "serial_tx (serial_of w2 d) = Tx_none"
      using 2(4) assms(3) by (auto simp: rx_opened_def Let_def)
    obtain qs where k3: "dev_kernel w3 = dev_kernel (or_open_flag d ?t w2)\<lparr>queues := qs\<rparr>" "serial_rx (serial_of w3 d) = serial_rx (serial_of w2 d)"
      "serial_config (serial_of w3 d) = serial_config (serial_of w2 d)"
      using 2(8) by (auto simp: tx_opened_def Let_def)
    have fl: "open_flag (device_of w1 d) = ((((oflag AND 0xff) OR ?r) OR ?t) OR st) OR RT_DEVICE_OFLAG_OPEN"
      using k2(1) k3(1) by (simp add: 2(2) w0(2) device_of_def upd_dev_def or.assoc one_opening_def)
    note flags = has_open_flag_def fl bit.conj_disj_distrib2 or_eq_zero and.assoc mode_flag_def
    show ?thesis
    proof (rule that [OF 2(9) 2(5) 2(10) k2(3)])
      show "serial_rx (serial_of w1 d) = serial_rx (serial_of w2 d)" "serial_tx (serial_of w1 d) = serial_tx (serial_of w3 d)"
        "serial_bufsz w1 d = serial_bufsz w d"
        using k3(2,3) k2(2) by (simp_all add: 2(2) w0(2) serial_bufsz_def)
      show "ref_count (device_of w1 d) = 1" "is_device (dev_kernel w1) d"
        using keep assms(4,5) by (simp_all add: w0(2) one_opening_def keeps_device_def)
      show "has_open_flag d RT_DEVICE_FLAG_INT_RX w1 \<longleftrightarrow> oflag AND RT_DEVICE_FLAG_INT_RX \<noteq> 0"
        "has_open_flag d RT_DEVICE_FLAG_DMA_RX w1 \<longleftrightarrow> oflag AND RT_DEVICE_FLAG_INT_RX = 0 \<and> oflag AND RT_DEVICE_FLAG_DMA_RX \<noteq> 0"
        "has_open_flag d RT_DEVICE_FLAG_INT_TX w1 \<longleftrightarrow> oflag AND RT_DEVICE_FLAG_INT_TX \<noteq> 0"
        "has_open_flag d RT_DEVICE_FLAG_DMA_TX w1 \<longleftrightarrow> oflag AND RT_DEVICE_FLAG_INT_TX = 0 \<and> oflag AND RT_DEVICE_FLAG_DMA_TX \<noteq> 0"
        using 2(3) by (auto simp: flags)
    qed
  qed
qed

text \<open>C34: Opening a serial device that has no structures and closing it again gives the blocks of both
  directions back to the heap, whatever modes it was opened for; but the items of the data queue,
  allocated in a DMA transmit opening, are not released: that block stays handed out for ever.\<close>

theorem serial_open_close_memory:
  assumes "serial_mem h0 d w live" "serial_rx (serial_of w d) = Rx_none" "serial_tx (serial_of w d) = Tx_none"
    and "is_device (dev_kernel w) d" "ref_count (device_of w d) = 0" "dev_flag (device_of w d) AND RT_DEVICE_FLAG_ACTIVATED \<noteq> 0"
    and "drv d = serial_ops ops junk fionread" "rt_device_open drv d oflag w = Some (Done RT_EOK, w1)"
  shows "\<exists>w2 live'. rt_device_close drv d w1 = Some (Done RT_EOK, w2) \<and> heap_run h0 (fst (fst w2)) live' \<and>
    (case serial_tx (serial_of w1 d) of
       Tx_dma _ _ q \<Rightarrow> if dq_items q = [] then live' = live else \<exists>p n. p \<notin> dom live \<and> live' = live(p \<mapsto> n)
     | _ \<Rightarrow> live' = live) \<and>
    serial_rx (serial_of w2 d) = Rx_none \<and> serial_tx (serial_of w2 d) = Tx_none \<and>
    ref_count (device_of w2 d) = 0 \<and> open_flag (device_of w2 d) = 0"
proof -
  let ?less = "upd_device d (\<lambda>dv :: rt_device. dv\<lparr>ref_count := ref_count dv - 1\<rparr>)"
  obtain w0 where w0: "rt_serial_open ops junk d oflag w = Some (Done RT_EOK, w0)" "w1 = upd_device d one_opening w0"
    by (rule device_open_serial [OF assms(4,6-8)])
  obtain live1 live3 where 0: "serial_mem h0 d w0 live3" "keeps_device d w w0"
    "rx_modes (open_flag (device_of w0 d)) \<longleftrightarrow> serial_rx (serial_of w0 d) \<noteq> Rx_none"
    "tx_modes (open_flag (device_of w0 d)) \<longleftrightarrow> serial_tx (serial_of w0 d) \<noteq> Tx_none"
    "items_live (serial_tx (serial_of w0 d)) live live1"
    "taken_back (tx_address (serial_tx (serial_of w0 d))) (taken_back (rx_address (serial_rx (serial_of w0 d))) live3) = live1"
    by (rule serial_opened_closed [OF assms(1-3) w0(1)])
  have n: "ref_count (device_of w0 d) = 0" "is_device (dev_kernel w0) d" using 0(2) assms(4,5) by (simp_all add: keeps_device_def)
  let ?w = "?less w1"
  have m: "serial_mem h0 d ?w live3" "ref_count (device_of ?w d) = 0" using 0(1) n by (simp_all add: w0(2) one_opening_def)
  have agree: "rx_modes (open_flag (device_of ?w d)) \<longleftrightarrow> serial_rx (serial_of ?w d) \<noteq> Rx_none"
     "tx_modes (open_flag (device_of ?w d)) \<longleftrightarrow> serial_tx (serial_of ?w d) \<noteq> Tx_none"
    using 0(3,4) by (simp_all add: w0(2) one_opening_def modes_or) (simp_all add: rx_modes_def tx_modes_def)
  obtain w2 where w2: "rt_serial_close ops d ?w = Some (Done RT_EOK, w2)" "serial_rx (serial_of w2 d) = Rx_none" "serial_tx (serial_of w2 d) = Tx_none"
    "keeps_device d ?w w2"
    "heap_run h0 (fst (fst w2)) (taken_back (tx_address (serial_tx (serial_of ?w d))) (taken_back (rx_address (serial_rx (serial_of ?w d))) live3))"
    by (rule rt_serial_close_total [OF m agree])
  have run: "heap_run h0 (fst (fst w2)) live1" using w2(5) 0(6) by (simp add: w0(2) one_opening_def)
  let ?last = "upd_device d (\<lambda>dv. dv\<lparr>open_flag := RT_DEVICE_OFLAG_CLOSE\<rparr>) w2"
  have "rt_device_close drv d w1 = Some (Done RT_EOK, ?last)"
    using w2(1) n m(2) assms(7) by (simp add: rt_device_close_def require_def w0(2) one_opening_def serial_ops_def Let_def)
  moreover have "ref_count (device_of w2 d) = 0" using w2(4) m(2) by (simp add: keeps_device_def)
  ultimately show ?thesis using w2(2,3) run 0(5)
    by (intro exI [of _ ?last] exI [of _ live1]) (simp add: items_live_def w0(2) one_opening_def)
qed

text \<open>C33: For a serial device, over every sequence of openings and closings with anything in between that
  keeps to the driver's contract, \<open>ref_count\<close> is the number of openings that were not closed; the
  device is marked open and activated while there are any, a stand-alone device has one at most;
  with none, reads and writes are refused with an error number and a closing fails; only the last
  closing reaches the driver.\<close>

theorem serial_openings_counted:
  assumes "device_run drv (serial_ready h0) d w0 w n" "drv d = serial_ops ops junk fionread" "serial_ready h0 d w0"
    and "is_device (dev_kernel w0) d" "ref_count (device_of w0 d) = 0"
  shows "unat (ref_count (device_of w d)) = n \<and>
    (0 < n \<longrightarrow> open_flag (device_of w d) AND RT_DEVICE_OFLAG_OPEN \<noteq> 0 \<and> dev_flag (device_of w d) AND RT_DEVICE_FLAG_ACTIVATED \<noteq> 0) \<and>
    (dev_flag (device_of w d) AND RT_DEVICE_FLAG_STANDALONE \<noteq> 0 \<longrightarrow> n \<le> 1) \<and>
    (n = 0 \<longrightarrow> rt_device_read drv d pos buffer sz w = Some (Done (0, []), map_kernel (rt_set_errno (- RT_ERROR)) w) \<and>
       rt_device_write drv d pos data sz w = Some (Done 0, map_kernel (rt_set_errno (- RT_ERROR)) w) \<and>
       rt_device_close drv d w = Some (Done (- RT_ERROR), w)) \<and>
    (1 < n \<longrightarrow> rt_device_close drv d w = Some (Done RT_EOK, upd_device d (\<lambda>dv. dv\<lparr>ref_count := ref_count dv - 1\<rparr>) w))"
proof -
  have "count_ok d w0 0" using assms(4,5) by (simp add: count_ok_def)
  then have c: "count_ok d w n" using serial.run_count [OF assms(1,2,3)] by simp
  then have u: "is_device (dev_kernel w) d" "unat (ref_count (device_of w d)) = n" by (simp_all add: count_ok_def)
  have z: "ref_count (device_of w d) = 0 \<longleftrightarrow> n = 0" using u(2) by (auto simp: unat_eq_zero)
  have "ref_count (device_of w d) - 1 \<noteq> 0" if "1 < n"
  proof
    assume "ref_count (device_of w d) - 1 = 0"
    then have "ref_count (device_of w d) = 1" by simp
    then show False using u(2) that by simp
  qed
  then show ?thesis using c u z
    by (simp add: count_ok_def rt_device_read_def rt_device_write_def rt_device_close_def require_def)
qed

subsection \<open>A port\<close>

text \<open>
  The hardware of the example has the bytes that arrive, the bytes that were sent one by one, and
  the transfers that were started.
\<close>

type_synonym port = "u8 list \<times> u8 list \<times> (u32 \<times> u32) list"

definition sample_uart :: "port rt_uart_ops" where
  "sample_uart = \<lparr>uart_configure = None, uart_control = (\<lambda>_ _ arg h. ((RT_EOK, arg), h)),
     uart_putc = (\<lambda>_ c (rx, tx, dma). (1, rx, tx @ [c], dma)),
     uart_getc = (\<lambda>_ (rx, tx, dma). case rx of [] \<Rightarrow> (-1, rx, tx, dma) | c # cs \<Rightarrow> (uint c, cs, tx, dma)),
     uart_dma_transmit = Some (\<lambda>_ p n _ (rx, tx, dma). (n, rx, tx, dma @ [(p, n)]))\<rparr>"

definition sample_config :: serial_configure where
  "sample_config = \<lparr>baud_rate = 115200, data_bits = 8, stop_bits = 0, parity = 0, bit_order = 0, invert = 0, bufsz = 4, reserved = 0\<rparr>"

definition sample_drv :: "nat \<Rightarrow> (port serial_state, serial_arg) dev_ops" where
  "sample_drv _ = serial_ops sample_uart (\<lambda>_. (0, 0)) 0x541B"

definition sample_port :: "port \<Rightarrow> port serial_world" where
  "sample_port p = ((sample_heap, upd_dev 0 (\<lambda>_. zero_device\<lparr>obj_type := 0x89, dev_flag := 0xF13\<rparr>) calm_sample),
     \<lparr>serials = (\<lambda>_. \<lparr>serial_config = sample_config, serial_rx = Rx_none, serial_tx = Tx_none\<rparr>), hardware = p\<rparr>)"

lemma sample_port_simps [simp]:
  "serial_of (sample_port p) d = \<lparr>serial_config = sample_config, serial_rx = Rx_none, serial_tx = Tx_none\<rparr>"
  "device_of (sample_port p) 0 = zero_device\<lparr>obj_type := 0x89, dev_flag := 0xF13\<rparr>" "is_device (dev_kernel (sample_port p)) 0"
  "hardware (snd (sample_port p)) = p" "heap_calm (dev_kernel (sample_port p))" "fst (fst (sample_port p)) = sample_heap"
  "serial_bufsz (sample_port p) d = 4"
  using calm_sample
  by (simp_all add: sample_port_def serial_of_def device_of_def upd_dev_def is_device_def rt_object_get_type_def serial_bufsz_def sample_config_def
      heap_calm_def obj_is_def)

lemma sample_port_mem: "serial_mem sample_heap d (sample_port p) Map.empty"
  using sample_heap_rep(1) heap_run.start by (simp add: serial_mem_def serial_blocks_def)

lemma serial_openings_counted_witness:
  "\<exists>w. rt_device_open sample_drv 0 3 (sample_port ([], [], [])) = Some (Done RT_EOK, w) \<and> ref_count (device_of w 0) = 1 \<and>
     open_flag (device_of w 0) AND RT_DEVICE_OFLAG_OPEN \<noteq> 0"
proof -
  obtain w where w: "rt_device_open sample_drv 0 3 (sample_port ([], [], [])) = Some (Done RT_EOK, w)" "dev_flag (device_of w 0) = 0xF13"
    by (simp add: rt_device_open_def open_activate_def open_counted_def call_open_def sample_drv_def serial_ops_def rt_serial_open_def
        open_flags_refused_def serial_open_rx_def serial_open_tx_def has_open_flag_def zero_device_def Let_def require_def or_open_flag_def)
  have r: "device_run sample_drv (serial_ready sample_heap) 0 (sample_port ([], [], [])) w 1"
    using device_run.opens [OF device_run.start w(1), of "serial_ready sample_heap"] w(2) by (simp add: opened_def)
  have "unat (ref_count (device_of w 0)) = 1 \<and> open_flag (device_of w 0) AND RT_DEVICE_OFLAG_OPEN \<noteq> 0"
    using serial_openings_counted [OF r, of sample_uart "\<lambda>_. (0, 0)" "0x541B"] sample_port_mem [of 0 "([], [], [])"]
    by (auto simp: sample_drv_def serial_ready_def zero_device_def)
  then have "ref_count (device_of w 0) = 1 \<and> open_flag (device_of w 0) AND RT_DEVICE_OFLAG_OPEN \<noteq> 0" by (simp add: word_unat_eq_iff)
  then show ?thesis using w(1) by blast
qed

lemma sample_opened:
  obtains w0 where "rt_device_open sample_drv 0 0x103 (sample_port p) = Some (Done RT_EOK, w0)" "hardware (snd w0) = p"
    "serial_rx (serial_of w0 0) \<noteq> Rx_none" "serial_tx (serial_of w0 0) = Tx_none"
proof -
  have n: "rt_align 16 = 16" by (simp add: rt_align_def)
  let ?w = "upd_device 0 (\<lambda>dv. dv\<lparr>open_flag := 3\<rparr>) (sample_port p)"
  have f: "fst ?w = (sample_heap, dev_kernel ?w)" "snd ?w = snd (sample_port p)" by (simp_all add: sample_port_def upd_device_def)
  have c: "heap_calm (dev_kernel ?w)" by simp
  obtain q h' where q: "rt_malloc 16 (sample_heap, dev_kernel ?w) = Some (Mem q, h', dev_kernel ?w)" "q \<noteq> 0"
    by (rule rt_malloc_room [OF sample_heap_rep c, of 16 84]) (simp_all add: n)
  then have a: "serial_alloc 16 ?w = Some (Done q, (h', dev_kernel ?w), snd (sample_port p))"
    by (simp add: serial_alloc_def f require_def)
  have h: "snd (uart_control sample_uart e cmd arg x) = x" for e cmd arg x by (simp add: sample_uart_def)
  obtain w1 where w1: "serial_open_rx sample_uart 0 0x103 ?w = Some (Done (), w1)"
    "serial_tx (serial_of w1 0) = Tx_none" "ref_count (device_of w1 0) = 0" "hardware (snd w1) = p" "serial_rx (serial_of w1 0) \<noteq> Rx_none"
    by (simp add: serial_open_rx_def a or_open_flag_def device_of_def upd_dev_def low_control_def h)
      (simp add: serial_of_def sample_port_def zero_device_def upd_dev_def)
  show ?thesis
    by (rule that [of "upd_device 0 one_opening (or_open_flag 0 0 w1)"])
      (use w1 in \<open>simp_all add: rt_device_open_def open_activate_def open_counted_def call_open_def sample_drv_def serial_ops_def rt_serial_open_def
        open_flags_refused_def serial_open_tx_def has_open_flag_def zero_device_def Let_def require_def one_opening_def [abs_def]\<close>)
qed

lemma serial_open_close_memory_witness:
  "\<exists>w1 w2. rt_device_open sample_drv 0 0x103 (sample_port ([], [], [])) = Some (Done RT_EOK, w1) \<and> serial_rx (serial_of w1 0) \<noteq> Rx_none \<and>
     rt_device_close sample_drv 0 w1 = Some (Done RT_EOK, w2) \<and> heap_run sample_heap (fst (fst w2)) Map.empty"
proof -
  obtain w1 where w1: "rt_device_open sample_drv 0 0x103 (sample_port ([], [], [])) = Some (Done RT_EOK, w1)" "serial_rx (serial_of w1 0) \<noteq> Rx_none"
    "serial_tx (serial_of w1 0) = Tx_none" by (rule sample_opened)
  from serial_open_close_memory [OF sample_port_mem [of 0 "([], [], [])"] _ _ _ _ _ _ w1(1), where ops = sample_uart and junk = "\<lambda>_. (0, 0)" and fionread = "0x541B"] w1
  show ?thesis by (auto simp: sample_drv_def zero_device_def)
qed

end
