(* ===== verification/SerialStream.thy ===== *)
theory SerialStream
  imports SerialProps "HOL-Library.Sublist"
begin

unbundle bit_operations_syntax

section \<open>The stream of bytes that a serial device receives\<close>

text \<open>
  What the interrupt handler and the reads do, seen from the thread that reads: bytes arrive at the
  port, the handler moves them to the FIFO, which keeps the last ones, and reads take from its front.
\<close>

subsection \<open>The specification\<close>

datatype serial_event = Arrived "u8 list" | Handled | Transferred "u8 list" | Fetched u32 "u8 list"

type_synonym rx_view = "u8 list \<times> u8 list"
  \<comment> \<open>the bytes that were not read, and those that are still at the port\<close>

fun rx_spec :: "nat \<Rightarrow> serial_event list \<Rightarrow> rx_view \<Rightarrow> rx_view option" where
  "rx_spec c [] v = Some v"
| "rx_spec c (Arrived cs # es) (q, p) = rx_spec c es (q, p @ cs)"
| "rx_spec c (Handled # es) (q, p) = rx_spec c es (keep_last c (q @ p), [])"
| "rx_spec c (Transferred cs # es) (q, p) = rx_spec c es (keep_last c (q @ cs), p)"
| "rx_spec c (Fetched n cs # es) (q, p) = (if cs = take (unat n) q then rx_spec c es (drop (unat n) q, p) else None)"

fun arrivals :: "serial_event \<Rightarrow> u8 list" where
  "arrivals (Arrived cs) = cs"
| "arrivals (Transferred cs) = cs"
| "arrivals _ = []"

fun fetched :: "serial_event \<Rightarrow> u8 list" where
  "fetched (Fetched n cs) = cs"
| "fetched _ = []"

text \<open>No byte is dropped: what the handler stores fits.\<close>

fun rx_fits :: "nat \<Rightarrow> serial_event list \<Rightarrow> rx_view \<Rightarrow> bool" where
  "rx_fits c [] v \<longleftrightarrow> True"
| "rx_fits c (Arrived cs # es) (q, p) \<longleftrightarrow> rx_fits c es (q, p @ cs)"
| "rx_fits c (Handled # es) (q, p) \<longleftrightarrow> length (q @ p) \<le> c \<and> rx_fits c es (q @ p, [])"
| "rx_fits c (Transferred cs # es) (q, p) \<longleftrightarrow> length (q @ cs) \<le> c \<and> rx_fits c es (q @ cs, p)"
| "rx_fits c (Fetched n cs # es) (q, p) \<longleftrightarrow> rx_fits c es (drop (unat n) q, p)"

lemma subseq_keep_last: "subseq (keep_last c xs) xs"
  by (simp add: keep_last_def suffix_drop suffix_imp_subseq)

lemma subseq_store:
  "subseq zs (keep_last c xs @ ys) \<Longrightarrow> subseq zs (xs @ ys)"
  by (rule subseq_order.trans [OF _ list_emb_append_mono [OF subseq_keep_last subseq_order.refl]])

lemma rx_spec_snoc: "rx_spec c (es @ [e]) v = Option.bind (rx_spec c es v) (rx_spec c [e])"
  by (induction c es v rule: rx_spec.induct) simp_all

text \<open>A port either has its bytes fetched by the handler or transfers them itself.\<close>

definition one_way :: "serial_event list \<Rightarrow> u8 list \<Rightarrow> bool" where
  "one_way es p \<longleftrightarrow> (\<forall>cs. Transferred cs \<notin> set es) \<or> p = [] \<and> (\<forall>cs. Arrived cs \<notin> set es)"

lemma rx_spec_subseq:
  "rx_spec c es v = Some v' \<Longrightarrow> one_way es (snd v) \<Longrightarrow>
     subseq (concat (map fetched es) @ fst v' @ snd v') (fst v @ snd v @ concat (map arrivals es))"
proof (induction c es v rule: rx_spec.induct)
  case (3 c es q p)
  then have "subseq (concat (map fetched es) @ fst v' @ snd v') (keep_last c (q @ p) @ concat (map arrivals es))"
    by (auto simp: one_way_def)
  then show ?case using subseq_store [of _ c "q @ p"] by simp
next
  case (4 c cs es q p)
  then have "p = []" "subseq (concat (map fetched es) @ fst v' @ snd v') (keep_last c (q @ cs) @ concat (map arrivals es))"
    by (auto simp: one_way_def)
  then show ?case using subseq_store [of _ c "q @ cs"] by simp
next
  case (5 c n cs es q p)
  then have cs: "cs = take (unat n) q" and s: "subseq (concat (map fetched es) @ fst v' @ snd v') (drop (unat n) q @ p @ concat (map arrivals es))"
    by (simp_all add: one_way_def split: if_splits)
  have "subseq (take (unat n) q @ concat (map fetched es) @ fst v' @ snd v') (take (unat n) q @ drop (unat n) q @ p @ concat (map arrivals es))"
    by (rule list_emb_append_mono [OF subseq_order.refl s])
  then show ?case by (simp add: cs) (simp flip: append_assoc)
qed (auto simp: one_way_def)

lemma rx_spec_fits:
  "rx_spec c es v = Some v' \<Longrightarrow> one_way es (snd v) \<Longrightarrow> rx_fits c es v \<Longrightarrow>
     concat (map fetched es) @ fst v' @ snd v' = fst v @ snd v @ concat (map arrivals es)"
proof (induction c es v rule: rx_spec.induct)
  case (5 c n cs es q p)
  then show ?case by (simp add: one_way_def split: if_splits)
qed (auto simp: one_way_def)

lemma keep_last_keep_last [simp]: "keep_last n (keep_last n xs @ ys) = keep_last n (xs @ ys)"
  by (cases "length xs \<le> n") (simp_all add: keep_last_def add.commute)

subsection \<open>The device\<close>

text \<open>The driver's \<open>getc\<close> gives the bytes that are pending at the port one by one, then -1.\<close>

definition port_reads :: "'h rt_uart_ops \<Rightarrow> ('h \<Rightarrow> u8 list) \<Rightarrow> nat \<Rightarrow> bool" where
  "port_reads ops pending d \<longleftrightarrow> (\<forall>h. case uart_getc ops d h of (ch, h') \<Rightarrow>
     (case pending h of [] \<Rightarrow> ch = -1 \<and> pending h' = [] | c # cs \<Rightarrow> ch = uint c \<and> pending h' = cs))"

definition can_read :: "nat \<Rightarrow> 'h serial_world \<Rightarrow> bool" where
  "can_read d w \<longleftrightarrow> is_device (dev_kernel w) d \<and> ref_count (device_of w d) \<noteq> 0"

definition int_open :: "nat \<Rightarrow> 'h serial_world \<Rightarrow> bool" where
  "int_open d w \<longleftrightarrow> can_read d w \<and> has_open_flag d RT_DEVICE_FLAG_INT_RX w \<and> \<not> has_open_flag d RT_DEVICE_FLAG_DMA_RX w \<and>
     (\<exists>p f. serial_rx (serial_of w d) = Rx_fifo p f \<and> int_ok (serial_bufsz w d) f)"

definition dma_open :: "nat \<Rightarrow> 'h serial_world \<Rightarrow> bool" where
  "dma_open d w \<longleftrightarrow> can_read d w \<and> \<not> has_open_flag d RT_DEVICE_FLAG_INT_RX w \<and> has_open_flag d RT_DEVICE_FLAG_DMA_RX w \<and>
     (\<exists>p f. serial_rx (serial_of w d) = Rx_fifo p f \<and> dma_ok (serial_bufsz w d) f)"

definition rx_view :: "('h \<Rightarrow> u8 list) \<Rightarrow> nat \<Rightarrow> 'h serial_world \<Rightarrow> rx_view" where
  "rx_view pending d w =
     ((case serial_rx (serial_of w d) of Rx_fifo p f \<Rightarrow> fifo_list (unat (serial_bufsz w d)) f | _ \<Rightarrow> []), pending (hardware (snd w)))"

text \<open>In interrupt mode one byte of the buffer stays free.\<close>

definition rx_capacity :: "nat \<Rightarrow> 'h serial_world \<Rightarrow> nat" where
  "rx_capacity d w = (if has_open_flag d RT_DEVICE_FLAG_INT_RX w then unat (serial_bufsz w d) - 1 else unat (serial_bufsz w d))"

text \<open>What other threads, writes and the registered functions leave alone.\<close>

definition undisturbed :: "('h \<Rightarrow> u8 list) \<Rightarrow> nat \<Rightarrow> 'h serial_world \<Rightarrow> 'h serial_world \<Rightarrow> bool" where
  "undisturbed pending d w w' \<longleftrightarrow> serial_rx (serial_of w' d) = serial_rx (serial_of w d) \<and> serial_bufsz w' d = serial_bufsz w d \<and>
     pending (hardware (snd w')) = pending (hardware (snd w)) \<and> (can_read d w \<longrightarrow> can_read d w') \<and>
     (\<forall>m \<in> {RT_DEVICE_FLAG_INT_RX, RT_DEVICE_FLAG_DMA_RX}. has_open_flag d m w' \<longleftrightarrow> has_open_flag d m w)"

text \<open>\<open>I\<close> is what the registered function needs of the kernel and the heap.\<close>

definition callbacks_ok :: "(heap_state \<Rightarrow> bool) \<Rightarrow> 'h serial_callbacks \<Rightarrow> ('h \<Rightarrow> u8 list) \<Rightarrow> nat \<Rightarrow> bool" where
  "callbacks_ok I cb pending d \<longleftrightarrow>
     (\<forall>a n w. I (fst w) \<longrightarrow> (\<exists>w'. indicate cb a d n w = Some w' \<and> I (fst w') \<and> undisturbed pending d w w'))"

text \<open>
  A DMA transfer puts its bytes into the buffer in the same step in which its interrupt reports them.  In the
  hardware they arrive before; no code looks at them until the interrupt has moved the put index over them,
  unless the transfer overruns the bytes that wait.
\<close>

definition dma_event :: "u8 list \<Rightarrow> u32" where
  "dma_event bs = RT_SERIAL_EVENT_RX_DMADONE OR push_bit 8 (of_nat (length bs))"

inductive rx_run ::
    "'h rt_uart_ops \<Rightarrow> 'h serial_callbacks \<Rightarrow> (nat \<Rightarrow> ('h serial_state, serial_arg) dev_ops) \<Rightarrow> (heap_state \<Rightarrow> bool) \<Rightarrow> ('h \<Rightarrow> u8 list) \<Rightarrow>
       nat \<Rightarrow> 'h serial_world \<Rightarrow> 'h serial_world \<Rightarrow> serial_event list \<Rightarrow> bool"
  for ops cb drv I pending d w0 where
  start: "rx_run ops cb drv I pending d w0 w0 []"
| arrive: "rx_run ops cb drv I pending d w0 w es \<Longrightarrow> has_open_flag d RT_DEVICE_FLAG_INT_RX w \<Longrightarrow>
    fst w' = fst w \<Longrightarrow> serials (snd w') = serials (snd w) \<Longrightarrow> pending (hardware (snd w')) = pending (hardware (snd w)) @ cs \<Longrightarrow>
    rx_run ops cb drv I pending d w0 w' (es @ [Arrived cs])"
| handle: "rx_run ops cb drv I pending d w0 w es \<Longrightarrow> has_open_flag d RT_DEVICE_FLAG_INT_RX w \<Longrightarrow>
    rt_hw_serial_isr ops cb d RT_SERIAL_EVENT_RX_IND w = Some w' \<Longrightarrow> rx_run ops cb drv I pending d w0 w' (es @ [Handled])"
| transfer: "rx_run ops cb drv I pending d w0 w es \<Longrightarrow> has_open_flag d RT_DEVICE_FLAG_DMA_RX w \<Longrightarrow>
    serial_rx (serial_of w d) = Rx_fifo p f \<Longrightarrow> length bs \<le> unat (serial_bufsz w d) \<Longrightarrow>
    rt_hw_serial_isr ops cb d (dma_event bs) (set_rx d (Rx_fifo p (dma_fill (unat (serial_bufsz w d)) bs f)) w) = Some w' \<Longrightarrow>
    rx_run ops cb drv I pending d w0 w' (es @ [Transferred bs])"
| fetch: "rx_run ops cb drv I pending d w0 w es \<Longrightarrow> rt_device_read drv d pos buffer n w = Some (Done (k, cs), w') \<Longrightarrow>
    rx_run ops cb drv I pending d w0 w' (es @ [Fetched n cs])"
| other: "rx_run ops cb drv I pending d w0 w es \<Longrightarrow> undisturbed pending d w w' \<Longrightarrow> I (fst w') \<Longrightarrow> rx_run ops cb drv I pending d w0 w' es"

lemma undisturbed_keeps:
  assumes "undisturbed pending d w w'"
  shows "int_open d w \<Longrightarrow> int_open d w'" "dma_open d w \<Longrightarrow> dma_open d w'" "rx_view pending d w' = rx_view pending d w"
    "rx_capacity d w' = rx_capacity d w"
  using assms by (auto simp: undisturbed_def int_open_def dma_open_def rx_view_def rx_capacity_def cong: serial_rx_struct.case_cong)

lemma fst_frame:
  assumes "fst w' = fst w"
  shows "can_read d w' \<longleftrightarrow> can_read d w" "has_open_flag d m w' \<longleftrightarrow> has_open_flag d m w" "device_of w' d = device_of w d"
  using assms by (cases w rule: dev_kernel.cases; cases w' rule: dev_kernel.cases; simp add: can_read_def has_open_flag_def device_of_def)+

lemma on_hardware_eq: "on_hardware g w = (fst (g (hardware (snd w))), snd (on_hardware g w))"
  by (simp add: on_hardware_def split: prod.splits)

lemma port_readsD:
  assumes "port_reads ops pending d"
  shows "pending h = [] \<Longrightarrow> fst (uart_getc ops d h) = -1 \<and> pending (snd (uart_getc ops d h)) = []"
    "pending h = c # cs \<Longrightarrow> fst (uart_getc ops d h) = uint c \<and> pending (snd (uart_getc ops d h)) = cs"
proof -
  have "case uart_getc ops d h of (ch, h') \<Rightarrow>
     (case pending h of [] \<Rightarrow> ch = -1 \<and> pending h' = [] | c # cs \<Rightarrow> ch = uint c \<and> pending h' = cs)"
    using assms by (simp only: port_reads_def)
  then show "pending h = [] \<Longrightarrow> fst (uart_getc ops d h) = -1 \<and> pending (snd (uart_getc ops d h)) = []"
    "pending h = c # cs \<Longrightarrow> fst (uart_getc ops d h) = uint c \<and> pending (snd (uart_getc ops d h)) = cs"
    by (simp_all add: split_beta)
qed

lemma serial_isr_receive_ok:
  assumes "port_reads ops pending d"
  shows "pending (hardware (snd w)) = cs \<Longrightarrow> serial_rx (serial_of w d) = Rx_fifo p f \<Longrightarrow> int_ok (serial_bufsz w d) f \<Longrightarrow>
    \<exists>w' f'. serial_isr_receive ops d w = Some w' \<and> fst w' = fst w \<and> serial_bufsz w' d = serial_bufsz w d \<and>
      serial_rx (serial_of w' d) = Rx_fifo p f' \<and> int_ok (serial_bufsz w d) f' \<and> pending (hardware (snd w')) = [] \<and>
      fifo_list (unat (serial_bufsz w d)) f' = keep_last (unat (serial_bufsz w d) - 1) (fifo_list (unat (serial_bufsz w d)) f @ cs)"
proof (induction cs arbitrary: w f)
  case Nil
  let ?w = "snd (on_hardware (uart_getc ops d) w)"
  have g: "fst (uart_getc ops d (hardware (snd w))) = -1" "pending (snd (uart_getc ops d (hardware (snd w)))) = []"
    using port_readsD(1) [OF assms] Nil(1) by simp_all
  have "serial_isr_receive ops d w = Some ?w"
    by (subst serial_isr_receive.simps, subst on_hardware_eq) (simp add: g)
  then show ?case using Nil g by (auto simp: int_ok_def)
next
  case (Cons c cs)
  let ?w = "snd (on_hardware (uart_getc ops d) w)"
  have g: "fst (uart_getc ops d (hardware (snd w))) = uint c" "pending (snd (uart_getc ops d (hardware (snd w)))) = cs"
    using port_readsD(2) [OF assms] Cons.prems(1) by simp_all
  obtain f1 where f1: "serial_isr_put (serial_bufsz w d) c f = Some f1" "int_ok (serial_bufsz w d) f1"
    "fifo_list (unat (serial_bufsz w d)) f1 = keep_last (unat (serial_bufsz w d) - 1) (fifo_list (unat (serial_bufsz w d)) f @ [c])"
    by (rule serial_isr_put_ok [OF Cons.prems(3)])
  have "uint c \<noteq> -1" using uint_nonnegative [of c] by linarith
  then have "serial_isr_receive ops d w = serial_isr_receive ops d (set_rx d (Rx_fifo p f1) ?w)"
    by (subst serial_isr_receive.simps, subst on_hardware_eq) (simp add: g Cons.prems f1(1))
  moreover have "\<exists>w' f'. serial_isr_receive ops d (set_rx d (Rx_fifo p f1) ?w) = Some w' \<and> fst w' = fst w \<and> serial_bufsz w' d = serial_bufsz w d \<and>
      serial_rx (serial_of w' d) = Rx_fifo p f' \<and> int_ok (serial_bufsz w d) f' \<and> pending (hardware (snd w')) = [] \<and>
      fifo_list (unat (serial_bufsz w d)) f' = keep_last (unat (serial_bufsz w d) - 1) (fifo_list (unat (serial_bufsz w d)) f1 @ cs)"
    using Cons.IH [of "set_rx d (Rx_fifo p f1) ?w" f1] g f1(2) by simp
  ultimately show ?case by (simp add: f1(3))
qed

definition rx_after :: "(heap_state \<Rightarrow> bool) \<Rightarrow> ('h \<Rightarrow> u8 list) \<Rightarrow> nat \<Rightarrow> 'h serial_world \<Rightarrow> 'h serial_world \<Rightarrow> rx_view \<Rightarrow> bool" where
  "rx_after I pending d w w' v \<longleftrightarrow> (I (fst w) \<longrightarrow> I (fst w')) \<and> (int_open d w \<longrightarrow> int_open d w') \<and> (dma_open d w \<longrightarrow> dma_open d w') \<and>
     rx_capacity d w' = rx_capacity d w \<and> rx_view pending d w' = v"

lemma tell_rx_ok:
  assumes "callbacks_ok I cb pending d" "I (fst w)"
  obtains w' where "tell_rx cb d n w = Some w'" "rx_after I pending d w w' (rx_view pending d w)"
proof (cases "rx_indicate (device_of w d) = 0")
  case True
  then show ?thesis using that [of w] by (simp add: tell_rx_def rx_after_def)
next
  case False
  obtain w' where "indicate cb (rx_indicate (device_of w d)) d n w = Some w'" "I (fst w')" "undisturbed pending d w w'"
    using assms unfolding callbacks_ok_def by blast
  then show ?thesis using that [of w'] False undisturbed_keeps [of pending d w w'] by (simp add: tell_rx_def rx_after_def)
qed

lemma rx_after_frame:
  assumes "fst w' = fst w" "serial_rx (serial_of w' d) = Rx_fifo p f'" "serial_bufsz w' d = serial_bufsz w d"
    and "int_open d w \<Longrightarrow> int_ok (serial_bufsz w d) f'" "dma_open d w \<Longrightarrow> dma_ok (serial_bufsz w d) f'"
  shows "rx_after I pending d w w' (fifo_list (unat (serial_bufsz w d)) f', pending (hardware (snd w')))"
  using assms fst_frame [OF assms(1)]
  by (auto simp: rx_after_def int_open_def dma_open_def rx_capacity_def rx_view_def)

lemma rx_after_trans:
  "rx_after I pending d w w1 v1 \<Longrightarrow> rx_after I pending d w1 w' v \<Longrightarrow> rx_after I pending d w w' v"
  by (simp add: rx_after_def)

lemma serial_handle_ok:
  assumes "int_open d w" "I (fst w)" "port_reads ops pending d" "callbacks_ok I cb pending d"
  obtains w' where "rt_hw_serial_isr ops cb d RT_SERIAL_EVENT_RX_IND w = Some w'"
    "rx_after I pending d w w' (keep_last (rx_capacity d w) (fst (rx_view pending d w) @ snd (rx_view pending d w)), [])"
proof -
  obtain p f where f: "serial_rx (serial_of w d) = Rx_fifo p f" "int_ok (serial_bufsz w d) f" using assms(1) by (auto simp: int_open_def)
  obtain w1 f1 where w1: "serial_isr_receive ops d w = Some w1" "fst w1 = fst w" "serial_bufsz w1 d = serial_bufsz w d"
    "serial_rx (serial_of w1 d) = Rx_fifo p f1" "int_ok (serial_bufsz w d) f1" "pending (hardware (snd w1)) = []"
    "fifo_list (unat (serial_bufsz w d)) f1 = keep_last (unat (serial_bufsz w d) - 1) (fifo_list (unat (serial_bufsz w d)) f @ pending (hardware (snd w)))"
    using serial_isr_receive_ok [OF assms(3) refl f] by blast
  have nd: "\<not> dma_open d w" using assms(1) by (simp add: int_open_def dma_open_def)
  have a: "rx_after I pending d w w1 (keep_last (rx_capacity d w) (fst (rx_view pending d w) @ snd (rx_view pending d w)), [])"
    using rx_after_frame [OF w1(2,4,3), of I pending] w1(5-7) nd f(1) assms(1) by (simp add: rx_view_def rx_capacity_def int_open_def)
  have i1: "I (fst w1)" using assms(2) by (simp add: w1(2))
  show thesis
  proof (cases "serial_rx_length (serial_bufsz w1 d) f1 = 0")
    case True
    show ?thesis by (rule that [OF _ a]) (simp add: rt_hw_serial_isr_def serial_isr_rx_def require_def f(1) w1(1,4) True)
  next
    case False
    obtain w' where w': "tell_rx cb d (serial_rx_length (serial_bufsz w1 d) f1) w1 = Some w'" "rx_after I pending d w1 w' (rx_view pending d w1)"
      by (rule tell_rx_ok [OF assms(4) i1])
    have "rx_view pending d w1 = (keep_last (rx_capacity d w) (fst (rx_view pending d w) @ snd (rx_view pending d w)), [])"
      using a by (simp add: rx_after_def)
    then have "rx_after I pending d w w' (keep_last (rx_capacity d w) (fst (rx_view pending d w) @ snd (rx_view pending d w)), [])"
      using rx_after_trans [OF a] w'(2) by simp
    then show ?thesis by (rule that [rotated]) (simp add: rt_hw_serial_isr_def serial_isr_rx_def require_def f(1) w1(1,4) False w'(1))
  qed
qed

lemma dma_event_simps:
  assumes "length bs < 2 ^ 16"
  shows "dma_event bs AND 0xff = RT_SERIAL_EVENT_RX_DMADONE" "drop_bit 8 (dma_event bs) = of_nat (length bs)"
proof -
  have m: "(0xff :: u32) = mask 8" "(3 :: u32) = mask 2" by (simp_all add: mask_eq_exp_minus_1)
  show "dma_event bs AND 0xff = RT_SERIAL_EVENT_RX_DMADONE"
    unfolding dma_event_def m by (rule bit_word_eqI) (auto simp: bit_simps)
  have "take_bit 24 (of_nat (length bs)) = (of_nat (length bs) :: u32)"
    using assms by (simp add: take_bit_of_nat flip: of_nat_take_bit) (simp add: take_bit_nat_eq_self)
  then have "bit (of_nat (length bs) :: u32) n \<Longrightarrow> n < 24" for n by (metis bit_take_bit_iff)
  then show "drop_bit 8 (dma_event bs) = of_nat (length bs)"
    unfolding dma_event_def m by (intro bit_word_eqI) (force simp: bit_simps)
qed

lemma serial_transfer_ok:
  assumes "dma_open d w" "I (fst w)" "callbacks_ok I cb pending d" "serial_rx (serial_of w d) = Rx_fifo p f" "length bs \<le> unat (serial_bufsz w d)"
  obtains w' where "rt_hw_serial_isr ops cb d (dma_event bs) (set_rx d (Rx_fifo p (dma_fill (unat (serial_bufsz w d)) bs f)) w) = Some w'"
    "rx_after I pending d w w' (keep_last (rx_capacity d w) (fst (rx_view pending d w) @ bs), snd (rx_view pending d w))"
proof -
  let ?w = "set_rx d (Rx_fifo p (dma_fill (unat (serial_bufsz w d)) bs f)) w"
  have f: "dma_ok (serial_bufsz w d) f" and ni: "\<not> int_open d w" using assms(1,4) by (auto simp: dma_open_def int_open_def)
  have z: "serial_bufsz w d \<noteq> 0" "length bs < 2 ^ 16" using f assms(5) by (auto simp: dma_ok_def fifo_ok_def)
  obtain f1 where f1: "dma_recv_update_put_index (serial_bufsz w d) (of_nat (length bs)) (dma_fill (unat (serial_bufsz w d)) bs f) = Some f1"
    "dma_ok (serial_bufsz w d) f1" "fifo_list (unat (serial_bufsz w d)) f1 = keep_last (unat (serial_bufsz w d)) (fifo_list (unat (serial_bufsz w d)) f @ bs)"
    by (rule dma_receive_ok [OF f assms(5)])
  let ?w1 = "set_rx d (Rx_fifo p f1) ?w"
  have a: "rx_after I pending d w ?w1 (keep_last (rx_capacity d w) (fst (rx_view pending d w) @ bs), snd (rx_view pending d w))"
    using rx_after_frame [of ?w1 w d p f1 I pending] f1(2,3) ni assms(1,4) by (simp add: rx_view_def rx_capacity_def dma_open_def)
  have "I (fst ?w1)" using assms(2) by simp
  then obtain w' where w': "tell_rx cb d (serial_fifo_calc_recved_len (serial_bufsz w d) f1) ?w1 = Some w'" "rx_after I pending d ?w1 w' (rx_view pending d ?w1)"
    by (rule tell_rx_ok [OF assms(3)])
  have "rx_view pending d ?w1 = (keep_last (rx_capacity d w) (fst (rx_view pending d w) @ bs), snd (rx_view pending d w))"
    using a by (simp add: rx_after_def)
  then have "rx_after I pending d w w' (keep_last (rx_capacity d w) (fst (rx_view pending d w) @ bs), snd (rx_view pending d w))"
    using rx_after_trans [OF a] w'(2) by simp
  then show thesis
    by (rule that [rotated]) (simp add: rt_hw_serial_isr_def dma_event_simps [OF z(2)] serial_isr_rx_dma_def z(1) f1(1) w'(1))
qed

lemma serial_fetch_ok:
  assumes "int_open d w \<or> dma_open d w" "drv d = serial_ops ops junk fionread" "n < 0x80000000"
  obtains w' where "rt_device_read drv d pos buffer n w = Some (Done (of_nat (length (take (unat n) (fst (rx_view pending d w)))),
      take (unat n) (fst (rx_view pending d w))), w')" "fst w' = fst w"
    "rx_after I pending d w w' (drop (unat n) (fst (rx_view pending d w)), snd (rx_view pending d w))"
proof (cases "n = 0")
  case True
  then show ?thesis using assms(1,2) that [of w]
    by (auto simp: rt_device_read_def serial_ops_def rt_serial_read_def require_def int_open_def dma_open_def can_read_def rx_after_def)
next
  case False
  obtain p f where f: "serial_rx (serial_of w d) = Rx_fifo p f" using assms(1) by (auto simp: int_open_def dma_open_def)
  have c: "is_device (dev_kernel w) d" "ref_count (device_of w d) \<noteq> 0" using assms(1) by (auto simp: int_open_def dma_open_def can_read_def)
  note ret = that
  have go: thesis
    if rd: "rd = (if int_open d w then serial_int_rx else serial_dma_rx)" and f1: "rd (serial_bufsz w d) (unat n) f = Some (take (unat n) (fifo_list (unat (serial_bufsz w d)) f), f1)"
      "fifo_list (unat (serial_bufsz w d)) f1 = drop (unat n) (fifo_list (unat (serial_bufsz w d)) f)"
      and ok: "int_open d w \<Longrightarrow> int_ok (serial_bufsz w d) f1" "dma_open d w \<Longrightarrow> dma_ok (serial_bufsz w d) f1" for rd f1
  proof (rule ret [of "set_rx d (Rx_fifo p f1) w"])
    have "serial_bufsz w d \<noteq> 0" using assms(1) by (auto simp: int_open_def dma_open_def int_ok_def dma_ok_def fifo_ok_def)
    then have "rt_serial_read ops d pos buffer n w = Some (Done (of_nat (length (take (unat n) (fst (rx_view pending d w)))),
      take (unat n) (fst (rx_view pending d w))), set_rx d (Rx_fifo p f1) w)"
      using assms(1,3) False f f1(1) rd
      by (auto simp: rt_serial_read_def require_def fifo_read_def rx_view_def int_open_def dma_open_def)
    then show "rt_device_read drv d pos buffer n w = Some (Done (of_nat (length (take (unat n) (fst (rx_view pending d w)))),
      take (unat n) (fst (rx_view pending d w))), set_rx d (Rx_fifo p f1) w)"
      using c assms(2) by (simp add: rt_device_read_def require_def serial_ops_def)
    show "rx_after I pending d w (set_rx d (Rx_fifo p f1) w) (drop (unat n) (fst (rx_view pending d w)), snd (rx_view pending d w))"
      using rx_after_frame [of "set_rx d (Rx_fifo p f1) w" w d p f1 I pending] ok f f1(2) by (simp add: rx_view_def)
  qed simp
  show ?thesis
  proof (cases "int_open d w")
    case True
    then have nd: "\<not> dma_open d w" "int_ok (serial_bufsz w d) f" using f by (auto simp: int_open_def dma_open_def)
    obtain f1 where "serial_int_rx (serial_bufsz w d) (unat n) f = Some (take (unat n) (fifo_list (unat (serial_bufsz w d)) f), f1)" "int_ok (serial_bufsz w d) f1"
      "fifo_list (unat (serial_bufsz w d)) f1 = drop (unat n) (fifo_list (unat (serial_bufsz w d)) f)"
      using serial_int_rx_ok [OF nd(2)] by blast
    then show ?thesis using go [of serial_int_rx f1] True nd(1) by simp
  next
    case False
    then have "dma_ok (serial_bufsz w d) f" using assms(1) f by (auto simp: dma_open_def)
    then obtain f1 where "serial_dma_rx (serial_bufsz w d) (unat n) f = Some (take (unat n) (fifo_list (unat (serial_bufsz w d)) f), f1)" "dma_ok (serial_bufsz w d) f1"
      "fifo_list (unat (serial_bufsz w d)) f1 = drop (unat n) (fifo_list (unat (serial_bufsz w d)) f)"
      by (rule serial_dma_rx_ok)
    then show ?thesis using go [of serial_dma_rx f1] False by simp
  qed
qed

subsection \<open>Every sequence of events\<close>

definition rx_goes :: "(heap_state \<Rightarrow> bool) \<Rightarrow> ('h \<Rightarrow> u8 list) \<Rightarrow> nat \<Rightarrow> 'h serial_world \<Rightarrow> 'h serial_world \<Rightarrow> serial_event list \<Rightarrow> bool" where
  "rx_goes I pending d w0 w es \<longleftrightarrow> I (fst w) \<and> rx_capacity d w = rx_capacity d w0 \<and>
     (int_open d w0 \<longrightarrow> int_open d w \<and> (\<forall>cs. Transferred cs \<notin> set es)) \<and>
     (dma_open d w0 \<longrightarrow> dma_open d w \<and> (\<forall>cs. Arrived cs \<notin> set es)) \<and>
     rx_spec (rx_capacity d w0) es (rx_view pending d w0) = Some (rx_view pending d w)"

lemma rx_goes_step:
  assumes "rx_goes I pending d w0 w es" "rx_after I pending d w w' v" "rx_spec (rx_capacity d w0) [e] (rx_view pending d w) = Some v"
    and "int_open d w \<Longrightarrow> \<forall>cs. e \<noteq> Transferred cs" "dma_open d w \<Longrightarrow> \<forall>cs. e \<noteq> Arrived cs"
  shows "rx_goes I pending d w0 w' (es @ [e])"
  using assms by (auto simp: rx_goes_def rx_after_def rx_spec_snoc)

lemma rx_spec_one:
  "rx_spec c [Handled] v = Some (keep_last c (fst v @ snd v), [])" "rx_spec c [Transferred cs] v = Some (keep_last c (fst v @ cs), snd v)"
  "rx_spec c [Arrived cs] v = Some (fst v, snd v @ cs)"
  "rx_spec c [Fetched n cs] v = (if cs = take (unat n) (fst v) then Some (drop (unat n) (fst v), snd v) else None)"
  by (cases v; simp)+

lemma rx_run_goes:
  assumes "rx_run ops cb drv I pending d w0 w es" "int_open d w0 \<or> dma_open d w0" "I (fst w0)" "port_reads ops pending d" "callbacks_ok I cb pending d"
    and "drv d = serial_ops ops junk fionread"
  shows "rx_goes I pending d w0 w es"
  using assms(1)
proof (induction rule: rx_run.induct)
  case start
  then show ?case using assms(3) by (simp add: rx_goes_def)
next
  case (arrive w es w' cs)
  then have i: "int_open d w0" "int_open d w" using assms(2) by (auto simp: rx_goes_def int_open_def dma_open_def)
  have s: "serial_of w' d = serial_of w d" "serial_bufsz w' d = serial_bufsz w d" using arrive.hyps(4) by (simp_all add: serial_of_def serial_bufsz_def)
  have "rx_after I pending d w w' (fst (rx_view pending d w), snd (rx_view pending d w) @ cs)"
    using arrive.hyps(3,5) s i(2) fst_frame [OF arrive.hyps(3)]
    by (auto simp: rx_after_def int_open_def dma_open_def rx_capacity_def rx_view_def cong: serial_rx_struct.case_cong)
  then show ?case by (rule rx_goes_step [OF arrive.IH]) (use i(2) in \<open>auto simp: rx_spec_one int_open_def dma_open_def\<close>)
next
  case (handle w es w')
  then have i: "int_open d w" "I (fst w)" "rx_capacity d w = rx_capacity d w0" using assms(2) by (auto simp: rx_goes_def int_open_def dma_open_def)
  show ?case by (rule serial_handle_ok [OF i(1,2) assms(4,5)], rule rx_goes_step [OF handle.IH])
    (use handle.hyps(3) i(3) in \<open>auto simp: rx_spec_one\<close>)
next
  case (transfer w es p f bs w')
  then have i: "dma_open d w" "I (fst w)" "rx_capacity d w = rx_capacity d w0" using assms(2) by (auto simp: rx_goes_def int_open_def dma_open_def)
  show ?case by (rule serial_transfer_ok [OF i(1,2) assms(5) transfer.hyps(3,4), where ops = ops], rule rx_goes_step [OF transfer.IH])
    (use transfer.hyps(5) i(1,3) in \<open>auto simp: rx_spec_one int_open_def dma_open_def\<close>)
next
  case (fetch w es pos buffer n k cs w')
  then have i: "int_open d w \<or> dma_open d w" "I (fst w)" using assms(2) by (auto simp: rx_goes_def)
  then have "n < 0x80000000" using fetch.hyps(2) assms(6)
    by (cases "n = 0") (auto simp: rt_device_read_def serial_ops_def rt_serial_read_def require_def int_open_def dma_open_def can_read_def split: if_splits)
  then obtain w1 where w1: "rt_device_read drv d pos buffer n w = Some (Done (of_nat (length (take (unat n) (fst (rx_view pending d w)))),
      take (unat n) (fst (rx_view pending d w))), w1)"
    "rx_after I pending d w w1 (drop (unat n) (fst (rx_view pending d w)), snd (rx_view pending d w))"
    by (rule serial_fetch_ok [where drv = drv and d = d and w = w and n = n and pending = pending and pos = pos and buffer = buffer and I = I, OF i(1) assms(6)])
  have "w1 = w'" "cs = take (unat n) (fst (rx_view pending d w))" using w1(1) fetch.hyps(2) by simp_all
  then show ?case using rx_goes_step [OF fetch.IH w1(2), of "Fetched n cs"] by (simp add: rx_spec_one)
next
  case (other w es w')
  then show ?case using undisturbed_keeps [OF other.hyps(2)] by (auto simp: rx_goes_def)
qed

text \<open>C35: A serial device that is open for reception with interrupts or DMA refines a queue of bytes that
  keeps the last ones: for every sequence of arrivals, interrupts, DMA transfers and reads, with other
  threads and the registered functions in between, a read returns the next bytes that were not read, and the
  interrupt handler moves every byte that is pending to the queue, dropping the oldest when there are
  more than the buffer holds.  The next interrupt and the next read end without failing an assertion.
  The buffer has at least two bytes, and in DMA mode at most 2^15, beyond which the 16-bit sum of an index and
  a length may wrap around (\<open>int_open\<close>, \<open>dma_open\<close>); the configured size is 64.  The bytes of a DMA transfer reach
  the buffer in the step of the interrupt that reports them.\<close>

theorem serial_reception_queue:
  assumes "rx_run ops cb drv I pending d w0 w es" "int_open d w0 \<or> dma_open d w0" "I (fst w0)" "port_reads ops pending d" "callbacks_ok I cb pending d"
    and "drv d = serial_ops ops junk fionread"
  shows "rx_spec (rx_capacity d w0) es (rx_view pending d w0) = Some (rx_view pending d w) \<and>
    (int_open d w0 \<longrightarrow> (\<exists>w'. rt_hw_serial_isr ops cb d RT_SERIAL_EVENT_RX_IND w = Some w' \<and>
       rx_view pending d w' = (keep_last (rx_capacity d w0) (fst (rx_view pending d w) @ snd (rx_view pending d w)), []))) \<and>
    (n < 0x80000000 \<longrightarrow> (\<exists>w'. rt_device_read drv d pos buffer n w = Some (Done (of_nat (min (length (fst (rx_view pending d w))) (unat n)),
       take (unat n) (fst (rx_view pending d w))), w') \<and> rx_view pending d w' = (drop (unat n) (fst (rx_view pending d w)), snd (rx_view pending d w))))"
proof (intro conjI impI)
  have g: "rx_goes I pending d w0 w es" by (rule rx_run_goes [OF assms])
  then show "rx_spec (rx_capacity d w0) es (rx_view pending d w0) = Some (rx_view pending d w)" by (simp add: rx_goes_def)
  show "\<exists>w'. rt_hw_serial_isr ops cb d RT_SERIAL_EVENT_RX_IND w = Some w' \<and>
       rx_view pending d w' = (keep_last (rx_capacity d w0) (fst (rx_view pending d w) @ snd (rx_view pending d w)), [])" if "int_open d w0"
    by (rule serial_handle_ok [OF _ _ assms(4,5), where w = w]) (use g that in \<open>auto simp: rx_goes_def rx_after_def\<close>)
  show "\<exists>w'. rt_device_read drv d pos buffer n w = Some (Done (of_nat (min (length (fst (rx_view pending d w))) (unat n)),
       take (unat n) (fst (rx_view pending d w))), w') \<and> rx_view pending d w' = (drop (unat n) (fst (rx_view pending d w)), snd (rx_view pending d w))"
    if "n < 0x80000000"
    by (rule serial_fetch_ok [where drv = drv and d = d and w = w and pending = pending and n = n and pos = pos and buffer = buffer and I = I, OF _ assms(6) that]) (use g assms(2) in \<open>auto simp: rx_goes_def rx_after_def\<close>)
qed

subsection \<open>From the opening on\<close>

text \<open>An opening for reception sets up an empty FIFO of the configured size.\<close>

lemma serial_open_rx_fifo:
  assumes m: "serial_mem h0 d w live" and o: "serial_open_rx ops d oflag w = Some (Done (), w')"
    and none: "serial_rx (serial_of w d) = Rx_none" and mode: "rx_modes oflag" and b: "serial_bufsz w d \<noteq> 0"
  obtains p where "serial_rx (serial_of w' d) = Rx_fifo p (new_rx_fifo (serial_bufsz w d))"
proof (cases "oflag AND RT_DEVICE_FLAG_INT_RX \<noteq> 0")
  case True
  have "Option.bind (serial_alloc (sizeof_rx_fifo + ucast (serial_bufsz w d)) w) (\<lambda>(r, w1). case r of Waits \<Rightarrow> Some (Waits, w1)
      | Done p \<Rightarrow> Some (Done (), low_control ops d RT_DEVICE_CTRL_SET_INT RT_DEVICE_FLAG_INT_RX
        (or_open_flag d RT_DEVICE_FLAG_INT_RX (set_rx d (Rx_fifo p (new_rx_fifo (serial_bufsz w d))) w1)))) = Some (Done (), w')"
    using o none True by (simp add: serial_open_rx_def)
  then show ?thesis by (rule alloc_bind [OF m]) (auto intro: that)
next
  case False
  have "Option.bind (serial_alloc (sizeof_rx_fifo + ucast (serial_bufsz w d)) w) (\<lambda>(r, w1). case r of Waits \<Rightarrow> Some (Waits, w1)
      | Done p \<Rightarrow> Some (Done (), or_open_flag d RT_DEVICE_FLAG_DMA_RX (low_control ops d RT_DEVICE_CTRL_CONFIG RT_DEVICE_FLAG_DMA_RX
          (set_rx d (Rx_fifo p (new_rx_fifo (serial_bufsz w d))) w1)))) = Some (Done (), w')"
    using o none False b mode by (simp add: serial_open_rx_def rx_modes_def)
  then show ?thesis by (rule alloc_bind [OF m]) (auto intro: that)
qed

lemma new_rx_fifo_ok:
  "2 \<le> n \<Longrightarrow> int_ok n (new_rx_fifo n)" "n \<noteq> 0 \<Longrightarrow> unat n \<le> 2 ^ 15 \<Longrightarrow> dma_ok n (new_rx_fifo n)" "fifo_list b (new_rx_fifo n) = []"
  by (auto simp: int_ok_def dma_ok_def fifo_ok_def new_rx_fifo_def fifo_count_def fifo_list_def word_le_nat_alt word_less_nat_alt unat_gt_0)

lemma opened_receives:
  assumes "serial_mem h0 d w live" "serial_rx (serial_of w d) = Rx_none" "serial_tx (serial_of w d) = Tx_none"
    and "is_device (dev_kernel w) d" "ref_count (device_of w d) = 0" "dev_flag (device_of w d) AND RT_DEVICE_FLAG_ACTIVATED \<noteq> 0"
    and "drv d = serial_ops ops junk fionread" "rt_device_open drv d oflag w = Some (Done RT_EOK, w1)"
    and "rx_modes oflag" "2 \<le> serial_bufsz w d" "unat (serial_bufsz w d) \<le> 2 ^ 15"
  shows "(if oflag AND RT_DEVICE_FLAG_INT_RX \<noteq> 0 then int_open d w1 else dma_open d w1) \<and> fst (rx_view pending d w1) = [] \<and>
    serial_bufsz w1 d = serial_bufsz w d"
proof (cases rule: device_opened [where drv = drv and d = d, OF assms(1-8)])
  case (1 w2 w3 live2)
  have b: "serial_bufsz w d \<noteq> 0" using assms(10) by auto
  obtain p where "serial_rx (serial_of w2 d) = Rx_fifo p (new_rx_fifo (serial_bufsz w d))"
    using serial_open_rx_fifo [OF _ 1(1) _ assms(9)] assms(1,2) b by auto
  then have "serial_rx (serial_of w1 d) = Rx_fifo p (new_rx_fifo (serial_bufsz w d))" using 1(5) by simp
  then show ?thesis using 1(7-11) new_rx_fifo_ok [where n = "serial_bufsz w d"] assms(9-11) b
    by (auto simp: int_open_def dma_open_def can_read_def rx_view_def rx_modes_def)
qed

text \<open>C36: From an opening for reception on, whatever arrives and however interrupts, DMA transfers, reads and
  other threads interleave: what the reads of a serial device have returned, followed by the bytes
  that wait in its buffer and at the port, is a subsequence of the bytes that arrived; nothing is
  made up, repeated or reordered.  As long as the buffer does not overflow, it is all of them.  The size
  of the buffer is between 2 and 2^15 bytes; the configured size is 64.\<close>

theorem serial_stream:
  assumes "serial_mem h0 d w live" "serial_rx (serial_of w d) = Rx_none" "serial_tx (serial_of w d) = Tx_none"
    and "is_device (dev_kernel w) d" "ref_count (device_of w d) = 0" "dev_flag (device_of w d) AND RT_DEVICE_FLAG_ACTIVATED \<noteq> 0"
    and "drv d = serial_ops ops junk fionread" "rt_device_open drv d oflag w = Some (Done RT_EOK, w0)"
    and "rx_modes oflag" "2 \<le> serial_bufsz w d" "unat (serial_bufsz w d) \<le> 2 ^ 15"
    and "rx_run ops cb drv I pending d w0 w' es" "I (fst w0)" "pending (hardware (snd w0)) = []" "port_reads ops pending d" "callbacks_ok I cb pending d"
  shows "subseq (concat (map fetched es) @ fst (rx_view pending d w') @ snd (rx_view pending d w')) (concat (map arrivals es)) \<and>
    (rx_fits (if oflag AND RT_DEVICE_FLAG_INT_RX \<noteq> 0 then unat (serial_bufsz w d) - 1 else unat (serial_bufsz w d)) es ([], []) \<longrightarrow>
       concat (map fetched es) @ fst (rx_view pending d w') @ snd (rx_view pending d w') = concat (map arrivals es))"
proof -
  note o = opened_receives [OF assms(1-11), of pending]
  have v: "int_open d w0 \<or> dma_open d w0" "rx_view pending d w0 = ([], [])"
    "rx_capacity d w0 = (if oflag AND RT_DEVICE_FLAG_INT_RX \<noteq> 0 then unat (serial_bufsz w d) - 1 else unat (serial_bufsz w d))"
    using o assms(14) by (auto simp: rx_view_def rx_capacity_def int_open_def dma_open_def split: if_splits)
  have g: "rx_goes I pending d w0 w' es" by (rule rx_run_goes [where drv = drv and d = d, OF assms(12) v(1) assms(13,15,16,7)])
  then have s: "rx_spec (rx_capacity d w0) es ([], []) = Some (rx_view pending d w')" "one_way es []"
    using v(1,2) by (auto simp: rx_goes_def one_way_def)
  show ?thesis using rx_spec_subseq [OF s(1)] rx_spec_fits [OF s(1)] s(2) by (simp add: v(3))
qed

subsection \<open>A port that is read\<close>

definition sample_callbacks :: "port serial_callbacks" where
  "sample_callbacks = \<lparr>indicate = \<lambda>_ _ _. Some, complete = \<lambda>_ _ _. Some\<rparr>"

lemma sample_port_reads: "port_reads sample_uart fst d"
  by (auto simp: port_reads_def sample_uart_def split: list.splits)

lemma sample_callbacks_ok: "callbacks_ok I sample_callbacks pending d"
  by (simp add: callbacks_ok_def sample_callbacks_def undisturbed_def)

lemma sample_modes: "rx_modes 0x103" "(0x103 :: u16) AND RT_DEVICE_FLAG_INT_RX \<noteq> 0"
  by (simp_all add: rx_modes_def)

text \<open>Two bytes arrive, the handler runs, and one byte is read.\<close>

lemma sample_run:
  obtains w0 w1 w2 w3 where "rt_device_open sample_drv 0 0x103 (sample_port ([], [], [])) = Some (Done RT_EOK, w0)"
    "int_open 0 w0" "rx_view fst 0 w0 = ([], [])" "serial_bufsz w0 0 = 4" "hardware (snd w0) = ([], [], [])"
    "w1 = (fst w0, (snd w0)\<lparr>hardware := ([7, 8], [], [])\<rparr>)"
    "rt_hw_serial_isr sample_uart sample_callbacks 0 RT_SERIAL_EVENT_RX_IND w1 = Some w2"
    "rt_device_read sample_drv 0 0 0 1 w2 = Some (Done (1, [7]), w3)" "rx_view fst 0 w3 = ([8], [])"
    "rx_run sample_uart sample_callbacks sample_drv (\<lambda>_. True) fst 0 w0 w3 [Arrived [7, 8], Handled, Fetched 1 [7]]"
proof -
  obtain w0 where w0: "rt_device_open sample_drv 0 0x103 (sample_port ([], [], [])) = Some (Done RT_EOK, w0)" "hardware (snd w0) = ([], [], [])"
    by (rule sample_opened)
  have drv: "sample_drv 0 = serial_ops sample_uart (\<lambda>_. (0, 0)) 0x541B" by (simp add: sample_drv_def)
  have o: "int_open 0 w0" "fst (rx_view fst 0 w0) = []" "serial_bufsz w0 0 = 4"
    using opened_receives [OF sample_port_mem _ _ _ _ _ drv w0(1) sample_modes(1), of fst] by (simp_all add: zero_device_def)
  have v0: "rx_view fst 0 w0 = ([], [])" using o(2) w0(2) by (simp add: rx_view_def)
  let ?w1 = "(fst w0, (snd w0)\<lparr>hardware := ([7, 8], [], [])\<rparr>)"
  have r1: "rx_run sample_uart sample_callbacks sample_drv (\<lambda>_. True) fst 0 w0 ?w1 ([] @ [Arrived [7, 8]])"
    by (rule rx_run.arrive [OF rx_run.start]) (use o w0(2) in \<open>simp_all add: int_open_def\<close>)
  have s1: "serial_of ?w1 0 = serial_of w0 0" "serial_bufsz ?w1 0 = 4" using o(3) by (simp_all add: serial_of_def serial_bufsz_def)
  have o1: "int_open 0 ?w1" "rx_view fst 0 ?w1 = ([], [7, 8])" "rx_capacity 0 ?w1 = 3"
    using o s1 fst_frame [of ?w1 w0] by (auto simp: int_open_def rx_view_def rx_capacity_def)
  obtain w2 where w2: "rt_hw_serial_isr sample_uart sample_callbacks 0 RT_SERIAL_EVENT_RX_IND ?w1 = Some w2"
    "rx_after (\<lambda>_. True) fst 0 ?w1 w2 (keep_last (rx_capacity 0 ?w1) (fst (rx_view fst 0 ?w1) @ snd (rx_view fst 0 ?w1)), [])"
    using serial_handle_ok [OF o1(1) TrueI sample_port_reads sample_callbacks_ok] by blast
  have o2: "int_open 0 w2" "rx_view fst 0 w2 = ([7, 8], [])" using w2(2) o1 by (simp_all add: rx_after_def)
  have r2: "rx_run sample_uart sample_callbacks sample_drv (\<lambda>_. True) fst 0 w0 w2 (([] @ [Arrived [7, 8]]) @ [Handled])"
    by (rule rx_run.handle [OF r1 _ w2(1)]) (use o1(1) in \<open>simp add: int_open_def\<close>)
  obtain w3 where w3: "rt_device_read sample_drv 0 0 0 1 w2 = Some (Done (of_nat (length (take (unat (1 :: u32)) (fst (rx_view fst 0 w2)))),
      take (unat (1 :: u32)) (fst (rx_view fst 0 w2))), w3)"
    "rx_after (\<lambda>_. True) fst 0 w2 w3 (drop (unat (1 :: u32)) (fst (rx_view fst 0 w2)), snd (rx_view fst 0 w2))"
    by (rule serial_fetch_ok [where drv = sample_drv and d = 0 and w = w2 and n = 1 and pos = 0 and buffer = 0 and I = "\<lambda>_. True" and pending = fst, OF disjI1 [OF o2(1)] drv]) (simp_all add: o2)
  have r3: "rx_run sample_uart sample_callbacks sample_drv (\<lambda>_. True) fst 0 w0 w3 ((([] @ [Arrived [7, 8]]) @ [Handled]) @ [Fetched 1 [7]])"
    by (rule rx_run.fetch [OF r2]) (use w3(1) in \<open>simp add: o2\<close>)
  show ?thesis
    by (rule that [OF w0(1) o(1) v0 o(3) w0(2) refl w2(1)]) (use w3 r3 in \<open>simp_all add: o2 rx_after_def\<close>)
qed

lemma serial_reception_queue_witness:
  "\<exists>w0 w3. rt_device_open sample_drv 0 0x103 (sample_port ([], [], [])) = Some (Done RT_EOK, w0) \<and>
     rx_spec 3 [Arrived [7, 8], Handled, Fetched 1 [7]] ([], []) = Some (rx_view fst 0 w3) \<and>
     (\<exists>w4. rt_device_read sample_drv 0 0 0 5 w3 = Some (Done (1, [8]), w4))"
proof -
  obtain w0 w1 w2 w3 where r: "rt_device_open sample_drv 0 0x103 (sample_port ([], [], [])) = Some (Done RT_EOK, w0)" "int_open 0 w0"
    "rx_view fst 0 w0 = ([], [])" "serial_bufsz w0 0 = 4" "rx_view fst 0 w3 = ([8], [])"
    "rx_run sample_uart sample_callbacks sample_drv (\<lambda>_. True) fst 0 w0 w3 [Arrived [7, 8], Handled, Fetched 1 [7]]"
    by (rule sample_run)
  have c: "rx_capacity 0 w0 = 3" using r(2,4) by (simp add: rx_capacity_def int_open_def)
  have drv: "sample_drv 0 = serial_ops sample_uart (\<lambda>_. (0, 0)) 0x541B" by (simp add: sample_drv_def)
  note q = serial_reception_queue [where drv = sample_drv and d = 0 and n = 5 and pos = 0 and buffer = 0,
      OF r(6) disjI1 [OF r(2)] TrueI sample_port_reads sample_callbacks_ok drv]
  have "\<exists>w4. rt_device_read sample_drv 0 0 0 5 w3 = Some (Done (1, [8]), w4)" using q by (auto simp: r(5))
  moreover have "rx_spec 3 [Arrived [7, 8], Handled, Fetched 1 [7]] ([], []) = Some (rx_view fst 0 w3)" using q by (simp add: r(3) c)
  ultimately show ?thesis using r(1) by blast
qed

lemma serial_stream_witness:
  "\<exists>w0 w3. rt_device_open sample_drv 0 0x103 (sample_port ([], [], [])) = Some (Done RT_EOK, w0) \<and>
     rx_run sample_uart sample_callbacks sample_drv (\<lambda>_. True) fst 0 w0 w3 [Arrived [7, 8], Handled, Fetched 1 [7]] \<and>
     [7] @ fst (rx_view fst 0 w3) @ snd (rx_view fst 0 w3) = [7, 8]"
proof -
  obtain w0 w1 w2 w3 where r: "rt_device_open sample_drv 0 0x103 (sample_port ([], [], [])) = Some (Done RT_EOK, w0)" "hardware (snd w0) = ([], [], [])"
    "rx_run sample_uart sample_callbacks sample_drv (\<lambda>_. True) fst 0 w0 w3 [Arrived [7, 8], Handled, Fetched 1 [7]]"
    by (rule sample_run)
  have drv: "sample_drv 0 = serial_ops sample_uart (\<lambda>_. (0, 0)) 0x541B" by (simp add: sample_drv_def)
  have "[7] @ fst (rx_view fst 0 w3) @ snd (rx_view fst 0 w3) = [7, 8]"
    using serial_stream [OF sample_port_mem _ _ _ _ _ drv r(1) sample_modes(1) _ _ r(3) TrueI _ sample_port_reads sample_callbacks_ok] r(2)
    by (simp add: zero_device_def sample_modes)
  then show ?thesis using r by blast
qed

end
