(* ===== verification/SerialSend.thy ===== *)
theory SerialSend
  imports SerialStream
begin

unbundle bit_operations_syntax

section \<open>The DMA transmission of a serial device\<close>

text \<open>
  A write puts the address and the size of its buffer into the data queue and starts the
  transfer when none is under way; the interrupt at the end of a transfer drops the first item and
  starts the next one.  Interrupts are enabled between the push and the test for a transfer under
  way, so a write has two sections, and interrupts may fall between them.  Two things must not happen
  there: the end of the transfer of the buffer that was just pushed, and a second write.  With either of
  them a buffer is sent twice; this is shown at the end.
\<close>

text \<open>Every call of the driver's \<open>dma_transmit\<close> starts a transfer; \<open>sent\<close> is the list of them.\<close>

definition port_sends :: "'h rt_uart_ops \<Rightarrow> ('h \<Rightarrow> (u32 \<times> u32) list) \<Rightarrow> nat \<Rightarrow> bool" where
  "port_sends ops sent d \<longleftrightarrow>
     (\<exists>f. uart_dma_transmit ops = Some f \<and> (\<forall>p n h. sent (snd (f d p n RT_SERIAL_DMA_TX h)) = sent h @ [(p, n)]))"

definition can_send :: "nat \<Rightarrow> 'h serial_world \<Rightarrow> bool" where
  "can_send d w \<longleftrightarrow> is_device (dev_kernel w) d \<and> ref_count (device_of w d) \<noteq> 0 \<and>
     \<not> has_open_flag d RT_DEVICE_FLAG_INT_TX w \<and> has_open_flag d RT_DEVICE_FLAG_DMA_TX w"

definition tx_undisturbed :: "('h \<Rightarrow> (u32 \<times> u32) list) \<Rightarrow> nat \<Rightarrow> 'h serial_world \<Rightarrow> 'h serial_world \<Rightarrow> bool" where
  "tx_undisturbed sent d w w' \<longleftrightarrow> serial_tx (serial_of w' d) = serial_tx (serial_of w d) \<and>
     sent (hardware (snd w')) = sent (hardware (snd w))"

definition complete_quiet :: "'h serial_callbacks \<Rightarrow> ('h \<Rightarrow> (u32 \<times> u32) list) \<Rightarrow> nat \<Rightarrow> bool" where
  "complete_quiet cb sent d \<longleftrightarrow> (\<forall>a p w w'. complete cb a d p w = Some w' \<longrightarrow> tx_undisturbed sent d w w')"

text \<open>
  Writes, their continuations after a wait for room, and the interrupts at the end of the transfers
  that were started; \<open>xs\<close> are the buffers that writes put into the queue, in order, and \<open>n\<close> counts the
  interrupts.  A write either runs through (\<open>send\<close>, \<open>send_again\<close>), or stops between its two sections:
  \<open>pushed\<close> and \<open>pushed_again\<close> are the first section, after which the write is pending, and \<open>tested\<close> is the
  second one.  While a write is pending there are interrupts, all but the one that ends the transfer of its own
  buffer, which is the last one in \<open>xs\<close>, and no other write.
\<close>

definition accepted :: "u32 dev_result \<Rightarrow> u32 \<Rightarrow> u32 \<Rightarrow> (u32 \<times> u32) list" where
  "accepted r ptr sz = (if r = Done sz \<and> sz \<noteq> 0 then [(ptr, sz)] else [])"

inductive tx_run ::
    "'h rt_uart_ops \<Rightarrow> 'h serial_callbacks \<Rightarrow> (nat \<Rightarrow> ('h serial_state, serial_arg) dev_ops) \<Rightarrow> ('h \<Rightarrow> (u32 \<times> u32) list) \<Rightarrow>
       nat \<Rightarrow> 'h serial_world \<Rightarrow> 'h serial_world \<Rightarrow> (u32 \<times> u32) list \<Rightarrow> nat \<Rightarrow> (u32 \<times> u32) option \<Rightarrow> bool"
  for ops cb drv sent d w0 where
  start: "tx_run ops cb drv sent d w0 w0 [] 0 None"
| send: "tx_run ops cb drv sent d w0 w xs n None \<Longrightarrow> can_send d w \<Longrightarrow> rt_device_write drv d pos (ptr, data) sz w = Some (r, w') \<Longrightarrow>
    tx_run ops cb drv sent d w0 w' (xs @ accepted r ptr sz) n None"
| send_again: "tx_run ops cb drv sent d w0 w xs n None \<Longrightarrow> sz \<noteq> 0 \<Longrightarrow> serial_dma_tx_resume ops d t ptr sz w = Some (r, w') \<Longrightarrow>
    tx_run ops cb drv sent d w0 w' (xs @ accepted r ptr sz) n None"
| pushed: "tx_run ops cb drv sent d w0 w xs n None \<Longrightarrow> can_send d w \<Longrightarrow> sz \<noteq> 0 \<Longrightarrow> dma_tx_push d ptr sz w = Some (Returned RT_EOK, w') \<Longrightarrow>
    tx_run ops cb drv sent d w0 w' (xs @ [(ptr, sz)]) n (Some (ptr, sz))"
| pushed_again: "tx_run ops cb drv sent d w0 w xs n None \<Longrightarrow> sz \<noteq> 0 \<Longrightarrow> dma_tx_push_resume d t ptr sz w = Some (Returned RT_EOK, w') \<Longrightarrow>
    tx_run ops cb drv sent d w0 w' (xs @ [(ptr, sz)]) n (Some (ptr, sz))"
| tested: "tx_run ops cb drv sent d w0 w xs n (Some (ptr, sz)) \<Longrightarrow> dma_tx_start ops d ptr sz w = Some w' \<Longrightarrow>
    tx_run ops cb drv sent d w0 w' xs n None"
| finished: "tx_run ops cb drv sent d w0 w xs n pd \<Longrightarrow> n < length (sent (hardware (snd w))) \<Longrightarrow> pd = None \<or> Suc n < length xs \<Longrightarrow>
    rt_hw_serial_isr ops cb d RT_SERIAL_EVENT_TX_DMADONE w = Some w' \<Longrightarrow> tx_run ops cb drv sent d w0 w' xs (Suc n) pd"
| other: "tx_run ops cb drv sent d w0 w xs n pd \<Longrightarrow> tx_undisturbed sent d w w' \<Longrightarrow> tx_run ops cb drv sent d w0 w' xs n pd"

text \<open>The queue holds the buffers whose transfer is not over; the first of them is under way.\<close>

definition tx_holds :: "('h \<Rightarrow> (u32 \<times> u32) list) \<Rightarrow> nat \<Rightarrow> 'h serial_world \<Rightarrow> (u32 \<times> u32) list \<Rightarrow> nat \<Rightarrow> bool" where
  "tx_holds sent d w xs n \<longleftrightarrow> n \<le> length xs \<and> sent (hardware (snd w)) = take (Suc n) xs \<and>
     (\<exists>p q. serial_tx (serial_of w d) = Tx_dma p (n < length xs) q \<and> dq_holds q xs (take n xs) \<and> dq_notify q = 0)"

lemma quiet_no_notifier: "quiet_notifier no_notifier"
  by (simp add: quiet_notifier_def no_notifier_def)

lemma on_hardware_kernel [simp]: "dev_kernel (snd (on_hardware g w)) = dev_kernel w"
  by simp

lemma tx_holds_same:
  "serial_tx (serial_of w' d) = serial_tx (serial_of w d) \<Longrightarrow> sent (hardware (snd w')) = sent (hardware (snd w)) \<Longrightarrow>
     tx_holds sent d w' xs n = tx_holds sent d w xs n"
  by (simp add: tx_holds_def)

lemma map_kernel_snd [simp]: "snd (map_kernel f w) = snd w"
  by (cases w rule: dev_kernel.cases) simp

text \<open>The push appends the buffer or leaves the queue as it is.\<close>

lemma dma_tx_pushed:
  assumes h: "tx_holds sent d w xs n" and few: "length (xs @ [(ptr, sz)]) \<le> 65535"
    and p: "serial_tx (serial_of w d) = Tx_dma p act q" and e: "rt_data_queue_push no_notifier d ptr sz RT_WAITING_FOREVER (q, dev_kernel w) = Some (oc, q1, k1)"
  shows "dq_notify q1 = 0" "if oc = Returned RT_EOK then dq_holds q1 (xs @ [(ptr, sz)]) (take n xs) else q1 = q"
proof -
  have q: "dq_holds q xs (take n xs)" "dq_notify q = 0" using h p by (auto simp: tx_holds_def)
  note eff = push_effect [OF e quiet_no_notifier]
  show "if oc = Returned RT_EOK then dq_holds q1 (xs @ [(ptr, sz)]) (take n xs) else q1 = q"
    using holds_push [OF q(1) quiet_no_notifier e] few eff by (auto split: if_splits)
  show "dq_notify q1 = 0" using eff q(2) by (auto simp: dq_store_def bind_eq_Some_conv split: if_splits)
qed

lemma dma_tx_call:
  assumes h: "tx_holds sent d w xs n" and few: "length (xs @ accepted r ptr sz) \<le> 65535" and ports: "port_sends ops sent d" and sz: "sz \<noteq> 0"
    and p: "serial_tx (serial_of w d) = Tx_dma p act q" and e: "rt_data_queue_push no_notifier d ptr sz RT_WAITING_FOREVER (q, dev_kernel w) = Some (oc, q1, k1)"
    and f: "dma_tx_finish ops d ptr sz (oc, set_tx d (Tx_dma p act q1) (map_kernel (\<lambda>_. k1) w)) = Some (r, w')"
  shows "tx_holds sent d w' (xs @ accepted r ptr sz) n"
proof (cases "oc = Returned RT_EOK")
  case True
  let ?w = "set_tx d (Tx_dma p act q1) (map_kernel (\<lambda>_. k1) w)"
  obtain g where g: "uart_dma_transmit ops = Some g" "\<And>p n h. sent (snd (g d p n RT_SERIAL_DMA_TX h)) = sent h @ [(p, n)]"
    using ports by (auto simp: port_sends_def)
  have r: "r = Done sz" "dma_tx_start ops d ptr sz ?w = Some w'" using f True by (auto simp: dma_tx_finish_def bind_eq_Some_conv)
  then have a: "accepted r ptr sz = [(ptr, sz)]" using sz by (simp add: accepted_def)
  have q1: "dq_notify q1 = 0" "dq_holds q1 (xs @ [(ptr, sz)]) (take n xs)"
    using dma_tx_pushed [OF h _ p e] few True a by simp_all
  have n: "n \<le> length xs" "sent (hardware (snd w)) = take (Suc n) xs" "act = (n < length xs)" using h p by (auto simp: tx_holds_def)
  show ?thesis
  proof (cases act)
    case True
    then have "w' = ?w" using r(2) by (simp add: dma_tx_start_def)
    then show ?thesis using q1 n True by (simp add: tx_holds_def a)
  next
    case False
    then have "w' = snd (on_hardware (g d ptr sz RT_SERIAL_DMA_TX) (set_tx d (Tx_dma p True q1) ?w))"
      using r(2) g(1) by (simp add: dma_tx_start_def)
    then show ?thesis using q1 n False g(2) by (simp add: tx_holds_def a)
  qed
next
  case False
  have q1: "q1 = q"
    using push_effect [OF e quiet_no_notifier] False by (auto split: if_splits)
  have r: "accepted r ptr sz = []" "sent (hardware (snd w')) = sent (hardware (snd w))" "serial_tx (serial_of w' d) = Tx_dma p act q"
    using f False sz q1 by (auto simp: dma_tx_finish_def accepted_def split: outcome.splits)
  show ?thesis using tx_holds_same [of w' d w sent xs n] h p r by simp
qed

lemma serial_send_ok:
  assumes h: "tx_holds sent d w xs n" and few: "length (xs @ accepted r ptr sz) \<le> 65535" and ports: "port_sends ops sent d"
    and c: "can_send d w" and drv: "drv d = serial_ops ops junk fionread" and e: "rt_device_write drv d pos (ptr, data) sz w = Some (r, w')"
  shows "tx_holds sent d w' (xs @ accepted r ptr sz) n"
proof (cases "sz = 0")
  case True
  then have "w' = w" "accepted r ptr sz = []"
    using e c drv by (auto simp: rt_device_write_def serial_ops_def rt_serial_write_def require_def can_send_def accepted_def)
  then show ?thesis using h by simp
next
  case False
  then have "serial_dma_tx ops d ptr sz w = Some (r, w')"
    using e c drv by (auto simp: rt_device_write_def serial_ops_def rt_serial_write_def require_def can_send_def Let_def split: if_splits)
  moreover obtain p act q where p: "serial_tx (serial_of w d) = Tx_dma p act q" using h by (auto simp: tx_holds_def)
  ultimately obtain oc q1 k1 where "rt_data_queue_push no_notifier d ptr sz RT_WAITING_FOREVER (q, dev_kernel w) = Some (oc, q1, k1)"
    "dma_tx_finish ops d ptr sz (oc, set_tx d (Tx_dma p act q1) (map_kernel (\<lambda>_. k1) w)) = Some (r, w')"
    by (auto simp: serial_dma_tx_def dma_tx_push_def bind_eq_Some_conv)
  then show ?thesis by (rule dma_tx_call [OF h few ports False p])
qed

lemma serial_send_again_ok:
  assumes h: "tx_holds sent d w xs n" and few: "length (xs @ accepted r ptr sz) \<le> 65535" and ports: "port_sends ops sent d" and sz: "sz \<noteq> 0"
    and e: "serial_dma_tx_resume ops d t ptr sz w = Some (r, w')"
  shows "tx_holds sent d w' (xs @ accepted r ptr sz) n"
proof -
  obtain p act q where p: "serial_tx (serial_of w d) = Tx_dma p act q" using h by (auto simp: tx_holds_def)
  then obtain oc q1 k1 where q1: "rt_data_queue_push_resume no_notifier d t ptr sz RT_WAITING_FOREVER (q, dev_kernel w) = Some (oc, q1, k1)"
    "dma_tx_finish ops d ptr sz (oc, set_tx d (Tx_dma p act q1) (map_kernel (\<lambda>_. k1) w)) = Some (r, w')"
    using e by (auto simp: serial_dma_tx_resume_def dma_tx_push_resume_def bind_eq_Some_conv)
  from resume_effect(1) [OF q1(1)] show ?thesis
  proof
    assume "oc \<noteq> Returned RT_EOK \<and> (q1, k1) = (q, dev_kernel w)"
    then have "accepted r ptr sz = []" "sent (hardware (snd w')) = sent (hardware (snd w))" "serial_tx (serial_of w' d) = Tx_dma p act q"
      using q1(2) sz by (auto simp: dma_tx_finish_def accepted_def split: outcome.splits)
    then show ?thesis using tx_holds_same [of w' d w sent xs n] h p by simp
  next
    assume "rt_data_queue_push no_notifier d ptr sz RT_WAITING_FOREVER (q, dev_kernel w) = Some (oc, q1, k1)"
    then show ?thesis by (rule dma_tx_call [OF h few ports sz p _ q1(2)])
  qed
qed

lemma holds_rest:
  assumes "dq_holds q xs (take n xs)"
  shows "dq_list q = drop n xs"
proof -
  have "take n xs @ dq_list q = take n xs @ drop n xs" using assms by (simp add: dq_holds_def)
  then show ?thesis by (simp only: same_append_eq)
qed

lemma dq_popped:
  assumes "dq_holds q xs (take n xs)" "n < length xs" "rt_data_queue_pop no_notifier d 0 (q, k) = Some ((oc, r), q1, k1)"
  shows "r = Some (xs ! n)" "dq_holds q1 xs (take (Suc n) xs)" "dq_notify q1 = dq_notify q"
    "rt_data_queue_peak q1 = (if Suc n < length xs then Some (RT_EOK, Some (xs ! Suc n)) else Some (- RT_EEMPTY, None))"
proof -
  have ok: "dq_ok q" using assms(1) by (simp add: dq_holds_def)
  have l: "dq_list q = xs ! n # drop (Suc n) xs" using holds_rest [OF assms(1)] assms(2) by (simp add: Cons_nth_drop_Suc)
  then have "dq_get q \<noteq> dq_put q" using dq_empty [OF ok] by simp
  then obtain x where x: "r = Some x" "dq_fetch q = Some (x, q1)" using pop_effect [OF assms(3) quiet_no_notifier] by auto
  obtain q' where q': "dq_fetch q = Some (xs ! n, q')" "dq_notify q' = dq_notify q" by (rule dq_fetch_ok [OF ok l])
  show r: "r = Some (xs ! n)" "dq_notify q1 = dq_notify q" using x q' by simp_all
  show h1: "dq_holds q1 xs (take (Suc n) xs)"
    using holds_pop [OF assms(1) quiet_no_notifier assms(3)] r(1) assms(2) by (simp add: take_Suc_conv_app_nth)
  have "dq_list q1 = drop (Suc n) xs" by (rule holds_rest [OF h1])
  then show "rt_data_queue_peak q1 = (if Suc n < length xs then Some (RT_EOK, Some (xs ! Suc n)) else Some (- RT_EEMPTY, None))"
    using dq_peak_ok [of q1] h1 by (auto simp: dq_holds_def split: list.splits simp flip: Cons_nth_drop_Suc)
qed

text \<open>The end of a transfer, whatever was transferred: the first item of the queue goes and the next one is started.\<close>

lemma serial_isr_tx_step:
  assumes p: "serial_tx (serial_of w d) = Tx_dma p act q" "dq_holds q xs (take n xs)" "n < length xs"
    and ports: "port_sends ops sent d" and quiet: "complete_quiet cb sent d" and e: "rt_hw_serial_isr ops cb d RT_SERIAL_EVENT_TX_DMADONE w = Some w'"
  obtains q1 where "serial_tx (serial_of w' d) = Tx_dma p (Suc n < length xs) q1" "dq_holds q1 xs (take (Suc n) xs)" "dq_notify q1 = dq_notify q"
    "sent (hardware (snd w')) = sent (hardware (snd w)) @ (if Suc n < length xs then [xs ! Suc n] else [])"
proof -
  obtain g where g: "uart_dma_transmit ops = Some g" "\<And>p n h. sent (snd (g d p n RT_SERIAL_DMA_TX h)) = sent h @ [(p, n)]"
    using ports by (auto simp: port_sends_def)
  have isr: "serial_isr_tx_dma ops cb d w = Some w'" using e by (simp add: rt_hw_serial_isr_def)
  then obtain oc r q1 k1 where pop: "rt_data_queue_pop no_notifier d 0 (q, dev_kernel w) = Some ((oc, r), q1, k1)"
    by (auto simp: serial_isr_tx_dma_def p(1) bind_eq_Some_conv)
  note r = dq_popped [OF p(2,3) pop]
  let ?w1 = "map_kernel (\<lambda>_. k1) w"
  define w2 where "w2 = (if Suc n < length xs then snd (on_hardware (g d (fst (xs ! Suc n)) (snd (xs ! Suc n)) RT_SERIAL_DMA_TX) (set_tx d (Tx_dma p True q1) ?w1))
     else set_tx d (Tx_dma p False q1) ?w1)"
  have w2: "serial_tx (serial_of w2 d) = Tx_dma p (Suc n < length xs) q1"
    "sent (hardware (snd w2)) = sent (hardware (snd w)) @ (if Suc n < length xs then [xs ! Suc n] else [])"
    by (simp_all add: w2_def g(2))
  have "w' = w2 \<or> (\<exists>a ptr. complete cb a d ptr w2 = Some w')"
    using isr g(1) by (auto simp: serial_isr_tx_dma_def p(1) pop r(1,4) w2_def split_beta Let_def split: if_splits)
  then have "serial_tx (serial_of w' d) = serial_tx (serial_of w2 d) \<and> sent (hardware (snd w')) = sent (hardware (snd w2))"
    using quiet unfolding complete_quiet_def tx_undisturbed_def by metis
  then show ?thesis using that w2 r(2,3) by metis
qed

lemma serial_sent_ok:
  assumes h: "tx_holds sent d w xs n" and ports: "port_sends ops sent d" and quiet: "complete_quiet cb sent d"
    and n: "n < length (sent (hardware (snd w)))" and e: "rt_hw_serial_isr ops cb d RT_SERIAL_EVENT_TX_DMADONE w = Some w'"
  shows "tx_holds sent d w' xs (Suc n)"
proof -
  have lt: "n < length xs" and s: "sent (hardware (snd w)) = take (Suc n) xs" using h n by (auto simp: tx_holds_def)
  obtain p q where p: "serial_tx (serial_of w d) = Tx_dma p True q" "dq_holds q xs (take n xs)" "dq_notify q = 0"
    using h lt by (auto simp: tx_holds_def)
  obtain q1 where q1: "serial_tx (serial_of w' d) = Tx_dma p (Suc n < length xs) q1" "dq_holds q1 xs (take (Suc n) xs)" "dq_notify q1 = dq_notify q"
    "sent (hardware (snd w')) = sent (hardware (snd w)) @ (if Suc n < length xs then [xs ! Suc n] else [])"
    by (rule serial_isr_tx_step [OF p(1,2) lt ports quiet e])
  show ?thesis
  proof (cases "Suc n < length xs")
    case True
    then show ?thesis using q1 p(3) s by (simp add: tx_holds_def take_Suc_conv_app_nth [of "Suc n"])
  next
    case False
    then show ?thesis using q1 p(3) s lt by (simp add: tx_holds_def)
  qed
qed

text \<open>
  Between the sections of a write the queue holds its buffer too; the flag says whether a transfer is under way
  that started before.  The second section starts the transfer when there was none.
\<close>

definition tx_state :: "('h \<Rightarrow> (u32 \<times> u32) list) \<Rightarrow> nat \<Rightarrow> 'h serial_world \<Rightarrow> (u32 \<times> u32) list \<Rightarrow> nat \<Rightarrow> (u32 \<times> u32) option \<Rightarrow> bool" where
  "tx_state sent d w xs n pd \<longleftrightarrow> n \<le> length xs \<and>
     (\<exists>p act q. serial_tx (serial_of w d) = Tx_dma p act q \<and> dq_holds q xs (take n xs) \<and> dq_notify q = 0 \<and>
        sent (hardware (snd w)) = take (if act then Suc n else n) xs \<and>
        (case pd of None \<Rightarrow> act = (n < length xs) | Some x \<Rightarrow> xs \<noteq> [] \<and> last xs = x \<and> (if act then n < length xs else Suc n = length xs)))"

lemma tx_state_quiet: "tx_state sent d w xs n None = tx_holds sent d w xs n"
  by (auto simp: tx_state_def tx_holds_def)

lemma tx_state_same:
  "serial_tx (serial_of w' d) = serial_tx (serial_of w d) \<Longrightarrow> sent (hardware (snd w')) = sent (hardware (snd w)) \<Longrightarrow>
     tx_state sent d w' xs n pd = tx_state sent d w xs n pd"
  by (simp add: tx_state_def)

lemma dma_push_state:
  assumes h: "tx_holds sent d w xs n" and few: "length (xs @ [(ptr, sz)]) \<le> 65535" and e: "dma_tx_push d ptr sz w = Some (Returned RT_EOK, w')"
  shows "tx_state sent d w' (xs @ [(ptr, sz)]) n (Some (ptr, sz))"
proof -
  obtain p act q where p: "serial_tx (serial_of w d) = Tx_dma p act q" using h by (auto simp: tx_holds_def)
  then obtain q1 k1 where q1: "rt_data_queue_push no_notifier d ptr sz RT_WAITING_FOREVER (q, dev_kernel w) = Some (Returned RT_EOK, q1, k1)"
    "w' = set_tx d (Tx_dma p act q1) (map_kernel (\<lambda>_. k1) w)" using e by (auto simp: dma_tx_push_def bind_eq_Some_conv)
  have h1: "dq_notify q1 = 0" "dq_holds q1 (xs @ [(ptr, sz)]) (take n xs)" using dma_tx_pushed [OF h few p q1(1)] by simp_all
  have n: "n \<le> length xs" "sent (hardware (snd w)) = take (Suc n) xs" "act = (n < length xs)" using h p by (auto simp: tx_holds_def)
  show ?thesis using h1 n by (cases act) (auto simp: tx_state_def q1(2))
qed

lemma dma_push_resumed:
  assumes e: "dma_tx_push_resume d t ptr sz w = Some (Returned RT_EOK, w')"
  shows "dma_tx_push d ptr sz w = Some (Returned RT_EOK, w')"
proof (cases "serial_tx (serial_of w d)")
  case (Tx_dma p act q)
  then obtain q1 k1 where q1: "rt_data_queue_push_resume no_notifier d t ptr sz RT_WAITING_FOREVER (q, dev_kernel w) = Some (Returned RT_EOK, q1, k1)"
    "w' = set_tx d (Tx_dma p act q1) (map_kernel (\<lambda>_. k1) w)" using e by (auto simp: dma_tx_push_resume_def bind_eq_Some_conv)
  then have "rt_data_queue_push no_notifier d ptr sz RT_WAITING_FOREVER (q, dev_kernel w) = Some (Returned RT_EOK, q1, k1)"
    using resume_effect(1) [OF q1(1)] by blast
  then show ?thesis using q1(2) Tx_dma by (simp add: dma_tx_push_def)
qed (use e in \<open>simp_all add: dma_tx_push_resume_def\<close>)

lemma dma_start_state:
  assumes h: "tx_state sent d w xs n (Some (ptr, sz))" and ports: "port_sends ops sent d" and e: "dma_tx_start ops d ptr sz w = Some w'"
  shows "tx_holds sent d w' xs n"
proof -
  obtain g where g: "uart_dma_transmit ops = Some g" "\<And>p n h. sent (snd (g d p n RT_SERIAL_DMA_TX h)) = sent h @ [(p, n)]"
    using ports by (auto simp: port_sends_def)
  obtain p act q where p: "serial_tx (serial_of w d) = Tx_dma p act q" "dq_holds q xs (take n xs)" "dq_notify q = 0" "n \<le> length xs"
    "sent (hardware (snd w)) = take (if act then Suc n else n) xs" "xs \<noteq> []" "last xs = (ptr, sz)" "if act then n < length xs else Suc n = length xs"
    using h by (auto simp: tx_state_def)
  show ?thesis
  proof (cases act)
    case True
    then show ?thesis using e p by (simp add: dma_tx_start_def tx_holds_def)
  next
    case False
    then have w': "w' = snd (on_hardware (g d ptr sz RT_SERIAL_DMA_TX) (set_tx d (Tx_dma p True q) w))" using e g(1) p(1) by (simp add: dma_tx_start_def)
    have n: "Suc n = length xs" using p(8) False by simp
    then have "take n xs @ [(ptr, sz)] = xs" using append_butlast_last_id [OF p(6)] p(7) by (simp add: butlast_conv_take flip: n)
    then show ?thesis using p False n g(2) by (simp add: tx_holds_def w')
  qed
qed

lemma tx_finished_state:
  assumes h: "tx_state sent d w xs n pd" and ports: "port_sends ops sent d" and quiet: "complete_quiet cb sent d"
    and n: "n < length (sent (hardware (snd w)))" "pd = None \<or> Suc n < length xs" and e: "rt_hw_serial_isr ops cb d RT_SERIAL_EVENT_TX_DMADONE w = Some w'"
  shows "tx_state sent d w' xs (Suc n) pd"
proof -
  have "tx_holds sent d w xs n" using h n(1) by (auto simp: tx_state_def tx_holds_def split: option.splits if_splits)
  then have "tx_holds sent d w' xs (Suc n)" by (rule serial_sent_ok [OF _ ports quiet n(1) e])
  then show ?thesis using h n(2) by (cases pd) (auto simp: tx_state_def tx_holds_def)
qed

lemma tx_run_holds:
  assumes "tx_run ops cb drv sent d w0 w xs n pd" "tx_holds sent d w0 [] 0" "drv d = serial_ops ops junk fionread" "port_sends ops sent d" "complete_quiet cb sent d"
  shows "length xs \<le> 65535 \<Longrightarrow> tx_state sent d w xs n pd"
  using assms(1)
proof (induction rule: tx_run.induct)
  case start
  then show ?case using assms(2) by (simp add: tx_state_quiet)
next
  case (send w xs n pos ptr data sz r w')
  then show ?case using serial_send_ok [where drv = drv and d = d, OF _ _ assms(4) _ assms(3)] by (simp add: tx_state_quiet)
next
  case (send_again w xs n sz t ptr r w')
  then show ?case using serial_send_again_ok [OF _ _ assms(4)] by (simp add: tx_state_quiet)
next
  case (pushed w xs n sz ptr w')
  then show ?case using dma_push_state by (simp add: tx_state_quiet)
next
  case (pushed_again w xs n sz t ptr w')
  then show ?case using dma_push_state [OF _ _ dma_push_resumed] by (simp add: tx_state_quiet)
next
  case (tested w xs n ptr sz w')
  then show ?case using dma_start_state [OF _ assms(4)] by (simp add: tx_state_quiet)
next
  case (finished w xs n pd w')
  then show ?case using tx_finished_state [OF _ assms(4,5)] by simp
next
  case (other w xs n pd w')
  then show ?case using tx_state_same [of w' d w sent xs n pd] by (simp add: tx_undisturbed_def)
qed

text \<open>An opening for transmission by DMA; the result of the queue's own allocation is not checked.\<close>

lemma serial_open_tx_dma:
  assumes m: "serial_mem h0 d w live" and o: "serial_open_tx ops junk d oflag w = Some (Done (), w')"
    and none: "serial_tx (serial_of w d) = Tx_none" and mode: "oflag AND RT_DEVICE_FLAG_INT_TX = 0" "oflag AND RT_DEVICE_FLAG_DMA_TX \<noteq> 0"
  obtains p q where "serial_tx (serial_of w' d) = Tx_dma p False q" "dq_put q = 0" "dq_get q = 0" "dq_notify q = 0" "dq_items q \<noteq> [] \<longrightarrow> dq_ok q"
proof -
  let ?w = "\<lambda>p q w2. low_control ops d RT_DEVICE_CTRL_CONFIG RT_DEVICE_FLAG_DMA_TX (or_open_flag d RT_DEVICE_FLAG_DMA_TX (set_tx d (Tx_dma p False q) w2))"
  let ?F = "\<lambda>p w1. Option.bind (serial_queue_init junk d junk_queue w1) (\<lambda>(rq, w2). case rq of Waits \<Rightarrow> Some (Waits, w2) | Done q \<Rightarrow> Some (Done (), ?w p q w2))"
  have "Option.bind (serial_alloc sizeof_tx_dma w) (\<lambda>(r, w1). case r of Waits \<Rightarrow> Some (Waits, w1) | Done p \<Rightarrow> ?F p w1) = Some (Done (), w')"
    using o none mode by (simp add: serial_open_tx_def)
  then obtain p w1 where F: "?F p w1 = Some (Done (), w')" by (rule alloc_bind [OF m])
  obtain rq w2 where q: "serial_queue_init junk d junk_queue w1 = Some (rq, w2)"
      "(case rq of Waits \<Rightarrow> Some (Waits, w2) | Done q \<Rightarrow> Some (Done (), ?w p q w2)) = Some (Done (), w')" using F by (rule bind_pairE)
  then obtain q where r: "rq = Done q" "w' = ?w p q w2" by (cases rq) auto
  have "dq_put q = 0 \<and> dq_get q = 0 \<and> dq_notify q = 0 \<and> (dq_items q \<noteq> [] \<longrightarrow> dq_ok q)"
  proof -
    obtain res h k where m: "rt_malloc (sizeof_data_item * 8) (fst w1) = Some (res, h, k)"
      using q(1) by (auto simp: serial_queue_init_def bind_eq_Some_conv)
    show ?thesis
    proof (cases res)
      case (Mem a)
      then show ?thesis using q(1) m by (auto simp: r(1) serial_queue_init_def rt_data_queue_init_def dq_ok_def Let_def split: if_splits)
    next
      case Heap_blocked
      then show ?thesis using q(1) m by (simp add: r(1) serial_queue_init_def)
    qed
  qed
  then show ?thesis using that [of p q] by (simp add: r(2))
qed

text \<open>C37: From an opening for DMA transmission that got memory for its queue on, over every sequence of
  writes, writes that waited for room and interrupts, with at most 65535 buffers, in which interrupts also fall
  between the push of a write and its test for a transfer under way, but not the end of that write's own transfer,
  and no second write (with these a buffer is sent twice: \<open>interrupted_write_sent_twice\<close>, \<open>second_writer_sent_twice\<close>).
  The transfers that were started are the first of the buffers that writes put into the queue, in order and each
  once; while no write is between its sections always one more than have ended until all are under way; the flag says
  whether one is under way, and the queue holds the rest.\<close>

theorem serial_transmits_in_order:
  assumes "serial_mem h0 d w live" "serial_rx (serial_of w d) = Rx_none" "serial_tx (serial_of w d) = Tx_none"
    and "is_device (dev_kernel w) d" "ref_count (device_of w d) = 0" "dev_flag (device_of w d) AND RT_DEVICE_FLAG_ACTIVATED \<noteq> 0"
    and "drv d = serial_ops ops junk fionread" "rt_device_open drv d oflag w = Some (Done RT_EOK, w0)"
    and "oflag AND RT_DEVICE_FLAG_INT_TX = 0" "oflag AND RT_DEVICE_FLAG_DMA_TX \<noteq> 0"
    and "serial_tx (serial_of w0 d) = Tx_dma p0 act q0" "dq_items q0 \<noteq> []"
    and "tx_run ops cb drv sent d w0 w' xs n pd" "sent (hardware (snd w0)) = []" "port_sends ops sent d" "complete_quiet cb sent d" "length xs \<le> 65535"
  shows "n \<le> length xs \<and> can_send d w0 \<and>
    (\<exists>p active q. serial_tx (serial_of w' d) = Tx_dma p active q \<and> dq_list q = drop n xs \<and>
       sent (hardware (snd w')) = take (if active then Suc n else n) xs \<and>
       (pd = None \<longrightarrow> active = (n < length xs) \<and> sent (hardware (snd w')) = take (Suc n) xs))"
proof (cases rule: device_opened [where drv = drv and d = d, OF assms(1-8)])
  case (1 w2 w3 live2)
  obtain p q where q: "serial_tx (serial_of w3 d) = Tx_dma p False q" "dq_put q = 0" "dq_get q = 0" "dq_notify q = 0" "dq_items q \<noteq> [] \<longrightarrow> dq_ok q"
    by (rule serial_open_tx_dma [OF 1(2,3,4) assms(9,10)])
  have "dq_ok q" using q(1,5) assms(11,12) 1(6) by simp
  then have "tx_holds sent d w0 [] 0" using q(1-4) 1(6) assms(14) by (simp add: tx_holds_def dq_holds_def dq_list_def)
  then have h: "tx_state sent d w' xs n pd" by (rule tx_run_holds [where drv = drv and d = d, OF assms(13) _ assms(7,15,16,17)])
  then obtain p1 active q1 where h1: "serial_tx (serial_of w' d) = Tx_dma p1 active q1" "dq_holds q1 xs (take n xs)" "n \<le> length xs"
    "sent (hardware (snd w')) = take (if active then Suc n else n) xs" by (auto simp: tx_state_def)
  have "can_send d w0" using 1(8,9,12,13) assms(9,10) by (simp add: can_send_def)
  moreover have "pd = None \<longrightarrow> active = (n < length xs) \<and> sent (hardware (snd w')) = take (Suc n) xs"
    using h h1(1) by (auto simp: tx_state_quiet tx_holds_def)
  ultimately show ?thesis using h1 holds_rest [OF h1(2)] by simp
qed

subsection \<open>A write that is interrupted\<close>

text \<open>
  The two steps that \<open>tx_run\<close> leaves out.  When the transfers of both the buffer that is under way and
  the new one end between the push and the test of \<open>activated\<close>, the write starts its buffer again.
\<close>

lemma interrupted_write_sent_twice:
  assumes h: "tx_holds sent d w [y] 0" and ports: "port_sends ops sent d" and quiet: "complete_quiet cb sent d"
    and push: "dma_tx_push d ptr sz w = Some (Returned RT_EOK, w1)"
    and isr: "rt_hw_serial_isr ops cb d RT_SERIAL_EVENT_TX_DMADONE w1 = Some w2" "rt_hw_serial_isr ops cb d RT_SERIAL_EVENT_TX_DMADONE w2 = Some w3"
    and go: "dma_tx_start ops d ptr sz w3 = Some w4"
  shows "sent (hardware (snd w4)) = [y, (ptr, sz), (ptr, sz)]"
proof -
  obtain p q where p: "serial_tx (serial_of w d) = Tx_dma p True q" using h by (auto simp: tx_holds_def)
  then obtain q1 k1 where q1: "rt_data_queue_push no_notifier d ptr sz RT_WAITING_FOREVER (q, dev_kernel w) = Some (Returned RT_EOK, q1, k1)"
    "w1 = set_tx d (Tx_dma p True q1) (map_kernel (\<lambda>_. k1) w)" using push by (auto simp: dma_tx_push_def bind_eq_Some_conv)
  have "dq_notify q1 = 0" "dq_holds q1 [y, (ptr, sz)] []" using dma_tx_pushed [OF h _ p q1(1)] by simp_all
  then have 1: "tx_holds sent d w1 [y, (ptr, sz)] 0" using h by (simp add: tx_holds_def q1(2))
  have 2: "tx_holds sent d w2 [y, (ptr, sz)] 1" using serial_sent_ok [OF 1 ports quiet _ isr(1)] 1 by (simp add: tx_holds_def)
  have 3: "tx_holds sent d w3 [y, (ptr, sz)] 2" using serial_sent_ok [OF 2 ports quiet _ isr(2)] 2 by (simp add: tx_holds_def numeral_2_eq_2)
  obtain g where g: "uart_dma_transmit ops = Some g" "\<And>p n h. sent (snd (g d p n RT_SERIAL_DMA_TX h)) = sent h @ [(p, n)]"
    using ports by (auto simp: port_sends_def)
  obtain p' q' where "serial_tx (serial_of w3 d) = Tx_dma p' False q'" "sent (hardware (snd w3)) = [y, (ptr, sz)]"
    using 3 by (auto simp: tx_holds_def)
  then show ?thesis using go g by (auto simp: dma_tx_start_def)
qed

text \<open>A second writer that comes in between starts its own buffer, which the interrupt then starts again
  instead of the first one.\<close>

lemma second_writer_sent_twice:
  assumes h: "tx_holds sent d w [] 0" and ports: "port_sends ops sent d" and quiet: "complete_quiet cb sent d" and sz: "sz2 \<noteq> 0"
    and push: "dma_tx_push d ptr1 sz1 w = Some (Returned RT_EOK, w1)" and second: "serial_dma_tx ops d ptr2 sz2 w1 = Some (Done sz2, w2)"
    and go: "dma_tx_start ops d ptr1 sz1 w2 = Some w3" and isr: "rt_hw_serial_isr ops cb d RT_SERIAL_EVENT_TX_DMADONE w3 = Some w4"
  shows "sent (hardware (snd w4)) = [(ptr2, sz2), (ptr2, sz2)]"
proof -
  let ?xs = "[(ptr1, sz1), (ptr2, sz2)]"
  obtain g where g: "uart_dma_transmit ops = Some g" "\<And>p n h. sent (snd (g d p n RT_SERIAL_DMA_TX h)) = sent h @ [(p, n)]"
    using ports by (auto simp: port_sends_def)
  obtain p q where p: "serial_tx (serial_of w d) = Tx_dma p False q" "sent (hardware (snd w)) = []" using h by (auto simp: tx_holds_def)
  then obtain q1 k1 where q1: "rt_data_queue_push no_notifier d ptr1 sz1 RT_WAITING_FOREVER (q, dev_kernel w) = Some (Returned RT_EOK, q1, k1)"
    "w1 = set_tx d (Tx_dma p False q1) (map_kernel (\<lambda>_. k1) w)" using push by (auto simp: dma_tx_push_def bind_eq_Some_conv)
  have h1: "dq_holds q1 [(ptr1, sz1)] []" using dma_tx_pushed [OF h _ p(1) q1(1)] by simp
  obtain oc q2 k2 where q2: "rt_data_queue_push no_notifier d ptr2 sz2 RT_WAITING_FOREVER (q1, dev_kernel w1) = Some (oc, q2, k2)"
    "dma_tx_finish ops d ptr2 sz2 (oc, set_tx d (Tx_dma p False q2) (map_kernel (\<lambda>_. k2) w1)) = Some (Done sz2, w2)"
    using second by (auto simp: serial_dma_tx_def dma_tx_push_def bind_eq_Some_conv q1(2))
  have oc: "oc = Returned RT_EOK" using q2(2) sz by (auto simp: dma_tx_finish_def split: outcome.splits if_splits)
  then have h2: "dq_holds q2 ?xs []" using holds_push [OF h1 quiet_no_notifier q2(1)] by simp
  have w2: "serial_tx (serial_of w2 d) = Tx_dma p True q2" "sent (hardware (snd w2)) = [(ptr2, sz2)]"
    using q2(2) g p(2) by (auto simp: dma_tx_finish_def oc dma_tx_start_def q1(2))
  then have "w3 = w2" using go by (simp add: dma_tx_start_def)
  then show ?thesis
    using serial_isr_tx_step [OF w2(1), of ?xs 0 ops sent cb w4] h2 ports quiet isr w2(2) by auto
qed

subsection \<open>Calls that do not wait\<close>

lemma map_kernel_same [simp]: "map_kernel (\<lambda>_. dev_kernel w) w = w"
  by (cases w rule: dev_kernel.cases) simp

text \<open>A push with room in the queue and nobody waiting succeeds, and so does a write, and the interrupt when no writer waits
  and no function is registered.\<close>

lemma dma_push_room:
  assumes h: "tx_holds sent d w xs n" and q: "serial_tx (serial_of w d) = Tx_dma p act q" "length xs - n < unat (dq_size q)" "length xs < 65535"
      "queues (dev_kernel w) (Poppers d) = []"
  obtains q' where "dma_tx_push d ptr sz w = Some (Returned RT_EOK, set_tx d (Tx_dma p act q') w)" "dq_size q' = dq_size q"
proof -
  have hq: "dq_ok q" "dq_list q = drop n xs" "unat (dq_put q) < 65535" "dq_notify q = 0"
    using h q(1,3) holds_rest [of q xs n] by (auto simp: tx_holds_def) (auto simp: dq_holds_def)
  then have "length (dq_list q) < unat (dq_size q)" using q(2) by simp
  from dq_store_ok [OF hq(1) this hq(3), of ptr sz] obtain q' where q': "dq_store ptr sz q = Some q'" "dq_notify q' = 0" "dq_size q' = dq_size q"
    using hq(4) by metis
  have "dq_fill q \<noteq> uint (dq_size q)" using dq_full [OF hq(1)] hq(2) q(2) by auto
  then have "rt_data_queue_push no_notifier d ptr sz RT_WAITING_FOREVER (q, dev_kernel w) = Some (Returned RT_EOK, q', dev_kernel w)"
    using q' q(4) by (simp add: rt_data_queue_push_def tlist_isempty_def dq_tell_def)
  then show ?thesis using that q(1) q'(3) by (simp add: dma_tx_push_def)
qed

lemma serial_send_room:
  assumes h: "tx_holds sent d w xs n" and ports: "port_sends ops sent d" and c: "can_send d w" and drv: "drv d = serial_ops ops junk fionread"
    and q: "serial_tx (serial_of w d) = Tx_dma p act q" "length xs - n < unat (dq_size q)" "length xs < 65535" "queues (dev_kernel w) (Poppers d) = []"
    and sz: "sz \<noteq> 0" "sz < 0x80000000" "unat sz \<le> length data"
  obtains w' q' where "rt_device_write drv d pos (ptr, data) sz w = Some (Done sz, w')" "dev_kernel w' = dev_kernel w"
    "serial_tx (serial_of w' d) = Tx_dma p True q'" "dq_size q' = dq_size q"
proof -
  obtain g where g: "uart_dma_transmit ops = Some g" using ports by (auto simp: port_sends_def)
  obtain q' where q': "dma_tx_push d ptr sz w = Some (Returned RT_EOK, set_tx d (Tx_dma p act q') w)" "dq_size q' = dq_size q"
    by (rule dma_push_room [OF h q])
  let ?w = "set_tx d (Tx_dma p act q') w"
  define w' where "w' = (if act then ?w else snd (on_hardware (g d ptr sz RT_SERIAL_DMA_TX) (set_tx d (Tx_dma p True q') ?w)))"
  have "rt_device_write drv d pos (ptr, data) sz w = Some (Done sz, w')"
    using c drv sz g q'(1)
    by (simp add: rt_device_write_def serial_ops_def rt_serial_write_def require_def can_send_def Let_def serial_dma_tx_def
        dma_tx_finish_def dma_tx_start_def w'_def)
  then show ?thesis by (rule that [of w' q']) (simp_all add: w'_def q'(2))
qed

lemma serial_sent_quiet:
  assumes p: "serial_tx (serial_of w d) = Tx_dma p act q" "dq_holds q xs (take n xs)" "n < length xs" "dq_notify q = 0"
    and ports: "port_sends ops sent d" and k: "queues (dev_kernel w) (Pushers d) = []" "tx_complete (device_of w d) = 0"
  obtains w' where "rt_hw_serial_isr ops cb d RT_SERIAL_EVENT_TX_DMADONE w = Some w'"
proof -
  obtain g where g: "uart_dma_transmit ops = Some g" using ports by (auto simp: port_sends_def)
  have "dq_ok q" "dq_list q = xs ! n # drop (Suc n) xs" using p(2,3) holds_rest [OF p(2)] by (simp_all add: dq_holds_def Cons_nth_drop_Suc)
  then obtain q1 where q1: "dq_fetch q = Some (xs ! n, q1)" "dq_notify q1 = 0" "dq_get q \<noteq> dq_put q"
    using dq_fetch_ok dq_empty p(4) by (metis list.discI)
  have pop: "rt_data_queue_pop no_notifier d 0 (q, dev_kernel w) = Some ((Returned RT_EOK, Some (xs ! n)), q1, dev_kernel w)"
    using q1 k(1) by (simp add: rt_data_queue_pop_def tlist_isempty_def dq_tell_def)
  note r = dq_popped [OF p(2,3) pop]
  have "\<exists>w'. serial_isr_tx_dma ops cb d w = Some w'"
    using g k(2) by (simp add: serial_isr_tx_dma_def p(1) pop r(4) split_beta Let_def del: split_paired_Ex)
  then show ?thesis using that by (auto simp: rt_hw_serial_isr_def)
qed

subsection \<open>A port that sends\<close>

definition big_heap :: heap where
  "big_heap = the (heap_setup 0x1001 0x2001 zero_heap)"

lemma big_heap_eq: "heap_setup 0x1001 0x2001 zero_heap = Some big_heap"
  by (simp add: big_heap_def zero_heap_def heap_setup_def rt_align_def rt_align_down_def upd_mem_def)

lemma big_heap_rep: "heap_rep big_heap [(4080, False)]" "lfree_lowest big_heap [(4080, False)]" "mem_size_aligned big_heap = 4068"
proof -
  show "heap_rep big_heap [(4080, False)]" "lfree_lowest big_heap [(4080, False)]"
    using heap_setup_ok [of "0x1001" "0x2001" zero_heap] by (simp_all add: big_heap_eq) (auto simp: rt_align_def rt_align_down_def zero_heap_def)
  show "mem_size_aligned big_heap = 4068"
    by (simp add: big_heap_def zero_heap_def heap_setup_def rt_align_def rt_align_down_def upd_mem_def)
qed

definition big_port :: "port \<Rightarrow> port serial_world" where
  "big_port p = ((big_heap, dev_kernel (sample_port p)), snd (sample_port p))"

lemma big_port_simps [simp]:
  "dev_kernel (big_port p) = dev_kernel (sample_port p)" "snd (big_port p) = snd (sample_port p)" "fst (fst (big_port p)) = big_heap"
  "serial_of (big_port p) d = serial_of (sample_port p) d" "device_of (big_port p) d = device_of (sample_port p) d"
  "serial_bufsz (big_port p) d = serial_bufsz (sample_port p) d"
  by (simp_all add: big_port_def serial_of_def device_of_def serial_bufsz_def)

lemma big_port_mem: "serial_mem big_heap d (big_port p) Map.empty"
  using big_heap_rep(1) heap_run.start by (simp add: serial_mem_def serial_blocks_def big_heap_rep(3))

definition fresh_queue :: rt_data_queue where
  "fresh_queue = \<lparr>dq_size = 8, dq_lwm = 4, dq_get = 0, dq_put = 0, dq_items = map (\<lambda>_. (0, 0)) [0..<8], dq_notify = 0\<rparr>"

lemma big_opened:
  obtains w0 a where "rt_device_open sample_drv 0 0x803 (big_port p) = Some (Done RT_EOK, w0)" "serial_tx (serial_of w0 0) = Tx_dma a False fresh_queue"
    "hardware (snd w0) = p" "queues (dev_kernel w0) (Pushers 0) = []" "queues (dev_kernel w0) (Poppers 0) = []"
    "tx_complete (device_of w0 0) = 0"
proof -
  let ?w = "upd_device 0 (\<lambda>dv. dv\<lparr>open_flag := 3\<rparr>) (big_port p)" and ?k = "upd_dev 0 (\<lambda>dv. dv\<lparr>open_flag := 3\<rparr>) (dev_kernel (sample_port p))"
  have f: "fst ?w = (big_heap, ?k)" by (simp add: big_port_def upd_device_def)
  have c: "heap_calm ?k" by simp
  have need: "rt_align 40 = 40" "rt_align 64 = 64" by (simp_all add: rt_align_def)
  obtain h1 bs1 a where a: "rt_malloc 40 (big_heap, ?k) = Some (Mem a, h1, ?k)" "heap_rep h1 bs1" "a \<noteq> 0" "lfree_lowest h1 bs1"
    "\<exists>m'. (m', False) \<in> set bs1 \<and> 2000 \<le> m'"
    by (rule rt_malloc_room [OF big_heap_rep(1,2) c, of 40 4080]) (simp_all add: need)
  then obtain m' where m': "(m', False) \<in> set bs1" "2000 \<le> m'" by blast
  obtain h2 b where b: "rt_malloc 64 (h1, ?k) = Some (Mem b, h2, ?k)" "b \<noteq> 0"
    by (rule rt_malloc_room [OF a(2,4) c, of 64 m']) (use m' in \<open>simp_all add: need\<close>)
  have h: "snd (uart_control sample_uart e cmd arg x) = x" for e cmd arg x by (simp add: sample_uart_def)
  let ?k2 = "?k\<lparr>queues := (queues ?k)(Pushers 0 := [], Poppers 0 := [])\<rparr>"
  have al: "serial_alloc 40 ?w = Some (Done a, (h1, ?k), snd (sample_port p))" using a(1,3) by (simp add: serial_alloc_def f require_def)
  have qi: "serial_queue_init (\<lambda>_. (0, 0)) 0 junk_queue ((h1, ?k), snd (sample_port p)) = Some (Done fresh_queue, (h2, ?k2), snd (sample_port p))"
    using b by (simp add: serial_queue_init_def rt_data_queue_init_def Let_def junk_queue_def fresh_queue_def)
  define w1 where "w1 = low_control sample_uart 0 RT_DEVICE_CTRL_CONFIG RT_DEVICE_FLAG_DMA_TX
      (or_open_flag 0 RT_DEVICE_FLAG_DMA_TX (set_tx 0 (Tx_dma a False fresh_queue) ((h2, ?k2), snd (sample_port p))))"
  have o: "serial_open_tx sample_uart (\<lambda>_. (0, 0)) 0 0x803 ?w = Some (Done (), w1)" by (simp add: serial_open_tx_def al qi w1_def)
  have w1: "serial_tx (serial_of w1 0) = Tx_dma a False fresh_queue" "ref_count (device_of w1 0) = 0" "hardware (snd w1) = p"
    "queues (dev_kernel w1) (Pushers 0) = []" "queues (dev_kernel w1) (Poppers 0) = []" "tx_complete (device_of w1 0) = 0"
    by (simp_all add: w1_def low_control_def h device_of_def upd_dev_def) (simp_all add: sample_port_def upd_dev_def zero_device_def)
  show ?thesis
    by (rule that [of "upd_device 0 one_opening (or_open_flag 0 0 w1)" a])
      (use o w1 in \<open>simp_all add: rt_device_open_def open_activate_def open_counted_def call_open_def sample_drv_def serial_ops_def rt_serial_open_def
        open_flags_refused_def serial_open_rx_def has_open_flag_def zero_device_def Let_def require_def one_opening_def [abs_def] upd_dev_def\<close>)
qed

lemma sample_port_sends: "port_sends sample_uart (\<lambda>h. snd (snd h)) d"
  by (auto simp: port_sends_def sample_uart_def)

text \<open>A write, and the push of a second one with the end of the first transfer before its test.\<close>

lemma serial_transmits_in_order_witness:
  "\<exists>w0 w1 w2 w3 w4 cb. rt_device_open sample_drv 0 0x803 (big_port ([], [], [])) = Some (Done RT_EOK, w0) \<and>
     rt_device_write sample_drv 0 0 (100, [1, 2]) 2 w0 = Some (Done 2, w1) \<and>
     dma_tx_push 0 200 1 w1 = Some (Returned RT_EOK, w2) \<and>
     rt_hw_serial_isr sample_uart cb 0 RT_SERIAL_EVENT_TX_DMADONE w2 = Some w3 \<and>
     dma_tx_start sample_uart 0 200 1 w3 = Some w4 \<and>
     snd (snd (hardware (snd w4))) = [(100, 2), (200, 1)]"
proof -
  let ?s = "\<lambda>h :: port. snd (snd h)"
  obtain w0 a where w0: "rt_device_open sample_drv 0 0x803 (big_port ([], [], [])) = Some (Done RT_EOK, w0)" "serial_tx (serial_of w0 0) = Tx_dma a False fresh_queue"
    "hardware (snd w0) = ([], [], [])" "queues (dev_kernel w0) (Pushers 0) = []" "queues (dev_kernel w0) (Poppers 0) = []" "tx_complete (device_of w0 0) = 0"
    by (rule big_opened)
  have drv: "sample_drv 0 = serial_ops sample_uart (\<lambda>_. (0, 0)) 0x541B" by (simp add: sample_drv_def)
  have flags: "(0x803 :: u16) AND RT_DEVICE_FLAG_INT_TX = 0" "(0x803 :: u16) AND RT_DEVICE_FLAG_DMA_TX \<noteq> 0" "dq_items fresh_queue \<noteq> []"
    by (simp_all add: fresh_queue_def)
  have quiet: "complete_quiet sample_callbacks ?s 0" by (simp add: complete_quiet_def sample_callbacks_def tx_undisturbed_def)
  have h0: "tx_holds ?s 0 w0 [] 0" using w0(2,3) by (simp add: tx_holds_def dq_holds_def dq_list_def fresh_queue_def dq_ok_def)
  note in_order = serial_transmits_in_order [OF big_port_mem _ _ _ _ _ drv w0(1) flags(1,2) w0(2) flags(3) _ _ sample_port_sends quiet]
  have c0: "can_send 0 w0"
    by (rule device_opened [where drv = sample_drv and d = 0 and w = "big_port ([], [], [])", OF big_port_mem _ _ _ _ _ drv w0(1)])
      (simp_all add: can_send_def zero_device_def)
  have n2: "(2 :: u32) \<noteq> 0" "(2 :: u32) < 0x80000000" "unat (2 :: u32) \<le> length [1 :: u8, 2]" by simp_all
  obtain w1 q1 where w1: "rt_device_write sample_drv 0 0 (100, [1, 2]) 2 w0 = Some (Done 2, w1)" "dev_kernel w1 = dev_kernel w0"
    "serial_tx (serial_of w1 0) = Tx_dma a True q1" "dq_size q1 = dq_size fresh_queue"
    by (rule serial_send_room [where drv = sample_drv and d = 0 and w = w0, OF h0 sample_port_sends c0 drv w0(2) _ _ w0(5) n2])
      (simp_all add: fresh_queue_def)
  have r1: "tx_run sample_uart sample_callbacks sample_drv ?s 0 w0 w1 [(100, 2)] 0 None"
    using tx_run.send [OF tx_run.start c0 w1(1)] by (simp add: accepted_def)
  have h1: "tx_holds ?s 0 w1 [(100, 2)] 0" using tx_run_holds [where drv = sample_drv and d = 0, OF r1 h0 drv sample_port_sends quiet] by (simp add: tx_state_quiet)
  have c1: "can_send 0 w1" using c0 w1(2) by (simp add: can_send_def has_open_flag_def device_of_def)
  have k1: "queues (dev_kernel w1) (Poppers 0) = []" "queues (dev_kernel w1) (Pushers 0) = []" "tx_complete (device_of w1 0) = 0"
    using w0(4-6) w1(2) by (simp_all add: device_of_def)
  define w2f where "w2f = (\<lambda>q. set_tx 0 (Tx_dma a True q) w1)"
  obtain q2 where w2: "dma_tx_push 0 200 1 w1 = Some (Returned RT_EOK, w2f q2)"
    unfolding w2f_def by (rule dma_push_room [OF h1 w1(3) _ _ k1(1)]) (simp_all add: w1(4) fresh_queue_def)
  have r2: "tx_run sample_uart sample_callbacks sample_drv ?s 0 w0 (w2f q2) [(100, 2), (200, 1)] 0 (Some (200, 1))"
    using tx_run.pushed [OF r1 c1 _ w2] by simp
  have "tx_state ?s 0 (w2f q2) [(100, 2), (200, 1)] 0 (Some (200, 1))"
    using tx_run_holds [where drv = sample_drv and d = 0, OF r2 h0 drv sample_port_sends quiet] by simp
  then have q: "dq_holds q2 [(100, 2), (200, 1)] (take 0 [(100, 2), (200, 1)])" "dq_notify q2 = 0" "0 < length (?s (hardware (snd (w2f q2))))"
    "serial_tx (serial_of (w2f q2) 0) = Tx_dma a True q2"
    by (auto simp: tx_state_def w2f_def)
  obtain w3 where w3: "rt_hw_serial_isr sample_uart sample_callbacks 0 RT_SERIAL_EVENT_TX_DMADONE (w2f q2) = Some w3"
    by (rule serial_sent_quiet [OF q(4) q(1) _ q(2) sample_port_sends]) (use k1(2,3) in \<open>simp_all add: w2f_def device_of_def\<close>)
  have r3: "tx_run sample_uart sample_callbacks sample_drv ?s 0 w0 w3 [(100, 2), (200, 1)] (Suc 0) (Some (200, 1))"
    using tx_run.finished [OF r2 q(3) _ w3] by simp
  obtain p3 act3 q3 where "serial_tx (serial_of w3 0) = Tx_dma p3 act3 q3"
    using tx_run_holds [where drv = sample_drv and d = 0, OF r3 h0 drv sample_port_sends quiet] by (auto simp: tx_state_def)
  then have "dma_tx_start sample_uart 0 200 1 w3 \<noteq> None" by (cases act3) (simp_all add: dma_tx_start_def sample_uart_def)
  then obtain w4 where w4: "dma_tx_start sample_uart 0 200 1 w3 = Some w4" by (meson option.exhaust)
  have "?s (hardware (snd w4)) = [(100, 2), (200, 1)]"
    using in_order [OF _ _ _ _ _ tx_run.tested [OF r3 w4]] w0(3) by (auto simp: zero_device_def)
  then show ?thesis using w0(1) w1(1) w2 w3 w4 by blast
qed

end
