(* ===== verification/KMemory.thy ===== *)
theory KMemory
  imports KStringProps
begin

unbundle bit_operations_syntax

section \<open>Memory service (rt-thread/src/kservice.c)\<close>

text \<open>
  The functions that fill, copy and move memory, on an explicit memory: a map from the addresses of existing
  bytes to their contents.  An access elsewhere is undefined, and so is the access to a word of 32 bits, whose least
  byte comes first, at an address that is no multiple of 4.  The optimised functions work on words as
  long as they can; each agrees with the byte-wise meaning of its call.
\<close>

subsection \<open>Memory\<close>

type_synonym memory = "nat \<rightharpoonup> u8"

definition store8 :: "nat \<Rightarrow> u8 \<Rightarrow> memory \<Rightarrow> memory option" where
  "store8 a b m = (case m a of None \<Rightarrow> None | Some _ \<Rightarrow> Some (m(a \<mapsto> b)))"

definition store32 :: "nat \<Rightarrow> u32 \<Rightarrow> memory \<Rightarrow> memory option" where
  "store32 a w m = do {
     require (a AND 3 = 0);
     m1 \<leftarrow> store8 a (ucast w) m;
     m2 \<leftarrow> store8 (a + 1) (ucast (drop_bit 8 w)) m1;
     m3 \<leftarrow> store8 (a + 2) (ucast (drop_bit 16 w)) m2;
     store8 (a + 3) (ucast (drop_bit 24 w)) m3
   }"

definition load32 :: "nat \<Rightarrow> memory \<Rightarrow> u32 option" where
  "load32 a m = do {
     require (a AND 3 = 0);
     b0 \<leftarrow> m a;
     b1 \<leftarrow> m (a + 1);
     b2 \<leftarrow> m (a + 2);
     b3 \<leftarrow> m (a + 3);
     Some (ucast b0 OR push_bit 8 (ucast b1) OR push_bit 16 (ucast b2) OR push_bit 24 (ucast b3))
   }"

subsection \<open>Fill\<close>

text \<open>The loops of \<open>rt_memset\<close> over blocks of four words, words and bytes.\<close>

function set_blocks :: "nat \<Rightarrow> nat \<Rightarrow> u32 \<Rightarrow> memory \<Rightarrow> (nat \<times> nat \<times> memory) option" where
  "set_blocks count a w m =
     (if 16 \<le> count then do {
        m1 \<leftarrow> store32 a w m;
        m2 \<leftarrow> store32 (a + 4) w m1;
        m3 \<leftarrow> store32 (a + 8) w m2;
        m4 \<leftarrow> store32 (a + 12) w m3;
        set_blocks (count - 16) (a + 16) w m4
      }
      else Some (count, a, m))"
  by auto
termination by (relation "measure fst") auto

function set_words :: "nat \<Rightarrow> nat \<Rightarrow> u32 \<Rightarrow> memory \<Rightarrow> (nat \<times> nat \<times> memory) option" where
  "set_words count a w m =
     (if 4 \<le> count then do { m1 \<leftarrow> store32 a w m; set_words (count - 4) (a + 4) w m1 }
      else Some (count, a, m))"
  by auto
termination by (relation "measure fst") auto

fun set_bytes :: "nat \<Rightarrow> nat \<Rightarrow> u8 \<Rightarrow> memory \<Rightarrow> memory option" where
  "set_bytes 0 a b m = Some m"
| "set_bytes (Suc count) a b m = do { m1 \<leftarrow> store8 a b m; set_bytes count (a + 1) b m1 }"

definition rt_memset :: "nat \<Rightarrow> u32 \<Rightarrow> nat \<Rightarrow> memory \<Rightarrow> memory option" where
  "rt_memset s c count m = do {
     let d = c AND 0xFF;
     (count1, a, m1) \<leftarrow>
       (if \<not> count < 4 \<and> s AND 3 = 0 then do {
          let half = push_bit 8 d OR d;
          let buffer = half OR push_bit 16 half;
          (count1, a1, m1) \<leftarrow> set_blocks count s buffer m;
          set_words count1 a1 buffer m1
        }
        else Some (count, s, m));
     set_bytes count1 a (ucast d) m1
   }"

subsection \<open>Copy and move\<close>

definition copy32 :: "nat \<Rightarrow> nat \<Rightarrow> memory \<Rightarrow> memory option" where
  "copy32 dst src m = do { w \<leftarrow> load32 src m; store32 dst w m }"

definition copy8 :: "nat \<Rightarrow> nat \<Rightarrow> memory \<Rightarrow> memory option" where
  "copy8 dst src m = do { b \<leftarrow> m src; store8 dst b m }"

function copy_blocks :: "nat \<Rightarrow> nat \<Rightarrow> nat \<Rightarrow> memory \<Rightarrow> (nat \<times> nat \<times> nat \<times> memory) option" where
  "copy_blocks len dst src m =
     (if 16 \<le> len then do {
        m1 \<leftarrow> copy32 dst src m;
        m2 \<leftarrow> copy32 (dst + 4) (src + 4) m1;
        m3 \<leftarrow> copy32 (dst + 8) (src + 8) m2;
        m4 \<leftarrow> copy32 (dst + 12) (src + 12) m3;
        copy_blocks (len - 16) (dst + 16) (src + 16) m4
      }
      else Some (len, dst, src, m))"
  by auto
termination by (relation "measure fst") auto

function copy_words :: "nat \<Rightarrow> nat \<Rightarrow> nat \<Rightarrow> memory \<Rightarrow> (nat \<times> nat \<times> nat \<times> memory) option" where
  "copy_words len dst src m =
     (if 4 \<le> len then do { m1 \<leftarrow> copy32 dst src m; copy_words (len - 4) (dst + 4) (src + 4) m1 }
      else Some (len, dst, src, m))"
  by auto
termination by (relation "measure fst") auto

fun copy_bytes :: "nat \<Rightarrow> nat \<Rightarrow> nat \<Rightarrow> memory \<Rightarrow> memory option" where
  "copy_bytes 0 dst src m = Some m"
| "copy_bytes (Suc len) dst src m = do { m1 \<leftarrow> copy8 dst src m; copy_bytes len (dst + 1) (src + 1) m1 }"

text \<open>The counter is an \<open>int\<close>, but all its comparisons are with sizes and so unsigned.\<close>

definition rt_memcpy :: "nat \<Rightarrow> nat \<Rightarrow> nat \<Rightarrow> memory \<Rightarrow> memory option" where
  "rt_memcpy dst src count m = do {
     (len, dst_ptr, src_ptr, m1) \<leftarrow>
       (if \<not> count < 16 \<and> (src AND 3) OR (dst AND 3) = 0 then do {
          (len1, dst1, src1, m1) \<leftarrow> copy_blocks count dst src m;
          copy_words len1 dst1 src1 m1
        }
        else Some (count, dst, src, m));
     copy_bytes len dst_ptr src_ptr m1
   }"

fun copy_bytes_down :: "nat \<Rightarrow> nat \<Rightarrow> nat \<Rightarrow> memory \<Rightarrow> memory option" where
  "copy_bytes_down 0 tmp s m = Some m"
| "copy_bytes_down (Suc n) tmp s m = do { m1 \<leftarrow> copy8 (tmp - 1) (s - 1) m; copy_bytes_down n (tmp - 1) (s - 1) m1 }"

definition rt_memmove :: "nat \<Rightarrow> nat \<Rightarrow> nat \<Rightarrow> memory \<Rightarrow> memory option" where
  "rt_memmove dest src n m =
     (if src < dest \<and> dest < src + n then copy_bytes_down n (dest + n) (src + n) m
      else copy_bytes n dest src m)"

declare set_blocks.simps [simp del] set_words.simps [simp del] copy_blocks.simps [simp del] copy_words.simps [simp del]

subsection \<open>Their meaning\<close>

definition filled :: "nat \<Rightarrow> u8 \<Rightarrow> nat \<Rightarrow> memory \<Rightarrow> memory" where
  "filled s b n m = (\<lambda>a. if s \<le> a \<and> a < s + n then Some b else m a)"

definition moved :: "nat \<Rightarrow> nat \<Rightarrow> nat \<Rightarrow> memory \<Rightarrow> memory" where
  "moved dst src n m = (\<lambda>a. if dst \<le> a \<and> a < dst + n then m (src + (a - dst)) else m a)"

text \<open>All bytes of an area exist.\<close>

definition area :: "nat \<Rightarrow> nat \<Rightarrow> memory \<Rightarrow> bool" where
  "area s n m \<longleftrightarrow> (\<forall>a. s \<le> a \<and> a < s + n \<longrightarrow> m a \<noteq> None)"

lemma areaD: "area s n m \<Longrightarrow> s \<le> a \<Longrightarrow> a < s + n \<Longrightarrow> \<exists>b. m a = Some b"
  by (simp add: area_def)

lemma area_filled [simp]: "area t k m \<Longrightarrow> area t k (filled s b n m)"
  by (simp add: area_def filled_def)

lemma area_moved: "area t k m \<Longrightarrow> area src n m \<Longrightarrow> area t k (moved dst src n m)"
  unfolding area_def
proof (intro allI impI)
  fix a
  assume m: "\<forall>a. t \<le> a \<and> a < t + k \<longrightarrow> m a \<noteq> None" "\<forall>a. src \<le> a \<and> a < src + n \<longrightarrow> m a \<noteq> None" "t \<le> a \<and> a < t + k"
  have "m (src + (a - dst)) \<noteq> None" if "dst \<le> a" "a < dst + n"
    by (rule m(2) [rule_format]) (use that in linarith)
  then show "moved dst src n m a \<noteq> None" using m by (simp add: moved_def)
qed

lemma area_part: "area s n m \<Longrightarrow> s \<le> t \<Longrightarrow> t + k \<le> s + n \<Longrightarrow> area t k m"
  unfolding area_def by (meson le_trans less_le_trans)

lemma filled_add: "filled (s + k) b n (filled s b k m) = filled s b (k + n) m"
  by (auto simp: filled_def)

lemma filled_0 [simp]: "filled s b 0 m = m"
  by (rule ext) (auto simp: filled_def)

lemma moved_0 [simp]: "moved dst src 0 m = m"
  by (rule ext) (auto simp: moved_def)

lemma moved_add:
  "\<not> (src < dst \<and> dst < src + k + n) \<Longrightarrow> moved (dst + k) (src + k) n (moved dst src k m) = moved dst src (k + n) m"
  by (auto simp: moved_def fun_eq_iff)

text \<open>One byte and one word.\<close>

lemma store8_filled: "area a 1 m \<Longrightarrow> store8 a b m = Some (filled a b 1 m)"
  by (auto simp: store8_def area_def filled_def fun_eq_iff split: option.splits)

lemma copy8_moved: "area dst 1 m \<Longrightarrow> area src 1 m \<Longrightarrow> copy8 dst src m = Some (moved dst src 1 m)"
  by (auto simp: copy8_def store8_def area_def moved_def fun_eq_iff split: option.splits)

lemma and_3: "a AND 3 = a mod (4 :: nat)"
  using take_bit_eq_mask [of 2 a] by (simp add: take_bit_eq_mod mask_eq_exp_minus_1)

text \<open>The bytes of the word that \<open>rt_memset\<close> builds, and of a word that was loaded.\<close>

lemma word_bytes:
  fixes d :: u32
  assumes "d = ucast (b :: u8)"
  defines "w \<equiv> (push_bit 8 d OR d) OR push_bit 16 (push_bit 8 d OR d)"
  shows "ucast w = b" "ucast (drop_bit 8 w) = b" "ucast (drop_bit 16 w) = b" "ucast (drop_bit 24 w) = b"
  unfolding w_def assms
  by (rule bit_word_eqI; auto simp: bit_simps dest: bit_imp_le_length)+

lemma loaded_bytes:
  fixes b0 b1 b2 b3 :: u8
  defines "w \<equiv> (ucast b0 OR push_bit 8 (ucast b1) OR push_bit 16 (ucast b2) OR push_bit 24 (ucast b3) :: u32)"
  shows "ucast w = b0" "ucast (drop_bit 8 w) = b1" "ucast (drop_bit 16 w) = b2" "ucast (drop_bit 24 w) = b3"
  unfolding w_def
  by (rule bit_word_eqI; auto simp: bit_simps dest: bit_imp_le_length)+

definition word_of_byte :: "u8 \<Rightarrow> u32 \<Rightarrow> bool" where
  "word_of_byte b w \<longleftrightarrow> ucast w = b \<and> ucast (drop_bit 8 w) = b \<and> ucast (drop_bit 16 w) = b \<and> ucast (drop_bit 24 w) = b"

lemma store32_filled:
  assumes "a mod 4 = 0" "area a 4 m" "word_of_byte b w"
  shows "store32 a w m = Some (filled a b 4 m)"
proof -
  have st: "store8 (a + k) b (filled a b k m) = Some (filled a b (k + 1) m)" if "k < 4" for k
    using that store8_filled [of "a + k" "filled a b k m" b] area_part [OF assms(2), of "a + k" 1] filled_add [of a k b 1 m] by simp
  have "store8 a b m = Some (filled a b 1 m)" "store8 (a + 1) b (filled a b 1 m) = Some (filled a b 2 m)"
      "store8 (a + 2) b (filled a b 2 m) = Some (filled a b 3 m)" "store8 (a + 3) b (filled a b 3 m) = Some (filled a b 4 m)"
    using st [of 0] st [of 1] st [of 2] st [of 3] by (simp_all add: eval_nat_numeral)
  with assms(1,3) show ?thesis
    by (simp only: store32_def and_3 require_def word_of_byte_def if_True Option.bind.simps simp_thms)
qed

lemma copy32_moved:
  assumes "dst mod 4 = 0" "src mod 4 = 0" "area dst 4 m" "area src 4 m"
  shows "copy32 dst src m = Some (moved dst src 4 m)"
proof -
  have "\<exists>b. m (src + k) = Some b" "\<exists>b. m (dst + k) = Some b" if "k < 4" for k
    using that areaD [OF assms(3), of "dst + k"] areaD [OF assms(4), of "src + k"] by simp_all
  from this [of 0] this [of 1] this [of 2] this [of 3]
  obtain b0 b1 b2 b3 c0 c1 c2 c3 where
    "m src = Some b0" "m (src + 1) = Some b1" "m (src + 2) = Some b2" "m (src + 3) = Some b3"
    "m dst = Some c0" "m (dst + 1) = Some c1" "m (dst + 2) = Some c2" "m (dst + 3) = Some c3"
    by auto
  note m = this
  define w :: u32 where "w = ucast b0 OR push_bit 8 (ucast b1) OR push_bit 16 (ucast b2) OR push_bit 24 (ucast b3)"
  have "load32 src m = Some w" using m assms(2) by (simp add: load32_def and_3 require_def w_def)
  then have "copy32 dst src m = Some (m(dst \<mapsto> b0, dst + 1 \<mapsto> b1, dst + 2 \<mapsto> b2, dst + 3 \<mapsto> b3))"
    using m assms(1) loaded_bytes [of b0 b1 b2 b3, folded w_def]
    by (simp add: copy32_def store32_def store8_def and_3 require_def)
  also have "m(dst \<mapsto> b0, dst + 1 \<mapsto> b1, dst + 2 \<mapsto> b2, dst + 3 \<mapsto> b3) = moved dst src 4 m"
  proof
    fix a
    consider "a = dst" | "a = dst + 1" | "a = dst + 2" | "a = dst + 3" | "\<not> (dst \<le> a \<and> a < dst + 4)" by linarith
    then show "(m(dst \<mapsto> b0, dst + 1 \<mapsto> b1, dst + 2 \<mapsto> b2, dst + 3 \<mapsto> b3)) a = moved dst src 4 m a"
      using m by cases (auto simp: moved_def)
  qed
  finally show ?thesis .
qed

subsection \<open>The loops\<close>

lemma set_words_filled:
  "a mod 4 = 0 \<Longrightarrow> area a n m \<Longrightarrow> word_of_byte b w \<Longrightarrow>
   set_words n a w m = Some (n mod 4, a + (n - n mod 4), filled a b (n - n mod 4) m)"
proof (induction n a w m rule: set_words.induct)
  case (1 n a w m)
  show ?case
  proof (cases "4 \<le> n")
    case True
    then have m1: "store32 a w m = Some (filled a b 4 m)"
      by (intro store32_filled "1.prems" area_part [OF "1.prems"(2)]) simp_all
    have "set_words (n - 4) (a + 4) w (filled a b 4 m) =
        Some ((n - 4) mod 4, a + 4 + (n - 4 - (n - 4) mod 4), filled (a + 4) b (n - 4 - (n - 4) mod 4) (filled a b 4 m))"
      by (rule "1.IH" [OF True m1]) (use True "1.prems" area_part [OF "1.prems"(2), of "a + 4" "n - 4"] in auto)
    moreover have "(n - 4) mod 4 = n mod 4" "4 + (n - 4 - n mod 4) = n - n mod 4"
      using True by (simp_all add: le_mod_geq)
    ultimately show ?thesis using True m1
      by (subst set_words.simps) (simp add: filled_add add.assoc)
  qed (simp add: set_words.simps)
qed

lemma set_blocks_filled:
  "a mod 4 = 0 \<Longrightarrow> area a n m \<Longrightarrow> word_of_byte b w \<Longrightarrow>
   set_blocks n a w m = Some (n mod 16, a + (n - n mod 16), filled a b (n - n mod 16) m)"
proof (induction n a w m rule: set_blocks.induct)
  case (1 n a w m)
  show ?case
  proof (cases "16 \<le> n")
    case True
    have st: "store32 (a + k) w (filled a b k m) = Some (filled a b (k + 4) m)" if "k mod 4 = 0" "k + 4 \<le> 16" for k
    proof -
      have "(a + k) mod 4 = 0" using that(1) "1.prems"(1) by presburger
      then show ?thesis using store32_filled [of "a + k" "filled a b k m" b w] that "1.prems" area_part [OF "1.prems"(2), of "a + k" 4] True
          filled_add [of a k b 4 m] by simp
    qed
    note st4 = st [of 0, simplified] st [of 4, simplified] st [of 8, simplified] st [of 12, simplified]
    have "set_blocks (n - 16) (a + 16) w (filled a b 16 m) =
        Some ((n - 16) mod 16, a + 16 + (n - 16 - (n - 16) mod 16), filled (a + 16) b (n - 16 - (n - 16) mod 16) (filled a b 16 m))"
      by (rule "1.IH" [OF True st4]) (use True "1.prems" area_part [OF "1.prems"(2), of "a + 16" "n - 16"] in auto)
    moreover have "(n - 16) mod 16 = n mod 16" "16 + (n - 16 - n mod 16) = n - n mod 16"
      using True by (simp_all add: le_mod_geq)
    ultimately show ?thesis using True st4
      by (subst set_blocks.simps) (simp add: filled_add add.assoc)
  qed (simp add: set_blocks.simps)
qed

lemma set_bytes_filled: "area a n m \<Longrightarrow> set_bytes n a b m = Some (filled a b n m)"
proof (induction n arbitrary: a m)
  case (Suc n)
  have "store8 a b m = Some (filled a b 1 m)" by (rule store8_filled) (rule area_part [OF Suc.prems], simp_all)
  moreover have "set_bytes n (a + 1) b (filled a b 1 m) = Some (filled (a + 1) b n (filled a b 1 m))"
    by (rule Suc.IH) (rule area_filled, rule area_part [OF Suc.prems], simp_all)
  ultimately show ?case by (simp add: filled_add [of a 1, simplified])
qed simp

lemma copy_words_moved:
  "dst mod 4 = 0 \<Longrightarrow> src mod 4 = 0 \<Longrightarrow> area dst n m \<Longrightarrow> area src n m \<Longrightarrow> \<not> (src < dst \<and> dst < src + n) \<Longrightarrow>
   copy_words n dst src m = Some (n mod 4, dst + (n - n mod 4), src + (n - n mod 4), moved dst src (n - n mod 4) m)"
proof (induction n dst src m rule: copy_words.induct)
  case (1 n dst src m)
  show ?case
  proof (cases "4 \<le> n")
    case True
    note ar = area_part [OF "1.prems"(3)] area_part [OF "1.prems"(4)]
    have m1: "copy32 dst src m = Some (moved dst src 4 m)"
      by (intro copy32_moved "1.prems" ar) (use True in simp_all)
    have "copy_words (n - 4) (dst + 4) (src + 4) (moved dst src 4 m) =
        Some ((n - 4) mod 4, dst + 4 + (n - 4 - (n - 4) mod 4), src + 4 + (n - 4 - (n - 4) mod 4),
          moved (dst + 4) (src + 4) (n - 4 - (n - 4) mod 4) (moved dst src 4 m))"
    proof (rule "1.IH" [OF True m1])
      show "\<not> (src + 4 < dst + 4 \<and> dst + 4 < src + 4 + (n - 4))" using "1.prems"(5) True by linarith
    qed (use True "1.prems" in \<open>simp_all add: area_moved ar\<close>)
    moreover have "(n - 4) mod 4 = n mod 4" "4 + (n - 4 - n mod 4) = n - n mod 4"
      using True by (simp_all add: le_mod_geq)
    moreover have "\<not> (src < dst \<and> dst < src + 4 + (n - 4 - n mod 4))" using "1.prems"(5) True by linarith
    ultimately show ?thesis using True m1
      by (subst copy_words.simps) (simp add: moved_add add.assoc)
  qed (simp add: copy_words.simps)
qed

lemma copy_blocks_moved:
  "dst mod 4 = 0 \<Longrightarrow> src mod 4 = 0 \<Longrightarrow> area dst n m \<Longrightarrow> area src n m \<Longrightarrow> \<not> (src < dst \<and> dst < src + n) \<Longrightarrow>
   copy_blocks n dst src m = Some (n mod 16, dst + (n - n mod 16), src + (n - n mod 16), moved dst src (n - n mod 16) m)"
proof (induction n dst src m rule: copy_blocks.induct)
  case (1 n dst src m)
  show ?case
  proof (cases "16 \<le> n")
    case True
    note ar = area_part [OF "1.prems"(3)] area_part [OF "1.prems"(4)]
    have st: "copy32 (dst + k) (src + k) (moved dst src k m) = Some (moved dst src (k + 4) m)" if "k mod 4 = 0" "k + 4 \<le> 16" for k
    proof -
      have "(dst + k) mod 4 = 0" "(src + k) mod 4 = 0" using that(1) "1.prems"(1,2) by presburger+
      then have "copy32 (dst + k) (src + k) (moved dst src k m) = Some (moved (dst + k) (src + k) 4 (moved dst src k m))"
        by (rule copy32_moved) (use that True in \<open>simp_all add: area_moved ar\<close>)
      moreover have "\<not> (src < dst \<and> dst < src + k + 4)" using "1.prems"(5) that True by linarith
      ultimately show ?thesis by (simp add: moved_add)
    qed
    note st4 = st [of 0, simplified] st [of 4, simplified] st [of 8, simplified] st [of 12, simplified]
    have "copy_blocks (n - 16) (dst + 16) (src + 16) (moved dst src 16 m) =
        Some ((n - 16) mod 16, dst + 16 + (n - 16 - (n - 16) mod 16), src + 16 + (n - 16 - (n - 16) mod 16),
          moved (dst + 16) (src + 16) (n - 16 - (n - 16) mod 16) (moved dst src 16 m))"
    proof (rule "1.IH" [OF True st4])
      show "(dst + 16) mod 4 = 0" "(src + 16) mod 4 = 0" using "1.prems"(1,2) by presburger+
      show "\<not> (src + 16 < dst + 16 \<and> dst + 16 < src + 16 + (n - 16))" using "1.prems"(5) True by linarith
    qed (use True in \<open>simp_all add: area_moved ar\<close>)
    moreover have "(n - 16) mod 16 = n mod 16" "16 + (n - 16 - n mod 16) = n - n mod 16"
      using True by (simp_all add: le_mod_geq)
    moreover have "\<not> (src < dst \<and> dst < src + 16 + (n - 16 - n mod 16))" using "1.prems"(5) True by linarith
    ultimately show ?thesis using True st4
      by (subst copy_blocks.simps) (simp add: moved_add add.assoc)
  qed (simp add: copy_blocks.simps)
qed

lemma copy_bytes_moved:
  "area dst n m \<Longrightarrow> area src n m \<Longrightarrow> \<not> (src < dst \<and> dst < src + n) \<Longrightarrow> copy_bytes n dst src m = Some (moved dst src n m)"
proof (induction n arbitrary: dst src m)
  case (Suc n)
  note ar = area_part [OF Suc.prems(1)] area_part [OF Suc.prems(2)]
  have "copy8 dst src m = Some (moved dst src 1 m)" by (rule copy8_moved) (simp_all add: ar)
  moreover have "copy_bytes n (dst + 1) (src + 1) (moved dst src 1 m) = Some (moved (dst + 1) (src + 1) n (moved dst src 1 m))"
    by (rule Suc.IH) (use Suc.prems(3) in \<open>auto simp: area_moved ar\<close>)
  moreover have "\<not> (src < dst \<and> dst < src + 1 + n)" using Suc.prems(3) by simp
  ultimately show ?case using moved_add [of src dst 1 n m] by simp
qed simp

text \<open>Downwards, a source before the destination is not overwritten before it is read.\<close>

lemma copy_bytes_down_moved:
  "area dst n m \<Longrightarrow> area src n m \<Longrightarrow> src < dst \<Longrightarrow> copy_bytes_down n (dst + n) (src + n) m = Some (moved dst src n m)"
proof (induction n arbitrary: m)
  case (Suc n)
  note ar = area_part [OF Suc.prems(1)] area_part [OF Suc.prems(2)]
  have "copy8 (dst + n) (src + n) m = Some (moved (dst + n) (src + n) 1 m)" by (rule copy8_moved) (simp_all add: ar)
  moreover have "copy_bytes_down n (dst + n) (src + n) (moved (dst + n) (src + n) 1 m) =
      Some (moved dst src n (moved (dst + n) (src + n) 1 m))"
    by (rule Suc.IH) (use Suc.prems(3) in \<open>simp_all add: area_moved ar\<close>)
  moreover have "moved dst src n (moved (dst + n) (src + n) 1 m) = moved dst src (Suc n) m"
  proof
    fix a
    show "moved dst src n (moved (dst + n) (src + n) 1 m) a = moved dst src (Suc n) m a"
      using Suc.prems(3) by (cases "a = dst + n") (auto simp: moved_def)
  qed
  ultimately show ?case by simp
qed simp

subsection \<open>The calls\<close>

text \<open>
  On an area of existing bytes \<open>rt_memset\<close>, with its loops over blocks of words, over words and over bytes, sets
  every byte of the area to the low 8 bits of \<open>c\<close> and changes nothing else, whatever the alignment and the length.
\<close>
lemma rt_memset_fills:
  assumes "area s n m"
  shows "rt_memset s c n m = Some (filled s (ucast c) n m)"
proof -
  define w where "w = (push_bit 8 (c AND 0xFF) OR (c AND 0xFF)) OR push_bit 16 (push_bit 8 (c AND 0xFF) OR (c AND 0xFF))"
  have d: "c AND 0xFF = ucast (ucast c :: u8)"
  proof -
    have "c AND mask 8 = ucast (ucast c :: u8)" by (rule bit_word_eqI) (auto simp: bit_simps)
    then show ?thesis by (simp add: mask_eq_exp_minus_1)
  qed
  then have w: "word_of_byte (ucast c) w" using word_bytes [OF d] by (simp add: w_def word_of_byte_def)
  have low: "ucast (c AND 0xFF) = (ucast c :: u8)" unfolding d by (rule bit_word_eqI) (auto simp: bit_simps)
  show ?thesis
  proof (cases "\<not> n < 4 \<and> s mod 4 = 0")
    case False
    then show ?thesis using assms by (simp only: rt_memset_def and_3 Let_def if_False Option.bind.simps prod.case low set_bytes_filled)
  next
    case True
    define k where "k = n - n mod 16"
    define j where "j = n mod 16 - n mod 16 mod 4"
    define r where "r = n mod 16 mod 4"
    have n: "n mod 16 = j + r" "n = k + (j + r)" by (simp_all add: k_def j_def r_def)
    have k: "(s + k) mod 4 = 0" using True unfolding k_def by presburger
    have "set_blocks n s w m = Some (n mod 16, s + k, filled s (ucast c) k m)"
      unfolding k_def by (rule set_blocks_filled) (use True assms w in simp_all)
    moreover have "set_words (n mod 16) (s + k) w (filled s (ucast c) k m) =
        Some (r, s + k + j, filled (s + k) (ucast c) j (filled s (ucast c) k m))"
      unfolding j_def r_def
      by (rule set_words_filled [OF k _ w]) (rule area_filled, rule area_part [OF assms], use n in simp_all)
    moreover have "set_bytes r (s + k + j) (ucast c) (filled (s + k) (ucast c) j (filled s (ucast c) k m)) =
        Some (filled (s + k + j) (ucast c) r (filled (s + k) (ucast c) j (filled s (ucast c) k m)))"
      by (rule set_bytes_filled) (intro area_filled area_part [OF assms], use n in simp_all)
    moreover have "filled (s + k + j) (ucast c) r (filled (s + k) (ucast c) j (filled s (ucast c) k m)) = filled s (ucast c) n m"
      using filled_add [of s k "ucast c" j m] filled_add [of s "k + j" "ucast c" r m] n by (simp add: add.assoc)
    moreover note defs = rt_memset_def and_3 Let_def low w_def [symmetric]
    ultimately show ?thesis
      unfolding defs if_P [OF True] by (simp only: Option.bind.simps prod.case)
  qed
qed

lemma or_and_3: "(a AND 3) OR (b AND 3) = (0 :: nat) \<longleftrightarrow> a mod 4 = 0 \<and> b mod 4 = 0"
  by (simp add: and_3 or_eq_0_iff)

lemma rt_memcpy_copies:
  assumes ar: "area dst n m" "area src n m" and apart: "\<not> (src < dst \<and> dst < src + n)"
  shows "rt_memcpy dst src n m = Some (moved dst src n m)"
proof (cases "\<not> n < 16 \<and> (src AND 3) OR (dst AND 3) = 0")
  case False
  show ?thesis
    unfolding rt_memcpy_def if_not_P [OF False] by (simp only: Option.bind.simps prod.case copy_bytes_moved [OF assms])
next
  case True
  then have al: "dst mod 4 = 0" "src mod 4 = 0" by (simp_all only: or_and_3)
  define k where "k = n - n mod 16"
  define j where "j = n mod 16 - n mod 16 mod 4"
  define r where "r = n mod 16 mod 4"
  have n: "n mod 16 = j + r" "n = k + (j + r)" by (simp_all add: k_def j_def r_def)
  have al1: "(dst + k) mod 4 = 0" "(src + k) mod 4 = 0" using al unfolding k_def by presburger+
  have c1: "\<not> (src + k < dst + k \<and> dst + k < src + k + n mod 16)" using apart n by linarith
  have c2: "\<not> (src + k + j < dst + k + j \<and> dst + k + j < src + k + j + r)" using apart n by linarith
  note part = area_part [OF ar(1)] area_part [OF ar(2)]
  have "copy_blocks n dst src m = Some (n mod 16, dst + k, src + k, moved dst src k m)"
    unfolding k_def by (rule copy_blocks_moved [OF al assms])
  moreover have "copy_words (n mod 16) (dst + k) (src + k) (moved dst src k m) =
      Some (r, dst + k + j, src + k + j, moved (dst + k) (src + k) j (moved dst src k m))"
    unfolding j_def r_def
    by (rule copy_words_moved [OF al1 _ _ c1]) (use n in \<open>simp_all add: area_moved part\<close>)
  moreover have "copy_bytes r (dst + k + j) (src + k + j) (moved (dst + k) (src + k) j (moved dst src k m)) =
      Some (moved (dst + k + j) (src + k + j) r (moved (dst + k) (src + k) j (moved dst src k m)))"
    by (rule copy_bytes_moved [OF _ _ c2]) (use n in \<open>simp_all add: area_moved part\<close>)
  moreover have "moved (dst + k + j) (src + k + j) r (moved (dst + k) (src + k) j (moved dst src k m)) = moved dst src n m"
  proof -
    have "\<not> (src < dst \<and> dst < src + k + j)" "\<not> (src < dst \<and> dst < src + (k + j) + r)" using apart n by linarith+
    from moved_add [OF this(1), of m] moved_add [OF this(2), of m] n show ?thesis by (simp add: add.assoc)
  qed
  ultimately show ?thesis
    unfolding rt_memcpy_def if_P [OF True] by (simp only: Option.bind.simps prod.case)
qed

lemma rt_memmove_copies:
  assumes "area dst n m" "area src n m"
  shows "rt_memmove dst src n m = Some (moved dst src n m)"
  using copy_bytes_moved [OF assms] copy_bytes_down_moved [OF assms] by (simp add: rt_memmove_def)

text \<open>C38: On areas of existing bytes, whatever their alignment and length, \<open>rt_memset\<close> sets every byte to the low 8 bits
  of its argument, \<open>rt_memmove\<close> copies the bytes that were there before the call, also between areas that overlap, and \<open>rt_memcpy\<close>, by
  blocks of words, words and bytes, does the same unless the destination begins inside the source; nothing else changes.
\<close>
theorem memory_calls_bytewise:
  assumes "area dst n m" "area src n m"
  shows "rt_memset dst c n m = Some (\<lambda>a. if dst \<le> a \<and> a < dst + n then Some (ucast c) else m a) \<and>
    rt_memmove dst src n m = Some (\<lambda>a. if dst \<le> a \<and> a < dst + n then m (src + (a - dst)) else m a) \<and>
    (dst \<le> src \<or> src + n \<le> dst \<longrightarrow> rt_memcpy dst src n m = rt_memmove dst src n m)"
  using assms rt_memset_fills [of dst n m c] rt_memmove_copies [of dst n m src] rt_memcpy_copies [of dst n m src]
  by (simp add: filled_def moved_def linorder_not_less)

text \<open>Two areas of 16 bytes that touch.\<close>

definition sample_memory :: memory where
  "sample_memory a = (if 0x20000000 \<le> a \<and> a < 0x20000020 then Some (of_nat (a - 0x20000000)) else None)"

theorem memory_calls_bytewise_witness:
  "area 0x20000010 16 sample_memory \<and> area 0x20000000 16 sample_memory \<and>
   rt_memset 0x20000010 0xAA 16 sample_memory =
     Some (\<lambda>a. if 0x20000010 \<le> a \<and> a < 0x20000010 + 16 then Some 0xAA else sample_memory a) \<and>
   rt_memmove 0x20000010 0x20000000 16 sample_memory =
     Some (\<lambda>a. if 0x20000010 \<le> a \<and> a < 0x20000010 + 16 then sample_memory (0x20000000 + (a - 0x20000010)) else sample_memory a) \<and>
   rt_memcpy 0x20000010 0x20000000 16 sample_memory = rt_memmove 0x20000010 0x20000000 16 sample_memory"
proof -
  have "area 0x20000010 16 sample_memory" "area 0x20000000 16 sample_memory"
    by (simp_all add: area_def sample_memory_def)
  then show ?thesis
    using memory_calls_bytewise [of "0x20000010" 16 sample_memory "0x20000000" "0xAA"] by (simp cong: if_cong)
qed

text \<open>A copy to a place inside the source by \<open>rt_memcpy\<close> repeats the first bytes.\<close>

lemma rt_memcpy_overlap:
  "map_option (\<lambda>m. map m [1, 2, 3]) (rt_memcpy 1 0 3 (map_of [(0, 7), (1, 8), (2, 9), (3, 10)])) = Some [Some 7, Some 7, Some 7]"
  "map_option (\<lambda>m. map m [1, 2, 3]) (rt_memmove 1 0 3 (map_of [(0, 7), (1, 8), (2, 9), (3, 10)])) = Some [Some 7, Some 8, Some 9]"
  by code_simp+

subsection \<open>Search and comparison of strings\<close>

fun strstr_loop :: "u8 list \<Rightarrow> u8 list \<Rightarrow> nat \<Rightarrow> nat \<Rightarrow> nat \<Rightarrow> nat option option" where
  "strstr_loop s1 s2 l1 l2 k =
     (if l2 \<le> l1 then do {
        r \<leftarrow> rt_memcmp s1 s2 l2;
        if r = 0 then Some (Some k)
        else case l1 of 0 \<Rightarrow> Some None | Suc n \<Rightarrow> strstr_loop (drop 1 s1) s2 n l2 (k + 1)
      }
      else Some None)"


definition rt_strstr :: "u8 list \<Rightarrow> u8 list \<Rightarrow> nat option option" where
  "rt_strstr s1 s2 = do {
     l2 \<leftarrow> rt_strlen s2;
     if l2 = 0 then Some (Some 0)
     else do { l1 \<leftarrow> rt_strlen s1; strstr_loop s1 s2 l1 l2 0 }
   }"

text \<open>Upper case letters count as their lower case ones.\<close>

definition lower_case :: "u8 \<Rightarrow> int" where
  "lower_case c = (let i = uint c in if 65 \<le> i \<and> i \<le> 90 then i + 32 else i)"

fun rt_strcasecmp :: "u8 list \<Rightarrow> u8 list \<Rightarrow> u32 option" where
  "rt_strcasecmp (a # as) (b # bs) =
     (let ca = lower_case a; cb = lower_case b in
      if ca = cb \<and> ca \<noteq> 0 then rt_strcasecmp as bs else Some (word_of_int (ca - cb)))"
| "rt_strcasecmp _ _ = None"

lemma lower_case_zero: "lower_case c = 0 \<longleftrightarrow> c = 0"
  by (auto simp: lower_case_def Let_def uint_0_iff)

lemma lower_case_diff: "word_of_int (lower_case a - lower_case b) = (0 :: u32) \<longleftrightarrow> lower_case a = lower_case b"
proof -
  have "0 \<le> lower_case c \<and> lower_case c < 256" for c using uint_lt2p [of c] by (simp add: lower_case_def Let_def)
  then have "lower_case c mod 4294967296 = lower_case c" for c
    by (intro mod_pos_pos_trivial) (meson less_trans, simp add: order_less_le_trans [of _ 256])
  then show ?thesis by (simp add: word_of_int_eq_iff take_bit_eq_mod)
qed

lemma rt_strcasecmp_eq:
  "0 \<in> set a \<Longrightarrow> 0 \<in> set b \<Longrightarrow>
   \<exists>r. rt_strcasecmp a b = Some r \<and>
     (r = 0 \<longleftrightarrow> map lower_case (takeWhile (\<lambda>c. c \<noteq> 0) a) = map lower_case (takeWhile (\<lambda>c. c \<noteq> 0) b))"
proof (induction a b rule: rt_strcasecmp.induct)
  case (1 a as b bs)
  show ?case
  proof (cases "lower_case a = lower_case b \<and> a \<noteq> 0")
    case True
    then have "b \<noteq> 0" using lower_case_zero [of a] lower_case_zero [of b] by simp
    with True 1 show ?thesis by (auto simp: Let_def lower_case_zero)
  next
    case False
    then show ?thesis using lower_case_zero [of a] lower_case_zero [of b] lower_case_diff [of a b] by (auto simp: Let_def)
  qed
qed auto

text \<open>\<open>rt_strstr\<close> finds the first place where the second string begins in the first one.\<close>

definition first_place :: "u8 list \<Rightarrow> u8 list \<Rightarrow> nat option \<Rightarrow> bool" where
  "first_place t1 t2 r \<longleftrightarrow>
     (case r of
        None \<Rightarrow> \<forall>i. take (length t2) (drop i t1) \<noteq> t2
      | Some j \<Rightarrow> take (length t2) (drop j t1) = t2 \<and> (\<forall>i < j. take (length t2) (drop i t1) \<noteq> t2))"

lemma first_place_here: "take (length t2) t1 = t2 \<Longrightarrow> first_place t1 t2 (Some 0)"
  by (simp add: first_place_def)

lemma first_place_later:
  assumes "take (length t2) (c # t1) \<noteq> t2" "first_place t1 t2 r"
  shows "first_place (c # t1) t2 (map_option Suc r)"
proof (cases r)
  case None
  have "take (length t2) (drop i (c # t1)) \<noteq> t2" for i
    using assms None by (cases i) (auto simp: first_place_def)
  with None show ?thesis by (simp add: first_place_def)
next
  case (Some j)
  have "take (length t2) (drop i (c # t1)) \<noteq> t2" if "i < Suc j" for i
    using assms Some that by (cases i) (auto simp: first_place_def)
  with Some assms(2) show ?thesis by (simp add: first_place_def)
qed

lemma first_place_short: "length t1 < length t2 \<Longrightarrow> first_place t1 t2 None"
  unfolding first_place_def option.case by (metis diff_le_self leD length_drop length_take less_le_trans min.cobounded1)

declare strstr_loop.simps [simp del]

lemma strstr_loop_place:
  assumes "t2 \<noteq> []"
  shows "\<exists>r. strstr_loop (t1 @ x) (t2 @ y) (length t1) (length t2) k = Some (map_option ((+) k) r) \<and> first_place t1 t2 r"
proof (induction t1 arbitrary: k)
  case Nil
  then show ?case using assms first_place_short [of "[]" t2] by (subst strstr_loop.simps) auto
next
  case (Cons c t1)
  show ?case
  proof (cases "length t2 \<le> length (c # t1)")
    case False
    then show ?thesis using first_place_short [of "c # t1" t2] by (subst strstr_loop.simps) auto
  next
    case True
    obtain r where r: "rt_memcmp ((c # t1) @ x) (t2 @ y) (length t2) = Some r" "r = 0 \<longleftrightarrow> take (length t2) (c # t1) = t2"
    proof -
      have "take (length t2) ((c # t1) @ x) = take (length t2) (c # t1)" using True by (simp only: take_append) simp
      then show ?thesis using rt_memcmp_eq [of "length t2" "(c # t1) @ x" "t2 @ y"] True that by auto
    qed
    show ?thesis
    proof (cases "r = 0")
      case found: True
      have "strstr_loop ((c # t1) @ x) (t2 @ y) (length (c # t1)) (length t2) k = Some (map_option ((+) k) (Some 0))"
        using r True found by (subst strstr_loop.simps) simp
      with r found show ?thesis using first_place_here by blast
    next
      case False
      obtain r1 where r1: "strstr_loop (t1 @ x) (t2 @ y) (length t1) (length t2) (k + 1) = Some (map_option ((+) (k + 1)) r1)"
          "first_place t1 t2 r1"
        using Cons.IH by blast
      have "strstr_loop ((c # t1) @ x) (t2 @ y) (length (c # t1)) (length t2) k = Some (map_option ((+) k) (map_option Suc r1))"
        using r True False r1 by (cases r1; subst strstr_loop.simps; simp)
      with r r1 False show ?thesis using first_place_later by blast
    qed
  qed
qed

lemma rt_strstr_first:
  assumes "0 \<in> set s1" "0 \<in> set s2"
  shows "\<exists>r. rt_strstr s1 s2 = Some r \<and> first_place (takeWhile (\<lambda>c. c \<noteq> 0) s1) (takeWhile (\<lambda>c. c \<noteq> 0) s2) r"
proof -
  let ?t1 = "takeWhile (\<lambda>c. c \<noteq> 0) s1" and ?t2 = "takeWhile (\<lambda>c. c \<noteq> 0) s2"
  show ?thesis
  proof (cases "?t2 = []")
    case True
    then show ?thesis using assms by (simp add: rt_strstr_def rt_strlen_eq first_place_def)
  next
    case False
    from strstr_loop_place [OF this, of ?t1 "dropWhile (\<lambda>c. c \<noteq> 0) s1" "dropWhile (\<lambda>c. c \<noteq> 0) s2" 0]
    obtain r where "strstr_loop s1 s2 (length ?t1) (length ?t2) 0 = Some (map_option ((+) 0) r)" "first_place ?t1 ?t2 r" by auto
    then show ?thesis using assms False by (cases r; simp add: rt_strstr_def rt_strlen_eq)
  qed
qed

end
