(* ===== verification/Format.thy ===== *)
theory Format
  imports KStringProps
begin

unbundle bit_operations_syntax

section \<open>Formatted output (rt-thread/src/kservice.c)\<close>

text \<open>
  A buffer is the list of bytes from its address to the end of the object; the text is written to
  it character by character, each after a comparison with the end that the caller gave, and the
  position goes on when the text does not fit.  A write outside the object is undefined and gives \<open>None\<close>.  The widths are integers, and an overflow is
  undefined where a single step can reach it: in \<open>skip_atoi\<close>, in the negation of a width and in the negation
  of the number.  The conversion of a \<open>double\<close> to decimal digits (\<open>fcvtbuf\<close>, of the C library) and the
  operations on \<open>double\<close> are parameters.
\<close>

record printing =
  pr_buf :: "u8 list"
  pr_pos :: nat

definition put_char :: "nat \<Rightarrow> u8 \<Rightarrow> printing \<Rightarrow> printing option" where
  "put_char n c st =
     (if pr_pos st < n then do {
        require (pr_pos st < length (pr_buf st));
        Some \<lparr>pr_buf = (pr_buf st)[pr_pos st := c], pr_pos = pr_pos st + 1\<rparr>
      }
      else Some (st\<lparr>pr_pos := pr_pos st + 1\<rparr>))"

fun put_text :: "nat \<Rightarrow> u8 list \<Rightarrow> printing \<Rightarrow> printing option" where
  "put_text n [] st = Some st"
| "put_text n (c # cs) st = do { st1 \<leftarrow> put_char n c st; put_text n cs st1 }"

text \<open>The floating point conversion writes without a comparison.\<close>

fun put_raw :: "u8 list \<Rightarrow> printing \<Rightarrow> printing option" where
  "put_raw [] st = Some st"
| "put_raw (c # cs) st = do {
     require (pr_pos st < length (pr_buf st));
     put_raw cs \<lparr>pr_buf = (pr_buf st)[pr_pos st := c], pr_pos = pr_pos st + 1\<rparr>
   }"

text \<open>A loop \<open>while (size-- > 0)\<close> that puts a character, and what it leaves in \<open>size\<close>.\<close>

definition pad :: "nat \<Rightarrow> int \<Rightarrow> u8 \<Rightarrow> printing \<Rightarrow> printing option" where
  "pad n sz c st = put_text n (replicate (nat sz) c) st"

definition padded :: "int \<Rightarrow> int" where
  "padded sz = min sz 0 - 1"

subsection \<open>Numbers\<close>

abbreviation (input) ZEROPAD :: u8 where "ZEROPAD \<equiv> 0x01"
abbreviation (input) SIGN :: u8 where "SIGN \<equiv> 0x02"
abbreviation (input) PLUS :: u8 where "PLUS \<equiv> 0x04"
abbreviation (input) SPACE :: u8 where "SPACE \<equiv> 0x08"
abbreviation (input) LEFT :: u8 where "LEFT \<equiv> 0x10"
abbreviation (input) SPECIAL :: u8 where "SPECIAL \<equiv> 0x20"
abbreviation (input) LARGE :: u8 where "LARGE \<equiv> 0x40"

definition isdigit :: "u8 \<Rightarrow> bool" where
  "isdigit c \<longleftrightarrow> ucast c - (48 :: u32) < 10"

text \<open>\<open>divide\<close> knows the bases 10 and 16; base 8 is taken for 16.\<close>

definition divide :: "u32 \<Rightarrow> int \<Rightarrow> u32 \<times> u32" where
  "divide n base = (if base = 10 then (n mod 10, n div 10) else (n mod 16, n div 16))"

fun skip_atoi :: "int \<Rightarrow> u8 list \<Rightarrow> (int \<times> u8 list) option" where
  "skip_atoi i [] = None"
| "skip_atoi i (c # cs) =
     (if isdigit c then do {
        require (i * 10 + uint c < 2 ^ 31);
        skip_atoi (i * 10 + uint c - 48) cs
      }
      else Some (i, c # cs))"

text \<open>The characters \<open>0\<close> to \<open>9\<close> and the letters of the larger digits.\<close>

definition digit_char :: "bool \<Rightarrow> u32 \<Rightarrow> u8" where
  "digit_char large d = (if d < 10 then 48 + ucast d else if large then 55 + ucast d else 87 + ucast d)"

text \<open>The loop that fills \<open>tmp\<close>, the least digit first.\<close>

function number_digits :: "bool \<Rightarrow> int \<Rightarrow> u32 \<Rightarrow> u8 list" where
  "number_digits large base num =
     (if num = 0 then []
      else case divide num base of (d, num1) \<Rightarrow> digit_char large d # number_digits large base num1)"
  by auto
termination
  by (relation "measure (\<lambda>(_, _, num). unat num)") (auto simp: divide_def unat_div unat_gt_0 split: if_splits intro!: div_less_dividend)

declare number_digits.simps [simp del]

definition number_sign :: "u8 \<Rightarrow> u32 \<Rightarrow> u8 \<times> u32" where
  "number_sign ty num =
     (if ty AND SIGN \<noteq> 0 then
        if sint num < 0 then (45, - num)
        else if ty AND PLUS \<noteq> 0 then (43, num)
        else if ty AND SPACE \<noteq> 0 then (32, num)
        else (0, num)
      else (0, num))"

definition print_number :: "nat \<Rightarrow> u32 \<Rightarrow> int \<Rightarrow> int \<Rightarrow> int \<Rightarrow> u8 \<Rightarrow> printing \<Rightarrow> printing option" where
  "print_number n num0 base s precision0 type0 st0 = do {
     let ty = (if type0 AND LEFT \<noteq> 0 then type0 AND NOT ZEROPAD else type0);
     let c = (if ty AND ZEROPAD \<noteq> 0 then 48 else 32);
     require (ty AND SIGN = 0 \<or> sint num0 \<noteq> - (2 ^ 31));
     let (sign, num) = number_sign ty num0;
     let tmp = (if num = 0 then [48] else number_digits (ty AND LARGE \<noteq> 0) base num);
     let i = int (length tmp);
     let precision = (if i > precision0 then i else precision0);
     let size0 = s - precision;
     (size1, st1) \<leftarrow>
       (if ty AND (ZEROPAD OR LEFT) = 0 then do {
          let sz = (if sign \<noteq> 0 \<and> size0 > 0 then size0 - 1 else size0);
          st1 \<leftarrow> pad n sz 32 st0;
          Some (padded sz, st1)
        }
        else Some (size0, st0));
     (size2, st2) \<leftarrow> (if sign \<noteq> 0 then do { st2 \<leftarrow> put_char n sign st1; Some (size1 - 1, st2) } else Some (size1, st1));
     (size3, st3) \<leftarrow> (if ty AND LEFT = 0 then do { st3 \<leftarrow> pad n size2 c st2; Some (padded size2, st3) } else Some (size2, st2));
     st4 \<leftarrow> pad n (precision - i) 48 st3;
     st5 \<leftarrow> (if precision0 \<noteq> 0 then put_text n (rev tmp) st4 else Some st4);
     pad n size3 32 st5
   }"

subsection \<open>Floating point numbers\<close>

record 'd float_lib =
  fcvtbuf :: "'d \<Rightarrow> int \<Rightarrow> u8 list \<times> int \<times> bool"
  is_negative :: "'d \<Rightarrow> bool"
  negated :: "'d \<Rightarrow> 'd"

text \<open>The digits with a point before the one at \<open>decpt\<close>.\<close>

fun pointed :: "int \<Rightarrow> int \<Rightarrow> u8 list \<Rightarrow> u8 list" where
  "pointed pos decpt [] = []"
| "pointed pos decpt (d # ds) = (if pos = decpt then [46] else []) @ d # pointed (pos + 1) decpt ds"

text \<open>\<open>cfltcvt\<close> with the format \<open>f\<close>, the only one that \<open>rt_vsnprintf\<close> passes: the text without its NUL.\<close>

definition cfltcvt :: "'d float_lib \<Rightarrow> 'd \<Rightarrow> int \<Rightarrow> u8 list" where
  "cfltcvt fl value precision =
     (case fcvtbuf fl value precision of (digits, decpt, sign) \<Rightarrow>
        (if sign then [45] else []) @
        (if digits \<noteq> [] then
           if decpt \<le> 0 then [48, 46] @ replicate (nat (- decpt)) 48 @ digits
           else pointed 0 decpt digits
         else 48 # (if precision > 0 then 46 # replicate (nat precision) 48 else [])))"

text \<open>\<open>forcdecpt\<close>: before an exponent the characters from its second on move by one, and the point takes the place of the first.\<close>

fun forcdecpt :: "u8 list \<Rightarrow> u8 list" where
  "forcdecpt [] = [46]"
| "forcdecpt (c # cs) =
     (if c = 46 then c # cs
      else if c = 101 \<or> c = 69 then 46 # take 1 cs @ cs
      else c # forcdecpt cs)"

definition flt :: "'d float_lib \<Rightarrow> 'd \<Rightarrow> int \<Rightarrow> int \<Rightarrow> u8 \<Rightarrow> printing \<Rightarrow> printing option" where
  "flt fl num0 size0 precision0 flags0 st0 = do {
     let flags = (if flags0 AND LEFT \<noteq> 0 then flags0 AND NOT ZEROPAD else flags0);
     let c = (if flags AND ZEROPAD \<noteq> 0 then 48 else 32);
     let (sign, num, size1) =
       (if flags AND SIGN \<noteq> 0 then
          if is_negative fl num0 then (45, negated fl num0, size0 - 1)
          else if flags AND PLUS \<noteq> 0 then (43, num0, size0 - 1)
          else if flags AND SPACE \<noteq> 0 then (32, num0, size0 - 1)
          else (0, num0, size0)
        else (0, num0, size0));
     let precision = (if precision0 < 0 then 6 else precision0);
     let tmp0 = cfltcvt fl num precision;
     require (length tmp0 < 80);
     let tmp = (if flags AND SPECIAL \<noteq> 0 \<and> precision = 0 then forcdecpt tmp0 else tmp0);
     require (length tmp < 80);
     let size2 = size1 - int (length tmp);
     (size3, st1) \<leftarrow>
       (if flags AND (ZEROPAD OR LEFT) = 0
        then do { st1 \<leftarrow> put_raw (replicate (nat size2) 32) st0; Some (padded size2, st1) }
        else Some (size2, st0));
     st2 \<leftarrow> (if sign \<noteq> 0 then put_raw [sign] st1 else Some st1);
     (size4, st3) \<leftarrow>
       (if flags AND LEFT = 0
        then do { st3 \<leftarrow> put_raw (replicate (nat size3) c) st2; Some (padded size3, st3) }
        else Some (size3, st2));
     st4 \<leftarrow> put_raw tmp st3;
     put_raw (replicate (nat size4) 32) st4
   }"

subsection \<open>The arguments\<close>

text \<open>
  An argument is a word of 32 bits, a pointer (its address and the bytes of the object from there on) or a
  \<open>double\<close>.  To read an argument of another type, or none, is undefined.
\<close>

datatype 'd va_arg =
    Arg_word u32
  | Arg_ptr u32 "u8 list"
  | Arg_double 'd

fun va_word :: "'d va_arg list \<Rightarrow> (u32 \<times> 'd va_arg list) option" where
  "va_word (Arg_word w # args) = Some (w, args)"
| "va_word _ = None"

fun va_pointer :: "'d va_arg list \<Rightarrow> ((u32 \<times> u8 list) \<times> 'd va_arg list) option" where
  "va_pointer (Arg_ptr a s # args) = Some ((a, s), args)"
| "va_pointer _ = None"

fun va_double :: "'d va_arg list \<Rightarrow> ('d \<times> 'd va_arg list) option" where
  "va_double (Arg_double d # args) = Some (d, args)"
| "va_double _ = None"

subsection \<open>The directives\<close>

text \<open>The flags after the percent sign, the width, the precision and the qualifier.\<close>

fun vsn_flags :: "u8 \<Rightarrow> u8 list \<Rightarrow> (u8 \<times> u8 list) option" where
  "vsn_flags flags [] = None"
| "vsn_flags flags (c # fmt) =
     (if c = 45 then vsn_flags (flags OR LEFT) fmt
      else if c = 43 then vsn_flags (flags OR PLUS) fmt
      else if c = 32 then vsn_flags (flags OR SPACE) fmt
      else if c = 35 then vsn_flags (flags OR SPECIAL) fmt
      else if c = 48 then vsn_flags (flags OR ZEROPAD) fmt
      else Some (flags, c # fmt))"

fun vsn_width :: "u8 \<Rightarrow> u8 list \<Rightarrow> 'd va_arg list \<Rightarrow> (u8 \<times> int \<times> u8 list \<times> 'd va_arg list) option" where
  "vsn_width flags [] args = None"
| "vsn_width flags (c # fmt) args =
     (if isdigit c then do { (width, rest) \<leftarrow> skip_atoi 0 (c # fmt); Some (flags, width, rest, args) }
      else if c = 42 then do {
        (w, args1) \<leftarrow> va_word args;
        if sint w < 0 then do {
          require (sint w \<noteq> - (2 ^ 31));
          Some (flags OR LEFT, - sint w, fmt, args1)
        }
        else Some (flags, sint w, fmt, args1)
      }
      else Some (flags, -1, c # fmt, args))"

fun vsn_precision :: "u8 list \<Rightarrow> 'd va_arg list \<Rightarrow> (int \<times> u8 list \<times> 'd va_arg list) option" where
  "vsn_precision [] args = None"
| "vsn_precision (c # fmt) args =
     (if c = 46 then do {
        (precision, rest, args1) \<leftarrow>
          (case fmt of
             [] \<Rightarrow> None
           | c1 # fmt1 \<Rightarrow>
               if isdigit c1 then do { (p, rest) \<leftarrow> skip_atoi 0 fmt; Some (p, rest, args) }
               else if c1 = 42 then do { (w, args1) \<leftarrow> va_word args; Some (sint w, fmt1, args1) }
               else Some (-1, fmt, args));
        Some (if precision < 0 then 0 else precision, rest, args1)
      }
      else Some (-1, c # fmt, args))"

fun vsn_qualifier :: "u8 list \<Rightarrow> (u8 \<times> u8 list) option" where
  "vsn_qualifier [] = None"
| "vsn_qualifier (c # fmt) = Some (if c = 104 \<or> c = 108 then (c, fmt) else (0, c # fmt))"

text \<open>The number that an integer directive prints.\<close>

definition vsn_number :: "u8 \<Rightarrow> u8 \<Rightarrow> u32 \<Rightarrow> u32" where
  "vsn_number qualifier flags w =
     (if qualifier = 108 then w
      else if qualifier = 104 then
        let num = ucast (ucast w :: u16) in
        if flags AND SIGN \<noteq> 0 then scast (ucast num :: u16) else num
      else w)"

text \<open>The body of the \<open>switch\<close>: the result is the format from the character after the conversion on.\<close>

definition vsn_convert ::
    "'d float_lib \<Rightarrow> nat \<Rightarrow> u8 \<Rightarrow> int \<Rightarrow> int \<Rightarrow> u8 \<Rightarrow> u8 list \<Rightarrow> 'd va_arg list \<Rightarrow> printing \<Rightarrow>
       (u8 list \<times> 'd va_arg list \<times> printing) option" where
  "vsn_convert fl n flags width precision qualifier fmt args st0 =
     (case fmt of
        [] \<Rightarrow> None
      | c # rest \<Rightarrow>
          if c = 99 then do {
            (width1, st1) \<leftarrow>
              (if flags AND LEFT = 0
               then do { st1 \<leftarrow> pad n (width - 1) 32 st0; Some (min (width - 1) 0, st1) }
               else Some (width, st0));
            (w, args1) \<leftarrow> va_word args;
            st2 \<leftarrow> put_char n (ucast w) st1;
            st3 \<leftarrow> pad n (width1 - 1) 32 st2;
            Some (rest, args1, st3)
          }
          else if c = 115 then do {
            ((a, bytes), args1) \<leftarrow> va_pointer args;
            let s = (if a = 0 then [40, 78, 85, 76, 76, 41, 0] else bytes);
            len0 \<leftarrow> rt_strlen s;
            let len = (if precision > 0 \<and> int len0 > precision then precision else int len0);
            (width1, st1) \<leftarrow>
              (if flags AND LEFT = 0
               then do { st1 \<leftarrow> pad n (width - len) 32 st0; Some (min width len - 1, st1) }
               else Some (width, st0));
            st2 \<leftarrow> put_text n (take (nat len) s) st1;
            st3 \<leftarrow> pad n (width1 - len) 32 st2;
            Some (rest, args1, st3)
          }
          else if c = 112 then do {
            ((a, _), args1) \<leftarrow> va_pointer args;
            let (width1, flags1) = (if width = -1 then (8, flags OR ZEROPAD) else (width, flags));
            st1 \<leftarrow> print_number n a 16 width1 precision flags1 st0;
            Some (rest, args1, st1)
          }
          else if c = 37 then do { st1 \<leftarrow> put_char n 37 st0; Some (rest, args, st1) }
          else if c = 102 then do {
            (d, args1) \<leftarrow> va_double args;
            st1 \<leftarrow> flt fl d width precision (flags OR SIGN) st0;
            Some (rest, args1, st1)
          }
          else if c = 111 \<or> c = 88 \<or> c = 120 \<or> c = 100 \<or> c = 105 \<or> c = 117 then do {
            let base = (if c = 111 then 8 else if c = 88 \<or> c = 120 then 16 else 10);
            let flags1 = (if c = 88 then flags OR LARGE else if c = 100 \<or> c = 105 then flags OR SIGN else flags);
            (w, args1) \<leftarrow> va_word args;
            st1 \<leftarrow> print_number n (vsn_number qualifier flags1 w) base width precision flags1 st0;
            Some (rest, args1, st1)
          }
          else do {
            st1 \<leftarrow> put_char n 37 st0;
            if c \<noteq> 0 then do { st2 \<leftarrow> put_char n c st1; Some (rest, args, st2) }
            else Some (c # rest, args, st1)
          })"

text \<open>A directive, from the character after the percent sign on.\<close>

definition vsn_directive ::
    "'d float_lib \<Rightarrow> nat \<Rightarrow> u8 list \<Rightarrow> 'd va_arg list \<Rightarrow> printing \<Rightarrow> (u8 list \<times> 'd va_arg list \<times> printing) option" where
  "vsn_directive fl n fmt args st = do {
     (flags, fmt1) \<leftarrow> vsn_flags 0 fmt;
     (flags1, width, fmt2, args1) \<leftarrow> vsn_width flags fmt1 args;
     (precision, fmt3, args2) \<leftarrow> vsn_precision fmt2 args1;
     (qualifier, fmt4) \<leftarrow> vsn_qualifier fmt3;
     vsn_convert fl n flags1 width precision qualifier fmt4 args2 st
   }"

lemma skip_atoi_rest: "skip_atoi i fmt = Some (j, rest) \<Longrightarrow> length rest \<le> length fmt"
  by (induction i fmt rule: skip_atoi.induct) (auto split: if_splits simp: require_def)

lemma vsn_flags_rest: "vsn_flags f fmt = Some (g, rest) \<Longrightarrow> length rest \<le> length fmt"
  by (induction f fmt rule: vsn_flags.induct) (auto split: if_splits)

lemma vsn_width_rest: "vsn_width f fmt args = Some (g, w, rest, args1) \<Longrightarrow> length rest \<le> length fmt"
  by (cases fmt) (auto simp: require_def split: if_splits bind_splits dest!: skip_atoi_rest)

lemma vsn_precision_rest: "vsn_precision fmt args = Some (p, rest, args1) \<Longrightarrow> length rest \<le> length fmt"
  by (cases fmt) (auto split: if_splits bind_splits list.splits dest!: skip_atoi_rest)

lemma vsn_qualifier_rest: "vsn_qualifier fmt = Some (q, rest) \<Longrightarrow> length rest \<le> length fmt"
  by (cases fmt) (auto split: if_splits)

lemma vsn_convert_rest: "vsn_convert fl n f w p q fmt args st = Some (rest, args1, st1) \<Longrightarrow> length rest \<le> length fmt"
  by (cases fmt) (auto simp: vsn_convert_def Let_def require_def split: if_splits bind_splits)

lemma vsn_directive_rest: "vsn_directive fl n fmt args st = Some (rest, args1, st1) \<Longrightarrow> length rest \<le> length fmt"
  by (auto simp: vsn_directive_def split: bind_splits
      dest!: vsn_flags_rest vsn_width_rest vsn_precision_rest vsn_qualifier_rest vsn_convert_rest)

function vsn_loop :: "'d float_lib \<Rightarrow> nat \<Rightarrow> u8 list \<Rightarrow> 'd va_arg list \<Rightarrow> printing \<Rightarrow> printing option" where
  "vsn_loop fl n [] args st = None"
| "vsn_loop fl n (c # fmt) args st =
     (if c = 0 then Some st
      else if c \<noteq> 37 then do { st1 \<leftarrow> put_char n c st; vsn_loop fl n fmt args st1 }
      else do {
        (rest, args1, st1) \<leftarrow> vsn_directive fl n fmt args st;
        vsn_loop fl n rest args1 st1
      })"
  by pat_completeness auto
termination
  by (relation "measure (\<lambda>(_, _, fmt, _, _). length fmt)") (auto dest!: vsn_directive_rest)

definition rt_vsnprintf ::
    "'d float_lib \<Rightarrow> u32 \<Rightarrow> u8 list \<Rightarrow> u32 \<Rightarrow> u8 list \<Rightarrow> 'd va_arg list \<Rightarrow> (u32 \<times> u8 list) option" where
  "rt_vsnprintf fl addr buf size0 fmt args = do {
     let end0 = addr + size0;
     let (last, size) = (if end0 < addr then (- 1, - 1 - addr) else (end0, size0));
     let n = unat (last - addr);
     st \<leftarrow> vsn_loop fl n fmt args \<lparr>pr_buf = buf, pr_pos = 0\<rparr>;
     st1 \<leftarrow>
       (if size > 0 then
          if pr_pos st < n then do {
            require (pr_pos st < length (pr_buf st));
            Some (st\<lparr>pr_buf := (pr_buf st)[pr_pos st := 0]\<rparr>)
          }
          else do {
            require (n - 1 < length (pr_buf st));
            Some (st\<lparr>pr_buf := (pr_buf st)[n - 1 := 0]\<rparr>)
          }
        else Some st);
     Some (of_nat (pr_pos st1), pr_buf st1)
   }"

definition rt_snprintf ::
    "'d float_lib \<Rightarrow> u32 \<Rightarrow> u8 list \<Rightarrow> u32 \<Rightarrow> u8 list \<Rightarrow> 'd va_arg list \<Rightarrow> (u32 \<times> u8 list) option" where
  "rt_snprintf fl addr buf n fmt args = rt_vsnprintf fl addr buf n fmt args"

definition rt_vsprintf ::
    "'d float_lib \<Rightarrow> u32 \<Rightarrow> u8 list \<Rightarrow> u8 list \<Rightarrow> 'd va_arg list \<Rightarrow> (u32 \<times> u8 list) option" where
  "rt_vsprintf fl addr buf fmt args = rt_vsnprintf fl addr buf (- 1) fmt args"

definition rt_sprintf ::
    "'d float_lib \<Rightarrow> u32 \<Rightarrow> u8 list \<Rightarrow> u8 list \<Rightarrow> 'd va_arg list \<Rightarrow> (u32 \<times> u8 list) option" where
  "rt_sprintf fl addr buf fmt args = rt_vsprintf fl addr buf fmt args"

end
