(* ===== verification/FormatProps.thy ===== *)
theory FormatProps
  imports Format
begin

unbundle bit_operations_syntax

section \<open>What the formatted output contains\<close>

text \<open>
  The text of a format and its arguments, as a function that knows no buffer: the reference for the
  functions of the theory \<open>Format\<close>.  They put exactly this text, of which the buffer gets what fits.
\<close>

subsection \<open>Putting texts\<close>

lemma put_text_append: "put_text n (a @ b) st = Option.bind (put_text n a st) (put_text n b)"
proof (induction n a st rule: put_text.induct)
  case (2 n c cs st)
  then show ?case by (cases "put_char n c st") simp_all
qed simp

lemma put_text_fun:
  "put_text n (a @ b) = (\<lambda>st. Option.bind (put_text n a st) (put_text n b))"
  "put_text n (c # a) = (\<lambda>st. Option.bind (put_char n c st) (put_text n a))"
  "put_text n [] = Some"
  by (auto simp: put_text_append)

subsection \<open>Numbers\<close>

definition number_text :: "u32 \<Rightarrow> int \<Rightarrow> int \<Rightarrow> int \<Rightarrow> u8 \<Rightarrow> u8 list option" where
  "number_text num0 base width precision ty = do {
     require (ty AND SIGN = 0 \<or> sint num0 \<noteq> - (2 ^ 31));
     let (sign, num) = number_sign ty num0;
     let digits = (if num = 0 then [48] else rev (number_digits (ty AND LARGE \<noteq> 0) base num));
     let shown = replicate (nat (precision - int (length digits))) 48 @ (if precision \<noteq> 0 then digits else []);
     let sgn = (if sign \<noteq> 0 then [sign] else []);
     let gap = nat (width - max precision (int (length digits)) - int (length sgn));
     Some
       (if ty AND LEFT \<noteq> 0 then sgn @ shown @ replicate gap 32
        else if ty AND ZEROPAD \<noteq> 0 then sgn @ replicate gap 48 @ shown
        else replicate gap 32 @ sgn @ shown)
   }"

lemma and_not_ZEROPAD:
  "m AND ZEROPAD = 0 \<Longrightarrow> (ty AND NOT ZEROPAD) AND m = ty AND (m :: u8)"
  by (metis (no_types, lifting) and.assoc and.commute and.left_commute bit.conj_cancel_right bit.conj_disj_distrib bit.disj_cancel_right bit.conj_one_right or.commute or.right_neutral)

lemma flags_or: "ty AND (a OR b) = (0 :: u8) \<longleftrightarrow> ty AND a = 0 \<and> ty AND b = 0"
  by (simp add: bit.conj_disj_distrib or_eq_0_iff)

lemma not_ZEROPAD:
  fixes ty :: u8
  shows "(ty AND NOT ZEROPAD) AND SIGN = ty AND SIGN" "(ty AND NOT ZEROPAD) AND PLUS = ty AND PLUS"
    "(ty AND NOT ZEROPAD) AND SPACE = ty AND SPACE" "(ty AND NOT ZEROPAD) AND LEFT = ty AND LEFT"
    "(ty AND NOT ZEROPAD) AND LARGE = ty AND LARGE" "(ty AND NOT ZEROPAD) AND ZEROPAD = 0"
  by (rule and_not_ZEROPAD, simp)+ (simp add: and.assoc)

lemma number_sign_not_ZEROPAD: "number_sign (ty AND NOT ZEROPAD) num = number_sign ty num"
  by (simp only: number_sign_def not_ZEROPAD)

lemma replicate_nat_nonpos: "k \<le> 0 \<Longrightarrow> replicate (nat k) c = []"
  by simp

lemma print_number_text:
  "print_number n num base width precision ty st =
     Option.bind (number_text num base width precision ty) (\<lambda>t. put_text n t st)"
proof -
  obtain sign num1 where sn: "number_sign ty num = (sign, num1)" by (cases "number_sign ty num")
  define ty1 where "ty1 = (if ty AND LEFT \<noteq> 0 then ty AND NOT ZEROPAD else ty)"
  have ty1: "ty1 AND SIGN = ty AND SIGN" "ty1 AND LARGE = ty AND LARGE" "ty1 AND LEFT = ty AND LEFT"
      "ty1 AND ZEROPAD = (if ty AND LEFT \<noteq> 0 then 0 else ty AND ZEROPAD)" "number_sign ty1 num = (sign, num1)"
    unfolding ty1_def using sn by (simp_all only: not_ZEROPAD number_sign_not_ZEROPAD if_distrib [of "\<lambda>t. t AND _"]
        if_distrib [of "\<lambda>t. number_sign t num"] if_cancel)
  define tmp where "tmp = (if num1 = 0 then [48] else number_digits (ty AND LARGE \<noteq> 0) base num1)"
  have rv: "(if num1 = 0 then [48] else rev (number_digits (ty AND LARGE \<noteq> 0) base num1)) = rev tmp"
    by (simp add: tmp_def)
  note defs = print_number_def number_text_def Let_def require_def pad_def padded_def flags_or sn prod.case rv length_rev
  consider (undefined) "\<not> (ty AND SIGN = 0 \<or> sint num \<noteq> - (2 ^ 31))"
    | (left) "ty AND SIGN = 0 \<or> sint num \<noteq> - (2 ^ 31)" "ty AND LEFT \<noteq> 0"
    | (zero) "ty AND SIGN = 0 \<or> sint num \<noteq> - (2 ^ 31)" "ty AND LEFT = 0" "ty AND ZEROPAD \<noteq> 0"
    | (blank) "ty AND SIGN = 0 \<or> sint num \<noteq> - (2 ^ 31)" "ty AND LEFT = 0" "ty AND ZEROPAD = 0"
    by blast
  then show ?thesis
  proof cases
    case undefined
    then show ?thesis
      by (simp only: defs flip: ty1_def; simp only: ty1 if_False Option.bind.simps)
  next
    case left
    show ?thesis
      by (cases "sign = 0"; simp only: defs flip: ty1_def; simp only: ty1 prod.case flip: tmp_def; simp add: put_text_fun left)
  next
    case zero
    show ?thesis
      by (cases "sign = 0"; simp only: defs flip: ty1_def; simp only: ty1 prod.case flip: tmp_def; simp add: put_text_fun zero)
  next
    case blank
    show ?thesis
      by (cases "sign = 0"; simp only: defs flip: ty1_def; simp only: ty1 prod.case flip: tmp_def; simp add: put_text_fun blank)
  qed
qed

subsection \<open>Directives\<close>

definition aligned :: "u8 \<Rightarrow> int \<Rightarrow> u8 list \<Rightarrow> u8 list" where
  "aligned flags width t =
     (let gap = replicate (nat (width - int (length t))) 32 in if flags AND LEFT \<noteq> 0 then t @ gap else gap @ t)"

definition directive_text ::
    "u8 \<Rightarrow> int \<Rightarrow> int \<Rightarrow> u8 \<Rightarrow> u8 list \<Rightarrow> 'd va_arg list \<Rightarrow> (u8 list \<times> 'd va_arg list \<times> u8 list) option" where
  "directive_text flags width precision qualifier fmt args =
     (case fmt of
        [] \<Rightarrow> None
      | c # rest \<Rightarrow>
          if c = 99 then do {
            (w, args1) \<leftarrow> va_word args;
            Some (rest, args1, aligned flags width [ucast w])
          }
          else if c = 115 then do {
            ((a, bytes), args1) \<leftarrow> va_pointer args;
            let s = (if a = 0 then [40, 78, 85, 76, 76, 41, 0] else bytes);
            require (0 \<in> set s);
            let str = takeWhile (\<lambda>b. b \<noteq> 0) s;
            let shown = (if precision > 0 then take (nat precision) str else str);
            Some (rest, args1, aligned flags width shown)
          }
          else if c = 112 then do {
            ((a, _), args1) \<leftarrow> va_pointer args;
            t \<leftarrow> (if width = -1 then number_text a 16 8 precision (flags OR ZEROPAD) else number_text a 16 width precision flags);
            Some (rest, args1, t)
          }
          else if c = 37 then Some (rest, args, [37])
          else if c = 102 then None
          else if c = 111 \<or> c = 88 \<or> c = 120 \<or> c = 100 \<or> c = 105 \<or> c = 117 then do {
            let base = (if c = 111 then 8 else if c = 88 \<or> c = 120 then 16 else 10);
            let flags1 = (if c = 88 then flags OR LARGE else if c = 100 \<or> c = 105 then flags OR SIGN else flags);
            (w, args1) \<leftarrow> va_word args;
            t \<leftarrow> number_text (vsn_number qualifier flags1 w) base width precision flags1;
            Some (rest, args1, t)
          }
          else if c \<noteq> 0 then Some (rest, args, [37, c])
          else Some (c # rest, args, [37]))"

lemma strlen_loop_overreads: "0 \<notin> set s \<Longrightarrow> strlen_loop s k = None"
  by (induction s k rule: strlen_loop.induct) auto

lemma rt_strlen_iff: "rt_strlen s = (if 0 \<in> set s then Some (length (takeWhile (\<lambda>b. b \<noteq> 0) s)) else None)"
  by (simp add: rt_strlen_eq) (simp add: rt_strlen_def strlen_loop_overreads)

lemma take_takeWhile: "k \<le> length (takeWhile P s) \<Longrightarrow> take k s = take k (takeWhile P s)"
  by (induction s arbitrary: k) (auto simp: take_Cons' split: if_splits)

definition no_doubles :: "'d va_arg list \<Rightarrow> bool" where
  "no_doubles args \<longleftrightarrow> (\<forall>d. Arg_double d \<notin> set args)"

lemma va_double_none: "no_doubles args \<Longrightarrow> va_double args = None"
  by (cases args rule: va_double.cases) (auto simp: no_doubles_def)

lemma aligned_put_text:
  assumes "int (length t) = len"
  shows "Option.bind
      (if flags AND LEFT = 0 then do { st1 \<leftarrow> pad n (width - len) 32 st; Some (min width len - 1, st1) } else Some (width, st))
      (\<lambda>(w, st1). do { st2 \<leftarrow> put_text n t st1; st3 \<leftarrow> pad n (w - len) 32 st2; f st3 }) =
    Option.bind (put_text n (aligned flags width t) st) f"
  by (simp add: aligned_def Let_def pad_def put_text_append assms replicate_nat_nonpos)

lemma convert_s_text:
  "vsn_convert fl n flags width precision qualifier (115 # rest) args st =
    do {
      (rest, args1, t) \<leftarrow> directive_text flags width precision qualifier (115 # rest) args;
      st1 \<leftarrow> put_text n t st;
      Some (rest, args1, st1)
    }"
proof (cases "va_pointer args")
  case (Some p)
  obtain a bytes args1 where p: "p = ((a, bytes), args1)" by (cases p) auto
  define s :: "u8 list" where "s = (if a = 0 then [40, 78, 85, 76, 76, 41, 0] else bytes)"
  define str where "str = takeWhile (\<lambda>b. b \<noteq> 0) s"
  define len where "len = (if precision > 0 \<and> int (length str) > precision then precision else int (length str))"
  define shown where "shown = (if precision > 0 then take (nat precision) str else str)"
  show ?thesis
  proof (cases "0 \<in> set s")
    case True
    then have "rt_strlen s = Some (length str)" by (simp add: rt_strlen_iff str_def)
    moreover have shown: "int (length shown) = len" "take (nat len) s = shown"
      by (auto simp: shown_def len_def str_def take_takeWhile takeWhile_eq_take [symmetric])
    ultimately show ?thesis using aligned_put_text [OF shown(1), of flags n width st "\<lambda>st. Some (rest, args1, st)"] True
      by (simp add: vsn_convert_def directive_text_def Some p Let_def require_def flip: s_def str_def len_def shown_def
          cong: if_cong)
  next
    case False
    then show ?thesis
      by (simp add: vsn_convert_def directive_text_def Some p Let_def require_def rt_strlen_iff flip: s_def)
  qed
qed (simp add: vsn_convert_def directive_text_def)


lemma convert_c_text:
  "vsn_convert fl n flags width precision qualifier (99 # rest) args st =
    do {
      (rest, args1, t) \<leftarrow> directive_text flags width precision qualifier (99 # rest) args;
      st1 \<leftarrow> put_text n t st;
      Some (rest, args1, st1)
    }"
proof (cases "va_word args")
  case None
  then show ?thesis
    by (cases "flags AND LEFT = 0") (auto simp: vsn_convert_def directive_text_def split: bind_splits)
next
  case (Some p)
  then show ?thesis
    by (cases p; cases "flags AND LEFT = 0")
       (simp_all add: vsn_convert_def directive_text_def aligned_def Let_def pad_def put_text_fun replicate_nat_nonpos)
qed

lemma vsn_convert_text:
  assumes "no_doubles args"
  shows "vsn_convert fl n flags width precision qualifier fmt args st =
    do {
      (rest, args1, t) \<leftarrow> directive_text flags width precision qualifier fmt args;
      st1 \<leftarrow> put_text n t st;
      Some (rest, args1, st1)
    }"
proof (cases fmt)
  case (Cons c rest)
  consider (char) "c = 99" | (str) "c = 115" | (pointer) "c = 112" | (percent) "c = 37" | (float) "c = 102"
    | (integer) "c = 111 \<or> c = 88 \<or> c = 120 \<or> c = 100 \<or> c = 105 \<or> c = 117"
    | (other) "c \<noteq> 99" "c \<noteq> 115" "c \<noteq> 112" "c \<noteq> 37" "c \<noteq> 102" "\<not> (c = 111 \<or> c = 88 \<or> c = 120 \<or> c = 100 \<or> c = 105 \<or> c = 117)"
    by blast
  then show ?thesis
  proof cases
    case char
    show ?thesis unfolding Cons char by (rule convert_c_text)
  next
    case str
    show ?thesis unfolding Cons str by (rule convert_s_text)
  next
    case pointer
    then show ?thesis
      by (cases "va_pointer args"; cases "width = -1")
         (auto simp: vsn_convert_def directive_text_def Cons print_number_text)
  next
    case integer
    then have "c \<noteq> 99" "c \<noteq> 115" "c \<noteq> 112" "c \<noteq> 37" "c \<noteq> 102" by auto
    with integer show ?thesis
      by (cases "va_word args"; simp only: vsn_convert_def directive_text_def Cons print_number_text Let_def list.case if_False if_True
          Option.bind.simps split_paired_all prod.case Option.bind_assoc simp_thms)
  next
    case other
    show ?thesis
      by (cases "c = 0") (simp_all add: vsn_convert_def directive_text_def Cons other put_text_fun)
  qed (simp_all add: Cons vsn_convert_def directive_text_def va_double_none [OF assms])
qed (simp add: vsn_convert_def directive_text_def)

lemma directive_args: 
  "no_doubles args \<Longrightarrow> va_word args = Some (w, args1) \<Longrightarrow> no_doubles args1"
  "no_doubles args \<Longrightarrow> va_pointer args = Some (p, args1) \<Longrightarrow> no_doubles args1"
  by (cases args rule: va_word.cases; simp add: no_doubles_def)
     (cases args rule: va_pointer.cases; simp add: no_doubles_def)

lemma width_args: "no_doubles args \<Longrightarrow> vsn_width f fmt args = Some (g, w, rest, args1) \<Longrightarrow> no_doubles args1"
  by (cases fmt) (auto simp: require_def split: if_splits bind_splits intro: directive_args)

lemma precision_args: "no_doubles args \<Longrightarrow> vsn_precision fmt args = Some (p, rest, args1) \<Longrightarrow> no_doubles args1"
  by (cases fmt) (auto split: if_splits bind_splits list.splits intro: directive_args)

lemma convert_args:
  "no_doubles args \<Longrightarrow> directive_text f w p q fmt args = Some (rest, args1, t) \<Longrightarrow> no_doubles args1"
  by (cases fmt) (auto simp: directive_text_def Let_def require_def split: if_splits bind_splits intro: directive_args)

subsection \<open>Formats\<close>

definition parsed_directive :: "u8 list \<Rightarrow> 'd va_arg list \<Rightarrow> (u8 list \<times> 'd va_arg list \<times> u8 list) option" where
  "parsed_directive fmt args = do {
     (flags, fmt1) \<leftarrow> vsn_flags 0 fmt;
     (flags1, width, fmt2, args1) \<leftarrow> vsn_width flags fmt1 args;
     (precision, fmt3, args2) \<leftarrow> vsn_precision fmt2 args1;
     (qualifier, fmt4) \<leftarrow> vsn_qualifier fmt3;
     directive_text flags1 width precision qualifier fmt4 args2
   }"

lemma vsn_directive_text:
  assumes "no_doubles args"
  shows "vsn_directive fl n fmt args st =
    do {
      (rest, args1, t) \<leftarrow> parsed_directive fmt args;
      st1 \<leftarrow> put_text n t st;
      Some (rest, args1, st1)
    }"
proof -
  have "vsn_convert fl n flags1 width precision qualifier fmt4 args2 st =
    do {
      (rest, args1, t) \<leftarrow> directive_text flags1 width precision qualifier fmt4 args2;
      st1 \<leftarrow> put_text n t st;
      Some (rest, args1, st1)
    }"
    if "vsn_width flags fmt1 args = Some (flags1, width, fmt2, args1)"
       "vsn_precision fmt2 args1 = Some (precision, fmt3, args2)"
    for flags fmt1 flags1 width fmt2 args1 precision fmt3 args2 qualifier fmt4
    by (rule vsn_convert_text [OF precision_args [OF width_args [OF assms that(1)] that(2)]])
  then show ?thesis
    by (auto simp: vsn_directive_def parsed_directive_def bind_assoc split_beta intro!: Option.bind_cong)
qed

lemma directive_text_rest: "directive_text f w p q fmt args = Some (rest, args1, t) \<Longrightarrow> length rest \<le> length fmt"
  by (cases fmt) (auto simp: directive_text_def Let_def require_def split: if_splits bind_splits)

lemma parsed_directive_rest: "parsed_directive fmt args = Some (rest, args1, t) \<Longrightarrow> length rest \<le> length fmt"
  by (auto simp: parsed_directive_def split: bind_splits
      dest!: vsn_flags_rest vsn_width_rest vsn_precision_rest vsn_qualifier_rest directive_text_rest)

lemma parsed_directive_args: "parsed_directive fmt args = Some (rest, args1, t) \<Longrightarrow> no_doubles args \<Longrightarrow> no_doubles args1"
  by (auto simp: parsed_directive_def split: bind_splits dest!: width_args [rotated] precision_args [rotated] convert_args [rotated])

function vsn_text :: "u8 list \<Rightarrow> 'd va_arg list \<Rightarrow> u8 list option" where
  "vsn_text [] args = None"
| "vsn_text (c # fmt) args =
     (if c = 0 then Some []
      else if c \<noteq> 37 then do { t \<leftarrow> vsn_text fmt args; Some (c # t) }
      else do {
        (rest, args1, t) \<leftarrow> parsed_directive fmt args;
        t1 \<leftarrow> vsn_text rest args1;
        Some (t @ t1)
      })"
  by pat_completeness auto
termination
  by (relation "measure (\<lambda>(fmt, _). length fmt)") (auto dest!: parsed_directive_rest)

lemma put_text_then:
  "Option.bind (put_text n a st) (\<lambda>st1. Option.bind f (\<lambda>b. put_text n b st1)) =
     Option.bind f (\<lambda>b. put_text n (a @ b) st)"
  by (cases f; cases "put_text n a st") (simp_all add: put_text_append)

lemma vsn_loop_text: "no_doubles args \<Longrightarrow> vsn_loop fl n fmt args st = Option.bind (vsn_text fmt args) (\<lambda>t. put_text n t st)"
proof (induction fmt args arbitrary: st rule: vsn_text.induct)
  case (2 c fmt args)
  show ?case
  proof (cases "c = 37")
    case False
    have "vsn_loop fl n fmt args = (\<lambda>st. Option.bind (vsn_text fmt args) (\<lambda>t. put_text n t st))" if "c \<noteq> 0"
      using "2.IH"(1) [OF that False "2.prems"] by blast
    then show ?thesis using put_text_then [of n "[c]" st "vsn_text fmt args"]
      by (cases "c = 0") (simp_all add: False put_text_fun bind_assoc)
  next
    case True
    show ?thesis
    proof (cases "parsed_directive fmt args")
      case None
      then show ?thesis by (simp add: True vsn_directive_text [OF "2.prems"])
    next
      case (Some p)
      obtain rest args1 t where p: "p = (rest, args1, t)" by (cases p)
      have "no_doubles args1" by (rule parsed_directive_args [OF Some [unfolded p] "2.prems"])
      then have "vsn_loop fl n rest args1 = (\<lambda>st. Option.bind (vsn_text rest args1) (\<lambda>t. put_text n t st))"
        using "2.IH"(2) [OF _ _ Some p [symmetric] refl] True by auto
      then show ?thesis
        by (simp add: True vsn_directive_text [OF "2.prems"] Some p bind_assoc put_text_then)
    qed
  qed
qed simp

subsection \<open>The buffer\<close>

lemma put_text_eq:
  "n \<le> length b \<Longrightarrow>
   put_text n t \<lparr>pr_buf = b, pr_pos = p\<rparr> =
     Some \<lparr>pr_buf = take p b @ take (n - p) t @ drop (p + min (n - p) (length t)) b, pr_pos = p + length t\<rparr>"
proof (induction t arbitrary: b p)
  case (Cons c t)
  have "put_text n (c # t) \<lparr>pr_buf = b, pr_pos = p\<rparr> = put_text n t \<lparr>pr_buf = if p < n then b[p := c] else b, pr_pos = p + 1\<rparr>"
    using Cons.prems by (simp add: put_char_def require_def)
  moreover have "take (p + 1) (b[p := c]) @ take (n - (p + 1)) t @ drop (p + 1 + min (n - (p + 1)) (length t)) (b[p := c]) =
      take p b @ take (n - p) (c # t) @ drop (p + min (n - p) (length (c # t))) b" if "p < n"
  proof -
    have "take (p + 1) (b[p := c]) = take p b @ [c]" "n - p = Suc (n - (p + 1))"
      using that Cons.prems by (simp_all add: take_Suc_conv_app_nth)
    then show ?thesis by (simp add: drop_update_cancel)
  qed
  ultimately show ?case using Cons by simp
qed simp

text \<open>A text of which the buffer gets a prefix, so that a NUL fits behind it.\<close>

definition stored :: "u8 list \<Rightarrow> nat \<Rightarrow> u8 list \<Rightarrow> u8 list" where
  "stored t n buf = (let shown = take (n - 1) t in if n = 0 then buf else shown @ [0] @ drop (length shown + 1) buf)"

lemma length_stored: "n \<le> length buf \<Longrightarrow> length (stored t n buf) = length buf"
  by (simp add: stored_def Let_def min_def) linarith

lemma stored_update:
  "length t < n \<Longrightarrow> n \<le> length buf \<Longrightarrow> (t @ drop (length t) buf)[length t := 0] = stored t n buf"
  "n \<le> length t \<Longrightarrow> 0 < n \<Longrightarrow> (take n t @ drop n buf)[n - 1 := 0] = stored t n buf"
proof -
  assume "length t < n" "n \<le> length buf"
  then show "(t @ drop (length t) buf)[length t := 0] = stored t n buf"
    by (simp add: stored_def Let_def list_update_append upd_conv_take_nth_drop flip: Cons_nth_drop_Suc)
next
  assume n: "n \<le> length t" "0 < n"
  then have "take n t = take (n - 1) t @ [t ! (n - 1)]" by (cases n) (simp_all add: take_Suc_conv_app_nth)
  with n show "(take n t @ drop n buf)[n - 1 := 0] = stored t n buf" by (simp add: stored_def list_update_append)
qed

lemma vsnprintf_text:
  assumes "no_doubles args" "unat addr + unat sz < 2 ^ 32" "unat sz \<le> length buf"
  shows "rt_vsnprintf fl addr buf sz fmt args =
    do { t \<leftarrow> vsn_text fmt args; Some (of_nat (length t), stored t (unat sz) buf) }"
proof -
  have last: "\<not> addr + sz < addr" "unat (addr + sz - addr) = unat sz"
    using assms(2) by (simp_all add: word_less_nat_alt unat_word_ariths)
  show ?thesis
  proof (cases "sz = 0")
    case True
    then show ?thesis
      by (simp add: rt_vsnprintf_def Let_def vsn_loop_text [OF assms(1)] put_text_eq stored_def bind_assoc)
  next
    case False
    then have "0 < unat sz" by (simp add: unat_gt_0)
    with False show ?thesis using assms(3) last
      by (auto simp: rt_vsnprintf_def Let_def vsn_loop_text [OF assms(1)] put_text_eq require_def bind_assoc word_gt_0
          stored_update stored_update(2) [simplified] intro!: Option.bind_cong)
  qed
qed

lemma put_text_full:
  "length b < n \<Longrightarrow> p \<le> length b \<Longrightarrow>
   put_text n t \<lparr>pr_buf = b, pr_pos = p\<rparr> =
     (if p + length t \<le> length b then Some \<lparr>pr_buf = take p b @ t @ drop (p + length t) b, pr_pos = p + length t\<rparr> else None)"
proof (induction t arbitrary: b p)
  case (Cons c t)
  show ?case
  proof (cases "p < length b")
    case True
    then have "put_text n (c # t) \<lparr>pr_buf = b, pr_pos = p\<rparr> = put_text n t \<lparr>pr_buf = b[p := c], pr_pos = p + 1\<rparr>"
      using Cons.prems by (simp add: put_char_def require_def)
    moreover have "take (p + 1) (b[p := c]) = take p b @ [c]" using True by (simp add: take_Suc_conv_app_nth)
    ultimately show ?thesis using Cons.IH [of "b[p := c]" "p + 1"] Cons.prems True by (simp add: drop_update_cancel)
  next
    case False
    then show ?thesis using Cons.prems by (cases "p < n") (simp_all add: put_char_def require_def)
  qed
qed simp

text \<open>Without a size the text has to fit: a longer one is written past the end of the buffer.\<close>

lemma sprintf_text:
  assumes "no_doubles args" "unat addr + length buf + 1 < 2 ^ 32"
  shows "rt_sprintf fl addr buf fmt args =
    do {
      t \<leftarrow> vsn_text fmt args;
      require (length t < length buf);
      Some (of_nat (length t), t @ [0] @ drop (length t + 1) buf)
    }"
proof -
  define n where "n = unat (- 1 - addr)"
  have addr: "uint addr < 4294967296" using uint_lt2p [of addr] by simp
  have "(4294967295 - uint addr) mod 4294967296 = 4294967295 - uint addr"
    by (rule mod_pos_pos_trivial) (use addr uint_ge_0 [of addr] in linarith)+
  then have u: "uint (- 1 - addr) = 2 ^ 32 - 1 - uint addr" by (simp add: uint_word_ariths)
  have "n = nat (uint (- 1 - addr))" unfolding n_def by simp
  also have "\<dots> = 2 ^ 32 - 1 - unat addr" unfolding u using nat_diff_distrib [OF uint_ge_0 [of addr], of 4294967295] addr by simp
  finally have n: "n = 2 ^ 32 - 1 - unat addr" .
  with assms(2) have room: "length buf < n" by simp
  then have size: "0 < - 1 - addr" unfolding n_def by (simp add: word_less_nat_alt)
  have last: "addr + (- 1) < addr \<longleftrightarrow> addr \<noteq> 0"
  proof (cases "addr = 0")
    case False
    then have "0 < uint addr" using addr by (simp add: uint_0_iff order_less_le)
    then have "(uint addr - 1 + 4294967296) mod 4294967296 = uint addr - 1"
      unfolding mod_add_self2 using addr by (intro mod_pos_pos_trivial) linarith+
    with False show ?thesis by (simp add: word_less_alt uint_word_ariths)
  qed simp
  have n0: "unat (- 1 :: u32) = n" if "addr = 0" using that by (simp add: n_def)
  note defs = rt_sprintf_def rt_vsprintf_def rt_vsnprintf_def Let_def last [simplified] vsn_loop_text [OF assms(1)] n0 require_def
  show ?thesis
  proof (cases "vsn_text fmt args")
    case None
    then show ?thesis by (cases "addr = 0") (simp_all add: defs)
  next
    case (Some t)
    consider "length t < length buf" | "length t = length buf" | "length buf < length t" by linarith
    then show ?thesis
    proof cases
      case 1
      then have "(t @ drop (length t) buf)[length t := 0] = t @ 0 # drop (Suc (length t)) buf"
        by (simp add: list_update_append upd_conv_take_nth_drop flip: Cons_nth_drop_Suc)
      with 1 room size Some show ?thesis
        by (cases "addr = 0") (simp_all add: defs put_text_full flip: n_def)
    qed (use room size Some in \<open>cases "addr = 0"; simp add: defs put_text_full flip: n_def\<close>)+
  qed
qed

subsection \<open>Numbers and their texts\<close>

lemma digit_char_small: "d < 10 \<Longrightarrow> uint (digit_char l d) = 48 + uint d" "d < 10 \<Longrightarrow> isdigit (digit_char l d)"
proof -
  assume d: "d < 10"
  then have "uint d < 10" by (simp add: word_less_alt)
  then have "uint (ucast d :: u8) = uint d" by (simp add: unsigned_ucast_eq unsigned_take_bit_eq take_bit_eq_mod)
  with \<open>uint d < 10\<close> show u: "uint (digit_char l d) = 48 + uint d"
    using d by (simp add: digit_char_def uint_word_ariths)
  show "isdigit (digit_char l d)"
    using \<open>uint d < 10\<close> by (simp add: isdigit_def word_less_alt uint_word_ariths unsigned_ucast_eq unsigned_take_bit_eq take_bit_eq_mod u)
qed

lemma number_digits_10:
  "number_digits l 10 num = (if num = 0 then [] else digit_char l (num mod 10) # number_digits l 10 (num div 10))"
  by (subst number_digits.simps) (simp add: divide_def)

lemma skip_atoi_digits:
  "uint num + 48 < 2 ^ 31 \<Longrightarrow> skip_atoi 0 (rev (number_digits l 10 num) @ r) = skip_atoi (uint num) r"
proof (induction "unat num" arbitrary: num r rule: less_induct)
  case less
  show ?case
  proof (cases "num = 0")
    case False
    have "uint (num div 10) * 10 + uint (num mod 10) = uint num" by (simp add: uint_div uint_mod)
    moreover have "num mod 10 < 10" by (simp add: word_less_alt uint_mod)
    moreover have "unat (num div 10) < unat num" using False by (simp add: unat_div unat_gt_0)
    moreover have "uint (num div 10) \<le> uint num" using zdiv_mono2 [of "uint num" 1 10] by (simp add: uint_div)
    ultimately show ?thesis using less.hyps [of "num div 10"] less.prems False
      by (subst number_digits_10) (simp add: digit_char_small require_def)
  qed (simp add: number_digits_10)
qed

text \<open>With the last digit of a number of 2147483600 or more the sum before the subtraction of \<open>'0'\<close> overflows.\<close>

lemma skip_atoi_overflow:
  assumes "uint num < 2 ^ 31" "2 ^ 31 \<le> uint num + 48"
  shows "skip_atoi 0 (rev (number_digits l 10 num) @ r) = None"
proof -
  have "uint (num div 10) * 10 + uint (num mod 10) = uint num" "num mod 10 < 10" "num \<noteq> 0" "uint (num div 10) + 48 < 2 ^ 31"
    using assms by (auto simp: uint_div uint_mod word_less_alt)
  then show ?thesis using assms skip_atoi_digits [of "num div 10" l]
    by (subst number_digits_10) (simp add: digit_char_small require_def)
qed

lemma length_number_digits: "unat num < 10 ^ k \<Longrightarrow> length (number_digits l 10 num) \<le> k"
proof (induction k arbitrary: num)
  case (Suc k)
  then show ?case using Suc.IH [of "num div 10"]
    by (subst number_digits_10) (auto simp: unat_div)
next
  case 0
  then have "num = 0" by (simp flip: unat_eq_zero)
  then show ?case by (simp add: number_digits_10)
qed

lemma vsn_text_d:
  "sint x \<noteq> - (2 ^ 31) \<Longrightarrow>
   vsn_text [37, 100, 0] [Arg_word x] =
     Some ((if sint x < 0 then [45] else []) @
       (if x = 0 then [48] else rev (number_digits False 10 (if sint x < 0 then - x else x))))"
  by (simp add: parsed_directive_def isdigit_def directive_text_def vsn_number_def number_text_def number_sign_def require_def Let_def)

subsection \<open>What the functions store\<close>


definition sample_floats :: "int float_lib" where
  "sample_floats = \<lparr>fcvtbuf = (\<lambda>d p. (replicate (nat (p + 1)) 49, 1, False)), is_negative = (\<lambda>d. d < 0), negated = uminus\<rparr>"


text \<open>C40: \<open>%d\<close> prints every number but the least one in decimal, a minus sign before the digits of a negative one, into
  a buffer of 12 bytes or more.  \<open>skip_atoi\<close>, with which the functions read the numbers of a format, gives the
  magnitude back from the digits if it is below 2147483600; from there on, up to 2147483647, it overflows,
  because it adds the character before it subtracts \<open>'0'\<close>.  (For the least number see \<open>least_number_overflows\<close>.)
\<close>
theorem snprintf_decimal_roundtrip:
  assumes "sint x \<noteq> - (2 ^ 31)" "12 \<le> unat sz" "unat addr + unat sz < 2 ^ 32" "unat sz \<le> length buf"
  shows "\<exists>ds. ds \<noteq> [] \<and>
    (\<forall>r. skip_atoi 0 (ds @ 0 # r) = (if \<bar>sint x\<bar> < 2147483600 then Some (\<bar>sint x\<bar>, 0 # r) else None)) \<and>
    (let t = (if sint x < 0 then [45] else []) @ ds in
       rt_snprintf fl addr buf sz [37, 100, 0] [Arg_word x] = Some (of_nat (length t), t @ [0] @ drop (length t + 1) buf))"
proof -
  define u where "u = (if sint x < 0 then - x else x)"
  define ds where "ds = (if x = 0 then [48] else rev (number_digits False 10 u))"
  define t where "t = (if sint x < 0 then [45] else []) @ ds"
  have "- (2 ^ 31) \<le> sint x" "sint x < 2 ^ 31" using sint_ge [of x] sint_lt [of x] by simp_all
  then have small: "\<bar>sint x\<bar> < 2 ^ 31" using assms(1) by linarith
  have "u = word_of_int \<bar>sint x\<bar>" by (simp add: u_def abs_if)
  then have u: "uint u = \<bar>sint x\<bar>" using small by (simp add: uint_word_of_int)
  have u0: "u = 0 \<longleftrightarrow> x = 0" by (auto simp: u_def)
  have read: "skip_atoi 0 (ds @ 0 # r) = (if \<bar>sint x\<bar> < 2147483600 then Some (\<bar>sint x\<bar>, 0 # r) else None)" for r
  proof (cases "x = 0")
    case True
    then show ?thesis by (simp add: ds_def isdigit_def require_def)
  next
    case False
    show ?thesis
    proof (cases "\<bar>sint x\<bar> < 2147483600")
      case True
      then have "skip_atoi 0 (ds @ 0 # r) = skip_atoi (uint u) (0 # r)"
        using skip_atoi_digits [of u False "0 # r"] False by (simp add: ds_def u)
      then show ?thesis using True by (simp add: u isdigit_def)
    next
      case big: False
      then show ?thesis using skip_atoi_overflow [of u False "0 # r"] False small by (simp add: ds_def u)
    qed
  qed
  have "ds \<noteq> []" using u0 by (auto simp: ds_def number_digits_10)
  have "unat u < 10 ^ 10" using unsigned_less [where w = u and 'a = nat] by simp
  then have "length ds \<le> 10" using length_number_digits [of u 10 False] by (simp add: ds_def)
  moreover have "length t \<le> Suc (length ds)" by (simp add: t_def)
  ultimately have "length t \<le> unat sz - 1" using assms(2) by linarith
  then have stored: "stored t (unat sz) buf = t @ [0] @ drop (length t + 1) buf"
    using assms(2) by (simp add: stored_def Let_def)
  from vsn_text_d [OF assms(1)] have "vsn_text [37, 100, 0] [Arg_word x] = Some t" unfolding t_def ds_def u_def .
  note vsnprintf_text [OF _ assms(3,4), of "[Arg_word x]" fl "[37, 100, 0]", unfolded this Option.bind.simps stored]
  then have "rt_snprintf fl addr buf sz [37, 100, 0] [Arg_word x] = Some (of_nat (length t), t @ [0] @ drop (length t + 1) buf)"
    unfolding rt_snprintf_def by (simp add: no_doubles_def)
  with \<open>ds \<noteq> []\<close> read show ?thesis unfolding t_def Let_def by blast
qed

theorem snprintf_decimal_roundtrip_witness:
  "sint (- 305 :: u32) \<noteq> - (2 ^ 31) \<and> 12 \<le> unat (12 :: u32) \<and> unat (0x20000000 :: u32) + unat (12 :: u32) < 2 ^ 32 \<and>
   unat (12 :: u32) \<le> length (replicate 12 (0 :: u8)) \<and>
   (\<exists>ds. ds \<noteq> [] \<and> (\<forall>r. skip_atoi 0 (ds @ 0 # r) = Some (305, 0 # r)) \<and>
     (let t = [45] @ ds in
       rt_snprintf sample_floats 0x20000000 (replicate 12 0) 12 [37, 100, 0] [Arg_word (- 305)] =
         Some (of_nat (length t), t @ [0] @ drop (length t + 1) (replicate 12 0)))) \<and>
   (\<exists>ds. ds \<noteq> [] \<and> (\<forall>r. skip_atoi 0 (ds @ 0 # r) = None) \<and>
       rt_snprintf sample_floats 0x20000000 (replicate 12 0) 12 [37, 100, 0] [Arg_word 0x7FFFFFFF] =
         Some (of_nat (length ds), ds @ [0] @ drop (length ds + 1) (replicate 12 0)))"
  using snprintf_decimal_roundtrip [where x = "- 305" and sz = 12 and addr = "0x20000000" and buf = "replicate 12 0" and fl = sample_floats]
    snprintf_decimal_roundtrip [where x = "0x7FFFFFFF" and sz = 12 and addr = "0x20000000" and buf = "replicate 12 0" and fl = sample_floats]
  by simp

subsection \<open>Deviations\<close>

text \<open>
  \<open>divide\<close> takes every base but 10 for 16: \<open>%o\<close> prints hexadecimal digits.  With the precision 0 no digit is printed, also
  for a number that is not 0.  The least number has no negation.  \<open>%f\<close> writes on where the size of the
  buffer ends, here into the byte behind 4 bytes of a longer object, and outside the object if that is all there is.
\<close>

lemma octal_prints_hex: "vsn_text [37, 111, 0] [Arg_word 15 :: int va_arg] = Some [102]"
  by code_simp

lemma precision_zero_prints_nothing: "vsn_text [37, 46, 48, 100, 0] [Arg_word 5 :: int va_arg] = Some []"
  by code_simp

lemma least_number_overflows: "vsn_text [37, 100, 0] [Arg_word 0x80000000 :: int va_arg] = None"
  by code_simp

lemma float_ignores_size:
  "rt_snprintf sample_floats 0x20000000 (replicate 10 0) 4 [37, 102, 0] [Arg_double 1] =
     Some (8, [49, 46, 49, 0, 49, 49, 49, 49, 0, 0])"
  "rt_snprintf sample_floats 0x20000000 (replicate 4 0) 4 [37, 102, 0] [Arg_double 1] = None"
  by code_simp+

end
