(* ===== verification/Spec2Isabelle.thy ===== *)
theory Spec2Isabelle
  imports BlockPool RtList Ffs KString Sched Object Timer Clock Semaphore Mutex Event Mailbox MsgQueue MemPool KernelInv
    Sample SchedProps ThreadInv Blocking TimerProps ClockProps SemProps MutexProps EventProps MailboxProps MsgQueueProps MsgQueueCalls MemPoolProps RingBufferProps HeapProps HeapAlign
    TickRun Button SpeedControl ReceiverProps ObjectProps Idle Completion DataQueue SerialFifo Device SerialSend KMemory FormatProps
begin

text \<open>
  \<^bold>\<open>A model of the firmware of the car and of the RT-Thread kernel that it runs on.\<close>

  \<^bold>\<open>The program.\<close>  The firmware is RT-Thread 4.0.2 for a single-core Cortex-M3 with the application of
  the car on top.  \<open>applications/\<close> holds the application: a thread that measures the speed of two
  wheels and controls their motors (\<open>main.cpp\<close>, \<open>calc_speed.h\<close>, \<open>slide_window.h\<close>, \<open>pid.h\<close>, \<open>pwm.h\<close>), the
  reception of speed commands over a wireless module (\<open>tcpserver_esp8266.cpp\<close>), and buttons
  (\<open>button.h\<close>).  \<open>rt-thread/src/\<close> is the kernel: objects, threads, the scheduler, timers, the clock,
  the IPC objects, memory pools, the heap, the idle thread and the devices.
  \<open>rt-thread/components/drivers/\<close> has the structures that drivers share: ring buffers, completions,
  data queues, and the framework of the serial ports, through which the wireless module speaks.

  The parts meet in one kernel state.  The tick interrupt runs the timers, a timer wakes a thread,
  the scheduler picks it; an IPC object puts the current thread on a waiting list and a release
  takes the first thread off it; the heap is guarded by a semaphore; the command queue between the
  reception and the control thread is a message queue whose sender allocates memory; a serial
  device is a kernel object whose structures are on the heap, whose transmission waits for a
  completion or a data queue, and whose interrupt handler fills a FIFO that a thread reads.

  \<^bold>\<open>How the code is modelled.\<close>
    \<^item> Structures are records, enumerations are datatypes, and \<open>rt_uint8_t\<close>, \<open>rt_uint16_t\<close> and
      \<open>rt_uint32_t\<close> are words of their width (\<open>u8\<close>, \<open>u16\<close>, \<open>u32\<close>), so that sums wrap around as on the
      machine.  Error codes and other signed numbers are \<open>int\<close>.
    \<^item> The global variables and all kernel objects are the record \<open>kernel\<close> of theory KState; an object is
      named by its class and number (\<open>objref\<close>), a timer by \<open>timer_id\<close>, a thread by \<open>tid\<close>.
    \<^item> A function of the code is a function on this state.  A failed \<open>RT_ASSERT\<close>, a loop that does not
      end and an access outside an object are \<open>None\<close>; everything the code reports is a value.
    \<^item> Interrupts are off in the sections of the code that change shared state; a definition is such a
      section, or a call all of whose sections follow one another.  A call that blocks is the part up
      to its scheduling point, which yields \<open>Blocked\<close> (or \<open>Waits\<close>, \<open>Heap_blocked\<close>) with what it keeps on
      its stack, and a definition that continues it when its thread runs again.  Step relations
      (\<open>sem_run\<close>, \<open>mb_run\<close>, \<open>mq_run\<close>, \<open>mp_run\<close>, \<open>event_run\<close>, \<open>heap_run\<close>, \<open>comp_run\<close>, \<open>dq_run\<close>,
      \<open>registry_run\<close>, \<open>device_run\<close>) let them interleave in any order with the timers and the scheduler.
    \<^item> A kernel list is a list of threads, timers or objects.  Theory RtList has the pointers: circular
      doubly linked lists on a store of nodes, with the proof that the operations of \<open>rtservice.h\<close> do
      on the pointers what the kernel model does on lists; both are instances of one locale.
    \<^item> A loop over a list is recursion over it; a loop that a corrupt structure could keep going is a
      \<open>partial_function\<close>, and that it ends is a theorem wherever it is used.

  \<^bold>\<open>The theories\<close>, in the order of the code.  Files without a directory are in \<open>rt-thread/src/\<close>.
    \<^item> Prelude: word, list and option facts, \<open>require\<close> for assertions, and the collections \<open>kdefs\<close> and
      \<open>kframe\<close>.  Fifo and BlockPool: the contracts of bounded queues and of pools of blocks as
      locales.  Mailboxes and ring buffers interpret the first, memory pools and message queues
      the second.
    \<^item> RtList: \<open>include/rtservice.h\<close>.  Ffs, KString: \<open>kservice.c\<close> (\<open>__rt_ffs\<close>; \<open>rt_strncpy\<close>, \<open>rt_strncmp\<close>, \<open>rt_strcmp\<close>,
      \<open>rt_memcmp\<close>, \<open>rt_strlen\<close>, \<open>rt_strnlen\<close>), KStringProps: their mathematical meaning.
      KMemory: \<open>rt_memset\<close>, \<open>rt_memcpy\<close>, \<open>rt_memmove\<close>, \<open>rt_strstr\<close>, \<open>rt_strcasecmp\<close>, with their meaning.
      Format: \<open>rt_vsnprintf\<close>, \<open>rt_snprintf\<close>, \<open>rt_sprintf\<close> and what they call in \<open>kservice.c\<close>.  FormatProps: the text
      of a format, without buffers, and how much of it is stored.
    \<^item> KState: the structures of \<open>include/rtdef.h\<close> and the global variables.  Object: \<open>object.c\<close>.
      Sched: \<open>scheduler.c\<close> and the interrupt counter of \<open>irq.c\<close>.
    \<^item> TimerBase, Timer: \<open>timer.c\<close>.  Thread: \<open>thread.c\<close>, with the first stack frame of \<open>cpuport.c\<close>.
      Clock: \<open>clock.c\<close> and the sleeping calls of \<open>thread.c\<close>.
    \<^item> IpcBase, Semaphore, Mutex, Event, Mailbox, MsgQueue: \<open>ipc.c\<close>.  MemPool: \<open>mempool.c\<close>.
    \<^item> KernelInv: the invariant \<open>kinv\<close> of the kernel state, kept by every operation of the files above.
      Sample: a concrete state that satisfies it, on which the properties are applied.  Blocking: the
      specifications of blocking on a list and of waking its first thread that all IPC objects share.
    \<^item> SchedProps, ThreadInv, TimerProps, ClockProps, TickRun, SemProps, MutexProps, EventProps, MailboxProps,
      MsgQueueBlocks, MsgQueueProps, MemPoolProps, ObjectProps: the properties of each component.
      MsgQueueCalls: whole calls of a message queue, by which it is a bounded queue of messages.
    \<^item> Heap: \<open>mem.c\<close>.  HeapBlocks: the linked headers as a list of blocks.  HeapOwners: who owns which
      bytes.  HeapCalls, HeapProps: the whole calls, for their clients.  HeapAlign: \<open>rt_malloc_align\<close>,
      \<open>rt_free_align\<close> and \<open>rt_strdup\<close> of \<open>kservice.c\<close> over the heap.
    \<^item> Idle: \<open>idle.c\<close>, the clean-up of dead threads on the kernel and the heap together.  The clean-up
      functions of the threads may release memory of their own and change semaphores and other objects
      (\<open>cleanup_ok\<close>), as the one of \<open>pthread.c\<close> does.
    \<^item> RingBuffer, RingBufferProps: \<open>components/drivers/src/ringbuffer.c\<close>.  Completion, DataQueue:
      \<open>completion.c\<close> and \<open>dataqueue.c\<close> beside it.
    \<^item> Device: \<open>device.c\<close>; the contract of a driver is the locale \<open>device_driver\<close>.  SerialFifo, Serial:
      \<open>components/drivers/serial/serial.c\<close>.  SerialProps: the serial devices meet the contract, and
      their memory.  SerialStream: what is read of what arrived.  SerialSend: what is transmitted,
      with interrupts between the two sections of a write, and how a buffer comes to be sent twice.
    \<^item> Button, SlideWindow, SpeedControl: \<open>button.h\<close>, \<open>slide_window.h\<close> and the control thread of
      \<open>applications/\<close>.  Receiver, ReceiverProps: the handler of received data, with \<open>at_client_obj_recv\<close> of the
      AT component, composed with the heap and the message queue.

  \<^bold>\<open>What the lemmas show.\<close>
    \<^item> The scheduler: on every state with \<open>kinv\<close> a rescheduling succeeds, keeps \<open>kinv\<close> and leaves a
      thread of the highest ready priority running; equal priorities take turns.
    \<^item> Timers: a start inserts stably in the order of the wrapped ticks; a check ends, fires exactly
      the timers that are due, and wakes the threads that they belong to; a sleeping thread wakes at
      its tick and not before.
    \<^item> IPC: every branch of the calls; over every interleaving, semaphores neither lose nor make
      tokens, no thread waits for event bits that are set, and mails and messages are delivered
      in order, once, with their bytes; mutexes count recursive takes and pass on priority.
    \<^item> Memory: the blocks of the heap never overlap, hold the bytes that their owners wrote, and join to
      one free block when all are released; a memory pool never hands out a block twice.
    \<^item> Objects: a search returns an object of the class and name that were asked for.
    \<^item> Formatted output: what is stored is the prefix that fits of a text that depends on the format and
      the arguments alone; decimal numbers are read back to what was printed, below 2147483600.
    \<^item> Drivers: a ring buffer, a data queue and the FIFO of a serial port deliver what was put in, in
      order; openings of a device are counted; a serial device returns the memory of its FIFOs.
    \<^item> The application: the motors never get a pulse beyond their period, the measured speed is exact
      across wrap-arounds, a button triggers once per press, a received command reaches the queue.

  \<^bold>\<open>Bounds.\<close>  Delays and timeouts are below half of the range of ticks, as \<open>rt_timer_start\<close> asserts
  (\<open>timeout_ok\<close>).  The area of the heap, with its two last headers, ends below the address \<open>2^32\<close>.  A data queue is a queue for fewer than
  \<open>2^16\<close> pushes, after which its indices wrap around and it overwrites items.  The buffer of a
  serial port has at least two bytes, and in DMA mode at most \<open>2^15\<close>, so that the sum of an index and
  a length fits in 16 bits.  The buffer of a formatted text ends below the last address, and a field is narrower than
  \<open>2^31\<close> characters.  No definition uses fuel.

  \<^bold>\<open>Parameters.\<close>  What is not in the repository or is a register of the processor is an argument:
  the timeout functions of user timers and the entry functions of threads, the functions of a
  port's driver (\<open>rt_uart_ops\<close>), the functions that users register with a device, the notifier of a
  data queue, the clean-up and hook functions of the idle thread, the arithmetic of \<open>double\<close>
  (\<open>arith\<close>) and its conversion to decimal digits (\<open>float_lib\<close>), the line that \<open>sscanf\<close> reads, the levels of pins, the counters of encoders, and the
  contents of memory that was never written.

  \<^bold>\<open>Not modelled.\<close>
    \<^item> Code of the kernel that this firmware does not configure or use: several cores (\<open>cpu.c\<close>), signals
      (\<open>signal.c\<close>), slabs and memory heaps (\<open>slab.c\<close>, \<open>memheap.c\<close>), modules, hooks for tracing, and the skip lists
      of timers beyond one level.
    \<^item> Code whose effect is output or the control flow of the processor: printing on the
      console (\<open>rt_kputs\<close>, \<open>rt_kprintf\<close>), context switches and interrupt entry (\<open>libcpu/\<close>), and the tables of
      start-up functions (\<open>components.c\<close>), which the linker builds.
    \<^item> The file operations and the terminal settings of serial devices, and the other device
      drivers, which set registers or serve components that the car does not use; the set-up of the
      encoders' timers (\<open>drv_encoder.c\<close>); the dialogue that joins the wireless network and the display.
    \<^item> Vendor libraries (\<open>libraries/\<close>, \<open>cubemx/\<close>), third-party packages (\<open>packages/\<close>), the network,
      file-system, shell and C-library components of the distribution, and the build tools.
\<close>

end
